(* ===== verification/Prelude.thy ===== *)
theory Prelude
  imports Main "HOL-Library.Word" "HOL-Library.Monad_Syntax"
begin

unbundle bit_operations_syntax

text \<open>
  Vocabulary shared by every component: the C integer types, abnormal termination, raw
  memory with bounds-checked access, big-endian (network order) encodings, and the generic
  list and option lemmas the component proofs rest on.

  A C function that may abort the process (a failed \<^verbatim>\<open>ASSERT\<close>, \<^verbatim>\<open>msg(M_FATAL)\<close>) or that
  would touch memory outside an allocation returns an \<open>option\<close>: \<open>None\<close> is "the process
  stops or the behaviour is undefined", never an ordinary error return. Ordinary error
  returns (\<^verbatim>\<open>false\<close>, \<^verbatim>\<open>NULL\<close>, \<^verbatim>\<open>-1\<close>) stay values of the model.

  C \<^verbatim>\<open>int\<close> and \<^verbatim>\<open>time_t\<close> are \<open>int\<close>; identifiers whose wrap-around the code relies on
  (packet ids, addresses) are words.
\<close>

type_synonym u8 = "8 word"
type_synonym u16 = "16 word"
type_synonym u32 = "32 word"
type_synonym u64 = "64 word"
type_synonym bytes = "u8 list"

named_theorems wf_intros \<open>every operation keeps its component's well-formedness\<close>
named_theorems op_specs \<open>what the operations do, over the abstract view\<close>

section \<open>Abnormal termination\<close>

definition c_assert :: "bool \<Rightarrow> unit option" where
  "c_assert b = (if b then Some () else None)"

lemma c_assert_simps [simp]:
  "c_assert True = Some ()"
  "c_assert False = None"
  by (simp_all add: c_assert_def)

lemma c_assert_Some [simp]: "c_assert b = Some x \<longleftrightarrow> b"
  by (simp add: c_assert_def)

lemma c_assert_bind_Some [simp]:
  "(c_assert b \<bind> f) = Some y \<longleftrightarrow> b \<and> f () = Some y"
  by (auto simp: c_assert_def)

section \<open>Raw memory\<close>

text \<open>
  A block of memory is its list of bytes. \<open>mem_read m p n\<close> is reading \<open>n\<close> bytes at offset
  \<open>p\<close>, \<open>mem_write m p bs\<close> is \<^verbatim>\<open>memcpy(m + p, bs, |bs|)\<close>; both are \<open>None\<close> outside the block.
\<close>

definition mem_read :: "bytes \<Rightarrow> int \<Rightarrow> int \<Rightarrow> bytes option" where
  "mem_read m p n =
     (if 0 \<le> p \<and> 0 \<le> n \<and> p + n \<le> int (length m)
      then Some (take (nat n) (drop (nat p) m)) else None)"

definition mem_write :: "bytes \<Rightarrow> int \<Rightarrow> bytes \<Rightarrow> bytes option" where
  "mem_write m p bs =
     (if 0 \<le> p \<and> p + int (length bs) \<le> int (length m)
      then Some (take (nat p) m @ bs @ drop (nat p + length bs) m) else None)"

definition mem_get :: "bytes \<Rightarrow> int \<Rightarrow> u8 option" where
  "mem_get m p = (if 0 \<le> p \<and> p < int (length m) then Some (m ! nat p) else None)"

lemma mem_write_length: "mem_write m p bs = Some m' \<Longrightarrow> length m' = length m"
  by (auto simp: mem_write_def split: if_splits)

lemma mem_write_Some [simp]:
  "0 \<le> p \<Longrightarrow> p + int (length bs) \<le> int (length m) \<Longrightarrow>
   mem_write m p bs = Some (take (nat p) m @ bs @ drop (nat p + length bs) m)"
  by (simp add: mem_write_def)

lemma mem_read_Some [simp]:
  "0 \<le> p \<Longrightarrow> 0 \<le> n \<Longrightarrow> p + n \<le> int (length m) \<Longrightarrow>
   mem_read m p n = Some (take (nat n) (drop (nat p) m))"
  by (simp add: mem_read_def)

lemma mem_get_Some [simp]:
  "0 \<le> p \<Longrightarrow> p < int (length m) \<Longrightarrow> mem_get m p = Some (m ! nat p)"
  by (simp add: mem_get_def)

section \<open>Slices of lists\<close>

definition slice :: "nat \<Rightarrow> nat \<Rightarrow> 'a list \<Rightarrow> 'a list" where
  "slice p n xs = take n (drop p xs)"

lemma length_slice [simp]: "p + n \<le> length xs \<Longrightarrow> length (slice p n xs) = n"
  by (simp add: slice_def)

lemma slice_append_slice:
  "slice p n xs @ slice (p + n) k xs = slice p (n + k) xs"
  by (simp only: slice_def take_add drop_drop add.commute [of p n])

lemma slice_overwrite_at:
  "p + n \<le> length xs \<Longrightarrow>
   slice p (n + length ys) (take (p + n) xs @ ys @ drop (p + n + length ys) xs)
     = slice p n xs @ ys"
  by (simp add: slice_def take_drop add.commute [of n p])

lemma slice_overwrite_before:
  "length ys \<le> p \<Longrightarrow> p + n \<le> length xs \<Longrightarrow>
   slice (p - length ys) (length ys + n)
     (take (p - length ys) xs @ ys @ drop p xs) = ys @ slice p n xs"
  by (simp add: slice_def)

lemma slice_split: "k \<le> n \<Longrightarrow> slice p n xs = slice p k xs @ slice (p + k) (n - k) xs"
  by (simp add: slice_append_slice)

lemma slice_0 [simp]: "slice p 0 xs = []"
  by (simp add: slice_def)

lemma slice_full [simp]: "slice 0 (length xs) xs = xs"
  by (simp add: slice_def)

lemma take_slice: "k \<le> n \<Longrightarrow> take k (slice p n xs) = slice p k xs"
  by (simp add: slice_def min_def)

lemma drop_slice: "k \<le> n \<Longrightarrow> drop k (slice p n xs) = slice (p + k) (n - k) xs"
  by (simp add: slice_def drop_take add.commute)

section \<open>Network byte order\<close>

text \<open>
  \<^verbatim>\<open>htons\<close>, \<^verbatim>\<open>htonl\<close> and \<^verbatim>\<open>htonll\<close> followed by a copy to the wire: the big-endian bytes of
  the value; \<^verbatim>\<open>ntohs\<close>, \<^verbatim>\<open>ntohl\<close>, \<^verbatim>\<open>ntohll\<close> after a copy from the wire read them back.
\<close>

definition be16 :: "u16 \<Rightarrow> bytes" where
  "be16 w = [ucast (drop_bit 8 w), ucast w]"

definition be32 :: "u32 \<Rightarrow> bytes" where
  "be32 w = [ucast (drop_bit 24 w), ucast (drop_bit 16 w), ucast (drop_bit 8 w), ucast w]"

definition be64 :: "u64 \<Rightarrow> bytes" where
  "be64 w = [ucast (drop_bit 56 w), ucast (drop_bit 48 w), ucast (drop_bit 40 w),
             ucast (drop_bit 32 w), ucast (drop_bit 24 w), ucast (drop_bit 16 w),
             ucast (drop_bit 8 w), ucast w]"

definition from_be :: "bytes \<Rightarrow> 'a::len word" where
  "from_be bs = foldl (\<lambda>w b. push_bit 8 w OR ucast b) 0 bs"

abbreviation rd16 :: "bytes \<Rightarrow> u16" where "rd16 \<equiv> from_be"
abbreviation rd32 :: "bytes \<Rightarrow> u32" where "rd32 \<equiv> from_be"
abbreviation rd64 :: "bytes \<Rightarrow> u64" where "rd64 \<equiv> from_be"

lemma length_be [simp]: "length (be16 w) = 2" "length (be32 x) = 4" "length (be64 y) = 8"
  by (simp_all add: be16_def be32_def be64_def)

text \<open>One byte of the value shifted back in: the step every \<open>from_be\<close> round trip repeats.\<close>

lemma shift_in_byte:
  fixes w :: "'a::len word"
  shows "push_bit 8 (drop_bit (k + 8) w) OR ucast (ucast (drop_bit k w) :: u8) = drop_bit k w"
proof (rule bit_word_eqI)
  fix n assume n: "n < LENGTH('a)"
  show "bit (push_bit 8 (drop_bit (k + 8) w) OR ucast (ucast (drop_bit k w) :: u8)) n
          = bit (drop_bit k w) n"
  proof (cases "n < 8")
    case True
    with n show ?thesis by (simp add: bit_simps)
  next
    case False
    then have "k + 8 + (n - 8) = k + n" by simp
    with False n show ?thesis by (simp add: bit_simps)
  qed
qed

lemma drop_all_bits: "LENGTH('a) \<le> k \<Longrightarrow> drop_bit k (w :: 'a::len word) = 0"
  by (rule bit_word_eqI) (simp add: bit_simps)

lemma shift_in_first_byte:
  fixes w :: "'a::len word"
  assumes "LENGTH('a) \<le> k + 8"
  shows "ucast (ucast (drop_bit k w) :: u8) = drop_bit k w"
  using shift_in_byte [of k w] drop_all_bits [OF assms, of w] by simp

lemma rd16_be16 [simp]: "rd16 (be16 w) = w"
  using shift_in_first_byte [of 8 w] shift_in_byte [of 0 w] by (simp add: from_be_def be16_def)

lemma rd32_be32 [simp]: "rd32 (be32 w) = w"
  using shift_in_first_byte [of 24 w] shift_in_byte [of 16 w] shift_in_byte [of 8 w]
    shift_in_byte [of 0 w]
  by (simp add: from_be_def be32_def)

lemma rd64_be64 [simp]: "rd64 (be64 w) = w"
  using shift_in_first_byte [of 56 w] shift_in_byte [of 48 w] shift_in_byte [of 40 w]
    shift_in_byte [of 32 w] shift_in_byte [of 24 w] shift_in_byte [of 16 w]
    shift_in_byte [of 8 w] shift_in_byte [of 0 w]
  by (simp add: from_be_def be64_def)

section \<open>Arithmetic on a circle\<close>

lemma mod_add_cancel:
  assumes "(a + i) mod n = (a + j) mod n" "i < n" "j < (n::nat)"
  shows "i = j"
proof -
  have "(int a + int i) mod int n = (int a + int j) mod int n"
    using arg_cong [OF assms(1), of int] by (simp add: of_nat_mod)
  then have "int n dvd int i - int j" by (simp add: mod_eq_dvd_iff)
  then obtain k where k: "int i - int j = int n * k" ..
  have "\<bar>int i - int j\<bar> < int n" using assms(2,3) by linarith
  then have "\<bar>int n * k\<bar> < int n * 1" using k by simp
  then have "k = 0" using assms(2) by (simp add: abs_mult)
  with k show ?thesis by simp
qed

section \<open>Words\<close>

lemma word_less_pred_Suc: "(x :: 'a::len word) < y \<Longrightarrow> unat (x + 1) = Suc (unat x)"
  by unat_arith

lemma word_inc_le: "(x :: 'a::len word) < y \<Longrightarrow> x + 1 \<le> y \<and> 0 < x + 1"
  using word_less_pred_Suc [of x y] by (simp add: word_le_nat_alt word_less_nat_alt)

lemma word_inc_less: "(x :: 'a::len word) < y \<Longrightarrow> x < x + 1"
  using word_less_pred_Suc [of x y] by (simp add: word_less_nat_alt)

lemma uint_less_unat: "uint (w :: 'a::len word) < int n \<longleftrightarrow> unat w < n"
  by (simp flip: of_nat_less_iff [where ?'a = int])

lemma uint_le_unat: "uint (w :: 'a::len word) \<le> int n \<longleftrightarrow> unat w \<le> n"
  by (simp flip: of_nat_le_iff [where ?'a = int])

lemma unat_ucast_up:
  "LENGTH('a) \<le> LENGTH('b) \<Longrightarrow> unat (ucast (w :: 'a::len word) :: 'b::len word) = unat w"
  by (simp add: unsigned_ucast_eq take_bit_nat_eq_self_iff)
     (metis unsigned_less power_increasing_iff one_less_numeral_iff semiring_norm(76) less_le_trans)

lemma unat_word_of_int:
  "0 \<le> n \<Longrightarrow> n < 2 ^ LENGTH('a) \<Longrightarrow> unat (word_of_int n :: 'a::len word) = nat n"
  by (simp add: unat_eq_nat_uint uint_word_of_int_eq take_bit_int_eq_self)

lemma unat_sub_le: "(y :: 'a::len word) \<le> x \<Longrightarrow> unat (x - y) = unat x - unat y"
  by (rule unat_sub)

end
