(* ===== verification/Integer_Util.thy ===== *)
theory Integer_Util
  imports Prelude
begin

text \<open>
  The integer helpers of \<^verbatim>\<open>openvpn/src/openvpn/integer.h\<close>: min/max/constrain, index arithmetic on
  a circle (used by the circular list of the replay window), rounding to powers of two
  (used for hash-table and ring sizes) and the checked array index.
\<close>

section \<open>Definitions\<close>

definition max_int :: "int \<Rightarrow> int \<Rightarrow> int" where
  "max_int x y = (if x > y then x else y)"

definition min_int :: "int \<Rightarrow> int \<Rightarrow> int" where
  "min_int x y = (if x < y then x else y)"

definition max_uint :: "u32 \<Rightarrow> u32 \<Rightarrow> u32" where
  "max_uint x y = (if x > y then x else y)"

definition min_uint :: "u32 \<Rightarrow> u32 \<Rightarrow> u32" where
  "min_uint x y = (if x < y then x else y)"

definition min_size :: "u64 \<Rightarrow> u64 \<Rightarrow> u64" where
  "min_size x y = (if x < y then x else y)"

definition constrain_int :: "int \<Rightarrow> int \<Rightarrow> int \<Rightarrow> int" where
  "constrain_int x lo hi =
     (if lo > hi then lo else if x < lo then lo else if x > hi then hi else x)"

definition constrain_uint :: "u32 \<Rightarrow> u32 \<Rightarrow> u32 \<Rightarrow> u32" where
  "constrain_uint x lo hi =
     (if lo > hi then lo else if x < lo then lo else if x > hi then hi else x)"

definition modulo_subtract :: "int \<Rightarrow> int \<Rightarrow> int \<Rightarrow> int option" where
  "modulo_subtract x y m =
     (let d1 = x - y;
          d2 = (if x > y then - m else m) + d1
      in do {
        c_assert (0 \<le> x \<and> x < m \<and> 0 \<le> y \<and> y < m);
        Some (if \<bar>d1\<bar> > \<bar>d2\<bar> then d2 else d1)
      })"

definition modulo_add :: "int \<Rightarrow> int \<Rightarrow> int \<Rightarrow> int option" where
  "modulo_add x y m =
     (let s = x + y in do {
        c_assert (0 \<le> x \<and> x < m \<and> - m \<le> y \<and> y \<le> m);
        let s = (if s \<ge> m then s - m else s);
        Some (if s < 0 then s + m else s)
      })"

text \<open>
  The loop of \<^verbatim>\<open>adjust_power_of_2\<close>: \<open>ret\<close> is doubled until it reaches \<open>u\<close>; the assertion
  stops the process when the 64-bit doubling wraps to zero. The fuel is the number of
  doublings; 65 is always enough (\<open>adjust_power_of_2_total\<close> below rests on it).
\<close>

fun adjust_power_of_2_loop :: "nat \<Rightarrow> u64 \<Rightarrow> u64 \<Rightarrow> u64 option" where
  "adjust_power_of_2_loop 0 ret u = None"
| "adjust_power_of_2_loop (Suc fuel) ret u =
     (if ret < u then
        do { let ret = push_bit 1 ret;
             c_assert (ret > 0);
             adjust_power_of_2_loop fuel ret u }
      else Some ret)"

definition adjust_power_of_2 :: "u64 \<Rightarrow> u64 option" where
  "adjust_power_of_2 u = adjust_power_of_2_loop 65 1 u"

definition index_verify :: "int \<Rightarrow> int \<Rightarrow> int option" where
  "index_verify index sz = do { c_assert (\<not> (index < 0 \<or> index \<ge> sz)); Some index }"

definition round_down_size :: "nat \<Rightarrow> nat \<Rightarrow> nat" where
  "round_down_size num multiple = (num div multiple) * multiple"

section \<open>Lemmas\<close>

lemma max_int_max [simp]: "max_int x y = max x y"
  by (simp add: max_int_def)

lemma min_int_min [simp]: "min_int x y = min x y"
  by (simp add: min_int_def)

lemma min_uint_min: "min_uint x y = min x y"
  by (simp add: min_uint_def)

lemma max_uint_max: "max_uint x y = max x y"
  by (simp add: max_uint_def)

lemma constrain_int_bounds:
  "lo \<le> hi \<Longrightarrow> lo \<le> constrain_int x lo hi \<and> constrain_int x lo hi \<le> hi"
  by (simp add: constrain_int_def)

lemma constrain_int_id: "lo \<le> x \<Longrightarrow> x \<le> hi \<Longrightarrow> constrain_int x lo hi = x"
  by (simp add: constrain_int_def)

lemma modulo_add_mod:
  assumes "0 \<le> x" "x < m" "- m \<le> y" "y \<le> m"
  shows "modulo_add x y m = Some ((x + y) mod m)"
proof -
  consider "x + y \<ge> m" | "x + y < 0" | "0 \<le> x + y" "x + y < m" by linarith
  then show ?thesis
  proof cases
    case 1
    have "(x + y) mod m = (x + y - m) mod m" by simp
    also have "\<dots> = x + y - m" using assms 1 by (intro mod_pos_pos_trivial) auto
    finally show ?thesis using assms 1 by (simp add: modulo_add_def)
  next
    case 2
    have "(x + y) mod m = (x + y + m) mod m" by simp
    also have "\<dots> = x + y + m" using assms 2 by (intro mod_pos_pos_trivial) auto
    finally show ?thesis using assms 2 by (simp add: modulo_add_def)
  next
    case 3
    then show ?thesis using assms by (simp add: modulo_add_def mod_pos_pos_trivial)
  qed
qed

lemma modulo_subtract_spec:
  assumes "0 \<le> x" "x < m" "0 \<le> y" "y < m"
  shows "\<exists>d. modulo_subtract x y m = Some d \<and> (y + d) mod m = x \<and> 2 * \<bar>d\<bar> \<le> m"
proof -
  have "(y + (x - y)) mod m = x" "(y + (m + (x - y))) mod m = x" "(y + (- m + (x - y))) mod m = x"
    using assms by (simp_all add: mod_pos_pos_trivial)
  moreover have "2 * \<bar>if \<bar>x - y\<bar> > \<bar>(if x > y then - m else m) + (x - y)\<bar>
      then (if x > y then - m else m) + (x - y) else x - y\<bar> \<le> m"
    using assms by (auto split: if_splits)
  ultimately show ?thesis
    using assms by (auto simp: modulo_subtract_def Let_def)
qed

lemma index_verify_Some: "index_verify i n = Some j \<longleftrightarrow> 0 \<le> i \<and> i < n \<and> j = i"
  by (auto simp: index_verify_def)

lemma index_verify_ok [simp]: "0 \<le> i \<Longrightarrow> i < n \<Longrightarrow> index_verify i n = Some i"
  by (simp add: index_verify_Some)

lemma round_down_size_le: "round_down_size n m \<le> n \<and> m dvd round_down_size n m"
  by (simp add: round_down_size_def)

lemma adjust_loop_step:
  assumes "k < 63"
  shows "push_bit 1 (2 ^ k :: u64) = 2 ^ Suc k \<and> (2 ^ Suc k :: u64) > 0"
proof -
  have "(2 ^ Suc k :: u64) \<noteq> 0" using assms by (simp del: power_Suc)
  moreover have "push_bit 1 (2 ^ k :: u64) = 2 ^ Suc k" by (simp add: push_bit_eq_mult)
  ultimately show ?thesis by (simp add: word_greater_zero_iff del: power_Suc)
qed

lemma adjust_power_of_2_loop_spec:
  assumes "k \<le> 63" "64 - k \<le> fuel" "u \<le> 2 ^ 63" "k = 0 \<or> 2 ^ (k - 1) < u"
  shows "\<exists>j. k \<le> j \<and> j \<le> 63 \<and> adjust_power_of_2_loop fuel (2 ^ k) u = Some (2 ^ j)
            \<and> u \<le> 2 ^ j \<and> (j = 0 \<or> 2 ^ (j - 1) < u)"
  using assms
proof (induction fuel arbitrary: k)
  case 0
  then show ?case by simp
next
  case (Suc fuel)
  show ?case
  proof (cases "(2 ^ k :: u64) < u")
    case True
    with Suc.prems have "k \<noteq> 63" by auto
    with Suc.prems have k: "k < 63" by simp
    note step = adjust_loop_step [OF k]
    have "\<exists>j. Suc k \<le> j \<and> j \<le> 63 \<and> adjust_power_of_2_loop fuel (2 ^ Suc k) u = Some (2 ^ j)
            \<and> u \<le> 2 ^ j \<and> (j = 0 \<or> 2 ^ (j - 1) < u)"
      using k Suc.prems True by (intro Suc.IH) auto
    then obtain j where "Suc k \<le> j" "j \<le> 63"
      "adjust_power_of_2_loop fuel (2 ^ Suc k) u = Some (2 ^ j)"
      "u \<le> 2 ^ j" "j = 0 \<or> 2 ^ (j - 1) < u" by blast
    then show ?thesis using True step by (intro exI [of _ j]) (simp del: power_Suc)
  next
    case False
    with Suc.prems show ?thesis by (auto intro!: exI [of _ k])
  qed
qed

text \<open>
  Rounding up returns (no assertion fires) for every size up to \<open>2 ^ 63\<close>, and the result is
  the least power of two that reaches the argument.
\<close>

lemma adjust_power_of_2_total:
  assumes "u \<le> 2 ^ 63"
  shows "\<exists>j \<le> 63. adjust_power_of_2 u = Some (2 ^ j) \<and> u \<le> 2 ^ j \<and> (j = 0 \<or> 2 ^ (j - 1) < u)"
  using adjust_power_of_2_loop_spec [of 0 65 u] assms by (auto simp: adjust_power_of_2_def)

end
