(* ===== verification/Otime.thy ===== *)
theory Otime
  imports Integer_Util
begin

text \<open>
  Time keeping: \<^verbatim>\<open>openvpn/src/openvpn/otime.h\<close> and \<^verbatim>\<open>otime.c\<close> (time values, the filtered clock, the
  rate limiter), \<^verbatim>\<open>interval.h\<close> and \<^verbatim>\<open>interval.c\<close> (coarse timers) and \<^verbatim>\<open>shaper_soonest_event\<close> of
  \<^verbatim>\<open>shaper.c\<close>. \<^verbatim>\<open>time_t\<close>, \<^verbatim>\<open>tv_sec_t\<close> and \<^verbatim>\<open>tv_usec_t\<close> are 64 bits wide and are modelled as integers; the
  conversion to a 32-bit \<^verbatim>\<open>int\<close> in \<^verbatim>\<open>tv_subtract\<close> and \<^verbatim>\<open>event_timeout_remaining\<close> is written out.
\<close>

section \<open>Time values\<close>

record timeval =
  tv_sec :: int
  tv_usec :: int

definition int_cast :: "int \<Rightarrow> int" where
  "int_cast x = (x + 2 ^ 31) mod 2 ^ 32 - 2 ^ 31"

definition tv_clear :: timeval where
  "tv_clear = \<lparr>tv_sec = 0, tv_usec = 0\<rparr>"

definition tv_defined :: "timeval \<Rightarrow> bool" where
  "tv_defined tv \<longleftrightarrow> tv_sec tv > 0 \<and> tv_usec tv > 0"

definition tv_subtract :: "timeval \<Rightarrow> timeval \<Rightarrow> int \<Rightarrow> int" where
  "tv_subtract tv1 tv2 max_seconds =
     (let max_usec = max_seconds * 1000000;
          sec_diff = tv_sec tv1 - tv_sec tv2
      in if sec_diff > max_seconds + 10 then max_usec
         else if sec_diff < - (max_seconds + 10) then - max_usec
         else let complete_diff = sec_diff * 1000000 + (tv_usec tv1 - tv_usec tv2)
              in constrain_int (int_cast complete_diff) (- max_usec) max_usec)"

definition tv_add :: "timeval \<Rightarrow> timeval \<Rightarrow> timeval" where
  "tv_add dest src =
     (let s = tv_sec dest + tv_sec src;
          u = tv_usec dest + tv_usec src;
          s = s + drop_bit 20 u;
          u = u AND 0x000FFFFF
      in if u \<ge> 1000000 then \<lparr>tv_sec = s + 1, tv_usec = u - 1000000\<rparr>
         else \<lparr>tv_sec = s, tv_usec = u\<rparr>)"

definition tv_lt :: "timeval \<Rightarrow> timeval \<Rightarrow> bool" where
  "tv_lt t1 t2 \<longleftrightarrow>
     (if tv_sec t1 < tv_sec t2 then True else if tv_sec t1 > tv_sec t2 then False else tv_usec t1 < tv_usec t2)"

definition tv_le :: "timeval \<Rightarrow> timeval \<Rightarrow> bool" where
  "tv_le t1 t2 \<longleftrightarrow>
     (if tv_sec t1 < tv_sec t2 then True else if tv_sec t1 > tv_sec t2 then False else tv_usec t1 \<le> tv_usec t2)"

definition tv_ge :: "timeval \<Rightarrow> timeval \<Rightarrow> bool" where
  "tv_ge t1 t2 \<longleftrightarrow>
     (if tv_sec t1 > tv_sec t2 then True else if tv_sec t1 < tv_sec t2 then False else tv_usec t1 \<ge> tv_usec t2)"

definition tv_gt :: "timeval \<Rightarrow> timeval \<Rightarrow> bool" where
  "tv_gt t1 t2 \<longleftrightarrow>
     (if tv_sec t1 > tv_sec t2 then True else if tv_sec t1 < tv_sec t2 then False else tv_usec t1 > tv_usec t2)"

definition tv_eq :: "timeval \<Rightarrow> timeval \<Rightarrow> bool" where
  "tv_eq t1 t2 \<longleftrightarrow> tv_sec t1 = tv_sec t2 \<and> tv_usec t1 = tv_usec t2"

text \<open>The loop of \<^verbatim>\<open>tv_delta\<close> borrows seconds until the microseconds are not negative.\<close>

function tv_borrow :: "int \<Rightarrow> int \<Rightarrow> int \<times> int" where
  "tv_borrow sec usec = (if usec < 0 then tv_borrow (sec - 1) (usec + 1000000) else (sec, usec))"
  by auto
termination by (relation "measure (\<lambda>(sec, usec). nat (- usec))") auto

declare tv_borrow.simps [simp del]

definition tv_delta :: "timeval \<Rightarrow> timeval \<Rightarrow> timeval" where
  "tv_delta t1 t2 =
     (let (sec, usec) = tv_borrow (tv_sec t2 - tv_sec t1) (tv_usec t2 - tv_usec t1)
      in if sec < 0 then \<lparr>tv_sec = 0, tv_usec = 0\<rparr> else \<lparr>tv_sec = sec, tv_usec = usec\<rparr>)"

definition TV_WITHIN_SIGMA_MAX_SEC :: int where "TV_WITHIN_SIGMA_MAX_SEC = 600"

definition tv_within_sigma :: "timeval \<Rightarrow> timeval \<Rightarrow> u32 \<Rightarrow> bool" where
  "tv_within_sigma t1 t2 sigma \<longleftrightarrow>
     (let delta = tv_subtract t1 t2 TV_WITHIN_SIGMA_MAX_SEC; s = int_cast (uint sigma)
      in - s \<le> delta \<and> delta \<le> s)"

definition interval_earliest_wakeup :: "int \<Rightarrow> int \<Rightarrow> int \<Rightarrow> int" where
  "interval_earliest_wakeup wakeup at current =
     (if at > current then
        let delta = int_cast (at - current);
            w = (if delta < wakeup then delta else wakeup)
        in if w < 0 then 0 else w
      else wakeup)"

section \<open>The filtered clock\<close>

record clock =
  clk_now :: int
  clk_adj :: int
  clk_usec :: int

definition update_now :: "clock \<Rightarrow> int \<Rightarrow> clock" where
  "update_now c system_time =
     (let forward_threshold = 86400; backward_trigger = 10;
          real_time = system_time + clk_adj c
      in if real_time > clk_now c then
           let overshoot = real_time - clk_now c - 1
           in if overshoot > forward_threshold \<and> clk_adj c \<ge> overshoot
              then c\<lparr>clk_adj := clk_adj c - overshoot, clk_now := real_time - overshoot\<rparr>
              else c\<lparr>clk_now := real_time\<rparr>
         else if real_time < clk_now c - backward_trigger
         then c\<lparr>clk_adj := clk_adj c + (clk_now c - real_time)\<rparr>
         else c)"

definition update_now_usec :: "clock \<Rightarrow> timeval \<Rightarrow> clock" where
  "update_now_usec c tv =
     (let last = clk_now c; c = update_now c (tv_sec tv)
      in if clk_now c > last \<or> (clk_now c = last \<and> tv_usec tv > clk_usec c)
         then c\<lparr>clk_usec := tv_usec tv\<rparr> else c)"

text \<open>The reading of \<^verbatim>\<open>gettimeofday\<close> is an argument, \<open>None\<close> when it fails.\<close>

definition openvpn_gettimeofday :: "clock \<Rightarrow> timeval option \<Rightarrow> timeval option \<times> clock" where
  "openvpn_gettimeofday c reading =
     (case reading of
        None \<Rightarrow> (None, c)
      | Some tv \<Rightarrow> let c = update_now_usec c tv in (Some \<lparr>tv_sec = clk_now c, tv_usec = clk_usec c\<rparr>, c))"

definition update_time :: "clock \<Rightarrow> int \<Rightarrow> clock" where
  "update_time c t = (update_now c t)\<lparr>clk_usec := 0\<rparr>"

definition openvpn_time :: "clock \<Rightarrow> int \<Rightarrow> int \<times> clock" where
  "openvpn_time c t = (let c = update_time c t in (clk_now c, c))"

section \<open>Rate limiter\<close>

record frequency_limit =
  fl_max :: int
  fl_per :: int
  fl_n :: int
  fl_reset :: int

definition frequency_limit_init :: "int \<Rightarrow> int \<Rightarrow> frequency_limit option" where
  "frequency_limit_init mx per = do {
     c_assert (mx \<ge> 0 \<and> per \<ge> 0);
     Some \<lparr>fl_max = mx, fl_per = per, fl_n = 0, fl_reset = 0\<rparr>
   }"

definition frequency_limit_event_allowed :: "int \<Rightarrow> frequency_limit \<Rightarrow> bool \<times> frequency_limit" where
  "frequency_limit_event_allowed now f =
     (if fl_per f \<noteq> 0 then
        let f = (if now \<ge> fl_reset f + fl_per f then f\<lparr>fl_reset := now, fl_n := 0\<rparr> else f);
            f = f\<lparr>fl_n := fl_n f + 1\<rparr>
        in (fl_n f \<le> fl_max f, f)
      else (True, f))"

section \<open>Coarse timers\<close>

record interval =
  refresh :: int
  horizon :: int
  future_trigger :: int
  last_action :: int
  last_test_true :: int

definition interval_init :: "int \<Rightarrow> int \<Rightarrow> interval" where
  "interval_init hor refr =
     \<lparr>refresh = refr, horizon = hor, future_trigger = 0, last_action = 0, last_test_true = 0\<rparr>"

definition interval_test :: "int \<Rightarrow> interval \<Rightarrow> bool \<times> interval" where
  "interval_test now iv =
     (let trigger = (future_trigger iv \<noteq> 0 \<and> now \<ge> future_trigger iv);
          iv = (if trigger then iv\<lparr>future_trigger := 0\<rparr> else iv)
      in if last_action iv + horizon iv > now \<or> last_test_true iv + refresh iv \<le> now \<or> trigger
         then (True, iv\<lparr>last_test_true := now\<rparr>) else (False, iv))"

definition interval_schedule_wakeup :: "int \<Rightarrow> interval \<Rightarrow> int \<Rightarrow> int" where
  "interval_schedule_wakeup now iv wakeup =
     interval_earliest_wakeup (interval_earliest_wakeup wakeup (last_test_true iv + refresh iv) now)
       (future_trigger iv) now"

definition interval_future_trigger :: "int \<Rightarrow> interval \<Rightarrow> int \<Rightarrow> interval" where
  "interval_future_trigger now iv wakeup =
     (if wakeup \<noteq> 0 then iv\<lparr>future_trigger := now + wakeup\<rparr> else iv)"

definition interval_action :: "int \<Rightarrow> interval \<Rightarrow> interval" where
  "interval_action now iv = iv\<lparr>last_action := now\<rparr>"

record event_timeout =
  et_defined :: bool
  et_n :: int
  et_last :: int

definition event_timeout_clear :: event_timeout where
  "event_timeout_clear = \<lparr>et_defined = False, et_n = 0, et_last = 0\<rparr>"

definition event_timeout_init :: "int \<Rightarrow> int \<Rightarrow> event_timeout" where
  "event_timeout_init n lst = \<lparr>et_defined = True, et_n = (if n \<ge> 0 then n else 0), et_last = lst\<rparr>"

definition event_timeout_reset :: "int \<Rightarrow> event_timeout \<Rightarrow> event_timeout" where
  "event_timeout_reset now et = (if et_defined et then et\<lparr>et_last := now\<rparr> else et)"

definition event_timeout_modify_wakeup :: "event_timeout \<Rightarrow> int \<Rightarrow> event_timeout" where
  "event_timeout_modify_wakeup et n =
     (if et_defined et then et\<lparr>et_n := (if n \<ge> 0 then n else 0)\<rparr> else et)"

definition event_timeout_remaining :: "int \<Rightarrow> event_timeout \<Rightarrow> int" where
  "event_timeout_remaining now et = int_cast ((et_last et + et_n et) - now)"

text \<open>The time value is \<open>None\<close> where the caller passes a null pointer.\<close>

definition event_timeout_trigger ::
    "int \<Rightarrow> event_timeout \<Rightarrow> timeval option \<Rightarrow> int \<Rightarrow> bool \<times> event_timeout \<times> timeval option" where
  "event_timeout_trigger now et tv et_const_retry =
     (if \<not> et_defined et then (False, et, tv)
      else
        let wakeup = event_timeout_remaining now et;
            (ret, et, wakeup) =
              (if wakeup \<le> 0 then
                 if et_const_retry < 0 then (True, et\<lparr>et_last := now\<rparr>, et_n et)
                 else (False, et, et_const_retry)
               else (False, et, wakeup))
        in (ret, et,
            case tv of None \<Rightarrow> None
            | Some t \<Rightarrow> Some (if wakeup < tv_sec t then \<lparr>tv_sec = wakeup, tv_usec = 0\<rparr> else t)))"

record usec_timer =
  ut_start :: timeval
  ut_end :: timeval

definition USEC_TIMER_MAX :: int where "USEC_TIMER_MAX = 60"

definition usec_timer_interval_defined :: "usec_timer \<Rightarrow> bool" where
  "usec_timer_interval_defined obj \<longleftrightarrow> tv_sec (ut_start obj) \<noteq> 0 \<and> tv_sec (ut_end obj) \<noteq> 0"

definition usec_timer_interval :: "usec_timer \<Rightarrow> int" where
  "usec_timer_interval obj = tv_subtract (ut_end obj) (ut_start obj) USEC_TIMER_MAX"

definition shaper_soonest_event :: "timeval \<Rightarrow> int \<Rightarrow> bool \<times> timeval" where
  "shaper_soonest_event tv delay =
     (if delay < 1000000 then
        if tv_sec tv \<noteq> 0 then (True, \<lparr>tv_sec = 0, tv_usec = delay\<rparr>)
        else if delay < tv_usec tv then (True, tv\<lparr>tv_usec := delay\<rparr>)
        else (False, tv)
      else
        let sec = delay div 1000000; usec = delay mod 1000000
        in if sec < tv_sec tv then (True, \<lparr>tv_sec = sec, tv_usec = usec\<rparr>)
           else if sec = tv_sec tv then
             if usec < tv_usec tv then (True, tv\<lparr>tv_usec := usec\<rparr>) else (False, tv)
           else (False, tv))"

section \<open>Time values as microseconds\<close>

definition tv_norm :: "timeval \<Rightarrow> bool" where
  "tv_norm tv \<longleftrightarrow> 0 \<le> tv_usec tv \<and> tv_usec tv < 1000000"

definition tv_us :: "timeval \<Rightarrow> int" where
  "tv_us tv = tv_sec tv * 1000000 + tv_usec tv"

lemma int_cast_id: "- (2 ^ 31) \<le> x \<Longrightarrow> x < 2 ^ 31 \<Longrightarrow> int_cast x = x"
  by (simp add: int_cast_def)

lemma tv_lt_us: "tv_norm a \<Longrightarrow> tv_norm b \<Longrightarrow> tv_lt a b \<longleftrightarrow> tv_us a < tv_us b"
  by (auto simp: tv_lt_def tv_norm_def tv_us_def)

lemma tv_le_us: "tv_norm a \<Longrightarrow> tv_norm b \<Longrightarrow> tv_le a b \<longleftrightarrow> tv_us a \<le> tv_us b"
  by (auto simp: tv_le_def tv_norm_def tv_us_def)

lemma tv_borrow_spec:
  "tv_borrow sec usec = (s, u) \<Longrightarrow> 0 \<le> u \<and> s * 1000000 + u = sec * 1000000 + usec \<and> (usec < 1000000 \<longrightarrow> u < 1000000)"
proof (induction sec usec rule: tv_borrow.induct)
  case (1 sec usec)
  show ?case
  proof (cases "usec < 0")
    case True
    with 1 show ?thesis by (simp add: tv_borrow.simps [of sec usec])
  next
    case False
    with 1(2) show ?thesis by (simp add: tv_borrow.simps [of sec usec])
  qed
qed


lemma tv_delta_us:
  assumes "tv_norm a" "tv_norm b"
  shows "tv_norm (tv_delta a b) \<and> tv_us (tv_delta a b) = max 0 (tv_us b - tv_us a)"
proof -
  obtain s u where b: "tv_borrow (tv_sec b - tv_sec a) (tv_usec b - tv_usec a) = (s, u)" by fastforce
  from tv_borrow_spec [OF b] assms have
    "0 \<le> u" "u < 1000000" "s * 1000000 + u = (tv_sec b - tv_sec a) * 1000000 + (tv_usec b - tv_usec a)"
    by (auto simp: tv_norm_def)
  with b show ?thesis by (auto simp: tv_delta_def tv_norm_def tv_us_def)
qed

section \<open>Properties\<close>

text \<open>\<open>Tv_subtract\<close> is the exact difference in microseconds, clamped to plus or minus \<open>max_seconds\<close>.
  It holds for all normalised time values, however far apart, as long as the limit itself (with
  the ten seconds of slack) fits into an \<open>int\<close>: the narrowing conversion never changes the value.\<close>

theorem tv_subtract_correct:
  assumes "tv_norm a" "tv_norm b" "0 \<le> m" "m \<le> 2136"
  shows "tv_subtract a b m = max (- (m * 1000000)) (min (m * 1000000) (tv_us a - tv_us b))"
proof -
  let ?d = "tv_sec a - tv_sec b"
  consider "?d > m + 10" | "?d < - (m + 10)" | "- (m + 10) \<le> ?d" "?d \<le> m + 10" by linarith
  then show ?thesis
  proof cases
    case 3
    have "int_cast (?d * 1000000 + (tv_usec a - tv_usec b)) = ?d * 1000000 + (tv_usec a - tv_usec b)"
      by (rule int_cast_id) (use 3 assms in \<open>simp_all add: tv_norm_def\<close>)
    with 3 assms show ?thesis by (simp add: tv_subtract_def tv_us_def constrain_int_def Let_def)
  qed (use assms in \<open>auto simp: tv_subtract_def tv_us_def tv_norm_def\<close>)
qed

theorem tv_subtract_correct_witness:
  "tv_subtract \<lparr>tv_sec = 5, tv_usec = 100\<rparr> \<lparr>tv_sec = 3, tv_usec = 200\<rparr> 600 = 1999900"
  by (subst tv_subtract_correct) (simp_all add: tv_norm_def tv_us_def)

text \<open>adding two normalised time values carries at 2^20 = 1048576 microseconds instead of
  1000000. The sum is exact when the microseconds add up to less than 2^20; otherwise the result
  is 48576 microseconds too early.\<close>

theorem tv_add_carry_flaw:
  assumes "tv_norm a" "tv_norm b"
  shows "tv_us (tv_add a b) = tv_us a + tv_us b - (if tv_usec a + tv_usec b < 1048576 then 0 else 48576)
     \<and> tv_norm (tv_add a b)"
proof -
  define u where "u = tv_usec a + tv_usec b"
  have u: "0 \<le> u" "u < 2000000" using assms by (auto simp: tv_norm_def u_def)
  have db: "drop_bit 20 u = u div 1048576" by (simp add: drop_bit_eq_div)
  have ab: "u AND 0x000FFFFF = u mod 1048576"
    using take_bit_eq_mask [of 20 u] by (simp add: take_bit_eq_mod mask_eq_exp_minus_1)
  have eq: "tv_add a b = (if u mod 1048576 \<ge> 1000000
      then \<lparr>tv_sec = tv_sec a + tv_sec b + u div 1048576 + 1, tv_usec = u mod 1048576 - 1000000\<rparr>
      else \<lparr>tv_sec = tv_sec a + tv_sec b + u div 1048576, tv_usec = u mod 1048576\<rparr>)"
    unfolding tv_add_def Let_def u_def [symmetric] db ab by simp
  have sum: "tv_us a + tv_us b = (tv_sec a + tv_sec b) * 1000000 + u" by (simp add: tv_us_def u_def)
  have "u div 1048576 = (if u < 1048576 then 0 else 1)" "u mod 1048576 = (if u < 1048576 then u else u - 1048576)"
    using u by (auto simp: int_div_pos_eq [of u 1048576 1 "u - 1048576"] int_mod_pos_eq [of u 1048576 1 "u - 1048576"])
  with eq u show ?thesis unfolding sum unfolding u_def [symmetric] by (simp add: tv_us_def tv_norm_def)
qed

theorem tv_add_carry_flaw_witness:
  "tv_us (tv_add \<lparr>tv_sec = 1, tv_usec = 600000\<rparr> \<lparr>tv_sec = 0, tv_usec = 600000\<rparr>) = 2151424"
  using tv_add_carry_flaw [of "\<lparr>tv_sec = 1, tv_usec = 600000\<rparr>" "\<lparr>tv_sec = 0, tv_usec = 600000\<rparr>"]
  by (simp add: tv_norm_def tv_us_def)

text \<open>The readings a caller gets over a sequence of system times.\<close>

fun clock_run :: "clock \<Rightarrow> timeval option list \<Rightarrow> timeval list" where
  "clock_run c [] = []"
| "clock_run c (r # rs) =
     (case openvpn_gettimeofday c r of (None, c) \<Rightarrow> clock_run c rs | (Some t, c) \<Rightarrow> t # clock_run c rs)"

lemma update_now_mono: "clk_now c \<le> clk_now (update_now c t) \<and> clk_usec (update_now c t) = clk_usec c"
  by (simp add: update_now_def Let_def)

lemma gettimeofday_step:
  assumes "openvpn_gettimeofday c r = (t, c')"
  shows "tv_le \<lparr>tv_sec = clk_now c, tv_usec = clk_usec c\<rparr> \<lparr>tv_sec = clk_now c', tv_usec = clk_usec c'\<rparr>
     \<and> (t = None \<or> t = Some \<lparr>tv_sec = clk_now c', tv_usec = clk_usec c'\<rparr>)"
proof (cases r)
  case None
  with assms show ?thesis by (simp add: openvpn_gettimeofday_def tv_le_def)
next
  case (Some tv)
  then have c': "c' = update_now_usec c tv" "t = Some \<lparr>tv_sec = clk_now c', tv_usec = clk_usec c'\<rparr>"
    using assms by (auto simp: openvpn_gettimeofday_def Let_def)
  with update_now_mono [of c "tv_sec tv"] show ?thesis by (auto simp: update_now_usec_def tv_le_def Let_def)
qed

lemma tv_le_trans: "tv_le a b \<Longrightarrow> tv_le b c \<Longrightarrow> tv_le a c"
  by (auto simp: tv_le_def split: if_splits)

lemma clock_run_ge:
  assumes "x \<in> set (clock_run c rs)"
  shows "tv_le \<lparr>tv_sec = clk_now c, tv_usec = clk_usec c\<rparr> x"
  using assms
proof (induction rs arbitrary: c)
  case (Cons r rs)
  obtain t c' where s: "openvpn_gettimeofday c r = (t, c')" by fastforce
  note st = gettimeofday_step [OF s]
  from Cons.prems s consider "x \<in> set (clock_run c' rs)" | "t = Some x" by (auto split: option.splits)
  then show ?case
  proof cases
    case 1
    from tv_le_trans [OF _ Cons.IH [OF 1]] st show ?thesis by blast
  next
    case 2
    with st show ?thesis by auto
  qed
qed simp


text \<open>
  A periodic timer polled at given times (the polling loop of the event timers): the list of the
  times at which it fires.
\<close>

fun timer_run :: "event_timeout \<Rightarrow> int list \<Rightarrow> int list" where
  "timer_run et [] = []"
| "timer_run et (t # ts) =
     (case event_timeout_trigger t et None (-1) of
        (fired, et', tv) \<Rightarrow> (if fired then t # timer_run et' ts else timer_run et' ts))"

definition ticks_ok :: "event_timeout \<Rightarrow> int list \<Rightarrow> bool" where
  "ticks_ok et ts \<longleftrightarrow> et_defined et \<and> 0 \<le> et_n et \<and> et_n et < 2 ^ 30
     \<and> sorted (et_last et # ts) \<and> (\<forall>t \<in> set ts. t - et_last et < 2 ^ 30)"

lemma trigger_default:
  assumes "ticks_ok et (t # ts)"
  shows "event_timeout_trigger t et None (-1) =
     (if et_last et + et_n et \<le> t then (True, et\<lparr>et_last := t\<rparr>, None) else (False, et, None))"
proof -
  have "int_cast (et_last et + et_n et - t) = et_last et + et_n et - t"
    by (rule int_cast_id) (use assms in \<open>auto simp: ticks_ok_def\<close>)
  then show ?thesis using assms by (auto simp: event_timeout_trigger_def event_timeout_remaining_def ticks_ok_def Let_def)
qed

lemma ticks_ok_step:
  assumes "ticks_ok et (t # ts)"
  shows "ticks_ok et ts" "ticks_ok (et\<lparr>et_last := t\<rparr>) ts"
  using assms by (force simp: ticks_ok_def)+

lemma timer_run_after:
  "ticks_ok et ts \<Longrightarrow> x \<in> set (timer_run et ts) \<Longrightarrow> et_last et + et_n et \<le> x"
proof (induction ts arbitrary: et)
  case (Cons t ts)
  note o = ticks_ok_step [OF Cons.prems(1)]
  have t: "et_last et \<le> t" using Cons.prems(1) by (simp add: ticks_ok_def)
  show ?case
  proof (cases "et_last et + et_n et \<le> t")
    case True
    with trigger_default [OF Cons.prems(1)] Cons.prems(2) have "x = t \<or> x \<in> set (timer_run (et\<lparr>et_last := t\<rparr>) ts)" by simp
    with Cons.IH [OF o(2)] True t show ?thesis by auto
  next
    case False
    with trigger_default [OF Cons.prems(1)] Cons.prems(2) Cons.IH [OF o(1)] show ?thesis by simp
  qed
qed simp

lemma timer_run_total:
  assumes "ticks_ok et ts"
  shows "(\<exists>t \<in> set ts. et_last et + et_n et \<le> t) \<longleftrightarrow> timer_run et ts \<noteq> []"
  using assms
proof (induction ts arbitrary: et)
  case (Cons t ts)
  show ?case
  proof (cases "et_last et + et_n et \<le> t")
    case True
    with trigger_default [OF Cons.prems] show ?thesis by simp
  next
    case False
    with trigger_default [OF Cons.prems] Cons.IH [OF ticks_ok_step(1) [OF Cons.prems]] show ?thesis by simp
  qed
qed simp

text \<open>A periodic timer polled at any ascending times fires at most once per period, and fires
  as soon as it is polled after its period has passed: successive firings are at least \<open>n\<close> seconds
  apart, none is earlier than \<open>n\<close> seconds after the start, and there is a firing exactly when some
  poll is that late.\<close>

theorem event_timeout_spacing:
  assumes "ticks_ok et ts"
  shows "sorted_wrt (\<lambda>a b. a + et_n et \<le> b) (et_last et # timer_run et ts)
     \<and> ((\<exists>t \<in> set ts. et_last et + et_n et \<le> t) \<longleftrightarrow> timer_run et ts \<noteq> [])"
proof -
  have "sorted_wrt (\<lambda>a b. a + et_n et \<le> b) (timer_run et ts)" using assms
  proof (induction ts arbitrary: et)
    case (Cons t ts)
    note o = ticks_ok_step [OF Cons.prems]
    show ?case
    proof (cases "et_last et + et_n et \<le> t")
      case True
      with trigger_default [OF Cons.prems] Cons.IH [OF o(2)] timer_run_after [OF o(2)] show ?thesis by auto
    next
      case False
      with trigger_default [OF Cons.prems] Cons.IH [OF o(1)] show ?thesis by simp
    qed
  qed simp
  with timer_run_after [OF assms] timer_run_total [OF assms] show ?thesis by auto
qed

theorem event_timeout_spacing_witness:
  "timer_run \<lparr>et_defined = True, et_n = 10, et_last = 100\<rparr> [105, 111, 119, 125] \<noteq> []
   \<and> sorted_wrt (\<lambda>a b. a + 10 \<le> b) (timer_run \<lparr>et_defined = True, et_n = 10, et_last = 100\<rparr> [105, 111, 119, 125])"
  using event_timeout_spacing [of "\<lparr>et_defined = True, et_n = 10, et_last = 100\<rparr>" "[105, 111, 119, 125]"]
  by (auto simp: ticks_ok_def)

end
