(* ===== verification/Schedule.thy ===== *)
theory Schedule
  imports Otime "HOL-Library.Tree"
begin

text \<open>
  The wake-up scheduler: \<^verbatim>\<open>openvpn/src/openvpn/schedule.c\<close> and \<^verbatim>\<open>schedule.h\<close>. The entries are nodes of a
  treap linked by \<^verbatim>\<open>parent\<close>, \<^verbatim>\<open>lt\<close> and \<^verbatim>\<open>gt\<close> pointers: a binary search tree over (time, priority) that
  is at the same time a heap over the random priority.

  A pointer to an entry is a number, a null pointer \<open>None\<close>; the entries live in a store from
  pointers to entries, which the operations update the way the code does. \<^verbatim>\<open>random()\<close> is the argument
  \<open>rnd\<close>, a sequence of numbers, with the position of the next one threaded through. Loops are
  partial functions: \<open>None\<close> is a failed assertion or a loop that does not end.
\<close>

section \<open>Operations\<close>

record schedule_entry =
  se_tv :: timeval
  se_pri :: u32
  se_parent :: "nat option"
  se_lt :: "nat option"
  se_gt :: "nat option"

record schedule =
  earliest_wakeup :: "nat option"
  sch_root :: "nat option"

type_synonym entries = "nat \<Rightarrow> schedule_entry"

definition upd :: "nat \<Rightarrow> (schedule_entry \<Rightarrow> schedule_entry) \<Rightarrow> entries \<Rightarrow> entries" where
  "upd a f h = h(a := f (h a))"

definition IN_TREE :: "entries \<Rightarrow> nat \<Rightarrow> bool" where
  "IN_TREE h e \<longleftrightarrow> se_pri (h e) \<noteq> 0"

definition schedule_set_pri :: "(nat \<Rightarrow> u32) \<Rightarrow> nat \<Rightarrow> entries \<Rightarrow> nat \<Rightarrow> entries \<times> nat" where
  "schedule_set_pri rnd k h e = (upd e (\<lambda>x. x\<lparr>se_pri := (if rnd k < 1 then 1 else rnd k)\<rparr>) h, Suc k)"

definition schedule_entry_compare :: "schedule_entry \<Rightarrow> schedule_entry \<Rightarrow> int" where
  "schedule_entry_compare e1 e2 =
     (if tv_sec (se_tv e1) < tv_sec (se_tv e2) then -1
      else if tv_sec (se_tv e1) > tv_sec (se_tv e2) then 1
      else if tv_usec (se_tv e1) < tv_usec (se_tv e2) then -1
      else if tv_usec (se_tv e1) > tv_usec (se_tv e2) then 1
      else if se_pri e1 < se_pri e2 then -1
      else if se_pri e1 > se_pri e2 then 1
      else 0)"

definition schedule_detach_parent :: "schedule \<Rightarrow> entries \<Rightarrow> nat \<Rightarrow> (schedule \<times> entries) option" where
  "schedule_detach_parent s h e =
     (case se_parent (h e) of
        Some p \<Rightarrow>
          if se_lt (h p) = Some e then
            Some (s, upd e (\<lambda>x. x\<lparr>se_parent := None\<rparr>) (upd p (\<lambda>x. x\<lparr>se_lt := None\<rparr>) h))
          else if se_gt (h p) = Some e then
            Some (s, upd e (\<lambda>x. x\<lparr>se_parent := None\<rparr>) (upd p (\<lambda>x. x\<lparr>se_gt := None\<rparr>) h))
          else None
      | None \<Rightarrow> Some (if sch_root s = Some e then s\<lparr>sch_root := None\<rparr> else s, h))"

text \<open>
  \<^verbatim>\<open>schedule_rotate_up\<close> in two parts: the grandparent's child link, then the links between the
  node, its parent and the subtree that changes sides.
\<close>

definition replace_child ::
    "schedule \<Rightarrow> entries \<Rightarrow> nat option \<Rightarrow> nat \<Rightarrow> nat \<Rightarrow> (schedule \<times> entries) option" where
  "replace_child s h gp p e =
     (case gp of
        Some g \<Rightarrow>
          if se_gt (h g) = Some p then Some (s, upd g (\<lambda>x. x\<lparr>se_gt := Some e\<rparr>) h)
          else if se_lt (h g) = Some p then Some (s, upd g (\<lambda>x. x\<lparr>se_lt := Some e\<rparr>) h)
          else None
      | None \<Rightarrow> Some (s\<lparr>sch_root := Some e\<rparr>, h))"

definition set_parent :: "nat option \<Rightarrow> nat \<Rightarrow> entries \<Rightarrow> entries" where
  "set_parent c p h = (case c of None \<Rightarrow> h | Some x \<Rightarrow> upd x (\<lambda>y. y\<lparr>se_parent := Some p\<rparr>) h)"

definition schedule_rotate_up :: "schedule \<Rightarrow> entries \<Rightarrow> nat \<Rightarrow> (schedule \<times> entries) option" where
  "schedule_rotate_up s h e =
     (case se_parent (h e) of
        None \<Rightarrow> Some (s, h)
      | Some p \<Rightarrow> do {
          let lt = se_lt (h e);
          let gt = se_gt (h e);
          let gp = se_parent (h p);
          (s, h) \<leftarrow> replace_child s h gp p e;
          let h = upd e (\<lambda>x. x\<lparr>se_parent := gp\<rparr>) h;
          let h = upd p (\<lambda>x. x\<lparr>se_parent := Some e\<rparr>) h;
          (if se_gt (h p) = Some e then
             Some (s, set_parent lt p (upd p (\<lambda>x. x\<lparr>se_gt := lt\<rparr>) (upd e (\<lambda>x. x\<lparr>se_lt := Some p\<rparr>) h)))
           else if se_lt (h p) = Some e then
             Some (s, set_parent gt p (upd p (\<lambda>x. x\<lparr>se_lt := gt\<rparr>) (upd e (\<lambda>x. x\<lparr>se_gt := Some p\<rparr>) h)))
           else None) })"

partial_function (option) remove_loop :: "schedule \<Rightarrow> entries \<Rightarrow> nat \<Rightarrow> (schedule \<times> entries) option" where
  "remove_loop s h e =
     (case (se_lt (h e), se_gt (h e)) of
        (None, None) \<Rightarrow> Some (s, h)
      | (Some l, None) \<Rightarrow> do { (s, h) \<leftarrow> schedule_rotate_up s h l; remove_loop s h e }
      | (None, Some g) \<Rightarrow> do { (s, h) \<leftarrow> schedule_rotate_up s h g; remove_loop s h e }
      | (Some l, Some g) \<Rightarrow> do {
          (s, h) \<leftarrow> schedule_rotate_up s h (if se_pri (h l) < se_pri (h g) then l else g);
          remove_loop s h e })"

definition schedule_remove_node :: "schedule \<Rightarrow> entries \<Rightarrow> nat \<Rightarrow> (schedule \<times> entries) option" where
  "schedule_remove_node s h e = do {
     (s, h) \<leftarrow> remove_loop s h e;
     (s, h) \<leftarrow> schedule_detach_parent s h e;
     Some (s, upd e (\<lambda>x. x\<lparr>se_pri := 0\<rparr>) h)
   }"

text \<open>The loop of \<^verbatim>\<open>schedule_insert\<close>: \<open>r\<close> is the root, \<open>c\<close> the node the search has reached.\<close>

partial_function (option) insert_loop ::
    "(nat \<Rightarrow> u32) \<Rightarrow> nat \<Rightarrow> nat \<Rightarrow> entries \<Rightarrow> nat \<Rightarrow> nat \<Rightarrow> (entries \<times> nat) option" where
  "insert_loop rnd r e h k c =
     (let comp = schedule_entry_compare (h e) (h c)
      in if comp = -1 then
           (case se_lt (h c) of
              Some c' \<Rightarrow> insert_loop rnd r e h k c'
            | None \<Rightarrow> Some (upd e (\<lambda>x. x\<lparr>se_parent := Some c\<rparr>) (upd c (\<lambda>x. x\<lparr>se_lt := Some e\<rparr>) h), k))
         else if comp = 1 then
           (case se_gt (h c) of
              Some c' \<Rightarrow> insert_loop rnd r e h k c'
            | None \<Rightarrow> Some (upd e (\<lambda>x. x\<lparr>se_parent := Some c\<rparr>) (upd c (\<lambda>x. x\<lparr>se_gt := Some e\<rparr>) h), k))
         else (case schedule_set_pri rnd k h e of (h, k) \<Rightarrow> insert_loop rnd r e h k r))"

partial_function (option) sift_up :: "schedule \<Rightarrow> entries \<Rightarrow> nat \<Rightarrow> (schedule \<times> entries) option" where
  "sift_up s h e =
     (case se_parent (h e) of
        None \<Rightarrow> Some (s, h)
      | Some p \<Rightarrow>
          if se_pri (h p) > se_pri (h e) then do { (s, h) \<leftarrow> schedule_rotate_up s h e; sift_up s h e }
          else Some (s, h))"

definition schedule_add_modify ::
    "(nat \<Rightarrow> u32) \<Rightarrow> schedule \<Rightarrow> entries \<Rightarrow> nat \<Rightarrow> nat \<Rightarrow> (schedule \<times> entries \<times> nat) option" where
  "schedule_add_modify rnd s h k e = do {
     (s, h) \<leftarrow> (if IN_TREE h e then schedule_remove_node s h e else Some (s, h));
     let (h, k) = schedule_set_pri rnd k h e;
     (s, h, k) \<leftarrow> (case sch_root s of
                    Some r \<Rightarrow> do { (h, k) \<leftarrow> insert_loop rnd r e h k r; Some (s, h, k) }
                  | None \<Rightarrow> Some (s\<lparr>sch_root := Some e\<rparr>, h, k));
     (s, h) \<leftarrow> sift_up s h e;
     Some (s, h, k)
   }"

partial_function (option) find_least_loop :: "entries \<Rightarrow> nat \<Rightarrow> nat option" where
  "find_least_loop h e = (case se_lt (h e) of None \<Rightarrow> Some e | Some l \<Rightarrow> find_least_loop h l)"

text \<open>The outer option is termination, the inner one the possibly null result.\<close>

definition schedule_find_least :: "entries \<Rightarrow> nat option \<Rightarrow> nat option option" where
  "schedule_find_least h e =
     (case e of None \<Rightarrow> Some None | Some e \<Rightarrow> map_option Some (find_least_loop h e))"

definition schedule_init :: schedule where
  "schedule_init = \<lparr>earliest_wakeup = None, sch_root = None\<rparr>"

definition schedule_remove_entry :: "schedule \<Rightarrow> entries \<Rightarrow> nat \<Rightarrow> (schedule \<times> entries) option" where
  "schedule_remove_entry s h e = schedule_remove_node (s\<lparr>earliest_wakeup := None\<rparr>) h e"

definition schedule_add_entry ::
    "(nat \<Rightarrow> u32) \<Rightarrow> schedule \<Rightarrow> entries \<Rightarrow> nat \<Rightarrow> nat \<Rightarrow> timeval \<Rightarrow> u32 \<Rightarrow> (schedule \<times> entries \<times> nat) option" where
  "schedule_add_entry rnd s h k e tv sigma =
     (if \<not> IN_TREE h e \<or> sigma = 0 \<or> \<not> tv_within_sigma tv (se_tv (h e)) sigma then do {
        let h = upd e (\<lambda>x. x\<lparr>se_tv := tv\<rparr>) h;
        (s, h, k) \<leftarrow> schedule_add_modify rnd s h k e;
        Some (s\<lparr>earliest_wakeup := None\<rparr>, h, k) }
      else Some (s, h, k))"

definition schedule_get_earliest_wakeup ::
    "schedule \<Rightarrow> entries \<Rightarrow> ((nat \<times> timeval) option \<times> schedule) option" where
  "schedule_get_earliest_wakeup s h = do {
     s \<leftarrow> (if earliest_wakeup s = None then do {
             r \<leftarrow> schedule_find_least h (sch_root s);
             Some (s\<lparr>earliest_wakeup := r\<rparr>) }
           else Some s);
     Some (map_option (\<lambda>e. (e, se_tv (h e))) (earliest_wakeup s), s)
   }"

section \<open>The linked structure as a tree\<close>

text \<open>
  \<open>tree_at h par q t\<close>: the structure reached from pointer \<open>q\<close> is the tree \<open>t\<close> of pointers, and the
  parent of its root is \<open>par\<close>. A position inside a tree is a list of frames from the inside out.
\<close>

fun tree_at :: "entries \<Rightarrow> nat option \<Rightarrow> nat option \<Rightarrow> nat tree \<Rightarrow> bool" where
  "tree_at h par q Leaf \<longleftrightarrow> q = None"
| "tree_at h par q (Node l a r) \<longleftrightarrow> q = Some a \<and> se_parent (h a) = par
     \<and> tree_at h (Some a) (se_lt (h a)) l \<and> tree_at h (Some a) (se_gt (h a)) r"

datatype frame = LHole nat "nat tree" | RHole "nat tree" nat

fun plug :: "frame list \<Rightarrow> nat tree \<Rightarrow> nat tree" where
  "plug [] t = t"
| "plug (LHole a r # c) t = plug c (Node t a r)"
| "plug (RHole l a # c) t = plug c (Node l a t)"

fun ctx_pre :: "frame list \<Rightarrow> nat list" where
  "ctx_pre [] = []"
| "ctx_pre (LHole a r # c) = ctx_pre c"
| "ctx_pre (RHole l a # c) = ctx_pre c @ inorder l @ [a]"

fun ctx_post :: "frame list \<Rightarrow> nat list" where
  "ctx_post [] = []"
| "ctx_post (LHole a r # c) = a # inorder r @ ctx_post c"
| "ctx_post (RHole l a # c) = ctx_post c"

abbreviation ctx_nodes :: "frame list \<Rightarrow> nat set" where
  "ctx_nodes c \<equiv> set (ctx_pre c) \<union> set (ctx_post c)"

fun ctx_at :: "entries \<Rightarrow> nat option \<Rightarrow> frame list \<Rightarrow> nat option \<Rightarrow> nat option \<Rightarrow> bool" where
  "ctx_at h rt [] par q \<longleftrightarrow> par = None \<and> q = rt"
| "ctx_at h rt (LHole a r # c) par q \<longleftrightarrow> par = Some a \<and> se_lt (h a) = q
     \<and> tree_at h (Some a) (se_gt (h a)) r \<and> ctx_at h rt c (se_parent (h a)) (Some a)"
| "ctx_at h rt (RHole l a # c) par q \<longleftrightarrow> par = Some a \<and> se_gt (h a) = q
     \<and> tree_at h (Some a) (se_lt (h a)) l \<and> ctx_at h rt c (se_parent (h a)) (Some a)"

definition links :: "entries \<Rightarrow> nat option \<Rightarrow> nat tree \<Rightarrow> bool" where
  "links h rt t \<longleftrightarrow> tree_at h None rt t \<and> distinct (inorder t)"

lemma inorder_plug: "inorder (plug c t) = ctx_pre c @ inorder t @ ctx_post c"
  by (induction c t rule: plug.induct) simp_all

lemma tree_at_plug: "tree_at h None rt (plug c t) \<longleftrightarrow> (\<exists>par q. tree_at h par q t \<and> ctx_at h rt c par q)"
  by (induction c t rule: plug.induct) auto

lemma tree_at_cong:
  "(\<And>a. a \<in> set (inorder t) \<Longrightarrow> h a = h' a) \<Longrightarrow> tree_at h par q t = tree_at h' par q t"
proof (induction t arbitrary: par q)
  case (Node l a r)
  have "h a = h' a" "tree_at h (Some a) (se_lt (h' a)) l = tree_at h' (Some a) (se_lt (h' a)) l"
    "tree_at h (Some a) (se_gt (h' a)) r = tree_at h' (Some a) (se_gt (h' a)) r"
    using Node.prems by (auto intro!: Node.IH)
  then show ?case by simp
qed simp

lemma ctx_at_cong:
  "(\<And>a. a \<in> ctx_nodes c \<Longrightarrow> h a = h' a) \<Longrightarrow> ctx_at h rt c par q = ctx_at h' rt c par q"
proof (induction c arbitrary: par q)
  case (Cons f c)
  show ?case
  proof (cases f)
    case (LHole a r)
    with Cons.prems have "h a = h' a" "tree_at h (Some a) (se_gt (h' a)) r = tree_at h' (Some a) (se_gt (h' a)) r"
      "ctx_at h rt c (se_parent (h' a)) (Some a) = ctx_at h' rt c (se_parent (h' a)) (Some a)"
      by (auto intro!: Cons.IH tree_at_cong)
    with LHole show ?thesis by simp
  next
    case (RHole l a)
    with Cons.prems have "h a = h' a" "tree_at h (Some a) (se_lt (h' a)) l = tree_at h' (Some a) (se_lt (h' a)) l"
      "ctx_at h rt c (se_parent (h' a)) (Some a) = ctx_at h' rt c (se_parent (h' a)) (Some a)"
      by (auto intro!: Cons.IH tree_at_cong)
    with RHole show ?thesis by simp
  qed
qed simp

lemma tree_at_frame: "tree_at h par q t \<Longrightarrow> (\<And>a. a \<in> set_tree t \<Longrightarrow> h' a = h a) \<Longrightarrow> tree_at h' par q t"
  using tree_at_cong [of t h h' par q] by simp

lemma ctx_at_frame: "ctx_at h rt c par q \<Longrightarrow> (\<And>a. a \<in> ctx_nodes c \<Longrightarrow> h' a = h a) \<Longrightarrow> ctx_at h' rt c par q"
  using ctx_at_cong [of c h h' rt par q] by simp

text \<open>Operations on the links leave the times and priorities alone, and the entries outside the tree.\<close>

definition same_data :: "entries \<Rightarrow> entries \<Rightarrow> nat set \<Rightarrow> bool" where
  "same_data h h' A \<longleftrightarrow> (\<forall>a. se_tv (h' a) = se_tv (h a) \<and> se_pri (h' a) = se_pri (h a)) \<and> (\<forall>a. a \<notin> A \<longrightarrow> h' a = h a)"

lemma same_data_refl [simp]: "same_data h h A"
  by (simp add: same_data_def)

lemma same_data_trans: "same_data h h1 A \<Longrightarrow> same_data h1 h2 A \<Longrightarrow> same_data h h2 A"
  by (simp add: same_data_def)

lemma tree_at_Some_in: "tree_at h par (Some x) t \<Longrightarrow> x \<in> set (inorder t)"
  by (cases t) auto

lemma set_parent_tree:
  assumes "tree_at h par q t" "distinct (inorder t)"
  shows "tree_at (set_parent q p h) (Some p) q t"
proof (cases t)
  case (Node l a r)
  with assms have "tree_at (set_parent q p h) (Some a) (se_lt (h a)) l" "tree_at (set_parent q p h) (Some a) (se_gt (h a)) r"
    by (auto elim!: tree_at_frame simp: set_parent_def upd_def)
  with assms Node show ?thesis by (simp add: set_parent_def upd_def)
qed (use assms in \<open>simp add: set_parent_def\<close>)

lemma set_parent_other: "tree_at h par q t \<Longrightarrow> a \<notin> set (inorder t) \<Longrightarrow> set_parent q p h a = h a"
  by (cases t) (auto simp: set_parent_def upd_def)

lemma set_parent_data: "se_tv (set_parent q p h a) = se_tv (h a)" "se_pri (set_parent q p h a) = se_pri (h a)"
  by (auto simp: set_parent_def upd_def split: option.splits)

lemma replace_child_spec:
  assumes "ctx_at h (sch_root s) c par (Some p)" "distinct (ctx_pre c @ ctx_post c)" "p \<notin> ctx_nodes c"
  shows "\<exists>s' h'. replace_child s h par p e = Some (s', h') \<and> ctx_at h' (sch_root s') c par (Some e)
     \<and> earliest_wakeup s' = earliest_wakeup s \<and> same_data h h' (ctx_nodes c)"
proof (cases c)
  case Nil
  with assms show ?thesis by (auto simp: replace_child_def)
next
  case (Cons f c')
  show ?thesis
  proof (cases f)
    case (LHole a r)
    let ?h = "upd a (\<lambda>x. x\<lparr>se_lt := Some e\<rparr>) h"
    from assms Cons LHole have f: "par = Some a" "se_lt (h a) = Some p" "tree_at h (Some a) (se_gt (h a)) r"
      "ctx_at h (sch_root s) c' (se_parent (h a)) (Some a)" by auto
    have "se_gt (h a) \<noteq> Some p" using assms(3) Cons LHole f(3) tree_at_Some_in by fastforce
    then have "replace_child s h par p e = Some (s, ?h)" using f by (simp add: replace_child_def)
    moreover have "tree_at ?h (Some a) (se_gt (h a)) r" "ctx_at ?h (sch_root s) c' (se_parent (h a)) (Some a)"
      by (rule tree_at_frame [OF f(3)] ctx_at_frame [OF f(4)]; use assms(2) Cons LHole in \<open>auto simp: upd_def\<close>)+
    ultimately show ?thesis using f Cons LHole by (auto simp: upd_def same_data_def)
  next
    case (RHole l a)
    let ?h = "upd a (\<lambda>x. x\<lparr>se_gt := Some e\<rparr>) h"
    from assms Cons RHole have f: "par = Some a" "se_gt (h a) = Some p" "tree_at h (Some a) (se_lt (h a)) l"
      "ctx_at h (sch_root s) c' (se_parent (h a)) (Some a)" by auto
    then have "replace_child s h par p e = Some (s, ?h)" by (simp add: replace_child_def)
    moreover have "tree_at ?h (Some a) (se_lt (h a)) l" "ctx_at ?h (sch_root s) c' (se_parent (h a)) (Some a)"
      by (rule tree_at_frame [OF f(3)] ctx_at_frame [OF f(4)]; use assms(2) Cons RHole in \<open>auto simp: upd_def\<close>)+
    ultimately show ?thesis using f Cons RHole by (auto simp: upd_def same_data_def)
  qed
qed

text \<open>Rotating a left child up, and a right child: the tree changes shape, its in-order list does not.\<close>

lemma rotate_up_left:
  assumes "links h (sch_root s) (plug (LHole p r # c) (Node l e g))"
  shows "\<exists>s' h'. schedule_rotate_up s h e = Some (s', h') \<and> links h' (sch_root s') (plug c (Node l e (Node g p r)))
     \<and> earliest_wakeup s' = earliest_wakeup s
     \<and> same_data h h' (set (inorder (plug (LHole p r # c) (Node l e g))))"
proof -
  have d: "distinct (ctx_pre c @ inorder l @ [e] @ inorder g @ [p] @ inorder r @ ctx_post c)"
    using assms by (simp add: links_def inorder_plug)
  from assms have t: "se_parent (h e) = Some p" "tree_at h (Some e) (se_lt (h e)) l" "tree_at h (Some e) (se_gt (h e)) g"
    "se_lt (h p) = Some e" "tree_at h (Some p) (se_gt (h p)) r" "ctx_at h (sch_root s) c (se_parent (h p)) (Some p)"
    unfolding links_def tree_at_plug by auto
  have dc: "distinct (ctx_pre c @ ctx_post c)" "p \<notin> ctx_nodes c" using d by auto
  from replace_child_spec [OF t(6) dc, of e] obtain s1 h1 where
    rc: "replace_child s h (se_parent (h p)) p e = Some (s1, h1)" "ctx_at h1 (sch_root s1) c (se_parent (h p)) (Some e)"
      "earliest_wakeup s1 = earliest_wakeup s" "same_data h h1 (ctx_nodes c)" by blast
  have same: "h1 a = h a" if "a \<in> {e, p} \<union> set_tree l \<union> set_tree g \<union> set_tree r" for a
  proof -
    have "a \<notin> ctx_nodes c" using that d by auto
    then show ?thesis using rc(4) by (auto simp: same_data_def)
  qed
  define h2 where "h2 = upd p (\<lambda>x. x\<lparr>se_lt := se_gt (h e)\<rparr>) (upd e (\<lambda>x. x\<lparr>se_gt := Some p\<rparr>)
     (upd p (\<lambda>x. x\<lparr>se_parent := Some e\<rparr>) (upd e (\<lambda>x. x\<lparr>se_parent := se_parent (h p)\<rparr>) h1)))"
  define h3 where "h3 = set_parent (se_gt (h e)) p h2"
  have ge: "se_gt (h p) \<noteq> Some e" using t(5) d tree_at_Some_in by fastforce
  have eq: "schedule_rotate_up s h e = Some (s1, h3)"
    using t rc(1) ge d by (simp add: schedule_rotate_up_def h3_def h2_def upd_def same Let_def)
  have g2: "tree_at h2 (Some e) (se_gt (h e)) g"
    by (rule tree_at_frame [OF t(3)]) (use d in \<open>auto simp: h2_def upd_def same\<close>)
  have keep: "h3 a = h2 a" if "a \<in> {e, p} \<union> set_tree l \<union> set_tree r \<union> ctx_nodes c" for a
    unfolding h3_def by (rule set_parent_other [OF g2]) (use that d in auto)
  have "tree_at h3 (Some p) (se_gt (h e)) g" unfolding h3_def by (rule set_parent_tree [OF g2]) (use d in simp)
  moreover have "tree_at h3 (Some e) (se_lt (h e)) l"
    by (rule tree_at_frame [OF t(2)]) (use d in \<open>auto simp: keep h2_def upd_def same\<close>)
  moreover have "tree_at h3 (Some p) (se_gt (h p)) r"
    by (rule tree_at_frame [OF t(5)]) (use d in \<open>auto simp: keep h2_def upd_def same\<close>)
  moreover have "ctx_at h3 (sch_root s1) c (se_parent (h p)) (Some e)"
    by (rule ctx_at_frame [OF rc(2)]) (use d in \<open>auto simp: keep h2_def upd_def\<close>)
  moreover have "h3 e = (h e)\<lparr>se_parent := se_parent (h p), se_gt := Some p\<rparr>"
    "h3 p = (h p)\<lparr>se_parent := Some e, se_lt := se_gt (h e)\<rparr>"
    using d by (auto simp: keep h2_def upd_def same)
  ultimately have "links h3 (sch_root s1) (plug c (Node l e (Node g p r)))"
    using d unfolding links_def tree_at_plug by (auto simp: inorder_plug)
  moreover have "same_data h h3 (set (inorder (plug (LHole p r # c) (Node l e g))))"
    using rc(4) set_parent_other [OF g2] unfolding same_data_def h3_def
    by (auto simp: inorder_plug set_parent_data h2_def upd_def)
  ultimately show ?thesis using eq rc(3) by blast
qed

lemma rotate_up_right:
  assumes "links h (sch_root s) (plug (RHole l p # c) (Node g e r))"
  shows "\<exists>s' h'. schedule_rotate_up s h e = Some (s', h') \<and> links h' (sch_root s') (plug c (Node (Node l p g) e r))
     \<and> earliest_wakeup s' = earliest_wakeup s
     \<and> same_data h h' (set (inorder (plug (RHole l p # c) (Node g e r))))"
proof -
  have d: "distinct (ctx_pre c @ inorder l @ [p] @ inorder g @ [e] @ inorder r @ ctx_post c)"
    using assms by (simp add: links_def inorder_plug)
  from assms have t: "se_parent (h e) = Some p" "tree_at h (Some e) (se_gt (h e)) r" "tree_at h (Some e) (se_lt (h e)) g"
    "se_gt (h p) = Some e" "tree_at h (Some p) (se_lt (h p)) l" "ctx_at h (sch_root s) c (se_parent (h p)) (Some p)"
    unfolding links_def tree_at_plug by auto
  have dc: "distinct (ctx_pre c @ ctx_post c)" "p \<notin> ctx_nodes c" using d by auto
  from replace_child_spec [OF t(6) dc, of e] obtain s1 h1 where
    rc: "replace_child s h (se_parent (h p)) p e = Some (s1, h1)" "ctx_at h1 (sch_root s1) c (se_parent (h p)) (Some e)"
      "earliest_wakeup s1 = earliest_wakeup s" "same_data h h1 (ctx_nodes c)" by blast
  have same: "h1 a = h a" if "a \<in> {e, p} \<union> set_tree l \<union> set_tree g \<union> set_tree r" for a
  proof -
    have "a \<notin> ctx_nodes c" using that d by auto
    then show ?thesis using rc(4) by (auto simp: same_data_def)
  qed
  define h2 where "h2 = upd p (\<lambda>x. x\<lparr>se_gt := se_lt (h e)\<rparr>) (upd e (\<lambda>x. x\<lparr>se_lt := Some p\<rparr>)
     (upd p (\<lambda>x. x\<lparr>se_parent := Some e\<rparr>) (upd e (\<lambda>x. x\<lparr>se_parent := se_parent (h p)\<rparr>) h1)))"
  define h3 where "h3 = set_parent (se_lt (h e)) p h2"
  have eq: "schedule_rotate_up s h e = Some (s1, h3)"
    using t rc(1) d by (simp add: schedule_rotate_up_def h3_def h2_def upd_def same Let_def)
  have g2: "tree_at h2 (Some e) (se_lt (h e)) g"
    by (rule tree_at_frame [OF t(3)]) (use d in \<open>auto simp: h2_def upd_def same\<close>)
  have keep: "h3 a = h2 a" if "a \<in> {e, p} \<union> set_tree l \<union> set_tree r \<union> ctx_nodes c" for a
    unfolding h3_def by (rule set_parent_other [OF g2]) (use that d in auto)
  have "tree_at h3 (Some p) (se_lt (h e)) g" unfolding h3_def by (rule set_parent_tree [OF g2]) (use d in simp)
  moreover have "tree_at h3 (Some e) (se_gt (h e)) r"
    by (rule tree_at_frame [OF t(2)]) (use d in \<open>auto simp: keep h2_def upd_def same\<close>)
  moreover have "tree_at h3 (Some p) (se_lt (h p)) l"
    by (rule tree_at_frame [OF t(5)]) (use d in \<open>auto simp: keep h2_def upd_def same\<close>)
  moreover have "ctx_at h3 (sch_root s1) c (se_parent (h p)) (Some e)"
    by (rule ctx_at_frame [OF rc(2)]) (use d in \<open>auto simp: keep h2_def upd_def\<close>)
  moreover have "h3 e = (h e)\<lparr>se_parent := se_parent (h p), se_lt := Some p\<rparr>"
    "h3 p = (h p)\<lparr>se_parent := Some e, se_gt := se_lt (h e)\<rparr>"
    using d by (auto simp: keep h2_def upd_def same)
  ultimately have "links h3 (sch_root s1) (plug c (Node (Node l p g) e r))"
    using d unfolding links_def tree_at_plug by (auto simp: inorder_plug)
  moreover have "same_data h h3 (set (inorder (plug (RHole l p # c) (Node g e r))))"
    using rc(4) set_parent_other [OF g2] unfolding same_data_def h3_def
    by (auto simp: inorder_plug set_parent_data h2_def upd_def)
  ultimately show ?thesis using eq rc(3) by blast
qed

section \<open>Heap order\<close>

fun theap :: "(nat \<Rightarrow> u32) \<Rightarrow> nat tree \<Rightarrow> bool" where
  "theap f Leaf \<longleftrightarrow> True"
| "theap f (Node l a r) \<longleftrightarrow> (\<forall>x \<in> set_tree l \<union> set_tree r. f a \<le> f x) \<and> theap f l \<and> theap f r"

text \<open>The frames around a hole that is filled by the nodes \<open>S\<close>.\<close>

fun ctx_heap :: "(nat \<Rightarrow> u32) \<Rightarrow> frame list \<Rightarrow> nat set \<Rightarrow> bool" where
  "ctx_heap f [] S \<longleftrightarrow> True"
| "ctx_heap f (LHole a r # c) S \<longleftrightarrow> theap f r \<and> (\<forall>x \<in> set_tree r \<union> S. f a \<le> f x)
     \<and> ctx_heap f c (insert a (set_tree r \<union> S))"
| "ctx_heap f (RHole l a # c) S \<longleftrightarrow> theap f l \<and> (\<forall>x \<in> set_tree l \<union> S. f a \<le> f x)
     \<and> ctx_heap f c (insert a (set_tree l \<union> S))"

lemma theap_plug: "theap f (plug c t) \<longleftrightarrow> theap f t \<and> ctx_heap f c (set_tree t)"
proof (induction c t rule: plug.induct)
  case (2 a r c t)
  have "insert a (set_tree r \<union> set_tree t) = set_tree (Node t a r)" by auto
  then show ?case unfolding plug.simps ctx_heap.simps 2 theap.simps by (simp only:) blast
next
  case (3 l a c t)
  have "insert a (set_tree l \<union> set_tree t) = set_tree (Node l a t)" by auto
  then show ?case unfolding plug.simps ctx_heap.simps 3 theap.simps by (simp only:) blast
qed simp

lemma ctx_heap_mono: "ctx_heap f c S \<Longrightarrow> S' \<subseteq> S \<Longrightarrow> ctx_heap f c S'"
proof (induction c arbitrary: S S')
  case (Cons fr c)
  have "ctx_heap f c (insert a (set_tree t \<union> S'))" if "ctx_heap f c (insert a (set_tree t \<union> S))" for a t
    by (rule Cons.IH [OF that]) (use Cons.prems(2) in auto)
  with Cons.prems show ?case by (cases fr) auto
qed simp

lemma ctx_heap_insert: "ctx_heap f c S \<Longrightarrow> y \<in> S \<Longrightarrow> f y \<le> f e \<Longrightarrow> ctx_heap f c (insert e S)"
proof (induction c arbitrary: S)
  case (Cons fr c)
  show ?case
  proof (cases fr)
    case (LHole a r)
    have "ctx_heap f c (insert e (insert a (set_tree r \<union> S)))" by (rule Cons.IH) (use Cons.prems LHole in auto)
    moreover have "f a \<le> f e" using Cons.prems LHole by (meson UnI2 ctx_heap.simps(2) order_trans)
    ultimately show ?thesis using Cons.prems(1) LHole by (auto simp: insert_commute)
  next
    case (RHole l a)
    have "ctx_heap f c (insert e (insert a (set_tree l \<union> S)))" by (rule Cons.IH) (use Cons.prems RHole in auto)
    moreover have "f a \<le> f e" using Cons.prems RHole by (meson UnI2 ctx_heap.simps(3) order_trans)
    ultimately show ?thesis using Cons.prems(1) RHole by (auto simp: insert_commute)
  qed
qed simp

text \<open>Moving the node to the bottom before it is removed.\<close>

lemma remove_loop_spec:
  assumes "links h (sch_root s) (plug c (Node l e r))" "theap (\<lambda>a. se_pri (h a)) l" "theap (\<lambda>a. se_pri (h a)) r"
    and "ctx_heap (\<lambda>a. se_pri (h a)) c (set_tree l \<union> set_tree r)"
  shows "\<exists>s' h' c'. remove_loop s h e = Some (s', h') \<and> links h' (sch_root s') (plug c' (Node Leaf e Leaf))
     \<and> ctx_pre c' = ctx_pre c @ inorder l \<and> ctx_post c' = inorder r @ ctx_post c
     \<and> ctx_heap (\<lambda>a. se_pri (h a)) c' {} \<and> earliest_wakeup s' = earliest_wakeup s
     \<and> same_data h h' (set (inorder (plug c (Node l e r))))"
  using assms
proof (induction "size l + size r" arbitrary: l r c h s rule: less_induct)
  case less
  let ?A = "set (inorder (plug c (Node l e r)))"
  let ?f = "\<lambda>a. se_pri (h a)"
  from less.prems(1) have e: "tree_at h (Some e) (se_lt (h e)) l" "tree_at h (Some e) (se_gt (h e)) r"
    unfolding links_def tree_at_plug by auto
  text \<open>One rotation, then the rest by induction.\<close>
  have step: ?case
    if rot: "\<exists>s1 h1. schedule_rotate_up s h x = Some (s1, h1) \<and> links h1 (sch_root s1) (plug c1 (Node l1 e r1))
        \<and> earliest_wakeup s1 = earliest_wakeup s \<and> same_data h h1 ?A"
      and loop: "\<And>s1 h1. schedule_rotate_up s h x = Some (s1, h1) \<Longrightarrow> remove_loop s h e = remove_loop s1 h1 e"
      and sz: "size l1 + size r1 < size l + size r"
      and hp: "theap ?f l1" "theap ?f r1" "ctx_heap ?f c1 (set_tree l1 \<union> set_tree r1)"
      and ord: "ctx_pre c1 @ inorder l1 = ctx_pre c @ inorder l" "inorder r1 @ ctx_post c1 = inorder r @ ctx_post c"
    for x c1 l1 r1
  proof -
    from rot obtain s1 h1 where r1: "schedule_rotate_up s h x = Some (s1, h1)"
      "links h1 (sch_root s1) (plug c1 (Node l1 e r1))" "earliest_wakeup s1 = earliest_wakeup s" "same_data h h1 ?A" by blast
    have f1: "(\<lambda>a. se_pri (h1 a)) = ?f" using r1(4) by (auto simp: same_data_def)
    have A: "set (inorder (plug c1 (Node l1 e r1))) = ?A"
    proof -
      have "inorder (plug c1 (Node l1 e r1)) = (ctx_pre c1 @ inorder l1) @ e # (inorder r1 @ ctx_post c1)"
        by (simp add: inorder_plug)
      also have "\<dots> = inorder (plug c (Node l e r))" unfolding ord by (simp add: inorder_plug)
      finally show ?thesis by simp
    qed
    from less.hyps [OF sz r1(2), unfolded f1 A, OF hp] obtain s' h' c' where
      ih: "remove_loop s1 h1 e = Some (s', h')" "links h' (sch_root s') (plug c' (Node Leaf e Leaf))"
        "ctx_pre c' = ctx_pre c1 @ inorder l1" "ctx_post c' = inorder r1 @ ctx_post c1"
        "ctx_heap ?f c' {}" "earliest_wakeup s' = earliest_wakeup s1" "same_data h1 h' ?A" by auto
    show ?thesis
      using ih loop [OF r1(1)] ord r1(3) same_data_trans [OF r1(4) ih(7)] by (intro exI [of _ s'] exI [of _ h'] exI [of _ c']) simp
  qed
  have up_left: ?case if l: "l = Node ll x lr" and le: "\<forall>y \<in> set_tree r. ?f x \<le> ?f y"
    and loop: "\<And>s1 h1. schedule_rotate_up s h x = Some (s1, h1) \<Longrightarrow> remove_loop s h e = remove_loop s1 h1 e" for ll x lr
  proof (rule step [of x "RHole ll x # c" lr r])
    from rotate_up_left [of h s e r c ll x lr] less.prems(1) l
    show "\<exists>s1 h1. schedule_rotate_up s h x = Some (s1, h1) \<and> links h1 (sch_root s1) (plug (RHole ll x # c) (Node lr e r))
        \<and> earliest_wakeup s1 = earliest_wakeup s \<and> same_data h h1 ?A" by simp
    have "insert x (set_tree ll \<union> (set_tree lr \<union> set_tree r)) = set_tree l \<union> set_tree r" using l by auto
    with less.prems(2,4) l le show "ctx_heap ?f (RHole ll x # c) (set_tree lr \<union> set_tree r)" by auto
  qed (use less.prems(2,3) l loop in auto)
  have up_right: ?case if r: "r = Node rl x rr" and le: "\<forall>y \<in> set_tree l. ?f x \<le> ?f y"
    and loop: "\<And>s1 h1. schedule_rotate_up s h x = Some (s1, h1) \<Longrightarrow> remove_loop s h e = remove_loop s1 h1 e" for rl x rr
  proof (rule step [of x "LHole x rr # c" l rl])
    from rotate_up_right [of h s l e c rl x rr] less.prems(1) r
    show "\<exists>s1 h1. schedule_rotate_up s h x = Some (s1, h1) \<and> links h1 (sch_root s1) (plug (LHole x rr # c) (Node l e rl))
        \<and> earliest_wakeup s1 = earliest_wakeup s \<and> same_data h h1 ?A" by simp
    have "insert x (set_tree rr \<union> (set_tree l \<union> set_tree rl)) = set_tree l \<union> set_tree r" using r by auto
    with less.prems(3,4) r le show "ctx_heap ?f (LHole x rr # c) (set_tree l \<union> set_tree rl)" by auto
  qed (use less.prems(2,3) r loop in auto)
  show ?case
  proof (cases l)
    case ll: Leaf
    show ?thesis
    proof (cases r)
      case Leaf
      with ll e have "remove_loop s h e = Some (s, h)" by (simp add: remove_loop.simps)
      with ll Leaf less.prems show ?thesis by (intro exI [of _ s] exI [of _ h] exI [of _ c]) simp
    next
      case (Node rl x rr)
      show ?thesis by (rule up_right [OF Node]) (use ll Node e in \<open>simp_all add: remove_loop.simps [of s h e]\<close>)
    qed
  next
    case ln: (Node ll x lr)
    show ?thesis
    proof (cases r)
      case Leaf
      show ?thesis by (rule up_left [OF ln]) (use ln Leaf e in \<open>simp_all add: remove_loop.simps [of s h e]\<close>)
    next
      case rn: (Node rl y rr)
      show ?thesis
      proof (cases "?f x < ?f y")
        case True
        show ?thesis
          by (rule up_left [OF ln]) (use True less.prems(3) ln rn e in \<open>force simp: remove_loop.simps [of s h e]\<close>)+
      next
        case False
        show ?thesis
          by (rule up_right [OF rn]) (use False less.prems(2) ln rn e in \<open>force simp: remove_loop.simps [of s h e]\<close>)+
      qed
    qed
  qed
qed

lemma detach_spec:
  assumes "links h (sch_root s) (plug c (Node Leaf e Leaf))"
  shows "\<exists>s' h'. schedule_detach_parent s h e = Some (s', h') \<and> links h' (sch_root s') (plug c Leaf)
     \<and> earliest_wakeup s' = earliest_wakeup s \<and> same_data h h' (insert e (ctx_nodes c))
     \<and> se_parent (h' e) = None \<and> se_lt (h' e) = None \<and> se_gt (h' e) = None"
proof -
  have d: "distinct (ctx_pre c @ [e] @ ctx_post c)" using assms by (simp add: links_def inorder_plug)
  from assms obtain par where e: "se_parent (h e) = par" "se_lt (h e) = None" "se_gt (h e) = None"
    "ctx_at h (sch_root s) c par (Some e)" unfolding links_def tree_at_plug by auto
  show ?thesis
  proof (cases c)
    case Nil
    with e show ?thesis by (auto simp: schedule_detach_parent_def links_def)
  next
    case (Cons f c')
    show ?thesis
    proof (cases f)
      case (LHole a r)
      let ?h = "upd e (\<lambda>x. x\<lparr>se_parent := None\<rparr>) (upd a (\<lambda>x. x\<lparr>se_lt := None\<rparr>) h)"
      from e(4) Cons LHole have f: "par = Some a" "se_lt (h a) = Some e" "tree_at h (Some a) (se_gt (h a)) r"
        "ctx_at h (sch_root s) c' (se_parent (h a)) (Some a)" by auto
      have "tree_at ?h (Some a) (se_gt (h a)) r" "ctx_at ?h (sch_root s) c' (se_parent (h a)) (Some a)"
        by (rule tree_at_frame [OF f(3)] ctx_at_frame [OF f(4)]; use d Cons LHole in \<open>auto simp: upd_def\<close>)+
      with f e d Cons LHole have "links ?h (sch_root s) (plug c Leaf)"
        unfolding links_def tree_at_plug by (auto simp: inorder_plug upd_def)
      with f e d Cons LHole show ?thesis by (auto simp: schedule_detach_parent_def same_data_def upd_def)
    next
      case (RHole l a)
      let ?h = "upd e (\<lambda>x. x\<lparr>se_parent := None\<rparr>) (upd a (\<lambda>x. x\<lparr>se_gt := None\<rparr>) h)"
      from e(4) Cons RHole have f: "par = Some a" "se_gt (h a) = Some e" "tree_at h (Some a) (se_lt (h a)) l"
        "ctx_at h (sch_root s) c' (se_parent (h a)) (Some a)" by auto
      have ne: "se_lt (h a) \<noteq> Some e" using tree_at_Some_in f(3) d Cons RHole by fastforce
      have "tree_at ?h (Some a) (se_lt (h a)) l" "ctx_at ?h (sch_root s) c' (se_parent (h a)) (Some a)"
        by (rule tree_at_frame [OF f(3)] ctx_at_frame [OF f(4)]; use d Cons RHole in \<open>auto simp: upd_def\<close>)+
      with f e d Cons RHole have "links ?h (sch_root s) (plug c Leaf)"
        unfolding links_def tree_at_plug by (auto simp: inorder_plug upd_def)
      with f e d ne Cons RHole show ?thesis by (auto simp: schedule_detach_parent_def same_data_def upd_def)
    qed
  qed
qed

lemma theap_rotated:
  assumes "theap f (Node l e r)" "theap f x" "\<forall>y \<in> set_tree x \<union> (set_tree l \<union> set_tree r). f p \<le> f y" "f e < f p"
  shows "theap f (Node l e (Node r p x))" "theap f (Node (Node x p l) e r)"
proof -
  have "f e \<le> f y" if "y \<in> set_tree x" for y
    using that assms(3,4) by (meson UnI1 less_imp_le order_trans)
  with assms show "theap f (Node l e (Node r p x))" "theap f (Node (Node x p l) e r)" by auto
qed

text \<open>Moving a new node up to where the heap order puts it.\<close>

lemma sift_up_spec:
  assumes "links h (sch_root s) (plug c (Node l e r))" "theap (\<lambda>a. se_pri (h a)) (Node l e r)"
    and "ctx_heap (\<lambda>a. se_pri (h a)) c (set_tree l \<union> set_tree r)"
  shows "\<exists>s' h' t. sift_up s h e = Some (s', h') \<and> links h' (sch_root s') t \<and> inorder t = inorder (plug c (Node l e r))
     \<and> theap (\<lambda>a. se_pri (h a)) t \<and> earliest_wakeup s' = earliest_wakeup s
     \<and> same_data h h' (set (inorder (plug c (Node l e r))))"
  using assms
proof (induction c arbitrary: l r h s)
  case Nil
  then have "se_parent (h e) = None" by (simp add: links_def)
  then have "sift_up s h e = Some (s, h)" by (simp add: sift_up.simps)
  with Nil show ?case by (intro exI [of _ s] exI [of _ h] exI [of _ "Node l e r"]) simp
next
  case (Cons fr c)
  let ?f = "\<lambda>a. se_pri (h a)"
  let ?A = "set (inorder (plug (fr # c) (Node l e r)))"
  text \<open>One rotation, then the rest by induction.\<close>
  have go: ?case
    if rot: "\<exists>s1 h1. schedule_rotate_up s h e = Some (s1, h1) \<and> links h1 (sch_root s1) (plug c (Node l1 e r1))
        \<and> earliest_wakeup s1 = earliest_wakeup s \<and> same_data h h1 ?A"
      and up: "se_parent (h e) = Some p" "?f e < ?f p"
      and hp: "theap ?f (Node l1 e r1)" "ctx_heap ?f c (set_tree l1 \<union> set_tree r1)"
      and ord: "inorder (plug c (Node l1 e r1)) = inorder (plug (fr # c) (Node l e r))" for p l1 r1
  proof -
    from rot obtain s1 h1 where r1: "schedule_rotate_up s h e = Some (s1, h1)"
      "links h1 (sch_root s1) (plug c (Node l1 e r1))" "earliest_wakeup s1 = earliest_wakeup s" "same_data h h1 ?A" by blast
    have f1: "(\<lambda>a. se_pri (h1 a)) = ?f" using r1(4) by (auto simp: same_data_def)
    from Cons.IH [OF r1(2), unfolded f1 ord, OF hp] obtain s' h' t where
      ih: "sift_up s1 h1 e = Some (s', h')" "links h' (sch_root s') t" "inorder t = inorder (plug (fr # c) (Node l e r))"
        "theap ?f t" "earliest_wakeup s' = earliest_wakeup s1" "same_data h1 h' ?A" by auto
    have "sift_up s h e = Some (s', h')" using up r1(1) ih(1) by (simp add: sift_up.simps [of s h e])
    with ih r1(3) same_data_trans [OF r1(4) ih(6)] show ?thesis
      by (intro exI [of _ s'] exI [of _ h'] exI [of _ t]) simp
  qed
  have stop: ?case if "se_parent (h e) = Some p" "\<not> ?f e < ?f p" "ctx_heap ?f (fr # c) (insert e (set_tree l \<union> set_tree r))" for p
  proof -
    have "theap ?f (plug (fr # c) (Node l e r))" unfolding theap_plug using Cons.prems(2) that(3) by simp
    moreover have "sift_up s h e = Some (s, h)" using that by (simp add: sift_up.simps [of s h e])
    ultimately show ?thesis using Cons.prems(1)
      by (intro exI [of _ s] exI [of _ h] exI [of _ "plug (fr # c) (Node l e r)"]) simp
  qed
  show ?case
  proof (cases fr)
    case (LHole p x)
    from Cons.prems(1) LHole have par: "se_parent (h e) = Some p" unfolding links_def tree_at_plug by auto
    show ?thesis
    proof (cases "?f e < ?f p")
      case True
      show ?thesis
      proof (rule go [OF _ par True])
        show "\<exists>s1 h1. schedule_rotate_up s h e = Some (s1, h1) \<and> links h1 (sch_root s1) (plug c (Node l e (Node r p x)))
          \<and> earliest_wakeup s1 = earliest_wakeup s \<and> same_data h h1 ?A"
          using rotate_up_left [of h s p x c l e r] Cons.prems(1) LHole by simp
        show "theap ?f (Node l e (Node r p x))"
          by (rule theap_rotated(1) [OF Cons.prems(2) _ _ True]) (use Cons.prems(3) LHole in simp_all)
        have "insert p (set_tree x \<union> (set_tree l \<union> set_tree r)) = set_tree l \<union> set_tree (Node r p x)" by auto
        with Cons.prems(3) LHole show "ctx_heap ?f c (set_tree l \<union> set_tree (Node r p x))" by simp
      qed (simp add: inorder_plug LHole)
    next
      case False
      have "ctx_heap ?f c (insert e (insert p (set_tree x \<union> (set_tree l \<union> set_tree r))))"
        by (rule ctx_heap_insert [of _ _ _ p]) (use Cons.prems(3) LHole False in auto)
      then have "ctx_heap ?f (fr # c) (insert e (set_tree l \<union> set_tree r))"
        using Cons.prems(3) LHole False by (auto simp: insert_commute)
      from stop [OF par False this] show ?thesis .
    qed
  next
    case (RHole x p)
    from Cons.prems(1) RHole have par: "se_parent (h e) = Some p" unfolding links_def tree_at_plug by auto
    show ?thesis
    proof (cases "?f e < ?f p")
      case True
      show ?thesis
      proof (rule go [OF _ par True])
        show "\<exists>s1 h1. schedule_rotate_up s h e = Some (s1, h1) \<and> links h1 (sch_root s1) (plug c (Node (Node x p l) e r))
          \<and> earliest_wakeup s1 = earliest_wakeup s \<and> same_data h h1 ?A"
          using rotate_up_right [of h s x p c l e r] Cons.prems(1) RHole by simp
        show "theap ?f (Node (Node x p l) e r)"
          by (rule theap_rotated(2) [OF Cons.prems(2) _ _ True]) (use Cons.prems(3) RHole in simp_all)
        have "insert p (set_tree x \<union> (set_tree l \<union> set_tree r)) = set_tree (Node x p l) \<union> set_tree r" by auto
        with Cons.prems(3) RHole show "ctx_heap ?f c (set_tree (Node x p l) \<union> set_tree r)" by simp
      qed (simp add: inorder_plug RHole)
    next
      case False
      have "ctx_heap ?f c (insert e (insert p (set_tree x \<union> (set_tree l \<union> set_tree r))))"
        by (rule ctx_heap_insert [of _ _ _ p]) (use Cons.prems(3) RHole False in auto)
      then have "ctx_heap ?f (fr # c) (insert e (set_tree l \<union> set_tree r))"
        using Cons.prems(3) RHole False by (auto simp: insert_commute)
      from stop [OF par False this] show ?thesis .
    qed
  qed
qed

section \<open>Search order\<close>

definition klt :: "entries \<Rightarrow> nat \<Rightarrow> nat \<Rightarrow> bool" where
  "klt h a b \<longleftrightarrow> schedule_entry_compare (h a) (h b) = -1"

lemma compare_flip: "schedule_entry_compare x y = 1 \<longleftrightarrow> schedule_entry_compare y x = -1"
  by (auto simp: schedule_entry_compare_def)

lemma compare_zero:
  "schedule_entry_compare x y \<noteq> -1 \<Longrightarrow> schedule_entry_compare x y \<noteq> 1 \<Longrightarrow> se_tv x = se_tv y \<and> se_pri x = se_pri y"
  by (auto simp: schedule_entry_compare_def intro!: timeval.equality split: if_splits)

lemma compare_trans:
  "schedule_entry_compare x y = -1 \<Longrightarrow> schedule_entry_compare y z = -1 \<Longrightarrow> schedule_entry_compare x z = -1"
  by (auto simp: schedule_entry_compare_def split: if_splits)

lemma klt_trans: "klt h a b \<Longrightarrow> klt h b c \<Longrightarrow> klt h a c"
  using compare_trans by (auto simp: klt_def)

lemma klt_le: "klt h a b \<Longrightarrow> tv_le (se_tv (h a)) (se_tv (h b))"
  by (auto simp: klt_def schedule_entry_compare_def tv_le_def split: if_splits)

lemma klt_cong:
  "se_tv (h' a) = se_tv (h a) \<Longrightarrow> se_pri (h' a) = se_pri (h a) \<Longrightarrow> se_tv (h' b) = se_tv (h b) \<Longrightarrow> se_pri (h' b) = se_pri (h b)
     \<Longrightarrow> klt h' a b = klt h a b"
  by (simp add: klt_def schedule_entry_compare_def)

lemma klt_same_data: "same_data h h' A \<Longrightarrow> klt h' = klt h"
  by (intro ext klt_cong) (auto simp: same_data_def)

definition pri_at :: "(nat \<Rightarrow> u32) \<Rightarrow> nat \<Rightarrow> u32" where
  "pri_at rnd k = (if rnd k < 1 then 1 else rnd k)"

definition collides :: "entries \<Rightarrow> nat set \<Rightarrow> nat \<Rightarrow> u32 \<Rightarrow> bool" where
  "collides h T e p \<longleftrightarrow> (\<exists>x \<in> T. se_tv (h x) = se_tv (h e) \<and> se_pri (h x) = p)"

definition single :: "entries \<Rightarrow> nat \<Rightarrow> bool" where
  "single h e \<longleftrightarrow> se_parent (h e) = None \<and> se_lt (h e) = None \<and> se_gt (h e) = None"

text \<open>
  One descent from a position in the tree: it ends at the leaf where the entry belongs, or at an
  entry with the same time and priority, from where the search starts over with a new priority.
\<close>

lemma insert_descent:
  assumes "links h (Some rt) (plug c (Node l a g))" "e \<notin> set_tree (plug c (Node l a g))" "single h e"
    and "\<forall>x \<in> set (ctx_pre c). klt h x e" "\<forall>x \<in> set (ctx_post c). klt h e x"
    and "sorted_wrt (klt h) (inorder (plug c (Node l a g)))"
  shows "(\<exists>h' c'. insert_loop rnd rt e h k a = Some (h', k) \<and> links h' (Some rt) (plug c' (Node Leaf e Leaf))
        \<and> plug c' Leaf = plug c (Node l a g) \<and> (\<forall>x \<in> set (ctx_pre c'). klt h x e) \<and> (\<forall>x \<in> set (ctx_post c'). klt h e x)
        \<and> same_data h h' (insert e (set_tree (plug c (Node l a g)))))
     \<or> (collides h (set_tree (Node l a g)) e (se_pri (h e))
        \<and> insert_loop rnd rt e h k a = insert_loop rnd rt e (fst (schedule_set_pri rnd k h e)) (Suc k) rt)"
  using assms
proof (induction "size (Node l a g)" arbitrary: c l a g rule: less_induct)
  case less
  have d: "distinct (ctx_pre c @ inorder l @ [a] @ inorder g @ ctx_post c)" and ne: "e \<notin> set (ctx_pre c @ inorder l @ [a] @ inorder g @ ctx_post c)"
    using less.prems(1,2) by (simp_all add: links_def inorder_plug flip: set_inorder)
  have so: "sorted_wrt (klt h) (ctx_pre c @ inorder l @ [a] @ inorder g @ ctx_post c)"
    using less.prems(6) by (simp add: inorder_plug)
  from less.prems(1) obtain par where t: "se_parent (h a) = par" "tree_at h (Some a) (se_lt (h a)) l"
    "tree_at h (Some a) (se_gt (h a)) g" "ctx_at h (Some rt) c par (Some a)" unfolding links_def tree_at_plug by auto
  let ?comp = "schedule_entry_compare (h e) (h a)"
  consider "?comp = -1" | "?comp = 1" | "?comp \<noteq> -1" "?comp \<noteq> 1" by blast
  then show ?case
  proof cases
    case 1
    have post: "\<forall>x \<in> set (ctx_post (LHole a g # c)). klt h e x"
    proof -
      have "klt h e a" using 1 by (simp add: klt_def)
      moreover from this have "klt h e x" if "x \<in> set (inorder g)" for x
        using so that klt_trans [of h e a x] by (auto simp: sorted_wrt_append)
      ultimately show ?thesis using less.prems(5) by auto
    qed
    show ?thesis
    proof (cases l)
      case Leaf
      let ?h = "upd e (\<lambda>x. x\<lparr>se_parent := Some a\<rparr>) (upd a (\<lambda>x. x\<lparr>se_lt := Some e\<rparr>) h)"
      have "insert_loop rnd rt e h k a = Some (?h, k)" using 1 t(2) Leaf by (simp add: insert_loop.simps [of rnd rt e h k a])
      moreover have "tree_at ?h (Some a) (se_gt (h a)) g" "ctx_at ?h (Some rt) c par (Some a)"
        by (rule tree_at_frame [OF t(3)] ctx_at_frame [OF t(4)]; use d ne in \<open>auto simp: upd_def\<close>)+
      then have "links ?h (Some rt) (plug (LHole a g # c) (Node Leaf e Leaf))"
        using t d ne less.prems(3) Leaf unfolding links_def tree_at_plug by (auto simp: inorder_plug upd_def single_def)
      ultimately show ?thesis using post less.prems(4) Leaf
        by (intro disjI1 exI [of _ ?h] exI [of _ "LHole a g # c"]) (auto simp: same_data_def upd_def simp flip: set_inorder simp: inorder_plug)
    next
      case (Node ll b lr)
      have eq: "insert_loop rnd rt e h k a = insert_loop rnd rt e h k b"
        using 1 t(2) Node by (simp add: insert_loop.simps [of rnd rt e h k a])
      have "size (Node ll b lr) < size (Node l a g)" using Node by simp
      from less.hyps [OF this, of "LHole a g # c"] less.prems Node post have
        "(\<exists>h' c'. insert_loop rnd rt e h k b = Some (h', k) \<and> links h' (Some rt) (plug c' (Node Leaf e Leaf))
          \<and> plug c' Leaf = plug c (Node l a g) \<and> (\<forall>x \<in> set (ctx_pre c'). klt h x e) \<and> (\<forall>x \<in> set (ctx_post c'). klt h e x)
          \<and> same_data h h' (insert e (set_tree (plug c (Node l a g)))))
       \<or> (collides h (set_tree l) e (se_pri (h e))
          \<and> insert_loop rnd rt e h k b = insert_loop rnd rt e (fst (schedule_set_pri rnd k h e)) (Suc k) rt)" by simp
      then show ?thesis unfolding eq by (auto simp: collides_def)
    qed
  next
    case 2
    have pre: "\<forall>x \<in> set (ctx_pre (RHole l a # c)). klt h x e"
    proof -
      have "klt h a e" using 2 by (simp add: klt_def compare_flip)
      moreover from this have "klt h x e" if "x \<in> set (inorder l)" for x
        using so that klt_trans [of h x a e] by (auto simp: sorted_wrt_append)
      ultimately show ?thesis using less.prems(4) by auto
    qed
    show ?thesis
    proof (cases g)
      case Leaf
      let ?h = "upd e (\<lambda>x. x\<lparr>se_parent := Some a\<rparr>) (upd a (\<lambda>x. x\<lparr>se_gt := Some e\<rparr>) h)"
      have "insert_loop rnd rt e h k a = Some (?h, k)" using 2 t(3) Leaf by (simp add: insert_loop.simps [of rnd rt e h k a])
      moreover have "tree_at ?h (Some a) (se_lt (h a)) l" "ctx_at ?h (Some rt) c par (Some a)"
        by (rule tree_at_frame [OF t(2)] ctx_at_frame [OF t(4)]; use d ne in \<open>auto simp: upd_def\<close>)+
      then have "links ?h (Some rt) (plug (RHole l a # c) (Node Leaf e Leaf))"
        using t d ne less.prems(3) Leaf unfolding links_def tree_at_plug by (auto simp: inorder_plug upd_def single_def)
      ultimately show ?thesis using pre less.prems(5) Leaf
        by (intro disjI1 exI [of _ ?h] exI [of _ "RHole l a # c"]) (auto simp: same_data_def upd_def simp flip: set_inorder simp: inorder_plug)
    next
      case (Node ll b lr)
      have eq: "insert_loop rnd rt e h k a = insert_loop rnd rt e h k b"
        using 2 t(3) Node by (simp add: insert_loop.simps [of rnd rt e h k a])
      have "size (Node ll b lr) < size (Node l a g)" using Node by simp
      from less.hyps [OF this, of "RHole l a # c"] less.prems Node pre have
        "(\<exists>h' c'. insert_loop rnd rt e h k b = Some (h', k) \<and> links h' (Some rt) (plug c' (Node Leaf e Leaf))
          \<and> plug c' Leaf = plug c (Node l a g) \<and> (\<forall>x \<in> set (ctx_pre c'). klt h x e) \<and> (\<forall>x \<in> set (ctx_post c'). klt h e x)
          \<and> same_data h h' (insert e (set_tree (plug c (Node l a g)))))
       \<or> (collides h (set_tree g) e (se_pri (h e))
          \<and> insert_loop rnd rt e h k b = insert_loop rnd rt e (fst (schedule_set_pri rnd k h e)) (Suc k) rt)" by simp
      then show ?thesis unfolding eq by (auto simp: collides_def)
    qed
  next
    case 3
    then have "insert_loop rnd rt e h k a = insert_loop rnd rt e (fst (schedule_set_pri rnd k h e)) (Suc k) rt"
      by (simp add: insert_loop.simps [of rnd rt e h k a] schedule_set_pri_def)
    moreover have "collides h (set_tree (Node l a g)) e (se_pri (h e))"
      using compare_zero [OF 3] by (auto simp: collides_def)
    ultimately show ?thesis by blast
  qed
qed

text \<open>What an insertion may change: the priority of the new entry, and links of the tree.\<close>

definition entry_only :: "entries \<Rightarrow> entries \<Rightarrow> nat \<Rightarrow> nat set \<Rightarrow> bool" where
  "entry_only h h' e A \<longleftrightarrow> (\<forall>a. se_tv (h' a) = se_tv (h a)) \<and> (\<forall>a. a \<noteq> e \<longrightarrow> se_pri (h' a) = se_pri (h a))
     \<and> (\<forall>a. a \<notin> insert e A \<longrightarrow> h' a = h a)"

lemma set_pri_links:
  assumes "links h rt t" "e \<notin> set_tree t"
  shows "links (upd e f h) rt t"
  unfolding links_def
proof
  show "tree_at (upd e f h) None rt t"
    by (rule tree_at_frame [of h]) (use assms in \<open>auto simp: links_def upd_def\<close>)
qed (use assms in \<open>simp add: links_def\<close>)

definition inserted :: "(nat \<Rightarrow> u32) \<Rightarrow> nat \<Rightarrow> nat \<Rightarrow> entries \<Rightarrow> nat \<Rightarrow> nat tree \<Rightarrow> entries \<Rightarrow> bool" where
  "inserted rnd rt e h k t h0 \<longleftrightarrow> (\<exists>h' k' c. insert_loop rnd rt e h k rt = Some (h', k')
     \<and> links h' (Some rt) (plug c (Node Leaf e Leaf)) \<and> plug c Leaf = t
     \<and> sorted_wrt (klt h') (inorder (plug c (Node Leaf e Leaf))) \<and> se_pri (h' e) \<noteq> 0 \<and> entry_only h0 h' e (set_tree t))"

definition insertable :: "entries \<Rightarrow> nat \<Rightarrow> nat tree \<Rightarrow> nat \<Rightarrow> bool" where
  "insertable h rt t e \<longleftrightarrow> links h (Some rt) t \<and> e \<notin> set_tree t \<and> single h e \<and> se_pri (h e) \<noteq> 0
     \<and> sorted_wrt (klt h) (inorder t)"

lemma insert_once:
  assumes "insertable h rt t e" "entry_only h0 h e (set_tree t)"
  shows "inserted rnd rt e h k t h0 \<or> (collides h (set_tree t) e (se_pri (h e))
     \<and> insert_loop rnd rt e h k rt = insert_loop rnd rt e (fst (schedule_set_pri rnd k h e)) (Suc k) rt)"
proof -
  from assms(1) obtain l g where t: "t = Node l rt g" by (cases t) (auto simp: links_def insertable_def)
  show ?thesis
  proof (cases "collides h (set_tree t) e (se_pri (h e))
     \<and> insert_loop rnd rt e h k rt = insert_loop rnd rt e (fst (schedule_set_pri rnd k h e)) (Suc k) rt")
    case False
    with insert_descent [of h rt "[]" l rt g e rnd k] assms t obtain h' c where
      r: "insert_loop rnd rt e h k rt = Some (h', k)" "links h' (Some rt) (plug c (Node Leaf e Leaf))" "plug c Leaf = t"
        "\<forall>x \<in> set (ctx_pre c). klt h x e" "\<forall>x \<in> set (ctx_post c). klt h e x" "same_data h h' (insert e (set_tree t))"
      by (auto simp: insertable_def)
    have "inorder t = ctx_pre c @ ctx_post c" using inorder_plug [of c Leaf] r(3) by simp
    with assms(1) r(4,5) have "sorted_wrt (klt h) (inorder (plug c (Node Leaf e Leaf)))"
      by (auto simp: inorder_plug sorted_wrt_append insertable_def)
    moreover have "entry_only h0 h' e (set_tree t)" using assms(2) r(6) by (simp add: entry_only_def same_data_def)
    moreover have "se_pri (h' e) \<noteq> 0" using assms(1) r(6) by (simp add: insertable_def same_data_def)
    ultimately show ?thesis using r klt_same_data [OF r(6)] unfolding inserted_def by auto
  qed simp
qed

lemma set_pri_insertable:
  assumes "insertable h rt t e" "entry_only h0 h e (set_tree t)"
  shows "insertable (fst (schedule_set_pri rnd k h e)) rt t e" "entry_only h0 (fst (schedule_set_pri rnd k h e)) e (set_tree t)"
    "se_pri (fst (schedule_set_pri rnd k h e) e) = pri_at rnd k"
    "collides (fst (schedule_set_pri rnd k h e)) (set_tree t) e p = collides h (set_tree t) e p"
proof -
  let ?h = "upd e (\<lambda>x. x\<lparr>se_pri := pri_at rnd k\<rparr>) h"
  have sp: "fst (schedule_set_pri rnd k h e) = ?h" by (simp add: schedule_set_pri_def pri_at_def)
  have "klt ?h a b = klt h a b" if "a \<in> set (inorder t)" "b \<in> set (inorder t)" for a b
    by (rule klt_cong) (use that assms(1) in \<open>auto simp: insertable_def upd_def\<close>)
  then have "sorted_wrt (klt ?h) (inorder t)"
    using assms(1) sorted_wrt_mono_rel [of "inorder t" "klt h" "klt ?h"] by (auto simp: insertable_def)
  moreover have "pri_at rnd k \<noteq> 0" by (simp add: pri_at_def)
  ultimately show "insertable (fst (schedule_set_pri rnd k h e)) rt t e"
    using assms(1) set_pri_links [of h "Some rt" t e] unfolding sp by (auto simp: insertable_def single_def upd_def)
  show "entry_only h0 (fst (schedule_set_pri rnd k h e)) e (set_tree t)"
    using assms(2) unfolding sp by (auto simp: entry_only_def upd_def)
  show "se_pri (fst (schedule_set_pri rnd k h e) e) = pri_at rnd k" unfolding sp by (simp add: upd_def)
  show "collides (fst (schedule_set_pri rnd k h e)) (set_tree t) e p = collides h (set_tree t) e p"
    using assms(1) unfolding sp collides_def insertable_def by (auto simp: upd_def)
qed

lemma insert_retries:
  assumes "insertable h rt t e" "entry_only h0 h e (set_tree t)" "\<not> collides h (set_tree t) e (pri_at rnd (k + n))"
  shows "inserted rnd rt e h k t h0"
  using assms
proof (induction n arbitrary: h k)
  case 0
  from insert_once [OF 0(1,2), of rnd k] show ?case
  proof
    assume c: "collides h (set_tree t) e (se_pri (h e))
     \<and> insert_loop rnd rt e h k rt = insert_loop rnd rt e (fst (schedule_set_pri rnd k h e)) (Suc k) rt"
    note sp = set_pri_insertable [OF 0(1,2), of rnd k]
    from insert_once [OF sp(1,2), of rnd "Suc k"] 0(3) sp(3,4)
    have "inserted rnd rt e (fst (schedule_set_pri rnd k h e)) (Suc k) t h0" by simp
    with c show ?thesis by (simp add: inserted_def)
  qed
next
  case (Suc n)
  from insert_once [OF Suc(2,3), of rnd k] show ?case
  proof
    assume c: "collides h (set_tree t) e (se_pri (h e))
     \<and> insert_loop rnd rt e h k rt = insert_loop rnd rt e (fst (schedule_set_pri rnd k h e)) (Suc k) rt"
    note sp = set_pri_insertable [OF Suc(2,3), of rnd k]
    from Suc.IH [OF sp(1,2), of "Suc k"] Suc(4) sp(4)
    have "inserted rnd rt e (fst (schedule_set_pri rnd k h e)) (Suc k) t h0" by simp
    with c show ?thesis by (simp add: inserted_def)
  qed
qed

section \<open>The scheduler's invariant\<close>

text \<open>
  The entries of the tree are exactly those with a priority; the others are unlinked. The cached
  wake-up, if any, is the first entry in order.
\<close>

definition tree_inv :: "schedule \<Rightarrow> entries \<Rightarrow> nat tree \<Rightarrow> bool" where
  "tree_inv s h t \<longleftrightarrow> links h (sch_root s) t \<and> sorted_wrt (klt h) (inorder t) \<and> theap (\<lambda>a. se_pri (h a)) t
     \<and> (\<forall>a. a \<in> set_tree t \<longleftrightarrow> se_pri (h a) \<noteq> 0) \<and> (\<forall>a. a \<notin> set_tree t \<longrightarrow> single h a)"

definition sched_inv :: "schedule \<Rightarrow> entries \<Rightarrow> bool" where
  "sched_inv s h \<longleftrightarrow> (\<exists>t. tree_inv s h t
     \<and> (\<forall>e. earliest_wakeup s = Some e \<longrightarrow> inorder t \<noteq> [] \<and> e = hd (inorder t)))"

definition pending :: "entries \<Rightarrow> nat \<Rightarrow> timeval option" where
  "pending h a = (if se_pri (h a) \<noteq> 0 then Some (se_tv (h a)) else None)"

lemma theap_cong: "(\<And>a. a \<in> set_tree t \<Longrightarrow> f a = g a) \<Longrightarrow> theap f t = theap g t"
  by (induction t) auto

lemma klt_sorted_cong:
  assumes "sorted_wrt (klt h) xs" "\<And>a. a \<in> set xs \<Longrightarrow> se_tv (h' a) = se_tv (h a) \<and> se_pri (h' a) = se_pri (h a)"
  shows "sorted_wrt (klt h') xs"
  by (rule sorted_wrt_mono_rel [OF _ assms(1)]) (use assms(2) klt_cong in blast)

lemma split_tree: "e \<in> set_tree t \<Longrightarrow> \<exists>c l r. t = plug c (Node l e r)"
proof (induction t)
  case (Node t1 a t2)
  then consider "e = a" | "e \<in> set_tree t1" | "e \<in> set_tree t2" by auto
  then show ?case
  proof cases
    case 1
    then have "Node t1 a t2 = plug [] (Node t1 e t2)" by simp
    then show ?thesis by blast
  next
    case 2
    with Node.IH(1) obtain c l r where c: "t1 = plug c (Node l e r)" by blast
    have "Node (plug c u) a t2 = plug (c @ [LHole a t2]) u" for u
      by (induction c u rule: plug.induct) simp_all
    with c show ?thesis by blast
  next
    case 3
    with Node.IH(2) obtain c l r where c: "t2 = plug c (Node l e r)" by blast
    have "Node t1 a (plug c u) = plug (c @ [RHole t1 a]) u" for u
      by (induction c u rule: plug.induct) simp_all
    with c show ?thesis by blast
  qed
qed simp

text \<open>Removal needs the links and the heap order only: the time of the entry may have changed already.\<close>

lemma remove_node_spec:
  assumes "links h (sch_root s) t" "theap (\<lambda>a. se_pri (h a)) t" "e \<in> set_tree t"
  shows "\<exists>s' h' t'. schedule_remove_node s h e = Some (s', h') \<and> links h' (sch_root s') t'
     \<and> theap (\<lambda>a. se_pri (h' a)) t' \<and> inorder t' = filter (\<lambda>a. a \<noteq> e) (inorder t)
     \<and> earliest_wakeup s' = earliest_wakeup s \<and> single h' e \<and> se_pri (h' e) = 0
     \<and> entry_only h h' e (set_tree t)"
proof -
  from split_tree [OF assms(3)] obtain c l r where t: "t = plug c (Node l e r)" by blast
  let ?f = "\<lambda>a. se_pri (h a)"
  have hp: "theap ?f l" "theap ?f r" "ctx_heap ?f c (set_tree (Node l e r))" using assms(2) unfolding t theap_plug by auto
  have "ctx_heap ?f c (set_tree l \<union> set_tree r)" by (rule ctx_heap_mono [OF hp(3)]) auto
  from remove_loop_spec [OF assms(1) [unfolded t] hp(1,2) this] obtain s1 h1 c1 where
    a: "remove_loop s h e = Some (s1, h1)" "links h1 (sch_root s1) (plug c1 (Node Leaf e Leaf))"
      "ctx_pre c1 = ctx_pre c @ inorder l" "ctx_post c1 = inorder r @ ctx_post c" "ctx_heap ?f c1 {}"
      "earliest_wakeup s1 = earliest_wakeup s" "same_data h h1 (set (inorder t))" unfolding t by blast
  from detach_spec [OF a(2)] obtain s2 h2 where
    b: "schedule_detach_parent s1 h1 e = Some (s2, h2)" "links h2 (sch_root s2) (plug c1 Leaf)"
      "earliest_wakeup s2 = earliest_wakeup s1" "same_data h1 h2 (insert e (ctx_nodes c1))"
      "se_parent (h2 e) = None" "se_lt (h2 e) = None" "se_gt (h2 e) = None" by blast
  let ?h = "upd e (\<lambda>x. x\<lparr>se_pri := 0\<rparr>) h2" and ?t = "plug c1 Leaf"
  have d: "distinct (ctx_pre c @ inorder l @ [e] @ inorder r @ ctx_post c)"
    using assms(1) by (simp add: t links_def inorder_plug)
  have ino: "inorder ?t = ctx_pre c @ inorder l @ inorder r @ ctx_post c" using a(3,4) by (simp add: inorder_plug)
  have inot: "inorder t = ctx_pre c @ inorder l @ [e] @ inorder r @ ctx_post c" by (simp add: t inorder_plug)
  have ne: "e \<notin> set_tree ?t" using d ino by (simp flip: set_inorder)
  have fil: "inorder ?t = filter (\<lambda>a. a \<noteq> e) (inorder t)"
  proof -
    have id: "filter (\<lambda>a. a \<noteq> e) xs = xs" if "e \<notin> set xs" for xs using that by (induction xs) auto
    show ?thesis unfolding ino inot using d by (simp add: id)
  qed
  have "theap ?f ?t" unfolding theap_plug using a(5) by simp
  moreover have "theap (\<lambda>a. se_pri (?h a)) ?t = theap ?f ?t"
    by (rule theap_cong) (use ne a(7) b(4) in \<open>auto simp: upd_def same_data_def\<close>)
  moreover have "links ?h (sch_root s2) ?t" by (rule set_pri_links [OF b(2) ne])
  moreover have "entry_only h ?h e (set_tree t)"
  proof -
    have "ctx_nodes c1 \<subseteq> set_tree t" using a(3,4) inot by (auto simp flip: set_inorder)
    with a(7) b(4) show ?thesis by (auto simp: entry_only_def same_data_def upd_def)
  qed
  ultimately show ?thesis
    using a(1,6) b fil by (auto simp: schedule_remove_node_def single_def upd_def)
qed

lemma links_only:
  assumes "links h rt t" "\<And>a. se_parent (h' a) = se_parent (h a) \<and> se_lt (h' a) = se_lt (h a) \<and> se_gt (h' a) = se_gt (h a)"
  shows "links h' rt t"
proof -
  have "tree_at h' par q t = tree_at h par q t" for par q
    by (induction t arbitrary: par q) (simp_all add: assms(2))
  with assms(1) show ?thesis by (simp add: links_def)
qed

text \<open>The state between the removal of an old entry and the insertion of the new one.\<close>

definition ready :: "schedule \<Rightarrow> entries \<Rightarrow> nat tree \<Rightarrow> nat \<Rightarrow> bool" where
  "ready s h t e \<longleftrightarrow> links h (sch_root s) t \<and> sorted_wrt (klt h) (inorder t) \<and> theap (\<lambda>a. se_pri (h a)) t
     \<and> e \<notin> set_tree t \<and> (\<forall>a. a \<noteq> e \<longrightarrow> (a \<in> set_tree t \<longleftrightarrow> se_pri (h a) \<noteq> 0)) \<and> (\<forall>a. a \<notin> set_tree t \<longrightarrow> single h a)"

lemma insert_ready:
  assumes r: "ready s h t e" and p: "se_pri (h e) \<noteq> 0" and fresh: "\<exists>n. \<not> collides h (set_tree t) e (pri_at rnd (k + n))"
  shows "\<exists>s' h' k' t'. (case sch_root s of
             Some rt \<Rightarrow> do { (h, k) \<leftarrow> insert_loop rnd rt e h k rt; Some (s, h, k) }
           | None \<Rightarrow> Some (s\<lparr>sch_root := Some e\<rparr>, h, k)) \<bind> (\<lambda>(s, h, k). do { (s, h) \<leftarrow> sift_up s h e; Some (s, h, k) })
         = Some (s', h', k')
     \<and> tree_inv s' h' t' \<and> set_tree t' = insert e (set_tree t)
     \<and> (\<forall>a. se_tv (h' a) = se_tv (h a)) \<and> (\<forall>a. a \<noteq> e \<longrightarrow> se_pri (h' a) = se_pri (h a))"
proof -
  have go: "\<exists>s' h' t'. sift_up s1 h1 e = Some (s', h') \<and> tree_inv s' h' t' \<and> set_tree t' = insert e (set_tree t)
      \<and> (\<forall>a. se_tv (h' a) = se_tv (h a)) \<and> (\<forall>a. a \<noteq> e \<longrightarrow> se_pri (h' a) = se_pri (h a))"
    if a: "links h1 (sch_root s1) (plug c (Node Leaf e Leaf))" "plug c Leaf = t"
      "sorted_wrt (klt h1) (inorder (plug c (Node Leaf e Leaf)))" "se_pri (h1 e) \<noteq> 0" "entry_only h h1 e (set_tree t)" for s1 h1 c
  proof -
    let ?f = "\<lambda>a. se_pri (h1 a)"
    have "theap ?f t = theap (\<lambda>a. se_pri (h a)) t"
      by (rule theap_cong) (use a(5) r in \<open>auto simp: entry_only_def ready_def\<close>)
    then have "theap ?f t" using r by (simp add: ready_def)
    then have "ctx_heap ?f c {}" unfolding a(2) [symmetric] theap_plug by simp
    with sift_up_spec [OF a(1)] obtain s' h' t' where
      u: "sift_up s1 h1 e = Some (s', h')" "links h' (sch_root s') t'" "inorder t' = inorder (plug c (Node Leaf e Leaf))"
        "theap ?f t'" "same_data h1 h' (set (inorder (plug c (Node Leaf e Leaf))))" by auto
    have "set (inorder t') = insert e (set (inorder t))" unfolding u(3) a(2) [symmetric] by (auto simp: inorder_plug)
    then have st: "set_tree t' = insert e (set_tree t)" by simp
    have fp: "(\<lambda>a. se_pri (h' a)) = ?f" using u(5) by (auto simp: same_data_def)
    have "sorted_wrt (klt h') (inorder t')" using a(3) u(3) klt_same_data [OF u(5)] by simp
    moreover have "x \<in> set_tree t' \<longleftrightarrow> se_pri (h' x) \<noteq> 0" for x
      using st r a(4,5) u(5) by (cases "x = e") (simp_all add: ready_def entry_only_def same_data_def)
    moreover have "single h' x" if "x \<notin> set_tree t'" for x
    proof -
      have x: "x \<noteq> e" "x \<notin> set_tree t" using that st by auto
      with u(5) have "h' x = h1 x" using that u(3) by (auto simp: same_data_def simp flip: set_inorder)
      with a(5) x r show ?thesis by (simp add: entry_only_def ready_def single_def)
    qed
    ultimately have "tree_inv s' h' t'" using u(2,4) fp by (simp add: tree_inv_def)
    with u(1,5) st a(5) show ?thesis by (auto simp: entry_only_def same_data_def)
  qed
  show ?thesis
  proof (cases "sch_root s")
    case None
    with r have t: "t = Leaf" by (cases t) (auto simp: ready_def links_def)
    have "\<exists>s' h' t'. sift_up (s\<lparr>sch_root := Some e\<rparr>) h e = Some (s', h') \<and> tree_inv s' h' t' \<and> set_tree t' = insert e (set_tree t)
      \<and> (\<forall>a. se_tv (h' a) = se_tv (h a)) \<and> (\<forall>a. a \<noteq> e \<longrightarrow> se_pri (h' a) = se_pri (h a))"
      by (rule go [of _ _ "[]"]) (use r p t in \<open>auto simp: links_def ready_def single_def entry_only_def\<close>)
    with None show ?thesis by auto
  next
    case (Some rt)
    from fresh obtain n where n: "\<not> collides h (set_tree t) e (pri_at rnd (k + n))" by blast
    have "insertable h rt t e" using r p Some by (simp add: insertable_def ready_def)
    from insert_retries [OF this _ n, of h] obtain h1 k1 c where
      i: "insert_loop rnd rt e h k rt = Some (h1, k1)" "links h1 (Some rt) (plug c (Node Leaf e Leaf))" "plug c Leaf = t"
        "sorted_wrt (klt h1) (inorder (plug c (Node Leaf e Leaf)))" "se_pri (h1 e) \<noteq> 0" "entry_only h h1 e (set_tree t)"
      by (auto simp: inserted_def entry_only_def)
    from go [OF _ i(3,4,5,6), of s] i(2) Some obtain s' h' t' where
      "sift_up s h1 e = Some (s', h')" "tree_inv s' h' t'" "set_tree t' = insert e (set_tree t)"
      "\<forall>a. se_tv (h' a) = se_tv (h a)" "\<forall>a. a \<noteq> e \<longrightarrow> se_pri (h' a) = se_pri (h a)" by auto
    with Some i(1) show ?thesis by auto
  qed
qed

text \<open>
  \<^verbatim>\<open>random()\<close> delivers every value of its range again and again. With fewer entries than
  priorities a colliding priority is then replaced after finitely many attempts.
\<close>

definition rnd_fair :: "(nat \<Rightarrow> u32) \<Rightarrow> bool" where
  "rnd_fair rnd \<longleftrightarrow> (\<forall>k. \<forall>v < 2 ^ 31. \<exists>n. rnd (k + n) = of_nat v)"

definition max_entries :: nat where "max_entries = 2 ^ 31 - 1"

lemma fresh_priority:
  assumes "rnd_fair rnd" "finite T" "card T < max_entries"
  shows "\<exists>n. \<not> collides h T e (pri_at rnd (k + n))"
proof -
  let ?used = "(\<lambda>x. unat (se_pri (h x))) ` T"
  have "card ?used \<le> card T" by (rule card_image_le [OF assms(2)])
  then have "\<not> {1..<2 ^ 31} \<subseteq> ?used"
    using card_mono [of ?used "{1..<2 ^ 31}"] assms(2,3) by (auto simp: max_entries_def)
  then obtain v where v: "1 \<le> v" "v < 2 ^ 31" "v \<notin> ?used" by (meson atLeastLessThan_iff subsetI)
  from assms(1) v(2) obtain n where n: "rnd (k + n) = of_nat v" by (auto simp: rnd_fair_def)
  have uv: "unat (of_nat v :: u32) = v" using v(2) by (simp add: unat_of_nat take_bit_nat_eq_self)
  have "pri_at rnd (k + n) = of_nat v"
    using n uv v(1) by (auto simp: pri_at_def word_less_nat_alt)
  then have "\<not> collides h T e (pri_at rnd (k + n))" using v(3) uv by (force simp: collides_def image_iff)
  then show ?thesis by blast
qed

lemma add_modify_spec:
  assumes inv: "tree_inv s h t" and rnd: "rnd_fair rnd" and room: "card (set_tree t) < max_entries"
  shows "\<exists>s' h' k' t'. schedule_add_modify rnd s (upd e (\<lambda>x. x\<lparr>se_tv := tv\<rparr>) h) k e = Some (s', h', k')
     \<and> tree_inv s' h' t' \<and> set_tree t' = insert e (set_tree t)
     \<and> se_tv (h' e) = tv \<and> (\<forall>a. a \<noteq> e \<longrightarrow> se_tv (h' a) = se_tv (h a) \<and> se_pri (h' a) = se_pri (h a))"
proof -
  let ?h = "upd e (\<lambda>x. x\<lparr>se_tv := tv\<rparr>) h"
  have l: "links ?h (sch_root s) t" by (rule links_only [of h]) (use inv in \<open>auto simp: tree_inv_def upd_def\<close>)
  have pri: "(\<lambda>a. se_pri (?h a)) = (\<lambda>a. se_pri (h a))" by (auto simp: upd_def)
  have hp: "theap (\<lambda>a. se_pri (?h a)) t" unfolding pri using inv by (simp add: tree_inv_def)
  have so: "sorted_wrt (klt h) (inorder t)" using inv by (simp add: tree_inv_def)
  have "\<exists>s1 h1 t1. (if IN_TREE ?h e then schedule_remove_node s ?h e else Some (s, ?h)) = Some (s1, h1)
      \<and> ready s1 h1 t1 e \<and> insert e (set_tree t1) = insert e (set_tree t) \<and> card (set_tree t1) \<le> card (set_tree t)
      \<and> se_tv (h1 e) = tv \<and> (\<forall>a. a \<noteq> e \<longrightarrow> se_tv (h1 a) = se_tv (h a) \<and> se_pri (h1 a) = se_pri (h a))"
  proof (cases "IN_TREE ?h e")
    case True
    then have e: "e \<in> set_tree t" using inv by (simp add: IN_TREE_def upd_def tree_inv_def)
    from remove_node_spec [OF l hp e] obtain s1 h1 t1 where
      r: "schedule_remove_node s ?h e = Some (s1, h1)" "links h1 (sch_root s1) t1" "theap (\<lambda>a. se_pri (h1 a)) t1"
        "inorder t1 = filter (\<lambda>a. a \<noteq> e) (inorder t)" "single h1 e" "se_pri (h1 e) = 0" "entry_only ?h h1 e (set_tree t)" by blast
    have st: "set_tree t1 = set_tree t - {e}" unfolding set_inorder [symmetric] r(4) by auto
    have data: "se_tv (h1 a) = se_tv (h a) \<and> se_pri (h1 a) = se_pri (h a)" if "a \<noteq> e" for a
      using r(7) that by (simp add: entry_only_def upd_def)
    have "sorted_wrt (klt h1) (inorder t1)"
      unfolding r(4) by (rule klt_sorted_cong [OF sorted_wrt_filter [OF so]]) (use data in auto)
    moreover have "single h1 a" if "a \<notin> set_tree t1" for a
    proof (cases "a = e")
      case False
      with that st r(7) have "h1 a = h a" by (auto simp: entry_only_def upd_def)
      with False that st inv show ?thesis by (auto simp: single_def tree_inv_def)
    qed (use r(5) in simp)
    ultimately have "ready s1 h1 t1 e" using r(2,3) st data inv by (auto simp: ready_def tree_inv_def)
    moreover have "card (set_tree t1) \<le> card (set_tree t)" using st by (simp add: card_mono)
    moreover have "se_tv (h1 e) = tv" using r(7) by (simp add: entry_only_def upd_def)
    ultimately show ?thesis using True r(1) st data by (intro exI [of _ s1] exI [of _ h1] exI [of _ t1]) auto
  next
    case False
    then have e: "e \<notin> set_tree t" using inv by (simp add: IN_TREE_def upd_def tree_inv_def)
    have "sorted_wrt (klt ?h) (inorder t)" by (rule klt_sorted_cong [OF so]) (use e in \<open>auto simp: upd_def\<close>)
    then have "ready s ?h t e" using l hp e inv by (auto simp: ready_def tree_inv_def single_def upd_def)
    with False show ?thesis by (intro exI [of _ s] exI [of _ ?h] exI [of _ t]) (auto simp: upd_def)
  qed
  then obtain s1 h1 t1 where r: "(if IN_TREE ?h e then schedule_remove_node s ?h e else Some (s, ?h)) = Some (s1, h1)"
    "ready s1 h1 t1 e" "insert e (set_tree t1) = insert e (set_tree t)" "card (set_tree t1) \<le> card (set_tree t)"
    "se_tv (h1 e) = tv" "\<forall>a. a \<noteq> e \<longrightarrow> se_tv (h1 a) = se_tv (h a) \<and> se_pri (h1 a) = se_pri (h a)" by blast
  let ?h2 = "upd e (\<lambda>x. x\<lparr>se_pri := pri_at rnd k\<rparr>) h1"
  have sp: "schedule_set_pri rnd k h1 e = (?h2, Suc k)" by (simp add: schedule_set_pri_def pri_at_def)
  have e: "e \<notin> set_tree t1" using r(2) by (simp add: ready_def)
  have "links ?h2 (sch_root s1) t1" by (rule set_pri_links) (use r(2) in \<open>auto simp: ready_def\<close>)
  moreover have "sorted_wrt (klt ?h2) (inorder t1)"
    by (rule klt_sorted_cong [of h1]) (use r(2) e in \<open>auto simp: ready_def upd_def\<close>)
  moreover have "theap (\<lambda>a. se_pri (?h2 a)) t1 = theap (\<lambda>a. se_pri (h1 a)) t1"
    by (rule theap_cong) (use e in \<open>auto simp: upd_def\<close>)
  ultimately have rd: "ready s1 ?h2 t1 e" using r(2) by (auto simp: ready_def single_def upd_def)
  have p: "se_pri (?h2 e) \<noteq> 0" by (simp add: upd_def pri_at_def)
  from fresh_priority [OF rnd, of "set_tree t1" ?h2 e "Suc k"] r(4) room
  have "\<exists>n. \<not> collides ?h2 (set_tree t1) e (pri_at rnd (Suc k + n))" by simp
  from insert_ready [OF rd p this] obtain s' h' k' t' where
    i: "(case sch_root s1 of
             Some rt \<Rightarrow> do { (h, k) \<leftarrow> insert_loop rnd rt e ?h2 (Suc k) rt; Some (s1, h, k) }
           | None \<Rightarrow> Some (s1\<lparr>sch_root := Some e\<rparr>, ?h2, Suc k)) \<bind> (\<lambda>(s, h, k). do { (s, h) \<leftarrow> sift_up s h e; Some (s, h, k) })
         = Some (s', h', k')"
      "tree_inv s' h' t'" "set_tree t' = insert e (set_tree t1)" "\<forall>a. se_tv (h' a) = se_tv (?h2 a)"
      "\<forall>a. a \<noteq> e \<longrightarrow> se_pri (h' a) = se_pri (?h2 a)" by blast
  have "schedule_add_modify rnd s ?h k e = Some (s', h', k')"
    unfolding schedule_add_modify_def r(1) using i(1) sp by simp
  with i r show ?thesis by (intro exI [of _ s'] exI [of _ h'] exI [of _ k'] exI [of _ t']) (auto simp: upd_def)
qed

lemma remove_entry_spec:
  assumes "sched_inv s h"
  shows "\<exists>s' h'. schedule_remove_entry s h e = Some (s', h') \<and> sched_inv s' h' \<and> pending h' = (pending h)(e := None)"
proof -
  from assms obtain t where inv: "tree_inv s h t" by (auto simp: sched_inv_def)
  let ?s = "s\<lparr>earliest_wakeup := None\<rparr>"
  show ?thesis
  proof (cases "e \<in> set_tree t")
    case True
    from remove_node_spec [of h ?s t e] inv True obtain s1 h1 t1 where
      r: "schedule_remove_node ?s h e = Some (s1, h1)" "links h1 (sch_root s1) t1" "theap (\<lambda>a. se_pri (h1 a)) t1"
        "inorder t1 = filter (\<lambda>a. a \<noteq> e) (inorder t)" "earliest_wakeup s1 = None"
        "single h1 e" "se_pri (h1 e) = 0" "entry_only h h1 e (set_tree t)" by (auto simp: tree_inv_def)
    have st: "set_tree t1 = set_tree t - {e}" unfolding set_inorder [symmetric] r(4) by auto
    have data: "se_tv (h1 a) = se_tv (h a) \<and> se_pri (h1 a) = se_pri (h a)" if "a \<noteq> e" for a
      using r(8) that by (simp add: entry_only_def)
    have "sorted_wrt (klt h1) (inorder t1)"
      unfolding r(4) by (rule klt_sorted_cong [OF sorted_wrt_filter]) (use inv data in \<open>auto simp: tree_inv_def\<close>)
    moreover have "single h1 a" if "a \<notin> set_tree t1" for a
    proof (cases "a = e")
      case False
      with that st r(8) have "h1 a = h a" by (auto simp: entry_only_def)
      with False that st inv show ?thesis by (auto simp: single_def tree_inv_def)
    qed (use r(6) in simp)
    moreover have "a \<in> set_tree t1 \<longleftrightarrow> se_pri (h1 a) \<noteq> 0" for a
      using st r(7) data [of a] inv by (cases "a = e") (auto simp: tree_inv_def)
    ultimately have "tree_inv s1 h1 t1" using r(2,3) by (simp add: tree_inv_def)
    moreover have "pending h1 = (pending h)(e := None)" using r(7) data by (auto simp: pending_def)
    ultimately show ?thesis using r(1,5) by (auto simp: schedule_remove_entry_def sched_inv_def)
  next
    case False
    with inv have e: "single h e" "se_pri (h e) = 0" by (auto simp: tree_inv_def)
    have "sch_root s \<noteq> Some e"
      using False inv tree_at_Some_in by (fastforce simp: tree_inv_def links_def)
    then have "schedule_remove_node ?s h e = Some (?s, upd e (\<lambda>x. x\<lparr>se_pri := 0\<rparr>) h)"
      using e(1) by (simp add: schedule_remove_node_def remove_loop.simps [of ?s h e] schedule_detach_parent_def single_def)
    moreover have "upd e (\<lambda>x. x\<lparr>se_pri := 0\<rparr>) h = h"
    proof -
      have "(h e)\<lparr>se_pri := 0\<rparr> = h e" using e(2) by simp
      then show ?thesis by (simp add: upd_def)
    qed
    moreover have "tree_inv ?s h t" using inv by (simp add: tree_inv_def)
    moreover have "pending h = (pending h)(e := None)" using e(2) by (auto simp: pending_def)
    ultimately show ?thesis by (auto simp: schedule_remove_entry_def sched_inv_def)
  qed
qed

lemma pending_finite: "sched_inv s h \<Longrightarrow> finite (dom (pending h))"
proof -
  assume "sched_inv s h"
  then obtain t where "tree_inv s h t" by (auto simp: sched_inv_def)
  then have "dom (pending h) = set_tree t" by (auto simp: tree_inv_def pending_def dom_def)
  then show ?thesis by simp
qed

lemma add_entry_spec:
  assumes inv: "sched_inv s h" and rnd: "rnd_fair rnd" and room: "card (dom (pending h)) < max_entries"
  shows "\<exists>s' h' k'. schedule_add_entry rnd s h k e tv sigma = Some (s', h', k') \<and> sched_inv s' h'
     \<and> pending h' = (case pending h e of
          Some old \<Rightarrow> if sigma \<noteq> 0 \<and> tv_within_sigma tv old sigma then pending h else (pending h)(e \<mapsto> tv)
        | None \<Rightarrow> (pending h)(e \<mapsto> tv))"
proof -
  from inv obtain t where t: "tree_inv s h t" by (auto simp: sched_inv_def)
  have "dom (pending h) = set_tree t" using t by (auto simp: tree_inv_def pending_def dom_def)
  with room have rm: "card (set_tree t) < max_entries" by simp
  show ?thesis
  proof (cases "\<not> IN_TREE h e \<or> sigma = 0 \<or> \<not> tv_within_sigma tv (se_tv (h e)) sigma")
    case True
    from add_modify_spec [OF t rnd rm, of e tv k] obtain s' h' k' t' where
      a: "schedule_add_modify rnd s (upd e (\<lambda>x. x\<lparr>se_tv := tv\<rparr>) h) k e = Some (s', h', k')" "tree_inv s' h' t'"
        "set_tree t' = insert e (set_tree t)" "se_tv (h' e) = tv"
        "\<forall>a. a \<noteq> e \<longrightarrow> se_tv (h' a) = se_tv (h a) \<and> se_pri (h' a) = se_pri (h a)" by blast
    have "se_pri (h' e) \<noteq> 0" using a(2,3) by (auto simp: tree_inv_def)
    with a(4,5) have "pending h' = (pending h)(e \<mapsto> tv)" by (auto simp: pending_def)
    moreover have "tree_inv (s'\<lparr>earliest_wakeup := None\<rparr>) h' t'" using a(2) by (simp add: tree_inv_def)
    ultimately show ?thesis using a(1) True
      by (intro exI [of _ "s'\<lparr>earliest_wakeup := None\<rparr>"] exI [of _ h'] exI [of _ k'])
        (auto simp: schedule_add_entry_def sched_inv_def pending_def IN_TREE_def)
  next
    case False
    with inv show ?thesis by (intro exI [of _ s] exI [of _ h] exI [of _ k]) (auto simp: schedule_add_entry_def pending_def IN_TREE_def)
  qed
qed

lemma find_least_spec:
  assumes "tree_at h par (Some a) t"
  shows "find_least_loop h a = Some (hd (inorder t)) \<and> inorder t \<noteq> []"
  using assms
proof (induction t arbitrary: par a)
  case (Node l x r)
  show ?case
  proof (cases l)
    case Leaf
    with Node.prems show ?thesis by (simp add: find_least_loop.simps [of h x])
  next
    case l: (Node ll b lr)
    from Node.prems l have b: "tree_at h (Some a) (Some b) l" "se_lt (h a) = Some b" "x = a" by auto
    with Node.IH(1) [OF b(1)] show ?thesis by (simp add: find_least_loop.simps [of h a])
  qed
qed simp

lemma earliest_spec:
  assumes "sched_inv s h"
  shows "\<exists>r s'. schedule_get_earliest_wakeup s h = Some (r, s') \<and> sched_inv s' h
     \<and> (case r of None \<Rightarrow> pending h = Map.empty
        | Some (e, tv) \<Rightarrow> pending h e = Some tv \<and> (\<forall>e' tv'. pending h e' = Some tv' \<longrightarrow> tv_le tv tv'))"
proof -
  from assms obtain t where t: "tree_inv s h t" "\<forall>e. earliest_wakeup s = Some e \<longrightarrow> inorder t \<noteq> [] \<and> e = hd (inorder t)"
    by (auto simp: sched_inv_def)
  have least: "pending h (hd (inorder t)) = Some (se_tv (h (hd (inorder t))))
      \<and> (\<forall>e' tv'. pending h e' = Some tv' \<longrightarrow> tv_le (se_tv (h (hd (inorder t)))) tv')" if ne: "inorder t \<noteq> []"
  proof -
    obtain a as where i: "inorder t = a # as" using ne by (cases "inorder t") auto
    have st: "set_tree t = insert a (set as)" unfolding set_inorder [symmetric] i by simp
    have "tv_le (se_tv (h a)) (se_tv (h x))" if "x \<in> set_tree t" for x
    proof (cases "x = a")
      case False
      with that st have "x \<in> set as" by simp
      with t(1) i have "klt h a x" by (auto simp: tree_inv_def)
      then show ?thesis by (rule klt_le)
    qed (simp add: tv_le_def)
    moreover have "x \<in> set_tree t \<longleftrightarrow> se_pri (h x) \<noteq> 0" for x using t(1) by (simp add: tree_inv_def)
    moreover have "a \<in> set_tree t" using st by simp
    ultimately show ?thesis using i by (auto simp: pending_def split: if_splits)
  qed
  have empty: "pending h = Map.empty" if "inorder t = []"
  proof -
    have "set_tree t = {}" unfolding set_inorder [symmetric] that by simp
    with t(1) show ?thesis by (auto simp: tree_inv_def pending_def)
  qed
  show ?thesis
  proof (cases "earliest_wakeup s")
    case None
    show ?thesis
    proof (cases t)
      case Leaf
      then have "schedule_get_earliest_wakeup s h = Some (None, s)"
        using t(1) None by (auto simp: tree_inv_def links_def schedule_get_earliest_wakeup_def schedule_find_least_def)
      with assms empty Leaf show ?thesis by simp
    next
      case (Node l a r)
      with t(1) have "sch_root s = Some a" "tree_at h None (Some a) t" by (auto simp: tree_inv_def links_def)
      with find_least_spec [OF this(2)] None have
        "schedule_get_earliest_wakeup s h = Some (Some (hd (inorder t), se_tv (h (hd (inorder t)))), s\<lparr>earliest_wakeup := Some (hd (inorder t))\<rparr>)"
        by (simp add: schedule_get_earliest_wakeup_def schedule_find_least_def)
      moreover have "tree_inv (s\<lparr>earliest_wakeup := Some (hd (inorder t))\<rparr>) h t" using t(1) by (simp add: tree_inv_def)
      then have "sched_inv (s\<lparr>earliest_wakeup := Some (hd (inorder t))\<rparr>) h"
        unfolding sched_inv_def using Node by (intro exI [of _ t]) simp
      ultimately show ?thesis using least Node by simp
    qed
  next
    case (Some e)
    with t(2) assms least show ?thesis by (auto simp: schedule_get_earliest_wakeup_def)
  qed
qed

section \<open>The scheduler as a priority queue\<close>

text \<open>
  What the callers rely on: a map from entries to wake-up times with an operation that returns an
  earliest one. \<open>limit\<close> bounds the number of entries.
\<close>

datatype sched_op = Add nat timeval u32 | Remove nat | Earliest

definition sched_add :: "(nat \<Rightarrow> timeval option) \<Rightarrow> nat \<Rightarrow> timeval \<Rightarrow> u32 \<Rightarrow> nat \<Rightarrow> timeval option" where
  "sched_add m e tv sigma =
     (case m e of
        Some old \<Rightarrow> if sigma \<noteq> 0 \<and> tv_within_sigma tv old sigma then m else m(e \<mapsto> tv)
      | None \<Rightarrow> m(e \<mapsto> tv))"

fun sched_spec :: "sched_op \<Rightarrow> (nat \<Rightarrow> timeval option) \<Rightarrow> nat \<Rightarrow> timeval option" where
  "sched_spec (Add e tv sigma) m = sched_add m e tv sigma"
| "sched_spec (Remove e) m = m(e := None)"
| "sched_spec Earliest m = m"

definition is_least :: "(nat \<Rightarrow> timeval option) \<Rightarrow> (nat \<times> timeval) option \<Rightarrow> bool" where
  "is_least m r \<longleftrightarrow> (case r of None \<Rightarrow> m = Map.empty
     | Some (e, tv) \<Rightarrow> m e = Some tv \<and> (\<forall>e' tv'. m e' = Some tv' \<longrightarrow> tv_le tv tv'))"

text \<open>The maps at which a sequence of operations asks for the earliest entry.\<close>

fun asked :: "sched_op list \<Rightarrow> (nat \<Rightarrow> timeval option) \<Rightarrow> (nat \<Rightarrow> timeval option) list" where
  "asked [] m = []"
| "asked (Earliest # ops) m = m # asked ops m"
| "asked (op # ops) m = asked ops (sched_spec op m)"

fun sched_run ::
    "('s \<Rightarrow> nat \<Rightarrow> timeval \<Rightarrow> u32 \<Rightarrow> 's option) \<Rightarrow> ('s \<Rightarrow> nat \<Rightarrow> 's option)
       \<Rightarrow> ('s \<Rightarrow> ((nat \<times> timeval) option \<times> 's) option) \<Rightarrow> 's \<Rightarrow> sched_op list
       \<Rightarrow> ((nat \<times> timeval) option list \<times> 's) option" where
  "sched_run add remove earliest s [] = Some ([], s)"
| "sched_run add remove earliest s (Add e tv sigma # ops) = do {
     s \<leftarrow> add s e tv sigma; sched_run add remove earliest s ops }"
| "sched_run add remove earliest s (Remove e # ops) = do {
     s \<leftarrow> remove s e; sched_run add remove earliest s ops }"
| "sched_run add remove earliest s (Earliest # ops) = do {
     (r, s) \<leftarrow> earliest s; (rs, s) \<leftarrow> sched_run add remove earliest s ops; Some (r # rs, s) }"

locale wakeup_queue =
  fixes inv :: "'s \<Rightarrow> bool"
    and view :: "'s \<Rightarrow> nat \<Rightarrow> timeval option"
    and limit :: nat
    and add :: "'s \<Rightarrow> nat \<Rightarrow> timeval \<Rightarrow> u32 \<Rightarrow> 's option"
    and remove :: "'s \<Rightarrow> nat \<Rightarrow> 's option"
    and earliest :: "'s \<Rightarrow> ((nat \<times> timeval) option \<times> 's) option"
  assumes finite_view: "inv s \<Longrightarrow> finite (dom (view s))"
    and add_law: "inv s \<Longrightarrow> card (dom (view s)) < limit \<Longrightarrow>
      \<exists>s'. add s e tv sigma = Some s' \<and> inv s' \<and> view s' = sched_add (view s) e tv sigma"
    and remove_law: "inv s \<Longrightarrow> \<exists>s'. remove s e = Some s' \<and> inv s' \<and> view s' = (view s)(e := None)"
    and earliest_law: "inv s \<Longrightarrow> \<exists>r s'. earliest s = Some (r, s') \<and> inv s' \<and> view s' = view s \<and> is_least (view s) r"
begin

lemma card_step:
  assumes "inv s"
  shows "card (dom (sched_spec op (view s))) \<le> Suc (card (dom (view s)))"
proof -
  note f = finite_view [OF assms]
  have "dom (sched_spec op (view s)) \<subseteq> insert (case op of Add e tv sigma \<Rightarrow> e | Remove e \<Rightarrow> e | Earliest \<Rightarrow> 0) (dom (view s))"
    by (cases op) (auto simp: sched_add_def split: option.splits if_splits)
  then obtain e where "dom (sched_spec op (view s)) \<subseteq> insert e (dom (view s))" by blast
  then have "card (dom (sched_spec op (view s))) \<le> card (insert e (dom (view s)))" using f by (intro card_mono) auto
  also have "\<dots> \<le> Suc (card (dom (view s)))" by (simp add: card_insert_le_m1 card_insert_if f)
  finally show ?thesis .
qed

lemma run_correct:
  assumes "inv s" "card (dom (view s)) + length ops \<le> limit"
  shows "\<exists>rs s'. sched_run add remove earliest s ops = Some (rs, s') \<and> inv s' \<and> view s' = fold sched_spec ops (view s)
     \<and> list_all2 is_least (asked ops (view s)) rs"
  using assms
proof (induction ops arbitrary: s)
  case (Cons op ops)
  note le = card_step [OF Cons.prems(1), of op]
  show ?case
  proof (cases op)
    case (Add e tv sigma)
    from add_law [OF Cons.prems(1), of e tv sigma] Cons.prems(2) obtain s1 where
      s1: "add s e tv sigma = Some s1" "inv s1" "view s1 = sched_add (view s) e tv sigma" by auto
    from Cons.IH [OF s1(2)] Cons.prems(2) le s1 Add show ?thesis by auto
  next
    case (Remove e)
    from remove_law [OF Cons.prems(1), of e] obtain s1 where
      s1: "remove s e = Some s1" "inv s1" "view s1 = (view s)(e := None)" by auto
    have "card (dom (view s1)) + length ops \<le> limit" using Cons.prems(2) le Remove by (simp add: s1(3) del: dom_fun_upd)
    from Cons.IH [OF s1(2) this] s1 Remove show ?thesis by (auto simp del: fun_upd_apply)
  next
    case Earliest
    from earliest_law [OF Cons.prems(1)] obtain r s1 where
      s1: "earliest s = Some (r, s1)" "inv s1" "view s1 = view s" "is_least (view s) r" by blast
    from Cons.IH [OF s1(2)] Cons.prems(2) le s1 Earliest show ?thesis by auto
  qed
qed simp

end

text \<open>The scheduler's state with the store and the position in the random sequence.\<close>

type_synonym sched_state = "schedule \<times> entries \<times> nat"

definition st_inv :: "(nat \<Rightarrow> u32) \<Rightarrow> sched_state \<Rightarrow> bool" where
  "st_inv rnd st \<longleftrightarrow> rnd_fair rnd \<and> sched_inv (fst st) (fst (snd st))"

definition st_add :: "(nat \<Rightarrow> u32) \<Rightarrow> sched_state \<Rightarrow> nat \<Rightarrow> timeval \<Rightarrow> u32 \<Rightarrow> sched_state option" where
  "st_add rnd st e tv sigma = schedule_add_entry rnd (fst st) (fst (snd st)) (snd (snd st)) e tv sigma"

definition st_remove :: "sched_state \<Rightarrow> nat \<Rightarrow> sched_state option" where
  "st_remove st e = map_option (\<lambda>(s, h). (s, h, snd (snd st))) (schedule_remove_entry (fst st) (fst (snd st)) e)"

definition st_earliest :: "sched_state \<Rightarrow> ((nat \<times> timeval) option \<times> sched_state) option" where
  "st_earliest st =
     map_option (\<lambda>(r, s). (r, s, snd st)) (schedule_get_earliest_wakeup (fst st) (fst (snd st)))"

interpretation treap: wakeup_queue "st_inv rnd" "\<lambda>st. pending (fst (snd st))" max_entries "st_add rnd" st_remove st_earliest
  for rnd
proof (unfold_locales, goal_cases)
  case (1 s)
  then show ?case by (auto simp: st_inv_def intro: pending_finite)
next
  case (2 s e tv sigma)
  then show ?case using add_entry_spec [of "fst s" "fst (snd s)" rnd "snd (snd s)" e tv sigma]
    by (auto simp: st_inv_def st_add_def sched_add_def)
next
  case (3 s e)
  then show ?case using remove_entry_spec [of "fst s" "fst (snd s)" e] by (auto simp: st_inv_def st_remove_def)
next
  case (4 s)
  then show ?case using earliest_spec [of "fst s" "fst (snd s)"]
    by (auto simp: st_inv_def st_earliest_def is_least_def split: option.splits)
qed

section \<open>Properties\<close>

lemma sched_inv_init:
  assumes "\<forall>a. se_pri (h a) = 0 \<and> single h a"
  shows "sched_inv schedule_init h" "pending h = Map.empty"
proof -
  have "tree_inv schedule_init h Leaf" using assms by (simp add: tree_inv_def links_def schedule_init_def)
  then show "sched_inv schedule_init h" unfolding sched_inv_def by (intro exI [of _ Leaf]) (simp add: schedule_init_def)
  show "pending h = Map.empty" using assms by (auto simp: pending_def)
qed

text \<open>C22: the linked treap implements a priority queue. Starting from an empty schedule, over any
  sequence of fewer than 2^31 additions, changes, removals and queries, no assertion fails, every
  loop ends (the retry loop on colliding priorities too, for a random source that keeps
  delivering all its values), the pending wake-ups are those of a plain map with the same
  operations, and every query, cached or not, returns an entry with the earliest time, or
  nothing when none is pending.\<close>

theorem schedule_refines_map:
  assumes "rnd_fair rnd" "\<forall>a. se_pri (h a) = 0 \<and> single h a" "length ops \<le> max_entries"
  shows "\<exists>rs st. sched_run (st_add rnd) st_remove st_earliest (schedule_init, h, k) ops = Some (rs, st)
     \<and> pending (fst (snd st)) = fold sched_spec ops Map.empty \<and> list_all2 is_least (asked ops Map.empty) rs"
proof -
  have "st_inv rnd (schedule_init, h, k)" using assms(1) sched_inv_init [OF assms(2)] by (simp add: st_inv_def)
  from treap.run_correct [OF this, of ops] sched_inv_init(2) [OF assms(2)] assms(3) show ?thesis by auto
qed

lemma demo_rnd_fair: "rnd_fair of_nat"
  unfolding rnd_fair_def
proof (intro allI impI)
  fix k v :: nat
  have z: "(of_nat (2 ^ 32) :: u32) = 0" by (simp only: of_nat_numeral of_nat_power) simp
  have "(of_nat (k * 2 ^ 32 + v) :: u32) = of_nat v" by (simp only: of_nat_add of_nat_mult z) simp
  moreover have "k \<le> k * 2 ^ 32 + v" by simp
  ultimately show "\<exists>n. (of_nat (k + n) :: u32) = of_nat v" by (metis le_Suc_ex)
qed

theorem schedule_refines_map_witness:
  "\<exists>rs st. sched_run (st_add of_nat) st_remove st_earliest
       (schedule_init, \<lambda>a. \<lparr>se_tv = tv_clear, se_pri = 0, se_parent = None, se_lt = None, se_gt = None\<rparr>, 0)
       [Add 1 \<lparr>tv_sec = 9, tv_usec = 0\<rparr> 0, Add 2 \<lparr>tv_sec = 4, tv_usec = 0\<rparr> 0, Earliest] = Some (rs, st)
     \<and> list_all2 is_least (asked [Add 1 \<lparr>tv_sec = 9, tv_usec = 0\<rparr> 0, Add 2 \<lparr>tv_sec = 4, tv_usec = 0\<rparr> 0, Earliest] Map.empty) rs"
  using schedule_refines_map [OF demo_rnd_fair,
      of "\<lambda>a. \<lparr>se_tv = tv_clear, se_pri = 0, se_parent = None, se_lt = None, se_gt = None\<rparr>"
         "[Add 1 \<lparr>tv_sec = 9, tv_usec = 0\<rparr> 0, Add 2 \<lparr>tv_sec = 4, tv_usec = 0\<rparr> 0, Earliest]" 0]
  by (auto simp: single_def max_entries_def)

text \<open>A rotation never breaks the tree: for an entry that is the left or the right child of its
  parent anywhere in a well-linked tree, \<open>schedule_rotate_up\<close> fails no assertion, leaves a
  well-linked tree with the same entries in the same order, and exchanges the entry with its
  parent; times and priorities stay.\<close>

theorem schedule_rotate_up_correct:
  assumes "links h (sch_root s) (plug (fr # c) (Node l e r))"
  shows "\<exists>s' h'. schedule_rotate_up s h e = Some (s', h')
     \<and> links h' (sch_root s') (plug c (case fr of LHole p x \<Rightarrow> Node l e (Node r p x) | RHole x p \<Rightarrow> Node (Node x p l) e r))
     \<and> inorder (plug c (case fr of LHole p x \<Rightarrow> Node l e (Node r p x) | RHole x p \<Rightarrow> Node (Node x p l) e r))
         = inorder (plug (fr # c) (Node l e r))
     \<and> (\<forall>a. se_tv (h' a) = se_tv (h a) \<and> se_pri (h' a) = se_pri (h a))"
proof (cases fr)
  case (LHole p x)
  with rotate_up_left [of h s p x c l e r] assms show ?thesis by (auto simp: inorder_plug same_data_def)
next
  case (RHole x p)
  with rotate_up_right [of h s x p c l e r] assms show ?thesis by (auto simp: inorder_plug same_data_def)
qed

theorem schedule_rotate_up_correct_witness:
  "let h = (\<lambda>a. \<lparr>se_tv = tv_clear, se_pri = of_nat a, se_parent = (if a = 1 then Some 2 else None),
               se_lt = (if a = 2 then Some 1 else None), se_gt = None\<rparr>)
   in \<exists>s' h'. schedule_rotate_up \<lparr>earliest_wakeup = None, sch_root = Some 2\<rparr> h 1 = Some (s', h')
      \<and> links h' (sch_root s') (Node Leaf 1 (Node Leaf 2 Leaf))"
proof -
  let ?h = "\<lambda>a::nat. \<lparr>se_tv = tv_clear, se_pri = of_nat a, se_parent = (if a = 1 then Some 2 else None),
               se_lt = (if a = 2 then Some 1 else None), se_gt = None\<rparr>"
  have "links ?h (sch_root \<lparr>earliest_wakeup = None, sch_root = Some 2\<rparr>) (plug [LHole 2 Leaf] (Node Leaf 1 Leaf))"
    by (simp add: links_def)
  from schedule_rotate_up_correct [OF this] show ?thesis by (auto simp: Let_def)
qed

end
