(* ===== verification/Buffer.thy ===== *)
theory Buffer
  imports Integer_Util
begin

text \<open>
  \<^verbatim>\<open>struct buffer\<close> of \<^verbatim>\<open>openvpn/src/openvpn/buffer.h\<close> and \<^verbatim>\<open>buffer.c\<close>: a block of memory with a
  window (\<open>offset\<close>, \<open>len\<close>) of live content, written at the end, prepended at the front and
  consumed from the front by every packet path of the engine.

  \<open>data\<close> is \<open>None\<close> for the \<^verbatim>\<open>NULL\<close> pointer and otherwise the bytes of the allocation; a pointer
  into the allocation is its index. Every access goes through \<open>mem_read\<close>, \<open>mem_write\<close> or
  \<open>mem_get\<close>, so an access outside the allocation makes the operation \<open>None\<close>; the lemmas
  show that no operation does so on a well-formed buffer.
\<close>

section \<open>The structure\<close>

definition BUF_SIZE_MAX :: int where "BUF_SIZE_MAX = 1000000"

record buffer =
  capacity :: int
  offset :: int
  len :: int
  data :: "bytes option"

definition clear_buf :: buffer where
  "clear_buf = \<lparr>capacity = 0, offset = 0, len = 0, data = None\<rparr>"

definition buf_defined :: "buffer \<Rightarrow> bool" where
  "buf_defined b \<longleftrightarrow> data b \<noteq> None"

definition buf_valid :: "buffer \<Rightarrow> bool" where
  "buf_valid b \<longleftrightarrow> data b \<noteq> None \<and> 0 \<le> len b"

definition buf_bptr :: "buffer \<Rightarrow> int option" where
  "buf_bptr b = (if buf_valid b then Some (offset b) else None)"

definition buf_len :: "buffer \<Rightarrow> int" where
  "buf_len b = (if buf_valid b then len b else 0)"

definition buf_bend :: "buffer \<Rightarrow> int option" where
  "buf_bend b = map_option (\<lambda>p. p + buf_len b) (buf_bptr b)"

definition buf_blast :: "buffer \<Rightarrow> int option" where
  "buf_blast b =
     (if buf_len b > 0 then map_option (\<lambda>p. p + buf_len b - 1) (buf_bptr b) else None)"

text \<open>
  \<^verbatim>\<open>buf_size_valid\<close> takes a \<^verbatim>\<open>size_t\<close>: a negative \<^verbatim>\<open>int\<close> converts to a value above \<open>2 ^ 63\<close>
  and is refused, which the lower bound says.
\<close>

definition buf_size_valid :: "int \<Rightarrow> bool" where
  "buf_size_valid n \<longleftrightarrow> 0 \<le> n \<and> n < BUF_SIZE_MAX"

definition buf_size_valid_signed :: "int \<Rightarrow> bool" where
  "buf_size_valid_signed n \<longleftrightarrow> n \<ge> - BUF_SIZE_MAX \<and> n < BUF_SIZE_MAX"

definition buf_reset :: "buffer \<Rightarrow> buffer" where
  "buf_reset b = b\<lparr>capacity := 0, offset := 0, len := 0, data := None\<rparr>"

definition buf_reset_len :: "buffer \<Rightarrow> buffer" where
  "buf_reset_len b = b\<lparr>len := 0, offset := 0\<rparr>"

definition buf_init_dowork :: "buffer \<Rightarrow> int \<Rightarrow> bool \<times> buffer" where
  "buf_init_dowork b off =
     (if off < 0 \<or> off > capacity b \<or> data b = None then (False, b)
      else (True, b\<lparr>len := 0, offset := off\<rparr>))"

definition buf_set_write :: "buffer \<Rightarrow> bytes option \<Rightarrow> int \<Rightarrow> buffer option" where
  "buf_set_write b d n = do {
     c_assert (buf_size_valid n);
     let b = b\<lparr>len := 0, offset := 0, capacity := n, data := d\<rparr>;
     (case d of
        None \<Rightarrow> Some b
      | Some m \<Rightarrow>
          if n > 0 then do { m' \<leftarrow> mem_write m 0 [0]; Some (b\<lparr>data := Some m'\<rparr>) } else Some b)
   }"

definition buf_set_read :: "buffer \<Rightarrow> bytes option \<Rightarrow> int \<Rightarrow> buffer option" where
  "buf_set_read b d n = do {
     c_assert (buf_size_valid n);
     Some (b\<lparr>len := n, capacity := n, offset := 0, data := d\<rparr>)
   }"

section \<open>Allocation\<close>

definition alloc_buf :: "nat \<Rightarrow> buffer option" where
  "alloc_buf n = do {
     c_assert (buf_size_valid (int n));
     Some \<lparr>capacity = int n, offset = 0, len = 0, data = Some (replicate n 0)\<rparr>
   }"

text \<open>\<^verbatim>\<open>malloc\<close> without clearing: \<open>junk\<close> gives the bytes the allocator happens to return.\<close>

definition alloc_buf_gc :: "(nat \<Rightarrow> u8) \<Rightarrow> nat \<Rightarrow> buffer option" where
  "alloc_buf_gc junk n = do {
     c_assert (buf_size_valid (int n));
     let m = map junk [0..<n];
     m' \<leftarrow> (if n > 0 then mem_write m 0 [0] else Some m);
     Some \<lparr>capacity = int n, offset = 0, len = 0, data = Some m'\<rparr>
   }"

text \<open>The bytes \<^verbatim>\<open>BPTR(buf)[0 .. BLEN(buf))\<close>, as a copy out of the buffer reads them.\<close>

definition buf_bytes :: "buffer \<Rightarrow> bytes option" where
  "buf_bytes b =
     (case data b of
        None \<Rightarrow> Some []
      | Some m \<Rightarrow> if 0 \<le> len b then mem_read m (offset b) (len b) else Some [])"

definition clone_buf :: "(nat \<Rightarrow> u8) \<Rightarrow> buffer \<Rightarrow> buffer option" where
  "clone_buf junk b = do {
     let m = map junk [0..<nat (capacity b)];
     src \<leftarrow> buf_bytes b;
     m' \<leftarrow> (if 0 \<le> len b then mem_write m (offset b) src else Some m);
     Some \<lparr>capacity = capacity b, offset = offset b, len = len b, data = Some m'\<rparr>
   }"

definition buf_clear :: "buffer \<Rightarrow> buffer option" where
  "buf_clear b = do {
     b' \<leftarrow> (if capacity b > 0
            then do { m \<leftarrow> data b;
                      m' \<leftarrow> mem_write m 0 (replicate (nat (capacity b)) 0);
                      Some (b\<lparr>data := Some m'\<rparr>) }
            else Some b);
     Some (b'\<lparr>len := 0, offset := 0\<rparr>)
   }"

definition free_buf :: "buffer \<Rightarrow> buffer" where
  "free_buf b = clear_buf"

section \<open>Space and window arithmetic\<close>

definition buf_safe :: "buffer \<Rightarrow> int \<Rightarrow> bool" where
  "buf_safe b n \<longleftrightarrow> buf_valid b \<and> buf_size_valid n \<and> offset b + len b + n \<le> capacity b"

definition buf_safe_bidir :: "buffer \<Rightarrow> int \<Rightarrow> bool" where
  "buf_safe_bidir b n \<longleftrightarrow>
     (if buf_valid b \<and> buf_size_valid_signed n
      then let newlen = len b + n in newlen \<ge> 0 \<and> offset b + newlen \<le> capacity b
      else False)"

definition buf_forward_capacity :: "buffer \<Rightarrow> int" where
  "buf_forward_capacity b =
     (if buf_valid b
      then let ret = capacity b - (offset b + len b) in if ret < 0 then 0 else ret
      else 0)"

definition buf_forward_capacity_total :: "buffer \<Rightarrow> int" where
  "buf_forward_capacity_total b =
     (if buf_valid b
      then let ret = capacity b - offset b in if ret < 0 then 0 else ret
      else 0)"

definition buf_reverse_capacity :: "buffer \<Rightarrow> int" where
  "buf_reverse_capacity b = (if buf_valid b then offset b else 0)"

definition buf_inc_len :: "buffer \<Rightarrow> int \<Rightarrow> bool \<times> buffer" where
  "buf_inc_len b inc =
     (if \<not> buf_safe_bidir b inc then (False, b) else (True, b\<lparr>len := len b + inc\<rparr>))"

definition buf_prepend :: "buffer \<Rightarrow> int \<Rightarrow> int option \<times> buffer" where
  "buf_prepend b n =
     (if \<not> buf_valid b \<or> n < 0 \<or> n > offset b then (None, b)
      else let b' = b\<lparr>offset := offset b - n, len := len b + n\<rparr> in (buf_bptr b', b'))"

definition buf_advance :: "buffer \<Rightarrow> int \<Rightarrow> bool \<times> buffer" where
  "buf_advance b n =
     (if \<not> buf_valid b \<or> n < 0 \<or> len b < n then (False, b)
      else (True, b\<lparr>offset := offset b + n, len := len b - n\<rparr>))"

definition buf_write_alloc :: "buffer \<Rightarrow> int \<Rightarrow> int option \<times> buffer" where
  "buf_write_alloc b n =
     (if \<not> buf_safe b n then (None, b)
      else (map_option (\<lambda>p. p + len b) (buf_bptr b), b\<lparr>len := len b + n\<rparr>))"

definition buf_read_alloc :: "buffer \<Rightarrow> int \<Rightarrow> int option \<times> buffer" where
  "buf_read_alloc b n =
     (if n < 0 \<or> len b < n then (None, b)
      else (buf_bptr b, b\<lparr>offset := offset b + n, len := len b - n\<rparr>))"

section \<open>Writing and reading\<close>

text \<open>\<^verbatim>\<open>memcpy\<close> into the buffer's memory at index \<open>p\<close>.\<close>

definition buf_store :: "buffer \<Rightarrow> int \<Rightarrow> bytes \<Rightarrow> buffer option" where
  "buf_store b p bs = do { m \<leftarrow> data b; m' \<leftarrow> mem_write m p bs; Some (b\<lparr>data := Some m'\<rparr>) }"

definition buf_write :: "buffer \<Rightarrow> bytes \<Rightarrow> (bool \<times> buffer) option" where
  "buf_write dest src =
     (case buf_write_alloc dest (int (length src)) of
        (None, d) \<Rightarrow> Some (False, d)
      | (Some cp, d) \<Rightarrow> do { d' \<leftarrow> buf_store d cp src; Some (True, d') })"

definition buf_write_prepend :: "buffer \<Rightarrow> bytes \<Rightarrow> (bool \<times> buffer) option" where
  "buf_write_prepend dest src =
     (case buf_prepend dest (int (length src)) of
        (None, d) \<Rightarrow> Some (False, d)
      | (Some cp, d) \<Rightarrow> do { d' \<leftarrow> buf_store d cp src; Some (True, d') })"

definition buf_write_u8 :: "buffer \<Rightarrow> u8 \<Rightarrow> (bool \<times> buffer) option" where
  "buf_write_u8 dest x = buf_write dest [x]"

definition buf_write_u16 :: "buffer \<Rightarrow> u16 \<Rightarrow> (bool \<times> buffer) option" where
  "buf_write_u16 dest x = buf_write dest (be16 x)"

definition buf_write_u32 :: "buffer \<Rightarrow> u32 \<Rightarrow> (bool \<times> buffer) option" where
  "buf_write_u32 dest x = buf_write dest (be32 x)"

text \<open>
  \<^verbatim>\<open>buf_read(src, dest, size)\<close> copies \<open>size\<close> bytes out and consumes them: the first component
  is \<open>None\<close> where the code returns \<^verbatim>\<open>false\<close> and the copied bytes otherwise.
\<close>

definition buf_read :: "buffer \<Rightarrow> int \<Rightarrow> (bytes option \<times> buffer) option" where
  "buf_read src n =
     (case buf_read_alloc src n of
        (None, s) \<Rightarrow> Some (None, s)
      | (Some cp, s) \<Rightarrow> do { m \<leftarrow> data s; bs \<leftarrow> mem_read m cp n; Some (Some bs, s) })"

definition buf_copy :: "buffer \<Rightarrow> buffer \<Rightarrow> (bool \<times> buffer) option" where
  "buf_copy dest src = do { bs \<leftarrow> buf_bytes src; buf_write dest bs }"

definition buf_copy_n :: "buffer \<Rightarrow> buffer \<Rightarrow> int \<Rightarrow> (bool \<times> buffer \<times> buffer) option" where
  "buf_copy_n dest src n =
     (case buf_read_alloc src n of
        (None, s) \<Rightarrow> Some (False, dest, s)
      | (Some cp, s) \<Rightarrow> do {
          m \<leftarrow> data s;
          bs \<leftarrow> mem_read m cp n;
          (r, d) \<leftarrow> buf_write dest bs;
          Some (r, d, s) })"

definition buf_copy_range ::
    "buffer \<Rightarrow> int \<Rightarrow> buffer \<Rightarrow> int \<Rightarrow> int \<Rightarrow> (bool \<times> buffer) option" where
  "buf_copy_range dest dest_index src src_index src_len =
     (if src_index < 0 \<or> src_len < 0 \<or> src_index + src_len > len src \<or> dest_index < 0
         \<or> offset dest + dest_index + src_len > capacity dest
      then Some (False, dest)
      else do {
        sm \<leftarrow> data src;
        bs \<leftarrow> mem_read sm (offset src + src_index) src_len;
        d \<leftarrow> buf_store dest (offset dest + dest_index) bs;
        Some (True, if dest_index + src_len > len d then d\<lparr>len := dest_index + src_len\<rparr> else d)
      })"

definition buf_copy_excess :: "buffer \<Rightarrow> buffer \<Rightarrow> int \<Rightarrow> (bool \<times> buffer \<times> buffer) option" where
  "buf_copy_excess dest src n =
     (if n < 0 then Some (False, dest, src)
      else if len src > n then
        (let b = src; src = src\<lparr>len := n\<rparr> in
         case buf_advance b n of
           (False, _) \<Rightarrow> Some (False, dest, src)
         | (True, b) \<Rightarrow> do { (r, d) \<leftarrow> buf_copy dest b; Some (r, d, src) })
      else Some (True, dest, src))"

definition buf_peek_u8 :: "buffer \<Rightarrow> int option" where
  "buf_peek_u8 b =
     (if buf_len b < 1 then Some (-1)
      else do { p \<leftarrow> buf_bptr b; m \<leftarrow> data b; x \<leftarrow> mem_get m p; Some (uint x) })"

definition buf_read_u8 :: "buffer \<Rightarrow> (int \<times> buffer) option" where
  "buf_read_u8 b = do {
     ret \<leftarrow> buf_peek_u8 b;
     Some (ret, if ret \<ge> 0 then snd (buf_advance b 1) else b)
   }"

definition buf_read_u16 :: "buffer \<Rightarrow> (int \<times> buffer) option" where
  "buf_read_u16 b = do {
     (r, b') \<leftarrow> buf_read b 2;
     Some (case r of None \<Rightarrow> (-1, b') | Some bs \<Rightarrow> (uint (rd16 bs), b'))
   }"

text \<open>\<^verbatim>\<open>buf_read_u32(buf, &good)\<close>: \<open>None\<close> in the first component is \<^verbatim>\<open>*good = false\<close>.\<close>

definition buf_read_u32 :: "buffer \<Rightarrow> (u32 option \<times> buffer) option" where
  "buf_read_u32 b = do {
     (r, b') \<leftarrow> buf_read b 4;
     Some (map_option rd32 r, b')
   }"

definition buf_assign :: "buffer \<Rightarrow> buffer \<Rightarrow> (bool \<times> buffer) option" where
  "buf_assign dest src =
     (case buf_init_dowork dest (offset src) of
        (False, d) \<Rightarrow> Some (False, d)
      | (True, d) \<Rightarrow> do { bs \<leftarrow> buf_bytes src; buf_write d bs })"

definition buf_equal :: "buffer \<Rightarrow> buffer \<Rightarrow> bool option" where
  "buf_equal a b =
     (if buf_len a = buf_len b
      then do { x \<leftarrow> buf_bytes a; y \<leftarrow> buf_bytes b; Some (x = y) }
      else Some False)"

definition buf_string_match :: "buffer \<Rightarrow> bytes \<Rightarrow> bool option" where
  "buf_string_match src match =
     (if int (length match) \<noteq> len src then Some False
      else do { x \<leftarrow> buf_bytes src; Some (x = match) })"

definition buf_string_match_head :: "buffer \<Rightarrow> bytes \<Rightarrow> bool option" where
  "buf_string_match_head src match =
     (if int (length match) > len src then Some False
      else do { x \<leftarrow> buf_bytes src; Some (take (length match) x = match) })"

text \<open>
  \<^verbatim>\<open>buf_sub\<close> reserves \<open>size\<close> bytes of the parent (before or after its content) and returns a
  fresh buffer over them. The sub-buffer shares the parent's memory: \<open>buf_sub\<close> returns the
  index of the shared region too, and \<open>buf_sub_sync\<close> is the effect on the parent of the writes
  made through the sub-buffer.
\<close>

definition buf_sub :: "buffer \<Rightarrow> int \<Rightarrow> bool \<Rightarrow> (int option \<times> buffer \<times> buffer) option" where
  "buf_sub b n prepend =
     (case (if prepend then buf_prepend b n else buf_write_alloc b n) of
        (None, b') \<Rightarrow> Some (None, clear_buf, b')
      | (Some p, b') \<Rightarrow> do {
          m \<leftarrow> data b';
          region \<leftarrow> mem_read m p n;
          Some (Some p, \<lparr>capacity = n, offset = 0, len = 0, data = Some region\<rparr>, b') })"

definition buf_sub_sync :: "buffer \<Rightarrow> int \<Rightarrow> buffer \<Rightarrow> buffer option" where
  "buf_sub_sync b p sub = do { region \<leftarrow> data sub; buf_store b p region }"

section \<open>Well-formedness and content\<close>

definition buf_wf :: "buffer \<Rightarrow> bool" where
  "buf_wf b \<longleftrightarrow>
     (case data b of
        None \<Rightarrow> capacity b = 0 \<and> offset b = 0 \<and> len b = 0
      | Some m \<Rightarrow> 0 \<le> offset b \<and> 0 \<le> len b \<and> offset b + len b \<le> capacity b
                 \<and> capacity b = int (length m) \<and> capacity b < BUF_SIZE_MAX)"

definition buf_content :: "buffer \<Rightarrow> bytes" where
  "buf_content b =
     (case data b of None \<Rightarrow> [] | Some m \<Rightarrow> slice (nat (offset b)) (nat (len b)) m)"

lemma buf_wf_Some:
  assumes "buf_wf b" "data b = Some m"
  shows "0 \<le> offset b" "0 \<le> len b" "offset b + len b \<le> capacity b"
    "capacity b = int (length m)" "capacity b < BUF_SIZE_MAX"
  using assms by (simp_all add: buf_wf_def)

lemma buf_wf_None: "buf_wf b \<Longrightarrow> data b = None \<Longrightarrow> b = clear_buf"
  by (cases b) (simp add: buf_wf_def clear_buf_def)

lemma buf_wf_valid: "buf_wf b \<Longrightarrow> buf_valid b \<longleftrightarrow> data b \<noteq> None"
  by (auto simp: buf_valid_def buf_wf_def split: option.splits)

lemma buf_wf_clear [wf_intros, simp]: "buf_wf clear_buf"
  by (simp add: buf_wf_def clear_buf_def)

lemma buf_content_clear [simp]: "buf_content clear_buf = []"
  by (simp add: buf_content_def clear_buf_def)

lemma length_buf_content: "buf_wf b \<Longrightarrow> int (length (buf_content b)) = len b"
  by (auto simp: buf_wf_def buf_content_def split: option.splits)

lemma buf_wf_len: "buf_wf b \<Longrightarrow> buf_len b = len b \<and> 0 \<le> len b"
  by (auto simp: buf_wf_def buf_len_def buf_valid_def split: option.splits)

lemma buf_bytes_content: "buf_wf b \<Longrightarrow> buf_bytes b = Some (buf_content b)"
  by (auto simp: buf_wf_def buf_bytes_def buf_content_def slice_def split: option.splits)

lemma alloc_buf_wf [op_specs]:
  "alloc_buf n = Some b \<Longrightarrow>
     buf_wf b \<and> buf_content b = [] \<and> capacity b = int n \<and> offset b = 0 \<and> len b = 0
     \<and> data b = Some (replicate n 0) \<and> buf_size_valid (int n)"
  by (auto simp: alloc_buf_def buf_wf_def buf_content_def buf_size_valid_def)

lemma alloc_buf_total: "int n < BUF_SIZE_MAX \<Longrightarrow> \<exists>b. alloc_buf n = Some b"
  by (simp add: alloc_buf_def buf_size_valid_def)

lemma buf_init_spec [op_specs]:
  assumes "buf_wf b" "data b \<noteq> None" "0 \<le> off" "off \<le> capacity b"
  shows "\<exists>b'. buf_init_dowork b off = (True, b') \<and> buf_wf b' \<and> buf_content b' = []
            \<and> offset b' = off \<and> capacity b' = capacity b \<and> data b' = data b \<and> len b' = 0"
  using assms by (auto simp: buf_init_dowork_def buf_wf_def buf_content_def split: option.splits)

text \<open>The one fact the write paths share: storing in range keeps the block's size.\<close>

lemma buf_store_in_range:
  assumes "data b = Some m" "0 \<le> p" "p + int (length bs) \<le> int (length m)"
  shows "buf_store b p bs =
           Some (b\<lparr>data := Some (take (nat p) m @ bs @ drop (nat p + length bs) m)\<rparr>)"
  using assms by (simp add: buf_store_def)

lemma buf_write_spec [op_specs]:
  assumes wf: "buf_wf b"
  shows "\<exists>b'. buf_write b src = Some (buf_safe b (int (length src)), b') \<and> buf_wf b'
     \<and> buf_content b' = buf_content b @ (if buf_safe b (int (length src)) then src else [])
     \<and> offset b' = offset b \<and> capacity b' = capacity b
     \<and> len b' = len b + (if buf_safe b (int (length src)) then int (length src) else 0)
     \<and> (data b' = None \<longleftrightarrow> data b = None)"
proof (cases "buf_safe b (int (length src))")
  case False
  with wf show ?thesis by (simp add: buf_write_def buf_write_alloc_def)
next
  case True
  then obtain m where m: "data b = Some m" by (auto simp: buf_safe_def buf_valid_def)
  note w = buf_wf_Some [OF wf m]
  from True have fit: "offset b + len b + int (length src) \<le> capacity b"
    by (simp add: buf_safe_def)
  let ?p = "nat (offset b + len b)"
  let ?m = "take ?p m @ src @ drop (?p + length src) m"
  let ?b = "b\<lparr>len := len b + int (length src), data := Some ?m\<rparr>"
  have eq: "buf_write b src = Some (True, ?b)"
    using True w fit m
    by (simp add: buf_write_def buf_write_alloc_def buf_bptr_def buf_valid_def buf_store_def)
  have p: "?p = nat (offset b) + nat (len b)" using w by (simp add: nat_add_distrib)
  have "buf_content ?b = buf_content b @ src"
    using w fit m slice_overwrite_at [of "nat (offset b)" "nat (len b)" m src]
    by (simp add: buf_content_def p nat_add_distrib)
  moreover have "buf_wf ?b" using w fit by (auto simp: buf_wf_def nat_add_distrib)
  ultimately show ?thesis using eq True m by simp
qed

lemma buf_write_prepend_spec [op_specs]:
  assumes wf: "buf_wf b" and m: "data b = Some m" and room: "int (length src) \<le> offset b"
  shows "\<exists>b'. buf_write_prepend b src = Some (True, b') \<and> buf_wf b'
     \<and> buf_content b' = src @ buf_content b
     \<and> offset b' = offset b - int (length src) \<and> capacity b' = capacity b
     \<and> len b' = len b + int (length src) \<and> data b' \<noteq> None"
proof -
  note w = buf_wf_Some [OF wf m]
  let ?p = "nat (offset b) - length src"
  let ?m = "take ?p m @ src @ drop (nat (offset b)) m"
  let ?b = "b\<lparr>offset := offset b - int (length src), len := len b + int (length src), data := Some ?m\<rparr>"
  have p: "nat (offset b - int (length src)) = ?p" using room by simp
  have "?p + length src = nat (offset b)" using room w by simp
  then have eq: "buf_write_prepend b src = Some (True, ?b)"
    using w m room p
    by (simp add: buf_write_prepend_def buf_prepend_def buf_bptr_def buf_valid_def buf_store_def)
  have "buf_content ?b = src @ buf_content b"
    using w m room slice_overwrite_before [of src "nat (offset b)" "nat (len b)" m]
    by (simp add: buf_content_def p nat_add_distrib add.commute)
  moreover have "buf_wf ?b" using w room by (simp add: buf_wf_def)
  ultimately show ?thesis using eq by simp
qed

lemma buf_write_prepend_fail:
  assumes "buf_wf b" "data b = None \<or> offset b < int (length src)"
  shows "buf_write_prepend b src = Some (False, b)"
  using assms by (auto simp: buf_write_prepend_def buf_prepend_def buf_wf_valid)

lemma buf_advance_spec [op_specs]:
  assumes wf: "buf_wf b" and "0 \<le> n" "n \<le> len b" "data b \<noteq> None"
  shows "\<exists>b'. buf_advance b n = (True, b') \<and> buf_wf b' \<and> buf_content b' = drop (nat n) (buf_content b)
     \<and> offset b' = offset b + n \<and> len b' = len b - n \<and> capacity b' = capacity b"
proof -
  from assms obtain m where m: "data b = Some m" by auto
  note w = buf_wf_Some [OF wf m]
  show ?thesis using assms w m
    by (auto simp: buf_advance_def buf_valid_def buf_wf_def buf_content_def drop_slice
        nat_add_distrib nat_diff_distrib nat_mono)
qed

lemma buf_read_spec [op_specs]:
  assumes wf: "buf_wf b" and "0 \<le> n" "n \<le> len b" "data b \<noteq> None"
  shows "\<exists>b'. buf_read b n = Some (Some (take (nat n) (buf_content b)), b') \<and> buf_wf b'
     \<and> buf_content b' = drop (nat n) (buf_content b) \<and> data b' = data b
     \<and> offset b' = offset b + n \<and> len b' = len b - n \<and> capacity b' = capacity b"
proof -
  from assms obtain m where m: "data b = Some m" by auto
  note w = buf_wf_Some [OF wf m]
  have le: "nat n \<le> nat (len b)" using assms by (simp add: nat_mono)
  show ?thesis using assms w m le
    by (auto simp: buf_read_def buf_read_alloc_def buf_bptr_def buf_valid_def buf_wf_def
        buf_content_def drop_slice take_slice slice_def nat_add_distrib nat_diff_distrib min_def
        drop_take add.commute)
qed

lemma buf_read_short:
  "n < 0 \<or> len b < n \<Longrightarrow> buf_read b n = Some (None, b)"
  by (auto simp: buf_read_def buf_read_alloc_def)

lemma buf_read_NULL:
  "buf_wf b \<Longrightarrow> data b = None \<Longrightarrow> \<exists>b'. buf_read b n = Some (None, b')"
  by (drule (1) buf_wf_None)
     (simp add: buf_read_def buf_read_alloc_def clear_buf_def buf_bptr_def buf_valid_def)

section \<open>The stream contract\<close>

text \<open>
  What the packet formats rely on: a byte stream that is appended to (\<open>put\<close>), prepended to
  (\<open>push\<close>) and consumed from the front (\<open>get\<close>), with the free space behind (\<open>room\<close>) and in
  front (\<open>headroom\<close>) of the content deciding whether a write succeeds.
\<close>

locale byte_stream =
  fixes inv :: "'b \<Rightarrow> bool"
    and content :: "'b \<Rightarrow> bytes"
    and room :: "'b \<Rightarrow> nat"
    and headroom :: "'b \<Rightarrow> nat"
    and put :: "'b \<Rightarrow> bytes \<Rightarrow> (bool \<times> 'b) option"
    and push :: "'b \<Rightarrow> bytes \<Rightarrow> (bool \<times> 'b) option"
    and get :: "'b \<Rightarrow> int \<Rightarrow> (bytes option \<times> 'b) option"
  assumes put_ok: "inv b \<Longrightarrow> length xs \<le> room b \<Longrightarrow>
      \<exists>b'. put b xs = Some (True, b') \<and> inv b' \<and> content b' = content b @ xs
           \<and> room b' = room b - length xs \<and> headroom b' = headroom b"
    and put_full: "inv b \<Longrightarrow> room b < length xs \<Longrightarrow> put b xs = Some (False, b)"
    and push_ok: "inv b \<Longrightarrow> length xs \<le> headroom b \<Longrightarrow>
      \<exists>b'. push b xs = Some (True, b') \<and> inv b' \<and> content b' = xs @ content b
           \<and> headroom b' = headroom b - length xs \<and> room b' = room b"
    and push_full: "inv b \<Longrightarrow> headroom b < length xs \<Longrightarrow> push b xs = Some (False, b)"
    and get_ok: "inv b \<Longrightarrow> content b = xs @ ys \<Longrightarrow>
      \<exists>b'. get b (int (length xs)) = Some (Some xs, b') \<and> inv b' \<and> content b' = ys
           \<and> headroom b' = headroom b + length xs \<and> room b' = room b"
    and get_short: "inv b \<Longrightarrow> int (length (content b)) < n \<Longrightarrow> get b n = Some (None, b)"
begin

text \<open>A field written at the end of an empty stream is read back, and the stream is empty again.\<close>

lemma put_get:
  assumes "inv b" "content b = []" "length xs \<le> room b"
  shows "\<exists>b1 b2. put b xs = Some (True, b1) \<and> get b1 (int (length xs)) = Some (Some xs, b2)
           \<and> inv b2 \<and> content b2 = []"
proof -
  from put_ok [OF assms(1,3)] assms(2) obtain b1
    where b1: "put b xs = Some (True, b1)" "inv b1" "content b1 = xs @ []" by auto
  from get_ok [OF b1(2,3)] b1(1) show ?thesis by blast
qed

text \<open>A header prepended in front of any content is read back, and the content is left as it was.\<close>

lemma push_get:
  assumes "inv b" "length xs \<le> headroom b"
  shows "\<exists>b1 b2. push b xs = Some (True, b1) \<and> get b1 (int (length xs)) = Some (Some xs, b2)
           \<and> inv b2 \<and> content b2 = content b \<and> headroom b2 = headroom b \<and> room b2 = room b"
proof -
  from push_ok [OF assms] obtain b1
    where b1: "push b xs = Some (True, b1)" "inv b1" "content b1 = xs @ content b"
      "headroom b1 = headroom b - length xs" "room b1 = room b" by blast
  from get_ok [OF b1(2,3)] b1 assms(2) show ?thesis by auto
qed

text \<open>Two fields appended one after the other are read back in the same order.\<close>

lemma put_put_get_get:
  assumes "inv b" "content b = []" "length xs + length ys \<le> room b"
  shows "\<exists>b1 b2 b3 b4. put b xs = Some (True, b1) \<and> put b1 ys = Some (True, b2)
           \<and> get b2 (int (length xs)) = Some (Some xs, b3)
           \<and> get b3 (int (length ys)) = Some (Some ys, b4) \<and> inv b4 \<and> content b4 = []"
proof -
  from assms(3) have "length xs \<le> room b" by simp
  from put_ok [OF assms(1) this] assms(2) obtain b1
    where b1: "put b xs = Some (True, b1)" "inv b1" "content b1 = xs" "room b1 = room b - length xs"
    by auto
  from assms(3) b1(4) have "length ys \<le> room b1" by simp
  from put_ok [OF b1(2) this] b1(3) obtain b2
    where b2: "put b1 ys = Some (True, b2)" "inv b2" "content b2 = xs @ ys" by auto
  from get_ok [OF b2(2,3)] obtain b3
    where b3: "get b2 (int (length xs)) = Some (Some xs, b3)" "inv b3" "content b3 = ys @ []" by auto
  from get_ok [OF b3(2,3)] b1(1) b2(1) b3(1) show ?thesis by blast
qed

end

definition buf_live :: "buffer \<Rightarrow> bool" where
  "buf_live b \<longleftrightarrow> buf_wf b \<and> data b \<noteq> None"

definition buf_room :: "buffer \<Rightarrow> nat" where
  "buf_room b = nat (capacity b - (offset b + len b))"

definition buf_headroom :: "buffer \<Rightarrow> nat" where
  "buf_headroom b = nat (offset b)"

lemma buf_safe_room: "buf_live b \<Longrightarrow> buf_safe b (int n) \<longleftrightarrow> n \<le> buf_room b"
  by (auto simp: buf_live_def buf_safe_def buf_room_def buf_wf_def buf_valid_def buf_size_valid_def
      split: option.splits)

lemma buf_forward_capacity_room: "buf_live b \<Longrightarrow> buf_forward_capacity b = int (buf_room b)"
  by (auto simp: buf_live_def buf_forward_capacity_def buf_room_def buf_wf_def buf_valid_def
      split: option.splits)

interpretation wire: byte_stream buf_live buf_content buf_room buf_headroom
  buf_write buf_write_prepend buf_read
proof (unfold_locales, goal_cases)
  case (1 b xs)
  then have "buf_wf b" "buf_safe b (int (length xs))" by (simp_all add: buf_live_def buf_safe_room)
  from buf_write_spec [OF this(1), of xs] this(2) 1 show ?case
    by (auto simp: buf_live_def buf_room_def buf_headroom_def)
next
  case (2 b xs)
  then show ?case
    using buf_safe_room [of b "length xs"] by (simp add: buf_write_def buf_write_alloc_def)
next
  case (3 b xs)
  then obtain m where m: "buf_wf b" "data b = Some m" by (auto simp: buf_live_def)
  then have off: "int (length xs) \<le> offset b"
    using 3 buf_wf_Some(1) [OF m] by (simp add: buf_headroom_def le_nat_iff)
  from buf_write_prepend_spec [OF m off] off show ?case
    by (auto simp: buf_live_def buf_headroom_def buf_room_def)
next
  case (4 b xs)
  then show ?case by (auto simp: buf_live_def buf_headroom_def intro!: buf_write_prepend_fail)
next
  case (5 b xs ys)
  then have wf: "buf_wf b" "data b \<noteq> None" "int (length xs) \<le> len b"
    using length_buf_content [of b] by (auto simp: buf_live_def)
  then have "0 \<le> offset b" by (auto simp: buf_wf_def)
  with buf_read_spec [OF wf(1) _ wf(3,2)] 5 wf show ?case
    by (auto simp: buf_live_def buf_headroom_def buf_room_def nat_add_distrib algebra_simps)
next
  case (6 b n)
  then show ?case using length_buf_content [of b] by (auto simp: buf_live_def intro: buf_read_short)
qed

lemmas wire_laws = wire.put_ok wire.put_full wire.push_ok wire.push_full wire.get_ok wire.get_short

text \<open>Consuming exactly a known prefix, the form every decoder uses.\<close>

lemma buf_read_prefix:
  assumes "buf_wf b" "buf_content b = xs @ ys" "data b \<noteq> None"
  shows "\<exists>b'. buf_read b (int (length xs)) = Some (Some xs, b') \<and> buf_wf b'
     \<and> buf_content b' = ys \<and> data b' \<noteq> None"
proof -
  have "int (length xs) \<le> len b" using length_buf_content [OF assms(1)] assms(2) by simp
  with buf_read_spec [OF assms(1), of "int (length xs)"] assms show ?thesis by auto
qed

section \<open>Reserving space and filling it later\<close>

lemma buf_live_Some:
  assumes "buf_live b"
  obtains m where "data b = Some m" "0 \<le> offset b" "0 \<le> len b" "offset b + len b \<le> int (length m)"
    "capacity b = int (length m)" "capacity b < BUF_SIZE_MAX" "buf_valid b" "buf_len b = len b"
  using assms by (auto simp: buf_live_def buf_wf_def buf_valid_def buf_len_def split: option.splits)

lemma buf_bend_live: "buf_live b \<Longrightarrow> buf_bend b = Some (offset b + len b)"
  by (auto simp: buf_bend_def buf_bptr_def elim: buf_live_Some)

lemma buf_bptr_live: "buf_live b \<Longrightarrow> buf_bptr b = Some (offset b)"
  by (auto simp: buf_bptr_def elim: buf_live_Some)

lemma buf_bytes_live: "buf_live b \<Longrightarrow> buf_bytes b = Some (buf_content b)"
  by (simp add: buf_live_def buf_bytes_content)

lemma len_buf_content: "buf_live b \<Longrightarrow> len b = int (length (buf_content b))"
  by (simp add: buf_live_def length_buf_content)

lemma buf_write_alloc_live:
  assumes b: "buf_live b" and n: "n \<le> buf_room b"
  shows "\<exists>b' stale. buf_write_alloc b (int n) = (Some (offset b + len b), b') \<and> buf_live b' \<and> length stale = n
     \<and> buf_content b' = buf_content b @ stale \<and> offset b' = offset b \<and> capacity b' = capacity b
     \<and> len b' = len b + int n"
proof -
  from b obtain m where m: "data b = Some m" "0 \<le> offset b" "0 \<le> len b" "capacity b = int (length m)"
    "offset b + len b \<le> int (length m)" "capacity b < BUF_SIZE_MAX" "buf_valid b" by (rule buf_live_Some) blast
  let ?b = "b\<lparr>len := len b + int n\<rparr>" and ?st = "slice (nat (offset b) + nat (len b)) n m"
  have fit: "offset b + len b + int n \<le> capacity b" using n m by (simp add: buf_room_def)
  have "buf_write_alloc b (int n) = (Some (offset b + len b), ?b)"
    using buf_safe_room [OF b, of n] n m by (simp add: buf_write_alloc_def buf_bptr_def)
  moreover have "buf_live ?b" using m fit by (simp add: buf_live_def buf_wf_def)
  moreover have "buf_content ?b = buf_content b @ ?st"
    using m by (simp add: buf_content_def nat_add_distrib slice_append_slice)
  moreover have "length ?st = n" by (rule length_slice) (use m fit in linarith)
  ultimately show ?thesis by (intro exI [of _ ?b] exI [of _ ?st]) simp
qed

lemma buf_prepend_live:
  assumes b: "buf_live b" and n: "n \<le> buf_headroom b"
  shows "\<exists>b' stale. buf_prepend b (int n) = (Some (offset b - int n), b') \<and> buf_live b' \<and> length stale = n
     \<and> buf_content b' = stale @ buf_content b \<and> offset b' = offset b - int n \<and> capacity b' = capacity b
     \<and> len b' = len b + int n"
proof -
  from b obtain m where m: "data b = Some m" "0 \<le> offset b" "0 \<le> len b" "capacity b = int (length m)"
    "offset b + len b \<le> int (length m)" "capacity b < BUF_SIZE_MAX" "buf_valid b" by (rule buf_live_Some) blast
  let ?b = "b\<lparr>offset := offset b - int n, len := len b + int n\<rparr>" and ?st = "slice (nat (offset b) - n) n m"
  have le: "int n \<le> offset b" "n \<le> nat (offset b)" using n m by (simp_all add: buf_headroom_def)
  have "buf_prepend b (int n) = (Some (offset b - int n), ?b)"
    using m le by (simp add: buf_prepend_def buf_bptr_def buf_valid_def)
  moreover have "buf_live ?b" using m le by (simp add: buf_live_def buf_wf_def)
  moreover have "buf_content ?b = ?st @ buf_content b"
    using m le slice_append_slice [of "nat (offset b) - n" n m "nat (len b)"]
    by (simp add: buf_content_def nat_add_distrib nat_diff_distrib add.commute)
  moreover have "length ?st = n" by (rule length_slice) (use m le in linarith)
  ultimately show ?thesis by (intro exI [of _ ?b] exI [of _ ?st]) simp
qed

lemma buf_store_inside:
  assumes b: "buf_live b" and c: "buf_content b = xs @ old @ ys" and l: "length new = length old" and p: "p = offset b + int (length xs)"
  shows "\<exists>b'. buf_store b p new = Some b' \<and> buf_live b' \<and> buf_content b' = xs @ new @ ys
     \<and> offset b' = offset b \<and> len b' = len b \<and> capacity b' = capacity b"
proof -
  from b obtain m where m: "data b = Some m" "0 \<le> offset b" "0 \<le> len b" "capacity b = int (length m)"
    "offset b + len b \<le> int (length m)" "capacity b < BUF_SIZE_MAX" "buf_valid b" by (rule buf_live_Some) blast
  have ln: "nat (len b) = length xs + length old + length ys" using len_buf_content [OF b] c by simp
  let ?o = "nat (offset b)" and ?p = "nat (offset b) + length xs"
  have sl: "take (nat (len b)) (drop ?o m) = xs @ old @ ys" using c m(1) by (simp add: buf_content_def slice_def)
  have in_range: "p + int (length new) \<le> int (length m)" using m ln l p by linarith
  let ?m = "take ?p m @ new @ drop (?p + length new) m"
  have st: "buf_store b p new = Some (b\<lparr>data := Some ?m\<rparr>)"
    using buf_store_in_range [OF m(1), of p new] in_range m p by (simp add: nat_add_distrib)
  have "take (nat (len b)) (drop ?o ?m) = xs @ new @ ys"
  proof -
    have "drop ?o ?m = take (length xs) (drop ?o m) @ new @ drop (?p + length new) m"
      using m in_range p by (simp add: take_drop add.commute)
    moreover have "take (length xs) (drop ?o m) = xs"
      using arg_cong [OF sl, of "take (length xs)"] ln by (simp add: min_def)
    moreover have "take (length ys) (drop (?p + length new) m) = ys"
      using arg_cong [OF sl, of "drop (length xs + length old)"] ln l
      by (simp add: drop_take add.commute add.left_commute)
    ultimately show ?thesis using ln l by simp
  qed
  moreover have "buf_live (b\<lparr>data := Some ?m\<rparr>)"
    using m in_range p by (auto simp: buf_live_def buf_wf_def nat_add_distrib)
  ultimately show ?thesis using st m by (intro exI [of _ "b\<lparr>data := Some ?m\<rparr>"]) (simp add: buf_content_def slice_def)
qed

lemma buf_advance_live:
  assumes b: "buf_live b" and c: "buf_content b = xs @ ys" and n: "n = int (length xs)"
  shows "\<exists>b'. buf_advance b n = (True, b') \<and> buf_live b' \<and> buf_content b' = ys \<and> len b' = int (length ys)"
proof -
  have "n \<le> len b" using len_buf_content [OF b] c n by simp
  moreover have "buf_wf b" "data b \<noteq> None" using b by (auto simp: buf_live_def)
  ultimately obtain b' where b': "buf_advance b n = (True, b')" "buf_wf b'" "buf_content b' = drop (nat n) (buf_content b)"
    "len b' = len b - n" using buf_advance_spec [of b n] n by auto
  moreover have "data b' = data b" using b'(1) by (auto simp: buf_advance_def split: if_splits)
  ultimately show ?thesis using b c n len_buf_content [OF b] by (simp add: buf_live_def)
qed

lemma buf_len_live: "buf_live b \<Longrightarrow> buf_len b = int (length (buf_content b))"
  using len_buf_content [of b] by (auto simp: buf_live_def buf_wf_len)

lemma buf_extent:
  assumes "buf_live b"
  shows "offset b = int (buf_headroom b)" "capacity b = int (buf_headroom b + length (buf_content b) + buf_room b)"
  using assms len_buf_content [OF assms] by (auto simp: buf_headroom_def buf_room_def elim!: buf_live_Some)

lemma alloc_buf_gc_live:
  assumes "0 < n" "int n < BUF_SIZE_MAX"
  shows "\<exists>b. alloc_buf_gc junk n = Some b \<and> buf_live b \<and> buf_content b = [] \<and> buf_room b = n \<and> buf_headroom b = 0 \<and> capacity b = int n"
  using assms
  by (auto simp: alloc_buf_gc_def buf_size_valid_def mem_write_def buf_live_def buf_wf_def buf_content_def buf_room_def buf_headroom_def
      Let_def)

lemma buf_inc_len_back:
  assumes b: "buf_live b" and c: "buf_content b = xs @ ys"
  shows "buf_inc_len b (- int (length ys)) = (True, b\<lparr>len := int (length xs)\<rparr>)" "buf_live (b\<lparr>len := int (length xs)\<rparr>)"
    "buf_content (b\<lparr>len := int (length xs)\<rparr>) = xs"
proof -
  from b obtain m where m: "data b = Some m" "0 \<le> offset b" "offset b + len b \<le> int (length m)" "capacity b = int (length m)"
    "capacity b < BUF_SIZE_MAX" "buf_valid b" by (rule buf_live_Some) blast
  have ln: "len b = int (length xs + length ys)" using len_buf_content [OF b] c by simp
  show "buf_inc_len b (- int (length ys)) = (True, b\<lparr>len := int (length xs)\<rparr>)"
    using m ln by (auto simp: buf_inc_len_def buf_safe_bidir_def buf_size_valid_signed_def)
  show "buf_live (b\<lparr>len := int (length xs)\<rparr>)" using m ln by (simp add: buf_live_def buf_wf_def)
  show "buf_content (b\<lparr>len := int (length xs)\<rparr>) = xs"
  proof -
    have "take (length xs) (take (nat (len b)) (drop (nat (offset b)) m)) = xs"
      using arg_cong [OF c, of "take (length xs)"] m(1) by (simp add: buf_content_def slice_def)
    moreover have "length xs \<le> nat (len b)" using ln by simp
    ultimately show ?thesis using m(1) by (simp add: buf_content_def slice_def min_def)
  qed
qed

lemma buf_set_write_live:
  assumes "m \<noteq> []" "int (length m) < BUF_SIZE_MAX"
  shows "\<exists>b'. buf_set_write b (Some m) (int (length m)) = Some b' \<and> buf_live b' \<and> buf_content b' = [] \<and> buf_room b' = length m"
  using assms by (auto simp: buf_set_write_def buf_size_valid_def mem_write_def buf_live_def buf_wf_def buf_content_def buf_room_def Suc_le_eq)

end
