(* ===== verification/Fragment.thy ===== *)
theory Fragment
  imports Buffer Otime
begin

text \<open>
  Internal fragmentation of datagrams: \<^verbatim>\<open>openvpn/src/openvpn/fragment.c\<close> and \<^verbatim>\<open>fragment.h\<close>. A datagram
  larger than the fragment size is sent in up to 32 parts, each with a 32-bit header; the receiver
  reassembles up to 25 datagrams at a time in a sliding window over an 8-bit sequence id.

  A struct assignment between buffers shares the memory block; the model copies the value, and
  \<open>fragment_ready_to_send\<close> writes the block back to \<^verbatim>\<open>outgoing_return\<close>.
\<close>

section \<open>Definitions\<close>

definition N_FRAG_BUF :: int where "N_FRAG_BUF = 25"
definition FRAG_TTL_SEC :: int where "FRAG_TTL_SEC = 10"
definition FRAG_WAKEUP_INTERVAL :: int where "FRAG_WAKEUP_INTERVAL = 5"
definition FRAG_MAP_MASK :: u32 where "FRAG_MAP_MASK = 0xFFFFFFFF"
definition MAX_FRAGS :: int where "MAX_FRAGS = 32"
definition N_SEQ_ID :: int where "N_SEQ_ID = 256"

definition FRAG_TYPE_MASK :: u32 where "FRAG_TYPE_MASK = 0x00000003"
definition FRAG_TYPE_SHIFT :: nat where "FRAG_TYPE_SHIFT = 0"
definition FRAG_WHOLE :: u32 where "FRAG_WHOLE = 0"
definition FRAG_YES_NOTLAST :: u32 where "FRAG_YES_NOTLAST = 1"
definition FRAG_YES_LAST :: u32 where "FRAG_YES_LAST = 2"
definition FRAG_TEST :: u32 where "FRAG_TEST = 3"
definition FRAG_SEQ_ID_MASK :: u32 where "FRAG_SEQ_ID_MASK = 0x000000ff"
definition FRAG_SEQ_ID_SHIFT :: nat where "FRAG_SEQ_ID_SHIFT = 2"
definition FRAG_ID_MASK :: u32 where "FRAG_ID_MASK = 0x0000001f"
definition FRAG_ID_SHIFT :: nat where "FRAG_ID_SHIFT = 10"
definition FRAG_SIZE_MASK :: u32 where "FRAG_SIZE_MASK = 0x00003fff"
definition FRAG_SIZE_SHIFT :: nat where "FRAG_SIZE_SHIFT = 15"
definition FRAG_SIZE_ROUND_SHIFT :: nat where "FRAG_SIZE_ROUND_SHIFT = 2"
definition FRAG_SIZE_ROUND_MASK :: int where "FRAG_SIZE_ROUND_MASK = 3"

record frame =
  fb_payload_size :: int
  fb_headroom :: int
  fb_tailroom :: int
  mss_fix :: u16
  max_fragment_size :: int
  tun_mtu :: int
  tun_max_mtu :: int
  extra_tun :: int

definition BUF_SIZE :: "frame \<Rightarrow> int" where
  "BUF_SIZE f = fb_headroom f + fb_payload_size f + fb_tailroom f"

record fragment =
  fr_defined :: bool
  fr_max_frag_size :: int
  fr_map :: u32
  fr_timestamp :: int
  fr_buf :: buffer

record fragment_list =
  fl_seq_id :: int
  fl_index :: int
  fl_fragments :: "fragment list"

record fragment_master =
  fm_wakeup :: event_timeout
  fm_outgoing_seq_id :: int
  fm_outgoing_frag_size :: int
  fm_outgoing_frag_id :: int
  fm_outgoing :: buffer
  fm_outgoing_return :: buffer
  fm_incoming :: fragment_list

definition fragment_list_buf_init :: "fragment_list \<Rightarrow> frame \<Rightarrow> fragment_list option" where
  "fragment_list_buf_init l frame = do {
     b \<leftarrow> alloc_buf (nat (BUF_SIZE frame));
     Some (l\<lparr>fl_fragments := map (\<lambda>fr. fr\<lparr>fr_buf := b\<rparr>) (fl_fragments l)\<rparr>)
   }"

definition fragment_list_buf_free :: "fragment_list \<Rightarrow> fragment_list" where
  "fragment_list_buf_free l = l\<lparr>fl_fragments := map (\<lambda>fr. fr\<lparr>fr_buf := free_buf (fr_buf fr)\<rparr>) (fl_fragments l)\<rparr>"

definition undefine :: "nat \<Rightarrow> fragment list \<Rightarrow> fragment list" where
  "undefine i frs = frs[i := (frs ! i)\<lparr>fr_defined := False\<rparr>]"

text \<open>The second loop of \<^verbatim>\<open>fragment_list_get_buf\<close>: the window moves up by one sequence id.\<close>

fun advance_window :: "nat \<Rightarrow> fragment_list \<Rightarrow> fragment_list option" where
  "advance_window 0 l = Some l"
| "advance_window (Suc diff) l = do {
     i \<leftarrow> modulo_add (fl_index l) 1 N_FRAG_BUF;
     q \<leftarrow> modulo_add (fl_seq_id l) 1 N_SEQ_ID;
     advance_window diff (l\<lparr>fl_index := i, fl_seq_id := q, fl_fragments := undefine (nat i) (fl_fragments l)\<rparr>)
   }"

definition fragment_list_get_buf :: "fragment_list \<Rightarrow> int \<Rightarrow> (nat \<times> fragment_list) option" where
  "fragment_list_get_buf l seq_id = do {
     diff \<leftarrow> modulo_subtract seq_id (fl_seq_id l) N_SEQ_ID;
     let (diff, l) =
       (if \<bar>diff\<bar> \<ge> N_FRAG_BUF
        then (0, l\<lparr>fl_fragments := map (\<lambda>fr. fr\<lparr>fr_defined := False\<rparr>) (fl_fragments l), fl_index := 0, fl_seq_id := seq_id\<rparr>)
        else (diff, l));
     l \<leftarrow> advance_window (nat diff) l;
     i \<leftarrow> modulo_add (fl_index l) (if diff > 0 then 0 else diff) N_FRAG_BUF;
     Some (nat i, l)
   }"

text \<open>\<open>rnd\<close> is the result of \<^verbatim>\<open>get_random()\<close>; \<open>CLEAR\<close> zeroes every field.\<close>

definition fragment_init :: "int \<Rightarrow> int \<Rightarrow> fragment_master" where
  "fragment_init rnd now =
     \<lparr>fm_wakeup = event_timeout_init FRAG_WAKEUP_INTERVAL now,
      fm_outgoing_seq_id = rnd AND (N_SEQ_ID - 1), fm_outgoing_frag_size = 0, fm_outgoing_frag_id = 0,
      fm_outgoing = clear_buf, fm_outgoing_return = clear_buf,
      fm_incoming = \<lparr>fl_seq_id = 0, fl_index = 0, fl_fragments = replicate (nat N_FRAG_BUF)
        \<lparr>fr_defined = False, fr_max_frag_size = 0, fr_map = 0, fr_timestamp = 0, fr_buf = clear_buf\<rparr>\<rparr>\<rparr>"

definition fragment_frame_init :: "fragment_master \<Rightarrow> frame \<Rightarrow> fragment_master option" where
  "fragment_frame_init f frame = do {
     l \<leftarrow> fragment_list_buf_init (fm_incoming f) frame;
     o1 \<leftarrow> alloc_buf (nat (BUF_SIZE frame));
     o2 \<leftarrow> alloc_buf (nat (BUF_SIZE frame));
     Some (f\<lparr>fm_incoming := l, fm_outgoing := o1, fm_outgoing_return := o2\<rparr>)
   }"

definition fragment_free :: "fragment_master \<Rightarrow> fragment_master" where
  "fragment_free f = f\<lparr>fm_incoming := fragment_list_buf_free (fm_incoming f),
     fm_outgoing := free_buf (fm_outgoing f), fm_outgoing_return := free_buf (fm_outgoing_return f)\<rparr>"

definition set_fragment :: "nat \<Rightarrow> fragment \<Rightarrow> fragment_master \<Rightarrow> fragment_master" where
  "set_fragment i fr f = f\<lparr>fm_incoming := (fm_incoming f)\<lparr>fl_fragments := (fl_fragments (fm_incoming f))[i := fr]\<rparr>\<rparr>"

text \<open>
  The branch of \<^verbatim>\<open>fragment_incoming\<close> for a part of a datagram. An error leaves an empty buffer and
  whatever the reassembly state is at that point.
\<close>

definition fragment_join ::
    "int \<Rightarrow> frame \<Rightarrow> fragment_master \<Rightarrow> buffer \<Rightarrow> u32 \<Rightarrow> u32 \<Rightarrow> (fragment_master \<times> buffer) option" where
  "fragment_join now frame f buf frag_type flags = do {
     let seq_id = uint (drop_bit FRAG_SEQ_ID_SHIFT flags AND FRAG_SEQ_ID_MASK);
     let n = uint (drop_bit FRAG_ID_SHIFT flags AND FRAG_ID_MASK);
     let sz = (if frag_type = FRAG_YES_LAST
               then uint (push_bit FRAG_SIZE_ROUND_SHIFT (drop_bit FRAG_SIZE_SHIFT flags AND FRAG_SIZE_MASK))
               else len buf);
     (i, l) \<leftarrow> fragment_list_get_buf (fm_incoming f) seq_id;
     let f = f\<lparr>fm_incoming := l\<rparr>;
     (if sz AND FRAG_SIZE_ROUND_MASK \<noteq> 0 then Some (f, buf\<lparr>len := 0\<rparr>)
      else do {
        let frag = fl_fragments l ! i;
        frag \<leftarrow> (if \<not> fr_defined frag \<or> fr_max_frag_size frag \<noteq> sz then
                   (case buf_init_dowork (fr_buf frag) (fb_headroom frame) of (ok, b) \<Rightarrow> do {
                      c_assert ok;
                      Some (frag\<lparr>fr_defined := True, fr_max_frag_size := sz, fr_map := 0, fr_buf := b\<rparr>) })
                 else Some frag);
        (ok, b) \<leftarrow> buf_copy_range (fr_buf frag) (n * sz) buf 0 (len buf);
        (if \<not> ok then Some (set_fragment i frag f, buf\<lparr>len := 0\<rparr>)
         else
           let mp = fr_map frag OR push_bit (nat n) (if frag_type = FRAG_YES_LAST then FRAG_MAP_MASK else 1);
               frag = frag\<lparr>fr_buf := b, fr_map := mp, fr_timestamp := now\<rparr>
           in if mp AND FRAG_MAP_MASK = FRAG_MAP_MASK
              then Some (set_fragment i (frag\<lparr>fr_defined := False\<rparr>) f, b)
              else Some (set_fragment i frag f, buf\<lparr>len := 0\<rparr>)) })
   }"

definition fragment_incoming ::
    "int \<Rightarrow> frame \<Rightarrow> fragment_master \<Rightarrow> buffer \<Rightarrow> (fragment_master \<times> buffer) option" where
  "fragment_incoming now frame f buf =
     (if len buf > 0 then do {
        (r, buf) \<leftarrow> buf_read buf 4;
        (case r of
           None \<Rightarrow> Some (f, buf\<lparr>len := 0\<rparr>)
         | Some bs \<Rightarrow>
             let flags = rd32 bs;
                 frag_type = drop_bit FRAG_TYPE_SHIFT flags AND FRAG_TYPE_MASK
             in if frag_type = FRAG_WHOLE then
                  if flags AND (FRAG_SEQ_ID_MASK OR FRAG_ID_MASK) \<noteq> 0 then Some (f, buf\<lparr>len := 0\<rparr>)
                  else Some (f, buf)
                else if frag_type = FRAG_YES_NOTLAST \<or> frag_type = FRAG_YES_LAST then
                  fragment_join now frame f buf frag_type flags
                else Some (f, buf\<lparr>len := 0\<rparr>)) }
      else Some (f, buf))"

definition fragment_flags :: "u32 \<Rightarrow> int \<Rightarrow> int \<Rightarrow> int \<Rightarrow> u32" where
  "fragment_flags type seq_id frag_id frag_size =
     (let flags = push_bit FRAG_TYPE_SHIFT (type AND FRAG_TYPE_MASK)
                  OR push_bit FRAG_SEQ_ID_SHIFT (word_of_int seq_id AND FRAG_SEQ_ID_MASK)
                  OR push_bit FRAG_ID_SHIFT (word_of_int frag_id AND FRAG_ID_MASK)
      in if type = FRAG_WHOLE \<or> type = FRAG_YES_NOTLAST then flags
         else flags OR push_bit FRAG_SIZE_SHIFT
                (word_of_int (drop_bit FRAG_SIZE_ROUND_SHIFT frag_size) AND FRAG_SIZE_MASK))"

definition fragment_prepend_flags :: "buffer \<Rightarrow> u32 \<Rightarrow> int \<Rightarrow> int \<Rightarrow> int \<Rightarrow> buffer option" where
  "fragment_prepend_flags buf type seq_id frag_id frag_size = do {
     (ok, buf) \<leftarrow> buf_write_prepend buf (be32 (fragment_flags type seq_id frag_id frag_size));
     c_assert ok;
     Some buf
   }"

text \<open>\<open>None\<close> is the division by zero for a maximum size below four.\<close>

definition optimal_fragment_size :: "int \<Rightarrow> int \<Rightarrow> int option" where
  "optimal_fragment_size ln max_frag_size = do {
     let mfs_aligned = max_frag_size AND NOT FRAG_SIZE_ROUND_MASK;
     c_assert (mfs_aligned \<noteq> 0);
     let dv = ln div mfs_aligned;
     let md = ln mod mfs_aligned;
     Some (if dv > 0 \<and> md > 0 \<and> md < mfs_aligned * 3 div 4
           then min_int mfs_aligned
                  ((max_frag_size - ((max_frag_size - md) div (dv + 1)) + FRAG_SIZE_ROUND_MASK)
                     AND NOT FRAG_SIZE_ROUND_MASK)
           else mfs_aligned)
   }"

definition fragment_outgoing_defined :: "fragment_master \<Rightarrow> bool" where
  "fragment_outgoing_defined f \<longleftrightarrow> len (fm_outgoing f) > 0"

definition fragment_ready_to_send ::
    "frame \<Rightarrow> fragment_master \<Rightarrow> buffer \<Rightarrow> (bool \<times> fragment_master \<times> buffer) option" where
  "fragment_ready_to_send frame f buf =
     (if fragment_outgoing_defined f then do {
        let last = (len (fm_outgoing f) \<le> fm_outgoing_frag_size f);
        let sz = (if last then len (fm_outgoing f) else fm_outgoing_frag_size f);
        let (ok, buf) = buf_init_dowork (fm_outgoing_return f) (fb_headroom frame);
        c_assert ok;
        (ok, buf, out) \<leftarrow> buf_copy_n buf (fm_outgoing f) sz;
        c_assert ok;
        buf \<leftarrow> fragment_prepend_flags buf (if last then FRAG_YES_LAST else FRAG_YES_NOTLAST)
                 (fm_outgoing_seq_id f) (fm_outgoing_frag_id f) (fm_outgoing_frag_size f);
        c_assert (\<not> last \<or> len out = 0);
        Some (True, f\<lparr>fm_outgoing := out, fm_outgoing_frag_id := fm_outgoing_frag_id f + 1,
                      fm_outgoing_return := (fm_outgoing_return f)\<lparr>data := data buf\<rparr>\<rparr>, buf) }
      else Some (False, f, buf))"

definition fragment_outgoing ::
    "frame \<Rightarrow> fragment_master \<Rightarrow> buffer \<Rightarrow> (fragment_master \<times> buffer) option" where
  "fragment_outgoing frame f buf =
     (if len buf > 0 then
        if len buf > max_fragment_size frame then do {
          s \<leftarrow> optimal_fragment_size (len buf) (max_fragment_size frame);
          let f = f\<lparr>fm_outgoing_frag_size := s\<rparr>;
          (if len buf > s * MAX_FRAGS then Some (f, buf\<lparr>len := 0\<rparr>)
           else do {
             let (ok, out) = buf_init_dowork (fm_outgoing f) (fb_headroom frame);
             c_assert ok;
             (ok, out) \<leftarrow> buf_copy out buf;
             c_assert ok;
             q \<leftarrow> modulo_add (fm_outgoing_seq_id f) 1 N_SEQ_ID;
             let f = f\<lparr>fm_outgoing := out, fm_outgoing_seq_id := q, fm_outgoing_frag_id := 0\<rparr>;
             (ok, f, buf) \<leftarrow> fragment_ready_to_send frame f (buf\<lparr>len := 0\<rparr>);
             c_assert ok;
             Some (f, buf) }) }
        else do {
          buf \<leftarrow> fragment_prepend_flags buf FRAG_WHOLE 0 0 0;
          Some (f, buf) }
      else Some (f, buf))"

definition fragment_ttl_reap :: "int \<Rightarrow> fragment_master \<Rightarrow> fragment_master" where
  "fragment_ttl_reap now f = f\<lparr>fm_incoming := (fm_incoming f)\<lparr>fl_fragments :=
     map (\<lambda>fr. if fr_defined fr \<and> fr_timestamp fr + FRAG_TTL_SEC \<le> now then fr\<lparr>fr_defined := False\<rparr> else fr)
       (fl_fragments (fm_incoming f))\<rparr>\<rparr>"

definition fragment_wakeup :: "int \<Rightarrow> fragment_master \<Rightarrow> fragment_master" where
  "fragment_wakeup now f = fragment_ttl_reap now f"

definition fragment_housekeeping ::
    "int \<Rightarrow> fragment_master \<Rightarrow> timeval \<Rightarrow> fragment_master \<times> timeval option" where
  "fragment_housekeeping now f tv =
     (case event_timeout_trigger now (fm_wakeup f) (Some tv) (-1) of
        (fired, et, tv) \<Rightarrow>
          let f = f\<lparr>fm_wakeup := et\<rparr> in (if fired then fragment_wakeup now f else f, tv))"

lemmas frag_consts = FRAG_TYPE_MASK_def FRAG_TYPE_SHIFT_def FRAG_WHOLE_def FRAG_YES_NOTLAST_def FRAG_YES_LAST_def
  FRAG_SEQ_ID_MASK_def FRAG_SEQ_ID_SHIFT_def FRAG_ID_MASK_def FRAG_ID_SHIFT_def FRAG_SIZE_MASK_def FRAG_SIZE_SHIFT_def
  FRAG_SIZE_ROUND_SHIFT_def

section \<open>The header\<close>

lemma frag_masks: "(0x3 :: u32) = mask 2" "(0xff :: u32) = mask 8" "(0x1f :: u32) = mask 5" "(0x3fff :: u32) = mask 14"
  by (simp_all add: mask_eq_exp_minus_1)

lemma header_bits:
  fixes t q i z :: u32
  defines "w \<equiv> take_bit 2 t OR push_bit 2 (take_bit 8 q) OR push_bit 10 (take_bit 5 i) OR push_bit 15 (take_bit 14 z)"
  shows "take_bit 2 w = take_bit 2 t" "take_bit 8 (drop_bit 2 w) = take_bit 8 q" "take_bit 5 (drop_bit 10 w) = take_bit 5 i"
    "take_bit 14 (drop_bit 15 w) = take_bit 14 z"
  unfolding w_def by (rule bit_word_eqI, auto simp: bit_simps)+

lemma uint_take_small:
  assumes "0 \<le> x" "x < 2 ^ k" "k \<le> 32"
  shows "uint (take_bit k (word_of_int x :: u32)) = x"
proof -
  have "x < 2 ^ 32" using assms(2,3) power_increasing [of k 32 "2::int"] by linarith
  then have "uint (word_of_int x :: u32) = x" using assms(1) by (simp add: uint_word_of_int take_bit_int_eq_self)
  with assms show ?thesis by (simp add: unsigned_take_bit_eq take_bit_int_eq_self)
qed

lemma flags_decode:
  assumes "t = FRAG_YES_NOTLAST \<or> t = FRAG_YES_LAST" "0 \<le> q" "q < 256" "0 \<le> i" "i < 32" "0 \<le> s" "s < 65536" "s mod 4 = 0"
  shows "drop_bit FRAG_TYPE_SHIFT (fragment_flags t q i s) AND FRAG_TYPE_MASK = t"
    "uint (drop_bit FRAG_SEQ_ID_SHIFT (fragment_flags t q i s) AND FRAG_SEQ_ID_MASK) = q"
    "uint (drop_bit FRAG_ID_SHIFT (fragment_flags t q i s) AND FRAG_ID_MASK) = i"
    "t = FRAG_YES_LAST \<Longrightarrow>
       uint (push_bit FRAG_SIZE_ROUND_SHIFT (drop_bit FRAG_SIZE_SHIFT (fragment_flags t q i s) AND FRAG_SIZE_MASK)) = s"
proof -
  define z :: u32 where "z = (if t = FRAG_YES_LAST then word_of_int (s div 4) else 0)"
  have eq: "fragment_flags t q i s = take_bit 2 t OR push_bit 2 (take_bit 8 (word_of_int q)) OR push_bit 10 (take_bit 5 (word_of_int i))
      OR push_bit 15 (take_bit 14 z)"
    using assms(1) unfolding fragment_flags_def frag_consts frag_masks take_bit_eq_mask z_def
    by (auto simp: frag_consts drop_bit_eq_div or.assoc)
  note hb = header_bits [of t "word_of_int q" "word_of_int i" z, folded eq]
  have t2: "take_bit 2 t = t" using assms(1) by (auto simp: frag_consts)
  show "drop_bit FRAG_TYPE_SHIFT (fragment_flags t q i s) AND FRAG_TYPE_MASK = t"
    unfolding frag_consts frag_masks take_bit_eq_mask [symmetric] using hb(1) t2 by simp
  show "uint (drop_bit FRAG_SEQ_ID_SHIFT (fragment_flags t q i s) AND FRAG_SEQ_ID_MASK) = q"
    unfolding frag_consts frag_masks take_bit_eq_mask [symmetric] hb(2) by (rule uint_take_small) (use assms in simp_all)
  show "uint (drop_bit FRAG_ID_SHIFT (fragment_flags t q i s) AND FRAG_ID_MASK) = i"
    unfolding frag_consts frag_masks take_bit_eq_mask [symmetric] hb(3) by (rule uint_take_small) (use assms in simp_all)
  assume l: "t = FRAG_YES_LAST"
  have z: "uint (take_bit 14 z) = s div 4" unfolding z_def using l by (simp, intro uint_take_small) (use assms in simp_all)
  have "uint (push_bit 2 (take_bit 14 z)) = (uint (take_bit 14 z) * 4) mod 2 ^ 32"
    by (simp add: push_bit_eq_mult uint_word_ariths mult.commute)
  also have "\<dots> = s" unfolding z using assms(6-8) by (simp add: mod_0_imp_dvd dvd_div_mult_self)
  finally show "uint (push_bit FRAG_SIZE_ROUND_SHIFT (drop_bit FRAG_SIZE_SHIFT (fragment_flags t q i s) AND FRAG_SIZE_MASK)) = s"
    unfolding frag_consts frag_masks take_bit_eq_mask [symmetric] hb(4) [unfolded frag_consts] .
qed

section \<open>The fragment size\<close>

lemma int_and_not_mask: "(x :: int) AND NOT 3 = 4 * (x div 4)"
proof -
  have "x AND NOT (mask 2) = push_bit 2 (drop_bit 2 x)"
  proof (rule bit_eqI)
    fix n
    show "bit (x AND NOT (mask 2)) n = bit (push_bit 2 (drop_bit 2 x)) n"
    proof (cases "2 \<le> n")
      case True
      then obtain k where "n = 2 + k" using le_Suc_ex by blast
      then show ?thesis by (simp add: bit_simps)
    qed (auto simp: bit_simps)
  qed
  then show ?thesis by (simp add: mask_eq_exp_minus_1 push_bit_eq_mult drop_bit_eq_div)
qed

lemma optimal_size:
  assumes "4 \<le> m" "0 < n"
  shows "\<exists>s. optimal_fragment_size n m = Some s \<and> 0 < s \<and> s \<le> m \<and> s mod 4 = 0
     \<and> (n + s - 1) div s = (n + 4 * (m div 4) - 1) div (4 * (m div 4))"
proof -
  define a where "a = 4 * (m div 4)"
  have a: "0 < a" "a \<le> m" "m < a + 4" "a mod 4 = 0" using assms(1) by (auto simp: a_def)
  have al: "m AND NOT FRAG_SIZE_ROUND_MASK = a" unfolding FRAG_SIZE_ROUND_MASK_def int_and_not_mask a_def ..
  define d r where "d = n div a" and "r = n mod a"
  have dr: "n = d * a + r" "0 \<le> r" "r < a" using a(1) by (simp_all add: d_def r_def)
  have d0: "0 \<le> d" using assms(2) a(1) by (simp add: d_def pos_imp_zdiv_nonneg_iff)
  show ?thesis
  proof (cases "d > 0 \<and> r > 0 \<and> r < a * 3 div 4")
    case False
    then have "optimal_fragment_size n m = Some a"
      unfolding optimal_fragment_size_def al using a(1) by (auto simp: Let_def d_def r_def)
    with a show ?thesis by (simp add: a_def [symmetric])
  next
    case True
    define x where "x = m - (m - r) div (d + 1)"
    define s where "s = min_int a (4 * ((x + 3) div 4))"
    have "optimal_fragment_size n m = Some s"
      unfolding optimal_fragment_size_def al Let_def d_def [symmetric] r_def [symmetric] x_def [symmetric]
      unfolding FRAG_SIZE_ROUND_MASK_def int_and_not_mask s_def using a(1) True by simp
    moreover have "s \<le> a" by (simp add: s_def min_int_def)
    moreover have s4: "s mod 4 = 0" using a(4) by (simp add: s_def min_def)
    moreover have enough: "n \<le> s * (d + 1)"
    proof (cases "s = a")
      case True
      then show ?thesis using dr by (simp add: algebra_simps)
    next
      case False
      then have "x \<le> s" by (auto simp: s_def min_int_def split: if_splits)
      have "(m - r) div (d + 1) * (d + 1) \<le> m - r" using d0 by (simp add: minus_mod_eq_div_mult [symmetric])
      then have "m * d + r \<le> x * (d + 1)" by (simp add: x_def algebra_simps)
      moreover have "a * d \<le> m * d" using a(2) d0 by (rule mult_right_mono)
      moreover have "x * (d + 1) \<le> s * (d + 1)" using \<open>x \<le> s\<close> d0 by (intro mult_right_mono) auto
      ultimately show ?thesis using dr(1) by (simp add: algebra_simps)
    qed
    ultimately have s: "0 < s" "s \<le> m"
    proof -
      show "0 < s"
      proof (rule ccontr)
        assume "\<not> 0 < s"
        then have "s * (d + 1) \<le> 0" using d0 by (simp add: mult_nonpos_nonneg)
        with enough assms(2) show False by linarith
      qed
    qed (use a(2) in simp)
    have "(n + s - 1) div s = d + 1"
    proof (rule int_div_pos_eq [of _ _ _ "n + s - 1 - (d + 1) * s"])
      have "d * s \<le> d * a" using \<open>s \<le> a\<close> d0 by (intro mult_left_mono) auto
      moreover have "(d + 1) * s = d * s + s" by (simp add: algebra_simps)
      ultimately show "0 \<le> n + s - 1 - (d + 1) * s" using dr(1) True by linarith
      show "n + s - 1 - (d + 1) * s < s" using enough by (simp add: algebra_simps)
    qed simp
    moreover have "(n + a - 1) div a = d + 1"
      by (rule int_div_pos_eq [of _ _ _ "r - 1"]) (use dr True a in \<open>auto simp: algebra_simps\<close>)
    ultimately show ?thesis using s s4 \<open>optimal_fragment_size n m = Some s\<close> by (simp add: a_def [symmetric])
  qed
qed

section \<open>The reassembly window\<close>

definition list_wf :: "fragment_list \<Rightarrow> bool" where
  "list_wf l \<longleftrightarrow> 0 \<le> fl_seq_id l \<and> fl_seq_id l < N_SEQ_ID \<and> 0 \<le> fl_index l \<and> fl_index l < N_FRAG_BUF
     \<and> length (fl_fragments l) = nat N_FRAG_BUF"

text \<open>The window contains the id \<open>q\<close>, in slot \<open>i\<close>.\<close>

definition settled :: "fragment_list \<Rightarrow> int \<Rightarrow> nat \<Rightarrow> bool" where
  "settled l q i \<longleftrightarrow> list_wf l \<and> (\<exists>d \<le> 0. modulo_subtract q (fl_seq_id l) N_SEQ_ID = Some d \<and> \<bar>d\<bar> < N_FRAG_BUF
     \<and> int i = (fl_index l + d) mod N_FRAG_BUF)"

lemma settled_get_buf: "settled l q i \<Longrightarrow> fragment_list_get_buf l q = Some (i, l)"
proof -
  assume "settled l q i"
  then obtain d where d: "d \<le> 0" "modulo_subtract q (fl_seq_id l) N_SEQ_ID = Some d" "\<bar>d\<bar> < N_FRAG_BUF"
    "int i = (fl_index l + d) mod N_FRAG_BUF" and wf: "list_wf l" by (auto simp: settled_def)
  have "modulo_add (fl_index l) d N_FRAG_BUF = Some (int i)"
    unfolding d(4) by (rule modulo_add_mod) (use wf d in \<open>auto simp: list_wf_def\<close>)
  with d(1-3) show ?thesis by (simp add: fragment_list_get_buf_def)
qed

lemma settled_update: "settled l q i \<Longrightarrow> settled (l\<lparr>fl_fragments := (fl_fragments l)[j := fr]\<rparr>) q i"
  by (auto simp: settled_def list_wf_def)

lemma settled_slot: "settled l q i \<Longrightarrow> i < length (fl_fragments l)"
proof -
  assume "settled l q i"
  then have "int i < N_FRAG_BUF" "length (fl_fragments l) = nat N_FRAG_BUF"
    by (auto simp: settled_def list_wf_def N_FRAG_BUF_def)
  then show ?thesis by linarith
qed

lemma advance_window_spec:
  assumes "list_wf l"
  shows "\<exists>l'. advance_window n l = Some l' \<and> list_wf l' \<and> fl_seq_id l' = (fl_seq_id l + int n) mod N_SEQ_ID
     \<and> map fr_buf (fl_fragments l') = map fr_buf (fl_fragments l)
     \<and> (0 < n \<longrightarrow> \<not> fr_defined (fl_fragments l' ! nat (fl_index l')))"
  using assms
proof (induction n arbitrary: l)
  case 0
  then show ?case by (simp add: list_wf_def)
next
  case (Suc n)
  let ?i = "(fl_index l + 1) mod N_FRAG_BUF" and ?q = "(fl_seq_id l + 1) mod N_SEQ_ID"
  let ?l = "l\<lparr>fl_index := ?i, fl_seq_id := ?q, fl_fragments := undefine (nat ?i) (fl_fragments l)\<rparr>"
  have st: "modulo_add (fl_index l) 1 N_FRAG_BUF = Some ?i" "modulo_add (fl_seq_id l) 1 N_SEQ_ID = Some ?q"
    by (rule modulo_add_mod; use Suc.prems in \<open>auto simp: list_wf_def N_FRAG_BUF_def N_SEQ_ID_def\<close>)+
  have i: "0 \<le> ?i" "?i < N_FRAG_BUF" "nat ?i < length (fl_fragments l)"
    using Suc.prems by (auto simp: list_wf_def N_FRAG_BUF_def nat_less_iff)
  have wf: "list_wf ?l"
    using Suc.prems i by (auto simp: list_wf_def undefine_def N_SEQ_ID_def)
  have bufs: "map fr_buf (undefine (nat ?i) (fl_fragments l)) = map fr_buf (fl_fragments l)"
    using i(3) by (simp add: undefine_def map_update list_update_same_conv)
  from Suc.IH [OF wf] obtain l' where
    l': "advance_window n ?l = Some l'" "list_wf l'" "fl_seq_id l' = (?q + int n) mod N_SEQ_ID"
      "map fr_buf (fl_fragments l') = map fr_buf (fl_fragments l)"
      "0 < n \<longrightarrow> \<not> fr_defined (fl_fragments l' ! nat (fl_index l'))" using bufs by auto
  have "fl_seq_id l' = (fl_seq_id l + int (Suc n)) mod N_SEQ_ID" using l'(3) by (simp add: mod_simps algebra_simps)
  moreover have "\<not> fr_defined (fl_fragments l' ! nat (fl_index l'))"
  proof (cases n)
    case 0
    with l'(1) i show ?thesis by (auto simp: undefine_def)
  qed (use l'(5) in simp)
  ultimately show ?case using st l' by (intro exI [of _ l']) simp
qed

text \<open>
  Asking for the slot of an id moves the window so that it contains the id; a slot that enters the
  window is free.
\<close>

lemma get_buf_settles:
  assumes "list_wf l" "0 \<le> q" "q < N_SEQ_ID"
  shows "\<exists>i l'. fragment_list_get_buf l q = Some (i, l') \<and> settled l' q i
     \<and> map fr_buf (fl_fragments l') = map fr_buf (fl_fragments l) \<and> (settled l q i \<or> \<not> fr_defined (fl_fragments l' ! i))"
proof -
  from modulo_subtract_spec [of q N_SEQ_ID "fl_seq_id l"] assms obtain d where
    d: "modulo_subtract q (fl_seq_id l) N_SEQ_ID = Some d" "(fl_seq_id l + d) mod N_SEQ_ID = q" by (auto simp: list_wf_def)
  have self: "modulo_subtract q q N_SEQ_ID = Some 0" using assms by (simp add: modulo_subtract_def)
  have N: "0 < N_FRAG_BUF" by (simp add: N_FRAG_BUF_def)
  consider "\<bar>d\<bar> \<ge> N_FRAG_BUF" | "d > 0" "\<bar>d\<bar> < N_FRAG_BUF" | "d \<le> 0" "\<bar>d\<bar> < N_FRAG_BUF" by linarith
  then show ?thesis
  proof cases
    case 1
    let ?l = "l\<lparr>fl_fragments := map (\<lambda>fr. fr\<lparr>fr_defined := False\<rparr>) (fl_fragments l), fl_index := 0, fl_seq_id := q\<rparr>"
    have "settled ?l q 0" using assms self N by (auto simp: settled_def list_wf_def)
    moreover have "fragment_list_get_buf l q = Some (0, ?l)"
      using 1 d(1) N by (simp add: fragment_list_get_buf_def modulo_add_def)
    moreover have "\<not> fr_defined (fl_fragments ?l ! 0)" using assms(1) N by (simp add: list_wf_def)
    ultimately show ?thesis by (intro exI [of _ 0] exI [of _ ?l]) (simp add: comp_def)
  next
    case 2
    from advance_window_spec [OF assms(1), of "nat d"] obtain l' where
      l': "advance_window (nat d) l = Some l'" "list_wf l'" "fl_seq_id l' = (fl_seq_id l + d) mod N_SEQ_ID"
        "map fr_buf (fl_fragments l') = map fr_buf (fl_fragments l)" "\<not> fr_defined (fl_fragments l' ! nat (fl_index l'))"
      using 2 by auto
    have idx: "0 \<le> fl_index l'" "fl_index l' < N_FRAG_BUF" using l'(2) by (auto simp: list_wf_def)
    then have "modulo_add (fl_index l') 0 N_FRAG_BUF = Some (fl_index l')" by (simp add: modulo_add_def)
    with 2 d(1) l'(1) have "fragment_list_get_buf l q = Some (nat (fl_index l'), l')"
      by (simp add: fragment_list_get_buf_def)
    moreover have "settled l' q (nat (fl_index l'))"
      using l'(2,3) d(2) self idx N by (auto simp: settled_def intro!: exI [of _ "0 :: int"])
    ultimately show ?thesis using l'(4,5) by blast
  next
    case 3
    let ?i = "nat ((fl_index l + d) mod N_FRAG_BUF)"
    have "settled l q ?i" using 3 d(1) assms(1) N by (auto simp: settled_def intro!: exI [of _ d])
    from this settled_get_buf [OF this] show ?thesis by blast
  qed
qed

section \<open>Reassembly of one datagram\<close>

text \<open>The parts of a datagram \<open>D\<close> cut every \<open>s\<close> bytes.\<close>

definition frag_count :: "nat \<Rightarrow> nat \<Rightarrow> nat" where
  "frag_count n s = (n + s - 1) div s"

definition payload :: "bytes \<Rightarrow> nat \<Rightarrow> nat \<Rightarrow> bytes" where
  "payload D s k = take s (drop (k * s) D)"

definition part_type :: "bytes \<Rightarrow> nat \<Rightarrow> nat \<Rightarrow> u32" where
  "part_type D s k = (if Suc k = frag_count (length D) s then FRAG_YES_LAST else FRAG_YES_NOTLAST)"

definition part :: "bytes \<Rightarrow> nat \<Rightarrow> int \<Rightarrow> nat \<Rightarrow> bytes" where
  "part D s q k = be32 (fragment_flags (part_type D s k) q (int k) (int s)) @ payload D s k"

definition cut_ok :: "bytes \<Rightarrow> nat \<Rightarrow> bool" where
  "cut_ok D s \<longleftrightarrow> 0 < s \<and> s mod 4 = 0 \<and> s < 65536 \<and> D \<noteq> [] \<and> frag_count (length D) s \<le> 32"

lemma frag_count_less: "0 < s \<Longrightarrow> k < frag_count n s \<longleftrightarrow> k * s < n"
proof -
  assume s: "0 < s"
  have "k < frag_count n s \<longleftrightarrow> Suc k * s \<le> n + s - 1"
    using less_eq_div_iff_mult_less_eq [OF s, of "Suc k" "n + s - 1"] by (simp add: frag_count_def Suc_le_eq)
  also have "\<dots> \<longleftrightarrow> k * s < n" using s by auto
  finally show ?thesis .
qed

lemma length_payload: "length (payload D s k) = min s (length D - k * s)"
  by (simp add: payload_def)

lemma payload_length_inner:
  assumes "0 < s" "Suc k < frag_count (length D) s"
  shows "length (payload D s k) = s"
  using frag_count_less [OF assms(1), of "Suc k" "length D"] assms(2) by (simp add: length_payload)

lemma payload_last:
  assumes "0 < s" "Suc k = frag_count (length D) s"
  shows "k * s + length (payload D s k) = length D"
proof -
  have "\<not> Suc k * s < length D" "k * s < length D"
    using frag_count_less [OF assms(1)] assms(2) by (metis less_irrefl, metis lessI)
  then show ?thesis by (simp add: length_payload)
qed

lemma payload_fits: "0 < s \<Longrightarrow> k < frag_count (length D) s \<Longrightarrow> k * s + length (payload D s k) \<le> length D"
  using frag_count_less [of s k "length D"] by (simp add: length_payload)

text \<open>Byte \<open>j\<close> of the datagram travels in part \<open>j div s\<close>.\<close>

lemma payload_nth:
  assumes "0 < s" "j < length D" "j div s = k"
  shows "k * s \<le> j" "j - k * s < length (payload D s k)" "payload D s k ! (j - k * s) = D ! j"
proof -
  show j: "k * s \<le> j" using assms(3) by (auto simp: div_times_less_eq_dividend)
  have "j < k * s + s" using assms(1,3) dividend_less_div_times [of s j] by (simp add: add.commute)
  with j assms(2) show l: "j - k * s < length (payload D s k)" by (auto simp: length_payload)
  with j assms(2) show "payload D s k ! (j - k * s) = D ! j" by (simp add: payload_def)
qed

definition slot_ready :: "int \<Rightarrow> bytes \<Rightarrow> nat \<Rightarrow> nat set \<Rightarrow> fragment \<Rightarrow> bool" where
  "slot_ready hr D s R fr \<longleftrightarrow> fr_defined fr \<and> fr_max_frag_size fr = int s
     \<and> buf_live (fr_buf fr) \<and> hr + int (length D) \<le> capacity (fr_buf fr)
     \<and> offset (fr_buf fr) = hr \<and> len (fr_buf fr) \<le> int (length D)
     \<and> (\<forall>k \<in> R. int (k * s + length (payload D s k)) \<le> len (fr_buf fr))
     \<and> (\<forall>i < 32. bit (fr_map fr) i \<longleftrightarrow> (if Suc i < frag_count (length D) s then i \<in> R else frag_count (length D) s - 1 \<in> R))
     \<and> (\<forall>j < length D. j div s \<in> R \<longrightarrow> the (data (fr_buf fr)) ! (nat hr + j) = D ! j)"

definition slot_inv :: "int \<Rightarrow> bytes \<Rightarrow> nat \<Rightarrow> nat set \<Rightarrow> fragment \<Rightarrow> bool" where
  "slot_inv hr D s R fr \<longleftrightarrow> (if R = {} then \<not> fr_defined fr \<and> buf_live (fr_buf fr) \<and> hr + int (length D) \<le> capacity (fr_buf fr)
     else slot_ready hr D s R fr)"

lemma copy_range_spec:
  assumes d: "buf_live d" "data d = Some m" and b: "buf_live b" and p: "offset d + int p + len b \<le> capacity d"
  shows "\<exists>d'. buf_copy_range d (int p) b 0 (len b) = Some (True, d') \<and> buf_live d'
     \<and> data d' = Some (take (nat (offset d) + p) m @ buf_content b @ drop (nat (offset d) + p + length (buf_content b)) m)
     \<and> offset d' = offset d \<and> capacity d' = capacity d \<and> len d' = max (len d) (int p + len b)"
proof -
  from b obtain mb where mb: "data b = Some mb" "buf_wf b" by (auto simp: buf_live_def)
  note wb = buf_wf_Some [OF mb(2,1)]
  have wd: "0 \<le> offset d" "0 \<le> len d" "offset d + len d \<le> capacity d" "capacity d = int (length m)" "capacity d < BUF_SIZE_MAX"
    using d by (auto simp: buf_live_def buf_wf_def)
  have lb: "int (length (buf_content b)) = len b" by (rule length_buf_content [OF mb(2)])
  have rd: "mem_read mb (offset b) (len b) = Some (buf_content b)"
    using wb mb by (simp add: mem_read_def buf_content_def slice_def)
  have pos: "nat (offset d + int p) = nat (offset d) + p" using wd(1) by simp
  have st: "buf_store d (offset d + int p) (buf_content b) =
      Some (d\<lparr>data := Some (take (nat (offset d) + p) m @ buf_content b @ drop (nat (offset d) + p + length (buf_content b)) m)\<rparr>)"
    using buf_store_in_range [OF d(2), of "offset d + int p" "buf_content b"] wd p lb pos by simp
  let ?m = "take (nat (offset d) + p) m @ buf_content b @ drop (nat (offset d) + p + length (buf_content b)) m"
  have lm: "length ?m = length m" using wd p lb by auto
  show ?thesis
    using mb wb wd p lb rd st lm unfolding buf_copy_range_def
    by (auto simp: buf_live_def buf_wf_def max_def)
qed

lemma mask_bit: "bit FRAG_MAP_MASK i \<longleftrightarrow> i < 32"
proof -
  have eq: "FRAG_MAP_MASK = - 1" by (simp add: FRAG_MAP_MASK_def)
  show ?thesis unfolding eq by (simp add: bit_simps)
qed

lemma slot_bits:
  assumes "i < 32" "k < frag_count n s" "frag_count n s \<le> 32"
    and "bit mp i \<longleftrightarrow> (if Suc i < frag_count n s then i \<in> R else frag_count n s - 1 \<in> R)"
  shows "bit (mp OR push_bit k (if Suc k = frag_count n s then FRAG_MAP_MASK else 1)) i \<longleftrightarrow>
     (if Suc i < frag_count n s then i \<in> insert k R else frag_count n s - 1 \<in> insert k R)"
proof -
  have "bit (push_bit k (if Suc k = frag_count n s then FRAG_MAP_MASK else 1)) i \<longleftrightarrow>
      (if Suc k = frag_count n s then k \<le> i else i = k)"
    using assms(1) by (auto simp: bit_simps mask_bit)
  then show ?thesis using assms(2,4) by (auto simp: bit_or_iff)
qed

lemma slot_write:
  assumes cut: "cut_ok D s" "k < frag_count (length D) s" and rdy: "slot_ready hr D s R fr" and hr: "0 \<le> hr"
    and b: "buf_live b" "buf_content b = payload D s k"
  shows "\<exists>b'. buf_copy_range (fr_buf fr) (int (k * s)) b 0 (len b) = Some (True, b')
     \<and> slot_ready hr D s (insert k R) (fr\<lparr>fr_buf := b', fr_timestamp := now,
         fr_map := fr_map fr OR push_bit k (if Suc k = frag_count (length D) s then FRAG_MAP_MASK else 1)\<rparr>)"
proof -
  let ?d = "fr_buf fr" and ?p = "payload D s k"
  have s: "0 < s" using cut(1) by (simp add: cut_ok_def)
  have lb: "len b = int (length ?p)" using length_buf_content [of b] b by (simp add: buf_live_def)
  from rdy obtain m where d: "buf_live ?d" "data ?d = Some m" "offset ?d = hr" "hr + int (length D) \<le> capacity ?d"
    by (auto simp: slot_ready_def buf_live_def)
  have cap: "capacity ?d = int (length m)" using d by (auto simp: buf_live_def buf_wf_def)
  note fit = payload_fits [OF s cut(2)]
  have "offset ?d + int (k * s) + len b \<le> capacity ?d" using d(3,4) fit lb by linarith
  from copy_range_spec [OF d(1,2) b(1) this] obtain b' where
    b': "buf_copy_range ?d (int (k * s)) b 0 (len b) = Some (True, b')" "buf_live b'"
      "data b' = Some (take (nat hr + k * s) m @ ?p @ drop (nat hr + k * s + length ?p) m)"
      "offset b' = hr" "capacity b' = capacity ?d" "len b' = max (len ?d) (int (k * s) + int (length ?p))"
    using b(2) d(3) lb by auto
  have bytes: "the (data b') ! (nat hr + j) = D ! j" if j: "j < length D" "j div s \<in> insert k R" for j
  proof (cases "j div s = k")
    case True
    note pn = payload_nth [OF s j(1) True]
    have "length (take (nat hr + k * s) m) = nat hr + k * s" using cap d(4) fit hr by simp
    with pn show ?thesis using b'(3) by (simp add: nth_append)
  next
    case False
    then have old: "m ! (nat hr + j) = D ! j" using rdy j d(2) by (simp add: slot_ready_def)
    have "j < k * s \<or> k * s + length ?p \<le> j"
    proof (rule ccontr)
      assume a: "\<not> ?thesis"
      then have "j < k * s + s" "k * s \<le> j" by (auto simp: length_payload)
      then have "j div s = k" using s by (intro div_nat_eqI) (auto simp: algebra_simps)
      with False show False by simp
    qed
    moreover have "nat hr + j < length m" using cap d(4) j(1) hr by linarith
    ultimately show ?thesis using old b'(3) cap d(4) fit hr
      by (auto simp: nth_append min_def less_diff_conv algebra_simps)
  qed
  have bits: "bit (fr_map fr OR push_bit k (if Suc k = frag_count (length D) s then FRAG_MAP_MASK else 1)) i \<longleftrightarrow>
      (if Suc i < frag_count (length D) s then i \<in> insert k R else frag_count (length D) s - 1 \<in> insert k R)" if "i < 32" for i
    by (rule slot_bits) (use that cut rdy in \<open>auto simp: cut_ok_def slot_ready_def\<close>)
  have "int (k * s) + int (length ?p) \<le> int (length D)" using fit by linarith
  then have "len b' \<le> int (length D)" using b'(6) rdy by (simp add: slot_ready_def)
  moreover have "int (j * s + length (payload D s j)) \<le> len b'" if "j \<in> insert k R" for j
    using that b'(6) rdy by (auto simp: slot_ready_def)
  ultimately show ?thesis using b'(1,2,4,5) d(4) rdy bytes bits by (auto simp: slot_ready_def)
qed

lemma slot_complete:
  assumes cut: "cut_ok D s" and rdy: "slot_ready hr D s R fr" and R: "R \<subseteq> {..<frag_count (length D) s}" and hr: "0 \<le> hr"
  shows "fr_map fr AND FRAG_MAP_MASK = FRAG_MAP_MASK \<longleftrightarrow> R = {..<frag_count (length D) s}"
    "R = {..<frag_count (length D) s} \<Longrightarrow> buf_content (fr_buf fr) = D"
proof -
  let ?c = "frag_count (length D) s"
  have s: "0 < s" "?c \<le> 32" "0 < length D" using cut by (auto simp: cut_ok_def)
  have c0: "0 < ?c" using frag_count_less [OF s(1), of 0 "length D"] s(3) by simp
  have "fr_map fr AND FRAG_MAP_MASK = FRAG_MAP_MASK \<longleftrightarrow> (\<forall>i < 32. bit (fr_map fr) i)"
    by (auto simp: bit_eq_iff bit_and_iff mask_bit)
  also have "\<dots> \<longleftrightarrow> R = {..<?c}"
  proof
    assume all: "\<forall>i < 32. bit (fr_map fr) i"
    have "i \<in> R" if "i < ?c" for i
    proof -
      have "bit (fr_map fr) i \<longleftrightarrow> (if Suc i < ?c then i \<in> R else ?c - 1 \<in> R)"
        using rdy that s(2) by (simp add: slot_ready_def)
      moreover have "bit (fr_map fr) i" using all that s(2) by simp
      moreover have "?c - 1 = i" if "\<not> Suc i < ?c" using that \<open>i < ?c\<close> by simp
      ultimately show ?thesis by (auto split: if_splits)
    qed
    with R show "R = {..<?c}" by auto
  next
    assume "R = {..<?c}"
    then show "\<forall>i < 32. bit (fr_map fr) i" using rdy c0 by (auto simp: slot_ready_def)
  qed
  finally show "fr_map fr AND FRAG_MAP_MASK = FRAG_MAP_MASK \<longleftrightarrow> R = {..<?c}" .
  assume full: "R = {..<?c}"
  from rdy obtain m where d: "buf_wf (fr_buf fr)" "data (fr_buf fr) = Some m" "offset (fr_buf fr) = hr"
    by (auto simp: slot_ready_def buf_live_def)
  have "?c - 1 \<in> R" using full c0 by simp
  then have "int ((?c - 1) * s + length (payload D s (?c - 1))) \<le> len (fr_buf fr)"
    using rdy unfolding slot_ready_def by blast
  moreover have "(?c - 1) * s + length (payload D s (?c - 1)) = length D" by (rule payload_last [OF s(1)]) (use c0 in simp)
  ultimately have "int (length D) \<le> len (fr_buf fr)" by (simp only:)
  then have len: "len (fr_buf fr) = int (length D)" using rdy by (simp add: slot_ready_def)
  note w = buf_wf_Some [OF d(1,2)]
  have cont: "buf_content (fr_buf fr) = take (length D) (drop (nat hr) m)"
    using d len by (simp add: buf_content_def slice_def)
  have "buf_content (fr_buf fr) ! j = D ! j" if "j < length D" for j
  proof -
    have "j div s \<in> R" using full frag_count_less [OF s(1), of "j div s" "length D"] that s(1)
      by (auto intro: le_less_trans [OF div_times_less_eq_dividend])
    with rdy that d(2) have "m ! (nat hr + j) = D ! j" by (auto simp: slot_ready_def)
    moreover have "nat hr + j < length m" using w d(3) len that hr by linarith
    ultimately show ?thesis using that cont by simp
  qed
  moreover have "length (buf_content (fr_buf fr)) = length D" using length_buf_content [OF d(1)] len by simp
  ultimately show "buf_content (fr_buf fr) = D" by (simp add: nth_equalityI)
qed

lemma slot_start:
  assumes "slot_inv hr D s R fr" "0 \<le> hr"
  shows "\<exists>fr'. (if \<not> fr_defined fr \<or> fr_max_frag_size fr \<noteq> int s then
             (case buf_init_dowork (fr_buf fr) hr of (ok, b) \<Rightarrow> do {
                c_assert ok;
                Some (fr\<lparr>fr_defined := True, fr_max_frag_size := int s, fr_map := 0, fr_buf := b\<rparr>) })
           else Some fr) = Some fr' \<and> slot_ready hr D s R fr'"
proof (cases "R = {}")
  case True
  with assms have fr: "\<not> fr_defined fr" "buf_live (fr_buf fr)" "hr + int (length D) \<le> capacity (fr_buf fr)"
    by (auto simp: slot_inv_def)
  from buf_init_spec [of "fr_buf fr" hr] fr assms(2) obtain b where
    "buf_init_dowork (fr_buf fr) hr = (True, b)" "buf_live b" "offset b = hr" "capacity b = capacity (fr_buf fr)" "len b = 0"
    by (auto simp: buf_live_def)
  with fr True show ?thesis by (simp add: slot_ready_def)
next
  case False
  with assms show ?thesis by (simp add: slot_inv_def slot_ready_def)
qed

lemma join_step:
  assumes cut: "cut_ok D s" "k < frag_count (length D) s" and hr: "0 \<le> fb_headroom frame"
    and l: "settled (fm_incoming f) q i" "0 \<le> q" "q < 256"
    and slot: "slot_inv (fb_headroom frame) D s R (fl_fragments (fm_incoming f) ! i)" "R \<subseteq> {..<frag_count (length D) s}"
    and b: "buf_live b" "buf_content b = payload D s k"
  shows "\<exists>fr b'. fragment_join now frame f b (part_type D s k) (fragment_flags (part_type D s k) q (int k) (int s))
       = Some (set_fragment i fr f, b')
     \<and> (if insert k R = {..<frag_count (length D) s} then buf_content b' = D \<and> buf_live b' \<and> \<not> fr_defined fr
        else len b' = 0 \<and> slot_inv (fb_headroom frame) D s (insert k R) fr)"
proof -
  let ?t = "part_type D s k" and ?c = "frag_count (length D) s"
  have s: "0 < s" "s mod 4 = 0" "s < 65536" "?c \<le> 32" using cut(1) by (auto simp: cut_ok_def)
  have t: "?t = FRAG_YES_NOTLAST \<or> ?t = FRAG_YES_LAST" by (simp add: part_type_def)
  have "int s mod 4 = 0" using s(2) zmod_int [of s 4] by simp
  have "0 \<le> int k" "int k < 32" "0 \<le> int s" "int s < 65536" using cut(2) s(3,4) by auto
  note dec = flags_decode [OF t l(2,3) this \<open>int s mod 4 = 0\<close>]
  have n: "uint (drop_bit FRAG_ID_SHIFT (fragment_flags ?t q (int k) (int s)) AND FRAG_ID_MASK) = int k"
    "uint (drop_bit FRAG_SEQ_ID_SHIFT (fragment_flags ?t q (int k) (int s)) AND FRAG_SEQ_ID_MASK) = q"
    by (rule dec(3), rule dec(2))
  have lb: "len b = int (length (payload D s k))" using length_buf_content [of b] b by (simp add: buf_live_def)
  have last: "?t = FRAG_YES_LAST \<longleftrightarrow> Suc k = ?c" by (auto simp: part_type_def frag_consts)
  have sz: "(if ?t = FRAG_YES_LAST then uint (push_bit FRAG_SIZE_ROUND_SHIFT
        (drop_bit FRAG_SIZE_SHIFT (fragment_flags ?t q (int k) (int s)) AND FRAG_SIZE_MASK)) else len b) = int s"
  proof (cases "Suc k = ?c")
    case True
    with last dec(4) show ?thesis by simp
  next
    case False
    with cut(2) payload_length_inner [OF s(1), of k D] last lb show ?thesis by simp
  qed
  have al: "int s AND FRAG_SIZE_ROUND_MASK = 0"
  proof -
    have "int s AND mask 2 = int s mod 4" by (simp add: take_bit_eq_mask [symmetric] take_bit_eq_mod)
    then show ?thesis using \<open>int s mod 4 = 0\<close> by (simp add: FRAG_SIZE_ROUND_MASK_def mask_eq_exp_minus_1)
  qed
  note gb = settled_get_buf [OF l(1)]
  from slot_start [OF slot(1) hr] obtain fr1 where
    fr1: "(if \<not> fr_defined (fl_fragments (fm_incoming f) ! i) \<or> fr_max_frag_size (fl_fragments (fm_incoming f) ! i) \<noteq> int s then
             (case buf_init_dowork (fr_buf (fl_fragments (fm_incoming f) ! i)) (fb_headroom frame) of (ok, b) \<Rightarrow> do {
                c_assert ok;
                Some ((fl_fragments (fm_incoming f) ! i)\<lparr>fr_defined := True, fr_max_frag_size := int s, fr_map := 0, fr_buf := b\<rparr>) })
           else Some (fl_fragments (fm_incoming f) ! i)) = Some fr1" "slot_ready (fb_headroom frame) D s R fr1" by blast
  from slot_write [OF cut fr1(2) hr b, of now] obtain b1 where
    b1: "buf_copy_range (fr_buf fr1) (int (k * s)) b 0 (len b) = Some (True, b1)"
      "slot_ready (fb_headroom frame) D s (insert k R) (fr1\<lparr>fr_buf := b1, fr_timestamp := now,
         fr_map := fr_map fr1 OR push_bit k (if Suc k = ?c then FRAG_MAP_MASK else 1)\<rparr>)" by blast
  let ?mp = "fr_map fr1 OR push_bit k (if Suc k = ?c then FRAG_MAP_MASK else 1)"
  let ?fr = "fr1\<lparr>fr_buf := b1, fr_map := ?mp, fr_timestamp := now\<rparr>"
  have upd: "fr1\<lparr>fr_buf := b1, fr_timestamp := now, fr_map := ?mp\<rparr> = ?fr" by simp
  note cmp = slot_complete [OF cut(1) b1(2) [unfolded upd] _ hr]
  have "insert k R \<subseteq> {..<?c}" using cut(2) slot(2) by auto
  note cmp = cmp [OF this]
  have same: "f\<lparr>fm_incoming := fm_incoming f\<rparr> = f" by simp
  have eq: "fragment_join now frame f b ?t (fragment_flags ?t q (int k) (int s)) =
     (if ?mp AND FRAG_MAP_MASK = FRAG_MAP_MASK
      then Some (set_fragment i (?fr\<lparr>fr_defined := False\<rparr>) f, b1) else Some (set_fragment i ?fr f, b\<lparr>len := 0\<rparr>))"
    unfolding fragment_join_def Let_def n sz gb same
    using al fr1(1) b1(1) last by (simp add: Let_def)
  show ?thesis
  proof (cases "insert k R = {..<?c}")
    case True
    then have "?mp AND FRAG_MAP_MASK = FRAG_MAP_MASK" using cmp(1) by simp
    with eq cmp(2) True b1(2) show ?thesis by (auto simp: slot_ready_def)
  next
    case False
    then have "?mp AND FRAG_MAP_MASK \<noteq> FRAG_MAP_MASK" using cmp(1) by simp
    with eq False b1(2) upd show ?thesis by (auto simp: slot_inv_def)
  qed
qed

lemma join_settle:
  assumes "uint (drop_bit FRAG_SEQ_ID_SHIFT flags AND FRAG_SEQ_ID_MASK) = q"
    and "fragment_list_get_buf (fm_incoming f) q = Some (i, l)" "settled l q i"
  shows "fragment_join now frame f b t flags = fragment_join now frame (f\<lparr>fm_incoming := l\<rparr>) b t flags"
  unfolding fragment_join_def assms(1) using assms(2) settled_get_buf [OF assms(3)] by simp

lemma incoming_read:
  assumes cut: "cut_ok D s" "k < frag_count (length D) s" and q: "0 \<le> q" "q < 256"
    and b: "buf_live b" "buf_content b = part D s q k"
  shows "\<exists>b1. buf_live b1 \<and> buf_content b1 = payload D s k
     \<and> (\<forall>now frame f. fragment_incoming now frame f b =
         fragment_join now frame f b1 (part_type D s k) (fragment_flags (part_type D s k) q (int k) (int s)))"
proof -
  let ?t = "part_type D s k" and ?fl = "fragment_flags (part_type D s k) q (int k) (int s)"
  have t: "?t = FRAG_YES_NOTLAST \<or> ?t = FRAG_YES_LAST" by (simp add: part_type_def)
  have "0 < len b" using length_buf_content [of b] b by (simp add: buf_live_def part_def)
  moreover from wire.get_ok [OF b(1), of "be32 ?fl" "payload D s k"] b(2) obtain b1 where
    b1: "buf_read b 4 = Some (Some (be32 ?fl), b1)" "buf_live b1" "buf_content b1 = payload D s k" by (auto simp: part_def)
  moreover have "int s mod 4 = 0" "int k < 32" "int s < 65536" using cut zmod_int [of s 4] by (auto simp: cut_ok_def)
  then have "drop_bit FRAG_TYPE_SHIFT ?fl AND FRAG_TYPE_MASK = ?t" by (intro flags_decode(1) [OF t q]) simp_all
  moreover have "?t \<noteq> FRAG_WHOLE" using t by (auto simp: frag_consts)
  ultimately show ?thesis using t by (intro exI [of _ b1]) (auto simp: fragment_incoming_def Let_def)
qed

lemma incoming_part:
  assumes cut: "cut_ok D s" "k < frag_count (length D) s" and q: "0 \<le> q" "q < 256"
    and b: "buf_live b" "buf_content b = part D s q k"
  shows "\<exists>b1. buf_live b1 \<and> buf_content b1 = payload D s k
     \<and> fragment_incoming now frame f b =
         fragment_join now frame f b1 (part_type D s k) (fragment_flags (part_type D s k) q (int k) (int s))"
  using incoming_read [OF assms] by blast

lemma incoming_settle:
  assumes cut: "cut_ok D s" "k < frag_count (length D) s" and q: "0 \<le> q" "q < 256"
    and b: "buf_live b" "buf_content b = part D s q k"
    and l: "fragment_list_get_buf (fm_incoming f) q = Some (i, l)" "settled l q i"
  shows "fragment_incoming now frame f b = fragment_incoming now frame (f\<lparr>fm_incoming := l\<rparr>) b"
proof -
  let ?t = "part_type D s k" and ?fl = "fragment_flags (part_type D s k) q (int k) (int s)"
  have t: "?t = FRAG_YES_NOTLAST \<or> ?t = FRAG_YES_LAST" by (simp add: part_type_def)
  have "int s mod 4 = 0" "int k < 32" "int s < 65536" using cut zmod_int [of s 4] by (auto simp: cut_ok_def)
  then have sq: "uint (drop_bit FRAG_SEQ_ID_SHIFT ?fl AND FRAG_SEQ_ID_MASK) = q" by (intro flags_decode(2) [OF t q]) simp_all
  note join = join_settle [where now = now and frame = frame and f = f, OF sq l]
  show ?thesis using incoming_read [OF cut q b] join by (metis (no_types, lifting))
qed

text \<open>A receiver that is handed a sequence of datagrams.\<close>

fun receive_all :: "int \<Rightarrow> frame \<Rightarrow> fragment_master \<Rightarrow> buffer list \<Rightarrow> (fragment_master \<times> buffer list) option" where
  "receive_all now frame f [] = Some (f, [])"
| "receive_all now frame f (b # bs) = do {
     (f, r) \<leftarrow> fragment_incoming now frame f b;
     (f, rs) \<leftarrow> receive_all now frame f bs;
     Some (f, r # rs) }"

lemma receive_parts:
  assumes cut: "cut_ok D s" and hr: "0 \<le> fb_headroom frame" and q: "0 \<le> q" "q < 256"
    and "list_all2 (\<lambda>b k. buf_live b \<and> buf_content b = part D s q k) bs ks"
    and "settled (fm_incoming f) q i" "slot_inv (fb_headroom frame) D s R (fl_fragments (fm_incoming f) ! i)"
    and "R \<union> set ks \<subset> {..<frag_count (length D) s}"
  shows "\<exists>f' rs. receive_all now frame f bs = Some (f', rs) \<and> (\<forall>r \<in> set rs. len r = 0)
     \<and> settled (fm_incoming f') q i \<and> slot_inv (fb_headroom frame) D s (R \<union> set ks) (fl_fragments (fm_incoming f') ! i)"
  using assms(5-)
proof (induction bs ks arbitrary: f R rule: list_all2_induct)
  case (Cons b bs k ks)
  have k: "k < frag_count (length D) s" "R \<subseteq> {..<frag_count (length D) s}" using Cons.prems(3) by auto
  from incoming_part [OF cut k(1) q] Cons.hyps(1) obtain b1 where
    b1: "buf_live b1" "buf_content b1 = payload D s k" "fragment_incoming now frame f b =
         fragment_join now frame f b1 (part_type D s k) (fragment_flags (part_type D s k) q (int k) (int s))" by blast
  have ne: "insert k R \<noteq> {..<frag_count (length D) s}" using Cons.prems(3) by auto
  from join_step [OF cut k(1) hr Cons.prems(1) q Cons.prems(2) k(2) b1(1,2), of now] ne obtain fr b' where
    j: "fragment_incoming now frame f b = Some (set_fragment i fr f, b')" "len b' = 0"
      "slot_inv (fb_headroom frame) D s (insert k R) fr" using b1(3) by auto
  let ?f = "set_fragment i fr f"
  have st: "settled (fm_incoming ?f) q i" using settled_update [OF Cons.prems(1)] by (simp add: set_fragment_def)
  have sl: "fl_fragments (fm_incoming ?f) ! i = fr"
    using settled_slot [OF Cons.prems(1)] by (simp add: set_fragment_def)
  from Cons.IH [OF st, of "insert k R"] j(3) sl Cons.prems(3) obtain f' rs where
    "receive_all now frame ?f bs = Some (f', rs)" "\<forall>r \<in> set rs. len r = 0" "settled (fm_incoming f') q i"
    "slot_inv (fb_headroom frame) D s (insert k R \<union> set ks) (fl_fragments (fm_incoming f') ! i)" by auto
  with j show ?case by (intro exI [of _ f'] exI [of _ "b' # rs"]) simp
qed simp

lemma receive_all_append:
  "receive_all now frame f (bs @ [b]) = do {
     (f, rs) \<leftarrow> receive_all now frame f bs; (f, r) \<leftarrow> fragment_incoming now frame f b; Some (f, rs @ [r]) }"
proof (induction bs arbitrary: f)
  case (Cons x bs)
  show ?case by (cases "fragment_incoming now frame f x") (auto simp: Cons.IH split: Option.bind_splits)
qed (simp split: Option.bind_splits)

text \<open>The receiver completes the datagram with the last missing part.\<close>

lemma reassembly:
  assumes cut: "cut_ok D s" and hr: "0 \<le> fb_headroom frame" and q: "0 \<le> q" "q < 256"
    and parts: "list_all2 (\<lambda>b k. buf_live b \<and> buf_content b = part D s q k) (bs @ [b]) (ks @ [k])"
    and order: "set ks \<subset> {..<frag_count (length D) s}" "insert k (set ks) = {..<frag_count (length D) s}"
    and slot: "settled (fm_incoming f) q i" "slot_inv (fb_headroom frame) D s {} (fl_fragments (fm_incoming f) ! i)"
  shows "\<exists>f' rs r. receive_all now frame f (bs @ [b]) = Some (f', rs @ [r]) \<and> (\<forall>x \<in> set rs. len x = 0)
     \<and> buf_content r = D \<and> list_wf (fm_incoming f')"
proof -
  have p: "list_all2 (\<lambda>b k. buf_live b \<and> buf_content b = part D s q k) bs ks" "buf_live b" "buf_content b = part D s q k"
    using parts list_all2_append [OF list_all2_lengthD [of _ bs ks]] list_all2_lengthD [OF parts]
    by (auto simp: list_all2_append)
  have "{} \<union> set ks \<subset> {..<frag_count (length D) s}" using order(1) by simp
  from receive_parts [OF cut hr q p(1) slot this, of now] obtain f1 rs where
    r: "receive_all now frame f bs = Some (f1, rs)" "\<forall>x \<in> set rs. len x = 0" "settled (fm_incoming f1) q i"
      "slot_inv (fb_headroom frame) D s (set ks) (fl_fragments (fm_incoming f1) ! i)" by auto
  have k: "k < frag_count (length D) s" using order(2) by auto
  from incoming_part [OF cut k q p(2,3)] obtain b1 where
    b1: "buf_live b1" "buf_content b1 = payload D s k" "fragment_incoming now frame f1 b =
         fragment_join now frame f1 b1 (part_type D s k) (fragment_flags (part_type D s k) q (int k) (int s))" by blast
  from join_step [OF cut k hr r(3) q r(4) _ b1(1,2), of now] order obtain fr b' where
    j: "fragment_incoming now frame f1 b = Some (set_fragment i fr f1, b')" "buf_content b' = D" using b1(3) by auto
  moreover have "list_wf (fm_incoming (set_fragment i fr f1))" using r(3) by (simp add: settled_def list_wf_def set_fragment_def)
  ultimately show ?thesis using r(1,2) by (intro exI [of _ "set_fragment i fr f1"] exI [of _ rs] exI [of _ b']) (simp add: receive_all_append)
qed

section \<open>Sending the parts\<close>

text \<open>Sending the parts that are left, until \<^verbatim>\<open>fragment_ready_to_send\<close> reports none.\<close>

fun drain :: "nat \<Rightarrow> frame \<Rightarrow> fragment_master \<Rightarrow> buffer \<Rightarrow> (fragment_master \<times> buffer list) option" where
  "drain 0 frame f buf = None"
| "drain (Suc n) frame f buf = do {
     (ready, f, buf) \<leftarrow> fragment_ready_to_send frame f buf;
     (if ready then do { (f, bs) \<leftarrow> drain n frame f buf; Some (f, buf # bs) } else Some (f, [])) }"

definition send_datagram :: "frame \<Rightarrow> fragment_master \<Rightarrow> buffer \<Rightarrow> (fragment_master \<times> buffer list) option" where
  "send_datagram frame f buf = do {
     (f, b) \<leftarrow> fragment_outgoing frame f buf;
     (f, bs) \<leftarrow> drain 33 frame f b;
     Some (f, b # bs) }"

definition sender_room :: "frame \<Rightarrow> nat \<Rightarrow> fragment_master \<Rightarrow> bool" where
  "sender_room frame s f \<longleftrightarrow> 4 \<le> fb_headroom frame \<and> buf_live (fm_outgoing f) \<and> buf_live (fm_outgoing_return f)
     \<and> fb_headroom frame + int s \<le> capacity (fm_outgoing_return f)"

text \<open>The sender before part \<open>k\<close>.\<close>

definition sending :: "frame \<Rightarrow> bytes \<Rightarrow> nat \<Rightarrow> int \<Rightarrow> nat \<Rightarrow> fragment_master \<Rightarrow> bool" where
  "sending frame D s q k f \<longleftrightarrow> sender_room frame s f \<and> buf_content (fm_outgoing f) = drop (k * s) D
     \<and> fm_outgoing_frag_id f = int k \<and> fm_outgoing_frag_size f = int s \<and> fm_outgoing_seq_id f = q"

lemma ready_to_send_part:
  assumes s: "0 < s" and k: "k < frag_count (length D) s" and snd: "sending frame D s q k f"
  shows "\<exists>f' b. fragment_ready_to_send frame f buf = Some (True, f', b) \<and> buf_live b \<and> buf_content b = part D s q k
     \<and> sending frame D s q (Suc k) f' \<and> fm_incoming f' = fm_incoming f"
proof -
  let ?o = "fm_outgoing f" and ?r = "fm_outgoing_return f" and ?p = "payload D s k"
  from snd have o: "buf_live ?o" "buf_content ?o = drop (k * s) D" and r: "buf_live ?r" "4 \<le> fb_headroom frame"
    "fb_headroom frame + int s \<le> capacity ?r" by (auto simp: sending_def sender_room_def)
  have lo: "len ?o = int (length D - k * s)" using length_buf_content [of ?o] o by (simp add: buf_live_def)
  have pos: "k * s < length D" using frag_count_less [OF s] k by simp
  have last: "len ?o \<le> int s \<longleftrightarrow> Suc k = frag_count (length D) s"
    unfolding lo of_nat_le_iff using frag_count_less [OF s, of "Suc k" "length D"] k pos by auto
  have sz: "(if len ?o \<le> int s then len ?o else int s) = int (length ?p)"
  proof -
    have "(if int x \<le> int s then int x else int s) = int (min s x)" for x by (simp add: min_def)
    from this [of "length D - k * s"] show ?thesis unfolding lo length_payload .
  qed
  from buf_init_spec [of ?r "fb_headroom frame"] r s obtain b1 where
    b1: "buf_init_dowork ?r (fb_headroom frame) = (True, b1)" "buf_live b1" "buf_content b1 = []"
      "offset b1 = fb_headroom frame" "capacity b1 = capacity ?r" "len b1 = 0" by (auto simp: buf_live_def)
  have cut: "drop (k * s) D = ?p @ drop (Suc k * s) D"
  proof -
    have "drop (Suc k * s) D = drop s (drop (k * s) D)" by (simp add: add.commute)
    then show ?thesis unfolding payload_def by (simp only: append_take_drop_id)
  qed
  have fits: "int (length ?p) \<le> len ?o" unfolding lo length_payload of_nat_le_iff by simp
  have "buf_wf ?o" "data ?o \<noteq> None" using o(1) by (auto simp: buf_live_def)
  from buf_read_spec [OF this(1) _ _ this(2), of "int (length ?p)"] fits obtain o1 where
    o1: "buf_read ?o (int (length ?p)) = Some (Some (take (length ?p) (buf_content ?o)), o1)" "buf_wf o1"
      "buf_content o1 = drop (length ?p) (buf_content ?o)" "data o1 = data ?o" "capacity o1 = capacity ?o"
      "len o1 = len ?o - int (length ?p)"
    by (metis nat_int of_nat_0_le_iff)
  have o1c: "take (length ?p) (buf_content ?o) = ?p" "buf_content o1 = drop (Suc k * s) D"
    unfolding o1(3) o(2) cut by simp_all
  have lp: "length ?p \<le> s" by (simp add: length_payload)
  have room: "length ?p \<le> buf_room b1" using b1 r(3) lp by (simp add: buf_room_def)
  from wire.put_ok [OF b1(2) room] b1(3) obtain b2 where
    b2: "buf_write b1 ?p = Some (True, b2)" "buf_live b2" "buf_content b2 = ?p" "buf_headroom b2 = buf_headroom b1" by auto
  have cap2: "capacity b2 = capacity ?r" using buf_write_spec [of b1 ?p] b1 b2(1) by (auto simp: buf_live_def)
  have cn: "buf_copy_n b1 ?o (int (length ?p)) = Some (True, b2, o1)"
    using o1(1) b2(1) o1c(1) unfolding buf_copy_n_def buf_read_def
    by (auto split: prod.splits option.splits simp: bind_eq_Some_conv)
  have head: "4 \<le> buf_headroom b2" using b2(4) b1(4) r(2) by (simp add: buf_headroom_def le_nat_iff)
  let ?hd = "be32 (fragment_flags (part_type D s k) q (int k) (int s))"
  from wire.push_ok [OF b2(2), of ?hd] head obtain b3 where
    b3: "buf_write_prepend b2 ?hd = Some (True, b3)" "buf_live b3" "buf_content b3 = ?hd @ ?p" using b2(3) by auto
  have cap3: "capacity b3 = capacity ?r"
    using b3(1) cap2 by (auto simp: Let_def buf_write_prepend_def buf_prepend_def buf_store_def bind_eq_Some_conv split: prod.splits option.splits if_splits)
  let ?f = "f\<lparr>fm_outgoing := o1, fm_outgoing_frag_id := int k + 1, fm_outgoing_return := ?r\<lparr>data := data b3\<rparr>\<rparr>"
  have "fragment_ready_to_send frame f buf = Some (True, ?f, b3)"
  proof -
    have "fragment_outgoing_defined f" unfolding fragment_outgoing_defined_def lo of_nat_0_less_iff using pos by simp
    moreover have "\<not> len ?o \<le> int s \<or> len o1 = 0"
      using o1(6) sz by auto
    moreover have "(if len ?o \<le> int s then FRAG_YES_LAST else FRAG_YES_NOTLAST) = part_type D s k"
      using last by (simp add: part_type_def)
    ultimately show ?thesis
      using snd sz b1(1) cn b3(1)
      by (cases "len ?o \<le> int s") (auto simp: fragment_ready_to_send_def fragment_prepend_flags_def sending_def Let_def)
  qed
  moreover have "buf_live (?r\<lparr>data := data b3\<rparr>)"
    using r(1) b3(2) cap3 by (auto simp: buf_live_def buf_wf_def)
  then have "sending frame D s q (Suc k) ?f"
    using snd o1 o1c r o by (simp add: sending_def sender_room_def buf_live_def)
  ultimately show ?thesis using b3 by (intro exI [of _ ?f] exI [of _ b3]) (simp add: part_def)
qed

lemma drain_parts:
  assumes s: "0 < s" and "sending frame D s q k f" "frag_count (length D) s - k < n" "k \<le> frag_count (length D) s"
  shows "\<exists>f' bs. drain n frame f buf = Some (f', bs) \<and> fm_incoming f' = fm_incoming f
     \<and> list_all2 (\<lambda>b k. buf_live b \<and> buf_content b = part D s q k) bs [k..<frag_count (length D) s]"
  using assms(2-)
proof (induction n arbitrary: k f buf)
  case (Suc n)
  show ?case
  proof (cases "k < frag_count (length D) s")
    case True
    from ready_to_send_part [OF s True Suc.prems(1)] obtain f1 b where
      b: "fragment_ready_to_send frame f buf = Some (True, f1, b)" "buf_live b" "buf_content b = part D s q k"
        "sending frame D s q (Suc k) f1" "fm_incoming f1 = fm_incoming f" by blast
    have le: "frag_count (length D) s - Suc k < n" "Suc k \<le> frag_count (length D) s" using Suc.prems(2) True by linarith+
    from Suc.IH [OF b(4) le, of b] obtain f' bs where
      "drain n frame f1 b = Some (f', bs)" "fm_incoming f' = fm_incoming f1"
      "list_all2 (\<lambda>b k. buf_live b \<and> buf_content b = part D s q k) bs [Suc k..<frag_count (length D) s]" by blast
    with b True show ?thesis by (intro exI [of _ f'] exI [of _ "b # bs"]) (simp add: upt_conv_Cons)
  next
    case False
    then have "\<not> k * s < length D" using frag_count_less [OF s] by simp
    then have "len (fm_outgoing f) = 0"
      using Suc.prems(1) length_buf_content [of "fm_outgoing f"] by (simp add: sending_def sender_room_def buf_live_def)
    then have "fragment_ready_to_send frame f buf = Some (False, f, buf)"
      by (simp add: fragment_ready_to_send_def fragment_outgoing_defined_def)
    with False show ?thesis by simp
  qed
qed simp

lemma frag_count_int:
  assumes "0 < s"
  shows "int (frag_count n s) = (int n + int s - 1) div int s"
proof -
  have "int (n + s - 1) = int n + int s - 1" using assms by simp
  then show ?thesis by (simp only: frag_count_def zdiv_int)
qed

lemma send_datagram_parts:
  assumes buf: "buf_live buf" "buf_content buf = D" "max_fragment_size frame < int (length D)"
    and m: "4 \<le> max_fragment_size frame" "max_fragment_size frame < 65536"
      "int (length D) \<le> 32 * (4 * (max_fragment_size frame div 4))"
    and f: "0 \<le> fm_outgoing_seq_id f" "fm_outgoing_seq_id f < 256"
    and room: "sender_room frame (nat (max_fragment_size frame)) f" "fb_headroom frame + int (length D) \<le> capacity (fm_outgoing f)"
  shows "\<exists>s f' bs. cut_ok D s \<and> send_datagram frame f buf = Some (f', bs)
     \<and> list_all2 (\<lambda>b k. buf_live b \<and> buf_content b = part D s ((fm_outgoing_seq_id f + 1) mod 256) k) bs [0..<frag_count (length D) s]"
proof -
  let ?q = "(fm_outgoing_seq_id f + 1) mod 256" and ?M = "max_fragment_size frame"
  have lb: "len buf = int (length D)" using length_buf_content [of buf] buf by (simp add: buf_live_def)
  have L: "0 < int (length D)" using buf(3) m(1) by linarith
  obtain si where
    si: "optimal_fragment_size (int (length D)) ?M = Some si" "0 < si" "si \<le> ?M" "si mod 4 = 0"
      "(int (length D) + si - 1) div si = (int (length D) + 4 * (?M div 4) - 1) div (4 * (?M div 4))"
    using optimal_size [OF m(1) L] by (elim exE conjE) (rule that)
  define s where "s = nat si"
  have s: "0 < s" "int s = si" using si(2) by (auto simp: s_def)
  let ?a = "4 * (?M div 4)"
  have a: "0 < ?a" using m(1) by simp
  have "int (frag_count (length D) s) \<le> 32"
  proof -
    have "int (frag_count (length D) s) = (int (length D) + ?a - 1) div ?a" using frag_count_int [OF s(1)] s(2) si(5) by simp
    moreover have "(int (length D) + ?a - 1) div ?a \<le> (32 * ?a + ?a - 1) div ?a"
      by (rule zdiv_mono1) (use m(3) a in linarith)+
    moreover have "(32 * ?a + ?a - 1) div ?a = 32" by (rule int_div_pos_eq [of _ _ _ "?a - 1"]) (use a in auto)
    ultimately show ?thesis by linarith
  qed
  then have c: "frag_count (length D) s \<le> 32" by simp
  have cut: "cut_ok D s"
  proof -
    have "int s mod 4 = 0" using s(2) si(4) by simp
    then have "s mod 4 = 0" using zmod_int [of s 4] by simp
    moreover have "s < 65536" using s(2) si(3) m(2) by linarith
    ultimately show ?thesis using s(1) c L by (simp add: cut_ok_def)
  qed
  from buf_init_spec [of "fm_outgoing f" "fb_headroom frame"] room obtain o1 where
    o1: "buf_init_dowork (fm_outgoing f) (fb_headroom frame) = (True, o1)" "buf_live o1" "buf_content o1 = []"
      "offset o1 = fb_headroom frame" "capacity o1 = capacity (fm_outgoing f)" "len o1 = 0"
    by (auto simp: buf_live_def sender_room_def)
  have "length D \<le> buf_room o1" using o1 room(2) by (simp add: buf_room_def)
  from wire.put_ok [OF o1(2) this] o1(3) obtain o2 where
    o2: "buf_write o1 D = Some (True, o2)" "buf_live o2" "buf_content o2 = D" by auto
  have cp: "buf_copy o1 buf = Some (True, o2)" using o2(1) buf buf_bytes_content by (simp add: buf_copy_def buf_live_def)
  let ?f = "f\<lparr>fm_outgoing_frag_size := int s, fm_outgoing := o2, fm_outgoing_seq_id := ?q, fm_outgoing_frag_id := 0\<rparr>"
  have "sending frame D s ?q 0 ?f"
    using room o2 si(3) s(2) by (simp add: sending_def sender_room_def)
  moreover have "0 < frag_count (length D) s" using frag_count_less [OF s(1), of 0 "length D"] L by simp
  ultimately obtain f1 b where
    b: "fragment_ready_to_send frame ?f (buf\<lparr>len := 0\<rparr>) = Some (True, f1, b)" "buf_live b" "buf_content b = part D s ?q 0"
      "sending frame D s ?q (Suc 0) f1" using ready_to_send_part [OF s(1)] by blast
  have "\<not> 32 * s < length D" using frag_count_less [OF s(1), of 32 "length D"] c by simp
  then have "\<not> int (length D) > si * MAX_FRAGS" using s(2) by (simp add: MAX_FRAGS_def)
  moreover have "modulo_add (fm_outgoing_seq_id f) 1 N_SEQ_ID = Some ?q"
    using modulo_add_mod [of "fm_outgoing_seq_id f" N_SEQ_ID 1] f by (simp add: N_SEQ_ID_def)
  ultimately have out: "fragment_outgoing frame f buf = Some (f1, b)"
    using lb L buf(3) si(1) s(2) o1(1) cp b(1) by (simp add: fragment_outgoing_def)
  have "frag_count (length D) s - Suc 0 < 33" "Suc 0 \<le> frag_count (length D) s"
    using c \<open>0 < frag_count (length D) s\<close> by auto
  from drain_parts [OF s(1) b(4) this, of b] obtain f' bs where
    "drain 33 frame f1 b = Some (f', bs)"
    "list_all2 (\<lambda>b k. buf_live b \<and> buf_content b = part D s ?q k) bs [Suc 0..<frag_count (length D) s]" by blast
  with out b \<open>0 < frag_count (length D) s\<close> have "send_datagram frame f buf = Some (f', b # bs)"
    "list_all2 (\<lambda>b k. buf_live b \<and> buf_content b = part D s ?q k) (b # bs) [0..<frag_count (length D) s]"
    by (simp_all add: send_datagram_def upt_conv_Cons)
  with cut show ?thesis by blast
qed

section \<open>Properties\<close>

text \<open>the size chosen for the parts of a datagram is a positive multiple of four within the
  configured maximum and does not change the number of parts: as many parts of the chosen size as
  of the largest aligned size are needed for the whole datagram.\<close>

theorem optimal_fragment_size_correct:
  assumes "4 \<le> m" "0 < n"
  shows "\<exists>s. optimal_fragment_size n m = Some s \<and> 0 < s \<and> s \<le> m \<and> s mod 4 = 0
     \<and> (n + s - 1) div s = (n + 4 * (m div 4) - 1) div (4 * (m div 4))"
  by (rule optimal_size [OF assms])

theorem optimal_fragment_size_correct_witness:
  "\<exists>s. optimal_fragment_size 1500 1403 = Some s \<and> 0 < s \<and> s \<le> 1403 \<and> s mod 4 = 0 \<and> (1500 + s - 1) div s = 2"
  using optimal_fragment_size_correct [of 1403 1500] by simp


text \<open>A receiver with enough room in every reassembly buffer.\<close>

definition receiver_ok :: "frame \<Rightarrow> nat \<Rightarrow> fragment_master \<Rightarrow> bool" where
  "receiver_ok frame n f \<longleftrightarrow> list_wf (fm_incoming f)
     \<and> (\<forall>fr \<in> set (fl_fragments (fm_incoming f)). buf_live (fr_buf fr) \<and> fb_headroom frame + int n \<le> capacity (fr_buf fr))"

definition sender_ok :: "frame \<Rightarrow> nat \<Rightarrow> fragment_master \<Rightarrow> bool" where
  "sender_ok frame n f \<longleftrightarrow> 4 \<le> max_fragment_size frame \<and> max_fragment_size frame < 65536
     \<and> int n \<le> 32 * (4 * (max_fragment_size frame div 4)) \<and> 0 \<le> fm_outgoing_seq_id f \<and> fm_outgoing_seq_id f < 256
     \<and> sender_room frame (nat (max_fragment_size frame)) f \<and> fb_headroom frame + int n \<le> capacity (fm_outgoing f)"

text \<open>The first arrival moves the window; nothing else depends on where it was.\<close>

lemma receive_all_settle:
  assumes "cut_ok D s" "0 \<le> q" "q < 256" and bs: "list_all2 (\<lambda>b k. buf_live b \<and> buf_content b = part D s q k) bs ks" "bs \<noteq> []"
    and ks: "\<forall>k \<in> set ks. k < frag_count (length D) s"
    and l: "fragment_list_get_buf (fm_incoming g) q = Some (i, l)" "settled l q i"
  shows "receive_all now frame g bs = receive_all now frame (g\<lparr>fm_incoming := l\<rparr>) bs"
proof -
  from bs obtain b bs' j js where b: "bs = b # bs'" "ks = j # js" "buf_live b" "buf_content b = part D s q j"
    by (cases bs; cases ks) auto
  then have "fragment_incoming now frame g b = fragment_incoming now frame (g\<lparr>fm_incoming := l\<rparr>) b"
    using ks by (intro incoming_settle [OF assms(1) _ assms(2,3) b(3,4) l]) simp
  then show ?thesis by (simp add: b(1))
qed

text \<open>C13: fragmentation is undone by reassembly. A datagram larger than the fragment size is sent
  in parts; whatever the order in which the parts arrive, and however often each one does, a
  receiver whose slot for the sequence id is free delivers nothing until the last missing part and
  then exactly the datagram. No assertion fails on either side.\<close>

theorem fragment_roundtrip:
  assumes snd: "sender_ok frame (length D) f" and buf: "buf_live buf" "buf_content buf = D" "max_fragment_size frame < int (length D)"
    and rcv: "receiver_ok frame (length D) g"
      "\<forall>i l. fragment_list_get_buf (fm_incoming g) ((fm_outgoing_seq_id f + 1) mod 256) = Some (i, l) \<longrightarrow> \<not> fr_defined (fl_fragments l ! i)"
  shows "\<exists>f' parts. send_datagram frame f buf = Some (f', parts)
     \<and> (\<forall>ks k. set ks \<subset> {..<length parts} \<and> insert k (set ks) = {..<length parts} \<longrightarrow>
          (\<exists>g' rs r. receive_all now frame g (map (\<lambda>i. parts ! i) (ks @ [k])) = Some (g', rs @ [r])
             \<and> (\<forall>x \<in> set rs. len x = 0) \<and> buf_content r = D))"
proof -
  let ?q = "(fm_outgoing_seq_id f + 1) mod 256"
  have q: "0 \<le> ?q" "?q < 256" by auto
  from snd have room: "sender_room frame (nat (max_fragment_size frame)) f" by (simp add: sender_ok_def)
  then have hr: "0 \<le> fb_headroom frame" by (simp add: sender_room_def)
  from send_datagram_parts [OF buf _ _ _ _ _ room] snd obtain s f' parts where
    p: "cut_ok D s" "send_datagram frame f buf = Some (f', parts)"
      "list_all2 (\<lambda>b k. buf_live b \<and> buf_content b = part D s ?q k) parts [0..<frag_count (length D) s]"
    by (auto simp: sender_ok_def)
  have n: "length parts = frag_count (length D) s" using list_all2_lengthD [OF p(3)] by simp
  have nth: "buf_live (parts ! i) \<and> buf_content (parts ! i) = part D s ?q i" if "i < length parts" for i
    using list_all2_nthD [OF p(3) that] that n by simp
  from get_buf_settles [of "fm_incoming g" ?q] rcv(1) q obtain i l where
    l: "fragment_list_get_buf (fm_incoming g) ?q = Some (i, l)" "settled l ?q i"
      "map fr_buf (fl_fragments l) = map fr_buf (fl_fragments (fm_incoming g))" by (auto simp: receiver_ok_def N_SEQ_ID_def)
  have len: "length (fl_fragments l) = length (fl_fragments (fm_incoming g))" using arg_cong [OF l(3), of length] by simp
  have "fr_buf (fl_fragments l ! i) = fr_buf (fl_fragments (fm_incoming g) ! i)"
    using arg_cong [OF l(3), of "\<lambda>xs. xs ! i"] settled_slot [OF l(2)] len by simp
  then have slot: "slot_inv (fb_headroom frame) D s {} (fl_fragments l ! i)"
    using rcv l(1) settled_slot [OF l(2)] len by (auto simp: receiver_ok_def slot_inv_def)
  let ?g = "g\<lparr>fm_incoming := l\<rparr>"
  have "\<exists>g' rs r. receive_all now frame g (map (\<lambda>i. parts ! i) (ks @ [k])) = Some (g', rs @ [r])
             \<and> (\<forall>x \<in> set rs. len x = 0) \<and> buf_content r = D"
    if ks: "set ks \<subset> {..<length parts}" "insert k (set ks) = {..<length parts}" for ks k
  proof -
    let ?bs = "map (\<lambda>i. parts ! i) ks" and ?b = "parts ! k"
    have all: "j < length parts" if "j \<in> set (ks @ [k])" for j using ks that by auto
    have parts: "list_all2 (\<lambda>b k. buf_live b \<and> buf_content b = part D s ?q k) (?bs @ [?b]) (ks @ [k])"
      using all nth by (auto simp: list_all2_conv_all_nth nth_append less_Suc_eq)
    from reassembly [OF p(1) hr q parts, of ?g i now] ks n l(2) slot obtain g' rs r where
      r: "receive_all now frame ?g (?bs @ [?b]) = Some (g', rs @ [r])" "\<forall>x \<in> set rs. len x = 0" "buf_content r = D"
      by auto
    have "receive_all now frame g (?bs @ [?b]) = receive_all now frame ?g (?bs @ [?b])"
      by (rule receive_all_settle [OF p(1) q parts _ _ l(1,2)]) (use all n in auto)
    with r show ?thesis by (intro exI [of _ g'] exI [of _ rs] exI [of _ r]) simp
  qed
  with p(2) show ?thesis by blast
qed

text \<open>A small link: ten bytes in parts of at most nine, between two freshly initialised ends.\<close>

definition small_frame :: frame where
  "small_frame = \<lparr>fb_payload_size = 60, fb_headroom = 4, fb_tailroom = 0, mss_fix = 0, max_fragment_size = 9, tun_mtu = 60, tun_max_mtu = 60, extra_tun = 0\<rparr>"

definition small_datagram :: buffer where
  "small_datagram = \<lparr>capacity = 10, offset = 0, len = 10, data = Some [1, 2, 3, 4, 5, 6, 7, 8, 9, 10]\<rparr>"

definition small_end :: fragment_master where
  "small_end = the (fragment_frame_init (fragment_init 255 0) small_frame)"

theorem fragment_roundtrip_witness:
  "sender_ok small_frame 10 small_end \<and> receiver_ok small_frame 10 small_end
   \<and> (\<exists>f' parts. send_datagram small_frame small_end small_datagram = Some (f', parts)
     \<and> (\<forall>ks k. set ks \<subset> {..<length parts} \<and> insert k (set ks) = {..<length parts} \<longrightarrow>
          (\<exists>g' rs r. receive_all 5 small_frame small_end (map (\<lambda>i. parts ! i) (ks @ [k])) = Some (g', rs @ [r])
             \<and> (\<forall>x \<in> set rs. len x = 0) \<and> buf_content r = [1, 2, 3, 4, 5, 6, 7, 8, 9, 10])))"
proof (intro conjI)
  show snd: "sender_ok small_frame 10 small_end"
    by code_simp
  show rcv: "receiver_ok small_frame 10 small_end"
    by code_simp
  have q: "(fm_outgoing_seq_id small_end + 1) mod 256 = 0"
    "map_option (\<lambda>(i, l). fr_defined (fl_fragments l ! i)) (fragment_list_get_buf (fm_incoming small_end) 0) = Some False"
    by code_simp+
  have "buf_live small_datagram" "buf_content small_datagram = [1, 2, 3, 4, 5, 6, 7, 8, 9, 10]" "max_fragment_size small_frame < 10"
    by code_simp+
  then show "\<exists>f' parts. send_datagram small_frame small_end small_datagram = Some (f', parts)
     \<and> (\<forall>ks k. set ks \<subset> {..<length parts} \<and> insert k (set ks) = {..<length parts} \<longrightarrow>
          (\<exists>g' rs r. receive_all 5 small_frame small_end (map (\<lambda>i. parts ! i) (ks @ [k])) = Some (g', rs @ [r])
             \<and> (\<forall>x \<in> set rs. len x = 0) \<and> buf_content r = [1, 2, 3, 4, 5, 6, 7, 8, 9, 10]))"
    using snd rcv q
    by (intro fragment_roundtrip [of small_frame "[1, 2, 3, 4, 5, 6, 7, 8, 9, 10]" small_end small_datagram small_end 5]) (auto simp: eval_nat_numeral)
qed

text \<open>the test for spurious bits in the header of an unfragmented datagram applies the masks of
  the sequence id and of the fragment id without shifting them to their places. A header that
  carries any fragment id, or a sequence id that is a multiple of 64, passes it and the datagram is
  delivered.\<close>

theorem whole_check_flaw:
  assumes buf: "buf_live buf"
    "buf_content buf = be32 (push_bit FRAG_ID_SHIFT i OR push_bit FRAG_SEQ_ID_SHIFT (push_bit 6 j)) @ P"
  shows "\<exists>b'. fragment_incoming now frame f buf = Some (f, b') \<and> buf_content b' = P"
proof -
  let ?fl = "push_bit FRAG_ID_SHIFT i OR push_bit FRAG_SEQ_ID_SHIFT (push_bit 6 j) :: u32"
  have m: "FRAG_SEQ_ID_MASK OR FRAG_ID_MASK = mask 8" by (simp add: frag_consts mask_eq_exp_minus_1)
  have "?fl AND (FRAG_SEQ_ID_MASK OR FRAG_ID_MASK) = 0" "drop_bit FRAG_TYPE_SHIFT ?fl AND FRAG_TYPE_MASK = FRAG_WHOLE"
    unfolding m unfolding frag_consts frag_masks by (rule bit_word_eqI, auto simp: bit_simps)+
  moreover from wire.get_ok [OF buf(1), of "be32 ?fl" P] buf(2) obtain b1 where
    "buf_read buf 4 = Some (Some (be32 ?fl), b1)" "buf_content b1 = P" by auto
  moreover have "0 < len buf" using length_buf_content [of buf] buf by (simp add: buf_live_def)
  ultimately show ?thesis by (auto simp: fragment_incoming_def Let_def)
qed

theorem whole_check_flaw_witness:
  "\<exists>b'. fragment_incoming 0 small_frame small_end
       \<lparr>capacity = 5, offset = 0, len = 5, data = Some [0, 0, 0x0d, 0, 7]\<rparr> = Some (small_end, b') \<and> buf_content b' = [7]"
proof (rule whole_check_flaw [of _ 3 1 "[7]"])
  show "buf_live \<lparr>capacity = 5, offset = 0, len = 5, data = Some [0, 0, 0x0d, 0, 7]\<rparr>" by code_simp
  show "buf_content \<lparr>capacity = 5, offset = 0, len = 5, data = Some [0, 0, 0x0d, 0, 7]\<rparr>
     = be32 (push_bit FRAG_ID_SHIFT 3 OR push_bit FRAG_SEQ_ID_SHIFT (push_bit 6 1)) @ [7]" by code_simp
qed

end
