(* ===== verification/Reliable.thy ===== *)
theory Reliable
  imports Buffer Integer_Util
begin

text \<open>
  The reliability layer of the control channel: \<^verbatim>\<open>openvpn/src/openvpn/reliable.c\<close>,
  \<^verbatim>\<open>reliable.h\<close> and \<^verbatim>\<open>session_id.h\<close>. Outgoing packets wait in an array until acknowledged and are
  retransmitted with exponential back-off; incoming packets wait until every earlier one has
  been delivered; acknowledgements are collected and sent with the most recently used ones
  repeated.

  \<^verbatim>\<open>packet_id_type\<close> is 32 bits wide. A \<^verbatim>\<open>struct reliable_ack\<close> is the list of its first \<open>len\<close> ids, the
  array of a \<^verbatim>\<open>struct reliable\<close> the list of its first \<open>size\<close> entries; a pointer to the buffer of an
  entry is the index of the entry.
\<close>

section \<open>Session ids\<close>

type_synonym session_id = bytes

definition SID_SIZE :: nat where "SID_SIZE = 8"

definition session_id_equal :: "session_id \<Rightarrow> session_id \<Rightarrow> bool" where
  "session_id_equal sid1 sid2 \<longleftrightarrow> sid1 = sid2"

definition session_id_defined :: "session_id \<Rightarrow> bool" where
  "session_id_defined sid \<longleftrightarrow> sid \<noteq> replicate SID_SIZE 0"

definition session_id_read :: "buffer \<Rightarrow> (session_id option \<times> buffer) option" where
  "session_id_read buf = buf_read buf (int SID_SIZE)"

definition session_id_write_prepend :: "session_id \<Rightarrow> buffer \<Rightarrow> (bool \<times> buffer) option" where
  "session_id_write_prepend sid buf = buf_write_prepend buf sid"

definition session_id_write :: "session_id \<Rightarrow> buffer \<Rightarrow> (bool \<times> buffer) option" where
  "session_id_write sid buf = buf_write buf sid"

section \<open>Packet id arithmetic\<close>

definition RELIABLE_ACK_SIZE :: nat where "RELIABLE_ACK_SIZE = 8"
definition RELIABLE_CAPACITY :: int where "RELIABLE_CAPACITY = 12"
definition N_ACK_RETRANSMIT :: nat where "N_ACK_RETRANSMIT = 3"
definition BIG_TIMEOUT :: int where "BIG_TIMEOUT = 60 * 60 * 24 * 7"

definition subtract_pid :: "u32 \<Rightarrow> u32 \<Rightarrow> u32" where
  "subtract_pid test base = test - base"

definition reliable_pid_in_range1 :: "u32 \<Rightarrow> u32 \<Rightarrow> u32 \<Rightarrow> bool" where
  "reliable_pid_in_range1 test base extent \<longleftrightarrow> subtract_pid test base < extent"

definition reliable_pid_in_range2 :: "u32 \<Rightarrow> u32 \<Rightarrow> u32 \<Rightarrow> bool" where
  "reliable_pid_in_range2 test base extent \<longleftrightarrow>
     (if base + extent \<ge> base then test < base + extent
      else test + 0x80000000 < (base + 0x80000000) + extent)"

definition reliable_pid_min :: "u32 \<Rightarrow> u32 \<Rightarrow> bool" where
  "reliable_pid_min p1 p2 \<longleftrightarrow> \<not> reliable_pid_in_range1 p1 p2 0x80000000"

section \<open>Acknowledgements\<close>

type_synonym reliable_ack = "u32 list"

definition reliable_ack_packet_id_present :: "reliable_ack \<Rightarrow> u32 \<Rightarrow> bool" where
  "reliable_ack_packet_id_present ack pid \<longleftrightarrow> pid \<in> set ack"

definition reliable_ack_empty :: "reliable_ack \<Rightarrow> bool" where
  "reliable_ack_empty ack \<longleftrightarrow> length ack = 0"

definition reliable_ack_outstanding :: "reliable_ack \<Rightarrow> int" where
  "reliable_ack_outstanding ack = int (length ack)"

definition reliable_ack_read_packet_id :: "buffer \<Rightarrow> (u32 option \<times> buffer) option" where
  "reliable_ack_read_packet_id buf = do { (r, buf) \<leftarrow> buf_read buf 4; Some (map_option rd32 r, buf) }"

definition reliable_ack_acknowledge_packet_id :: "reliable_ack \<Rightarrow> u32 \<Rightarrow> bool \<times> reliable_ack" where
  "reliable_ack_acknowledge_packet_id ack pid =
     (if \<not> reliable_ack_packet_id_present ack pid \<and> length ack < RELIABLE_ACK_SIZE
      then (True, ack @ [pid]) else (False, ack))"

text \<open>The loop of \<^verbatim>\<open>reliable_ack_parse\<close>: \<open>count\<close> more ids to read. The first component is the success flag.\<close>

fun ack_parse_ids :: "nat \<Rightarrow> reliable_ack \<Rightarrow> buffer \<Rightarrow> (bool \<times> reliable_ack \<times> buffer) option" where
  "ack_parse_ids 0 ack buf = Some (True, ack, buf)"
| "ack_parse_ids (Suc n) ack buf = do {
     (r, buf) \<leftarrow> buf_read buf 4;
     (case r of
        None \<Rightarrow> Some (False, ack, buf)
      | Some bs \<Rightarrow> if length ack \<ge> RELIABLE_ACK_SIZE then Some (False, ack, buf)
                   else ack_parse_ids n (ack @ [rd32 bs]) buf)
   }"

definition reliable_ack_parse ::
    "buffer \<Rightarrow> session_id \<Rightarrow> (bool \<times> reliable_ack \<times> session_id \<times> buffer) option" where
  "reliable_ack_parse buf sid0 = do {
     (r, buf) \<leftarrow> buf_read buf 1;
     (case r of
        None \<Rightarrow> Some (False, [], sid0, buf)
      | Some bs \<Rightarrow> do {
          let count = hd bs;
          (ok, ack, buf) \<leftarrow> ack_parse_ids (unat count) [] buf;
          (if \<not> ok then Some (False, ack, sid0, buf)
           else if count \<noteq> 0 then do {
             (r, buf) \<leftarrow> session_id_read buf;
             Some (case r of None \<Rightarrow> (False, ack, sid0, buf) | Some sid \<Rightarrow> (True, ack, sid, buf)) }
           else Some (True, ack, sid0, buf)) })
   }"

text \<open>\<open>junk\<close> is the uninitialised \<^verbatim>\<open>session_id_remote\<close> of the caller.\<close>

definition reliable_ack_read ::
    "session_id \<Rightarrow> buffer \<Rightarrow> session_id \<Rightarrow> (bool \<times> reliable_ack \<times> buffer) option" where
  "reliable_ack_read junk buf sid = do {
     (ok, ack, remote, buf) \<leftarrow> reliable_ack_parse buf junk;
     Some (if \<not> ok then (False, ack, buf)
           else if length ack \<ge> 1 \<and> (\<not> session_id_defined remote \<or> \<not> session_id_equal remote sid)
           then (False, ack, buf) else (True, ack, buf))
   }"

text \<open>
  One round of \<^verbatim>\<open>copy_acks_to_mru\<close>: the inner loop moves entries to the right until it meets the
  old position of \<open>id\<close>; the second component is the entry pushed out, if \<open>id\<close> was not met.
\<close>

fun mru_shift :: "u32 \<Rightarrow> u32 \<Rightarrow> u32 list \<Rightarrow> u32 list \<times> u32 option" where
  "mru_shift i move [] = ([], Some move)"
| "mru_shift i move (x # xs) =
     (if x = i then (move # xs, None)
      else let (ys, out) = mru_shift i x xs in (move # ys, out))"

definition mru_insert :: "u32 \<Rightarrow> reliable_ack \<Rightarrow> reliable_ack" where
  "mru_insert i ack_mru =
     (let ack_mru = (if ack_mru = [] then [i] else ack_mru) in
      case mru_shift i i ack_mru of
        (ys, None) \<Rightarrow> ys
      | (ys, Some move) \<Rightarrow> if length ys < RELIABLE_ACK_SIZE then ys @ [move] else ys)"

definition copy_acks_to_mru :: "reliable_ack \<Rightarrow> reliable_ack \<Rightarrow> int \<Rightarrow> reliable_ack option" where
  "copy_acks_to_mru ack ack_mru n = do {
     c_assert (int (length ack) \<ge> n);
     Some (foldr mru_insert (take (nat n) ack) ack_mru)
   }"

definition ACK_SIZE :: "nat \<Rightarrow> int" where
  "ACK_SIZE n = 1 + (if n \<noteq> 0 then int SID_SIZE else 0) + 4 * int n"

fun ack_write_ids :: "reliable_ack \<Rightarrow> buffer \<Rightarrow> buffer option" where
  "ack_write_ids [] sub = Some sub"
| "ack_write_ids (pid # pids) sub = do {
     (ok, sub) \<leftarrow> buf_write sub (be32 pid);
     c_assert ok;
     ack_write_ids pids sub
   }"

definition reliable_ack_write ::
    "reliable_ack \<Rightarrow> reliable_ack \<Rightarrow> buffer \<Rightarrow> session_id \<Rightarrow> int \<Rightarrow> bool
       \<Rightarrow> (bool \<times> reliable_ack \<times> reliable_ack \<times> buffer) option" where
  "reliable_ack_write ack ack_mru buf sid mx prepend = do {
     let n = (if int (length ack) > mx then mx else int (length ack));
     ack_mru \<leftarrow> copy_acks_to_mru ack ack_mru n;
     let total_acks = (word_of_int (min_int mx (int (length ack_mru))) :: u8);
     (p, sub, buf) \<leftarrow> buf_sub buf (ACK_SIZE (unat total_acks)) prepend;
     (case p of
        None \<Rightarrow> Some (False, ack, ack_mru, buf)
      | Some p \<Rightarrow> do {
          (ok, sub) \<leftarrow> buf_write_u8 sub total_acks;
          c_assert ok;
          c_assert (unat total_acks \<le> length ack_mru);
          sub \<leftarrow> ack_write_ids (take (unat total_acks) ack_mru) sub;
          sub \<leftarrow> (if total_acks \<noteq> 0 then do {
                   c_assert (session_id_defined sid);
                   (ok, sub) \<leftarrow> session_id_write sid sub;
                   c_assert ok;
                   Some sub }
                 else Some sub);
          buf \<leftarrow> buf_sub_sync buf p sub;
          Some (True, (if n \<noteq> 0 then drop (nat n) ack else ack), ack_mru, buf) })
   }"

section \<open>Packet arrays\<close>

record reliable_entry =
  e_active :: bool
  e_timeout :: int
  e_next_try :: int
  e_packet_id :: u32
  e_n_acks :: nat
  e_opcode :: int
  e_buf :: buffer

record reliable =
  r_initial_timeout :: int
  r_packet_id :: u32
  r_offset :: int
  r_hold :: bool
  r_array :: "reliable_entry list"

abbreviation r_size :: "reliable \<Rightarrow> u32" where
  "r_size rel \<equiv> of_nat (length (r_array rel))"

text \<open>\<open>None\<close> where an allocation or assertion fails.\<close>

definition reliable_init :: "nat \<Rightarrow> int \<Rightarrow> int \<Rightarrow> bool \<Rightarrow> reliable option" where
  "reliable_init buf_size off array_size hold = do {
     c_assert (array_size > 0 \<and> array_size \<le> RELIABLE_CAPACITY);
     b \<leftarrow> alloc_buf buf_size;
     let (ok, b) = buf_init_dowork b off;
     c_assert ok;
     let e = \<lparr>e_active = False, e_timeout = 0, e_next_try = 0, e_packet_id = 0, e_n_acks = 0, e_opcode = 0, e_buf = b\<rparr>;
     Some \<lparr>r_initial_timeout = 0, r_packet_id = 0, r_offset = off, r_hold = hold,
           r_array = replicate (nat array_size) e\<rparr>
   }"

definition reliable_free :: "reliable \<Rightarrow> reliable" where
  "reliable_free rel = rel\<lparr>r_array := map (\<lambda>e. e\<lparr>e_buf := free_buf (e_buf e)\<rparr>) (r_array rel)\<rparr>"

definition reliable_empty :: "reliable \<Rightarrow> bool" where
  "reliable_empty rel \<longleftrightarrow> (\<forall>e \<in> set (r_array rel). \<not> e_active e)"

definition purge_entry :: "u32 \<Rightarrow> reliable_entry \<Rightarrow> reliable_entry" where
  "purge_entry pid e =
     (if e_active e \<and> e_packet_id e = pid then e\<lparr>e_active := False\<rparr>
      else if e_active e \<and> e_packet_id e < pid then e\<lparr>e_n_acks := e_n_acks e + 1\<rparr>
      else e)"

definition reliable_send_purge :: "reliable \<Rightarrow> reliable_ack \<Rightarrow> reliable" where
  "reliable_send_purge rel ack = fold (\<lambda>pid rel. rel\<lparr>r_array := map (purge_entry pid) (r_array rel)\<rparr>) ack rel"

definition reliable_can_get :: "reliable \<Rightarrow> bool" where
  "reliable_can_get rel \<longleftrightarrow> (\<exists>e \<in> set (r_array rel). \<not> e_active e)"

definition reliable_not_replay :: "reliable \<Rightarrow> u32 \<Rightarrow> bool" where
  "reliable_not_replay rel i \<longleftrightarrow> \<not> reliable_pid_min i (r_packet_id rel)
     \<and> \<not> (\<exists>e \<in> set (r_array rel). e_active e \<and> e_packet_id e = i)"

definition reliable_wont_break_sequentiality :: "reliable \<Rightarrow> u32 \<Rightarrow> bool" where
  "reliable_wont_break_sequentiality rel i = reliable_pid_in_range2 i (r_packet_id rel) (r_size rel)"

text \<open>First index of the array with a property, as the search loops find it.\<close>

fun find_idx :: "('a \<Rightarrow> bool) \<Rightarrow> 'a list \<Rightarrow> nat option" where
  "find_idx P [] = None"
| "find_idx P (x # xs) = (if P x then Some 0 else map_option Suc (find_idx P xs))"

definition upd_entry :: "nat \<Rightarrow> (reliable_entry \<Rightarrow> reliable_entry) \<Rightarrow> reliable \<Rightarrow> reliable" where
  "upd_entry i f rel = rel\<lparr>r_array := (r_array rel)[i := f (r_array rel ! i)]\<rparr>"

definition reliable_get_buf :: "reliable \<Rightarrow> (nat option \<times> reliable) option" where
  "reliable_get_buf rel =
     (case find_idx (\<lambda>e. \<not> e_active e) (r_array rel) of
        None \<Rightarrow> Some (None, rel)
      | Some i \<Rightarrow> do {
          let (ok, b) = buf_init_dowork (e_buf (r_array rel ! i)) (r_offset rel);
          c_assert ok;
          Some (Some i, upd_entry i (\<lambda>e. e\<lparr>e_buf := b\<rparr>) rel) })"

text \<open>The loop that finds the smallest active id.\<close>

fun min_active :: "reliable_entry list \<Rightarrow> u32 option \<Rightarrow> u32 option" where
  "min_active [] m = m"
| "min_active (e # es) m = min_active es
     (if e_active e
      then (case m of None \<Rightarrow> Some (e_packet_id e)
            | Some k \<Rightarrow> if reliable_pid_min (e_packet_id e) k then Some (e_packet_id e) else m)
      else m)"

text \<open>\<^verbatim>\<open>ret -= subtract_pid(...)\<close> computes in unsigned arithmetic and converts back to \<^verbatim>\<open>int\<close>.\<close>

definition reliable_get_num_output_sequenced_available :: "reliable \<Rightarrow> int" where
  "reliable_get_num_output_sequenced_available rel =
     (case min_active (r_array rel) None of
        None \<Rightarrow> int (length (r_array rel))
      | Some m \<Rightarrow> sint (r_size rel - subtract_pid (r_packet_id rel) m))"

definition reliable_get_buf_output_sequenced :: "reliable \<Rightarrow> (nat option \<times> reliable) option" where
  "reliable_get_buf_output_sequenced rel =
     (case min_active (r_array rel) None of
        None \<Rightarrow> reliable_get_buf rel
      | Some m \<Rightarrow> if reliable_pid_in_range1 (r_packet_id rel) m (r_size rel)
                  then reliable_get_buf rel else Some (None, rel))"

definition reliable_get_entry_sequenced :: "reliable \<Rightarrow> nat option" where
  "reliable_get_entry_sequenced rel =
     find_idx (\<lambda>e. e_active e \<and> e_packet_id e = r_packet_id rel) (r_array rel)"

definition reliable_can_send :: "int \<Rightarrow> reliable \<Rightarrow> bool" where
  "reliable_can_send now rel \<longleftrightarrow>
     length (filter (\<lambda>e. e_active e \<and> (now \<ge> e_next_try e \<or> e_n_acks e \<ge> N_ACK_RETRANSMIT)) (r_array rel)) > 0
     \<and> \<not> r_hold rel"

text \<open>The loop of \<^verbatim>\<open>reliable_send\<close>: the best entry so far by index and id.\<close>

fun send_best :: "int \<Rightarrow> nat \<Rightarrow> reliable_entry list \<Rightarrow> (nat \<times> u32) option \<Rightarrow> (nat \<times> u32) option" where
  "send_best now i [] best = best"
| "send_best now i (e # es) best = send_best now (Suc i) es
     (if e_active e \<and> (e_n_acks e \<ge> N_ACK_RETRANSMIT \<or> now \<ge> e_next_try e)
      then (case best of None \<Rightarrow> Some (i, e_packet_id e)
            | Some (_, k) \<Rightarrow> if reliable_pid_min (e_packet_id e) k then Some (i, e_packet_id e) else best)
      else best)"

definition reliable_send :: "int \<Rightarrow> reliable \<Rightarrow> (nat \<times> int) option \<times> reliable" where
  "reliable_send now rel =
     (case send_best now 0 (r_array rel) None of
        None \<Rightarrow> (None, rel)
      | Some (i, _) \<Rightarrow>
          (Some (i, e_opcode (r_array rel ! i)),
           upd_entry i (\<lambda>e. e\<lparr>e_next_try := now + e_timeout e, e_timeout := e_timeout e * 2, e_n_acks := 0\<rparr>) rel))"

definition reliable_schedule_now :: "int \<Rightarrow> reliable \<Rightarrow> reliable" where
  "reliable_schedule_now now rel = rel\<lparr>r_hold := False, r_array :=
     map (\<lambda>e. if e_active e then e\<lparr>e_next_try := now, e_timeout := r_initial_timeout rel\<rparr> else e) (r_array rel)\<rparr>"

fun send_timeout_loop :: "int \<Rightarrow> reliable_entry list \<Rightarrow> int \<Rightarrow> int" where
  "send_timeout_loop now [] ret = ret"
| "send_timeout_loop now (e # es) ret =
     (if e_active e
      then (if e_next_try e \<le> now then 0 else send_timeout_loop now es (min_int ret (e_next_try e - now)))
      else send_timeout_loop now es ret)"

definition reliable_send_timeout :: "int \<Rightarrow> reliable \<Rightarrow> int" where
  "reliable_send_timeout now rel = send_timeout_loop now (r_array rel) BIG_TIMEOUT"

definition reliable_mark_active_incoming :: "reliable \<Rightarrow> nat \<Rightarrow> u32 \<Rightarrow> int \<Rightarrow> reliable option" where
  "reliable_mark_active_incoming rel i pid opcode = do {
     c_assert (i < length (r_array rel));
     c_assert (\<not> reliable_pid_min pid (r_packet_id rel));
     Some (upd_entry i (\<lambda>e. e\<lparr>e_active := True, e_packet_id := pid, e_opcode := opcode, e_next_try := 0,
                              e_timeout := 0, e_n_acks := 0\<rparr>) rel)
   }"

definition reliable_mark_active_outgoing :: "reliable \<Rightarrow> nat \<Rightarrow> int \<Rightarrow> reliable option" where
  "reliable_mark_active_outgoing rel i opcode = do {
     c_assert (i < length (r_array rel));
     let pid = r_packet_id rel;
     (ok, b) \<leftarrow> buf_write_prepend (e_buf (r_array rel ! i)) (be32 pid);
     c_assert ok;
     Some (upd_entry i (\<lambda>e. e\<lparr>e_packet_id := pid, e_buf := b, e_active := True, e_opcode := opcode,
                              e_next_try := 0, e_timeout := r_initial_timeout rel\<rparr>)
             (rel\<lparr>r_packet_id := pid + 1\<rparr>))
   }"

definition reliable_mark_deleted :: "reliable \<Rightarrow> nat \<Rightarrow> reliable option" where
  "reliable_mark_deleted rel i = do {
     c_assert (i < length (r_array rel));
     Some (upd_entry i (\<lambda>e. e\<lparr>e_active := False\<rparr>)
             (rel\<lparr>r_packet_id := e_packet_id (r_array rel ! i) + 1\<rparr>))
   }"

section \<open>Acknowledgement records\<close>

lemma mru_shift_spec:
  "mru_shift i move xs =
     (if i \<in> set xs then (move # remove1 i xs, None) else (butlast (move # xs), Some (last (move # xs))))"
proof (induction xs arbitrary: move)
  case (Cons x xs)
  then show ?case by (cases xs) auto
qed simp

text \<open>One round moves the id to the front; an overfull list loses its last entry.\<close>

lemma mru_insert_spec:
  assumes "length xs \<le> RELIABLE_ACK_SIZE"
  shows "mru_insert i xs = take RELIABLE_ACK_SIZE (i # remove1 i xs)"
proof (cases "xs = []")
  case True
  then show ?thesis by (simp add: mru_insert_def RELIABLE_ACK_SIZE_def)
next
  case False
  show ?thesis
  proof (cases "i \<in> set xs")
    case True
    with False assms length_pos_if_in_set [OF True] show ?thesis
      by (simp add: mru_insert_def mru_shift_spec length_remove1)
  next
    case no: False
    then have r: "remove1 i xs = xs" by (rule remove1_idem)
    show ?thesis
    proof (cases "length xs < RELIABLE_ACK_SIZE")
      case True
      with False no r show ?thesis
        by (simp add: mru_insert_def mru_shift_spec Let_def append_butlast_last_id del: butlast.simps last.simps)
    next
      case full: False
      with assms have "length xs = RELIABLE_ACK_SIZE" by simp
      with False no r show ?thesis
        by (simp add: mru_insert_def mru_shift_spec Let_def butlast_conv_take del: butlast.simps last.simps)
    qed
  qed
qed

lemma length_mru_insert: "length xs \<le> RELIABLE_ACK_SIZE \<Longrightarrow> length (mru_insert i xs) \<le> RELIABLE_ACK_SIZE"
  by (simp add: mru_insert_spec)

lemma remove1_take_distinct:
  "distinct xs \<Longrightarrow> remove1 i xs = filter (\<lambda>x. x \<noteq> i) xs"
  by (induction xs) (auto intro!: filter_True [symmetric])

lemma take_filter_neq:
  "distinct xs \<Longrightarrow> take n (filter (\<lambda>x. x \<noteq> a) (take (Suc n) xs)) = take n (filter (\<lambda>x. x \<noteq> a) xs)"
proof (induction xs arbitrary: n)
  case (Cons x xs)
  show ?case
  proof (cases "x = a")
    case True
    with Cons.prems have "\<forall>y \<in> set xs. y \<noteq> a" by auto
    then have "filter (\<lambda>x. x \<noteq> a) xs = xs" "filter (\<lambda>x. x \<noteq> a) (take n xs) = take n xs"
      by (auto intro!: filter_True dest: in_set_takeD)
    with True show ?thesis by simp
  next
    case False
    with Cons show ?thesis by (cases n) simp_all
  qed
qed simp

text \<open>
  The whole loop: the new acknowledgements in their order, then the older ones that are not
  among them, cut at the capacity.
\<close>

lemma copy_acks_spec:
  assumes "distinct as" "distinct xs" "length xs \<le> RELIABLE_ACK_SIZE"
  shows "foldr mru_insert as xs = take RELIABLE_ACK_SIZE (as @ filter (\<lambda>x. x \<notin> set as) xs)"
  using assms(1)
proof (induction as)
  case Nil
  then show ?case using assms by simp
next
  case (Cons a as)
  let ?l = "as @ filter (\<lambda>x. x \<notin> set as) xs"
  have d: "distinct ?l" using Cons.prems assms(2) by auto
  have "foldr mru_insert (a # as) xs = take (Suc 7) (a # remove1 a (take (Suc 7) ?l))"
    using Cons by (simp add: mru_insert_spec RELIABLE_ACK_SIZE_def)
  also have "\<dots> = a # take 7 (filter (\<lambda>x. x \<noteq> a) ?l)"
    using take_filter_neq [OF d, of 7 a] distinct_take [OF d, of 8] by (simp add: remove1_take_distinct)
  also have "filter (\<lambda>x. x \<noteq> a) ?l = as @ filter (\<lambda>x. x \<notin> set (a # as)) xs"
    using Cons.prems by (auto intro!: filter_True simp: conj_commute)
  finally show ?case by (simp add: RELIABLE_ACK_SIZE_def)
qed

text \<open>Reserving a region of a buffer, filling it and writing it back is a plain write of the bytes.\<close>

lemma buf_sub_fill:
  assumes b: "buf_live b" and n: "0 < length bs" "length bs \<le> (if prepend then buf_headroom b else buf_room b)"
  shows "\<exists>p sub b1. buf_sub b (int (length bs)) prepend = Some (Some p, sub, b1) \<and> buf_live sub \<and> buf_content sub = []
     \<and> buf_room sub = length bs \<and> buf_headroom sub = 0
     \<and> (\<forall>sub'. data sub' = Some bs \<longrightarrow> (\<exists>b2. buf_sub_sync b1 p sub' = Some b2 \<and> buf_live b2
          \<and> buf_content b2 = (if prepend then bs @ buf_content b else buf_content b @ bs)))"
proof -
  let ?n = "int (length bs)"
  obtain m where m: "data b = Some m" "buf_wf b" using b by (auto simp: buf_live_def)
  note w = buf_wf_Some [OF m(2,1)]
  let ?r = "if prepend then buf_prepend b ?n else buf_write_alloc b ?n"
  have wr: "\<exists>b2. (if prepend then buf_write_prepend b bs else buf_write b bs) = Some (True, b2) \<and> buf_live b2
      \<and> buf_content b2 = (if prepend then bs @ buf_content b else buf_content b @ bs)"
    using wire.push_ok [OF b, of bs] wire.put_ok [OF b, of bs] n(2) by (cases prepend) auto
  then obtain b2 where b2: "(if prepend then buf_write_prepend b bs else buf_write b bs) = Some (True, b2)"
    "buf_live b2" "buf_content b2 = (if prepend then bs @ buf_content b else buf_content b @ bs)" by blast
  from b2(1) obtain p b1 where r: "?r = (Some p, b1)" "buf_store b1 p bs = Some b2"
    by (auto simp: buf_write_prepend_def buf_write_def bind_eq_Some_conv split: if_splits prod.splits option.splits)
  have d1: "data b1 = Some m" using r(1) m(1)
    by (auto simp: buf_prepend_def buf_write_alloc_def Let_def split: if_splits)
  then have "0 \<le> p" "p + ?n \<le> int (length m)" using r(2) by (auto simp: buf_store_def mem_write_def bind_eq_Some_conv split: if_splits)
  then have rd: "mem_read m p ?n = Some (take (length bs) (drop (nat p) m))" "length (take (length bs) (drop (nat p) m)) = length bs"
    by (auto simp: mem_read_def)
  let ?sub = "\<lparr>capacity = ?n, offset = 0, len = 0, data = Some (take (length bs) (drop (nat p) m))\<rparr>"
  have "buf_sub b ?n prepend = Some (Some p, ?sub, b1)" using r(1) d1 rd by (simp add: buf_sub_def)
  moreover have "buf_live ?sub" "buf_content ?sub = []" "buf_room ?sub = length bs" "buf_headroom ?sub = 0"
    using rd(2) w n by (auto simp: buf_live_def buf_wf_def buf_content_def buf_room_def buf_headroom_def split: if_splits)
  ultimately show ?thesis using b2 r(2) by (auto simp: buf_sub_sync_def)
qed

definition ack_bytes :: "u32 list \<Rightarrow> session_id \<Rightarrow> bytes" where
  "ack_bytes ids sid = [of_nat (length ids)] @ concat (map be32 ids) @ (if ids = [] then [] else sid)"

lemma length_concat_be32: "length (concat (map be32 ids)) = 4 * length ids"
  by (induction ids) auto

lemma length_ack_bytes: "length sid = SID_SIZE \<Longrightarrow> int (length (ack_bytes ids sid)) = ACK_SIZE (length ids)"
  by (simp add: ack_bytes_def ACK_SIZE_def SID_SIZE_def length_concat_be32)

lemma ack_bytes_short:
  assumes "length sid = SID_SIZE" "length ids \<le> RELIABLE_ACK_SIZE"
  shows "length (ack_bytes ids sid) \<le> 41"
  using length_ack_bytes [OF assms(1), of ids] assms(2)
  by (simp add: ACK_SIZE_def SID_SIZE_def RELIABLE_ACK_SIZE_def split: if_splits)

lemma ack_write_ids_spec:
  assumes "buf_live sub" "4 * length ids \<le> buf_room sub"
  shows "\<exists>sub'. ack_write_ids ids sub = Some sub' \<and> buf_live sub' \<and> buf_content sub' = buf_content sub @ concat (map be32 ids)
     \<and> buf_room sub' = buf_room sub - 4 * length ids \<and> buf_headroom sub' = buf_headroom sub"
  using assms
proof (induction ids arbitrary: sub)
  case (Cons i ids)
  from wire.put_ok [OF Cons.prems(1), of "be32 i"] Cons.prems(2) obtain s1 where
    s1: "buf_write sub (be32 i) = Some (True, s1)" "buf_live s1" "buf_content s1 = buf_content sub @ be32 i"
      "buf_room s1 = buf_room sub - 4" "buf_headroom s1 = buf_headroom sub" by auto
  from Cons.IH [OF s1(2)] s1 Cons.prems(2) show ?case by auto
qed simp

lemma ack_parse_ids_spec:
  assumes "buf_live buf" "buf_content buf = concat (map be32 ids) @ rest" "length acc + length ids \<le> RELIABLE_ACK_SIZE"
  shows "\<exists>buf'. ack_parse_ids (length ids) acc buf = Some (True, acc @ ids, buf') \<and> buf_live buf' \<and> buf_content buf' = rest"
  using assms
proof (induction ids arbitrary: acc buf)
  case (Cons i ids)
  from wire.get_ok [OF Cons.prems(1), of "be32 i" "concat (map be32 ids) @ rest"] Cons.prems(2) obtain b1 where
    b1: "buf_read buf 4 = Some (Some (be32 i), b1)" "buf_live b1" "buf_content b1 = concat (map be32 ids) @ rest" by auto
  from Cons.IH [OF b1(2,3), of "acc @ [i]"] b1(1) Cons.prems(3) show ?case by simp
qed simp

text \<open>A region filled to the brim holds exactly its content.\<close>

lemma full_sub_data:
  assumes "buf_live sub" "buf_room sub = 0" "buf_headroom sub = 0"
  shows "data sub = Some (buf_content sub)"
  using assms by (auto simp: buf_live_def buf_wf_def buf_room_def buf_headroom_def buf_content_def slice_def
      split: option.splits)

lemma sub_fill_ack:
  assumes sub: "buf_live sub" "buf_content sub = []" "buf_headroom sub = 0"
    "buf_room sub = length (ack_bytes ids sid)" and sid: "length sid = SID_SIZE"
  shows "\<exists>s1 s2 s3. buf_write_u8 sub (of_nat (length ids)) = Some (True, s1) \<and> ack_write_ids ids s1 = Some s2
     \<and> (if ids \<noteq> [] then session_id_write sid s2 = Some (True, s3) else s3 = s2) \<and> data s3 = Some (ack_bytes ids sid)"
proof -
  let ?c = "of_nat (length ids) :: u8"
  have room: "buf_room sub = 1 + 4 * length ids + (if ids = [] then 0 else 8)"
    using sub(4) sid by (simp add: ack_bytes_def length_concat_be32 SID_SIZE_def)
  from wire.put_ok [OF sub(1), of "[?c]"] room sub obtain s1 where
    s1: "buf_write sub [?c] = Some (True, s1)" "buf_live s1" "buf_content s1 = [?c]" "buf_room s1 = buf_room sub - 1"
      "buf_headroom s1 = 0" by auto
  from ack_write_ids_spec [OF s1(2), of ids] room s1 obtain s2 where
    s2: "ack_write_ids ids s1 = Some s2" "buf_live s2" "buf_content s2 = [?c] @ concat (map be32 ids)"
      "buf_room s2 = (if ids = [] then 0 else 8)" "buf_headroom s2 = 0" by auto
  show ?thesis
  proof (cases "ids = []")
    case True
    with s1 s2 full_sub_data [of s2] show ?thesis by (auto simp: buf_write_u8_def ack_bytes_def)
  next
    case False
    with wire.put_ok [OF s2(2), of sid] s2 sid obtain s3 where
      s3: "buf_write s2 sid = Some (True, s3)" "buf_live s3" "buf_content s3 = ack_bytes ids sid"
        "buf_room s3 = 0" "buf_headroom s3 = 0" by (auto simp: SID_SIZE_def ack_bytes_def)
    with False s1 s2 full_sub_data [of s3] show ?thesis
      by (auto simp: buf_write_u8_def session_id_write_def)
  qed
qed

lemma reliable_ack_write_spec:
  assumes buf: "buf_live buf" and sid: "length sid = SID_SIZE" "session_id_defined sid"
    and mx: "0 \<le> mx" "mx \<le> int RELIABLE_ACK_SIZE" and len: "length mru \<le> RELIABLE_ACK_SIZE"
    and dist: "distinct ack" "distinct mru"
  defines "n \<equiv> min (length ack) (nat mx)"
  defines "mru' \<equiv> take RELIABLE_ACK_SIZE (take n ack @ filter (\<lambda>x. x \<notin> set (take n ack)) mru)"
  defines "ids \<equiv> take (nat mx) mru'"
  assumes room: "length (ack_bytes ids sid) \<le> (if prepend then buf_headroom buf else buf_room buf)"
  shows "\<exists>buf'. reliable_ack_write ack mru buf sid mx prepend = Some (True, drop n ack, mru', buf')
     \<and> buf_live buf' \<and> buf_content buf' = (if prepend then ack_bytes ids sid @ buf_content buf else buf_content buf @ ack_bytes ids sid)"
proof -
  have n: "(if int (length ack) > mx then mx else int (length ack)) = int n" using mx(1) by (auto simp: n_def)
  have copy: "copy_acks_to_mru ack mru (int n) = Some mru'"
    using copy_acks_spec [of "take n ack" mru] dist len by (simp add: copy_acks_to_mru_def n_def mru'_def)
  have tot: "min_int mx (int (length mru')) = int (length ids)" using mx(1) by (auto simp: ids_def min_int_def)
  have "length mru' \<le> RELIABLE_ACK_SIZE" unfolding mru'_def by (simp only: length_take min.cobounded2)
  then have l8: "length ids \<le> 8" by (simp add: ids_def RELIABLE_ACK_SIZE_def)
  have wtot: "(word_of_int (min_int mx (int (length mru'))) :: u8) = of_nat (length ids)" unfolding tot by simp
  have u: "unat (of_nat (length ids) :: u8) = length ids" using l8 by (simp add: unat_of_nat take_bit_nat_eq_self)
  have tk: "take (length ids) mru' = ids" "length ids \<le> length mru'" by (auto simp: ids_def min_def)
  have pos: "0 < length (ack_bytes ids sid)" by (simp add: ack_bytes_def)
  from buf_sub_fill [OF buf pos room] obtain p sub b1 where sub:
    "buf_sub buf (int (length (ack_bytes ids sid))) prepend = Some (Some p, sub, b1)" "buf_live sub" "buf_content sub = []"
    "buf_room sub = length (ack_bytes ids sid)" "buf_headroom sub = 0" and
    sync: "\<And>sub'. data sub' = Some (ack_bytes ids sid) \<Longrightarrow> \<exists>b2. buf_sub_sync b1 p sub' = Some b2 \<and> buf_live b2
       \<and> buf_content b2 = (if prepend then ack_bytes ids sid @ buf_content buf else buf_content buf @ ack_bytes ids sid)"
    by auto
  from sub_fill_ack [OF sub(2,3,5,4) sid(1)] obtain s1 s2 s3 where
    s: "buf_write_u8 sub (of_nat (length ids)) = Some (True, s1)" "ack_write_ids ids s1 = Some s2"
      "if ids \<noteq> [] then session_id_write sid s2 = Some (True, s3) else s3 = s2" "data s3 = Some (ack_bytes ids sid)" by blast
  from sync [OF s(4)] obtain b2 where b2: "buf_sub_sync b1 p s3 = Some b2" "buf_live b2"
    "buf_content b2 = (if prepend then ack_bytes ids sid @ buf_content buf else buf_content buf @ ack_bytes ids sid)" by blast
  have z: "(of_nat (length ids) :: u8) = 0 \<longleftrightarrow> ids = []"
    unfolding unsigned_eq_0_iff [where 'a = nat, symmetric] u by simp
  have "reliable_ack_write ack mru buf sid mx prepend = Some (True, (if n \<noteq> 0 then drop n ack else ack), mru', b2)"
    unfolding reliable_ack_write_def Let_def n copy Option.bind_lunit wtot
    using copy s sub(1) b2(1) sid tk u z length_ack_bytes [OF sid(1), of ids] unfolding wtot
    by (auto simp: wtot)
  with b2 show ?thesis by auto
qed

lemma reliable_ack_read_spec:
  assumes "buf_live buf" "buf_content buf = ack_bytes ids sid @ rest" "length ids \<le> RELIABLE_ACK_SIZE"
    "length sid = SID_SIZE" "session_id_defined sid"
  shows "\<exists>buf'. reliable_ack_read junk buf sid = Some (True, ids, buf') \<and> buf_live buf' \<and> buf_content buf' = rest"
proof -
  let ?c = "of_nat (length ids) :: u8"
  have u: "unat ?c = length ids" using assms(3) by (simp add: unat_of_nat take_bit_nat_eq_self RELIABLE_ACK_SIZE_def)
  have z: "?c = 0 \<longleftrightarrow> ids = []" unfolding unsigned_eq_0_iff [where 'a = nat, symmetric] u by simp
  let ?r = "(if ids = [] then [] else sid) @ rest"
  from wire.get_ok [OF assms(1), of "[?c]" "concat (map be32 ids) @ ?r"] assms(2) obtain b1 where
    b1: "buf_read buf 1 = Some (Some [?c], b1)" "buf_live b1" "buf_content b1 = concat (map be32 ids) @ ?r"
    by (auto simp: ack_bytes_def)
  from ack_parse_ids_spec [OF b1(2,3), of "[]"] assms(3) obtain b2 where
    b2: "ack_parse_ids (length ids) [] b1 = Some (True, ids, b2)" "buf_live b2" "buf_content b2 = ?r" by auto
  show ?thesis
  proof (cases "ids = []")
    case True
    with b1 b2 u z show ?thesis by (simp add: reliable_ack_read_def reliable_ack_parse_def)
  next
    case False
    with wire.get_ok [OF b2(2), of sid rest] b2(3) assms(4) obtain b3 where
      "buf_read b2 (int SID_SIZE) = Some (Some sid, b3)" "buf_live b3" "buf_content b3 = rest" by auto
    with False b1 b2 u z assms(5) show ?thesis
      by (simp add: reliable_ack_read_def reliable_ack_parse_def session_id_read_def session_id_equal_def)
  qed
qed

text \<open>An acknowledgement record survives the wire. The first \<open>max\<close> outstanding
  acknowledgements are written first, followed by repeats of recently used ones; they are
  removed from the outstanding ones; and a peer that knows the session id reads back exactly
  the written ids and is left at the data that follows.\<close>

theorem reliable_ack_roundtrip:
  assumes "buf_live buf" "length sid = SID_SIZE" "session_id_defined sid"
    "0 \<le> mx" "mx \<le> int RELIABLE_ACK_SIZE" "length mru \<le> RELIABLE_ACK_SIZE" "distinct ack" "distinct mru"
    and "41 \<le> buf_headroom buf"
  shows "\<exists>ack' mru' buf' ids buf''. reliable_ack_write ack mru buf sid mx True = Some (True, ack', mru', buf')
     \<and> reliable_ack_read junk buf' sid = Some (True, ids, buf'') \<and> buf_content buf'' = buf_content buf
     \<and> ack' = drop (nat mx) ack \<and> ids = take (nat mx) mru'
     \<and> take (length (take (nat mx) ack)) ids = take (nat mx) ack"
proof -
  let ?n = "min (length ack) (nat mx)"
  let ?mru = "take RELIABLE_ACK_SIZE (take ?n ack @ filter (\<lambda>x. x \<notin> set (take ?n ack)) mru)"
  let ?ids = "take (nat mx) ?mru"
  have l8: "length ?ids \<le> RELIABLE_ACK_SIZE" by (simp only: length_take) (simp add: min_def)
  have room: "length (ack_bytes ?ids sid) \<le> (if True then buf_headroom buf else buf_room buf)"
    using order_trans [OF ack_bytes_short [OF assms(2) l8] assms(9)] by (simp only: if_True)
  from reliable_ack_write_spec [OF assms(1-8) room] obtain buf' where
    w: "reliable_ack_write ack mru buf sid mx True = Some (True, drop ?n ack, ?mru, buf')" "buf_live buf'"
      "buf_content buf' = ack_bytes ?ids sid @ buf_content buf" by auto
  from reliable_ack_read_spec [OF w(2,3) l8 assms(2,3), of junk] obtain buf'' where
    r: "reliable_ack_read junk buf' sid = Some (True, ?ids, buf'')" "buf_content buf'' = buf_content buf" by blast
  have n8: "?n \<le> RELIABLE_ACK_SIZE" using assms(5) by auto
  then have "take (length (take (nat mx) ack)) ?ids = take (nat mx) ack" by (auto simp: min_def)
  moreover have "drop ?n ack = drop (nat mx) ack" by (simp add: min_def)
  ultimately show ?thesis using w(1) r by metis
qed

definition demo_ack_buf :: buffer where
  "demo_ack_buf = \<lparr>capacity = 64, offset = 50, len = 3, data = Some (replicate 64 9)\<rparr>"

lemma demo_sid_defined: "session_id_defined [1, 2, 3, 4, 5, 6, 7, 8]"
  by (auto simp: session_id_defined_def SID_SIZE_def list_eq_iff_nth_eq intro!: exI [of _ 0])

theorem reliable_ack_roundtrip_witness:
  "\<exists>ack' mru' buf' ids buf''. reliable_ack_write [5, 6] [4, 5] demo_ack_buf [1, 2, 3, 4, 5, 6, 7, 8] 4 True = Some (True, ack', mru', buf')
     \<and> reliable_ack_read [] buf' [1, 2, 3, 4, 5, 6, 7, 8] = Some (True, ids, buf'') \<and> buf_content buf'' = buf_content demo_ack_buf
     \<and> ack' = drop (nat 4) [5, 6] \<and> ids = take (nat 4) mru'
     \<and> take (length (take (nat 4) [5, 6::u32])) ids = take (nat 4) [5, 6]"
  by (rule reliable_ack_roundtrip)
    (simp_all add: demo_ack_buf_def buf_live_def buf_wf_def BUF_SIZE_MAX_def SID_SIZE_def RELIABLE_ACK_SIZE_def
      demo_sid_defined buf_headroom_def)

section \<open>The send array\<close>

lemma find_idx_Some:
  "find_idx P xs = Some i \<Longrightarrow> i < length xs \<and> P (xs ! i) \<and> (\<forall>j < i. \<not> P (xs ! j))"
proof (induction xs arbitrary: i)
  case (Cons x xs)
  then show ?case by (auto simp: less_Suc_eq_0_disj split: if_splits)
qed simp

lemma find_idx_None: "find_idx P xs = None \<longleftrightarrow> (\<forall>x \<in> set xs. \<not> P x)"
  by (induction xs) auto

definition e_due :: "int \<Rightarrow> reliable_entry \<Rightarrow> bool" where
  "e_due now e \<longleftrightarrow> e_active e \<and> (now \<ge> e_next_try e \<or> e_n_acks e \<ge> N_ACK_RETRANSMIT)"

lemma send_best_None:
  "send_best now i es best = None \<longleftrightarrow> best = None \<and> (\<forall>e \<in> set es. \<not> e_due now e)"
proof (induction es arbitrary: i best)
  case (Cons e es)
  then show ?case by (auto simp: e_due_def split: option.splits)
qed simp

lemma send_best_Some:
  assumes "send_best now i es best = Some (j, k)"
  shows "best = Some (j, k) \<or> (i \<le> j \<and> j < i + length es \<and> e_due now (es ! (j - i)) \<and> e_packet_id (es ! (j - i)) = k)"
  using assms
proof (induction es arbitrary: i best)
  case (Cons e es)
  from Cons.IH [OF Cons.prems [simplified]] show ?case
    by (auto simp: e_due_def nth_Cons' Suc_diff_le split: if_splits option.splits)
qed simp

text \<open>\<open>reliable_can_send\<close> announces exactly what \<open>reliable_send\<close> will do: on a layer that is not
  held back, it is true if and only if \<open>reliable_send\<close> returns a buffer; the buffer belongs to an
  active entry that is due, whose next retransmission moves out by its timeout, which doubles;
  no other entry changes.\<close>

theorem reliable_send_correct:
  "(reliable_can_send now rel \<longleftrightarrow> fst (reliable_send now rel) \<noteq> None \<and> \<not> r_hold rel)
   \<and> (case reliable_send now rel of
        (None, rel') \<Rightarrow> rel' = rel
      | (Some (i, opcode), rel') \<Rightarrow>
          (let e = r_array rel ! i in
           i < length (r_array rel) \<and> e_active e \<and> (e_next_try e \<le> now \<or> N_ACK_RETRANSMIT \<le> e_n_acks e) \<and> opcode = e_opcode e
           \<and> r_array rel' ! i = e\<lparr>e_next_try := now + e_timeout e, e_timeout := e_timeout e * 2, e_n_acks := 0\<rparr>
           \<and> (\<forall>j < length (r_array rel). j \<noteq> i \<longrightarrow> r_array rel' ! j = r_array rel ! j)))"
proof -
  have can: "reliable_can_send now rel \<longleftrightarrow> (\<exists>e \<in> set (r_array rel). e_due now e) \<and> \<not> r_hold rel"
    by (auto simp: reliable_can_send_def e_due_def filter_empty_conv)
  show ?thesis
  proof (cases "send_best now 0 (r_array rel) None")
    case None
    with send_best_None [of now 0 "r_array rel" None] can show ?thesis by (auto simp: reliable_send_def)
  next
    case (Some ik)
    then obtain i k where ik: "send_best now 0 (r_array rel) None = Some (i, k)" by (cases ik) auto
    with send_best_Some [OF ik] send_best_None [of now 0 "r_array rel" None] can show ?thesis
      by (auto simp: reliable_send_def upd_entry_def e_due_def Let_def)
  qed
qed

theorem reliable_send_correct_witness:
  "let rel = \<lparr>r_initial_timeout = 2, r_packet_id = 1, r_offset = 0, r_hold = False, r_array =
       [\<lparr>e_active = True, e_timeout = 2, e_next_try = 9, e_packet_id = 0, e_n_acks = 0, e_opcode = 4, e_buf = clear_buf\<rparr>]\<rparr>
   in reliable_can_send 10 rel \<and> e_next_try (r_array (snd (reliable_send 10 rel)) ! 0) = 12
      \<and> e_timeout (r_array (snd (reliable_send 10 rel)) ! 0) = 4"
proof -
  let ?rel = "\<lparr>r_initial_timeout = 2, r_packet_id = 1, r_offset = 0, r_hold = False, r_array =
       [\<lparr>e_active = True, e_timeout = 2, e_next_try = 9, e_packet_id = 0, e_n_acks = 0, e_opcode = 4, e_buf = clear_buf\<rparr>]\<rparr>"
  have "\<exists>rel'. reliable_send 10 ?rel = (Some (0, 4), rel')" by (simp add: reliable_send_def)
  with reliable_send_correct [of 10 ?rel] show ?thesis by (auto simp: Let_def)
qed

lemma reliable_send_purge_map:
  "reliable_send_purge rel ack = rel\<lparr>r_array := map (fold purge_entry ack) (r_array rel)\<rparr>"
proof (induction ack arbitrary: rel)
  case (Cons p ack)
  then show ?case by (simp add: reliable_send_purge_def comp_def)
qed (simp add: reliable_send_purge_def)

lemma fold_purge_entry:
  "e_packet_id (fold purge_entry ack e) = e_packet_id e \<and> e_buf (fold purge_entry ack e) = e_buf e
   \<and> e_next_try (fold purge_entry ack e) = e_next_try e \<and> e_timeout (fold purge_entry ack e) = e_timeout e
   \<and> e_opcode (fold purge_entry ack e) = e_opcode e
   \<and> (e_active (fold purge_entry ack e) \<longleftrightarrow> e_active e \<and> e_packet_id e \<notin> set ack)
   \<and> (e_active (fold purge_entry ack e) \<longrightarrow>
        e_n_acks (fold purge_entry ack e) = e_n_acks e + length (filter (\<lambda>p. e_packet_id e < p) ack))"
proof (induction ack arbitrary: e)
  case (Cons p ack)
  from Cons.IH [of "purge_entry p e"] show ?case by (auto simp: purge_entry_def split: if_splits)
qed simp

text \<open>Acknowledgements release exactly the packets they name: an entry stays active if and only
  if it was active and its id is not acknowledged; an entry that stays counts one more
  for every acknowledged id above its own, and nothing else of it changes.\<close>

theorem reliable_send_purge_correct:
  "length (r_array (reliable_send_purge rel ack)) = length (r_array rel)
   \<and> (\<forall>i < length (r_array rel).
        let e = r_array rel ! i; e' = r_array (reliable_send_purge rel ack) ! i in
        (e_active e' \<longleftrightarrow> e_active e \<and> e_packet_id e \<notin> set ack) \<and> e_packet_id e' = e_packet_id e \<and> e_buf e' = e_buf e
        \<and> e_next_try e' = e_next_try e \<and> e_timeout e' = e_timeout e
        \<and> (e_active e' \<longrightarrow> e_n_acks e' = e_n_acks e + length (filter (\<lambda>p. e_packet_id e < p) ack)))"
  using fold_purge_entry by (auto simp: reliable_send_purge_map Let_def)

theorem reliable_send_purge_correct_witness:
  "let rel = \<lparr>r_initial_timeout = 2, r_packet_id = 2, r_offset = 0, r_hold = False, r_array =
       [\<lparr>e_active = True, e_timeout = 2, e_next_try = 5, e_packet_id = 0, e_n_acks = 0, e_opcode = 4, e_buf = clear_buf\<rparr>,
        \<lparr>e_active = True, e_timeout = 2, e_next_try = 5, e_packet_id = 1, e_n_acks = 0, e_opcode = 4, e_buf = clear_buf\<rparr>]\<rparr>
   in \<not> e_active (r_array (reliable_send_purge rel [1]) ! 1) \<and> e_active (r_array (reliable_send_purge rel [1]) ! 0)
      \<and> e_n_acks (r_array (reliable_send_purge rel [1]) ! 0) = 1"
proof -
  let ?rel = "\<lparr>r_initial_timeout = 2, r_packet_id = 2, r_offset = 0, r_hold = False, r_array =
       [\<lparr>e_active = True, e_timeout = 2, e_next_try = 5, e_packet_id = 0, e_n_acks = 0, e_opcode = 4, e_buf = clear_buf\<rparr>,
        \<lparr>e_active = True, e_timeout = 2, e_next_try = 5, e_packet_id = 1, e_n_acks = 0, e_opcode = 4, e_buf = clear_buf\<rparr>]\<rparr>"
  note all = reliable_send_purge_correct [of ?rel "[1]", THEN conjunct2, rule_format]
  from all [of 0] all [of 1] show ?thesis by (simp add: Let_def)
qed

lemma send_timeout_loop_spec:
  assumes "0 < ret"
  shows "(\<exists>e \<in> set es. e_active e \<and> e_next_try e \<le> now) \<and> send_timeout_loop now es ret = 0
     \<or> \<not> (\<exists>e \<in> set es. e_active e \<and> e_next_try e \<le> now) \<and> 0 < send_timeout_loop now es ret
       \<and> send_timeout_loop now es ret \<le> ret \<and> (\<forall>e \<in> set es. e_active e \<longrightarrow> send_timeout_loop now es ret \<le> e_next_try e - now)
       \<and> (send_timeout_loop now es ret = ret \<or> (\<exists>e \<in> set es. e_active e \<and> send_timeout_loop now es ret = e_next_try e - now))"
  using assms
proof (induction es arbitrary: ret)
  case (Cons e es)
  show ?case
  proof (cases "e_active e \<and> \<not> e_next_try e \<le> now")
    case True
    with Cons.IH [of "min ret (e_next_try e - now)"] Cons.prems show ?thesis by (auto simp: min_def split: if_splits)
  next
    case False
    with Cons.IH [of ret] Cons.prems show ?thesis by auto
  qed
qed simp

text \<open>The wake-up time is right: 0 exactly when an unacknowledged packet is overdue, otherwise
  the distance to the earliest retransmission, or the idle timeout when that is sooner
  or nothing is pending.\<close>

theorem reliable_send_timeout_correct:
  "(reliable_send_timeout now rel = 0 \<longleftrightarrow> (\<exists>e \<in> set (r_array rel). e_active e \<and> e_next_try e \<le> now))
   \<and> (reliable_send_timeout now rel \<noteq> 0 \<longrightarrow>
        0 < reliable_send_timeout now rel \<and> reliable_send_timeout now rel \<le> BIG_TIMEOUT
        \<and> (\<forall>e \<in> set (r_array rel). e_active e \<longrightarrow> now + reliable_send_timeout now rel \<le> e_next_try e)
        \<and> (reliable_send_timeout now rel = BIG_TIMEOUT
           \<or> (\<exists>e \<in> set (r_array rel). e_active e \<and> now + reliable_send_timeout now rel = e_next_try e)))"
proof -
  have big: "0 < BIG_TIMEOUT" by (simp add: BIG_TIMEOUT_def)
  from send_timeout_loop_spec [OF big, of "r_array rel" now] show ?thesis
    by (fastforce simp: reliable_send_timeout_def algebra_simps)
qed

section \<open>The send window\<close>

text \<open>How far an entry's id lies behind the next id to be used.\<close>

definition e_lag :: "reliable \<Rightarrow> reliable_entry \<Rightarrow> nat" where
  "e_lag rel e = unat (r_packet_id rel - e_packet_id e)"

definition snd_inv :: "reliable \<Rightarrow> bool" where
  "snd_inv rel \<longleftrightarrow> length (r_array rel) \<le> 12
     \<and> (\<forall>e \<in> set (r_array rel). e_active e \<longrightarrow> 1 \<le> e_lag rel e \<and> e_lag rel e \<le> length (r_array rel))"

lemma pid_min_lag:
  assumes "unat (r - a) \<le> 12" "unat (r - b) \<le> 12"
  shows "reliable_pid_min a b \<longleftrightarrow> unat (r - b) < unat (r - a)"
proof -
  have "unat ((r - b) - (r - a)) = (if unat (r - a) \<le> unat (r - b) then unat (r - b) - unat (r - a)
      else unat (r - b) + 2 ^ 32 - unat (r - a))"
    unfolding unat_sub_if_size [of "r - b" "r - a"] by (simp add: word_size)
  moreover have "(r - b) - (r - a) = a - b" by simp
  ultimately have "unat (a - b) = (if unat (r - a) \<le> unat (r - b) then unat (r - b) - unat (r - a)
      else unat (r - b) + 2 ^ 32 - unat (r - a))" by simp
  with assms show ?thesis
    by (auto simp: reliable_pid_min_def reliable_pid_in_range1_def subtract_pid_def word_less_nat_alt split: if_splits)
qed

lemma min_active_lag:
  assumes "\<forall>e \<in> set es. e_active e \<longrightarrow> unat (r - e_packet_id e) \<le> 12" "\<forall>k. m = Some k \<longrightarrow> unat (r - k) \<le> 12"
  shows "case min_active es m of
       None \<Rightarrow> m = None \<and> (\<forall>e \<in> set es. \<not> e_active e)
     | Some k \<Rightarrow> unat (r - k) \<le> 12 \<and> (\<forall>e \<in> set es. e_active e \<longrightarrow> unat (r - e_packet_id e) \<le> unat (r - k))
         \<and> (\<forall>k'. m = Some k' \<longrightarrow> unat (r - k') \<le> unat (r - k))
         \<and> (m = Some k \<or> (\<exists>e \<in> set es. e_active e \<and> e_packet_id e = k))"
  using assms
proof (induction es arbitrary: m)
  case Nil
  then show ?case by (auto split: option.splits)
next
  case (Cons e es)
  let ?m = "if e_active e then (case m of None \<Rightarrow> Some (e_packet_id e)
            | Some k \<Rightarrow> if reliable_pid_min (e_packet_id e) k then Some (e_packet_id e) else m) else m"
  have pm: "reliable_pid_min (e_packet_id e) k \<longleftrightarrow> unat (r - k) < unat (r - e_packet_id e)" if "e_active e" "m = Some k" for k
    using pid_min_lag that Cons.prems by simp
  have "\<forall>k. ?m = Some k \<longrightarrow> unat (r - k) \<le> 12" using Cons.prems by (auto split: option.splits)
  from Cons.IH [OF _ this] Cons.prems(1) have ih: "case min_active es ?m of
       None \<Rightarrow> ?m = None \<and> (\<forall>e \<in> set es. \<not> e_active e)
     | Some k \<Rightarrow> unat (r - k) \<le> 12 \<and> (\<forall>e \<in> set es. e_active e \<longrightarrow> unat (r - e_packet_id e) \<le> unat (r - k))
         \<and> (\<forall>k'. ?m = Some k' \<longrightarrow> unat (r - k') \<le> unat (r - k))
         \<and> (?m = Some k \<or> (\<exists>e \<in> set es. e_active e \<and> e_packet_id e = k))" by simp
  show ?case
  proof (cases "min_active es ?m")
    case None
    with ih show ?thesis by (auto split: if_splits option.splits)
  next
    case (Some k)
    with ih have k: "unat (r - k) \<le> 12" "\<forall>e \<in> set es. e_active e \<longrightarrow> unat (r - e_packet_id e) \<le> unat (r - k)"
      "\<forall>k'. ?m = Some k' \<longrightarrow> unat (r - k') \<le> unat (r - k)" "?m = Some k \<or> (\<exists>e \<in> set es. e_active e \<and> e_packet_id e = k)" by auto
    have "e_active e \<longrightarrow> unat (r - e_packet_id e) \<le> unat (r - k)" "\<forall>k'. m = Some k' \<longrightarrow> unat (r - k') \<le> unat (r - k)"
      using k(3) pm by (auto split: if_splits option.splits)
    moreover have "m = Some k \<or> (\<exists>e \<in> set (e # es). e_active e \<and> e_packet_id e = k)"
      using k(4) by (auto split: if_splits option.splits)
    ultimately show ?thesis using Some k(1,2) by simp
  qed
qed

lemma lag_after_send:
  fixes r k :: u32
  assumes "unat (r - k) < n" "n \<le> 12"
  shows "unat (r + 1 - k) = Suc (unat (r - k))"
proof -
  have "r - k < of_nat n" using assms by (simp add: word_less_nat_alt unat_of_nat take_bit_nat_eq_self)
  then have "unat (r - k + 1) = Suc (unat (r - k))" by (rule word_less_pred_Suc)
  then show ?thesis by (simp add: algebra_simps)
qed

text \<open>C40: the send window is kept. If \<open>reliable_get_buf_output_sequenced\<close> grants a buffer and the packet
  in it is activated, then every unacknowledged packet is still at most \<open>size\<close> ids behind
  the next id, also across the wrap-around of the 32-bit counter; the new packet carries its
  id in front of the content.\<close>

theorem reliable_send_window:
  assumes "snd_inv rel" "reliable_get_buf_output_sequenced rel = Some (Some i, rel1)"
    and "buf_live b" "4 \<le> buf_headroom b"
    and "rel2 = rel1\<lparr>r_array := (r_array rel1)[i := (r_array rel1 ! i)\<lparr>e_buf := b\<rparr>]\<rparr>"
  shows "\<exists>rel3. reliable_mark_active_outgoing rel2 i op = Some rel3 \<and> snd_inv rel3
     \<and> r_packet_id rel3 = r_packet_id rel + 1 \<and> e_packet_id (r_array rel3 ! i) = r_packet_id rel
     \<and> buf_content (e_buf (r_array rel3 ! i)) = be32 (r_packet_id rel) @ buf_content b"
proof -
  let ?n = "length (r_array rel)" and ?r = "r_packet_id rel"
  have n: "?n \<le> 12" using assms(1) by (simp add: snd_inv_def)
  have lag12: "\<forall>e \<in> set (r_array rel). e_active e \<longrightarrow> unat (?r - e_packet_id e) \<le> 12"
    using assms(1) by (auto simp: snd_inv_def e_lag_def)
  from assms(2) obtain k where g: "reliable_get_buf rel = Some (Some i, rel1)"
    and m: "min_active (r_array rel) None = None \<or> (min_active (r_array rel) None = Some k \<and> unat (?r - k) < ?n)"
    using n by (auto simp: reliable_get_buf_output_sequenced_def reliable_pid_in_range1_def subtract_pid_def
        word_less_nat_alt unat_of_nat take_bit_nat_eq_self split: option.splits if_splits)
  from g obtain b1 where i: "i < ?n" "\<not> e_active (r_array rel ! i)" and
    rel1: "rel1 = rel\<lparr>r_array := (r_array rel)[i := (r_array rel ! i)\<lparr>e_buf := b1\<rparr>]\<rparr>"
    by (auto dest!: find_idx_Some simp: reliable_get_buf_def upd_entry_def bind_eq_Some_conv split: option.splits prod.splits)
  have lt: "unat (?r - e_packet_id e) < ?n" if "e \<in> set (r_array rel)" "e_active e" for e
    using m min_active_lag [OF lag12, of None] that by force
  from wire.push_ok [OF assms(3), of "be32 ?r"] assms(4) obtain b2 where
    b2: "buf_write_prepend b (be32 ?r) = Some (True, b2)" "buf_content b2 = be32 ?r @ buf_content b" by auto
  let ?f = "\<lambda>e. e\<lparr>e_packet_id := ?r, e_buf := b2, e_active := True, e_opcode := op, e_next_try := 0,
              e_timeout := r_initial_timeout rel\<rparr>"
  let ?rel3 = "rel\<lparr>r_packet_id := ?r + 1, r_array := (r_array rel)[i := ?f ((r_array rel ! i))]\<rparr>"
  have eq: "reliable_mark_active_outgoing rel2 i op = Some ?rel3"
    using assms(5) rel1 i b2(1) by (simp add: reliable_mark_active_outgoing_def upd_entry_def Let_def)
  have "snd_inv ?rel3"
  proof -
    have "1 \<le> e_lag ?rel3 e \<and> e_lag ?rel3 e \<le> ?n" if e: "e \<in> set ((r_array rel)[i := ?f (r_array rel ! i)])" "e_active e" for e
    proof (cases "e = ?f (r_array rel ! i)")
      case True
      then show ?thesis using i(1) by (simp add: e_lag_def Suc_leI)
    next
      case False
      with e(1) have "e \<in> set (r_array rel)" using set_update_subset_insert by fastforce
      with lt [OF this e(2)] lag_after_send [OF _ n] show ?thesis by (simp add: e_lag_def Suc_leI)
    qed
    then show ?thesis using n by (simp add: snd_inv_def)
  qed
  with eq i(1) b2(2) show ?thesis by simp
qed

theorem reliable_send_window_witness:
  "\<exists>rel rel1 rel3. snd_inv rel \<and> reliable_get_buf_output_sequenced rel = Some (Some 0, rel1)
     \<and> reliable_mark_active_outgoing (rel1\<lparr>r_array := (r_array rel1)[0 := (r_array rel1 ! 0)\<lparr>e_buf := demo_ack_buf\<rparr>]\<rparr>) 0 4 = Some rel3
     \<and> snd_inv rel3 \<and> r_packet_id rel3 = r_packet_id rel + 1"
proof -
  let ?rel = "\<lparr>r_initial_timeout = 2, r_packet_id = 0xffffffff, r_offset = 8, r_hold = False, r_array =
     [\<lparr>e_active = False, e_timeout = 2, e_next_try = 9, e_packet_id = 0, e_n_acks = 0, e_opcode = 4, e_buf = demo_ack_buf\<rparr>]\<rparr>"
  have inv: "snd_inv ?rel" by (simp add: snd_inv_def)
  obtain rel1 where g: "reliable_get_buf_output_sequenced ?rel = Some (Some 0, rel1)"
    by (simp add: reliable_get_buf_output_sequenced_def reliable_get_buf_def buf_init_dowork_def demo_ack_buf_def)
  have live: "buf_live demo_ack_buf" "4 \<le> buf_headroom demo_ack_buf"
    by (simp_all add: demo_ack_buf_def buf_live_def buf_wf_def BUF_SIZE_MAX_def buf_headroom_def)
  from reliable_send_window [OF inv g live refl, of 4] inv g show ?thesis by blast
qed

end
