(* ===== verification/Control_Channel.thy ===== *)
theory Control_Channel
  imports Reliable
begin

text \<open>
  The control channel's use of the reliability layer: the part of \<^verbatim>\<open>tls_pre_decrypt\<close>
  (\<^verbatim>\<open>openvpn/src/openvpn/ssl.c\<close>) that processes the acknowledgements of an incoming packet and stores
  the packet, and the delivery of stored packets in sequence (\<^verbatim>\<open>tls_process_state\<close>,
  \<^verbatim>\<open>read_incoming_tls_ciphertext\<close>). What the TLS layer relies on, delivery in order, at most
  once and unaltered, is stated as a locale and interpreted on these operations.
\<close>

section \<open>Operations\<close>

definition P_ACK_V1 :: int where "P_ACK_V1 = 5"

record control_state =
  cc_send :: reliable
  cc_rec :: reliable
  cc_rec_ack :: reliable_ack

text \<open>
  Storing an incoming packet under its id; the first component is \<open>False\<close> where the code leaves
  with an error because the packet does not fit.
\<close>

definition store_incoming :: "reliable \<Rightarrow> u32 \<Rightarrow> int \<Rightarrow> buffer \<Rightarrow> (bool \<times> reliable) option" where
  "store_incoming rel i op buf = do {
     (idx, rel) \<leftarrow> reliable_get_buf rel;
     idx \<leftarrow> idx;
     (ok, b) \<leftarrow> buf_copy (e_buf (r_array rel ! idx)) buf;
     let rel = upd_entry idx (\<lambda>e. e\<lparr>e_buf := b\<rparr>) rel;
     (if \<not> ok then Some (False, rel)
      else do { rel \<leftarrow> reliable_mark_active_incoming rel idx i op; Some (True, rel) })
   }"

text \<open>The block after the acknowledgements: take in the packet and queue its acknowledgement.\<close>

definition receive_sequenced ::
    "reliable \<Rightarrow> reliable_ack \<Rightarrow> int \<Rightarrow> buffer \<Rightarrow> (bool \<times> reliable \<times> reliable_ack) option" where
  "receive_sequenced rel rec_ack op buf =
     (if op \<noteq> P_ACK_V1 \<and> reliable_can_get rel then do {
        (i, buf) \<leftarrow> reliable_ack_read_packet_id buf;
        (case i of
           None \<Rightarrow> Some (True, rel, rec_ack)
         | Some i \<Rightarrow>
             if reliable_wont_break_sequentiality rel i then do {
               (ok, rel) \<leftarrow> (if reliable_not_replay rel i then store_incoming rel i op buf else Some (True, rel));
               (if \<not> ok then Some (False, rel, rec_ack)
                else Some (True, rel, snd (reliable_ack_acknowledge_packet_id rec_ack i))) }
             else Some (True, rel, rec_ack)) }
      else Some (True, rel, rec_ack))"

definition control_receive ::
    "session_id \<Rightarrow> control_state \<Rightarrow> session_id \<Rightarrow> int \<Rightarrow> buffer \<Rightarrow> (bool \<times> control_state) option" where
  "control_receive junk st sid op buf = do {
     (ok, send_ack, buf) \<leftarrow> reliable_ack_read junk buf sid;
     (if \<not> ok then Some (False, st)
      else do {
        let st = st\<lparr>cc_send := reliable_send_purge (cc_send st) send_ack\<rparr>;
        (ok, rec, rec_ack) \<leftarrow> receive_sequenced (cc_rec st) (cc_rec_ack st) op buf;
        Some (ok, st\<lparr>cc_rec := rec, cc_rec_ack := rec_ack\<rparr>) })
   }"

text \<open>
  The first packet of a session, the hard reset, carries a list of type, length, value records.
  The loop consumes at least four bytes in each round, so the length of the buffer is enough
  fuel. The results are the success flag, whether the peer asked for the wrapped client key again
  (\<^verbatim>\<open>CO_RESEND_WKC\<close>), and the buffer.
\<close>

definition is_hard_reset_method2 :: "int \<Rightarrow> bool" where
  "is_hard_reset_method2 op \<longleftrightarrow> op = 7 \<or> op = 8 \<or> op = 10"

definition TLV_TYPE_EARLY_NEG_FLAGS :: int where "TLV_TYPE_EARLY_NEG_FLAGS = 1"
definition EARLY_NEG_FLAG_RESEND_WKC :: int where "EARLY_NEG_FLAG_RESEND_WKC = 1"

fun early_neg_loop :: "nat \<Rightarrow> buffer \<Rightarrow> bool \<Rightarrow> (bool \<times> bool \<times> buffer) option" where
  "early_neg_loop 0 buf wkc = None"
| "early_neg_loop (Suc n) buf wkc =
     (if len buf > 0 then
        if buf_len buf < 4 then Some (False, wkc, buf)
        else do {
          (type, buf) \<leftarrow> buf_read_u16 buf;
          (l, buf) \<leftarrow> buf_read_u16 buf;
          (if type < 0 \<or> l < 0 \<or> buf_len buf < l then Some (False, wkc, buf)
           else if type = TLV_TYPE_EARLY_NEG_FLAGS then
             if l \<noteq> 2 then Some (False, wkc, buf)
             else do {
               (flags, buf) \<leftarrow> buf_read_u16 buf;
               early_neg_loop n buf (wkc \<or> and flags EARLY_NEG_FLAG_RESEND_WKC \<noteq> 0) }
           else early_neg_loop n (snd (buf_advance buf l)) wkc) }
      else Some (True, wkc, buf))"

definition parse_early_negotiation_tlvs :: "reliable \<Rightarrow> nat \<Rightarrow> bool \<Rightarrow> (bool \<times> bool \<times> reliable) option" where
  "parse_early_negotiation_tlvs rel i wkc = do {
     let buf = e_buf (r_array rel ! i);
     (ok, wkc, buf) \<leftarrow> early_neg_loop (Suc (nat (len buf))) buf wkc;
     let rel = upd_entry i (\<lambda>e. e\<lparr>e_buf := buf\<rparr>) rel;
     (if ok then do { rel \<leftarrow> reliable_mark_deleted rel i; Some (True, wkc, rel) }
      else Some (False, wkc, rel))
   }"

text \<open>
  Handing ciphertext to the TLS library. \<open>bio\<close> is the library's answer to one call: the result of
  \<^verbatim>\<open>BIO_write\<close> and of \<^verbatim>\<open>BIO_should_retry\<close>.
\<close>

definition bio_write :: "int \<times> bool \<Rightarrow> int \<Rightarrow> int option" where
  "bio_write bio sz = do {
     c_assert (sz \<ge> 0);
     Some (if sz \<noteq> 0 then
             if fst bio < 0 then if \<not> snd bio then -1 else 0
             else if fst bio \<noteq> sz then -1
             else 1
           else 0)
   }"

definition bio_write_post :: "int \<Rightarrow> buffer \<Rightarrow> buffer option" where
  "bio_write_post status buf =
     (if status = 1 then do {
        p \<leftarrow> buf_bptr buf;
        buf \<leftarrow> buf_store buf p (replicate (nat (buf_len buf)) 0);
        Some (buf\<lparr>len := 0\<rparr>) }
      else Some buf)"

definition key_state_write_ciphertext :: "int \<times> bool \<Rightarrow> buffer \<Rightarrow> (int \<times> buffer) option" where
  "key_state_write_ciphertext bio buf = do {
     ret \<leftarrow> bio_write bio (buf_len buf);
     buf \<leftarrow> bio_write_post ret buf;
     Some (ret, buf)
   }"

text \<open>The first result is the return value, the second is set when \<^verbatim>\<open>*continue_tls_process\<close> is.\<close>

definition read_incoming_tls_ciphertext ::
    "int \<times> bool \<Rightarrow> reliable \<Rightarrow> nat \<Rightarrow> (bool \<times> bool \<times> reliable) option" where
  "read_incoming_tls_ciphertext bio rel i = do {
     let buf = e_buf (r_array rel ! i);
     (status, buf) \<leftarrow> (if len buf \<noteq> 0 then key_state_write_ciphertext bio buf else Some (1, buf));
     let rel = upd_entry i (\<lambda>e. e\<lparr>e_buf := buf\<rparr>) rel;
     (if status = -1 then Some (False, False, rel)
      else if status = 1 then do { rel \<leftarrow> reliable_mark_deleted rel i; Some (True, True, rel) }
      else Some (True, False, rel))
   }"

text \<open>
  The block of \<^verbatim>\<open>tls_process_state\<close> that looks for the next packet in sequence and consumes it:
  \<open>Failed\<close> is its jump to the error label, \<open>Waiting\<close> no packet or one the library did not take,
  \<open>Delivered\<close> a consumed packet (opcode and content).
\<close>

datatype 'p delivery = Delivered 'p | Waiting | Failed

definition deliver_sequenced ::
    "int \<times> bool \<Rightarrow> reliable \<Rightarrow> ((int \<times> bytes) delivery \<times> reliable) option" where
  "deliver_sequenced bio rel =
     (case reliable_get_entry_sequenced rel of
        None \<Rightarrow> Some (Waiting, rel)
      | Some i \<Rightarrow> do {
          let e = r_array rel ! i;
          bs \<leftarrow> buf_bytes (e_buf e);
          (if e_packet_id e = 0 \<and> is_hard_reset_method2 (e_opcode e) then do {
             (ok, wkc, rel) \<leftarrow> parse_early_negotiation_tlvs rel i False;
             Some (if ok then Delivered (e_opcode e, bs) else Failed, rel) }
           else do {
             (ok, taken, rel) \<leftarrow> read_incoming_tls_ciphertext bio rel i;
             Some (if \<not> ok then Failed else if taken then Delivered (e_opcode e, bs) else Waiting, rel) }) })"

section \<open>In-order delivery as a contract\<close>

text \<open>
  A receiver that is offered numbered payloads in any order, with duplicates and losses, and
  delivers. \<open>expected\<close> is the number it will deliver next, \<open>held\<close> the payloads it stores, \<open>limit\<close> the
  number up to which its laws hold.
\<close>

datatype ('p, 'o) recv_op = Offer nat 'p | Deliver 'o

fun recv_run ::
    "('s \<Rightarrow> nat \<Rightarrow> 'p \<Rightarrow> 's option) \<Rightarrow> ('o \<Rightarrow> 's \<Rightarrow> ('p delivery \<times> 's) option) \<Rightarrow> 's \<Rightarrow> ('p, 'o) recv_op list
       \<Rightarrow> ('p list \<times> 's) option" where
  "recv_run offer deliver s [] = Some ([], s)"
| "recv_run offer deliver s (Offer i p # ops) = do { s' \<leftarrow> offer s i p; recv_run offer deliver s' ops }"
| "recv_run offer deliver s (Deliver x # ops) = do {
     (r, s') \<leftarrow> deliver x s;
     (case r of
        Failed \<Rightarrow> Some ([], s')
      | Waiting \<Rightarrow> recv_run offer deliver s' ops
      | Delivered p \<Rightarrow> do { (ps, s'') \<leftarrow> recv_run offer deliver s' ops; Some (p # ps, s'') }) }"

fun is_deliver :: "('p, 'o) recv_op \<Rightarrow> bool" where
  "is_deliver (Deliver x) = True"
| "is_deliver (Offer i p) = False"

locale in_order_delivery =
  fixes inv :: "'s \<Rightarrow> bool"
    and expected :: "'s \<Rightarrow> nat"
    and held :: "'s \<Rightarrow> nat \<Rightarrow> 'p option"
    and limit :: nat
    and ok_payload :: "nat \<Rightarrow> 'p \<Rightarrow> bool"
    and offer :: "'s \<Rightarrow> nat \<Rightarrow> 'p \<Rightarrow> 's option"
    and deliver :: "'o \<Rightarrow> 's \<Rightarrow> ('p delivery \<times> 's) option"
  assumes offer_law: "inv s \<Longrightarrow> ok_payload i p \<Longrightarrow> \<exists>s'. offer s i p = Some s' \<and> inv s' \<and> expected s' = expected s
      \<and> (held s' = held s \<or> (held s i = None \<and> held s' = (held s)(i \<mapsto> p)))"
    and deliver_law: "inv s \<Longrightarrow> expected s < limit \<Longrightarrow> \<exists>r s'. deliver x s = Some (r, s')
      \<and> (case r of Failed \<Rightarrow> expected s' = expected s
         | Waiting \<Rightarrow> inv s' \<and> expected s' = expected s \<and> held s' = held s
         | Delivered p \<Rightarrow> inv s' \<and> held s (expected s) = Some p \<and> expected s' = Suc (expected s)
             \<and> held s' = (held s)(expected s := None))"
begin

text \<open>
  The delivered payloads are consecutively numbered from \<open>expected s\<close>, and each one was held
  under its number at the start or offered under it.
\<close>

lemma run_in_order:
  assumes "inv s" "expected s + length (filter is_deliver ops) \<le> limit"
    and "\<forall>i p. Offer i p \<in> set ops \<longrightarrow> ok_payload i p"
  shows "\<exists>ps s'. recv_run offer deliver s ops = Some (ps, s') \<and> expected s' = expected s + length ps
     \<and> (\<forall>j < length ps. held s (expected s + j) = Some (ps ! j) \<or> Offer (expected s + j) (ps ! j) \<in> set ops)"
  using assms
proof (induction ops arbitrary: s)
  case Nil
  then show ?case by simp
next
  case (Cons x ops)
  show ?case
  proof (cases x)
    case (Offer i p)
    with offer_law [OF Cons.prems(1), of i p] Cons.prems(3) obtain s1 where
      s1: "offer s i p = Some s1" "inv s1" "expected s1 = expected s"
        "held s1 = held s \<or> (held s i = None \<and> held s1 = (held s)(i \<mapsto> p))" by auto
    from Cons.IH [OF s1(2)] Cons.prems(2,3) Offer s1(3) obtain ps s' where
      r: "recv_run offer deliver s1 ops = Some (ps, s')" "expected s' = expected s + length ps"
        "\<forall>j < length ps. held s1 (expected s + j) = Some (ps ! j) \<or> Offer (expected s + j) (ps ! j) \<in> set ops" by auto
    with Offer s1 show ?thesis by (fastforce split: if_splits)
  next
    case (Deliver y)
    with Cons.prems(2) have "expected s < limit" by simp
    from deliver_law [OF Cons.prems(1) this, of y] obtain r s1 where
      s1: "deliver y s = Some (r, s1)" and
      c: "case r of Failed \<Rightarrow> expected s1 = expected s
         | Waiting \<Rightarrow> inv s1 \<and> expected s1 = expected s \<and> held s1 = held s
         | Delivered p \<Rightarrow> inv s1 \<and> held s (expected s) = Some p \<and> expected s1 = Suc (expected s)
             \<and> held s1 = (held s)(expected s := None)"
      by blast
    show ?thesis
    proof (cases r)
      case Failed
      with c s1 Deliver show ?thesis by simp
    next
      case Waiting
      with c have w: "inv s1" "expected s1 = expected s" "held s1 = held s" by auto
      from Cons.IH [OF w(1)] Cons.prems(2,3) Deliver w s1 Waiting show ?thesis by auto
    next
      case (Delivered p)
      with c have e: "inv s1" "held s (expected s) = Some p" "expected s1 = Suc (expected s)"
        "held s1 = (held s)(expected s := None)" by auto
      from Cons.IH [OF e(1)] Cons.prems(2,3) Deliver e obtain ps s' where
        ps: "recv_run offer deliver s1 ops = Some (ps, s')" "expected s' = expected s1 + length ps"
          "\<forall>j < length ps. held s1 (expected s1 + j) = Some (ps ! j) \<or> Offer (expected s1 + j) (ps ! j) \<in> set ops" by auto
      have "held s (expected s + j) = Some ((p # ps) ! j) \<or> Offer (expected s + j) ((p # ps) ! j) \<in> set (x # ops)"
        if "j < length (p # ps)" for j
      proof (cases j)
        case (Suc k)
        with that ps(3) e have "held s1 (expected s1 + k) = Some (ps ! k) \<or> Offer (expected s1 + k) (ps ! k) \<in> set ops" by simp
        with Suc e show ?thesis by (auto split: if_splits)
      qed (use e in simp)
      with ps s1 Deliver Delivered e show ?thesis by auto
    qed
  qed
qed

end

section \<open>The receive window\<close>

lemma unat_add_small:
  fixes base :: u32
  assumes "unat base \<le> 2 ^ 31" "n \<le> 12"
  shows "unat (base + of_nat n) = unat base + n"
  using assms by (simp add: unat_word_ariths unat_of_nat take_bit_nat_eq_self)

lemma recv_window_iff:
  fixes base i :: u32
  assumes "unat base \<le> 2 ^ 31" "n \<le> 12"
  shows "\<not> reliable_pid_min i base \<and> reliable_pid_in_range2 i base (of_nat n)
     \<longleftrightarrow> unat base \<le> unat i \<and> unat i < unat base + n"
proof -
  note s = unat_add_small [OF assms]
  have "unat (i - base) < 2 ^ 31 \<and> unat i < unat base + n \<longleftrightarrow> unat base \<le> unat i \<and> unat i < unat base + n"
  proof (cases "base \<le> i")
    case True
    then show ?thesis using assms by (auto simp: unat_sub_le word_le_nat_alt)
  next
    case False
    then have "unat (i - base) = 2 ^ 32 + unat i - unat base"
      by (auto simp: unat_sub_if_size word_size word_le_nat_alt)
    then show ?thesis using False assms by (auto simp: word_le_nat_alt)
  qed
  then show ?thesis
    using s by (auto simp: reliable_pid_min_def reliable_pid_in_range1_def reliable_pid_in_range2_def subtract_pid_def
        word_less_nat_alt word_le_nat_alt)
qed

definition rec_inv :: "reliable \<Rightarrow> bool" where
  "rec_inv rel \<longleftrightarrow> (let es = r_array rel; n = length es; base = unat (r_packet_id rel) in
     0 < n \<and> n \<le> 12 \<and> base \<le> 2 ^ 31
     \<and> (\<forall>i < n. e_active (es ! i) \<longrightarrow> base \<le> unat (e_packet_id (es ! i)) \<and> unat (e_packet_id (es ! i)) < base + n)
     \<and> (\<forall>i < n. \<forall>j < n. e_active (es ! i) \<and> e_active (es ! j) \<and> e_packet_id (es ! i) = e_packet_id (es ! j) \<longrightarrow> i = j)
     \<and> (\<forall>i < n. buf_live (e_buf (es ! i)) \<and> 0 \<le> r_offset rel \<and> r_offset rel \<le> capacity (e_buf (es ! i))))"

definition rec_held :: "reliable \<Rightarrow> nat \<Rightarrow> (int \<times> bytes) option" where
  "rec_held rel i = map_option (\<lambda>k. (e_opcode (r_array rel ! k), buf_content (e_buf (r_array rel ! k))))
     (find_idx (\<lambda>e. e_active e \<and> unat (e_packet_id e) = i) (r_array rel))"

lemma rec_inv_unique:
  assumes "rec_inv rel" "i < length (r_array rel)" "j < length (r_array rel)"
    "e_active (r_array rel ! i)" "e_active (r_array rel ! j)"
    "unat (e_packet_id (r_array rel ! i)) = unat (e_packet_id (r_array rel ! j))"
  shows "i = j"
proof -
  have "e_packet_id (r_array rel ! i) = e_packet_id (r_array rel ! j)" using assms(6) by (simp only: word_unat_eq_iff)
  with assms(1-5) show ?thesis unfolding rec_inv_def Let_def by blast
qed

lemma rec_held_iff:
  assumes "rec_inv rel"
  shows "rec_held rel i = Some p \<longleftrightarrow> (\<exists>k < length (r_array rel). e_active (r_array rel ! k)
     \<and> unat (e_packet_id (r_array rel ! k)) = i
     \<and> (e_opcode (r_array rel ! k), buf_content (e_buf (r_array rel ! k))) = p)"
proof (cases "find_idx (\<lambda>e. e_active e \<and> unat (e_packet_id e) = i) (r_array rel)")
  case None
  with find_idx_None [of "\<lambda>e. e_active e \<and> unat (e_packet_id e) = i" "r_array rel"]
  have "\<not> (e_active (r_array rel ! k) \<and> unat (e_packet_id (r_array rel ! k)) = i)" if "k < length (r_array rel)" for k
    using that by simp
  then show ?thesis unfolding rec_held_def None option.map by blast
next
  case (Some k)
  from find_idx_Some [OF this] have k: "k < length (r_array rel)" "e_active (r_array rel ! k)"
    "unat (e_packet_id (r_array rel ! k)) = i" by auto
  have "k' = k" if "k' < length (r_array rel)" "e_active (r_array rel ! k')" "unat (e_packet_id (r_array rel ! k')) = i" for k'
    by (rule rec_inv_unique [OF assms that(1) k(1) that(2) k(2)]) (simp only: that(3) k(3))
  with k show ?thesis unfolding rec_held_def Some option.map option.inject by blast
qed

lemma rec_held_eqI:
  assumes "\<And>i p. f i = Some p \<longleftrightarrow> g i = Some p"
  shows "f = (g :: nat \<Rightarrow> 'p option)"
proof
  fix i
  show "f i = g i" using assms [of i] by (metis not_None_eq)
qed

lemma upd_entry_simps [simp]:
  "length (r_array (upd_entry k f rel)) = length (r_array rel)"
  "r_packet_id (upd_entry k f rel) = r_packet_id rel" "r_offset (upd_entry k f rel) = r_offset rel"
  "k < length (r_array rel) \<Longrightarrow> i < length (r_array rel) \<Longrightarrow>
     r_array (upd_entry k f rel) ! i = (if i = k then f (r_array rel ! k) else r_array rel ! i)"
  "r_array (upd_entry k f rel) = [] \<longleftrightarrow> r_array rel = []"
  by (auto simp: upd_entry_def nth_list_update)

text \<open>Working on the buffer of a free entry is invisible.\<close>

lemma rec_inv_free_buf:
  assumes "rec_inv rel" "k < length (r_array rel)" "\<not> e_active (r_array rel ! k)"
    "buf_live b" "capacity b = capacity (e_buf (r_array rel ! k))"
  shows "rec_inv (upd_entry k (\<lambda>e. e\<lparr>e_buf := b\<rparr>) rel)"
    "rec_held (upd_entry k (\<lambda>e. e\<lparr>e_buf := b\<rparr>) rel) = rec_held rel"
proof -
  let ?r = "upd_entry k (\<lambda>e. e\<lparr>e_buf := b\<rparr>) rel"
  show inv: "rec_inv ?r" using assms by (auto simp: rec_inv_def Let_def)
  show "rec_held ?r = rec_held rel"
  proof (rule rec_held_eqI)
    fix i p
    show "rec_held ?r i = Some p \<longleftrightarrow> rec_held rel i = Some p"
      unfolding rec_held_iff [OF inv] rec_held_iff [OF assms(1)]
      by (rule ex_cong1) (use assms(2,3) in \<open>auto split: if_splits\<close>)
  qed
qed

lemma mark_incoming_spec:
  assumes inv: "rec_inv rel" and k: "k < length (r_array rel)" "\<not> e_active (r_array rel ! k)"
    and win: "unat (r_packet_id rel) \<le> unat i" "unat i < unat (r_packet_id rel) + length (r_array rel)"
    and new: "\<not> (\<exists>e \<in> set (r_array rel). e_active e \<and> e_packet_id e = i)"
  shows "\<exists>rel'. reliable_mark_active_incoming rel k i op = Some rel' \<and> rec_inv rel' \<and> r_packet_id rel' = r_packet_id rel
     \<and> rec_held rel' = (rec_held rel)(unat i \<mapsto> (op, buf_content (e_buf (r_array rel ! k))))"
proof -
  let ?f = "\<lambda>e. e\<lparr>e_active := True, e_packet_id := i, e_opcode := op, e_next_try := 0, e_timeout := 0, e_n_acks := 0\<rparr>"
  let ?r = "upd_entry k ?f rel"
  have bounds: "unat (r_packet_id rel) \<le> 2 ^ 31" "length (r_array rel) \<le> 12" using inv by (auto simp: rec_inv_def Let_def)
  from recv_window_iff [OF bounds, of i] win have "\<not> reliable_pid_min i (r_packet_id rel)" by blast
  then have eq: "reliable_mark_active_incoming rel k i op = Some ?r"
    using k(1) by (simp add: reliable_mark_active_incoming_def)
  have other: "e_packet_id (r_array rel ! j) \<noteq> i" if "j < length (r_array rel)" "e_active (r_array rel ! j)" for j
    using new that by auto
  have inv': "rec_inv ?r" using inv k win other unfolding rec_inv_def Let_def by (auto; metis)
  have "rec_held ?r = (rec_held rel)(unat i \<mapsto> (op, buf_content (e_buf (r_array rel ! k))))"
  proof (rule rec_held_eqI)
    fix j p
    show "rec_held ?r j = Some p \<longleftrightarrow> ((rec_held rel)(unat i \<mapsto> (op, buf_content (e_buf (r_array rel ! k))))) j = Some p"
    proof (cases "j = unat i")
      case True
      have "rec_held ?r (unat i) = Some (op, buf_content (e_buf (r_array rel ! k)))"
        unfolding rec_held_iff [OF inv'] using k by (intro exI [of _ k]) auto
      with True show ?thesis by auto
    next
      case False
      then have "rec_held ?r j = Some p \<longleftrightarrow> rec_held rel j = Some p"
        unfolding rec_held_iff [OF inv'] rec_held_iff [OF inv] by (intro ex_cong1) (use k in \<open>auto split: if_splits\<close>)
      with False show ?thesis by simp
    qed
  qed
  with eq inv' show ?thesis by simp
qed

lemma store_incoming_spec:
  assumes inv: "rec_inv rel" and can: "reliable_can_get rel" and buf: "buf_live buf"
    and win: "unat (r_packet_id rel) \<le> unat i" "unat i < unat (r_packet_id rel) + length (r_array rel)"
    and new: "\<not> (\<exists>e \<in> set (r_array rel). e_active e \<and> e_packet_id e = i)"
  shows "\<exists>ok rel'. store_incoming rel i op buf = Some (ok, rel') \<and> rec_inv rel' \<and> r_packet_id rel' = r_packet_id rel
     \<and> rec_held rel' = (if ok then (rec_held rel)(unat i \<mapsto> (op, buf_content buf)) else rec_held rel)"
proof -
  from can obtain k where fk: "find_idx (\<lambda>e. \<not> e_active e) (r_array rel) = Some k"
    using find_idx_None [of "\<lambda>e. \<not> e_active e" "r_array rel"] by (auto simp: reliable_can_get_def)
  from find_idx_Some [OF fk] have k: "k < length (r_array rel)" "\<not> e_active (r_array rel ! k)" by auto
  let ?b = "e_buf (r_array rel ! k)"
  have lb: "buf_live ?b" "0 \<le> r_offset rel" "r_offset rel \<le> capacity ?b" using inv k by (auto simp: rec_inv_def Let_def)
  from buf_init_spec [of ?b "r_offset rel"] lb obtain b1 where
    b1: "buf_init_dowork ?b (r_offset rel) = (True, b1)" "buf_live b1" "buf_content b1 = []" "capacity b1 = capacity ?b"
    by (auto simp: buf_live_def)
  let ?r1 = "upd_entry k (\<lambda>e. e\<lparr>e_buf := b1\<rparr>) rel"
  have g: "reliable_get_buf rel = Some (Some k, ?r1)" using fk b1 by (simp add: reliable_get_buf_def)
  have bb: "buf_bytes buf = Some (buf_content buf)" using buf buf_bytes_content by (simp add: buf_live_def)
  from buf_write_spec [of b1 "buf_content buf"] b1(2) obtain ok b2 where
    b2: "buf_write b1 (buf_content buf) = Some (ok, b2)" "buf_live b2" "capacity b2 = capacity b1"
      "ok \<longrightarrow> buf_content b2 = buf_content buf" using b1(3) by (auto simp: buf_live_def)
  let ?r2 = "upd_entry k (\<lambda>e. e\<lparr>e_buf := b2\<rparr>) ?r1"
  note i1 = rec_inv_free_buf [OF inv k b1(2,4)]
  note i2 = rec_inv_free_buf [OF i1(1), of k b2]
  have r2: "rec_inv ?r2" "rec_held ?r2 = rec_held rel" using i2 i1(2) k b2(2,3) by auto
  have k2: "k < length (r_array ?r2)" "\<not> e_active (r_array ?r2 ! k)" "buf_content (e_buf (r_array ?r2 ! k)) = buf_content b2"
    using k by auto
  have new2: "\<not> (\<exists>e \<in> set (r_array ?r2). e_active e \<and> e_packet_id e = i)"
  proof -
    have "\<not> (e_active (r_array rel ! j) \<and> e_packet_id (r_array rel ! j) = i)" if "j < length (r_array rel)" for j
      using new that by auto
    with k show ?thesis by (fastforce simp: in_set_conv_nth split: if_splits)
  qed
  from mark_incoming_spec [OF r2(1) k2(1,2) _ _ new2, of op] win obtain r3 where
    r3: "reliable_mark_active_incoming ?r2 k i op = Some r3" "rec_inv r3" "r_packet_id r3 = r_packet_id rel"
      "rec_held r3 = (rec_held ?r2)(unat i \<mapsto> (op, buf_content b2))" using k2(3) by auto
  have c: "buf_copy (e_buf (r_array ?r1 ! k)) buf = Some (ok, b2)" using bb b2(1) k by (simp add: buf_copy_def)
  show ?thesis
  proof (cases ok)
    case True
    with g c r3 b2(4) r2(2) show ?thesis by (intro exI [of _ True]) (simp add: store_incoming_def)
  next
    case False
    with g c r2 show ?thesis by (intro exI [of _ False]) (simp add: store_incoming_def)
  qed
qed

lemma early_neg_loop_total:
  assumes "buf_live b" "nat (len b) < n"
  shows "\<exists>ok wkc' b'. early_neg_loop n b wkc = Some (ok, wkc', b') \<and> buf_live b' \<and> capacity b' = capacity b"
  using assms
proof (induction n arbitrary: b wkc)
  case (Suc n)
  have u16: "\<exists>v b'. buf_read_u16 c = Some (v, b') \<and> buf_live b' \<and> capacity b' = capacity c \<and> len b' = len c - 2 \<and> 0 \<le> v"
    if "buf_live c" "2 \<le> len c" for c
    using buf_read_spec [of c 2] that by (auto simp: buf_live_def buf_read_u16_def)
  have ln: "buf_len c = len c" if "buf_live c" for c using that buf_wf_len by (simp add: buf_live_def)
  show ?case
  proof (cases "len b < 4")
    case True
    then show ?thesis using Suc.prems ln [OF Suc.prems(1)] by auto
  next
    case False
    with u16 [OF Suc.prems(1)] obtain t b1 where
      b1: "buf_read_u16 b = Some (t, b1)" "buf_live b1" "capacity b1 = capacity b" "len b1 = len b - 2" "0 \<le> t" by auto
    with u16 [OF b1(2)] False obtain l b2 where
      b2: "buf_read_u16 b1 = Some (l, b2)" "buf_live b2" "capacity b2 = capacity b" "len b2 = len b - 4" "0 \<le> l" by auto
    consider "len b2 < l \<or> (t = 1 \<and> l \<noteq> 2)" | "l = 2" "t = 1" "l \<le> len b2" | "t \<noteq> 1" "l \<le> len b2" by linarith
    then show ?thesis
    proof cases
      case 1
      with False b1 b2 ln [OF Suc.prems(1)] ln [OF b2(2)] Suc.prems show ?thesis by (auto simp: TLV_TYPE_EARLY_NEG_FLAGS_def)
    next
      case 2
      with u16 [OF b2(2)] obtain f b3 where
        b3: "buf_read_u16 b2 = Some (f, b3)" "buf_live b3" "capacity b3 = capacity b" "len b3 = len b - 6"
        using b2 by auto
      have "nat (len b3) < n" using b3(4) Suc.prems(2) False by linarith
      from Suc.IH [OF b3(2) this, of "wkc \<or> and f EARLY_NEG_FLAG_RESEND_WKC \<noteq> 0"] 2 False b1 b2 b3 ln [OF Suc.prems(1)] ln [OF b2(2)] show ?thesis
        by (auto simp: TLV_TYPE_EARLY_NEG_FLAGS_def)
    next
      case 3
      from buf_advance_spec [of b2 l] 3 b2 obtain b3 where
        b3: "buf_advance b2 l = (True, b3)" "buf_wf b3" "capacity b3 = capacity b" "len b3 = len b2 - l"
        by (auto simp: buf_live_def)
      have "data b3 = data b2" using b3(1) by (auto simp: buf_advance_def split: if_splits)
      with b3 b2(2) have lv: "buf_live b3" by (simp add: buf_live_def)
      have "nat (len b3) < n" using b3(4) b2(4,5) Suc.prems(2) False by linarith
      from Suc.IH [OF lv this, of wkc] 3 False b1 b2 b3 ln [OF Suc.prems(1)] ln [OF b2(2)] show ?thesis
        by (auto simp: TLV_TYPE_EARLY_NEG_FLAGS_def)
    qed
  qed
qed simp

lemma write_ciphertext_total:
  assumes "buf_live b"
  shows "\<exists>st b'. key_state_write_ciphertext bio b = Some (st, b') \<and> buf_live b' \<and> capacity b' = capacity b
     \<and> (st \<noteq> 1 \<longrightarrow> b' = b)"
proof -
  from assms obtain m where m: "data b = Some m" "buf_wf b" by (auto simp: buf_live_def)
  note w = buf_wf_Some [OF m(2,1)]
  have ln: "buf_len b = len b" using m buf_wf_len by simp
  then obtain st where st: "bio_write bio (buf_len b) = Some st" using w(2) by (simp add: bio_write_def)
  have p: "buf_bptr b = Some (offset b)" using m buf_wf_valid [OF m(2)] by (simp add: buf_bptr_def)
  have "\<exists>b1. buf_store b (offset b) (replicate (nat (len b)) 0) = Some b1 \<and> buf_live (b1\<lparr>len := 0\<rparr>) \<and> capacity b1 = capacity b"
    using buf_store_in_range [OF m(1), of "offset b" "replicate (nat (len b)) 0"] w m
    by (auto simp: buf_live_def buf_wf_def)
  with st p ln assms show ?thesis by (auto simp: key_state_write_ciphertext_def bio_write_post_def)
qed

lemma upd_entry_same: "upd_entry k (\<lambda>e. e\<lparr>e_buf := e_buf (r_array rel ! k)\<rparr>) rel = rel"
proof -
  have "(r_array rel ! k)\<lparr>e_buf := e_buf (r_array rel ! k)\<rparr> = r_array rel ! k" by simp
  then show ?thesis by (simp add: upd_entry_def)
qed

text \<open>Releasing the entry of the next expected packet, whatever its consumer left in the buffer.\<close>

lemma release_spec:
  assumes inv: "rec_inv rel" and lim: "unat (r_packet_id rel) < 2 ^ 31"
    and k: "k < length (r_array rel)" "e_active (r_array rel ! k)" "e_packet_id (r_array rel ! k) = r_packet_id rel"
    and buf: "buf_live c" "capacity c = capacity (e_buf (r_array rel ! k))"
  shows "\<exists>rel'. reliable_mark_deleted (upd_entry k (\<lambda>e. e\<lparr>e_buf := c\<rparr>) rel) k = Some rel' \<and> rec_inv rel'
     \<and> unat (r_packet_id rel') = Suc (unat (r_packet_id rel))
     \<and> rec_held rel' = (rec_held rel)(unat (r_packet_id rel) := None)"
proof -
  let ?b = "unat (r_packet_id rel)"
  let ?q = "upd_entry k (\<lambda>e. e\<lparr>e_buf := c\<rparr>) rel"
  let ?r = "upd_entry k (\<lambda>e. e\<lparr>e_active := False\<rparr>) (?q\<lparr>r_packet_id := r_packet_id rel + 1\<rparr>)"
  have eq: "reliable_mark_deleted ?q k = Some ?r" using k by (simp add: reliable_mark_deleted_def)
  have nth: "r_array ?r ! i = (if i = k then (r_array rel ! k)\<lparr>e_buf := c, e_active := False\<rparr> else r_array rel ! i)"
    if "i < length (r_array rel)" for i
    using that k(1) by (simp add: upd_entry_def)
  have len: "length (r_array ?r) = length (r_array rel)" "r_packet_id ?r = r_packet_id rel + 1" "r_offset ?r = r_offset rel"
    by (simp_all add: upd_entry_def)
  have suc: "unat (r_packet_id rel + 1) = Suc ?b"
    using unat_add_small [of "r_packet_id rel" 1] lim by simp
  have gt: "?b < unat (e_packet_id (r_array rel ! j))" if "j < length (r_array rel)" "j \<noteq> k" "e_active (r_array rel ! j)" for j
  proof -
    have "?b \<le> unat (e_packet_id (r_array rel ! j))" using inv that by (auto simp: rec_inv_def Let_def)
    moreover have "unat (e_packet_id (r_array rel ! j)) \<noteq> ?b"
      using rec_inv_unique [OF inv that(1) k(1) that(3) k(2)] that(2) k(3) by auto
    ultimately show ?thesis by simp
  qed
  have inv': "rec_inv ?r"
    unfolding rec_inv_def Let_def len suc using inv k gt lim buf unfolding rec_inv_def Let_def
    by (auto simp: nth Suc_le_eq less_SucI split: if_splits)
  have "rec_held ?r = (rec_held rel)(?b := None)"
  proof (rule rec_held_eqI)
    fix j p
    have "rec_held ?r j = Some p \<longleftrightarrow> rec_held rel j = Some p \<and> j \<noteq> ?b"
      unfolding rec_held_iff [OF inv'] rec_held_iff [OF inv] len using k gt by (auto simp: nth split: if_splits) fastforce+
    then show "rec_held ?r j = Some p \<longleftrightarrow> ((rec_held rel)(?b := None)) j = Some p" by auto
  qed
  with eq inv' suc len show ?thesis by simp
qed

lemma deliver_spec:
  assumes inv: "rec_inv rel" and lim: "unat (r_packet_id rel) < 2 ^ 31"
  shows "\<exists>r rel'. deliver_sequenced bio rel = Some (r, rel')
     \<and> (case r of Failed \<Rightarrow> unat (r_packet_id rel') = unat (r_packet_id rel)
        | Waiting \<Rightarrow> rel' = rel
        | Delivered p \<Rightarrow> rec_inv rel' \<and> rec_held rel (unat (r_packet_id rel)) = Some p
            \<and> unat (r_packet_id rel') = Suc (unat (r_packet_id rel))
            \<and> rec_held rel' = (rec_held rel)(unat (r_packet_id rel) := None))"
proof (cases "reliable_get_entry_sequenced rel")
  case None
  then show ?thesis by (simp add: deliver_sequenced_def)
next
  case (Some k)
  from find_idx_Some [OF this [unfolded reliable_get_entry_sequenced_def]]
  have k: "k < length (r_array rel)" "e_active (r_array rel ! k)" "e_packet_id (r_array rel ! k) = r_packet_id rel" by auto
  let ?e = "r_array rel ! k" and ?b = "unat (r_packet_id rel)"
  have live: "buf_live (e_buf ?e)" using inv k(1) by (auto simp: rec_inv_def Let_def)
  then have ld: "buf_bytes (e_buf ?e) = Some (buf_content (e_buf ?e))" using buf_bytes_content by (auto simp: buf_live_def)
  have h: "rec_held rel ?b = Some (e_opcode ?e, buf_content (e_buf ?e))" unfolding rec_held_iff [OF inv] using k by auto
  note release = release_spec [OF inv lim k]
  show ?thesis
  proof (cases "e_packet_id ?e = 0 \<and> is_hard_reset_method2 (e_opcode ?e)")
    case True
    from early_neg_loop_total [OF live, of "Suc (nat (len (e_buf ?e)))" False] obtain ok w c where
      c: "early_neg_loop (Suc (nat (len (e_buf ?e)))) (e_buf ?e) False = Some (ok, w, c)" "buf_live c"
        "capacity c = capacity (e_buf ?e)" by auto
    show ?thesis
      using release [OF c(2,3)] True Some ld h c(1)
      by (cases ok) (auto simp: deliver_sequenced_def parse_early_negotiation_tlvs_def Let_def simp del: early_neg_loop.simps)
  next
    case False
    from write_ciphertext_total [OF live, of bio] live obtain st c where
      c: "(if len (e_buf ?e) \<noteq> 0 then key_state_write_ciphertext bio (e_buf ?e) else Some (1, e_buf ?e)) = Some (st, c)"
        "buf_live c" "capacity c = capacity (e_buf ?e)" "st \<noteq> 1 \<longrightarrow> c = e_buf ?e" by (cases "len (e_buf ?e) \<noteq> 0") (simp_all, blast+)
    have eq: "deliver_sequenced bio rel = do {
        (ok, taken, r) \<leftarrow> read_incoming_tls_ciphertext bio rel k;
        Some (if \<not> ok then Failed else if taken then Delivered (e_opcode ?e, buf_content (e_buf ?e)) else Waiting, r) }"
      using False Some ld by (auto simp: deliver_sequenced_def Let_def)
    show ?thesis
      using release [OF c(2,3)] h c(4) unfolding eq read_incoming_tls_ciphertext_def Let_def c(1)
      by (cases "st = 1"; cases "st = -1") (auto simp: upd_entry_same)
  qed
qed

text \<open>The interface's operations: offering a payload under a number is receiving a control packet with that id.\<close>

definition offer_packet :: "reliable \<Rightarrow> nat \<Rightarrow> int \<times> bytes \<Rightarrow> reliable option" where
  "offer_packet rel i p =
     (let bs = be32 (of_nat i) @ snd p in
      map_option (\<lambda>(ok, rel, ack). rel)
        (receive_sequenced rel [] (fst p) \<lparr>capacity = int (length bs), offset = 0, len = int (length bs), data = Some bs\<rparr>))"

lemma receive_sequenced_spec:
  assumes inv: "rec_inv rel" and buf: "buf_live buf" "buf_content buf = be32 i @ bs"
  shows "\<exists>ok rel' ack'. receive_sequenced rel ack op buf = Some (ok, rel', ack') \<and> rec_inv rel'
     \<and> r_packet_id rel' = r_packet_id rel
     \<and> (rec_held rel' = rec_held rel
        \<or> (rec_held rel (unat i) = None \<and> rec_held rel' = (rec_held rel)(unat i \<mapsto> (op, bs))))"
proof -
  from wire.get_ok [OF buf] obtain b1 where
    b1: "buf_read buf 4 = Some (Some (be32 i), b1)" "buf_live b1" "buf_content b1 = bs" by auto
  have rd: "reliable_ack_read_packet_id buf = Some (Some i, b1)" using b1(1) by (simp add: reliable_ack_read_packet_id_def)
  have bounds: "unat (r_packet_id rel) \<le> 2 ^ 31" "length (r_array rel) \<le> 12" using inv by (auto simp: rec_inv_def Let_def)
  show ?thesis
  proof (cases "op \<noteq> P_ACK_V1 \<and> reliable_can_get rel \<and> reliable_wont_break_sequentiality rel i \<and> reliable_not_replay rel i")
    case True
    then have win: "unat (r_packet_id rel) \<le> unat i" "unat i < unat (r_packet_id rel) + length (r_array rel)"
      and new: "\<not> (\<exists>e \<in> set (r_array rel). e_active e \<and> e_packet_id e = i)"
      using recv_window_iff [OF bounds, of i] by (auto simp: reliable_wont_break_sequentiality_def reliable_not_replay_def)
    have none: "rec_held rel (unat i) = None"
    proof (rule ccontr)
      assume "rec_held rel (unat i) \<noteq> None"
      then obtain p where "rec_held rel (unat i) = Some p" by auto
      then obtain k where "k < length (r_array rel)" "e_active (r_array rel ! k)" "e_packet_id (r_array rel ! k) = i"
        unfolding rec_held_iff [OF inv] word_unat_eq_iff by blast
      with new show False by (metis nth_mem)
    qed
    from store_incoming_spec [OF inv _ b1(2) win new, of op] True obtain ok rel' where
      st: "store_incoming rel i op b1 = Some (ok, rel')" "rec_inv rel'" "r_packet_id rel' = r_packet_id rel"
        "rec_held rel' = (if ok then (rec_held rel)(unat i \<mapsto> (op, bs)) else rec_held rel)" using b1(3) by auto
    with True rd none show ?thesis by (auto simp: receive_sequenced_def)
  next
    case False
    then have "\<exists>ack'. receive_sequenced rel ack op buf = Some (True, rel, ack')"
      using rd by (auto simp: receive_sequenced_def)
    with inv show ?thesis by blast
  qed
qed

definition small_packet :: "nat \<Rightarrow> int \<times> bytes \<Rightarrow> bool" where
  "small_packet i p \<longleftrightarrow> i < 2 ^ 32 \<and> int (length (snd p)) + 4 < BUF_SIZE_MAX"

interpretation rec_buffer: in_order_delivery rec_inv "\<lambda>rel. unat (r_packet_id rel)" rec_held "2 ^ 31"
  small_packet offer_packet deliver_sequenced
proof (unfold_locales, goal_cases)
  case (1 s i p)
  obtain op bs where p: "p = (op, bs)" by (cases p)
  let ?b = "\<lparr>capacity = int (length (be32 (of_nat i) @ bs)), offset = 0,
     len = int (length (be32 (of_nat i) @ bs)), data = Some (be32 (of_nat i) @ bs)\<rparr>"
  have "buf_live ?b" "buf_content ?b = be32 (of_nat i) @ bs"
    using 1(2) by (auto simp: small_packet_def p buf_live_def buf_wf_def buf_content_def slice_def)
  moreover have "unat (of_nat i :: u32) = i" using 1(2) by (simp add: small_packet_def unat_of_nat take_bit_nat_eq_self)
  ultimately show ?case using receive_sequenced_spec [OF 1(1), of ?b "of_nat i" bs "[]" op]
    by (auto simp: offer_packet_def p Let_def)
next
  case (2 s x)
  from deliver_spec [OF 2, of x] obtain r s' where rs: "deliver_sequenced x s = Some (r, s')"
    "case r of Failed \<Rightarrow> unat (r_packet_id s') = unat (r_packet_id s)
        | Waiting \<Rightarrow> s' = s
        | Delivered p \<Rightarrow> rec_inv s' \<and> rec_held s (unat (r_packet_id s)) = Some p
            \<and> unat (r_packet_id s') = Suc (unat (r_packet_id s))
            \<and> rec_held s' = (rec_held s)(unat (r_packet_id s) := None)" by blast
  with 2(1) show ?case by (intro exI [of _ r] exI [of _ s']) (auto split: delivery.splits)
qed

section \<open>Properties\<close>

lemma reliable_init_rec:
  assumes "reliable_init bsize off n hold = Some rel"
  shows "rec_inv rel" "r_packet_id rel = 0" "rec_held rel = (\<lambda>i. None)"
proof -
  from assms obtain b where a: "alloc_buf bsize = Some b" by (auto simp: reliable_init_def bind_eq_Some_conv split: if_splits)
  note w = alloc_buf_wf [OF a]
  from assms a w have b: "off \<le> int bsize" "0 \<le> off" "0 < n" "n \<le> 12"
    and rel: "r_array rel = replicate (nat n) \<lparr>e_active = False, e_timeout = 0, e_next_try = 0, e_packet_id = 0,
       e_n_acks = 0, e_opcode = 0, e_buf = b\<lparr>len := 0, offset := off\<rparr>\<rparr>" "r_packet_id rel = 0" "r_offset rel = off"
    by (auto simp: reliable_init_def buf_init_dowork_def RELIABLE_CAPACITY_def bind_eq_Some_conv split: if_splits)
  have "buf_live (b\<lparr>len := 0, offset := off\<rparr>)" "capacity b = int bsize"
    using w b by (auto simp: buf_live_def buf_wf_def)
  with b rel show inv: "rec_inv rel" by (simp add: rec_inv_def)
  show "r_packet_id rel = 0" by (rule rel)
  show "rec_held rel = (\<lambda>i. None)"
    by (rule rec_held_eqI) (use rel in \<open>auto simp: rec_held_iff [OF inv]\<close>)
qed

text \<open>C38: the receive side consumes control packets in order, each at most once and unaltered.
  From a freshly initialised layer, over any arrivals (reordered, duplicated, lost, out of
  window) and any delivery attempts with any answers of the TLS library, the j-th consumed packet
  is one that arrived under packet id j, no assertion fails and no loop runs on; the layer is left
  expecting the next id.\<close>

theorem control_delivery_in_order:
  assumes "reliable_init bsize off n hold = Some rel"
    and "length (filter is_deliver ops) \<le> 2 ^ 31"
    and "\<forall>i p. Offer i p \<in> set ops \<longrightarrow> small_packet i p"
  shows "\<exists>ps rel'. recv_run offer_packet deliver_sequenced rel ops = Some (ps, rel')
     \<and> unat (r_packet_id rel') = length ps \<and> (\<forall>j < length ps. Offer j (ps ! j) \<in> set ops)"
  using rec_buffer.run_in_order [OF reliable_init_rec(1) [OF assms(1)], of ops] assms(2,3)
    reliable_init_rec(2,3) [OF assms(1)] by auto

lemma demo_reliable_init: "\<exists>rel. reliable_init 64 8 4 False = Some rel"
  by (simp add: reliable_init_def RELIABLE_CAPACITY_def alloc_buf_def buf_size_valid_def BUF_SIZE_MAX_def buf_init_dowork_def)

theorem control_delivery_in_order_witness:
  "\<exists>rel ps rel'. reliable_init 64 8 4 False = Some rel
     \<and> recv_run offer_packet deliver_sequenced rel
         [Offer 1 (4, [7]), Deliver (1, False), Offer 0 (7, []), Deliver (1, False), Deliver (1, False)] = Some (ps, rel')
     \<and> unat (r_packet_id rel') = length ps
     \<and> (\<forall>j < length ps. Offer j (ps ! j) \<in> set
         [Offer 1 (4, [7]), Deliver (1, False), Offer 0 (7, []), Deliver (1, False), Deliver (1, False)])"
proof -
  obtain rel where rel: "reliable_init 64 8 4 False = Some rel" using demo_reliable_init by blast
  show ?thesis
    using rel control_delivery_in_order [OF rel,
        of "[Offer 1 (4, [7]), Deliver (1, False), Offer 0 (7, []), Deliver (1, False), Deliver (1, False)]"]
    by (auto simp: small_packet_def BUF_SIZE_MAX_def)
qed

text \<open>C39: the receive buffer cannot deadlock: unless the next expected packet is already stored,
  there is a free entry for it and both acceptance tests let it in.\<close>

theorem control_no_deadlock:
  assumes "rec_inv rel"
  shows "reliable_get_entry_sequenced rel \<noteq> None
     \<or> (reliable_can_get rel \<and> reliable_wont_break_sequentiality rel (r_packet_id rel)
        \<and> reliable_not_replay rel (r_packet_id rel))"
proof (cases "reliable_get_entry_sequenced rel = None")
  case no: True
  let ?es = "r_array rel" and ?b = "unat (r_packet_id rel)"
  have bounds: "?b \<le> 2 ^ 31" "length ?es \<le> 12" "0 < length ?es" using assms by (auto simp: rec_inv_def Let_def)
  from no have free: "\<not> (e_active e \<and> e_packet_id e = r_packet_id rel)" if "e \<in> set ?es" for e
    using that find_idx_None [of "\<lambda>e. e_active e \<and> e_packet_id e = r_packet_id rel" ?es]
    by (auto simp: reliable_get_entry_sequenced_def)
  have "reliable_can_get rel"
  proof (rule ccontr)
    assume "\<not> reliable_can_get rel"
    then have act: "e_active (?es ! i)" if "i < length ?es" for i using that by (auto simp: reliable_can_get_def)
    let ?f = "\<lambda>i. unat (e_packet_id (?es ! i))"
    have "inj_on ?f {..<length ?es}"
      using rec_inv_unique [OF assms] act by (auto simp: inj_on_def)
    then have "card (?f ` {..<length ?es}) = length ?es" by (simp add: card_image)
    moreover have "?f ` {..<length ?es} \<subseteq> {?b<..<?b + length ?es}"
    proof
      fix x assume "x \<in> ?f ` {..<length ?es}"
      then obtain i where i: "i < length ?es" "x = ?f i" by auto
      have "?b \<le> x" "x < ?b + length ?es" using assms i act by (auto simp: rec_inv_def Let_def)
      moreover have "x \<noteq> ?b" using free [OF nth_mem [OF i(1)]] act [OF i(1)] i(2) by (simp add: word_unat_eq_iff)
      ultimately show "x \<in> {?b<..<?b + length ?es}" by simp
    qed
    then have "card (?f ` {..<length ?es}) \<le> length ?es - 1" using card_mono [of "{?b<..<?b + length ?es}"] by simp
    ultimately show False using bounds(3) by linarith
  qed
  moreover have "\<not> reliable_pid_min (r_packet_id rel) (r_packet_id rel)
      \<and> reliable_pid_in_range2 (r_packet_id rel) (r_packet_id rel) (r_size rel)"
    using recv_window_iff [OF bounds(1,2), of "r_packet_id rel"] bounds(3) by simp
  ultimately show ?thesis
    using free by (auto simp: reliable_wont_break_sequentiality_def reliable_not_replay_def)
qed simp

theorem control_no_deadlock_witness:
  "\<exists>rel. reliable_init 64 8 4 False = Some rel \<and> (reliable_get_entry_sequenced rel \<noteq> None
     \<or> (reliable_can_get rel \<and> reliable_wont_break_sequentiality rel (r_packet_id rel)
        \<and> reliable_not_replay rel (r_packet_id rel)))"
proof -
  obtain rel where rel: "reliable_init 64 8 4 False = Some rel" using demo_reliable_init by blast
  show ?thesis using rel control_no_deadlock [OF reliable_init_rec(1) [OF rel]] by blast
qed

text \<open>the sequentiality test is wrong in the upper half of the id space. With the expected id
  anywhere between 0x80000001 and 0xfffffff3, the id 0, at least 13 ids ahead, passes both
  acceptance tests although it is outside the window of the layer.\<close>

theorem sequentiality_wrap_flaw:
  assumes "0x80000000 < unat base" "unat base \<le> 0xfffffff3" "0 < n" "n \<le> 12"
  shows "\<not> reliable_pid_min 0 base \<and> reliable_pid_in_range2 0 base (of_nat n) \<and> \<not> subtract_pid 0 base < of_nat n"
proof -
  have a: "unat (base + of_nat n) = unat base + n"
    using assms by (simp add: unat_word_ariths unat_of_nat take_bit_nat_eq_self)
  have "unat (0 - base) = 2 ^ 32 - unat base" using unat_sub_if_size [of 0 base] assms by (simp add: word_size)
  moreover have "unat (of_nat n :: u32) = n" using assms by (simp add: unat_of_nat take_bit_nat_eq_self)
  ultimately show ?thesis using a assms
    by (auto simp: reliable_pid_min_def reliable_pid_in_range1_def reliable_pid_in_range2_def subtract_pid_def
        word_less_nat_alt word_le_nat_alt)
qed

theorem sequentiality_wrap_flaw_witness:
  "\<not> reliable_pid_min 0 0xc0000000 \<and> reliable_pid_in_range2 0 0xc0000000 (of_nat 8) \<and> \<not> subtract_pid 0 0xc0000000 < of_nat 8"
  by (rule sequentiality_wrap_flaw) simp_all

end
