(* ===== verification/Circ_List.thy ===== *)
theory Circ_List
  imports Integer_Util
begin

text \<open>
  The circular list macros of \<^verbatim>\<open>openvpn/src/openvpn/circ_list.h\<close>, and the refinement that makes
  them usable: seen from its newest element, a circular list is a list of bounded length,
  and a push puts an element in front and drops the oldest one once the capacity is reached.
\<close>

section \<open>Definitions\<close>

record 'a circ_list =
  x_head :: int
  x_size :: int
  x_cap :: int
  x_list :: "'a list"

definition CIRC_LIST_PUSH :: "'a circ_list \<Rightarrow> 'a \<Rightarrow> 'a circ_list option" where
  "CIRC_LIST_PUSH obj item = do {
     h \<leftarrow> modulo_add (x_head obj) (-1) (x_cap obj);
     c_assert (0 \<le> h \<and> h < int (length (x_list obj)));
     Some (obj\<lparr>x_head := h, x_list := (x_list obj)[nat h := item],
               x_size := min_int (x_size obj + 1) (x_cap obj)\<rparr>)
   }"

definition CIRC_LIST_SIZE :: "'a circ_list \<Rightarrow> int" where
  "CIRC_LIST_SIZE obj = x_size obj"

definition CIRC_LIST_INDEX :: "'a circ_list \<Rightarrow> int \<Rightarrow> int option" where
  "CIRC_LIST_INDEX obj index = do {
     i \<leftarrow> index_verify index (x_size obj);
     modulo_add (x_head obj) i (x_cap obj)
   }"

text \<open>\<^verbatim>\<open>CIRC_LIST_ITEM\<close> is an lvalue: reading it and assigning to it.\<close>

definition CIRC_LIST_ITEM :: "'a circ_list \<Rightarrow> int \<Rightarrow> 'a option" where
  "CIRC_LIST_ITEM obj index = do {
     j \<leftarrow> CIRC_LIST_INDEX obj index;
     c_assert (0 \<le> j \<and> j < int (length (x_list obj)));
     Some (x_list obj ! nat j)
   }"

definition CIRC_LIST_ITEM_set :: "'a circ_list \<Rightarrow> int \<Rightarrow> 'a \<Rightarrow> 'a circ_list option" where
  "CIRC_LIST_ITEM_set obj index v = do {
     j \<leftarrow> CIRC_LIST_INDEX obj index;
     c_assert (0 \<le> j \<and> j < int (length (x_list obj)));
     Some (obj\<lparr>x_list := (x_list obj)[nat j := v]\<rparr>)
   }"

definition CIRC_LIST_RESET :: "'a circ_list \<Rightarrow> 'a circ_list" where
  "CIRC_LIST_RESET obj = obj\<lparr>x_head := 0, x_size := 0\<rparr>"

text \<open>\<^verbatim>\<open>memset\<close> to zero: \<open>z\<close> is the all-zero value of the element type.\<close>

definition CIRC_LIST_ALLOC :: "'a \<Rightarrow> nat \<Rightarrow> 'a circ_list" where
  "CIRC_LIST_ALLOC z n = \<lparr>x_head = 0, x_size = 0, x_cap = int n, x_list = replicate n z\<rparr>"

section \<open>Invariant and list view\<close>

definition circ_wf :: "'a circ_list \<Rightarrow> bool" where
  "circ_wf obj \<longleftrightarrow> 0 < x_cap obj \<and> x_cap obj = int (length (x_list obj))
     \<and> 0 \<le> x_head obj \<and> x_head obj < x_cap obj \<and> 0 \<le> x_size obj \<and> x_size obj \<le> x_cap obj"

definition circ_idx :: "'a circ_list \<Rightarrow> nat \<Rightarrow> nat" where
  "circ_idx obj i = (nat (x_head obj) + i) mod length (x_list obj)"

definition circ_view :: "'a circ_list \<Rightarrow> 'a list" where
  "circ_view obj = map (\<lambda>i. x_list obj ! circ_idx obj i) [0..<nat (x_size obj)]"

lemma length_circ_view [simp]: "length (circ_view obj) = nat (x_size obj)"
  by (simp add: circ_view_def)

lemma nth_circ_view: "i < nat (x_size obj) \<Longrightarrow> circ_view obj ! i = x_list obj ! circ_idx obj i"
  by (simp add: circ_view_def)

lemma circ_wf_alloc: "0 < n \<Longrightarrow> circ_wf (CIRC_LIST_ALLOC z n)"
  by (simp add: circ_wf_def CIRC_LIST_ALLOC_def)

lemma circ_view_alloc [simp]: "circ_view (CIRC_LIST_ALLOC z n) = []"
  by (simp add: circ_view_def CIRC_LIST_ALLOC_def)

lemma circ_wf_reset: "circ_wf obj \<Longrightarrow> circ_wf (CIRC_LIST_RESET obj)"
  by (auto simp: circ_wf_def CIRC_LIST_RESET_def)

lemma circ_view_reset [simp]: "circ_view (CIRC_LIST_RESET obj) = []"
  by (simp add: circ_view_def CIRC_LIST_RESET_def)

lemma circ_idx_less: "circ_wf obj \<Longrightarrow> circ_idx obj i < length (x_list obj)"
  by (auto simp: circ_wf_def circ_idx_def)

lemma CIRC_LIST_INDEX_eq:
  assumes "circ_wf obj" "i < nat (x_size obj)"
  shows "CIRC_LIST_INDEX obj (int i) = Some (int (circ_idx obj i))"
proof -
  have "int (circ_idx obj i) = (x_head obj + int i) mod x_cap obj"
    using assms by (simp add: circ_idx_def circ_wf_def of_nat_mod)
  moreover have "modulo_add (x_head obj) (int i) (x_cap obj) = Some ((x_head obj + int i) mod x_cap obj)"
    using assms by (intro modulo_add_mod) (auto simp: circ_wf_def)
  ultimately show ?thesis using assms by (simp add: CIRC_LIST_INDEX_def)
qed

lemma CIRC_LIST_ITEM_view [op_specs]:
  assumes "circ_wf obj" "i < length (circ_view obj)"
  shows "CIRC_LIST_ITEM obj (int i) = Some (circ_view obj ! i)"
  using assms circ_idx_less [OF assms(1), of i]
  by (simp add: CIRC_LIST_ITEM_def CIRC_LIST_INDEX_eq nth_circ_view)

lemma circ_idx_inj:
  assumes "circ_wf obj" "i < nat (x_size obj)" "j < nat (x_size obj)"
    and "circ_idx obj i = circ_idx obj j"
  shows "i = j"
proof -
  have "i < length (x_list obj)" "j < length (x_list obj)"
    using assms by (auto simp: circ_wf_def)
  then show ?thesis using mod_add_cancel assms(4) unfolding circ_idx_def by blast
qed

lemma CIRC_LIST_ITEM_set_view [op_specs]:
  assumes wf: "circ_wf obj" and i: "i < length (circ_view obj)"
  shows "\<exists>obj'. CIRC_LIST_ITEM_set obj (int i) v = Some obj' \<and> circ_wf obj'
           \<and> x_size obj' = x_size obj \<and> x_cap obj' = x_cap obj
           \<and> circ_view obj' = (circ_view obj)[i := v]"
proof -
  let ?o = "obj\<lparr>x_list := (x_list obj)[circ_idx obj i := v]\<rparr>"
  have eq: "CIRC_LIST_ITEM_set obj (int i) v = Some ?o"
    using wf i circ_idx_less [OF wf, of i]
    by (simp add: CIRC_LIST_ITEM_set_def CIRC_LIST_INDEX_eq)
  have "circ_view ?o = (circ_view obj)[i := v]"
  proof (rule nth_equalityI)
    fix j assume "j < length (circ_view ?o)"
    then have j: "j < nat (x_size obj)" by simp
    then have "circ_view ?o ! j = (x_list obj)[circ_idx obj i := v] ! circ_idx obj j"
      by (simp add: nth_circ_view circ_idx_def)
    also have "\<dots> = (circ_view obj)[i := v] ! j"
      using i j circ_idx_less [OF wf, of j] circ_idx_less [OF wf, of i] circ_idx_inj [OF wf j, of i]
      by (auto simp: nth_list_update nth_circ_view)
    finally show "circ_view ?o ! j = (circ_view obj)[i := v] ! j" .
  qed simp
  with eq wf show ?thesis by (auto simp: circ_wf_def)
qed

lemma circ_idx_push:
  assumes wf: "circ_wf obj" and h: "h = (x_head obj - 1) mod x_cap obj"
  shows "(nat h + Suc i) mod length (x_list obj) = circ_idx obj i"
proof -
  have "int ((nat h + Suc i) mod length (x_list obj)) = (h + 1 + int i) mod x_cap obj"
  proof -
    have "0 \<le> h" using wf h by (auto simp: circ_wf_def)
    then show ?thesis using wf by (simp add: circ_wf_def of_nat_mod algebra_simps)
  qed
  also have "\<dots> = (x_head obj + int i) mod x_cap obj"
  proof -
    have "(h + 1 + int i) mod x_cap obj = (h + (1 + int i)) mod x_cap obj" by (simp add: add.assoc)
    also have "\<dots> = (x_head obj - 1 + (1 + int i)) mod x_cap obj"
      unfolding h by (rule mod_add_left_eq)
    finally show ?thesis by simp
  qed
  also have "\<dots> = int (circ_idx obj i)"
    using wf by (simp add: circ_idx_def circ_wf_def of_nat_mod)
  finally show ?thesis by simp
qed

text \<open>Refinement of the push: front insertion, cut at the capacity.\<close>

lemma CIRC_LIST_PUSH_view [op_specs]:
  assumes wf: "circ_wf obj"
  shows "\<exists>obj'. CIRC_LIST_PUSH obj v = Some obj' \<and> circ_wf obj' \<and> x_cap obj' = x_cap obj
           \<and> circ_view obj' = take (nat (x_cap obj)) (v # circ_view obj)"
proof -
  define h where "h = (x_head obj - 1) mod x_cap obj"
  let ?n = "length (x_list obj)"
  let ?o = "obj\<lparr>x_head := h, x_list := (x_list obj)[nat h := v],
               x_size := min (x_size obj + 1) (x_cap obj)\<rparr>"
  have cap: "0 < x_cap obj" "x_cap obj = int ?n" using wf by (auto simp: circ_wf_def)
  have h: "0 \<le> h" "h < int ?n" using cap by (simp_all add: h_def)
  have "modulo_add (x_head obj) (-1) (x_cap obj) = Some h"
    using wf cap by (simp add: modulo_add_mod circ_wf_def h_def)
  then have eq: "CIRC_LIST_PUSH obj v = Some ?o"
    using h by (simp add: CIRC_LIST_PUSH_def)
  have wf': "circ_wf ?o" using wf h cap by (auto simp: circ_wf_def)
  have "circ_view ?o = take (nat (x_cap obj)) (v # circ_view obj)"
  proof (rule nth_equalityI)
    show "length (circ_view ?o) = length (take (nat (x_cap obj)) (v # circ_view obj))"
      using wf by (auto simp: circ_wf_def min_def)
    fix j assume "j < length (circ_view ?o)"
    then have j: "j < nat (x_size ?o)" by simp
    have "circ_view ?o ! j = (x_list obj)[nat h := v] ! ((nat h + j) mod ?n)"
      using j by (simp add: nth_circ_view circ_idx_def)
    also have "\<dots> = (v # circ_view obj) ! j"
    proof (cases j)
      case 0
      then show ?thesis using h by (simp add: nat_less_iff)
    next
      case (Suc i)
      from j Suc have i: "i < nat (x_size obj)" "Suc i < ?n" using cap by auto
      have idx: "(nat h + Suc i) mod ?n = circ_idx obj i"
        using circ_idx_push [OF wf h_def] .
      have "(nat h + Suc i) mod ?n \<noteq> nat h"
      proof
        assume "(nat h + Suc i) mod ?n = nat h"
        then have "(nat h + Suc i) mod ?n = (nat h + 0) mod ?n" using h by (simp add: nat_less_iff)
        moreover have "0 < ?n" using i by linarith
        ultimately show False using mod_add_cancel [of "nat h" "Suc i" ?n 0] i by simp
      qed
      then show ?thesis using Suc i idx circ_idx_less [OF wf, of i] by (simp add: nth_circ_view)
    qed
    finally show "circ_view ?o ! j = take (nat (x_cap obj)) (v # circ_view obj) ! j"
      using j by simp
  qed
  with eq wf' show ?thesis by auto
qed

end
