(* ===== verification/Packet_Id.thy ===== *)
theory Packet_Id
  imports Buffer Circ_List
begin

text \<open>
  Replay protection: \<^verbatim>\<open>openvpn/src/openvpn/packet_id.h\<close> and \<^verbatim>\<open>packet_id.c\<close>. The receiving side keeps
  the highest packet id seen and, in window mode (UDP), a circular list with one time stamp
  per recent id (0: not seen, 1: expired); in linear mode (TCP) ids must be consecutive. The
  sending side counts ids up. \<open>time_t\<close> values are \<open>int\<close>, ids are 64-bit words, and \<^verbatim>\<open>now\<close>, the
  global clock, is an argument.
\<close>

section \<open>State\<close>

definition PACKET_ID_MAX :: u64 where "PACKET_ID_MAX = 0xffffffff"
definition PACKET_ID_EPOCH_MAX :: u64 where "PACKET_ID_EPOCH_MAX = 0x0000ffffffffffff"
definition PACKET_ID_MASK :: u64 where "PACKET_ID_MASK = 0x0000ffffffffffff"
definition PACKET_ID_WRAP_TRIGGER :: u64 where "PACKET_ID_WRAP_TRIGGER = 0xFF000000"
definition MIN_SEQ_BACKTRACK :: int where "MIN_SEQ_BACKTRACK = 0"
definition MAX_SEQ_BACKTRACK :: int where "MAX_SEQ_BACKTRACK = 65536"
definition MIN_TIME_BACKTRACK :: int where "MIN_TIME_BACKTRACK = 0"
definition MAX_TIME_BACKTRACK :: int where "MAX_TIME_BACKTRACK = 600"
definition SEQ_REAP_INTERVAL :: int where "SEQ_REAP_INTERVAL = 5"
definition SEQ_UNSEEN :: int where "SEQ_UNSEEN = 0"
definition SEQ_EXPIRED :: int where "SEQ_EXPIRED = 1"

record packet_id_rec =
  rec_last_reap :: int
  rec_time :: int
  rec_id :: u64
  rec_seq_backtrack :: u64
  rec_time_backtrack :: int
  rec_max_backtrack_stat :: u64
  rec_initialized :: bool
  rec_seq_list :: "int circ_list option"
  rec_name :: string
  rec_unit :: int

record packet_id_send =
  send_id :: u64
  send_time :: int

record packet_id_net =
  net_id :: u64
  net_time :: int

record packet_id =
  pid_send :: packet_id_send
  pid_rec :: packet_id_rec

record packet_id_persist =
  pp_filename :: "string option"
  pp_fd :: int
  pp_time :: int
  pp_id :: u32
  pp_time_last_written :: int
  pp_id_last_written :: u32

text \<open>\<^verbatim>\<open>CLEAR(x)\<close>: all bytes zero.\<close>

definition packet_id_rec_zero :: packet_id_rec where
  "packet_id_rec_zero =
     \<lparr>rec_last_reap = 0, rec_time = 0, rec_id = 0, rec_seq_backtrack = 0, rec_time_backtrack = 0,
      rec_max_backtrack_stat = 0, rec_initialized = False, rec_seq_list = None, rec_name = [],
      rec_unit = 0\<rparr>"

definition packet_id_zero :: packet_id where
  "packet_id_zero = \<lparr>pid_send = \<lparr>send_id = 0, send_time = 0\<rparr>, pid_rec = packet_id_rec_zero\<rparr>"

section \<open>Life cycle\<close>

definition packet_id_init_recv ::
    "packet_id_rec \<Rightarrow> int \<Rightarrow> int \<Rightarrow> string \<Rightarrow> int \<Rightarrow> packet_id_rec option" where
  "packet_id_init_recv r seq_backtrack time_backtrack name unit = do {
     let r = r\<lparr>rec_name := name, rec_unit := unit\<rparr>;
     r' \<leftarrow> (if seq_backtrack \<noteq> 0 then do {
              c_assert (MIN_SEQ_BACKTRACK \<le> seq_backtrack \<and> seq_backtrack \<le> MAX_SEQ_BACKTRACK);
              c_assert (MIN_TIME_BACKTRACK \<le> time_backtrack \<and> time_backtrack \<le> MAX_TIME_BACKTRACK);
              Some (r\<lparr>rec_seq_list := Some (CIRC_LIST_ALLOC 0 (nat seq_backtrack)),
                      rec_seq_backtrack := word_of_int seq_backtrack,
                      rec_time_backtrack := time_backtrack\<rparr>) }
           else Some r);
     Some (r'\<lparr>rec_initialized := True\<rparr>)
   }"

definition packet_id_init :: "int \<Rightarrow> int \<Rightarrow> string \<Rightarrow> int \<Rightarrow> packet_id option" where
  "packet_id_init seq_backtrack time_backtrack name unit = do {
     let p = packet_id_zero;
     r \<leftarrow> packet_id_init_recv (pid_rec p) seq_backtrack time_backtrack name unit;
     Some (p\<lparr>pid_rec := r\<rparr>)
   }"

text \<open>\<^verbatim>\<open>packet_id_move_recv(dest, src)\<close>: the new \<open>dest\<close> and the reinitialised \<open>src\<close>.\<close>

definition packet_id_move_recv ::
    "packet_id_rec \<Rightarrow> packet_id_rec \<Rightarrow> (packet_id_rec \<times> packet_id_rec) option" where
  "packet_id_move_recv dest src = do {
     let dest = src;
     src' \<leftarrow> packet_id_init_recv packet_id_rec_zero (sint (ucast (rec_seq_backtrack dest) :: u32))
               (rec_time_backtrack dest) (rec_name dest) (rec_unit dest);
     Some (dest, src')
   }"

definition packet_id_free :: "packet_id \<Rightarrow> packet_id" where
  "packet_id_free p = packet_id_zero"

definition packet_id_initialized :: "packet_id \<Rightarrow> bool" where
  "packet_id_initialized pid = rec_initialized (pid_rec pid)"

section \<open>Receiving side\<close>

text \<open>The loop of \<^verbatim>\<open>packet_id_add\<close>: open one unseen slot per id up to the new one.\<close>

function packet_id_add_loop :: "u64 \<Rightarrow> u64 \<Rightarrow> int circ_list \<Rightarrow> (u64 \<times> int circ_list) option" where
  "packet_id_add_loop pin_id p_id sl =
     (if p_id < pin_id
      then do { sl' \<leftarrow> CIRC_LIST_PUSH sl SEQ_UNSEEN; packet_id_add_loop pin_id (p_id + 1) sl' }
      else Some (p_id, sl))"
  by pat_completeness auto
termination
  by (relation "measure (\<lambda>(pin_id, p_id, sl). unat pin_id - unat p_id)")
     (auto simp: word_less_pred_Suc word_less_nat_alt)

declare packet_id_add_loop.simps [simp del]

text \<open>
  The index handed to \<^verbatim>\<open>CIRC_LIST_ITEM\<close> is an \<^verbatim>\<open>int\<close>: the 64-bit difference is cut to 32 bits
  and read as signed.
\<close>

definition int_index :: "u64 \<Rightarrow> int" where
  "int_index d = sint (ucast d :: u32)"

definition packet_id_add :: "int \<Rightarrow> packet_id_rec \<Rightarrow> packet_id_net \<Rightarrow> packet_id_rec option" where
  "packet_id_add now p pin =
     (case rec_seq_list p of
        Some sl0 \<Rightarrow> do {
          let restart = (CIRC_LIST_SIZE sl0 = 0 \<or> net_time pin > rec_time p
                \<or> (net_id pin \<ge> rec_seq_backtrack p
                   \<and> net_id pin - rec_seq_backtrack p > rec_id p));
          let t = (if restart then net_time pin else rec_time p);
          let i = (if restart
                   then (if net_id pin > rec_seq_backtrack p
                         then net_id pin - rec_seq_backtrack p else 0)
                   else rec_id p);
          let sl = (if restart then CIRC_LIST_RESET sl0 else sl0);
          (i', sl1) \<leftarrow> packet_id_add_loop (net_id pin) i sl;
          let diff = i' - net_id pin;
          sl2 \<leftarrow> (if sint diff < CIRC_LIST_SIZE sl1 \<and> now > SEQ_EXPIRED
                 then CIRC_LIST_ITEM_set sl1 (int_index diff) now else Some sl1);
          Some (p\<lparr>rec_time := t, rec_id := i', rec_seq_list := Some sl2\<rparr>) }
      | None \<Rightarrow> Some (p\<lparr>rec_time := net_time pin, rec_id := net_id pin\<rparr>))"

text \<open>The loop of \<^verbatim>\<open>packet_id_reap\<close> from index \<open>i\<close>.\<close>

function packet_id_reap_loop ::
    "int \<Rightarrow> int \<Rightarrow> bool \<Rightarrow> nat \<Rightarrow> int circ_list \<Rightarrow> int circ_list option" where
  "packet_id_reap_loop now time_backtrack expire i sl =
     (if int i < CIRC_LIST_SIZE sl then do {
        t \<leftarrow> CIRC_LIST_ITEM sl (int i);
        (if t = SEQ_EXPIRED then Some sl
         else do {
           let expire = (expire \<or> (t \<noteq> 0 \<and> t + time_backtrack < now));
           sl' \<leftarrow> (if expire then CIRC_LIST_ITEM_set sl (int i) SEQ_EXPIRED else Some sl);
           packet_id_reap_loop now time_backtrack expire (Suc i) sl' }) }
      else Some sl)"
  by pat_completeness auto
termination
  by (relation "measure (\<lambda>(now, tb, e, i, sl). nat (CIRC_LIST_SIZE sl) - i)")
     (auto simp: CIRC_LIST_ITEM_set_def CIRC_LIST_SIZE_def bind_eq_Some_conv split: if_splits)

declare packet_id_reap_loop.simps [simp del]

definition packet_id_reap :: "int \<Rightarrow> packet_id_rec \<Rightarrow> packet_id_rec option" where
  "packet_id_reap now p = do {
     p' \<leftarrow> (if rec_time_backtrack p \<noteq> 0 then do {
              sl \<leftarrow> rec_seq_list p;
              sl' \<leftarrow> packet_id_reap_loop now (rec_time_backtrack p) False 0 sl;
              Some (p\<lparr>rec_seq_list := Some sl'\<rparr>) }
           else Some p);
     Some (p'\<lparr>rec_last_reap := now\<rparr>)
   }"

definition packet_id_reap_test :: "int \<Rightarrow> packet_id_rec \<Rightarrow> packet_id_rec option" where
  "packet_id_reap_test now p =
     (if rec_last_reap p + SEQ_REAP_INTERVAL \<le> now then packet_id_reap now p else Some p)"

text \<open>
  \<^verbatim>\<open>packet_id_test\<close> returns the verdict and the state, whose backtrack statistic it updates.
\<close>

definition packet_id_test :: "packet_id_rec \<Rightarrow> packet_id_net \<Rightarrow> (bool \<times> packet_id_rec) option" where
  "packet_id_test p pin = do {
     c_assert (rec_initialized p);
     (if net_id pin = 0 then Some (False, p)
      else if rec_seq_backtrack p \<noteq> 0 then
        (if net_time pin = rec_time p then
           (if net_id pin > rec_id p then Some (True, p)
            else do {
              let diff = rec_id p - net_id pin;
              let p = (if diff > rec_max_backtrack_stat p
                       then p\<lparr>rec_max_backtrack_stat := diff\<rparr> else p);
              sl \<leftarrow> rec_seq_list p;
              (if diff \<ge> ucast (word_of_int (CIRC_LIST_SIZE sl) :: u32) then Some (False, p)
               else do { v \<leftarrow> CIRC_LIST_ITEM sl (int_index diff); Some (v = 0, p) }) })
         else if net_time pin < rec_time p then Some (False, p)
         else Some (True, p))
      else
        (if net_time pin = rec_time p
         then Some (rec_id p = 0 \<or> net_id pin = rec_id p + 1, p)
         else if net_time pin < rec_time p then Some (False, p)
         else Some (net_id pin = 1, p)))
   }"

section \<open>Wire format and sending side\<close>

definition packet_id_read ::
    "buffer \<Rightarrow> bool \<Rightarrow> (bool \<times> packet_id_net \<times> buffer) option" where
  "packet_id_read buf long_form = do {
     let pin = \<lparr>net_id = 0, net_time = 0\<rparr>;
     (r, buf) \<leftarrow> buf_read buf 4;
     (case r of
        None \<Rightarrow> Some (False, pin, buf)
      | Some bs \<Rightarrow>
          (let pin = pin\<lparr>net_id := ucast (rd32 bs)\<rparr> in
           if long_form then do {
             (r, buf) \<leftarrow> buf_read buf 4;
             (case r of
                None \<Rightarrow> Some (False, pin, buf)
              | Some bs \<Rightarrow> Some (True, pin\<lparr>net_time := uint (rd32 bs)\<rparr>, buf)) }
           else Some (True, pin, buf)))
   }"

definition packet_id_send_update :: "int \<Rightarrow> packet_id_send \<Rightarrow> bool \<Rightarrow> bool \<times> packet_id_send" where
  "packet_id_send_update now p long_form =
     (let p = (if send_time p = 0 then p\<lparr>send_time := now\<rparr> else p) in
      if send_id p = PACKET_ID_MAX then
        (if \<not> long_form \<or> now \<le> send_time p then (False, p)
         else (True, p\<lparr>send_time := now, send_id := 0 + 1\<rparr>))
      else (True, p\<lparr>send_id := send_id p + 1\<rparr>))"

definition packet_id_send_update_epoch :: "int \<Rightarrow> packet_id_send \<Rightarrow> bool \<times> packet_id_send" where
  "packet_id_send_update_epoch now p =
     (let p = (if send_time p = 0 then p\<lparr>send_time := now\<rparr> else p) in
      if send_id p = PACKET_ID_EPOCH_MAX then (False, p)
      else (True, p\<lparr>send_id := send_id p + 1\<rparr>))"

definition packet_id_write ::
    "int \<Rightarrow> packet_id_send \<Rightarrow> buffer \<Rightarrow> bool \<Rightarrow> bool \<Rightarrow> (bool \<times> packet_id_send \<times> buffer) option" where
  "packet_id_write now p buf long_form prepend =
     (case packet_id_send_update now p long_form of
        (False, p) \<Rightarrow> Some (False, p, buf)
      | (True, p) \<Rightarrow>
          (let pid = be32 (ucast (send_id p)); tm = be32 (word_of_int (send_time p)) in
           if prepend then do {
             (ok, buf) \<leftarrow> (if long_form then buf_write_prepend buf tm else Some (True, buf));
             (if \<not> ok then Some (False, p, buf)
              else do { (ok, buf) \<leftarrow> buf_write_prepend buf pid; Some (ok, p, buf) }) }
           else do {
             (ok, buf) \<leftarrow> buf_write buf pid;
             (if \<not> ok then Some (False, p, buf)
              else if long_form then do { (ok, buf) \<leftarrow> buf_write buf tm; Some (ok, p, buf) }
              else Some (True, p, buf)) }))"

definition packet_id_read_epoch ::
    "packet_id_net \<Rightarrow> buffer \<Rightarrow> (u16 \<times> packet_id_net \<times> buffer) option" where
  "packet_id_read_epoch pin buf = do {
     (r, buf) \<leftarrow> buf_read buf 8;
     (case r of
        None \<Rightarrow> Some (0, pin, buf)
      | Some bs \<Rightarrow>
          (let i = rd64 bs in
           Some (ucast (drop_bit 48 i), pin\<lparr>net_id := i AND PACKET_ID_MASK\<rparr>, buf)))
   }"

definition packet_id_write_epoch ::
    "int \<Rightarrow> packet_id_send \<Rightarrow> u16 \<Rightarrow> buffer \<Rightarrow> (bool \<times> packet_id_send \<times> buffer) option" where
  "packet_id_write_epoch now p epoch buf =
     (case packet_id_send_update_epoch now p of
        (False, p) \<Rightarrow> Some (False, p, buf)
      | (True, p) \<Rightarrow> do {
          let i = push_bit 48 (ucast epoch :: u64) OR send_id p;
          (ok, buf) \<leftarrow> buf_write buf (be64 i);
          Some (ok, p, buf) })"

definition reset_packet_id_send :: "packet_id_send \<Rightarrow> packet_id_send" where
  "reset_packet_id_send p = p\<lparr>send_time := 0, send_id := 0\<rparr>"

definition packet_id_size :: "bool \<Rightarrow> int" where
  "packet_id_size long_form = 4 + (if long_form then 4 else 0)"

definition packet_id_close_to_wrapping :: "packet_id_send \<Rightarrow> bool" where
  "packet_id_close_to_wrapping p \<longleftrightarrow> send_id p \<ge> PACKET_ID_WRAP_TRIGGER"

section \<open>Persistence across sessions\<close>

definition packet_id_persist_init :: "packet_id_persist \<Rightarrow> packet_id_persist" where
  "packet_id_persist_init p =
     p\<lparr>pp_filename := None, pp_fd := -1, pp_time := 0, pp_time_last_written := 0, pp_id := 0,
       pp_id_last_written := 0\<rparr>"

definition packet_id_persist_enabled :: "packet_id_persist \<Rightarrow> bool" where
  "packet_id_persist_enabled p \<longleftrightarrow> pp_fd p \<ge> 0"

definition packet_id_persist_close :: "packet_id_persist \<Rightarrow> packet_id_persist" where
  "packet_id_persist_close p =
     (if packet_id_persist_enabled p then packet_id_persist_init p else p)"

text \<open>
  The results of the system calls are arguments: \<open>fd\<close> from \<^verbatim>\<open>open\<close>, \<open>locked\<close> whether \<^verbatim>\<open>flock\<close>
  succeeds (its failure is fatal), \<open>img\<close> the file image when the read returned all of it.
\<close>

definition packet_id_persist_load ::
    "int \<Rightarrow> bool \<Rightarrow> (int \<times> u32) option \<Rightarrow> packet_id_persist \<Rightarrow> string \<Rightarrow> packet_id_persist option" where
  "packet_id_persist_load fd locked img p filename =
     (if \<not> packet_id_persist_enabled p then
        (let p = p\<lparr>pp_fd := fd\<rparr> in
         if fd = -1 then Some p
         else do {
           c_assert locked;
           let p = p\<lparr>pp_filename := Some filename\<rparr>;
           Some (case img of
                   Some (t, i) \<Rightarrow> p\<lparr>pp_time := t, pp_time_last_written := t,
                                    pp_id := i, pp_id_last_written := i\<rparr>
                 | None \<Rightarrow> p) })
      else Some p)"

text \<open>The written image, if any, is the second component.\<close>

definition packet_id_persist_save ::
    "bool \<Rightarrow> bool \<Rightarrow> packet_id_persist \<Rightarrow> packet_id_persist \<times> (int \<times> u32) option" where
  "packet_id_persist_save seek_ok write_ok p =
     (if packet_id_persist_enabled p \<and> pp_time p \<noteq> 0
         \<and> (pp_time p \<noteq> pp_time_last_written p \<or> pp_id p \<noteq> pp_id_last_written p)
      then (if seek_ok then
              (if write_ok
               then (p\<lparr>pp_time_last_written := pp_time p, pp_id_last_written := pp_id p\<rparr>,
                     Some (pp_time p, pp_id p))
               else (p, None))
            else (p, None))
      else (p, None))"

definition packet_id_persist_load_obj :: "packet_id_persist \<Rightarrow> packet_id \<Rightarrow> packet_id" where
  "packet_id_persist_load_obj p pid =
     (if packet_id_persist_enabled p \<and> pp_time p \<noteq> 0
      then pid\<lparr>pid_rec := (pid_rec pid)\<lparr>rec_time := pp_time p, rec_id := ucast (pp_id p)\<rparr>\<rparr>
      else pid)"

definition packet_id_persist_save_obj :: "packet_id_persist \<Rightarrow> packet_id \<Rightarrow> packet_id_persist" where
  "packet_id_persist_save_obj p pid =
     (if packet_id_persist_enabled p \<and> rec_time (pid_rec pid) \<noteq> 0
      then p\<lparr>pp_time := rec_time (pid_rec pid), pp_id := ucast (rec_id (pid_rec pid))\<rparr>
      else p)"

section \<open>The window invariant\<close>

definition pid_window :: "packet_id_rec \<Rightarrow> int list" where
  "pid_window p = (case rec_seq_list p of None \<Rightarrow> [] | Some sl \<Rightarrow> circ_view sl)"

text \<open>
  Window mode: the circular list has the capacity of the configured window and remembers at
  most \<open>rec_id\<close> ids. In a well-formed state it is empty only when nothing was received.
\<close>

definition pid_window_shape :: "packet_id_rec \<Rightarrow> bool" where
  "pid_window_shape p \<longleftrightarrow> rec_initialized p
     \<and> 0 < unat (rec_seq_backtrack p) \<and> unat (rec_seq_backtrack p) \<le> 65536
     \<and> (case rec_seq_list p of
          None \<Rightarrow> False
        | Some sl \<Rightarrow> circ_wf sl \<and> x_cap sl = uint (rec_seq_backtrack p)
                   \<and> nat (x_size sl) \<le> unat (rec_id p))"

definition pid_window_wf :: "packet_id_rec \<Rightarrow> bool" where
  "pid_window_wf p \<longleftrightarrow> pid_window_shape p \<and> (pid_window p = [] \<longrightarrow> rec_id p = 0)"

text \<open>
  What the state knows to be unacceptable: an older time stamp, or an id of the current time
  stamp that is below the window or marked inside it.
\<close>

definition pid_known :: "packet_id_rec \<Rightarrow> packet_id_net \<Rightarrow> bool" where
  "pid_known p k \<longleftrightarrow> net_time k < rec_time p
     \<or> (net_time k = rec_time p \<and> net_id k \<le> rec_id p
        \<and> (unat (rec_id p) - unat (net_id k) < length (pid_window p)
             \<longrightarrow> pid_window p ! (unat (rec_id p) - unat (net_id k)) \<noteq> 0))"

lemma pid_window_shapeE:
  assumes "pid_window_shape p"
  obtains sl where "rec_seq_list p = Some sl" "circ_wf sl" "rec_initialized p"
    "x_cap sl = uint (rec_seq_backtrack p)" "0 < unat (rec_seq_backtrack p)"
    "unat (rec_seq_backtrack p) \<le> 65536" "nat (x_size sl) \<le> unat (rec_id p)"
    "pid_window p = circ_view sl" "0 \<le> x_size sl" "x_size sl \<le> 65536"
proof -
  from assms obtain sl where sl: "rec_seq_list p = Some sl" "circ_wf sl"
    "x_cap sl = uint (rec_seq_backtrack p)"
    by (auto simp: pid_window_shape_def split: option.splits)
  have "uint (rec_seq_backtrack p) \<le> 65536"
    using assms uint_le_unat [of "rec_seq_backtrack p" 65536] by (simp add: pid_window_shape_def)
  with sl have "0 \<le> x_size sl" "x_size sl \<le> 65536" by (auto simp: circ_wf_def)
  with sl assms that show thesis by (auto simp: pid_window_shape_def pid_window_def)
qed

lemma pid_window_wf_shape: "pid_window_wf p \<Longrightarrow> pid_window_shape p"
  by (simp add: pid_window_wf_def)

lemma int_index_small: "unat d < 2 ^ 31 \<Longrightarrow> int_index d = int (unat d)"
proof -
  assume a: "unat d < 2 ^ 31"
  then have "uint d < 2 ^ 31" using uint_less_unat [of d "2 ^ 31"] by simp
  then have "signed_take_bit 31 (uint d) = uint d"
    using order_trans [OF _ uint_ge_0 [of d], of "- 2147483648"]
    by (intro signed_take_bit_int_eq_self) simp_all
  moreover have "sint (ucast d :: u32) = signed_take_bit 31 (uint d)"
    by (simp add: signed_ucast_eq)
  ultimately have "sint (ucast d :: u32) = uint d" by simp
  then show ?thesis by (simp add: int_index_def)
qed

lemma take_append_take: "take c (xs @ take c ys) = take c (xs @ ys)"
  by (simp add: min_def)

lemma packet_id_add_loop_spec:
  assumes "circ_wf sl"
  shows "\<exists>sl'. packet_id_add_loop k i sl = Some (max i k, sl') \<and> circ_wf sl' \<and> x_cap sl' = x_cap sl
           \<and> circ_view sl' = take (nat (x_cap sl)) (replicate (unat k - unat i) 0 @ circ_view sl)"
  using assms
proof (induction k i sl rule: packet_id_add_loop.induct)
  case (1 k i sl)
  show ?case
  proof (cases "i < k")
    case True
    from CIRC_LIST_PUSH_view [OF "1.prems", of SEQ_UNSEEN] obtain sl1
      where sl1: "CIRC_LIST_PUSH sl SEQ_UNSEEN = Some sl1" "circ_wf sl1" "x_cap sl1 = x_cap sl"
        "circ_view sl1 = take (nat (x_cap sl)) (0 # circ_view sl)"
      by (auto simp: SEQ_UNSEEN_def)
    from "1.IH" [OF True sl1(1,2)] obtain sl'
      where sl': "packet_id_add_loop k (i + 1) sl1 = Some (max (i + 1) k, sl')" "circ_wf sl'"
        "x_cap sl' = x_cap sl1"
        "circ_view sl' = take (nat (x_cap sl1)) (replicate (unat k - unat (i + 1)) 0 @ circ_view sl1)"
      by blast
    have i1: "unat (i + 1) = Suc (unat i)" using True by (rule word_less_pred_Suc)
    have "unat i < unat k" using True by (simp add: word_less_nat_alt)
    then have n: "unat k - unat i = Suc (unat k - unat (i + 1))" using i1 by simp
    have rep: "replicate m 0 @ 0 # circ_view sl = replicate (Suc m) 0 @ circ_view sl" for m
      by (simp add: replicate_app_Cons_same)
    have "max (i + 1) k = max i k" using True i1 by (simp add: max_def word_le_nat_alt word_less_nat_alt)
    moreover have "circ_view sl' = take (nat (x_cap sl)) (replicate (unat k - unat i) 0 @ circ_view sl)"
      by (simp only: sl'(4) sl1(3,4) take_append_take rep n)
    ultimately show ?thesis
      using True sl1 sl'(1-3) by (subst packet_id_add_loop.simps) simp
  next
    case False
    from "1.prems" have "nat (x_size sl) \<le> nat (x_cap sl)" by (auto simp: circ_wf_def)
    moreover have "unat k - unat i = 0" using False by (simp add: word_less_nat_alt)
    ultimately show ?thesis
      using False "1.prems" by (subst packet_id_add_loop.simps) (simp add: max_def)
  qed
qed

text \<open>\<open>packet_id_test\<close> in window mode: total, and exactly the ids not known are accepted.\<close>

lemma packet_id_test_window [op_specs]:
  assumes wf: "pid_window_shape p"
  shows "\<exists>m. packet_id_test p k
           = Some (net_id k \<noteq> 0 \<and> \<not> pid_known p k, p\<lparr>rec_max_backtrack_stat := m\<rparr>)"
proof -
  from wf obtain sl where sl: "rec_seq_list p = Some sl" "circ_wf sl" "rec_initialized p"
    "0 < unat (rec_seq_backtrack p)" "pid_window p = circ_view sl" "0 \<le> x_size sl" "x_size sl \<le> 65536"
    by (rule pid_window_shapeE)
  have bt: "rec_seq_backtrack p \<noteq> 0" using sl(4) by auto
  let ?d = "rec_id p - net_id k"
  have self: "p\<lparr>rec_max_backtrack_stat := rec_max_backtrack_stat p\<rparr> = p" by simp
  consider "net_id k = 0" | "net_id k \<noteq> 0" "net_time k < rec_time p"
    | "net_id k \<noteq> 0" "net_time k > rec_time p"
    | "net_id k \<noteq> 0" "net_time k = rec_time p" "net_id k > rec_id p"
    | (win) "net_id k \<noteq> 0" "net_time k = rec_time p" "net_id k \<le> rec_id p"
    by (metis linorder_neqE not_le)
  then show ?thesis
  proof cases
    case win
    then have d: "unat ?d = unat (rec_id p) - unat (net_id k)" "\<not> net_id k > rec_id p"
      by (simp_all add: unat_sub_le)
    have szw: "unat (ucast (word_of_int (x_size sl) :: u32) :: u64) = nat (x_size sl)"
      using sl(6,7) by (simp add: unat_ucast_up unat_word_of_int)
    show ?thesis
    proof (cases "nat (x_size sl) \<le> unat ?d")
      case True
      with win d bt sl szw show ?thesis
        by (auto simp: packet_id_test_def pid_known_def Let_def CIRC_LIST_SIZE_def word_le_nat_alt
            intro!: exI [of _ "if rec_max_backtrack_stat p < ?d then ?d else rec_max_backtrack_stat p"])
    next
      case False
      then have "unat ?d < 65536" using sl(7) by linarith
      then have "unat ?d < 2 ^ 31" by simp
      then have "CIRC_LIST_ITEM sl (int_index ?d) = Some (circ_view sl ! unat ?d)"
        using False sl(2) by (simp only: int_index_small) (rule CIRC_LIST_ITEM_view, simp_all)
      with win d bt sl szw False show ?thesis
        by (auto simp: packet_id_test_def pid_known_def Let_def CIRC_LIST_SIZE_def word_le_nat_alt
            intro!: exI [of _ "if rec_max_backtrack_stat p < ?d then ?d else rec_max_backtrack_stat p"])
    qed
  qed (use bt sl self in \<open>auto simp: packet_id_test_def pid_known_def
         intro!: exI [of _ "rec_max_backtrack_stat p"]\<close>)
qed

text \<open>
  \<open>packet_id_add\<close> in window mode, over the window as a list: where the sequence restarts the
  window is all unseen, otherwise it is shifted by the ids that were skipped; then the slot
  of the new id is stamped.
\<close>

definition pid_restart :: "packet_id_rec \<Rightarrow> packet_id_net \<Rightarrow> bool" where
  "pid_restart p k \<longleftrightarrow> pid_window p = [] \<or> net_time k > rec_time p
     \<or> (net_id k \<ge> rec_seq_backtrack p \<and> net_id k - rec_seq_backtrack p > rec_id p)"

definition pid_base :: "packet_id_rec \<Rightarrow> packet_id_net \<Rightarrow> nat" where
  "pid_base p k = (if pid_restart p k then unat (net_id k) - unat (rec_seq_backtrack p)
                   else unat (rec_id p))"

definition pid_shifted :: "packet_id_rec \<Rightarrow> packet_id_net \<Rightarrow> int list" where
  "pid_shifted p k = take (unat (rec_seq_backtrack p))
     (replicate (unat (net_id k) - pid_base p k) 0 @ (if pid_restart p k then [] else pid_window p))"

lemma packet_id_add_window:
  assumes wf: "pid_window_shape p" and now: "1 < now"
    and in_win: "max (pid_base p k) (unat (net_id k)) - unat (net_id k) < length (pid_shifted p k)"
  shows "\<exists>p'. packet_id_add now p k = Some p' \<and> rec_initialized p'
     \<and> rec_seq_backtrack p' = rec_seq_backtrack p
     \<and> rec_time p' = (if pid_restart p k then net_time k else rec_time p)
     \<and> unat (rec_id p') = max (pid_base p k) (unat (net_id k))
     \<and> (\<exists>sl'. rec_seq_list p' = Some sl' \<and> circ_wf sl' \<and> x_cap sl' = uint (rec_seq_backtrack p))
     \<and> pid_window p' = (pid_shifted p k)[max (pid_base p k) (unat (net_id k)) - unat (net_id k) := now]"
proof -
  from wf obtain sl where sl: "rec_seq_list p = Some sl" "circ_wf sl" "rec_initialized p"
    "x_cap sl = uint (rec_seq_backtrack p)" "pid_window p = circ_view sl" "0 \<le> x_size sl"
    "unat (rec_seq_backtrack p) \<le> 65536"
    by (rule pid_window_shapeE)
  let ?r = "pid_restart p k"
  define i where "i = (if ?r then (if net_id k > rec_seq_backtrack p
      then net_id k - rec_seq_backtrack p else 0) else rec_id p)"
  define s where "s = (if ?r then CIRC_LIST_RESET sl else sl)"
  have r: "(CIRC_LIST_SIZE sl = 0 \<or> net_time k > rec_time p \<or> (net_id k \<ge> rec_seq_backtrack p
              \<and> net_id k - rec_seq_backtrack p > rec_id p)) = ?r"
    using sl(6) by (auto simp: pid_restart_def CIRC_LIST_SIZE_def sl(5) circ_view_def)
  have base: "unat i = pid_base p k"
    by (auto simp: i_def pid_base_def word_less_nat_alt unat_sub_le word_le_nat_alt)
  have s: "circ_wf s" "x_cap s = uint (rec_seq_backtrack p)" "circ_view s = (if ?r then [] else pid_window p)"
    using sl by (auto simp: s_def circ_wf_reset) (simp add: CIRC_LIST_RESET_def)
  from packet_id_add_loop_spec [OF s(1), of "net_id k" i] obtain s1
    where s1: "packet_id_add_loop (net_id k) i s = Some (max i (net_id k), s1)" "circ_wf s1"
      "x_cap s1 = uint (rec_seq_backtrack p)" "circ_view s1 = pid_shifted p k"
    using s base by (auto simp: pid_shifted_def)
  have m: "unat (max i (net_id k)) = max (pid_base p k) (unat (net_id k))"
    using base by (simp add: max_def word_le_nat_alt)
  define d where "d = max i (net_id k) - net_id k"
  have d: "unat d = max (pid_base p k) (unat (net_id k)) - unat (net_id k)"
    unfolding d_def by (subst unat_sub_le) (simp_all add: m)
  have len: "length (pid_shifted p k) \<le> 65536" using sl(7) by (simp add: pid_shifted_def)
  then have "unat d < 65536" using in_win d by linarith
  then have small: "unat d < 2 ^ 31" by simp
  then have "uint d < 2 ^ 31" using uint_less_unat [of d "2 ^ 31"] by simp
  then have "signed_take_bit 63 (uint d) = uint d"
    using order_trans [OF _ uint_ge_0 [of d], of "- 9223372036854775808"]
    by (intro signed_take_bit_int_eq_self) simp_all
  then have sd: "sint d = int (unat d)" by (simp add: sint_uint)
  have "unat d < length (circ_view s1)" using in_win d s1(4) by simp
  moreover from this have "int (unat d) < CIRC_LIST_SIZE s1"
    using s1(2) by (simp add: CIRC_LIST_SIZE_def circ_wf_def uint_less_unat [symmetric] nat_less_iff [symmetric])
  ultimately obtain s2 where s2: "CIRC_LIST_ITEM_set s1 (int_index d) now = Some s2" "circ_wf s2"
      "x_cap s2 = x_cap s1" "circ_view s2 = (pid_shifted p k)[unat d := now]"
      "sint d < CIRC_LIST_SIZE s1"
    using CIRC_LIST_ITEM_set_view [OF s1(2), of "unat d" now] small sd s1(4)
    by (auto simp: int_index_small)
  have "packet_id_add now p k = Some (p\<lparr>rec_time := (if ?r then net_time k else rec_time p),
      rec_id := max i (net_id k), rec_seq_list := Some s2\<rparr>)"
    using sl(1) r s1(1) s2(1,5) now
    unfolding packet_id_add_def i_def s_def d_def by (simp add: Let_def SEQ_EXPIRED_def)
  with m d s2 s1(3) sl(3) show ?thesis by (simp add: pid_window_def)
qed

lemma pid_window_length:
  assumes "pid_window_shape p"
  shows "length (pid_window p) \<le> unat (rec_id p)"
    and "length (pid_window p) \<le> unat (rec_seq_backtrack p)"
proof -
  from assms obtain sl where sl: "circ_wf sl" "x_cap sl = uint (rec_seq_backtrack p)"
    "nat (x_size sl) \<le> unat (rec_id p)"
    "pid_window p = circ_view sl" "0 \<le> x_size sl" by (rule pid_window_shapeE)
  have "x_size sl \<le> int (unat (rec_seq_backtrack p))" using sl(1,2) by (auto simp: circ_wf_def)
  then show "length (pid_window p) \<le> unat (rec_seq_backtrack p)"
    unfolding sl(4) length_circ_view by linarith
  show "length (pid_window p) \<le> unat (rec_id p)" using sl by simp
qed

lemma pid_fresh_cases:
  assumes "\<not> pid_known p k"
  obtains "net_time k > rec_time p"
    | "net_time k = rec_time p" "unat (rec_id p) < unat (net_id k)"
    | "net_time k = rec_time p" "unat (net_id k) \<le> unat (rec_id p)"
      "unat (rec_id p) - unat (net_id k) < length (pid_window p)"
  using assms
  by (cases "net_time k > rec_time p"; cases "net_id k \<le> rec_id p")
     (auto simp: pid_known_def word_le_nat_alt not_le)

lemma pid_fresh_in_window:
  assumes wf: "pid_window_shape p" and fresh: "\<not> pid_known p k" and k: "net_id k \<noteq> 0"
  shows "max (pid_base p k) (unat (net_id k)) - unat (net_id k) < length (pid_shifted p k)"
    and "length (pid_shifted p k) \<le> max (pid_base p k) (unat (net_id k))"
proof -
  have n: "0 < unat (net_id k)" using k by (simp add: unat_gt_0)
  have bt: "0 < unat (rec_seq_backtrack p)" using wf by (simp add: pid_window_shape_def)
  note len = pid_window_length [OF wf]
  show "max (pid_base p k) (unat (net_id k)) - unat (net_id k) < length (pid_shifted p k)"
  proof (cases "pid_restart p k")
    case True
    with n bt show ?thesis by (simp add: pid_shifted_def pid_base_def)
  next
    case False
    with fresh len n bt show ?thesis
      by (auto simp: pid_shifted_def pid_base_def pid_restart_def elim!: pid_fresh_cases)
  qed
  show "length (pid_shifted p k) \<le> max (pid_base p k) (unat (net_id k))"
    using len by (auto simp: pid_shifted_def pid_base_def)
qed

text \<open>Ids known before a fresh id is added stay known: the window only ever forgets by rejecting.\<close>

lemma pid_known_shift:
  assumes wf: "pid_window_wf p" and fresh: "\<not> pid_known p k" and kn: "pid_known p j"
    and id': "unat (rec_id p') = max (pid_base p k) (unat (net_id k))"
    and time': "rec_time p' = (if pid_restart p k then net_time k else rec_time p)"
    and win': "pid_window p' = (pid_shifted p k)[m := now]" and now: "1 < now"
    and k: "net_id k \<noteq> 0"
  shows "pid_known p' j"
proof (cases "net_time j < rec_time p'")
  case True
  then show ?thesis by (simp add: pid_known_def)
next
  case False
  have tk: "rec_time p \<le> net_time k" using fresh by (auto simp: pid_known_def)
  from kn have tj: "net_time j \<le> rec_time p" by (auto simp: pid_known_def)
  have t: "net_time j = rec_time p" "rec_time p' = rec_time p"
    using False tk tj time' by (auto split: if_splits)
  with kn have ji: "unat (net_id j) \<le> unat (rec_id p)"
    and jw: "unat (rec_id p) - unat (net_id j) < length (pid_window p) \<Longrightarrow>
             pid_window p ! (unat (rec_id p) - unat (net_id j)) \<noteq> 0"
    by (auto simp: pid_known_def word_le_nat_alt)
  have empty: "pid_window p = [] \<Longrightarrow> rec_id p = 0" using wf by (simp add: pid_window_wf_def)
  let ?d = "unat (rec_id p') - unat (net_id j)"
  have bt: "0 < unat (rec_seq_backtrack p)" using wf by (simp add: pid_window_wf_def pid_window_shape_def)
  have ji': "unat (net_id j) \<le> unat (rec_id p')"
  proof (cases "pid_restart p k")
    case True
    with ji t tk time' empty fresh show ?thesis
      by (auto simp: id' pid_restart_def pid_base_def word_le_nat_alt word_less_nat_alt unat_sub_le)
  next
    case False
    with ji show ?thesis by (simp add: id' pid_base_def)
  qed
  have "(pid_shifted p k)[m := now] ! ?d \<noteq> 0" if d: "?d < length (pid_shifted p k)"
  proof (cases "?d = m")
    case True
    with d now show ?thesis by simp
  next
    case False
    have "pid_shifted p k ! ?d \<noteq> 0"
    proof (cases "pid_restart p k")
      case True
      with t tk time' have "net_time k = rec_time p" by simp
      with True have "rec_id p = 0 \<or> unat (rec_id p) < unat (net_id k) - unat (rec_seq_backtrack p)"
        using empty by (auto simp: pid_restart_def word_le_nat_alt word_less_nat_alt unat_sub_le)
      with True d ji id' bt show ?thesis by (auto simp: pid_shifted_def pid_base_def)
    next
      case False
      then have sh: "?d = (unat (net_id k) - unat (rec_id p)) + (unat (rec_id p) - unat (net_id j))"
        using ji by (auto simp: id' pid_base_def)
      from d False have "?d < unat (rec_seq_backtrack p)"
        "?d < unat (net_id k) - unat (rec_id p) + length (pid_window p)"
        by (simp_all add: pid_shifted_def pid_base_def)
      with False sh jw show ?thesis
        by (simp add: pid_shifted_def pid_base_def nth_append del: take_append)
    qed
    with False show ?thesis by simp
  qed
  with t ji' show ?thesis by (simp add: pid_known_def win' word_le_nat_alt)
qed

lemma packet_id_add_known [op_specs]:
  assumes wf: "pid_window_wf p" and now: "1 < now" and k: "net_id k \<noteq> 0" and fresh: "\<not> pid_known p k"
  shows "\<exists>p'. packet_id_add now p k = Some p' \<and> pid_window_wf p' \<and> pid_known p' k
           \<and> (\<forall>j. pid_known p j \<longrightarrow> pid_known p' j)"
proof -
  let ?I = "max (pid_base p k) (unat (net_id k))"
  note shape = pid_window_wf_shape [OF wf]
  note win = pid_fresh_in_window [OF shape fresh k]
  from packet_id_add_window [OF shape now win(1)] obtain p' sl' where p':
    "packet_id_add now p k = Some p'" "rec_initialized p'"
    "rec_seq_backtrack p' = rec_seq_backtrack p"
    "rec_time p' = (if pid_restart p k then net_time k else rec_time p)"
    "unat (rec_id p') = ?I" "rec_seq_list p' = Some sl'" "circ_wf sl'"
    "x_cap sl' = uint (rec_seq_backtrack p)"
    "pid_window p' = (pid_shifted p k)[?I - unat (net_id k) := now]"
    by blast
  have len: "nat (x_size sl') = length (pid_shifted p k)"
  proof -
    have "length (pid_window p') = length (pid_shifted p k)" by (simp add: p'(9))
    then show ?thesis using p'(6) by (simp add: pid_window_def)
  qed
  have "pid_window_wf p'"
    using wf p' win len by (auto simp: pid_window_wf_def pid_window_shape_def)
  moreover have "pid_known p' k"
  proof -
    have "rec_time p' = net_time k"
      using fresh p'(4) by (auto simp: pid_known_def pid_restart_def)
    then show ?thesis using p'(5,9) win(1) now by (simp add: pid_known_def word_le_nat_alt)
  qed
  moreover have "pid_known p j \<Longrightarrow> pid_known p' j" for j
    using pid_known_shift [OF wf fresh _ p'(5,4,9) now k] .
  ultimately show ?thesis using p'(1) by blast
qed

section \<open>Reaping\<close>

lemma packet_id_reap_loop_spec:
  assumes "circ_wf sl"
  shows "\<exists>sl'. packet_id_reap_loop now tb e i sl = Some sl' \<and> circ_wf sl' \<and> x_cap sl' = x_cap sl
           \<and> x_size sl' = x_size sl
           \<and> (\<forall>d < length (circ_view sl). circ_view sl' ! d = circ_view sl ! d
                 \<or> circ_view sl' ! d = SEQ_EXPIRED)"
  using assms
proof (induction now tb e i sl rule: packet_id_reap_loop.induct)
  case (1 now tb e i sl)
  show ?case
  proof (cases "int i < CIRC_LIST_SIZE sl \<and> circ_view sl ! i \<noteq> SEQ_EXPIRED")
    case False
    then show ?thesis
      using "1.prems" CIRC_LIST_ITEM_view [OF "1.prems", of i]
      by (subst packet_id_reap_loop.simps) (auto simp: CIRC_LIST_SIZE_def)
  next
    case True
    then have i: "int i < CIRC_LIST_SIZE sl" "i < length (circ_view sl)"
      by (auto simp: CIRC_LIST_SIZE_def)
    note item = CIRC_LIST_ITEM_view [OF "1.prems" i(2)]
    let ?e = "e \<or> (circ_view sl ! i \<noteq> 0 \<and> circ_view sl ! i + tb < now)"
    have upd: "\<forall>d < nat (x_size sl). (circ_view sl)[i := SEQ_EXPIRED] ! d = circ_view sl ! d
        \<or> (circ_view sl)[i := SEQ_EXPIRED] ! d = SEQ_EXPIRED"
    proof (intro allI impI)
      fix d assume "d < nat (x_size sl)"
      then show "(circ_view sl)[i := SEQ_EXPIRED] ! d = circ_view sl ! d
          \<or> (circ_view sl)[i := SEQ_EXPIRED] ! d = SEQ_EXPIRED"
        by (cases "d = i") simp_all
    qed
    obtain sl1 where sl1: "(if ?e then CIRC_LIST_ITEM_set sl (int i) SEQ_EXPIRED else Some sl) = Some sl1"
        "circ_wf sl1" "x_cap sl1 = x_cap sl" "x_size sl1 = x_size sl"
        "\<forall>d < length (circ_view sl). circ_view sl1 ! d = circ_view sl ! d \<or> circ_view sl1 ! d = SEQ_EXPIRED"
      using CIRC_LIST_ITEM_set_view [OF "1.prems" i(2), of SEQ_EXPIRED] "1.prems" upd
      by (cases ?e) auto
    from "1.IH" [OF i(1) item _ refl sl1(1,2)] True obtain sl' where
      sl': "packet_id_reap_loop now tb ?e (Suc i) sl1 = Some sl'" "circ_wf sl'" "x_cap sl' = x_cap sl"
        "x_size sl' = x_size sl"
        "\<forall>d < length (circ_view sl1). circ_view sl' ! d = circ_view sl1 ! d \<or> circ_view sl' ! d = SEQ_EXPIRED"
      using sl1(3,4) by auto
    have "packet_id_reap_loop now tb e i sl = Some sl'"
      using True i item sl1(1) sl'(1) by (subst packet_id_reap_loop.simps) (simp add: Let_def)
    then show ?thesis using sl'(2-5) sl1(4,5) by (intro exI [of _ sl']) force
  qed
qed

lemma packet_id_reap_window [op_specs]:
  assumes wf: "pid_window_wf p"
  shows "\<exists>p'. packet_id_reap now p = Some p' \<and> pid_window_wf p'
           \<and> (\<forall>k. pid_known p k \<longrightarrow> pid_known p' k)"
proof -
  from pid_window_wf_shape [OF wf] obtain sl
    where sl: "rec_seq_list p = Some sl" "circ_wf sl" "pid_window p = circ_view sl"
    by (rule pid_window_shapeE)
  from packet_id_reap_loop_spec [OF sl(2), of now "rec_time_backtrack p" False 0] obtain sl' where
    sl': "packet_id_reap_loop now (rec_time_backtrack p) False 0 sl = Some sl'" "circ_wf sl'"
      "x_cap sl' = x_cap sl" "x_size sl' = x_size sl"
      "\<forall>d < length (circ_view sl). circ_view sl' ! d = circ_view sl ! d \<or> circ_view sl' ! d = SEQ_EXPIRED"
    by blast
  show ?thesis
  proof (cases "rec_time_backtrack p = 0")
    case True
    then show ?thesis
      using wf by (auto simp: packet_id_reap_def pid_window_wf_def pid_window_shape_def pid_known_def pid_window_def
          split: option.splits)
  next
    case False
    have "pid_known (p\<lparr>rec_seq_list := Some sl', rec_last_reap := now\<rparr>) k" if "pid_known p k" for k
      using that sl sl'(4,5) by (auto simp: pid_known_def pid_window_def SEQ_EXPIRED_def)
    moreover have "circ_view sl' = [] \<longleftrightarrow> circ_view sl = []"
      using sl'(4) by (metis length_0_conv length_circ_view)
    ultimately show ?thesis using False sl sl' wf
      by (auto simp: packet_id_reap_def pid_window_wf_def pid_window_shape_def pid_window_def)
  qed
qed

lemma packet_id_reap_test_window:
  assumes "pid_window_wf p"
  shows "\<exists>p'. packet_id_reap_test now p = Some p' \<and> pid_window_wf p'
           \<and> (\<forall>k. pid_known p k \<longrightarrow> pid_known p' k)"
  using packet_id_reap_window [OF assms, of now] assms by (auto simp: packet_id_reap_test_def)

section \<open>Linear mode\<close>

definition pid_linear_wf :: "packet_id_rec \<Rightarrow> bool" where
  "pid_linear_wf p \<longleftrightarrow> rec_initialized p \<and> rec_seq_backtrack p = 0 \<and> rec_seq_list p = None
     \<and> rec_time_backtrack p = 0"

definition pid_linear_known :: "packet_id_rec \<Rightarrow> packet_id_net \<Rightarrow> bool" where
  "pid_linear_known p k \<longleftrightarrow> net_time k < rec_time p \<or> (net_time k = rec_time p \<and> net_id k \<le> rec_id p)"

lemma packet_id_linear_step:
  assumes "pid_linear_wf p"
  shows "\<exists>p1. packet_id_reap_test now p = Some p1 \<and> pid_linear_wf p1
       \<and> pid_linear_known p1 = pid_linear_known p
       \<and> (\<exists>r. packet_id_test p1 k = Some (r, p1)
            \<and> (r \<longrightarrow> \<not> pid_linear_known p k
                 \<and> (\<exists>p2. packet_id_add now p1 k = Some p2 \<and> pid_linear_wf p2 \<and> pid_linear_known p2 k
                      \<and> (\<forall>j. pid_linear_known p j \<longrightarrow> pid_linear_known p2 j))))"
proof -
  have succ: "\<not> rec_id p + 1 \<le> rec_id p" if "rec_id p + 1 \<noteq> 0"
    using that by unat_arith
  from assms succ show ?thesis
    by (auto simp: packet_id_reap_test_def packet_id_reap_def packet_id_test_def packet_id_add_def
        pid_linear_wf_def pid_linear_known_def fun_eq_iff)
qed

section \<open>Initial states\<close>

lemma packet_id_init_recv_window:
  assumes "0 < sb" "sb \<le> 65536" "0 \<le> tb" "tb \<le> 600"
  shows "\<exists>p. packet_id_init_recv packet_id_rec_zero sb tb name unit = Some p \<and> pid_window_wf p
           \<and> rec_time p = 0 \<and> rec_id p = 0 \<and> rec_time_backtrack p = tb"
proof -
  have u: "unat (word_of_int sb :: u64) = nat sb" using assms by (intro unat_word_of_int) auto
  have "uint (word_of_int sb :: u64) = sb"
    using assms by (simp add: uint_word_of_int_eq take_bit_int_eq_self)
  with u assms show ?thesis
    by (auto simp: packet_id_init_recv_def packet_id_rec_zero_def
        MIN_SEQ_BACKTRACK_def MAX_SEQ_BACKTRACK_def MIN_TIME_BACKTRACK_def MAX_TIME_BACKTRACK_def
        pid_window_wf_def pid_window_shape_def circ_wf_alloc CIRC_LIST_ALLOC_def circ_wf_def)
qed

lemma packet_id_init_window:
  assumes "0 < sb" "sb \<le> 65536" "0 \<le> tb" "tb \<le> 600"
  shows "\<exists>p. packet_id_init sb tb name unit = Some p \<and> pid_window_wf (pid_rec p)
           \<and> rec_time (pid_rec p) = 0 \<and> rec_id (pid_rec p) = 0"
  using packet_id_init_recv_window [OF assms, of name unit] by (auto simp: packet_id_init_def packet_id_zero_def)

lemma packet_id_init_linear:
  "\<exists>p. packet_id_init 0 tb name unit = Some p \<and> pid_linear_wf (pid_rec p)"
  by (simp add: packet_id_init_def packet_id_init_recv_def packet_id_zero_def packet_id_rec_zero_def
      pid_linear_wf_def)

section \<open>Sending side and wire format\<close>

lemma packet_id_send_update_cases:
  assumes "packet_id_send_update now p lf = (True, p')" "send_id p \<le> PACKET_ID_MAX"
  shows "send_id p' \<le> PACKET_ID_MAX \<and> 0 < send_id p' \<and> send_time p' \<in> {send_time p, now}"
proof -
  have "x \<le> PACKET_ID_MAX \<Longrightarrow> x \<noteq> PACKET_ID_MAX \<Longrightarrow> x + 1 \<le> PACKET_ID_MAX \<and> 0 < x + 1" for x
    by (rule word_inc_le) (simp add: order_less_le)
  with assms show ?thesis
    by (auto simp: packet_id_send_update_def Let_def PACKET_ID_MAX_def split: if_splits)
qed

lemma ucast_u32_u64:
  fixes x :: u64
  assumes "x \<le> PACKET_ID_MAX"
  shows "ucast (ucast x :: u32) = x"
proof -
  have "unat x \<le> 4294967295" using assms by (simp add: PACKET_ID_MAX_def word_le_nat_alt)
  then have "unat (ucast (ucast x :: u32) :: u64) = unat x"
    by (simp add: unat_ucast_up unsigned_ucast_eq unsigned_take_bit_eq take_bit_nat_eq_self_iff)
  then show ?thesis by (simp add: word_unat_eq_iff)
qed

lemma packet_id_write_ok:
  assumes buf: "buf_live buf" and upd: "packet_id_send_update now p lf = (True, p')"
    and room: "nat (packet_id_size lf) \<le> (if pre then buf_headroom buf else buf_room buf)"
  shows "\<exists>buf'. packet_id_write now p buf lf pre = Some (True, p', buf') \<and> buf_live buf'
     \<and> (let hdr = be32 (ucast (send_id p')) @ (if lf then be32 (word_of_int (send_time p')) else [])
        in buf_content buf' = (if pre then hdr @ buf_content buf else buf_content buf @ hdr))
     \<and> buf_room buf' = buf_room buf - (if pre then 0 else nat (packet_id_size lf))
     \<and> buf_headroom buf' = buf_headroom buf - (if pre then nat (packet_id_size lf) else 0)"
proof -
  let ?i = "be32 (ucast (send_id p'))" and ?t = "be32 (word_of_int (send_time p'))"
  show ?thesis
  proof (cases pre)
    case True
    show ?thesis
    proof (cases lf)
      case lf: True
      from room True lf have h: "8 \<le> buf_headroom buf" by (simp add: packet_id_size_def)
      from wire.push_ok [OF buf, of ?t] h obtain b1 where b1: "buf_write_prepend buf ?t = Some (True, b1)"
        "buf_live b1" "buf_content b1 = ?t @ buf_content buf" "buf_headroom b1 = buf_headroom buf - 4" "buf_room b1 = buf_room buf" by auto
      have "4 \<le> buf_headroom b1" using b1(4) h by simp
      with wire.push_ok [OF b1(2), of ?i] b1 True lf upd show ?thesis
        by (auto simp: packet_id_write_def packet_id_size_def Let_def)
    next
      case lf: False
      from room True lf have h: "4 \<le> buf_headroom buf" by (simp add: packet_id_size_def)
      from wire.push_ok [OF buf, of ?i] h True lf upd show ?thesis
        by (auto simp: packet_id_write_def packet_id_size_def Let_def)
    qed
  next
    case False
    have h: "4 \<le> buf_room buf" using room False by (auto simp: packet_id_size_def split: if_splits)
    from wire.put_ok [OF buf, of ?i] h obtain b1 where b1: "buf_write buf ?i = Some (True, b1)"
        "buf_live b1" "buf_content b1 = buf_content buf @ ?i" "buf_room b1 = buf_room buf - 4" "buf_headroom b1 = buf_headroom buf" by auto
    show ?thesis
    proof (cases lf)
      case lf: True
      from room False lf have "4 \<le> buf_room b1" using b1 by (simp add: packet_id_size_def)
      with wire.put_ok [OF b1(2), of ?t] b1 False lf upd show ?thesis
        by (auto simp: packet_id_write_def packet_id_size_def Let_def)
    next
      case lf: False
      with b1 False upd show ?thesis by (auto simp: packet_id_write_def packet_id_size_def Let_def)
    qed
  qed
qed

lemma packet_id_read_ok:
  assumes buf: "buf_live buf"
    and content: "buf_content buf = be32 i @ (if lf then be32 t else []) @ rest"
  shows "\<exists>buf'. packet_id_read buf lf
      = Some (True, \<lparr>net_id = ucast i, net_time = (if lf then uint t else 0)\<rparr>, buf')
      \<and> buf_live buf' \<and> buf_content buf' = rest"
proof -
  from wire.get_ok [OF buf content] obtain b1 where b1: "buf_read buf 4 = Some (Some (be32 i), b1)"
    "buf_live b1" "buf_content b1 = (if lf then be32 t else []) @ rest" by auto
  show ?thesis
  proof (cases lf)
    case True
    with b1(3) have "buf_content b1 = be32 t @ rest" by simp
    from wire.get_ok [OF b1(2) this] True b1 show ?thesis
      by (auto simp: packet_id_read_def Let_def)
  next
    case False
    with b1 show ?thesis by (simp add: packet_id_read_def Let_def)
  qed
qed

text \<open>Whatever packet id the sender writes, in short or long form, in front of a payload
  or into an empty buffer, the receiver reads back exactly that id (and time stamp, in long
  form), and the rest of the buffer is left as it was.\<close>

theorem packet_id_wire_roundtrip:
  assumes "buf_live buf" "send_id p \<le> PACKET_ID_MAX"
    and "0 \<le> send_time p" "send_time p < 2 ^ 32" "0 \<le> now" "now < 2 ^ 32"
    and "packet_id_send_update now p long_form = (True, p')"
    and "prepend \<or> buf_content buf = []"
    and "nat (packet_id_size long_form) \<le> (if prepend then buf_headroom buf else buf_room buf)"
  shows "\<exists>buf1 buf2. packet_id_write now p buf long_form prepend = Some (True, p', buf1)
     \<and> packet_id_read buf1 long_form = Some (True, \<lparr>net_id = send_id p',
           net_time = (if long_form then send_time p' else 0)\<rparr>, buf2)
     \<and> buf_live buf2 \<and> buf_content buf2 = buf_content buf"
proof -
  note upd = packet_id_send_update_cases [OF assms(7,2)]
  then have t: "uint (word_of_int (send_time p') :: u32) = send_time p'"
    using assms(3-6) by (auto simp: uint_word_of_int_eq take_bit_int_eq_self)
  from packet_id_write_ok [OF assms(1,7,9)] obtain b1 where
    b1: "packet_id_write now p buf long_form prepend = Some (True, p', b1)" "buf_live b1"
      "buf_content b1 = be32 (ucast (send_id p')) @ (if long_form then be32 (word_of_int (send_time p')) else [])
         @ buf_content buf"
    using assms(8) by (auto simp: Let_def split: if_splits)
  from packet_id_read_ok [OF b1(2,3)] b1(1) t ucast_u32_u64 [of "send_id p'"] upd show ?thesis
    by (auto cong: if_cong)
qed

text \<open>The 64-bit epoch form: 16 bits of epoch above a 48-bit counter.\<close>

lemma epoch_id_split:
  fixes i :: u64 and e :: u16
  assumes "i \<le> PACKET_ID_EPOCH_MAX"
  shows "ucast (drop_bit 48 (push_bit 48 (ucast e :: u64) OR i)) = e"
    and "(push_bit 48 (ucast e :: u64) OR i) AND PACKET_ID_MASK = i"
proof -
  have m: "PACKET_ID_MASK = mask 48" by (simp add: PACKET_ID_MASK_def mask_eq_exp_minus_1)
  have "i < 2 ^ 48" using assms by (simp add: PACKET_ID_EPOCH_MAX_def) unat_arith
  then have "unat i < 2 ^ 48" by (simp add: word_less_nat_alt)
  then have "unat (take_bit 48 i) = unat i" by (simp add: unsigned_take_bit_eq take_bit_nat_eq_self_iff)
  then have "take_bit 48 i = i" by (simp add: word_unat_eq_iff)
  then have hi: "\<not> bit i n" if "48 \<le> n" for n
    using that by (metis bit_take_bit_iff not_le)
  show "ucast (drop_bit 48 (push_bit 48 (ucast e :: u64) OR i)) = e"
    by (rule bit_word_eqI) (auto simp: bit_simps hi)
  show "(push_bit 48 (ucast e :: u64) OR i) AND PACKET_ID_MASK = i"
    unfolding m by (rule bit_word_eqI) (auto simp: bit_simps hi dest: bit_imp_le_length
        intro: ccontr [of "_ < 48"])
qed

text \<open>A scratch buffer of 64 zero bytes with 16 bytes of headroom, for the concrete instances.\<close>

definition demo_buf :: buffer where
  "demo_buf = \<lparr>capacity = 64, offset = 16, len = 0, data = Some (replicate 64 0)\<rparr>"

lemma demo_buf_live [simp]:
  "buf_live demo_buf" "buf_content demo_buf = []" "buf_headroom demo_buf = 16" "buf_room demo_buf = 48"
  by (simp_all add: buf_live_def buf_wf_def demo_buf_def BUF_SIZE_MAX_def buf_content_def
      buf_headroom_def buf_room_def)

theorem packet_id_wire_roundtrip_witness:
  "\<exists>buf1 buf2. packet_id_write 1000 \<lparr>send_id = 7, send_time = 0\<rparr> demo_buf True True
       = Some (True, \<lparr>send_id = 8, send_time = 1000\<rparr>, buf1)
     \<and> packet_id_read buf1 True = Some (True, \<lparr>net_id = 8, net_time = 1000\<rparr>, buf2)
     \<and> buf_live buf2 \<and> buf_content buf2 = []"
  using packet_id_wire_roundtrip [of demo_buf "\<lparr>send_id = 7, send_time = 0\<rparr>" 1000 True
      "\<lparr>send_id = 8, send_time = 1000\<rparr>" True]
  by (simp add: packet_id_send_update_def PACKET_ID_MAX_def packet_id_size_def)

text \<open>The 64-bit epoch packet id survives the wire: both the 16-bit epoch and the 48-bit
  counter written by the sender are what the receiver reads.\<close>

theorem packet_id_epoch_roundtrip:
  assumes "buf_live buf" "buf_content buf = []" "8 \<le> buf_room buf" "send_id p < PACKET_ID_EPOCH_MAX"
  shows "\<exists>p' buf1 buf2. packet_id_write_epoch now p epoch buf = Some (True, p', buf1)
     \<and> send_id p' = send_id p + 1
     \<and> packet_id_read_epoch pin buf1 = Some (epoch, pin\<lparr>net_id := send_id p'\<rparr>, buf2)
     \<and> buf_live buf2 \<and> buf_content buf2 = []"
proof -
  let ?p = "(if send_time p = 0 then p\<lparr>send_time := now\<rparr> else p)\<lparr>send_id := send_id p + 1\<rparr>"
  have upd: "packet_id_send_update_epoch now p = (True, ?p)"
    using assms(4) by (auto simp: packet_id_send_update_epoch_def Let_def)
  have le: "send_id p + 1 \<le> PACKET_ID_EPOCH_MAX" using word_inc_le [OF assms(4)] by simp
  let ?w = "push_bit 48 (ucast epoch :: u64) OR (send_id p + 1)"
  from wire.put_get [OF assms(1,2), of "be64 ?w"] assms(3) obtain b1 b2 where
    "buf_write buf (be64 ?w) = Some (True, b1)" "buf_read b1 8 = Some (Some (be64 ?w), b2)"
    "buf_live b2" "buf_content b2 = []" by auto
  with upd epoch_id_split [OF le, of epoch] show ?thesis
    by (simp add: packet_id_write_epoch_def packet_id_read_epoch_def Let_def)
qed

theorem packet_id_epoch_roundtrip_witness:
  "\<exists>p' buf1 buf2. packet_id_write_epoch 1000 \<lparr>send_id = 41, send_time = 5\<rparr> 3 demo_buf = Some (True, p', buf1)
     \<and> send_id p' = 41 + 1
     \<and> packet_id_read_epoch \<lparr>net_id = 0, net_time = 0\<rparr> buf1 = Some (3, \<lparr>net_id = 0, net_time = 0\<rparr>\<lparr>net_id := send_id p'\<rparr>, buf2)
     \<and> buf_live buf2 \<and> buf_content buf2 = []"
  using packet_id_epoch_roundtrip [of demo_buf "\<lparr>send_id = 41, send_time = 5\<rparr>" 1000 3
      "\<lparr>net_id = 0, net_time = 0\<rparr>"]
  by (simp add: PACKET_ID_EPOCH_MAX_def)

text \<open>The sender never emits the same (time, id) pair twice: every successful update moves
  it strictly up in the lexicographic order, and the counter stays inside its 32 bits.\<close>

theorem packet_id_send_update_increases:
  assumes "packet_id_send_update now p long_form = (True, p')" "0 < now" "0 \<le> send_time p"
    and "send_id p \<le> PACKET_ID_MAX"
  shows "(send_time p < send_time p' \<or> (send_time p = send_time p' \<and> send_id p < send_id p'))
     \<and> send_id p' \<le> PACKET_ID_MAX \<and> (\<not> long_form \<and> send_time p \<noteq> 0 \<longrightarrow> send_time p' = send_time p)"
proof -
  have "send_id p < send_id p + 1" if "send_id p \<noteq> PACKET_ID_MAX"
    using that assms(4) by (intro word_inc_less [of _ PACKET_ID_MAX]) simp
  with assms packet_id_send_update_cases [OF assms(1,4)] show ?thesis
    by (auto simp: packet_id_send_update_def Let_def split: if_splits)
qed

theorem packet_id_send_update_increases_witness:
  "packet_id_send_update 1001 \<lparr>send_id = PACKET_ID_MAX, send_time = 1000\<rparr> True
       = (True, \<lparr>send_id = 1, send_time = 1001\<rparr>)
   \<and> (1000 < (1001::int) \<or> False) \<and> (1::u64) \<le> PACKET_ID_MAX"
  using packet_id_send_update_increases [of 1001 "\<lparr>send_id = PACKET_ID_MAX, send_time = 1000\<rparr>" True
      "\<lparr>send_id = 1, send_time = 1001\<rparr>"]
  by (simp add: packet_id_send_update_def)

text \<open>The short form refuses to wrap: at the last 32-bit id the sender reports failure and
  keeps the id, whatever the clock says.\<close>

theorem packet_id_send_no_wrap:
  "send_id p = PACKET_ID_MAX \<Longrightarrow>
     fst (packet_id_send_update now p False) = False
     \<and> send_id (snd (packet_id_send_update now p False)) = PACKET_ID_MAX
     \<and> packet_id_write now p buf False prepend
         = Some (False, snd (packet_id_send_update now p False), buf)"
  by (simp add: packet_id_send_update_def packet_id_write_def Let_def)

end
