(* ===== verification/Replay.thy ===== *)
theory Replay
  imports Packet_Id
begin

text \<open>
  The contract of a replay filter, independent of how it remembers packets, and the theorem
  that makes replay protection correct: over any sequence of arriving packets no packet is
  accepted twice. It is interpreted for both modes of \<^verbatim>\<open>packet_id_rec\<close>, driven the way
  \<^verbatim>\<open>crypto_check_replay\<close> (\<^verbatim>\<open>crypto.c\<close>) drives it.
\<close>

section \<open>Definitions\<close>

text \<open>The reap / test / add sequence of \<^verbatim>\<open>crypto_check_replay\<close>.\<close>

definition replay_check :: "int \<Rightarrow> packet_id_rec \<Rightarrow> packet_id_net \<Rightarrow> (bool \<times> packet_id_rec) option" where
  "replay_check now p pin = do {
     p \<leftarrow> packet_id_reap_test now p;
     (ok, p) \<leftarrow> packet_id_test p pin;
     (if ok then do { p \<leftarrow> packet_id_add now p pin; Some (True, p) } else Some (False, p))
   }"

text \<open>
  Feeding a sequence of packets, each with the environment at its arrival (the clock), to a
  filter step: the packets it accepted, in order, and the final state.
\<close>

fun replay_run ::
    "('e \<Rightarrow> 's \<Rightarrow> 'k \<Rightarrow> (bool \<times> 's) option) \<Rightarrow> 's \<Rightarrow> ('e \<times> 'k) list \<Rightarrow> ('k list \<times> 's) option" where
  "replay_run step s [] = Some ([], s)"
| "replay_run step s ((e, k) # eks) = do {
     (ok, s') \<leftarrow> step e s k;
     (acc, s'') \<leftarrow> replay_run step s' eks;
     Some (if ok then k # acc else acc, s'')
   }"

section \<open>The contract\<close>

locale replay_filter =
  fixes inv :: "'s \<Rightarrow> bool"
    and known :: "'s \<Rightarrow> 'i \<Rightarrow> bool"
    and ident :: "'k \<Rightarrow> 'i"
    and env_ok :: "'e \<Rightarrow> 'k \<Rightarrow> bool"
    and step :: "'e \<Rightarrow> 's \<Rightarrow> 'k \<Rightarrow> (bool \<times> 's) option"
  assumes step_total: "inv s \<Longrightarrow> env_ok e k \<Longrightarrow> \<exists>r s'. step e s k = Some (r, s') \<and> inv s'"
    and step_keeps: "inv s \<Longrightarrow> env_ok e k \<Longrightarrow> step e s k = Some (r, s') \<Longrightarrow> known s i \<Longrightarrow> known s' i"
    and step_records: "inv s \<Longrightarrow> env_ok e k \<Longrightarrow> step e s k = Some (True, s') \<Longrightarrow> known s' (ident k)"
    and step_rejects: "inv s \<Longrightarrow> env_ok e k \<Longrightarrow> known s (ident k) \<Longrightarrow> step e s k = Some (r, s') \<Longrightarrow> \<not> r"
begin

lemma run_keeps:
  assumes "inv s" "\<forall>(e, k) \<in> set eks. env_ok e k" "replay_run step s eks = Some (acc, s')" "known s i"
  shows "known s' i"
  using assms
proof (induction eks arbitrary: s acc)
  case (Cons ek eks)
  obtain e k where ek: "ek = (e, k)" by (cases ek)
  from Cons.prems ek have e: "env_ok e k" by simp
  from step_total [OF Cons.prems(1) e] obtain r s1 where s1: "step e s k = Some (r, s1)" "inv s1"
    by blast
  from Cons.prems(3) ek s1 obtain acc1 where "replay_run step s1 eks = Some (acc1, s')"
    by (auto simp: bind_eq_Some_conv)
  with Cons.IH [OF s1(2)] Cons.prems ek step_keeps [OF Cons.prems(1) e s1(1)] show ?case by auto
qed simp

text \<open>No packet is accepted twice, none that was known at the start, and the filter never aborts.\<close>

lemma run_distinct:
  assumes "inv s" "\<forall>(e, k) \<in> set eks. env_ok e k"
  shows "\<exists>acc s'. replay_run step s eks = Some (acc, s') \<and> inv s' \<and> distinct (map ident acc)
           \<and> (\<forall>k \<in> set acc. \<not> known s (ident k) \<and> known s' (ident k))"
  using assms
proof (induction eks arbitrary: s)
  case Nil
  then show ?case by simp
next
  case (Cons ek eks)
  obtain e k where ek: "ek = (e, k)" by (cases ek)
  from Cons.prems ek have e: "env_ok e k" and rest: "\<forall>(e, k) \<in> set eks. env_ok e k" by auto
  from step_total [OF Cons.prems(1) e] obtain r s1 where s1: "step e s k = Some (r, s1)" "inv s1"
    by blast
  from Cons.IH [OF s1(2) rest] obtain acc s' where
    acc: "replay_run step s1 eks = Some (acc, s')" "inv s'" "distinct (map ident acc)"
      "\<forall>k \<in> set acc. \<not> known s1 (ident k) \<and> known s' (ident k)" by blast
  have "\<not> known s (ident j)" if "j \<in> set acc" for j
    using that acc(4) step_keeps [OF Cons.prems(1) e s1(1)] by blast
  moreover have "known s1 (ident k) \<and> \<not> known s (ident k) \<and> known s' (ident k)" if r
    using that step_records [OF Cons.prems(1) e, of s1] step_rejects [OF Cons.prems(1) e _ s1(1)] s1
      run_keeps [OF s1(2) rest acc(1)] by auto
  ultimately show ?case using ek s1 acc by (auto simp: bind_eq_Some_conv)
qed

end

section \<open>Both modes fulfil it\<close>

lemma replay_check_window:
  assumes wf: "pid_window_wf p" and now: "1 < now"
  shows "\<exists>r p'. replay_check now p k = Some (r, p') \<and> pid_window_wf p'
     \<and> (\<forall>j. pid_known p j \<longrightarrow> pid_known p' j) \<and> (r \<longrightarrow> \<not> pid_known p k \<and> pid_known p' k)
     \<and> (\<not> r \<longrightarrow> net_id k = 0 \<or> pid_known p' k)"
proof -
  from packet_id_reap_test_window [OF wf, of now] obtain p1 where
    p1: "packet_id_reap_test now p = Some p1" "pid_window_wf p1" "\<forall>j. pid_known p j \<longrightarrow> pid_known p1 j"
    by blast
  from packet_id_test_window [OF pid_window_wf_shape [OF p1(2)], of k] obtain m where
    t: "packet_id_test p1 k = Some (net_id k \<noteq> 0 \<and> \<not> pid_known p1 k, p1\<lparr>rec_max_backtrack_stat := m\<rparr>)"
    by blast
  let ?p = "p1\<lparr>rec_max_backtrack_stat := m\<rparr>"
  have same: "pid_window_wf ?p" "pid_known ?p = pid_known p1"
    using p1(2) by (auto simp: pid_window_wf_def pid_window_shape_def pid_window_def pid_known_def
        fun_eq_iff split: option.splits)
  show ?thesis
  proof (cases "net_id k \<noteq> 0 \<and> \<not> pid_known p1 k")
    case True
    with packet_id_add_known [OF same(1) now, of k] same(2) obtain p' where
      p': "packet_id_add now ?p k = Some p'" "pid_window_wf p'" "pid_known p' k"
        "\<forall>j. pid_known p1 j \<longrightarrow> pid_known p' j" by auto
    with True p1 t show ?thesis
      by (intro exI [of _ True] exI [of _ p']) (auto simp: replay_check_def)
  next
    case False
    with p1 t same show ?thesis
      by (intro exI [of _ False] exI [of _ ?p]) (auto simp: replay_check_def)
  qed
qed

interpretation window: replay_filter pid_window_wf pid_known "\<lambda>k. k" "\<lambda>now k. 1 < now" replay_check
proof (unfold_locales, goal_cases)
  case (1 s e k)
  then show ?case using replay_check_window [of s e k] by blast
next
  case (2 s e k r s' j)
  then show ?case using replay_check_window [of s e k] by auto
next
  case (3 s e k s')
  then show ?case using replay_check_window [of s e k] by auto
next
  case (4 s e k r s')
  then show ?case using replay_check_window [of s e k] by auto
qed

lemma replay_check_linear:
  assumes "pid_linear_wf p"
  shows "\<exists>r p'. replay_check now p k = Some (r, p') \<and> pid_linear_wf p'
     \<and> (\<forall>j. pid_linear_known p j \<longrightarrow> pid_linear_known p' j)
     \<and> (r \<longrightarrow> \<not> pid_linear_known p k \<and> pid_linear_known p' k)"
proof -
  from packet_id_linear_step [OF assms, of now k] obtain p1 r where
    p1: "packet_id_reap_test now p = Some p1" "pid_linear_wf p1" "pid_linear_known p1 = pid_linear_known p"
      "packet_id_test p1 k = Some (r, p1)"
    and r: "r \<longrightarrow> \<not> pid_linear_known p k
              \<and> (\<exists>p2. packet_id_add now p1 k = Some p2 \<and> pid_linear_wf p2 \<and> pid_linear_known p2 k
                   \<and> (\<forall>j. pid_linear_known p j \<longrightarrow> pid_linear_known p2 j))"
    by blast
  show ?thesis
  proof (cases r)
    case True
    with r p1 show ?thesis by (intro exI [of _ True]) (auto simp: replay_check_def)
  next
    case False
    with p1 show ?thesis
      by (intro exI [of _ False] exI [of _ p1]) (auto simp: replay_check_def)
  qed
qed

interpretation linear: replay_filter pid_linear_wf pid_linear_known "\<lambda>k. k" "\<lambda>now k. True" replay_check
proof (unfold_locales, goal_cases)
  case (1 s e k)
  then show ?case using replay_check_linear [of s e k] by blast
next
  case (2 s e k r s' j)
  then show ?case using replay_check_linear [of s e k] by auto
next
  case (3 s e k s')
  then show ?case using replay_check_linear [of s e k] by auto
next
  case (4 s e k r s')
  then show ?case using replay_check_linear [of s e k] by auto
qed

section \<open>Properties\<close>

text \<open>C9: replay protection in window mode. Started by \<open>packet_id_init\<close> with any legal window, the
  receiver accepts no (time, id) pair twice, over any sequence of arriving packets with any
  reordering, duplication and reaping in between, and no assertion or out-of-range access
  happens on the way.\<close>

theorem replay_window_accepts_once:
  assumes "packet_id_init sb tb name unit = Some p" "0 < sb" "sb \<le> 65536" "0 \<le> tb" "tb \<le> 600"
    and "\<forall>(now, k) \<in> set arrivals. 1 < now"
  shows "\<exists>accepted p'. replay_run replay_check (pid_rec p) arrivals = Some (accepted, p')
           \<and> distinct accepted"
proof -
  have "pid_window_wf (pid_rec p)" using packet_id_init_window [OF assms(2-5), of name unit] assms(1) by auto
  from window.run_distinct [OF this assms(6)] show ?thesis by auto
qed

theorem replay_window_accepts_once_witness:
  "\<exists>p accepted p'. packet_id_init 64 15 ''demo'' 0 = Some p
     \<and> replay_run replay_check (pid_rec p)
         [(1000, \<lparr>net_id = 1, net_time = 0\<rparr>), (1001, \<lparr>net_id = 3, net_time = 0\<rparr>),
          (1002, \<lparr>net_id = 1, net_time = 0\<rparr>)] = Some (accepted, p') \<and> distinct accepted"
proof -
  obtain p where p: "packet_id_init 64 15 ''demo'' 0 = Some p"
    using packet_id_init_window [of 64 15 "''demo''" 0] by auto
  show ?thesis
    using p replay_window_accepts_once [OF p, of "[(1000, \<lparr>net_id = 1, net_time = 0\<rparr>),
      (1001, \<lparr>net_id = 3, net_time = 0\<rparr>), (1002, \<lparr>net_id = 1, net_time = 0\<rparr>)]"] by simp
qed

text \<open>The same for the linear mode used over TCP, which is entered with a window of zero.\<close>

theorem replay_linear_accepts_once:
  assumes "packet_id_init 0 tb name unit = Some p"
  shows "\<exists>accepted p'. replay_run replay_check (pid_rec p) arrivals = Some (accepted, p')
           \<and> distinct accepted"
proof -
  have "pid_linear_wf (pid_rec p)" using packet_id_init_linear [of tb name unit] assms by auto
  from linear.run_distinct [OF this, of arrivals] show ?thesis by auto
qed

text \<open>Nothing legitimate is lost in window mode: an id above everything received, or an
  unseen id inside the window, is accepted; a rejected id is zero or is recorded as seen, too
  old for the window or from an earlier time stamp.\<close>

theorem replay_window_verdict:
  assumes "pid_window_wf p"
  shows "\<exists>p'. packet_id_test p k = Some (net_id k \<noteq> 0 \<and> (net_time k > rec_time p
       \<or> (net_time k = rec_time p \<and> (net_id k > rec_id p
            \<or> (unat (rec_id p) - unat (net_id k) < length (pid_window p)
               \<and> pid_window p ! (unat (rec_id p) - unat (net_id k)) = 0)))), p')"
  using packet_id_test_window [OF pid_window_wf_shape [OF assms], of k]
  by (auto simp: pid_known_def not_le not_less)

text \<open>
  The state right after a persisted (time, id) was loaded into a fresh receiver: the window is
  empty although ids up to the loaded one have been used.
\<close>

lemma persist_loaded_state:
  assumes "packet_id_init sb tb name unit = Some p" "0 < sb" "sb \<le> 65536" "0 \<le> tb" "tb \<le> 600"
    and "packet_id_persist_enabled pp" "pp_time pp \<noteq> 0"
  defines "r \<equiv> pid_rec (packet_id_persist_load_obj pp p)"
  shows "pid_window_shape r" "pid_window r = []" "rec_time r = pp_time pp" "rec_id r = ucast (pp_id pp)"
    "unat (rec_seq_backtrack r) = nat sb"
proof -
  have wf: "pid_window_wf (pid_rec p)" "rec_id (pid_rec p) = 0"
    using packet_id_init_window [OF assms(2-5), of name unit] assms(1) by auto
  then have empty: "pid_window (pid_rec p) = []"
    using pid_window_length(1) [of "pid_rec p"] by (simp add: pid_window_wf_def)
  have "rec_seq_backtrack (pid_rec p) = word_of_int sb"
    using assms(1,2) by (auto simp: packet_id_init_def packet_id_init_recv_def bind_eq_Some_conv
        split: if_splits)
  then show "unat (rec_seq_backtrack r) = nat sb"
    using assms(2,3) unat_word_of_int [of sb, where ?'a = 64]
    by (simp add: r_def packet_id_persist_load_obj_def)
  show "pid_window r = []" "rec_time r = pp_time pp" "rec_id r = ucast (pp_id pp)"
    using empty assms(6,7) by (simp_all add: r_def packet_id_persist_load_obj_def pid_window_def)
  show "pid_window_shape r"
    using wf(1) empty assms(6,7)
    by (auto simp: r_def packet_id_persist_load_obj_def pid_window_wf_def pid_window_shape_def
        pid_window_def circ_view_def split: option.splits)
qed

text \<open>A gap in the protection across restarts. After a persisted (time, id) is loaded, the id
  itself is refused; but as soon as the next id of the same time stamp arrives, the window is
  rebuilt with every slot below it unseen, and the persisted id, used in the earlier session,
  is accepted again.\<close>

theorem persist_reload_reaccepts:
  assumes "packet_id_init sb tb name unit = Some p" "2 \<le> sb" "sb \<le> 65536" "0 \<le> tb" "tb \<le> 600"
    and "packet_id_persist_enabled pp" "pp_time pp \<noteq> 0" "0 < pp_id pp" "1 < now"
  shows "let r = pid_rec (packet_id_persist_load_obj pp p);
             old = \<lparr>net_id = ucast (pp_id pp), net_time = pp_time pp\<rparr>;
             new = \<lparr>net_id = ucast (pp_id pp) + 1, net_time = pp_time pp\<rparr>
         in \<exists>r1 r2 r3 r4. packet_id_test r old = Some (False, r1)
              \<and> packet_id_test r new = Some (True, r2)
              \<and> packet_id_add now r new = Some r3 \<and> packet_id_test r3 old = Some (True, r4)"
proof -
  define r where "r = pid_rec (packet_id_persist_load_obj pp p)"
  define i where "i = (ucast (pp_id pp) :: u64)"
  let ?old = "\<lparr>net_id = i, net_time = pp_time pp\<rparr>"
  let ?new = "\<lparr>net_id = i + 1, net_time = pp_time pp\<rparr>"
  have sb: "0 < sb" using assms(2) by simp
  note st = persist_loaded_state [OF assms(1) sb assms(3-7), folded r_def i_def]
  have ui: "unat i = unat (pp_id pp)" by (simp add: i_def unat_ucast_up)
  have "unat (pp_id pp) < 2 ^ 32" using unsigned_less [of "pp_id pp"] by simp
  then have i1: "unat (i + 1) = Suc (unat i)"
    using ui by (intro word_less_pred_Suc [of _ "2 ^ 33"]) (simp add: word_less_nat_alt)
  have i0: "0 < unat i" using assms(8) ui by (simp add: word_less_nat_alt)
  have restart: "pid_restart r ?new" using st by (simp add: pid_restart_def)
  let ?s = "pid_shifted r ?new"
  have sh: "?s = replicate (min (nat sb) (Suc (unat i))) 0"
    using restart st i1 by (auto simp: pid_shifted_def pid_base_def min_def)
  have base: "max (pid_base r ?new) (unat (i + 1)) = unat (i + 1)"
    using restart by (simp add: pid_base_def)
  have len: "2 \<le> length ?s" using sh i0 assms(2) by simp
  then have "max (pid_base r ?new) (unat (net_id ?new)) - unat (net_id ?new) < length ?s"
    using base by auto
  from packet_id_add_window [OF st(1) assms(9) this] obtain r3 sl where
    r3: "packet_id_add now r ?new = Some r3" "rec_initialized r3"
      "rec_seq_backtrack r3 = rec_seq_backtrack r" "rec_time r3 = pp_time pp" "unat (rec_id r3) = Suc (unat i)"
      "rec_seq_list r3 = Some sl" "circ_wf sl" "x_cap sl = uint (rec_seq_backtrack r)"
      "pid_window r3 = ?s[0 := now]"
    using restart base i1 by auto
  have "nat (x_size sl) = length (pid_window r3)" using r3(6) by (simp add: pid_window_def)
  then have shape: "pid_window_shape r3"
    using st(1) r3 sh by (simp add: pid_window_shape_def)
  have "pid_known r ?old" "\<not> pid_known r ?new"
    using st i1 by (simp_all add: pid_known_def word_le_nat_alt)
  moreover have "\<not> pid_known r3 ?old"
    using r3(4,5,9) sh len i0 by (simp add: pid_known_def word_le_nat_alt)
  moreover have "i \<noteq> 0" "i + 1 \<noteq> 0" using i0 i1 by auto
  ultimately show ?thesis
    using packet_id_test_window [OF st(1), of ?old] packet_id_test_window [OF st(1), of ?new]
      packet_id_test_window [OF shape, of ?old] r3(1)
    unfolding Let_def r_def [symmetric] i_def [symmetric] by auto
qed

theorem persist_reload_reaccepts_witness:
  "\<exists>p. packet_id_init 64 15 ''demo'' 0 = Some p \<and>
    (let pp = \<lparr>pp_filename = None, pp_fd = 3, pp_time = 1000, pp_id = 100, pp_time_last_written = 1000,
              pp_id_last_written = 100\<rparr>;
         r = pid_rec (packet_id_persist_load_obj pp p)
     in \<exists>r1 r2 r3 r4. packet_id_test r \<lparr>net_id = 100, net_time = 1000\<rparr> = Some (False, r1)
          \<and> packet_id_test r \<lparr>net_id = 101, net_time = 1000\<rparr> = Some (True, r2)
          \<and> packet_id_add 2000 r \<lparr>net_id = 101, net_time = 1000\<rparr> = Some r3
          \<and> packet_id_test r3 \<lparr>net_id = 100, net_time = 1000\<rparr> = Some (True, r4))"
proof -
  obtain p where p: "packet_id_init 64 15 ''demo'' 0 = Some p"
    using packet_id_init_window [of 64 15 "''demo''" 0] by auto
  show ?thesis
    using p persist_reload_reaccepts [OF p, of "\<lparr>pp_filename = None, pp_fd = 3, pp_time = 1000,
        pp_id = 100, pp_time_last_written = 1000, pp_id_last_written = 100\<rparr>" 2000]
    by (simp add: packet_id_persist_enabled_def Let_def)
qed

end
