(* ===== verification/Crypto_Epoch.thy ===== *)
theory Crypto_Epoch
  imports Replay
begin

text \<open>
  Epoch data keys: \<^verbatim>\<open>openvpn/src/openvpn/crypto_epoch.c\<close>, with the parts of \<^verbatim>\<open>crypto.c\<close> and
  \<^verbatim>\<open>crypto.h\<close> it works on (\<^verbatim>\<open>struct key_ctx\<close>, \<^verbatim>\<open>struct crypto_options\<close>, key context set-up and
  \<^verbatim>\<open>crypto_check_replay\<close>). Both peers derive a chain of epoch keys \<open>E_1, E_2, \<dots>\<close> and from each
  a data key; the receiver keeps the current key, the retiring one and a window of future
  ones, and moves on when a packet of a newer epoch authenticates.

  HMAC-SHA256 is the crypto library's: the argument \<open>hmac\<close> (key, message) of the operations
  that derive keys. A cipher or HMAC context is represented by the key bytes it was
  initialised with. \<open>NULL\<close> contexts are \<open>None\<close>.
\<close>

section \<open>State\<close>

definition UINT16_MAX :: u16 where "UINT16_MAX = 0xffff"
definition SHA256_DIGEST_LENGTH :: nat where "SHA256_DIGEST_LENGTH = 32"
definition OPENVPN_AEAD_MIN_IV_LEN :: nat where "OPENVPN_AEAD_MIN_IV_LEN = 12"
definition OPENVPN_MAX_IV_LENGTH :: nat where "OPENVPN_MAX_IV_LENGTH = 16"
definition MAX_HMAC_KEY_LENGTH :: nat where "MAX_HMAC_KEY_LENGTH = 64"

type_synonym hmac_fun = "bytes \<Rightarrow> bytes \<Rightarrow> bytes"

text \<open>
  A key type as its named cipher and digest give it: \<open>kt_cipher\<close> is whether the cipher is not
  \<^verbatim>\<open>none\<close>, \<open>kt_digest\<close> the size of the digest when there is one.
\<close>

record key_type =
  kt_cipher :: bool
  kt_key_size :: nat
  kt_iv_size :: nat
  kt_digest :: "nat option"
  kt_aead :: bool
  kt_chacha20_poly1305 :: bool

record key_parameters =
  kp_cipher :: bytes
  kp_cipher_size :: nat
  kp_hmac :: bytes
  kp_hmac_size :: nat
  kp_epoch :: u16

record epoch_key =
  ek_key :: bytes
  ek_epoch :: u16

record key_ctx =
  kc_cipher :: "bytes option"
  kc_hmac :: "bytes option"
  kc_implicit_iv :: bytes
  kc_plaintext_blocks :: u64
  kc_failed_verifications :: u64
  kc_epoch :: u16

record crypto_options =
  co_encrypt :: key_ctx
  co_decrypt :: key_ctx
  co_initialized :: bool
  co_epoch_key_send :: epoch_key
  co_epoch_key_recv :: epoch_key
  co_epoch_key_type :: key_type
  co_aead_usage_limit :: u64
  co_future :: "key_ctx list"
  co_future_count :: u16
  co_retiring_key :: key_ctx
  co_retiring_pid_recv :: packet_id_rec
  co_packet_id :: packet_id
  co_pid_persist :: "packet_id_persist option"
  co_packet_id_long_form :: bool
  co_epoch_data_format :: bool
  co_ignore_packet_id :: bool

definition key_ctx_zero :: key_ctx where
  "key_ctx_zero = \<lparr>kc_cipher = None, kc_hmac = None, kc_implicit_iv = replicate OPENVPN_MAX_IV_LENGTH 0,
     kc_plaintext_blocks = 0, kc_failed_verifications = 0, kc_epoch = 0\<rparr>"

section \<open>Key contexts\<close>

text \<open>\<^verbatim>\<open>init_key_ctx\<close>: the cipher and the HMAC of the key type, each when it is defined.\<close>

definition init_key_ctx :: "key_parameters \<Rightarrow> key_type \<Rightarrow> key_ctx option" where
  "init_key_ctx key kt = do {
     c_assert (kt_cipher kt \<longrightarrow> kp_cipher_size key \<ge> kt_key_size kt);
     c_assert (case kt_digest kt of None \<Rightarrow> True | Some n \<Rightarrow> kp_hmac_size key \<ge> n);
     Some (key_ctx_zero\<lparr>
       kc_cipher := (if kt_cipher kt then Some (take (kt_key_size kt) (kp_cipher key)) else None),
       kc_hmac := map_option (\<lambda>n. take n (kp_hmac key)) (kt_digest kt),
       kc_epoch := kp_epoch key\<rparr>)
   }"

definition key_ctx_update_implicit_iv :: "key_ctx \<Rightarrow> key_parameters \<Rightarrow> key_type \<Rightarrow> key_ctx option" where
  "key_ctx_update_implicit_iv ctx key kt =
     (if kc_cipher ctx \<noteq> None \<and> kt_aead kt then do {
        c_assert (kt_iv_size kt \<ge> OPENVPN_AEAD_MIN_IV_LEN);
        let (impl_iv_len, impl_iv_offset) =
          (if kp_epoch key \<noteq> 0 then (kt_iv_size kt, 0) else (kt_iv_size kt - 4, 4));
        c_assert (impl_iv_offset + impl_iv_len \<le> OPENVPN_MAX_IV_LENGTH);
        c_assert (impl_iv_len \<le> MAX_HMAC_KEY_LENGTH);
        c_assert (impl_iv_len \<le> kp_hmac_size key);
        iv \<leftarrow> mem_write (replicate OPENVPN_MAX_IV_LENGTH 0) (int impl_iv_offset)
                (take impl_iv_len (kp_hmac key));
        Some (ctx\<lparr>kc_implicit_iv := iv\<rparr>) }
      else Some ctx)"

definition init_key_bi_ctx_send :: "key_parameters \<Rightarrow> key_type \<Rightarrow> key_ctx option" where
  "init_key_bi_ctx_send key_params kt = do {
     ctx \<leftarrow> init_key_ctx key_params kt;
     ctx \<leftarrow> key_ctx_update_implicit_iv ctx key_params kt;
     Some (ctx\<lparr>kc_epoch := kp_epoch key_params\<rparr>)
   }"

definition init_key_bi_ctx_recv :: "key_parameters \<Rightarrow> key_type \<Rightarrow> key_ctx option" where
  "init_key_bi_ctx_recv key_params kt = do {
     ctx \<leftarrow> init_key_ctx key_params kt;
     ctx \<leftarrow> key_ctx_update_implicit_iv ctx key_params kt;
     Some (ctx\<lparr>kc_epoch := kp_epoch key_params\<rparr>)
   }"

definition free_key_ctx :: "key_ctx \<Rightarrow> key_ctx" where
  "free_key_ctx ctx = ctx\<lparr>kc_cipher := None, kc_hmac := None, kc_implicit_iv := replicate OPENVPN_MAX_IV_LENGTH 0,
     kc_plaintext_blocks := 0, kc_epoch := 0\<rparr>"

definition cipher_get_aead_limits :: "key_type \<Rightarrow> u64" where
  "cipher_get_aead_limits kt =
     (if \<not> kt_aead kt then 0 else if kt_chacha20_poly1305 kt then 0 else push_bit 36 1 - 1)"

definition cipher_decrypt_verify_fail_exceeded :: "key_ctx \<Rightarrow> bool" where
  "cipher_decrypt_verify_fail_exceeded ctx \<longleftrightarrow> kc_failed_verifications ctx > push_bit 36 1"

definition cipher_decrypt_verify_fail_warn :: "key_ctx \<Rightarrow> bool" where
  "cipher_decrypt_verify_fail_warn ctx \<longleftrightarrow> kc_failed_verifications ctx > push_bit 35 1"

definition aead_usage_limit_reached :: "u64 \<Rightarrow> key_ctx \<Rightarrow> u64 \<Rightarrow> bool" where
  "aead_usage_limit_reached limit ctx highest_pid \<longleftrightarrow>
     limit > 0 \<and> kc_plaintext_blocks ctx + highest_pid > limit"

section \<open>Key derivation\<close>

text \<open>
  The block loop of \<^verbatim>\<open>ovpn_hkdf_expand\<close> from a given block number and \<open>T(block - 1)\<close>. The counter
  is a \<^verbatim>\<open>uint8_t\<close>: after block 255 it wraps to 0 and the loop condition, evaluated in unsigned
  arithmetic, ends the loop.
\<close>

function hkdf_blocks :: "hmac_fun \<Rightarrow> bytes \<Rightarrow> bytes \<Rightarrow> nat \<Rightarrow> bytes \<Rightarrow> nat \<Rightarrow> bytes" where
  "hkdf_blocks hmac secret info block t_prev out_len =
     (if block \<le> 255 \<and> (block - 1) * SHA256_DIGEST_LENGTH < out_len then
        (let t = hmac secret (t_prev @ info @ [of_nat block]);
             out_offset = (block - 1) * SHA256_DIGEST_LENGTH;
             copylen = min SHA256_DIGEST_LENGTH (out_len - out_offset)
         in take copylen t @ hkdf_blocks hmac secret info (block + 1) t out_len)
      else [])"
  by pat_completeness auto
termination
  by (relation "measure (\<lambda>(h, s, i, block, t, out). 256 - block)") auto

declare hkdf_blocks.simps [simp del]

definition ovpn_hkdf_expand :: "hmac_fun \<Rightarrow> bytes \<Rightarrow> bytes \<Rightarrow> nat \<Rightarrow> bytes" where
  "ovpn_hkdf_expand hmac secret info out_len = hkdf_blocks hmac secret info 1 [] out_len"

definition ovpn_prefix :: bytes where
  "ovpn_prefix = [111, 118, 112, 110, 32]"

text \<open>
  \<^verbatim>\<open>ovpn_expand_label\<close>: the inner \<open>None\<close> is the \<^verbatim>\<open>false\<close> return (lengths out of range). The label is
  assembled in a \<^verbatim>\<open>struct buffer\<close> of exactly the computed size; write results are ignored, as
  in the code, and the final assertion checks the length.
\<close>

definition ovpn_expand_label ::
    "(nat \<Rightarrow> u8) \<Rightarrow> hmac_fun \<Rightarrow> bytes \<Rightarrow> bytes \<Rightarrow> bytes \<Rightarrow> nat \<Rightarrow> bytes option option" where
  "ovpn_expand_label junk hmac secret label ctxt out_len =
     (if length secret \<noteq> 32 \<or> length label > 250 \<or> length ctxt > 255 \<or> length label < 1
      then Some None
      else do {
        c_assert (out_len \<le> 65535);
        let hkdf_label_len = 2 + 5 + 1 + length label + 1 + length ctxt;
        b \<leftarrow> alloc_buf_gc junk hkdf_label_len;
        (_, b) \<leftarrow> buf_write_u16 b (of_nat out_len);
        (_, b) \<leftarrow> buf_write_u8 b (5 + of_nat (length label));
        (_, b) \<leftarrow> buf_write b ovpn_prefix;
        (_, b) \<leftarrow> buf_write b label;
        (_, b) \<leftarrow> buf_write_u8 b (of_nat (length ctxt));
        (_, b) \<leftarrow> (if length ctxt > 0 then buf_write b ctxt else Some (True, b));
        c_assert (buf_len b = int hkdf_label_len);
        info \<leftarrow> buf_bytes b;
        Some (Some (ovpn_hkdf_expand hmac secret info out_len))
      })"

definition label_datakey_upd :: bytes where
  "label_datakey_upd = [100, 97, 116, 97, 107, 101, 121, 32, 117, 112, 100]"
definition label_data_key :: bytes where
  "label_data_key = [100, 97, 116, 97, 95, 107, 101, 121]"
definition label_data_iv :: bytes where
  "label_data_iv = [100, 97, 116, 97, 95, 105, 118]"

text \<open>Where the label call returns \<^verbatim>\<open>false\<close> the output array keeps its zero initialisation.\<close>

definition expand_or_zero ::
    "(nat \<Rightarrow> u8) \<Rightarrow> hmac_fun \<Rightarrow> bytes \<Rightarrow> bytes \<Rightarrow> nat \<Rightarrow> bytes option" where
  "expand_or_zero junk hmac secret label out_len = do {
     r \<leftarrow> ovpn_expand_label junk hmac secret label [] out_len;
     Some (case r of None \<Rightarrow> replicate out_len 0 | Some bs \<Rightarrow> bs)
   }"

definition epoch_key_iterate :: "(nat \<Rightarrow> u8) \<Rightarrow> hmac_fun \<Rightarrow> epoch_key \<Rightarrow> epoch_key option" where
  "epoch_key_iterate junk hmac ek = do {
     k \<leftarrow> expand_or_zero junk hmac (ek_key ek) label_datakey_upd 32;
     Some \<lparr>ek_key = k, ek_epoch = ek_epoch ek + 1\<rparr>
   }"

definition epoch_data_key_derive ::
    "(nat \<Rightarrow> u8) \<Rightarrow> hmac_fun \<Rightarrow> epoch_key \<Rightarrow> key_type \<Rightarrow> key_parameters option" where
  "epoch_data_key_derive junk hmac ek kt = do {
     cipher \<leftarrow> expand_or_zero junk hmac (ek_key ek) label_data_key (kt_key_size kt);
     iv \<leftarrow> expand_or_zero junk hmac (ek_key ek) label_data_iv (kt_iv_size kt);
     Some \<lparr>kp_cipher = cipher, kp_cipher_size = kt_key_size kt, kp_hmac = iv,
           kp_hmac_size = kt_iv_size kt, kp_epoch = ek_epoch ek\<rparr>
   }"

section \<open>Moving through epochs\<close>

definition epoch_init_send_key_ctx ::
    "(nat \<Rightarrow> u8) \<Rightarrow> hmac_fun \<Rightarrow> crypto_options \<Rightarrow> crypto_options option" where
  "epoch_init_send_key_ctx junk hmac co = do {
     c_assert (kc_epoch (co_encrypt co) \<noteq> ek_epoch (co_epoch_key_send co));
     send_key \<leftarrow> epoch_data_key_derive junk hmac (co_epoch_key_send co) (co_epoch_key_type co);
     ctx \<leftarrow> init_key_bi_ctx_send send_key (co_epoch_key_type co);
     Some (co\<lparr>co_encrypt := ctx,
              co_packet_id := (co_packet_id co)\<lparr>pid_send := reset_packet_id_send (pid_send (co_packet_id co))\<rparr>\<rparr>)
   }"

definition epoch_init_recv_key ::
    "(nat \<Rightarrow> u8) \<Rightarrow> hmac_fun \<Rightarrow> crypto_options \<Rightarrow> key_ctx option" where
  "epoch_init_recv_key junk hmac co = do {
     recv_key \<leftarrow> epoch_data_key_derive junk hmac (co_epoch_key_recv co) (co_epoch_key_type co);
     init_key_bi_ctx_recv recv_key (co_epoch_key_type co)
   }"

text \<open>The last loop of \<^verbatim>\<open>epoch_generate_future_receive_keys\<close>: fill \<open>n\<close> slots from index \<open>i\<close>.\<close>

fun generate_keys_from ::
    "(nat \<Rightarrow> u8) \<Rightarrow> hmac_fun \<Rightarrow> nat \<Rightarrow> nat \<Rightarrow> crypto_options \<Rightarrow> crypto_options option" where
  "generate_keys_from junk hmac 0 i co = Some co"
| "generate_keys_from junk hmac (Suc n) i co = do {
     ek \<leftarrow> epoch_key_iterate junk hmac (co_epoch_key_recv co);
     let co = co\<lparr>co_epoch_key_recv := ek\<rparr>;
     ctx \<leftarrow> epoch_init_recv_key junk hmac co;
     generate_keys_from junk hmac n (Suc i) (co\<lparr>co_future := (co_future co)[i := ctx]\<rparr>)
   }"

definition epoch_generate_future_receive_keys ::
    "(nat \<Rightarrow> u8) \<Rightarrow> hmac_fun \<Rightarrow> crypto_options \<Rightarrow> crypto_options option" where
  "epoch_generate_future_receive_keys junk hmac co = do {
     c_assert (co_initialized co);
     let current_decrypt_epoch = kc_epoch (co_decrypt co);
     let count = unat (co_future_count co);
     c_assert (0 < count \<and> count = length (co_future co));
     let highest = kc_epoch (co_future co ! (count - 1));
     c_assert (ek_epoch (co_epoch_key_recv co) = 1 \<or> highest = ek_epoch (co_epoch_key_recv co)
               \<or> current_decrypt_epoch = ek_epoch (co_epoch_key_recv co));
     let future = map (\<lambda>k. if kc_epoch k > 0 \<and> kc_epoch k < current_decrypt_epoch
                           then free_key_ctx k else k) (co_future co);
     let current_highest_key = ek_epoch (co_epoch_key_recv co);
     c_assert (current_highest_key = kc_epoch (future ! (count - 1))
               \<or> current_highest_key = current_decrypt_epoch);
     let desired_highest_key = current_decrypt_epoch + co_future_count co;
     let num_keys_generate = unat (desired_highest_key - current_highest_key);
     c_assert (num_keys_generate \<le> count);
     c_assert (\<forall>k \<in> set (take num_keys_generate future). kc_epoch k = 0);
     let future = drop num_keys_generate future @ drop (count - num_keys_generate) future;
     co \<leftarrow> generate_keys_from junk hmac num_keys_generate (count - num_keys_generate)
            (co\<lparr>co_future := future\<rparr>);
     c_assert (\<forall>k \<in> set (co_future co). kc_epoch k > 0);
     Some co
   }"

definition epoch_iterate_send_key ::
    "(nat \<Rightarrow> u8) \<Rightarrow> hmac_fun \<Rightarrow> crypto_options \<Rightarrow> crypto_options option" where
  "epoch_iterate_send_key junk hmac co = do {
     c_assert (ek_epoch (co_epoch_key_send co) < UINT16_MAX);
     ek \<leftarrow> epoch_key_iterate junk hmac (co_epoch_key_send co);
     epoch_init_send_key_ctx junk hmac
       (co\<lparr>co_epoch_key_send := ek, co_encrypt := free_key_ctx (co_encrypt co)\<rparr>)
   }"

text \<open>The loop that brings the send chain up to the new epoch; \<open>n\<close> bounds its iterations.\<close>

fun iterate_send_until ::
    "(nat \<Rightarrow> u8) \<Rightarrow> hmac_fun \<Rightarrow> nat \<Rightarrow> u16 \<Rightarrow> epoch_key \<Rightarrow> epoch_key option" where
  "iterate_send_until junk hmac 0 new_epoch ek = None"
| "iterate_send_until junk hmac (Suc n) new_epoch ek =
     (if ek_epoch ek < new_epoch
      then do { ek \<leftarrow> epoch_key_iterate junk hmac ek; iterate_send_until junk hmac n new_epoch ek }
      else Some ek)"

fun find_epoch :: "key_ctx list \<Rightarrow> u16 \<Rightarrow> nat \<Rightarrow> nat" where
  "find_epoch [] e i = i"
| "find_epoch (k # ks) e i = (if kc_epoch k = e then i else find_epoch ks e (Suc i))"

definition epoch_replace_update_recv_key ::
    "(nat \<Rightarrow> u8) \<Rightarrow> hmac_fun \<Rightarrow> crypto_options \<Rightarrow> u16 \<Rightarrow> crypto_options option" where
  "epoch_replace_update_recv_key junk hmac co new_epoch = do {
     let fki = find_epoch (take (unat (co_future_count co)) (co_future co)) new_epoch 0;
     c_assert (fki < unat (co_future_count co));
     c_assert (fki < length (co_future co) \<and> kc_epoch (co_future co ! fki) = new_epoch);
     co \<leftarrow> (if kc_epoch (co_encrypt co) < new_epoch then do {
              let co = co\<lparr>co_encrypt := free_key_ctx (co_encrypt co)\<rparr>;
              ek \<leftarrow> iterate_send_until junk hmac 65536 new_epoch (co_epoch_key_send co);
              epoch_init_send_key_ctx junk hmac (co\<lparr>co_epoch_key_send := ek\<rparr>) }
           else Some co);
     let co = co\<lparr>co_retiring_key := co_decrypt co\<rparr>;
     (retired, fresh) \<leftarrow> packet_id_move_recv (co_retiring_pid_recv co) (pid_rec (co_packet_id co));
     let co = co\<lparr>co_retiring_pid_recv := retired, co_packet_id := (co_packet_id co)\<lparr>pid_rec := fresh\<rparr>\<rparr>;
     let co = co\<lparr>co_decrypt := co_future co ! fki, co_future := (co_future co)[fki := key_ctx_zero]\<rparr>;
     epoch_generate_future_receive_keys junk hmac co
   }"

definition epoch_init_key_ctx ::
    "(nat \<Rightarrow> u8) \<Rightarrow> hmac_fun \<Rightarrow> crypto_options \<Rightarrow> key_type \<Rightarrow> epoch_key \<Rightarrow> epoch_key \<Rightarrow> u16
       \<Rightarrow> crypto_options option" where
  "epoch_init_key_ctx junk hmac co key_type e1_send e1_recv future_key_count = do {
     c_assert (ek_epoch e1_send = 1 \<and> ek_epoch e1_recv = 1);
     let co = co\<lparr>co_epoch_key_recv := e1_recv, co_epoch_key_send := e1_send,
                 co_epoch_key_type := key_type, co_aead_usage_limit := cipher_get_aead_limits key_type\<rparr>;
     co \<leftarrow> epoch_init_send_key_ctx junk hmac co;
     d \<leftarrow> epoch_init_recv_key junk hmac co;
     let co = co\<lparr>co_decrypt := d, co_initialized := True, co_future_count := future_key_count,
                 co_future := replicate (unat future_key_count) key_ctx_zero\<rparr>;
     epoch_generate_future_receive_keys junk hmac co
   }"

definition epoch_lookup_decrypt_key :: "crypto_options \<Rightarrow> u16 \<Rightarrow> key_ctx option option" where
  "epoch_lookup_decrypt_key opt epoch =
     (if kc_epoch (co_decrypt opt) = epoch then Some (Some (co_decrypt opt))
      else if kc_epoch (co_retiring_key opt) \<noteq> 0 \<and> kc_epoch (co_retiring_key opt) = epoch
      then Some (Some (co_retiring_key opt))
      else if epoch > kc_epoch (co_decrypt opt)
              \<and> unat epoch \<le> unat (kc_epoch (co_decrypt opt)) + unat (co_future_count opt)
      then (let index = unat epoch - (unat (kc_epoch (co_decrypt opt)) + 1) in
            if int (unat epoch) > 65535 - int (unat (co_future_count opt)) - 1 then Some None
            else do { c_assert (index < length (co_future opt)); Some (Some (co_future opt ! index)) })
      else Some None)"

definition epoch_check_send_iterate ::
    "(nat \<Rightarrow> u8) \<Rightarrow> hmac_fun \<Rightarrow> crypto_options \<Rightarrow> crypto_options option" where
  "epoch_check_send_iterate junk hmac opt =
     (if ek_epoch (co_epoch_key_send opt) = UINT16_MAX then Some opt
      else do {
        opt \<leftarrow>
          (if co_aead_usage_limit opt \<noteq> 0 then
             (if aead_usage_limit_reached (co_aead_usage_limit opt) (co_encrypt opt)
                   (send_id (pid_send (co_packet_id opt)))
              then epoch_iterate_send_key junk hmac opt
              else if kc_epoch (co_encrypt opt) = kc_epoch (co_decrypt opt)
                   \<and> (aead_usage_limit_reached (co_aead_usage_limit opt) (co_decrypt opt)
                         (rec_id (pid_rec (co_packet_id opt)))
                      \<or> cipher_decrypt_verify_fail_warn (co_decrypt opt))
              then epoch_iterate_send_key junk hmac opt
              else Some opt)
           else Some opt);
        (if send_id (pid_send (co_packet_id opt)) = PACKET_ID_EPOCH_MAX
         then epoch_iterate_send_key junk hmac opt else Some opt)
      })"

text \<open>
  \<^verbatim>\<open>crypto_check_replay\<close>: choose the receive state by epoch (moving to the new epoch's key when
  the epoch is neither the current nor the retiring one), then reap, test and add, and record
  the new position in the persistent state when there is one.
\<close>

definition crypto_check_replay ::
    "(nat \<Rightarrow> u8) \<Rightarrow> hmac_fun \<Rightarrow> int \<Rightarrow> crypto_options \<Rightarrow> packet_id_net \<Rightarrow> u16
       \<Rightarrow> (bool \<times> crypto_options) option" where
  "crypto_check_replay junk hmac now opt pin epoch = do {
     let current = (epoch = 0 \<or> kc_epoch (co_decrypt opt) = epoch);
     let retiring = (\<not> current \<and> epoch = kc_epoch (co_retiring_key opt));
     opt \<leftarrow> (if current \<or> retiring then Some opt else epoch_replace_update_recv_key junk hmac opt epoch);
     let recv = (if retiring then co_retiring_pid_recv opt else pid_rec (co_packet_id opt));
     (ok, recv) \<leftarrow> replay_check now recv pin;
     let opt = (if retiring then opt\<lparr>co_retiring_pid_recv := recv\<rparr>
                else opt\<lparr>co_packet_id := (co_packet_id opt)\<lparr>pid_rec := recv\<rparr>\<rparr>);
     let opt = (if ok \<and> co_packet_id_long_form opt
                then opt\<lparr>co_pid_persist := map_option (\<lambda>pp. packet_id_persist_save_obj pp (co_packet_id opt))
                                             (co_pid_persist opt)\<rparr>
                else opt);
     Some (ok, opt)
   }"

section \<open>Derivation: closed forms\<close>

definition hmac_ok :: "hmac_fun \<Rightarrow> bool" where
  "hmac_ok hmac \<longleftrightarrow> (\<forall>k m. length (hmac k m) = SHA256_DIGEST_LENGTH)"

definition kt_ok :: "key_type \<Rightarrow> bool" where
  "kt_ok kt \<longleftrightarrow> kt_cipher kt \<and> kt_digest kt = None \<and> kt_aead kt \<and> kt_key_size kt \<le> 64 \<and> 12 \<le> kt_iv_size kt \<and> kt_iv_size kt \<le> 16"

definition hkdf_label :: "bytes \<Rightarrow> bytes \<Rightarrow> nat \<Rightarrow> bytes" where
  "hkdf_label label ctxt out_len =
     be16 (of_nat out_len) @ [5 + of_nat (length label)] @ ovpn_prefix @ label
       @ [of_nat (length ctxt)] @ ctxt"

lemma length_hkdf_blocks:
  assumes "hmac_ok hmac" "1 \<le> block" "out_len \<le> 8160"
  shows "length (hkdf_blocks hmac secret info block t out_len) = out_len - (block - 1) * 32"
  using assms
proof (induction hmac secret info block t out_len rule: hkdf_blocks.induct)
  case (1 hmac secret info block t out_len)
  show ?case
  proof (cases "block \<le> 255 \<and> (block - 1) * SHA256_DIGEST_LENGTH < out_len")
    case True
    let ?t = "hmac secret (t @ info @ [of_nat block])"
    have "length (hkdf_blocks hmac secret info (block + 1) ?t out_len) = out_len - block * 32"
      using "1.IH" [OF True refl refl refl] "1.prems" by simp
    moreover have "length ?t = 32" using "1.prems" by (simp add: hmac_ok_def SHA256_DIGEST_LENGTH_def)
    moreover have "(block - 1) * 32 + 32 = block * 32" using "1.prems" by (cases block) simp_all
    ultimately show ?thesis
      using True by (subst hkdf_blocks.simps) (simp add: Let_def SHA256_DIGEST_LENGTH_def)
  next
    case False
    with "1.prems" show ?thesis
      by (subst hkdf_blocks.simps) (auto simp: SHA256_DIGEST_LENGTH_def)
  qed
qed

lemma length_ovpn_hkdf_expand:
  "hmac_ok hmac \<Longrightarrow> out_len \<le> 8160 \<Longrightarrow> length (ovpn_hkdf_expand hmac secret info out_len) = out_len"
  using length_hkdf_blocks [of hmac 1 out_len] by (simp add: ovpn_hkdf_expand_def)

lemma buf_put_live:
  assumes "buf_live b" "buf_content b = c" "buf_room b = length xs + r"
  obtains b' where "buf_write b xs = Some (True, b')" "buf_live b'" "buf_content b' = c @ xs" "buf_room b' = r"
  using wire.put_ok [OF assms(1), of xs] assms(2,3) by auto

text \<open>The key chain and the data key contexts as mathematical functions.\<close>

definition next_ek :: "hmac_fun \<Rightarrow> epoch_key \<Rightarrow> epoch_key" where
  "next_ek hmac ek =
     \<lparr>ek_key = ovpn_hkdf_expand hmac (ek_key ek) (hkdf_label label_datakey_upd [] 32) 32,
      ek_epoch = ek_epoch ek + 1\<rparr>"

definition ek_at :: "hmac_fun \<Rightarrow> epoch_key \<Rightarrow> nat \<Rightarrow> epoch_key" where
  "ek_at hmac e1 n = (next_ek hmac ^^ (n - 1)) e1"

definition data_ctx :: "hmac_fun \<Rightarrow> key_type \<Rightarrow> epoch_key \<Rightarrow> key_ctx" where
  "data_ctx hmac kt ek = key_ctx_zero\<lparr>
     kc_cipher := Some (ovpn_hkdf_expand hmac (ek_key ek)
                          (hkdf_label label_data_key [] (kt_key_size kt)) (kt_key_size kt)),
     kc_implicit_iv := ovpn_hkdf_expand hmac (ek_key ek)
                          (hkdf_label label_data_iv [] (kt_iv_size kt)) (kt_iv_size kt)
                        @ replicate (OPENVPN_MAX_IV_LENGTH - kt_iv_size kt) 0,
     kc_epoch := ek_epoch ek\<rparr>"

definition ek_ok :: "epoch_key \<Rightarrow> bool" where
  "ek_ok ek \<longleftrightarrow> length (ek_key ek) = 32"

lemma expand_label_total:
  assumes "length secret = 32" "1 \<le> length label" "length label \<le> 250" "length ctxt \<le> 255"
    and "out_len \<le> 65535"
  shows "ovpn_expand_label junk hmac secret label ctxt out_len
     = Some (Some (ovpn_hkdf_expand hmac secret (hkdf_label label ctxt out_len) out_len))"
proof -
  let ?n = "2 + 5 + 1 + length label + 1 + length ctxt"
  have lens: "length (be16 (of_nat out_len)) = 2" "length ovpn_prefix = 5" by (simp_all add: ovpn_prefix_def)
  have "0 < ?n" "int ?n < BUF_SIZE_MAX" using assms by (simp_all add: BUF_SIZE_MAX_def)
  from alloc_buf_gc_live [OF this, of junk] obtain b where b: "alloc_buf_gc junk ?n = Some b" "buf_live b"
    "buf_content b = []" "buf_room b = ?n" by blast
  obtain b1 where b1: "buf_write b (be16 (of_nat out_len)) = Some (True, b1)" "buf_live b1"
      "buf_content b1 = [] @ be16 (of_nat out_len)" "buf_room b1 = 5 + 1 + length label + 1 + length ctxt"
    by (rule buf_put_live [OF b(2,3)]) (use b lens in auto)
  obtain b2 where b2: "buf_write b1 [5 + of_nat (length label)] = Some (True, b2)" "buf_live b2"
      "buf_content b2 = be16 (of_nat out_len) @ [5 + of_nat (length label)]"
      "buf_room b2 = 5 + length label + 1 + length ctxt"
    by (rule buf_put_live [OF b1(2,3)]) (use b1 in auto)
  obtain b3 where b3: "buf_write b2 ovpn_prefix = Some (True, b3)" "buf_live b3"
      "buf_content b3 = (be16 (of_nat out_len) @ [5 + of_nat (length label)]) @ ovpn_prefix"
      "buf_room b3 = length label + 1 + length ctxt"
    by (rule buf_put_live [OF b2(2,3)]) (use b2 lens in auto)
  obtain b4 where b4: "buf_write b3 label = Some (True, b4)" "buf_live b4"
      "buf_content b4 = ((be16 (of_nat out_len) @ [5 + of_nat (length label)]) @ ovpn_prefix) @ label"
      "buf_room b4 = 1 + length ctxt"
    by (rule buf_put_live [OF b3(2,3)]) (use b3 in auto)
  obtain b5 where b5: "buf_write b4 [of_nat (length ctxt)] = Some (True, b5)" "buf_live b5"
      "buf_content b5 = (((be16 (of_nat out_len) @ [5 + of_nat (length label)]) @ ovpn_prefix) @ label)
         @ [of_nat (length ctxt)]" "buf_room b5 = length ctxt"
    by (rule buf_put_live [OF b4(2,3)]) (use b4 in auto)
  obtain b6 where b6: "(if length ctxt > 0 then buf_write b5 ctxt else Some (True, b5)) = Some (True, b6)"
      "buf_live b6" "buf_content b6 = hkdf_label label ctxt out_len"
  proof (cases "ctxt = []")
    case True
    with b5 that show thesis by (simp add: hkdf_label_def)
  next
    case False
    with buf_put_live [OF b5(2,3), of ctxt 0] b5(4) that show thesis
      by (fastforce simp: hkdf_label_def)
  qed
  have "buf_len b6 = int ?n" "buf_bytes b6 = Some (hkdf_label label ctxt out_len)"
    using b6 length_buf_content [of b6] buf_wf_len [of b6] buf_bytes_content [of b6] lens
    by (auto simp: buf_live_def hkdf_label_def)
  moreover have "label \<noteq> []" using assms(2) by auto
  ultimately show ?thesis using assms b b1 b2 b3 b4 b5 b6
    by (simp add: ovpn_expand_label_def buf_write_u16_def buf_write_u8_def Let_def)
qed

text \<open>For every label and context of legal length the label encoder fits its buffer exactly (no
  write is refused, the length assertion holds) and the output is HKDF-Expand over the label
  structure: output length, prefixed label with its length, context with its length.\<close>

theorem ovpn_expand_label_total:
  assumes "length secret = 32" "1 \<le> length label" "length label \<le> 250" "length ctxt \<le> 255"
    and "out_len \<le> 65535"
  shows "ovpn_expand_label junk hmac secret label ctxt out_len
     = Some (Some (ovpn_hkdf_expand hmac secret (hkdf_label label ctxt out_len) out_len))"
  by (rule expand_label_total) (use assms in simp_all)

theorem ovpn_expand_label_total_witness:
  "ovpn_expand_label (\<lambda>_. 0) (\<lambda>k m. replicate 32 (of_nat (length m))) (replicate 32 1) label_data_iv [] 12
     = Some (Some (ovpn_hkdf_expand (\<lambda>k m. replicate 32 (of_nat (length m))) (replicate 32 1)
         (hkdf_label label_data_iv [] 12) 12))"
  by (rule ovpn_expand_label_total) (simp_all add: label_data_iv_def)


lemma ek_ok_next [simp]: "hmac_ok hmac \<Longrightarrow> ek_ok (next_ek hmac ek)"
  by (simp add: ek_ok_def next_ek_def length_ovpn_hkdf_expand)

lemma ek_at_Suc: "1 \<le> n \<Longrightarrow> ek_at hmac e1 (Suc n) = next_ek hmac (ek_at hmac e1 n)"
  by (cases n) (simp_all add: ek_at_def)

lemma ek_at_1 [simp]: "ek_at hmac e1 (Suc 0) = e1"
  by (simp add: ek_at_def)

lemma ek_ok_at: "hmac_ok hmac \<Longrightarrow> ek_ok e1 \<Longrightarrow> ek_ok (ek_at hmac e1 n)"
  by (cases "n - 1") (simp_all add: ek_at_def)

lemma ek_epoch_at: "ek_epoch e1 = 1 \<Longrightarrow> 1 \<le> n \<Longrightarrow> ek_epoch (ek_at hmac e1 n) = of_nat n"
proof (induction n)
  case (Suc n)
  then show ?case by (cases n) (simp_all add: ek_at_Suc next_ek_def)
qed simp

lemma unat_epoch_at:
  "ek_epoch e1 = 1 \<Longrightarrow> 1 \<le> n \<Longrightarrow> n \<le> 65535 \<Longrightarrow> unat (ek_epoch (ek_at hmac e1 n)) = n"
  by (simp add: ek_epoch_at unat_of_nat take_bit_nat_eq_self)

lemma epoch_data_ctx [simp]: "kc_epoch (data_ctx hmac kt ek) = ek_epoch ek"
  by (simp add: data_ctx_def)

lemma expand_or_zero_total:
  assumes "length secret = 32" "1 \<le> length label" "length label \<le> 250" "out_len \<le> 65535"
  shows "expand_or_zero junk hmac secret label out_len
     = Some (ovpn_hkdf_expand hmac secret (hkdf_label label [] out_len) out_len)"
  using assms by (simp add: expand_or_zero_def expand_label_total)

lemma epoch_key_iterate_total:
  "ek_ok ek \<Longrightarrow> epoch_key_iterate junk hmac ek = Some (next_ek hmac ek)"
  by (simp add: epoch_key_iterate_def ek_ok_def next_ek_def expand_or_zero_total label_datakey_upd_def)

lemma epoch_data_key_derive_total:
  assumes "ek_ok ek" "kt_ok kt"
  shows "epoch_data_key_derive junk hmac ek kt = Some
     \<lparr>kp_cipher = ovpn_hkdf_expand hmac (ek_key ek) (hkdf_label label_data_key [] (kt_key_size kt)) (kt_key_size kt),
      kp_cipher_size = kt_key_size kt,
      kp_hmac = ovpn_hkdf_expand hmac (ek_key ek) (hkdf_label label_data_iv [] (kt_iv_size kt)) (kt_iv_size kt),
      kp_hmac_size = kt_iv_size kt, kp_epoch = ek_epoch ek\<rparr>"
  using assms by (simp add: epoch_data_key_derive_def ek_ok_def kt_ok_def expand_or_zero_total
      label_data_key_def label_data_iv_def)

lemma epoch_key_ctx_total:
  assumes "hmac_ok hmac" "kt_ok kt" "ek_ok ek" "ek_epoch ek \<noteq> 0"
  obtains k where "epoch_data_key_derive junk hmac ek kt = Some k"
    "init_key_bi_ctx_send k kt = Some (data_ctx hmac kt ek)"
    "init_key_bi_ctx_recv k kt = Some (data_ctx hmac kt ek)"
proof -
  have "init_key_bi_ctx_send k kt = Some (data_ctx hmac kt ek)
      \<and> init_key_bi_ctx_recv k kt = Some (data_ctx hmac kt ek)"
    if "epoch_data_key_derive junk hmac ek kt = Some k" for k
    using that assms
    by (auto simp: epoch_data_key_derive_total init_key_bi_ctx_recv_def init_key_bi_ctx_send_def
        init_key_ctx_def key_ctx_update_implicit_iv_def data_ctx_def key_ctx_zero_def kt_ok_def
        length_ovpn_hkdf_expand OPENVPN_AEAD_MIN_IV_LEN_def OPENVPN_MAX_IV_LENGTH_def
        MAX_HMAC_KEY_LENGTH_def mem_write_def Let_def)
  with epoch_data_key_derive_total [OF assms(3,2)] that show thesis by blast
qed

lemma epoch_init_recv_key_total:
  assumes "hmac_ok hmac" "kt_ok (co_epoch_key_type co)" "ek_ok (co_epoch_key_recv co)"
    "ek_epoch (co_epoch_key_recv co) \<noteq> 0"
  shows "epoch_init_recv_key junk hmac co = Some (data_ctx hmac (co_epoch_key_type co) (co_epoch_key_recv co))"
  by (rule epoch_key_ctx_total [OF assms, of junk]) (simp add: epoch_init_recv_key_def)

lemma epoch_init_send_key_ctx_total:
  assumes "hmac_ok hmac" "kt_ok (co_epoch_key_type co)" "ek_ok (co_epoch_key_send co)"
    "ek_epoch (co_epoch_key_send co) \<noteq> 0" "kc_epoch (co_encrypt co) \<noteq> ek_epoch (co_epoch_key_send co)"
  shows "epoch_init_send_key_ctx junk hmac co = Some (co\<lparr>
     co_encrypt := data_ctx hmac (co_epoch_key_type co) (co_epoch_key_send co),
     co_packet_id := (co_packet_id co)\<lparr>pid_send := reset_packet_id_send (pid_send (co_packet_id co))\<rparr>\<rparr>)"
  by (rule epoch_key_ctx_total [OF assms(1-4), of junk]) (use assms(5) in \<open>simp add: epoch_init_send_key_ctx_def\<close>)

lemma generate_keys_from_total:
  assumes "hmac_ok hmac" "kt_ok (co_epoch_key_type co)" "ek_ok e1" "ek_epoch e1 = 1"
    and "co_epoch_key_recv co = ek_at hmac e1 m" "1 \<le> m" "m + n \<le> 65535"
    and "i + n = length (co_future co)"
  shows "generate_keys_from junk hmac n i co = Some (co\<lparr>co_epoch_key_recv := ek_at hmac e1 (m + n),
     co_future := take i (co_future co)
        @ map (\<lambda>j. data_ctx hmac (co_epoch_key_type co) (ek_at hmac e1 (m + 1 + j))) [0..<n]\<rparr>)"
  using assms
proof (induction n arbitrary: i m co)
  case 0
  then show ?case by simp
next
  case (Suc n)
  let ?co = "co\<lparr>co_epoch_key_recv := ek_at hmac e1 (Suc m)\<rparr>"
  let ?d = "\<lambda>j. data_ctx hmac (co_epoch_key_type co) (ek_at hmac e1 j)"
  have it: "epoch_key_iterate junk hmac (co_epoch_key_recv co) = Some (ek_at hmac e1 (Suc m))"
    using Suc.prems by (simp add: epoch_key_iterate_total ek_ok_at ek_at_Suc)
  have "unat (ek_epoch (ek_at hmac e1 (Suc m))) = Suc m" using Suc.prems by (intro unat_epoch_at) auto
  then have "ek_epoch (ek_at hmac e1 (Suc m)) \<noteq> 0" by auto
  then have ctx: "epoch_init_recv_key junk hmac ?co = Some (?d (Suc m))"
    using Suc.prems by (subst epoch_init_recv_key_total) (simp_all add: ek_ok_at)
  let ?co2 = "?co\<lparr>co_future := (co_future co)[i := ?d (Suc m)]\<rparr>"
  have "generate_keys_from junk hmac n (Suc i) ?co2 = Some (?co2\<lparr>co_epoch_key_recv := ek_at hmac e1 (Suc m + n),
     co_future := take (Suc i) (co_future ?co2) @ map (\<lambda>j. ?d (Suc m + 1 + j)) [0..<n]\<rparr>)"
    using Suc.prems by (subst Suc.IH [where m = "Suc m"]) simp_all
  moreover have "[0..<Suc n] = 0 # map Suc [0..<n]" by (simp add: map_Suc_upt upt_conv_Cons)
  ultimately show ?case using it ctx Suc.prems
    by (simp add: take_Suc_conv_app_nth take_update_cancel comp_def)
qed

lemma map_free_unchanged:
  assumes "\<forall>i. n \<le> i \<and> i < length ks \<longrightarrow> \<not> kc_epoch (ks ! i) < d"
  shows "drop n (map (\<lambda>k. if kc_epoch k > 0 \<and> kc_epoch k < d then free_key_ctx k else k) ks) = drop n ks"
  using assms by (intro nth_equalityI) auto

text \<open>
  Generating future keys from a window whose first \<open>n\<close> slots are used up: the remaining keys
  move to the front, \<open>n\<close> new ones follow and every assertion on the way holds.
\<close>

lemma epoch_generate_future_receive_keys_total:
  assumes env: "hmac_ok hmac" "kt_ok (co_epoch_key_type co)" "ek_ok e1" "ek_epoch e1 = 1"
    and init: "co_initialized co" and c: "unat (co_future_count co) = c" "length (co_future co) = c" "0 < c"
    and d: "unat (kc_epoch (co_decrypt co)) = d" "1 \<le> d" "d + c \<le> 65535" and n: "n \<le> c"
    and ek: "co_epoch_key_recv co = ek_at hmac e1 (d + c - n)"
    and old: "\<And>i. i < n \<Longrightarrow> unat (kc_epoch (co_future co ! i)) < d"
    and kept: "\<And>i. n \<le> i \<Longrightarrow> i < c \<Longrightarrow> unat (kc_epoch (co_future co ! i)) = d + 1 + (i - n)"
  shows "epoch_generate_future_receive_keys junk hmac co = Some (co\<lparr>co_epoch_key_recv := ek_at hmac e1 (d + c),
     co_future := drop n (co_future co)
        @ map (\<lambda>j. data_ctx hmac (co_epoch_key_type co) (ek_at hmac e1 (d + c - n + 1 + j))) [0..<n]\<rparr>)"
proof -
  let ?h = "d + c - n"
  let ?free = "map (\<lambda>k. if kc_epoch k > 0 \<and> kc_epoch k < kc_epoch (co_decrypt co) then free_key_ctx k else k)
                 (co_future co)"
  have h: "1 \<le> ?h" "?h \<le> 65535" using d n by auto
  have hw: "unat (ek_epoch (ek_at hmac e1 ?h)) = ?h" using unat_epoch_at env(4) h by blast
  have keep: "drop n ?free = drop n (co_future co)"
    by (rule map_free_unchanged) (use kept c d in \<open>auto simp: word_less_nat_alt\<close>)
  have freed: "\<forall>k \<in> set (take n ?free). kc_epoch k = 0"
    using old c n d by (auto simp: in_set_conv_nth free_key_ctx_def word_less_nat_alt unat_gt_0)
  have last: "kc_epoch (co_future co ! (c - 1)) = ek_epoch (ek_at hmac e1 ?h)
      \<and> ?free ! (c - 1) = co_future co ! (c - 1)" if "n < c"
  proof -
    have "unat (kc_epoch (co_future co ! (c - 1))) = ?h" using kept [of "c - 1"] that by simp
    then show ?thesis using hw c d that by (auto simp: word_unat_eq_iff word_less_nat_alt)
  qed
  have all: "kc_epoch (co_decrypt co) = ek_epoch (ek_at hmac e1 ?h)" if "\<not> n < c"
    using that n d hw by (intro iffD2 [OF word_unat_eq_iff]) simp
  have cnt: "unat (kc_epoch (co_decrypt co) + co_future_count co - ek_epoch (ek_at hmac e1 ?h)) = n"
  proof -
    have "unat (kc_epoch (co_decrypt co) + co_future_count co) = d + c"
      using c d by (subst unat_add_lem [THEN iffD1]) simp_all
    then show ?thesis using hw n d c by (subst unat_sub_le) (simp_all add: word_le_nat_alt)
  qed
  let ?co = "co\<lparr>co_future := drop n (co_future co) @ drop (c - n) ?free\<rparr>"
  have gen: "generate_keys_from junk hmac n (c - n) ?co = Some (?co\<lparr>co_epoch_key_recv := ek_at hmac e1 (?h + n),
     co_future := take (c - n) (co_future ?co)
        @ map (\<lambda>j. data_ctx hmac (co_epoch_key_type ?co) (ek_at hmac e1 (?h + 1 + j))) [0..<n]\<rparr>)"
    by (rule generate_keys_from_total) (use env ek h n d c in simp_all)
  have pos: "0 < kc_epoch k" if "k \<in> set (drop n (co_future co))" for k
    using that kept c(2) n by (auto simp: in_set_conv_nth word_less_nat_alt)
  have pos2: "0 < ek_epoch (ek_at hmac e1 (?h + 1 + j))" if "j < n" for j
    using unat_epoch_at [OF env(4), of "?h + 1 + j" hmac] that h n d(3) by (simp add: word_less_nat_alt)
  have sz: "?h + n = d + c" using n by simp
  define fr where "fr = ?free"
  have a1: "ek_epoch (ek_at hmac e1 ?h) = 1 \<or> kc_epoch (co_future co ! (c - 1)) = ek_epoch (ek_at hmac e1 ?h)
      \<or> kc_epoch (co_decrypt co) = ek_epoch (ek_at hmac e1 ?h)"
    and a2: "ek_epoch (ek_at hmac e1 ?h) = kc_epoch (fr ! (c - 1))
      \<or> ek_epoch (ek_at hmac e1 ?h) = kc_epoch (co_decrypt co)"
    using last all unfolding fr_def by (cases "n < c"; simp)+
  have a3: "\<forall>k \<in> set (drop n (co_future co) @ map (\<lambda>j. data_ctx hmac (co_epoch_key_type co)
      (ek_at hmac e1 (?h + 1 + j))) [0..<n]). 0 < kc_epoch k"
    using pos pos2 by auto
  show ?thesis
    unfolding epoch_generate_future_receive_keys_def Let_def c(1) ek cnt fr_def [symmetric]
    using init c(2,3) n a1 a2 a3 keep freed gen sz unfolding fr_def [symmetric]
    by simp
qed

section \<open>The receive window of keys\<close>

text \<open>Two key contexts with the same key material; usage counters may differ.\<close>

definition same_key :: "key_ctx \<Rightarrow> key_ctx \<Rightarrow> bool" where
  "same_key a b \<longleftrightarrow> kc_cipher a = kc_cipher b \<and> kc_implicit_iv a = kc_implicit_iv b \<and> kc_epoch a = kc_epoch b"

definition pid_epoch_wf :: "packet_id_rec \<Rightarrow> bool" where
  "pid_epoch_wf p \<longleftrightarrow> pid_window_wf p \<and> MIN_TIME_BACKTRACK \<le> rec_time_backtrack p
     \<and> rec_time_backtrack p \<le> MAX_TIME_BACKTRACK"

text \<open>
  The state between packets: current decrypt key \<open>d\<close> and its \<open>c\<close> successors are the data keys of
  the peer's chain, in order; the retiring key is an earlier one; the receive chain stands at
  the last key of the window; the send key is the one of the own chain and never behind the
  receive key.
\<close>

definition epoch_inv :: "hmac_fun \<Rightarrow> epoch_key \<Rightarrow> epoch_key \<Rightarrow> crypto_options \<Rightarrow> bool" where
  "epoch_inv hmac e1s e1r co \<longleftrightarrow>
     (let c = unat (co_future_count co); d = unat (kc_epoch (co_decrypt co));
          s = unat (kc_epoch (co_encrypt co)); r = unat (kc_epoch (co_retiring_key co));
          key = (\<lambda>e1 n. data_ctx hmac (co_epoch_key_type co) (ek_at hmac e1 n))
      in kt_ok (co_epoch_key_type co) \<and> co_initialized co
       \<and> 0 < c \<and> length (co_future co) = c \<and> 1 \<le> d \<and> d + c \<le> 65535 \<and> d \<le> s \<and> r < d
       \<and> same_key (co_decrypt co) (key e1r d)
       \<and> (\<forall>i < c. same_key (co_future co ! i) (key e1r (d + 1 + i)))
       \<and> co_epoch_key_recv co = ek_at hmac e1r (d + c)
       \<and> (r \<noteq> 0 \<longrightarrow> same_key (co_retiring_key co) (key e1r r) \<and> pid_epoch_wf (co_retiring_pid_recv co))
       \<and> co_epoch_key_send co = ek_at hmac e1s s \<and> same_key (co_encrypt co) (key e1s s)
       \<and> pid_epoch_wf (pid_rec (co_packet_id co)))"

definition epoch_env :: "hmac_fun \<Rightarrow> epoch_key \<Rightarrow> epoch_key \<Rightarrow> bool" where
  "epoch_env hmac e1s e1r \<longleftrightarrow> hmac_ok hmac \<and> ek_ok e1s \<and> ek_epoch e1s = 1 \<and> ek_ok e1r \<and> ek_epoch e1r = 1"

lemma same_key_refl [simp]: "same_key k k"
  by (simp add: same_key_def)

lemma same_key_epoch: "same_key k k' \<Longrightarrow> kc_epoch k = kc_epoch k'"
  by (simp add: same_key_def)

lemma packet_id_move_recv_window:
  assumes "pid_epoch_wf src"
  shows "\<exists>fresh. packet_id_move_recv dest src = Some (src, fresh) \<and> pid_epoch_wf fresh
     \<and> rec_id fresh = 0 \<and> rec_time fresh = 0"
proof -
  have sb: "0 < unat (rec_seq_backtrack src)" "unat (rec_seq_backtrack src) \<le> 65536"
    using assms pid_window_shapeE [of src] by (auto simp: pid_epoch_wf_def pid_window_wf_def)
  let ?sb = "uint (rec_seq_backtrack src)"
  have ui: "?sb \<le> 65536" "0 < ?sb" using sb uint_nat [of "rec_seq_backtrack src"] by linarith+
  have "signed_take_bit 31 ?sb = ?sb"
  proof (rule signed_take_bit_int_eq_self)
    show "- (2 ^ 31) \<le> ?sb" by (rule order_trans [OF _ less_imp_le [OF ui(2)]]) simp
    show "?sb < 2 ^ 31" by (rule order_le_less_trans [OF ui(1)]) simp
  qed
  then have si: "sint (ucast (rec_seq_backtrack src) :: u32) = ?sb" by (simp add: signed_ucast_eq)
  from packet_id_init_recv_window [of ?sb "rec_time_backtrack src" "rec_name src" "rec_unit src"] ui assms
  obtain fresh where "packet_id_init_recv packet_id_rec_zero ?sb
      (rec_time_backtrack src) (rec_name src) (rec_unit src) = Some fresh"
    "pid_epoch_wf fresh" "rec_id fresh = 0" "rec_time fresh = 0"
    by (auto simp: pid_epoch_wf_def MIN_TIME_BACKTRACK_def MAX_TIME_BACKTRACK_def)
  then show ?thesis unfolding packet_id_move_recv_def Let_def si by simp
qed

lemma iterate_send_until_total:
  assumes "hmac_ok hmac" "ek_ok e1" "ek_epoch e1 = 1" "1 \<le> s" "s \<le> unat e" "unat e - s < fuel"
  shows "iterate_send_until junk hmac fuel e (ek_at hmac e1 s) = Some (ek_at hmac e1 (unat e))"
  using assms
proof (induction fuel arbitrary: s)
  case (Suc fuel)
  have le: "s \<le> 65535" using Suc.prems(5) unsigned_less [where 'a = nat, of e] by simp
  have u: "unat (ek_epoch (ek_at hmac e1 s)) = s" using Suc.prems le by (intro unat_epoch_at) auto
  show ?case
  proof (cases "s < unat e")
    case True
    with Suc.IH [of "Suc s"] Suc.prems u show ?thesis
      by (simp add: word_less_nat_alt epoch_key_iterate_total ek_ok_at ek_at_Suc)
  next
    case False
    with Suc.prems u show ?thesis by (simp add: word_less_nat_alt)
  qed
qed simp

lemma find_epoch_nth:
  assumes "i < length ks" "kc_epoch (ks ! i) = e" "\<And>j. j < i \<Longrightarrow> kc_epoch (ks ! j) \<noteq> e"
  shows "find_epoch ks e k = k + i"
  using assms
proof (induction ks arbitrary: i k)
  case (Cons x ks)
  show ?case
  proof (cases i)
    case (Suc i')
    with Cons.prems(3) [of 0] Cons.prems(3) [of "Suc _"] Cons.prems(1,2) Cons.IH [of i' "Suc k"]
    show ?thesis by fastforce
  qed (use Cons.prems in simp)
qed simp

lemma epoch_invE:
  assumes "epoch_inv hmac e1s e1r co"
  obtains "kt_ok (co_epoch_key_type co)" "co_initialized co" "0 < unat (co_future_count co)"
    "length (co_future co) = unat (co_future_count co)" "1 \<le> unat (kc_epoch (co_decrypt co))"
    "unat (kc_epoch (co_decrypt co)) + unat (co_future_count co) \<le> 65535"
    "unat (kc_epoch (co_decrypt co)) \<le> unat (kc_epoch (co_encrypt co))"
    "unat (kc_epoch (co_retiring_key co)) < unat (kc_epoch (co_decrypt co))"
  using assms by (auto simp: epoch_inv_def Let_def)

lemma epoch_inv_future_epoch:
  assumes "epoch_env hmac e1s e1r" "epoch_inv hmac e1s e1r co" "i < unat (co_future_count co)"
  shows "unat (kc_epoch (co_future co ! i)) = unat (kc_epoch (co_decrypt co)) + 1 + i"
proof -
  let ?n = "unat (kc_epoch (co_decrypt co)) + 1 + i"
  have "same_key (co_future co ! i) (data_ctx hmac (co_epoch_key_type co) (ek_at hmac e1r ?n))" "?n \<le> 65535"
    using assms by (auto simp: epoch_inv_def Let_def)
  with unat_epoch_at [of e1r ?n hmac] assms(1) show ?thesis by (auto simp: epoch_env_def dest: same_key_epoch)
qed

text \<open>Bringing the send side up to the epoch of a newly adopted receive key.\<close>

lemma epoch_send_catch_up:
  assumes env: "epoch_env hmac e1s e1r" and inv: "epoch_inv hmac e1s e1r co"
    and less: "kc_epoch (co_encrypt co) < e"
  defines "ek \<equiv> ek_at hmac e1s (unat e)"
  shows "iterate_send_until junk hmac 65536 e (co_epoch_key_send co) = Some ek"
    and "epoch_init_send_key_ctx junk hmac (co\<lparr>co_encrypt := free_key_ctx (co_encrypt co), co_epoch_key_send := ek\<rparr>)
      = Some (co\<lparr>co_encrypt := data_ctx hmac (co_epoch_key_type co) ek, co_epoch_key_send := ek,
           co_packet_id := (co_packet_id co)\<lparr>pid_send := reset_packet_id_send (pid_send (co_packet_id co))\<rparr>\<rparr>)"
    and "ek_epoch ek = e"
proof -
  from inv have s: "1 \<le> unat (kc_epoch (co_encrypt co))"
      "co_epoch_key_send co = ek_at hmac e1s (unat (kc_epoch (co_encrypt co)))" "kt_ok (co_epoch_key_type co)"
    by (auto simp: epoch_inv_def Let_def)
  have e: "1 \<le> unat e" "unat e \<le> 65535" using less s unsigned_less [where 'a = nat, of e]
    by (auto simp: word_less_nat_alt)
  show it: "iterate_send_until junk hmac 65536 e (co_epoch_key_send co) = Some ek"
    unfolding s(2) ek_def
    by (rule iterate_send_until_total) (use env s less e in \<open>auto simp: epoch_env_def word_less_nat_alt\<close>)
  show ek: "ek_epoch ek = e"
    using unat_epoch_at [of e1s "unat e" hmac] e env by (simp add: ek_def epoch_env_def word_unat_eq_iff)
  have "e \<noteq> 0" using e by auto
  then show "epoch_init_send_key_ctx junk hmac (co\<lparr>co_encrypt := free_key_ctx (co_encrypt co), co_epoch_key_send := ek\<rparr>)
      = Some (co\<lparr>co_encrypt := data_ctx hmac (co_epoch_key_type co) ek, co_epoch_key_send := ek,
           co_packet_id := (co_packet_id co)\<lparr>pid_send := reset_packet_id_send (pid_send (co_packet_id co))\<rparr>\<rparr>)"
    using env s(3) ek by (subst epoch_init_send_key_ctx_total) (simp_all add: epoch_env_def ek_def ek_ok_at free_key_ctx_def)
qed

definition send_at :: "hmac_fun \<Rightarrow> epoch_key \<Rightarrow> u16 \<Rightarrow> crypto_options \<Rightarrow> crypto_options" where
  "send_at hmac e1s e co =
     (if kc_epoch (co_encrypt co) < e
      then co\<lparr>co_encrypt := data_ctx hmac (co_epoch_key_type co) (ek_at hmac e1s (unat e)),
              co_epoch_key_send := ek_at hmac e1s (unat e),
              co_packet_id := (co_packet_id co)\<lparr>pid_send := reset_packet_id_send (pid_send (co_packet_id co))\<rparr>\<rparr>
      else co)"

lemma send_at_simps [simp]:
  "co_decrypt (send_at hmac e1s e co) = co_decrypt co"
  "co_initialized (send_at hmac e1s e co) = co_initialized co"
  "co_future (send_at hmac e1s e co) = co_future co"
  "co_future_count (send_at hmac e1s e co) = co_future_count co"
  "co_epoch_key_recv (send_at hmac e1s e co) = co_epoch_key_recv co"
  "co_epoch_key_type (send_at hmac e1s e co) = co_epoch_key_type co"
  "co_retiring_key (send_at hmac e1s e co) = co_retiring_key co"
  "co_retiring_pid_recv (send_at hmac e1s e co) = co_retiring_pid_recv co"
  "pid_rec (co_packet_id (send_at hmac e1s e co)) = pid_rec (co_packet_id co)"
  "co_pid_persist (send_at hmac e1s e co) = co_pid_persist co"
  "co_packet_id_long_form (send_at hmac e1s e co) = co_packet_id_long_form co"
  "co_epoch_data_format (send_at hmac e1s e co) = co_epoch_data_format co"
  "co_aead_usage_limit (send_at hmac e1s e co) = co_aead_usage_limit co"
  by (simp_all add: send_at_def)

lemma send_at_inv:
  assumes "epoch_env hmac e1s e1r" "epoch_inv hmac e1s e1r co"
  shows "epoch_inv hmac e1s e1r (send_at hmac e1s e co)"
    and "e \<le> kc_epoch (co_encrypt (send_at hmac e1s e co))"
proof -
  have "kc_epoch (co_encrypt co) < e \<Longrightarrow> ek_epoch (ek_at hmac e1s (unat e)) = e"
    using epoch_send_catch_up(3) [OF assms] by blast
  with assms(2) show "epoch_inv hmac e1s e1r (send_at hmac e1s e co)"
    and "e \<le> kc_epoch (co_encrypt (send_at hmac e1s e co))"
    by (auto simp: epoch_inv_def Let_def send_at_def word_less_nat_alt word_le_nat_alt)
qed

lemma epoch_replace_send:
  assumes "epoch_env hmac e1s e1r" "epoch_inv hmac e1s e1r co"
  shows "(if kc_epoch (co_encrypt co) < e then do {
            let co = co\<lparr>co_encrypt := free_key_ctx (co_encrypt co)\<rparr>;
            ek \<leftarrow> iterate_send_until junk hmac 65536 e (co_epoch_key_send co);
            epoch_init_send_key_ctx junk hmac (co\<lparr>co_epoch_key_send := ek\<rparr>) }
          else Some co) = Some (send_at hmac e1s e co)"
  using epoch_send_catch_up [OF assms] by (simp add: send_at_def)

text \<open>The key window after moving to the future key at index \<open>k\<close>.\<close>

definition recv_at :: "hmac_fun \<Rightarrow> epoch_key \<Rightarrow> nat \<Rightarrow> packet_id_rec \<Rightarrow> crypto_options \<Rightarrow> crypto_options" where
  "recv_at hmac e1r k fresh co =
     co\<lparr>co_retiring_key := co_decrypt co, co_retiring_pid_recv := pid_rec (co_packet_id co),
        co_packet_id := (co_packet_id co)\<lparr>pid_rec := fresh\<rparr>, co_decrypt := co_future co ! k,
        co_epoch_key_recv := ek_at hmac e1r (unat (kc_epoch (co_future co ! k)) + unat (co_future_count co)),
        co_future := drop (Suc k) (co_future co)
          @ map (\<lambda>j. data_ctx hmac (co_epoch_key_type co)
                 (ek_at hmac e1r (unat (kc_epoch (co_decrypt co)) + unat (co_future_count co) + 1 + j))) [0..<Suc k]\<rparr>"

lemma recv_at_inv:
  assumes env: "epoch_env hmac e1s e1r" and inv: "epoch_inv hmac e1s e1r co"
    and k: "k < unat (co_future_count co)" and fresh: "pid_epoch_wf fresh"
    and room: "unat (kc_epoch (co_future co ! k)) + unat (co_future_count co) \<le> 65535"
    and send: "kc_epoch (co_future co ! k) \<le> kc_epoch (co_encrypt co)"
  shows "epoch_inv hmac e1s e1r (recv_at hmac e1r k fresh co)"
proof -
  let ?c = "unat (co_future_count co)" and ?d = "unat (kc_epoch (co_decrypt co))"
  let ?key = "\<lambda>n. data_ctx hmac (co_epoch_key_type co) (ek_at hmac e1r n)"
  have e: "unat (kc_epoch (co_future co ! k)) = ?d + 1 + k" by (rule epoch_inv_future_epoch [OF env inv k])
  have old: "length (co_future co) = ?c" "\<And>i. i < ?c \<Longrightarrow> same_key (co_future co ! i) (?key (?d + 1 + i))"
    using inv by (auto simp: epoch_inv_def Let_def)
  have "same_key ((drop (Suc k) (co_future co) @ map (\<lambda>j. ?key (?d + ?c + 1 + j)) [0..<Suc k]) ! i)
          (?key (?d + 1 + k + 1 + i))" if "i < ?c" for i
  proof (cases "i < ?c - Suc k")
    case True
    with old(2) [of "Suc k + i"] show ?thesis by (simp add: nth_append old(1) add_ac)
  next
    case False
    with that have "i - (?c - Suc k) < Suc k" "?d + ?c + 1 + (i - (?c - Suc k)) = ?d + 1 + k + 1 + i"
      using k by auto
    with False show ?thesis by (simp add: nth_append old(1) add_ac del: upt_Suc)
  qed
  with inv fresh room send e old(2) [OF k] k show ?thesis
    by (auto simp: epoch_inv_def Let_def recv_at_def word_le_nat_alt simp del: upt_Suc)
qed

lemma epoch_replace_total:
  assumes env: "epoch_env hmac e1s e1r" and inv: "epoch_inv hmac e1s e1r co"
    and new: "kc_epoch (co_decrypt co) < e"
      "unat e \<le> unat (kc_epoch (co_decrypt co)) + unat (co_future_count co)"
      "unat e + unat (co_future_count co) \<le> 65535"
  defines "k \<equiv> unat e - (unat (kc_epoch (co_decrypt co)) + 1)"
  shows "\<exists>fresh. epoch_replace_update_recv_key junk hmac co e = Some (recv_at hmac e1r k fresh (send_at hmac e1s e co))
     \<and> pid_epoch_wf fresh \<and> rec_id fresh = 0 \<and> rec_time fresh = 0
     \<and> epoch_inv hmac e1s e1r (recv_at hmac e1r k fresh (send_at hmac e1s e co))
     \<and> kc_epoch (co_future co ! k) = e"
proof -
  let ?c = "unat (co_future_count co)" and ?d = "unat (kc_epoch (co_decrypt co))"
  let ?co1 = "send_at hmac e1s e co"
  note fe = epoch_inv_future_epoch [OF env inv]
  have k: "k < ?c" "?d + 1 + k = unat e" using new by (auto simp: k_def word_less_nat_alt)
  then have ke: "kc_epoch (co_future co ! k) = e" using fe [of k] by (simp add: word_unat_eq_iff)
  from inv have len: "length (co_future co) = ?c" and c0: "0 < ?c" by (auto elim: epoch_invE)
  have find: "find_epoch (take ?c (co_future co)) e 0 = k"
    using find_epoch_nth [of k "co_future co" e 0] k ke len fe by (force simp: word_unat_eq_iff)
  note inv1 = send_at_inv [OF env inv, of e]
  from inv have "pid_epoch_wf (pid_rec (co_packet_id co))" by (simp add: epoch_inv_def Let_def)
  from packet_id_move_recv_window [OF this] obtain fresh where fresh:
    "packet_id_move_recv (co_retiring_pid_recv co) (pid_rec (co_packet_id co)) = Some (pid_rec (co_packet_id co), fresh)"
    "pid_epoch_wf fresh" "rec_id fresh = 0" "rec_time fresh = 0" by blast
  let ?co2 = "?co1\<lparr>co_retiring_key := co_decrypt co, co_retiring_pid_recv := pid_rec (co_packet_id co),
     co_packet_id := (co_packet_id ?co1)\<lparr>pid_rec := fresh\<rparr>, co_decrypt := co_future co ! k,
     co_future := (co_future co)[k := key_ctx_zero]\<rparr>"
  have idx: "unat (kc_epoch ((co_future co)[k := key_ctx_zero] ! i)) = (if i = k then 0 else ?d + 1 + i)"
    if "i < ?c" for i using that fe [of i] len by (simp add: key_ctx_zero_def nth_list_update)
  have sz: "unat e + ?c - Suc k = ?d + ?c" using k by simp
  have gen: "epoch_generate_future_receive_keys junk hmac ?co2 = Some (?co2\<lparr>
     co_epoch_key_recv := ek_at hmac e1r (unat e + ?c),
     co_future := drop (Suc k) (co_future ?co2) @ map (\<lambda>j. data_ctx hmac (co_epoch_key_type ?co2)
        (ek_at hmac e1r (unat e + ?c - Suc k + 1 + j))) [0..<Suc k]\<rparr>)"
  proof (rule epoch_generate_future_receive_keys_total)
    show "co_epoch_key_recv ?co2 = ek_at hmac e1r (unat e + ?c - Suc k)"
      unfolding sz using inv by (simp add: epoch_inv_def Let_def)
    show "i < Suc k \<Longrightarrow> unat (kc_epoch (co_future ?co2 ! i)) < unat e" for i
      using idx [of i] k by simp
    show "Suc k \<le> i \<Longrightarrow> i < ?c \<Longrightarrow> unat (kc_epoch (co_future ?co2 ! i)) = unat e + 1 + (i - Suc k)" for i
      using idx [of i] k by simp
  qed (use env inv new k ke len c0 in \<open>auto simp: epoch_env_def elim: epoch_invE\<close>)
  have "recv_at hmac e1r k fresh ?co1 = ?co2\<lparr>co_epoch_key_recv := ek_at hmac e1r (unat e + ?c),
     co_future := drop (Suc k) (co_future ?co2) @ map (\<lambda>j. data_ctx hmac (co_epoch_key_type ?co2)
        (ek_at hmac e1r (unat e + ?c - Suc k + 1 + j))) [0..<Suc k]\<rparr>"
    unfolding sz using k ke by (simp add: recv_at_def del: upt_Suc)
  with gen find fresh ke len k c0 have "epoch_replace_update_recv_key junk hmac co e = Some (recv_at hmac e1r k fresh ?co1)"
    unfolding epoch_replace_update_recv_key_def epoch_replace_send [OF env inv] by simp
  moreover have "epoch_inv hmac e1s e1r (recv_at hmac e1r k fresh ?co1)"
    by (rule recv_at_inv [OF env inv1(1)]) (use k ke new fresh inv1 in auto)
  ultimately show ?thesis using fresh ke by blast
qed

section \<open>Operations on a well-formed key state\<close>

lemma epoch_init_total:
  assumes env: "epoch_env hmac e1s e1r" and kt: "kt_ok kt" and c: "0 < unat c" "unat c < 65535"
    and co: "kc_epoch (co_encrypt co) = 0" "kc_epoch (co_retiring_key co) = 0"
      "pid_epoch_wf (pid_rec (co_packet_id co))"
  shows "\<exists>co'. epoch_init_key_ctx junk hmac co kt e1s e1r c = Some co' \<and> epoch_inv hmac e1s e1r co'
     \<and> kc_epoch (co_encrypt co') = 1 \<and> kc_epoch (co_decrypt co') = 1 \<and> co_future_count co' = c
     \<and> send_id (pid_send (co_packet_id co')) = 0 \<and> pid_rec (co_packet_id co') = pid_rec (co_packet_id co)
     \<and> co_epoch_data_format co' = co_epoch_data_format co \<and> co_aead_usage_limit co' = cipher_get_aead_limits kt
     \<and> co_encrypt co' = data_ctx hmac kt e1s \<and> co_decrypt co' = data_ctx hmac kt e1r"
proof -
  let ?co0 = "co\<lparr>co_epoch_key_recv := e1r, co_epoch_key_send := e1s, co_epoch_key_type := kt,
    co_aead_usage_limit := cipher_get_aead_limits kt\<rparr>"
  let ?co1 = "?co0\<lparr>co_encrypt := data_ctx hmac kt e1s,
     co_packet_id := (co_packet_id co)\<lparr>pid_send := reset_packet_id_send (pid_send (co_packet_id co))\<rparr>\<rparr>"
  let ?co2 = "?co1\<lparr>co_decrypt := data_ctx hmac kt e1r, co_initialized := True, co_future_count := c,
     co_future := replicate (unat c) key_ctx_zero\<rparr>"
  note e = env [unfolded epoch_env_def]
  have 1: "epoch_init_send_key_ctx junk hmac ?co0 = Some ?co1"
    using e kt co by (subst epoch_init_send_key_ctx_total) simp_all
  have 2: "epoch_init_recv_key junk hmac ?co1 = Some (data_ctx hmac kt e1r)"
    using e kt by (subst epoch_init_recv_key_total) simp_all
  have 3: "epoch_generate_future_receive_keys junk hmac ?co2 = Some (?co2\<lparr>co_epoch_key_recv := ek_at hmac e1r (1 + unat c),
     co_future := drop (unat c) (co_future ?co2) @ map (\<lambda>j. data_ctx hmac (co_epoch_key_type ?co2)
        (ek_at hmac e1r (1 + unat c - unat c + 1 + j))) [0..<unat c]\<rparr>)"
    by (rule epoch_generate_future_receive_keys_total) (use e kt c in \<open>simp_all add: key_ctx_zero_def\<close>)
  have "epoch_inv hmac e1s e1r (?co2\<lparr>co_epoch_key_recv := ek_at hmac e1r (1 + unat c),
     co_future := drop (unat c) (co_future ?co2) @ map (\<lambda>j. data_ctx hmac (co_epoch_key_type ?co2)
        (ek_at hmac e1r (1 + unat c - unat c + 1 + j))) [0..<unat c]\<rparr>)"
    using e kt c co by (simp add: epoch_inv_def Let_def)
  with 1 2 3 e show ?thesis by (simp add: epoch_init_key_ctx_def reset_packet_id_send_def)
qed

text \<open>Setting up the epoch keys from two first epoch keys succeeds (no assertion fails) and
  establishes the key-window invariant: send and receive key of epoch 1, followed by the future
  receive keys of epochs 2, 3, and so on, all derived along the peer's key chain; the send
  counter starts at 0.\<close>

theorem epoch_init_key_ctx_establishes:
  assumes "epoch_env hmac e1s e1r" "kt_ok kt" "0 < unat c" "unat c < 65535"
    "kc_epoch (co_encrypt co) = 0" "kc_epoch (co_retiring_key co) = 0"
    "pid_epoch_wf (pid_rec (co_packet_id co))"
  shows "\<exists>co'. epoch_init_key_ctx junk hmac co kt e1s e1r c = Some co' \<and> epoch_inv hmac e1s e1r co'
     \<and> kc_epoch (co_encrypt co') = 1 \<and> kc_epoch (co_decrypt co') = 1 \<and> co_future_count co' = c
     \<and> send_id (pid_send (co_packet_id co')) = 0"
  using epoch_init_total [OF assms, of junk] by blast

definition demo_hmac :: hmac_fun where
  "demo_hmac k m = replicate 32 (hd k + of_nat (length m))"

definition demo_ek :: epoch_key where
  "demo_ek = \<lparr>ek_key = replicate 32 7, ek_epoch = 1\<rparr>"

definition demo_kt :: key_type where
  "demo_kt = \<lparr>kt_cipher = True, kt_key_size = 32, kt_iv_size = 12, kt_digest = None, kt_aead = True, kt_chacha20_poly1305 = False\<rparr>"

definition demo_rec :: packet_id_rec where
  "demo_rec = the (packet_id_init_recv packet_id_rec_zero 64 15 ''demo'' 0)"

definition demo_co :: crypto_options where
  "demo_co = \<lparr>co_encrypt = key_ctx_zero, co_decrypt = key_ctx_zero, co_initialized = False,
     co_epoch_key_send = demo_ek, co_epoch_key_recv = demo_ek, co_epoch_key_type = demo_kt,
     co_aead_usage_limit = 0, co_future = [], co_future_count = 0, co_retiring_key = key_ctx_zero,
     co_retiring_pid_recv = packet_id_rec_zero,
     co_packet_id = \<lparr>pid_send = \<lparr>send_id = 0, send_time = 0\<rparr>, pid_rec = demo_rec\<rparr>,
     co_pid_persist = None, co_packet_id_long_form = False, co_epoch_data_format = True, co_ignore_packet_id = False\<rparr>"

lemma demo_epoch_env: "epoch_env demo_hmac demo_ek demo_ek"
  by (simp add: epoch_env_def hmac_ok_def demo_hmac_def demo_ek_def ek_ok_def SHA256_DIGEST_LENGTH_def)

lemma demo_rec_wf: "pid_epoch_wf demo_rec"
  using packet_id_init_recv_window [of 64 15 "''demo''" 0]
  by (auto simp: demo_rec_def pid_epoch_wf_def MIN_TIME_BACKTRACK_def MAX_TIME_BACKTRACK_def)

lemma demo_co_ok:
  "kt_ok demo_kt" "kc_epoch (co_encrypt demo_co) = 0" "kc_epoch (co_retiring_key demo_co) = 0"
  "pid_epoch_wf (pid_rec (co_packet_id demo_co))"
  by (simp_all add: kt_ok_def demo_kt_def demo_co_def key_ctx_zero_def demo_rec_wf)

theorem epoch_init_key_ctx_establishes_witness:
  "\<exists>co'. epoch_init_key_ctx (\<lambda>_. 0) demo_hmac demo_co demo_kt demo_ek demo_ek 4 = Some co'
     \<and> epoch_inv demo_hmac demo_ek demo_ek co'
     \<and> kc_epoch (co_encrypt co') = 1 \<and> kc_epoch (co_decrypt co') = 1 \<and> co_future_count co' = 4
     \<and> send_id (pid_send (co_packet_id co')) = 0"
  by (rule epoch_init_key_ctx_establishes [OF demo_epoch_env demo_co_ok(1) _ _ demo_co_ok(2-4)]) simp_all

definition demo_state :: crypto_options where
  "demo_state = the (epoch_init_key_ctx (\<lambda>_. 0) demo_hmac demo_co demo_kt demo_ek demo_ek 4)"

lemma demo_state_inv:
  "epoch_inv demo_hmac demo_ek demo_ek demo_state" "kc_epoch (co_encrypt demo_state) = 1"
  "kc_epoch (co_decrypt demo_state) = 1" "co_future_count demo_state = 4"
  "send_id (pid_send (co_packet_id demo_state)) = 0"
  using epoch_init_total [OF demo_epoch_env demo_co_ok(1) _ _ demo_co_ok(2-4), of 4 "\<lambda>_. 0"]
  by (auto simp: demo_state_def)

text \<open>C10: adopting a newer receive epoch inside the window never trips an assertion and keeps the
  key-window invariant: the new current key is the one of that epoch, the former current key
  with its replay state becomes the retiring one, the replay state starts empty, and the send
  epoch is raised to the new epoch exactly when it was behind, resetting its counter.\<close>

theorem epoch_replace_update_recv_key_correct:
  assumes "epoch_env hmac e1s e1r" "epoch_inv hmac e1s e1r co"
    and "kc_epoch (co_decrypt co) < e"
      "unat e \<le> unat (kc_epoch (co_decrypt co)) + unat (co_future_count co)"
      "unat e + unat (co_future_count co) \<le> 65535"
  shows "\<exists>co'. epoch_replace_update_recv_key junk hmac co e = Some co' \<and> epoch_inv hmac e1s e1r co'
     \<and> kc_epoch (co_decrypt co') = e \<and> co_retiring_key co' = co_decrypt co
     \<and> co_retiring_pid_recv co' = pid_rec (co_packet_id co) \<and> rec_id (pid_rec (co_packet_id co')) = 0
     \<and> kc_epoch (co_encrypt co') = max (kc_epoch (co_encrypt co)) e
     \<and> send_id (pid_send (co_packet_id co'))
         = (if kc_epoch (co_encrypt co) < e then 0 else send_id (pid_send (co_packet_id co)))"
proof -
  let ?k = "unat e - (unat (kc_epoch (co_decrypt co)) + 1)"
  from epoch_replace_total [OF assms, of junk] obtain fresh where f:
    "epoch_replace_update_recv_key junk hmac co e = Some (recv_at hmac e1r ?k fresh (send_at hmac e1s e co))"
    "rec_id fresh = 0" "epoch_inv hmac e1s e1r (recv_at hmac e1r ?k fresh (send_at hmac e1s e co))"
    "kc_epoch (co_future co ! ?k) = e" by blast
  show ?thesis
    by (rule exI [of _ "recv_at hmac e1r ?k fresh (send_at hmac e1s e co)"])
      (use f epoch_send_catch_up(3) [OF assms(1,2), of e]
        in \<open>auto simp: recv_at_def send_at_def max_def reset_packet_id_send_def\<close>)
qed

theorem epoch_replace_update_recv_key_correct_witness:
  "\<exists>co'. epoch_replace_update_recv_key (\<lambda>_. 0) demo_hmac demo_state 3 = Some co'
     \<and> epoch_inv demo_hmac demo_ek demo_ek co' \<and> kc_epoch (co_decrypt co') = 3
     \<and> co_retiring_key co' = co_decrypt demo_state
     \<and> co_retiring_pid_recv co' = pid_rec (co_packet_id demo_state) \<and> rec_id (pid_rec (co_packet_id co')) = 0
     \<and> kc_epoch (co_encrypt co') = max (kc_epoch (co_encrypt demo_state)) 3
     \<and> send_id (pid_send (co_packet_id co'))
         = (if kc_epoch (co_encrypt demo_state) < 3 then 0 else send_id (pid_send (co_packet_id demo_state)))"
  by (rule epoch_replace_update_recv_key_correct [OF demo_epoch_env demo_state_inv(1)])
    (simp_all add: demo_state_inv)

text \<open>The key of an epoch that the window holds.\<close>

lemma epoch_lookup_cases:
  assumes env: "epoch_env hmac e1s e1r" and inv: "epoch_inv hmac e1s e1r co"
  obtains (current) "e = kc_epoch (co_decrypt co)" "epoch_lookup_decrypt_key co e = Some (Some (co_decrypt co))"
  | (retiring) "e \<noteq> 0" "e < kc_epoch (co_decrypt co)" "e = kc_epoch (co_retiring_key co)"
      "epoch_lookup_decrypt_key co e = Some (Some (co_retiring_key co))"
  | (future) "kc_epoch (co_decrypt co) < e"
      "unat e \<le> unat (kc_epoch (co_decrypt co)) + unat (co_future_count co)"
      "unat e + unat (co_future_count co) < 65535"
      "epoch_lookup_decrypt_key co e
         = Some (Some (co_future co ! (unat e - (unat (kc_epoch (co_decrypt co)) + 1))))"
  | (none) "epoch_lookup_decrypt_key co e = Some None"
      "e < kc_epoch (co_decrypt co) \<and> (e = 0 \<or> e \<noteq> kc_epoch (co_retiring_key co))
       \<or> kc_epoch (co_decrypt co) < e"
proof -
  have len: "length (co_future co) = unat (co_future_count co)"
    and ret: "unat (kc_epoch (co_retiring_key co)) < unat (kc_epoch (co_decrypt co))"
    using inv by (auto elim: epoch_invE)
  consider "e = kc_epoch (co_decrypt co)" | "e < kc_epoch (co_decrypt co)" | "kc_epoch (co_decrypt co) < e"
    by (metis linorder_less_linear)
  then show thesis
  proof cases
    case 2
    show thesis
    proof (cases "e \<noteq> 0 \<and> e = kc_epoch (co_retiring_key co)")
      case True
      with 2 have "epoch_lookup_decrypt_key co e = Some (Some (co_retiring_key co))"
        by (auto simp: epoch_lookup_decrypt_key_def)
      with 2 True that(2) show thesis by blast
    next
      case False
      with 2 have "epoch_lookup_decrypt_key co e = Some None" by (auto simp: epoch_lookup_decrypt_key_def)
      with 2 False that(4) show thesis by blast
    qed
  next
    case 3
    then have less: "unat (kc_epoch (co_decrypt co)) < unat e" by (simp add: word_less_nat_alt)
    with ret have r: "kc_epoch (co_retiring_key co) \<noteq> e" by auto
    have edge: "int (unat e) > 65535 - int (unat (co_future_count co)) - 1
        \<longleftrightarrow> \<not> unat e + unat (co_future_count co) < 65535" by linarith
    show thesis
    proof (cases "unat e \<le> unat (kc_epoch (co_decrypt co)) + unat (co_future_count co)
        \<and> unat e + unat (co_future_count co) < 65535")
      case True
      with 3 r len less have "epoch_lookup_decrypt_key co e
          = Some (Some (co_future co ! (unat e - (unat (kc_epoch (co_decrypt co)) + 1))))"
        unfolding epoch_lookup_decrypt_key_def edge by (auto simp: Let_def)
      with 3 True that(3) show thesis by blast
    next
      case False
      with 3 r have "epoch_lookup_decrypt_key co e = Some None"
        unfolding epoch_lookup_decrypt_key_def edge by (auto simp: Let_def)
      with 3 that(4) show thesis by blast
    qed
  qed (use that(1) in \<open>simp add: epoch_lookup_decrypt_key_def\<close>)
qed

lemma epoch_lookup_total:
  assumes "epoch_env hmac e1s e1r" "epoch_inv hmac e1s e1r co"
  shows "\<exists>r. epoch_lookup_decrypt_key co e = Some r
     \<and> (r = None \<longleftrightarrow> e \<noteq> kc_epoch (co_decrypt co) \<and> (e = 0 \<or> e \<noteq> kc_epoch (co_retiring_key co))
          \<and> \<not> (kc_epoch (co_decrypt co) < e
               \<and> unat e \<le> unat (kc_epoch (co_decrypt co)) + unat (co_future_count co)
               \<and> unat e + unat (co_future_count co) < 65535))
     \<and> (\<forall>k. r = Some k \<longrightarrow> same_key k (data_ctx hmac (co_epoch_key_type co) (ek_at hmac e1r (unat e))))"
proof -
  note i = assms(2) [unfolded epoch_inv_def Let_def]
  have 1: "unat (kc_epoch (co_retiring_key co)) < unat (kc_epoch (co_decrypt co))" using i by blast
  have edge: "int (unat e) > 65535 - int (unat (co_future_count co)) - 1
        \<longleftrightarrow> \<not> unat e + unat (co_future_count co) < 65535" by linarith
  show ?thesis
  proof (rule epoch_lookup_cases [OF assms, of e], goal_cases)
    case 3
    then have "unat e - (unat (kc_epoch (co_decrypt co)) + 1) < unat (co_future_count co)"
      "unat (kc_epoch (co_decrypt co)) + 1 + (unat e - (unat (kc_epoch (co_decrypt co)) + 1)) = unat e"
      by (auto simp: word_less_nat_alt)
    with i have "same_key (co_future co ! (unat e - (unat (kc_epoch (co_decrypt co)) + 1)))
        (data_ctx hmac (co_epoch_key_type co) (ek_at hmac e1r (unat e)))" by metis
    with 3 show ?case by auto
  next
    case 4
    with 1 show ?case unfolding epoch_lookup_decrypt_key_def edge
      by (auto simp: word_less_nat_alt Let_def split: if_splits)
  qed (use i in \<open>auto simp: unat_gt_0\<close>)
qed

lemma epoch_lookup_key:
  assumes "epoch_env hmac e1s e1r" "epoch_inv hmac e1s e1r co" "epoch_lookup_decrypt_key co e = Some (Some k)"
  shows "same_key k (data_ctx hmac (co_epoch_key_type co) (ek_at hmac e1r (unat e)))"
  using epoch_lookup_total [OF assms(1,2), of e] assms(3) by auto

text \<open>C11: the key looked up for an epoch is the data key of exactly that epoch on the peer's
  chain, and the lookup never reads outside the key array. It fails only for epochs that are
  neither current nor retiring nor in the window of future keys below the epoch limit.\<close>

theorem epoch_lookup_decrypt_key_correct:
  assumes "epoch_env hmac e1s e1r" "epoch_inv hmac e1s e1r co"
  shows "\<exists>r. epoch_lookup_decrypt_key co e = Some r
     \<and> (r = None \<longleftrightarrow> e \<noteq> kc_epoch (co_decrypt co) \<and> (e = 0 \<or> e \<noteq> kc_epoch (co_retiring_key co))
          \<and> \<not> (kc_epoch (co_decrypt co) < e
               \<and> unat e \<le> unat (kc_epoch (co_decrypt co)) + unat (co_future_count co)
               \<and> unat e + unat (co_future_count co) < 65535))
     \<and> (\<forall>k. r = Some k \<longrightarrow> same_key k (data_ctx hmac (co_epoch_key_type co) (ek_at hmac e1r (unat e))))"
  using epoch_lookup_total [OF assms] .

theorem epoch_lookup_decrypt_key_correct_witness:
  "\<exists>r. epoch_lookup_decrypt_key demo_state 5 = Some r
     \<and> (r = None \<longleftrightarrow> 5 \<noteq> kc_epoch (co_decrypt demo_state) \<and> ((5::u16) = 0 \<or> 5 \<noteq> kc_epoch (co_retiring_key demo_state))
          \<and> \<not> (kc_epoch (co_decrypt demo_state) < 5
               \<and> unat (5::u16) \<le> unat (kc_epoch (co_decrypt demo_state)) + unat (co_future_count demo_state)
               \<and> unat (5::u16) + unat (co_future_count demo_state) < 65535))
     \<and> (\<forall>k. r = Some k \<longrightarrow> same_key k (data_ctx demo_hmac (co_epoch_key_type demo_state) (ek_at demo_hmac demo_ek (unat (5::u16)))))"
  by (rule epoch_lookup_decrypt_key_correct [OF demo_epoch_env demo_state_inv(1)])

text \<open>C12: two peers set up with each other's first epoch keys and the same cipher agree: the key
  a receiver selects for the epoch stamped on a packet is the key the sender encrypts with.\<close>

theorem epoch_peers_agree:
  assumes "epoch_env hmac ea eb" "epoch_inv hmac ea eb a" "epoch_inv hmac eb ea b"
    and "co_epoch_key_type a = co_epoch_key_type b"
    and "epoch_lookup_decrypt_key b (kc_epoch (co_encrypt a)) = Some (Some k)"
  shows "same_key k (co_encrypt a)"
proof -
  have env: "epoch_env hmac eb ea" using assms(1) by (simp add: epoch_env_def)
  have "same_key (co_encrypt a) (data_ctx hmac (co_epoch_key_type a) (ek_at hmac ea (unat (kc_epoch (co_encrypt a)))))"
    using assms(2) by (simp add: epoch_inv_def Let_def)
  moreover have "same_key k (data_ctx hmac (co_epoch_key_type b) (ek_at hmac ea (unat (kc_epoch (co_encrypt a)))))"
    using epoch_lookup_key [OF env assms(3), of "kc_epoch (co_encrypt a)"] assms(5) by simp
  ultimately show ?thesis using assms(4) by (simp add: same_key_def)
qed

theorem epoch_peers_agree_witness:
  "same_key (co_decrypt demo_state) (co_encrypt demo_state)"
  by (rule epoch_peers_agree [OF demo_epoch_env demo_state_inv(1,1) refl])
    (simp add: epoch_lookup_decrypt_key_def demo_state_inv)

end
