(* ===== verification/Data_Channel.thy ===== *)
theory Data_Channel
  imports Crypto_Epoch
begin

text \<open>
  Encryption and decryption of data-channel packets in AEAD mode:
  \<^verbatim>\<open>openvpn_encrypt_aead\<close>, \<^verbatim>\<open>openvpn_decrypt_aead\<close> and their dispatchers in
  \<^verbatim>\<open>openvpn/src/openvpn/crypto.c\<close>, over the buffers, packet ids, replay filter and epoch keys of the
  other theories. The AEAD cipher of the crypto library is the argument \<open>lib\<close>.
\<close>

section \<open>Operations\<close>

definition OPENVPN_AEAD_TAG_LENGTH :: int where "OPENVPN_AEAD_TAG_LENGTH = 16"
definition AEAD_LIMIT_BLOCKSIZE :: int where "AEAD_LIMIT_BLOCKSIZE = 16"

text \<open>
  The cipher library as the code uses it. \<open>lib_seal key iv ad plaintext\<close> are the bytes put out by
  \<^verbatim>\<open>cipher_ctx_update\<close>, by \<^verbatim>\<open>cipher_ctx_final\<close> and the tag; \<open>lib_open key iv ad ciphertext tag\<close> is
  \<open>None\<close> when resetting or updating the context fails, otherwise the output of the update and,
  when the tag is right, of \<^verbatim>\<open>cipher_ctx_final_check_tag\<close>.
\<close>

record aead_lib =
  lib_seal :: "bytes \<Rightarrow> bytes \<Rightarrow> bytes \<Rightarrow> bytes \<Rightarrow> bytes \<times> bytes \<times> bytes"
  lib_open :: "bytes \<Rightarrow> bytes \<Rightarrow> bytes \<Rightarrow> bytes \<Rightarrow> bytes \<Rightarrow> (bytes \<times> bytes option) option"
  lib_iv_len :: nat
  lib_block_size :: int

definition aead_iv :: "aead_lib \<Rightarrow> bytes \<Rightarrow> key_ctx \<Rightarrow> bytes" where
  "aead_iv lib iv ctx = map2 (XOR) (take (lib_iv_len lib) iv) (take (lib_iv_len lib) (kc_implicit_iv ctx))"

text \<open>Output of the cipher at a position of the work buffer, then \<^verbatim>\<open>ASSERT(buf_inc_len(&work, outlen))\<close>.\<close>

definition put_output :: "buffer \<Rightarrow> int \<Rightarrow> bytes \<Rightarrow> buffer option" where
  "put_output work p out = do {
     work \<leftarrow> buf_store work p out;
     let (ok, work) = buf_inc_len work (int (length out));
     c_assert ok;
     Some work
   }"

definition count_blocks :: "buffer \<Rightarrow> key_ctx \<Rightarrow> key_ctx" where
  "count_blocks work ctx = ctx\<lparr>kc_plaintext_blocks := kc_plaintext_blocks ctx
     + word_of_int ((buf_len work + (AEAD_LIMIT_BLOCKSIZE - 1)) div AEAD_LIMIT_BLOCKSIZE)\<rparr>"

definition openvpn_encrypt_aead ::
    "(nat \<Rightarrow> u8) \<Rightarrow> hmac_fun \<Rightarrow> aead_lib \<Rightarrow> int \<Rightarrow> buffer \<Rightarrow> buffer \<Rightarrow> crypto_options
       \<Rightarrow> (buffer \<times> crypto_options) option" where
  "openvpn_encrypt_aead junk hmac lib now buf work opt = do {
     opt \<leftarrow> (if co_epoch_data_format opt then epoch_check_send_iterate junk hmac opt else Some opt);
     let ctx = co_encrypt opt;
     key \<leftarrow> kc_cipher ctx;
     c_assert (packet_id_initialized (co_packet_id opt));
     c_assert (OPENVPN_AEAD_MIN_IV_LEN \<le> lib_iv_len lib \<and> lib_iv_len lib \<le> OPENVPN_MAX_IV_LENGTH);
     iv_buffer \<leftarrow> buf_set_write clear_buf (Some (replicate OPENVPN_MAX_IV_LENGTH 0)) (int (lib_iv_len lib));
     (ok, p, iv_buffer) \<leftarrow>
       (if co_epoch_data_format opt
        then packet_id_write_epoch now (pid_send (co_packet_id opt)) (kc_epoch ctx) iv_buffer
        else packet_id_write now (pid_send (co_packet_id opt)) iv_buffer False False);
     let opt = opt\<lparr>co_packet_id := (co_packet_id opt)\<lparr>pid_send := p\<rparr>\<rparr>;
     (if \<not> ok then Some (buf\<lparr>len := 0\<rparr>, opt)
      else do {
        iv \<leftarrow> data iv_buffer;
        explicit_iv \<leftarrow> mem_read iv 0 (buf_len iv_buffer);
        (ok, work) \<leftarrow> buf_write work explicit_iv;
        c_assert ok;
        (if \<not> buf_safe work (len buf + OPENVPN_AEAD_TAG_LENGTH + lib_block_size lib)
         then Some (buf\<lparr>len := 0\<rparr>, opt)
         else do {
           ad \<leftarrow> buf_bytes work;
           let (mac_out, work) = (if co_epoch_data_format opt then (None, work)
                                  else buf_write_alloc work OPENVPN_AEAD_TAG_LENGTH);
           c_assert (co_epoch_data_format opt \<or> mac_out \<noteq> None);
           plain \<leftarrow> buf_bytes buf;
           let (out1, out2, tag) = lib_seal lib key (aead_iv lib iv ctx) ad plain;
           p \<leftarrow> buf_bend work;
           work \<leftarrow> put_output work p out1;
           p \<leftarrow> buf_bend work;
           work \<leftarrow> put_output work p out2;
           let opt = opt\<lparr>co_encrypt := count_blocks work (co_encrypt opt)\<rparr>;
           let (mac_out, work) = (if co_epoch_data_format opt
                                  then buf_write_alloc work OPENVPN_AEAD_TAG_LENGTH else (mac_out, work));
           mac_out \<leftarrow> mac_out;
           work \<leftarrow> buf_store work mac_out tag;
           Some (work, opt) }) })
   }"

text \<open>
  \<^verbatim>\<open>ctx->failed_verifications++\<close> through the pointer \<^verbatim>\<open>epoch_lookup_decrypt_key\<close> returned (\<open>epoch\<close> 0: the
  current decrypt key).
\<close>

definition bump_failed :: "key_ctx \<Rightarrow> key_ctx" where
  "bump_failed k = k\<lparr>kc_failed_verifications := kc_failed_verifications k + 1\<rparr>"

definition count_failure :: "crypto_options \<Rightarrow> u16 \<Rightarrow> crypto_options" where
  "count_failure opt epoch =
     (if epoch = 0 \<or> kc_epoch (co_decrypt opt) = epoch
      then opt\<lparr>co_decrypt := bump_failed (co_decrypt opt)\<rparr>
      else if kc_epoch (co_retiring_key opt) = epoch
      then opt\<lparr>co_retiring_key := bump_failed (co_retiring_key opt)\<rparr>
      else (let i = unat epoch - (unat (kc_epoch (co_decrypt opt)) + 1) in
            opt\<lparr>co_future := (co_future opt)[i := bump_failed (co_future opt ! i)]\<rparr>))"

text \<open>
  Reading the packet id and choosing the key; the inner \<open>None\<close> is a \<^verbatim>\<open>CRYPT_ERROR\<close>/\<^verbatim>\<open>CRYPT_DROP\<close> exit.
  Returned: epoch, packet id, key context and the advanced buffer.
\<close>

definition aead_read_pid ::
    "crypto_options \<Rightarrow> buffer \<Rightarrow> (u16 \<times> packet_id_net \<times> key_ctx \<times> buffer) option option" where
  "aead_read_pid opt buf =
     (let pin = \<lparr>net_id = 0, net_time = 0\<rparr> in
      if co_epoch_data_format opt then do {
        (epoch, pin, buf) \<leftarrow> packet_id_read_epoch pin buf;
        (if epoch = 0 then Some None
         else do {
           r \<leftarrow> epoch_lookup_decrypt_key opt epoch;
           Some (case r of
                   None \<Rightarrow> None
                 | Some ctx \<Rightarrow> if cipher_decrypt_verify_fail_exceeded ctx then None
                               else Some (epoch, pin, ctx, buf)) }) }
      else do {
        (ok, pin, buf) \<leftarrow> packet_id_read buf False;
        Some (if ok then Some (0, pin, co_decrypt opt, buf) else None) })"

text \<open>From the result of the cipher to the end: output, replay check, usage count.\<close>

definition aead_finish ::
    "(nat \<Rightarrow> u8) \<Rightarrow> hmac_fun \<Rightarrow> int \<Rightarrow> (bytes \<times> bytes option) option \<Rightarrow> buffer \<Rightarrow> buffer \<Rightarrow> crypto_options
       \<Rightarrow> packet_id_net \<Rightarrow> u16 \<Rightarrow> (bool \<times> buffer \<times> crypto_options) option" where
  "aead_finish junk hmac now res buf work opt pin epoch =
     (case res of
        None \<Rightarrow> Some (False, buf\<lparr>len := 0\<rparr>, opt)
      | Some (out1, fin) \<Rightarrow> do {
          p \<leftarrow> buf_bptr work;
          work \<leftarrow> put_output work p out1;
          (case fin of
             None \<Rightarrow> Some (False, buf\<lparr>len := 0\<rparr>, count_failure opt epoch)
           | Some out2 \<Rightarrow> do {
               p \<leftarrow> buf_bptr work;
               work \<leftarrow> put_output work (p + int (length out1)) out2;
               (ok, opt) \<leftarrow> crypto_check_replay junk hmac now opt pin epoch;
               (if \<not> ok then Some (False, buf\<lparr>len := 0\<rparr>, opt)
                else Some (True, work, opt\<lparr>co_decrypt := count_blocks work (co_decrypt opt)\<rparr>)) }) })"

definition openvpn_decrypt_aead ::
    "(nat \<Rightarrow> u8) \<Rightarrow> hmac_fun \<Rightarrow> aead_lib \<Rightarrow> int \<Rightarrow> int \<Rightarrow> int \<Rightarrow> buffer \<Rightarrow> buffer \<Rightarrow> crypto_options
       \<Rightarrow> (bool \<times> buffer \<times> crypto_options) option" where
  "openvpn_decrypt_aead junk hmac lib now headroom ad_start buf work opt =
     (if \<not> co_epoch_data_format opt \<and> cipher_decrypt_verify_fail_exceeded (co_decrypt opt)
      then Some (False, buf\<lparr>len := 0\<rparr>, opt)
      else do {
        c_assert (len buf > 0);
        _ \<leftarrow> kc_cipher (co_decrypt opt);
        mem \<leftarrow> data buf;
        c_assert (0 \<le> ad_start \<and> ad_start \<le> offset buf);
        let (ok, work) = buf_init_dowork work headroom;
        c_assert ok;
        c_assert (packet_id_initialized (co_packet_id opt));
        let min_packet_len = packet_id_size False + OPENVPN_AEAD_TAG_LENGTH + 1
              + (if co_epoch_data_format opt then 4 else 0);
        (if len buf < min_packet_len then Some (False, buf\<lparr>len := 0\<rparr>, opt)
         else do {
           explicit_iv \<leftarrow> mem_read mem (offset buf)
                            (if co_epoch_data_format opt then 8 else packet_id_size False);
           r \<leftarrow> aead_read_pid opt buf;
           (case r of
              None \<Rightarrow> Some (False, buf\<lparr>len := 0\<rparr>, opt)
            | Some (epoch, pin, ctx, buf) \<Rightarrow> do {
                key \<leftarrow> kc_cipher ctx;
                let iv = aead_iv lib (explicit_iv @ replicate (OPENVPN_MAX_IV_LENGTH - length explicit_iv) 0) ctx;
                ad \<leftarrow> mem_read mem ad_start (offset buf - ad_start);
                let tag_size = OPENVPN_AEAD_TAG_LENGTH;
                let (tag_ptr, adv_ok, buf) =
                  (if co_epoch_data_format opt then (offset buf + (buf_len buf - tag_size), True, buf)
                   else (offset buf, buf_advance buf tag_size));
                c_assert adv_ok;
                let data_len = (if co_epoch_data_format opt then buf_len buf - tag_size else buf_len buf);
                (if \<not> buf_safe work (len buf + lib_block_size lib) then Some (False, buf\<lparr>len := 0\<rparr>, opt)
                 else do {
                   cipher_text \<leftarrow> mem_read mem (offset buf) data_len;
                   tag \<leftarrow> mem_read mem tag_ptr tag_size;
                   aead_finish junk hmac now (lib_open lib key iv ad cipher_text tag) buf work opt pin epoch })
              }) }) })"

section \<open>The replay check across epochs\<close>

lemma packet_id_time_backtrack_unchanged:
  "packet_id_reap_test now p = Some p' \<Longrightarrow> rec_time_backtrack p' = rec_time_backtrack p"
  "packet_id_test p k = Some (r, p') \<Longrightarrow> rec_time_backtrack p' = rec_time_backtrack p"
  "packet_id_add now p k = Some p' \<Longrightarrow> rec_time_backtrack p' = rec_time_backtrack p"
  by (auto simp: packet_id_reap_test_def packet_id_reap_def packet_id_test_def packet_id_add_def Let_def
      bind_eq_Some_conv split: if_splits option.splits)

lemma replay_check_epoch_wf:
  assumes "pid_epoch_wf p" "1 < now"
  shows "\<exists>r p'. replay_check now p k = Some (r, p') \<and> pid_epoch_wf p'
     \<and> (\<forall>j. pid_known p j \<longrightarrow> pid_known p' j) \<and> (r \<longrightarrow> \<not> pid_known p k \<and> pid_known p' k)
     \<and> (\<not> r \<longrightarrow> net_id k = 0 \<or> pid_known p' k)"
proof -
  have "rec_time_backtrack p' = rec_time_backtrack p" if "replay_check now p k = Some (r, p')" for r p'
    using that by (auto simp: replay_check_def bind_eq_Some_conv split: if_splits
        dest!: packet_id_time_backtrack_unchanged)
  with replay_check_window [of p now k] assms show ?thesis unfolding pid_epoch_wf_def by metis
qed

text \<open>
  The (epoch, packet id) pairs a key state must not accept any more: those of epochs that are
  gone, and those the replay state of the current or of the retiring epoch knows.
\<close>

definition epoch_known :: "crypto_options \<Rightarrow> u16 \<times> packet_id_net \<Rightarrow> bool" where
  "epoch_known co ek \<longleftrightarrow> (case ek of (e, k) \<Rightarrow>
     (if e = kc_epoch (co_decrypt co) then pid_known (pid_rec (co_packet_id co)) k
      else if e \<noteq> 0 \<and> e = kc_epoch (co_retiring_key co) then pid_known (co_retiring_pid_recv co) k
      else e < kc_epoch (co_decrypt co)))"

text \<open>The choice of key and the replay check of \<^verbatim>\<open>openvpn_decrypt_aead\<close>, for an authentic packet.\<close>

definition epoch_accept ::
    "(nat \<Rightarrow> u8) \<Rightarrow> hmac_fun \<Rightarrow> int \<Rightarrow> crypto_options \<Rightarrow> u16 \<times> packet_id_net \<Rightarrow> (bool \<times> crypto_options) option" where
  "epoch_accept junk hmac now opt ek = (case ek of (epoch, pin) \<Rightarrow> do {
     r \<leftarrow> epoch_lookup_decrypt_key opt epoch;
     (case r of None \<Rightarrow> Some (False, opt) | Some ctx \<Rightarrow> crypto_check_replay junk hmac now opt pin epoch) })"

lemma persist_irrelevant [simp]:
  "epoch_inv hmac e1s e1r (co\<lparr>co_pid_persist := x\<rparr>) = epoch_inv hmac e1s e1r co"
  "epoch_known (co\<lparr>co_pid_persist := x\<rparr>) = epoch_known co"
  by (simp_all add: epoch_inv_def epoch_known_def fun_eq_iff)

text \<open>The reap, test and add steps on the replay state of the current epoch and of the retiring one.\<close>

lemma check_current:
  assumes inv: "epoch_inv hmac e1s e1r co" and now: "1 < now" and e: "e = kc_epoch (co_decrypt co)"
  shows "\<exists>r co'. crypto_check_replay junk hmac now co k e = Some (r, co') \<and> epoch_inv hmac e1s e1r co'
     \<and> (\<forall>j. epoch_known co j \<longrightarrow> epoch_known co' j)
     \<and> (r \<longrightarrow> \<not> epoch_known co (e, k) \<and> epoch_known co' (e, k))
     \<and> (\<not> r \<longrightarrow> net_id k = 0 \<or> epoch_known co' (e, k))
     \<and> co_encrypt co' = co_encrypt co \<and> pid_send (co_packet_id co') = pid_send (co_packet_id co)
     \<and> co_epoch_data_format co' = co_epoch_data_format co"
proof -
  have "pid_epoch_wf (pid_rec (co_packet_id co))" using inv by (simp add: epoch_inv_def Let_def)
  from replay_check_epoch_wf [OF this now, of k] obtain r p where
    p: "replay_check now (pid_rec (co_packet_id co)) k = Some (r, p)" "pid_epoch_wf p"
      "\<forall>j. pid_known (pid_rec (co_packet_id co)) j \<longrightarrow> pid_known p j"
      "r \<longrightarrow> \<not> pid_known (pid_rec (co_packet_id co)) k \<and> pid_known p k"
      "\<not> r \<longrightarrow> net_id k = 0 \<or> pid_known p k" by blast
  let ?co = "co\<lparr>co_packet_id := (co_packet_id co)\<lparr>pid_rec := p\<rparr>\<rparr>"
  have "epoch_inv hmac e1s e1r ?co" using inv p(2) by (simp add: epoch_inv_def Let_def)
  moreover have "\<forall>j. epoch_known co j \<longrightarrow> epoch_known ?co j" using p(3) by (simp add: epoch_known_def split: prod.splits)
  moreover have "r \<longrightarrow> \<not> epoch_known co (e, k) \<and> epoch_known ?co (e, k)" using p(4) e by (simp add: epoch_known_def)
  moreover have "\<not> r \<longrightarrow> net_id k = 0 \<or> epoch_known ?co (e, k)" using p(5) e by (simp add: epoch_known_def)
  ultimately show ?thesis using p(1) e by (simp add: crypto_check_replay_def Let_def)
qed

lemma check_retiring:
  assumes inv: "epoch_inv hmac e1s e1r co" and now: "1 < now"
    and e: "e = kc_epoch (co_retiring_key co)" "e \<noteq> 0" "e < kc_epoch (co_decrypt co)"
  shows "\<exists>r co'. crypto_check_replay junk hmac now co k e = Some (r, co') \<and> epoch_inv hmac e1s e1r co'
     \<and> (\<forall>j. epoch_known co j \<longrightarrow> epoch_known co' j)
     \<and> (r \<longrightarrow> \<not> epoch_known co (e, k) \<and> epoch_known co' (e, k))
     \<and> (\<not> r \<longrightarrow> net_id k = 0 \<or> epoch_known co' (e, k))
     \<and> co_encrypt co' = co_encrypt co \<and> pid_send (co_packet_id co') = pid_send (co_packet_id co)
     \<and> co_epoch_data_format co' = co_epoch_data_format co"
proof -
  have "pid_epoch_wf (co_retiring_pid_recv co)" using inv e(1,2) by (auto simp: epoch_inv_def Let_def unat_gt_0)
  from replay_check_epoch_wf [OF this now, of k] obtain r p where
    p: "replay_check now (co_retiring_pid_recv co) k = Some (r, p)" "pid_epoch_wf p"
      "\<forall>j. pid_known (co_retiring_pid_recv co) j \<longrightarrow> pid_known p j"
      "r \<longrightarrow> \<not> pid_known (co_retiring_pid_recv co) k \<and> pid_known p k"
      "\<not> r \<longrightarrow> net_id k = 0 \<or> pid_known p k" by blast
  let ?co = "co\<lparr>co_retiring_pid_recv := p\<rparr>"
  have ne: "e \<noteq> kc_epoch (co_decrypt co)" using e(3) by simp
  have "epoch_inv hmac e1s e1r ?co" using inv p(2) by (simp add: epoch_inv_def Let_def)
  moreover have "\<forall>j. epoch_known co j \<longrightarrow> epoch_known ?co j" using p(3) by (simp add: epoch_known_def split: prod.splits)
  moreover have "r \<longrightarrow> \<not> epoch_known co (e, k) \<and> epoch_known ?co (e, k)" using p(4) e ne by (simp add: epoch_known_def)
  moreover have "\<not> r \<longrightarrow> net_id k = 0 \<or> epoch_known ?co (e, k)" using p(5) e ne by (simp add: epoch_known_def)
  ultimately show ?thesis using p(1) e ne by (simp add: crypto_check_replay_def Let_def)
qed

lemma crypto_check_replay_moves:
  assumes "e \<noteq> 0" "kc_epoch (co_decrypt co) \<noteq> e" "e \<noteq> kc_epoch (co_retiring_key co)"
    and "epoch_replace_update_recv_key junk hmac co e = Some co1" "kc_epoch (co_decrypt co1) = e"
  shows "crypto_check_replay junk hmac now co k e = crypto_check_replay junk hmac now co1 k e"
  using assms
  by (cases "replay_check now (pid_rec (co_packet_id co1)) k") (auto simp: crypto_check_replay_def Let_def)

lemma check_future_moves:
  assumes env: "epoch_env hmac e1s e1r" and inv: "epoch_inv hmac e1s e1r co"
    and new: "kc_epoch (co_decrypt co) < e"
      "unat e \<le> unat (kc_epoch (co_decrypt co)) + unat (co_future_count co)"
      "unat e + unat (co_future_count co) < 65535"
  shows "\<exists>co1. crypto_check_replay junk hmac now co k e = crypto_check_replay junk hmac now co1 k e
     \<and> epoch_inv hmac e1s e1r co1 \<and> e = kc_epoch (co_decrypt co1)
     \<and> (\<forall>j. epoch_known co j \<longrightarrow> epoch_known co1 j)
     \<and> (0 < net_id k \<and> net_time k = 0 \<longrightarrow> \<not> epoch_known co1 (e, k))
     \<and> (if kc_epoch (co_encrypt co) < e
        then kc_epoch (co_encrypt co1) = e \<and> send_id (pid_send (co_packet_id co1)) = 0
        else co_encrypt co1 = co_encrypt co \<and> pid_send (co_packet_id co1) = pid_send (co_packet_id co))
     \<and> co_epoch_data_format co1 = co_epoch_data_format co"
proof -
  let ?k = "unat e - (unat (kc_epoch (co_decrypt co)) + 1)"
  from epoch_replace_total [OF env inv new(1,2)] new(3) obtain fresh where f:
    "epoch_replace_update_recv_key junk hmac co e = Some (recv_at hmac e1r ?k fresh (send_at hmac e1s e co))"
    "pid_epoch_wf fresh" "rec_id fresh = 0" "rec_time fresh = 0"
    "epoch_inv hmac e1s e1r (recv_at hmac e1r ?k fresh (send_at hmac e1s e co))"
    "kc_epoch (co_future co ! ?k) = e" by (metis less_imp_le)
  define co1 where "co1 = recv_at hmac e1r ?k fresh (send_at hmac e1s e co)"
  note f = f [folded co1_def]
  from inv have d: "0 < unat (kc_epoch (co_decrypt co))"
    "unat (kc_epoch (co_retiring_key co)) < unat (kc_epoch (co_decrypt co))" by (auto elim!: epoch_invE)
  then have e: "e \<noteq> 0" "e \<noteq> kc_epoch (co_retiring_key co)" "kc_epoch (co_decrypt co) \<noteq> e" "kc_epoch (co_decrypt co) \<noteq> 0"
    using new(1) by (auto simp: word_less_nat_alt)
  have de: "kc_epoch (co_decrypt co1) = e" "co_retiring_key co1 = co_decrypt co"
    "co_retiring_pid_recv co1 = pid_rec (co_packet_id co)" "pid_rec (co_packet_id co1) = fresh"
    using f(6) by (simp_all add: recv_at_def co1_def)
  have "crypto_check_replay junk hmac now co k e = crypto_check_replay junk hmac now co1 k e"
    by (rule crypto_check_replay_moves [OF e(1,3,2) f(1) de(1)])
  moreover have "\<forall>j. epoch_known co j \<longrightarrow> epoch_known co1 j"
    using new(1) e d(2) by (auto simp: epoch_known_def de word_less_nat_alt)
  moreover have "0 < net_id k \<and> net_time k = 0 \<longrightarrow> \<not> epoch_known co1 (e, k)"
    using f(3,4) by (auto simp: epoch_known_def de pid_known_def)
  moreover have "if kc_epoch (co_encrypt co) < e
      then kc_epoch (co_encrypt co1) = e \<and> send_id (pid_send (co_packet_id co1)) = 0
      else co_encrypt co1 = co_encrypt co \<and> pid_send (co_packet_id co1) = pid_send (co_packet_id co)"
    using epoch_send_catch_up(3) [OF env inv, of e]
    by (auto simp: co1_def recv_at_def send_at_def reset_packet_id_send_def)
  moreover have "co_epoch_data_format co1 = co_epoch_data_format co" by (simp add: co1_def recv_at_def)
  ultimately show ?thesis using f(5) de(1) by blast
qed

text \<open>
  The send position (epoch, packet id) never moves back; a step either leaves it alone or
  starts a larger epoch at id 0.
\<close>

definition send_pos_step :: "crypto_options \<Rightarrow> crypto_options \<Rightarrow> bool" where
  "send_pos_step co co' \<longleftrightarrow>
     (kc_epoch (co_encrypt co') = kc_epoch (co_encrypt co)
        \<and> send_id (pid_send (co_packet_id co')) = send_id (pid_send (co_packet_id co)))
     \<or> (kc_epoch (co_encrypt co) < kc_epoch (co_encrypt co') \<and> send_id (pid_send (co_packet_id co')) = 0)"

lemma epoch_accept_step:
  assumes env: "epoch_env hmac e1s e1r" and inv: "epoch_inv hmac e1s e1r co" and now: "1 < now"
  shows "\<exists>r co'. epoch_accept junk hmac now co (e, k) = Some (r, co') \<and> epoch_inv hmac e1s e1r co'
     \<and> (\<forall>j. epoch_known co j \<longrightarrow> epoch_known co' j)
     \<and> (r \<longrightarrow> \<not> epoch_known co (e, k) \<and> epoch_known co' (e, k)) \<and> send_pos_step co co'
     \<and> co_epoch_data_format co' = co_epoch_data_format co"
proof (rule epoch_lookup_cases [OF env inv, of e], goal_cases)
  case 1
  with check_current [OF inv now 1(1), of junk k] show ?case
    by (auto simp: epoch_accept_def send_pos_step_def)
next
  case 2
  with check_retiring [OF inv now 2(3) 2(1) 2(2), of junk k] show ?case
    by (auto simp: epoch_accept_def send_pos_step_def)
next
  case 3
  from check_future_moves [OF env inv 3(1-3), of junk now k] obtain co1 where co1:
    "crypto_check_replay junk hmac now co k e = crypto_check_replay junk hmac now co1 k e"
    "epoch_inv hmac e1s e1r co1" "e = kc_epoch (co_decrypt co1)" "\<forall>j. epoch_known co j \<longrightarrow> epoch_known co1 j"
    and s: "if kc_epoch (co_encrypt co) < e
        then kc_epoch (co_encrypt co1) = e \<and> send_id (pid_send (co_packet_id co1)) = 0
        else co_encrypt co1 = co_encrypt co \<and> pid_send (co_packet_id co1) = pid_send (co_packet_id co)"
      "co_epoch_data_format co1 = co_epoch_data_format co" by blast
  from check_current [OF co1(2) now co1(3), of junk k] obtain r co' where c:
    "crypto_check_replay junk hmac now co1 k e = Some (r, co')" "epoch_inv hmac e1s e1r co'"
    "\<forall>j. epoch_known co1 j \<longrightarrow> epoch_known co' j" "r \<longrightarrow> \<not> epoch_known co1 (e, k) \<and> epoch_known co' (e, k)"
    "co_encrypt co' = co_encrypt co1" "pid_send (co_packet_id co') = pid_send (co_packet_id co1)"
    "co_epoch_data_format co' = co_epoch_data_format co1" by blast
  have "epoch_accept junk hmac now co (e, k) = Some (r, co')" using 3(4) co1(1) c(1) by (simp add: epoch_accept_def)
  moreover have "send_pos_step co co'" using s(1) c(5,6) by (auto simp: send_pos_step_def split: if_splits)
  ultimately show ?case using c co1(4) s(2) by metis
next
  case 4
  then show ?case using inv by (auto simp: epoch_accept_def send_pos_step_def)
qed

section \<open>Receiving a packet\<close>

text \<open>What the code relies on of the cipher library: lengths, and that opening undoes sealing.\<close>

definition aead_lengths :: "aead_lib \<Rightarrow> bool" where
  "aead_lengths lib \<longleftrightarrow> 12 \<le> lib_iv_len lib \<and> lib_iv_len lib \<le> 16 \<and> 0 \<le> lib_block_size lib
     \<and> (\<forall>key iv ad ct tag out1 fin. lib_open lib key iv ad ct tag = Some (out1, fin) \<longrightarrow>
          length out1 + length (case fin of None \<Rightarrow> [] | Some out2 \<Rightarrow> out2) \<le> length ct)
     \<and> (\<forall>key iv ad pt out1 out2 tag. lib_seal lib key iv ad pt = (out1, out2, tag) \<longrightarrow>
          length (out1 @ out2) = length pt \<and> length tag = 16)"

definition aead_inverse :: "aead_lib \<Rightarrow> bool" where
  "aead_inverse lib \<longleftrightarrow> (\<forall>key iv ad pt out1 out2 tag. lib_seal lib key iv ad pt = (out1, out2, tag) \<longrightarrow>
     (\<exists>p1 p2. lib_open lib key iv ad (out1 @ out2) tag = Some (p1, Some p2) \<and> p1 @ p2 = pt))"

definition pkt_ident :: "buffer \<Rightarrow> u16 \<times> packet_id_net" where
  "pkt_ident buf = (let i = rd64 (take 8 (buf_content buf)) in
     (ucast (drop_bit 48 i), \<lparr>net_id = i AND PACKET_ID_MASK, net_time = 0\<rparr>))"

lemma put_output_write:
  assumes "buf_live b" "length out \<le> buf_room b" "p = offset b + len b"
  shows "\<exists>b'. put_output b p out = Some b' \<and> buf_live b' \<and> buf_content b' = buf_content b @ out
     \<and> offset b' = offset b \<and> capacity b' = capacity b \<and> len b' = len b + int (length out)"
proof -
  obtain m where m: "data b = Some m" "buf_wf b" using assms(1) by (auto simp: buf_live_def)
  note w = buf_wf_Some [OF m(2,1)]
  have fit: "offset b + len b + int (length out) \<le> capacity b" using assms(2) w by (simp add: buf_room_def)
  have safe: "buf_safe b (int (length out))" using assms buf_safe_room by blast
  from buf_write_spec [OF m(2), of out] safe obtain b' where b': "buf_write b out = Some (True, b')" "buf_wf b'"
    "buf_content b' = buf_content b @ out" "offset b' = offset b" "capacity b' = capacity b"
    "len b' = len b + int (length out)" "data b' \<noteq> None" using m by auto
  have "put_output b p out = Some b'"
    using b'(1) safe w fit m assms(3)
    by (auto simp: put_output_def buf_write_def buf_write_alloc_def buf_bptr_def buf_valid_def buf_store_def
        buf_inc_len_def buf_safe_bidir_def buf_size_valid_signed_def)
  with b' show ?thesis by (simp add: buf_live_def)
qed

lemma mem_read_content:
  assumes "buf_live b" "data b = Some m" "0 \<le> i" "0 \<le> n" "i + n \<le> len b"
  shows "mem_read m (offset b + i) n = Some (take (nat n) (drop (nat i) (buf_content b)))"
  using assms buf_wf_Some [of b m]
  by (auto simp: buf_live_def mem_read_def buf_content_def slice_def nat_add_distrib add.commute min_def drop_take
      split: if_splits)

lemma bump_failed_simps [simp]:
  "kc_epoch (bump_failed k) = kc_epoch k" "same_key (bump_failed k) k' = same_key k k'"
  "same_key (ks[j := bump_failed (ks ! j)] ! i) k' = same_key (ks ! i) k'"
proof -
  show "same_key (ks[j := bump_failed (ks ! j)] ! i) k' = same_key (ks ! i) k'"
    by (cases "j < length ks") (auto simp: nth_list_update list_update_beyond same_key_def bump_failed_def)
qed (simp_all add: bump_failed_def same_key_def)

lemma count_failure_keeps:
  assumes "epoch_inv hmac e1s e1r co"
  shows "epoch_inv hmac e1s e1r (count_failure co e)" "epoch_known (count_failure co e) = epoch_known co"
    "send_pos_step co (count_failure co e)" "co_epoch_data_format (count_failure co e) = co_epoch_data_format co"
proof -
  show "epoch_inv hmac e1s e1r (count_failure co e)"
    using assms by (auto simp: epoch_inv_def count_failure_def Let_def)
qed (simp_all add: count_failure_def epoch_known_def send_pos_step_def Let_def fun_eq_iff)

lemma count_blocks_keeps [simp]:
  "epoch_inv hmac e1s e1r (co\<lparr>co_decrypt := count_blocks w (co_decrypt co)\<rparr>) = epoch_inv hmac e1s e1r co"
  "epoch_inv hmac e1s e1r (co\<lparr>co_encrypt := count_blocks w (co_encrypt co)\<rparr>) = epoch_inv hmac e1s e1r co"
  "epoch_known (co\<lparr>co_decrypt := count_blocks w (co_decrypt co)\<rparr>) = epoch_known co"
  "send_pos_step co (co'\<lparr>co_decrypt := k\<rparr>) = send_pos_step co co'"
  by (simp_all add: epoch_inv_def epoch_known_def count_blocks_def same_key_def send_pos_step_def Let_def fun_eq_iff)

lemma epoch_inv_lookup_cipher:
  assumes "epoch_env hmac e1s e1r" "epoch_inv hmac e1s e1r co" "epoch_lookup_decrypt_key co e = Some (Some ctx)"
  shows "\<exists>key. kc_cipher ctx = Some key"
  using epoch_lookup_key [OF assms] by (auto simp: same_key_def data_ctx_def)

lemma aead_read_pid_epoch:
  assumes "epoch_env hmac e1s e1r" "epoch_inv hmac e1s e1r co" "co_epoch_data_format co" "buf_live buf" "8 \<le> len buf"
  shows "\<exists>r. epoch_lookup_decrypt_key co (fst (pkt_ident buf)) = Some r
     \<and> (case r of
          None \<Rightarrow> aead_read_pid co buf = Some None
        | Some ctx \<Rightarrow>
            if fst (pkt_ident buf) = 0 \<or> cipher_decrypt_verify_fail_exceeded ctx then aead_read_pid co buf = Some None
            else \<exists>buf'. aead_read_pid co buf = Some (Some (fst (pkt_ident buf), snd (pkt_ident buf), ctx, buf'))
                   \<and> buf_live buf' \<and> buf_content buf' = drop 8 (buf_content buf) \<and> data buf' = data buf
                   \<and> offset buf' = offset buf + 8 \<and> len buf' = len buf - 8)"
proof -
  from buf_read_spec [of buf 8] assms(4,5) obtain b' where b':
    "buf_read buf 8 = Some (Some (take 8 (buf_content buf)), b')" "buf_live b'"
    "buf_content b' = drop 8 (buf_content buf)" "data b' = data buf" "offset b' = offset buf + 8" "len b' = len buf - 8"
    by (auto simp: buf_live_def)
  from epoch_lookup_total [OF assms(1,2), of "fst (pkt_ident buf)"] obtain r where
    r: "epoch_lookup_decrypt_key co (fst (pkt_ident buf)) = Some r" by blast
  then show ?thesis using assms(3) b'
    by (auto simp: aead_read_pid_def packet_id_read_epoch_def pkt_ident_def Let_def split: option.splits)
qed

text \<open>
  Where a receive operation may be called: buffers as the event loop sets them up, a state with
  the epoch-key invariant, a clock after the Unix epoch.
\<close>

definition recv_ready :: "aead_lib \<Rightarrow> int \<Rightarrow> int \<Rightarrow> int \<Rightarrow> buffer \<Rightarrow> buffer \<Rightarrow> bool" where
  "recv_ready lib now headroom ad_start buf work \<longleftrightarrow> aead_lengths lib \<and> 1 < now \<and> buf_live buf \<and> 0 < len buf
     \<and> 0 \<le> ad_start \<and> ad_start \<le> offset buf \<and> buf_live work \<and> 0 \<le> headroom \<and> headroom \<le> capacity work"

definition chan_inv :: "hmac_fun \<Rightarrow> epoch_key \<Rightarrow> epoch_key \<Rightarrow> crypto_options \<Rightarrow> bool" where
  "chan_inv hmac e1s e1r co \<longleftrightarrow> epoch_env hmac e1s e1r \<and> epoch_inv hmac e1s e1r co \<and> co_epoch_data_format co
     \<and> send_id (pid_send (co_packet_id co)) \<le> PACKET_ID_EPOCH_MAX"

lemma chan_inv_step:
  assumes "chan_inv hmac e1s e1r co" "epoch_inv hmac e1s e1r co'" "send_pos_step co co'"
    "co_epoch_data_format co' = co_epoch_data_format co"
  shows "chan_inv hmac e1s e1r co'"
  using assms by (auto simp: chan_inv_def send_pos_step_def)

lemma chan_inv_facts:
  assumes "chan_inv hmac e1s e1r co"
  shows "packet_id_initialized (co_packet_id co)" "\<exists>k. kc_cipher (co_decrypt co) = Some k"
    "\<exists>k. kc_cipher (co_encrypt co) = Some k"
  using assms by (auto simp: chan_inv_def epoch_inv_def Let_def same_key_def data_ctx_def pid_epoch_wf_def
      pid_window_wf_def pid_window_shape_def packet_id_initialized_def split: option.splits)

text \<open>The output side of a decryption that passes the tag check.\<close>

lemma decrypt_outputs:
  assumes "buf_live work" "buf_content work = []" "len work = 0" "length out1 + length out2 \<le> buf_room work"
  shows "\<exists>w1 w2. put_output work (offset work) out1 = Some w1 \<and> buf_bptr w1 = Some (offset work)
     \<and> put_output w1 (offset work + int (length out1)) out2 = Some w2 \<and> buf_live w2 \<and> buf_content w2 = out1 @ out2"
proof -
  from put_output_write [OF assms(1), of out1 "offset work"] assms obtain w1 where
    w1: "put_output work (offset work) out1 = Some w1" "buf_live w1" "buf_content w1 = out1"
      "offset w1 = offset work" "capacity w1 = capacity work" "len w1 = int (length out1)" by auto
  have "length out2 \<le> buf_room w1" using assms(3,4) w1(4-6) by (simp add: buf_room_def)
  from put_output_write [OF w1(2) this, of "offset work + int (length out1)"] w1
  obtain w2 where "put_output w1 (offset work + int (length out1)) out2 = Some w2" "buf_live w2"
    "buf_content w2 = out1 @ out2" by auto
  moreover have "buf_bptr w1 = Some (offset work)"
    using w1 by (auto simp: buf_bptr_def buf_live_def buf_wf_valid)
  ultimately show ?thesis using w1(1) by blast
qed

text \<open>Everything up to the cipher library, for a packet whose header was accepted.\<close>

lemma decrypt_after_header:
  assumes chan: "chan_inv hmac e1s e1r co" and ready: "recv_ready lib now headroom ad_start buf work"
    and long: "25 \<le> len buf"
    and pid: "aead_read_pid co buf = Some (Some (e, pin, ctx, buf'))" "buf_live buf'" "data buf' = data buf"
      "buf_content buf' = drop 8 (buf_content buf)" "offset buf' = offset buf + 8" "len buf' = len buf - 8"
    and key: "kc_cipher ctx = Some key"
  defines "c \<equiv> buf_content buf'" and "m \<equiv> the (data buf)"
  defines "n \<equiv> length c - 16"
  defines "res \<equiv> lib_open lib key (aead_iv lib (take 8 (buf_content buf) @ replicate 8 0) ctx)
      (take (nat (offset buf + 8 - ad_start)) (drop (nat ad_start) m)) (take n c) (drop n c)"
  shows "\<exists>w. buf_live w \<and> buf_content w = [] \<and> len w = 0 \<and> offset w = headroom \<and> capacity w = capacity work
        \<and> openvpn_decrypt_aead junk hmac lib now headroom ad_start buf work co
          = (if \<not> buf_safe w (len buf' + lib_block_size lib) then Some (False, buf'\<lparr>len := 0\<rparr>, co)
             else aead_finish junk hmac now res buf' w co pin e)"
proof -
  note r = ready [unfolded recv_ready_def]
  from r obtain mem where mem: "data buf = Some mem" "buf_wf buf" by (auto simp: buf_live_def)
  note w = buf_wf_Some [OF mem(2,1)]
  from chan obtain k0 where k0: "kc_cipher (co_decrypt co) = Some k0" using chan_inv_facts(2) by blast
  have fmt: "co_epoch_data_format co" using chan by (simp add: chan_inv_def)
  from buf_init_spec [of work headroom] r obtain w0 where w0: "buf_init_dowork work headroom = (True, w0)"
    "buf_live w0" "buf_content w0 = []" "offset w0 = headroom" "capacity w0 = capacity work" "len w0 = 0"
    by (auto simp: buf_live_def)
  have bp: "buf_bptr w0 = Some (offset w0)" using w0 by (auto simp: buf_bptr_def buf_live_def buf_wf_valid)
  have iv: "mem_read mem (offset buf) 8 = Some (take 8 (buf_content buf))"
    using mem_read_content [of buf mem 0 8] r mem(1) long by simp
  have c16: "int (length c) = len buf'" "16 \<le> length c"
    using pid(2,6) long length_buf_content [of buf'] by (auto simp: c_def buf_live_def)
  have ln: "buf_len buf' = len buf'" using pid(2) buf_wf_len by (simp add: buf_live_def)
  have nn: "nat (len buf' - 16) = n" "0 \<le> len buf' - 16" using c16 by (auto simp: n_def)
  have m': "data buf' = Some mem" using pid(3) mem(1) by simp
  have ct: "mem_read mem (offset buf') (len buf' - 16) = Some (take n c)"
    using mem_read_content [OF pid(2) m', of 0 "len buf' - 16"] nn unfolding c_def by simp
  have tag: "mem_read mem (offset buf' + (len buf' - 16)) 16 = Some (drop n c)"
  proof -
    have "length (drop n c) = 16" using c16 by (simp add: n_def)
    then show ?thesis
      using mem_read_content [OF pid(2) m', of "len buf' - 16" 16] nn unfolding c_def by simp
  qed
  have ad: "mem_read mem ad_start (offset buf' - ad_start) = Some (take (nat (offset buf + 8 - ad_start)) (drop (nat ad_start) m))"
    using r w long pid(5) mem(1) by (simp add: mem_read_def m_def)
  have len8: "length (take 8 (buf_content buf)) = 8" using long length_buf_content [OF mem(2)] by simp
  have "openvpn_decrypt_aead junk hmac lib now headroom ad_start buf work co
      = (if \<not> buf_safe w0 (len buf' + lib_block_size lib) then Some (False, buf'\<lparr>len := 0\<rparr>, co)
         else aead_finish junk hmac now res buf' w0 co pin e)"
    unfolding openvpn_decrypt_aead_def res_def
    using fmt k0 mem(1) r w0(1) chan_inv_facts(1) [OF chan] long iv pid(1) key ad ln ct tag len8
    by (simp add: packet_id_size_def OPENVPN_AEAD_TAG_LENGTH_def OPENVPN_MAX_IV_LENGTH_def Let_def)
  with w0 show ?thesis by blast
qed

text \<open>What a receive step guarantees of its result, whatever the packet is.\<close>

definition recv_step_ok ::
    "hmac_fun \<Rightarrow> epoch_key \<Rightarrow> epoch_key \<Rightarrow> crypto_options \<Rightarrow> u16 \<times> packet_id_net
       \<Rightarrow> (bool \<times> buffer \<times> crypto_options) option \<Rightarrow> bool" where
  "recv_step_ok hmac e1s e1r co ident res \<longleftrightarrow>
     (case res of None \<Rightarrow> False
      | Some (ok, b, co') \<Rightarrow> chan_inv hmac e1s e1r co' \<and> (\<forall>j. epoch_known co j \<longrightarrow> epoch_known co' j)
          \<and> (ok \<longrightarrow> \<not> epoch_known co ident \<and> epoch_known co' ident) \<and> (\<not> ok \<longrightarrow> len b = 0) \<and> send_pos_step co co')"

lemma recv_step_reject:
  assumes "chan_inv hmac e1s e1r co"
  shows "recv_step_ok hmac e1s e1r co ident (Some (False, b\<lparr>len := 0\<rparr>, co))"
    and "recv_step_ok hmac e1s e1r co ident (Some (False, b\<lparr>len := 0\<rparr>, count_failure co e))"
proof -
  have "epoch_inv hmac e1s e1r co" using assms by (simp add: chan_inv_def)
  note k = count_failure_keeps [OF this, of e]
  from chan_inv_step [OF assms k(1,3,4)] assms k
  show "recv_step_ok hmac e1s e1r co ident (Some (False, b\<lparr>len := 0\<rparr>, co))"
    "recv_step_ok hmac e1s e1r co ident (Some (False, b\<lparr>len := 0\<rparr>, count_failure co e))"
    by (simp_all add: recv_step_ok_def send_pos_step_def)
qed

lemma aead_finish_step:
  assumes chan: "chan_inv hmac e1s e1r co" and now: "1 < now"
    and look: "epoch_lookup_decrypt_key co e = Some (Some ctx)"
    and w: "buf_live w" "buf_content w = []" "len w = 0"
    and fit: "\<And>out1 fin. res = Some (out1, fin) \<Longrightarrow>
       length out1 + length (case fin of None \<Rightarrow> [] | Some out2 \<Rightarrow> out2) \<le> buf_room w"
  shows "recv_step_ok hmac e1s e1r co (e, pin) (aead_finish junk hmac now res b w co pin e)"
proof -
  have env: "epoch_env hmac e1s e1r" "epoch_inv hmac e1s e1r co" using chan by (simp_all add: chan_inv_def)
  have bp: "buf_bptr w = Some (offset w)" using w by (auto simp: buf_bptr_def buf_live_def buf_wf_valid)
  consider "res = None" | out1 where "res = Some (out1, None)" | out1 out2 where "res = Some (out1, Some out2)"
    by (cases res) (auto, metis option.exhaust)
  then show ?thesis
  proof cases
    case 1
    then show ?thesis using recv_step_reject(1) [OF chan] by (simp add: aead_finish_def)
  next
    case (2 out1)
    with put_output_write [OF w(1), of out1 "offset w"] fit [of out1 None] w bp
    have "aead_finish junk hmac now res b w co pin e = Some (False, b\<lparr>len := 0\<rparr>, count_failure co e)"
      by (auto simp: aead_finish_def)
    then show ?thesis using recv_step_reject(2) [OF chan] by simp
  next
    case (3 out1 out2)
    with decrypt_outputs [OF w, of out1 out2] fit [of out1 "Some out2"] obtain w1 w2 where
      o: "put_output w (offset w) out1 = Some w1" "buf_bptr w1 = Some (offset w)"
        "put_output w1 (offset w + int (length out1)) out2 = Some w2" by auto
    from epoch_accept_step [OF env now, of junk e pin] look obtain r co' where
      c: "crypto_check_replay junk hmac now co pin e = Some (r, co')" "epoch_inv hmac e1s e1r co'"
        "\<forall>j. epoch_known co j \<longrightarrow> epoch_known co' j" "r \<longrightarrow> \<not> epoch_known co (e, pin) \<and> epoch_known co' (e, pin)"
        "send_pos_step co co'" "co_epoch_data_format co' = co_epoch_data_format co"
      by (auto simp: epoch_accept_def)
    from chan_inv_step [OF chan c(2,5,6)] have "chan_inv hmac e1s e1r co'" .
    with 3 o bp c show ?thesis by (auto simp: aead_finish_def recv_step_ok_def chan_inv_def)
  qed
qed

lemma decrypt_step:
  assumes chan: "chan_inv hmac e1s e1r co" and ready: "recv_ready lib now headroom ad_start buf work"
  shows "recv_step_ok hmac e1s e1r co (pkt_ident buf)
     (openvpn_decrypt_aead junk hmac lib now headroom ad_start buf work co)" (is "recv_step_ok _ _ _ _ _ ?dec")
proof -
  note r = ready [unfolded recv_ready_def]
  have env: "epoch_env hmac e1s e1r" "epoch_inv hmac e1s e1r co" "co_epoch_data_format co"
    using chan by (simp_all add: chan_inv_def)
  note rejected = recv_step_reject(1) [OF chan]
  obtain mem where mem: "data buf = Some mem" "buf_wf buf" using r by (auto simp: buf_live_def)
  from buf_init_spec [of work headroom] r obtain w0 where w0: "buf_init_dowork work headroom = (True, w0)"
    by (auto simp: buf_live_def)
  from chan_inv_facts [OF chan] obtain k0 where k0: "kc_cipher (co_decrypt co) = Some k0"
    "packet_id_initialized (co_packet_id co)" by blast
  obtain e pin where id: "pkt_ident buf = (e, pin)" by (cases "pkt_ident buf")
  have none: "?dec = Some (False, buf\<lparr>len := 0\<rparr>, co)" if "len buf < 25 \<or> aead_read_pid co buf = Some None"
  proof (cases "25 \<le> len buf")
    case True
    with mem_read_content [of buf mem 0 8] r mem(1)
    have "mem_read mem (offset buf) 8 = Some (take 8 (buf_content buf))" by simp
    with True that env(3) k0 w0 r mem show ?thesis
      by (simp add: openvpn_decrypt_aead_def packet_id_size_def OPENVPN_AEAD_TAG_LENGTH_def)
  qed (use env(3) k0 w0 r mem in
      \<open>simp add: openvpn_decrypt_aead_def packet_id_size_def OPENVPN_AEAD_TAG_LENGTH_def\<close>)
  show ?thesis
  proof (cases "len buf < 25 \<or> aead_read_pid co buf = Some None")
    case False
    then have long: "25 \<le> len buf" by simp
    from aead_read_pid_epoch [OF env, of buf] r long id False obtain ctx buf' where
      look: "epoch_lookup_decrypt_key co e = Some (Some ctx)" and
      b': "aead_read_pid co buf = Some (Some (e, pin, ctx, buf'))" "buf_live buf'" "data buf' = data buf"
        "buf_content buf' = drop 8 (buf_content buf)" "offset buf' = offset buf + 8" "len buf' = len buf - 8"
      by (auto split: option.splits if_splits)
    from epoch_inv_lookup_cipher [OF env(1,2) look] obtain key where key: "kc_cipher ctx = Some key" by blast
    let ?c = "buf_content buf'"
    let ?res = "lib_open lib key (aead_iv lib (take 8 (buf_content buf) @ replicate 8 0) ctx)
      (take (nat (offset buf + 8 - ad_start)) (drop (nat ad_start) (the (data buf))))
      (take (length ?c - 16) ?c) (drop (length ?c - 16) ?c)"
    from decrypt_after_header [OF chan ready long b' key, of junk] obtain w where
      w: "buf_live w" "buf_content w = []" "len w = 0" and
      dec: "?dec = (if \<not> buf_safe w (len buf' + lib_block_size lib) then Some (False, buf'\<lparr>len := 0\<rparr>, co)
             else aead_finish junk hmac now ?res buf' w co pin e)" by blast
    have "length out1 + length (case fin of None \<Rightarrow> [] | Some out2 \<Rightarrow> out2) \<le> buf_room w"
      if "buf_safe w (len buf' + lib_block_size lib)" "?res = Some (out1, fin)" for out1 fin
    proof -
      have "length out1 + length (case fin of None \<Rightarrow> [] | Some out2 \<Rightarrow> out2) \<le> length (take (length ?c - 16) ?c)"
        using r that(2) unfolding aead_lengths_def by blast
      also have "\<dots> \<le> length ?c" by simp
      also have "\<dots> \<le> buf_room w"
        using that(1) r w(1) length_buf_content [of buf'] b'(2)
        by (auto simp: buf_safe_def buf_room_def buf_live_def aead_lengths_def)
      finally show ?thesis .
    qed
    with aead_finish_step [OF chan _ look w, of now ?res pin junk buf'] r dec rejected id show ?thesis by auto
  qed (use none rejected in simp)
qed

text \<open>One received packet as a step of a replay filter; the environment supplies clock and buffers.\<close>

definition recv_packet ::
    "(nat \<Rightarrow> u8) \<Rightarrow> hmac_fun \<Rightarrow> aead_lib \<Rightarrow> int \<times> int \<times> int \<times> buffer \<Rightarrow> crypto_options \<Rightarrow> buffer
       \<Rightarrow> (bool \<times> crypto_options) option" where
  "recv_packet junk hmac lib env co buf = (case env of (now, headroom, ad_start, work) \<Rightarrow>
     map_option (\<lambda>(ok, b, co'). (ok, co')) (openvpn_decrypt_aead junk hmac lib now headroom ad_start buf work co))"

definition recv_env_ok :: "aead_lib \<Rightarrow> int \<times> int \<times> int \<times> buffer \<Rightarrow> buffer \<Rightarrow> bool" where
  "recv_env_ok lib env buf = (case env of (now, headroom, ad_start, work) \<Rightarrow> recv_ready lib now headroom ad_start buf work)"

lemma recv_packet_step:
  assumes "chan_inv hmac e1s e1r co" "recv_env_ok lib env buf"
  shows "\<exists>ok co'. recv_packet junk hmac lib env co buf = Some (ok, co') \<and> chan_inv hmac e1s e1r co'
     \<and> (\<forall>j. epoch_known co j \<longrightarrow> epoch_known co' j)
     \<and> (ok \<longrightarrow> \<not> epoch_known co (pkt_ident buf) \<and> epoch_known co' (pkt_ident buf)) \<and> send_pos_step co co'"
proof -
  obtain now headroom ad_start work where e: "env = (now, headroom, ad_start, work)" by (cases env)
  from decrypt_step [OF assms(1), of lib now headroom ad_start buf work junk] assms(2) show ?thesis
    by (auto simp: e recv_packet_def recv_env_ok_def recv_step_ok_def split: option.splits)
qed

interpretation data_channel: replay_filter "chan_inv hmac e1s e1r" epoch_known pkt_ident "recv_env_ok lib"
  "recv_packet junk hmac lib"
  for hmac e1s e1r lib junk
proof (unfold_locales, goal_cases)
  case (1 s e k)
  then show ?case using recv_packet_step [of hmac e1s e1r s lib e k junk] by blast
next
  case (2 s e k r s' i)
  then show ?case using recv_packet_step [of hmac e1s e1r s lib e k junk] by (cases i) auto
next
  case (3 s e k s')
  then show ?case using recv_packet_step [of hmac e1s e1r s lib e k junk] by auto
next
  case (4 s e k r s')
  then show ?case using recv_packet_step [of hmac e1s e1r s lib e k junk] by auto
qed

text \<open>C7: replay protection of the whole receive path in the epoch data format. Over any sequence
  of received packets, authentic or not, with key epochs moving forward in between, no two
  accepted packets carry the same epoch and packet id, and no assertion fails.\<close>

theorem data_channel_accepts_once:
  assumes "chan_inv hmac e1s e1r co" "\<forall>(env, buf) \<in> set arrivals. recv_env_ok lib env buf"
  shows "\<exists>accepted co'. replay_run (recv_packet junk hmac lib) co arrivals = Some (accepted, co')
     \<and> distinct (map pkt_ident accepted)"
  using data_channel.run_distinct [of hmac e1s e1r co arrivals lib junk] assms by auto

definition demo_lib :: aead_lib where
  "demo_lib = \<lparr>lib_seal = (\<lambda>key iv ad pt. (map (\<lambda>x. x XOR hd key) pt, [], replicate 16 (hd iv))),
     lib_open = (\<lambda>key iv ad ct tag. Some (map (\<lambda>x. x XOR hd key) ct, if tag = replicate 16 (hd iv) then Some [] else None)),
     lib_iv_len = 12, lib_block_size = 16\<rparr>"

lemma demo_lib_ok: "aead_lengths demo_lib" "aead_inverse demo_lib"
  by (auto simp: aead_lengths_def aead_inverse_def demo_lib_def comp_def xor.assoc split: option.splits)

definition demo_pkt :: buffer where
  "demo_pkt = \<lparr>capacity = 40, offset = 1, len = 39, data = Some (0 # be64 (push_bit 48 1 OR 9) @ replicate 31 5)\<rparr>"

definition demo_work :: buffer where
  "demo_work = \<lparr>capacity = 200, offset = 0, len = 0, data = Some (replicate 200 0)\<rparr>"

lemma demo_env_ok: "recv_env_ok demo_lib (1000, 8, 0, demo_work) demo_pkt"
  by (simp add: recv_env_ok_def recv_ready_def demo_lib_ok buf_live_def buf_wf_def demo_pkt_def demo_work_def
      BUF_SIZE_MAX_def)

lemma demo_state_chan: "chan_inv demo_hmac demo_ek demo_ek demo_state"
  using epoch_init_total [OF demo_epoch_env demo_co_ok(1) _ _ demo_co_ok(2-4), of 4 "\<lambda>_. 0"]
  by (auto simp: chan_inv_def demo_epoch_env demo_state_def demo_co_def)

theorem data_channel_accepts_once_witness:
  "\<exists>accepted co'. replay_run (recv_packet (\<lambda>_. 0) demo_hmac demo_lib) demo_state
       [((1000, 8, 0, demo_work), demo_pkt), ((1000, 8, 0, demo_work), demo_pkt)] = Some (accepted, co')
     \<and> distinct (map pkt_ident accepted)"
  by (rule data_channel_accepts_once [OF demo_state_chan]) (simp add: demo_env_ok)

section \<open>Sending a packet\<close>

lemma epoch_iterate_send_key_total:
  assumes "epoch_env hmac e1s e1r" "epoch_inv hmac e1s e1r co" "kc_epoch (co_encrypt co) < UINT16_MAX"
  shows "epoch_iterate_send_key junk hmac co = Some (send_at hmac e1s (kc_epoch (co_encrypt co) + 1) co)"
    and "kc_epoch (co_encrypt co) < kc_epoch (co_encrypt co) + 1"
proof -
  let ?s = "unat (kc_epoch (co_encrypt co))"
  have s: "1 \<le> ?s" "co_epoch_key_send co = ek_at hmac e1s ?s" "kt_ok (co_epoch_key_type co)"
    using assms(2) by (auto simp: epoch_inv_def Let_def)
  show less: "kc_epoch (co_encrypt co) < kc_epoch (co_encrypt co) + 1"
    by (rule word_inc_less [OF assms(3)])
  have u: "unat (kc_epoch (co_encrypt co) + 1) = Suc ?s" by (rule word_less_pred_Suc [OF assms(3)])
  have e: "ek_epoch (co_epoch_key_send co) = kc_epoch (co_encrypt co)"
    using s assms unat_epoch_at [of e1s ?s hmac] unsigned_less [where 'a = nat, of "kc_epoch (co_encrypt co)"]
    by (simp add: epoch_env_def word_unat_eq_iff)
  have it: "epoch_key_iterate junk hmac (co_epoch_key_send co) = Some (ek_at hmac e1s (Suc ?s))"
    using assms(1) s by (simp add: epoch_key_iterate_total ek_ok_at ek_at_Suc epoch_env_def)
  have sw: "co\<lparr>co_epoch_key_send := x, co_encrypt := y\<rparr> = co\<lparr>co_encrypt := y, co_epoch_key_send := x\<rparr>" for x y
    by simp
  from epoch_send_catch_up(2) [OF assms(1,2) less, of junk] it e assms(3) less u
  show "epoch_iterate_send_key junk hmac co = Some (send_at hmac e1s (kc_epoch (co_encrypt co) + 1) co)"
    by (simp add: epoch_iterate_send_key_def send_at_def sw)
qed

lemma send_at_pos:
  assumes "epoch_env hmac e1s e1r" "epoch_inv hmac e1s e1r co" "kc_epoch (co_encrypt co) < e"
  shows "kc_epoch (co_encrypt (send_at hmac e1s e co)) = e"
    "send_id (pid_send (co_packet_id (send_at hmac e1s e co))) = 0"
    "send_pos_step co (send_at hmac e1s e co)"
  using epoch_send_catch_up(3) [OF assms] assms(3)
  by (simp_all add: send_at_def send_pos_step_def reset_packet_id_send_def)

lemma epoch_check_send_iterate_step:
  assumes chan: "chan_inv hmac e1s e1r co"
  shows "\<exists>co'. epoch_check_send_iterate junk hmac co = Some co' \<and> chan_inv hmac e1s e1r co' \<and> send_pos_step co co'
     \<and> epoch_known co' = epoch_known co \<and> co_epoch_key_type co' = co_epoch_key_type co
     \<and> (send_id (pid_send (co_packet_id co')) = PACKET_ID_EPOCH_MAX \<longrightarrow> kc_epoch (co_encrypt co') = UINT16_MAX)"
proof -
  have env: "epoch_env hmac e1s e1r" and inv: "epoch_inv hmac e1s e1r co" using chan by (simp_all add: chan_inv_def)
  let ?s = "unat (kc_epoch (co_encrypt co))"
  let ?co1 = "send_at hmac e1s (kc_epoch (co_encrypt co) + 1) co"
  have e: "ek_epoch (co_epoch_key_send co) = kc_epoch (co_encrypt co)"
    using inv env unat_epoch_at [of e1s ?s hmac] unsigned_less [where 'a = nat, of "kc_epoch (co_encrypt co)"]
    by (auto simp: epoch_inv_def epoch_env_def Let_def word_unat_eq_iff)
  show ?thesis
  proof (cases "kc_epoch (co_encrypt co) = UINT16_MAX")
    case True
    with chan e show ?thesis by (simp add: epoch_check_send_iterate_def send_pos_step_def)
  next
    case False
    then have less: "kc_epoch (co_encrypt co) < UINT16_MAX"
      using unsigned_less [where 'a = nat, of "kc_epoch (co_encrypt co)"]
      by (simp add: UINT16_MAX_def order_less_le word_le_nat_alt)
    note it = epoch_iterate_send_key_total [OF env inv less]
    note pos = send_at_pos [OF env inv it(2)]
    have k: "epoch_known ?co1 = epoch_known co" by (simp add: epoch_known_def fun_eq_iff)
    have c1: "chan_inv hmac e1s e1r ?co1"
      by (rule chan_inv_step [OF chan send_at_inv(1) [OF env inv] pos(3)]) simp
    have "epoch_check_send_iterate junk hmac co \<in> {Some co, Some ?co1}
        \<and> (epoch_check_send_iterate junk hmac co = Some co \<longrightarrow>
             send_id (pid_send (co_packet_id co)) \<noteq> PACKET_ID_EPOCH_MAX \<or> co = ?co1)"
      using e False it(1) pos(2) by (auto simp: epoch_check_send_iterate_def PACKET_ID_EPOCH_MAX_def)
    moreover have "send_id (pid_send (co_packet_id ?co1)) \<noteq> PACKET_ID_EPOCH_MAX"
      using pos(2) by (simp add: PACKET_ID_EPOCH_MAX_def)
    moreover have "send_pos_step co co" by (simp add: send_pos_step_def)
    ultimately show ?thesis using chan c1 pos(3) k by fastforce
  qed
qed

definition send_ready :: "aead_lib \<Rightarrow> buffer \<Rightarrow> buffer \<Rightarrow> bool" where
  "send_ready lib buf work \<longleftrightarrow> aead_lengths lib \<and> buf_live buf \<and> buf_live work \<and> 8 \<le> buf_room work"

text \<open>The 64 bits of epoch and counter that start the nonce and travel in the packet.\<close>

definition epoch_pid :: "u16 \<Rightarrow> u64 \<Rightarrow> u64" where
  "epoch_pid e i = push_bit 48 (ucast e) OR i"

lemma iv_buffer_write:
  assumes "12 \<le> n" "n \<le> 16"
  shows "\<exists>b. buf_set_write clear_buf (Some (replicate OPENVPN_MAX_IV_LENGTH 0)) (int n) = Some b
     \<and> buf_write b (be64 x) = Some (True, b\<lparr>len := 8, data := Some (be64 x @ replicate 8 0)\<rparr>)"
  using assms
    by (auto simp: buf_set_write_def buf_size_valid_def BUF_SIZE_MAX_def OPENVPN_MAX_IV_LENGTH_def clear_buf_def
        buf_write_def buf_write_alloc_def buf_safe_def buf_valid_def buf_bptr_def buf_store_def mem_write_def)

text \<open>The work buffer after the explicit nonce: cipher output and tag follow.\<close>

lemma encrypt_outputs:
  assumes w: "buf_live w" and room: "length out1 + length out2 + 16 \<le> buf_room w" and tag: "length tag = 16"
  shows "\<exists>p w1 p' w2 p'' w3 w4. buf_bend w = Some p \<and> put_output w p out1 = Some w1 \<and> buf_bend w1 = Some p'
     \<and> put_output w1 p' out2 = Some w2 \<and> buf_write_alloc w2 OPENVPN_AEAD_TAG_LENGTH = (Some p'', w3)
     \<and> buf_store w3 p'' tag = Some w4 \<and> buf_live w4 \<and> buf_content w4 = buf_content w @ out1 @ out2 @ tag"
proof -
  have be: "buf_bend b = Some (offset b + len b)" if "buf_live b" for b
    using that buf_wf_len [of b] by (auto simp: buf_bend_def buf_bptr_def buf_live_def buf_wf_valid)
  from put_output_write [OF w, of out1 "offset w + len w"] room obtain w1 where
    w1: "put_output w (offset w + len w) out1 = Some w1" "buf_live w1" "buf_content w1 = buf_content w @ out1"
      "offset w1 = offset w" "capacity w1 = capacity w" "len w1 = len w + int (length out1)" by auto
  have r1: "length out2 \<le> buf_room w1" using room w1(4-6) by (simp add: buf_room_def)
  from put_output_write [OF w1(2) r1, of "offset w1 + len w1"] obtain w2 where
    w2: "put_output w1 (offset w1 + len w1) out2 = Some w2" "buf_live w2" "buf_content w2 = buf_content w1 @ out2"
      "offset w2 = offset w1" "capacity w2 = capacity w1" "len w2 = len w1 + int (length out2)" by auto
  have r2: "length tag \<le> buf_room w2" using room w1(4-6) w2(4-6) tag by (simp add: buf_room_def)
  from wire.put_ok [OF w2(2) r2] obtain w4 where
    w4: "buf_write w2 tag = Some (True, w4)" "buf_live w4" "buf_content w4 = buf_content w2 @ tag" by blast
  obtain p'' w3 where "buf_write_alloc w2 OPENVPN_AEAD_TAG_LENGTH = (Some p'', w3)" "buf_store w3 p'' tag = Some w4"
    using w4(1) tag by (auto simp: buf_write_def OPENVPN_AEAD_TAG_LENGTH_def bind_eq_Some_conv
        split: prod.splits option.splits)
  with be w w1 w2 w4 show ?thesis by (metis append.assoc)
qed

definition stamped :: "int \<Rightarrow> packet_id_send \<Rightarrow> packet_id_send" where
  "stamped now p = (if send_time p = 0 then p\<lparr>send_time := now\<rparr> else p)"

definition with_send :: "packet_id_send \<Rightarrow> crypto_options \<Rightarrow> crypto_options" where
  "with_send p co = co\<lparr>co_packet_id := (co_packet_id co)\<lparr>pid_send := p\<rparr>\<rparr>"

lemma send_id_stamped [simp]: "send_id (stamped now p) = send_id p"
  by (simp add: stamped_def)

lemma encrypt_rollover:
  assumes "epoch_check_send_iterate junk hmac co = Some co1" "chan_inv hmac e1s e1r co" "chan_inv hmac e1s e1r co1"
    and "send_ready lib buf work" "send_id (pid_send (co_packet_id co1)) = PACKET_ID_EPOCH_MAX"
  shows "openvpn_encrypt_aead junk hmac lib now buf work co
     = Some (buf\<lparr>len := 0\<rparr>, with_send (stamped now (pid_send (co_packet_id co1))) co1)"
proof -
  from chan_inv_facts [OF assms(3)] obtain key where key: "kc_cipher (co_encrypt co1) = Some key"
    "packet_id_initialized (co_packet_id co1)" by blast
  have fmt: "co_epoch_data_format co" "co_epoch_data_format co1" using assms(2,3) by (simp_all add: chan_inv_def)
  have ivl: "12 \<le> lib_iv_len lib" "lib_iv_len lib \<le> 16" using assms(4) by (simp_all add: send_ready_def aead_lengths_def)
  from iv_buffer_write [OF ivl] obtain ivb where
    "buf_set_write clear_buf (Some (replicate OPENVPN_MAX_IV_LENGTH 0)) (int (lib_iv_len lib)) = Some ivb" by blast
  with assms key fmt ivl show ?thesis
    by (simp add: openvpn_encrypt_aead_def packet_id_write_epoch_def packet_id_send_update_epoch_def stamped_def
        with_send_def OPENVPN_AEAD_MIN_IV_LEN_def OPENVPN_MAX_IV_LENGTH_def Let_def)
qed

text \<open>A counter below its end: the id is used up; the packet is produced if it fits the work buffer.\<close>

lemma encrypt_emit:
  fixes now :: int
  assumes it: "epoch_check_send_iterate junk hmac co = Some co1" "chan_inv hmac e1s e1r co" "chan_inv hmac e1s e1r co1"
    and ready: "send_ready lib buf work" and i: "send_id (pid_send (co_packet_id co1)) \<noteq> PACKET_ID_EPOCH_MAX"
    and key: "kc_cipher (co_encrypt co1) = Some key"
  defines "p \<equiv> (stamped now (pid_send (co_packet_id co1)))\<lparr>send_id := send_id (pid_send (co_packet_id co1)) + 1\<rparr>"
  defines "x \<equiv> epoch_pid (kc_epoch (co_encrypt co1)) (send_id p)"
  shows "\<exists>w k. openvpn_encrypt_aead junk hmac lib now buf work co = Some (w, (with_send p co1)\<lparr>co_encrypt := k\<rparr>)
     \<and> same_key k (co_encrypt co1)
     \<and> (if len buf + 24 + lib_block_size lib \<le> int (buf_room work)
        then buf_live w \<and> (case lib_seal lib key (aead_iv lib (be64 x @ replicate 8 0) (co_encrypt co1))
                 (buf_content work @ be64 x) (buf_content buf) of
               (out1, out2, tag) \<Rightarrow> buf_content w = buf_content work @ be64 x @ out1 @ out2 @ tag)
        else len w = 0)"
proof -
  from chan_inv_facts [OF it(3)] have init: "packet_id_initialized (co_packet_id co1)" by blast
  have fmt: "co_epoch_data_format co" "co_epoch_data_format co1" using it(2,3) by (simp_all add: chan_inv_def)
  note r = ready [unfolded send_ready_def]
  have ivl: "12 \<le> lib_iv_len lib" "lib_iv_len lib \<le> 16" using r by (simp_all add: aead_lengths_def)
  from iv_buffer_write [OF ivl] obtain ivb where ivb:
    "buf_set_write clear_buf (Some (replicate OPENVPN_MAX_IV_LENGTH 0)) (int (lib_iv_len lib)) = Some ivb"
    "buf_write ivb (be64 x) = Some (True, ivb\<lparr>len := 8, data := Some (be64 x @ replicate 8 0)\<rparr>)" by blast
  have pid: "packet_id_write_epoch now (pid_send (co_packet_id co1)) (kc_epoch (co_encrypt co1)) ivb
      = Some (True, p, ivb\<lparr>len := 8, data := Some (be64 x @ replicate 8 0)\<rparr>)"
    using i ivb(2) by (auto simp: packet_id_write_epoch_def packet_id_send_update_epoch_def p_def x_def epoch_pid_def
        stamped_def Let_def)
  have rd: "mem_read (be64 x @ replicate 8 0) 0 8 = Some (be64 x)" by (simp add: mem_read_def)
  have room8: "length (be64 x) \<le> buf_room work" using r by simp
  from wire.put_ok [OF _ room8] r obtain w where w: "buf_write work (be64 x) = Some (True, w)" "buf_live w"
    "buf_content w = buf_content work @ be64 x" "buf_room w = buf_room work - 8" by auto
  have bl: "0 \<le> len buf" "int (length (buf_content buf)) = len buf" "buf_bytes buf = Some (buf_content buf)"
    using r buf_wf_len [of buf] length_buf_content [of buf] buf_bytes_content [of buf] by (auto simp: buf_live_def)
  have safe: "buf_safe w (len buf + 16 + lib_block_size lib) \<longleftrightarrow> len buf + 24 + lib_block_size lib \<le> int (buf_room work)"
  proof -
    have "len buf + 16 + lib_block_size lib = int (nat (len buf + 16 + lib_block_size lib))"
      using bl(1) r by (simp add: aead_lengths_def)
    then show ?thesis using buf_safe_room [OF w(2), of "nat (len buf + 16 + lib_block_size lib)"] w(4) r bl(1)
      by (auto simp: aead_lengths_def)
  qed
  note pre = it(1) fmt key init ivl ivb(1) pid rd w(1) bl(3)
  note defs = openvpn_encrypt_aead_def OPENVPN_AEAD_MIN_IV_LEN_def OPENVPN_MAX_IV_LENGTH_def Let_def with_send_def
  show ?thesis
  proof (cases "len buf + 24 + lib_block_size lib \<le> int (buf_room work)")
    case False
    with pre safe have "openvpn_encrypt_aead junk hmac lib now buf work co
        = Some (buf\<lparr>len := 0\<rparr>, (with_send p co1)\<lparr>co_encrypt := co_encrypt co1\<rparr>)"
      by (simp add: defs OPENVPN_AEAD_TAG_LENGTH_def buf_len_def buf_valid_def)
    with False show ?thesis by fastforce
  next
    case True
    obtain out1 out2 tag where seal: "lib_seal lib key (aead_iv lib (be64 x @ replicate 8 0) (co_encrypt co1))
        (buf_content work @ be64 x) (buf_content buf) = (out1, out2, tag)" by (metis prod_cases3)
    with r have ln: "length (out1 @ out2) = length (buf_content buf)" "length tag = 16"
      unfolding aead_lengths_def by blast+
    have "length out1 + length out2 + 16 \<le> buf_room w" proof -
      have "0 \<le> lib_block_size lib" using r by (simp add: aead_lengths_def)
      with ln True bl w(4) show ?thesis by auto
    qed
    from encrypt_outputs [OF w(2) this ln(2)] obtain q w1 q' w2 q'' w3 w4 where o:
      "buf_bend w = Some q" "put_output w q out1 = Some w1" "buf_bend w1 = Some q'" "put_output w1 q' out2 = Some w2"
      "buf_write_alloc w2 OPENVPN_AEAD_TAG_LENGTH = (Some q'', w3)" "buf_store w3 q'' tag = Some w4" "buf_live w4"
      "buf_content w4 = buf_content w @ out1 @ out2 @ tag" by blast
    have "buf_bytes w = Some (buf_content work @ be64 x)" using w buf_bytes_content by (simp add: buf_live_def)
    with pre safe True seal o(1-6) have "openvpn_encrypt_aead junk hmac lib now buf work co
        = Some (w4, (with_send p co1)\<lparr>co_encrypt := count_blocks w2 (co_encrypt co1)\<rparr>)"
      by (simp add: defs OPENVPN_AEAD_TAG_LENGTH_def buf_len_def buf_valid_def)
    moreover have "same_key (count_blocks w2 (co_encrypt co1)) (co_encrypt co1)"
      by (simp add: count_blocks_def same_key_def)
    ultimately show ?thesis using True seal o(7,8) w(3) by auto
  qed
qed

lemma encrypt_emit_packet:
  assumes "epoch_check_send_iterate junk hmac co = Some co1" "chan_inv hmac e1s e1r co" "chan_inv hmac e1s e1r co1"
    and "send_ready lib buf work" and "send_id (pid_send (co_packet_id co1)) = i" "i \<noteq> PACKET_ID_EPOCH_MAX"
    and "kc_cipher (co_encrypt co1) = Some key" "kc_epoch (co_encrypt co1) = e"
    and "len buf + 24 + lib_block_size lib \<le> int (buf_room work)"
  shows "\<exists>w co' out1 out2 tag. openvpn_encrypt_aead junk hmac lib now buf work co = Some (w, co')
     \<and> kc_epoch (co_encrypt co') = e \<and> send_id (pid_send (co_packet_id co')) = i + 1 \<and> buf_live w
     \<and> lib_seal lib key (aead_iv lib (be64 (epoch_pid e (i + 1)) @ replicate 8 0) (co_encrypt co1))
          (buf_content work @ be64 (epoch_pid e (i + 1))) (buf_content buf) = (out1, out2, tag)
     \<and> buf_content w = buf_content work @ be64 (epoch_pid e (i + 1)) @ out1 @ out2 @ tag"
proof -
  let ?x = "epoch_pid e (i + 1)"
  have i: "send_id (pid_send (co_packet_id co1)) \<noteq> PACKET_ID_EPOCH_MAX" using assms(5,6) by simp
  obtain out1 out2 tag where seal: "lib_seal lib key (aead_iv lib (be64 ?x @ replicate 8 0) (co_encrypt co1))
        (buf_content work @ be64 ?x) (buf_content buf) = (out1, out2, tag)" by (metis prod_cases3)
  from encrypt_emit [OF assms(1-4) i assms(7), of now] seal assms(5,8,9) show ?thesis
    by (fastforce simp: with_send_def same_key_def)
qed

section \<open>Nonces are never reused\<close>

definition send_pos :: "crypto_options \<Rightarrow> u16 \<times> u64" where
  "send_pos co = (kc_epoch (co_encrypt co), send_id (pid_send (co_packet_id co)))"

definition nonce_less :: "u16 \<times> u64 \<Rightarrow> u16 \<times> u64 \<Rightarrow> bool" where
  "nonce_less a b \<longleftrightarrow> fst a < fst b \<or> (fst a = fst b \<and> snd a < snd b)"

text \<open>
  Runs of one endpoint: packets are encrypted and received in any order; the trace records the
  epoch and counter of every packet put out by the encryption.
\<close>

inductive chan_run ::
    "(nat \<Rightarrow> u8) \<Rightarrow> hmac_fun \<Rightarrow> aead_lib \<Rightarrow> crypto_options \<Rightarrow> (u16 \<times> u64) list \<Rightarrow> crypto_options \<Rightarrow> bool"
  for junk hmac lib where
  stop: "chan_run junk hmac lib co [] co"
| snd: "send_ready lib buf work \<Longrightarrow> openvpn_encrypt_aead junk hmac lib now buf work co = Some (w, co') \<Longrightarrow>
     chan_run junk hmac lib co' tr co'' \<Longrightarrow>
     chan_run junk hmac lib co ((if len w = 0 then [] else [send_pos co']) @ tr) co''"
| rcv: "recv_ready lib now headroom ad_start buf work \<Longrightarrow>
     openvpn_decrypt_aead junk hmac lib now headroom ad_start buf work co = Some (ok, w, co') \<Longrightarrow>
     chan_run junk hmac lib co' tr co'' \<Longrightarrow> chan_run junk hmac lib co tr co''"

lemma nonce_less_trans [trans]: "nonce_less a b \<Longrightarrow> nonce_less b c \<Longrightarrow> nonce_less a c"
  by (auto simp: nonce_less_def)

lemma nonce_less_irrefl [simp]: "\<not> nonce_less a a"
  by (simp add: nonce_less_def)

lemma send_pos_step_mono: "send_pos_step co co' \<Longrightarrow> send_pos co' = send_pos co \<or> nonce_less (send_pos co) (send_pos co')"
  by (auto simp: send_pos_step_def send_pos_def nonce_less_def)

lemma epoch_inv_with_send:
  assumes "epoch_inv hmac e1s e1r co" "same_key k (co_encrypt co)"
  shows "epoch_inv hmac e1s e1r ((with_send p co)\<lparr>co_encrypt := k\<rparr>)" "epoch_inv hmac e1s e1r (with_send p co)"
  using assms by (auto simp: epoch_inv_def with_send_def Let_def same_key_def)

text \<open>An encryption leaves the invariant intact and moves the send position up for every packet put out.\<close>

lemma encrypt_moves_up:
  assumes chan: "chan_inv hmac e1s e1r co" and ready: "send_ready lib buf work"
    and enc: "openvpn_encrypt_aead junk hmac lib now buf work co = Some (w, co')"
  shows "chan_inv hmac e1s e1r co'" "send_pos co' = send_pos co \<or> nonce_less (send_pos co) (send_pos co')"
    "len w \<noteq> 0 \<Longrightarrow> nonce_less (send_pos co) (send_pos co')"
proof -
  from epoch_check_send_iterate_step [OF chan, of junk] obtain co1 where
    co1: "epoch_check_send_iterate junk hmac co = Some co1" "chan_inv hmac e1s e1r co1" "send_pos_step co co1" by blast
  from chan_inv_facts [OF co1(2)] obtain key where key: "kc_cipher (co_encrypt co1) = Some key" by blast
  note le = send_pos_step_mono [OF co1(3)]
  let ?i = "send_id (pid_send (co_packet_id co1))"
  have "chan_inv hmac e1s e1r co' \<and> (send_pos co' = send_pos co \<or> nonce_less (send_pos co) (send_pos co'))
      \<and> (len w \<noteq> 0 \<longrightarrow> nonce_less (send_pos co) (send_pos co'))"
  proof (cases "?i = PACKET_ID_EPOCH_MAX")
    case True
    from encrypt_rollover [OF co1(1) chan co1(2) ready True, of now] enc have
      "len w = 0" "co' = with_send (stamped now (pid_send (co_packet_id co1))) co1" by simp_all
    with co1(2) le epoch_inv_with_send(2) [of hmac e1s e1r co1 "co_encrypt co1"] show ?thesis
      by (auto simp: chan_inv_def with_send_def send_pos_def)
  next
    case False
    let ?p = "(stamped now (pid_send (co_packet_id co1)))\<lparr>send_id := ?i + 1\<rparr>"
    from encrypt_emit [OF co1(1) chan co1(2) ready False key, of now] enc obtain k where
      co': "co' = (with_send ?p co1)\<lparr>co_encrypt := k\<rparr>" and k: "same_key k (co_encrypt co1)" by auto
    have lt: "?i < PACKET_ID_EPOCH_MAX" using False co1(2) by (simp add: chan_inv_def order_less_le)
    have "nonce_less (send_pos co1) (send_pos co')"
      using word_inc_less [OF lt] k by (simp add: co' send_pos_def nonce_less_def with_send_def same_key_def)
    moreover have "chan_inv hmac e1s e1r co'"
      using co1(2) epoch_inv_with_send(1) [of hmac e1s e1r co1 k ?p] k word_inc_le [OF lt]
      by (simp add: chan_inv_def co' with_send_def)
    ultimately show ?thesis using le nonce_less_trans by metis
  qed
  then show "chan_inv hmac e1s e1r co'" "send_pos co' = send_pos co \<or> nonce_less (send_pos co) (send_pos co')"
    "len w \<noteq> 0 \<Longrightarrow> nonce_less (send_pos co) (send_pos co')" by blast+
qed

lemma chan_run_increasing:
  assumes "chan_run junk hmac lib co tr co'" "chan_inv hmac e1s e1r co"
  shows "chan_inv hmac e1s e1r co' \<and> (\<forall>n \<in> set tr. nonce_less (send_pos co) n) \<and> sorted_wrt nonce_less tr"
  using assms
proof (induction rule: chan_run.induct)
  case (stop co)
  then show ?case by simp
next
  case (snd buf work now co w co' tr co'')
  note up = encrypt_moves_up [OF snd.prems snd.hyps(1,2)]
  from snd.IH [OF up(1)] up(2,3) show ?case by (auto dest: nonce_less_trans)
next
  case (rcv now headroom ad_start buf work co ok w co' tr co'')
  from decrypt_step [OF rcv.prems rcv.hyps(1), of junk] rcv.hyps(2)
  have "chan_inv hmac e1s e1r co'" "send_pos_step co co'" by (auto simp: recv_step_ok_def)
  with rcv.IH send_pos_step_mono [of co co'] show ?case by (auto dest: nonce_less_trans)
qed


definition demo_plain :: buffer where
  "demo_plain = \<lparr>capacity = 5, offset = 0, len = 5, data = Some [72, 101, 108, 108, 111]\<rparr>"

lemma demo_send_ready: "send_ready demo_lib demo_plain demo_work"
  "len demo_plain + 24 + lib_block_size demo_lib \<le> int (buf_room demo_work)" "buf_content demo_work = []"
  "buf_content demo_plain = [72, 101, 108, 108, 111]"
proof -
  have "lib_block_size demo_lib = 16" by (simp add: demo_lib_def)
  then show "send_ready demo_lib demo_plain demo_work"
    "len demo_plain + 24 + lib_block_size demo_lib \<le> int (buf_room demo_work)" "buf_content demo_work = []"
    "buf_content demo_plain = [72, 101, 108, 108, 111]"
    by (simp_all add: send_ready_def demo_lib_ok buf_live_def buf_wf_def demo_plain_def demo_work_def BUF_SIZE_MAX_def
        buf_room_def buf_content_def slice_def)
qed

lemma demo_encrypt:
  "\<exists>w co'. openvpn_encrypt_aead (\<lambda>_. 0) demo_hmac demo_lib 1000 demo_plain demo_work demo_state = Some (w, co') \<and> len w \<noteq> 0"
proof -
  from epoch_check_send_iterate_step [OF demo_state_chan, of "\<lambda>_. 0"] obtain co1 where
    co1: "epoch_check_send_iterate (\<lambda>_. 0) demo_hmac demo_state = Some co1" "chan_inv demo_hmac demo_ek demo_ek co1"
      "send_pos_step demo_state co1" by blast
  have i: "send_id (pid_send (co_packet_id co1)) \<noteq> PACKET_ID_EPOCH_MAX"
    using co1(3) demo_state_inv(5) by (auto simp: send_pos_step_def PACKET_ID_EPOCH_MAX_def)
  from chan_inv_facts [OF co1(2)] obtain key where key: "kc_cipher (co_encrypt co1) = Some key" by blast
  from encrypt_emit_packet [OF co1(1) demo_state_chan co1(2) demo_send_ready(1) refl i key refl demo_send_ready(2), of 1000]
  obtain w co' x y where w: "openvpn_encrypt_aead (\<lambda>_. 0) demo_hmac demo_lib 1000 demo_plain demo_work demo_state = Some (w, co')"
    "buf_live w" "buf_content w = buf_content demo_work @ be64 x @ y" by blast
  have "be64 x \<noteq> []" by (rule length_greater_0_conv [THEN iffD1]) simp
  with w length_buf_content [of w] show ?thesis by (auto simp: buf_live_def)
qed


section \<open>Round trip\<close>

text \<open>An id above everything its replay state has seen.\<close>

definition epoch_fresh :: "crypto_options \<Rightarrow> u16 \<Rightarrow> u64 \<Rightarrow> bool" where
  "epoch_fresh co e i \<longleftrightarrow>
     (if e = kc_epoch (co_decrypt co) then rec_time (pid_rec (co_packet_id co)) = 0 \<and> rec_id (pid_rec (co_packet_id co)) < i
      else if e = kc_epoch (co_retiring_key co)
      then rec_time (co_retiring_pid_recv co) = 0 \<and> rec_id (co_retiring_pid_recv co) < i
      else 0 < i)"

lemma replay_check_fresh:
  assumes "pid_epoch_wf p" "rec_time p = net_time k" "rec_id p < net_id k" "1 < now"
  shows "\<exists>p'. replay_check now p k = Some (True, p')"
proof -
  have wf: "pid_window_wf p" using assms(1) by (simp add: pid_epoch_wf_def)
  from packet_id_reap_test_window [OF wf, of now] obtain p1 where
    p1: "packet_id_reap_test now p = Some p1" "pid_window_wf p1" by blast
  have "rec_time p1 = rec_time p" "rec_id p1 = rec_id p"
    using p1(1) by (auto simp: packet_id_reap_test_def packet_id_reap_def Let_def bind_eq_Some_conv split: if_splits)
  then have nk: "\<not> pid_known p1 k" "net_id k \<noteq> 0" using assms(2,3) by (auto simp: pid_known_def)
  from replay_check_window [OF wf assms(4), of k] obtain r p' where rp: "replay_check now p k = Some (r, p')" by blast
  from packet_id_test_window [OF pid_window_wf_shape [OF p1(2)], of k] nk p1(1) rp have r
    by (auto simp: replay_check_def bind_eq_Some_conv split: if_splits)
  with rp show ?thesis by auto
qed

lemma crypto_check_replay_fresh:
  assumes env: "epoch_env hmac e1s e1r" and inv: "epoch_inv hmac e1s e1r co" and now: "1 < now"
    and look: "epoch_lookup_decrypt_key co e = Some (Some ctx)" and fresh: "epoch_fresh co e i"
  shows "\<exists>co'. crypto_check_replay junk hmac now co \<lparr>net_id = i, net_time = 0\<rparr> e = Some (True, co')"
proof -
  let ?k = "\<lparr>net_id = i, net_time = 0\<rparr> :: packet_id_net"
  have cur: "\<exists>co''. crypto_check_replay junk hmac now c ?k e = Some (True, co'')"
    if "epoch_inv hmac e1s e1r c" "e = kc_epoch (co_decrypt c)" "rec_time (pid_rec (co_packet_id c)) = 0"
      "rec_id (pid_rec (co_packet_id c)) < i" for c
    using replay_check_fresh [of "pid_rec (co_packet_id c)" ?k now] that now
    by (auto simp: epoch_inv_def Let_def crypto_check_replay_def)
  show ?thesis
  proof (rule epoch_lookup_cases [OF env inv, of e], goal_cases)
    case 1
    with cur [OF inv] fresh show ?case by (simp add: epoch_fresh_def)
  next
    case 2
    then have "pid_epoch_wf (co_retiring_pid_recv co)" using inv by (auto simp: epoch_inv_def Let_def unat_gt_0)
    with replay_check_fresh [of "co_retiring_pid_recv co" ?k now] 2 fresh now show ?case
      by (auto simp: epoch_fresh_def crypto_check_replay_def Let_def)
  next
    case 3
    let ?j = "unat e - (unat (kc_epoch (co_decrypt co)) + 1)"
    from epoch_replace_total [OF env inv 3(1,2), of junk] 3(3) obtain fr where f:
      "epoch_replace_update_recv_key junk hmac co e = Some (recv_at hmac e1r ?j fr (send_at hmac e1s e co))"
      "rec_id fr = 0" "rec_time fr = 0" "epoch_inv hmac e1s e1r (recv_at hmac e1r ?j fr (send_at hmac e1s e co))"
      "kc_epoch (co_future co ! ?j) = e" by (metis less_imp_le)
    define co1 where "co1 = recv_at hmac e1r ?j fr (send_at hmac e1s e co)"
    note f = f [folded co1_def]
    have c1: "e = kc_epoch (co_decrypt co1)" "pid_rec (co_packet_id co1) = fr" using f(5) by (simp_all add: co1_def recv_at_def)
    from inv 3(1) have ne: "e \<noteq> 0" "kc_epoch (co_decrypt co) \<noteq> e" "e \<noteq> kc_epoch (co_retiring_key co)"
      by (auto elim!: epoch_invE simp: word_less_nat_alt)
    with cur [OF f(4) c1(1)] fresh f(2,3) c1(2) crypto_check_replay_moves [OF ne f(1) c1(1) [symmetric]]
    show ?case by (simp add: epoch_fresh_def)
  next
    case 4
    with look show ?case by simp
  qed
qed

text \<open>Reading the header of a packet the peer sealed.\<close>

lemma pkt_ident_epoch_pid:
  assumes "buf_content rb = be64 (epoch_pid e i) @ rest" "i \<le> PACKET_ID_EPOCH_MAX"
  shows "pkt_ident rb = (e, \<lparr>net_id = i, net_time = 0\<rparr>)"
  using assms epoch_id_split [OF assms(2), of e] by (simp add: pkt_ident_def epoch_pid_def Let_def)

lemma advanced_header:
  assumes "buf_live pkt" "buf_content pkt = hdr @ rest" "buf_advance pkt (int (length hdr)) = (True, rb)"
  shows "buf_live rb" "data rb = data pkt" "offset rb = offset pkt + int (length hdr)"
    "len rb = len pkt - int (length hdr)" "buf_content rb = rest"
    "n \<le> length rest \<Longrightarrow> take (length hdr + n) (drop (nat (offset pkt)) (the (data pkt))) = hdr @ take n rest"
proof -
  have wf: "buf_wf pkt" "data pkt \<noteq> None" using assms(1) by (simp_all add: buf_live_def)
  have l: "int (length hdr) \<le> len pkt" "len pkt = int (length hdr + length rest)"
    using length_buf_content [OF wf(1)] assms(2) by auto
  from buf_advance_spec [OF wf(1) _ l(1) wf(2)] assms(2,3)
  show "buf_live rb" "offset rb = offset pkt + int (length hdr)"
    "len rb = len pkt - int (length hdr)" "buf_content rb = rest"
    using assms(3) wf(2) by (auto simp: buf_live_def buf_advance_def split: if_splits)
  show "data rb = data pkt" using assms(3) by (auto simp: buf_advance_def split: if_splits)
  have c: "take (length hdr + length rest) (drop (nat (offset pkt)) (the (data pkt))) = hdr @ rest"
    using assms(2) wf(2) l(2) by (auto simp: buf_content_def slice_def nat_int_add)
  show "take (length hdr + n) (drop (nat (offset pkt)) (the (data pkt))) = hdr @ take n rest" if "n \<le> length rest"
  proof -
    have "take (length hdr + n) (drop (nat (offset pkt)) (the (data pkt)))
        = take (length hdr + n) (take (length hdr + length rest) (drop (nat (offset pkt)) (the (data pkt))))"
      using that by (simp add: min_def)
    also have "\<dots> = hdr @ take n rest" unfolding c by simp
    finally show ?thesis .
  qed
qed

text \<open>The decryption of a packet sealed under the key its receiver looks up for it.\<close>

lemma decrypt_sealed:
  assumes chan: "chan_inv hmac eb ea b" and ready: "recv_ready lib now headroom (offset pkt) rb work"
    and inverse: "aead_inverse lib" and pkt: "buf_live pkt" "buf_advance pkt (int (length hdr)) = (True, rb)"
    and content: "buf_content pkt = hdr @ be64 (epoch_pid e i) @ out1 @ out2 @ tag"
    and seal: "lib_seal lib key (aead_iv lib (be64 (epoch_pid e i) @ replicate 8 0) k) (hdr @ be64 (epoch_pid e i)) plain
                 = (out1, out2, tag)" "plain \<noteq> []"
    and look: "epoch_lookup_decrypt_key b e = Some (Some ctx)" "same_key ctx k" "kc_cipher k = Some key"
      "\<not> cipher_decrypt_verify_fail_exceeded ctx" "e \<noteq> 0"
    and fresh: "epoch_fresh b e i" "i \<le> PACKET_ID_EPOCH_MAX"
    and room: "len rb + lib_block_size lib \<le> capacity work - headroom"
  shows "\<exists>w b'. openvpn_decrypt_aead junk hmac lib now headroom (offset pkt) rb work b = Some (True, w, b')
     \<and> buf_live w \<and> buf_content w = plain"
proof -
  note r = ready [unfolded recv_ready_def]
  let ?x = "epoch_pid e i"
  note adv = advanced_header [OF pkt(1) content pkt(2)]
  have al: "aead_lengths lib" using r by blast
  with seal(1) have ln: "length (out1 @ out2) = length plain" "length tag = 16" unfolding aead_lengths_def by blast+
  have lrb: "len rb = int (24 + length plain)" using length_buf_content [of rb] adv(1,5) ln by (auto simp: buf_live_def)
  have long: "25 \<le> len rb" using lrb seal(2) by (cases plain) auto
  have id: "pkt_ident rb = (e, \<lparr>net_id = i, net_time = 0\<rparr>)" by (rule pkt_ident_epoch_pid [OF adv(5) fresh(2)])
  have env: "epoch_env hmac eb ea" "epoch_inv hmac eb ea b" "co_epoch_data_format b"
    using chan by (simp_all add: chan_inv_def)
  from aead_read_pid_epoch [OF env adv(1)] long id look(1,4,5) obtain rb' where
    rb': "aead_read_pid b rb = Some (Some (e, \<lparr>net_id = i, net_time = 0\<rparr>, ctx, rb'))" "buf_live rb'" "data rb' = data rb"
      "buf_content rb' = drop 8 (buf_content rb)" "offset rb' = offset rb + 8" "len rb' = len rb - 8" by auto
  have key: "kc_cipher ctx = Some key" using look(2,3) by (simp add: same_key_def)
  have iv: "aead_iv lib y ctx = aead_iv lib y k" for y using look(2) by (simp add: same_key_def aead_iv_def)
  have c': "buf_content rb' = (out1 @ out2) @ tag" using rb'(4) adv(5) by simp
  have ad: "take (nat (offset rb + 8 - offset pkt)) (drop (nat (offset pkt)) (the (data rb))) = hdr @ be64 ?x"
    using adv(6) [of 8] by (simp add: adv(2,3) nat_add_distrib)
  from inverse seal(1) obtain p1 p2 where
    opn: "lib_open lib key (aead_iv lib (be64 ?x @ replicate 8 0) k) (hdr @ be64 ?x) (out1 @ out2) tag = Some (p1, Some p2)"
      "p1 @ p2 = plain" unfolding aead_inverse_def by blast
  from decrypt_after_header [OF chan ready long rb' key, of junk] obtain w where
    w: "buf_live w" "buf_content w = []" "len w = 0" "offset w = headroom" "capacity w = capacity work" and
    dec: "openvpn_decrypt_aead junk hmac lib now headroom (offset pkt) rb work b
      = (if \<not> buf_safe w (len rb' + lib_block_size lib) then Some (False, rb'\<lparr>len := 0\<rparr>, b)
         else aead_finish junk hmac now (Some (p1, Some p2)) rb' w b \<lparr>net_id = i, net_time = 0\<rparr> e)"
    using opn(1) c' ad ln(2) adv(5) iv by auto
  have bs: "0 \<le> lib_block_size lib" using al by (simp add: aead_lengths_def)
  have "nat (len rb' + lib_block_size lib) \<le> buf_room w"
    using room rb'(6) w(3-5) by (simp add: buf_room_def)
  with buf_safe_room [OF w(1), of "nat (len rb' + lib_block_size lib)"] bs long rb'(6)
  have safe: "buf_safe w (len rb' + lib_block_size lib)" by simp
  have "length p1 + length p2 = length plain" using opn(2) by auto
  then have "length p1 + length p2 \<le> buf_room w"
    using room rb'(6) w(3-5) lrb bs by (simp add: buf_room_def)
  from decrypt_outputs [OF w(1-3) this] obtain w1 w2 where
    o: "put_output w (offset w) p1 = Some w1" "buf_bptr w1 = Some (offset w)"
      "put_output w1 (offset w + int (length p1)) p2 = Some w2" "buf_live w2" "buf_content w2 = p1 @ p2" by blast
  have "buf_bptr w = Some (offset w)" using w by (auto simp: buf_bptr_def buf_live_def buf_wf_valid)
  with dec safe o crypto_check_replay_fresh [OF env(1,2) _ look(1) fresh(1), of now junk] r opn(2) show ?thesis
    by (auto simp: aead_finish_def)
qed

text \<open>The round trip of one packet, with the buffer it ends in.\<close>

lemma aead_roundtrip:
  assumes "chan_inv hmac ea eb a" "chan_inv hmac eb ea b" "co_epoch_key_type a = co_epoch_key_type b"
    and "send_ready lib buf work" "len buf + 24 + lib_block_size lib \<le> int (buf_room work)" "0 < len buf"
    and "openvpn_encrypt_aead junk hmac lib now buf work a = Some (w, a')" "len w \<noteq> 0"
    and "buf_live pkt" "buf_content pkt = buf_content w" "buf_advance pkt (len work) = (True, rb)"
    and "recv_ready lib now' headroom (offset pkt) rb work'" "aead_inverse lib"
    and "len rb + lib_block_size lib \<le> capacity work' - headroom"
    and "epoch_lookup_decrypt_key b (fst (send_pos a')) = Some (Some ctx)"
      "\<not> cipher_decrypt_verify_fail_exceeded ctx" "epoch_fresh b (fst (send_pos a')) (snd (send_pos a'))"
  shows "\<exists>plain b'. openvpn_decrypt_aead junk' hmac lib now' headroom (offset pkt) rb work' b = Some (True, plain, b')
     \<and> buf_live plain \<and> buf_content plain = buf_content buf"
proof -
  from epoch_check_send_iterate_step [OF assms(1), of junk] obtain a1 where
    a1: "epoch_check_send_iterate junk hmac a = Some a1" "chan_inv hmac ea eb a1" "co_epoch_key_type a1 = co_epoch_key_type a" by blast
  from chan_inv_facts [OF a1(2)] obtain key where key: "kc_cipher (co_encrypt a1) = Some key" by blast
  let ?i = "send_id (pid_send (co_packet_id a1))" and ?e = "kc_epoch (co_encrypt a1)"
  have i: "?i \<noteq> PACKET_ID_EPOCH_MAX"
    using encrypt_rollover [OF a1(1) assms(1) a1(2) assms(4), of now] assms(7,8) by auto
  let ?x = "epoch_pid ?e (?i + 1)"
  from encrypt_emit_packet [OF a1(1) assms(1) a1(2) assms(4) refl i key refl assms(5), of now] assms(7)
  obtain out1 out2 tag where
    seal: "lib_seal lib key (aead_iv lib (be64 ?x @ replicate 8 0) (co_encrypt a1))
        (buf_content work @ be64 ?x) (buf_content buf) = (out1, out2, tag)"
    and out: "buf_content w = buf_content work @ be64 ?x @ out1 @ out2 @ tag"
    and pos: "send_pos a' = (?e, ?i + 1)" by (auto simp: send_pos_def)
  have lt: "?i < PACKET_ID_EPOCH_MAX" using i a1(2) by (simp add: chan_inv_def order_less_le)
  have env: "epoch_env hmac eb ea" "epoch_inv hmac eb ea b" "epoch_inv hmac ea eb a1"
    using assms(2) a1(2) by (simp_all add: chan_inv_def)
  then have e0: "?e \<noteq> 0" by (auto elim!: epoch_invE)
  have "same_key (co_encrypt a1) (data_ctx hmac (co_epoch_key_type a1) (ek_at hmac ea (unat ?e)))"
    using env(3) by (simp add: epoch_inv_def Let_def)
  with epoch_lookup_key [OF env(1,2), of ?e ctx] assms(3,15) pos a1(3) have sk: "same_key ctx (co_encrypt a1)"
    by (simp add: same_key_def)
  have lw: "int (length (buf_content work)) = len work" "buf_content buf \<noteq> []"
    using assms(4,6) length_buf_content [of work] length_buf_content [of buf] by (auto simp: send_ready_def buf_live_def)
  have "\<exists>w b'. openvpn_decrypt_aead junk' hmac lib now' headroom (offset pkt) rb work' b = Some (True, w, b')
      \<and> buf_live w \<and> buf_content w = buf_content buf"
    by (rule decrypt_sealed [where hdr = "buf_content work" and e = ?e and i = "?i + 1" and k = "co_encrypt a1",
          OF assms(2,12,13,9) _ _ seal lw(2) _ sk key assms(16) e0])
      (use assms(10,11,14,15,17) out lw pos word_inc_le [OF lt] in simp_all)
  then show ?thesis by blast
qed

lemma aead_encrypt_total:
  assumes "chan_inv hmac ea eb a" "send_ready lib buf work" "len buf + 24 + lib_block_size lib \<le> int (buf_room work)"
  shows "\<exists>w a'. openvpn_encrypt_aead junk hmac lib now buf work a = Some (w, a')
     \<and> (w = buf\<lparr>len := 0\<rparr> \<or> buf_live w \<and> (\<exists>rest. rest \<noteq> [] \<and> buf_content w = buf_content work @ rest))"
proof -
  from epoch_check_send_iterate_step [OF assms(1), of junk] obtain a1 where
    a1: "epoch_check_send_iterate junk hmac a = Some a1" "chan_inv hmac ea eb a1" by blast
  from chan_inv_facts [OF a1(2)] obtain key where key: "kc_cipher (co_encrypt a1) = Some key" by blast
  show ?thesis
  proof (cases "send_id (pid_send (co_packet_id a1)) = PACKET_ID_EPOCH_MAX")
    case True
    from encrypt_rollover [OF a1(1) assms(1) a1(2) assms(2) True] show ?thesis by auto
  next
    case False
    from encrypt_emit_packet [OF a1(1) assms(1) a1(2) assms(2) refl False key refl assms(3), of now]
    obtain w a' x rest where "openvpn_encrypt_aead junk hmac lib now buf work a = Some (w, a')" "buf_live w"
      "buf_content w = buf_content work @ be64 x @ rest" by blast
    moreover have "be64 x @ rest \<noteq> []" using length_be(3) [of x] by (metis append_is_Nil_conv list.size(3) zero_neq_numeral)
    ultimately show ?thesis by blast
  qed
qed

text \<open>C8: a data packet survives the tunnel. What one peer encrypts (header, epoch and counter,
  ciphertext, tag), the other decrypts to the same plaintext, with the key both derived for
  that epoch, provided its key window covers the epoch, the counter is new to it and its
  buffer is large enough; no assertion fails on either side.\<close>

theorem data_channel_roundtrip:
  assumes "chan_inv hmac ea eb a" "chan_inv hmac eb ea b" "co_epoch_key_type a = co_epoch_key_type b"
    and "send_ready lib buf work" "len buf + 24 + lib_block_size lib \<le> int (buf_room work)" "0 < len buf"
    and "openvpn_encrypt_aead junk hmac lib now buf work a = Some (w, a')" "len w \<noteq> 0"
    and "buf_live pkt" "buf_content pkt = buf_content w" "buf_advance pkt (len work) = (True, rb)"
    and "recv_ready lib now' headroom (offset pkt) rb work'" "aead_inverse lib"
    and "len rb + lib_block_size lib \<le> capacity work' - headroom"
    and "epoch_lookup_decrypt_key b (fst (send_pos a')) = Some (Some ctx)"
      "\<not> cipher_decrypt_verify_fail_exceeded ctx" "epoch_fresh b (fst (send_pos a')) (snd (send_pos a'))"
  shows "\<exists>plain b'. openvpn_decrypt_aead junk' hmac lib now' headroom (offset pkt) rb work' b = Some (True, plain, b')
     \<and> buf_content plain = buf_content buf"
  using aead_roundtrip [OF assms, of junk'] by blast

lemma demo_state_fresh:
  "epoch_check_send_iterate (\<lambda>_. 0) demo_hmac demo_state = Some demo_state"
  "epoch_lookup_decrypt_key demo_state 1 = Some (Some (co_decrypt demo_state))"
  "\<not> cipher_decrypt_verify_fail_exceeded (co_decrypt demo_state)" "epoch_fresh demo_state 1 1"
proof -
  from epoch_init_total [OF demo_epoch_env demo_co_ok(1) _ _ demo_co_ok(2-4), of 4 "\<lambda>_. 0"]
  have st: "co_aead_usage_limit demo_state = cipher_get_aead_limits demo_kt"
    "co_encrypt demo_state = data_ctx demo_hmac demo_kt demo_ek" "co_decrypt demo_state = data_ctx demo_hmac demo_kt demo_ek"
    "pid_rec (co_packet_id demo_state) = demo_rec"
    by (auto simp: demo_state_def demo_co_def)
  have r0: "rec_id demo_rec = 0" "rec_time demo_rec = 0"
    using packet_id_init_recv_window [of 64 15 "''demo''" 0] by (auto simp: demo_rec_def)
  have "ek_epoch (co_epoch_key_send demo_state) = 1"
    using demo_state_inv(1,2) by (simp add: epoch_inv_def Let_def demo_ek_def ek_at_def)
  then show "epoch_check_send_iterate (\<lambda>_. 0) demo_hmac demo_state = Some demo_state"
    using st demo_state_inv(5) r0
    by (simp add: epoch_check_send_iterate_def aead_usage_limit_reached_def data_ctx_def key_ctx_zero_def
        cipher_decrypt_verify_fail_warn_def PACKET_ID_EPOCH_MAX_def UINT16_MAX_def)
  show "epoch_lookup_decrypt_key demo_state 1 = Some (Some (co_decrypt demo_state))"
    by (simp add: epoch_lookup_decrypt_key_def demo_state_inv(3))
  show "\<not> cipher_decrypt_verify_fail_exceeded (co_decrypt demo_state)"
    using st by (simp add: cipher_decrypt_verify_fail_exceeded_def data_ctx_def key_ctx_zero_def)
  show "epoch_fresh demo_state 1 1" using st r0 by (simp add: epoch_fresh_def demo_ek_def)
qed

theorem data_channel_roundtrip_witness:
  "\<exists>w a' plain b'. openvpn_encrypt_aead (\<lambda>_. 0) demo_hmac demo_lib 1000 demo_plain demo_work demo_state = Some (w, a')
     \<and> openvpn_decrypt_aead (\<lambda>_. 0) demo_hmac demo_lib 1001 8 (offset w) w demo_work demo_state = Some (True, plain, b')
     \<and> buf_content plain = [72, 101, 108, 108, 111]"
proof -
  from chan_inv_facts [OF demo_state_chan] obtain key where key: "kc_cipher (co_encrypt demo_state) = Some key" by blast
  from encrypt_emit_packet [OF demo_state_fresh(1) demo_state_chan demo_state_chan demo_send_ready(1) demo_state_inv(5)
      _ key demo_state_inv(2) demo_send_ready(2), of 1000]
  obtain w a' x iv out1 out2 tag where w: "openvpn_encrypt_aead (\<lambda>_. 0) demo_hmac demo_lib 1000 demo_plain demo_work demo_state = Some (w, a')"
    "send_pos a' = (1, 1)" "buf_live w" "lib_seal demo_lib key iv (buf_content demo_work @ be64 x) (buf_content demo_plain) = (out1, out2, tag)"
    "buf_content w = buf_content demo_work @ be64 x @ out1 @ out2 @ tag"
    by (auto simp: PACKET_ID_EPOCH_MAX_def send_pos_def)
  have "length (out1 @ out2) = 5" "length tag = 16"
    using w(4) demo_lib_ok(1) demo_send_ready(4) unfolding aead_lengths_def by fastforce+
  then have lw: "len w = 29" using w(3,5) length_buf_content [of w] by (simp add: demo_send_ready(3) buf_live_def)
  note pos = w(2)
  have off: "0 \<le> offset w" using w(3) by (auto simp: buf_live_def buf_wf_def split: option.splits)
  have adv: "buf_advance w (len demo_work) = (True, w)"
    using w(3) lw by (simp add: buf_advance_def buf_live_def buf_wf_valid demo_work_def)
  have rr: "recv_ready demo_lib 1001 8 (offset w) w demo_work"
    using w(3) lw off demo_send_ready(1) by (simp add: recv_ready_def send_ready_def demo_work_def)
  have "\<exists>plain b'. openvpn_decrypt_aead (\<lambda>_. 0) demo_hmac demo_lib 1001 8 (offset w) w demo_work demo_state
      = Some (True, plain, b') \<and> buf_content plain = buf_content demo_plain"
    by (rule data_channel_roundtrip [OF demo_state_chan demo_state_chan refl demo_send_ready(1,2) _ w(1) _ w(3) refl adv rr
          demo_lib_ok(2) _ _ demo_state_fresh(3)])
      (simp_all add: pos demo_state_fresh lw demo_plain_def demo_work_def demo_lib_def)
  with w(1) demo_send_ready(4) show ?thesis by auto
qed

text \<open>Under one key, different packet counters give different nonces.\<close>

theorem aead_nonce_injective:
  assumes "12 \<le> lib_iv_len lib" "lib_iv_len lib \<le> 16" "length (kc_implicit_iv ctx) = 16"
    and "i \<le> PACKET_ID_EPOCH_MAX" "j \<le> PACKET_ID_EPOCH_MAX"
    and "i \<noteq> j"
  shows "aead_iv lib (be64 (epoch_pid e i) @ replicate 8 0) ctx \<noteq> aead_iv lib (be64 (epoch_pid e j) @ replicate 8 0) ctx"
proof
  assume eq: "aead_iv lib (be64 (epoch_pid e i) @ replicate 8 0) ctx = aead_iv lib (be64 (epoch_pid e j) @ replicate 8 0) ctx"
  have nth: "aead_iv lib (be64 x @ replicate 8 0) ctx ! n = (be64 x ! n) XOR (kc_implicit_iv ctx ! n)" if "n < 8" for x n
    using that assms(1-3) by (simp add: aead_iv_def nth_append)
  have "be64 (epoch_pid e i) ! n = be64 (epoch_pid e j) ! n" if "n < 8" for n
  proof -
    have "(be64 (epoch_pid e i) ! n) XOR (kc_implicit_iv ctx ! n) = (be64 (epoch_pid e j) ! n) XOR (kc_implicit_iv ctx ! n)"
      using eq nth [OF that] by metis
    then have "((be64 (epoch_pid e i) ! n) XOR (kc_implicit_iv ctx ! n)) XOR (kc_implicit_iv ctx ! n)
        = ((be64 (epoch_pid e j) ! n) XOR (kc_implicit_iv ctx ! n)) XOR (kc_implicit_iv ctx ! n)" by simp
    then show ?thesis by (simp add: xor.assoc)
  qed
  then have "be64 (epoch_pid e i) = be64 (epoch_pid e j)" by (intro nth_equalityI) auto
  then have "epoch_pid e i = epoch_pid e j" by (metis rd64_be64)
  then show False using epoch_id_split(2) [OF assms(4), of e] epoch_id_split(2) [OF assms(5), of e] assms(6)
    by (simp add: epoch_pid_def)
qed

end
