(* ===== verification/Crypto_V1.thy ===== *)
theory Crypto_V1
  imports Data_Channel
begin

text \<open>
  Packet protection without AEAD, and key pairs: \<^verbatim>\<open>openvpn_encrypt_v1\<close>, \<^verbatim>\<open>openvpn_decrypt_v1\<close>, the dispatchers
  \<^verbatim>\<open>openvpn_encrypt\<close> and \<^verbatim>\<open>openvpn_decrypt\<close> and the set-up of key contexts from \<^verbatim>\<open>struct key2\<close> in
  \<^verbatim>\<open>openvpn/src/openvpn/crypto.c\<close>. The control channel uses this code without a cipher to
  authenticate packets (\<^verbatim>\<open>--tls-auth\<close>); with a CBC, OFB or CFB cipher it is the older data channel.

  The ciphers and HMACs of the crypto library are the argument \<open>lib\<close>.
\<close>

section \<open>Key pairs\<close>

definition MAX_CIPHER_KEY_LENGTH :: nat where "MAX_CIPHER_KEY_LENGTH = 64"

record key =
  k_cipher :: bytes
  k_hmac :: bytes

record key2 =
  k2_n :: int
  k2_keys :: "key list"

datatype key_direction = KEY_DIRECTION_BIDIRECTIONAL | KEY_DIRECTION_NORMAL | KEY_DIRECTION_INVERSE

record key_direction_state =
  kds_out_key :: nat
  kds_in_key :: nat
  kds_need_keys :: nat

fun key_direction_state_init :: "key_direction \<Rightarrow> key_direction_state" where
  "key_direction_state_init KEY_DIRECTION_NORMAL = \<lparr>kds_out_key = 0, kds_in_key = 1, kds_need_keys = 2\<rparr>"
| "key_direction_state_init KEY_DIRECTION_INVERSE = \<lparr>kds_out_key = 1, kds_in_key = 0, kds_need_keys = 2\<rparr>"
| "key_direction_state_init KEY_DIRECTION_BIDIRECTIONAL = \<lparr>kds_out_key = 0, kds_in_key = 0, kds_need_keys = 1\<rparr>"

definition key_parameters_from_key :: "key \<Rightarrow> key_parameters" where
  "key_parameters_from_key k =
     \<lparr>kp_cipher = k_cipher k, kp_cipher_size = MAX_CIPHER_KEY_LENGTH, kp_hmac = k_hmac k,
      kp_hmac_size = MAX_HMAC_KEY_LENGTH, kp_epoch = 0\<rparr>"

text \<open>The key contexts of \<^verbatim>\<open>struct key_ctx_bi\<close> are the fields \<open>co_encrypt\<close>, \<open>co_decrypt\<close> and \<open>co_initialized\<close>.\<close>

definition init_key_ctx_bi :: "crypto_options \<Rightarrow> key2 \<Rightarrow> key_direction \<Rightarrow> key_type \<Rightarrow> crypto_options option" where
  "init_key_ctx_bi co key2 key_direction kt = do {
     let kds = key_direction_state_init key_direction;
     c_assert (kds_out_key kds < length (k2_keys key2) \<and> kds_in_key kds < length (k2_keys key2));
     e \<leftarrow> init_key_bi_ctx_send (key_parameters_from_key (k2_keys key2 ! kds_out_key kds)) kt;
     d \<leftarrow> init_key_bi_ctx_recv (key_parameters_from_key (k2_keys key2 ! kds_in_key kds)) kt;
     Some (co\<lparr>co_encrypt := e, co_decrypt := d, co_initialized := True\<rparr>)
   }"

definition free_key_ctx_bi :: "crypto_options \<Rightarrow> crypto_options" where
  "free_key_ctx_bi co = co\<lparr>co_encrypt := free_key_ctx (co_encrypt co), co_decrypt := free_key_ctx (co_decrypt co),
     co_initialized := False\<rparr>"

definition key_is_zero :: "key \<Rightarrow> key_type \<Rightarrow> bool" where
  "key_is_zero k kt \<longleftrightarrow> (\<forall>b \<in> set (take (kt_key_size kt) (k_cipher k)). b = 0)"

definition check_key :: "key \<Rightarrow> key_type \<Rightarrow> bool" where
  "check_key k kt \<longleftrightarrow> (kt_cipher kt \<longrightarrow> \<not> key_is_zero k kt)"

section \<open>Encryption\<close>

datatype cipher_mode = MODE_CBC | MODE_OFB_CFB | MODE_AEAD | MODE_OTHER

text \<open>
  \<open>cl_seal key iv chunks\<close> are the outputs of the calls of \<^verbatim>\<open>cipher_ctx_update\<close> on the given chunks and of
  \<^verbatim>\<open>cipher_ctx_final\<close> of an encrypting context; \<open>cl_open key iv ciphertext\<close> is \<open>None\<close> when resetting or updating a decrypting
  context fails, otherwise the output of the update and, unless it fails, of the final call.
\<close>

record cipher_lib =
  cl_mode :: cipher_mode
  cl_aead :: aead_lib
  cl_iv_len :: nat
  cl_block_size :: int
  cl_seal :: "bytes \<Rightarrow> bytes \<Rightarrow> bytes list \<Rightarrow> bytes list \<times> bytes"
  cl_open :: "bytes \<Rightarrow> bytes \<Rightarrow> bytes \<Rightarrow> (bytes \<times> bytes option) option"
  cl_hmac :: hmac_fun
  cl_hmac_size :: nat

definition set_pid_send :: "packet_id_send \<Rightarrow> crypto_options \<Rightarrow> crypto_options" where
  "set_pid_send p opt = opt\<lparr>co_packet_id := (co_packet_id opt)\<lparr>pid_send := p\<rparr>\<rparr>"

text \<open>Prepending the packet id to the payload, when packet ids are in use.\<close>

definition prepend_packet_id :: "int \<Rightarrow> buffer \<Rightarrow> crypto_options \<Rightarrow> (bool \<times> buffer \<times> crypto_options) option" where
  "prepend_packet_id now buf opt =
     (if packet_id_initialized (co_packet_id opt) then do {
        (ok, p, buf) \<leftarrow> packet_id_write now (pid_send (co_packet_id opt)) buf (co_packet_id_long_form opt) True;
        Some (ok, buf, set_pid_send p opt) }
      else Some (True, buf, opt))"

text \<open>
  The IV by cipher mode (\<open>rnd\<close> are the bytes of \<^verbatim>\<open>prng_bytes\<close>), then
  the two branches of \<^verbatim>\<open>openvpn_encrypt_v1\<close> up to the HMAC: \<open>Inl\<close> is the exit \<^verbatim>\<open>goto err\<close>, \<open>Inr\<close> the work
  buffer with the positions \<^verbatim>\<open>hmac_start\<close> and \<^verbatim>\<open>mac_out\<close>.
\<close>

definition v1_packet_iv ::
    "cipher_lib \<Rightarrow> (nat \<Rightarrow> u8) \<Rightarrow> int \<Rightarrow> buffer \<Rightarrow> crypto_options \<Rightarrow> (bytes \<times> bool \<times> buffer \<times> crypto_options) option" where
  "v1_packet_iv lib rnd now buf opt =
     (case cl_mode lib of
       MODE_CBC \<Rightarrow> do {
         iv \<leftarrow> mem_write (replicate OPENVPN_MAX_IV_LENGTH 0) 0 (map rnd [0..<cl_iv_len lib]);
         (ok, buf, opt) \<leftarrow> prepend_packet_id now buf opt;
         Some (iv, ok, buf, opt) }
     | MODE_OFB_CFB \<Rightarrow> do {
         c_assert (packet_id_initialized (co_packet_id opt));
         b \<leftarrow> buf_set_write clear_buf (Some (replicate OPENVPN_MAX_IV_LENGTH 0)) (int (cl_iv_len lib));
         (ok, p, b) \<leftarrow> packet_id_write now (pid_send (co_packet_id opt)) b True False;
         c_assert ok;
         iv \<leftarrow> data b;
         Some (iv, True, buf, set_pid_send p opt) }
     | _ \<Rightarrow> None)"

definition encrypt_v1_cipher ::
    "cipher_lib \<Rightarrow> (nat \<Rightarrow> u8) \<Rightarrow> int \<Rightarrow> bytes \<Rightarrow> buffer \<Rightarrow> buffer \<Rightarrow> crypto_options
       \<Rightarrow> (buffer \<times> crypto_options + buffer \<times> crypto_options \<times> int option \<times> int option) option" where
  "encrypt_v1_cipher lib rnd now key buf work opt = do {
     let auth = (kc_hmac (co_encrypt opt) \<noteq> None);
     let (mac_out, work) = (if auth then buf_write_alloc work (int (cl_hmac_size lib)) else (None, work));
     c_assert (auth \<longrightarrow> mac_out \<noteq> None);
     let hmac_start = (if auth then buf_bend work else None);
     (iv_buf, ok, buf, opt) \<leftarrow> v1_packet_iv lib rnd now buf opt;
     (if \<not> ok then Some (Inl (buf\<lparr>len := 0\<rparr>, opt))
      else do {
        iv \<leftarrow> mem_read iv_buf 0 (int (cl_iv_len lib));
        (ok, work) \<leftarrow> buf_write work iv;
        c_assert ok;
        (if \<not> buf_safe work (len buf + cl_block_size lib) then Some (Inl (buf\<lparr>len := 0\<rparr>, opt))
         else do {
           plain \<leftarrow> buf_bytes buf;
           let (outs, out2) = cl_seal lib key iv [plain];
           p \<leftarrow> buf_bend work;
           work \<leftarrow> put_output work p (concat outs);
           p \<leftarrow> buf_bend work;
           work \<leftarrow> put_output work p out2;
           c_assert (cl_mode lib \<noteq> MODE_CBC \<or> length out2 = cl_iv_len lib);
           Some (Inr (work, opt, hmac_start, mac_out)) }) })
   }"

definition encrypt_v1_plain ::
    "cipher_lib \<Rightarrow> int \<Rightarrow> buffer \<Rightarrow> buffer \<Rightarrow> crypto_options
       \<Rightarrow> (buffer \<times> crypto_options + buffer \<times> crypto_options \<times> int option \<times> int option) option" where
  "encrypt_v1_plain lib now buf work opt = do {
     (ok, buf, opt) \<leftarrow> prepend_packet_id now buf opt;
     (if \<not> ok then Some (Inl (buf\<lparr>len := 0\<rparr>, opt))
      else do {
        let auth = (kc_hmac (co_encrypt opt) \<noteq> None);
        let hmac_start = (if auth then buf_bptr buf else None);
        let (mac_out, buf) = (if auth then buf_prepend buf (int (cl_hmac_size lib)) else (None, buf));
        c_assert (auth \<longrightarrow> mac_out \<noteq> None);
        buf \<leftarrow> (if buf_len work \<noteq> 0 then do {
                  w \<leftarrow> buf_bytes work;
                  (_, buf) \<leftarrow> buf_write_prepend buf w;
                  Some buf }
                else Some buf);
        Some (Inr (buf, opt, hmac_start, mac_out)) })
   }"

definition openvpn_encrypt_v1 ::
    "cipher_lib \<Rightarrow> (nat \<Rightarrow> u8) \<Rightarrow> int \<Rightarrow> buffer \<Rightarrow> buffer \<Rightarrow> crypto_options \<Rightarrow> (buffer \<times> crypto_options) option" where
  "openvpn_encrypt_v1 lib rnd now buf work opt =
     (if len buf > 0 then do {
        r \<leftarrow> (case kc_cipher (co_encrypt opt) of
               Some key \<Rightarrow> encrypt_v1_cipher lib rnd now key buf work opt
             | None \<Rightarrow> encrypt_v1_plain lib now buf work opt);
        (case r of
           Inl err \<Rightarrow> Some err
         | Inr (work, opt, hmac_start, mac_out) \<Rightarrow> do {
             work \<leftarrow> (case kc_hmac (co_encrypt opt) of
                       None \<Rightarrow> Some work
                     | Some hk \<Rightarrow> do {
                         s \<leftarrow> hmac_start;
                         e \<leftarrow> buf_bend work;
                         m \<leftarrow> data work;
                         msg \<leftarrow> mem_read m s (e - s);
                         o1 \<leftarrow> mac_out;
                         buf_store work o1 (cl_hmac lib hk msg) });
             Some (work, opt) }) }
      else Some (buf, opt))"

text \<open>A missing cipher is not in AEAD mode.\<close>

definition cipher_ctx_mode_aead :: "cipher_lib \<Rightarrow> key_ctx \<Rightarrow> bool" where
  "cipher_ctx_mode_aead lib ctx \<longleftrightarrow> kc_cipher ctx \<noteq> None \<and> cl_mode lib = MODE_AEAD"

definition openvpn_encrypt ::
    "(nat \<Rightarrow> u8) \<Rightarrow> hmac_fun \<Rightarrow> cipher_lib \<Rightarrow> (nat \<Rightarrow> u8) \<Rightarrow> int \<Rightarrow> buffer \<Rightarrow> buffer \<Rightarrow> crypto_options
       \<Rightarrow> (buffer \<times> crypto_options) option" where
  "openvpn_encrypt junk hmac lib rnd now buf work opt =
     (if len buf > 0 then
        if cipher_ctx_mode_aead lib (co_encrypt opt) then openvpn_encrypt_aead junk hmac (cl_aead lib) now buf work opt
        else openvpn_encrypt_v1 lib rnd now buf work opt
      else Some (buf, opt))"

section \<open>Decryption\<close>

text \<open>
  In the pieces below the first component is the remaining input buffer and the inner
  \<open>None\<close> a \<^verbatim>\<open>CRYPT_ERROR\<close>/\<^verbatim>\<open>CRYPT_DROP\<close> exit; \<open>headroom\<close> is \<^verbatim>\<open>frame->buf.headroom\<close>, \<open>None\<close> for a null frame.
\<close>

definition verify_hmac_v1 :: "cipher_lib \<Rightarrow> buffer \<Rightarrow> key_ctx \<Rightarrow> (bool \<times> buffer) option" where
  "verify_hmac_v1 lib buf ctx =
     (case kc_hmac ctx of
        None \<Rightarrow> Some (True, buf)
      | Some hk \<Rightarrow>
          let n = int (cl_hmac_size lib) in
          if len buf < n then Some (False, buf)
          else do {
            bs \<leftarrow> buf_bytes buf;
            (if cl_hmac lib hk (drop (cl_hmac_size lib) bs) \<noteq> take (cl_hmac_size lib) bs then Some (False, buf)
             else do {
               let (ok, buf) = buf_advance buf n;
               c_assert ok;
               Some (True, buf) }) })"

definition decrypt_v1_pid ::
    "cipher_lib \<Rightarrow> bytes \<Rightarrow> buffer \<Rightarrow> crypto_options \<Rightarrow> (buffer \<times> packet_id_net option) option option" where
  "decrypt_v1_pid lib iv_buf work opt =
     (case cl_mode lib of
        MODE_CBC \<Rightarrow>
          if packet_id_initialized (co_packet_id opt) then do {
            (ok, pin, work) \<leftarrow> packet_id_read work (co_packet_id_long_form opt);
            Some (if ok then Some (work, Some pin) else None) }
          else Some (Some (work, None))
      | MODE_OFB_CFB \<Rightarrow> do {
          c_assert (packet_id_initialized (co_packet_id opt));
          b \<leftarrow> buf_set_read clear_buf (Some iv_buf) (int (cl_iv_len lib));
          (ok, pin, b) \<leftarrow> packet_id_read b True;
          Some (if ok then Some (work, Some pin) else None) }
      | _ \<Rightarrow> None)"

definition decrypt_v1_cipher ::
    "cipher_lib \<Rightarrow> int option \<Rightarrow> bytes \<Rightarrow> buffer \<Rightarrow> buffer \<Rightarrow> crypto_options
       \<Rightarrow> (buffer \<times> (buffer \<times> packet_id_net option) option) option" where
  "decrypt_v1_cipher lib headroom key buf work opt = do {
     hr \<leftarrow> headroom;
     let (ok, work) = buf_init_dowork work hr;
     c_assert ok;
     let n = int (cl_iv_len lib);
     (if len buf < n then Some (buf, None)
      else do {
        bs \<leftarrow> buf_bytes buf;
        iv_buf \<leftarrow> mem_write (replicate OPENVPN_MAX_IV_LENGTH 0) 0 (take (cl_iv_len lib) bs);
        let (ok, buf) = buf_advance buf n;
        c_assert ok;
        (if len buf < 1 \<or> \<not> buf_safe work (len buf + cl_block_size lib) then Some (buf, None)
         else do {
           ct \<leftarrow> buf_bytes buf;
           (case cl_open lib key (take (cl_iv_len lib) bs) ct of
              None \<Rightarrow> Some (buf, None)
            | Some (out1, fin) \<Rightarrow> do {
                p \<leftarrow> buf_bptr work;
                work \<leftarrow> put_output work p out1;
                (case fin of
                   None \<Rightarrow> Some (buf, None)
                 | Some out2 \<Rightarrow> do {
                     p \<leftarrow> buf_bptr work;
                     work \<leftarrow> put_output work (p + int (length out1)) out2;
                     r \<leftarrow> decrypt_v1_pid lib iv_buf work opt;
                     Some (buf, r) }) }) }) })
   }"

definition decrypt_v1_plain ::
    "buffer \<Rightarrow> crypto_options \<Rightarrow> (buffer \<times> (buffer \<times> packet_id_net option) option) option" where
  "decrypt_v1_plain buf opt =
     (if packet_id_initialized (co_packet_id opt) then do {
        (ok, pin, work) \<leftarrow> packet_id_read buf (co_packet_id_long_form opt);
        Some (buf, if ok then Some (work, if co_ignore_packet_id opt then None else Some pin) else None) }
      else Some (buf, Some (buf, None)))"

definition openvpn_decrypt_v1 ::
    "(nat \<Rightarrow> u8) \<Rightarrow> hmac_fun \<Rightarrow> cipher_lib \<Rightarrow> int \<Rightarrow> int option \<Rightarrow> buffer \<Rightarrow> buffer \<Rightarrow> crypto_options
       \<Rightarrow> (bool \<times> buffer \<times> crypto_options) option" where
  "openvpn_decrypt_v1 junk hmac lib now headroom buf work opt =
     (if len buf > 0 then do {
        (ok, buf) \<leftarrow> verify_hmac_v1 lib buf (co_decrypt opt);
        (if \<not> ok then Some (False, buf\<lparr>len := 0\<rparr>, opt)
         else do {
           (buf, r) \<leftarrow> (case kc_cipher (co_decrypt opt) of
                         Some key \<Rightarrow> decrypt_v1_cipher lib headroom key buf work opt
                       | None \<Rightarrow> decrypt_v1_plain buf opt);
           (case r of
              None \<Rightarrow> Some (False, buf\<lparr>len := 0\<rparr>, opt)
            | Some (work, None) \<Rightarrow> Some (True, work, opt)
            | Some (work, Some pin) \<Rightarrow> do {
                (ok, opt) \<leftarrow> crypto_check_replay junk hmac now opt pin 0;
                Some (if ok then (True, work, opt) else (False, buf\<lparr>len := 0\<rparr>, opt)) }) }) }
      else Some (True, buf, opt))"

definition openvpn_decrypt ::
    "(nat \<Rightarrow> u8) \<Rightarrow> hmac_fun \<Rightarrow> cipher_lib \<Rightarrow> int \<Rightarrow> int option \<Rightarrow> int \<Rightarrow> buffer \<Rightarrow> buffer \<Rightarrow> crypto_options
       \<Rightarrow> (bool \<times> buffer \<times> crypto_options) option" where
  "openvpn_decrypt junk hmac lib now headroom ad_start buf work opt =
     (if len buf > 0 then
        if cipher_ctx_mode_aead lib (co_decrypt opt) then do {
          hr \<leftarrow> headroom;
          openvpn_decrypt_aead junk hmac (cl_aead lib) now hr ad_start buf work opt }
        else openvpn_decrypt_v1 junk hmac lib now headroom buf work opt
      else Some (True, buf, opt))"

section \<open>What a packet looks like\<close>

text \<open>
  Documented behaviour of the crypto library: HMACs have the size of the digest; one output per
  update; decrypting what a context with the same key and IV has encrypted gives the plaintext back;
  a cipher adds at most one block, and in CBC mode the final call completes one.
\<close>

definition cipher_lib_ok :: "cipher_lib \<Rightarrow> bool" where
  "cipher_lib_ok lib \<longleftrightarrow>
     (\<forall>k m. length (cl_hmac lib k m) = cl_hmac_size lib) \<and> cl_iv_len lib \<le> OPENVPN_MAX_IV_LENGTH \<and> 0 \<le> cl_block_size lib
     \<and> (\<forall>k iv cs outs fin. length iv = cl_iv_len lib \<and> cl_seal lib k iv cs = (outs, fin) \<longrightarrow>
          length outs = length cs \<and> length (concat cs) \<le> length (concat outs @ fin)
          \<and> int (length (concat outs @ fin)) \<le> int (length (concat cs)) + cl_block_size lib
          \<and> (cl_mode lib = MODE_CBC \<longrightarrow> length fin = cl_iv_len lib)
          \<and> (\<exists>o1 o2. cl_open lib k iv (concat outs @ fin) = Some (o1, Some o2) \<and> o1 @ o2 = concat cs))"

definition auth_tag :: "cipher_lib \<Rightarrow> key_ctx \<Rightarrow> bytes \<Rightarrow> bytes" where
  "auth_tag lib ctx body = (case kc_hmac ctx of None \<Rightarrow> [] | Some hk \<Rightarrow> cl_hmac lib hk body)"

definition pid_header :: "packet_id_send \<Rightarrow> bool \<Rightarrow> bytes" where
  "pid_header p lf = be32 (ucast (send_id p)) @ (if lf then be32 (word_of_int (send_time p)) else [])"

lemma length_pid_header [simp]: "length (pid_header p lf) = nat (packet_id_size lf)"
  by (simp add: pid_header_def packet_id_size_def)

lemma co_encrypt_set_pid_send [simp]:
  "co_encrypt (set_pid_send p opt) = co_encrypt opt" "co_decrypt (set_pid_send p opt) = co_decrypt opt"
  "co_packet_id_long_form (set_pid_send p opt) = co_packet_id_long_form opt"
  by (simp_all add: set_pid_send_def)

lemma prepend_packet_id_ok:
  assumes "buf_live buf" "packet_id_initialized (co_packet_id opt)"
    and upd: "packet_id_send_update now (pid_send (co_packet_id opt)) (co_packet_id_long_form opt) = (True, p')"
    and room: "nat (packet_id_size (co_packet_id_long_form opt)) \<le> buf_headroom buf"
  shows "\<exists>b. prepend_packet_id now buf opt = Some (True, b, set_pid_send p' opt) \<and> buf_live b
     \<and> buf_content b = pid_header p' (co_packet_id_long_form opt) @ buf_content buf \<and> buf_room b = buf_room buf
     \<and> buf_headroom b = buf_headroom buf - nat (packet_id_size (co_packet_id_long_form opt))"
proof -
  have "nat (packet_id_size (co_packet_id_long_form opt)) \<le> (if True then buf_headroom buf else buf_room buf)" using room by simp
  from packet_id_write_ok [OF assms(1) upd this] assms(2) show ?thesis
    by (auto simp: prepend_packet_id_def pid_header_def Let_def)
qed

text \<open>Filling in the tag in front of the authenticated body.\<close>

lemma encrypt_v1_tag:
  assumes lib: "cipher_lib_ok lib" and b: "0 < len buf"
    and r: "(case kc_cipher (co_encrypt opt) of Some key \<Rightarrow> encrypt_v1_cipher lib rnd now key buf work opt
             | None \<Rightarrow> encrypt_v1_plain lib now buf work opt) = Some (Inr (w, opt', hs, mo))"
    and same: "co_encrypt opt' = co_encrypt opt"
    and w: "buf_live w" "buf_content w = stale @ body"
      "length stale = (if kc_hmac (co_encrypt opt) = None then 0 else cl_hmac_size lib)"
      "kc_hmac (co_encrypt opt) \<noteq> None \<Longrightarrow> hs = Some (offset w + int (length stale)) \<and> mo = Some (offset w)"
  shows "\<exists>b'. openvpn_encrypt_v1 lib rnd now buf work opt = Some (b', opt') \<and> buf_live b'
     \<and> buf_content b' = auth_tag lib (co_encrypt opt) body @ body"
proof (cases "kc_hmac (co_encrypt opt)")
  case None
  with b r same w show ?thesis by (simp add: openvpn_encrypt_v1_def auth_tag_def)
next
  case (Some hk)
  from w(1) obtain m where m: "data w = Some m" by (rule buf_live_Some)
  have ln: "len w = int (length stale + length body)" using len_buf_content [OF w(1)] w(2) by simp
  have rd: "mem_read m (offset w + int (length stale)) (offset w + len w - (offset w + int (length stale))) = Some body"
    using mem_read_content [OF w(1) m, of "int (length stale)" "len w - int (length stale)"] ln w(2) by simp
  have "length (cl_hmac lib hk body) = length stale" using lib Some w(3) by (simp add: cipher_lib_ok_def)
  from buf_store_inside [OF w(1), of "[]" stale body, OF _ this] w(2) obtain b' where
    b': "buf_store w (offset w) (cl_hmac lib hk body) = Some b'" "buf_live b'" "buf_content b' = cl_hmac lib hk body @ body"
    by auto
  with b r same w(4) Some m rd buf_bend_live [OF w(1)] show ?thesis
    by (simp add: openvpn_encrypt_v1_def auth_tag_def)
qed

lemma encrypt_v1_plain_packet:
  assumes lib: "cipher_lib_ok lib" and b: "buf_live buf" "0 < len buf" and work: "buf_len work = 0"
    and opt: "kc_cipher (co_encrypt opt) = None" "packet_id_initialized (co_packet_id opt)"
    and upd: "packet_id_send_update now (pid_send (co_packet_id opt)) (co_packet_id_long_form opt) = (True, p')"
    and room: "nat (packet_id_size (co_packet_id_long_form opt)) + cl_hmac_size lib \<le> buf_headroom buf"
  defines "body \<equiv> pid_header p' (co_packet_id_long_form opt) @ buf_content buf"
  shows "\<exists>b'. openvpn_encrypt_v1 lib rnd now buf work opt = Some (b', set_pid_send p' opt) \<and> buf_live b'
     \<and> buf_content b' = auth_tag lib (co_encrypt opt) body @ body"
proof -
  from prepend_packet_id_ok [OF b(1) opt(2) upd] room obtain b1 where
    b1: "prepend_packet_id now buf opt = Some (True, b1, set_pid_send p' opt)" "buf_live b1" "buf_content b1 = body"
      "buf_headroom b1 = buf_headroom buf - nat (packet_id_size (co_packet_id_long_form opt))" by (auto simp: body_def)
  show ?thesis
  proof (cases "kc_hmac (co_encrypt opt)")
    case None
    show ?thesis
      by (rule encrypt_v1_tag [OF lib b(2), where w = b1 and hs = None and mo = None and stale = "[]"])
         (use None opt b1 work in \<open>simp_all add: encrypt_v1_plain_def\<close>)
  next
    case (Some hk)
    have "cl_hmac_size lib \<le> buf_headroom b1" using room b1(4) by simp
    from buf_prepend_live [OF b1(2) this] obtain b2 stale where
      b2: "buf_prepend b1 (int (cl_hmac_size lib)) = (Some (offset b1 - int (cl_hmac_size lib)), b2)" "buf_live b2"
        "length stale = cl_hmac_size lib" "buf_content b2 = stale @ buf_content b1" "offset b2 = offset b1 - int (cl_hmac_size lib)"
      by blast
    show ?thesis
      by (rule encrypt_v1_tag [OF lib b(2), where w = b2 and hs = "Some (offset b1)" and mo = "Some (offset b2)" and stale = stale])
         (use Some opt b1 b2 work buf_bptr_live [OF b1(2)] in \<open>simp_all add: encrypt_v1_plain_def\<close>)
  qed
qed

text \<open>With a cipher: the IV, and what is encrypted, by mode.\<close>

definition v1_iv :: "cipher_lib \<Rightarrow> (nat \<Rightarrow> u8) \<Rightarrow> packet_id_send \<Rightarrow> bytes" where
  "v1_iv lib rnd p = (if cl_mode lib = MODE_CBC then map rnd [0..<cl_iv_len lib]
     else take (cl_iv_len lib) (pid_header p True @ replicate 8 0))"

definition v1_plain :: "cipher_lib \<Rightarrow> packet_id_send \<Rightarrow> bool \<Rightarrow> bytes \<Rightarrow> bytes" where
  "v1_plain lib p lf bs = (if cl_mode lib = MODE_CBC then pid_header p lf @ bs else bs)"

definition v1_mode_ok :: "cipher_lib \<Rightarrow> bool" where
  "v1_mode_ok lib \<longleftrightarrow> cl_mode lib = MODE_CBC \<or> cl_mode lib = MODE_OFB_CFB \<and> 8 \<le> cl_iv_len lib"

lemma length_v1_iv: "cl_iv_len lib \<le> 16 \<Longrightarrow> length (v1_iv lib rnd p) = cl_iv_len lib"
  by (simp add: v1_iv_def packet_id_size_def) arith

lemma iv_pid_write:
  assumes "8 \<le> n" "n \<le> 16" "packet_id_send_update now p True = (True, p')"
  shows "\<exists>b b'. buf_set_write clear_buf (Some (replicate OPENVPN_MAX_IV_LENGTH 0)) (int n) = Some b
     \<and> packet_id_write now p b True False = Some (True, p', b') \<and> data b' = Some (pid_header p' True @ replicate 8 0)"
  using assms
  by (auto simp: packet_id_write_def pid_header_def buf_set_write_def buf_size_valid_def BUF_SIZE_MAX_def
      OPENVPN_MAX_IV_LENGTH_def clear_buf_def buf_write_def buf_write_alloc_def buf_safe_def buf_valid_def buf_bptr_def
      buf_store_def mem_write_def Let_def)

lemma encrypt_v1_iv:
  assumes lib: "cl_iv_len lib \<le> 16" "v1_mode_ok lib" and b: "buf_live buf" and init: "packet_id_initialized (co_packet_id opt)"
    and upd: "packet_id_send_update now (pid_send (co_packet_id opt))
        (co_packet_id_long_form opt \<or> cl_mode lib = MODE_OFB_CFB) = (True, p')"
    and head: "nat (packet_id_size (co_packet_id_long_form opt)) \<le> buf_headroom buf"
  shows "\<exists>iv_buf b. v1_packet_iv lib rnd now buf opt = Some (iv_buf, True, b, set_pid_send p' opt)
     \<and> mem_read iv_buf 0 (int (cl_iv_len lib)) = Some (v1_iv lib rnd p') \<and> buf_live b
     \<and> buf_content b = v1_plain lib p' (co_packet_id_long_form opt) (buf_content buf)"
proof (cases "cl_mode lib = MODE_CBC")
  case True
  with upd have "packet_id_send_update now (pid_send (co_packet_id opt)) (co_packet_id_long_form opt) = (True, p')" by simp
  from prepend_packet_id_ok [OF b init this head] obtain b1 where
    "prepend_packet_id now buf opt = Some (True, b1, set_pid_send p' opt)" "buf_live b1"
      "buf_content b1 = pid_header p' (co_packet_id_long_form opt) @ buf_content buf" by blast
  with True lib(1) show ?thesis
    by (simp add: v1_packet_iv_def v1_iv_def v1_plain_def mem_write_def mem_read_def OPENVPN_MAX_IV_LENGTH_def)
next
  case False
  with lib have m: "cl_mode lib = MODE_OFB_CFB" "8 \<le> cl_iv_len lib" by (auto simp: v1_mode_ok_def)
  with upd have "packet_id_send_update now (pid_send (co_packet_id opt)) True = (True, p')" by simp
  from iv_pid_write [OF m(2) lib(1) this] obtain b1 b2 where
    "buf_set_write clear_buf (Some (replicate OPENVPN_MAX_IV_LENGTH 0)) (int (cl_iv_len lib)) = Some b1"
    "packet_id_write now (pid_send (co_packet_id opt)) b1 True False = Some (True, p', b2)"
    "data b2 = Some (pid_header p' True @ replicate 8 0)" by blast
  with m init b lib(1) show ?thesis
    by (intro exI [of _ "pid_header p' True @ replicate 8 0"] exI [of _ buf])
       (simp add: v1_packet_iv_def v1_iv_def v1_plain_def mem_read_def packet_id_size_def)
qed

lemma v1_plain_pos: "bs \<noteq> [] \<Longrightarrow> 0 < length (v1_plain lib p lf bs)"
  by (simp add: v1_plain_def)

lemma length_v1_plain:
  "length (v1_plain lib p lf bs) \<le> nat (packet_id_size lf) + length bs"
  by (simp add: v1_plain_def)


lemma encrypt_v1_cipher_packet:
  fixes rnd :: "nat \<Rightarrow> u8"
  assumes lib: "cipher_lib_ok lib" "v1_mode_ok lib" and b: "buf_live buf" "0 < len buf"
    and work: "buf_live work" "buf_content work = []"
    and key: "kc_cipher (co_encrypt opt) = Some key" and init: "packet_id_initialized (co_packet_id opt)"
    and upd: "packet_id_send_update now (pid_send (co_packet_id opt))
        (co_packet_id_long_form opt \<or> cl_mode lib = MODE_OFB_CFB) = (True, p')"
    and head: "nat (packet_id_size (co_packet_id_long_form opt)) \<le> buf_headroom buf"
    and room: "int (cl_hmac_size lib + cl_iv_len lib + nat (packet_id_size (co_packet_id_long_form opt))) + len buf
        + cl_block_size lib \<le> int (buf_room work)"
  defines "iv \<equiv> v1_iv lib rnd p'"
  shows "\<exists>b' outs fin. openvpn_encrypt_v1 lib rnd now buf work opt = Some (b', set_pid_send p' opt) \<and> buf_live b'
     \<and> cl_seal lib key iv [v1_plain lib p' (co_packet_id_long_form opt) (buf_content buf)] = (outs, fin)
     \<and> (let body = iv @ concat outs @ fin in buf_content b' = auth_tag lib (co_encrypt opt) body @ body)"
proof -
  let ?n = "if kc_hmac (co_encrypt opt) = None then 0 else cl_hmac_size lib"
  let ?plain = "v1_plain lib p' (co_packet_id_long_form opt) (buf_content buf)"
  have iv16: "cl_iv_len lib \<le> 16" using lib(1) by (simp add: cipher_lib_ok_def OPENVPN_MAX_IV_LENGTH_def)
  have ivl: "length iv = cl_iv_len lib" unfolding iv_def by (rule length_v1_iv [OF iv16])
  obtain outs fin where seal: "cl_seal lib key iv [?plain] = (outs, fin)" by fastforce
  with lib(1) ivl have ct: "int (length (concat outs @ fin)) \<le> int (length ?plain) + cl_block_size lib"
    "cl_mode lib = MODE_CBC \<Longrightarrow> length fin = cl_iv_len lib" "0 \<le> cl_block_size lib"
    unfolding cipher_lib_ok_def by fastforce+
  have lp: "int (length ?plain) \<le> int (nat (packet_id_size (co_packet_id_long_form opt))) + len buf"
    using length_v1_plain [of lib p' "co_packet_id_long_form opt" "buf_content buf"] len_buf_content [OF b(1)] by linarith
  have n: "?n \<le> buf_room work" using room b(2) ct(3) by (auto split: if_splits)
  obtain w0 stale where w0: "(if kc_hmac (co_encrypt opt) \<noteq> None then buf_write_alloc work (int (cl_hmac_size lib)) else (None, work))
      = (if kc_hmac (co_encrypt opt) \<noteq> None then Some (offset work) else None, w0)" "buf_live w0" "length stale = ?n"
      "buf_content w0 = stale" "offset w0 = offset work" "buf_room w0 = buf_room work - ?n"
  proof (cases "kc_hmac (co_encrypt opt)")
    case None
    with that [of work "[]"] work show ?thesis by simp
  next
    case (Some hk)
    have "len work = 0" using len_buf_content [OF work(1)] work(2) by simp
    with buf_write_alloc_live [OF work(1), of "cl_hmac_size lib"] n Some work(2) that show ?thesis
      by (auto simp: buf_room_def)
  qed
  from encrypt_v1_iv [OF iv16 lib(2) b(1) init upd head, of rnd] obtain iv_buf b1 where
    ivb: "mem_read iv_buf 0 (int (cl_iv_len lib)) = Some iv" and b1: "buf_live b1" "buf_content b1 = ?plain" and
    stage: "v1_packet_iv lib rnd now buf opt = Some (iv_buf, True, b1, set_pid_send p' opt)" unfolding iv_def by blast
  have fits: "int (length iv) + int (length ?plain) + cl_block_size lib \<le> int (buf_room w0)"
    using room n lp ivl w0(6) by (simp split: if_splits)
  from wire.put_ok [OF w0(2), of iv] fits ct(3) obtain w1 where
    w1: "buf_write w0 iv = Some (True, w1)" "buf_live w1" "buf_content w1 = stale @ iv" "buf_room w1 = buf_room w0 - length iv"
      "buf_headroom w1 = buf_headroom w0" using w0(4) by auto
  have safe: "buf_safe w1 (len b1 + cl_block_size lib)"
  proof -
    have "len b1 + cl_block_size lib = int (nat (len b1 + cl_block_size lib))" "len b1 = int (length ?plain)"
      using len_buf_content [OF b1(1)] b1(2) ct(3) by auto
    then show ?thesis using buf_safe_room [OF w1(2), of "nat (len b1 + cl_block_size lib)"] fits w1(4) by simp
  qed
  have r1: "length (concat outs) \<le> buf_room w1" using ct(1) fits w1(4) by simp
  from put_output_write [OF w1(2) r1] obtain w2 where
    w2: "put_output w1 (offset w1 + len w1) (concat outs) = Some w2" "buf_live w2" "buf_content w2 = buf_content w1 @ concat outs"
      "offset w2 = offset w1" "capacity w2 = capacity w1" "len w2 = len w1 + int (length (concat outs))" by blast
  have "buf_room w2 = buf_room w1 - length (concat outs)" using w2(4-6) by (simp add: buf_room_def)
  then have r2: "length fin \<le> buf_room w2" using ct(1) fits w1(4) by simp
  from put_output_write [OF w2(2) r2] obtain w3 where
    w3: "put_output w2 (offset w2 + len w2) fin = Some w3" "buf_live w3" "buf_content w3 = buf_content w2 @ fin" "offset w3 = offset w2"
    by blast
  have off: "offset w1 = offset w0" using buf_write_spec [of w0 iv] w0(2) w1(1) by (auto simp: buf_live_def)
  have "encrypt_v1_cipher lib rnd now key buf work opt = Some (Inr (w3, set_pid_send p' opt,
      if kc_hmac (co_encrypt opt) \<noteq> None then buf_bend w0 else None,
      if kc_hmac (co_encrypt opt) \<noteq> None then Some (offset work) else None))"
    using w0(1) stage ivb w1(1) safe seal ct(2) w2(1) w3(1) buf_bend_live [OF w1(2)] buf_bend_live [OF w2(2)] buf_bytes_live [OF b1(1)] b1(2)
    by (cases "kc_hmac (co_encrypt opt)") (auto simp: encrypt_v1_cipher_def Let_def)
  then have r: "(case kc_cipher (co_encrypt opt) of Some key \<Rightarrow> encrypt_v1_cipher lib rnd now key buf work opt
      | None \<Rightarrow> encrypt_v1_plain lib now buf work opt) = Some (Inr (w3, set_pid_send p' opt,
      if kc_hmac (co_encrypt opt) \<noteq> None then buf_bend w0 else None,
      if kc_hmac (co_encrypt opt) \<noteq> None then Some (offset work) else None))" using key by simp
  have c3: "buf_content w3 = stale @ iv @ concat outs @ fin" using w1(3) w2(3) w3(3) by simp
  have "offset w3 = offset work" "offset w0 + len w0 = offset work + int (length stale)"
    using w0(4,5) w2(4) w3(4) off len_buf_content [OF w0(2)] by simp_all
  then have "\<exists>b'. openvpn_encrypt_v1 lib rnd now buf work opt = Some (b', set_pid_send p' opt) \<and> buf_live b'
      \<and> buf_content b' = auth_tag lib (co_encrypt opt) (iv @ concat outs @ fin) @ iv @ concat outs @ fin"
    by (intro encrypt_v1_tag [OF lib(1) b(2) r _ w3(2) c3 w0(3)]) (simp_all add: buf_bend_live [OF w0(2)])
  with seal show ?thesis by (auto simp: Let_def)
qed

section \<open>What the receiver makes of it\<close>

definition pid_seen :: "packet_id_send \<Rightarrow> bool \<Rightarrow> packet_id_net" where
  "pid_seen p lf = \<lparr>net_id = ucast (ucast (send_id p) :: u32), net_time = (if lf then uint (word_of_int (send_time p) :: u32) else 0)\<rparr>"

lemma packet_id_read_header:
  assumes "buf_live buf" "buf_content buf = pid_header p lf @ rest"
  shows "\<exists>b. packet_id_read buf lf = Some (True, pid_seen p lf, b) \<and> buf_live b \<and> buf_content b = rest"
  using packet_id_read_ok [OF assms(1), of "ucast (send_id p)" lf "word_of_int (send_time p)" rest] assms(2)
  by (simp add: pid_header_def pid_seen_def cong: if_cong)

lemma verify_hmac_ok:
  assumes lib: "cipher_lib_ok lib" and b: "buf_live buf" "buf_content buf = auth_tag lib ctx body @ body"
  shows "\<exists>b'. verify_hmac_v1 lib buf ctx = Some (True, b') \<and> buf_live b' \<and> buf_content b' = body"
proof (cases "kc_hmac ctx")
  case (Some hk)
  let ?t = "cl_hmac lib hk body"
  have t: "length ?t = cl_hmac_size lib" using lib by (simp add: cipher_lib_ok_def)
  have c: "buf_content buf = ?t @ body" using b(2) Some by (simp add: auth_tag_def)
  from buf_advance_live [OF b(1) c, of "int (cl_hmac_size lib)"] t obtain b' where
    "buf_advance buf (int (cl_hmac_size lib)) = (True, b')" "buf_live b'" "buf_content b' = body" by auto
  moreover have "\<not> len buf < int (cl_hmac_size lib)" using len_buf_content [OF b(1)] c t by simp
  ultimately show ?thesis using Some c t buf_bytes_live [OF b(1)] by (simp add: verify_hmac_v1_def Let_def)
qed (use b in \<open>simp add: verify_hmac_v1_def auth_tag_def\<close>)

lemma decrypt_v1_plain_ok:
  assumes "buf_live buf" "buf_content buf = pid_header p (co_packet_id_long_form opt) @ rest"
    and "packet_id_initialized (co_packet_id opt)"
  shows "\<exists>w. decrypt_v1_plain buf opt = Some (buf, Some (w, if co_ignore_packet_id opt then None
      else Some (pid_seen p (co_packet_id_long_form opt)))) \<and> buf_live w \<and> buf_content w = rest"
  using packet_id_read_header [OF assms(1,2)] assms(3) by (auto simp: decrypt_v1_plain_def)

lemma put_output_fresh:
  assumes w: "buf_live w" "len w = 0" and room: "length o1 + length o2 \<le> buf_room w"
  shows "\<exists>w1 w2. put_output w (offset w) o1 = Some w1 \<and> buf_live w1 \<and> offset w1 = offset w
     \<and> put_output w1 (offset w + int (length o1)) o2 = Some w2 \<and> buf_live w2 \<and> buf_content w2 = o1 @ o2"
proof -
  have "buf_content w = []" using len_buf_content [OF w(1)] w(2) by simp
  with put_output_write [OF w(1), of o1 "offset w"] w(2) room obtain w1 where
    w1: "put_output w (offset w) o1 = Some w1" "buf_live w1" "buf_content w1 = o1" "offset w1 = offset w" "capacity w1 = capacity w"
      "len w1 = int (length o1)" by auto
  have "length o2 \<le> buf_room w1" using room w1(4-6) w(2) by (simp add: buf_room_def)
  from put_output_write [OF w1(2) this, of "offset w + int (length o1)"] w1 show ?thesis by auto
qed

lemma decrypt_v1_pid_ok:
  assumes lib: "v1_mode_ok lib" "cl_iv_len lib \<le> 16" and init: "packet_id_initialized (co_packet_id opt)"
    and w: "buf_live w" "buf_content w = v1_plain lib p (co_packet_id_long_form opt) bs"
    and iv: "length iv_buf = 16" "take (cl_iv_len lib) iv_buf = v1_iv lib rnd p"
  shows "\<exists>w'. decrypt_v1_pid lib iv_buf w opt
       = Some (Some (w', Some (pid_seen p (co_packet_id_long_form opt \<or> cl_mode lib = MODE_OFB_CFB))))
     \<and> buf_live w' \<and> buf_content w' = bs"
proof (cases "cl_mode lib = MODE_CBC")
  case True
  then have "buf_content w = pid_header p (co_packet_id_long_form opt) @ bs" using w by (simp add: v1_plain_def)
  from packet_id_read_header [OF w(1) this] True init show ?thesis by (auto simp: decrypt_v1_pid_def)
next
  case False
  with lib have m: "cl_mode lib = MODE_OFB_CFB" "8 \<le> cl_iv_len lib" by (auto simp: v1_mode_ok_def)
  have "take 8 iv_buf = take 8 (take (cl_iv_len lib) iv_buf)" using m(2) by simp
  also have "\<dots> = pid_header p True" using iv(2) m lib(2) by (simp add: v1_iv_def packet_id_size_def)
  finally have hd: "take 8 iv_buf = pid_header p True" .
  have "packet_id_read \<lparr>capacity = int (cl_iv_len lib), offset = 0, len = int (cl_iv_len lib), data = Some iv_buf\<rparr> True
      = Some (True, pid_seen p True, \<lparr>capacity = int (cl_iv_len lib), offset = 8, len = int (cl_iv_len lib) - 8, data = Some iv_buf\<rparr>)"
  proof -
    have "take 4 iv_buf = take 4 (take 8 iv_buf)" "take 4 (drop 4 iv_buf) = drop 4 (take 8 iv_buf)" by (simp_all add: drop_take)
    with hd have "take 4 iv_buf = be32 (ucast (send_id p))" "take 4 (drop 4 iv_buf) = be32 (word_of_int (send_time p))"
      by (simp_all add: pid_header_def)
    with m lib(2) iv(1) show ?thesis
      by (simp add: packet_id_read_def buf_read_def buf_read_alloc_def buf_bptr_def buf_valid_def mem_read_def pid_seen_def Let_def)
  qed
  with m lib(2) init w(1) w(2) show ?thesis
    by (simp add: decrypt_v1_pid_def buf_set_read_def buf_size_valid_def BUF_SIZE_MAX_def clear_buf_def v1_plain_def)
qed

lemma decrypt_v1_cipher_ok:
  assumes lib: "cipher_lib_ok lib" "v1_mode_ok lib" and init: "packet_id_initialized (co_packet_id opt)"
    and seal: "cl_seal lib key (v1_iv lib rnd p) [v1_plain lib p (co_packet_id_long_form opt) bs] = (outs, fin)"
    and buf: "buf_live buf" "buf_content buf = v1_iv lib rnd p @ concat outs @ fin" and bs: "bs \<noteq> []"
    and work: "buf_live work" "0 \<le> hr" "hr + int (length (concat outs @ fin)) + cl_block_size lib \<le> capacity work"
  shows "\<exists>b w. decrypt_v1_cipher lib (Some hr) key buf work opt
       = Some (b, Some (w, Some (pid_seen p (co_packet_id_long_form opt \<or> cl_mode lib = MODE_OFB_CFB))))
     \<and> buf_live w \<and> buf_content w = bs"
proof -
  let ?iv = "v1_iv lib rnd p" and ?ct = "concat outs @ fin" and ?plain = "v1_plain lib p (co_packet_id_long_form opt) bs"
  have iv16: "cl_iv_len lib \<le> 16" using lib(1) by (simp add: cipher_lib_ok_def OPENVPN_MAX_IV_LENGTH_def)
  have ivl: "length ?iv = cl_iv_len lib" by (rule length_v1_iv [OF iv16])
  from lib(1) ivl seal obtain o1 o2 where o: "cl_open lib key ?iv ?ct = Some (o1, Some o2)" "o1 @ o2 = ?plain"
    and ct: "length ?plain \<le> length ?ct" and bsz: "0 \<le> cl_block_size lib" unfolding cipher_lib_ok_def by fastforce
  have "capacity work > hr" using work(3) ct bs bsz by (cases bs) (auto simp: v1_plain_def split: if_splits)
  with buf_init_spec [of work hr] work(1,2) obtain w0 where
    w0: "buf_init_dowork work hr = (True, w0)" "buf_live w0" "offset w0 = hr" "len w0 = 0" "capacity w0 = capacity work"
    by (auto simp: buf_live_def)
  have lb: "len buf = int (cl_iv_len lib) + int (length ?ct)" using len_buf_content [OF buf(1)] buf(2) ivl by simp
  let ?ivb = "?iv @ replicate (16 - cl_iv_len lib) 0"
  have mw: "mem_write (replicate OPENVPN_MAX_IV_LENGTH 0) 0 ?iv = Some ?ivb"
    using iv16 ivl by (simp add: mem_write_def OPENVPN_MAX_IV_LENGTH_def)
  from buf_advance_live [OF buf, of "int (cl_iv_len lib)"] ivl obtain b1 where
    b1: "buf_advance buf (int (cl_iv_len lib)) = (True, b1)" "buf_live b1" "buf_content b1 = ?ct" "len b1 = int (length ?ct)"
    by auto
  have "0 < length ?ct" using v1_plain_pos [OF bs] ct by (rule less_le_trans)
  then have nz: "\<not> len b1 < 1" using b1(4) by linarith
  have safe: "buf_safe w0 (len b1 + cl_block_size lib)"
    using buf_safe_room [OF w0(2), of "nat (len b1 + cl_block_size lib)"] work(3) w0 b1(4) bsz by (simp add: buf_room_def)
  have "length o1 + length o2 \<le> buf_room w0" using arg_cong [OF o(2), of length] ct work(3) w0 bsz by (simp add: buf_room_def)
  from put_output_fresh [OF w0(2,4) this] o(2) obtain w1 w2 where
    w: "put_output w0 (offset w0) o1 = Some w1" "buf_live w1" "offset w1 = offset w0"
      "put_output w1 (offset w0 + int (length o1)) o2 = Some w2" "buf_live w2" "buf_content w2 = ?plain" by auto
  have "length ?ivb = 16" "take (cl_iv_len lib) ?ivb = ?iv" using ivl iv16 by simp_all
  from decrypt_v1_pid_ok [OF lib(2) iv16 init w(5,6) this] obtain w' where
    "decrypt_v1_pid lib ?ivb w2 opt = Some (Some (w', Some (pid_seen p (co_packet_id_long_form opt \<or> cl_mode lib = MODE_OFB_CFB))))"
    "buf_live w'" "buf_content w' = bs" by blast
  with w0(1) lb mw b1 nz safe o(1) w buf_bytes_live [OF buf(1)] buf(2) ivl buf_bytes_live [OF b1(2)] buf_bptr_live [OF w0(2)]
    buf_bptr_live [OF w(2)]
  show ?thesis by (simp add: decrypt_v1_cipher_def)
qed

section \<open>Properties\<close>

text \<open>Two ends with the same keys and format.\<close>

definition v1_peers :: "cipher_lib \<Rightarrow> crypto_options \<Rightarrow> crypto_options \<Rightarrow> bool" where
  "v1_peers lib s r \<longleftrightarrow> kc_cipher (co_encrypt s) = kc_cipher (co_decrypt r) \<and> kc_hmac (co_encrypt s) = kc_hmac (co_decrypt r)
     \<and> packet_id_initialized (co_packet_id s) \<and> packet_id_initialized (co_packet_id r)
     \<and> co_packet_id_long_form s = co_packet_id_long_form r \<and> \<not> co_ignore_packet_id r
     \<and> (kc_cipher (co_encrypt s) \<noteq> None \<longrightarrow> v1_mode_ok lib)"

text \<open>Whether the packet id carries its time stamp: in OFB and CFB mode it is the IV, in long form.\<close>

definition v1_long :: "cipher_lib \<Rightarrow> crypto_options \<Rightarrow> bool" where
  "v1_long lib s \<longleftrightarrow> co_packet_id_long_form s \<or> kc_cipher (co_encrypt s) \<noteq> None \<and> cl_mode lib = MODE_OFB_CFB"

text \<open>Room for the packet id and tag in front of the payload, and for the whole packet in both work buffers.\<close>

definition v1_room :: "cipher_lib \<Rightarrow> crypto_options \<Rightarrow> buffer \<Rightarrow> buffer \<Rightarrow> int \<Rightarrow> buffer \<Rightarrow> bool" where
  "v1_room lib s buf work hr work' \<longleftrightarrow> buf_live buf \<and> 0 < len buf \<and> 8 + cl_hmac_size lib \<le> buf_headroom buf
     \<and> (case kc_cipher (co_encrypt s) of
          None \<Rightarrow> buf_len work = 0
        | Some _ \<Rightarrow> buf_live work \<and> buf_content work = []
            \<and> int (cl_hmac_size lib + cl_iv_len lib + 8) + len buf + cl_block_size lib \<le> int (buf_room work)
            \<and> buf_live work' \<and> 0 \<le> hr \<and> hr + 8 + len buf + 2 * cl_block_size lib \<le> capacity work')"

lemma decrypt_v1_verdict:
  assumes lib: "cipher_lib_ok lib" and b: "buf_live b" "buf_content b = auth_tag lib (co_decrypt r) body @ body" "body \<noteq> []"
    and dec: "\<And>b1. buf_live b1 \<Longrightarrow> buf_content b1 = body \<Longrightarrow> \<exists>b2 w.
        (case kc_cipher (co_decrypt r) of Some key \<Rightarrow> decrypt_v1_cipher lib hr key b1 work r | None \<Rightarrow> decrypt_v1_plain b1 r)
          = Some (b2, Some (w, Some pin)) \<and> buf_live w \<and> buf_content w = bs"
    and replay: "crypto_check_replay junk hmac now r pin 0 = Some (True, r')"
  shows "\<exists>w. openvpn_decrypt_v1 junk hmac lib now hr b work r = Some (True, w, r') \<and> buf_live w \<and> buf_content w = bs"
proof -
  from verify_hmac_ok [OF lib b(1,2)] obtain b1 where b1: "verify_hmac_v1 lib b (co_decrypt r) = Some (True, b1)" "buf_live b1"
    "buf_content b1 = body" by blast
  from dec [OF b1(2,3)] obtain b2 w where "(case kc_cipher (co_decrypt r) of Some key \<Rightarrow> decrypt_v1_cipher lib hr key b1 work r
      | None \<Rightarrow> decrypt_v1_plain b1 r) = Some (b2, Some (w, Some pin))" "buf_live w" "buf_content w = bs" by blast
  moreover have "0 < len b" using len_buf_content [OF b(1)] b(2,3) by (cases body) simp_all
  ultimately show ?thesis using b1(1) replay by (simp add: openvpn_decrypt_v1_def)
qed

lemma v1_peers_facts:
  assumes "v1_peers lib s r" "v1_room lib s buf work hr work'"
  shows "kc_cipher (co_decrypt r) = kc_cipher (co_encrypt s)" "auth_tag lib (co_decrypt r) = auth_tag lib (co_encrypt s)"
    "packet_id_initialized (co_packet_id s)" "packet_id_initialized (co_packet_id r)"
    "co_packet_id_long_form r = co_packet_id_long_form s" "\<not> co_ignore_packet_id r"
    "buf_live buf" "0 < len buf" "nat (packet_id_size (co_packet_id_long_form s)) + cl_hmac_size lib \<le> buf_headroom buf"
    "buf_content buf \<noteq> []"
proof -
  show "buf_live buf" "0 < len buf" using assms(2) by (simp_all add: v1_room_def)
  then show "buf_content buf \<noteq> []" using len_buf_content [of buf] by auto
qed (use assms in \<open>auto simp: v1_peers_def v1_room_def auth_tag_def fun_eq_iff packet_id_size_def\<close>)

lemma v1_roundtrip_plain:
  assumes lib: "cipher_lib_ok lib" and ends: "v1_peers lib s r" "v1_room lib s buf work hr work'"
    and none: "kc_cipher (co_encrypt s) = None"
    and upd: "packet_id_send_update now (pid_send (co_packet_id s)) (co_packet_id_long_form s) = (True, p)"
    and replay: "crypto_check_replay junk hmac now' r (pid_seen p (co_packet_id_long_form s)) 0 = Some (True, r')"
  shows "\<exists>b w. openvpn_encrypt_v1 lib rnd now buf work s = Some (b, set_pid_send p s)
     \<and> openvpn_decrypt_v1 junk hmac lib now' (Some hr) b work' r = Some (True, w, r') \<and> buf_content w = buf_content buf"
proof -
  note f = v1_peers_facts [OF ends]
  let ?lf = "co_packet_id_long_form s" and ?D = "buf_content buf"
  let ?body = "pid_header p ?lf @ ?D"
  have work: "buf_len work = 0" using ends(2) none by (simp add: v1_room_def)
  from encrypt_v1_plain_packet [OF lib f(7,8) work none f(3) upd f(9)] obtain b where
    b: "openvpn_encrypt_v1 lib rnd now buf work s = Some (b, set_pid_send p s)" "buf_live b"
      "buf_content b = auth_tag lib (co_decrypt r) ?body @ ?body" unfolding f(2) by blast
  have "\<exists>w. openvpn_decrypt_v1 junk hmac lib now' (Some hr) b work' r = Some (True, w, r') \<and> buf_live w \<and> buf_content w = ?D"
  proof (rule decrypt_v1_verdict [OF lib b(2,3) _ _ replay])
    show "?body \<noteq> []" using f(10) by simp
    fix b1 assume "buf_live b1" "buf_content b1 = ?body"
    with decrypt_v1_plain_ok [of b1 p r ?D] f(4-6) obtain w where
      "decrypt_v1_plain b1 r = Some (b1, Some (w, Some (pid_seen p ?lf)))" "buf_live w" "buf_content w = ?D" by auto
    with none f(1) show "\<exists>b2 w. (case kc_cipher (co_decrypt r) of Some key \<Rightarrow> decrypt_v1_cipher lib (Some hr) key b1 work' r
        | None \<Rightarrow> decrypt_v1_plain b1 r) = Some (b2, Some (w, Some (pid_seen p ?lf))) \<and> buf_live w \<and> buf_content w = ?D" by simp
  qed
  with b(1) show ?thesis by blast
qed

lemma v1_roundtrip_cipher:
  assumes lib: "cipher_lib_ok lib" and ends: "v1_peers lib s r" "v1_room lib s buf work hr work'"
    and key: "kc_cipher (co_encrypt s) = Some key"
    and upd: "packet_id_send_update now (pid_send (co_packet_id s)) (co_packet_id_long_form s \<or> cl_mode lib = MODE_OFB_CFB) = (True, p)"
    and replay: "crypto_check_replay junk hmac now' r (pid_seen p (co_packet_id_long_form s \<or> cl_mode lib = MODE_OFB_CFB)) 0 = Some (True, r')"
  shows "\<exists>b w. openvpn_encrypt_v1 lib rnd now buf work s = Some (b, set_pid_send p s)
     \<and> openvpn_decrypt_v1 junk hmac lib now' (Some hr) b work' r = Some (True, w, r') \<and> buf_content w = buf_content buf"
proof -
  note f = v1_peers_facts [OF ends]
  let ?lf = "co_packet_id_long_form s" and ?D = "buf_content buf"
  let ?iv = "v1_iv lib rnd p" and ?plain = "v1_plain lib p ?lf ?D"
  have m: "v1_mode_ok lib" using ends(1) key by (simp add: v1_peers_def)
  have p8: "nat (packet_id_size ?lf) \<le> 8" by (simp add: packet_id_size_def)
  from ends(2) key have work: "buf_live work" "buf_content work = []"
    "int (cl_hmac_size lib + cl_iv_len lib + 8) + len buf + cl_block_size lib \<le> int (buf_room work)"
    and work': "buf_live work'" "0 \<le> hr" "hr + 8 + len buf + 2 * cl_block_size lib \<le> capacity work'"
    by (simp_all add: v1_room_def)
  have head: "nat (packet_id_size ?lf) \<le> buf_headroom buf" using f(9) by simp
  have "int (cl_hmac_size lib + cl_iv_len lib + nat (packet_id_size ?lf)) + len buf + cl_block_size lib \<le> int (buf_room work)"
    using work(3) p8 by linarith
  from encrypt_v1_cipher_packet [OF lib m f(7,8) work(1,2) key f(3) upd head this, of rnd] obtain b outs fin where
    b: "openvpn_encrypt_v1 lib rnd now buf work s = Some (b, set_pid_send p s)" "buf_live b"
      "cl_seal lib key ?iv [?plain] = (outs, fin)"
      "buf_content b = auth_tag lib (co_decrypt r) (?iv @ concat outs @ fin) @ ?iv @ concat outs @ fin"
    unfolding f(2) by (auto simp: Let_def)
  have iv16: "cl_iv_len lib \<le> 16" using lib by (simp add: cipher_lib_ok_def OPENVPN_MAX_IV_LENGTH_def)
  have ct: "length ?plain \<le> length (concat outs @ fin)"
    "int (length (concat outs @ fin)) \<le> int (length ?plain) + cl_block_size lib"
    using lib b(3) length_v1_iv [OF iv16, of rnd p] unfolding cipher_lib_ok_def by fastforce+
  have "int (length ?plain) \<le> 8 + len buf"
    using length_v1_plain [of lib p ?lf ?D] p8 len_buf_content [OF f(7)] by linarith
  then have fit: "hr + int (length (concat outs @ fin)) + cl_block_size lib \<le> capacity work'" using ct(2) work'(3) by linarith
  have "\<exists>w. openvpn_decrypt_v1 junk hmac lib now' (Some hr) b work' r = Some (True, w, r') \<and> buf_live w \<and> buf_content w = ?D"
  proof (rule decrypt_v1_verdict [OF lib b(2,4) _ _ replay])
    have "0 < length (concat outs @ fin)" using v1_plain_pos [OF f(10)] ct(1) by (rule less_le_trans)
    then show "?iv @ concat outs @ fin \<noteq> []" unfolding length_greater_0_conv by simp
    fix b1 assume b1: "buf_live b1" "buf_content b1 = ?iv @ concat outs @ fin"
    from decrypt_v1_cipher_ok [OF lib m f(4) _ b1 f(10) work'(1,2) fit, of key] b(3) f(1,5) key
    show "\<exists>b2 w. (case kc_cipher (co_decrypt r) of Some key \<Rightarrow> decrypt_v1_cipher lib (Some hr) key b1 work' r
        | None \<Rightarrow> decrypt_v1_plain b1 r) = Some (b2, Some (w, Some (pid_seen p (?lf \<or> cl_mode lib = MODE_OFB_CFB))))
        \<and> buf_live w \<and> buf_content w = ?D" by auto
  qed
  with b(1) show ?thesis by blast
qed

text \<open>C34: packet protection without AEAD is undone by the peer. A packet that is authenticated only,
  or encrypted in CBC, OFB or CFB mode and authenticated, is verified and decrypted by an end with
  the same keys to exactly the payload, provided the replay filter accepts its packet id; no
  assertion fails on either side.\<close>

theorem v1_roundtrip:
  assumes lib: "cipher_lib_ok lib" and ends: "v1_peers lib s r" "v1_room lib s buf work hr work'"
    and upd: "packet_id_send_update now (pid_send (co_packet_id s)) (v1_long lib s) = (True, p)"
    and replay: "crypto_check_replay junk hmac now' r (pid_seen p (v1_long lib s)) 0 = Some (True, r')"
  shows "\<exists>b w. openvpn_encrypt_v1 lib rnd now buf work s = Some (b, set_pid_send p s)
     \<and> openvpn_decrypt_v1 junk hmac lib now' (Some hr) b work' r = Some (True, w, r') \<and> buf_content w = buf_content buf"
proof (cases "kc_cipher (co_encrypt s)")
  case None
  with upd replay show ?thesis by (intro v1_roundtrip_plain [OF lib ends None]) (simp_all add: v1_long_def)
next
  case (Some key)
  with upd replay show ?thesis by (intro v1_roundtrip_cipher [OF lib ends Some]) (simp_all add: v1_long_def)
qed

text \<open>A session in long form with a stream cipher of eight-byte IVs, and one without a cipher.\<close>

definition toy_lib :: cipher_lib where
  "toy_lib = \<lparr>cl_mode = MODE_OFB_CFB, cl_aead = demo_lib, cl_iv_len = 8, cl_block_size = 8,
     cl_seal = (\<lambda>k iv cs. (map (map (\<lambda>b. b XOR 85)) cs, [])), cl_open = (\<lambda>k iv ct. Some (map (\<lambda>b. b XOR 85) ct, Some [])),
     cl_hmac = (\<lambda>k m. [of_nat (length k), of_nat (length m)]), cl_hmac_size = 2\<rparr>"

lemma toy_lib_ok: "cipher_lib_ok toy_lib"
proof -
  have "map (\<lambda>b. b XOR 85) (concat (map (map (\<lambda>b. b XOR 85)) cs)) = concat cs" for cs :: "bytes list"
    by (induction cs) (simp_all add: xor.assoc comp_def)
  moreover have "length (concat (map (map (\<lambda>b. b XOR 85)) cs)) = length (concat cs)" for cs :: "bytes list"
    by (induction cs) simp_all
  ultimately show ?thesis by (auto simp: cipher_lib_ok_def toy_lib_def OPENVPN_MAX_IV_LENGTH_def)
qed

definition toy_co :: "bytes option \<Rightarrow> crypto_options" where
  "toy_co key = demo_co\<lparr>co_encrypt := key_ctx_zero\<lparr>kc_cipher := key, kc_hmac := Some [7]\<rparr>,
     co_decrypt := key_ctx_zero\<lparr>kc_cipher := key, kc_hmac := Some [7]\<rparr>, co_packet_id := the (packet_id_init 0 0 '''' 0),
     co_packet_id_long_form := True, co_epoch_data_format := False\<rparr>"

definition toy_buf :: buffer where
  "toy_buf = \<lparr>capacity = 40, offset = 16, len = 5, data = Some (map of_nat [0..<40])\<rparr>"

definition toy_work :: buffer where
  "toy_work = \<lparr>capacity = 80, offset = 8, len = 0, data = Some (replicate 80 0)\<rparr>"

theorem v1_roundtrip_witness:
  "\<exists>r' b w. crypto_check_replay (\<lambda>_. 0) demo_hmac 1000 (toy_co (Some [1, 2, 3])) \<lparr>net_id = 1, net_time = 1000\<rparr> 0 = Some (True, r')
     \<and> openvpn_encrypt_v1 toy_lib (\<lambda>_. 9) 1000 toy_buf toy_work (toy_co (Some [1, 2, 3]))
         = Some (b, set_pid_send \<lparr>send_id = 1, send_time = 1000\<rparr> (toy_co (Some [1, 2, 3])))
     \<and> openvpn_decrypt_v1 (\<lambda>_. 0) demo_hmac toy_lib 1000 (Some 8) b toy_work (toy_co (Some [1, 2, 3])) = Some (True, w, r')
     \<and> buf_content w = [16, 17, 18, 19, 20]"
proof -
  let ?co = "toy_co (Some [1, 2, 3])" and ?p = "\<lparr>send_id = 1, send_time = 1000\<rparr>"
  have ends: "v1_peers toy_lib ?co ?co" "v1_room toy_lib ?co toy_buf toy_work 8 toy_work" by code_simp+
  have upd: "packet_id_send_update 1000 (pid_send (co_packet_id ?co)) (v1_long toy_lib ?co) = (True, ?p)" by code_simp
  have seen: "pid_seen ?p (v1_long toy_lib ?co) = \<lparr>net_id = 1, net_time = 1000\<rparr>" "buf_content toy_buf = [16, 17, 18, 19, 20]"
    by code_simp+
  have "map_option fst (crypto_check_replay (\<lambda>_. 0) demo_hmac 1000 ?co \<lparr>net_id = 1, net_time = 1000\<rparr> 0) = Some True" by code_simp
  then obtain r' where r': "crypto_check_replay (\<lambda>_. 0) demo_hmac 1000 ?co \<lparr>net_id = 1, net_time = 1000\<rparr> 0 = Some (True, r')" by auto
  from v1_roundtrip [OF toy_lib_ok ends upd, unfolded seen, OF r', of "\<lambda>_. 9"] r' show ?thesis by blast
qed

end
