(* ===== verification/Tls_Crypt.thy ===== *)
theory Tls_Crypt
  imports Crypto_V1 Reliable
begin

text \<open>
  Control channel encryption: \<^verbatim>\<open>openvpn/src/openvpn/tls_crypt.c\<close> and \<^verbatim>\<open>tls_crypt.h\<close>. A control packet is
  authenticated and encrypted with a synthetic IV (the leading bytes of its HMAC); with
  \<^verbatim>\<open>--tls-crypt-v2\<close> each client has its own key, which the server recovers from a wrapped copy the
  client sends along. AES-256-CTR and HMAC-SHA256 are the crypto library's: the argument \<open>lib\<close>.
\<close>

section \<open>Wrapping packets\<close>

definition TLS_CRYPT_TAG_SIZE :: nat where "TLS_CRYPT_TAG_SIZE = 256 div 8"
definition TLS_CRYPT_PID_SIZE :: nat where "TLS_CRYPT_PID_SIZE = 4 + 4"
definition TLS_CRYPT_BLOCK_SIZE :: nat where "TLS_CRYPT_BLOCK_SIZE = 128 div 8"
definition TLS_CRYPT_OFF_PID :: nat where "TLS_CRYPT_OFF_PID = 1 + SID_SIZE"
definition TLS_CRYPT_OFF_TAG :: nat where "TLS_CRYPT_OFF_TAG = TLS_CRYPT_OFF_PID + TLS_CRYPT_PID_SIZE"
definition TLS_CRYPT_OFF_CT :: nat where "TLS_CRYPT_OFF_CT = TLS_CRYPT_OFF_TAG + TLS_CRYPT_TAG_SIZE"
definition TLS_CRYPT_V2_MAX_WKC_LEN :: nat where "TLS_CRYPT_V2_MAX_WKC_LEN = 1024"
definition TLS_CRYPT_V2_CLIENT_KEY_LEN :: nat where "TLS_CRYPT_V2_CLIENT_KEY_LEN = 2048 div 8"
definition TLS_CRYPT_V2_TAG_SIZE :: nat where "TLS_CRYPT_V2_TAG_SIZE = TLS_CRYPT_TAG_SIZE"
definition TLS_CRYPT_V2_MAX_METADATA_LEN :: nat where
  "TLS_CRYPT_V2_MAX_METADATA_LEN = TLS_CRYPT_V2_MAX_WKC_LEN - (TLS_CRYPT_V2_CLIENT_KEY_LEN + TLS_CRYPT_V2_TAG_SIZE + 2)"
definition TLS_CRYPT_METADATA_TYPE_USER :: u8 where "TLS_CRYPT_METADATA_TYPE_USER = 0x00"
definition TLS_CRYPT_METADATA_TYPE_TIMESTAMP :: u8 where "TLS_CRYPT_METADATA_TYPE_TIMESTAMP = 0x01"

text \<open>\<^verbatim>\<open>create_kt("AES-256-CTR", "SHA256", "tls-crypt")\<close> with a library that has both.\<close>

definition tls_crypt_kt :: key_type where
  "tls_crypt_kt = \<lparr>kt_cipher = True, kt_key_size = 32, kt_iv_size = 16, kt_digest = Some 32, kt_aead = False,
     kt_chacha20_poly1305 = False\<rparr>"

definition tls_crypt_buf_overhead :: int where
  "tls_crypt_buf_overhead = packet_id_size True + int TLS_CRYPT_TAG_SIZE + int TLS_CRYPT_BLOCK_SIZE"

text \<open>The final call of the cipher writes to the start of \<open>dst\<close>; in CTR mode it has no output.\<close>

definition tls_crypt_wrap ::
    "cipher_lib \<Rightarrow> int \<Rightarrow> buffer \<Rightarrow> buffer \<Rightarrow> crypto_options \<Rightarrow> (bool \<times> buffer \<times> crypto_options) option" where
  "tls_crypt_wrap lib now src dst opt = do {
     key \<leftarrow> kc_cipher (co_encrypt opt);
     hk \<leftarrow> kc_hmac (co_encrypt opt);
     c_assert (packet_id_initialized (co_packet_id opt));
     c_assert (cl_hmac_size lib = 256 div 8);
     (ok, p, dst) \<leftarrow> packet_id_write now (pid_send (co_packet_id opt)) dst True False;
     let opt = set_pid_send p opt;
     (if \<not> ok \<or> \<not> buf_safe dst (buf_len src + int TLS_CRYPT_BLOCK_SIZE + int TLS_CRYPT_TAG_SIZE)
      then Some (False, dst\<lparr>len := 0\<rparr>, opt)
      else do {
        ad \<leftarrow> buf_bytes dst;
        plain \<leftarrow> buf_bytes src;
        let tag = cl_hmac lib hk (ad @ plain);
        let (tagp, dst) = buf_write_alloc dst (int TLS_CRYPT_TAG_SIZE);
        tagp \<leftarrow> tagp;
        dst \<leftarrow> buf_store dst tagp tag;
        let (outs, fin) = cl_seal lib key (take (cl_iv_len lib) tag) [plain];
        p \<leftarrow> buf_bend dst;
        dst \<leftarrow> put_output dst p (concat outs);
        p \<leftarrow> buf_bptr dst;
        dst \<leftarrow> put_output dst p fin;
        Some (True, dst, opt) })
   }"

definition tls_crypt_unwrap ::
    "(nat \<Rightarrow> u8) \<Rightarrow> hmac_fun \<Rightarrow> cipher_lib \<Rightarrow> int \<Rightarrow> buffer \<Rightarrow> buffer \<Rightarrow> crypto_options
       \<Rightarrow> (bool \<times> buffer \<times> crypto_options) option" where
  "tls_crypt_unwrap junk hmac lib now src dst opt = do {
     key \<leftarrow> kc_cipher (co_decrypt opt);
     c_assert (packet_id_initialized (co_packet_id opt) \<or> co_ignore_packet_id opt);
     (if buf_len src < int TLS_CRYPT_OFF_CT
           \<or> \<not> buf_safe dst (buf_len src - int TLS_CRYPT_OFF_CT + int TLS_CRYPT_BLOCK_SIZE)
      then Some (False, dst\<lparr>len := 0\<rparr>, opt)
      else do {
        bs \<leftarrow> buf_bytes src;
        let tag = take TLS_CRYPT_TAG_SIZE (drop TLS_CRYPT_OFF_TAG bs);
        (case cl_open lib key (take (cl_iv_len lib) tag) (drop TLS_CRYPT_OFF_CT bs) of
           None \<Rightarrow> Some (False, dst\<lparr>len := 0\<rparr>, opt)
         | Some (out, fin) \<Rightarrow> do {
             p \<leftarrow> buf_bptr dst;
             dst \<leftarrow> put_output dst p out;
             (case fin of
                None \<Rightarrow> Some (False, dst\<lparr>len := 0\<rparr>, opt)
              | Some fin \<Rightarrow> do {
                  p \<leftarrow> buf_bptr dst;
                  dst \<leftarrow> put_output dst p fin;
                  hk \<leftarrow> kc_hmac (co_decrypt opt);
                  plain \<leftarrow> buf_bytes dst;
                  (if cl_hmac lib hk (take TLS_CRYPT_OFF_TAG bs @ plain) \<noteq> tag then Some (False, dst\<lparr>len := 0\<rparr>, opt)
                   else if co_ignore_packet_id opt then Some (True, dst, opt)
                   else do {
                     let (ok, tmp) = buf_advance src (int TLS_CRYPT_OFF_PID);
                     c_assert ok;
                     (ok, pin, tmp) \<leftarrow> packet_id_read tmp True;
                     c_assert ok;
                     (ok, opt) \<leftarrow> crypto_check_replay junk hmac now opt pin 0;
                     Some (ok, if ok then dst else dst\<lparr>len := 0\<rparr>, opt) }) }) }) })
   }"

section \<open>Client keys\<close>

text \<open>\<open>key2_bytes\<close> is the memory of the member \<^verbatim>\<open>keys\<close> of a \<^verbatim>\<open>struct key2\<close>, \<open>key2_of_bytes\<close> a copy into it.\<close>

definition key2_bytes :: "key2 \<Rightarrow> bytes" where
  "key2_bytes k = concat (map (\<lambda>k. k_cipher k @ k_hmac k) (k2_keys k))"

definition key_of_bytes :: "bytes \<Rightarrow> key" where
  "key_of_bytes bs = \<lparr>k_cipher = take 64 bs, k_hmac = take 64 (drop 64 bs)\<rparr>"

definition key2_of_bytes :: "bytes \<Rightarrow> key2" where
  "key2_of_bytes bs = \<lparr>k2_n = 2, k2_keys = [key_of_bytes bs, key_of_bytes (drop 128 bs)]\<rparr>"

definition key2_zero :: key2 where
  "key2_zero = (key2_of_bytes (replicate 256 0))\<lparr>k2_n := 0\<rparr>"

definition xor_bytes :: "bytes \<Rightarrow> bytes \<Rightarrow> bytes" where
  "xor_bytes a b = map2 (XOR) a b"

definition xor_key2 :: "key2 \<Rightarrow> key2 \<Rightarrow> key2 option" where
  "xor_key2 k other = do {
     c_assert (k2_n k = 2 \<and> k2_n other = 2);
     Some (k\<lparr>k2_keys := map2 (\<lambda>a b. \<lparr>k_cipher = xor_bytes (k_cipher a) (k_cipher b), k_hmac = xor_bytes (k_hmac a) (k_hmac b)\<rparr>)
       (k2_keys k) (k2_keys other)\<rparr>)
   }"

definition tls_crypt_v2_load_client_key :: "crypto_options \<Rightarrow> key2 \<Rightarrow> bool \<Rightarrow> crypto_options option" where
  "tls_crypt_v2_load_client_key co key2 tls_server =
     init_key_ctx_bi co key2 (if tls_server then KEY_DIRECTION_NORMAL else KEY_DIRECTION_INVERSE) tls_crypt_kt"

definition tls_crypt_v2_wrap_client_key ::
    "(nat \<Rightarrow> u8) \<Rightarrow> cipher_lib \<Rightarrow> buffer \<Rightarrow> key2 \<Rightarrow> buffer \<Rightarrow> key_ctx \<Rightarrow> (bool \<times> buffer) option" where
  "tls_crypt_v2_wrap_client_key junk lib wkc src_key src_metadata server_key = do {
     work \<leftarrow> alloc_buf_gc junk (nat (int TLS_CRYPT_V2_MAX_WKC_LEN + cl_block_size lib));
     let (tagp, work) = buf_write_alloc work (int TLS_CRYPT_TAG_SIZE);
     (case tagp of
        None \<Rightarrow> Some (False, wkc)
      | Some tagp \<Rightarrow> do {
          let data_len = buf_len src_metadata + int (length (key2_bytes src_key)) + 2;
          let tagged_len = data_len + int TLS_CRYPT_TAG_SIZE;
          let net_len = be16 (word_of_int tagged_len);
          hk \<leftarrow> kc_hmac server_key;
          md \<leftarrow> buf_bytes src_metadata;
          let tag = cl_hmac lib hk (net_len @ key2_bytes src_key @ md);
          work \<leftarrow> buf_store work tagp tag;
          key \<leftarrow> kc_cipher server_key;
          (if buf_forward_capacity work < data_len + cl_block_size lib then Some (False, wkc)
           else (case cl_seal lib key (take (cl_iv_len lib) tag) [key2_bytes src_key, md] of
               ([out1, out2], fin) \<Rightarrow> do {
                 p \<leftarrow> buf_bend work;
                 work \<leftarrow> put_output work p out1;
                 p \<leftarrow> buf_bend work;
                 work \<leftarrow> put_output work p out2;
                 p \<leftarrow> buf_bend work;
                 work \<leftarrow> put_output work p fin;
                 (ok, work) \<leftarrow> buf_write work net_len;
                 c_assert ok;
                 buf_copy wkc work }
             | _ \<Rightarrow> None)) })
   }"

text \<open>Every error exit clears the key; the result has the key and the metadata buffer.\<close>

definition tls_crypt_v2_unwrap_client_key ::
    "cipher_lib \<Rightarrow> buffer \<Rightarrow> buffer \<Rightarrow> key_ctx \<Rightarrow> (bool \<times> key2 \<times> buffer) option" where
  "tls_crypt_v2_unwrap_client_key lib metadata wrapped_client_key server_key =
     (let n = buf_len wrapped_client_key; failed = Some (False, key2_zero, metadata) in
      if int TLS_CRYPT_V2_MAX_WKC_LEN < n \<or> n < 2 then failed
      else do {
        bs \<leftarrow> buf_bytes wrapped_client_key;
        let net_len = drop (nat n - 2) bs;
        (if uint (rd16 net_len) \<noteq> n then failed
         else do {
           let (_, wrapped_client_key) = buf_inc_len wrapped_client_key (- 2);
           let (ok, wrapped_client_key) = buf_advance wrapped_client_key (int TLS_CRYPT_TAG_SIZE);
           (if \<not> ok then failed
            else do {
              let tag = take TLS_CRYPT_TAG_SIZE bs;
              key \<leftarrow> kc_cipher server_key;
              plaintext \<leftarrow> buf_set_write clear_buf (Some (replicate TLS_CRYPT_V2_MAX_WKC_LEN 0)) (int TLS_CRYPT_V2_MAX_WKC_LEN);
              ct \<leftarrow> buf_bytes wrapped_client_key;
              (case cl_open lib key (take (cl_iv_len lib) tag) ct of
                 None \<Rightarrow> failed
               | Some (out, fin) \<Rightarrow> do {
                   p \<leftarrow> buf_bptr plaintext;
                   plaintext \<leftarrow> put_output plaintext p out;
                   (case fin of
                      None \<Rightarrow> failed
                    | Some fin \<Rightarrow> do {
                        p \<leftarrow> buf_bend plaintext;
                        plaintext \<leftarrow> put_output plaintext p fin;
                        hk \<leftarrow> kc_hmac server_key;
                        pt \<leftarrow> buf_bytes plaintext;
                        (if cl_hmac lib hk (net_len @ pt) \<noteq> tag \<or> length pt < TLS_CRYPT_V2_CLIENT_KEY_LEN then failed
                         else do {
                           let (ok, plaintext) = buf_advance plaintext (int TLS_CRYPT_V2_CLIENT_KEY_LEN);
                           c_assert ok;
                           (ok, metadata) \<leftarrow> buf_copy metadata plaintext;
                           Some (ok, if ok then key2_of_bytes pt else key2_zero, metadata) }) }) }) }) }) })"

datatype wrap_mode = TLS_WRAP_NONE | TLS_WRAP_AUTH | TLS_WRAP_CRYPT

record tls_wrap_ctx =
  tw_mode :: wrap_mode
  tw_opt :: crypto_options
  tw_work :: buffer
  tw_server_key :: key_ctx
  tw_wkc :: "buffer option"
  tw_metadata :: buffer
  tw_cleanup_key_ctx :: bool
  tw_original_wrap_keydata :: key2

text \<open>The members of \<^verbatim>\<open>struct tls_options\<close> used here; the verification script is given the metadata type and the file's bytes.\<close>

record tls_verify_options =
  tv_max_age :: int
  tv_verify_script :: "(int \<Rightarrow> bytes \<Rightarrow> bool) option"

definition tls_crypt_v2_check_client_key_age :: "int \<Rightarrow> tls_wrap_ctx \<Rightarrow> int \<Rightarrow> bool option" where
  "tls_crypt_v2_check_client_key_age now ctx max_days =
     (if buf_len (tw_metadata ctx) < 1 + 8 then Some False
      else do {
        m \<leftarrow> data (tw_metadata ctx);
        t \<leftarrow> mem_get m 0;
        (if t \<noteq> TLS_CRYPT_METADATA_TYPE_TIMESTAMP then Some False
         else do {
           ts \<leftarrow> mem_read m 1 8;
           let age = now - sint (rd64 ts);
           c_assert (- (2 ^ 63) \<le> age \<and> age < 2 ^ 63);
           Some (\<not> age > max_days * 24 * 60 * 60) }) })"

definition tls_crypt_v2_verify_metadata :: "tls_wrap_ctx \<Rightarrow> (int \<Rightarrow> bytes \<Rightarrow> bool) \<Rightarrow> bool option" where
  "tls_crypt_v2_verify_metadata ctx script = do {
     (t, md) \<leftarrow> buf_read_u8 (tw_metadata ctx);
     (if t < 0 then Some False
      else do { bs \<leftarrow> buf_bytes md; Some (script t bs) })
   }"

definition tls_crypt_v2_extract_client_key ::
    "cipher_lib \<Rightarrow> int \<Rightarrow> buffer \<Rightarrow> tls_wrap_ctx \<Rightarrow> tls_verify_options option \<Rightarrow> bool
       \<Rightarrow> (bool \<times> buffer \<times> tls_wrap_ctx) option" where
  "tls_crypt_v2_extract_client_key lib now buf ctx opt initial_packet =
     (if kc_cipher (tw_server_key ctx) = None then Some (False, buf, ctx)
      else let (ok, wkc) = buf_advance buf 1 in
      if \<not> ok \<or> buf_len wkc < 1 + 2 then Some (False, buf, ctx)
      else do {
        bs \<leftarrow> buf_bytes wkc;
        let wkc_len = uint (rd16 (drop (length bs - 2) bs));
        let (ok, wkc) = buf_advance wkc (buf_len wkc - wkc_len);
        (if \<not> ok then Some (False, buf, ctx)
         else if \<not> initial_packet then do {
           let (ok, buf) = buf_inc_len buf (- buf_len wkc);
           c_assert ok;
           Some (True, buf, ctx) }
         else do {
           md \<leftarrow> alloc_buf TLS_CRYPT_V2_MAX_METADATA_LEN;
           (ok, keydata, md) \<leftarrow> tls_crypt_v2_unwrap_client_key lib md wkc (tw_server_key ctx);
           let ctx = ctx\<lparr>tw_metadata := md, tw_original_wrap_keydata := keydata\<rparr>;
           let failed = Some (False, buf, ctx\<lparr>tw_original_wrap_keydata := key2_zero\<rparr>);
           (if \<not> ok then failed
            else do {
              age_ok \<leftarrow> (case opt of Some o1 \<Rightarrow> if tv_max_age o1 > 0 then tls_crypt_v2_check_client_key_age now ctx (tv_max_age o1) else Some True
                         | None \<Rightarrow> Some True);
              (if \<not> age_ok then failed
               else do {
                 verified \<leftarrow> (case opt of Some o1 \<Rightarrow> (case tv_verify_script o1 of Some script \<Rightarrow> tls_crypt_v2_verify_metadata ctx script
                                                | None \<Rightarrow> Some True)
                              | None \<Rightarrow> Some True);
                 (if \<not> verified then failed
                  else do {
                    co \<leftarrow> tls_crypt_v2_load_client_key ((tw_opt ctx)\<lparr>co_packet_id_long_form := True\<rparr>) keydata True;
                    let ctx = ctx\<lparr>tw_mode := TLS_WRAP_CRYPT, tw_cleanup_key_ctx := True, tw_opt := co\<rparr>;
                    let (ok, buf) = buf_inc_len buf (- buf_len wkc);
                    c_assert ok;
                    Some (True, buf, ctx) }) }) }) }) })"

text \<open>
  \<^verbatim>\<open>tls_session_generate_dynamic_tls_crypt_key\<close>: the wrapping context for renegotiations. \<open>exported\<close> is what
  the TLS library's key exporter returns, \<open>wrap\<close> and \<open>reneg\<close> are the session's two contexts.
\<close>

definition tls_session_generate_dynamic_tls_crypt_key ::
    "bytes option \<Rightarrow> int \<Rightarrow> int \<Rightarrow> int \<Rightarrow> int \<Rightarrow> bool \<Rightarrow> tls_wrap_ctx \<Rightarrow> tls_wrap_ctx \<Rightarrow> (bool \<times> tls_wrap_ctx) option" where
  "tls_session_generate_dynamic_tls_crypt_key exported buf_size replay_window replay_time key_id server wrap reneg =
     (case exported of
        None \<Rightarrow> Some (False, reneg)
      | Some bs \<Rightarrow> do {
          let rengokeys = key2_of_bytes bs;
          work \<leftarrow> alloc_buf (nat buf_size);
          pid \<leftarrow> packet_id_init replay_window replay_time ''TLS_WRAP_RENEG'' key_id;
          rengokeys \<leftarrow> (if tw_mode wrap = TLS_WRAP_CRYPT \<or> tw_mode wrap = TLS_WRAP_AUTH
                        then xor_key2 rengokeys (tw_original_wrap_keydata wrap) else Some rengokeys);
          co \<leftarrow> init_key_ctx_bi ((tw_opt wrap)\<lparr>co_pid_persist := None, co_packet_id := pid\<rparr>) rengokeys
                 (if server then KEY_DIRECTION_NORMAL else KEY_DIRECTION_INVERSE) tls_crypt_kt;
          Some (True, reneg\<lparr>tw_opt := co, tw_mode := TLS_WRAP_CRYPT, tw_cleanup_key_ctx := True, tw_work := work\<rparr>) })"

section \<open>Wrapped packets\<close>

text \<open>
  Documented behaviour of AES-256-CTR and HMAC-SHA256: a stream cipher that never fails, keeps the
  length of every chunk, has nothing left for the final call and undoes itself.
\<close>

definition ctr_lib_ok :: "cipher_lib \<Rightarrow> bool" where
  "ctr_lib_ok lib \<longleftrightarrow> cl_iv_len lib = 16 \<and> cl_hmac_size lib = 32 \<and> (\<forall>k m. length (cl_hmac lib k m) = 32)
     \<and> 0 \<le> cl_block_size lib \<and> cl_block_size lib \<le> 16
     \<and> (\<forall>k iv cs outs fin. length iv = 16 \<and> cl_seal lib k iv cs = (outs, fin) \<longrightarrow>
          fin = [] \<and> map length outs = map length cs \<and> cl_open lib k iv (concat outs) = Some (concat cs, Some []))
     \<and> (\<forall>k iv c. length iv = 16 \<longrightarrow> (\<exists>p. cl_open lib k iv c = Some (p, Some []) \<and> length p = length c))"

lemmas tc_consts = TLS_CRYPT_TAG_SIZE_def TLS_CRYPT_PID_SIZE_def TLS_CRYPT_BLOCK_SIZE_def TLS_CRYPT_OFF_PID_def
  TLS_CRYPT_OFF_TAG_def TLS_CRYPT_OFF_CT_def SID_SIZE_def

lemma ctr_seal:
  assumes "ctr_lib_ok lib" "length iv = 16"
  obtains outs where "cl_seal lib k iv cs = (outs, [])" "map length outs = map length cs"
    "cl_open lib k iv (concat outs) = Some (concat cs, Some [])"
  using assms unfolding ctr_lib_ok_def by (metis surj_pair)

lemma ctr_open:
  assumes "ctr_lib_ok lib" "length iv = 16"
  obtains p where "cl_open lib k iv c = Some (p, Some [])" "length p = length c"
  using assms unfolding ctr_lib_ok_def by metis

lemma put_output_nil: "buf_live b \<Longrightarrow> put_output b (offset b) [] = Some b"
proof (erule buf_live_Some)
  fix m
  assume m: "data b = Some m" "0 \<le> offset b" "0 \<le> len b" "offset b + len b \<le> int (length m)" "capacity b = int (length m)"
    "capacity b < BUF_SIZE_MAX" "buf_valid b"
  then have "buf_store b (offset b) [] = Some b" by (cases b) (simp add: buf_store_def mem_write_def)
  with m show ?thesis by (simp add: put_output_def buf_inc_len_def buf_safe_bidir_def buf_size_valid_signed_def BUF_SIZE_MAX_def)
qed

lemma put_output_append:
  assumes "buf_live b" "length out \<le> buf_room b"
  shows "\<exists>b'. put_output b (offset b + len b) out = Some b' \<and> buf_live b' \<and> buf_content b' = buf_content b @ out
     \<and> buf_room b' = buf_room b - length out \<and> offset b' = offset b \<and> capacity b' = capacity b"
  using put_output_write [OF assms refl] by (auto simp: buf_room_def)

text \<open>A wrapped packet: authenticated header, packet id, tag and ciphertext.\<close>

definition wrapped :: "cipher_lib \<Rightarrow> bytes \<Rightarrow> bytes \<Rightarrow> bytes \<Rightarrow> bytes \<Rightarrow> bytes" where
  "wrapped lib key hk ad plain =
     (let tag = cl_hmac lib hk (ad @ plain)
      in ad @ tag @ concat (fst (cl_seal lib key (take 16 tag) [plain])))"

lemma tls_crypt_wrap_ok:
  assumes lib: "ctr_lib_ok lib" and k: "kc_cipher (co_encrypt opt) = Some key" "kc_hmac (co_encrypt opt) = Some hk"
    and init: "packet_id_initialized (co_packet_id opt)"
    and upd: "packet_id_send_update now (pid_send (co_packet_id opt)) True = (True, p)"
    and src: "buf_live src" and dst: "buf_live dst" "length (buf_content src) + 56 \<le> buf_room dst"
  shows "\<exists>d. tls_crypt_wrap lib now src dst opt = Some (True, d, set_pid_send p opt) \<and> buf_live d
     \<and> buf_content d = wrapped lib key hk (buf_content dst @ pid_header p True) (buf_content src)
     \<and> offset d = offset dst \<and> capacity d = capacity dst"
proof -
  let ?P = "buf_content src" and ?A = "buf_content dst @ pid_header p True"
  let ?t = "cl_hmac lib hk (?A @ ?P)"
  have l: "cl_iv_len lib = 16" "cl_hmac_size lib = 32" "length ?t = 32" using lib by (simp_all add: ctr_lib_ok_def)
  have "nat (packet_id_size True) \<le> (if False then buf_headroom dst else buf_room dst)" using dst(2) by (simp add: packet_id_size_def)
  from packet_id_write_ok [OF dst(1) upd this] obtain d1 where
    d1: "packet_id_write now (pid_send (co_packet_id opt)) dst True False = Some (True, p, d1)" "buf_live d1" "buf_content d1 = ?A"
      "buf_room d1 = buf_room dst - 8" "buf_headroom d1 = buf_headroom dst" by (auto simp: pid_header_def packet_id_size_def)
  have safe: "buf_safe d1 (buf_len src + int TLS_CRYPT_BLOCK_SIZE + int TLS_CRYPT_TAG_SIZE)"
  proof -
    have "buf_len src + int TLS_CRYPT_BLOCK_SIZE + int TLS_CRYPT_TAG_SIZE = int (length ?P + 48)"
      by (simp add: tc_consts buf_len_live [OF src])
    then show ?thesis using buf_safe_room [OF d1(2), of "length ?P + 48"] d1(4) dst(2) by simp
  qed
  have "32 \<le> buf_room d1" using d1(4) dst(2) by simp
  from buf_write_alloc_live [OF d1(2) this] obtain d2 stale where
    d2: "buf_write_alloc d1 32 = (Some (offset d1 + len d1), d2)" "buf_live d2" "length stale = 32" "buf_content d2 = ?A @ stale"
      "offset d2 = offset d1" "capacity d2 = capacity d1" "len d2 = len d1 + 32" using d1(3) by auto
  have "offset d1 + len d1 = offset d2 + int (length ?A)" using len_buf_content [OF d1(2)] d1(3) d2(5) by simp
  from buf_store_inside [OF d2(2), of ?A stale "[]" ?t, OF _ _ this] d2 l(3) obtain d3 where
    d3: "buf_store d2 (offset d1 + len d1) ?t = Some d3" "buf_live d3" "buf_content d3 = ?A @ ?t" "offset d3 = offset d2"
      "len d3 = len d2" "capacity d3 = capacity d2" by auto
  have iv: "length (take 16 ?t) = 16" using l(3) by simp
  obtain outs where seal: "cl_seal lib key (take 16 ?t) [?P] = (outs, [])" "map length outs = map length [?P]"
    using ctr_seal [OF lib iv] by metis
  then obtain C where C: "outs = [C]" "length C = length ?P" by (cases outs) auto
  have "buf_room d1 = buf_room d3 + 32" using d3(4-6) d2(5-7) \<open>32 \<le> buf_room d1\<close> by (simp add: buf_room_def)
  then have "length C \<le> buf_room d3" using C(2) d1(4) dst(2) by simp
  from put_output_write [OF d3(2) this, of "offset d3 + len d3"] obtain d4 where
    d4: "put_output d3 (offset d3 + len d3) C = Some d4" "buf_live d4" "buf_content d4 = ?A @ ?t @ C" "offset d4 = offset d3"
      "capacity d4 = capacity d3" using d3(3) by auto
  have "tls_crypt_wrap lib now src dst opt = Some (True, d4, set_pid_send p opt)"
    using k init l d1 safe d2(1) d3(1) seal(1) C(1) d4(1) put_output_nil [OF d4(2)] buf_bend_live [OF d3(2)] buf_bptr_live [OF d4(2)]
      buf_bytes_live [OF d1(2)] buf_bytes_live [OF src]
    by (simp add: tls_crypt_wrap_def TLS_CRYPT_TAG_SIZE_def Let_def)
  moreover have "offset d1 = offset dst" "capacity d1 = capacity dst"
    using d1 dst buf_extent [OF dst(1)] buf_extent [OF d1(2)] by (simp_all add: packet_id_size_def)
  ultimately show ?thesis using d4 d3 d2 seal(1) C(1) by (simp add: wrapped_def Let_def)
qed

text \<open>The fields of an incoming packet.\<close>

definition tc_tag :: "bytes \<Rightarrow> bytes" where "tc_tag bs = take 32 (drop 17 bs)"

definition tc_plain :: "cipher_lib \<Rightarrow> bytes \<Rightarrow> bytes \<Rightarrow> bytes" where
  "tc_plain lib key bs = fst (the (cl_open lib key (take 16 (tc_tag bs)) (drop 49 bs)))"

definition tc_pid :: "bytes \<Rightarrow> packet_id_net" where
  "tc_pid bs = \<lparr>net_id = ucast (rd32 (take 4 (drop 9 bs))), net_time = uint (rd32 (take 4 (drop 13 bs)))\<rparr>"

definition tc_authentic :: "cipher_lib \<Rightarrow> bytes \<Rightarrow> bytes \<Rightarrow> bytes \<Rightarrow> bool" where
  "tc_authentic lib key hk bs \<longleftrightarrow> 49 \<le> length bs \<and> cl_hmac lib hk (take 17 bs @ tc_plain lib key bs) = tc_tag bs"

lemma packet_id_read_fields:
  assumes "buf_live b" "buf_content b = drop 9 bs" "17 \<le> length bs"
  shows "\<exists>b'. packet_id_read b True = Some (True, tc_pid bs, b')"
proof -
  have "drop 4 (drop 9 bs) = drop 13 bs" "drop 4 (drop 13 bs) = drop 17 bs" by simp_all
  then have c: "drop 9 bs = take 4 (drop 9 bs) @ drop 13 bs" "drop 13 bs = take 4 (drop 13 bs) @ drop 17 bs"
    by (metis append_take_drop_id)+
  have ln: "length (take 4 (drop 9 bs)) = 4" "length (take 4 (drop 13 bs)) = 4" using assms(3) by simp_all
  from wire.get_ok [OF assms(1), of "take 4 (drop 9 bs)" "drop 13 bs"] c(1) ln(1) assms(2) obtain b1 where
    b1: "buf_read b 4 = Some (Some (take 4 (drop 9 bs)), b1)" "buf_live b1" "buf_content b1 = drop 13 bs" by auto
  from wire.get_ok [OF b1(2), of "take 4 (drop 13 bs)" "drop 17 bs"] c(2) ln(2) b1(3) obtain b2 where
    "buf_read b1 4 = Some (Some (take 4 (drop 13 bs)), b2)" by auto
  with b1(1) show ?thesis by (simp add: packet_id_read_def tc_pid_def Let_def)
qed

lemma unwrap_decision:
  assumes lib: "ctr_lib_ok lib" and k: "kc_cipher (co_decrypt opt) = Some key" "kc_hmac (co_decrypt opt) = Some hk"
    and init: "packet_id_initialized (co_packet_id opt)" "\<not> co_ignore_packet_id opt"
    and src: "buf_live src" and dst: "buf_live dst" "buf_content dst = []" "length (buf_content src) \<le> buf_room dst + 33"
  defines "bs \<equiv> buf_content src"
  shows "\<exists>d. tls_crypt_unwrap junk hmac lib now src dst opt =
         (if tc_authentic lib key hk bs then do {
            (ok, opt) \<leftarrow> crypto_check_replay junk hmac now opt (tc_pid bs) 0;
            Some (ok, if ok then d else d\<lparr>len := 0\<rparr>, opt) }
          else Some (False, d\<lparr>len := 0\<rparr>, opt))
     \<and> (tc_authentic lib key hk bs \<longrightarrow> buf_live d \<and> buf_content d = tc_plain lib key bs)"
proof (cases "49 \<le> length bs")
  case False
  then have "buf_len src < int TLS_CRYPT_OFF_CT" by (simp add: tc_consts buf_len_live [OF src] bs_def)
  with False k init show ?thesis by (intro exI [of _ "dst\<lparr>len := 0\<rparr>"]) (simp add: tls_crypt_unwrap_def tc_authentic_def)
next
  case True
  let ?t = "tc_tag bs" and ?P = "tc_plain lib key bs"
  have l: "cl_iv_len lib = 16" "length ?t = 32" using lib True by (simp_all add: ctr_lib_ok_def tc_tag_def)
  have iv: "length (take 16 ?t) = 16" using l(2) by simp
  obtain P where "cl_open lib key (take 16 ?t) (drop 49 bs) = Some (P, Some [])" "length P = length (drop 49 bs)"
    using ctr_open [OF lib iv] by metis
  then have P: "cl_open lib key (take 16 ?t) (drop 49 bs) = Some (?P, Some [])" "length ?P = length bs - 49"
    by (simp_all add: tc_plain_def)
  have long: "\<not> buf_len src < int TLS_CRYPT_OFF_CT" using True by (simp add: tc_consts buf_len_live [OF src] bs_def)
  have safe: "buf_safe dst (buf_len src - int TLS_CRYPT_OFF_CT + int TLS_CRYPT_BLOCK_SIZE)"
  proof -
    have "buf_len src - int TLS_CRYPT_OFF_CT + int TLS_CRYPT_BLOCK_SIZE = int (length bs - 49 + 16)"
      using True by (simp add: tc_consts buf_len_live [OF src] bs_def)
    then show ?thesis using buf_safe_room [OF dst(1), of "length bs - 49 + 16"] dst(3) True by (simp add: bs_def)
  qed
  have "len dst = 0" using len_buf_content [OF dst(1)] dst(2) by simp
  moreover have "length ?P \<le> buf_room dst" using P(2) dst(3) by (simp add: bs_def)
  ultimately obtain d where d: "put_output dst (offset dst) ?P = Some d" "buf_live d" "buf_content d = ?P"
    using put_output_write [OF dst(1), of ?P "offset dst"] dst(2) by auto
  have "bs = take 9 bs @ drop 9 bs" by simp
  with buf_advance_live [OF src, of "take 9 bs" "drop 9 bs" 9] True obtain tmp where
    tmp: "buf_advance src 9 = (True, tmp)" "buf_live tmp" "buf_content tmp = drop 9 bs" by (auto simp: bs_def)
  from packet_id_read_fields [OF tmp(2,3)] True obtain tmp' where
    pid: "packet_id_read tmp True = Some (True, tc_pid bs, tmp')" by auto
  have off: "TLS_CRYPT_OFF_CT = 49" "TLS_CRYPT_OFF_TAG = 17" "TLS_CRYPT_TAG_SIZE = 32" "TLS_CRYPT_OFF_PID = 9"
    by (simp_all add: tc_consts)
  have "tls_crypt_unwrap junk hmac lib now src dst opt =
      (if cl_hmac lib hk (take 17 bs @ ?P) \<noteq> ?t then Some (False, d\<lparr>len := 0\<rparr>, opt)
       else do { (ok, opt) \<leftarrow> crypto_check_replay junk hmac now opt (tc_pid bs) 0;
                 Some (ok, if ok then d else d\<lparr>len := 0\<rparr>, opt) })"
    unfolding tls_crypt_unwrap_def tc_tag_def
    using k init l(1) long safe P(1) d(1) tmp(1) pid put_output_nil [OF d(2)] buf_bptr_live [OF dst(1)] buf_bptr_live [OF d(2)]
      buf_bytes_live [OF src] buf_bytes_live [OF d(2)] d(3)
    by (simp add: off bs_def [symmetric] tc_tag_def)
  with True d show ?thesis by (intro exI [of _ d]) (simp add: tc_authentic_def)
qed

text \<open>Outside the epoch format the replay check is total and remembers what it accepts.\<close>

lemma check_replay_window:
  assumes "pid_window_wf (pid_rec (co_packet_id opt))" "1 < now"
  shows "\<exists>r opt'. crypto_check_replay junk hmac now opt pin 0 = Some (r, opt') \<and> pid_window_wf (pid_rec (co_packet_id opt'))
     \<and> (r \<longrightarrow> \<not> pid_known (pid_rec (co_packet_id opt)) pin \<and> pid_known (pid_rec (co_packet_id opt')) pin)
     \<and> (\<forall>j. pid_known (pid_rec (co_packet_id opt)) j \<longrightarrow> pid_known (pid_rec (co_packet_id opt')) j)"
proof -
  from replay_check_window [OF assms, of pin] obtain r p' where
    "replay_check now (pid_rec (co_packet_id opt)) pin = Some (r, p')" "pid_window_wf p'"
    "\<forall>j. pid_known (pid_rec (co_packet_id opt)) j \<longrightarrow> pid_known p' j"
    "r \<longrightarrow> \<not> pid_known (pid_rec (co_packet_id opt)) pin \<and> pid_known p' pin" by blast
  then show ?thesis by (auto simp: crypto_check_replay_def Let_def)
qed

text \<open>What the sender produces is authentic and has the sender's packet id and payload.\<close>

lemma wrapped_fields:
  assumes lib: "ctr_lib_ok lib" and H: "length H = 9" and bs: "bs = wrapped lib key hk (H @ pid_header p True) P"
  shows "tc_authentic lib key hk bs" "tc_plain lib key bs = P" "tc_pid bs = pid_seen p True" "length bs = length P + 49"
proof -
  let ?A = "H @ pid_header p True"
  let ?t = "cl_hmac lib hk (?A @ P)"
  have t: "length ?t = 32" using lib by (simp add: ctr_lib_ok_def)
  have A: "length ?A = 17" using H by (simp add: packet_id_size_def)
  have iv: "length (take 16 ?t) = 16" using t by simp
  obtain outs where seal: "cl_seal lib key (take 16 ?t) [P] = (outs, [])" "map length outs = map length [P]"
    "cl_open lib key (take 16 ?t) (concat outs) = Some (P, Some [])" by (rule ctr_seal [OF lib iv, of key "[P]"]) simp
  have bs: "bs = ?A @ ?t @ concat outs" unfolding bs wrapped_def Let_def seal(1) by simp
  have d: "take 17 bs = ?A" "drop 17 bs = ?t @ concat outs" "drop 49 bs = concat outs"
    unfolding bs using A t by (simp_all del: append_assoc add: append_assoc [symmetric])
  have tag: "tc_tag bs = ?t" unfolding tc_tag_def d(2) using t by simp
  show P: "tc_plain lib key bs = P" unfolding tc_plain_def tag d(3) seal(3) by simp
  show ln: "length bs = length P + 49" using A t seal(2) unfolding bs by auto
  show "tc_authentic lib key hk bs" unfolding tc_authentic_def tag P d(1) using ln by simp
  have "take 4 (drop 9 bs) = be32 (ucast (send_id p))" "take 4 (drop 13 bs) = be32 (word_of_int (send_time p))"
    unfolding bs using H by (simp_all add: pid_header_def)
  then show "tc_pid bs = pid_seen p True" by (simp add: tc_pid_def pid_seen_def)
qed

section \<open>Wrapped client keys\<close>

definition key2_wf :: "key2 \<Rightarrow> bool" where
  "key2_wf k \<longleftrightarrow> k2_n k = 2 \<and> length (k2_keys k) = 2 \<and> (\<forall>x \<in> set (k2_keys k). length (k_cipher x) = 64 \<and> length (k_hmac x) = 64)"

lemma key2_wf_cases:
  assumes "key2_wf k"
  obtains a b where "k = \<lparr>k2_n = 2, k2_keys = [a, b]\<rparr>" "length (k_cipher a) = 64" "length (k_hmac a) = 64"
    "length (k_cipher b) = 64" "length (k_hmac b) = 64"
proof -
  from assms obtain a b where "k2_keys k = [a, b]" unfolding key2_wf_def numeral_2_eq_2 length_Suc_conv by blast
  with assms that show ?thesis by (cases k) (auto simp: key2_wf_def)
qed

lemma length_key2_bytes: "key2_wf k \<Longrightarrow> length (key2_bytes k) = 256"
  by (erule key2_wf_cases) (simp add: key2_bytes_def)

lemma key2_of_bytes_inverse: "key2_wf k \<Longrightarrow> key2_of_bytes (key2_bytes k @ rest) = k"
proof (erule key2_wf_cases)
  fix a b :: key
  assume k: "k = \<lparr>k2_n = 2, k2_keys = [a, b]\<rparr>" "length (k_cipher a) = 64" "length (k_hmac a) = 64"
    "length (k_cipher b) = 64" "length (k_hmac b) = 64"
  then have "key_of_bytes (key2_bytes k @ rest) = a" "key_of_bytes (drop 128 (key2_bytes k @ rest)) = b"
    by (cases a; cases b; simp add: key2_bytes_def key_of_bytes_def)+
  with k(1) show "key2_of_bytes (key2_bytes k @ rest) = k" by (simp add: key2_of_bytes_def)
qed

lemma max_metadata_len: "TLS_CRYPT_V2_MAX_METADATA_LEN = 734"
  by (simp add: TLS_CRYPT_V2_MAX_METADATA_LEN_def TLS_CRYPT_V2_MAX_WKC_LEN_def TLS_CRYPT_V2_CLIENT_KEY_LEN_def
      TLS_CRYPT_V2_TAG_SIZE_def TLS_CRYPT_TAG_SIZE_def)

text \<open>The wrapped form of a key with its metadata.\<close>

definition wkc_bytes :: "cipher_lib \<Rightarrow> bytes \<Rightarrow> bytes \<Rightarrow> key2 \<Rightarrow> bytes \<Rightarrow> bytes" where
  "wkc_bytes lib key hk k md =
     (let net_len = be16 (word_of_int (int (length md) + 290)); tag = cl_hmac lib hk (net_len @ key2_bytes k @ md)
      in tag @ concat (fst (cl_seal lib key (take 16 tag) [key2_bytes k, md])) @ net_len)"

lemma wkc_outputs:
  assumes w: "buf_live w" and room: "length C1 + length C2 + length nl \<le> buf_room w"
  shows "\<exists>w3 w4 w5 w6. put_output w (offset w + len w) C1 = Some w3 \<and> buf_bend w3 = Some (offset w3 + len w3)
     \<and> put_output w3 (offset w3 + len w3) C2 = Some w4 \<and> buf_bend w4 = Some (offset w4 + len w4)
     \<and> put_output w4 (offset w4 + len w4) [] = Some w5 \<and> buf_write w5 nl = Some (True, w6) \<and> buf_live w6
     \<and> buf_content w6 = buf_content w @ C1 @ C2 @ nl"
proof -
  have "length C1 \<le> buf_room w" using room by simp
  from put_output_append [OF w this] obtain w3 where
    w3: "put_output w (offset w + len w) C1 = Some w3" "buf_live w3" "buf_content w3 = buf_content w @ C1"
      "buf_room w3 = buf_room w - length C1" by auto
  have "length C2 \<le> buf_room w3" using room w3(4) by simp
  from put_output_append [OF w3(2) this] w3(3) obtain w4 where
    w4: "put_output w3 (offset w3 + len w3) C2 = Some w4" "buf_live w4" "buf_content w4 = buf_content w @ C1 @ C2"
      "buf_room w4 = buf_room w3 - length C2" by auto
  from put_output_append [OF w4(2), of "[]"] w4(3) obtain w5 where
    w5: "put_output w4 (offset w4 + len w4) [] = Some w5" "buf_live w5" "buf_content w5 = buf_content w @ C1 @ C2"
      "buf_room w5 = buf_room w4" by auto
  have "length nl \<le> buf_room w5" using room w3(4) w4(4) w5(4) by simp
  from wire.put_ok [OF w5(2) this] w5(3) w3(1) w4(1) w5(1) buf_bend_live [OF w3(2)] buf_bend_live [OF w4(2)] show ?thesis by auto
qed

lemma wrap_client_key_ok:
  assumes lib: "ctr_lib_ok lib" and k: "kc_cipher server_key = Some key" "kc_hmac server_key = Some hk" and wf: "key2_wf src_key"
    and md: "buf_live md" "length (buf_content md) \<le> TLS_CRYPT_V2_MAX_METADATA_LEN"
    and wkc: "buf_live wkc" "TLS_CRYPT_V2_MAX_WKC_LEN \<le> buf_room wkc"
  shows "\<exists>w. tls_crypt_v2_wrap_client_key junk lib wkc src_key md server_key = Some (True, w) \<and> buf_live w
     \<and> buf_content w = buf_content wkc @ wkc_bytes lib key hk src_key (buf_content md)"
proof -
  let ?K = "key2_bytes src_key" and ?M = "buf_content md"
  let ?nl = "be16 (word_of_int (int (length ?M) + 290))"
  let ?t = "cl_hmac lib hk (?nl @ ?K @ ?M)"
  have K: "length ?K = 256" by (rule length_key2_bytes [OF wf])
  have M: "length ?M \<le> 734" using md(2) by (simp only: max_metadata_len)
  have l: "cl_iv_len lib = 16" "length ?t = 32" "0 \<le> cl_block_size lib" "cl_block_size lib \<le> 16" using lib by (simp_all add: ctr_lib_ok_def)
  define n where "n = nat (int TLS_CRYPT_V2_MAX_WKC_LEN + cl_block_size lib)"
  have n: "1024 \<le> n" "int n = 1024 + cl_block_size lib" "n \<le> 1040" using l by (simp_all add: n_def TLS_CRYPT_V2_MAX_WKC_LEN_def)
  obtain w0 where w0: "alloc_buf_gc junk n = Some w0" "buf_live w0" "buf_content w0 = []" "buf_room w0 = n"
    using alloc_buf_gc_live [of n junk] n by (auto simp: BUF_SIZE_MAX_def)
  from buf_write_alloc_live [OF w0(2), of 32] w0 n(1) obtain w1 stale where
    w1: "buf_write_alloc w0 32 = (Some (offset w0 + len w0), w1)" "buf_live w1" "length stale = 32" "buf_content w1 = stale"
      "offset w1 = offset w0" "capacity w1 = capacity w0" "len w1 = len w0 + 32" by auto
  have "offset w0 + len w0 = offset w1" using len_buf_content [OF w0(2)] w0(3) w1(5) by simp
  with buf_store_inside [OF w1(2), of "[]" stale "[]" ?t "offset w0 + len w0"] w1(3,4) l(2) obtain w2 where
    w2: "buf_store w1 (offset w0 + len w0) ?t = Some w2" "buf_live w2" "buf_content w2 = ?t" "offset w2 = offset w1"
      "capacity w2 = capacity w1" by auto
  have r2: "buf_room w2 = n - 32"
    using buf_extent [OF w0(2)] buf_extent [OF w2(2)] w0(3,4) w1(5,6) w2(3-5) l(2) by simp
  have iv: "length (take 16 ?t) = 16" using l(2) by simp
  obtain outs where seal: "cl_seal lib key (take 16 ?t) [?K, ?M] = (outs, [])" "map length outs = map length [?K, ?M]"
    using ctr_seal [OF lib iv] by metis
  then obtain C1 C2 where C: "outs = [C1, C2]" "length C1 = 256" "length C2 = length ?M" using K by auto
  have fwd: "\<not> buf_forward_capacity w2 < buf_len md + 256 + 2 + cl_block_size lib"
    using buf_forward_capacity_room [OF w2(2)] r2 n M buf_len_live [OF md(1)] by simp
  have "length C1 + length C2 + length ?nl \<le> buf_room w2" using C r2 n(1) M by simp
  from wkc_outputs [OF w2(2) this] w2(3) obtain w3 w4 w5 w6 where
    o: "put_output w2 (offset w2 + len w2) C1 = Some w3" "buf_bend w3 = Some (offset w3 + len w3)"
      "put_output w3 (offset w3 + len w3) C2 = Some w4" "buf_bend w4 = Some (offset w4 + len w4)"
      "put_output w4 (offset w4 + len w4) [] = Some w5" "buf_write w5 ?nl = Some (True, w6)" "buf_live w6"
    and w6: "buf_content w6 = ?t @ C1 @ C2 @ ?nl" by auto
  have "length (buf_content w6) \<le> buf_room wkc" using w6 l(2) C M wkc(2) by (simp add: TLS_CRYPT_V2_MAX_WKC_LEN_def)
  from wire.put_ok [OF wkc(1) this] obtain w where
    w: "buf_write wkc (buf_content w6) = Some (True, w)" "buf_live w" "buf_content w = buf_content wkc @ buf_content w6" by auto
  have nl: "be16 (word_of_int (buf_len md + int (length ?K) + 2 + int TLS_CRYPT_TAG_SIZE)) = ?nl"
    by (simp add: K buf_len_live [OF md(1)] TLS_CRYPT_TAG_SIZE_def add.commute)
  have "tls_crypt_v2_wrap_client_key junk lib wkc src_key md server_key = Some (True, w)"
    using k l w0(1) w1(1) w2(1) fwd seal(1) C(1) o w(1) nl K buf_bytes_live [OF md(1)] buf_bytes_live [OF o(7)] buf_bend_live [OF w2(2)]
    by (simp add: tls_crypt_v2_wrap_client_key_def n_def [symmetric] TLS_CRYPT_TAG_SIZE_def buf_copy_def)
  with w w6 seal(1) C(1) show ?thesis by (simp add: wkc_bytes_def Let_def)
qed

lemma length_wkc_bytes:
  assumes lib: "ctr_lib_ok lib" and wf: "key2_wf k"
  shows "length (wkc_bytes lib key hk k md) = length md + 290"
proof -
  let ?t = "cl_hmac lib hk (be16 (word_of_int (int (length md) + 290)) @ key2_bytes k @ md)"
  have t: "length ?t = 32" using lib by (simp add: ctr_lib_ok_def)
  have iv: "length (take 16 ?t) = 16" using t by simp
  obtain outs where "cl_seal lib key (take 16 ?t) [key2_bytes k, md] = (outs, [])" "map length outs = map length [key2_bytes k, md]"
    by (rule ctr_seal [OF lib iv, of key "[key2_bytes k, md]"]) blast
  moreover from this obtain C1 C2 where "outs = [C1, C2]" "length C1 = 256" "length C2 = length md"
    using length_key2_bytes [OF wf] by auto
  ultimately show ?thesis using t by (simp add: wkc_bytes_def Let_def)
qed

lemma unwrap_client_key_ok:
  assumes lib: "ctr_lib_ok lib" and k: "kc_cipher server_key = Some key" "kc_hmac server_key = Some hk" and wf: "key2_wf k"
    and w: "buf_live w" "buf_content w = wkc_bytes lib key hk k md" and md: "length md \<le> TLS_CRYPT_V2_MAX_METADATA_LEN"
    and dst: "buf_live dst" "buf_content dst = []" "length md \<le> buf_room dst"
  shows "\<exists>d. tls_crypt_v2_unwrap_client_key lib dst w server_key = Some (True, k, d) \<and> buf_live d \<and> buf_content d = md"
proof -
  let ?K = "key2_bytes k" and ?nl = "be16 (word_of_int (int (length md) + 290))"
  let ?t = "cl_hmac lib hk (?nl @ ?K @ md)"
  have K: "length ?K = 256" by (rule length_key2_bytes [OF wf])
  have M: "length md \<le> 734" using md by (simp only: max_metadata_len)
  have l: "cl_iv_len lib = 16" "length ?t = 32" using lib by (simp_all add: ctr_lib_ok_def)
  have iv: "length (take 16 ?t) = 16" using l(2) by simp
  obtain outs where seal: "cl_seal lib key (take 16 ?t) [?K, md] = (outs, [])" "map length outs = map length [?K, md]"
    "cl_open lib key (take 16 ?t) (concat outs) = Some (?K @ md, Some [])"
    by (rule ctr_seal [OF lib iv, of key "[?K, md]"]) simp
  let ?C = "concat outs"
  have C: "length ?C = length md + 256" using seal(2) K by auto
  have c: "buf_content w = ?t @ ?C @ ?nl" using w(2) seal(1) by (simp add: wkc_bytes_def Let_def)
  have n: "buf_len w = int (length md + 290)" using buf_len_live [OF w(1)] c l(2) C by simp
  have "uint (word_of_int (int (length md) + 290) :: u16) = int (length md) + 290"
    unfolding uint_word_of_int_eq using M by (intro take_bit_int_eq_self) simp_all
  then have rd: "uint (rd16 ?nl) = int (length md) + 290" by (simp only: rd16_be16)
  have split: "buf_content w = (?t @ ?C) @ ?nl" using c by simp
  note bk = buf_inc_len_back [OF w(1) split]
  let ?w1 = "w\<lparr>len := int (length (?t @ ?C))\<rparr>"
  from buf_advance_live [OF bk(2,3), of 32] l(2) obtain w2 where
    w2: "buf_advance ?w1 32 = (True, w2)" "buf_live w2" "buf_content w2 = ?C" by auto
  obtain pt where pt: "buf_set_write clear_buf (Some (replicate TLS_CRYPT_V2_MAX_WKC_LEN 0)) (int TLS_CRYPT_V2_MAX_WKC_LEN) = Some pt"
    "buf_live pt" "buf_content pt = []" "buf_room pt = 1024"
    using buf_set_write_live [of "replicate TLS_CRYPT_V2_MAX_WKC_LEN 0" clear_buf] by (auto simp: TLS_CRYPT_V2_MAX_WKC_LEN_def BUF_SIZE_MAX_def)
  have bp: "buf_bptr pt = Some (offset pt + len pt)" using buf_bptr_live [OF pt(2)] len_buf_content [OF pt(2)] pt(3) by simp
  have "length (?K @ md) \<le> buf_room pt" using K M pt(4) by simp
  from put_output_append [OF pt(2) this] pt(3) obtain p1 where
    p1: "put_output pt (offset pt + len pt) (?K @ md) = Some p1" "buf_live p1" "buf_content p1 = ?K @ md" by auto
  from put_output_append [OF p1(2), of "[]"] p1(3) obtain p2 where
    p2: "put_output p1 (offset p1 + len p1) [] = Some p2" "buf_live p2" "buf_content p2 = ?K @ md" by auto
  from buf_advance_live [OF p2(2,3), of 256] K obtain p3 where p3: "buf_advance p2 256 = (True, p3)" "buf_live p3" "buf_content p3 = md" by auto
  from wire.put_ok [OF dst(1), of "buf_content p3"] dst(2,3) p3(3) obtain d where
    d: "buf_write dst (buf_content p3) = Some (True, d)" "buf_live d" "buf_content d = md" by auto
  have nl: "drop (nat (buf_len w) - 2) (buf_content w) = ?nl" using n c l(2) C by (simp add: nat_add_distrib)
  have "tls_crypt_v2_unwrap_client_key lib dst w server_key = Some (True, k, d)"
    unfolding tls_crypt_v2_unwrap_client_key_def Let_def buf_bytes_live [OF w(1)]
    using k n rd M bk(1) w2(1) l pt(1) bp p1(1) p2(1) p3(1) d(1) seal(3) c nl K buf_bytes_live [OF w2(2)] w2(3)
      buf_bend_live [OF p1(2)] buf_bytes_live [OF p2(2)] p2(3) buf_bytes_live [OF p3(2)] key2_of_bytes_inverse [OF wf]
    by (simp add: TLS_CRYPT_TAG_SIZE_def TLS_CRYPT_V2_MAX_WKC_LEN_def TLS_CRYPT_V2_CLIENT_KEY_LEN_def buf_copy_def)
  with d show ?thesis by blast
qed

text \<open>The two directions of a key pair: what one end encrypts with, the other decrypts with.\<close>

definition same_keys :: "key_ctx \<Rightarrow> key_ctx \<Rightarrow> bool" where
  "same_keys a b \<longleftrightarrow> kc_cipher a = kc_cipher b \<and> kc_hmac a = kc_hmac b \<and> kc_cipher a \<noteq> None \<and> kc_hmac a \<noteq> None"

lemma load_client_key:
  assumes "key2_wf k"
  shows "\<exists>c. tls_crypt_v2_load_client_key co k server = Some c
     \<and> c = co\<lparr>co_encrypt := co_encrypt c, co_decrypt := co_decrypt c, co_initialized := True\<rparr>
     \<and> kc_cipher (co_encrypt c) = Some (take 32 (k_cipher (k2_keys k ! (if server then 0 else 1))))
     \<and> kc_hmac (co_encrypt c) = Some (take 32 (k_hmac (k2_keys k ! (if server then 0 else 1))))
     \<and> kc_cipher (co_decrypt c) = Some (take 32 (k_cipher (k2_keys k ! (if server then 1 else 0))))
     \<and> kc_hmac (co_decrypt c) = Some (take 32 (k_hmac (k2_keys k ! (if server then 1 else 0))))"
  using assms
  by (elim key2_wf_cases)
     (simp add: tls_crypt_v2_load_client_key_def init_key_ctx_bi_def init_key_bi_ctx_send_def init_key_bi_ctx_recv_def init_key_ctx_def
       key_ctx_update_implicit_iv_def tls_crypt_kt_def key_parameters_from_key_def MAX_CIPHER_KEY_LENGTH_def MAX_HMAC_KEY_LENGTH_def)

lemma load_client_key_directions:
  assumes "key2_wf k" "tls_crypt_v2_load_client_key co k True = Some s" "tls_crypt_v2_load_client_key co' k False = Some c"
  shows "same_keys (co_encrypt s) (co_decrypt c)" "same_keys (co_encrypt c) (co_decrypt s)"
  using load_client_key [OF assms(1), of co True] load_client_key [OF assms(1), of co' False] assms(2,3)
  by (auto simp: same_keys_def)

lemma extract_client_key_ok:
  assumes lib: "ctr_lib_ok lib" and k: "kc_cipher (tw_server_key ctx) = Some key" "kc_hmac (tw_server_key ctx) = Some hk" and wf: "key2_wf k"
    and buf: "buf_live buf" "buf_content buf = A @ wkc_bytes lib key hk k md" "A \<noteq> []"
    and md: "length md \<le> TLS_CRYPT_V2_MAX_METADATA_LEN"
  shows "\<exists>ctx'. tls_crypt_v2_extract_client_key lib now buf ctx None True = Some (True, buf\<lparr>len := int (length A)\<rparr>, ctx')
     \<and> tw_original_wrap_keydata ctx' = k \<and> buf_content (tw_metadata ctx') = md \<and> tw_mode ctx' = TLS_WRAP_CRYPT
     \<and> tls_crypt_v2_load_client_key ((tw_opt ctx)\<lparr>co_packet_id_long_form := True\<rparr>) k True = Some (tw_opt ctx')"
proof -
  let ?W = "wkc_bytes lib key hk k md" and ?nl = "be16 (word_of_int (int (length md) + 290))"
  have M: "length md \<le> 734" using md by (simp only: max_metadata_len)
  have W: "length ?W = length md + 290" by (rule length_wkc_bytes [OF lib wf])
  have "buf_content buf = [hd A] @ tl A @ ?W" using buf(2,3) by (cases A) simp_all
  from buf_advance_live [OF buf(1) this, of 1] obtain w1 where
    w1: "buf_advance buf 1 = (True, w1)" "buf_live w1" "buf_content w1 = tl A @ ?W" by auto
  have n1: "buf_len w1 = int (length (tl A) + length md + 290)" using buf_len_live [OF w1(2)] w1(3) W by simp
  have nl: "drop (length (tl A @ ?W) - 2) (tl A @ ?W) = ?nl" using W by (simp add: wkc_bytes_def Let_def)
  have "uint (word_of_int (int (length md) + 290) :: u16) = int (length md) + 290"
    unfolding uint_word_of_int_eq using M by (intro take_bit_int_eq_self) simp_all
  then have rd: "buf_len w1 - uint (rd16 ?nl) = int (length (tl A))" unfolding rd16_be16 n1 by simp
  from buf_advance_live [OF w1(2,3) refl] obtain w2 where
    w2: "buf_advance w1 (int (length (tl A))) = (True, w2)" "buf_live w2" "buf_content w2 = ?W" by auto
  obtain mb where mb: "alloc_buf TLS_CRYPT_V2_MAX_METADATA_LEN = Some mb"
    using alloc_buf_total [of TLS_CRYPT_V2_MAX_METADATA_LEN] by (auto simp: max_metadata_len BUF_SIZE_MAX_def)
  then have mbl: "buf_live mb" "buf_content mb = []" "length md \<le> buf_room mb"
    using alloc_buf_wf [OF mb] md by (auto simp: buf_live_def buf_room_def)
  from unwrap_client_key_ok [OF lib k wf w2(2,3) md mbl] obtain d where
    d: "tls_crypt_v2_unwrap_client_key lib mb w2 (tw_server_key ctx) = Some (True, k, d)" "buf_content d = md" by blast
  obtain co where co: "tls_crypt_v2_load_client_key ((tw_opt ctx)\<lparr>co_packet_id_long_form := True\<rparr>) k True = Some co"
    using load_client_key [OF wf] by blast
  have inc: "buf_inc_len buf (- buf_len w2) = (True, buf\<lparr>len := int (length A)\<rparr>)"
    using buf_inc_len_back(1) [OF buf(1,2)] buf_len_live [OF w2(2)] w2(3) by simp
  have adv: "\<not> buf_len w1 < 1 + 2"
    "buf_advance w1 (buf_len w1 - uint (rd16 (drop (length (buf_content w1) - 2) (buf_content w1)))) = (True, w2)"
    unfolding w1(3) nl rd using n1 w2(1) by simp_all
  let ?ctx = "ctx\<lparr>tw_metadata := d, tw_original_wrap_keydata := k, tw_mode := TLS_WRAP_CRYPT, tw_cleanup_key_ctx := True, tw_opt := co\<rparr>"
  have "tls_crypt_v2_extract_client_key lib now buf ctx None True = Some (True, buf\<lparr>len := int (length A)\<rparr>, ?ctx)"
    unfolding tls_crypt_v2_extract_client_key_def
    using k w1(1) adv mb d(1) co inc buf_bytes_live [OF w1(2)] by simp
  with d(2) co show ?thesis by (intro exI [of _ ?ctx]) simp
qed

text \<open>Concrete ends: a stream cipher that flips bits and a checksum in place of the HMAC.\<close>

definition toy_ctr :: cipher_lib where
  "toy_ctr = toy_lib\<lparr>cl_iv_len := 16, cl_block_size := 16, cl_hmac := (\<lambda>k m. replicate 32 (of_nat (length k + length m))),
     cl_hmac_size := 32\<rparr>"

lemma toy_ctr_ok: "ctr_lib_ok toy_ctr"
proof -
  have "map (\<lambda>b. b XOR 85) (concat (map (map (\<lambda>b. b XOR 85)) cs)) = concat cs" for cs :: "bytes list"
    by (induction cs) (simp_all add: xor.assoc comp_def)
  then show ?thesis by (simp add: ctr_lib_ok_def toy_ctr_def toy_lib_def)
qed

definition toy_key_ctx :: key_ctx where
  "toy_key_ctx = key_ctx_zero\<lparr>kc_cipher := Some [1], kc_hmac := Some [2]\<rparr>"

definition toy_wrap_co :: crypto_options where
  "toy_wrap_co = demo_co\<lparr>co_encrypt := toy_key_ctx, co_decrypt := toy_key_ctx, co_packet_id_long_form := True, co_epoch_data_format := False\<rparr>"

lemma toy_wrap_co_facts:
  "kc_cipher (co_decrypt toy_wrap_co) = Some [1]" "kc_hmac (co_decrypt toy_wrap_co) = Some [2]"
  "kc_cipher (co_encrypt toy_wrap_co) = Some [1]" "kc_hmac (co_encrypt toy_wrap_co) = Some [2]"
  "packet_id_initialized (co_packet_id toy_wrap_co)" "\<not> co_ignore_packet_id toy_wrap_co"
  "pid_window_wf (pid_rec (co_packet_id toy_wrap_co))"
proof -
  show w: "pid_window_wf (pid_rec (co_packet_id toy_wrap_co))" using demo_rec_wf by (simp add: toy_wrap_co_def demo_co_def pid_epoch_wf_def)
  show "packet_id_initialized (co_packet_id toy_wrap_co)" by code_simp
qed (simp_all add: toy_wrap_co_def toy_key_ctx_def demo_co_def)

definition fresh_buf :: "nat \<Rightarrow> nat \<Rightarrow> buffer" where
  "fresh_buf off n = \<lparr>capacity = int (off + n), offset = int off, len = 0, data = Some (replicate (off + n) 0)\<rparr>"

lemma fresh_buf_live:
  assumes "off + n < 1000000"
  shows "buf_live (fresh_buf off n)" "buf_content (fresh_buf off n) = []" "buf_room (fresh_buf off n) = n" "buf_headroom (fresh_buf off n) = off"
  using assms by (simp_all add: fresh_buf_def buf_live_def buf_wf_def buf_content_def buf_room_def buf_headroom_def BUF_SIZE_MAX_def)

definition full_buf :: "bytes \<Rightarrow> buffer" where
  "full_buf bs = \<lparr>capacity = int (length bs), offset = 0, len = int (length bs), data = Some bs\<rparr>"

lemma full_buf_live:
  assumes "length bs < 1000000"
  shows "buf_live (full_buf bs)" "buf_content (full_buf bs) = bs"
  using assms by (simp_all add: full_buf_def buf_live_def buf_wf_def buf_content_def BUF_SIZE_MAX_def)

section \<open>Properties\<close>

text \<open>C36: a packet is accepted by the control channel decryption only if its tag is the HMAC of its
  header and of the decrypted payload and if its packet id has not been seen before, and then the
  payload delivered is the decrypted one and the id is remembered. Every other packet is refused
  with an empty result, and one that is not authentic leaves the key and replay state as it was.\<close>

theorem tls_crypt_unwrap_verdict:
  assumes lib: "ctr_lib_ok lib" and k: "kc_cipher (co_decrypt opt) = Some key" "kc_hmac (co_decrypt opt) = Some hk"
    and init: "packet_id_initialized (co_packet_id opt)" "\<not> co_ignore_packet_id opt"
    and win: "pid_window_wf (pid_rec (co_packet_id opt))" "1 < now"
    and src: "buf_live src" "buf_content src = bs" and dst: "buf_live dst" "buf_content dst = []" "length bs \<le> buf_room dst + 33"
  shows "\<exists>ok d opt'. tls_crypt_unwrap junk hmac lib now src dst opt = Some (ok, d, opt')
     \<and> (ok \<longrightarrow> tc_authentic lib key hk bs \<and> \<not> pid_known (pid_rec (co_packet_id opt)) (tc_pid bs)
          \<and> pid_known (pid_rec (co_packet_id opt')) (tc_pid bs) \<and> buf_content d = tc_plain lib key bs)
     \<and> (\<not> ok \<longrightarrow> len d = 0) \<and> (\<not> tc_authentic lib key hk bs \<longrightarrow> opt' = opt)"
proof -
  from unwrap_decision [OF lib k init src(1) dst(1,2), of junk hmac now] src(2) dst(3) obtain d where
    d: "tls_crypt_unwrap junk hmac lib now src dst opt =
         (if tc_authentic lib key hk bs then do {
            (ok, opt) \<leftarrow> crypto_check_replay junk hmac now opt (tc_pid bs) 0;
            Some (ok, if ok then d else d\<lparr>len := 0\<rparr>, opt) }
          else Some (False, d\<lparr>len := 0\<rparr>, opt))"
      "tc_authentic lib key hk bs \<Longrightarrow> buf_content d = tc_plain lib key bs" by auto
  from check_replay_window [OF win, of junk hmac "tc_pid bs"] obtain r opt' where
    "crypto_check_replay junk hmac now opt (tc_pid bs) 0 = Some (r, opt')"
    "r \<longrightarrow> \<not> pid_known (pid_rec (co_packet_id opt)) (tc_pid bs) \<and> pid_known (pid_rec (co_packet_id opt')) (tc_pid bs)" by blast
  with d show ?thesis by (cases "tc_authentic lib key hk bs") auto
qed

definition toy_packet :: bytes where
  "toy_packet = replicate 9 3 @ be32 1 @ be32 1000 @ replicate 32 21 @ [7, 8, 9]"

theorem tls_crypt_unwrap_verdict_witness:
  "tc_authentic toy_ctr [1] [2] toy_packet \<and> tc_pid toy_packet = \<lparr>net_id = 1, net_time = 1000\<rparr>
   \<and> (\<exists>ok d opt'. tls_crypt_unwrap (\<lambda>_. 0) demo_hmac toy_ctr 1000 (full_buf toy_packet) (fresh_buf 0 100) toy_wrap_co = Some (ok, d, opt')
     \<and> (ok \<longrightarrow> \<not> pid_known (pid_rec (co_packet_id toy_wrap_co)) (tc_pid toy_packet)
          \<and> pid_known (pid_rec (co_packet_id opt')) (tc_pid toy_packet) \<and> buf_content d = tc_plain toy_ctr [1] toy_packet)
     \<and> (\<not> ok \<longrightarrow> len d = 0))"
proof (intro conjI)
  show "tc_authentic toy_ctr [1] [2] toy_packet" "tc_pid toy_packet = \<lparr>net_id = 1, net_time = 1000\<rparr>" by code_simp+
  have "length toy_packet = 52" by (simp add: toy_packet_def)
  then show "\<exists>ok d opt'. tls_crypt_unwrap (\<lambda>_. 0) demo_hmac toy_ctr 1000 (full_buf toy_packet) (fresh_buf 0 100) toy_wrap_co = Some (ok, d, opt')
     \<and> (ok \<longrightarrow> \<not> pid_known (pid_rec (co_packet_id toy_wrap_co)) (tc_pid toy_packet)
          \<and> pid_known (pid_rec (co_packet_id opt')) (tc_pid toy_packet) \<and> buf_content d = tc_plain toy_ctr [1] toy_packet)
     \<and> (\<not> ok \<longrightarrow> len d = 0)"
    using tls_crypt_unwrap_verdict [OF toy_ctr_ok toy_wrap_co_facts(1,2,5-7), of 1000 "full_buf toy_packet" toy_packet "fresh_buf 0 100" "\<lambda>_. 0" demo_hmac]
      fresh_buf_live [of 0 100] full_buf_live [of toy_packet] by auto
qed

text \<open>a client key wrapped for a server is recovered by it. The server extracts from the first
  packet exactly the key and the metadata, cuts the packet back to the part in front of the wrapped
  key, and the two ends then use matching key material in each direction.\<close>

theorem tls_crypt_v2_key_roundtrip:
  assumes lib: "ctr_lib_ok lib" and k: "kc_cipher server_key = Some key" "kc_hmac server_key = Some hk" and wf: "key2_wf k"
    and md: "buf_live md" "length (buf_content md) \<le> TLS_CRYPT_V2_MAX_METADATA_LEN"
    and wkc: "buf_live wkc" "buf_content wkc = []" "TLS_CRYPT_V2_MAX_WKC_LEN \<le> buf_room wkc"
  shows "\<exists>w. tls_crypt_v2_wrap_client_key junk lib wkc k md server_key = Some (True, w)
     \<and> (\<forall>pkt A ctx co. buf_live pkt \<and> buf_content pkt = A @ buf_content w \<and> A \<noteq> [] \<and> tw_server_key ctx = server_key \<longrightarrow>
          (\<exists>pkt' ctx' client. tls_crypt_v2_extract_client_key lib now pkt ctx None True = Some (True, pkt', ctx')
             \<and> buf_content pkt' = A \<and> tw_original_wrap_keydata ctx' = k \<and> buf_content (tw_metadata ctx') = buf_content md
             \<and> tw_mode ctx' = TLS_WRAP_CRYPT \<and> tls_crypt_v2_load_client_key co k False = Some client
             \<and> same_keys (co_encrypt client) (co_decrypt (tw_opt ctx')) \<and> same_keys (co_encrypt (tw_opt ctx')) (co_decrypt client)))"
proof -
  let ?M = "buf_content md"
  from wrap_client_key_ok [OF lib k wf md wkc(1,3)] wkc(2) obtain w where
    w: "tls_crypt_v2_wrap_client_key junk lib wkc k md server_key = Some (True, w)" "buf_content w = wkc_bytes lib key hk k ?M" by auto
  have "\<exists>pkt' ctx' client. tls_crypt_v2_extract_client_key lib now pkt ctx None True = Some (True, pkt', ctx')
      \<and> buf_content pkt' = A \<and> tw_original_wrap_keydata ctx' = k \<and> buf_content (tw_metadata ctx') = ?M
      \<and> tw_mode ctx' = TLS_WRAP_CRYPT \<and> tls_crypt_v2_load_client_key co k False = Some client
      \<and> same_keys (co_encrypt client) (co_decrypt (tw_opt ctx')) \<and> same_keys (co_encrypt (tw_opt ctx')) (co_decrypt client)"
    if p: "buf_live pkt" "buf_content pkt = A @ buf_content w" "A \<noteq> []" "tw_server_key ctx = server_key" for pkt A ctx co
  proof -
    from p w(2) have c: "buf_content pkt = A @ wkc_bytes lib key hk k ?M" by simp
    from extract_client_key_ok [OF lib _ _ wf p(1) c p(3) md(2), of ctx now] k p(4) obtain ctx' where
      x: "tls_crypt_v2_extract_client_key lib now pkt ctx None True = Some (True, pkt\<lparr>len := int (length A)\<rparr>, ctx')"
        "tw_original_wrap_keydata ctx' = k" "buf_content (tw_metadata ctx') = ?M" "tw_mode ctx' = TLS_WRAP_CRYPT"
        "tls_crypt_v2_load_client_key ((tw_opt ctx)\<lparr>co_packet_id_long_form := True\<rparr>) k True = Some (tw_opt ctx')" by auto
    obtain client where cl: "tls_crypt_v2_load_client_key co k False = Some client" using load_client_key [OF wf] by blast
    from x cl load_client_key_directions [OF wf x(5) cl] buf_inc_len_back(3) [OF p(1) c] show ?thesis by blast
  qed
  with w(1) show ?thesis by blast
qed

definition toy_key2 :: key2 where
  "toy_key2 = \<lparr>k2_n = 2, k2_keys = [\<lparr>k_cipher = replicate 64 1, k_hmac = replicate 64 2\<rparr>, \<lparr>k_cipher = replicate 64 3, k_hmac = replicate 64 4\<rparr>]\<rparr>"

theorem tls_crypt_v2_key_roundtrip_witness:
  "\<exists>w. tls_crypt_v2_wrap_client_key (\<lambda>_. 0) toy_ctr (fresh_buf 0 1100) toy_key2 (full_buf [0, 5]) toy_key_ctx = Some (True, w)
     \<and> (\<forall>pkt A ctx co. buf_live pkt \<and> buf_content pkt = A @ buf_content w \<and> A \<noteq> [] \<and> tw_server_key ctx = toy_key_ctx \<longrightarrow>
          (\<exists>pkt' ctx' client. tls_crypt_v2_extract_client_key toy_ctr 1000 pkt ctx None True = Some (True, pkt', ctx')
             \<and> buf_content pkt' = A \<and> tw_original_wrap_keydata ctx' = toy_key2 \<and> buf_content (tw_metadata ctx') = [0, 5]
             \<and> tw_mode ctx' = TLS_WRAP_CRYPT \<and> tls_crypt_v2_load_client_key co toy_key2 False = Some client
             \<and> same_keys (co_encrypt client) (co_decrypt (tw_opt ctx')) \<and> same_keys (co_encrypt (tw_opt ctx')) (co_decrypt client)))"
proof -
  have "key2_wf toy_key2" by (simp add: key2_wf_def toy_key2_def)
  moreover have "kc_cipher toy_key_ctx = Some [1]" "kc_hmac toy_key_ctx = Some [2]" by (simp_all add: toy_key_ctx_def)
  moreover have "length (buf_content (full_buf [0, 5])) \<le> TLS_CRYPT_V2_MAX_METADATA_LEN" "TLS_CRYPT_V2_MAX_WKC_LEN \<le> buf_room (fresh_buf 0 1100)"
    using full_buf_live [of "[0, 5]"] fresh_buf_live [of 0 1100] by (simp_all add: max_metadata_len TLS_CRYPT_V2_MAX_WKC_LEN_def)
  ultimately show ?thesis
    using tls_crypt_v2_key_roundtrip [OF toy_ctr_ok, of toy_key_ctx "[1]" "[2]" toy_key2 "full_buf [0, 5]" "fresh_buf 0 1100" "\<lambda>_. 0" 1000]
      full_buf_live [of "[0, 5]"] fresh_buf_live [of 0 1100] by simp
qed

end
