(* ===== verification/Ssl_Pkt.thy ===== *)
theory Ssl_Pkt
  imports Control_Channel Tls_Crypt
begin

text \<open>
  Control channel packets on the wire: \<^verbatim>\<open>openvpn/src/openvpn/ssl_pkt.c\<close> and \<^verbatim>\<open>ssl_pkt.h\<close>. Sending adds the
  opcode, the session id and the protection of the configured mode (none, \<^verbatim>\<open>--tls-auth\<close>,
  \<^verbatim>\<open>--tls-crypt\<close>); receiving checks and removes it. The first packets of an unknown peer are
  checked without keeping state: the server's session id is an HMAC over the peer's address, its
  session id and the time, which the peer has to return.

  \<open>junk\<close>, \<open>hmac\<close>, \<open>lib\<close> and \<open>rnd\<close> stand for uninitialised memory, the crypto library and its random
  numbers as in the theories below; \<open>now\<close> is the clock.
\<close>

section \<open>Packet headers and wrapping\<close>

definition P_KEY_ID_MASK :: int where "P_KEY_ID_MASK = 0x07"
definition P_OPCODE_SHIFT :: nat where "P_OPCODE_SHIFT = 3"
definition P_CONTROL_V1 :: int where "P_CONTROL_V1 = 4"
definition P_CONTROL_HARD_RESET_CLIENT_V2 :: int where "P_CONTROL_HARD_RESET_CLIENT_V2 = 7"
definition P_CONTROL_HARD_RESET_CLIENT_V3 :: int where "P_CONTROL_HARD_RESET_CLIENT_V3 = 10"
definition P_CONTROL_WKC_V1 :: int where "P_CONTROL_WKC_V1 = 11"
definition P_LAST_OPCODE :: int where "P_LAST_OPCODE = 11"
definition SWAP_BUF_SIZE :: int where "SWAP_BUF_SIZE = 256"

definition header_op :: "u8 \<Rightarrow> int" where "header_op h = uint (drop_bit P_OPCODE_SHIFT h)"

definition header_key_id :: "u8 \<Rightarrow> int" where "header_key_id h = uint h AND P_KEY_ID_MASK"

text \<open>The byte at \<^verbatim>\<open>BPTR(buf)\<close>.\<close>

definition buf_first :: "buffer \<Rightarrow> u8 option" where
  "buf_first buf = do { p \<leftarrow> buf_bptr buf; m \<leftarrow> data buf; mem_get m p }"

definition swap_hmac :: "cipher_lib \<Rightarrow> buffer \<Rightarrow> crypto_options \<Rightarrow> bool \<Rightarrow> (bool \<times> buffer) option" where
  "swap_hmac lib buf co incoming = do {
     _ \<leftarrow> kc_hmac (if incoming then co_decrypt co else co_encrypt co);
     let hmac_size = int (cl_hmac_size lib) + packet_id_size True;
     let osid_size = 1 + int SID_SIZE;
     let (e1, e2) = (if incoming then (osid_size, hmac_size) else (hmac_size, osid_size));
     c_assert (e1 \<le> SWAP_BUF_SIZE \<and> e2 \<le> SWAP_BUF_SIZE);
     (if len buf \<ge> e1 + e2 then do {
        b \<leftarrow> buf_bptr buf;
        m \<leftarrow> data buf;
        buf1 \<leftarrow> mem_read m b e1;
        buf2 \<leftarrow> mem_read m (b + e1) e2;
        buf \<leftarrow> buf_store buf b buf2;
        buf \<leftarrow> buf_store buf (b + e2) buf1;
        Some (True, buf) }
      else Some (False, buf))
   }"

definition tls_wrap_control ::
    "(nat \<Rightarrow> u8) \<Rightarrow> hmac_fun \<Rightarrow> cipher_lib \<Rightarrow> (nat \<Rightarrow> u8) \<Rightarrow> int \<Rightarrow> tls_wrap_ctx \<Rightarrow> u8 \<Rightarrow> buffer \<Rightarrow> session_id
       \<Rightarrow> (tls_wrap_ctx \<times> buffer) option" where
  "tls_wrap_control junk hmac lib rnd now ctx header buf session_id = do {
     buf \<leftarrow> (if tw_mode ctx = TLS_WRAP_AUTH \<or> tw_mode ctx = TLS_WRAP_NONE then do {
               (ok, buf) \<leftarrow> session_id_write_prepend session_id buf;
               c_assert ok;
               (ok, buf) \<leftarrow> buf_write_prepend buf [header];
               c_assert ok;
               Some buf }
             else Some buf);
     (case tw_mode ctx of
        TLS_WRAP_NONE \<Rightarrow> Some (ctx, buf)
      | TLS_WRAP_AUTH \<Rightarrow> do {
          (buf, opt) \<leftarrow> openvpn_encrypt junk hmac lib rnd now buf clear_buf (tw_opt ctx);
          (ok, buf) \<leftarrow> swap_hmac lib buf opt False;
          c_assert ok;
          Some (ctx\<lparr>tw_opt := opt\<rparr>, buf) }
      | TLS_WRAP_CRYPT \<Rightarrow> do {
          let (ok, work) = buf_init_dowork (tw_work ctx) (offset buf);
          c_assert ok;
          (ok, work) \<leftarrow> buf_write work [header];
          c_assert ok;
          (ok, work) \<leftarrow> session_id_write session_id work;
          c_assert ok;
          (ok, work, opt) \<leftarrow> tls_crypt_wrap lib now buf work (tw_opt ctx);
          let ctx = ctx\<lparr>tw_work := work, tw_opt := opt\<rparr>;
          (if \<not> ok then Some (ctx, buf\<lparr>len := 0\<rparr>)
           else if header_op header = P_CONTROL_HARD_RESET_CLIENT_V3 \<or> header_op header = P_CONTROL_WKC_V1 then do {
             wkc \<leftarrow> tw_wkc ctx;
             (ok, work) \<leftarrow> buf_copy work wkc;
             let ctx = ctx\<lparr>tw_work := work\<rparr>;
             Some (ctx, if ok then work else buf\<lparr>len := 0\<rparr>) }
           else Some (ctx, work)) })
   }"

definition read_control_auth ::
    "(nat \<Rightarrow> u8) \<Rightarrow> hmac_fun \<Rightarrow> cipher_lib \<Rightarrow> int \<Rightarrow> buffer \<Rightarrow> tls_wrap_ctx \<Rightarrow> tls_verify_options option \<Rightarrow> bool
       \<Rightarrow> (bool \<times> buffer \<times> tls_wrap_ctx) option" where
  "read_control_auth junk hmac lib now buf ctx opt initial_packet = do {
     first \<leftarrow> buf_first buf;
     let opcode = header_op first;
     (ok, buf, ctx) \<leftarrow>
       (if opcode = P_CONTROL_HARD_RESET_CLIENT_V3 \<or> opcode = P_CONTROL_WKC_V1
        then tls_crypt_v2_extract_client_key lib now buf ctx opt initial_packet else Some (True, buf, ctx));
     (if \<not> ok then Some (False, buf, ctx)
      else case tw_mode ctx of
        TLS_WRAP_AUTH \<Rightarrow> do {
          (ok, buf) \<leftarrow> swap_hmac lib buf (tw_opt ctx) True;
          (if \<not> ok then Some (False, buf, ctx)
           else do {
             ad \<leftarrow> buf_bptr buf;
             (_, buf, co) \<leftarrow> openvpn_decrypt junk hmac lib now None ad buf clear_buf (tw_opt ctx);
             let ctx = ctx\<lparr>tw_opt := co\<rparr>;
             (if len buf = 0 then Some (False, buf, ctx)
              else Some (True, snd (buf_advance buf (int SID_SIZE + 1)), ctx)) }) }
      | TLS_WRAP_CRYPT \<Rightarrow> do {
          tmp \<leftarrow> alloc_buf_gc junk (nat (buf_forward_capacity_total buf));
          (ok, tmp, co) \<leftarrow> tls_crypt_unwrap junk hmac lib now buf tmp (tw_opt ctx);
          let ctx = ctx\<lparr>tw_opt := co\<rparr>;
          (if \<not> ok then Some (False, buf, ctx)
           else do {
             let (ok, buf) = buf_init_dowork buf (offset buf);
             c_assert ok;
             (ok, buf) \<leftarrow> buf_copy buf tmp;
             c_assert ok;
             Some (True, buf, ctx) }) }
      | TLS_WRAP_NONE \<Rightarrow>
          if kc_cipher (tw_server_key ctx) \<noteq> None then Some (False, buf, ctx)
          else Some (True, snd (buf_advance buf (int SID_SIZE + 1)), ctx))
   }"

section \<open>Writing for a session\<close>

text \<open>The members of \<^verbatim>\<open>struct tls_session\<close> and \<^verbatim>\<open>struct key_state\<close> that \<^verbatim>\<open>write_control_auth\<close> uses.\<close>

record control_session =
  cs_wrap :: tls_wrap_ctx
  cs_wrap_reneg :: tls_wrap_ctx
  cs_session_id :: session_id
  cs_server :: bool
  cs_key_material_export :: bool
  cs_key_id :: int
  cs_remote_addr_defined :: bool
  cs_rec_ack :: reliable_ack
  cs_lru_acks :: reliable_ack
  cs_session_id_remote :: session_id

definition uses_reneg :: "control_session \<Rightarrow> int \<Rightarrow> bool" where
  "uses_reneg s key_id \<longleftrightarrow> key_id > 0 \<and> tw_mode (cs_wrap_reneg s) = TLS_WRAP_CRYPT"

definition tls_session_get_tls_wrap :: "control_session \<Rightarrow> int \<Rightarrow> tls_wrap_ctx" where
  "tls_session_get_tls_wrap s key_id = (if uses_reneg s key_id then cs_wrap_reneg s else cs_wrap s)"

definition set_tls_wrap :: "control_session \<Rightarrow> int \<Rightarrow> tls_wrap_ctx \<Rightarrow> control_session" where
  "set_tls_wrap s key_id ctx = (if uses_reneg s key_id then s\<lparr>cs_wrap_reneg := ctx\<rparr> else s\<lparr>cs_wrap := ctx\<rparr>)"

definition write_control_auth ::
    "(nat \<Rightarrow> u8) \<Rightarrow> hmac_fun \<Rightarrow> cipher_lib \<Rightarrow> (nat \<Rightarrow> u8) \<Rightarrow> int \<Rightarrow> control_session \<Rightarrow> buffer \<Rightarrow> int \<Rightarrow> int \<Rightarrow> bool
       \<Rightarrow> (control_session \<times> buffer) option" where
  "write_control_auth junk hmac lib rnd now s buf opcode max_ack prepend_ack = do {
     c_assert (cs_key_id s \<ge> 0 \<and> cs_key_id s \<le> P_KEY_ID_MASK);
     c_assert (opcode \<ge> 0 \<and> opcode \<le> P_LAST_OPCODE);
     let header = word_of_int (cs_key_id s OR push_bit P_OPCODE_SHIFT opcode);
     let max_ack = (if tw_mode (cs_wrap s) = TLS_WRAP_NONE \<and> \<not> cs_server s \<and> \<not> cs_key_material_export s
                    then min_int max_ack 4 else max_ack);
     c_assert (cs_remote_addr_defined s);
     (ok, ack, mru, buf) \<leftarrow> reliable_ack_write (cs_rec_ack s) (cs_lru_acks s) buf (cs_session_id_remote s) max_ack prepend_ack;
     c_assert ok;
     let s = s\<lparr>cs_rec_ack := ack, cs_lru_acks := mru\<rparr>;
     (ctx, buf) \<leftarrow> tls_wrap_control junk hmac lib rnd now (tls_session_get_tls_wrap s (cs_key_id s)) header buf (cs_session_id s);
     Some (set_tls_wrap s (cs_key_id s) ctx, buf)
   }"

section \<open>First packets of a peer\<close>

record tls_pre_decrypt_state =
  pd_wrap :: tls_wrap_ctx
  pd_newbuf :: buffer
  pd_peer_session_id :: session_id
  pd_server_session_id :: session_id

record tls_auth_standalone =
  tas_wrap :: tls_wrap_ctx
  tas_workbuf :: buffer
  tas_headroom :: int

datatype first_packet_verdict = VERDICT_VALID_RESET_V2 | VERDICT_VALID_RESET_V3 | VERDICT_VALID_CONTROL_V1 | VERDICT_VALID_ACK_V1
  | VERDICT_VALID_WKC_V1 | VERDICT_INVALID

definition free_tls_pre_decrypt_state :: "tls_pre_decrypt_state \<Rightarrow> tls_pre_decrypt_state" where
  "free_tls_pre_decrypt_state st =
     (let w = (pd_wrap st)\<lparr>tw_metadata := free_buf (tw_metadata (pd_wrap st))\<rparr>
      in st\<lparr>pd_newbuf := free_buf (pd_newbuf st),
            pd_wrap := (if tw_cleanup_key_ctx w
                        then w\<lparr>tw_opt := free_key_ctx_bi (tw_opt w), tw_original_wrap_keydata := key2_zero\<rparr> else w)\<rparr>)"

definition tls_pre_decrypt_lite ::
    "(nat \<Rightarrow> u8) \<Rightarrow> hmac_fun \<Rightarrow> cipher_lib \<Rightarrow> int \<Rightarrow> tls_auth_standalone \<Rightarrow> tls_pre_decrypt_state \<Rightarrow> buffer
       \<Rightarrow> (first_packet_verdict \<times> tls_pre_decrypt_state) option" where
  "tls_pre_decrypt_lite junk hmac lib now tas st buf =
     (if buf_len buf < 1 + int SID_SIZE then Some (VERDICT_INVALID, st)
      else do {
        first \<leftarrow> buf_first buf;
        let op = header_op first;
        (if op \<noteq> P_CONTROL_HARD_RESET_CLIENT_V2 \<and> op \<noteq> P_CONTROL_HARD_RESET_CLIENT_V3 \<and> op \<noteq> P_CONTROL_V1
             \<and> op \<noteq> P_CONTROL_WKC_V1 \<and> op \<noteq> P_ACK_V1 \<or> header_key_id first \<noteq> 0
         then Some (VERDICT_INVALID, st)
         else do {
           (sid, _) \<leftarrow> session_id_read (snd (buf_advance buf 1));
           let st = (case sid of None \<Rightarrow> st | Some sid \<Rightarrow> st\<lparr>pd_peer_session_id := sid\<rparr>);
           (if sid = None \<or> \<not> session_id_defined (pd_peer_session_id st) then Some (VERDICT_INVALID, st)
            else do {
              newbuf \<leftarrow> clone_buf junk buf;
              (status, newbuf, wrap) \<leftarrow> read_control_auth junk hmac lib now newbuf (tas_wrap tas) None True;
              let st = st\<lparr>pd_newbuf := newbuf, pd_wrap := wrap\<rparr>;
              Some (if \<not> status then VERDICT_INVALID
                    else if op = P_CONTROL_V1 then VERDICT_VALID_CONTROL_V1
                    else if op = P_ACK_V1 then VERDICT_VALID_ACK_V1
                    else if op = P_CONTROL_HARD_RESET_CLIENT_V3 then VERDICT_VALID_RESET_V3
                    else if op = P_CONTROL_WKC_V1 then VERDICT_VALID_WKC_V1
                    else VERDICT_VALID_RESET_V2, st) }) }) })"

definition tls_reset_standalone ::
    "(nat \<Rightarrow> u8) \<Rightarrow> hmac_fun \<Rightarrow> cipher_lib \<Rightarrow> (nat \<Rightarrow> u8) \<Rightarrow> int \<Rightarrow> tls_wrap_ctx \<Rightarrow> tls_auth_standalone
       \<Rightarrow> session_id \<Rightarrow> session_id \<Rightarrow> u8 \<Rightarrow> bool \<Rightarrow> (tls_wrap_ctx \<times> buffer) option" where
  "tls_reset_standalone junk hmac lib rnd now ctx tas own_sid remote_sid header request_resend_wkc = do {
     let (ok, buf) = buf_init_dowork (tas_workbuf tas) (tas_headroom tas);
     c_assert ok;
     (_, buf) \<leftarrow> buf_write_u8 buf 1;
     (_, buf) \<leftarrow> buf_write_u32 buf 0;
     (_, buf) \<leftarrow> buf_write buf (take SID_SIZE remote_sid);
     (ok, buf) \<leftarrow> buf_write buf (be32 0);
     c_assert ok;
     buf \<leftarrow> (if request_resend_wkc then do {
               (_, buf) \<leftarrow> buf_write_u16 buf (word_of_int TLV_TYPE_EARLY_NEG_FLAGS);
               (_, buf) \<leftarrow> buf_write_u16 buf 2;
               (_, buf) \<leftarrow> buf_write_u16 buf (word_of_int EARLY_NEG_FLAG_RESEND_WKC);
               Some buf }
             else Some buf);
     tls_wrap_control junk hmac lib rnd now ctx header buf own_sid
   }"

text \<open>
  The memory of a peer's socket address, by family. \<open>mac\<close> is HMAC-SHA256 under the server's random
  key; the time slot is hashed in network order.
\<close>

datatype sockaddr = AF_INET bytes | AF_INET6 bytes | AF_OTHER

fun sockaddr_bytes :: "sockaddr \<Rightarrow> bytes" where
  "sockaddr_bytes (AF_INET bs) = bs"
| "sockaddr_bytes (AF_INET6 bs) = bs"
| "sockaddr_bytes AF_OTHER = []"

definition calculate_session_id_hmac ::
    "int \<Rightarrow> session_id \<Rightarrow> sockaddr \<Rightarrow> (bytes \<Rightarrow> bytes) \<Rightarrow> int \<Rightarrow> int \<Rightarrow> session_id option" where
  "calculate_session_id_hmac now client_sid from mac handwindow slot = do {
     c_assert ((handwindow + 1) div 2 \<noteq> 0);
     let session_id_time = (word_of_int (now div ((handwindow + 1) div 2) + slot) :: u32);
     Some (take SID_SIZE (mac (be32 session_id_time @ sockaddr_bytes from @ take SID_SIZE client_sid)))
   }"

definition check_session_hmac_and_pkt_id ::
    "int \<Rightarrow> tls_pre_decrypt_state \<Rightarrow> sockaddr option \<Rightarrow> (bytes \<Rightarrow> bytes) \<Rightarrow> int \<Rightarrow> bool \<Rightarrow> (bool \<times> tls_pre_decrypt_state) option" where
  "check_session_hmac_and_pkt_id now st from mac handwindow pkt_is_ack =
     (case from of
        None \<Rightarrow> Some (False, st)
      | Some addr \<Rightarrow> do {
          (ok, ack, sid, buf) \<leftarrow> reliable_ack_parse (pd_newbuf st) (pd_server_session_id st);
          let st = st\<lparr>pd_server_session_id := sid\<rparr>;
          (if \<not> ok \<or> (\<exists>i \<in> set ack. i > 1) then Some (False, st)
           else do {
             pid_ok \<leftarrow> (if pkt_is_ack then Some True
                        else do {
                          (message_id, buf) \<leftarrow> reliable_ack_read_packet_id buf;
                          Some (case message_id of None \<Rightarrow> False | Some i \<Rightarrow> \<not> i > 1) });
             (if \<not> pid_ok then Some (False, st)
              else do {
                e2 \<leftarrow> calculate_session_id_hmac now (pd_peer_session_id st) addr mac handwindow (- 2);
                e1 \<leftarrow> calculate_session_id_hmac now (pd_peer_session_id st) addr mac handwindow (- 1);
                e0 \<leftarrow> calculate_session_id_hmac now (pd_peer_session_id st) addr mac handwindow 0;
                Some (e2 = pd_server_session_id st \<or> e1 = pd_server_session_id st \<or> e0 = pd_server_session_id st, st) }) }) })"

section \<open>Wrapping is undone by reading\<close>

lemma buf_first_live:
  assumes b: "buf_live b" "buf_content b = x # xs"
  shows "buf_first b = Some x"
proof -
  from b(1) obtain m where m: "data b = Some m" "0 \<le> offset b" by (rule buf_live_Some)
  have "mem_read m (offset b) 1 = Some [x]"
    using mem_read_content [OF b(1) m(1), of 0 1] b(2) len_buf_content [OF b(1)] by simp
  then have "offset b + 1 \<le> int (length m)" "take 1 (drop (nat (offset b)) m) = [x]" by (auto simp: mem_read_def split: if_splits)
  moreover from this have "m ! nat (offset b) = x" using m(2) nth_take [of 0 1 "drop (nat (offset b)) m"] by simp
  ultimately show ?thesis using m buf_bptr_live [OF b(1)] by (simp add: buf_first_def mem_get_def)
qed

lemma swap_hmac_ok:
  assumes b: "buf_live b" "buf_content b = xs @ ys @ zs" and k: "kc_hmac (if incoming then co_decrypt co else co_encrypt co) \<noteq> None"
    and size: "cl_hmac_size lib \<le> 248"
    and l: "length xs = (if incoming then 9 else cl_hmac_size lib + 8)" "length ys = (if incoming then cl_hmac_size lib + 8 else 9)"
  shows "\<exists>b'. swap_hmac lib b co incoming = Some (True, b') \<and> buf_live b' \<and> buf_content b' = ys @ xs @ zs
     \<and> offset b' = offset b \<and> capacity b' = capacity b"
proof -
  from b(1) obtain m where m: "data b = Some m" by (rule buf_live_Some)
  have ln: "len b = int (length xs + length ys + length zs)" using len_buf_content [OF b(1)] b(2) by simp
  have r1: "mem_read m (offset b) (int (length xs)) = Some xs"
    using mem_read_content [OF b(1) m, of 0 "int (length xs)"] b(2) ln by simp
  have r2: "mem_read m (offset b + int (length xs)) (int (length ys)) = Some ys"
    using mem_read_content [OF b(1) m, of "int (length xs)" "int (length ys)"] b(2) ln by simp
  let ?old = "take (length ys) (xs @ ys @ zs)" and ?rest = "drop (length ys) (xs @ ys @ zs)"
  have "buf_content b = [] @ ?old @ ?rest" by (simp only: b(2) append_take_drop_id append_Nil)
  moreover have "length ys = length ?old" by simp
  ultimately obtain b1 where
    b1: "buf_store b (offset b) ys = Some b1" "buf_live b1" "buf_content b1 = ys @ ?rest" "offset b1 = offset b" "capacity b1 = capacity b"
    using buf_store_inside [OF b(1), of "[]" ?old ?rest ys "offset b"] by auto
  have "?rest = take (length xs) ?rest @ zs"
  proof -
    have "drop (length xs) ?rest = zs" by (simp add: add.commute)
    then show ?thesis by (metis append_take_drop_id)
  qed
  with b1(3) have c1: "buf_content b1 = ys @ take (length xs) ?rest @ zs" by simp
  have "length xs = length (take (length xs) ?rest)" by simp
  with buf_store_inside [OF b1(2) c1, of xs "offset b + int (length ys)"] b1(4) obtain b2 where
    b2: "buf_store b1 (offset b + int (length ys)) xs = Some b2" "buf_live b2" "buf_content b2 = ys @ xs @ zs" "offset b2 = offset b"
      "capacity b2 = capacity b1" by auto
  have e: "(if incoming then (1 + int SID_SIZE, int (cl_hmac_size lib) + packet_id_size True)
      else (int (cl_hmac_size lib) + packet_id_size True, 1 + int SID_SIZE)) = (int (length xs), int (length ys))"
    using l by (simp add: SID_SIZE_def packet_id_size_def)
  have "int (length xs) \<le> SWAP_BUF_SIZE \<and> int (length ys) \<le> SWAP_BUF_SIZE" using l size by (auto simp: SWAP_BUF_SIZE_def split: if_splits)
  then have "swap_hmac lib b co incoming = Some (True, b2)"
    unfolding swap_hmac_def Let_def e using k m r1 r2 b1(1) b2(1) ln buf_bptr_live [OF b(1)] by auto
  with b1 b2 show ?thesis by auto
qed

text \<open>The opcode and session id in front.\<close>

lemma prepend_header:
  assumes b: "buf_live buf" and sid: "length sid = SID_SIZE" and room: "9 \<le> buf_headroom buf"
  shows "\<exists>b1 b2. session_id_write_prepend sid buf = Some (True, b1) \<and> buf_write_prepend b1 [header] = Some (True, b2) \<and> buf_live b2
     \<and> buf_content b2 = header # sid @ buf_content buf \<and> buf_headroom b2 = buf_headroom buf - 9"
proof -
  from wire.push_ok [OF b, of sid] sid room obtain b1 where
    b1: "session_id_write_prepend sid buf = Some (True, b1)" "buf_live b1" "buf_content b1 = sid @ buf_content buf"
      "buf_headroom b1 = buf_headroom buf - 8" by (auto simp: session_id_write_prepend_def SID_SIZE_def)
  have "length [header] \<le> buf_headroom b1" using b1(4) room by simp
  from wire.push_ok [OF b1(2) this] b1 show ?thesis by auto
qed

lemma buf_advance_header:
  assumes "buf_live b" "buf_content b = header # sid @ P" "length sid = SID_SIZE"
  shows "\<exists>b'. buf_advance b (int SID_SIZE + 1) = (True, b') \<and> buf_live b' \<and> buf_content b' = P"
  using buf_advance_live [OF assms(1), of "header # sid" P "int SID_SIZE + 1"] assms(2,3) by auto

definition plain_op :: "u8 \<Rightarrow> bool" where
  "plain_op h \<longleftrightarrow> header_op h \<noteq> P_CONTROL_HARD_RESET_CLIENT_V3 \<and> header_op h \<noteq> P_CONTROL_WKC_V1"

lemma roundtrip_none:
  assumes mode: "tw_mode s = TLS_WRAP_NONE" "tw_mode r = TLS_WRAP_NONE" "kc_cipher (tw_server_key r) = None" and op: "plain_op header"
    and buf: "buf_live buf" "9 \<le> buf_headroom buf" and sid: "length sid = SID_SIZE"
  shows "\<exists>b. tls_wrap_control junk hmac lib rnd now s header buf sid = Some (s, b) \<and> buf_live b
     \<and> buf_content b = header # sid @ buf_content buf
     \<and> (\<forall>rb. buf_live rb \<and> buf_content rb = buf_content b \<longrightarrow>
          (\<exists>b'. read_control_auth junk' hmac lib now' rb r opt ini = Some (True, b', r) \<and> buf_live b' \<and> buf_content b' = buf_content buf))"
proof -
  from prepend_header [OF buf(1) sid buf(2), of header] obtain b1 b where
    b: "session_id_write_prepend sid buf = Some (True, b1)" "buf_write_prepend b1 [header] = Some (True, b)" "buf_live b"
      "buf_content b = header # sid @ buf_content buf" by blast
  have "tls_wrap_control junk hmac lib rnd now s header buf sid = Some (s, b)" using mode b by (simp add: tls_wrap_control_def)
  moreover have "\<exists>b'. read_control_auth junk' hmac lib now' rb r opt ini = Some (True, b', r) \<and> buf_live b' \<and> buf_content b' = buf_content buf"
    if rb: "buf_live rb" "buf_content rb = buf_content b" for rb
    using buf_advance_header [OF rb(1), of header sid "buf_content buf"] buf_first_live [OF rb(1)] rb(2) b(4) sid mode op
    by (auto simp: read_control_auth_def plain_op_def)
  ultimately show ?thesis using b by blast
qed

text \<open>What \<^verbatim>\<open>--tls-auth\<close> authenticates, and the packet with the header moved to the front.\<close>

definition auth_body :: "bytes \<Rightarrow> packet_id_send \<Rightarrow> bytes \<Rightarrow> bytes" where
  "auth_body H p P = pid_header p True @ H @ P"

definition auth_packet :: "cipher_lib \<Rightarrow> key_ctx \<Rightarrow> bytes \<Rightarrow> packet_id_send \<Rightarrow> bytes \<Rightarrow> bytes" where
  "auth_packet lib ctx H p P = H @ (auth_tag lib ctx (auth_body H p P) @ pid_header p True) @ P"

lemma auth_lengths:
  assumes "cipher_lib_ok lib" "kc_hmac ctx \<noteq> None"
  shows "length (auth_tag lib ctx body @ pid_header p True) = cl_hmac_size lib + 8"
  using assms by (auto simp: auth_tag_def cipher_lib_ok_def packet_id_size_def)

lemma wrap_auth:
  assumes lib: "cipher_lib_ok lib" "cl_hmac_size lib \<le> 248" and mode: "tw_mode s = TLS_WRAP_AUTH"
    and co: "kc_cipher (co_encrypt (tw_opt s)) = None" "kc_hmac (co_encrypt (tw_opt s)) \<noteq> None" "co_packet_id_long_form (tw_opt s)"
      "packet_id_initialized (co_packet_id (tw_opt s))"
    and buf: "buf_live buf" "17 + cl_hmac_size lib \<le> buf_headroom buf" and sid: "length sid = SID_SIZE"
    and upd: "packet_id_send_update now (pid_send (co_packet_id (tw_opt s))) True = (True, p)"
  shows "\<exists>b. tls_wrap_control junk hmac lib rnd now s header buf sid = Some (s\<lparr>tw_opt := set_pid_send p (tw_opt s)\<rparr>, b) \<and> buf_live b
     \<and> buf_content b = auth_packet lib (co_encrypt (tw_opt s)) (header # sid) p (buf_content buf)"
proof -
  let ?P = "buf_content buf" and ?S = "tw_opt s" and ?H = "header # sid"
  have "9 \<le> buf_headroom buf" using buf(2) by simp
  from prepend_header [OF buf(1) sid this, of header] obtain b1 b2 where
    b2: "session_id_write_prepend sid buf = Some (True, b1)" "buf_write_prepend b1 [header] = Some (True, b2)" "buf_live b2"
      "buf_content b2 = ?H @ ?P" "buf_headroom b2 = buf_headroom buf - 9" by auto
  let ?t = "auth_tag lib (co_encrypt ?S) (auth_body ?H p ?P)"
  have pos: "0 < len b2" using len_buf_content [OF b2(3)] b2(4) by simp
  have l9: "length ?H = 9" using sid by (simp add: SID_SIZE_def)
  have "nat (packet_id_size (co_packet_id_long_form ?S)) + cl_hmac_size lib \<le> buf_headroom b2"
    using buf(2) b2(5) co(3) by (simp add: packet_id_size_def)
  moreover have "buf_len clear_buf = 0" by (simp add: buf_len_def clear_buf_def)
  ultimately obtain b3 where
    b3: "openvpn_encrypt_v1 lib rnd now b2 clear_buf ?S = Some (b3, set_pid_send p ?S)" "buf_live b3"
      "buf_content b3 = (?t @ pid_header p True) @ ?H @ ?P"
    using encrypt_v1_plain_packet [OF lib(1) b2(3) pos _ co(1,4), of clear_buf now p rnd] upd co(3) b2(4) by (auto simp: auth_body_def)
  from swap_hmac_ok [OF b3(2,3), of False "set_pid_send p ?S" lib, unfolded l9 auth_lengths [OF lib(1) co(2)]] lib(2) co(2) obtain b where
    b: "swap_hmac lib b3 (set_pid_send p ?S) False = Some (True, b)" "buf_live b" "buf_content b = ?H @ (?t @ pid_header p True) @ ?P" by auto
  have "openvpn_encrypt junk hmac lib rnd now b2 clear_buf ?S = Some (b3, set_pid_send p ?S)"
    using b3(1) pos co(1) by (simp add: openvpn_encrypt_def cipher_ctx_mode_aead_def)
  with mode b2(1,2) b show ?thesis by (auto simp: tls_wrap_control_def auth_packet_def)
qed

lemma read_auth:
  assumes lib: "cipher_lib_ok lib" "cl_hmac_size lib \<le> 248" and mode: "tw_mode r = TLS_WRAP_AUTH" and op: "plain_op header"
    and ro: "kc_cipher (co_decrypt (tw_opt r)) = None" "kc_hmac (co_decrypt (tw_opt r)) \<noteq> None" "co_packet_id_long_form (tw_opt r)"
      "packet_id_initialized (co_packet_id (tw_opt r))" "\<not> co_ignore_packet_id (tw_opt r)"
    and rb: "buf_live rb" "buf_content rb = auth_packet lib (co_decrypt (tw_opt r)) (header # sid) p P" and sid: "length sid = SID_SIZE"
    and replay: "crypto_check_replay junk hmac now (tw_opt r) (pid_seen p True) 0 = Some (True, co)"
  shows "\<exists>b. read_control_auth junk hmac lib now rb r opt ini = Some (True, b, r\<lparr>tw_opt := co\<rparr>) \<and> buf_live b \<and> buf_content b = P"
proof -
  let ?R = "tw_opt r" and ?H = "header # sid"
  let ?body = "auth_body ?H p P"
  let ?t = "auth_tag lib (co_decrypt ?R) ?body"
  have l9: "length ?H = 9" using sid by (simp add: SID_SIZE_def)
  have rc: "buf_content rb = ?H @ (?t @ pid_header p True) @ P" using rb(2) by (simp add: auth_packet_def)
  from swap_hmac_ok [OF rb(1) rc, of True ?R lib, unfolded l9 auth_lengths [OF lib(1) ro(2)]] lib(2) ro(2) obtain c where
    c: "swap_hmac lib rb ?R True = Some (True, c)" "buf_live c" "buf_content c = ?t @ ?body" by (auto simp: auth_body_def)
  have "\<exists>w. openvpn_decrypt_v1 junk hmac lib now None c clear_buf ?R = Some (True, w, co) \<and> buf_live w \<and> buf_content w = ?H @ P"
  proof (rule decrypt_v1_verdict [OF lib(1) c(2,3) _ _ replay])
    fix b1 assume "buf_live b1" "buf_content b1 = ?body"
    with decrypt_v1_plain_ok [of b1 p ?R "?H @ P"] ro(1,3-5) show "\<exists>b2 w. (case kc_cipher (co_decrypt ?R) of
        Some key \<Rightarrow> decrypt_v1_cipher lib None key b1 clear_buf ?R | None \<Rightarrow> decrypt_v1_plain b1 ?R)
        = Some (b2, Some (w, Some (pid_seen p True))) \<and> buf_live w \<and> buf_content w = ?H @ P" by (auto simp: auth_body_def)
  qed (simp add: auth_body_def)
  then obtain w where w: "openvpn_decrypt_v1 junk hmac lib now None c clear_buf ?R = Some (True, w, co)" "buf_live w"
    "buf_content w = header # sid @ P" by auto
  have nz: "0 < len c" "len w \<noteq> 0" using len_buf_content [OF c(2)] c(3) len_buf_content [OF w(2)] w(3) by (auto simp: auth_body_def)
  have dec: "openvpn_decrypt junk hmac lib now None (offset c) c clear_buf ?R = Some (True, w, co)"
    using w(1) nz(1) ro(1) by (simp add: openvpn_decrypt_def cipher_ctx_mode_aead_def)
  from buf_advance_header [OF w(2,3) sid] c(1) dec nz(2) mode op buf_bptr_live [OF c(2)] buf_first_live [OF rb(1)] rc
  show ?thesis by (auto simp: read_control_auth_def plain_op_def)
qed

lemma wrap_crypt:
  assumes lib: "ctr_lib_ok lib" and mode: "tw_mode s = TLS_WRAP_CRYPT" and op: "plain_op header"
    and co: "kc_cipher (co_encrypt (tw_opt s)) = Some key" "kc_hmac (co_encrypt (tw_opt s)) = Some hk"
      "packet_id_initialized (co_packet_id (tw_opt s))"
    and buf: "buf_live buf" and work: "buf_live (tw_work s)" "buf_headroom buf + length (buf_content buf) + 65 \<le> nat (capacity (tw_work s))"
    and sid: "length sid = SID_SIZE"
    and upd: "packet_id_send_update now (pid_send (co_packet_id (tw_opt s))) True = (True, p)"
  shows "\<exists>w. tls_wrap_control junk hmac lib rnd now s header buf sid = Some (s\<lparr>tw_work := w, tw_opt := set_pid_send p (tw_opt s)\<rparr>, w)
     \<and> buf_live w \<and> buf_content w = wrapped lib key hk ((header # sid) @ pid_header p True) (buf_content buf)"
proof -
  let ?P = "buf_content buf"
  have off: "offset buf = int (buf_headroom buf)" by (rule buf_extent [OF buf])
  have "0 \<le> offset buf" "offset buf \<le> capacity (tw_work s)" using work(2) off by linarith+
  with buf_init_spec [of "tw_work s" "offset buf"] work(1) obtain w0 where
    w0: "buf_init_dowork (tw_work s) (offset buf) = (True, w0)" "buf_live w0" "buf_content w0 = []" "offset w0 = offset buf"
      "capacity w0 = capacity (tw_work s)" by (auto simp: buf_live_def)
  have r0: "length ?P + 65 \<le> buf_room w0" using buf_extent [OF w0(2)] w0(3-5) off work(2) by simp
  have "length [header] \<le> buf_room w0" using r0 by simp
  from wire.put_ok [OF w0(2) this] w0(3) obtain w1 where
    w1: "buf_write w0 [header] = Some (True, w1)" "buf_live w1" "buf_content w1 = [header]" "buf_room w1 = buf_room w0 - 1" by auto
  have "length sid \<le> buf_room w1" using r0 w1(4) sid by (simp add: SID_SIZE_def)
  from wire.put_ok [OF w1(2) this] w1(3) sid obtain w2 where
    w2: "session_id_write sid w1 = Some (True, w2)" "buf_live w2" "buf_content w2 = header # sid" "buf_room w2 = buf_room w1 - 8"
    by (auto simp: session_id_write_def SID_SIZE_def)
  have "length ?P + 56 \<le> buf_room w2" using r0 w1(4) w2(4) by simp
  from tls_crypt_wrap_ok [OF lib co upd buf w2(2) this] w2(3) obtain w where
    w: "tls_crypt_wrap lib now buf w2 (tw_opt s) = Some (True, w, set_pid_send p (tw_opt s))" "buf_live w"
      "buf_content w = wrapped lib key hk ((header # sid) @ pid_header p True) ?P" by auto
  with mode op w0(1) w1(1) w2(1) show ?thesis by (auto simp: tls_wrap_control_def plain_op_def)
qed

lemma read_crypt:
  assumes lib: "ctr_lib_ok lib" and mode: "tw_mode r = TLS_WRAP_CRYPT" and op: "plain_op header"
    and ro: "kc_cipher (co_decrypt (tw_opt r)) = Some key" "kc_hmac (co_decrypt (tw_opt r)) = Some hk"
      "packet_id_initialized (co_packet_id (tw_opt r))" "\<not> co_ignore_packet_id (tw_opt r)"
    and rb: "buf_live rb" "buf_content rb = wrapped lib key hk ((header # sid) @ pid_header p True) P" and sid: "length sid = SID_SIZE"
    and replay: "crypto_check_replay junk hmac now (tw_opt r) (pid_seen p True) 0 = Some (True, co)"
  shows "\<exists>b. read_control_auth junk hmac lib now rb r opt ini = Some (True, b, r\<lparr>tw_opt := co\<rparr>) \<and> buf_live b \<and> buf_content b = P"
proof -
  have l9: "length (header # sid) = 9" using sid by (simp add: SID_SIZE_def)
  note f = wrapped_fields [OF lib l9 rb(2)]
  note e = buf_extent [OF rb(1)]
  let ?n = "nat (buf_forward_capacity_total rb)"
  have n: "?n = length (buf_content rb) + buf_room rb"
    using e rb(1) by (auto simp: buf_forward_capacity_total_def elim!: buf_live_Some)
  have "0 < ?n" "int ?n < BUF_SIZE_MAX" using n f(4) e(2) rb(1) by (auto elim!: buf_live_Some)
  from alloc_buf_gc_live [OF this, of junk] obtain tmp where
    tmp: "alloc_buf_gc junk ?n = Some tmp" "buf_live tmp" "buf_content tmp = []" "buf_room tmp = ?n" by blast
  have "length (buf_content rb) \<le> buf_room tmp + 33" using tmp(4) n by simp
  from unwrap_decision [OF lib ro rb(1) tmp(2,3) this, of junk hmac now] f(1-3) replay obtain d where
    d: "tls_crypt_unwrap junk hmac lib now rb tmp (tw_opt r) = Some (True, d, co)" "buf_live d" "buf_content d = P" by auto
  from buf_init_spec [of rb "offset rb"] rb(1) e obtain b1 where
    b1: "buf_init_dowork rb (offset rb) = (True, b1)" "buf_live b1" "buf_content b1 = []" "offset b1 = offset rb" "capacity b1 = capacity rb"
    by (auto simp: buf_live_def)
  have "length P \<le> buf_room b1" using buf_extent [OF b1(2)] b1(3-5) e f(4) by simp
  from wire.put_ok [OF b1(2) this] b1(3) obtain b where b: "buf_write b1 P = Some (True, b)" "buf_live b" "buf_content b = P" by auto
  have "buf_first rb = Some header" using buf_first_live [OF rb(1)] rb(2) by (simp add: wrapped_def Let_def)
  with mode op tmp(1) d b1(1) b buf_bytes_live [OF d(2)] show ?thesis
    by (simp add: read_control_auth_def plain_op_def buf_copy_def)
qed

text \<open>Two ends of a control channel: the sender's context \<open>s\<close> and the receiver's \<open>r\<close>.\<close>

definition wrap_peers :: "cipher_lib \<Rightarrow> tls_wrap_ctx \<Rightarrow> tls_wrap_ctx \<Rightarrow> bool" where
  "wrap_peers lib s r \<longleftrightarrow> tw_mode r = tw_mode s \<and>
     (let S = tw_opt s; R = tw_opt r;
          ids = (packet_id_initialized (co_packet_id S) \<and> packet_id_initialized (co_packet_id R) \<and> \<not> co_ignore_packet_id R)
      in case tw_mode s of
        TLS_WRAP_NONE \<Rightarrow> kc_cipher (tw_server_key r) = None
      | TLS_WRAP_AUTH \<Rightarrow> cipher_lib_ok lib \<and> cl_hmac_size lib \<le> 248 \<and> kc_cipher (co_encrypt S) = None \<and> kc_cipher (co_decrypt R) = None
          \<and> kc_hmac (co_encrypt S) = kc_hmac (co_decrypt R) \<and> kc_hmac (co_decrypt R) \<noteq> None
          \<and> co_packet_id_long_form S \<and> co_packet_id_long_form R \<and> ids
      | TLS_WRAP_CRYPT \<Rightarrow> ctr_lib_ok lib \<and> same_keys (co_encrypt S) (co_decrypt R) \<and> ids)"

text \<open>Room for what the mode adds: in front of the packet, or in the work buffer.\<close>

definition wrap_room :: "cipher_lib \<Rightarrow> tls_wrap_ctx \<Rightarrow> buffer \<Rightarrow> bool" where
  "wrap_room lib s buf = (case tw_mode s of
     TLS_WRAP_NONE \<Rightarrow> 9 \<le> buf_headroom buf
   | TLS_WRAP_AUTH \<Rightarrow> 17 + cl_hmac_size lib \<le> buf_headroom buf
   | TLS_WRAP_CRYPT \<Rightarrow> buf_live (tw_work s) \<and> buf_headroom buf + length (buf_content buf) + 65 \<le> nat (capacity (tw_work s)))"

text \<open>C35: what one end of a control channel wraps, the other end reads: in each of the three modes
  (plain, \<^verbatim>\<open>--tls-auth\<close>, \<^verbatim>\<open>--tls-crypt\<close>), for a sender with a packet id left and a receiver that has not
  seen that id, wrapping succeeds, and any buffer with the packet's bytes is accepted and reduced to
  the original payload. The ids are stored on both ends unless the mode is plain.\<close>

theorem control_wrap_roundtrip:
  assumes peers: "wrap_peers lib s r" and op: "plain_op header" and sid: "length sid = SID_SIZE"
    and buf: "buf_live buf" "wrap_room lib s buf"
    and ids: "tw_mode s \<noteq> TLS_WRAP_NONE \<Longrightarrow> packet_id_send_update now (pid_send (co_packet_id (tw_opt s))) True = (True, p)"
      "tw_mode s \<noteq> TLS_WRAP_NONE \<Longrightarrow> crypto_check_replay junk' hmac now' (tw_opt r) (pid_seen p True) 0 = Some (True, co)"
  shows "\<exists>s' b. tls_wrap_control junk hmac lib rnd now s header buf sid = Some (s', b) \<and> buf_live b
     \<and> tw_opt s' = (if tw_mode s = TLS_WRAP_NONE then tw_opt s else set_pid_send p (tw_opt s))
     \<and> (\<forall>rb. buf_live rb \<and> buf_content rb = buf_content b \<longrightarrow>
          (\<exists>b'. read_control_auth junk' hmac lib now' rb r opt ini
                  = Some (True, b', if tw_mode s = TLS_WRAP_NONE then r else r\<lparr>tw_opt := co\<rparr>)
             \<and> buf_live b' \<and> buf_content b' = buf_content buf))"
proof (cases "tw_mode s")
  case TLS_WRAP_NONE
  with peers buf have m: "tw_mode r = TLS_WRAP_NONE" "kc_cipher (tw_server_key r) = None" "9 \<le> buf_headroom buf"
    by (auto simp: wrap_peers_def wrap_room_def Let_def)
  from roundtrip_none [OF TLS_WRAP_NONE m(1,2) op buf(1) m(3) sid, of junk hmac lib rnd now junk' now' opt ini] TLS_WRAP_NONE
  show ?thesis by auto
next
  case TLS_WRAP_AUTH
  with peers buf have lib: "cipher_lib_ok lib" "cl_hmac_size lib \<le> 248" and m: "tw_mode r = TLS_WRAP_AUTH" "17 + cl_hmac_size lib \<le> buf_headroom buf"
    and S: "kc_cipher (co_encrypt (tw_opt s)) = None" "kc_hmac (co_encrypt (tw_opt s)) \<noteq> None" "co_packet_id_long_form (tw_opt s)"
      "packet_id_initialized (co_packet_id (tw_opt s))"
    and R: "kc_cipher (co_decrypt (tw_opt r)) = None" "kc_hmac (co_decrypt (tw_opt r)) \<noteq> None" "co_packet_id_long_form (tw_opt r)"
      "packet_id_initialized (co_packet_id (tw_opt r))" "\<not> co_ignore_packet_id (tw_opt r)"
    and same: "auth_packet lib (co_encrypt (tw_opt s)) = auth_packet lib (co_decrypt (tw_opt r))"
    by (auto simp: wrap_peers_def wrap_room_def Let_def auth_packet_def auth_tag_def fun_eq_iff)
  from TLS_WRAP_AUTH ids have id: "packet_id_send_update now (pid_send (co_packet_id (tw_opt s))) True = (True, p)"
    "crypto_check_replay junk' hmac now' (tw_opt r) (pid_seen p True) 0 = Some (True, co)" by simp_all
  from wrap_auth [OF lib TLS_WRAP_AUTH S buf(1) m(2) sid id(1), of junk hmac rnd header]
    read_auth [OF lib m(1) op R _ _ sid id(2), of _ "buf_content buf" opt ini] TLS_WRAP_AUTH same
  show ?thesis by auto
next
  case TLS_WRAP_CRYPT
  with peers buf obtain key hk where lib: "ctr_lib_ok lib" and m: "tw_mode r = TLS_WRAP_CRYPT"
    and room: "buf_live (tw_work s)" "buf_headroom buf + length (buf_content buf) + 65 \<le> nat (capacity (tw_work s))"
    and S: "kc_cipher (co_encrypt (tw_opt s)) = Some key" "kc_hmac (co_encrypt (tw_opt s)) = Some hk"
      "packet_id_initialized (co_packet_id (tw_opt s))"
    and R: "kc_cipher (co_decrypt (tw_opt r)) = Some key" "kc_hmac (co_decrypt (tw_opt r)) = Some hk"
      "packet_id_initialized (co_packet_id (tw_opt r))" "\<not> co_ignore_packet_id (tw_opt r)"
    by (fastforce simp: wrap_peers_def wrap_room_def Let_def same_keys_def)
  from TLS_WRAP_CRYPT ids have id: "packet_id_send_update now (pid_send (co_packet_id (tw_opt s))) True = (True, p)"
    "crypto_check_replay junk' hmac now' (tw_opt r) (pid_seen p True) 0 = Some (True, co)" by simp_all
  from wrap_crypt [OF lib TLS_WRAP_CRYPT op S buf(1) room sid id(1), of junk hmac rnd]
    read_crypt [OF lib m op R _ _ sid id(2), of _ "buf_content buf" opt ini] TLS_WRAP_CRYPT
  show ?thesis by auto
qed

definition toy_end :: tls_wrap_ctx where
  "toy_end = \<lparr>tw_mode = TLS_WRAP_CRYPT, tw_opt = toy_wrap_co, tw_work = fresh_buf 0 200, tw_server_key = key_ctx_zero, tw_wkc = None,
     tw_metadata = clear_buf, tw_cleanup_key_ctx = False, tw_original_wrap_keydata = key2_zero\<rparr>"

theorem control_wrap_roundtrip_witness:
  "\<exists>s' b. tls_wrap_control (\<lambda>_. 0) demo_hmac toy_ctr (\<lambda>_. 0) 1000 toy_end 0x20 (full_buf [1, 2, 3]) [1, 2, 3, 4, 5, 6, 7, 8] = Some (s', b)
     \<and> (\<forall>rb. buf_live rb \<and> buf_content rb = buf_content b \<longrightarrow>
          (\<exists>b' r'. read_control_auth (\<lambda>_. 0) demo_hmac toy_ctr 1000 rb toy_end None False = Some (True, b', r') \<and> buf_content b' = [1, 2, 3]))"
proof -
  define p where "p = \<lparr>send_id = (1 :: u64), send_time = (1000 :: int)\<rparr>"
  have u: "packet_id_send_update 1000 (pid_send (co_packet_id toy_wrap_co)) True = (True, p)" unfolding p_def by code_simp
  have "map_option fst (crypto_check_replay (\<lambda>_. 0) demo_hmac 1000 toy_wrap_co (pid_seen \<lparr>send_id = 1, send_time = 1000\<rparr> True) 0) = Some True"
    by code_simp
  then obtain co where "crypto_check_replay (\<lambda>_. 0) demo_hmac 1000 toy_wrap_co (pid_seen p True) 0 = Some (True, co)"
    by (auto simp: p_def)
  moreover have "wrap_peers toy_ctr toy_end toy_end"
    using toy_ctr_ok toy_wrap_co_facts by (simp add: wrap_peers_def toy_end_def same_keys_def)
  moreover have "plain_op 0x20" by code_simp
  moreover have "wrap_room toy_ctr toy_end (full_buf [1, 2, 3])"
    using fresh_buf_live [of 0 200] by (simp add: wrap_room_def toy_end_def full_buf_live) (simp add: full_buf_def fresh_buf_def buf_headroom_def)
  moreover have "buf_live (full_buf [1, 2, 3])" "buf_content (full_buf [1, 2, 3]) = [1, 2, 3]" using full_buf_live [of "[1, 2, 3]"] by simp_all
  ultimately show ?thesis
    using control_wrap_roundtrip [where lib = toy_ctr and s = toy_end and r = toy_end and header = "0x20" and sid = "[1, 2, 3, 4, 5, 6, 7, 8]"
        and buf = "full_buf [1, 2, 3]" and now = 1000 and p = p and junk' = "\<lambda>_. 0" and hmac = demo_hmac and now' = 1000 and co = co
        and junk = "\<lambda>_. 0" and rnd = "\<lambda>_. 0" and opt = None and ini = False] u by (fastforce simp: toy_end_def SID_SIZE_def)
qed

section \<open>The session id cookie\<close>

definition cookie_msg :: "int \<Rightarrow> int \<Rightarrow> int \<Rightarrow> sockaddr \<Rightarrow> session_id \<Rightarrow> bytes" where
  "cookie_msg now handwindow slot addr sid =
     be32 (word_of_int (now div ((handwindow + 1) div 2) + slot)) @ sockaddr_bytes addr @ sid"

lemma calculate_cookie:
  "0 < handwindow \<Longrightarrow> length sid = SID_SIZE \<Longrightarrow>
   calculate_session_id_hmac now sid addr mac handwindow slot = Some (take SID_SIZE (mac (cookie_msg now handwindow slot addr sid)))"
  by (simp add: calculate_session_id_hmac_def cookie_msg_def)

lemma cookie_msg_inject:
  assumes "length sid = SID_SIZE" "length sid' = SID_SIZE" "cookie_msg t hw o1 addr sid = cookie_msg t' hw o2 addr' sid'"
  shows "(word_of_int (t div ((hw + 1) div 2) + o1) :: u32) = word_of_int (t' div ((hw + 1) div 2) + o2)"
    "sockaddr_bytes addr = sockaddr_bytes addr'" "sid = sid'"
proof -
  from assms have "be32 (word_of_int (t div ((hw + 1) div 2) + o1)) = be32 (word_of_int (t' div ((hw + 1) div 2) + o2))"
    and r: "sockaddr_bytes addr @ sid = sockaddr_bytes addr' @ sid'" by (simp_all add: cookie_msg_def)
  from arg_cong [OF this(1), of rd32] show "(word_of_int (t div ((hw + 1) div 2) + o1) :: u32) = word_of_int (t' div ((hw + 1) div 2) + o2)"
    by (simp only: rd32_be32)
  show "sockaddr_bytes addr = sockaddr_bytes addr'" "sid = sid'" using r assms(1,2) by simp_all
qed

lemma ack_parse_packet:
  assumes b: "buf_live b" "buf_content b = of_nat (length acks) # concat (map be32 acks) @ sid @ rest"
    and a: "acks \<noteq> []" "length acks \<le> RELIABLE_ACK_SIZE" and sid: "length sid = SID_SIZE"
  shows "\<exists>b'. reliable_ack_parse b old = Some (True, acks, sid, b') \<and> buf_live b' \<and> buf_content b' = rest"
proof -
  let ?n = "of_nat (length acks) :: u8"
  have n: "unat ?n = length acks" "?n \<noteq> 0"
    using a by (auto simp: RELIABLE_ACK_SIZE_def unat_of_nat word_of_nat_eq_0_iff Suc_le_eq dest!: dvd_imp_le)
  from wire.get_ok [OF b(1), of "[?n]" "concat (map be32 acks) @ sid @ rest"] b(2) obtain b1 where
    b1: "buf_read b 1 = Some (Some [?n], b1)" "buf_live b1" "buf_content b1 = concat (map be32 acks) @ sid @ rest" by auto
  from ack_parse_ids_spec [OF b1(2,3), of "[]"] a(2) obtain b2 where
    b2: "ack_parse_ids (length acks) [] b1 = Some (True, acks, b2)" "buf_live b2" "buf_content b2 = sid @ rest" by auto
  from wire.get_ok [OF b2(2,3)] sid b1(1) b2(1) n show ?thesis by (auto simp: reliable_ack_parse_def session_id_read_def)
qed

text \<open>A packet that returns a session id: acknowledgements, the id, and the packet id unless it only acknowledges.\<close>

definition returns_cookie :: "bytes \<Rightarrow> session_id \<Rightarrow> bool \<Rightarrow> bool" where
  "returns_cookie bs sid pkt_is_ack \<longleftrightarrow> (\<exists>acks rest. bs = of_nat (length acks) # concat (map be32 acks) @ sid @ rest
     \<and> acks \<noteq> [] \<and> length acks \<le> RELIABLE_ACK_SIZE \<and> (\<forall>i \<in> set acks. i \<le> 1)
     \<and> (pkt_is_ack \<or> (\<exists>i r. rest = be32 i @ r \<and> i \<le> 1)))"

lemma check_session_decision:
  assumes hw: "0 < handwindow" and st: "length (pd_peer_session_id st) = SID_SIZE" "buf_live (pd_newbuf st)"
    and pkt: "returns_cookie (buf_content (pd_newbuf st)) sid pkt_is_ack" "length sid = SID_SIZE"
  shows "check_session_hmac_and_pkt_id now st (Some addr) mac handwindow pkt_is_ack =
     Some (\<exists>o1 \<in> {-2, -1, 0}. take SID_SIZE (mac (cookie_msg now handwindow o1 addr (pd_peer_session_id st))) = sid,
       st\<lparr>pd_server_session_id := sid\<rparr>)"
proof -
  from pkt(1) obtain acks rest where p: "buf_content (pd_newbuf st) = of_nat (length acks) # concat (map be32 acks) @ sid @ rest"
    "acks \<noteq> []" "length acks \<le> RELIABLE_ACK_SIZE" "\<forall>i \<in> set acks. i \<le> 1" "pkt_is_ack \<or> (\<exists>i r. rest = be32 i @ r \<and> i \<le> 1)"
    unfolding returns_cookie_def by blast
  from ack_parse_packet [OF st(2) p(1-3) pkt(2)] obtain b where
    b: "reliable_ack_parse (pd_newbuf st) (pd_server_session_id st) = Some (True, acks, sid, b)" "buf_live b" "buf_content b = rest" by blast
  have "\<not> (\<exists>i \<in> set acks. i > 1)" using p(4) by (auto simp: not_less)
  moreover have "(if pkt_is_ack then Some True
       else do { (message_id, buf) \<leftarrow> reliable_ack_read_packet_id b; Some (case message_id of None \<Rightarrow> False | Some i \<Rightarrow> \<not> i > 1) }) = Some True"
  proof (cases pkt_is_ack)
    case False
    with p(5) obtain i r where "rest = be32 i @ r" "i \<le> 1" by blast
    with wire.get_ok [OF b(2), of "be32 i" r] b(3) False show ?thesis by (auto simp: reliable_ack_read_packet_id_def not_less)
  qed simp
  ultimately show ?thesis
    using b(1) calculate_cookie [OF hw st(1)] by (auto simp: check_session_hmac_and_pkt_id_def)
qed

lemma slot_window:
  fixes w :: int
  assumes "0 < w" "t \<le> now"
  shows "now - t \<le> 2 * w \<Longrightarrow> now div w \<le> t div w + 2" "3 * w \<le> now - t \<Longrightarrow> t div w + 3 \<le> now div w" "t div w \<le> now div w"
proof -
  have "(t + k * w) div w = t div w + k" for k using assms(1) by simp
  note s = this
  show "t div w \<le> now div w" using assms by (simp add: zdiv_mono1)
  show "now div w \<le> t div w + 2" if "now - t \<le> 2 * w" using zdiv_mono1 [of now "t + 2 * w" w] that assms(1) s [of 2] by simp
  show "t div w + 3 \<le> now div w" if "3 * w \<le> now - t" using zdiv_mono1 [of "t + 3 * w" now w] that assms(1) s [of 3] by simp
qed

lemma slot_words:
  fixes a b c :: int
  assumes "0 \<le> a" "a \<le> b" "b < 2 ^ 32" "c \<in> {-2, -1, 0}"
  shows "(word_of_int (b + c) :: u32) = word_of_int a \<longleftrightarrow> b + c = a"
proof
  assume "(word_of_int (b + c) :: u32) = word_of_int a"
  from arg_cong [OF this, of uint] have "(b + c) mod 2 ^ 32 = a mod 2 ^ 32" unfolding uint_word_of_int by simp
  then have "(2 ^ 32 :: int) dvd b + c - a" by (simp add: mod_eq_dvd_iff)
  moreover have "\<bar>b + c - a\<bar> < 2 ^ 32" using assms by auto
  ultimately show "b + c = a" using zdvd_not_zless [of "\<bar>b + c - a\<bar>" "2 ^ 32"] by (cases "b + c = a") auto
qed simp

lemma cookie_slots:
  assumes hw: "0 < hw" and t: "0 \<le> t" "t \<le> now" "now div ((hw + 1) div 2) < 2 ^ 32"
    and l: "length sid = SID_SIZE" "length sid' = SID_SIZE"
  shows "(\<exists>o1 \<in> {-2, -1, 0}. cookie_msg now hw o1 addr' sid' = cookie_msg t hw 0 addr sid)
     \<longleftrightarrow> sockaddr_bytes addr' = sockaddr_bytes addr \<and> sid' = sid \<and> now div ((hw + 1) div 2) \<le> t div ((hw + 1) div 2) + 2"
proof -
  let ?w = "(hw + 1) div 2"
  have w: "0 < ?w" using hw by simp
  have a: "0 \<le> t div ?w" using t(1) w by (simp add: pos_imp_zdiv_nonneg_iff)
  note b = slot_window(3) [OF w t(2)]
  have eq: "cookie_msg now hw o1 addr' sid' = cookie_msg t hw 0 addr sid
      \<longleftrightarrow> sockaddr_bytes addr' = sockaddr_bytes addr \<and> sid' = sid \<and> now div ?w + o1 = t div ?w" if "o1 \<in> {-2, -1, 0}" for o1
  proof
    assume "cookie_msg now hw o1 addr' sid' = cookie_msg t hw 0 addr sid"
    from cookie_msg_inject [OF l(2,1) this] slot_words [OF a b t(3) that]
    show "sockaddr_bytes addr' = sockaddr_bytes addr \<and> sid' = sid \<and> now div ?w + o1 = t div ?w" by (simp only: add_0_right)
  qed (simp only: cookie_msg_def add_0_right)
  have "(\<exists>o1 \<in> {-2, -1, 0}. now div ?w + o1 = t div ?w) \<longleftrightarrow> now div ?w \<le> t div ?w + 2" using b by auto
  with eq show ?thesis by auto
qed

text \<open>C37: the session id a server hands out works as a cookie bound to the peer and to the time. A
  well-formed packet that returns the id issued at time \<open>t\<close> is accepted at \<open>now\<close> exactly if it comes from
  the same address, with the same client session id, and at most two half windows later: always within
  the handshake window, never after three half windows. Hypothesis on the HMAC: no collision among the
  messages compared, and at least eight bytes of output.\<close>

theorem session_cookie_window:
  assumes hw: "0 < hw" and t: "0 \<le> t" "t \<le> now" "now div ((hw + 1) div 2) < 2 ^ 32"
    and mac: "\<And>m. SID_SIZE \<le> length (mac m)"
      "\<And>o1. o1 \<in> {-2, -1, 0} \<Longrightarrow> take SID_SIZE (mac (cookie_msg now hw o1 addr' (pd_peer_session_id st))) = cookie \<Longrightarrow>
         cookie_msg now hw o1 addr' (pd_peer_session_id st) = cookie_msg t hw 0 addr sid"
    and issued: "length sid = SID_SIZE" "calculate_session_id_hmac t sid addr mac hw 0 = Some cookie"
    and st: "length (pd_peer_session_id st) = SID_SIZE" "buf_live (pd_newbuf st)" "returns_cookie (buf_content (pd_newbuf st)) cookie pkt_is_ack"
  shows "\<exists>ok. check_session_hmac_and_pkt_id now st (Some addr') mac hw pkt_is_ack = Some (ok, st\<lparr>pd_server_session_id := cookie\<rparr>)
     \<and> (ok \<longleftrightarrow> sockaddr_bytes addr' = sockaddr_bytes addr \<and> pd_peer_session_id st = sid
              \<and> now div ((hw + 1) div 2) \<le> t div ((hw + 1) div 2) + 2)
     \<and> (sockaddr_bytes addr' = sockaddr_bytes addr \<and> pd_peer_session_id st = sid \<and> now - t \<le> hw \<longrightarrow> ok)
     \<and> (3 * ((hw + 1) div 2) \<le> now - t \<longrightarrow> \<not> ok)"
proof -
  let ?w = "(hw + 1) div 2" and ?same = "sockaddr_bytes addr' = sockaddr_bytes addr \<and> pd_peer_session_id st = sid"
  let ?ok = "?same \<and> now div ?w \<le> t div ?w + 2"
  have cookie: "cookie = take SID_SIZE (mac (cookie_msg t hw 0 addr sid))" using issued calculate_cookie [OF hw] by simp
  then have "length cookie = SID_SIZE" using mac(1) by simp
  moreover have "(\<exists>o1 \<in> {-2, -1, 0}. take SID_SIZE (mac (cookie_msg now hw o1 addr' (pd_peer_session_id st))) = cookie) \<longleftrightarrow> ?ok"
    using cookie_slots [OF hw t issued(1) st(1), of addr' addr] mac(2) cookie by (metis (no_types))
  ultimately have "check_session_hmac_and_pkt_id now st (Some addr') mac hw pkt_is_ack = Some (?ok, st\<lparr>pd_server_session_id := cookie\<rparr>)"
    using check_session_decision [OF hw st(1,2,3)] by simp
  moreover have "0 < ?w" "hw \<le> 2 * ?w" using hw by presburger+
  then have "now - t \<le> hw \<longrightarrow> now div ?w \<le> t div ?w + 2" "3 * ?w \<le> now - t \<longrightarrow> \<not> now div ?w \<le> t div ?w + 2"
    using slot_window(1,2) [of ?w t now] t(2) by linarith+
  ultimately show ?thesis by blast
qed

definition toy_st :: tls_pre_decrypt_state where
  "toy_st = \<lparr>pd_wrap = toy_end, pd_newbuf = full_buf ([1] @ be32 0 @ (be32 33 @ [10, 0, 0, 1])), pd_peer_session_id = [1, 2, 3, 4, 5, 6, 7, 8],
     pd_server_session_id = replicate 8 0\<rparr>"

theorem session_cookie_window_witness:
  "check_session_hmac_and_pkt_id 1010 toy_st (Some (AF_INET [10, 0, 0, 1])) (\<lambda>m. m @ replicate 8 0) 60 True
     = Some (True, toy_st\<lparr>pd_server_session_id := be32 33 @ [10, 0, 0, 1]\<rparr>)"
proof -
  let ?a = "AF_INET [10, 0, 0, 1]" and ?mac = "\<lambda>m. m @ replicate 8 0" and ?cookie = "be32 33 @ [10, 0, 0, 1] :: bytes"
  have psid: "pd_peer_session_id toy_st = [1, 2, 3, 4, 5, 6, 7, 8]" by (simp add: toy_st_def)
  have issued: "calculate_session_id_hmac 1000 [1, 2, 3, 4, 5, 6, 7, 8] ?a ?mac 60 0 = Some ?cookie" by code_simp
  have "take SID_SIZE (?mac (cookie_msg 1010 60 (- 2) ?a (pd_peer_session_id toy_st))) \<noteq> ?cookie"
    "take SID_SIZE (?mac (cookie_msg 1010 60 (- 1) ?a (pd_peer_session_id toy_st))) \<noteq> ?cookie"
    "cookie_msg 1010 60 0 ?a (pd_peer_session_id toy_st) = cookie_msg 1000 60 0 ?a [1, 2, 3, 4, 5, 6, 7, 8]"
    unfolding psid by code_simp+
  then have mac: "cookie_msg 1010 60 o1 ?a (pd_peer_session_id toy_st) = cookie_msg 1000 60 0 ?a [1, 2, 3, 4, 5, 6, 7, 8]"
    if "o1 \<in> {-2, -1, 0}" "take SID_SIZE (?mac (cookie_msg 1010 60 o1 ?a (pd_peer_session_id toy_st))) = ?cookie" for o1
    using that by blast
  have c: "buf_live (pd_newbuf toy_st)" "buf_content (pd_newbuf toy_st) = [1] @ be32 0 @ ?cookie"
    using full_buf_live [of "[1] @ be32 0 @ ?cookie"] by (simp_all add: toy_st_def)
  moreover have "returns_cookie ([1] @ be32 0 @ ?cookie) ?cookie True"
    unfolding returns_cookie_def by (rule exI [of _ "[0]"], rule exI [of _ "[]"]) (simp add: RELIABLE_ACK_SIZE_def)
  ultimately have ret: "returns_cookie (buf_content (pd_newbuf toy_st)) ?cookie True" by simp
  from session_cookie_window [OF _ _ _ _ _ mac _ issued _ c(1) ret] psid show ?thesis by (auto simp: SID_SIZE_def toy_st_def)
qed

end
