(* ===== verification/Compression.thy ===== *)
theory Compression
  imports Fragment Ssl_Pkt
begin

text \<open>
  Compression framing: \<^verbatim>\<open>comp.c\<close>, \<^verbatim>\<open>comp.h\<close>, \<^verbatim>\<open>compstub.c\<close>, \<^verbatim>\<open>comp-lz4.c\<close> and \<^verbatim>\<open>lzo.c\<close> of
  \<^verbatim>\<open>openvpn/src/openvpn\<close>. Nothing is compressed any more when sending, but every format keeps its header, and packets that an
  older peer compressed are still expanded. The two decompressors of the libraries are parameters.
\<close>

section \<open>Options and contexts\<close>

definition COMP_F_SWAP :: u32 where "COMP_F_SWAP = push_bit 2 1"
definition COMP_F_ADVERTISE_STUBS_ONLY :: u32 where "COMP_F_ADVERTISE_STUBS_ONLY = push_bit 3 1"
definition COMP_F_ALLOW_STUB_ONLY :: u32 where "COMP_F_ALLOW_STUB_ONLY = push_bit 4 1"
definition COMP_F_ALLOW_NOCOMP_ONLY :: u32 where "COMP_F_ALLOW_NOCOMP_ONLY = push_bit 7 1"

definition COMP_ALG_UNDEF :: int where "COMP_ALG_UNDEF = 0"
definition COMP_ALG_STUB :: int where "COMP_ALG_STUB = 1"
definition COMP_ALG_LZO :: int where "COMP_ALG_LZO = 2"
definition COMP_ALG_LZ4 :: int where "COMP_ALG_LZ4 = 4"
definition COMP_ALGV2_UNCOMPRESSED :: int where "COMP_ALGV2_UNCOMPRESSED = 10"
definition COMP_ALGV2_LZ4 :: int where "COMP_ALGV2_LZ4 = 11"

definition LZO_COMPRESS_BYTE :: u8 where "LZO_COMPRESS_BYTE = 0x66"
definition LZ4_COMPRESS_BYTE :: u8 where "LZ4_COMPRESS_BYTE = 0x69"
definition NO_COMPRESS_BYTE :: u8 where "NO_COMPRESS_BYTE = 0xFA"
definition NO_COMPRESS_BYTE_SWAP :: u8 where "NO_COMPRESS_BYTE_SWAP = 0xFB"
definition COMP_ALGV2_INDICATOR_BYTE :: u8 where "COMP_ALGV2_INDICATOR_BYTE = 0x50"
definition COMP_ALGV2_UNCOMPRESSED_BYTE :: u8 where "COMP_ALGV2_UNCOMPRESSED_BYTE = 0"
definition COMP_ALGV2_LZ4_BYTE :: u8 where "COMP_ALGV2_LZ4_BYTE = 1"

record compress_options =
  cop_alg :: int
  cop_flags :: u32

text \<open>The five tables of functions, by name, and the context (the work memory of LZO is the library's).\<close>

datatype compress_alg = Comp_stub_alg | Compv2_stub_alg | Lzo_alg | Lz4_alg | Lz4v2_alg

record compress_context =
  cmp_flags :: u32
  cmp_alg :: compress_alg
  cmp_pre_decompress :: u64
  cmp_post_decompress :: u64

text \<open>
  \<^verbatim>\<open>LZ4_decompress_safe\<close> and \<^verbatim>\<open>lzo1x_decompress_safe\<close>: the expanded bytes, \<open>None\<close> for an error or (LZ4) an empty result; the number is
  the space for the result.
\<close>

record comp_lib =
  lib_lz4 :: "bytes \<Rightarrow> int \<Rightarrow> bytes option"
  lib_lzo :: "bytes \<Rightarrow> int \<Rightarrow> bytes option"

definition swapped :: "compress_context \<Rightarrow> bool" where
  "swapped c \<longleftrightarrow> cmp_flags c AND COMP_F_SWAP \<noteq> 0"

text \<open>The outer \<open>None\<close> is a failed assertion in the initialiser of the algorithm, the inner one the absence of a context.\<close>

definition comp_init :: "compress_options \<Rightarrow> compress_context option option" where
  "comp_init opt =
     (let new = (\<lambda>a. \<lparr>cmp_flags = cop_flags opt, cmp_alg = a, cmp_pre_decompress = 0, cmp_post_decompress = 0\<rparr>)
      in if cop_alg opt = COMP_ALG_STUB then Some (Some (new Comp_stub_alg))
         else if cop_alg opt = COMP_ALGV2_UNCOMPRESSED then Some (Some (new Compv2_stub_alg))
         else if cop_alg opt = COMP_ALG_LZO then do { c_assert (\<not> swapped (new Lzo_alg)); Some (Some (new Lzo_alg)) }
         else if cop_alg opt = COMP_ALG_LZ4 then do { c_assert (swapped (new Lz4_alg)); Some (Some (new Lz4_alg)) }
         else if cop_alg opt = COMP_ALGV2_LZ4 then Some (Some (new Lz4v2_alg))
         else Some None)"

definition comp_non_stub_enabled :: "compress_options \<Rightarrow> bool" where
  "comp_non_stub_enabled info \<longleftrightarrow> cop_alg info \<noteq> COMP_ALGV2_UNCOMPRESSED \<and> cop_alg info \<noteq> COMP_ALG_STUB \<and> cop_alg info \<noteq> COMP_ALG_UNDEF"

text \<open>For a build with both libraries.\<close>

definition check_compression_settings_valid :: "compress_options \<Rightarrow> bool" where
  "check_compression_settings_valid info \<longleftrightarrow>
     \<not> (cop_alg info \<noteq> COMP_ALGV2_UNCOMPRESSED \<and> cop_alg info \<noteq> COMP_ALG_UNDEF \<and> cop_flags info AND COMP_F_ALLOW_NOCOMP_ONLY \<noteq> 0)
     \<and> \<not> (cop_flags info AND COMP_F_ALLOW_STUB_ONLY \<noteq> 0 \<and> comp_non_stub_enabled info)"

section \<open>Sending\<close>

text \<open>Moving the first byte of the packet to its end and putting the header in its place.\<close>

definition swap_head :: "u8 \<Rightarrow> buffer \<Rightarrow> buffer option" where
  "swap_head byte buf = do {
     head \<leftarrow> buf_bptr buf;
     tail \<leftarrow> buf_bend buf;
     c_assert (buf_safe buf 1);
     x \<leftarrow> buf_first buf;
     buf \<leftarrow> buf_store (buf\<lparr>len := len buf + 1\<rparr>) tail [x];
     buf_store buf head [byte]
   }"

definition compv2_escape_data_ifneeded :: "buffer \<Rightarrow> buffer option" where
  "compv2_escape_data_ifneeded buf = do {
     x \<leftarrow> buf_first buf;
     (if x \<noteq> COMP_ALGV2_INDICATOR_BYTE then Some buf
      else do {
        let (p, buf) = buf_prepend buf 2;
        head \<leftarrow> p;
        buf_store buf head [COMP_ALGV2_INDICATOR_BYTE, word_of_int COMP_ALGV2_UNCOMPRESSED] })
   }"

definition prepend_byte :: "u8 \<Rightarrow> buffer \<Rightarrow> buffer option" where
  "prepend_byte byte buf = do {
     let (p, buf) = buf_prepend buf 1;
     header \<leftarrow> p;
     buf_store buf header [byte]
   }"

definition stub_compress :: "compress_context \<Rightarrow> buffer \<Rightarrow> buffer option" where
  "stub_compress ctx buf =
     (if len buf \<le> 0 then Some buf
      else if swapped ctx then swap_head NO_COMPRESS_BYTE_SWAP buf
      else prepend_byte NO_COMPRESS_BYTE buf)"

definition stubv2_compress :: "buffer \<Rightarrow> buffer option" where
  "stubv2_compress buf = (if len buf \<le> 0 then Some buf else compv2_escape_data_ifneeded buf)"

definition lz4_compress :: "buffer \<Rightarrow> buffer option" where
  "lz4_compress buf = (if len buf \<le> 0 then Some buf else swap_head NO_COMPRESS_BYTE_SWAP buf)"

definition lz4v2_compress :: "buffer \<Rightarrow> buffer option" where
  "lz4v2_compress buf = (if len buf \<le> 0 then Some buf else compv2_escape_data_ifneeded buf)"

definition lzo_compress :: "buffer \<Rightarrow> buffer option" where
  "lzo_compress buf = prepend_byte NO_COMPRESS_BYTE buf"

text \<open>The call through \<^verbatim>\<open>alg.compress\<close>.\<close>

definition alg_compress :: "compress_context \<Rightarrow> buffer \<Rightarrow> buffer option" where
  "alg_compress ctx buf =
     (case cmp_alg ctx of
        Comp_stub_alg \<Rightarrow> stub_compress ctx buf
      | Compv2_stub_alg \<Rightarrow> stubv2_compress buf
      | Lzo_alg \<Rightarrow> lzo_compress buf
      | Lz4_alg \<Rightarrow> lz4_compress buf
      | Lz4v2_alg \<Rightarrow> lz4v2_compress buf)"

section \<open>Receiving\<close>

text \<open>Taking the header away and the last byte back to the front: the header and the packet.\<close>

definition unswap_head :: "buffer \<Rightarrow> (u8 \<times> buffer) option" where
  "unswap_head buf = do {
     head \<leftarrow> buf_bptr buf;
     c \<leftarrow> buf_first buf;
     let buf = buf\<lparr>len := len buf - 1\<rparr>;
     tail \<leftarrow> buf_bend buf;
     m \<leftarrow> data buf;
     x \<leftarrow> mem_get m tail;
     buf \<leftarrow> buf_store buf head [x];
     Some (c, buf)
   }"

definition stub_decompress :: "compress_context \<Rightarrow> buffer \<Rightarrow> buffer option" where
  "stub_decompress ctx buf =
     (if len buf \<le> 0 then Some buf
      else if swapped ctx then do {
        (c, buf) \<leftarrow> unswap_head buf;
        Some (if c \<noteq> NO_COMPRESS_BYTE_SWAP then buf\<lparr>len := 0\<rparr> else buf) }
      else do {
        c \<leftarrow> buf_first buf;
        let (ok, buf) = buf_advance buf 1;
        c_assert ok;
        Some (if c \<noteq> NO_COMPRESS_BYTE then buf\<lparr>len := 0\<rparr> else buf) })"

definition stubv2_decompress :: "buffer \<Rightarrow> buffer option" where
  "stubv2_decompress buf =
     (if len buf \<le> 0 then Some buf
      else do {
        x \<leftarrow> buf_first buf;
        (if x \<noteq> COMP_ALGV2_INDICATOR_BYTE then Some buf
         else do {
           let buf = snd (buf_advance buf 1);
           (if len buf \<le> 0 then Some buf
            else do {
              y \<leftarrow> buf_first buf;
              let buf = snd (buf_advance buf 1);
              Some (if y \<noteq> COMP_ALGV2_UNCOMPRESSED_BYTE then buf\<lparr>len := 0\<rparr> else buf) }) }) })"

text \<open>The expanded packet is written to the work buffer, which takes the place of the packet.\<close>

definition put_expanded :: "bytes \<Rightarrow> buffer \<Rightarrow> buffer \<Rightarrow> compress_context \<Rightarrow> (buffer \<times> compress_context) option" where
  "put_expanded bs work buf ctx = do {
     p \<leftarrow> buf_bptr work;
     work \<leftarrow> buf_store work p bs;
     c_assert (buf_safe work (int (length bs)));
     let work = work\<lparr>len := int (length bs)\<rparr>;
     Some (work, ctx\<lparr>cmp_pre_decompress := cmp_pre_decompress ctx + word_of_int (len buf),
                     cmp_post_decompress := cmp_post_decompress ctx + word_of_int (len work)\<rparr>)
   }"

definition do_lz4_decompress :: "comp_lib \<Rightarrow> int \<Rightarrow> buffer \<Rightarrow> buffer \<Rightarrow> compress_context \<Rightarrow> (buffer \<times> compress_context) option" where
  "do_lz4_decompress lib zlen_max work buf ctx = do {
     c_assert (buf_safe work zlen_max);
     bs \<leftarrow> buf_bytes buf;
     (case lib_lz4 lib bs zlen_max of
        None \<Rightarrow> Some (buf\<lparr>len := 0\<rparr>, ctx)
      | Some out \<Rightarrow> put_expanded out work buf ctx)
   }"

definition lz4_decompress :: "comp_lib \<Rightarrow> frame \<Rightarrow> buffer \<Rightarrow> compress_context \<Rightarrow> buffer \<Rightarrow> (buffer \<times> compress_context) option" where
  "lz4_decompress lib frame work ctx buf =
     (if len buf \<le> 0 then Some (buf, ctx)
      else do {
        let (ok, work) = buf_init_dowork work (fb_headroom frame);
        c_assert ok;
        (c, buf) \<leftarrow> unswap_head buf;
        (if c = LZ4_COMPRESS_BYTE then do_lz4_decompress lib (fb_payload_size frame) work buf ctx
         else if c = NO_COMPRESS_BYTE_SWAP then Some (buf, ctx)
         else Some (buf\<lparr>len := 0\<rparr>, ctx)) })"

definition lz4v2_decompress :: "comp_lib \<Rightarrow> frame \<Rightarrow> buffer \<Rightarrow> compress_context \<Rightarrow> buffer \<Rightarrow> (buffer \<times> compress_context) option" where
  "lz4v2_decompress lib frame work ctx buf =
     (if len buf \<le> 0 then Some (buf, ctx)
      else do {
        let (ok, work) = buf_init_dowork work (fb_headroom frame);
        c_assert ok;
        x \<leftarrow> buf_first buf;
        (if x \<noteq> COMP_ALGV2_INDICATOR_BYTE then Some (buf, ctx)
         else if len buf \<le> 1 then Some (buf\<lparr>len := 0\<rparr>, ctx)
         else do {
           m \<leftarrow> data buf;
           c \<leftarrow> mem_get m (offset buf + 1);
           (if c = COMP_ALGV2_LZ4_BYTE then do_lz4_decompress lib (fb_payload_size frame) work (snd (buf_advance buf 2)) ctx
            else if c = COMP_ALGV2_UNCOMPRESSED_BYTE then Some (snd (buf_advance buf 2), ctx)
            else Some (buf\<lparr>len := 0\<rparr>, ctx)) }) })"

definition lzo_decompress :: "comp_lib \<Rightarrow> frame \<Rightarrow> buffer \<Rightarrow> compress_context \<Rightarrow> buffer \<Rightarrow> (buffer \<times> compress_context) option" where
  "lzo_decompress lib frame work ctx buf =
     (if len buf \<le> 0 then Some (buf, ctx)
      else do {
        let (ok, work) = buf_init_dowork work (fb_headroom frame);
        c_assert ok;
        c \<leftarrow> buf_first buf;
        let (ok, buf) = buf_advance buf 1;
        c_assert ok;
        (if c = LZO_COMPRESS_BYTE then do {
           c_assert (buf_safe work (fb_payload_size frame));
           bs \<leftarrow> buf_bytes buf;
           (case lib_lzo lib bs (fb_payload_size frame) of
              None \<Rightarrow> Some (buf\<lparr>len := 0\<rparr>, ctx)
            | Some out \<Rightarrow> put_expanded out work buf ctx) }
         else if c = NO_COMPRESS_BYTE then Some (buf, ctx)
         else Some (buf\<lparr>len := 0\<rparr>, ctx)) })"

text \<open>The call through \<^verbatim>\<open>alg.decompress\<close>.\<close>

definition alg_decompress :: "comp_lib \<Rightarrow> frame \<Rightarrow> buffer \<Rightarrow> compress_context \<Rightarrow> buffer \<Rightarrow> (buffer \<times> compress_context) option" where
  "alg_decompress lib frame work ctx buf =
     (case cmp_alg ctx of
        Comp_stub_alg \<Rightarrow> do { b \<leftarrow> stub_decompress ctx buf; Some (b, ctx) }
      | Compv2_stub_alg \<Rightarrow> do { b \<leftarrow> stubv2_decompress buf; Some (b, ctx) }
      | Lzo_alg \<Rightarrow> lzo_decompress lib frame work ctx buf
      | Lz4_alg \<Rightarrow> lz4_decompress lib frame work ctx buf
      | Lz4v2_alg \<Rightarrow> lz4v2_decompress lib frame work ctx buf)"

section \<open>Framing is undone by the peer\<close>

lemma mem_get_content:
  assumes "buf_live b" "data b = Some m" "i < length (buf_content b)"
  shows "mem_get m (offset b + int i) = Some (buf_content b ! i)"
proof -
  from assms(1) obtain m' where m: "data b = Some m'" "0 \<le> offset b" "0 \<le> len b" "offset b + len b \<le> int (length m')"
    by (rule buf_live_Some) blast
  have l: "int i < len b" using assms(3) len_buf_content [OF assms(1)] by simp
  then show ?thesis using m assms(2) by (simp add: mem_get_def buf_content_def slice_def nat_add_distrib)
qed

lemma swap_head_live:
  assumes "buf_live b" "buf_content b = x # xs" "1 \<le> buf_room b"
  shows "\<exists>b'. swap_head byte b = Some b' \<and> buf_live b' \<and> buf_content b' = byte # xs @ [x] \<and> offset b' = offset b \<and> capacity b' = capacity b"
proof -
  have s: "buf_safe b 1" using buf_safe_room [OF assms(1), of 1] assms(3) by simp
  then obtain stale where b1: "buf_live (b\<lparr>len := len b + 1\<rparr>)" "buf_content (b\<lparr>len := len b + 1\<rparr>) = (x # xs) @ [stale] @ []"
    using buf_write_alloc_live [OF assms(1,3)] assms(2) by (auto simp: buf_write_alloc_def length_Suc_conv)
  have t: "offset b + len b = offset (b\<lparr>len := len b + 1\<rparr>) + int (length (x # xs))"
    using len_buf_content [OF assms(1)] assms(2) by simp
  from buf_store_inside [OF b1 _ t, of "[x]"] obtain b2 where
    b2: "buf_store (b\<lparr>len := len b + 1\<rparr>) (offset b + len b) [x] = Some b2" "buf_live b2" "buf_content b2 = [] @ [x] @ xs @ [x]"
      "offset b2 = offset b" "capacity b2 = capacity b" by auto
  from buf_store_inside [OF b2(2,3), of "[byte]" "offset b"] obtain b3 where
    "buf_store b2 (offset b) [byte] = Some b3" "buf_live b3" "buf_content b3 = byte # xs @ [x]" "offset b3 = offset b" "capacity b3 = capacity b"
    using b2(4,5) by auto
  with b2(1) s show ?thesis
    using buf_bptr_live [OF assms(1)] buf_bend_live [OF assms(1)] buf_first_live [OF assms(1,2)] by (simp add: swap_head_def)
qed

lemma unswap_head_live:
  assumes "buf_live b" "buf_content b = c # xs @ [y]"
  shows "\<exists>b'. unswap_head b = Some (c, b') \<and> buf_live b' \<and> buf_content b' = y # xs"
proof -
  have l: "len b - 1 = int (length (c # xs))" using len_buf_content [OF assms(1)] assms(2) by simp
  let ?b = "b\<lparr>len := len b - 1\<rparr>"
  have b1: "buf_live ?b" "buf_content ?b = [] @ [c] @ xs" using buf_inc_len_back(2,3) [OF assms(1), of "c # xs" "[y]"] assms(2) l by simp_all
  from assms(1) obtain m where m: "data b = Some m" by (rule buf_live_Some)
  have y: "mem_get m (offset b + (len b - 1)) = Some y"
    using mem_get_content [OF assms(1) m, of "Suc (length xs)"] assms(2) l by (simp add: nth_append)
  from buf_store_inside [OF b1, of "[y]" "offset b"] obtain b2 where
    "buf_store ?b (offset b) [y] = Some b2" "buf_live b2" "buf_content b2 = y # xs" by auto
  with y m show ?thesis
    using buf_bptr_live [OF assms(1)] buf_bend_live [OF b1(1)] buf_first_live [OF assms] by (simp add: unswap_head_def)
qed

lemma prepend_bytes_live:
  assumes "buf_live b" "length bs \<le> buf_headroom b" "n = int (length bs)"
  shows "\<exists>b'. (do { let (p, b) = buf_prepend b n; h \<leftarrow> p; buf_store b h bs }) = Some b' \<and> buf_live b' \<and> buf_content b' = bs @ buf_content b"
proof -
  from buf_prepend_live [OF assms(1,2)] obtain b1 stale where
    b1: "buf_prepend b n = (Some (offset b - n), b1)" "buf_live b1" "length stale = length bs" "buf_content b1 = [] @ stale @ buf_content b"
      "offset b1 = offset b - n" unfolding assms(3) by auto
  from buf_store_inside [OF b1(2,4), of bs "offset b - n"] b1 show ?thesis by auto
qed

lemma head_advance:
  assumes "buf_live b" "buf_content b = x # xs"
  shows "\<exists>b'. buf_advance b 1 = (True, b') \<and> buf_live b' \<and> buf_content b' = xs"
  using buf_advance_live [OF assms(1), of "[x]" xs 1] assms(2) by auto

definition v2_framing :: "compress_alg \<Rightarrow> bool" where
  "v2_framing a \<longleftrightarrow> a = Compv2_stub_alg \<or> a = Lz4v2_alg"

text \<open>What the sender's framing makes of a packet, for all formats without an escape.\<close>

definition framed :: "compress_context \<Rightarrow> bytes \<Rightarrow> bytes" where
  "framed ctx bs =
     (if cmp_alg ctx = Lz4_alg \<or> cmp_alg ctx = Comp_stub_alg \<and> swapped ctx then NO_COMPRESS_BYTE_SWAP # tl bs @ [hd bs]
      else if cmp_alg ctx = Lzo_alg \<or> cmp_alg ctx = Comp_stub_alg then NO_COMPRESS_BYTE # bs
      else bs)"

lemma alg_compress_framed:
  assumes b: "buf_live b" "buf_content b = x # xs" and room: "1 \<le> buf_room b" "1 \<le> buf_headroom b"
    and v2: "v2_framing (cmp_alg ctx) \<longrightarrow> x \<noteq> COMP_ALGV2_INDICATOR_BYTE"
  shows "\<exists>b1. alg_compress ctx b = Some b1 \<and> buf_live b1 \<and> buf_content b1 = framed ctx (x # xs)"
proof -
  have l: "\<not> len b \<le> 0" using len_buf_content [OF b(1)] b(2) by simp
  note sw = swap_head_live [OF b room(1), of NO_COMPRESS_BYTE_SWAP]
    and pr = prepend_bytes_live [OF b(1), of "[NO_COMPRESS_BYTE]" 1]
  show ?thesis
  proof (cases "cmp_alg ctx")
    case Comp_stub_alg
    then show ?thesis using l sw pr b(2) room(2)
      by (cases "swapped ctx") (auto simp: alg_compress_def stub_compress_def framed_def prepend_byte_def)
  next
    case Compv2_stub_alg
    then show ?thesis using l v2 b buf_first_live [OF b]
      by (simp add: alg_compress_def stubv2_compress_def framed_def compv2_escape_data_ifneeded_def v2_framing_def)
  next
    case Lzo_alg
    then show ?thesis using pr b(2) room(2) by (auto simp: alg_compress_def lzo_compress_def framed_def prepend_byte_def)
  next
    case Lz4_alg
    then show ?thesis using l sw by (auto simp: alg_compress_def lz4_compress_def framed_def)
  next
    case Lz4v2_alg
    then show ?thesis using l v2 b buf_first_live [OF b]
      by (simp add: alg_compress_def lz4v2_compress_def framed_def compv2_escape_data_ifneeded_def v2_framing_def)
  qed
qed

lemma alg_decompress_framed:
  assumes p: "buf_live p" "buf_content p = framed ctx (x # xs)" and v2: "v2_framing (cmp_alg ctx) \<longrightarrow> x \<noteq> COMP_ALGV2_INDICATOR_BYTE"
    and work: "fst (buf_init_dowork work (fb_headroom frame))"
  shows "\<exists>b2. alg_decompress lib frame work ctx p = Some (b2, ctx) \<and> buf_live b2 \<and> buf_content b2 = x # xs"
proof -
  have l: "\<not> len p \<le> 0" using len_buf_content [OF p(1)] p(2) by (auto simp: framed_def split: if_splits)
  obtain w where w: "buf_init_dowork work (fb_headroom frame) = (True, w)" using work by (cases "buf_init_dowork work (fb_headroom frame)") auto
  have bytes: "NO_COMPRESS_BYTE \<noteq> LZO_COMPRESS_BYTE" "NO_COMPRESS_BYTE_SWAP \<noteq> LZ4_COMPRESS_BYTE"
    by (simp_all add: NO_COMPRESS_BYTE_def LZO_COMPRESS_BYTE_def NO_COMPRESS_BYTE_SWAP_def LZ4_COMPRESS_BYTE_def)
  show ?thesis
  proof (cases "cmp_alg ctx = Lz4_alg \<or> cmp_alg ctx = Comp_stub_alg \<and> swapped ctx")
    case True
    then have c: "buf_content p = NO_COMPRESS_BYTE_SWAP # xs @ [x]" using p(2) by (auto simp: framed_def)
    from unswap_head_live [OF p(1) c] True l w bytes show ?thesis
      by (auto simp: alg_decompress_def lz4_decompress_def stub_decompress_def)
  next
    case False
    show ?thesis
    proof (cases "cmp_alg ctx = Lzo_alg \<or> cmp_alg ctx = Comp_stub_alg")
      case True
      then have c: "buf_content p = NO_COMPRESS_BYTE # x # xs" using False p(2) by (auto simp: framed_def)
      from head_advance [OF p(1) c] buf_first_live [OF p(1) c] True False l w bytes show ?thesis
        by (auto simp: alg_decompress_def lzo_decompress_def stub_decompress_def)
    next
      case none: False
      then have "buf_content p = x # xs" using False p(2) by (auto simp: framed_def)
      from buf_first_live [OF p(1) this] this False none l w v2 p(1) show ?thesis
        by (cases "cmp_alg ctx") (auto simp: alg_decompress_def lz4v2_decompress_def stubv2_decompress_def v2_framing_def)
    qed
  qed
qed


text \<open>C31: The escape of the version 2 formats does not work. A packet that begins with the indicator byte 0x50 is sent behind the two bytes
  0x50 and 10 (the number of the algorithm) where the receiver expects 0x50 and 0 (the byte for an uncompressed packet), so the receiver drops it.\<close>

theorem compv2_escape_flaw:
  assumes "v2_framing (cmp_alg ctx)" "buf_live b" "buf_content b = COMP_ALGV2_INDICATOR_BYTE # xs" "2 \<le> buf_headroom b"
    and "fst (buf_init_dowork work (fb_headroom frame))"
  shows "\<exists>sent out. alg_compress ctx b = Some sent \<and> buf_content sent = [COMP_ALGV2_INDICATOR_BYTE, 10] @ buf_content b
     \<and> alg_decompress lib frame work ctx sent = Some (out, ctx) \<and> len out = 0"
proof -
  let ?h = "[COMP_ALGV2_INDICATOR_BYTE, word_of_int COMP_ALGV2_UNCOMPRESSED]"
  from prepend_bytes_live [OF assms(2), of ?h 2] assms(4) obtain s where
    s: "(do { let (p, b) = buf_prepend b 2; h \<leftarrow> p; buf_store b h ?h }) = Some s" "buf_live s"
      "buf_content s = COMP_ALGV2_INDICATOR_BYTE # 10 # buf_content b" by (auto simp: COMP_ALGV2_UNCOMPRESSED_def)
  have l: "\<not> len b \<le> 0" "\<not> len s \<le> 0" "\<not> len s \<le> 1" using len_buf_content [OF assms(2)] len_buf_content [OF s(2)] s(3) assms(3) by simp_all
  have c: "alg_compress ctx b = Some s" using assms(1) l(1) buf_first_live [OF assms(2,3)] s(1)
    by (auto simp: alg_compress_def v2_framing_def stubv2_compress_def lz4v2_compress_def compv2_escape_data_ifneeded_def)
  from s(2) obtain m where m: "data s = Some m" by (rule buf_live_Some)
  from head_advance [OF s(2,3)] obtain s1 where s1: "buf_advance s 1 = (True, s1)" "buf_live s1" "buf_content s1 = 10 # buf_content b" by blast
  have l1: "\<not> len s1 \<le> 0" using len_buf_content [OF s1(2)] s1(3) by simp
  have y: "mem_get m (offset s + 1) = Some 10" using mem_get_content [OF s(2) m, of 1] s(3) by simp
  have n: "(10 :: u8) \<noteq> COMP_ALGV2_UNCOMPRESSED_BYTE" "(10 :: u8) \<noteq> COMP_ALGV2_LZ4_BYTE"
    by (simp_all add: COMP_ALGV2_UNCOMPRESSED_BYTE_def COMP_ALGV2_LZ4_BYTE_def)
  obtain w where w: "buf_init_dowork work (fb_headroom frame) = (True, w)" using assms(5) by (cases "buf_init_dowork work (fb_headroom frame)") auto
  have "\<exists>out. alg_decompress lib frame work ctx s = Some (out, ctx) \<and> len out = 0"
    using assms(1) l l1 s1(1) n w y m buf_first_live [OF s(2,3)] buf_first_live [OF s1(2,3)]
    by (auto simp: v2_framing_def alg_decompress_def stubv2_decompress_def lz4v2_decompress_def)
  with c s(3) show ?thesis by auto
qed

text \<open>
  The LZO sender lacks the test for an empty packet that the other senders have: a packet that an earlier stage has dropped by
  setting its length to 0 leaves it as a packet of one byte.
\<close>

theorem lzo_compress_revives:
  assumes "buf_live b" "buf_content b = []" "1 \<le> buf_headroom b"
  shows "\<exists>sent. lzo_compress b = Some sent \<and> buf_content sent = [NO_COMPRESS_BYTE] \<and> stub_compress ctx b = Some b \<and> lz4_compress b = Some b"
proof -
  have "len b \<le> 0" using len_buf_content [OF assms(1)] assms(2) by simp
  then show ?thesis using prepend_bytes_live [OF assms(1), of "[NO_COMPRESS_BYTE]" 1] assms(2,3)
    by (auto simp: lzo_compress_def prepend_byte_def stub_compress_def lz4_compress_def)
qed

definition toy_comp :: "compress_alg \<Rightarrow> compress_context" where
  "toy_comp a = \<lparr>cmp_flags = COMP_F_SWAP, cmp_alg = a, cmp_pre_decompress = 0, cmp_post_decompress = 0\<rparr>"

definition toy_comp_frame :: frame where
  "toy_comp_frame = \<lparr>fb_payload_size = 8, fb_headroom = 4, fb_tailroom = 0, mss_fix = 0, max_fragment_size = 0, tun_mtu = 8, tun_max_mtu = 8, extra_tun = 0\<rparr>"

definition toy_comp_buf :: "bytes \<Rightarrow> buffer" where
  "toy_comp_buf bs = \<lparr>capacity = int (length bs) + 4, offset = 2, len = int (length bs), data = Some ([0, 0] @ bs @ [0, 0])\<rparr>"

lemma toy_comp_buf_live:
  "buf_live (toy_comp_buf [x, y])" "buf_content (toy_comp_buf [x, y]) = [x, y]" "buf_room (toy_comp_buf [x, y]) = 2" "buf_headroom (toy_comp_buf [x, y]) = 2"
  "fst (buf_init_dowork (toy_comp_buf [x, y]) (fb_headroom toy_comp_frame))"
  by (simp_all add: toy_comp_buf_def buf_live_def buf_wf_def buf_content_def slice_def buf_room_def buf_headroom_def BUF_SIZE_MAX_def
      buf_init_dowork_def toy_comp_frame_def)


theorem compv2_escape_flaw_witness:
  "\<exists>sent out. alg_compress (toy_comp Compv2_stub_alg) (toy_comp_buf [0x50, 8]) = Some sent \<and> buf_content sent = [0x50, 10, 0x50, 8]
     \<and> alg_decompress \<lparr>lib_lz4 = (\<lambda>_ _. None), lib_lzo = (\<lambda>_ _. None)\<rparr> toy_comp_frame (toy_comp_buf [0, 0]) (toy_comp Compv2_stub_alg) sent
         = Some (out, toy_comp Compv2_stub_alg) \<and> len out = 0"
proof -
  note t = toy_comp_buf_live
  have c: "buf_content (toy_comp_buf [0x50, 8]) = COMP_ALGV2_INDICATOR_BYTE # [8]" by (simp add: t(2) COMP_ALGV2_INDICATOR_BYTE_def)
  from compv2_escape_flaw [OF _ t(1) c _ t(5), where ctx = "toy_comp Compv2_stub_alg"] t(4) show ?thesis
    by (simp add: toy_comp_def v2_framing_def t(2) COMP_ALGV2_INDICATOR_BYTE_def)
qed

end
