(* ===== verification/Key_Exchange.thy ===== *)
theory Key_Exchange
  imports Tls_Crypt
begin

text \<open>
  The key exchange over the TLS channel, \<^verbatim>\<open>openvpn/src/openvpn/ssl.c\<close>: both ends write random source
  material, an options string, credentials and peer information in a fixed format
  (\<^verbatim>\<open>key_method_2_write\<close>), read the peer's (\<^verbatim>\<open>key_method_2_read\<close>) and expand the material to data channel
  keys (\<^verbatim>\<open>generate_key_expansion\<close>).

  C strings are their bytes without the terminating 0. \<open>rnd\<close> are the bytes of \<^verbatim>\<open>rand_bytes\<close>, \<open>tls_prf\<close> is the
  crypto library's \<^verbatim>\<open>ssl_tls1_PRF\<close> (seed, secret, output length), \<open>exported\<close> the TLS library's keying
  material exporter.
\<close>

section \<open>Strings on the wire\<close>

definition write_empty_string :: "buffer \<Rightarrow> (bool \<times> buffer) option" where
  "write_empty_string buf = buf_write_u16 buf 0"

definition write_string :: "buffer \<Rightarrow> bytes \<Rightarrow> int \<Rightarrow> (bool \<times> buffer) option" where
  "write_string buf str maxlen = do {
     let l = length str + 1;
     let real_maxlen = (if maxlen \<ge> 0 \<and> maxlen \<le> 65535 then nat maxlen else 65535);
     (if l > real_maxlen then Some (False, buf)
      else do {
        (ok, buf) \<leftarrow> buf_write_u16 buf (of_nat l);
        (if \<not> ok then Some (False, buf) else buf_write buf (str @ [0])) })
   }"

text \<open>The string a C program sees in \<open>n\<close> bytes of memory whose last byte is set to 0.\<close>

definition c_string :: "bytes \<Rightarrow> bytes" where
  "c_string bs = takeWhile (\<lambda>b. b \<noteq> 0) (butlast bs)"

text \<open>
  The results are the return value and the string in the caller's zeroed array.
\<close>

definition read_string :: "buffer \<Rightarrow> int \<Rightarrow> (int \<times> bytes \<times> buffer) option" where
  "read_string buf cap = do {
     (l, buf) \<leftarrow> buf_read_u16 buf;
     (if l < 1 \<or> l > cap then Some (- l, [], snd (buf_advance buf l))
      else do {
        (r, buf) \<leftarrow> buf_read buf l;
        Some (case r of None \<Rightarrow> (- l, [], buf) | Some bs \<Rightarrow> (l, c_string bs, buf)) })
   }"

definition read_string_alloc :: "buffer \<Rightarrow> (bytes option \<times> buffer) option" where
  "read_string_alloc buf = do {
     (l, buf) \<leftarrow> buf_read_u16 buf;
     (if l < 1 then Some (None, buf)
      else do { (r, buf) \<leftarrow> buf_read buf l; Some (map_option c_string r, buf) })
   }"

section \<open>Key source material\<close>

record key_source =
  src_pre_master :: bytes
  src_random1 :: bytes
  src_random2 :: bytes

record key_source2 =
  ks2_client :: key_source
  ks2_server :: key_source

definition key_source_zero :: key_source where
  "key_source_zero = \<lparr>src_pre_master = replicate 48 0, src_random1 = replicate 32 0, src_random2 = replicate 32 0\<rparr>"

definition key_source2_zero :: key_source2 where
  "key_source2_zero = \<lparr>ks2_client = key_source_zero, ks2_server = key_source_zero\<rparr>"

definition set_source :: "bool \<Rightarrow> key_source \<Rightarrow> key_source2 \<Rightarrow> key_source2" where
  "set_source server k k2 = (if server then k2\<lparr>ks2_server := k\<rparr> else k2\<lparr>ks2_client := k\<rparr>)"

definition key_source2_randomize_write ::
    "(nat \<Rightarrow> u8) \<Rightarrow> key_source2 \<Rightarrow> buffer \<Rightarrow> bool \<Rightarrow> (bool \<times> key_source2 \<times> buffer) option" where
  "key_source2_randomize_write rnd k2 buf server = do {
     let k = key_source_zero;
     let k = (if server then k else k\<lparr>src_pre_master := map rnd [0..<48]\<rparr>);
     (ok, buf) \<leftarrow> (if server then Some (True, buf) else buf_write buf (src_pre_master k));
     (if \<not> ok then Some (False, set_source server k k2, buf)
      else do {
        let k = k\<lparr>src_random1 := map rnd [48..<80]\<rparr>;
        (ok, buf) \<leftarrow> buf_write buf (src_random1 k);
        (if \<not> ok then Some (False, set_source server k k2, buf)
         else do {
           let k = k\<lparr>src_random2 := map rnd [80..<112]\<rparr>;
           (ok, buf) \<leftarrow> buf_write buf (src_random2 k);
           Some (ok, set_source server k k2, buf) }) })
   }"

text \<open>The peer's part: \<open>server\<close> is the role of the reader.\<close>

definition key_source2_read :: "key_source2 \<Rightarrow> buffer \<Rightarrow> bool \<Rightarrow> (bool \<times> key_source2 \<times> buffer) option" where
  "key_source2_read k2 buf server = do {
     let k = key_source_zero;
     (r, buf) \<leftarrow> (if server then buf_read buf 48 else Some (Some (src_pre_master k), buf));
     (case r of
        None \<Rightarrow> Some (False, set_source (\<not> server) k k2, buf)
      | Some bs \<Rightarrow> do {
          let k = k\<lparr>src_pre_master := bs\<rparr>;
          (r, buf) \<leftarrow> buf_read buf 32;
          (case r of
             None \<Rightarrow> Some (False, set_source (\<not> server) k k2, buf)
           | Some bs \<Rightarrow> do {
               let k = k\<lparr>src_random1 := bs\<rparr>;
               (r, buf) \<leftarrow> buf_read buf 32;
               Some (case r of
                  None \<Rightarrow> (False, set_source (\<not> server) k k2, buf)
                | Some bs \<Rightarrow> (True, set_source (\<not> server) (k\<lparr>src_random2 := bs\<rparr>) k2, buf)) }) })
   }"

section \<open>The key exchange messages\<close>

definition KEY_METHOD_2 :: u8 where "KEY_METHOD_2 = 2"
definition KEY_METHOD_MASK :: int where "KEY_METHOD_MASK = 0x0F"
definition TLS_OPTIONS_LEN :: int where "TLS_OPTIONS_LEN = 512"
definition USER_PASS_LEN :: int where "USER_PASS_LEN = 128"

text \<open>
  What the message is built from: \<open>kw_options\<close> is the options string (\<^verbatim>\<open>local_options\<close> or its compatible
  form), \<open>kw_user_pass\<close> the credentials when there are any to send, \<open>kw_peer_info\<close> the text \<^verbatim>\<open>push_peer_info\<close>
  assembles from the platform, \<open>None\<close> when its detail level is 0.
\<close>

record km2_fields =
  kw_options :: bytes
  kw_user_pass :: "(bytes \<times> bytes) option"
  kw_peer_info :: "bytes option"

text \<open>The writes after the source material; \<open>False\<close> as soon as one fails.\<close>

definition write_user_pass :: "buffer \<Rightarrow> (bytes \<times> bytes) option \<Rightarrow> (bool \<times> buffer) option" where
  "write_user_pass buf up =
     (case up of
        Some (username, password) \<Rightarrow> do {
          (ok, buf) \<leftarrow> write_string buf username (- 1);
          (if \<not> ok then Some (False, buf) else write_string buf password (- 1)) }
      | None \<Rightarrow> do {
          (ok, buf) \<leftarrow> write_empty_string buf;
          (if \<not> ok then Some (False, buf) else write_empty_string buf) })"

definition push_peer_info :: "buffer \<Rightarrow> bytes option \<Rightarrow> (bool \<times> buffer) option" where
  "push_peer_info buf info =
     (case info of Some str \<Rightarrow> write_string buf str (- 1) | None \<Rightarrow> write_empty_string buf)"

text \<open>Every failing write leaves through the label \<^verbatim>\<open>error\<close>, which wipes the source material.\<close>

definition key_method_2_write ::
    "(nat \<Rightarrow> u8) \<Rightarrow> km2_fields \<Rightarrow> bool \<Rightarrow> key_source2 \<Rightarrow> buffer \<Rightarrow> (bool \<times> key_source2 \<times> buffer) option" where
  "key_method_2_write rnd f server k2 buf = do {
     let (ok, buf) = buf_init_dowork buf 0;
     c_assert ok;
     (ok, buf) \<leftarrow> buf_write_u32 buf 0;
     (if \<not> ok then Some (False, key_source2_zero, buf)
      else do {
        (ok, buf) \<leftarrow> buf_write_u8 buf KEY_METHOD_2;
        (if \<not> ok then Some (False, key_source2_zero, buf)
         else do {
           (ok, k2, buf) \<leftarrow> key_source2_randomize_write rnd k2 buf server;
           (if \<not> ok then Some (False, key_source2_zero, buf)
            else do {
              (ok, buf) \<leftarrow> write_string buf (kw_options f) TLS_OPTIONS_LEN;
              (if \<not> ok then Some (False, key_source2_zero, buf)
               else do {
                 (ok, buf) \<leftarrow> write_user_pass buf (kw_user_pass f);
                 (if \<not> ok then Some (False, key_source2_zero, buf)
                  else do {
                    (ok, buf) \<leftarrow> push_peer_info buf (kw_peer_info f);
                    Some (if ok then (True, k2, buf) else (False, key_source2_zero, buf)) }) }) }) }) })
   }"

datatype ks_auth_state = KS_AUTH_FALSE | KS_AUTH_DEFERRED | KS_AUTH_TRUE

text \<open>
  The decisions of the authentication code: whether user names are checked and may be missing, the
  verdict on one (\<^verbatim>\<open>verify_user_pass\<close>), the result of the certificate verification
  (\<^verbatim>\<open>session->verified\<close>), whether \<^verbatim>\<open>verify_final_auth_checks\<close> deauthenticates the peer, and the answer of the
  plugin for the final veto when there is one.
\<close>

record auth_env =
  au_user_pass_enabled :: bool
  au_optional :: bool
  au_verify_user_pass :: "bytes \<Rightarrow> bytes \<Rightarrow> ks_auth_state"
  au_verified :: bool
  au_deauthenticate :: bool
  au_tls_final :: "bool option"

text \<open>What a message contains and what follows from it; \<open>km_deauth\<close> is the call of \<^verbatim>\<open>tls_deauthenticate\<close>.\<close>

record km2_result =
  km_key_src :: key_source2
  km_auth :: ks_auth_state
  km_options :: bytes
  km_user :: bytes
  km_pass :: bytes
  km_peer_info :: "bytes option"
  km_deauth :: bool
  km_buf :: buffer

definition km2_error :: "buffer \<Rightarrow> bytes option \<Rightarrow> (bool \<times> km2_result) option" where
  "km2_error buf info = do {
     buf \<leftarrow> buf_clear buf;
     Some (False, \<lparr>km_key_src = key_source2_zero, km_auth = KS_AUTH_FALSE, km_options = [], km_user = [], km_pass = [],
                   km_peer_info = info, km_deauth = False, km_buf = buf\<rparr>)
   }"

text \<open>The authentication verdict before the final checks; \<open>None\<close> is the jump to the error label.\<close>

definition km2_authenticate :: "auth_env \<Rightarrow> int \<Rightarrow> int \<Rightarrow> bytes \<Rightarrow> bytes \<Rightarrow> ks_auth_state option" where
  "km2_authenticate au username_len password_len username password =
     (if username_len < 0 \<or> password_len < 0 then Some KS_AUTH_FALSE
      else if au_user_pass_enabled au then
        (if username_len = 0 \<or> password_len = 0
         then (if \<not> au_optional au then None else Some (au_verify_user_pass au [] []))
         else Some (au_verify_user_pass au username password))
      else if \<not> au_verified au then None
      else Some KS_AUTH_TRUE)"

definition key_method_2_read ::
    "auth_env \<Rightarrow> bool \<Rightarrow> key_source2 \<Rightarrow> bytes option \<Rightarrow> buffer \<Rightarrow> (bool \<times> km2_result) option" where
  "key_method_2_read au server k2 old_info buf =
     (case buf_advance buf 4 of
        (False, buf) \<Rightarrow> km2_error buf old_info
      | (True, buf) \<Rightarrow> do {
          (flags, buf) \<leftarrow> buf_read_u8 buf;
          (if flags AND KEY_METHOD_MASK \<noteq> 2 then km2_error buf old_info
           else do {
             (ok, k2, buf) \<leftarrow> key_source2_read k2 buf server;
             (if \<not> ok then km2_error buf old_info
              else do {
                (l, options, buf) \<leftarrow> read_string buf TLS_OPTIONS_LEN;
                (if l < 0 then km2_error buf old_info
                 else do {
                   (ul, username, buf) \<leftarrow> read_string buf USER_PASS_LEN;
                   (pl, password, buf) \<leftarrow> read_string buf USER_PASS_LEN;
                   (info, buf) \<leftarrow> read_string_alloc buf;
                   (case km2_authenticate au ul pl username password of
                      None \<Rightarrow> km2_error buf info
                    | Some auth \<Rightarrow> do {
                        let deauth = (auth \<noteq> KS_AUTH_FALSE \<and> au_deauthenticate au);
                        let auth = (if deauth then KS_AUTH_FALSE else auth);
                        buf \<leftarrow> buf_clear buf;
                        let auth = (if auth \<noteq> KS_AUTH_FALSE \<and> au_tls_final au = Some False then KS_AUTH_FALSE else auth);
                        Some (True, \<lparr>km_key_src = k2, km_auth = auth, km_options = options, km_user = username,
                                     km_pass = password, km_peer_info = info, km_deauth = deauth, km_buf = buf\<rparr>) }) }) }) }) })"

section \<open>Key expansion\<close>

text \<open>\<open>None\<close> inside is the \<^verbatim>\<open>false\<close> return of the library's function.\<close>

type_synonym prf_fun = "bytes \<Rightarrow> bytes \<Rightarrow> nat \<Rightarrow> bytes option"

definition openvpn_PRF ::
    "prf_fun \<Rightarrow> bytes \<Rightarrow> bytes \<Rightarrow> bytes \<Rightarrow> bytes \<Rightarrow> session_id option \<Rightarrow> session_id option \<Rightarrow> nat \<Rightarrow> bytes option option" where
  "openvpn_PRF tls_prf secret label client_seed server_seed client_sid server_sid n = do {
     seed \<leftarrow> alloc_buf (length label + length client_seed + length server_seed + SID_SIZE * 2);
     (ok, seed) \<leftarrow> buf_write seed label;
     c_assert ok;
     (ok, seed) \<leftarrow> buf_write seed client_seed;
     c_assert ok;
     (ok, seed) \<leftarrow> buf_write seed server_seed;
     c_assert ok;
     seed \<leftarrow> (case client_sid of None \<Rightarrow> Some seed | Some sid \<Rightarrow> do { (ok, seed) \<leftarrow> buf_write seed sid; c_assert ok; Some seed });
     seed \<leftarrow> (case server_sid of None \<Rightarrow> Some seed | Some sid \<Rightarrow> do { (ok, seed) \<leftarrow> buf_write seed sid; c_assert ok; Some seed });
     bs \<leftarrow> buf_bytes seed;
     Some (tls_prf bs secret n)
   }"

text \<open>\<^verbatim>\<open>"OpenVPN master secret"\<close> and \<^verbatim>\<open>"OpenVPN key expansion"\<close>.\<close>

definition label_master_secret :: bytes where
  "label_master_secret = [79, 112, 101, 110, 86, 80, 78, 32, 109, 97, 115, 116, 101, 114, 32, 115, 101, 99, 114, 101, 116]"
definition label_key_expansion :: bytes where
  "label_key_expansion = [79, 112, 101, 110, 86, 80, 78, 32, 107, 101, 121, 32, 101, 120, 112, 97, 110, 115, 105, 111, 110]"

definition generate_key_expansion_openvpn_prf ::
    "prf_fun \<Rightarrow> bool \<Rightarrow> session_id \<Rightarrow> session_id \<Rightarrow> key_source2 \<Rightarrow> key2 option option" where
  "generate_key_expansion_openvpn_prf tls_prf server own_sid remote_sid k2 = do {
     let client_sid = (if server then remote_sid else own_sid);
     let server_sid = (if \<not> server then remote_sid else own_sid);
     master \<leftarrow> openvpn_PRF tls_prf (src_pre_master (ks2_client k2)) label_master_secret
                 (src_random1 (ks2_client k2)) (src_random1 (ks2_server k2)) None None 48;
     (case master of
        None \<Rightarrow> Some None
      | Some master \<Rightarrow> do {
          keys \<leftarrow> openvpn_PRF tls_prf master label_key_expansion (src_random2 (ks2_client k2)) (src_random2 (ks2_server k2))
                    (Some client_sid) (Some server_sid) 256;
          Some (map_option key2_of_bytes keys) })
   }"

definition generate_key_expansion_tls_export :: "bytes option \<Rightarrow> key2 option" where
  "generate_key_expansion_tls_export exported = map_option key2_of_bytes exported"

definition init_epoch_keys ::
    "(nat \<Rightarrow> u8) \<Rightarrow> hmac_fun \<Rightarrow> crypto_options \<Rightarrow> key_type \<Rightarrow> bool \<Rightarrow> key2 \<Rightarrow> crypto_options option" where
  "init_epoch_keys junk hmac co kt server key2 = do {
     let kds = key_direction_state_init (if server then KEY_DIRECTION_INVERSE else KEY_DIRECTION_NORMAL);
     c_assert (kds_out_key kds < length (k2_keys key2) \<and> kds_in_key kds < length (k2_keys key2));
     let e1_send = \<lparr>ek_key = take 32 (k_cipher (k2_keys key2 ! kds_out_key kds)), ek_epoch = 1\<rparr>;
     let e1_recv = \<lparr>ek_key = take 32 (k_cipher (k2_keys key2 ! kds_in_key kds)), ek_epoch = 1\<rparr>;
     epoch_init_key_ctx junk hmac co kt e1_send e1_recv 16
   }"

text \<open>\<open>epoch\<close> is the flag \<^verbatim>\<open>CO_EPOCH_DATA_KEY_FORMAT\<close>; the branch for kernel offload is not compiled in.\<close>

definition init_key_contexts ::
    "(nat \<Rightarrow> u8) \<Rightarrow> hmac_fun \<Rightarrow> crypto_options \<Rightarrow> bool \<Rightarrow> key_type \<Rightarrow> bool \<Rightarrow> key2 \<Rightarrow> crypto_options option" where
  "init_key_contexts junk hmac co epoch kt server key2 =
     (if epoch then do { c_assert (kt_aead kt); init_epoch_keys junk hmac co kt server key2 }
      else init_key_ctx_bi co key2 (if server then KEY_DIRECTION_INVERSE else KEY_DIRECTION_NORMAL) kt)"

text \<open>\<open>use_export\<close> is the flag \<^verbatim>\<open>CO_USE_TLS_KEY_MATERIAL_EXPORT\<close>.\<close>

definition generate_key_expansion ::
    "(nat \<Rightarrow> u8) \<Rightarrow> hmac_fun \<Rightarrow> prf_fun \<Rightarrow> bytes option \<Rightarrow> bool \<Rightarrow> bool \<Rightarrow> key_type \<Rightarrow> bool \<Rightarrow> session_id \<Rightarrow> session_id
       \<Rightarrow> key_source2 \<Rightarrow> crypto_options \<Rightarrow> (bool \<times> crypto_options) option" where
  "generate_key_expansion junk hmac tls_prf exported use_export epoch kt server own_sid remote_sid k2 co =
     (if co_initialized co then Some (False, co)
      else do {
        key2 \<leftarrow> (if use_export then Some (generate_key_expansion_tls_export exported)
                 else generate_key_expansion_openvpn_prf tls_prf server own_sid remote_sid k2);
        (case key2 of
           None \<Rightarrow> Some (False, co)
         | Some key2 \<Rightarrow>
             if \<exists>k \<in> set (k2_keys key2). \<not> check_key k kt then Some (False, co)
             else do { co \<leftarrow> init_key_contexts junk hmac co epoch kt server key2; Some (True, co) }) })"

section \<open>Messages are read as they were written\<close>

lemma put_step:
  assumes "buf_live b" "length xs \<le> buf_room b"
  obtains b' where "buf_write b xs = Some (True, b')" "buf_live b'" "buf_content b' = buf_content b @ xs" "buf_room b' = buf_room b - length xs"
  using wire.put_ok [OF assms] by blast

lemma get_step:
  assumes "buf_live b" "buf_content b = xs @ ys" "n = int (length xs)"
  obtains b' where "buf_read b n = Some (Some xs, b')" "buf_live b'" "buf_content b' = ys"
  using wire.get_ok [OF assms(1,2)] assms(3) by blast

definition wire_string :: "bytes \<Rightarrow> bytes" where
  "wire_string s = be16 (of_nat (length s + 1)) @ s @ [0]"

definition wire_string_opt :: "bytes option \<Rightarrow> bytes" where
  "wire_string_opt s = (case s of None \<Rightarrow> be16 0 | Some s \<Rightarrow> wire_string s)"

lemma length_wire_string [simp]: "length (wire_string s) = length s + 3"
  by (simp add: wire_string_def)

lemma write_string_ok:
  assumes b: "buf_live b" "length s + 3 \<le> buf_room b" and l: "length s < (if 0 \<le> mx \<and> mx \<le> 65535 then nat mx else 65535)"
  obtains b' where "write_string b s mx = Some (True, b')" "buf_live b'" "buf_content b' = buf_content b @ wire_string s"
    "buf_room b' = buf_room b - (length s + 3)"
proof -
  have "length (be16 (of_nat (length s + 1))) \<le> buf_room b" using b(2) by simp
  then obtain b1 where b1: "buf_write b (be16 (of_nat (length s + 1))) = Some (True, b1)" "buf_live b1"
    "buf_content b1 = buf_content b @ be16 (of_nat (length s + 1))" "buf_room b1 = buf_room b - 2"
    by (rule put_step [OF b(1)]) simp
  have "length (s @ [0]) \<le> buf_room b1" using b(2) b1(4) by simp
  then obtain b2 where b2: "buf_write b1 (s @ [0]) = Some (True, b2)" "buf_live b2" "buf_content b2 = buf_content b1 @ s @ [0]"
    "buf_room b2 = buf_room b1 - (length s + 1)"
    by (rule put_step [OF b1(2)]) simp
  show thesis
  proof (rule that [OF _ b2(2)])
    show "write_string b s mx = Some (True, b2)"
      using l b1(1) b2(1) by (auto simp: write_string_def buf_write_u16_def Let_def)
    show "buf_content b2 = buf_content b @ wire_string s" using b1(3) b2(3) by (simp add: wire_string_def)
    show "buf_room b2 = buf_room b - (length s + 3)" using b1(4) b2(4) by simp
  qed
qed

lemma read_length:
  assumes "buf_live b" "buf_content b = be16 (of_nat n) @ rest" "n < 65536"
  obtains b' where "buf_read_u16 b = Some (int n, b')" "buf_live b'" "buf_content b' = rest"
proof -
  have "2 = int (length (be16 (of_nat n)))" by simp
  then obtain b' where "buf_read b 2 = Some (Some (be16 (of_nat n)), b')" "buf_live b'" "buf_content b' = rest"
    by (rule get_step [OF assms(1,2)])
  moreover have "uint (of_nat n :: u16) = int n" using assms(3) by (simp add: uint_nat unat_of_nat)
  ultimately show thesis using that by (simp add: buf_read_u16_def rd16_be16)
qed

lemma c_string_append [simp]: "0 \<notin> set s \<Longrightarrow> c_string (s @ [0]) = s"
  by (auto simp: c_string_def takeWhile_eq_all_conv)

lemma read_string_ok:
  assumes b: "buf_live b" "buf_content b = wire_string s @ rest" and s: "0 \<notin> set s" "int (length s) < cap" "cap < 65536"
  obtains b' where "read_string b cap = Some (int (length s) + 1, s, b')" "buf_live b'" "buf_content b' = rest"
proof -
  have "buf_content b = be16 (of_nat (length s + 1)) @ (s @ [0]) @ rest" using b(2) by (simp add: wire_string_def)
  moreover have "length s + 1 < 65536" using s by simp
  ultimately obtain b1 where b1: "buf_read_u16 b = Some (int (length s + 1), b1)" "buf_live b1" "buf_content b1 = (s @ [0]) @ rest"
    by (rule read_length [OF b(1)])
  have "int (length s + 1) = int (length (s @ [0]))" by simp
  then obtain b2 where "buf_read b1 (int (length s + 1)) = Some (Some (s @ [0]), b2)" "buf_live b2" "buf_content b2 = rest"
    by (rule get_step [OF b1(2,3)])
  with b1(1) s that show thesis by (simp add: read_string_def add.commute)
qed

lemma read_string_empty:
  assumes "buf_live b" "buf_content b = be16 0 @ rest"
  obtains b' where "read_string b cap = Some (0, [], b')" "buf_live b'" "buf_content b' = rest"
proof -
  obtain b1 where b1: "buf_read_u16 b = Some (int 0, b1)" "buf_live b1" "buf_content b1 = rest"
    by (rule read_length [of b 0 rest]) (use assms in simp_all)
  have "snd (buf_advance b1 0) = b1"
    using b1(2) by (auto simp: buf_advance_def elim!: buf_live_Some)
  with b1 that show thesis by (simp add: read_string_def)
qed

lemma read_string_alloc_opt:
  assumes b: "buf_live b" "buf_content b = wire_string_opt info @ rest" and s: "\<And>s. info = Some s \<Longrightarrow> 0 \<notin> set s \<and> length s < 65535"
  obtains b' where "read_string_alloc b = Some (info, b')" "buf_live b'" "buf_content b' = rest"
proof (cases info)
  case None
  obtain b1 where "buf_read_u16 b = Some (int 0, b1)" "buf_live b1" "buf_content b1 = rest"
    by (rule read_length [of b 0 rest]) (use b None in \<open>simp_all add: wire_string_opt_def\<close>)
  with None that show thesis by (simp add: read_string_alloc_def)
next
  case (Some s)
  with b(2) have "buf_content b = be16 (of_nat (length s + 1)) @ (s @ [0]) @ rest" by (simp add: wire_string_def wire_string_opt_def)
  moreover have "length s + 1 < 65536" using assms(3) Some by auto
  ultimately obtain b1 where b1: "buf_read_u16 b = Some (int (length s + 1), b1)" "buf_live b1" "buf_content b1 = (s @ [0]) @ rest"
    by (rule read_length [OF b(1)])
  have "int (length s + 1) = int (length (s @ [0]))" by simp
  then obtain b2 where "buf_read b1 (int (length s + 1)) = Some (Some (s @ [0]), b2)" "buf_live b2" "buf_content b2 = rest"
    by (rule get_step [OF b1(2,3)])
  with b1(1) Some assms(3) that show thesis by (simp add: read_string_alloc_def add.commute)
qed

text \<open>The source material of one end, and the bytes of its message.\<close>

definition fresh_source :: "(nat \<Rightarrow> u8) \<Rightarrow> bool \<Rightarrow> key_source" where
  "fresh_source rnd server = \<lparr>src_pre_master = (if server then replicate 48 0 else map rnd [0..<48]),
     src_random1 = map rnd [48..<80], src_random2 = map rnd [80..<112]\<rparr>"

definition source_bytes :: "bool \<Rightarrow> key_source \<Rightarrow> bytes" where
  "source_bytes server k = (if server then [] else src_pre_master k) @ src_random1 k @ src_random2 k"

definition user_pass_bytes :: "(bytes \<times> bytes) option \<Rightarrow> bytes" where
  "user_pass_bytes up = (case up of None \<Rightarrow> be16 0 @ be16 0 | Some (u, p) \<Rightarrow> wire_string u @ wire_string p)"

definition km2_bytes :: "km2_fields \<Rightarrow> bool \<Rightarrow> key_source \<Rightarrow> bytes" where
  "km2_bytes f server k = be32 0 @ [KEY_METHOD_2] @ source_bytes server k @ wire_string (kw_options f)
     @ user_pass_bytes (kw_user_pass f) @ wire_string_opt (kw_peer_info f)"

definition c_str :: "bytes \<Rightarrow> nat \<Rightarrow> bool" where
  "c_str s n \<longleftrightarrow> 0 \<notin> set s \<and> length s < n"

definition fields_ok :: "km2_fields \<Rightarrow> bool" where
  "fields_ok f \<longleftrightarrow> c_str (kw_options f) 512
     \<and> (case kw_user_pass f of None \<Rightarrow> True | Some (u, p) \<Rightarrow> c_str u 128 \<and> c_str p 128)
     \<and> (case kw_peer_info f of None \<Rightarrow> True | Some s \<Rightarrow> c_str s 65535)"

lemma randomize_write_ok:
  assumes b: "buf_live b" "length (source_bytes server (fresh_source rnd server)) \<le> buf_room b"
  obtains b' where "key_source2_randomize_write rnd k2 b server = Some (True, set_source server (fresh_source rnd server) k2, b')" "buf_live b'"
    "buf_content b' = buf_content b @ source_bytes server (fresh_source rnd server)"
    "buf_room b' = buf_room b - length (source_bytes server (fresh_source rnd server))"
proof -
  let ?pre = "if server then [] else map rnd [0..<48]"
  let ?n = "length (source_bytes server (fresh_source rnd server))"
  have n: "?n = length ?pre + 64" by (simp add: source_bytes_def fresh_source_def)
  obtain b1 where b1: "(if server then Some (True, b) else buf_write b (map rnd [0..<48])) = Some (True, b1)" "buf_live b1"
    "buf_content b1 = buf_content b @ ?pre" "buf_room b1 = buf_room b - length ?pre"
  proof (cases server)
    case True
    with b(1) that show thesis by simp
  next
    case False
    with put_step [OF b(1), of "map rnd [0..<48]"] b(2) n that show thesis by auto
  qed
  obtain b2 where b2: "buf_write b1 (map rnd [48..<80]) = Some (True, b2)" "buf_live b2" "buf_content b2 = buf_content b1 @ map rnd [48..<80]"
    "buf_room b2 = buf_room b1 - 32"
    by (rule put_step [OF b1(2), of "map rnd [48..<80]"]) (use b(2) b1(4) n in auto)
  obtain b3 where b3: "buf_write b2 (map rnd [80..<112]) = Some (True, b3)" "buf_live b3" "buf_content b3 = buf_content b2 @ map rnd [80..<112]"
    "buf_room b3 = buf_room b2 - 32"
    by (rule put_step [OF b2(2), of "map rnd [80..<112]"]) (use b(2) b1(4) b2(4) n in auto)
  show thesis
  proof (rule that [OF _ b3(2)])
    show "key_source2_randomize_write rnd k2 b server = Some (True, set_source server (fresh_source rnd server) k2, b3)"
      using b1(1) b2(1) b3(1) by (cases server) (simp_all add: key_source2_randomize_write_def fresh_source_def key_source_zero_def)
    show "buf_content b3 = buf_content b @ source_bytes server (fresh_source rnd server)"
      using b1(3) b2(3) b3(3) by (simp add: source_bytes_def fresh_source_def)
    show "buf_room b3 = buf_room b - ?n" using b1(4) b2(4) b3(4) n by simp
  qed
qed

lemma source_read_ok:
  assumes b: "buf_live b" "buf_content b = source_bytes (\<not> server) k @ rest"
    and k: "length (src_random1 k) = 32" "length (src_random2 k) = 32" "length (src_pre_master k) = 48" "\<not> server \<Longrightarrow> src_pre_master k = replicate 48 0"
  obtains b' where "key_source2_read k2 b server = Some (True, set_source (\<not> server) k k2, b')" "buf_live b'" "buf_content b' = rest"
proof -
  obtain b1 where b1: "(if server then buf_read b 48 else Some (Some (replicate 48 0), b)) = Some (Some (src_pre_master k), b1)" "buf_live b1"
    "buf_content b1 = src_random1 k @ src_random2 k @ rest"
  proof (cases server)
    case True
    with b k(3) get_step [OF b(1), of "src_pre_master k" "src_random1 k @ src_random2 k @ rest" 48] that show thesis
      by (auto simp: source_bytes_def)
  next
    case False
    with b k(4) that show thesis by (auto simp: source_bytes_def)
  qed
  obtain b2 where b2: "buf_read b1 32 = Some (Some (src_random1 k), b2)" "buf_live b2" "buf_content b2 = src_random2 k @ rest"
    by (rule get_step [OF b1(2,3)]) (use k in auto)
  obtain b3 where b3: "buf_read b2 32 = Some (Some (src_random2 k), b3)" "buf_live b3" "buf_content b3 = rest"
    by (rule get_step [OF b2(2,3)]) (use k in auto)
  show thesis
    by (rule that [OF _ b3(2,3)])
       (use b1(1) b2(1) b3(1) in \<open>cases k; cases server; simp add: key_source2_read_def key_source_zero_def\<close>)
qed

lemma write_user_pass_ok:
  assumes b: "buf_live b" "length (user_pass_bytes up) \<le> buf_room b"
    and s: "case up of None \<Rightarrow> True | Some (u, p) \<Rightarrow> c_str u 128 \<and> c_str p 128"
  obtains b' where "write_user_pass b up = Some (True, b')" "buf_live b'" "buf_content b' = buf_content b @ user_pass_bytes up"
    "buf_room b' = buf_room b - length (user_pass_bytes up)"
proof (cases up)
  case None
  obtain b1 where b1: "buf_write b (be16 0) = Some (True, b1)" "buf_live b1" "buf_content b1 = buf_content b @ be16 0" "buf_room b1 = buf_room b - 2"
    by (rule put_step [OF b(1), of "be16 0"]) (use b(2) None in \<open>auto simp: user_pass_bytes_def\<close>)
  obtain b2 where b2: "buf_write b1 (be16 0) = Some (True, b2)" "buf_live b2" "buf_content b2 = buf_content b1 @ be16 0" "buf_room b2 = buf_room b1 - 2"
    by (rule put_step [OF b1(2), of "be16 0"]) (use b(2) b1(4) None in \<open>auto simp: user_pass_bytes_def\<close>)
  from None b1 b2 that show thesis by (simp add: write_user_pass_def write_empty_string_def buf_write_u16_def user_pass_bytes_def)
next
  case (Some up')
  then obtain u p where up: "up = Some (u, p)" by (cases up') auto
  with s have l: "length u < 128" "length p < 128" by (simp_all add: c_str_def)
  obtain b1 where b1: "write_string b u (- 1) = Some (True, b1)" "buf_live b1" "buf_content b1 = buf_content b @ wire_string u"
    "buf_room b1 = buf_room b - (length u + 3)"
    by (rule write_string_ok [OF b(1), of u "- 1"]) (use b(2) up l in \<open>auto simp: user_pass_bytes_def\<close>)
  obtain b2 where b2: "write_string b1 p (- 1) = Some (True, b2)" "buf_live b2" "buf_content b2 = buf_content b1 @ wire_string p"
    "buf_room b2 = buf_room b1 - (length p + 3)"
    by (rule write_string_ok [OF b1(2), of p "- 1"]) (use b(2) b1(4) up l in \<open>auto simp: user_pass_bytes_def\<close>)
  from up b1 b2 that show thesis by (simp add: write_user_pass_def user_pass_bytes_def)
qed

lemma push_peer_info_ok:
  assumes b: "buf_live b" "length (wire_string_opt info) \<le> buf_room b" and s: "case info of None \<Rightarrow> True | Some s \<Rightarrow> c_str s 65535"
  obtains b' where "push_peer_info b info = Some (True, b')" "buf_live b'" "buf_content b' = buf_content b @ wire_string_opt info"
proof (cases info)
  case None
  with put_step [OF b(1), of "be16 0"] b(2) that show thesis
    by (auto simp: push_peer_info_def write_empty_string_def buf_write_u16_def wire_string_opt_def)
next
  case (Some s)
  with write_string_ok [OF b(1), of s "- 1"] b(2) assms(3) that show thesis
    by (auto simp: push_peer_info_def wire_string_opt_def c_str_def)
qed

lemma key_method_2_write_ok:
  assumes b: "buf_live buf" "int (length (km2_bytes f server (fresh_source rnd server))) \<le> capacity buf" and f: "fields_ok f"
  obtains b' where "key_method_2_write rnd f server k2 buf = Some (True, set_source server (fresh_source rnd server) k2, b')" "buf_live b'"
    "buf_content b' = km2_bytes f server (fresh_source rnd server)"
proof -
  let ?k = "fresh_source rnd server"
  let ?S = "source_bytes server ?k" and ?O = "wire_string (kw_options f)" and ?U = "user_pass_bytes (kw_user_pass f)"
    and ?I = "wire_string_opt (kw_peer_info f)"
  from f have o: "length (kw_options f) < 512" and u: "case kw_user_pass f of None \<Rightarrow> True | Some (u, p) \<Rightarrow> c_str u 128 \<and> c_str p 128"
    and i: "case kw_peer_info f of None \<Rightarrow> True | Some s \<Rightarrow> c_str s 65535" by (simp_all add: fields_ok_def c_str_def)
  from buf_init_spec [of buf 0] b(1) obtain b0 where
    b0: "buf_init_dowork buf 0 = (True, b0)" "buf_live b0" "buf_content b0 = []" "offset b0 = 0" "capacity b0 = capacity buf"
    by (auto simp: buf_live_def buf_wf_def)
  have r0: "5 + length ?S + length ?O + length ?U + length ?I \<le> buf_room b0"
    using b(2) b0(3-5) buf_extent [OF b0(2)] by (simp add: km2_bytes_def)
  obtain b1 where b1: "buf_write b0 (be32 0) = Some (True, b1)" "buf_live b1" "buf_content b1 = buf_content b0 @ be32 0"
    "buf_room b1 = buf_room b0 - length (be32 0)" by (rule put_step [OF b0(2), of "be32 0"]) (use r0 in auto)
  obtain b2 where b2: "buf_write b1 [KEY_METHOD_2] = Some (True, b2)" "buf_live b2" "buf_content b2 = buf_content b1 @ [KEY_METHOD_2]"
    "buf_room b2 = buf_room b1 - length [KEY_METHOD_2]" by (rule put_step [OF b1(2), of "[KEY_METHOD_2]"]) (use r0 b1(4) in auto)
  obtain b3 where b3: "key_source2_randomize_write rnd k2 b2 server = Some (True, set_source server ?k k2, b3)" "buf_live b3"
    "buf_content b3 = buf_content b2 @ ?S" "buf_room b3 = buf_room b2 - length ?S"
    by (rule randomize_write_ok [OF b2(2), of server rnd k2]) (use r0 b1(4) b2(4) in auto)
  obtain b4 where b4: "write_string b3 (kw_options f) TLS_OPTIONS_LEN = Some (True, b4)" "buf_live b4" "buf_content b4 = buf_content b3 @ ?O"
    "buf_room b4 = buf_room b3 - (length (kw_options f) + 3)"
    by (rule write_string_ok [OF b3(2), of "kw_options f" TLS_OPTIONS_LEN])
       (use r0 b1(4) b2(4) b3(4) o in \<open>auto simp: TLS_OPTIONS_LEN_def\<close>)
  obtain b5 where b5: "write_user_pass b4 (kw_user_pass f) = Some (True, b5)" "buf_live b5" "buf_content b5 = buf_content b4 @ ?U"
    "buf_room b5 = buf_room b4 - length ?U"
    by (rule write_user_pass_ok [OF b4(2) _ u]) (use r0 b1(4) b2(4) b3(4) b4(4) in auto)
  obtain b6 where b6: "push_peer_info b5 (kw_peer_info f) = Some (True, b6)" "buf_live b6" "buf_content b6 = buf_content b5 @ ?I"
    by (rule push_peer_info_ok [OF b5(2) _ i]) (use r0 b1(4) b2(4) b3(4) b4(4) b5(4) in auto)
  show thesis
  proof (rule that [OF _ b6(2)])
    show "key_method_2_write rnd f server k2 buf = Some (True, set_source server ?k k2, b6)"
      using b0(1) b1(1) b2(1) b3(1) b4(1) b5(1) b6(1) by (simp add: key_method_2_write_def buf_write_u32_def buf_write_u8_def)
    show "buf_content b6 = km2_bytes f server ?k" using b0(3) b1(3) b2(3) b3(3) b4(3) b5(3) b6(3) by (simp add: km2_bytes_def)
  qed
qed

text \<open>The lengths and strings the reader finds for the credentials.\<close>

definition user_pass_read :: "(bytes \<times> bytes) option \<Rightarrow> (int \<times> bytes) \<times> (int \<times> bytes)" where
  "user_pass_read up = (case up of None \<Rightarrow> ((0, []), (0, [])) | Some (u, p) \<Rightarrow> ((int (length u) + 1, u), (int (length p) + 1, p)))"

lemma user_pass_read_ok:
  assumes b: "buf_live b" "buf_content b = user_pass_bytes up @ rest"
    and s: "case up of None \<Rightarrow> True | Some (u, p) \<Rightarrow> c_str u 128 \<and> c_str p 128" and r: "user_pass_read up = ((ul, u), (pl, p))"
  obtains b1 b2 where "read_string b USER_PASS_LEN = Some (ul, u, b1)" "read_string b1 USER_PASS_LEN = Some (pl, p, b2)" "buf_live b2"
    "buf_content b2 = rest"
proof (cases up)
  case None
  obtain b1 where b1: "read_string b USER_PASS_LEN = Some (0, [], b1)" "buf_live b1" "buf_content b1 = be16 0 @ rest"
    by (rule read_string_empty [OF b(1)]) (use b(2) None in \<open>auto simp: user_pass_bytes_def\<close>)
  obtain b2 where b2: "read_string b1 USER_PASS_LEN = Some (0, [], b2)" "buf_live b2" "buf_content b2 = rest"
    by (rule read_string_empty [OF b1(2,3)])
  from None r b1 b2 that show thesis by (simp add: user_pass_read_def)
next
  case (Some up')
  then obtain x y where up: "up = Some (x, y)" by (cases up') auto
  with s have l: "0 \<notin> set x" "0 \<notin> set y" "int (length x) < USER_PASS_LEN" "int (length y) < USER_PASS_LEN" "USER_PASS_LEN < 65536"
    by (simp_all add: c_str_def USER_PASS_LEN_def)
  have "buf_content b = wire_string x @ wire_string y @ rest" using b(2) up by (simp add: user_pass_bytes_def)
  then obtain b1 where b1: "read_string b USER_PASS_LEN = Some (int (length x) + 1, x, b1)" "buf_live b1" "buf_content b1 = wire_string y @ rest"
    by (rule read_string_ok [OF b(1) _ l(1,3,5)])
  obtain b2 where b2: "read_string b1 USER_PASS_LEN = Some (int (length y) + 1, y, b2)" "buf_live b2" "buf_content b2 = rest"
    by (rule read_string_ok [OF b1(2,3) l(2,4,5)])
  from up r b1 b2 that show thesis by (auto simp: user_pass_read_def)
qed

lemma buf_read_u8_live:
  assumes "buf_live b" "buf_content b = x # ys"
  obtains b' where "buf_read_u8 b = Some (uint x, b')" "buf_live b'" "buf_content b' = ys"
proof -
  from assms(1) obtain m where m: "data b = Some m" "0 \<le> offset b" "offset b + len b \<le> int (length m)" by (rule buf_live_Some)
  have l: "len b = int (length (x # ys))" using len_buf_content [OF assms(1)] assms(2) by simp
  have "take (nat (len b)) (drop (nat (offset b)) m) = x # ys" using assms(2) m(1) by (simp add: buf_content_def slice_def)
  then have "drop (nat (offset b)) m ! 0 = x" using l nth_take [of 0 "nat (len b)" "drop (nat (offset b)) m"] by simp
  then have "mem_get m (offset b) = Some x" using m l by (simp add: mem_get_def)
  then have p: "buf_peek_u8 b = Some (uint x)"
    using m(1) l buf_bptr_live [OF assms(1)] buf_len_live [OF assms(1)] assms(2) by (simp add: buf_peek_u8_def)
  have "buf_content b = [x] @ ys" using assms(2) by simp
  with buf_advance_live [OF assms(1) this, of 1] p that show thesis by (auto simp: buf_read_u8_def)
qed

lemma buf_clear_live: "buf_live b \<Longrightarrow> \<exists>b'. buf_clear b = Some b'"
  by (auto simp: buf_clear_def elim!: buf_live_Some)

lemma key_method_2_read_ok:
  assumes b: "buf_live buf" "buf_content buf = km2_bytes f (\<not> server) k" and f: "fields_ok f"
    and k: "length (src_random1 k) = 32" "length (src_random2 k) = 32" "length (src_pre_master k) = 48" "\<not> server \<Longrightarrow> src_pre_master k = replicate 48 0"
    and up: "user_pass_read (kw_user_pass f) = ((ul, u), (pl, p))" and auth: "km2_authenticate au ul pl u p = Some verdict"
  obtains r where "key_method_2_read au server k2 old buf = Some (True, r)" "km_key_src r = set_source (\<not> server) k k2"
    "km_options r = kw_options f" "km_user r = u" "km_pass r = p" "km_peer_info r = kw_peer_info f"
    "km_auth r = (if verdict \<noteq> KS_AUTH_FALSE \<and> (au_deauthenticate au \<or> au_tls_final au = Some False) then KS_AUTH_FALSE else verdict)"
proof -
  from f have o: "0 \<notin> set (kw_options f)" "int (length (kw_options f)) < TLS_OPTIONS_LEN"
    and us: "case kw_user_pass f of None \<Rightarrow> True | Some (u, p) \<Rightarrow> c_str u 128 \<and> c_str p 128"
    and i: "\<And>s. kw_peer_info f = Some s \<Longrightarrow> 0 \<notin> set s \<and> length s < 65535"
    by (auto simp: fields_ok_def c_str_def TLS_OPTIONS_LEN_def)
  have c: "buf_content buf = be32 0 @ KEY_METHOD_2 # source_bytes (\<not> server) k @ wire_string (kw_options f)
      @ user_pass_bytes (kw_user_pass f) @ wire_string_opt (kw_peer_info f) @ []" using b(2) by (simp add: km2_bytes_def)
  from buf_advance_live [OF b(1) c, of 4] obtain b1 where
    b1: "buf_advance buf 4 = (True, b1)" "buf_live b1" "buf_content b1 = KEY_METHOD_2 # source_bytes (\<not> server) k
      @ wire_string (kw_options f) @ user_pass_bytes (kw_user_pass f) @ wire_string_opt (kw_peer_info f) @ []" by auto
  obtain b2 where b2: "buf_read_u8 b1 = Some (uint KEY_METHOD_2, b2)" "buf_live b2" "buf_content b2 = source_bytes (\<not> server) k
      @ wire_string (kw_options f) @ user_pass_bytes (kw_user_pass f) @ wire_string_opt (kw_peer_info f) @ []"
    by (rule buf_read_u8_live [OF b1(2,3)])
  obtain b3 where b3: "key_source2_read k2 b2 server = Some (True, set_source (\<not> server) k k2, b3)" "buf_live b3"
    "buf_content b3 = wire_string (kw_options f) @ user_pass_bytes (kw_user_pass f) @ wire_string_opt (kw_peer_info f) @ []"
    by (rule source_read_ok [OF b2(2,3) k])
  obtain b4 where b4: "read_string b3 TLS_OPTIONS_LEN = Some (int (length (kw_options f)) + 1, kw_options f, b4)" "buf_live b4"
    "buf_content b4 = user_pass_bytes (kw_user_pass f) @ wire_string_opt (kw_peer_info f) @ []"
    by (rule read_string_ok [OF b3(2,3) o]) (simp add: TLS_OPTIONS_LEN_def)
  obtain b5 b6 where b6: "read_string b4 USER_PASS_LEN = Some (ul, u, b5)" "read_string b5 USER_PASS_LEN = Some (pl, p, b6)" "buf_live b6"
    "buf_content b6 = wire_string_opt (kw_peer_info f) @ []" by (rule user_pass_read_ok [OF b4(2,3) us up])
  obtain b7 where b7: "read_string_alloc b6 = Some (kw_peer_info f, b7)" "buf_live b7" by (rule read_string_alloc_opt [OF b6(3,4) i])
  obtain b8 where b8: "buf_clear b7 = Some b8" using buf_clear_live [OF b7(2)] by blast
  have "uint KEY_METHOD_2 AND KEY_METHOD_MASK = 2" by (simp add: KEY_METHOD_2_def KEY_METHOD_MASK_def)
  with b1(1) b2(1) b3(1) b4(1) b6(1,2) b7(1) b8 auth that show thesis by (simp add: key_method_2_read_def Let_def)
qed

section \<open>Both ends derive the same keys\<close>

lemma openvpn_PRF_total:
  assumes "length label + length cs + length ss < 900000" "\<forall>sid \<in> set_option client_sid \<union> set_option server_sid. length sid = SID_SIZE"
  shows "openvpn_PRF tls_prf secret label cs ss client_sid server_sid n
     = Some (tls_prf (label @ cs @ ss @ concat (map (case_option [] id) [client_sid, server_sid])) secret n)"
proof -
  let ?n = "length label + length cs + length ss + SID_SIZE * 2"
  define b where "b = \<lparr>capacity = int ?n, offset = 0, len = 0, data = Some (replicate ?n 0)\<rparr>"
  have b: "alloc_buf ?n = Some b" "buf_live b" "buf_content b = []" "buf_room b = ?n"
    using assms(1) by (simp_all add: b_def alloc_buf_def buf_size_valid_def BUF_SIZE_MAX_def SID_SIZE_def buf_live_def buf_wf_def buf_content_def buf_room_def)
  obtain b1 where b1: "buf_write b label = Some (True, b1)" "buf_live b1" "buf_content b1 = buf_content b @ label" "buf_room b1 = buf_room b - length label"
    by (rule put_step [OF b(2), of label]) (use b(4) in auto)
  obtain b2 where b2: "buf_write b1 cs = Some (True, b2)" "buf_live b2" "buf_content b2 = buf_content b1 @ cs" "buf_room b2 = buf_room b1 - length cs"
    by (rule put_step [OF b1(2), of cs]) (use b(4) b1(4) in auto)
  obtain b3 where b3: "buf_write b2 ss = Some (True, b3)" "buf_live b3" "buf_content b3 = buf_content b2 @ ss" "buf_room b3 = buf_room b2 - length ss"
    by (rule put_step [OF b2(2), of ss]) (use b(4) b1(4) b2(4) in auto)
  have r3: "buf_room b3 = 2 * SID_SIZE" using b(4) b1(4) b2(4) b3(4) by simp
  have sid: "\<exists>c'. (case sid of None \<Rightarrow> Some c | Some sid \<Rightarrow> do { (ok, seed) \<leftarrow> buf_write c sid; c_assert ok; Some seed }) = Some c'
      \<and> buf_live c' \<and> buf_content c' = buf_content c @ case_option [] id sid \<and> buf_room c' \<ge> buf_room c - SID_SIZE"
    if "buf_live c" "SID_SIZE \<le> buf_room c" "\<forall>s \<in> set_option sid. length s = SID_SIZE" for c and sid :: "bytes option"
    using that wire.put_ok [of c "the sid"] by (cases sid) auto
  from sid [OF b3(2), of client_sid] r3 assms(2) obtain b4 where
    b4: "(case client_sid of None \<Rightarrow> Some b3 | Some sid \<Rightarrow> do { (ok, seed) \<leftarrow> buf_write b3 sid; c_assert ok; Some seed }) = Some b4"
      "buf_live b4" "buf_content b4 = buf_content b3 @ case_option [] id client_sid" "buf_room b4 \<ge> SID_SIZE" by auto
  from sid [OF b4(2,4), of server_sid] assms(2) obtain b5 where
    b5: "(case server_sid of None \<Rightarrow> Some b4 | Some sid \<Rightarrow> do { (ok, seed) \<leftarrow> buf_write b4 sid; c_assert ok; Some seed }) = Some b5"
      "buf_live b5" "buf_content b5 = buf_content b4 @ case_option [] id server_sid" by auto
  have "openvpn_PRF tls_prf secret label cs ss client_sid server_sid n = Some (tls_prf (buf_content b5) secret n)"
    using b(1) b1(1) b2(1) b3(1) b4(1) b5(1) buf_bytes_live [OF b5(2)] by (simp add: openvpn_PRF_def)
  with b(3) b1(3) b2(3) b3(3) b4(3) b5(3) show ?thesis by simp
qed

definition source_wf :: "key_source2 \<Rightarrow> bool" where
  "source_wf k2 \<longleftrightarrow> (\<forall>k \<in> {ks2_client k2, ks2_server k2}. length (src_random1 k) = 32 \<and> length (src_random2 k) = 32)"

lemma prf_expansion_total:
  assumes "source_wf k2" "length own = SID_SIZE" "length remote = SID_SIZE"
  shows "\<exists>r. generate_key_expansion_openvpn_prf tls_prf server own remote k2 = Some r"
  using assms
  by (auto simp: generate_key_expansion_openvpn_prf_def openvpn_PRF_total source_wf_def label_master_secret_def label_key_expansion_def
      split: option.splits)

text \<open>The expansion is symmetric in the roles.\<close>

lemma prf_expansion_symmetric:
  "generate_key_expansion_openvpn_prf tls_prf True ssid csid k2 = generate_key_expansion_openvpn_prf tls_prf False csid ssid k2"
  by (simp add: generate_key_expansion_openvpn_prf_def)

definition keys_match :: "key_ctx \<Rightarrow> key_ctx \<Rightarrow> bool" where
  "keys_match a b \<longleftrightarrow> kc_cipher a = kc_cipher b \<and> kc_hmac a = kc_hmac b \<and> kc_implicit_iv a = kc_implicit_iv b \<and> kc_epoch a = kc_epoch b"

definition kt_static_ok :: "key_type \<Rightarrow> bool" where
  "kt_static_ok kt \<longleftrightarrow> (kt_cipher kt \<longrightarrow> kt_key_size kt \<le> 64) \<and> (\<forall>n. kt_digest kt = Some n \<longrightarrow> n \<le> 64)
     \<and> (kt_aead kt \<longrightarrow> 12 \<le> kt_iv_size kt \<and> kt_iv_size kt \<le> 16)"

lemma send_recv_ctx:
  "init_key_bi_ctx_send kp kt = init_key_bi_ctx_recv kp kt"
  by (simp add: init_key_bi_ctx_send_def init_key_bi_ctx_recv_def)

lemma static_ctx_total:
  assumes "kt_static_ok kt" "length (k_hmac k) = 64"
  shows "\<exists>c. init_key_bi_ctx_send (key_parameters_from_key k) kt = Some c"
  using assms
  by (auto simp: init_key_bi_ctx_send_def init_key_ctx_def key_ctx_update_implicit_iv_def key_parameters_from_key_def kt_static_ok_def
      MAX_CIPHER_KEY_LENGTH_def MAX_HMAC_KEY_LENGTH_def OPENVPN_AEAD_MIN_IV_LEN_def OPENVPN_MAX_IV_LENGTH_def split: option.splits)

text \<open>
  What the two ends have once keys are expanded: matching contexts in both directions and, in the
  epoch format, the key window of \<^verbatim>\<open>crypto_epoch.c\<close> over each other's chains.
\<close>

definition ends_match :: "hmac_fun \<Rightarrow> bool \<Rightarrow> crypto_options \<Rightarrow> crypto_options \<Rightarrow> bool" where
  "ends_match hmac epoch c s \<longleftrightarrow> co_initialized c \<and> co_initialized s
     \<and> keys_match (co_encrypt c) (co_decrypt s) \<and> keys_match (co_encrypt s) (co_decrypt c)
     \<and> (epoch \<longrightarrow> (\<exists>ec es. epoch_env hmac ec es \<and> epoch_inv hmac ec es c \<and> epoch_inv hmac es ec s))"

text \<open>A fresh end of a data channel, as \<^verbatim>\<open>key_state_init\<close> leaves it.\<close>

definition co_fresh :: "crypto_options \<Rightarrow> bool" where
  "co_fresh co \<longleftrightarrow> \<not> co_initialized co \<and> kc_epoch (co_encrypt co) = 0 \<and> kc_epoch (co_retiring_key co) = 0
     \<and> pid_epoch_wf (pid_rec (co_packet_id co))"

definition kt_usable :: "hmac_fun \<Rightarrow> bool \<Rightarrow> key_type \<Rightarrow> bool" where
  "kt_usable hmac epoch kt \<longleftrightarrow> (if epoch then kt_ok kt \<and> hmac_ok hmac else kt_static_ok kt)"

lemma init_key_contexts_match:
  assumes kt: "kt_usable hmac epoch kt" and k: "length bs = 256" and co: "co_fresh cc" "co_fresh cs"
  shows "\<exists>c s. init_key_contexts junk hmac cc epoch kt False (key2_of_bytes bs) = Some c
     \<and> init_key_contexts junk' hmac cs epoch kt True (key2_of_bytes bs) = Some s \<and> ends_match hmac epoch c s"
proof (cases epoch)
  case True
  with kt have e: "kt_ok kt" "hmac_ok hmac" "kt_aead kt" by (simp_all add: kt_usable_def kt_ok_def)
  let ?ec = "\<lparr>ek_key = take 32 (take 64 bs), ek_epoch = 1\<rparr>" and ?es = "\<lparr>ek_key = take 32 (take 64 (drop 128 bs)), ek_epoch = 1\<rparr>"
  have env: "epoch_env hmac ?ec ?es" "epoch_env hmac ?es ?ec" using e k by (simp_all add: epoch_env_def ek_ok_def)
  have n: "0 < unat (16 :: u16)" "unat (16 :: u16) < 65535" by simp_all
  from epoch_init_total [OF env(1) e(1) n] co(1) obtain c where c: "epoch_init_key_ctx junk hmac cc kt ?ec ?es 16 = Some c" "epoch_inv hmac ?ec ?es c"
    "co_encrypt c = data_ctx hmac kt ?ec" "co_decrypt c = data_ctx hmac kt ?es" unfolding co_fresh_def by blast
  from epoch_init_total [OF env(2) e(1) n] co(2) obtain s where s: "epoch_init_key_ctx junk' hmac cs kt ?es ?ec 16 = Some s" "epoch_inv hmac ?es ?ec s"
    "co_encrypt s = data_ctx hmac kt ?es" "co_decrypt s = data_ctx hmac kt ?ec" unfolding co_fresh_def by blast
  have "ends_match hmac epoch c s"
    unfolding ends_match_def using c s env(1) by (auto simp: keys_match_def epoch_inv_def Let_def)
  with c(1) s(1) True e(3) show ?thesis
    by (simp add: init_key_contexts_def init_epoch_keys_def key2_of_bytes_def key_of_bytes_def)
next
  case False
  let ?p = "key_parameters_from_key (key_of_bytes bs)" and ?q = "key_parameters_from_key (key_of_bytes (drop 128 bs))"
  have st: "kt_static_ok kt" using False kt by (simp add: kt_usable_def)
  obtain a b where a: "init_key_bi_ctx_send ?p kt = Some a" "init_key_bi_ctx_recv ?p kt = Some a"
    and b: "init_key_bi_ctx_send ?q kt = Some b" "init_key_bi_ctx_recv ?q kt = Some b"
    using static_ctx_total [OF st, of "key_of_bytes bs"] static_ctx_total [OF st, of "key_of_bytes (drop 128 bs)"] k
    by (auto simp: key_of_bytes_def send_recv_ctx)
  from a b False show ?thesis
    by (simp add: init_key_contexts_def init_key_ctx_bi_def key2_of_bytes_def ends_match_def keys_match_def)
qed

lemma prf_expansion_bytes:
  assumes "generate_key_expansion_openvpn_prf tls_prf server own remote k2 = Some (Some key2)"
    and "source_wf k2" "length own = SID_SIZE" "length remote = SID_SIZE" "\<And>x y r. tls_prf x y 256 = Some r \<Longrightarrow> length r = 256"
  shows "\<exists>bs. key2 = key2_of_bytes bs \<and> length bs = 256"
  using assms
  by (auto simp: generate_key_expansion_openvpn_prf_def openvpn_PRF_total source_wf_def label_master_secret_def label_key_expansion_def
      split: option.splits)

lemma expansion_agreement:
  assumes k2: "source_wf k2" and sid: "length csid = SID_SIZE" "length ssid = SID_SIZE"
    and out: "\<And>x y r. tls_prf x y 256 = Some r \<Longrightarrow> length r = 256" and exported: "\<And>r. exported = Some r \<Longrightarrow> length r = 256"
    and kt: "kt_usable hmac epoch kt" and co: "co_fresh cc" "co_fresh cs"
  shows "\<exists>ok c s. generate_key_expansion junk hmac tls_prf exported use_export epoch kt False csid ssid k2 cc = Some (ok, c)
     \<and> generate_key_expansion junk' hmac tls_prf exported use_export epoch kt True ssid csid k2 cs = Some (ok, s)
     \<and> (ok \<longrightarrow> ends_match hmac epoch c s) \<and> (\<not> ok \<longrightarrow> c = cc \<and> s = cs)"
proof -
  obtain r where r: "generate_key_expansion_openvpn_prf tls_prf False csid ssid k2 = Some r"
    "generate_key_expansion_openvpn_prf tls_prf True ssid csid k2 = Some r"
    using prf_expansion_total [OF k2 sid] prf_expansion_symmetric [of tls_prf ssid csid k2] by auto
  let ?key2 = "if use_export then generate_key_expansion_tls_export exported else r"
  have init: "\<not> co_initialized cc" "\<not> co_initialized cs" using co by (simp_all add: co_fresh_def)
  have gen: "(if use_export then Some (generate_key_expansion_tls_export exported) else generate_key_expansion_openvpn_prf tls_prf False csid ssid k2)
      = Some ?key2"
    "(if use_export then Some (generate_key_expansion_tls_export exported) else generate_key_expansion_openvpn_prf tls_prf True ssid csid k2) = Some ?key2"
    using r by simp_all
  show ?thesis
  proof (cases ?key2)
    case None
    then show ?thesis using gen init by (auto simp: generate_key_expansion_def)
  next
    case (Some key2)
    then obtain bs where "key2 = key2_of_bytes bs" "length bs = 256"
      using prf_expansion_bytes [OF _ k2 sid, of tls_prf False key2] out r(1) exported
      by (auto simp: generate_key_expansion_tls_export_def split: if_splits)
    with init_key_contexts_match [OF kt _ co, of bs junk junk'] gen init Some show ?thesis
      by (auto simp: generate_key_expansion_def)
  qed
qed

text \<open>
  A whole exchange over a TLS channel that delivers each message unaltered: the client writes, the
  server reads and writes, the client reads.
\<close>

definition key_exchange ::
    "(nat \<Rightarrow> u8) \<Rightarrow> km2_fields \<Rightarrow> auth_env \<Rightarrow> buffer \<Rightarrow> (nat \<Rightarrow> u8) \<Rightarrow> km2_fields \<Rightarrow> auth_env \<Rightarrow> buffer
       \<Rightarrow> (km2_result \<times> km2_result \<times> key_source2) option" where
  "key_exchange rc fc auc cb rs fs aus sb = do {
     (ok, kc, out) \<leftarrow> key_method_2_write rc fc False key_source2_zero cb;
     c_assert ok;
     msg \<leftarrow> buf_bytes out;
     (ok, sres) \<leftarrow> key_method_2_read aus True key_source2_zero None (full_buf msg);
     c_assert ok;
     (ok, ks, out) \<leftarrow> key_method_2_write rs fs True (km_key_src sres) sb;
     c_assert ok;
     msg \<leftarrow> buf_bytes out;
     (ok, cres) \<leftarrow> key_method_2_read auc False kc None (full_buf msg);
     c_assert ok;
     Some (cres, sres, ks)
   }"

definition accepts :: "auth_env \<Rightarrow> km2_fields \<Rightarrow> ks_auth_state \<Rightarrow> bool" where
  "accepts au f v \<longleftrightarrow> (case user_pass_read (kw_user_pass f) of ((ul, u), (pl, p)) \<Rightarrow> km2_authenticate au ul pl u p = Some v)"

lemma key_exchange_result:
  assumes f: "fields_ok fc" "fields_ok fs" and b: "buf_live cb" "buf_live sb"
    "int (length (km2_bytes fc False (fresh_source rc False))) \<le> capacity cb" "int (length (km2_bytes fs True (fresh_source rs True))) \<le> capacity sb"
    and au: "accepts aus fc vs" "accepts auc fs vc"
  shows "\<exists>cres sres k2. key_exchange rc fc auc cb rs fs aus sb = Some (cres, sres, k2) \<and> km_key_src cres = k2
     \<and> k2 = \<lparr>ks2_client = fresh_source rc False, ks2_server = fresh_source rs True\<rparr>
     \<and> km_options sres = kw_options fc \<and> km_options cres = kw_options fs
     \<and> km_peer_info sres = kw_peer_info fc \<and> km_peer_info cres = kw_peer_info fs
     \<and> (\<forall>u p. kw_user_pass fc = Some (u, p) \<longrightarrow> km_user sres = u \<and> km_pass sres = p)
     \<and> km_auth sres = (if vs \<noteq> KS_AUTH_FALSE \<and> (au_deauthenticate aus \<or> au_tls_final aus = Some False) then KS_AUTH_FALSE else vs)"
proof -
  let ?kc = "fresh_source rc False" and ?ks = "fresh_source rs True"
  obtain uls us pls ps where us: "user_pass_read (kw_user_pass fc) = ((uls, us), (pls, ps))" by (metis surj_pair)
  obtain ulc uc plc pc where uc: "user_pass_read (kw_user_pass fs) = ((ulc, uc), (plc, pc))" by (metis surj_pair)
  have au': "km2_authenticate aus uls pls us ps = Some vs" "km2_authenticate auc ulc plc uc pc = Some vc" using au us uc by (simp_all add: accepts_def)
  obtain bc where bc: "key_method_2_write rc fc False key_source2_zero cb = Some (True, set_source False ?kc key_source2_zero, bc)" "buf_live bc"
    "buf_content bc = km2_bytes fc False ?kc" by (rule key_method_2_write_ok [OF b(1,3) f(1)])
  have m: "buf_live (full_buf (buf_content bc))" "buf_content (full_buf (buf_content bc)) = km2_bytes fc (\<not> True) ?kc"
    using full_buf_live [of "buf_content bc"] bc(3) bc(2) buf_extent [OF bc(2)] by (auto simp: BUF_SIZE_MAX_def elim!: buf_live_Some)
  obtain sres where sres: "key_method_2_read aus True key_source2_zero None (full_buf (buf_content bc)) = Some (True, sres)"
    "km_key_src sres = set_source (\<not> True) ?kc key_source2_zero" "km_options sres = kw_options fc" "km_user sres = us" "km_pass sres = ps"
    "km_peer_info sres = kw_peer_info fc"
    "km_auth sres = (if vs \<noteq> KS_AUTH_FALSE \<and> (au_deauthenticate aus \<or> au_tls_final aus = Some False) then KS_AUTH_FALSE else vs)"
    by (rule key_method_2_read_ok [OF m f(1) _ _ _ _ us au'(1)]) (simp_all add: fresh_source_def)
  let ?K = "set_source True ?ks (set_source False ?kc key_source2_zero)"
  obtain bs where bs: "key_method_2_write rs fs True (km_key_src sres) sb = Some (True, ?K, bs)" "buf_live bs"
    "buf_content bs = km2_bytes fs True ?ks" using key_method_2_write_ok [OF b(2,4) f(2), of "km_key_src sres"] sres(2) by auto
  have n: "buf_live (full_buf (buf_content bs))" "buf_content (full_buf (buf_content bs)) = km2_bytes fs (\<not> False) ?ks"
    using full_buf_live [of "buf_content bs"] bs(3) bs(2) buf_extent [OF bs(2)] by (auto simp: BUF_SIZE_MAX_def elim!: buf_live_Some)
  obtain cres where cres: "key_method_2_read auc False (set_source False ?kc key_source2_zero) None (full_buf (buf_content bs)) = Some (True, cres)"
    "km_key_src cres = set_source (\<not> False) ?ks (set_source False ?kc key_source2_zero)" "km_options cres = kw_options fs"
    "km_peer_info cres = kw_peer_info fs"
    by (rule key_method_2_read_ok [OF n f(2) _ _ _ _ uc au'(2)]) (simp_all add: fresh_source_def)
  have "key_exchange rc fc auc cb rs fs aus sb = Some (cres, sres, ?K)"
    using bc(1) sres(1) bs(1) cres(1) buf_bytes_live [OF bc(2)] buf_bytes_live [OF bs(2)] by (simp add: key_exchange_def)
  moreover have "?K = \<lparr>ks2_client = ?kc, ks2_server = ?ks\<rparr>" by (simp add: set_source_def key_source2_zero_def)
  moreover have "\<forall>u p. kw_user_pass fc = Some (u, p) \<longrightarrow> us = u \<and> ps = p" using us by (auto simp: user_pass_read_def)
  ultimately show ?thesis using sres cres by simp
qed

text \<open>C14: a key exchange leaves both ends with the same keys. For any two well-formed sets of fields that
  the authentication of the other end does not reject outright, the exchange completes; each end has
  read the other's options, peer information and credentials, both hold the same source material, and
  the expansion either fails on both ends or gives them matching keys in both directions: with the
  TLS 1.0 PRF or the key exporter, in the static key format or the epoch format (there with the
  invariant of the epoch key window on both sides, over each other's chains).\<close>

theorem key_exchange_agreement:
  assumes f: "fields_ok fc" "fields_ok fs" and b: "buf_live cb" "buf_live sb"
    "int (length (km2_bytes fc False (fresh_source rc False))) \<le> capacity cb" "int (length (km2_bytes fs True (fresh_source rs True))) \<le> capacity sb"
    and au: "accepts aus fc vs" "accepts auc fs vc"
    and sid: "length csid = SID_SIZE" "length ssid = SID_SIZE"
    and out: "\<And>x y r. tls_prf x y 256 = Some r \<Longrightarrow> length r = 256" "\<And>r. exported = Some r \<Longrightarrow> length r = 256"
    and kt: "kt_usable hmac epoch kt" and co: "co_fresh cc" "co_fresh cs"
  shows "\<exists>cres sres k2. key_exchange rc fc auc cb rs fs aus sb = Some (cres, sres, k2) \<and> km_key_src cres = k2
     \<and> km_options sres = kw_options fc \<and> km_options cres = kw_options fs
     \<and> km_peer_info sres = kw_peer_info fc \<and> km_peer_info cres = kw_peer_info fs
     \<and> (\<forall>u p. kw_user_pass fc = Some (u, p) \<longrightarrow> km_user sres = u \<and> km_pass sres = p)
     \<and> (\<exists>ok c s. generate_key_expansion junk hmac tls_prf exported use_export epoch kt False csid ssid (km_key_src cres) cc = Some (ok, c)
          \<and> generate_key_expansion junk' hmac tls_prf exported use_export epoch kt True ssid csid k2 cs = Some (ok, s)
          \<and> (if ok then ends_match hmac epoch c s else c = cc \<and> s = cs))"
proof -
  from key_exchange_result [OF f b au] obtain cres sres k2 where r: "key_exchange rc fc auc cb rs fs aus sb = Some (cres, sres, k2)"
    "km_key_src cres = k2" "k2 = \<lparr>ks2_client = fresh_source rc False, ks2_server = fresh_source rs True\<rparr>"
    "km_options sres = kw_options fc" "km_options cres = kw_options fs" "km_peer_info sres = kw_peer_info fc" "km_peer_info cres = kw_peer_info fs"
    "\<forall>u p. kw_user_pass fc = Some (u, p) \<longrightarrow> km_user sres = u \<and> km_pass sres = p" by blast
  have "source_wf k2" using r(3) by (simp add: source_wf_def fresh_source_def)
  from expansion_agreement [OF this sid _ _ kt co, of tls_prf exported junk use_export junk'] out r show ?thesis by auto
qed

definition toy_fields :: km2_fields where
  "toy_fields = \<lparr>kw_options = [86, 52], kw_user_pass = Some ([117], [112]), kw_peer_info = None\<rparr>"

definition toy_auth :: auth_env where
  "toy_auth = \<lparr>au_user_pass_enabled = True, au_optional = False, au_verify_user_pass = (\<lambda>u p. if p = [112] then KS_AUTH_TRUE else KS_AUTH_FALSE),
     au_verified = True, au_deauthenticate = False, au_tls_final = None\<rparr>"

definition toy_prf :: prf_fun where
  "toy_prf seed secret n = Some (map (\<lambda>i. of_nat (length seed + i) + 1) [0..<n])"

theorem key_exchange_agreement_witness:
  "\<exists>cres sres k2. key_exchange (\<lambda>i. of_nat i) toy_fields toy_auth (fresh_buf 0 2048) (\<lambda>i. 3) toy_fields toy_auth (fresh_buf 0 2048)
       = Some (cres, sres, k2) \<and> km_key_src cres = k2
     \<and> km_options sres = kw_options toy_fields \<and> km_options cres = kw_options toy_fields
     \<and> km_peer_info sres = kw_peer_info toy_fields \<and> km_peer_info cres = kw_peer_info toy_fields
     \<and> (\<forall>u p. kw_user_pass toy_fields = Some (u, p) \<longrightarrow> km_user sres = u \<and> km_pass sres = p)
     \<and> (\<exists>ok c s. generate_key_expansion (\<lambda>_. 0) demo_hmac toy_prf None False True demo_kt False (replicate 8 1) (replicate 8 2) (km_key_src cres) demo_co
             = Some (ok, c)
          \<and> generate_key_expansion (\<lambda>_. 0) demo_hmac toy_prf None False True demo_kt True (replicate 8 2) (replicate 8 1) k2 demo_co = Some (ok, s)
          \<and> (if ok then ends_match demo_hmac True c s else c = demo_co \<and> s = demo_co))"
proof -
  have f: "fields_ok toy_fields" by (simp add: fields_ok_def toy_fields_def c_str_def)
  have b: "buf_live (fresh_buf 0 2048)" "capacity (fresh_buf 0 2048) = 2048" using fresh_buf_live(1) [of 0 2048] by (simp_all add: fresh_buf_def)
  have l: "int (length (km2_bytes toy_fields server (fresh_source rnd server))) \<le> capacity (fresh_buf 0 2048)" for server and rnd :: "nat \<Rightarrow> u8"
    unfolding b(2) by (simp add: km2_bytes_def toy_fields_def source_bytes_def fresh_source_def user_pass_bytes_def wire_string_opt_def)
  have a: "accepts toy_auth toy_fields KS_AUTH_TRUE"
    by (simp add: accepts_def toy_auth_def toy_fields_def user_pass_read_def km2_authenticate_def)
  have k: "kt_usable demo_hmac True demo_kt" "co_fresh demo_co"
    using demo_co_ok demo_epoch_env by (simp_all add: kt_usable_def co_fresh_def epoch_env_def demo_co_def)
  show ?thesis
    by (rule key_exchange_agreement [OF f f b(1) b(1) l l a a _ _ _ _ k(1) k(2) k(2)]) (auto simp: SID_SIZE_def toy_prf_def)
qed

text \<open>A string that is missing from a message is taken for one of length 1. When fewer than two bytes
  are left, reading a string returns 1, not an error and not 0, which stands for "no string present";
  a message that ends before the credentials therefore passes the test for missing credentials.\<close>

theorem read_string_missing:
  assumes "buf_live b" "length (buf_content b) < 2"
  shows "read_string b cap = Some (1, [], b)"
proof -
  have "buf_read b 2 = Some (None, b)" using wire.get_short [OF assms(1), of 2] assms(2) by simp
  moreover have "snd (buf_advance b (- 1)) = b" by (simp add: buf_advance_def)
  ultimately show ?thesis by (simp add: read_string_def buf_read_u16_def)
qed

theorem read_string_missing_witness:
  "read_string (full_buf [7]) 128 = Some (1, [], full_buf [7])"
  by (rule read_string_missing) (simp_all add: full_buf_live)

end
