(* ===== verification/Tls_Session.thy ===== *)
theory Tls_Session
  imports Fragment Ssl_Pkt Key_Exchange "HOL-Library.Signed_Division"
begin

text \<open>
  One TLS session and its key states: the data structures of \<^verbatim>\<open>openvpn/src/openvpn/ssl_common.h\<close> and
  the functions of \<^verbatim>\<open>ssl.c\<close> that initialise, retire and drive a session through the handshake up to
  the loop of \<^verbatim>\<open>tls_process\<close>. The parts of the handshake that have their own theories (reliability layer,
  control packets, key exchange messages, key derivation) are called here as the code calls them.

  What the code obtains from elsewhere is an input: the clock, the random numbers and the answers of the
  TLS library (\<^verbatim>\<open>BIO_read\<close>, \<^verbatim>\<open>BIO_write\<close>) and of the authentication code to one call. A failing assertion
  is the value \<open>None\<close>.
\<close>

section \<open>Addresses\<close>

text \<open>
  The union \<^verbatim>\<open>openvpn_sockaddr\<close>: the word after the port is the IPv4 address or the IPv6 flow
  information. The interface a packet came in on (\<^verbatim>\<open>pi\<close>) plays no part in these functions.
\<close>

record openvpn_sockaddr =
  sa_family :: int
  sa_port :: u16
  sa_addr4 :: u32
  sa_addr6 :: bytes

definition FAMILY_INET :: int where "FAMILY_INET = 2"
definition FAMILY_INET6 :: int where "FAMILY_INET6 = 10"

definition sockaddr_zero :: openvpn_sockaddr where
  "sockaddr_zero = \<lparr>sa_family = 0, sa_port = 0, sa_addr4 = 0, sa_addr6 = replicate 16 0\<rparr>"

definition addr_defined :: "openvpn_sockaddr \<Rightarrow> bool" where
  "addr_defined a \<longleftrightarrow>
     (if sa_family a = FAMILY_INET then sa_addr4 a \<noteq> 0
      else if sa_family a = FAMILY_INET6 then sa_addr6 a \<noteq> replicate 16 0
      else False)"

definition addr_port_match :: "openvpn_sockaddr \<Rightarrow> openvpn_sockaddr \<Rightarrow> bool option" where
  "addr_port_match a1 a2 =
     (if sa_family a1 = FAMILY_INET then Some (sa_addr4 a1 = sa_addr4 a2 \<and> sa_port a1 = sa_port a2)
      else if sa_family a1 = FAMILY_INET6 then Some (sa_addr6 a1 = sa_addr6 a2 \<and> sa_port a1 = sa_port a2)
      else None)"

definition link_socket_actual_defined :: "openvpn_sockaddr \<Rightarrow> bool" where
  "link_socket_actual_defined act = addr_defined act"

definition link_socket_actual_match :: "openvpn_sockaddr \<Rightarrow> openvpn_sockaddr \<Rightarrow> bool option" where
  "link_socket_actual_match a1 a2 = addr_port_match a1 a2"

text \<open>\<^verbatim>\<open>datagram_overhead\<close> for UDP.\<close>

definition datagram_overhead :: "int \<Rightarrow> int" where
  "datagram_overhead af = 8 + (if af = FAMILY_INET then 20 else 40)"

section \<open>Key states, sessions and options\<close>

definition S_ERROR :: int where "S_ERROR = - 2"
definition S_ERROR_PRE :: int where "S_ERROR_PRE = - 1"
definition S_UNDEF :: int where "S_UNDEF = 0"
definition S_INITIAL :: int where "S_INITIAL = 1"
definition S_PRE_START_SKIP :: int where "S_PRE_START_SKIP = 2"
definition S_PRE_START :: int where "S_PRE_START = 3"
definition S_START :: int where "S_START = 4"
definition S_SENT_KEY :: int where "S_SENT_KEY = 5"
definition S_GOT_KEY :: int where "S_GOT_KEY = 6"
definition S_ACTIVE :: int where "S_ACTIVE = 7"
definition S_GENERATED_KEYS :: int where "S_GENERATED_KEYS = 8"

lemmas state_defs = S_ERROR_def S_ERROR_PRE_def S_UNDEF_def S_INITIAL_def S_PRE_START_SKIP_def S_PRE_START_def
  S_START_def S_SENT_KEY_def S_GOT_KEY_def S_ACTIVE_def S_GENERATED_KEYS_def

definition P_CONTROL_SOFT_RESET_V1 :: int where "P_CONTROL_SOFT_RESET_V1 = 3"
definition P_CONTROL_HARD_RESET_SERVER_V2 :: int where "P_CONTROL_HARD_RESET_SERVER_V2 = 8"
definition TLS_CHANNEL_BUF_SIZE :: int where "TLS_CHANNEL_BUF_SIZE = 2048"
definition TLS_CHANNEL_MTU_MIN :: int where "TLS_CHANNEL_MTU_MIN = 154"
definition CONTROL_SEND_ACK_MAX :: int where "CONTROL_SEND_ACK_MAX = 4"
definition TLS_RELIABLE_N_SEND_BUFFERS :: int where "TLS_RELIABLE_N_SEND_BUFFERS = 6"
definition TLS_RELIABLE_N_REC_BUFFERS :: int where "TLS_RELIABLE_N_REC_BUFFERS = 12"
definition EARLY_NEG_START :: u64 where "EARLY_NEG_START = 0x0f000000"
definition OPENVPN_MAX_HMAC_SIZE :: int where "OPENVPN_MAX_HMAC_SIZE = 64"

text \<open>Deferred authentication: \<open>ad_file\<close> says whether there is a control file.\<close>

datatype auth_deferred_result = ACF_PENDING | ACF_SUCCEEDED | ACF_DISABLED | ACF_FAILED

record auth_deferred_status =
  ad_file :: bool
  ad_status :: auth_deferred_result

text \<open>
  \<^verbatim>\<open>struct key_state\<close>. The flags of \<^verbatim>\<open>crypto_options\<close> that the data channel theories do not use are the
  members \<open>ks_resend_wkc\<close> (\<^verbatim>\<open>CO_RESEND_WKC\<close>); objects behind pointers are members, all zero while the
  pointer is null. \<open>ks_paybuf\<close> holds the contents of the buffer list.
\<close>

record key_state =
  ks_state :: int
  ks_key_id :: int
  ks_initial :: int
  ks_established :: int
  ks_must_negotiate :: int
  ks_must_die :: int
  ks_peer_last_packet :: int
  ks_initial_opcode :: int
  ks_session_id_remote :: session_id
  ks_remote_addr :: openvpn_sockaddr
  ks_crypto :: crypto_options
  ks_resend_wkc :: bool
  ks_key_src :: key_source2
  ks_plaintext_read :: buffer
  ks_plaintext_write :: buffer
  ks_ack_write :: buffer
  ks_send :: reliable
  ks_rec :: reliable
  ks_rec_ack :: reliable_ack
  ks_lru_acks :: reliable_ack
  ks_paybuf :: "bytes list"
  ks_n_bytes :: u64
  ks_n_packets :: u64
  ks_authenticated :: ks_auth_state
  ks_auth_deferred_expire :: int
  ks_mda_status :: auth_deferred_result
  ks_plugin_auth :: auth_deferred_status
  ks_script_auth :: auth_deferred_status

record tls_session =
  ts_burst :: bool
  ts_wrap :: tls_wrap_ctx
  ts_wrap_reneg :: tls_wrap_ctx
  ts_initial_opcode :: int
  ts_session_id :: session_id
  ts_key_id :: int
  ts_untrusted_addr :: openvpn_sockaddr
  ts_primary :: key_state
  ts_lame_duck :: key_state

text \<open>The flags of \<^verbatim>\<open>tls_options.crypto_flags\<close>.\<close>

record crypto_flags =
  cf_packet_id_long_form :: bool
  cf_ignore_packet_id :: bool
  cf_epoch_data_key_format :: bool
  cf_use_tls_key_material_export :: bool
  cf_resend_wkc :: bool

text \<open>The members of \<^verbatim>\<open>struct tls_options\<close> used here; \<open>to_mode_server\<close> is \<^verbatim>\<open>mode == MODE_SERVER\<close>, \<open>to_tun_mtu\<close> is \<^verbatim>\<open>frame.tun_mtu\<close>.\<close>

record tls_options =
  to_key_type :: key_type
  to_server :: bool
  to_xmit_hold :: bool
  to_single_session :: bool
  to_mode_server :: bool
  to_transition_window :: int
  to_handshake_window :: int
  to_packet_timeout :: int
  to_renegotiate_bytes :: int
  to_renegotiate_packets :: int
  to_renegotiate_seconds :: int
  to_aead_usage_limit :: u64
  to_crypto_flags :: crypto_flags
  to_replay_window :: int
  to_replay_time :: int
  to_tls_crypt_v2 :: bool
  to_verify :: tls_verify_options
  to_tls_wrap :: tls_wrap_ctx
  to_frame :: frame
  to_tun_mtu :: int

definition reliable_zero :: reliable where
  "reliable_zero = \<lparr>r_initial_timeout = 0, r_packet_id = 0, r_offset = 0, r_hold = False, r_array = []\<rparr>"

definition epoch_key_zero :: epoch_key where
  "epoch_key_zero = \<lparr>ek_key = replicate 32 0, ek_epoch = 0\<rparr>"

definition key_type_zero :: key_type where
  "key_type_zero = \<lparr>kt_cipher = False, kt_key_size = 0, kt_iv_size = 0, kt_digest = None, kt_aead = False, kt_chacha20_poly1305 = False\<rparr>"

definition crypto_options_zero :: crypto_options where
  "crypto_options_zero = \<lparr>co_encrypt = key_ctx_zero, co_decrypt = key_ctx_zero, co_initialized = False,
     co_epoch_key_send = epoch_key_zero, co_epoch_key_recv = epoch_key_zero, co_epoch_key_type = key_type_zero,
     co_aead_usage_limit = 0, co_future = [], co_future_count = 0, co_retiring_key = key_ctx_zero,
     co_retiring_pid_recv = packet_id_rec_zero, co_packet_id = packet_id_zero, co_pid_persist = None,
     co_packet_id_long_form = False, co_epoch_data_format = False, co_ignore_packet_id = False\<rparr>"

text \<open>\<^verbatim>\<open>CLEAR(*ks)\<close> and \<^verbatim>\<open>CLEAR(*session)\<close>.\<close>

definition key_state_zero :: key_state where
  "key_state_zero = \<lparr>ks_state = S_UNDEF, ks_key_id = 0, ks_initial = 0, ks_established = 0, ks_must_negotiate = 0,
     ks_must_die = 0, ks_peer_last_packet = 0, ks_initial_opcode = 0, ks_session_id_remote = replicate SID_SIZE 0,
     ks_remote_addr = sockaddr_zero, ks_crypto = crypto_options_zero, ks_resend_wkc = False,
     ks_key_src = key_source2_zero, ks_plaintext_read = clear_buf, ks_plaintext_write = clear_buf,
     ks_ack_write = clear_buf, ks_send = reliable_zero, ks_rec = reliable_zero, ks_rec_ack = [], ks_lru_acks = [],
     ks_paybuf = [], ks_n_bytes = 0, ks_n_packets = 0, ks_authenticated = KS_AUTH_FALSE, ks_auth_deferred_expire = 0,
     ks_mda_status = ACF_PENDING, ks_plugin_auth = \<lparr>ad_file = False, ad_status = ACF_PENDING\<rparr>,
     ks_script_auth = \<lparr>ad_file = False, ad_status = ACF_PENDING\<rparr>\<rparr>"

definition tls_wrap_zero :: tls_wrap_ctx where
  "tls_wrap_zero = \<lparr>tw_mode = TLS_WRAP_NONE, tw_opt = crypto_options_zero, tw_work = clear_buf, tw_server_key = key_ctx_zero,
     tw_wkc = None, tw_metadata = clear_buf, tw_cleanup_key_ctx = False, tw_original_wrap_keydata = key2_zero\<rparr>"

definition tls_session_zero :: tls_session where
  "tls_session_zero = \<lparr>ts_burst = False, ts_wrap = tls_wrap_zero, ts_wrap_reneg = tls_wrap_zero, ts_initial_opcode = 0,
     ts_session_id = replicate SID_SIZE 0, ts_key_id = 0, ts_untrusted_addr = sockaddr_zero,
     ts_primary = key_state_zero, ts_lame_duck = key_state_zero\<rparr>"

section \<open>Life cycle\<close>

definition reliable_set_timeout :: "reliable \<Rightarrow> int \<Rightarrow> reliable" where
  "reliable_set_timeout rel timeout = rel\<lparr>r_initial_timeout := timeout\<rparr>"

text \<open>The key id of the key after the current one.\<close>

definition next_key_id :: "int \<Rightarrow> int" where
  "next_key_id k = (let k' = (k + 1) AND P_KEY_ID_MASK in if k' = 0 then 1 else k')"

text \<open>The new session (whose initial opcode and next key id change) and the initialised key state; the TLS object is not part of the model.\<close>

definition key_state_init :: "tls_options \<Rightarrow> tls_session \<Rightarrow> (tls_session \<times> key_state) option" where
  "key_state_init opt session = do {
     let ks = key_state_zero\<lparr>ks_initial_opcode := ts_initial_opcode session, ks_state := S_INITIAL,
                ks_key_id := ts_key_id session\<rparr>;
     let session = session\<lparr>ts_initial_opcode := P_CONTROL_SOFT_RESET_V1, ts_key_id := next_key_id (ts_key_id session)\<rparr>;
     prb \<leftarrow> alloc_buf (nat TLS_CHANNEL_BUF_SIZE);
     pwb \<leftarrow> alloc_buf (nat TLS_CHANNEL_BUF_SIZE);
     c_assert (BUF_SIZE (to_frame opt) \<ge> 0);
     awb \<leftarrow> alloc_buf (nat (BUF_SIZE (to_frame opt)));
     send \<leftarrow> reliable_init (nat (BUF_SIZE (to_frame opt))) (fb_headroom (to_frame opt)) TLS_RELIABLE_N_SEND_BUFFERS
               (if ks_key_id ks \<noteq> 0 then False else to_xmit_hold opt);
     rec \<leftarrow> reliable_init (nat (BUF_SIZE (to_frame opt))) (fb_headroom (to_frame opt)) TLS_RELIABLE_N_REC_BUFFERS False;
     let send = reliable_set_timeout send (to_packet_timeout opt);
     pid \<leftarrow> packet_id_init (to_replay_window opt) (to_replay_time opt) ''SSL'' (ks_key_id ks);
     Some (session, ks\<lparr>ks_plaintext_read := prb, ks_plaintext_write := pwb, ks_ack_write := awb, ks_send := send,
                       ks_rec := rec, ks_crypto := (ks_crypto ks)\<lparr>co_packet_id := pid, co_pid_persist := None\<rparr>\<rparr>)
   }"

text \<open>Freed members keep the values the code leaves in them; dangling pointers are zero objects.\<close>

definition free_epoch_key_ctx :: "crypto_options \<Rightarrow> crypto_options" where
  "free_epoch_key_ctx co = co\<lparr>co_future := [], co_retiring_key := free_key_ctx (co_retiring_key co),
     co_retiring_pid_recv := (co_retiring_pid_recv co)\<lparr>rec_seq_list := None\<rparr>,
     co_epoch_key_recv := epoch_key_zero, co_epoch_key_send := epoch_key_zero\<rparr>"

definition key_state_free :: "key_state \<Rightarrow> bool \<Rightarrow> key_state" where
  "key_state_free ks clear =
     (if clear then key_state_zero
      else let co = free_epoch_key_ctx (free_key_ctx_bi (ks_crypto ks))
           in ks\<lparr>ks_state := S_UNDEF, ks_crypto := co\<lparr>co_packet_id := packet_id_free (co_packet_id co)\<rparr>,
                ks_plaintext_read := free_buf (ks_plaintext_read ks), ks_plaintext_write := free_buf (ks_plaintext_write ks),
                ks_ack_write := free_buf (ks_ack_write ks), ks_paybuf := [], ks_send := reliable_zero, ks_rec := reliable_zero,
                ks_rec_ack := [], ks_lru_acks := [], ks_key_src := key_source2_zero,
                ks_plugin_auth := (ks_plugin_auth ks)\<lparr>ad_file := False\<rparr>, ks_script_auth := (ks_script_auth ks)\<lparr>ad_file := False\<rparr>\<rparr>)"

text \<open>\<open>draws\<close> are the session ids the random generator returns; the loop takes the first that is not zero.\<close>

definition tls_session_init :: "int \<Rightarrow> tls_options \<Rightarrow> session_id list \<Rightarrow> tls_session option" where
  "tls_session_init now opt draws = do {
     sid \<leftarrow> find session_id_defined draws;
     let s = tls_session_zero\<lparr>ts_session_id := sid,
               ts_initial_opcode := (if to_server opt then P_CONTROL_HARD_RESET_SERVER_V2
                                     else if to_tls_crypt_v2 opt then P_CONTROL_HARD_RESET_CLIENT_V3
                                     else P_CONTROL_HARD_RESET_CLIENT_V2)\<rparr>;
     c_assert (BUF_SIZE (to_frame opt) \<ge> 0);
     work \<leftarrow> alloc_buf (nat (BUF_SIZE (to_frame opt)));
     let wrap = (to_tls_wrap opt)\<lparr>tw_work := work\<rparr>;
     pid \<leftarrow> packet_id_init (to_replay_window opt) (to_replay_time opt) ''TLS_WRAP'' (ts_key_id s);
     let pid = (if to_tls_crypt_v2 opt then pid\<lparr>pid_send := \<lparr>send_id = EARLY_NEG_START, send_time = now\<rparr>\<rparr> else pid);
     let pid = (case co_pid_persist (tw_opt wrap) of None \<Rightarrow> pid | Some p \<Rightarrow> packet_id_persist_load_obj p pid);
     let s = s\<lparr>ts_wrap := wrap\<lparr>tw_opt := (tw_opt wrap)\<lparr>co_packet_id := pid\<rparr>\<rparr>\<rparr>;
     (s, ks) \<leftarrow> key_state_init opt s;
     Some (s\<lparr>ts_primary := ks\<rparr>)
   }"

definition tls_wrap_free :: "tls_wrap_ctx \<Rightarrow> tls_wrap_ctx" where
  "tls_wrap_free w =
     (let w = (if packet_id_initialized (co_packet_id (tw_opt w))
               then w\<lparr>tw_opt := (tw_opt w)\<lparr>co_packet_id := packet_id_free (co_packet_id (tw_opt w))\<rparr>\<rparr> else w);
          w = (if tw_cleanup_key_ctx w then w\<lparr>tw_opt := free_key_ctx_bi (tw_opt w)\<rparr> else w)
      in w\<lparr>tw_metadata := free_buf (tw_metadata w), tw_work := free_buf (tw_work w), tw_original_wrap_keydata := key2_zero\<rparr>)"

definition tls_session_free :: "tls_session \<Rightarrow> bool \<Rightarrow> tls_session" where
  "tls_session_free s clear =
     (if clear then tls_session_zero
      else s\<lparr>ts_wrap := tls_wrap_free (ts_wrap s), ts_wrap_reneg := tls_wrap_free (ts_wrap_reneg s),
             ts_primary := key_state_free (ts_primary s) False, ts_lame_duck := key_state_free (ts_lame_duck s) False\<rparr>)"

definition reset_session :: "int \<Rightarrow> tls_options \<Rightarrow> session_id list \<Rightarrow> tls_session \<Rightarrow> tls_session option" where
  "reset_session now opt draws s = tls_session_init now opt draws"

text \<open>The retired key becomes the lame duck with a limited life time; a new primary key starts.\<close>

definition key_state_soft_reset :: "int \<Rightarrow> tls_options \<Rightarrow> tls_session \<Rightarrow> tls_session option" where
  "key_state_soft_reset now opt s = do {
     let old = (ts_primary s)\<lparr>ks_must_die := now + to_transition_window opt\<rparr>;
     (s, ks) \<leftarrow> key_state_init opt (s\<lparr>ts_lame_duck := old\<rparr>);
     Some (s\<lparr>ts_primary := ks\<lparr>ks_session_id_remote := ks_session_id_remote old, ks_remote_addr := ks_remote_addr old\<rparr>\<rparr>)
   }"

text \<open>The argument and result are the values of \<^verbatim>\<open>*earliest\<close>.\<close>

definition compute_earliest_wakeup :: "int \<Rightarrow> int \<Rightarrow> int" where
  "compute_earliest_wakeup earliest seconds =
     (let e = (if seconds < earliest then seconds else earliest) in if e < 0 then 0 else e)"

definition lame_duck_must_die :: "int \<Rightarrow> tls_session \<Rightarrow> int \<Rightarrow> (bool \<times> int) option" where
  "lame_duck_must_die now s wakeup =
     (let lame = ts_lame_duck s
      in if ks_state lame \<ge> S_INITIAL then do {
           c_assert (ks_must_die lame \<noteq> 0);
           Some (if now < ks_must_die lame then (False, compute_earliest_wakeup wakeup (ks_must_die lame - now)) else (True, wakeup)) }
         else Some (ks_state lame = S_ERROR, wakeup))"

definition tls_init_control_channel_frame_parameters :: "frame \<Rightarrow> int \<Rightarrow> frame \<times> int" where
  "tls_init_control_channel_frame_parameters f tls_mtu =
     (let overhead = 10 + max_int tls_crypt_buf_overhead (packet_id_size True + OPENVPN_MAX_HMAC_SIZE) + 3 + ACK_SIZE RELIABLE_ACK_SIZE;
          f = f\<lparr>fb_payload_size := max_int 1500 tls_mtu + 100, fb_headroom := overhead, fb_tailroom := overhead\<rparr>;
          tun_mtu = max_int (min_int tls_mtu TLS_CHANNEL_BUF_SIZE) TLS_CHANNEL_MTU_MIN
      in (f, tun_mtu))"


section \<open>Driving the handshake\<close>

text \<open>
  The library functions and constants of the process (\<open>tl_junk\<close>, \<open>tl_hmac\<close>, \<open>tl_cipher\<close> as in the theories
  below), and what is obtained during one call of \<^verbatim>\<open>tls_process_state\<close>: the time, random bytes, the answers
  of the TLS library when ciphertext or plaintext is written to it (result, retry) or read from it (bytes or an
  error, retry), the fields of our key message and the decisions of the authentication code. The last one
  is the answer to the read after a failure.
\<close>

record tls_lib =
  tl_junk :: "nat \<Rightarrow> u8"
  tl_hmac :: hmac_fun
  tl_cipher :: cipher_lib
  tl_prf :: prf_fun

record tls_input =
  in_now :: int
  in_rnd :: "nat \<Rightarrow> u8"
  in_write_ciphertext :: "int \<times> bool"
  in_read_plaintext :: "bytes option \<times> bool"
  in_fields :: km2_fields
  in_auth :: auth_env
  in_write_plaintext :: "int \<times> bool"
  in_read_ciphertext :: "bytes option \<times> bool"
  in_read_alert :: "bytes option \<times> bool"

datatype multi_status = CAS_NOT_CONNECTED | CAS_WAITING_AUTH | CAS_PENDING | CAS_PENDING_DEFERRED | CAS_PENDING_DEFERRED_PARTIAL
  | CAS_FAILED | CAS_WAITING_OPTIONS_IMPORT | CAS_RECONNECT_PENDING | CAS_CONNECT_DONE

text \<open>
  What one call works on: the session, the members of \<^verbatim>\<open>tls_multi\<close> it changes (\<open>w_deauth\<close> records that
  \<^verbatim>\<open>tls_deauthenticate\<close> was called on all sessions), the outgoing packet and its address, the
  wake-up time, and the variable \<^verbatim>\<open>continue_tls_process\<close>. \<open>w_to_link_src\<close> says which memory of the session a
  packet written by this call lies in: the work buffers of the two wrapping contexts, an entry of the
  send array, or the acknowledgement buffer.
\<close>

datatype link_src = SRC_WORK | SRC_WORK_RENEG | SRC_RELIABLE | SRC_ACK

record tls_work =
  w_session :: tls_session
  w_multi_state :: multi_status
  w_peer_info :: "bytes option"
  w_deauth :: bool
  w_to_link :: buffer
  w_to_link_addr :: "openvpn_sockaddr option"
  w_to_link_src :: "link_src option"
  w_wakeup :: int
  w_continue :: bool

definition w_ks :: "tls_work \<Rightarrow> key_state" where
  "w_ks w = ts_primary (w_session w)"

definition upd_session :: "(tls_session \<Rightarrow> tls_session) \<Rightarrow> tls_work \<Rightarrow> tls_work" where
  "upd_session f w = w\<lparr>w_session := f (w_session w)\<rparr>"

definition upd_ks :: "(key_state \<Rightarrow> key_state) \<Rightarrow> tls_work \<Rightarrow> tls_work" where
  "upd_ks f w = upd_session (\<lambda>s. s\<lparr>ts_primary := f (ts_primary s)\<rparr>) w"

definition set_state :: "int \<Rightarrow> tls_work \<Rightarrow> tls_work" where
  "set_state st w = upd_ks (\<lambda>ks. ks\<lparr>ks_state := st\<rparr>) w"

definition set_continue :: "tls_work \<Rightarrow> tls_work" where
  "set_continue w = w\<lparr>w_continue := True\<rparr>"

text \<open>
  The blocks of the function in order. A block goes on to the next one, returns from the function, or jumps
  to the label \<^verbatim>\<open>error\<close>.
\<close>

datatype outcome = Go tls_work | Leave bool tls_work | Err tls_work

type_synonym block = "tls_work \<Rightarrow> outcome option"

fun run_blocks :: "block list \<Rightarrow> block" where
  "run_blocks [] w = Some (Go w)"
| "run_blocks (b # bs) w =
     (case b w of None \<Rightarrow> None | Some (Go w') \<Rightarrow> run_blocks bs w' | Some (Leave c w') \<Rightarrow> Some (Leave c w') | Some (Err w') \<Rightarrow> Some (Err w'))"

definition auth_deferred_expire_window :: "tls_options \<Rightarrow> int" where
  "auth_deferred_expire_window o' =
     (let r2 = to_renegotiate_seconds o' sdiv 2
      in if to_renegotiate_seconds o' \<noteq> 0 \<and> r2 < to_handshake_window o' then r2 else to_handshake_window o')"

definition session_move_pre_start :: "int \<Rightarrow> tls_options \<Rightarrow> bool \<Rightarrow> key_state \<Rightarrow> (bool \<times> key_state) option" where
  "session_move_pre_start now opt skip ks = do {
     (i, send) \<leftarrow> reliable_get_buf_output_sequenced (ks_send ks);
     (case i of
        None \<Rightarrow> Some (False, ks\<lparr>ks_send := send\<rparr>)
      | Some i \<Rightarrow> do {
          send \<leftarrow> reliable_mark_active_outgoing send i (ks_initial_opcode ks);
          send \<leftarrow> (if skip then reliable_mark_deleted send i else Some send);
          Some (True, ks\<lparr>ks_send := send, ks_initial := now, ks_must_negotiate := now + to_handshake_window opt,
                        ks_auth_deferred_expire := now + auth_deferred_expire_window opt,
                        ks_state := (if skip then S_PRE_START_SKIP else S_PRE_START)\<rparr>) })
   }"

definition session_skip_to_pre_start ::
    "int \<Rightarrow> tls_options \<Rightarrow> tls_session \<Rightarrow> tls_pre_decrypt_state \<Rightarrow> openvpn_sockaddr \<Rightarrow> (bool \<times> tls_session) option" where
  "session_skip_to_pre_start now opt s st from = do {
     let ks = (ts_primary s)\<lparr>ks_session_id_remote := pd_peer_session_id st, ks_remote_addr := from\<rparr>;
     let ks = ks\<lparr>ks_rec := (ks_rec ks)\<lparr>r_packet_id := 1\<rparr>\<rparr>;
     let co = tw_opt (ts_wrap s);
     let co = co\<lparr>co_packet_id := (co_packet_id co)\<lparr>pid_send := (pid_send (co_packet_id co))\<lparr>send_id := 1\<rparr>\<rparr>\<rparr>;
     let s = s\<lparr>ts_session_id := pd_server_session_id st, ts_untrusted_addr := from, ts_burst := True,
               ts_wrap := (ts_wrap s)\<lparr>tw_opt := co\<rparr>\<rparr>;
     (ok, ks) \<leftarrow> session_move_pre_start now opt True ks;
     Some (ok, s\<lparr>ts_primary := ks\<rparr>)
   }"

text \<open>
  The buffered payload is handed to the TLS library, whose answers are not looked at. Setting the address of
  the data channel socket is outside the model.
\<close>

definition session_move_active :: "int \<Rightarrow> tls_options \<Rightarrow> tls_work \<Rightarrow> tls_work" where
  "session_move_active now opt w =
     (let w = upd_ks (\<lambda>ks. ks\<lparr>ks_established := now, ks_state := S_ACTIVE, ks_must_negotiate := 0, ks_paybuf := []\<rparr>) w
      in if w_multi_state w = CAS_NOT_CONNECTED
         then w\<lparr>w_multi_state := (if to_mode_server opt then CAS_WAITING_AUTH else CAS_WAITING_OPTIONS_IMPORT)\<rparr>
         else w)"

text \<open>\<^verbatim>\<open>bio_read\<close>: the library returns at most as many bytes as there is room for.\<close>

definition bio_read :: "bytes option \<times> bool \<Rightarrow> buffer \<Rightarrow> (int \<times> buffer) option" where
  "bio_read bio buf = do {
     c_assert (len buf \<ge> 0);
     (if len buf \<noteq> 0 then Some (0, buf)
      else case fst bio of
        None \<Rightarrow> Some (if \<not> snd bio then (- 1, buf\<lparr>len := 0\<rparr>) else (0, buf))
      | Some bs \<Rightarrow> do {
          let bs = take (nat (buf_forward_capacity buf)) bs;
          (if bs = [] then Some (0, buf\<lparr>len := 0\<rparr>)
           else do {
             p \<leftarrow> buf_bptr buf;
             buf \<leftarrow> buf_store buf p bs;
             Some (1, buf\<lparr>len := int (length bs)\<rparr>) }) })
   }"

definition control_packet_needs_wkc :: "key_state \<Rightarrow> bool" where
  "control_packet_needs_wkc ks \<longleftrightarrow> ks_resend_wkc ks \<and> r_packet_id (ks_send ks) = 1"

definition calc_control_channel_frame_overhead :: "cipher_lib \<Rightarrow> tls_session \<Rightarrow> int" where
  "calc_control_channel_frame_overhead lib s =
     (let ks = ts_primary s;
          ackstosend = reliable_ack_outstanding (ks_rec_ack ks) + int (length (ks_lru_acks ks))
      in 1 + int SID_SIZE + ACK_SIZE (nat (min_int ackstosend CONTROL_SEND_ACK_MAX)) + 4
         + (if tw_mode (ts_wrap s) = TLS_WRAP_CRYPT then tls_crypt_buf_overhead
            else if tw_mode (ts_wrap s) = TLS_WRAP_AUTH then int (cl_hmac_size lib) + packet_id_size True
            else 0)
         + datagram_overhead (sa_family (ts_untrusted_addr s)))"

text \<open>The length of the wrapped client key; reading it without one is a null pointer access.\<close>

definition wkc_len :: "tls_session \<Rightarrow> int option" where
  "wkc_len s = map_option buf_len (tw_wkc (ts_wrap s))"

text \<open>One round of the loop that cuts the ciphertext into packets.\<close>

definition split_round :: "tls_session \<Rightarrow> int \<Rightarrow> key_state \<Rightarrow> buffer \<Rightarrow> (key_state \<times> buffer) option" where
  "split_round s max_pkt_len ks tmp = do {
     (opcode, l) \<leftarrow> (if control_packet_needs_wkc ks
                     then do { k \<leftarrow> wkc_len s; Some (P_CONTROL_WKC_V1, max_int 0 (max_pkt_len - k)) }
                     else Some (P_CONTROL_V1, max_pkt_len));
     let l = min_int l (len tmp);
     (i, send) \<leftarrow> reliable_get_buf_output_sequenced (ks_send ks);
     i \<leftarrow> i;
     (_, b, tmp) \<leftarrow> buf_copy_n (e_buf (r_array send ! i)) tmp l;
     send \<leftarrow> reliable_mark_active_outgoing (upd_entry i (\<lambda>e. e\<lparr>e_buf := b\<rparr>) send) i opcode;
     Some (ks\<lparr>ks_send := send\<rparr>, tmp)
   }"

text \<open>
  The loop; \<open>n\<close> bounds the rounds. Each round takes one entry of the send array or fails the assertion, so the
  size of the array is enough.
\<close>

fun split_ciphertext :: "nat \<Rightarrow> tls_session \<Rightarrow> int \<Rightarrow> key_state \<Rightarrow> buffer \<Rightarrow> key_state option" where
  "split_ciphertext 0 s max_pkt_len ks tmp = (if len tmp > 0 then None else Some ks)"
| "split_ciphertext (Suc n) s max_pkt_len ks tmp =
     (if len tmp > 0 then do { (ks, tmp) \<leftarrow> split_round s max_pkt_len ks tmp; split_ciphertext n s max_pkt_len ks tmp }
      else Some ks)"

text \<open>The largest payload of a packet and the number of ciphertext bytes to ask for.\<close>

definition ciphertext_limits :: "tls_lib \<Rightarrow> tls_options \<Rightarrow> tls_session \<Rightarrow> int \<Rightarrow> (int \<times> int) option" where
  "ciphertext_limits lb opt s rel_avail = do {
     let max_pkt_len = min_int TLS_CHANNEL_BUF_SIZE (to_tun_mtu opt) - calc_control_channel_frame_overhead (tl_cipher lb) s;
     let maxlen = max_pkt_len * rel_avail;
     maxlen \<leftarrow> (if control_packet_needs_wkc (ts_primary s) then do { k \<leftarrow> wkc_len s; Some (maxlen - k) } else Some maxlen);
     Some (if maxlen < 16 then (TLS_CHANNEL_BUF_SIZE, 16) else (max_pkt_len, maxlen))
   }"

definition write_outgoing_tls_ciphertext ::
    "tls_lib \<Rightarrow> tls_options \<Rightarrow> bytes option \<times> bool \<Rightarrow> tls_work \<Rightarrow> (bool \<times> tls_work) option" where
  "write_outgoing_tls_ciphertext lb opt bio w = do {
     let rel_avail = reliable_get_num_output_sequenced_available (ks_send (w_ks w));
     (if rel_avail = 0 then Some (True, w)
      else do {
        (max_pkt_len, maxlen) \<leftarrow> ciphertext_limits lb opt (w_session w) rel_avail;
        tmp \<leftarrow> alloc_buf_gc (tl_junk lb) (nat maxlen);
        (status, tmp) \<leftarrow> bio_read bio tmp;
        (if status = -1 then Some (False, w)
         else if status = 1 then do {
           ks \<leftarrow> split_ciphertext (length (r_array (ks_send (w_ks w)))) (w_session w) max_pkt_len (w_ks w) tmp;
           Some (True, set_continue (upd_ks (\<lambda>_. ks) w)) }
         else Some (True, w)) })
   }"

definition check_outgoing_ciphertext ::
    "tls_lib \<Rightarrow> tls_options \<Rightarrow> bytes option \<times> bool \<Rightarrow> tls_work \<Rightarrow> (bool \<times> tls_work) option" where
  "check_outgoing_ciphertext lb opt bio w =
     (if ks_state (w_ks w) \<ge> S_START then do {
        (i, send) \<leftarrow> reliable_get_buf_output_sequenced (ks_send (w_ks w));
        let w = upd_ks (\<lambda>ks. ks\<lparr>ks_send := send\<rparr>) w;
        (if i = None then Some (True, w) else write_outgoing_tls_ciphertext lb opt bio w) }
      else Some (True, w))"


text \<open>The blocks of \<^verbatim>\<open>tls_process_state\<close>, in the order of the code.\<close>

definition blk_initial :: "tls_options \<Rightarrow> tls_input \<Rightarrow> block" where
  "blk_initial opt inp w =
     (if ks_state (w_ks w) = S_INITIAL then do {
        (ok, ks) \<leftarrow> session_move_pre_start (in_now inp) opt False (w_ks w);
        Some (Go ((upd_ks (\<lambda>_. ks) w)\<lparr>w_continue := ok\<rparr>)) }
      else Some (Go w))"

definition blk_timeout :: "tls_input \<Rightarrow> block" where
  "blk_timeout inp w =
     (if in_now inp \<ge> ks_must_negotiate (w_ks w) \<and> ks_state (w_ks w) \<ge> S_UNDEF \<and> ks_state (w_ks w) < S_ACTIVE
      then Some (Err w) else Some (Go w))"

definition blk_start :: block where
  "blk_start w =
     (if ks_state (w_ks w) = S_PRE_START \<and> reliable_empty (ks_send (w_ks w))
      then Some (Go (set_continue (set_state S_START w))) else Some (Go w))"

definition blk_active :: "tls_options \<Rightarrow> tls_input \<Rightarrow> block" where
  "blk_active opt inp w =
     (if (ks_state (w_ks w) = S_GOT_KEY \<and> \<not> to_server opt \<or> ks_state (w_ks w) = S_SENT_KEY \<and> to_server opt)
         \<and> reliable_empty (ks_send (w_ks w))
      then Some (Go (set_continue (session_move_active (in_now inp) opt w))) else Some (Go w))"

text \<open>The view of a session that the packet theories work on, and its way back.\<close>

definition control_view :: "tls_options \<Rightarrow> tls_session \<Rightarrow> control_session" where
  "control_view opt s =
     (let ks = ts_primary s
      in \<lparr>cs_wrap = ts_wrap s, cs_wrap_reneg = ts_wrap_reneg s, cs_session_id = ts_session_id s, cs_server = to_server opt,
          cs_key_material_export = cf_use_tls_key_material_export (to_crypto_flags opt), cs_key_id = ks_key_id ks,
          cs_remote_addr_defined = link_socket_actual_defined (ks_remote_addr ks), cs_rec_ack = ks_rec_ack ks,
          cs_lru_acks = ks_lru_acks ks, cs_session_id_remote = ks_session_id_remote ks\<rparr>)"

definition put_control_view :: "control_session \<Rightarrow> tls_session \<Rightarrow> tls_session" where
  "put_control_view c s = s\<lparr>ts_wrap := cs_wrap c, ts_wrap_reneg := cs_wrap_reneg c,
     ts_primary := (ts_primary s)\<lparr>ks_rec_ack := cs_rec_ack c, ks_lru_acks := cs_lru_acks c\<rparr>\<rparr>"

text \<open>\<^verbatim>\<open>write_control_auth\<close> on a session, followed by \<^verbatim>\<open>*to_link = b\<close>.\<close>

definition send_control ::
    "tls_lib \<Rightarrow> tls_options \<Rightarrow> tls_input \<Rightarrow> buffer \<Rightarrow> link_src \<Rightarrow> int \<Rightarrow> int \<Rightarrow> bool \<Rightarrow> tls_work \<Rightarrow> tls_work option" where
  "send_control lb opt inp b src opcode max_ack prepend_ack w = do {
     let reneg = uses_reneg (control_view opt (w_session w)) (ks_key_id (w_ks w));
     let crypt = (tw_mode (tls_session_get_tls_wrap (control_view opt (w_session w)) (ks_key_id (w_ks w))) = TLS_WRAP_CRYPT);
     (c, b) \<leftarrow> write_control_auth (tl_junk lb) (tl_hmac lb) (tl_cipher lb) (in_rnd inp) (in_now inp)
                 (control_view opt (w_session w)) b opcode max_ack prepend_ack;
     Some ((upd_session (put_control_view c) w)\<lparr>w_to_link := b, w_to_link_addr := Some (ks_remote_addr (w_ks w)),
             w_to_link_src := Some (if crypt then if reneg then SRC_WORK_RENEG else SRC_WORK else src)\<rparr>)
   }"

text \<open>
  A packet that is due is sent. The headers are written in front of the stored packet, into room the entry keeps
  for them; the entry's own bounds and content do not change.
\<close>

definition blk_send :: "tls_lib \<Rightarrow> tls_options \<Rightarrow> tls_input \<Rightarrow> block" where
  "blk_send lb opt inp w =
     (if len (w_to_link w) = 0 \<and> reliable_can_send (in_now inp) (ks_send (w_ks w)) then do {
        let (r, send) = reliable_send (in_now inp) (ks_send (w_ks w));
        (i, opcode) \<leftarrow> r;
        let w = upd_ks (\<lambda>ks. ks\<lparr>ks_send := send\<rparr>) w;
        w \<leftarrow> send_control lb opt inp (e_buf (r_array send ! i)) SRC_RELIABLE opcode CONTROL_SEND_ACK_MAX True w;
        Some (Leave False w) }
      else Some (Go w))"

definition blk_error_pre :: block where
  "blk_error_pre w =
     (if ks_state (w_ks w) = S_ERROR_PRE then Some (Leave False (set_state S_ERROR w)) else Some (Go w))"

definition blk_read_ciphertext :: "tls_input \<Rightarrow> block" where
  "blk_read_ciphertext inp w =
     (let ks = w_ks w
      in case reliable_get_entry_sequenced (ks_rec ks) of
           None \<Rightarrow> Some (Go w)
         | Some i \<Rightarrow>
             if e_packet_id (r_array (ks_rec ks) ! i) = 0 \<and> is_hard_reset_method2 (e_opcode (r_array (ks_rec ks) ! i)) then do {
               (ok, wkc, rel) \<leftarrow> parse_early_negotiation_tlvs (ks_rec ks) i (ks_resend_wkc ks);
               let w = upd_ks (\<lambda>ks. ks\<lparr>ks_rec := rel, ks_resend_wkc := wkc\<rparr>) w;
               Some (if ok then Go w else Err w) }
             else do {
               (ok, taken, rel) \<leftarrow> read_incoming_tls_ciphertext (in_write_ciphertext inp) (ks_rec ks) i;
               let w = upd_ks (\<lambda>ks. ks\<lparr>ks_rec := rel\<rparr>) w;
               Some (if \<not> ok then Err w else if taken then Go (set_continue w) else Go w) })"

definition blk_read_plaintext :: "tls_input \<Rightarrow> block" where
  "blk_read_plaintext inp w =
     (if len (ks_plaintext_read (w_ks w)) = 0 then do {
        let (ok, buf) = buf_init_dowork (ks_plaintext_read (w_ks w)) 0;
        c_assert ok;
        (status, buf) \<leftarrow> bio_read (in_read_plaintext inp) buf;
        let w = upd_ks (\<lambda>ks. ks\<lparr>ks_plaintext_read := buf\<rparr>) w;
        Some (if status = -1 then Err w
              else if status = 1 then Go ((set_continue w)\<lparr>w_wakeup := 0\<rparr>)
              else Go w) }
      else Some (Go w))"

definition blk_send_key :: "tls_options \<Rightarrow> tls_input \<Rightarrow> block" where
  "blk_send_key opt inp w =
     (if len (ks_plaintext_write (w_ks w)) = 0
         \<and> (ks_state (w_ks w) = S_START \<and> \<not> to_server opt \<or> ks_state (w_ks w) = S_GOT_KEY \<and> to_server opt) then do {
        (ok, src, buf) \<leftarrow> key_method_2_write (in_rnd inp) (in_fields inp) (to_server opt) (ks_key_src (w_ks w)) (ks_plaintext_write (w_ks w));
        let w = upd_ks (\<lambda>ks. ks\<lparr>ks_key_src := src, ks_plaintext_write := buf\<rparr>) w;
        Some (if ok then Go (set_continue (set_state S_SENT_KEY w)) else Err w) }
      else Some (Go w))"

text \<open>\<^verbatim>\<open>tls_deauthenticate\<close> on the session at hand; the caller does the same to the other ones.\<close>

definition deauthenticate_session :: "tls_session \<Rightarrow> tls_session" where
  "deauthenticate_session s = s\<lparr>ts_primary := (ts_primary s)\<lparr>ks_authenticated := KS_AUTH_FALSE\<rparr>,
     ts_lame_duck := (ts_lame_duck s)\<lparr>ks_authenticated := KS_AUTH_FALSE\<rparr>\<rparr>"

definition blk_receive_key :: "tls_options \<Rightarrow> tls_input \<Rightarrow> block" where
  "blk_receive_key opt inp w =
     (if len (ks_plaintext_read (w_ks w)) \<noteq> 0
         \<and> (ks_state (w_ks w) = S_SENT_KEY \<and> \<not> to_server opt \<or> ks_state (w_ks w) = S_START \<and> to_server opt) then do {
        (ok, r) \<leftarrow> key_method_2_read (in_auth inp) (to_server opt) (ks_key_src (w_ks w)) (w_peer_info w) (ks_plaintext_read (w_ks w));
        let w = upd_session (\<lambda>s. if km_deauth r then deauthenticate_session s else s) w;
        let w = upd_ks (\<lambda>ks. ks\<lparr>ks_key_src := km_key_src r, ks_authenticated := km_auth r, ks_plaintext_read := km_buf r\<rparr>) w;
        let w = w\<lparr>w_peer_info := km_peer_info r, w_deauth := (w_deauth w \<or> km_deauth r)\<rparr>;
        Some (if ok then Go (set_continue (set_state S_GOT_KEY w)) else Err w) }
      else Some (Go w))"

text \<open>\<^verbatim>\<open>key_state_write_plaintext\<close> is the same function as for ciphertext, on another BIO.\<close>

definition blk_write_plaintext :: "tls_input \<Rightarrow> block" where
  "blk_write_plaintext inp w =
     (if len (ks_plaintext_write (w_ks w)) \<noteq> 0 then do {
        (status, buf) \<leftarrow> key_state_write_ciphertext (in_write_plaintext inp) (ks_plaintext_write (w_ks w));
        let w = upd_ks (\<lambda>ks. ks\<lparr>ks_plaintext_write := buf\<rparr>) w;
        Some (if status = -1 then Err w else if status = 1 then Go (set_continue w) else Go w) }
      else Some (Go w))"

definition blk_write_ciphertext :: "tls_lib \<Rightarrow> tls_options \<Rightarrow> tls_input \<Rightarrow> block" where
  "blk_write_ciphertext lb opt inp w = do {
     (ok, w) \<leftarrow> check_outgoing_ciphertext lb opt (in_read_ciphertext inp) w;
     Some (if ok then Go w else Err w)
   }"

definition process_blocks :: "tls_lib \<Rightarrow> tls_options \<Rightarrow> tls_input \<Rightarrow> block list" where
  "process_blocks lb opt inp =
     [blk_initial opt inp, blk_timeout inp, blk_start, blk_active opt inp, blk_send lb opt inp, blk_error_pre,
      blk_read_ciphertext inp, blk_read_plaintext inp, blk_send_key opt inp, blk_receive_key opt inp,
      blk_write_plaintext inp, blk_write_ciphertext lb opt inp]"

definition tls_process_state :: "tls_lib \<Rightarrow> tls_options \<Rightarrow> tls_input \<Rightarrow> tls_work \<Rightarrow> (bool \<times> tls_work) option" where
  "tls_process_state lb opt inp w = do {
     r \<leftarrow> run_blocks (process_blocks lb opt inp) (w\<lparr>w_continue := False\<rparr>);
     (case r of
        Go w \<Rightarrow> Some (w_continue w, w)
      | Leave c w \<Rightarrow> Some (c, w)
      | Err w \<Rightarrow> do {
          (_, w) \<leftarrow> check_outgoing_ciphertext lb opt (in_read_alert inp) w;
          Some (True, set_state S_ERROR_PRE w) })
   }"

definition should_trigger_renegotiation :: "int \<Rightarrow> tls_options \<Rightarrow> key_state \<Rightarrow> bool" where
  "should_trigger_renegotiation now opt ks \<longleftrightarrow>
     (if to_renegotiate_seconds opt \<noteq> 0 \<and> now \<ge> ks_established ks + to_renegotiate_seconds opt then True
      else if to_renegotiate_bytes opt > 0 \<and> ks_n_bytes ks \<ge> word_of_int (to_renegotiate_bytes opt) then True
      else if to_renegotiate_packets opt \<noteq> 0 \<and> ks_n_packets ks \<ge> word_of_int (to_renegotiate_packets opt) then True
      else if co_epoch_data_format (ks_crypto ks) then ek_epoch (co_epoch_key_send (ks_crypto ks)) \<ge> 0xF000
      else packet_id_close_to_wrapping (pid_send (co_packet_id (ks_crypto ks)))
         \<or> aead_usage_limit_reached (to_aead_usage_limit opt) (co_encrypt (ks_crypto ks)) (send_id (pid_send (co_packet_id (ks_crypto ks))))
         \<or> aead_usage_limit_reached (to_aead_usage_limit opt) (co_decrypt (ks_crypto ks)) (rec_id (pid_rec (co_packet_id (ks_crypto ks))))
         \<or> cipher_decrypt_verify_fail_warn (co_decrypt (ks_crypto ks)))"

text \<open>
  The loop of \<^verbatim>\<open>tls_process\<close>; \<open>inp k\<close> is the input of its \<open>k\<close>-th round and \<open>n\<close> the fuel. \<open>Done\<close> carries whether
  the session went to \<^verbatim>\<open>S_ERROR\<close>; \<open>Abort\<close> is a failing assertion.
\<close>

datatype loop_result = Done bool tls_work | Abort | Out_of_fuel

fun tls_process_loop :: "nat \<Rightarrow> tls_lib \<Rightarrow> tls_options \<Rightarrow> (nat \<Rightarrow> tls_input) \<Rightarrow> nat \<Rightarrow> tls_work \<Rightarrow> loop_result" where
  "tls_process_loop 0 lb opt inp k w = Out_of_fuel"
| "tls_process_loop (Suc n) lb opt inp k w =
     (case tls_process_state lb opt (inp k) w of
        None \<Rightarrow> Abort
      | Some (c, w') \<Rightarrow>
          if ks_state (w_ks w') = S_ERROR then Done True w'
          else if c then tls_process_loop n lb opt inp (Suc k) w'
          else Done False w')"

definition LOOP_FUEL :: nat where "LOOP_FUEL = 64"

text \<open>After the loop: acknowledgements that no packet carried.\<close>

definition send_acks :: "tls_lib \<Rightarrow> tls_options \<Rightarrow> tls_input \<Rightarrow> tls_work \<Rightarrow> (bool \<times> tls_work) option" where
  "send_acks lb opt inp w =
     (if len (w_to_link w) = 0 \<and> \<not> reliable_ack_empty (ks_rec_ack (w_ks w)) then
        if control_packet_needs_wkc (w_ks w) then do {
          (i, send) \<leftarrow> reliable_get_buf_output_sequenced (ks_send (w_ks w));
          (case i of
             None \<Rightarrow> Some (False, upd_ks (\<lambda>ks. ks\<lparr>ks_send := send\<rparr>) w)
           | Some i \<Rightarrow> do {
               send \<leftarrow> reliable_mark_active_outgoing send i P_CONTROL_WKC_V1;
               Some (True, upd_ks (\<lambda>ks. ks\<lparr>ks_send := send\<rparr>) w) }) }
        else do {
          let (ok, b) = buf_init_dowork (ks_ack_write (w_ks w)) (fb_headroom (to_frame opt));
          c_assert ok;
          w \<leftarrow> send_control lb opt inp b SRC_ACK P_ACK_V1 (int RELIABLE_ACK_SIZE) False w;
          Some (True, w) }
      else Some (True, w))"

definition next_wakeup :: "int \<Rightarrow> tls_options \<Rightarrow> tls_work \<Rightarrow> tls_work" where
  "next_wakeup now opt w =
     (let ks = w_ks w;
          e = w_wakeup w;
          e = (if ks_state ks \<ge> S_INITIAL \<or> ks_state ks = S_ERROR_PRE
               then let e = compute_earliest_wakeup e (reliable_send_timeout now (ks_send ks))
                    in if ks_must_negotiate ks \<noteq> 0 then compute_earliest_wakeup e (ks_must_negotiate ks - now) else e
               else e);
          e = (if ks_established ks \<noteq> 0 \<and> to_renegotiate_seconds opt \<noteq> 0
               then compute_earliest_wakeup e (ks_established ks + to_renegotiate_seconds opt - now) else e)
      in w\<lparr>w_wakeup := e\<rparr>)"

text \<open>\<open>inp\<close> gives the inputs of the rounds of the loop, \<open>fin\<close> the time and random bytes after it.\<close>

definition tls_process ::
    "tls_lib \<Rightarrow> tls_options \<Rightarrow> int \<Rightarrow> (nat \<Rightarrow> tls_input) \<Rightarrow> tls_input \<Rightarrow> tls_work \<Rightarrow> (bool \<times> tls_work) option" where
  "tls_process lb opt now inp fin w = do {
     c_assert (ks_state (w_ks w) \<noteq> S_UNDEF);
     c_assert (ks_state (w_ks w) \<noteq> S_ERROR);
     c_assert (session_id_defined (ts_session_id (w_session w)));
     s \<leftarrow> (if ks_state (w_ks w) \<ge> S_GENERATED_KEYS \<and> should_trigger_renegotiation now opt (w_ks w)
           then key_state_soft_reset now opt (w_session w) else Some (w_session w));
     (dies, wakeup) \<leftarrow> lame_duck_must_die now s (w_wakeup w);
     let s = (if dies then s\<lparr>ts_lame_duck := key_state_free (ts_lame_duck s) True\<rparr> else s);
     let w = w\<lparr>w_session := s, w_wakeup := wakeup\<rparr>;
     (case tls_process_loop LOOP_FUEL lb opt inp 0 w of
        Done True w \<Rightarrow> Some (False, w)
      | Done False w \<Rightarrow> do {
          (ok, w) \<leftarrow> send_acks lb opt fin w;
          (if \<not> ok then Some (False, w)
           else do {
             let w = next_wakeup (in_now fin) opt w;
             Some (if w_wakeup w \<le> 0 then (True, w\<lparr>w_wakeup := 1\<rparr>) else (len (w_to_link w) \<noteq> 0, w)) }) }
      | _ \<Rightarrow> None)
   }"

end
