(* ===== verification/Tls_Handshake.thy ===== *)
theory Tls_Handshake
  imports Tls_Session
begin

text \<open>
  Theorems about driving one session (\<^verbatim>\<open>tls_process_state\<close> and the loop of \<^verbatim>\<open>tls_process\<close>): the loop ends
  whatever the TLS library answers, and a session moves through the handshake in the documented order. Both are
  contracts of the blocks of \<^verbatim>\<open>tls_process_state\<close> that are closed under composition, stated once as a locale.
\<close>

section \<open>The processing loop ends\<close>

text \<open>Elimination of the steps of a run that succeeds.\<close>

lemma bind_SomeE:
  assumes "Option.bind m f = Some y"
  obtains x where "m = Some x" "f x = Some y"
  using assms by (auto simp: bind_eq_Some_conv)

lemma prod_SomeE:
  assumes "(case p of (x, y) \<Rightarrow> f x y) = Some z"
  obtains x y where "p = (x, y)" "f x y = Some z"
  using assms by (cases p) simp

lemma Some_eqE:
  assumes "Some x = Some y"
  obtains "x = y"
  using assms by simp

lemmas run_elims = bind_SomeE prod_SomeE Some_eqE Pair_inject

text \<open>
  A contract of the blocks that is closed under composition holds for a run of them. \<open>contract w r\<close> relates the
  state before to the outcome.
\<close>

locale block_contract =
  fixes contract :: "tls_work \<Rightarrow> outcome \<Rightarrow> bool"
    and blocks :: "block list"
  assumes contract_refl: "contract w (Go w)"
    and contract_trans: "contract w (Go w') \<Longrightarrow> contract w' r \<Longrightarrow> contract w r"
    and contract_block: "b \<in> set blocks \<Longrightarrow> b w = Some r \<Longrightarrow> contract w r"
begin

lemma run_sublist:
  assumes "set bs \<subseteq> set blocks" "run_blocks bs w = Some r"
  shows "contract w r"
  using assms
proof (induction bs arbitrary: w)
  case Nil
  then show ?case by (auto intro: contract_refl)
next
  case (Cons b bs)
  from Cons.prems(2) obtain r1 where r1: "b w = Some r1" by (auto split: option.splits)
  with Cons.prems(1) have c: "contract w r1" by (auto intro: contract_block)
  show ?case
  proof (cases r1)
    case (Go w')
    with r1 Cons.prems have "run_blocks bs w' = Some r" by simp
    with Cons.IH Cons.prems(1) have "contract w' r" by simp
    with c Go show ?thesis by (blast intro: contract_trans)
  qed (use r1 c Cons.prems in auto)
qed

lemma run_contract: "run_blocks blocks w = Some r \<Longrightarrow> contract w r"
  by (rule run_sublist) auto

end

text \<open>Which entries of an array are active.\<close>

definition act :: "reliable \<Rightarrow> bool list" where
  "act rel = map e_active (r_array rel)"

definition n_active :: "reliable \<Rightarrow> nat" where "n_active rel = length (filter (\<lambda>b. b) (act rel))"
definition n_free :: "reliable \<Rightarrow> nat" where "n_free rel = length (filter Not (act rel))"

lemma act_upd_entry: "act (upd_entry i f rel) = (if i < length (r_array rel) then (act rel)[i := e_active (f (r_array rel ! i))] else act rel)"
  by (simp add: act_def upd_entry_def map_update list_update_beyond)

lemma act_upd_entry_same: "e_active (f (r_array rel ! i)) = e_active (r_array rel ! i) \<Longrightarrow> act (upd_entry i f rel) = act rel"
  by (simp add: act_upd_entry) (metis act_def list_update_id nth_map)

lemma filter_upd_less:
  "i < length bs \<Longrightarrow> P (bs ! i) \<Longrightarrow> \<not> P b \<Longrightarrow> length (filter P (bs[i := b])) < length (filter P bs)"
proof (induction bs arbitrary: i)
  case (Cons x xs)
  then show ?case by (cases i) auto
qed simp

lemma n_free_mono: "act rel' = act rel \<Longrightarrow> n_free rel' = n_free rel"
  by (simp add: n_free_def)

lemma get_buf_act:
  assumes "reliable_get_buf rel = Some (r, rel')"
  shows "act rel' = act rel" "\<And>i. r = Some i \<Longrightarrow> i < length (r_array rel') \<and> \<not> e_active (r_array rel' ! i)"
    "length (r_array rel') = length (r_array rel)" "r_packet_id rel' = r_packet_id rel"
proof -
  have *: "(r = None \<and> rel' = rel) \<or> (\<exists>k b. r = Some k \<and> k < length (r_array rel) \<and> \<not> e_active (r_array rel ! k)
      \<and> rel' = upd_entry k (\<lambda>e. e\<lparr>e_buf := b\<rparr>) rel)"
  proof (cases "find_idx (\<lambda>e. \<not> e_active e) (r_array rel)")
    case None
    then show ?thesis using assms by (simp add: reliable_get_buf_def)
  next
    case (Some k)
    with assms have "r = Some k \<and> (\<exists>b. rel' = upd_entry k (\<lambda>e. e\<lparr>e_buf := b\<rparr>) rel)"
      by (simp add: reliable_get_buf_def bind_eq_Some_conv Let_def split: prod.splits) blast
    then show ?thesis using find_idx_Some [OF Some] by blast
  qed
  then show "act rel' = act rel" by (auto simp: act_upd_entry_same)
  show "length (r_array rel') = length (r_array rel)" "r_packet_id rel' = r_packet_id rel" using * by auto
  show "\<And>i. r = Some i \<Longrightarrow> i < length (r_array rel') \<and> \<not> e_active (r_array rel' ! i)" using * by auto
qed

lemma get_output_act:
  assumes "reliable_get_buf_output_sequenced rel = Some (r, rel')"
  shows "act rel' = act rel" "\<And>i. r = Some i \<Longrightarrow> i < length (r_array rel') \<and> \<not> e_active (r_array rel' ! i)"
    "length (r_array rel') = length (r_array rel)" "r_packet_id rel' = r_packet_id rel"
proof -
  have *: "reliable_get_buf rel = Some (r, rel') \<or> (r = None \<and> rel' = rel)"
    using assms by (auto simp: reliable_get_buf_output_sequenced_def split: option.splits if_splits)
  then show "act rel' = act rel" using get_buf_act(1) by blast
  show "\<And>i. r = Some i \<Longrightarrow> i < length (r_array rel') \<and> \<not> e_active (r_array rel' ! i)" using * get_buf_act(2) by blast
  show "length (r_array rel') = length (r_array rel)" using * get_buf_act(3) by blast
  show "r_packet_id rel' = r_packet_id rel" using * get_buf_act(4) by blast
qed

lemma act_length [simp]: "length (act rel) = length (r_array rel)"
  by (simp add: act_def)

lemma mark_outgoing_act:
  assumes "reliable_mark_active_outgoing rel i op = Some rel'"
  shows "i < length (r_array rel)" "act rel' = (act rel)[i := True]" "length (r_array rel') = length (r_array rel)"
  using assms by (auto simp: reliable_mark_active_outgoing_def act_def upd_entry_def map_update c_assert_def bind_eq_Some_conv Let_def split: if_splits)

lemma mark_deleted_act:
  assumes "reliable_mark_deleted rel i = Some rel'"
  shows "i < length (r_array rel)" "act rel' = (act rel)[i := False]" "length (r_array rel') = length (r_array rel)"
  using assms by (auto simp: reliable_mark_deleted_def act_def upd_entry_def map_update c_assert_def bind_eq_Some_conv Let_def split: if_splits)

lemma mark_outgoing_free:
  assumes "reliable_mark_active_outgoing rel i op = Some rel'" "\<not> e_active (r_array rel ! i)"
  shows "n_free rel' < n_free rel"
proof -
  note m = mark_outgoing_act [OF assms(1)]
  have "Not ((act rel) ! i)" using m(1) assms(2) by (simp add: act_def)
  then show ?thesis using filter_upd_less [of i "act rel" Not True] m by (simp add: n_free_def)
qed

lemma n_active_upd_le: "length (filter (\<lambda>b. b) (bs[i := False])) \<le> length (filter (\<lambda>b. b) bs)"
proof (induction bs arbitrary: i)
  case (Cons x xs)
  then show ?case by (cases i) (auto simp: le_SucI)
qed simp

lemma mark_deleted_active:
  assumes "reliable_mark_deleted rel i = Some rel'"
  shows "n_active rel' \<le> n_active rel" "e_active (r_array rel ! i) \<Longrightarrow> n_active rel' < n_active rel"
proof -
  note m = mark_deleted_act [OF assms]
  show "n_active rel' \<le> n_active rel" using m by (simp add: n_active_def n_active_upd_le)
  assume "e_active (r_array rel ! i)"
  then have "(act rel) ! i" using m(1) by (simp add: act_def)
  then show "n_active rel' < n_active rel" using filter_upd_less [of i "act rel" "\<lambda>b. b" False] m by (simp add: n_active_def)
qed

text \<open>
  The work a session can still do without new packets: steps of the handshake, stored packets, free entries for
  packets to send, and the two plaintext buffers. The position of a state in the handshake depends on the role.
\<close>

definition hs_pos :: "bool \<Rightarrow> int \<Rightarrow> int" where
  "hs_pos server st = (if server \<and> st = S_SENT_KEY then S_GOT_KEY else if server \<and> st = S_GOT_KEY then S_SENT_KEY else st)"

definition load :: "bool \<Rightarrow> key_state \<Rightarrow> nat" where
  "load server ks = 3 * nat (S_GENERATED_KEYS - hs_pos server (ks_state ks)) + n_active (ks_rec ks) + n_free (ks_send ks)
     + (if len (ks_plaintext_read ks) = 0 then 1 else 0) + (if len (ks_plaintext_write ks) \<noteq> 0 then 1 else 0)"

definition makes_progress :: "bool \<Rightarrow> tls_work \<Rightarrow> outcome \<Rightarrow> bool" where
  "makes_progress server w r =
     (case r of
        Go w' \<Rightarrow> load server (w_ks w') \<le> load server (w_ks w)
           \<and> (w_continue w' \<longrightarrow> w_continue w \<or> load server (w_ks w') < load server (w_ks w))
      | Leave c w' \<Rightarrow> \<not> c
      | Err w' \<Rightarrow> True)"

lemma w_simps [simp]:
  "w_ks (upd_ks f w) = f (w_ks w)" "w_ks (set_state st w) = (w_ks w)\<lparr>ks_state := st\<rparr>" "w_ks (set_continue w) = w_ks w"
  "w_continue (upd_ks f w) = w_continue w" "w_continue (set_state st w) = w_continue w" "w_continue (set_continue w) = True"
  "w_continue (upd_session g w) = w_continue w" "w_ks (w\<lparr>w_continue := b\<rparr>) = w_ks w" "w_ks (w\<lparr>w_wakeup := k\<rparr>) = w_ks w"
  "w_ks (w\<lparr>w_multi_state := ms\<rparr>) = w_ks w" "w_ks (w\<lparr>w_peer_info := pinfo\<rparr>) = w_ks w" "w_ks (w\<lparr>w_deauth := d\<rparr>) = w_ks w"
  "w_ks (w\<lparr>w_to_link := b'\<rparr>) = w_ks w" "w_ks (w\<lparr>w_to_link_addr := a\<rparr>) = w_ks w" "w_ks (w\<lparr>w_to_link_src := sr\<rparr>) = w_ks w"
  by (simp_all add: w_ks_def upd_ks_def upd_session_def set_state_def set_continue_def)

lemma split_round_free:
  assumes "split_round s m ks tmp = Some (ks', tmp')"
  shows "\<exists>send. ks' = ks\<lparr>ks_send := send\<rparr> \<and> length (r_array send) = length (r_array (ks_send ks)) \<and> n_free send < n_free (ks_send ks)"
proof -
  from assms obtain i rel b rel' opcode where
    g: "reliable_get_buf_output_sequenced (ks_send ks) = Some (Some i, rel)"
    and m: "reliable_mark_active_outgoing (upd_entry i (\<lambda>e. e\<lparr>e_buf := b\<rparr>) rel) i opcode = Some rel'"
    and r: "ks' = ks\<lparr>ks_send := rel'\<rparr>"
    unfolding split_round_def Let_def by (elim run_elims) simp
  note ga = get_output_act [OF g]
  have i: "i < length (r_array rel)" "\<not> e_active (r_array rel ! i)" using ga(2) [of i] by auto
  have "n_free rel' < n_free (upd_entry i (\<lambda>e. e\<lparr>e_buf := b\<rparr>) rel)"
    by (rule mark_outgoing_free [OF m]) (simp add: upd_entry_def i)
  also have "\<dots> = n_free (ks_send ks)" using ga(1) by (simp add: n_free_def act_upd_entry_same)
  finally have lt: "n_free rel' < n_free (ks_send ks)" .
  have "length (r_array rel') = length (r_array (ks_send ks))" using mark_outgoing_act(3) [OF m] ga(3) by simp
  with lt r show ?thesis by blast
qed

lemma split_ciphertext_free:
  "split_ciphertext n s m ks tmp = Some ks' \<Longrightarrow>
     (\<exists>send. ks' = ks\<lparr>ks_send := send\<rparr> \<and> length (r_array send) = length (r_array (ks_send ks)) \<and> n_free send \<le> n_free (ks_send ks)
       \<and> (len tmp > 0 \<longrightarrow> n_free send < n_free (ks_send ks)))"
proof (induction n arbitrary: ks tmp)
  case 0
  then show ?case by (intro exI [of _ "ks_send ks"]) (simp split: if_splits)
next
  case (Suc n)
  show ?case
  proof (cases "len tmp > 0")
    case False
    with Suc.prems show ?thesis by (intro exI [of _ "ks_send ks"]) simp
  next
    case True
    with Suc.prems obtain ks1 tmp1 where r: "split_round s m ks tmp = Some (ks1, tmp1)" "split_ciphertext n s m ks1 tmp1 = Some ks'"
      by (auto simp: bind_eq_Some_conv)
    from split_round_free [OF r(1)] obtain rel where
      1: "ks1 = ks\<lparr>ks_send := rel\<rparr>" "length (r_array rel) = length (r_array (ks_send ks))" "n_free rel < n_free (ks_send ks)" by blast
    from Suc.IH [OF r(2)] obtain rel' where
      2: "ks' = ks1\<lparr>ks_send := rel'\<rparr>" "length (r_array rel') = length (r_array (ks_send ks1))" "n_free rel' \<le> n_free (ks_send ks1)" by blast
    from 1(3) 2(3) have "n_free rel' < n_free (ks_send ks)" by (simp add: 1(1))
    then show ?thesis by (intro exI [of _ rel']) (simp add: 1 2 [unfolded 1])
  qed
qed


lemma bio_read_status:
  assumes "bio_read bio buf = Some (status, buf')" "len buf = 0"
  shows "status = 1 \<longleftrightarrow> len buf' \<noteq> 0" "status = 1 \<Longrightarrow> 0 < len buf'"
  using assms by (auto simp: bio_read_def Let_def bind_eq_Some_conv simp del: take_eq_Nil take_eq_Nil2 length_take split: option.splits if_splits)

lemma write_plaintext_status:
  assumes "key_state_write_ciphertext bio buf = Some (status, buf')"
  shows "status = 1 \<Longrightarrow> len buf' = 0" "status \<noteq> 1 \<Longrightarrow> buf' = buf"
  using assms by (auto simp: key_state_write_ciphertext_def bio_write_post_def bind_eq_Some_conv split: if_splits)

lemma alloc_buf_gc_len: "alloc_buf_gc junk n = Some b \<Longrightarrow> len b = 0"
  by (auto simp: alloc_buf_gc_def bind_eq_Some_conv Let_def)

text \<open>What sending ciphertext changes.\<close>

lemma write_outgoing_free:
  assumes "write_outgoing_tls_ciphertext lb opt bio w = Some (ok, w')"
  shows "\<exists>send. w' = (upd_ks (\<lambda>ks. ks\<lparr>ks_send := send\<rparr>) w)\<lparr>w_continue := w_continue w'\<rparr>
     \<and> length (r_array send) = length (r_array (ks_send (w_ks w))) \<and> n_free send \<le> n_free (ks_send (w_ks w))
     \<and> (w_continue w' \<longrightarrow> w_continue w \<or> n_free send < n_free (ks_send (w_ks w)))"
proof -
  have same: "w = (upd_ks (\<lambda>ks. ks\<lparr>ks_send := ks_send (w_ks w)\<rparr>) w)\<lparr>w_continue := w_continue w\<rparr>"
    by (simp add: upd_ks_def upd_session_def w_ks_def)
  show ?thesis
  proof (cases "w' = w")
    case True
    show ?thesis by (rule exI [of _ "ks_send (w_ks w)"]) (use True same in auto)
  next
    case False
    with assms obtain maxp maxlen tmp0 tmp ks where
      t: "alloc_buf_gc (tl_junk lb) (nat maxlen) = Some tmp0" "bio_read bio tmp0 = Some (1, tmp)"
      and sp: "split_ciphertext (length (r_array (ks_send (w_ks w)))) (w_session w) maxp (w_ks w) tmp = Some ks"
      and w': "w' = set_continue (upd_ks (\<lambda>_. ks) w)"
      by (auto simp: write_outgoing_tls_ciphertext_def Let_def bind_eq_Some_conv split: if_splits)
    have "0 < len tmp" using bio_read_status(2) [OF t(2) alloc_buf_gc_len [OF t(1)]] by simp
    with split_ciphertext_free [OF sp] obtain send where
      s: "ks = (w_ks w)\<lparr>ks_send := send\<rparr>" "length (r_array send) = length (r_array (ks_send (w_ks w)))" "n_free send < n_free (ks_send (w_ks w))"
      by blast
    have "w' = (upd_ks (\<lambda>ks. ks\<lparr>ks_send := send\<rparr>) w)\<lparr>w_continue := w_continue w'\<rparr>"
      by (simp add: w' s upd_ks_def upd_session_def w_ks_def set_continue_def)
    with s(2,3) show ?thesis by (intro exI [of _ send]) auto
  qed
qed

lemma check_outgoing_free:
  assumes "check_outgoing_ciphertext lb opt bio w = Some (ok, w')"
  shows "\<exists>send. w' = (upd_ks (\<lambda>ks. ks\<lparr>ks_send := send\<rparr>) w)\<lparr>w_continue := w_continue w'\<rparr>
     \<and> length (r_array send) = length (r_array (ks_send (w_ks w))) \<and> n_free send \<le> n_free (ks_send (w_ks w))
     \<and> (w_continue w' \<longrightarrow> w_continue w \<or> n_free send < n_free (ks_send (w_ks w)))"
proof (cases "ks_state (w_ks w) \<ge> S_START")
  case False
  with assms have "w' = w" by (simp add: check_outgoing_ciphertext_def)
  then show ?thesis by (intro exI [of _ "ks_send (w_ks w)"]) (simp add: upd_ks_def upd_session_def w_ks_def)
next
  case True
  with assms obtain i rel where g: "reliable_get_buf_output_sequenced (ks_send (w_ks w)) = Some (i, rel)"
    and r: "(if i = None then Some (True, upd_ks (\<lambda>ks. ks\<lparr>ks_send := rel\<rparr>) w)
       else write_outgoing_tls_ciphertext lb opt bio (upd_ks (\<lambda>ks. ks\<lparr>ks_send := rel\<rparr>) w)) = Some (ok, w')"
    unfolding check_outgoing_ciphertext_def Let_def by (auto elim!: run_elims)
  note ga = get_output_act [OF g]
  have f: "n_free rel = n_free (ks_send (w_ks w))" using ga(1) by (rule n_free_mono)
  show ?thesis
  proof (cases i)
    case None
    with r have "w' = upd_ks (\<lambda>ks. ks\<lparr>ks_send := rel\<rparr>) w" by simp
    then show ?thesis using f ga(3) by (intro exI [of _ rel]) (simp add: upd_ks_def upd_session_def)
  next
    case (Some j)
    with r have "write_outgoing_tls_ciphertext lb opt bio (upd_ks (\<lambda>ks. ks\<lparr>ks_send := rel\<rparr>) w) = Some (ok, w')" by simp
    from write_outgoing_free [OF this] obtain send where
      s: "w' = (upd_ks (\<lambda>ks. ks\<lparr>ks_send := send\<rparr>) (upd_ks (\<lambda>ks. ks\<lparr>ks_send := rel\<rparr>) w))\<lparr>w_continue := w_continue w'\<rparr>"
        "length (r_array send) = length (r_array rel)" "n_free send \<le> n_free rel" "w_continue w' \<longrightarrow> w_continue w \<or> n_free send < n_free rel"
      by auto
    have "upd_ks (\<lambda>ks. ks\<lparr>ks_send := send\<rparr>) (upd_ks (\<lambda>ks. ks\<lparr>ks_send := rel\<rparr>) w) = upd_ks (\<lambda>ks. ks\<lparr>ks_send := send\<rparr>) w"
      by (simp add: upd_ks_def upd_session_def)
    with s f ga(3) show ?thesis by (intro exI [of _ send]) simp
  qed
qed


text \<open>Each block makes progress.\<close>

lemma progress_initial: "blk_initial opt inp w = Some r \<Longrightarrow> makes_progress server w r"
proof (cases "ks_state (w_ks w) = S_INITIAL")
  case True
  assume "blk_initial opt inp w = Some r"
  with True obtain ok ks where p: "session_move_pre_start (in_now inp) opt False (w_ks w) = Some (ok, ks)"
    and r: "r = Go ((upd_ks (\<lambda>_. ks) w)\<lparr>w_continue := ok\<rparr>)"
    unfolding blk_initial_def by (auto elim!: run_elims)
  from p obtain i rel where g: "reliable_get_buf_output_sequenced (ks_send (w_ks w)) = Some (i, rel)"
    unfolding session_move_pre_start_def by (auto elim!: run_elims)
  note ga = get_output_act [OF g]
  have f: "n_free rel = n_free (ks_send (w_ks w))" using ga(1) by (rule n_free_mono)
  show ?thesis
  proof (cases i)
    case None
    with p g have "ok = False" "ks = (w_ks w)\<lparr>ks_send := rel\<rparr>" by (auto simp: session_move_pre_start_def)
    with r f show ?thesis by (simp add: makes_progress_def load_def)
  next
    case (Some j)
    from p g Some obtain rel' where m: "reliable_mark_active_outgoing rel j (ks_initial_opcode (w_ks w)) = Some rel'"
      and ks: "ok = True" "ks_send ks = rel'" "ks_state ks = S_PRE_START" "ks_rec ks = ks_rec (w_ks w)"
        "ks_plaintext_read ks = ks_plaintext_read (w_ks w)" "ks_plaintext_write ks = ks_plaintext_write (w_ks w)"
      by (auto simp: session_move_pre_start_def bind_eq_Some_conv)
    have "n_free rel' < n_free rel" by (rule mark_outgoing_free [OF m]) (use ga(2) [OF Some] in auto)
    with r f ks True show ?thesis by (simp add: makes_progress_def load_def hs_pos_def state_defs)
  qed
qed (auto simp: blk_initial_def makes_progress_def)

lemma progress_timeout: "blk_timeout inp w = Some r \<Longrightarrow> makes_progress server w r"
  by (auto simp: blk_timeout_def makes_progress_def split: if_splits)

lemma progress_start: "blk_start w = Some r \<Longrightarrow> makes_progress server w r"
  by (auto simp: blk_start_def makes_progress_def load_def hs_pos_def state_defs split: if_splits)

lemma progress_active: "blk_active opt inp w = Some r \<Longrightarrow> makes_progress (to_server opt) w r"
  by (auto simp: blk_active_def session_move_active_def makes_progress_def load_def hs_pos_def state_defs Let_def split: if_splits)

lemma progress_send: "blk_send lb opt inp w = Some r \<Longrightarrow> makes_progress server w r"
  unfolding blk_send_def Let_def by (auto simp: makes_progress_def elim!: run_elims split: if_splits)

lemma progress_error_pre: "blk_error_pre w = Some r \<Longrightarrow> makes_progress server w r"
  by (auto simp: blk_error_pre_def makes_progress_def split: if_splits)

lemma early_neg_active:
  assumes "parse_early_negotiation_tlvs rel i wkc = Some (ok, wkc', rel')"
  shows "n_active rel' \<le> n_active rel" "length (r_array rel') = length (r_array rel)"
proof -
  from assms obtain b where
    c: "(if ok then reliable_mark_deleted (upd_entry i (\<lambda>e. e\<lparr>e_buf := b\<rparr>) rel) i = Some rel' else rel' = upd_entry i (\<lambda>e. e\<lparr>e_buf := b\<rparr>) rel)"
    unfolding parse_early_negotiation_tlvs_def Let_def by (auto elim!: run_elims split: if_splits)
  have u: "n_active (upd_entry i (\<lambda>e. e\<lparr>e_buf := b\<rparr>) rel) = n_active rel" by (simp add: n_active_def act_upd_entry_same)
  show "n_active rel' \<le> n_active rel" "length (r_array rel') = length (r_array rel)"
    using c u mark_deleted_active(1) mark_deleted_act(3) by (fastforce split: if_splits)+
qed

lemma read_ciphertext_active:
  assumes "read_incoming_tls_ciphertext bio rel i = Some (ok, taken, rel')"
  shows "n_active rel' \<le> n_active rel" "taken \<Longrightarrow> e_active (r_array rel ! i) \<Longrightarrow> n_active rel' < n_active rel"
    "length (r_array rel') = length (r_array rel)"
proof -
  from assms obtain b where
    c: "(if taken then reliable_mark_deleted (upd_entry i (\<lambda>e. e\<lparr>e_buf := b\<rparr>) rel) i = Some rel' else rel' = upd_entry i (\<lambda>e. e\<lparr>e_buf := b\<rparr>) rel)"
    unfolding read_incoming_tls_ciphertext_def Let_def by (auto elim!: run_elims split: if_splits)
  have u: "n_active (upd_entry i (\<lambda>e. e\<lparr>e_buf := b\<rparr>) rel) = n_active rel" by (simp add: n_active_def act_upd_entry_same)
  show "n_active rel' \<le> n_active rel" "length (r_array rel') = length (r_array rel)"
    using c u mark_deleted_active(1) mark_deleted_act(3) by (fastforce split: if_splits)+
  assume t: "taken" "e_active (r_array rel ! i)"
  then have m: "reliable_mark_deleted (upd_entry i (\<lambda>e. e\<lparr>e_buf := b\<rparr>) rel) i = Some rel'" using c by simp
  have "e_active (r_array (upd_entry i (\<lambda>e. e\<lparr>e_buf := b\<rparr>) rel) ! i)"
    using t(2) mark_deleted_act(1) [OF m] by (simp add: upd_entry_def)
  from mark_deleted_active(2) [OF m this] u show "n_active rel' < n_active rel" by simp
qed

lemma progress_read_ciphertext: "blk_read_ciphertext inp w = Some r \<Longrightarrow> makes_progress server w r"
proof (cases "reliable_get_entry_sequenced (ks_rec (w_ks w))")
  case (Some i)
  assume a: "blk_read_ciphertext inp w = Some r"
  have act: "e_active (r_array (ks_rec (w_ks w)) ! i)"
    using find_idx_Some [OF Some [unfolded reliable_get_entry_sequenced_def]] by simp
  show ?thesis
  proof (cases "e_packet_id (r_array (ks_rec (w_ks w)) ! i) = 0 \<and> is_hard_reset_method2 (e_opcode (r_array (ks_rec (w_ks w)) ! i))")
    case True
    with a Some obtain ok wkc rel where p: "parse_early_negotiation_tlvs (ks_rec (w_ks w)) i (ks_resend_wkc (w_ks w)) = Some (ok, wkc, rel)"
      and r: "r = (if ok then Go (upd_ks (\<lambda>ks. ks\<lparr>ks_rec := rel, ks_resend_wkc := wkc\<rparr>) w) else Err (upd_ks (\<lambda>ks. ks\<lparr>ks_rec := rel, ks_resend_wkc := wkc\<rparr>) w))"
      unfolding blk_read_ciphertext_def Let_def by (auto elim!: run_elims)
    then show ?thesis using early_neg_active [OF p] by (simp add: makes_progress_def load_def)
  next
    case False
    with a Some obtain ok taken rel where p: "read_incoming_tls_ciphertext (in_write_ciphertext inp) (ks_rec (w_ks w)) i = Some (ok, taken, rel)"
      and r: "r = (if \<not> ok then Err (upd_ks (\<lambda>ks. ks\<lparr>ks_rec := rel\<rparr>) w) else if taken then Go (set_continue (upd_ks (\<lambda>ks. ks\<lparr>ks_rec := rel\<rparr>) w)) else Go (upd_ks (\<lambda>ks. ks\<lparr>ks_rec := rel\<rparr>) w))"
      unfolding blk_read_ciphertext_def Let_def by (auto elim!: run_elims)
    note ac = read_ciphertext_active [OF p]
    show ?thesis using ac(1) ac(2) [OF _ act] r by (simp add: makes_progress_def load_def)
  qed
qed (auto simp: blk_read_ciphertext_def makes_progress_def)


lemma progress_read_plaintext: "blk_read_plaintext inp w = Some r \<Longrightarrow> makes_progress server w r"
proof (cases "len (ks_plaintext_read (w_ks w)) = 0")
  case True
  assume "blk_read_plaintext inp w = Some r"
  with True obtain b0 status b where i: "buf_init_dowork (ks_plaintext_read (w_ks w)) 0 = (True, b0)"
    and b: "bio_read (in_read_plaintext inp) b0 = Some (status, b)"
    and r: "r = (if status = - 1 then Err (upd_ks (\<lambda>ks. ks\<lparr>ks_plaintext_read := b\<rparr>) w)
      else if status = 1 then Go ((set_continue (upd_ks (\<lambda>ks. ks\<lparr>ks_plaintext_read := b\<rparr>) w))\<lparr>w_wakeup := 0\<rparr>)
      else Go (upd_ks (\<lambda>ks. ks\<lparr>ks_plaintext_read := b\<rparr>) w))"
    unfolding blk_read_plaintext_def Let_def by (auto elim!: run_elims)
  have "len b0 = 0" using i by (auto simp: buf_init_dowork_def split: if_splits)
  from bio_read_status [OF b this] r True show ?thesis by (auto simp: makes_progress_def load_def)
qed (auto simp: blk_read_plaintext_def makes_progress_def)

lemma progress_send_key: "blk_send_key opt inp w = Some r \<Longrightarrow> makes_progress (to_server opt) w r"
proof (cases "len (ks_plaintext_write (w_ks w)) = 0
    \<and> (ks_state (w_ks w) = S_START \<and> \<not> to_server opt \<or> ks_state (w_ks w) = S_GOT_KEY \<and> to_server opt)")
  case True
  assume "blk_send_key opt inp w = Some r"
  with True obtain ok src b where
    r: "r = (let w' = upd_ks (\<lambda>ks. ks\<lparr>ks_key_src := src, ks_plaintext_write := b\<rparr>) w in if ok then Go (set_continue (set_state S_SENT_KEY w')) else Err w')"
    unfolding blk_send_key_def by (auto elim!: run_elims simp: Let_def)
  with True show ?thesis by (auto simp: makes_progress_def load_def hs_pos_def state_defs Let_def)
qed (auto simp: blk_send_key_def makes_progress_def split: if_splits)

lemma deauthenticate_ks [simp]: "ts_primary (deauthenticate_session s) = (ts_primary s)\<lparr>ks_authenticated := KS_AUTH_FALSE\<rparr>"
  by (simp add: deauthenticate_session_def)

lemma w_ks_upd_session: "w_ks (upd_session f w) = ts_primary (f (w_session w))"
  by (simp add: w_ks_def upd_session_def)

text \<open>What receiving the key message changes, other than the buffers of the session.\<close>

lemma receive_key_cases:
  assumes "blk_receive_key opt inp w = Some r"
  obtains (skip) "r = Go w"
  | (read) ok m where
      "ks_state (w_ks w) = S_SENT_KEY \<and> \<not> to_server opt \<or> ks_state (w_ks w) = S_START \<and> to_server opt"
      "key_method_2_read (in_auth inp) (to_server opt) (ks_key_src (w_ks w)) (w_peer_info w) (ks_plaintext_read (w_ks w)) = Some (ok, m)"
      "r = (let w = upd_session (\<lambda>s. if km_deauth m then deauthenticate_session s else s) w;
                w = upd_ks (\<lambda>ks. ks\<lparr>ks_key_src := km_key_src m, ks_authenticated := km_auth m, ks_plaintext_read := km_buf m\<rparr>) w;
                w = w\<lparr>w_peer_info := km_peer_info m, w_deauth := (w_deauth w \<or> km_deauth m)\<rparr>
            in if ok then Go (set_continue (set_state S_GOT_KEY w)) else Err w)"
proof (cases "len (ks_plaintext_read (w_ks w)) \<noteq> 0
    \<and> (ks_state (w_ks w) = S_SENT_KEY \<and> \<not> to_server opt \<or> ks_state (w_ks w) = S_START \<and> to_server opt)")
  case True
  with assms obtain ok m where
    m: "key_method_2_read (in_auth inp) (to_server opt) (ks_key_src (w_ks w)) (w_peer_info w) (ks_plaintext_read (w_ks w)) = Some (ok, m)"
    and r: "r = (let w = upd_session (\<lambda>s. if km_deauth m then deauthenticate_session s else s) w;
                w = upd_ks (\<lambda>ks. ks\<lparr>ks_key_src := km_key_src m, ks_authenticated := km_auth m, ks_plaintext_read := km_buf m\<rparr>) w;
                w = w\<lparr>w_peer_info := km_peer_info m, w_deauth := (w_deauth w \<or> km_deauth m)\<rparr>
            in if ok then Go (set_continue (set_state S_GOT_KEY w)) else Err w)"
    unfolding blk_receive_key_def if_P [OF True] by (elim run_elims) (simp add: Let_def)
  from True show ?thesis by (intro read [OF _ m r]) blast
next
  case False
  with assms have "r = Go w" by (simp add: blk_receive_key_def split: if_splits)
  then show ?thesis by (rule skip)
qed

lemma progress_receive_key:
  assumes "blk_receive_key opt inp w = Some r"
  shows "makes_progress (to_server opt) w r"
  using assms
proof (cases rule: receive_key_cases)
  case skip
  then show ?thesis by (simp add: makes_progress_def)
next
  case (read ok m)
  then show ?thesis
    by (auto simp: makes_progress_def load_def hs_pos_def state_defs Let_def w_ks_upd_session w_ks_def [symmetric])
qed

lemma progress_write_plaintext: "blk_write_plaintext inp w = Some r \<Longrightarrow> makes_progress server w r"
proof (cases "len (ks_plaintext_write (w_ks w)) \<noteq> 0")
  case True
  assume "blk_write_plaintext inp w = Some r"
  with True obtain status b where b: "key_state_write_ciphertext (in_write_plaintext inp) (ks_plaintext_write (w_ks w)) = Some (status, b)"
    and r: "r = (let w' = upd_ks (\<lambda>ks. ks\<lparr>ks_plaintext_write := b\<rparr>) w
      in if status = - 1 then Err w' else if status = 1 then Go (set_continue w') else Go w')"
    unfolding blk_write_plaintext_def by (auto elim!: run_elims simp: Let_def)
  from write_plaintext_status [OF b] r True show ?thesis by (auto simp: makes_progress_def load_def Let_def)
qed (auto simp: blk_write_plaintext_def makes_progress_def)

lemma progress_write_ciphertext: "blk_write_ciphertext lb opt inp w = Some r \<Longrightarrow> makes_progress server w r"
proof -
  assume "blk_write_ciphertext lb opt inp w = Some r"
  then obtain ok w' where c: "check_outgoing_ciphertext lb opt (in_read_ciphertext inp) w = Some (ok, w')" and r: "r = (if ok then Go w' else Err w')"
    unfolding blk_write_ciphertext_def by (elim run_elims) simp
  from check_outgoing_free [OF c] obtain send where s: "w' = (upd_ks (\<lambda>ks. ks\<lparr>ks_send := send\<rparr>) w)\<lparr>w_continue := w_continue w'\<rparr>"
    "n_free send \<le> n_free (ks_send (w_ks w))" "w_continue w' \<longrightarrow> w_continue w \<or> n_free send < n_free (ks_send (w_ks w))" by blast
  have k: "w_ks w' = (w_ks w)\<lparr>ks_send := send\<rparr>" by (subst s(1)) simp
  show ?thesis using r s(2,3) by (auto simp: makes_progress_def load_def k)
qed

interpretation progress: block_contract "makes_progress (to_server opt)" "process_blocks lb opt inp"
  for lb opt inp
proof
  fix w w' r b
  show "makes_progress (to_server opt) w (Go w)" by (simp add: makes_progress_def)
  show "makes_progress (to_server opt) w (Go w') \<Longrightarrow> makes_progress (to_server opt) w' r \<Longrightarrow> makes_progress (to_server opt) w r"
    by (cases r) (auto simp: makes_progress_def)
  show "b \<in> set (process_blocks lb opt inp) \<Longrightarrow> b w = Some r \<Longrightarrow> makes_progress (to_server opt) w r"
    by (auto simp: process_blocks_def intro: progress_initial progress_timeout progress_start progress_active progress_send
      progress_error_pre progress_read_ciphertext progress_read_plaintext progress_send_key progress_receive_key
      progress_write_plaintext progress_write_ciphertext)
qed

text \<open>One call: while it asks to be called again, the load goes down or the session has failed; a failed session ends the loop.\<close>

lemma error_pre_stops:
  assumes "ks_state (w_ks w) = S_ERROR_PRE" "tls_process_state lb opt inp w = Some (c, w')"
  shows "\<not> c"
proof -
  let ?w = "w\<lparr>w_continue := False\<rparr>"
  have e: "blk_initial opt inp ?w = Some (Go ?w)" "blk_timeout inp ?w = Some (Go ?w)" "blk_start ?w = Some (Go ?w)" "blk_active opt inp ?w = Some (Go ?w)"
    "blk_error_pre ?w = Some (Leave False (set_state S_ERROR ?w))"
    using assms(1) by (simp_all add: blk_initial_def blk_timeout_def blk_start_def blk_active_def blk_error_pre_def state_defs)
  from assms(2) obtain r where r: "run_blocks (process_blocks lb opt inp) ?w = Some r"
    and c: "(case r of Go w \<Rightarrow> Some (w_continue w, w) | Leave c w \<Rightarrow> Some (c, w)
      | Err w \<Rightarrow> do { (_, w) \<leftarrow> check_outgoing_ciphertext lb opt (in_read_alert inp) w; Some (True, set_state S_ERROR_PRE w) }) = Some (c, w')"
    unfolding tls_process_state_def by (elim run_elims) simp
  from r e have "\<exists>w1. r = Leave False w1"
  proof (cases "blk_send lb opt inp ?w")
    case (Some r1)
    have "r1 = Go ?w \<or> (\<exists>w1. r1 = Leave False w1)"
      using Some unfolding blk_send_def Let_def by (auto elim!: run_elims split: if_splits)
    with r e Some show ?thesis by (auto simp: process_blocks_def)
  qed (simp add: process_blocks_def)
  with c show ?thesis by auto
qed

lemma process_state_progress:
  assumes "tls_process_state lb opt inp w = Some (c, w')"
  shows "c \<Longrightarrow> ks_state (w_ks w') = S_ERROR_PRE \<or> load (to_server opt) (w_ks w') < load (to_server opt) (w_ks w)"
proof -
  assume c: "c"
  from assms obtain r where r: "run_blocks (process_blocks lb opt inp) (w\<lparr>w_continue := False\<rparr>) = Some r"
    and k: "(case r of Go w \<Rightarrow> Some (w_continue w, w) | Leave c w \<Rightarrow> Some (c, w)
      | Err w \<Rightarrow> do { (_, w) \<leftarrow> check_outgoing_ciphertext lb opt (in_read_alert inp) w; Some (True, set_state S_ERROR_PRE w) }) = Some (c, w')"
    unfolding tls_process_state_def by (elim run_elims) simp
  have "makes_progress (to_server opt) (w\<lparr>w_continue := False\<rparr>) r" by (rule progress.run_contract [OF r])
  with c k show ?thesis by (cases r) (auto simp: makes_progress_def elim!: run_elims)
qed

lemma loop_ends:
  "n > (if ks_state (w_ks w) = S_ERROR_PRE then 0 else Suc (load (to_server opt) (w_ks w))) \<Longrightarrow>
     tls_process_loop n lb opt inp k w \<noteq> Out_of_fuel"
proof (induction n arbitrary: k w)
  case (Suc n)
  show ?case
  proof (cases "tls_process_state lb opt (inp k) w")
    case (Some p)
    obtain c w' where p: "p = (c, w')" by (cases p)
    show ?thesis
    proof (cases "c \<and> ks_state (w_ks w') \<noteq> S_ERROR")
      case True
      with error_pre_stops [of w lb opt "inp k" c w'] Some p have e: "ks_state (w_ks w) \<noteq> S_ERROR_PRE" by auto
      from process_state_progress [of lb opt "inp k" w c w'] Some p True
      have "ks_state (w_ks w') = S_ERROR_PRE \<or> load (to_server opt) (w_ks w') < load (to_server opt) (w_ks w)" by simp
      with Suc.prems e have "tls_process_loop n lb opt inp (Suc k) w' \<noteq> Out_of_fuel"
        by (intro Suc.IH) (auto split: if_splits)
      with Some p True show ?thesis by simp
    qed (use Some p in auto)
  qed simp
qed simp

lemma n_le_length: "n_active rel \<le> length (r_array rel)" "n_free rel \<le> length (r_array rel)"
  using length_filter_le [of "\<lambda>b. b" "act rel"] length_filter_le [of Not "act rel"] by (simp_all add: n_active_def n_free_def)

text \<open>C16: the processing loop ends. For any answers of the TLS library, of the authentication code and of the clock in
  each of its rounds, and any session with its arrays of at most 12 and 6 entries, the loop of
  \<^verbatim>\<open>tls_process\<close> stops within the fuel of 64 rounds: it returns, or a round fails an assertion.
\<close>

theorem tls_process_loop_terminates:
  assumes "ks_state (w_ks w) \<ge> S_ERROR" "length (r_array (ks_rec (w_ks w))) \<le> nat TLS_RELIABLE_N_REC_BUFFERS"
    "length (r_array (ks_send (w_ks w))) \<le> nat TLS_RELIABLE_N_SEND_BUFFERS"
  shows "tls_process_loop LOOP_FUEL lb opt inp k w \<noteq> Out_of_fuel"
proof (rule loop_ends)
  have "S_GENERATED_KEYS - hs_pos (to_server opt) (ks_state (w_ks w)) \<le> 10" using assms(1) by (auto simp: hs_pos_def state_defs)
  then have "nat (S_GENERATED_KEYS - hs_pos (to_server opt) (ks_state (w_ks w))) \<le> 10" by simp
  moreover have "n_active (ks_rec (w_ks w)) \<le> 12" "n_free (ks_send (w_ks w)) \<le> 6"
    using assms(2,3) n_le_length(1) [of "ks_rec (w_ks w)"] n_le_length(2) [of "ks_send (w_ks w)"]
    by (simp_all add: TLS_RELIABLE_N_REC_BUFFERS_def TLS_RELIABLE_N_SEND_BUFFERS_def)
  ultimately have "load (to_server opt) (w_ks w) \<le> 50" by (auto simp: load_def)
  then show "LOOP_FUEL > (if ks_state (w_ks w) = S_ERROR_PRE then 0 else Suc (load (to_server opt) (w_ks w)))"
    by (simp add: LOOP_FUEL_def)
qed

section \<open>The order of the handshake\<close>

text \<open>
  The documented states: a client sends its key material and then receives the server's, a server the other way
  round; from any state the session may fail, after which it only sends what is left.
\<close>

inductive hs_step :: "bool \<Rightarrow> int \<Rightarrow> int \<Rightarrow> bool" for server where
  begin_handshake: "hs_step server S_INITIAL S_PRE_START"
| handshake_acked: "hs_step server S_PRE_START S_START"
| client_sends_key: "\<not> server \<Longrightarrow> hs_step server S_START S_SENT_KEY"
| client_gets_key: "\<not> server \<Longrightarrow> hs_step server S_SENT_KEY S_GOT_KEY"
| client_active: "\<not> server \<Longrightarrow> hs_step server S_GOT_KEY S_ACTIVE"
| server_gets_key: "server \<Longrightarrow> hs_step server S_START S_GOT_KEY"
| server_sends_key: "server \<Longrightarrow> hs_step server S_GOT_KEY S_SENT_KEY"
| server_active: "server \<Longrightarrow> hs_step server S_SENT_KEY S_ACTIVE"
| fails: "hs_step server st S_ERROR_PRE"
| gives_up: "hs_step server S_ERROR_PRE S_ERROR"

text \<open>The members that driving a session does not touch.\<close>

definition ks_identity :: "key_state \<Rightarrow> _" where
  "ks_identity ks = (ks_key_id ks, ks_session_id_remote ks, ks_remote_addr ks, ks_crypto ks, ks_must_die ks, ks_initial_opcode ks,
     ks_n_bytes ks, ks_n_packets ks, length (r_array (ks_send ks)), length (r_array (ks_rec ks)))"

definition session_identity :: "tls_session \<Rightarrow> _" where
  "session_identity s = (ts_session_id s, ts_key_id s, ts_initial_opcode s, ts_untrusted_addr s, ts_burst s, ks_identity (ts_primary s))"

definition lame_kept :: "key_state \<Rightarrow> key_state \<Rightarrow> bool" where
  "lame_kept ks ks' \<longleftrightarrow> ks' = ks \<or> ks' = ks\<lparr>ks_authenticated := KS_AUTH_FALSE\<rparr>"

text \<open>The authentication code accepted the peer with the verdict \<open>a\<close> and nothing vetoed it.\<close>

definition auth_granted :: "auth_env \<Rightarrow> ks_auth_state \<Rightarrow> bool" where
  "auth_granted au a \<longleftrightarrow> (\<exists>ul pl u p. km2_authenticate au ul pl u p = Some a) \<and> \<not> au_deauthenticate au \<and> au_tls_final au \<noteq> Some False"

fun outcome_work :: "outcome \<Rightarrow> tls_work" where
  "outcome_work (Go w) = w"
| "outcome_work (Leave c w) = w"
| "outcome_work (Err w) = w"

text \<open>What driving a session may do to it; \<open>granted\<close> are the verdicts of the authentication code on the way.\<close>

definition session_step :: "tls_options \<Rightarrow> (ks_auth_state \<Rightarrow> bool) \<Rightarrow> tls_work \<Rightarrow> tls_work \<Rightarrow> bool" where
  "session_step opt granted w w' \<longleftrightarrow>
     rtranclp (hs_step (to_server opt)) (ks_state (w_ks w)) (ks_state (w_ks w'))
     \<and> session_identity (w_session w') = session_identity (w_session w)
     \<and> lame_kept (ts_lame_duck (w_session w)) (ts_lame_duck (w_session w'))
     \<and> (ks_authenticated (w_ks w') \<noteq> KS_AUTH_FALSE \<longrightarrow>
          ks_authenticated (w_ks w') = ks_authenticated (w_ks w) \<or> granted (ks_authenticated (w_ks w')))"

lemma session_step_refl: "session_step opt G w w"
  by (simp add: session_step_def lame_kept_def)

lemma lame_kept_trans: "lame_kept a b \<Longrightarrow> lame_kept b c \<Longrightarrow> lame_kept a c"
  by (auto simp: lame_kept_def)

lemma session_step_trans: "session_step opt G w w' \<Longrightarrow> session_step opt G w' w'' \<Longrightarrow> session_step opt G w w''"
  unfolding session_step_def by (auto intro: rtranclp_trans lame_kept_trans)

text \<open>A change of the primary key state only, with the state kept or moved by one step.\<close>

lemma session_step_ks:
  assumes "w_session w' = (w_session w)\<lparr>ts_primary := f (w_ks w)\<rparr>"
    and "ks_identity (f (w_ks w)) = ks_identity (w_ks w)" "ks_authenticated (f (w_ks w)) = ks_authenticated (w_ks w)"
    and "ks_state (f (w_ks w)) = ks_state (w_ks w) \<or> hs_step (to_server opt) (ks_state (w_ks w)) (ks_state (f (w_ks w)))"
  shows "session_step opt G w w'"
proof -
  have "w_ks w' = f (w_ks w)" by (simp add: assms(1) w_ks_def)
  moreover have "session_identity (w_session w') = session_identity (w_session w)" "ts_lame_duck (w_session w') = ts_lame_duck (w_session w)"
    using assms(2) by (simp_all add: assms(1) session_identity_def w_ks_def)
  ultimately show ?thesis using assms(3,4) by (auto simp: session_step_def lame_kept_def)
qed

lemma w_session_upd [simp]:
  "w_session (upd_ks f w) = (w_session w)\<lparr>ts_primary := f (w_ks w)\<rparr>" "w_session (set_continue w) = w_session w"
  "w_session (set_state st w) = (w_session w)\<lparr>ts_primary := (w_ks w)\<lparr>ks_state := st\<rparr>\<rparr>"
  by (simp_all add: upd_ks_def upd_session_def set_continue_def set_state_def w_ks_def)

lemma step_initial: "blk_initial opt inp w = Some r \<Longrightarrow> session_step opt G w (outcome_work r)"
proof (cases "ks_state (w_ks w) = S_INITIAL")
  case True
  assume "blk_initial opt inp w = Some r"
  with True obtain ok ks where p: "session_move_pre_start (in_now inp) opt False (w_ks w) = Some (ok, ks)"
    and r: "r = Go ((upd_ks (\<lambda>_. ks) w)\<lparr>w_continue := ok\<rparr>)"
    unfolding blk_initial_def by (auto elim!: run_elims)
  from p obtain i rel where g: "reliable_get_buf_output_sequenced (ks_send (w_ks w)) = Some (i, rel)"
    unfolding session_move_pre_start_def by (auto elim!: run_elims)
  have "ks_identity ks = ks_identity (w_ks w) \<and> ks_authenticated ks = ks_authenticated (w_ks w)
    \<and> (ks_state ks = S_INITIAL \<or> ks_state ks = S_PRE_START)"
    using p g True get_output_act(3) [OF g] by (auto simp: session_move_pre_start_def ks_identity_def bind_eq_Some_conv mark_outgoing_act(3) split: option.splits)
  then show ?thesis using r True begin_handshake
    by (intro session_step_ks [where f = "\<lambda>_. ks"]) auto
qed (auto simp: blk_initial_def session_step_refl)

lemma step_timeout: "blk_timeout inp w = Some r \<Longrightarrow> session_step opt G w (outcome_work r)"
  by (auto simp: blk_timeout_def session_step_refl split: if_splits)

lemma step_start: "blk_start w = Some r \<Longrightarrow> session_step opt G w (outcome_work r)"
proof (cases "ks_state (w_ks w) = S_PRE_START \<and> reliable_empty (ks_send (w_ks w))")
  case True
  assume "blk_start w = Some r"
  with True have "r = Go (set_continue (set_state S_START w))" by (simp add: blk_start_def)
  with True show ?thesis
    by (intro session_step_ks [where f = "\<lambda>ks. ks\<lparr>ks_state := S_START\<rparr>"])
      (auto simp: ks_identity_def intro: handshake_acked)
qed (auto simp: blk_start_def session_step_refl)

lemma step_active: "blk_active opt inp w = Some r \<Longrightarrow> session_step opt G w (outcome_work r)"
proof (cases "(ks_state (w_ks w) = S_GOT_KEY \<and> \<not> to_server opt \<or> ks_state (w_ks w) = S_SENT_KEY \<and> to_server opt)
    \<and> reliable_empty (ks_send (w_ks w))")
  case True
  assume "blk_active opt inp w = Some r"
  with True have "r = Go (set_continue (session_move_active (in_now inp) opt w))" by (simp add: blk_active_def)
  with True show ?thesis
    by (intro session_step_ks [where f = "\<lambda>ks. ks\<lparr>ks_established := in_now inp, ks_state := S_ACTIVE, ks_must_negotiate := 0, ks_paybuf := []\<rparr>"])
      (auto simp: session_move_active_def Let_def ks_identity_def intro: client_active server_active)
qed (auto simp: blk_active_def session_step_refl)

lemma step_error_pre: "blk_error_pre w = Some r \<Longrightarrow> session_step opt G w (outcome_work r)"
proof (cases "ks_state (w_ks w) = S_ERROR_PRE")
  case True
  assume "blk_error_pre w = Some r"
  with True have "r = Leave False (set_state S_ERROR w)" by (simp add: blk_error_pre_def)
  with True show ?thesis
    by (intro session_step_ks [where f = "\<lambda>ks. ks\<lparr>ks_state := S_ERROR\<rparr>"])
      (auto simp: ks_identity_def intro: gives_up)
qed (auto simp: blk_error_pre_def session_step_refl)

lemma reliable_send_length: "reliable_send now rel = (r, rel') \<Longrightarrow> length (r_array rel') = length (r_array rel)"
  by (auto simp: reliable_send_def split: option.splits)

lemma step_send_control:
  assumes "send_control lb opt inp b src opcode ack pre w = Some w'"
  shows "session_step opt G w w'"
proof -
  from assms obtain c b' sr where
    w': "w' = (upd_session (put_control_view c) w)\<lparr>w_to_link := b', w_to_link_addr := Some (ks_remote_addr (w_ks w)), w_to_link_src := Some sr\<rparr>"
    unfolding send_control_def Let_def by (elim run_elims) blast
  show ?thesis unfolding w'
    by (auto simp: session_step_def session_identity_def ks_identity_def put_control_view_def upd_session_def w_ks_def lame_kept_def)
qed

lemma step_send: "blk_send lb opt inp w = Some r \<Longrightarrow> session_step opt G w (outcome_work r)"
proof (cases "len (w_to_link w) = 0 \<and> reliable_can_send (in_now inp) (ks_send (w_ks w))")
  case True
  assume "blk_send lb opt inp w = Some r"
  with True obtain send i opcode w' where s: "reliable_send (in_now inp) (ks_send (w_ks w)) = (Some (i, opcode), send)"
    and c: "send_control lb opt inp (e_buf (r_array send ! i)) SRC_RELIABLE opcode CONTROL_SEND_ACK_MAX True (upd_ks (\<lambda>ks. ks\<lparr>ks_send := send\<rparr>) w) = Some w'"
    and r: "r = Leave False w'"
    unfolding blk_send_def Let_def by (auto elim!: run_elims)
  have "session_step opt G w (upd_ks (\<lambda>ks. ks\<lparr>ks_send := send\<rparr>) w)"
    by (rule session_step_ks [where f = "\<lambda>ks. ks\<lparr>ks_send := send\<rparr>"]) (simp_all add: ks_identity_def reliable_send_length [OF s])
  with step_send_control [OF c, of G] r show ?thesis by (auto intro: session_step_trans)
qed (auto simp: blk_send_def session_step_refl)


lemma step_read_ciphertext: "blk_read_ciphertext inp w = Some r \<Longrightarrow> session_step opt G w (outcome_work r)"
proof (cases "reliable_get_entry_sequenced (ks_rec (w_ks w))")
  case (Some i)
  assume a: "blk_read_ciphertext inp w = Some r"
  show ?thesis
  proof (cases "e_packet_id (r_array (ks_rec (w_ks w)) ! i) = 0 \<and> is_hard_reset_method2 (e_opcode (r_array (ks_rec (w_ks w)) ! i))")
    case True
    with a Some obtain ok wkc rel where p: "parse_early_negotiation_tlvs (ks_rec (w_ks w)) i (ks_resend_wkc (w_ks w)) = Some (ok, wkc, rel)"
      and r: "outcome_work r = upd_ks (\<lambda>ks. ks\<lparr>ks_rec := rel, ks_resend_wkc := wkc\<rparr>) w"
      unfolding blk_read_ciphertext_def Let_def by (auto elim!: run_elims)
    then show ?thesis using early_neg_active(2) [OF p]
      by (intro session_step_ks [where f = "\<lambda>ks. ks\<lparr>ks_rec := rel, ks_resend_wkc := wkc\<rparr>"]) (auto simp: ks_identity_def)
  next
    case False
    with a Some obtain ok taken rel where p: "read_incoming_tls_ciphertext (in_write_ciphertext inp) (ks_rec (w_ks w)) i = Some (ok, taken, rel)"
      and r: "w_session (outcome_work r) = w_session (upd_ks (\<lambda>ks. ks\<lparr>ks_rec := rel\<rparr>) w)"
      unfolding blk_read_ciphertext_def Let_def by (auto elim!: run_elims split: if_splits)
    then show ?thesis using read_ciphertext_active(3) [OF p]
      by (intro session_step_ks [where f = "\<lambda>ks. ks\<lparr>ks_rec := rel\<rparr>"]) (auto simp: ks_identity_def)
  qed
qed (auto simp: blk_read_ciphertext_def session_step_refl)

lemma step_read_plaintext: "blk_read_plaintext inp w = Some r \<Longrightarrow> session_step opt G w (outcome_work r)"
proof (cases "len (ks_plaintext_read (w_ks w)) = 0")
  case True
  assume "blk_read_plaintext inp w = Some r"
  with True obtain b0 status b where "bio_read (in_read_plaintext inp) b0 = Some (status, b)"
    and r: "r = (if status = - 1 then Err (upd_ks (\<lambda>ks. ks\<lparr>ks_plaintext_read := b\<rparr>) w)
      else if status = 1 then Go ((set_continue (upd_ks (\<lambda>ks. ks\<lparr>ks_plaintext_read := b\<rparr>) w))\<lparr>w_wakeup := 0\<rparr>)
      else Go (upd_ks (\<lambda>ks. ks\<lparr>ks_plaintext_read := b\<rparr>) w))"
    unfolding blk_read_plaintext_def Let_def by (auto elim!: run_elims)
  have "w_session (outcome_work r) = w_session (upd_ks (\<lambda>ks. ks\<lparr>ks_plaintext_read := b\<rparr>) w)" by (simp add: r)
  then show ?thesis by (intro session_step_ks [where f = "\<lambda>ks. ks\<lparr>ks_plaintext_read := b\<rparr>"]) (auto simp: ks_identity_def)
qed (auto simp: blk_read_plaintext_def session_step_refl)

lemma step_send_key: "blk_send_key opt inp w = Some r \<Longrightarrow> session_step opt G w (outcome_work r)"
proof (cases "len (ks_plaintext_write (w_ks w)) = 0
    \<and> (ks_state (w_ks w) = S_START \<and> \<not> to_server opt \<or> ks_state (w_ks w) = S_GOT_KEY \<and> to_server opt)")
  case True
  assume "blk_send_key opt inp w = Some r"
  with True obtain ok src b where
    r: "r = (let w' = upd_ks (\<lambda>ks. ks\<lparr>ks_key_src := src, ks_plaintext_write := b\<rparr>) w in if ok then Go (set_continue (set_state S_SENT_KEY w')) else Err w')"
    unfolding blk_send_key_def by (auto elim!: run_elims simp: Let_def)
  have "w_session (outcome_work r) =
      (w_session w)\<lparr>ts_primary := (w_ks w)\<lparr>ks_key_src := src, ks_plaintext_write := b, ks_state := (if ok then S_SENT_KEY else ks_state (w_ks w))\<rparr>\<rparr>"
    by (simp add: r Let_def)
  with True show ?thesis
    by (intro session_step_ks [where f = "\<lambda>ks. ks\<lparr>ks_key_src := src, ks_plaintext_write := b, ks_state := (if ok then S_SENT_KEY else ks_state ks)\<rparr>"])
      (auto simp: ks_identity_def intro: client_sends_key server_sends_key)
qed (auto simp: blk_send_key_def session_step_refl)

lemma key_method_2_read_auth:
  assumes "key_method_2_read au server k2 info buf = Some (ok, m)" "km_auth m \<noteq> KS_AUTH_FALSE"
  shows "ok \<and> \<not> km_deauth m \<and> auth_granted au (km_auth m)"
  using assms unfolding key_method_2_read_def km2_error_def Let_def auth_granted_def
  by (auto elim!: run_elims split: if_splits option.splits bool.splits prod.splits; blast)

lemma step_receive_key: "blk_receive_key opt inp w = Some r \<Longrightarrow> session_step opt (auth_granted (in_auth inp)) w (outcome_work r)"
proof (erule receive_key_cases)
  assume "r = Go w"
  then show ?thesis by (simp add: session_step_refl)
next
  fix ok m
  assume st: "ks_state (w_ks w) = S_SENT_KEY \<and> \<not> to_server opt \<or> ks_state (w_ks w) = S_START \<and> to_server opt"
    and rd: "key_method_2_read (in_auth inp) (to_server opt) (ks_key_src (w_ks w)) (w_peer_info w) (ks_plaintext_read (w_ks w)) = Some (ok, m)"
    and r: "r = (let w = upd_session (\<lambda>s. if km_deauth m then deauthenticate_session s else s) w;
                w = upd_ks (\<lambda>ks. ks\<lparr>ks_key_src := km_key_src m, ks_authenticated := km_auth m, ks_plaintext_read := km_buf m\<rparr>) w;
                w = w\<lparr>w_peer_info := km_peer_info m, w_deauth := (w_deauth w \<or> km_deauth m)\<rparr>
            in if ok then Go (set_continue (set_state S_GOT_KEY w)) else Err w)"
  let ?w' = "outcome_work r"
  have ks: "w_ks ?w' = (w_ks w)\<lparr>ks_key_src := km_key_src m, ks_authenticated := km_auth m, ks_plaintext_read := km_buf m,
      ks_state := (if ok then S_GOT_KEY else ks_state (w_ks w))\<rparr>"
    unfolding r Let_def by (simp add: w_ks_upd_session) (simp add: w_ks_def)
  have s: "session_identity (w_session ?w') = session_identity (w_session w)"
      "lame_kept (ts_lame_duck (w_session w)) (ts_lame_duck (w_session ?w'))"
    unfolding r Let_def by (simp_all add: session_identity_def ks_identity_def upd_session_def deauthenticate_session_def lame_kept_def w_ks_def)
  have "hs_step (to_server opt) (ks_state (w_ks w)) S_GOT_KEY" using st client_gets_key server_gets_key by auto
  then have "rtranclp (hs_step (to_server opt)) (ks_state (w_ks w)) (ks_state (w_ks ?w'))" by (simp add: ks r_into_rtranclp)
  with s ks key_method_2_read_auth [OF rd] show ?thesis by (auto simp: session_step_def)
qed

lemma step_write_plaintext: "blk_write_plaintext inp w = Some r \<Longrightarrow> session_step opt G w (outcome_work r)"
proof (cases "len (ks_plaintext_write (w_ks w)) \<noteq> 0")
  case True
  assume "blk_write_plaintext inp w = Some r"
  with True obtain status b where "key_state_write_ciphertext (in_write_plaintext inp) (ks_plaintext_write (w_ks w)) = Some (status, b)"
    and r: "r = (let w' = upd_ks (\<lambda>ks. ks\<lparr>ks_plaintext_write := b\<rparr>) w
      in if status = - 1 then Err w' else if status = 1 then Go (set_continue w') else Go w')"
    unfolding blk_write_plaintext_def by (auto elim!: run_elims simp: Let_def)
  have "w_session (outcome_work r) = w_session (upd_ks (\<lambda>ks. ks\<lparr>ks_plaintext_write := b\<rparr>) w)" by (simp add: r Let_def)
  then show ?thesis by (intro session_step_ks [where f = "\<lambda>ks. ks\<lparr>ks_plaintext_write := b\<rparr>"]) (auto simp: ks_identity_def)
qed (auto simp: blk_write_plaintext_def session_step_refl)

lemma step_check_outgoing:
  assumes "check_outgoing_ciphertext lb opt bio w = Some (ok, w')"
  shows "session_step opt G w w'"
proof -
  from check_outgoing_free [OF assms] obtain send where
    s: "w' = (upd_ks (\<lambda>ks. ks\<lparr>ks_send := send\<rparr>) w)\<lparr>w_continue := w_continue w'\<rparr>" "length (r_array send) = length (r_array (ks_send (w_ks w)))" by blast
  have "w_session w' = w_session (upd_ks (\<lambda>ks. ks\<lparr>ks_send := send\<rparr>) w)" by (subst s(1)) simp
  then show ?thesis by (intro session_step_ks [where f = "\<lambda>ks. ks\<lparr>ks_send := send\<rparr>"]) (auto simp: ks_identity_def s(2))
qed

lemma step_write_ciphertext: "blk_write_ciphertext lb opt inp w = Some r \<Longrightarrow> session_step opt G w (outcome_work r)"
  unfolding blk_write_ciphertext_def by (elim run_elims) (auto split: if_splits intro: step_check_outgoing)

interpretation steps: block_contract "\<lambda>w r. session_step opt (auth_granted (in_auth inp)) w (outcome_work r)" "process_blocks lb opt inp"
  for lb opt inp
proof
  fix w w' r b
  show "session_step opt (auth_granted (in_auth inp)) w (outcome_work (Go w))" by (simp add: session_step_refl)
  show "session_step opt (auth_granted (in_auth inp)) w (outcome_work (Go w')) \<Longrightarrow> session_step opt (auth_granted (in_auth inp)) w' (outcome_work r) \<Longrightarrow> session_step opt (auth_granted (in_auth inp)) w (outcome_work r)"
    by (auto intro: session_step_trans)
  show "b \<in> set (process_blocks lb opt inp) \<Longrightarrow> b w = Some r \<Longrightarrow> session_step opt (auth_granted (in_auth inp)) w (outcome_work r)"
    by (auto simp: process_blocks_def intro: step_initial step_timeout step_start step_active step_send step_error_pre
      step_read_ciphertext step_read_plaintext step_send_key step_receive_key step_write_plaintext step_write_ciphertext)
qed

lemma process_state_step:
  assumes "tls_process_state lb opt inp w = Some (c, w')"
  shows "session_step opt (auth_granted (in_auth inp)) w w'"
proof -
  from assms obtain r where r: "run_blocks (process_blocks lb opt inp) (w\<lparr>w_continue := False\<rparr>) = Some r"
    and k: "(case r of Go w \<Rightarrow> Some (w_continue w, w) | Leave c w \<Rightarrow> Some (c, w)
      | Err w \<Rightarrow> do { (_, w) \<leftarrow> check_outgoing_ciphertext lb opt (in_read_alert inp) w; Some (True, set_state S_ERROR_PRE w) }) = Some (c, w')"
    unfolding tls_process_state_def by (elim run_elims) simp
  have "session_step opt (auth_granted (in_auth inp)) (w\<lparr>w_continue := False\<rparr>) (outcome_work r)" by (rule steps.run_contract [OF r])
  then have 1: "session_step opt (auth_granted (in_auth inp)) w (outcome_work r)" by (simp add: session_step_def)
  show ?thesis
  proof (cases r)
    case (Err w1)
    with k obtain ok w2 where 2: "check_outgoing_ciphertext lb opt (in_read_alert inp) w1 = Some (ok, w2)" "w' = set_state S_ERROR_PRE w2"
      by (auto elim!: run_elims)
    have "session_step opt (auth_granted (in_auth inp)) w2 w'"
      by (rule session_step_ks [where f = "\<lambda>ks. ks\<lparr>ks_state := S_ERROR_PRE\<rparr>"]) (auto simp: 2(2) ks_identity_def intro: fails)
    with step_check_outgoing [OF 2(1), of "auth_granted (in_auth inp)"] 1 Err show ?thesis by (auto intro: session_step_trans)
  qed (use k 1 in auto)
qed


lemma session_step_mono: "session_step opt G w w' \<Longrightarrow> (\<And>a. G a \<Longrightarrow> H a) \<Longrightarrow> session_step opt H w w'"
  by (auto simp: session_step_def)

lemma loop_step:
  "tls_process_loop n lb opt inp k w = Done failed w' \<Longrightarrow> session_step opt (\<lambda>a. \<exists>j. auth_granted (in_auth (inp j)) a) w w'
     \<and> (failed \<longleftrightarrow> ks_state (w_ks w') = S_ERROR)"
proof (induction n arbitrary: k w)
  case (Suc n)
  show ?case
  proof (cases "tls_process_state lb opt (inp k) w")
    case (Some p)
    obtain c w1 where p: "p = (c, w1)" by (cases p)
    have s: "session_step opt (\<lambda>a. \<exists>j. auth_granted (in_auth (inp j)) a) w w1"
      by (rule session_step_mono [OF process_state_step [OF Some [unfolded p]]]) blast
    show ?thesis
    proof (cases "c \<and> ks_state (w_ks w1) \<noteq> S_ERROR")
      case True
      with Suc.prems Some p have "tls_process_loop n lb opt inp (Suc k) w1 = Done failed w'" by simp
      from Suc.IH [OF this] s show ?thesis by (auto intro: session_step_trans)
    next
      case False
      with Suc.prems Some p s show ?thesis by (auto split: if_splits)
    qed
  qed (use Suc.prems in simp)
qed simp

text \<open>C15: a session moves through the handshake in the documented order. Whatever the TLS library, the peer's packets
  and the authentication code answer during the processing loop, the state of the primary key only changes along the
  documented steps for its role (or into the error states); the key id, the peer's session id and address, the
  data channel keys and counters and our own session id stay; the key becomes authenticated only by a
  verdict of the authentication code that nothing vetoed; and the retiring key is not touched, unless it is
  deauthenticated.
\<close>

theorem tls_process_loop_handshake:
  assumes "tls_process_loop n lb opt inp k w = Done failed w'"
  shows "rtranclp (hs_step (to_server opt)) (ks_state (w_ks w)) (ks_state (w_ks w'))
     \<and> session_identity (w_session w') = session_identity (w_session w)
     \<and> lame_kept (ts_lame_duck (w_session w)) (ts_lame_duck (w_session w'))
     \<and> (ks_authenticated (w_ks w') = KS_AUTH_FALSE \<or> ks_authenticated (w_ks w') = ks_authenticated (w_ks w)
        \<or> (\<exists>j. auth_granted (in_auth (inp j)) (ks_authenticated (w_ks w'))))"
  using loop_step [OF assms] by (auto simp: session_step_def)

text \<open>A server session that waits for the acknowledgement of its first packet, and a quiet TLS library.\<close>

definition toy_session_lib :: tls_lib where
  "toy_session_lib = \<lparr>tl_junk = (\<lambda>_. 0), tl_hmac = (\<lambda>_ _. []), tl_cipher = toy_lib, tl_prf = toy_prf\<rparr>"

definition toy_options :: tls_options where
  "toy_options = \<lparr>to_key_type = key_type_zero, to_server = True, to_xmit_hold = False, to_single_session = False, to_mode_server = True,
     to_transition_window = 3600, to_handshake_window = 60, to_packet_timeout = 2, to_renegotiate_bytes = - 1, to_renegotiate_packets = 0,
     to_renegotiate_seconds = 3600, to_aead_usage_limit = 0,
     to_crypto_flags = \<lparr>cf_packet_id_long_form = False, cf_ignore_packet_id = False, cf_epoch_data_key_format = False,
       cf_use_tls_key_material_export = False, cf_resend_wkc = False\<rparr>,
     to_replay_window = 64, to_replay_time = 15, to_tls_crypt_v2 = False, to_verify = \<lparr>tv_max_age = 0, tv_verify_script = None\<rparr>,
     to_tls_wrap = tls_wrap_zero, to_frame = \<lparr>fb_payload_size = 1600, fb_headroom = 128, fb_tailroom = 128, mss_fix = 0, max_fragment_size = 0, tun_mtu = 1250, tun_max_mtu = 1250, extra_tun = 0\<rparr>, to_tun_mtu = 1250\<rparr>"

definition toy_input :: tls_input where
  "toy_input = \<lparr>in_now = 5, in_rnd = (\<lambda>_. 0), in_write_ciphertext = (0, False), in_read_plaintext = (None, True), in_fields = toy_fields,
     in_auth = toy_auth, in_write_plaintext = (0, False), in_read_ciphertext = (None, True), in_read_alert = (None, True)\<rparr>"

definition toy_work_state :: tls_work where
  "toy_work_state = \<lparr>w_session = tls_session_zero\<lparr>ts_primary := key_state_zero\<lparr>ks_state := S_PRE_START, ks_must_negotiate := 65,
       ks_plaintext_read := full_buf [0, 0, 0, 0]\<lparr>len := 0\<rparr>\<rparr>\<rparr>,
     w_multi_state = CAS_NOT_CONNECTED, w_peer_info = None, w_deauth = False, w_to_link = clear_buf, w_to_link_addr = None,
     w_to_link_src = None, w_wakeup = 0, w_continue = False\<rparr>"

theorem tls_process_loop_terminates_witness:
  "tls_process_loop LOOP_FUEL toy_session_lib toy_options (\<lambda>_. toy_input) 0 toy_work_state \<noteq> Out_of_fuel"
  by (rule tls_process_loop_terminates) (simp_all add: toy_work_state_def w_ks_def tls_session_zero_def key_state_zero_def reliable_zero_def state_defs)

lemmas toy_run_defs = tls_process_state_def process_blocks_def blk_initial_def blk_timeout_def blk_start_def blk_active_def blk_send_def
  blk_error_pre_def blk_read_ciphertext_def blk_read_plaintext_def blk_send_key_def blk_receive_key_def blk_write_plaintext_def
  blk_write_ciphertext_def check_outgoing_ciphertext_def reliable_empty_def reliable_can_send_def reliable_get_entry_sequenced_def
  reliable_get_buf_output_sequenced_def reliable_get_buf_def bio_read_def buf_init_dowork_def full_buf_def clear_buf_def
  tls_session_zero_def key_state_zero_def reliable_zero_def toy_work_state_def toy_input_def toy_options_def
  w_ks_def upd_ks_def upd_session_def set_state_def set_continue_def

lemma toy_loop: "\<exists>w'. tls_process_loop 2 toy_session_lib toy_options (\<lambda>_. toy_input) 0 toy_work_state = Done False w' \<and> ks_state (w_ks w') = S_START"
  by (simp add: numeral_2_eq_2 toy_run_defs state_defs Let_def)

theorem tls_process_loop_handshake_witness:
  "\<exists>w'. tls_process_loop 2 toy_session_lib toy_options (\<lambda>_. toy_input) 0 toy_work_state = Done False w'
     \<and> rtranclp (hs_step True) S_PRE_START S_START \<and> session_identity (w_session w') = session_identity (w_session toy_work_state)"
proof -
  obtain w' where w: "tls_process_loop 2 toy_session_lib toy_options (\<lambda>_. toy_input) 0 toy_work_state = Done False w'" "ks_state (w_ks w') = S_START"
    using toy_loop by blast
  have "ks_state (w_ks toy_work_state) = S_PRE_START" "to_server toy_options" by (simp_all add: toy_work_state_def toy_options_def w_ks_def)
  with tls_process_loop_handshake [OF w(1)] w show ?thesis by auto
qed

end
