(* ===== verification/Tls_Multi.thy ===== *)
theory Tls_Multi
  imports Tls_Handshake
begin

text \<open>
  The three sessions of a tunnel: \<^verbatim>\<open>struct tls_multi\<close> of \<^verbatim>\<open>openvpn/src/openvpn/ssl_common.h\<close> and the functions of
  \<^verbatim>\<open>ssl.c\<close> and \<^verbatim>\<open>ssl_verify.c\<close> on it. Incoming packets are routed to a session or a data channel key
  (\<^verbatim>\<open>tls_pre_decrypt\<close>), the sessions are driven, failed and promoted (\<^verbatim>\<open>tls_multi_process\<close>), data channel
  keys are generated, chosen and retired. Conventions are those of the theory below.
\<close>

section \<open>State\<close>

definition TM_ACTIVE :: nat where "TM_ACTIVE = 0"
definition TM_INITIAL :: nat where "TM_INITIAL = 1"
definition TM_LAME_DUCK :: nat where "TM_LAME_DUCK = 2"
definition TM_SIZE :: nat where "TM_SIZE = 3"
definition KEY_SCAN_SIZE :: nat where "KEY_SCAN_SIZE = 3"

definition P_DATA_V1 :: int where "P_DATA_V1 = 6"
definition P_DATA_V2 :: int where "P_DATA_V2 = 9"
definition P_FIRST_OPCODE :: int where "P_FIRST_OPCODE = 3"

definition TLSMP_INACTIVE :: int where "TLSMP_INACTIVE = 0"
definition TLSMP_ACTIVE :: int where "TLSMP_ACTIVE = 1"
definition TLSMP_KILL :: int where "TLSMP_KILL = 2"
definition TLSMP_RECONNECT :: int where "TLSMP_RECONNECT = 3"

text \<open>\<open>tm_save_ks\<close> is the pointer into the scanned keys, by index.\<close>

record tls_multi =
  tm_opt :: tls_options
  tm_save_ks :: "nat option"
  tm_to_link_addr :: openvpn_sockaddr
  tm_n_sessions :: int
  tm_multi_state :: multi_status
  tm_n_hard_errors :: int
  tm_n_soft_errors :: int
  tm_tas_cache_last_update :: int
  tm_tas_cache_num_updates :: u32
  tm_peer_info :: "bytes option"
  tm_peer_id :: u32
  tm_session :: "tls_session list"

definition upd_sess :: "nat \<Rightarrow> (tls_session \<Rightarrow> tls_session) \<Rightarrow> tls_multi \<Rightarrow> tls_multi" where
  "upd_sess i f m = m\<lparr>tm_session := (tm_session m)[i := f (tm_session m ! i)]\<rparr>"

definition get_key_scan :: "tls_multi \<Rightarrow> nat \<Rightarrow> key_state option" where
  "get_key_scan m i =
     (if i = 0 then Some (ts_primary (tm_session m ! TM_ACTIVE))
      else if i = 1 then Some (ts_lame_duck (tm_session m ! TM_ACTIVE))
      else if i = 2 then Some (ts_lame_duck (tm_session m ! TM_LAME_DUCK))
      else None)"

text \<open>Assignment through the pointer that \<^verbatim>\<open>get_key_scan\<close> returns.\<close>

definition upd_key_scan :: "nat \<Rightarrow> (key_state \<Rightarrow> key_state) \<Rightarrow> tls_multi \<Rightarrow> tls_multi" where
  "upd_key_scan i f m =
     (if i = 0 then upd_sess TM_ACTIVE (\<lambda>s. s\<lparr>ts_primary := f (ts_primary s)\<rparr>) m
      else if i = 1 then upd_sess TM_ACTIVE (\<lambda>s. s\<lparr>ts_lame_duck := f (ts_lame_duck s)\<rparr>) m
      else upd_sess TM_LAME_DUCK (\<lambda>s. s\<lparr>ts_lame_duck := f (ts_lame_duck s)\<rparr>) m)"

definition get_primary_key :: "tls_multi \<Rightarrow> key_state" where
  "get_primary_key m = ts_primary (tm_session m ! TM_ACTIVE)"

definition MAX_PEER_ID :: u32 where "MAX_PEER_ID = 0xFFFFFF"

definition tls_multi_init :: "tls_options \<Rightarrow> tls_multi" where
  "tls_multi_init opt = \<lparr>tm_opt = opt, tm_save_ks = None, tm_to_link_addr = sockaddr_zero, tm_n_sessions = 0,
     tm_multi_state = CAS_NOT_CONNECTED, tm_n_hard_errors = 0, tm_n_soft_errors = 0, tm_tas_cache_last_update = 0,
     tm_tas_cache_num_updates = 0, tm_peer_info = None, tm_peer_id = MAX_PEER_ID, tm_session = replicate TM_SIZE tls_session_zero\<rparr>"

definition tls_multi_init_finalize ::
    "int \<Rightarrow> session_id list \<Rightarrow> session_id list \<Rightarrow> tls_multi \<Rightarrow> int \<Rightarrow> tls_multi option" where
  "tls_multi_init_finalize now draws1 draws2 m tls_mtu = do {
     let (f, tun_mtu) = tls_init_control_channel_frame_parameters (to_frame (tm_opt m)) tls_mtu;
     let m = m\<lparr>tm_opt := (tm_opt m)\<lparr>to_frame := f, to_tun_mtu := tun_mtu\<rparr>\<rparr>;
     s1 \<leftarrow> tls_session_init now (tm_opt m) draws1;
     s2 \<leftarrow> tls_session_init now (tm_opt m) draws2;
     Some (upd_sess TM_INITIAL (\<lambda>_. s2) (upd_sess TM_ACTIVE (\<lambda>_. s1) m))
   }"

definition tls_auth_standalone_init :: "tls_options \<Rightarrow> buffer \<Rightarrow> tls_auth_standalone option" where
  "tls_auth_standalone_init opt workbuf = do {
     let wrap = (to_tls_wrap opt)\<lparr>tw_opt := (tw_opt (to_tls_wrap opt))\<lparr>co_ignore_packet_id := True\<rparr>\<rparr>;
     pid \<leftarrow> packet_id_init (to_replay_window opt) (to_replay_time opt) ''TAS'' 0;
     Some \<lparr>tas_wrap = wrap\<lparr>tw_opt := (tw_opt wrap)\<lparr>co_packet_id := pid\<rparr>\<rparr>, tas_workbuf = workbuf, tas_headroom = fb_headroom (to_frame opt)\<rparr>
   }"

definition tls_deauthenticate :: "tls_multi \<Rightarrow> tls_multi" where
  "tls_deauthenticate m = m\<lparr>tm_session := map deauthenticate_session (tm_session m)\<rparr>"

definition move_session :: "int \<Rightarrow> session_id list \<Rightarrow> tls_multi \<Rightarrow> nat \<Rightarrow> nat \<Rightarrow> bool \<Rightarrow> tls_multi option" where
  "move_session now draws m dest src reinit_src = do {
     c_assert (src \<noteq> dest);
     c_assert (src < TM_SIZE);
     c_assert (dest < TM_SIZE);
     let m = upd_sess dest (\<lambda>_. tm_session m ! src) m;
     (if reinit_src then do { s \<leftarrow> tls_session_init now (tm_opt m) draws; Some (upd_sess src (\<lambda>_. s) m) }
      else Some (upd_sess src (\<lambda>_. tls_session_zero) m))
   }"

definition tls_session_soft_reset :: "int \<Rightarrow> tls_multi \<Rightarrow> tls_multi option" where
  "tls_session_soft_reset now m = do {
     s \<leftarrow> key_state_soft_reset now (tm_opt m) (tm_session m ! TM_ACTIVE);
     Some (upd_sess TM_ACTIVE (\<lambda>_. s) m)
   }"

section \<open>Data channel keys\<close>

definition tls_limit_reneg_bytes :: "bool \<Rightarrow> int \<Rightarrow> int" where
  "tls_limit_reneg_bytes insecure reneg_bytes = (if insecure \<and> reneg_bytes = - 1 then 64 * 1024 * 1024 else reneg_bytes)"

definition tls_get_limit_aead :: "key_type \<Rightarrow> u64" where
  "tls_get_limit_aead kt = (let limit = cipher_get_aead_limits kt in if limit = 0 then 0 else limit div 8 * 7)"

definition set_flags :: "crypto_flags \<Rightarrow> key_state \<Rightarrow> key_state" where
  "set_flags f ks = ks\<lparr>ks_crypto := (ks_crypto ks)\<lparr>co_packet_id_long_form := cf_packet_id_long_form f,
       co_ignore_packet_id := cf_ignore_packet_id f, co_epoch_data_format := cf_epoch_data_key_format f\<rparr>,
     ks_resend_wkc := cf_resend_wkc f\<rparr>"

text \<open>\<open>exported\<close> is the keying material the TLS library exports, \<open>insecure\<close> whether the cipher has a small block size.\<close>

definition tls_session_generate_data_channel_keys ::
    "tls_lib \<Rightarrow> bytes option \<Rightarrow> bool \<Rightarrow> tls_options \<Rightarrow> tls_session \<Rightarrow> (bool \<times> tls_options \<times> tls_session) option" where
  "tls_session_generate_data_channel_keys lb exported insecure opt s =
     (let ks = ts_primary s
      in if ks_authenticated ks = KS_AUTH_FALSE then Some (False, opt, s\<lparr>ts_primary := ks\<lparr>ks_key_src := key_source2_zero\<rparr>\<rparr>)
         else do {
           let ks = set_flags (to_crypto_flags opt) ks;
           (ok, co) \<leftarrow> generate_key_expansion (tl_junk lb) (tl_hmac lb) (tl_prf lb) exported (cf_use_tls_key_material_export (to_crypto_flags opt))
                         (co_epoch_data_format (ks_crypto ks)) (to_key_type opt) (to_server opt) (ts_session_id s) (ks_session_id_remote ks)
                         (ks_key_src ks) (ks_crypto ks);
           let ks = ks\<lparr>ks_crypto := co, ks_key_src := key_source2_zero\<rparr>;
           Some (if \<not> ok then (False, opt, s\<lparr>ts_primary := ks\<rparr>)
                 else (True, opt\<lparr>to_renegotiate_bytes := tls_limit_reneg_bytes insecure (to_renegotiate_bytes opt),
                                 to_aead_usage_limit := tls_get_limit_aead (to_key_type opt)\<rparr>,
                       s\<lparr>ts_primary := ks\<lparr>ks_state := S_GENERATED_KEYS\<rparr>\<rparr>)) })"

text \<open>The loop of \<^verbatim>\<open>tls_select_encryption_key\<close> over the remaining keys, with the choice so far.\<close>

fun select_key_loop :: "int \<Rightarrow> tls_multi \<Rightarrow> nat list \<Rightarrow> nat option \<Rightarrow> nat option option" where
  "select_key_loop now m [] sel = Some sel"
| "select_key_loop now m (i # is) sel = do {
     ks \<leftarrow> get_key_scan m i;
     (if ks_state ks \<ge> S_GENERATED_KEYS \<and> ks_authenticated ks = KS_AUTH_TRUE then do {
        c_assert (co_initialized (ks_crypto ks));
        let sel = (if sel = None then Some i else sel);
        (if now \<ge> ks_auth_deferred_expire ks then Some (Some i) else select_key_loop now m is sel) }
      else select_key_loop now m is sel) }"

definition tls_select_encryption_key :: "int \<Rightarrow> tls_multi \<Rightarrow> nat option option" where
  "tls_select_encryption_key now m = select_key_loop now m [0..<KEY_SCAN_SIZE] None"

text \<open>The result of \<^verbatim>\<open>tls_pre_encrypt\<close>: the state, the buffer, and the key whose \<^verbatim>\<open>crypto_options\<close> are handed out.\<close>

definition tls_pre_encrypt :: "int \<Rightarrow> tls_multi \<Rightarrow> buffer \<Rightarrow> (tls_multi \<times> buffer \<times> nat option) option" where
  "tls_pre_encrypt now m buf = do {
     let m = m\<lparr>tm_save_ks := None\<rparr>;
     (if len buf \<le> 0 then Some (m, buf\<lparr>len := 0\<rparr>, None)
      else do {
        sel \<leftarrow> tls_select_encryption_key now m;
        Some (case sel of Some i \<Rightarrow> (m\<lparr>tm_save_ks := Some i\<rparr>, buf, Some i) | None \<Rightarrow> (m, buf\<lparr>len := 0\<rparr>, None)) })
   }"

definition tls_prepend_opcode_v1 :: "tls_multi \<Rightarrow> buffer \<Rightarrow> buffer option" where
  "tls_prepend_opcode_v1 m buf = do {
     i \<leftarrow> tm_save_ks m;
     ks \<leftarrow> get_key_scan m i;
     c_assert (ks_key_id ks \<le> P_KEY_ID_MASK);
     (ok, buf) \<leftarrow> buf_write_prepend buf [word_of_int (push_bit P_OPCODE_SHIFT P_DATA_V1) OR word_of_int (ks_key_id ks)];
     c_assert ok;
     Some buf
   }"

definition tls_prepend_opcode_v2 :: "tls_multi \<Rightarrow> buffer \<Rightarrow> buffer option" where
  "tls_prepend_opcode_v2 m buf = do {
     i \<leftarrow> tm_save_ks m;
     ks \<leftarrow> get_key_scan m i;
     let peer = push_bit 24 (word_of_int (push_bit P_OPCODE_SHIFT P_DATA_V2 OR ks_key_id ks) :: u32) OR (tm_peer_id m AND 0xFFFFFF);
     (ok, buf) \<leftarrow> buf_write_prepend buf (be32 peer);
     c_assert ok;
     Some buf
   }"

definition tls_post_encrypt :: "tls_multi \<Rightarrow> buffer \<Rightarrow> tls_multi option" where
  "tls_post_encrypt m buf = do {
     let saved = tm_save_ks m;
     let m = m\<lparr>tm_save_ks := None\<rparr>;
     (if len buf > 0 then do {
        i \<leftarrow> saved;
        Some (upd_key_scan i (\<lambda>ks. ks\<lparr>ks_n_packets := ks_n_packets ks + 1, ks_n_bytes := ks_n_bytes ks + word_of_int (len buf)\<rparr>) m) }
      else Some m)
   }"

section \<open>Incoming packets\<close>

text \<open>The test of the loop in \<^verbatim>\<open>handle_data_channel_packet\<close>; the addresses are compared only when the rest holds.\<close>

definition data_key_usable :: "key_state \<Rightarrow> int \<Rightarrow> openvpn_sockaddr \<Rightarrow> bool \<Rightarrow> bool option" where
  "data_key_usable ks key_id from floated =
     (if ks_state ks \<ge> S_GENERATED_KEYS \<and> key_id = ks_key_id ks \<and> ks_authenticated ks = KS_AUTH_TRUE
      then (if floated then Some True else link_socket_actual_match from (ks_remote_addr ks))
      else Some False)"

fun find_data_key :: "tls_multi \<Rightarrow> nat list \<Rightarrow> int \<Rightarrow> openvpn_sockaddr \<Rightarrow> bool \<Rightarrow> nat option option" where
  "find_data_key m [] key_id from floated = Some None"
| "find_data_key m (i # is) key_id from floated = do {
     ks \<leftarrow> get_key_scan m i;
     ok \<leftarrow> data_key_usable ks key_id from floated;
     (if ok then Some (Some i) else find_data_key m is key_id from floated) }"

text \<open>
  The result: the state, the buffer, the key whose \<^verbatim>\<open>crypto_options\<close> are handed out (by index) and the
  start of the authenticated data.
\<close>

definition handle_data_channel_packet ::
    "tls_multi \<Rightarrow> openvpn_sockaddr \<Rightarrow> buffer \<Rightarrow> bool \<Rightarrow> int option \<Rightarrow> (tls_multi \<times> buffer \<times> nat option \<times> int option) option" where
  "handle_data_channel_packet m from buf floated ad_start = do {
     c \<leftarrow> buf_first buf;
     let op = header_op c;
     r \<leftarrow> find_data_key m [0..<KEY_SCAN_SIZE] (header_key_id c) from floated;
     (case r of
        None \<Rightarrow> Some (m, buf\<lparr>len := 0\<rparr>, None, ad_start)
      | Some i \<Rightarrow> do {
          ks \<leftarrow> get_key_scan m i;
          c_assert (co_initialized (ks_crypto ks));
          let ad_start = (if op = P_DATA_V2 then buf_bptr buf else ad_start);
          let (ok, buf) = buf_advance buf 1;
          c_assert ok;
          let ad_start = (if op = P_DATA_V1 then buf_bptr buf else ad_start);
          (if op = P_DATA_V2 \<and> len buf < 4
           then Some (m\<lparr>tm_n_soft_errors := tm_n_soft_errors m + 1\<rparr>, buf\<lparr>len := 0\<rparr>, None, ad_start)
           else do {
             let (ok, buf) = (if op = P_DATA_V2 then buf_advance buf 3 else (True, buf));
             c_assert ok;
             Some (upd_key_scan i (\<lambda>ks. ks\<lparr>ks_n_packets := ks_n_packets ks + 1, ks_n_bytes := ks_n_bytes ks + word_of_int (len buf)\<rparr>) m,
                   buf, Some i, ad_start) }) })
   }"

text \<open>The search for the session with the packet's session id.\<close>

fun find_session :: "tls_multi \<Rightarrow> nat list \<Rightarrow> session_id \<Rightarrow> nat option" where
  "find_session m [] sid = None"
| "find_session m (i # is) sid =
     (if session_id_equal (ks_session_id_remote (ts_primary (tm_session m ! i))) sid then Some i else find_session m is sid)"

text \<open>\<^verbatim>\<open>read_control_auth\<close> with the wrapping context of the session for the packet's key id.\<close>

definition session_read_control_auth ::
    "tls_lib \<Rightarrow> int \<Rightarrow> tls_options \<Rightarrow> buffer \<Rightarrow> int \<Rightarrow> bool \<Rightarrow> tls_session \<Rightarrow> (bool \<times> buffer \<times> tls_session) option" where
  "session_read_control_auth lb now opt buf key_id initial s = do {
     let c = control_view opt s;
     (ok, buf, ctx) \<leftarrow> read_control_auth (tl_junk lb) (tl_hmac lb) (tl_cipher lb) now buf (tls_session_get_tls_wrap c key_id)
                        (Some (to_verify opt)) initial;
     Some (ok, buf, put_control_view (set_tls_wrap c key_id ctx) s)
   }"

text \<open>
  The routing of a control packet up to the reliability layer: the index of the session, the packet without its
  protection, whether the link is new and whether to retransmit; \<open>None\<close> in place of the index is the jump to
  \<^verbatim>\<open>error\<close>.
\<close>

definition route_new_session ::
    "tls_lib \<Rightarrow> int \<Rightarrow> tls_multi \<Rightarrow> openvpn_sockaddr \<Rightarrow> buffer \<Rightarrow> int \<Rightarrow> (nat option \<times> tls_multi \<times> buffer) option" where
  "route_new_session lb now m from buf key_id =
     (if to_single_session (tm_opt m) \<and> tm_n_sessions m \<noteq> 0 then Some (None, m, buf)
      else do {
        (ok, buf, s) \<leftarrow> session_read_control_auth lb now (tm_opt m) buf key_id True (tm_session m ! TM_INITIAL);
        (if \<not> ok then Some (None, upd_sess TM_INITIAL (\<lambda>_. s) m, buf)
         else Some (Some TM_INITIAL, upd_sess TM_INITIAL (\<lambda>_. s\<lparr>ts_untrusted_addr := from\<rparr>) m, buf)) })"

definition route_existing_session ::
    "tls_lib \<Rightarrow> int \<Rightarrow> tls_multi \<Rightarrow> openvpn_sockaddr \<Rightarrow> buffer \<Rightarrow> int \<Rightarrow> int \<Rightarrow> nat option
       \<Rightarrow> (nat option \<times> tls_multi \<times> buffer \<times> bool) option" where
  "route_existing_session lb now m from buf op key_id idx =
     (case idx of
        None \<Rightarrow> Some (None, m, buf, False)
      | Some i \<Rightarrow> do {
          let s = tm_session m ! i;
          ok \<leftarrow> link_socket_actual_match (ks_remote_addr (ts_primary s)) from;
          (if \<not> ok then Some (None, m, buf, False)
           else if op = P_CONTROL_SOFT_RESET_V1 \<and> ks_state (ts_primary s) \<ge> S_GENERATED_KEYS then do {
             (ok, buf, s) \<leftarrow> session_read_control_auth lb now (tm_opt m) buf key_id False s;
             (if \<not> ok then Some (None, upd_sess i (\<lambda>_. s) m, buf, False)
              else do {
                s \<leftarrow> key_state_soft_reset now (tm_opt m) s;
                Some (Some i, upd_sess i (\<lambda>_. s) m, buf, False) }) }
           else do {
             let initial = (ks_state (ts_primary s) = S_PRE_START_SKIP);
             let s = (if initial then s\<lparr>ts_primary := (ts_primary s)\<lparr>ks_state := S_PRE_START\<rparr>\<rparr> else s);
             let do_burst = (op = P_CONTROL_SOFT_RESET_V1);
             (ok, buf, s) \<leftarrow> session_read_control_auth lb now (tm_opt m) buf key_id initial s;
             let m = upd_sess i (\<lambda>_. s) m;
             Some (if ok then (Some i, m, buf, do_burst)
                   else (None, if initial then m\<lparr>tm_n_hard_errors := tm_n_hard_errors m + 1\<rparr> else m, buf, False)) }) })"

text \<open>
  The part from the reliability layer on, for an authenticated packet: the result is whether it ended without an
  error, and the state.
\<close>

definition control_input ::
    "tls_lib \<Rightarrow> int \<Rightarrow> tls_multi \<Rightarrow> openvpn_sockaddr \<Rightarrow> buffer \<Rightarrow> int \<Rightarrow> int \<Rightarrow> session_id \<Rightarrow> nat \<Rightarrow> bool \<Rightarrow> bool \<Rightarrow> (bool \<times> tls_multi) option" where
  "control_input lb now m from buf op key_id sid i new_link do_burst = do {
     let s = tm_session m ! i;
     c_assert (ks_state (ts_primary s) \<noteq> S_UNDEF);
     c_assert (ks_state (ts_primary s) \<noteq> S_ERROR);
     c_assert (session_id_defined (ts_session_id s));
     same \<leftarrow> (if new_link then Some True else link_socket_actual_match (ks_remote_addr (ts_primary s)) from);
     let s = (if new_link then s\<lparr>ts_primary := (ts_primary s)\<lparr>ks_session_id_remote := sid, ks_remote_addr := from\<rparr>\<rparr> else s);
     let m = (if new_link then m\<lparr>tm_n_sessions := tm_n_sessions m + 1\<rparr> else m);
     (if \<not> same then Some (False, m)
      else do {
        let s = (if do_burst \<and> \<not> ts_burst s
                 then s\<lparr>ts_primary := (ts_primary s)\<lparr>ks_send := reliable_schedule_now now (ks_send (ts_primary s))\<rparr>, ts_burst := True\<rparr> else s);
        (if ks_key_id (ts_primary s) \<noteq> key_id then Some (False, upd_sess i (\<lambda>_. s) m)
         else do {
           let ks = ts_primary s;
           (ok, st) \<leftarrow> control_receive (map (tl_junk lb) [0..<SID_SIZE]) \<lparr>cc_send = ks_send ks, cc_rec = ks_rec ks, cc_rec_ack = ks_rec_ack ks\<rparr>
                        (ts_session_id s) op buf;
           let ks = ks\<lparr>ks_send := cc_send st, ks_rec := cc_rec st, ks_rec_ack := cc_rec_ack st\<rparr>;
           let ks = (if ok then ks\<lparr>ks_peer_last_packet := now\<rparr> else ks);
           Some (ok, upd_sess i (\<lambda>_. s\<lparr>ts_primary := ks\<rparr>) m) }) })
   }"

text \<open>Leaving \<^verbatim>\<open>tls_pre_decrypt\<close>: the return value, the state, the buffer, the data channel key and the start of the authenticated data.\<close>

type_synonym pre_decrypt_result = "bool \<times> tls_multi \<times> buffer \<times> nat option \<times> int option"

definition control_done :: "bool \<Rightarrow> bool \<Rightarrow> tls_multi \<Rightarrow> buffer \<Rightarrow> int option \<Rightarrow> pre_decrypt_result" where
  "control_done ret ok m buf ad_start =
     (ret, if ok then m else m\<lparr>tm_n_soft_errors := tm_n_soft_errors m + 1\<rparr>, buf\<lparr>len := 0\<rparr>, None, ad_start)"

definition control_packet ::
    "tls_lib \<Rightarrow> int \<Rightarrow> tls_multi \<Rightarrow> openvpn_sockaddr \<Rightarrow> buffer \<Rightarrow> int option \<Rightarrow> u8 \<Rightarrow> session_id \<Rightarrow> pre_decrypt_result option" where
  "control_packet lb now m from buf ad_start c sid = do {
     let op = header_op c;
     let key_id = header_key_id c;
     let idx = find_session m [0..<TM_SIZE] sid;
     (if idx = Some TM_LAME_DUCK then Some (control_done False False m buf ad_start)
      else do {
        let new_link = (idx = None \<and> is_hard_reset_method2 op);
        (r, m, buf, do_burst) \<leftarrow>
          (if new_link then do { (r, m, buf) \<leftarrow> route_new_session lb now m from buf key_id; Some (r, m, buf, True) }
           else route_existing_session lb now m from buf op key_id idx);
        (case r of
           None \<Rightarrow> Some (control_done False False m buf ad_start)
         | Some i \<Rightarrow> do {
             (ok, m) \<leftarrow> control_input lb now m from buf op key_id sid i new_link do_burst;
             Some (control_done True ok m buf ad_start) }) })
   }"

definition tls_pre_decrypt ::
    "tls_lib \<Rightarrow> int \<Rightarrow> tls_multi \<Rightarrow> openvpn_sockaddr \<Rightarrow> buffer \<Rightarrow> bool \<Rightarrow> int option \<Rightarrow> pre_decrypt_result option" where
  "tls_pre_decrypt lb now m from buf floated ad_start =
     (if len buf \<le> 0 then Some (False, m, buf\<lparr>len := 0\<rparr>, None, ad_start)
      else do {
        c \<leftarrow> buf_first buf;
        let op = header_op c;
        (if op = P_DATA_V1 \<or> op = P_DATA_V2 then do {
           r \<leftarrow> handle_data_channel_packet m from buf floated ad_start;
           Some (False, r) }
         else if op < P_FIRST_OPCODE \<or> op > P_LAST_OPCODE then Some (control_done False False m buf ad_start)
         else if is_hard_reset_method2 op
              \<and> ((op = P_CONTROL_HARD_RESET_CLIENT_V2 \<or> op = P_CONTROL_HARD_RESET_CLIENT_V3) \<and> \<not> to_server (tm_opt m)
                 \<or> op = P_CONTROL_HARD_RESET_SERVER_V2 \<and> to_server (tm_opt m))
         then Some (control_done False False m buf ad_start)
         else do {
           (sid, _) \<leftarrow> session_id_read (snd (buf_advance buf 1));
           (case sid of
              None \<Rightarrow> Some (control_done False False m buf ad_start)
            | Some sid \<Rightarrow>
                if \<not> session_id_defined sid then Some (control_done False False m buf ad_start)
                else control_packet lb now m from buf ad_start c sid) }) })"


section \<open>Authentication status\<close>

datatype tls_auth_status = TLS_AUTHENTICATION_SUCCEEDED | TLS_AUTHENTICATION_FAILED | TLS_AUTHENTICATION_DEFERRED

definition TLS_AUTHENTICATED :: "tls_options \<Rightarrow> key_state \<Rightarrow> bool" where
  "TLS_AUTHENTICATED opt ks \<longleftrightarrow> ks_state ks \<ge> S_GOT_KEY - (if to_server opt then 1 else 0)"

text \<open>\<open>c\<close> is the first character of the control file, \<open>None\<close> when it cannot be opened.\<close>

definition key_state_test_auth_control_file ::
    "auth_deferred_status \<Rightarrow> bool \<Rightarrow> char option \<Rightarrow> auth_deferred_result \<times> auth_deferred_status" where
  "key_state_test_auth_control_file ads cached c =
     (if ad_file ads then
        if ad_status ads = ACF_PENDING \<and> \<not> cached then
          (case c of
             None \<Rightarrow> (ACF_PENDING, ads)
           | Some c \<Rightarrow> let ret = (if c = CHR ''1'' then ACF_SUCCEEDED else if c = CHR ''0'' then ACF_FAILED else ACF_PENDING)
                       in (ret, ads\<lparr>ad_status := ret\<rparr>))
        else (ad_status ads, ads)
      else (ACF_DISABLED, ads))"

text \<open>\<open>man\<close> is whether the management interface decides about deferred authentication (\<^verbatim>\<open>man_def_auth_test\<close>).\<close>

definition update_key_auth_status ::
    "int \<Rightarrow> bool \<Rightarrow> bool \<Rightarrow> char option \<times> char option \<Rightarrow> key_state \<Rightarrow> key_state" where
  "update_key_auth_status now cached man files ks =
     (if ks_authenticated ks = KS_AUTH_FALSE then ks
      else let (auth_plugin, pa) = key_state_test_auth_control_file (ks_plugin_auth ks) cached (fst files);
               (auth_script, sa) = key_state_test_auth_control_file (ks_script_auth ks) cached (snd files);
               auth_man = (if man then ks_mda_status ks else ACF_DISABLED);
               ks = ks\<lparr>ks_plugin_auth := pa, ks_script_auth := sa\<rparr>
           in if auth_plugin = ACF_FAILED \<or> auth_script = ACF_FAILED \<or> auth_man = ACF_FAILED then ks\<lparr>ks_authenticated := KS_AUTH_FALSE\<rparr>
              else if auth_plugin = ACF_PENDING \<or> auth_script = ACF_PENDING \<or> auth_man = ACF_PENDING
              then (if now \<ge> ks_auth_deferred_expire ks then ks\<lparr>ks_authenticated := KS_AUTH_FALSE\<rparr> else ks)
              else ks\<lparr>ks_authenticated := KS_AUTH_TRUE\<rparr>)"

definition cache_intervals :: "int list" where
  "cache_intervals = [0, 0, 0, 0, 0, 1, 1, 2, 2, 4, 8]"

definition tls_authentication_status_use_cache :: "int \<Rightarrow> tls_multi \<Rightarrow> bool" where
  "tls_authentication_status_use_cache now m \<longleftrightarrow>
     (let idx = unat (min_uint (tm_tas_cache_num_updates m) (of_nat (length cache_intervals) - 1))
      in tm_tas_cache_last_update m + cache_intervals ! idx \<ge> now)"

definition update_scanned :: "int \<Rightarrow> bool \<Rightarrow> bool \<Rightarrow> (nat \<Rightarrow> char option \<times> char option) \<Rightarrow> nat \<Rightarrow> tls_multi \<Rightarrow> tls_multi" where
  "update_scanned now cached man files i m =
     upd_key_scan i (\<lambda>ks. if TLS_AUTHENTICATED (tm_opt m) ks then update_key_auth_status now cached man (files i) ks else ks) m"

text \<open>The verdict over the keys that the scan found authenticated by TLS.\<close>

definition tls_authentication_status ::
    "int \<Rightarrow> bool \<Rightarrow> (nat \<Rightarrow> char option \<times> char option) \<Rightarrow> tls_multi \<Rightarrow> tls_auth_status \<times> tls_multi" where
  "tls_authentication_status now man files m =
     (let cached = tls_authentication_status_use_cache now m;
          m = fold (update_scanned now cached man files) [0..<KEY_SCAN_SIZE] m;
          active = filter (TLS_AUTHENTICATED (tm_opt m)) (List.map_filter (get_key_scan m) [0..<KEY_SCAN_SIZE]);
          m = (if cached then m else m\<lparr>tm_tas_cache_last_update := now, tm_tas_cache_num_updates := tm_tas_cache_num_updates m + 1\<rparr>)
      in (if \<exists>ks \<in> set active. ks_authenticated ks = KS_AUTH_FALSE then TLS_AUTHENTICATION_FAILED
          else if \<exists>ks \<in> set active. ks_authenticated ks = KS_AUTH_TRUE then TLS_AUTHENTICATION_SUCCEEDED
          else if active = [] \<or> (\<exists>ks \<in> set active. ks_authenticated ks = KS_AUTH_DEFERRED) then TLS_AUTHENTICATION_DEFERRED
          else TLS_AUTHENTICATION_FAILED, m))"

section \<open>Driving the sessions\<close>

text \<open>
  The inputs of one call of \<^verbatim>\<open>tls_multi_process\<close>: for each session the time, the inputs of the processing loop, the input
  after it and the session ids drawn if the session is initialised again; the address of the link; the time after
  the sessions; the control files of deferred authentication for the two queries; and what key generation needs.
\<close>

record multi_input =
  mi_now :: "nat \<Rightarrow> int"
  mi_rounds :: "nat \<Rightarrow> nat \<Rightarrow> tls_input"
  mi_final :: "nat \<Rightarrow> tls_input"
  mi_draws :: "nat \<Rightarrow> session_id list"
  mi_actual :: openvpn_sockaddr
  mi_end :: int
  mi_man_def_auth :: bool
  mi_files :: "nat \<Rightarrow> nat \<Rightarrow> char option \<times> char option"
  mi_exported :: "bytes option"
  mi_insecure :: bool
  mi_promote_draws :: "session_id list"

text \<open>
  The variables of the function: \<open>mr_owner\<close> names the session and the memory in it that \<^verbatim>\<open>to_link\<close> lies in, if it was
  written by a session; \<open>mr_dangling\<close> records that this memory has been freed.
\<close>

record multi_run =
  mr_multi :: tls_multi
  mr_to_link :: buffer
  mr_to_link_addr :: "openvpn_sockaddr option"
  mr_owner :: "(nat \<times> link_src) option"
  mr_dangling :: bool
  mr_wakeup :: int
  mr_active :: int
  mr_error :: bool

text \<open>
  \<^verbatim>\<open>check_session_buf_not_used\<close> compares the address of \<^verbatim>\<open>to_link\<close> with the work buffer of \<^verbatim>\<open>tls_wrap\<close> and the entries of the
  send arrays.
\<close>

definition check_session_buf_not_used :: "nat \<Rightarrow> multi_run \<Rightarrow> multi_run" where
  "check_session_buf_not_used i r =
     (if data (mr_to_link r) = None then r
      else if mr_owner r = Some (i, SRC_WORK)
              \<or> mr_owner r = Some (i, SRC_RELIABLE) \<and> ks_state (ts_primary (tm_session (mr_multi r) ! i)) \<noteq> S_UNDEF
      then r\<lparr>mr_to_link := (mr_to_link r)\<lparr>len := 0, data := None\<rparr>, mr_owner := None\<rparr>
      else r)"

text \<open>Freeing the memory of a session, and moving it to another index.\<close>

definition session_freed :: "nat \<Rightarrow> multi_run \<Rightarrow> multi_run" where
  "session_freed i r = (if map_option fst (mr_owner r) = Some i then r\<lparr>mr_owner := None, mr_dangling := True\<rparr> else r)"

definition session_moved :: "nat \<Rightarrow> nat \<Rightarrow> multi_run \<Rightarrow> multi_run" where
  "session_moved dest src r = r\<lparr>mr_owner := map_option (\<lambda>(i, x). (if i = src then dest else i, x)) (mr_owner r)\<rparr>"

definition fail_session :: "multi_input \<Rightarrow> nat \<Rightarrow> multi_run \<Rightarrow> multi_run option" where
  "fail_session mi i r = do {
     let m = mr_multi r;
     let s = tm_session m ! i;
     let m = m\<lparr>tm_n_soft_errors := tm_n_soft_errors m + 1\<rparr>;
     let r = r\<lparr>mr_multi := m, mr_error := (mr_error r \<or> i = TM_ACTIVE \<or> i = TM_INITIAL \<and> ks_state (get_primary_key m) < S_ACTIVE)\<rparr>;
     let r = check_session_buf_not_used i r;
     (if i = TM_ACTIVE \<and> ks_state (ts_lame_duck s) \<ge> S_GENERATED_KEYS \<and> \<not> to_single_session (tm_opt m) then do {
        let r = session_moved TM_LAME_DUCK TM_ACTIVE (session_freed TM_LAME_DUCK r);
        m \<leftarrow> move_session (in_now (mi_final mi i)) (mi_draws mi i) m TM_LAME_DUCK TM_ACTIVE True;
        Some (r\<lparr>mr_multi := m\<rparr>) }
      else do {
        let r = session_freed i r;
        s \<leftarrow> reset_session (in_now (mi_final mi i)) (tm_opt m) (mi_draws mi i) s;
        Some (r\<lparr>mr_multi := upd_sess i (\<lambda>_. s) m\<rparr>) })
   }"

text \<open>The effects of \<^verbatim>\<open>tls_process\<close> on a session, put back.\<close>

definition take_work :: "nat \<Rightarrow> bool \<Rightarrow> tls_work \<Rightarrow> tls_multi \<Rightarrow> multi_run \<Rightarrow> multi_run" where
  "take_work i active w m r =
     (let m = (if w_deauth w then tls_deauthenticate m else m);
          m = upd_sess i (\<lambda>_. w_session w) (m\<lparr>tm_multi_state := w_multi_state w, tm_peer_info := w_peer_info w\<rparr>);
          m = (case w_to_link_addr w of None \<Rightarrow> m | Some a \<Rightarrow> m\<lparr>tm_to_link_addr := a\<rparr>)
      in r\<lparr>mr_multi := m, mr_to_link := w_to_link w, mr_wakeup := w_wakeup w,
           mr_active := (if active then TLSMP_ACTIVE else mr_active r),
           mr_to_link_addr := (case w_to_link_addr w of None \<Rightarrow> mr_to_link_addr r | Some a \<Rightarrow> Some a),
           mr_owner := (case w_to_link_src w of None \<Rightarrow> mr_owner r | Some x \<Rightarrow> Some (i, x))\<rparr>)"

text \<open>The body of the loop over the sessions.\<close>

definition drive_session :: "tls_lib \<Rightarrow> multi_input \<Rightarrow> nat \<Rightarrow> multi_run \<Rightarrow> multi_run option" where
  "drive_session lb mi i r = do {
     let m = mr_multi r;
     let m = (if i = TM_INITIAL \<and> ks_state (ts_primary (tm_session m ! i)) = S_INITIAL \<and> ks_state (get_primary_key m) \<le> S_INITIAL
                 \<and> link_socket_actual_defined (mi_actual mi)
              then upd_sess i (\<lambda>s. s\<lparr>ts_primary := (ts_primary s)\<lparr>ks_remote_addr := mi_actual mi\<rparr>\<rparr>) m else m);
     let s = tm_session m ! i;
     (if (ks_state (ts_primary s) \<ge> S_INITIAL \<or> ks_state (ts_primary s) = S_ERROR_PRE)
         \<and> link_socket_actual_defined (ks_remote_addr (ts_primary s)) then do {
        (active, w) \<leftarrow> tls_process lb (tm_opt m) (mi_now mi i) (mi_rounds mi i) (mi_final mi i)
           \<lparr>w_session = s, w_multi_state = tm_multi_state m, w_peer_info = tm_peer_info m, w_deauth = False, w_to_link = mr_to_link r,
            w_to_link_addr = None, w_to_link_src = None, w_wakeup = mr_wakeup r, w_continue = False\<rparr>;
        let r = take_work i active w m r;
        (if ks_state (ts_primary (w_session w)) = S_ERROR then fail_session mi i r else Some r) }
      else Some (r\<lparr>mr_multi := m\<rparr>))
   }"

text \<open>Only the active session gets data channel keys here. Resending an authentication token after a renegotiation is outside the model.\<close>

definition generate_active_keys :: "tls_lib \<Rightarrow> multi_input \<Rightarrow> tls_multi \<Rightarrow> tls_multi option" where
  "generate_active_keys lb mi m =
     (let s = tm_session m ! TM_ACTIVE
      in if tm_multi_state m = CAS_CONNECT_DONE \<and> ks_state (ts_primary s) = S_ACTIVE \<and> ks_authenticated (ts_primary s) = KS_AUTH_TRUE then do {
           (ok, opt, s) \<leftarrow> tls_session_generate_data_channel_keys lb (mi_exported mi) (mi_insecure mi) (tm_opt m) s;
           let s = (if ok then s else s\<lparr>ts_primary := (ts_primary s)\<lparr>ks_authenticated := KS_AUTH_FALSE, ks_state := S_ERROR_PRE\<rparr>\<rparr>);
           Some (upd_sess TM_ACTIVE (\<lambda>_. s) (m\<lparr>tm_opt := opt\<rparr>)) }
         else Some m)"

text \<open>A session that TLS authenticated takes the place of the active one.\<close>

definition promote_initial :: "multi_input \<Rightarrow> tls_auth_status \<Rightarrow> multi_run \<Rightarrow> (tls_auth_status \<times> multi_run) option" where
  "promote_initial mi tas r =
     (if TLS_AUTHENTICATED (tm_opt (mr_multi r)) (ts_primary (tm_session (mr_multi r) ! TM_INITIAL)) then do {
        let r = check_session_buf_not_used TM_ACTIVE r;
        let r = session_moved TM_ACTIVE TM_INITIAL (session_freed TM_ACTIVE r);
        m \<leftarrow> move_session (mi_end mi) (mi_promote_draws mi) (mr_multi r) TM_ACTIVE TM_INITIAL True;
        let (tas, m) = tls_authentication_status (mi_end mi) (mi_man_def_auth mi) (mi_files mi 1) m;
        Some (tas, if tm_multi_state m = CAS_CONNECT_DONE
                   then r\<lparr>mr_multi := m\<lparr>tm_multi_state := CAS_RECONNECT_PENDING\<rparr>, mr_active := TLSMP_RECONNECT\<rparr>
                   else r\<lparr>mr_multi := m\<rparr>) }
      else Some (tas, r))"

definition tls_multi_process :: "tls_lib \<Rightarrow> multi_input \<Rightarrow> multi_run \<Rightarrow> (int \<times> multi_run) option" where
  "tls_multi_process lb mi r = do {
     let r = r\<lparr>mr_active := TLSMP_INACTIVE, mr_error := False\<rparr>;
     r \<leftarrow> drive_session lb mi TM_ACTIVE r;
     r \<leftarrow> drive_session lb mi TM_INITIAL r;
     r \<leftarrow> drive_session lb mi TM_LAME_DUCK r;
     let (tas, m) = tls_authentication_status (mi_end mi) (mi_man_def_auth mi) (mi_files mi 0) (mr_multi r);
     m \<leftarrow> generate_active_keys lb mi m;
     let m = (if tm_multi_state m = CAS_WAITING_AUTH \<and> tas = TLS_AUTHENTICATION_SUCCEEDED then m\<lparr>tm_multi_state := CAS_PENDING\<rparr> else m);
     (dies, wakeup) \<leftarrow> lame_duck_must_die (mi_end mi) (tm_session m ! TM_LAME_DUCK) (mr_wakeup r);
     let m = (if dies then upd_sess TM_LAME_DUCK (\<lambda>_. tls_session_zero) m else m);
     let r = (if dies then session_freed TM_LAME_DUCK r else r);
     (tas, r) \<leftarrow> promote_initial mi tas (r\<lparr>mr_multi := m, mr_wakeup := wakeup\<rparr>);
     let m = mr_multi r;
     let m = (if mr_error r \<and> list_all (\<lambda>ks. ks_state ks < S_ACTIVE) (List.map_filter (get_key_scan m) [0..<KEY_SCAN_SIZE])
              then m\<lparr>tm_n_hard_errors := tm_n_hard_errors m + 1\<rparr> else m);
     Some (if tas = TLS_AUTHENTICATION_FAILED then TLSMP_KILL else mr_active r, r\<lparr>mr_multi := m\<rparr>)
   }"

section \<open>Payload and addresses\<close>

definition tls_send_payload :: "int \<times> bool \<Rightarrow> key_state \<Rightarrow> bytes \<Rightarrow> (bool \<times> key_state) option" where
  "tls_send_payload bio ks bs =
     (if ks_state ks \<ge> S_ACTIVE then do { ret \<leftarrow> bio_write bio (int (length bs)); Some (ret = 1, ks) }
      else Some (True, ks\<lparr>ks_paybuf := ks_paybuf ks @ [bs]\<rparr>))"

definition tls_rec_payload :: "tls_multi \<Rightarrow> buffer \<Rightarrow> (bool \<times> tls_multi \<times> buffer) option" where
  "tls_rec_payload m buf = do {
     ks \<leftarrow> get_key_scan m 0;
     (if ks_state ks \<ge> S_ACTIVE \<and> len (ks_plaintext_read ks) \<noteq> 0 then do {
        (ok, buf) \<leftarrow> buf_copy buf (ks_plaintext_read ks);
        Some (ok, upd_key_scan 0 (\<lambda>ks. ks\<lparr>ks_plaintext_read := (ks_plaintext_read ks)\<lparr>len := 0\<rparr>\<rparr>) m, buf) }
      else Some (False, m, buf))
   }"

text \<open>The address of one key; the comparison runs only for a defined one.\<close>

definition move_remote_addr :: "openvpn_sockaddr \<Rightarrow> key_state \<Rightarrow> key_state option" where
  "move_remote_addr addr ks =
     (if \<not> link_socket_actual_defined (ks_remote_addr ks) then Some ks
      else do {
        same \<leftarrow> link_socket_actual_match addr (ks_remote_addr ks);
        Some (if same then ks else ks\<lparr>ks_remote_addr := addr\<rparr>) })"

fun move_session_addrs :: "openvpn_sockaddr \<Rightarrow> tls_session list \<Rightarrow> tls_session list option" where
  "move_session_addrs addr [] = Some []"
| "move_session_addrs addr (s # ss) = do {
     p \<leftarrow> move_remote_addr addr (ts_primary s);
     l \<leftarrow> move_remote_addr addr (ts_lame_duck s);
     ss \<leftarrow> move_session_addrs addr ss;
     Some (s\<lparr>ts_primary := p, ts_lame_duck := l\<rparr> # ss) }"

definition tls_update_remote_addr :: "tls_multi \<Rightarrow> openvpn_sockaddr \<Rightarrow> tls_multi option" where
  "tls_update_remote_addr m addr = do {
     ss \<leftarrow> move_session_addrs addr (tm_session m);
     Some (m\<lparr>tm_session := ss\<rparr>)
   }"

end
