(* ===== verification/Tls_Multi_Inv.thy ===== *)
theory Tls_Multi_Inv
  imports Tls_Multi
begin

text \<open>
  The invariant of the sessions of a tunnel, that every operation of the model keeps it, and what follows for the data
  channel: which keys encrypt and decrypt, and that the assertions about them hold in every reachable state.
\<close>

section \<open>The invariant of the sessions\<close>

definition key_ok :: "key_state \<Rightarrow> bool" where
  "key_ok ks \<longleftrightarrow> ks_state ks \<ge> S_ERROR \<and> (ks_state ks \<ge> S_GENERATED_KEYS \<longrightarrow> co_initialized (ks_crypto ks))
     \<and> length (r_array (ks_send ks)) \<le> nat TLS_RELIABLE_N_SEND_BUFFERS \<and> length (r_array (ks_rec ks)) \<le> nat TLS_RELIABLE_N_REC_BUFFERS"

definition key_id_ok :: "int \<Rightarrow> bool" where
  "key_id_ok k \<longleftrightarrow> 0 \<le> k \<and> k \<le> P_KEY_ID_MASK"

text \<open>
  A key with data channel keys has them initialised; the session's next key id follows that of its primary key,
  which follows that of the retiring key; and a retiring key has an expiry time.
\<close>

definition session_ok :: "tls_session \<Rightarrow> bool" where
  "session_ok s \<longleftrightarrow> key_ok (ts_primary s) \<and> key_ok (ts_lame_duck s)
     \<and> (ks_state (ts_primary s) \<noteq> S_UNDEF \<longrightarrow> key_id_ok (ks_key_id (ts_primary s)) \<and> ts_key_id s = next_key_id (ks_key_id (ts_primary s)))
     \<and> (ks_state (ts_lame_duck s) \<ge> S_INITIAL \<longrightarrow> ks_must_die (ts_lame_duck s) \<noteq> 0 \<and> key_id_ok (ks_key_id (ts_lame_duck s))
          \<and> ks_key_id (ts_primary s) = next_key_id (ks_key_id (ts_lame_duck s)))"

definition live_session :: "tls_session \<Rightarrow> bool" where
  "live_session s \<longleftrightarrow> session_ok s \<and> ks_state (ts_primary s) \<noteq> S_UNDEF"

definition multi_inv :: "tls_multi \<Rightarrow> bool" where
  "multi_inv m \<longleftrightarrow> 0 \<le> to_transition_window (tm_opt m) \<and> length (tm_session m) = TM_SIZE
     \<and> live_session (tm_session m ! TM_ACTIVE) \<and> live_session (tm_session m ! TM_INITIAL) \<and> session_ok (tm_session m ! TM_LAME_DUCK)"

lemma key_id_range:
  assumes "key_id_ok k"
  shows "key_id_ok (next_key_id k)" "next_key_id k \<noteq> k" "next_key_id k \<noteq> 0"
proof -
  have "k \<in> {0, 1, 2, 3, 4, 5, 6, 7}" using assms by (auto simp: key_id_ok_def P_KEY_ID_MASK_def)
  then show "key_id_ok (next_key_id k)" "next_key_id k \<noteq> k" "next_key_id k \<noteq> 0"
    by (auto simp: key_id_ok_def next_key_id_def P_KEY_ID_MASK_def Let_def)
qed

lemma reliable_init_length: "reliable_init n off k h = Some rel \<Longrightarrow> length (r_array rel) = nat k"
  unfolding reliable_init_def Let_def by (auto elim!: run_elims)

lemma key_state_init_facts:
  assumes "key_state_init opt s = Some (s', ks)"
  shows "s' = s\<lparr>ts_initial_opcode := P_CONTROL_SOFT_RESET_V1, ts_key_id := next_key_id (ts_key_id s)\<rparr>"
    "ks_state ks = S_INITIAL" "ks_key_id ks = ts_key_id s" "ks_authenticated ks = KS_AUTH_FALSE" "\<not> co_initialized (ks_crypto ks)" "key_ok ks"
  using assms unfolding key_state_init_def Let_def
  by (auto elim!: run_elims dest!: reliable_init_length
      simp: key_ok_def key_state_zero_def crypto_options_zero_def reliable_set_timeout_def state_defs
        TLS_RELIABLE_N_SEND_BUFFERS_def TLS_RELIABLE_N_REC_BUFFERS_def)

lemma key_ok_zero: "key_ok key_state_zero"
  by (simp add: key_ok_def key_state_zero_def reliable_zero_def state_defs)

lemma session_ok_zero: "session_ok tls_session_zero"
  by (simp add: session_ok_def tls_session_zero_def key_ok_zero) (simp add: key_state_zero_def state_defs)

lemma tls_session_init_live:
  assumes "tls_session_init now opt draws = Some s"
  shows "live_session s"
proof -
  from assms obtain s0 s1 ks where k: "key_state_init opt s0 = Some (s1, ks)" "s = s1\<lparr>ts_primary := ks\<rparr>"
    and s0: "ts_key_id s0 = 0" "ts_lame_duck s0 = key_state_zero"
    unfolding tls_session_init_def Let_def by (elim run_elims) (simp add: tls_session_zero_def)
  note f = key_state_init_facts [OF k(1)]
  show ?thesis using f s0 k(2)
    by (auto simp: live_session_def session_ok_def key_id_ok_def P_KEY_ID_MASK_def key_ok_zero)
      (auto simp: state_defs key_state_zero_def)
qed

lemma soft_reset_live:
  assumes "key_state_soft_reset now opt s = Some s'" "live_session s" "0 < now" "0 \<le> to_transition_window opt"
  shows "live_session s'"
proof -
  from assms(1) obtain s1 ks where k: "key_state_init opt (s\<lparr>ts_lame_duck := (ts_primary s)\<lparr>ks_must_die := now + to_transition_window opt\<rparr>\<rparr>) = Some (s1, ks)"
    and s': "s' = s1\<lparr>ts_primary := ks\<lparr>ks_session_id_remote := ks_session_id_remote (ts_primary s), ks_remote_addr := ks_remote_addr (ts_primary s)\<rparr>\<rparr>"
    unfolding key_state_soft_reset_def Let_def by (elim run_elims) simp
  note f = key_state_init_facts [OF k]
  have "key_id_ok (ks_key_id (ts_primary s))" "ts_key_id s = next_key_id (ks_key_id (ts_primary s))" "key_ok (ts_primary s)"
    using assms(2) by (auto simp: live_session_def session_ok_def)
  then show ?thesis using f s' assms(3,4) key_id_range(1)
    by (auto simp: live_session_def session_ok_def key_ok_def state_defs)
qed

text \<open>Driving a session keeps the invariant.\<close>

lemma hs_step_target: "hs_step server st st' \<Longrightarrow> st' \<in> {S_PRE_START, S_START, S_SENT_KEY, S_GOT_KEY, S_ACTIVE, S_ERROR_PRE, S_ERROR}"
  by (induction rule: hs_step.induct) auto

lemma hs_steps_target:
  "rtranclp (hs_step server) st st' \<Longrightarrow> st' = st \<or> st' \<in> {S_PRE_START, S_START, S_SENT_KEY, S_GOT_KEY, S_ACTIVE, S_ERROR_PRE, S_ERROR}"
  by (induction rule: rtranclp_induct) (auto dest: hs_step_target)

lemma session_step_live:
  assumes "session_step opt G w w'" "live_session (w_session w)"
  shows "live_session (w_session w')"
proof -
  note d = assms(1) [unfolded session_step_def session_identity_def ks_identity_def w_ks_def]
  have st: "ks_state (ts_primary (w_session w')) = ks_state (ts_primary (w_session w))
      \<or> ks_state (ts_primary (w_session w')) \<in> {S_PRE_START, S_START, S_SENT_KEY, S_GOT_KEY, S_ACTIVE, S_ERROR_PRE, S_ERROR}"
    using d hs_steps_target by blast
  have l: "ts_lame_duck (w_session w') = ts_lame_duck (w_session w)
      \<or> ts_lame_duck (w_session w') = (ts_lame_duck (w_session w))\<lparr>ks_authenticated := KS_AUTH_FALSE\<rparr>"
    using d by (simp add: lame_kept_def)
  have e: "ks_crypto (ts_primary (w_session w')) = ks_crypto (ts_primary (w_session w))"
      "length (r_array (ks_send (ts_primary (w_session w')))) = length (r_array (ks_send (ts_primary (w_session w))))"
      "length (r_array (ks_rec (ts_primary (w_session w')))) = length (r_array (ks_rec (ts_primary (w_session w))))"
      "ks_key_id (ts_primary (w_session w')) = ks_key_id (ts_primary (w_session w))" "ts_key_id (w_session w') = ts_key_id (w_session w)"
    using d by simp_all
  have k: "key_ok (ts_primary (w_session w))" "ks_state (ts_primary (w_session w)) \<noteq> S_UNDEF" using assms(2) by (auto simp: live_session_def session_ok_def)
  have p: "key_ok (ts_primary (w_session w'))" "ks_state (ts_primary (w_session w')) \<noteq> S_UNDEF"
    using st k unfolding key_ok_def e by (auto simp: state_defs)
  have q: "key_ok (ts_lame_duck (w_session w'))" using l assms(2) by (auto simp: live_session_def session_ok_def key_ok_def)
  show ?thesis using p q l assms(2) unfolding live_session_def session_ok_def e by auto
qed

lemma next_wakeup_session [simp]: "w_session (next_wakeup now opt w) = w_session w"
  by (simp add: next_wakeup_def Let_def)

lemma send_acks_live:
  assumes "send_acks lb opt inp w = Some (ok, w')" "live_session (w_session w)"
  shows "live_session (w_session w')"
proof (cases "len (w_to_link w) = 0 \<and> \<not> reliable_ack_empty (ks_rec_ack (w_ks w))")
  case False
  with assms show ?thesis by (auto simp: send_acks_def)
next
  case True
  show ?thesis
  proof (cases "control_packet_needs_wkc (w_ks w)")
    case wkc: True
    with True assms(1) obtain i rel where g: "reliable_get_buf_output_sequenced (ks_send (w_ks w)) = Some (i, rel)"
      and r: "(case i of None \<Rightarrow> Some (False, upd_ks (\<lambda>ks. ks\<lparr>ks_send := rel\<rparr>) w)
        | Some i \<Rightarrow> do { send \<leftarrow> reliable_mark_active_outgoing rel i P_CONTROL_WKC_V1; Some (True, upd_ks (\<lambda>ks. ks\<lparr>ks_send := send\<rparr>) w) }) = Some (ok, w')"
      unfolding send_acks_def by (auto elim!: run_elims)
    then obtain send where s: "w' = upd_ks (\<lambda>ks. ks\<lparr>ks_send := send\<rparr>) w" "length (r_array send) = length (r_array rel)"
      by (auto elim!: run_elims dest: mark_outgoing_act(3) split: option.splits)
    have "session_step opt (\<lambda>_. False) w w'"
      by (rule session_step_ks [where f = "\<lambda>ks. ks\<lparr>ks_send := send\<rparr>"]) (simp_all add: s ks_identity_def get_output_act(3) [OF g])
    from session_step_live [OF this assms(2)] show ?thesis .
  next
    case False
    with True assms(1) obtain b where "send_control lb opt inp b SRC_ACK P_ACK_V1 (int RELIABLE_ACK_SIZE) False w = Some w'"
      unfolding send_acks_def Let_def by (auto elim!: run_elims)
    from session_step_live [OF step_send_control [OF this] assms(2)] show ?thesis .
  qed
qed

lemma lame_duck_must_die_ok:
  assumes "session_ok s"
  shows "lame_duck_must_die now s wakeup \<noteq> None"
  using assms by (auto simp: lame_duck_must_die_def session_ok_def Let_def)

lemma tls_process_live:
  assumes "tls_process lb opt now inp fin w = Some (active, w')" "live_session (w_session w)" "0 < now" "0 \<le> to_transition_window opt"
  shows "live_session (w_session w')"
proof -
  from assms(1) obtain s dies wk where
    s: "(if ks_state (w_ks w) \<ge> S_GENERATED_KEYS \<and> should_trigger_renegotiation now opt (w_ks w)
           then key_state_soft_reset now opt (w_session w) else Some (w_session w)) = Some s"
    and r: "(case tls_process_loop LOOP_FUEL lb opt inp 0 (w\<lparr>w_session := (if dies then s\<lparr>ts_lame_duck := key_state_free (ts_lame_duck s) True\<rparr> else s), w_wakeup := wk\<rparr>) of
        Done True w \<Rightarrow> Some (False, w)
      | Done False w \<Rightarrow> do {
          (ok, w) \<leftarrow> send_acks lb opt fin w;
          (if \<not> ok then Some (False, w)
           else do {
             let w = next_wakeup (in_now fin) opt w;
             Some (if w_wakeup w \<le> 0 then (True, w\<lparr>w_wakeup := 1\<rparr>) else (len (w_to_link w) \<noteq> 0, w)) }) }
      | _ \<Rightarrow> None) = Some (active, w')"
    unfolding tls_process_def Let_def by (auto elim!: run_elims)
  have "live_session s" using s assms(2-4) soft_reset_live by (auto split: if_splits)
  then have l0: "live_session (if dies then s\<lparr>ts_lame_duck := key_state_free (ts_lame_duck s) True\<rparr> else s)"
    using key_ok_zero by (auto simp: live_session_def session_ok_def key_state_free_def) (auto simp: key_state_zero_def state_defs)
  let ?w = "w\<lparr>w_session := (if dies then s\<lparr>ts_lame_duck := key_state_free (ts_lame_duck s) True\<rparr> else s), w_wakeup := wk\<rparr>"
  from r obtain failed w1 where d: "tls_process_loop LOOP_FUEL lb opt inp 0 ?w = Done failed w1"
    by (auto split: loop_result.splits)
  have l1: "live_session (w_session w1)" using loop_step [OF d] l0 session_step_live by fastforce
  show ?thesis
  proof (cases failed)
    case True
    with r d l1 show ?thesis by simp
  next
    case False
    with r d obtain ok w2 where a: "send_acks lb opt fin w1 = Some (ok, w2)" and e: "w_session w' = w_session w2"
      by (auto elim!: run_elims simp: Let_def split: if_splits)
    from send_acks_live [OF a l1] e show ?thesis by simp
  qed
qed

text \<open>Changes of a key that the invariant does not look at.\<close>

definition ks_same :: "key_state \<Rightarrow> key_state \<Rightarrow> bool" where
  "ks_same ks ks' \<longleftrightarrow> ks_state ks' = ks_state ks \<and> co_initialized (ks_crypto ks') = co_initialized (ks_crypto ks)
     \<and> ks_key_id ks' = ks_key_id ks \<and> ks_must_die ks' = ks_must_die ks
     \<and> length (r_array (ks_send ks')) = length (r_array (ks_send ks)) \<and> length (r_array (ks_rec ks')) = length (r_array (ks_rec ks))"

definition session_same :: "tls_session \<Rightarrow> tls_session \<Rightarrow> bool" where
  "session_same s s' \<longleftrightarrow> ts_key_id s' = ts_key_id s \<and> ks_same (ts_primary s) (ts_primary s') \<and> ks_same (ts_lame_duck s) (ts_lame_duck s')"

lemma ks_same_refl [simp]: "ks_same ks ks"
  by (simp add: ks_same_def)

lemma session_same_ok: "session_same s s' \<Longrightarrow> session_ok s \<Longrightarrow> session_ok s'" "session_same s s' \<Longrightarrow> live_session s \<Longrightarrow> live_session s'"
  by (auto simp: session_same_def ks_same_def session_ok_def live_session_def key_ok_def)

lemma multi_inv_upd:
  assumes "multi_inv m" "i < TM_SIZE" "session_ok (f (tm_session m ! i))" "i \<noteq> TM_LAME_DUCK \<Longrightarrow> live_session (f (tm_session m ! i))"
  shows "multi_inv (upd_sess i f m)"
  using assms by (auto simp: multi_inv_def upd_sess_def nth_list_update TM_SIZE_def TM_ACTIVE_def TM_INITIAL_def TM_LAME_DUCK_def)

lemma multi_inv_sess:
  assumes "multi_inv m" "i < TM_SIZE"
  shows "session_ok (tm_session m ! i)" "i \<noteq> TM_LAME_DUCK \<Longrightarrow> live_session (tm_session m ! i)"
proof -
  have "i = 0 \<or> i = 1 \<or> i = 2" using assms(2) by (auto simp: TM_SIZE_def)
  then show "session_ok (tm_session m ! i)" "i \<noteq> TM_LAME_DUCK \<Longrightarrow> live_session (tm_session m ! i)"
    using assms(1) by (auto simp: multi_inv_def live_session_def TM_ACTIVE_def TM_INITIAL_def TM_LAME_DUCK_def)
qed

lemma multi_inv_upd_same:
  assumes "multi_inv m" "i < TM_SIZE" "session_same (tm_session m ! i) (f (tm_session m ! i))"
  shows "multi_inv (upd_sess i f m)"
proof (rule multi_inv_upd [OF assms(1,2)])
  show "session_ok (f (tm_session m ! i))" by (rule session_same_ok(1) [OF assms(3) multi_inv_sess(1) [OF assms(1,2)]])
  show "i \<noteq> TM_LAME_DUCK \<Longrightarrow> live_session (f (tm_session m ! i))" by (rule session_same_ok(2) [OF assms(3) multi_inv_sess(2) [OF assms(1,2)]])
qed

lemma multi_inv_upd_live: "multi_inv m \<Longrightarrow> i < TM_SIZE \<Longrightarrow> live_session (f (tm_session m ! i)) \<Longrightarrow> multi_inv (upd_sess i f m)"
  by (rule multi_inv_upd) (auto simp: live_session_def)

lemma tm_idx [simp]: "TM_ACTIVE < TM_SIZE" "TM_INITIAL < TM_SIZE" "TM_LAME_DUCK < TM_SIZE" "TM_ACTIVE \<noteq> TM_LAME_DUCK" "TM_INITIAL \<noteq> TM_LAME_DUCK"
    "TM_ACTIVE \<noteq> TM_INITIAL"
  by (simp_all add: TM_SIZE_def TM_ACTIVE_def TM_INITIAL_def TM_LAME_DUCK_def)

lemma multi_inv_scan:
  assumes "multi_inv m" "\<And>ks. ks_same ks (f ks)"
  shows "multi_inv (upd_key_scan i f m)"
  unfolding upd_key_scan_def using assms(2) by (auto intro!: multi_inv_upd_same [OF assms(1)] simp: session_same_def)

lemma multi_inv_fields:
  assumes "multi_inv m"
  shows "multi_inv (m\<lparr>tm_n_soft_errors := a\<rparr>)" "multi_inv (m\<lparr>tm_n_hard_errors := a\<rparr>)" "multi_inv (m\<lparr>tm_n_sessions := a\<rparr>)"
    "multi_inv (m\<lparr>tm_multi_state := ms\<rparr>)" "multi_inv (m\<lparr>tm_save_ks := sv\<rparr>)" "multi_inv (m\<lparr>tm_peer_info := pinfo\<rparr>)"
    "multi_inv (m\<lparr>tm_to_link_addr := ad\<rparr>)" "multi_inv (m\<lparr>tm_tas_cache_last_update := a, tm_tas_cache_num_updates := u\<rparr>)"
    "multi_inv (m\<lparr>tm_opt := (tm_opt m)\<lparr>to_renegotiate_bytes := a, to_aead_usage_limit := l\<rparr>\<rparr>)"
  using assms by (simp_all add: multi_inv_def)

lemma multi_inv_deauth: "multi_inv m \<Longrightarrow> multi_inv (tls_deauthenticate m)"
  by (auto simp: multi_inv_def tls_deauthenticate_def deauthenticate_session_def session_ok_def live_session_def key_ok_def
      TM_SIZE_def TM_ACTIVE_def TM_INITIAL_def TM_LAME_DUCK_def)

lemma move_session_inv:
  assumes "multi_inv m" "move_session now draws m dest src True = Some m'" "dest \<noteq> TM_LAME_DUCK \<Longrightarrow> src \<noteq> TM_LAME_DUCK"
  shows "multi_inv m'"
proof -
  from assms(2) obtain s where s: "src < TM_SIZE" "dest < TM_SIZE" "tls_session_init now (tm_opt m) draws = Some s"
    and m': "m' = upd_sess src (\<lambda>_. s) (upd_sess dest (\<lambda>_. tm_session m ! src) m)"
    unfolding move_session_def Let_def by (auto elim!: run_elims simp: upd_sess_def)
  have "multi_inv (upd_sess dest (\<lambda>_. tm_session m ! src) m)"
    using multi_inv_sess [OF assms(1) s(1)] assms(3) by (intro multi_inv_upd [OF assms(1) s(2)]) auto
  then show ?thesis unfolding m' using tls_session_init_live [OF s(3)] s(1) by (auto intro: multi_inv_upd_live)
qed

text \<open>Key generation.\<close>

lemma generate_keys_from_initialized: "generate_keys_from junk hmac n i co = Some co' \<Longrightarrow> co_initialized co' = co_initialized co"
proof (induction n arbitrary: i co)
  case (Suc n)
  from Suc.prems obtain x c where "generate_keys_from junk hmac n (Suc i) (co\<lparr>co_epoch_key_recv := x, co_future := c\<rparr>) = Some co'"
    unfolding generate_keys_from.simps Let_def by (elim bind_SomeE) (erule that)
  from Suc.IH [OF this] show ?case by simp
qed simp

lemma future_keys_initialized:
  assumes "epoch_generate_future_receive_keys junk hmac co = Some co'"
  shows "co_initialized co' = co_initialized co"
proof -
  from assms obtain n i fs where "generate_keys_from junk hmac n i (co\<lparr>co_future := fs\<rparr>) = Some co'"
    unfolding epoch_generate_future_receive_keys_def Let_def by (elim bind_SomeE Some_eqE, hypsubst) (erule that)
  from generate_keys_from_initialized [OF this] show ?thesis by simp
qed

lemma generate_key_expansion_initialized:
  assumes "generate_key_expansion junk hmac tls_prf exported use epoch kt server own remote k2 co = Some (ok, co')"
  shows "ok \<Longrightarrow> co_initialized co'" "\<not> ok \<Longrightarrow> co' = co"
proof -
  have i: "init_key_contexts junk hmac co epoch kt server key2 = Some c \<Longrightarrow> co_initialized c" for key2 c
    unfolding init_key_contexts_def init_epoch_keys_def epoch_init_key_ctx_def init_key_ctx_bi_def Let_def
    by (auto elim!: run_elims dest: future_keys_initialized split: if_splits)
  show "ok \<Longrightarrow> co_initialized co'" "\<not> ok \<Longrightarrow> co' = co"
    using assms i unfolding generate_key_expansion_def Let_def
    by (auto elim!: run_elims split: if_splits option.splits)
qed

lemma generate_keys_live:
  assumes "tls_session_generate_data_channel_keys lb exported insecure opt s = Some (ok, opt', s')" "live_session s"
  shows "live_session s'" "ks_state (ts_primary s') = (if ok then S_GENERATED_KEYS else ks_state (ts_primary s))"
    "opt' = opt\<lparr>to_renegotiate_bytes := to_renegotiate_bytes opt', to_aead_usage_limit := to_aead_usage_limit opt'\<rparr>"
proof -
  have "live_session s' \<and> ks_state (ts_primary s') = (if ok then S_GENERATED_KEYS else ks_state (ts_primary s))
    \<and> opt' = opt\<lparr>to_renegotiate_bytes := to_renegotiate_bytes opt', to_aead_usage_limit := to_aead_usage_limit opt'\<rparr>"
  proof (cases "ks_authenticated (ts_primary s) = KS_AUTH_FALSE")
    case True
    with assms show ?thesis
      by (auto simp: tls_session_generate_data_channel_keys_def Let_def live_session_def session_ok_def key_ok_def)
  next
    case False
    let ?ks = "set_flags (to_crypto_flags opt) (ts_primary s)"
    from False assms(1) obtain ok1 co where g: "generate_key_expansion (tl_junk lb) (tl_hmac lb) (tl_prf lb) exported (cf_use_tls_key_material_export (to_crypto_flags opt))
          (co_epoch_data_format (ks_crypto ?ks)) (to_key_type opt) (to_server opt) (ts_session_id s) (ks_session_id_remote ?ks)
          (ks_key_src ?ks) (ks_crypto ?ks) = Some (ok1, co)"
      and r1: "(if \<not> ok1 then (False, opt, s\<lparr>ts_primary := ?ks\<lparr>ks_crypto := co, ks_key_src := key_source2_zero\<rparr>\<rparr>)
                 else (True, opt\<lparr>to_renegotiate_bytes := tls_limit_reneg_bytes insecure (to_renegotiate_bytes opt),
                                 to_aead_usage_limit := tls_get_limit_aead (to_key_type opt)\<rparr>,
                       s\<lparr>ts_primary := ?ks\<lparr>ks_crypto := co, ks_key_src := key_source2_zero, ks_state := S_GENERATED_KEYS\<rparr>\<rparr>)) = (ok, opt', s')"
      unfolding tls_session_generate_data_channel_keys_def Let_def by (auto elim!: run_elims)
    have o: "ok1 = ok" using r1 by (auto split: if_splits)
    have r: "s' = s\<lparr>ts_primary := ?ks\<lparr>ks_crypto := co, ks_key_src := key_source2_zero, ks_state := (if ok then S_GENERATED_KEYS else ks_state (ts_primary s))\<rparr>\<rparr>"
        "opt' = opt\<lparr>to_renegotiate_bytes := to_renegotiate_bytes opt', to_aead_usage_limit := to_aead_usage_limit opt'\<rparr>"
      using r1 by (auto simp: set_flags_def split: if_splits)
    note gi = generate_key_expansion_initialized [OF g [unfolded o]]
    have c: "ok \<longrightarrow> co_initialized co" "\<not> ok \<longrightarrow> co_initialized co = co_initialized (ks_crypto (ts_primary s))"
      using gi by (auto simp: set_flags_def)
    have "live_session s'" using assms(2) c unfolding r(1)
      by (auto simp: live_session_def session_ok_def key_ok_def set_flags_def) (auto simp: state_defs)
    with r show ?thesis by simp
  qed
  then show "live_session s'" "ks_state (ts_primary s') = (if ok then S_GENERATED_KEYS else ks_state (ts_primary s))"
    "opt' = opt\<lparr>to_renegotiate_bytes := to_renegotiate_bytes opt', to_aead_usage_limit := to_aead_usage_limit opt'\<rparr>" by blast+
qed

lemma generate_active_inv:
  assumes "multi_inv m" "generate_active_keys lb mi m = Some m'"
  shows "multi_inv m'"
proof (cases "tm_multi_state m = CAS_CONNECT_DONE \<and> ks_state (ts_primary (tm_session m ! TM_ACTIVE)) = S_ACTIVE
    \<and> ks_authenticated (ts_primary (tm_session m ! TM_ACTIVE)) = KS_AUTH_TRUE")
  case True
  with assms(2) obtain ok opt s where g: "tls_session_generate_data_channel_keys lb (mi_exported mi) (mi_insecure mi) (tm_opt m) (tm_session m ! TM_ACTIVE) = Some (ok, opt, s)"
    and m': "m' = upd_sess TM_ACTIVE (\<lambda>_. if ok then s else s\<lparr>ts_primary := (ts_primary s)\<lparr>ks_authenticated := KS_AUTH_FALSE, ks_state := S_ERROR_PRE\<rparr>\<rparr>) (m\<lparr>tm_opt := opt\<rparr>)"
    unfolding generate_active_keys_def Let_def by (auto elim!: run_elims)
  have l: "live_session (tm_session m ! TM_ACTIVE)" using assms(1) by (simp add: multi_inv_def)
  note k = generate_keys_live [OF g l]
  have "multi_inv (m\<lparr>tm_opt := opt\<rparr>)" by (subst k(3)) (rule multi_inv_fields(9) [OF assms(1)])
  moreover have "live_session (if ok then s else s\<lparr>ts_primary := (ts_primary s)\<lparr>ks_authenticated := KS_AUTH_FALSE, ks_state := S_ERROR_PRE\<rparr>\<rparr>)"
    using k(1) by (auto simp: live_session_def session_ok_def key_ok_def) (auto simp: state_defs)
  ultimately show ?thesis unfolding m' by (auto intro!: multi_inv_upd_live)
qed (use assms in \<open>auto simp: generate_active_keys_def Let_def\<close>)

lemma update_key_auth_same: "ks_same ks (update_key_auth_status now cached man files ks)"
  by (auto simp: update_key_auth_status_def ks_same_def Let_def split: prod.splits)

lemma update_scanned_inv: "multi_inv m \<Longrightarrow> multi_inv (update_scanned now cached man files i m)"
  unfolding update_scanned_def by (erule multi_inv_scan) (auto simp: update_key_auth_same)

lemma fold_scanned_inv: "multi_inv m \<Longrightarrow> multi_inv (fold (update_scanned now cached man files) is m)"
  by (induction "is" arbitrary: m) (auto intro: update_scanned_inv)

lemma auth_status_inv: "multi_inv m \<Longrightarrow> multi_inv (snd (tls_authentication_status now man files m))"
  unfolding tls_authentication_status_def Let_def
  by (simp add: fold_scanned_inv) (auto intro: fold_scanned_inv multi_inv_fields)

lemma check_buf_multi [simp]: "mr_multi (check_session_buf_not_used i r) = mr_multi r"
  by (simp add: check_session_buf_not_used_def)

lemma freed_moved_multi [simp]: "mr_multi (session_freed i r) = mr_multi r" "mr_multi (session_moved d s r) = mr_multi r"
  by (simp_all add: session_freed_def session_moved_def)

lemma fail_session_inv:
  assumes "multi_inv (mr_multi r)" "fail_session mi i r = Some r'" "i < TM_SIZE"
  shows "multi_inv (mr_multi r')"
proof -
  let ?m = "(mr_multi r)\<lparr>tm_n_soft_errors := tm_n_soft_errors (mr_multi r) + 1\<rparr>"
  have m: "multi_inv ?m" by (rule multi_inv_fields(1) [OF assms(1)])
  show ?thesis
  proof (cases "i = TM_ACTIVE \<and> ks_state (ts_lame_duck (tm_session (mr_multi r) ! i)) \<ge> S_GENERATED_KEYS \<and> \<not> to_single_session (tm_opt (mr_multi r))")
    case True
    with assms(2) have "move_session (in_now (mi_final mi i)) (mi_draws mi i) ?m TM_LAME_DUCK TM_ACTIVE True = Some (mr_multi r')"
      unfolding fail_session_def Let_def by (auto elim!: run_elims)
    from move_session_inv [OF m this] show ?thesis by simp
  next
    case False
    with assms(2) obtain s where "tls_session_init (in_now (mi_final mi i)) (tm_opt (mr_multi r)) (mi_draws mi i) = Some s" "mr_multi r' = upd_sess i (\<lambda>_. s) ?m"
      unfolding fail_session_def Let_def reset_session_def by (auto elim!: run_elims)
    with m assms(3) show ?thesis by (auto intro!: multi_inv_upd_live dest: tls_session_init_live)
  qed
qed

lemma drive_session_inv:
  assumes inv: "multi_inv (mr_multi r)" and d: "drive_session lb mi i r = Some r'" and i: "i < TM_SIZE" and now: "0 < mi_now mi i"
  shows "multi_inv (mr_multi r')"
proof -
  define m where "m = (if i = TM_INITIAL \<and> ks_state (ts_primary (tm_session (mr_multi r) ! i)) = S_INITIAL \<and> ks_state (get_primary_key (mr_multi r)) \<le> S_INITIAL
      \<and> link_socket_actual_defined (mi_actual mi)
    then upd_sess i (\<lambda>s. s\<lparr>ts_primary := (ts_primary s)\<lparr>ks_remote_addr := mi_actual mi\<rparr>\<rparr>) (mr_multi r) else mr_multi r)"
  have m: "multi_inv m" unfolding m_def using inv i
    by (auto intro!: multi_inv_upd_same simp: session_same_def ks_same_def)
  let ?s = "tm_session m ! i"
  show ?thesis
  proof (cases "(ks_state (ts_primary ?s) \<ge> S_INITIAL \<or> ks_state (ts_primary ?s) = S_ERROR_PRE) \<and> link_socket_actual_defined (ks_remote_addr (ts_primary ?s))")
    case False
    with d have "r' = r\<lparr>mr_multi := m\<rparr>" unfolding drive_session_def Let_def m_def by (auto split: if_splits)
    with m show ?thesis by simp
  next
    case True
    define w0 where "w0 = \<lparr>w_session = ?s, w_multi_state = tm_multi_state m, w_peer_info = tm_peer_info m, w_deauth = False, w_to_link = mr_to_link r,
            w_to_link_addr = None, w_to_link_src = None, w_wakeup = mr_wakeup r, w_continue = False\<rparr>"
    from d True obtain active w where p: "tls_process lb (tm_opt m) (mi_now mi i) (mi_rounds mi i) (mi_final mi i) w0 = Some (active, w)"
      and r': "(if ks_state (ts_primary (w_session w)) = S_ERROR then fail_session mi i (take_work i active w m r) else Some (take_work i active w m r)) = Some r'"
      unfolding drive_session_def Let_def m_def [symmetric] w0_def [symmetric] if_P [OF True] by (elim run_elims) simp
    have live: "live_session ?s" using True multi_inv_sess(1) [OF m i] by (auto simp: live_session_def state_defs)
    have w: "live_session (w_session w)"
      using tls_process_live [OF p] live now m by (simp add: w0_def multi_inv_def)
    have "multi_inv (mr_multi (take_work i active w m r))"
      unfolding take_work_def Let_def using m w i by (auto intro!: multi_inv_fields multi_inv_upd_live multi_inv_deauth split: option.splits)
    then show ?thesis using r' fail_session_inv [OF _ _ i] by (auto split: if_splits)
  qed
qed

lemma promote_inv:
  assumes "multi_inv (mr_multi r)" "promote_initial mi tas r = Some (tas', r')"
  shows "multi_inv (mr_multi r')"
proof (cases "TLS_AUTHENTICATED (tm_opt (mr_multi r)) (ts_primary (tm_session (mr_multi r) ! TM_INITIAL))")
  case True
  with assms(2) obtain m where m: "move_session (mi_end mi) (mi_promote_draws mi) (mr_multi r) TM_ACTIVE TM_INITIAL True = Some m"
    and r: "mr_multi r' = snd (tls_authentication_status (mi_end mi) (mi_man_def_auth mi) (mi_files mi 1) m)
      \<or> mr_multi r' = (snd (tls_authentication_status (mi_end mi) (mi_man_def_auth mi) (mi_files mi 1) m))\<lparr>tm_multi_state := CAS_RECONNECT_PENDING\<rparr>"
    unfolding promote_initial_def Let_def by (auto elim!: run_elims split: if_splits prod.splits)
  have "multi_inv (snd (tls_authentication_status (mi_end mi) (mi_man_def_auth mi) (mi_files mi 1) m))"
    by (rule auth_status_inv, rule move_session_inv [OF assms(1) m]) simp
  then show ?thesis using r multi_inv_fields(4) by metis
qed (use assms in \<open>auto simp: promote_initial_def\<close>)

lemma tls_multi_process_inv:
  assumes inv: "multi_inv (mr_multi r)" and p: "tls_multi_process lb mi r = Some (c, r')" and now: "\<forall>i < TM_SIZE. 0 < mi_now mi i"
  shows "multi_inv (mr_multi r')"
proof -
  let ?r0 = "r\<lparr>mr_active := TLSMP_INACTIVE, mr_error := False\<rparr>"
  from p obtain r1 r2 r3 where d: "drive_session lb mi TM_ACTIVE ?r0 = Some r1" "drive_session lb mi TM_INITIAL r1 = Some r2"
      "drive_session lb mi TM_LAME_DUCK r2 = Some r3"
    unfolding tls_multi_process_def Let_def by (elim bind_SomeE) (erule that)
  have "multi_inv (mr_multi ?r0)" using inv by simp
  from drive_session_inv [OF this d(1)] now have "multi_inv (mr_multi r1)" by simp
  from drive_session_inv [OF this d(2)] now have "multi_inv (mr_multi r2)" by simp
  from drive_session_inv [OF this d(3)] now have i3: "multi_inv (mr_multi r3)" by simp
  obtain tas m4 where t: "tls_authentication_status (mi_end mi) (mi_man_def_auth mi) (mi_files mi 0) (mr_multi r3) = (tas, m4)" by fastforce
  with auth_status_inv [OF i3] have i4: "multi_inv m4" by (metis snd_conv)
  from p d t obtain m5 dies wk tas' r4 where g: "generate_active_keys lb mi m4 = Some m5"
    and r4: "promote_initial mi tas ((if dies then session_freed TM_LAME_DUCK r3 else r3)\<lparr>mr_multi :=
        (let m = (if tm_multi_state m5 = CAS_WAITING_AUTH \<and> tas = TLS_AUTHENTICATION_SUCCEEDED then m5\<lparr>tm_multi_state := CAS_PENDING\<rparr> else m5)
         in if dies then upd_sess TM_LAME_DUCK (\<lambda>_. tls_session_zero) m else m), mr_wakeup := wk\<rparr>) = Some (tas', r4)"
    and r': "mr_multi r' = mr_multi r4 \<or> mr_multi r' = (mr_multi r4)\<lparr>tm_n_hard_errors := tm_n_hard_errors (mr_multi r4) + 1\<rparr>"
    unfolding tls_multi_process_def Let_def by (auto elim!: run_elims)
  have i5: "multi_inv m5" by (rule generate_active_inv [OF i4 g])
  have i6: "multi_inv (if tm_multi_state m5 = CAS_WAITING_AUTH \<and> tas = TLS_AUTHENTICATION_SUCCEEDED then m5\<lparr>tm_multi_state := CAS_PENDING\<rparr> else m5)"
    using i5 by (auto intro: multi_inv_fields)
  then have "multi_inv (if dies then upd_sess TM_LAME_DUCK (\<lambda>_. tls_session_zero) (if tm_multi_state m5 = CAS_WAITING_AUTH \<and> tas = TLS_AUTHENTICATION_SUCCEEDED then m5\<lparr>tm_multi_state := CAS_PENDING\<rparr> else m5)
      else (if tm_multi_state m5 = CAS_WAITING_AUTH \<and> tas = TLS_AUTHENTICATION_SUCCEEDED then m5\<lparr>tm_multi_state := CAS_PENDING\<rparr> else m5))"
    using multi_inv_upd [of _ TM_LAME_DUCK "\<lambda>_. tls_session_zero"] session_ok_zero by auto
  with promote_inv [OF _ r4] have "multi_inv (mr_multi r4)" by (simp add: Let_def)
  with r' show ?thesis by (auto intro: multi_inv_fields)
qed

lemma receive_sequenced_length:
  assumes "receive_sequenced rel ack op buf = Some (ok, rel', ack')"
  shows "length (r_array rel') = length (r_array rel)"
proof -
  have "store_incoming rel i op b = Some (k, rel1) \<Longrightarrow> length (r_array rel1) = length (r_array rel)" for i b k rel1
    unfolding store_incoming_def reliable_mark_active_incoming_def Let_def
    by (elim run_elims, clarify, frule get_buf_act(3)) (auto split: if_splits)
  then show ?thesis using assms unfolding receive_sequenced_def
    by (auto elim!: run_elims split: if_splits option.splits)
qed

lemma send_purge_length: "length (r_array (reliable_send_purge rel ack)) = length (r_array rel)"
  unfolding reliable_send_purge_def by (induction ack arbitrary: rel) auto

lemma control_receive_length:
  assumes "control_receive junk st sid op buf = Some (ok, st')"
  shows "length (r_array (cc_send st')) = length (r_array (cc_send st))" "length (r_array (cc_rec st')) = length (r_array (cc_rec st))"
proof -
  have "length (r_array (cc_send st')) = length (r_array (cc_send st)) \<and> length (r_array (cc_rec st')) = length (r_array (cc_rec st))"
    using assms unfolding control_receive_def Let_def
    by (auto elim!: run_elims dest!: receive_sequenced_length simp: send_purge_length split: if_splits)
  then show "length (r_array (cc_send st')) = length (r_array (cc_send st))" "length (r_array (cc_rec st')) = length (r_array (cc_rec st))" by auto
qed

lemma read_auth_session:
  assumes "session_read_control_auth lb now opt buf key_id initial s = Some (ok, buf', s')"
  obtains a b where "s' = s\<lparr>ts_wrap := a, ts_wrap_reneg := b\<rparr>"
proof -
  from assms obtain ctx where s': "s' = put_control_view (set_tls_wrap (control_view opt s) key_id ctx) s"
    unfolding session_read_control_auth_def Let_def by (elim run_elims) blast
  show ?thesis
    by (rule that [where a = "cs_wrap (set_tls_wrap (control_view opt s) key_id ctx)" and b = "cs_wrap_reneg (set_tls_wrap (control_view opt s) key_id ctx)"])
      (simp add: s' put_control_view_def set_tls_wrap_def control_view_def Let_def)
qed

lemma read_auth_same: "session_read_control_auth lb now opt buf key_id initial s = Some (ok, buf', s') \<Longrightarrow> session_same s s'"
  by (erule read_auth_session) (simp add: session_same_def)

lemma upd_sess_inv_same:
  assumes "multi_inv m" "i < TM_SIZE" "session_same (tm_session m ! i) s"
  shows "multi_inv (upd_sess i (\<lambda>_. s) m)"
  using assms by (auto intro!: multi_inv_upd_same)

lemma route_new_inv:
  assumes "multi_inv m" "route_new_session lb now m from buf key_id = Some (r, m', buf')"
  shows "multi_inv m'" "r = None \<or> r = Some TM_INITIAL"
proof -
  have "multi_inv m' \<and> (r = None \<or> r = Some TM_INITIAL)"
  proof (cases "to_single_session (tm_opt m) \<and> tm_n_sessions m \<noteq> 0")
    case True
    with assms show ?thesis by (auto simp: route_new_session_def)
  next
    case False
    with assms(2) obtain ok b s where rd: "session_read_control_auth lb now (tm_opt m) buf key_id True (tm_session m ! TM_INITIAL) = Some (ok, b, s)"
      and r: "(if \<not> ok then Some (None, upd_sess TM_INITIAL (\<lambda>_. s) m, b)
         else Some (Some TM_INITIAL, upd_sess TM_INITIAL (\<lambda>_. s\<lparr>ts_untrusted_addr := from\<rparr>) m, b)) = Some (r, m', buf')"
      unfolding route_new_session_def if_not_P [OF False] by (elim run_elims) simp
    have same: "session_same (tm_session m ! TM_INITIAL) s" "session_same (tm_session m ! TM_INITIAL) (s\<lparr>ts_untrusted_addr := from\<rparr>)"
      using read_auth_same [OF rd] by (auto simp: session_same_def)
    show ?thesis using r upd_sess_inv_same [OF assms(1) _ same(1)] upd_sess_inv_same [OF assms(1) _ same(2)] by (auto split: if_splits)
  qed
  then show "multi_inv m'" "r = None \<or> r = Some TM_INITIAL" by auto
qed

lemma route_existing_inv:
  assumes inv: "multi_inv m" and i: "\<And>i. idx = Some i \<Longrightarrow> i < TM_SIZE \<and> i \<noteq> TM_LAME_DUCK" and now: "0 < now"
    and r: "route_existing_session lb now m from buf op key_id idx = Some (r, m', buf', burst)"
  shows "multi_inv m' \<and> (r = None \<or> r = idx)"
proof (cases idx)
  case None
  with r inv show ?thesis by (auto simp: route_existing_session_def)
next
  case (Some j)
  with i have j: "j < TM_SIZE" "j \<noteq> TM_LAME_DUCK" by auto
  let ?s = "tm_session m ! j"
  from r Some obtain ok where mt: "link_socket_actual_match (ks_remote_addr (ts_primary ?s)) from = Some ok"
    unfolding route_existing_session_def Let_def by (auto elim!: bind_SomeE)
  note r1 = r [unfolded route_existing_session_def Some option.case Let_def mt Option.bind.bind_lunit]
  show ?thesis
  proof (cases "ok \<and> op = P_CONTROL_SOFT_RESET_V1 \<and> ks_state (ts_primary ?s) \<ge> S_GENERATED_KEYS")
    case True
    with r1 obtain ok1 b s where rd: "session_read_control_auth lb now (tm_opt m) buf key_id False ?s = Some (ok1, b, s)"
      and rr: "(if \<not> ok1 then Some (None, upd_sess j (\<lambda>_. s) m, b, False)
              else do { s \<leftarrow> key_state_soft_reset now (tm_opt m) s; Some (Some j, upd_sess j (\<lambda>_. s) m, b, False) }) = Some (r, m', buf', burst)"
      by (auto elim!: run_elims)
    have same: "session_same ?s s" by (rule read_auth_same [OF rd])
    have live: "live_session s" using session_same_ok(2) [OF same] multi_inv_sess(2) [OF inv j(1)] j(2) by auto
    show ?thesis
    proof (cases ok1)
      case True
      with rr obtain s1 where s1: "key_state_soft_reset now (tm_opt m) s = Some s1" "m' = upd_sess j (\<lambda>_. s1) m" "r = Some j" by (auto elim!: run_elims)
      have "live_session s1" using soft_reset_live [OF s1(1) live now] inv by (simp add: multi_inv_def)
      with s1 Some show ?thesis using multi_inv_upd_live [OF inv j(1), of "\<lambda>_. s1"] by auto
    qed (use rr upd_sess_inv_same [OF inv j(1) same] in auto)
  next
    case False
    show ?thesis
    proof (cases ok)
      case True
      let ?i = "ks_state (ts_primary ?s) = S_PRE_START_SKIP"
      let ?s1 = "if ?i then ?s\<lparr>ts_primary := (ts_primary ?s)\<lparr>ks_state := S_PRE_START\<rparr>\<rparr> else ?s"
      from True False r1 obtain ok1 b s where rd: "session_read_control_auth lb now (tm_opt m) buf key_id ?i ?s1 = Some (ok1, b, s)"
        and rr: "r = (if ok1 then Some j else None)" "m' = (upd_sess j (\<lambda>_. s) m)\<lparr>tm_n_hard_errors := tm_n_hard_errors m'\<rparr>"
        by (auto elim!: run_elims split: if_splits)
      have "live_session ?s1" using multi_inv_sess(2) [OF inv j(1)] j(2)
        by (auto simp: live_session_def session_ok_def key_ok_def) (auto simp: state_defs)
      then have "live_session s" by (rule session_same_ok(2) [OF read_auth_same [OF rd]])
      then have "multi_inv (upd_sess j (\<lambda>_. s) m)" by (rule multi_inv_upd_live [OF inv j(1)])
      then have "multi_inv m'" by (subst rr(2)) (rule multi_inv_fields(2))
      with rr(1) Some show ?thesis by auto
    qed (use r1 inv in auto)
  qed
qed

lemma control_input_inv:
  assumes inv: "multi_inv m" and i: "i < TM_SIZE" and c: "control_input lb now m from buf op key_id sid i new_link burst = Some (ok, m')"
  shows "multi_inv m'"
proof -
  let ?s = "tm_session m ! i"
  define s1 where "s1 = (if new_link then ?s\<lparr>ts_primary := (ts_primary ?s)\<lparr>ks_session_id_remote := sid, ks_remote_addr := from\<rparr>\<rparr> else ?s)"
  define m1 where "m1 = (if new_link then m\<lparr>tm_n_sessions := tm_n_sessions m + 1\<rparr> else m)"
  define s2 where "s2 = (if burst \<and> \<not> ts_burst s1
      then s1\<lparr>ts_primary := (ts_primary s1)\<lparr>ks_send := reliable_schedule_now now (ks_send (ts_primary s1))\<rparr>, ts_burst := True\<rparr> else s1)"
  have m1: "multi_inv m1" "tm_session m1 = tm_session m" using inv by (auto simp: m1_def intro: multi_inv_fields)
  have s2: "session_same ?s s2" by (auto simp: s2_def s1_def session_same_def ks_same_def reliable_schedule_now_def)
  from c consider "m' = m1" | "m' = upd_sess i (\<lambda>_. s2) m1"
    | st where "control_receive (map (tl_junk lb) [0..<SID_SIZE]) \<lparr>cc_send = ks_send (ts_primary s2), cc_rec = ks_rec (ts_primary s2), cc_rec_ack = ks_rec_ack (ts_primary s2)\<rparr>
        (ts_session_id s2) op buf = Some (ok, st)"
      "m' = upd_sess i (\<lambda>_. s2\<lparr>ts_primary := (let ks = (ts_primary s2)\<lparr>ks_send := cc_send st, ks_rec := cc_rec st, ks_rec_ack := cc_rec_ack st\<rparr>
         in if ok then ks\<lparr>ks_peer_last_packet := now\<rparr> else ks)\<rparr>) m1"
    unfolding control_input_def Let_def s1_def [symmetric] m1_def [symmetric] s2_def [symmetric]
    by (auto elim!: run_elims split: if_splits)
  then show ?thesis
  proof cases
    case 3
    note l = control_receive_length [OF 3(1)]
    have "session_same s2 (s2\<lparr>ts_primary := (let ks = (ts_primary s2)\<lparr>ks_send := cc_send st, ks_rec := cc_rec st, ks_rec_ack := cc_rec_ack st\<rparr>
         in if ok then ks\<lparr>ks_peer_last_packet := now\<rparr> else ks)\<rparr>)"
      using l by (auto simp: session_same_def ks_same_def Let_def)
    with s2 have "session_same ?s (s2\<lparr>ts_primary := (let ks = (ts_primary s2)\<lparr>ks_send := cc_send st, ks_rec := cc_rec st, ks_rec_ack := cc_rec_ack st\<rparr>
         in if ok then ks\<lparr>ks_peer_last_packet := now\<rparr> else ks)\<rparr>)" by (auto simp: session_same_def ks_same_def)
    then show ?thesis unfolding 3(2) by (intro upd_sess_inv_same [OF m1(1) i]) (simp add: m1(2))
  qed (use m1 s2 i in \<open>auto intro!: upd_sess_inv_same\<close>)
qed

lemma find_session_range: "find_session m is sid = Some i \<Longrightarrow> i \<in> set is"
  by (induction "is") (auto split: if_splits)

lemma control_done_multi: "fst (snd (control_done ret ok m buf ad)) = (if ok then m else m\<lparr>tm_n_soft_errors := tm_n_soft_errors m + 1\<rparr>)"
  by (simp add: control_done_def)

lemma control_packet_inv:
  assumes inv: "multi_inv m" and now: "0 < now" and c: "control_packet lb now m from buf ad c sid = Some r"
  shows "multi_inv (fst (snd r))"
proof (cases "find_session m [0..<TM_SIZE] sid = Some TM_LAME_DUCK")
  case True
  with c inv show ?thesis by (auto simp: control_packet_def control_done_multi intro: multi_inv_fields)
next
  case False
  let ?idx = "find_session m [0..<TM_SIZE] sid" and ?new = "find_session m [0..<TM_SIZE] sid = None \<and> is_hard_reset_method2 (header_op c)"
  have idx: "\<And>i. ?idx = Some i \<Longrightarrow> i < TM_SIZE \<and> i \<noteq> TM_LAME_DUCK" using False by (auto dest: find_session_range)
  from False c obtain x m1 b1 burst where
    rt: "(if ?new then do { (r, m, buf) \<leftarrow> route_new_session lb now m from buf (header_key_id c); Some (r, m, buf, True) }
           else route_existing_session lb now m from buf (header_op c) (header_key_id c) ?idx) = Some (x, m1, b1, burst)"
    and k: "(case x of None \<Rightarrow> Some (control_done False False m1 b1 ad)
         | Some i \<Rightarrow> do { (ok, m) \<leftarrow> control_input lb now m1 from b1 (header_op c) (header_key_id c) sid i ?new burst;
             Some (control_done True ok m b1 ad) }) = Some r"
    unfolding control_packet_def Let_def if_not_P [OF False] by (elim run_elims) simp
  have m1: "multi_inv m1 \<and> (x = None \<or> x = Some TM_INITIAL \<or> x = ?idx)"
  proof (cases ?new)
    case True
    with rt have "route_new_session lb now m from buf (header_key_id c) = Some (x, m1, b1)" by (auto elim!: run_elims)
    from route_new_inv [OF inv this] show ?thesis by auto
  next
    case f: False
    from rt [unfolded if_not_P [OF f]] show ?thesis using route_existing_inv [OF inv idx now] by blast
  qed
  show ?thesis
  proof (cases x)
    case None
    with k m1 show ?thesis by (auto simp: control_done_multi intro: multi_inv_fields)
  next
    case (Some i)
    with m1 idx have i: "i < TM_SIZE" by auto
    from k Some obtain ok m2 where "control_input lb now m1 from b1 (header_op c) (header_key_id c) sid i ?new burst = Some (ok, m2)"
      "r = control_done True ok m2 b1 ad" by (auto elim!: run_elims)
    with control_input_inv [of m1 i] m1 i show ?thesis by (auto simp: control_done_multi intro: multi_inv_fields)
  qed
qed

lemma handle_data_inv:
  assumes "multi_inv m" "handle_data_channel_packet m from buf floated ad = Some (m', r)"
  shows "multi_inv m'"
proof -
  have sc: "multi_inv (upd_key_scan i (\<lambda>ks. ks\<lparr>ks_n_packets := ks_n_packets ks + 1, ks_n_bytes := ks_n_bytes ks + n\<rparr>) m)" for i n
    by (rule multi_inv_scan [OF assms(1)]) (simp add: ks_same_def)
  show ?thesis using assms multi_inv_fields(1) [OF assms(1)] sc unfolding handle_data_channel_packet_def Let_def
    by (auto elim!: run_elims split: option.splits if_splits)
qed

lemma pre_decrypt_inv:
  assumes "multi_inv m" "0 < now" "tls_pre_decrypt lb now m from buf floated ad = Some (ret, m', r)"
  shows "multi_inv m'"
proof -
  have dn: "multi_inv (m\<lparr>tm_n_soft_errors := tm_n_soft_errors m + 1\<rparr>)" by (rule multi_inv_fields(1) [OF assms(1)])
  have cp: "multi_inv m'" if "control_packet lb now m from buf ad c sid = Some (ret, m', r)" for c sid
    using control_packet_inv [OF assms(1,2) that] by simp
  have hd: "multi_inv m'" if "handle_data_channel_packet m from buf floated ad = Some (m', r')" for r'
    by (rule handle_data_inv [OF assms(1) that])
  show ?thesis using assms(1,3) dn unfolding tls_pre_decrypt_def Let_def
    by (auto elim!: run_elims simp: control_done_def split: if_splits option.splits) (erule cp hd)+
qed

section \<open>Reachable states\<close>

text \<open>
  What can happen to a tunnel: packets come in, the sessions are driven, data packets are sent and received (which changes
  the key's packet counters and epoch keys but not whether it is initialised), the caller generates keys
  for the active session, asks for a renegotiation or moves the connection's state forward, deferred authentication
  is decided, the peer floats to another address, a new connection starts from a checked cookie.
\<close>

inductive multi_step :: "tls_multi \<Rightarrow> tls_multi \<Rightarrow> bool" where
  packet_in: "0 < now \<Longrightarrow> tls_pre_decrypt lb now m src buf floated ad = Some (ret, m', r) \<Longrightarrow> multi_step m m'"
| driven: "\<forall>i < TM_SIZE. 0 < mi_now mi i \<Longrightarrow> tls_multi_process lb mi r = Some (c, r') \<Longrightarrow> multi_step (mr_multi r) (mr_multi r')"
| before_encrypt: "tls_pre_encrypt now m buf = Some (m', x) \<Longrightarrow> multi_step m m'"
| after_encrypt: "tls_post_encrypt m buf = Some m' \<Longrightarrow> multi_step m m'"
| data_channel: "\<forall>ks. co_initialized (f ks) = co_initialized (ks_crypto ks) \<Longrightarrow> multi_step m (upd_key_scan i (\<lambda>ks. ks\<lparr>ks_crypto := f ks\<rparr>) m)"
| keys_wanted: "tls_session_generate_data_channel_keys lb exported insecure (tm_opt m) (tm_session m ! TM_ACTIVE) = Some (ok, opt, s) \<Longrightarrow>
     multi_step m (upd_sess TM_ACTIVE (\<lambda>_. s) (m\<lparr>tm_opt := opt\<rparr>))"
| renegotiate: "0 < now \<Longrightarrow> tls_session_soft_reset now m = Some m' \<Longrightarrow> multi_step m m'"
| cookie_checked: "session_skip_to_pre_start now (tm_opt m) (tm_session m ! TM_INITIAL) st src = Some (ok, s) \<Longrightarrow>
     multi_step m (upd_sess TM_INITIAL (\<lambda>_. s) m)"
| payload_in: "tls_rec_payload m buf = Some (ok, m', buf') \<Longrightarrow> multi_step m m'"
| payload_out: "get_key_scan m 0 = Some ks \<Longrightarrow> tls_send_payload bio ks bs = Some (ok, ks') \<Longrightarrow> multi_step m (upd_key_scan 0 (\<lambda>_. ks') m)"
| floats: "tls_update_remote_addr m addr = Some m' \<Longrightarrow> multi_step m m'"
| state_moves: "multi_step m (m\<lparr>tm_multi_state := ms\<rparr>)"
| auth_decided: "multi_step m (upd_key_scan i (\<lambda>ks. ks\<lparr>ks_mda_status := a\<rparr>) m)"

lemma skip_live:
  assumes "session_skip_to_pre_start now opt s st src = Some (ok, s')" "live_session s"
  shows "live_session s'"
proof -
  define ks where "ks = (ts_primary s)\<lparr>ks_session_id_remote := pd_peer_session_id st, ks_remote_addr := src,
    ks_rec := (ks_rec (ts_primary s))\<lparr>r_packet_id := 1\<rparr>\<rparr>"
  from assms(1) obtain ks' where k: "session_move_pre_start now opt True ks = Some (ok, ks')"
    and s': "s' = s\<lparr>ts_session_id := ts_session_id s', ts_untrusted_addr := src, ts_burst := True, ts_wrap := ts_wrap s', ts_primary := ks'\<rparr>"
    unfolding session_skip_to_pre_start_def Let_def ks_def by (auto elim!: run_elims)
  have r: "ks_same ks (ks'\<lparr>ks_state := ks_state ks\<rparr>) \<and> (ks_state ks' = ks_state ks \<or> ks_state ks' = S_PRE_START_SKIP)"
  proof -
    from k obtain i rel where g: "reliable_get_buf_output_sequenced (ks_send ks) = Some (i, rel)"
      unfolding session_move_pre_start_def by (auto elim!: run_elims)
    show ?thesis using k g get_output_act(3) [OF g]
      by (auto simp: session_move_pre_start_def ks_same_def bind_eq_Some_conv mark_outgoing_act(3) mark_deleted_act(3) split: option.splits)
  qed
  have k0: "live_session (s\<lparr>ts_primary := ks\<rparr>)" using assms(2) by (simp add: ks_def live_session_def session_ok_def key_ok_def)
  show ?thesis using r k0 by (subst s') (auto simp: live_session_def session_ok_def key_ok_def ks_same_def state_defs)
qed

lemma move_addrs:
  "move_session_addrs addr ss = Some ss' \<Longrightarrow> length ss' = length ss \<and> (\<forall>i < length ss. session_same (ss ! i) (ss' ! i))"
proof (induction ss arbitrary: ss')
  case (Cons s ss)
  then obtain p l ss1 where a: "move_remote_addr addr (ts_primary s) = Some p" "move_remote_addr addr (ts_lame_duck s) = Some l"
    "move_session_addrs addr ss = Some ss1" "ss' = s\<lparr>ts_primary := p, ts_lame_duck := l\<rparr> # ss1" by (auto elim!: run_elims)
  have k: "move_remote_addr addr ks = Some ks' \<Longrightarrow> ks_same ks ks'" for ks ks'
    unfolding move_remote_addr_def by (auto elim!: run_elims simp: ks_same_def split: if_splits)
  from Cons.IH [OF a(3)] k [OF a(1)] k [OF a(2)] a(4) show ?case by (auto simp: session_same_def nth_Cons split: nat.splits)
qed simp

lemma multi_index_less: "TM_ACTIVE < TM_SIZE" "TM_INITIAL < TM_SIZE" "TM_LAME_DUCK < TM_SIZE"
  by (simp_all add: TM_ACTIVE_def TM_INITIAL_def TM_LAME_DUCK_def TM_SIZE_def)

lemma multi_step_inv: "multi_step m m' \<Longrightarrow> multi_inv m \<Longrightarrow> multi_inv m'"
proof (induction rule: multi_step.induct)
  case (packet_in now lb m src buf floated ad ret m' r)
  then show ?case by (blast intro: pre_decrypt_inv)
next
  case (driven mi lb r c r')
  then show ?case by (blast intro: tls_multi_process_inv)
next
  case (before_encrypt now m buf m' x)
  then have "\<exists>sv. m' = m\<lparr>tm_save_ks := sv\<rparr>"
    unfolding tls_pre_encrypt_def Let_def by (auto elim!: run_elims split: if_splits option.splits)
  with before_encrypt.prems show ?case by (auto intro: multi_inv_fields)
next
  case (after_encrypt m buf m')
  have "multi_inv (upd_key_scan i (\<lambda>ks. ks\<lparr>ks_n_packets := ks_n_packets ks + 1, ks_n_bytes := ks_n_bytes ks + n\<rparr>) (m\<lparr>tm_save_ks := None\<rparr>))" for i n
    by (rule multi_inv_scan) (auto intro: multi_inv_fields after_encrypt.prems simp: ks_same_def)
  with after_encrypt multi_inv_fields(5) [OF after_encrypt.prems] show ?case
    unfolding tls_post_encrypt_def Let_def by (auto elim!: run_elims split: if_splits)
next
  case (data_channel f m i)
  then show ?case by (intro multi_inv_scan) (auto simp: ks_same_def)
next
  case (keys_wanted lb exported insecure m ok opt s)
  note k = generate_keys_live [OF keys_wanted.hyps]
  have l: "live_session (tm_session m ! TM_ACTIVE)" using keys_wanted.prems by (simp add: multi_inv_def)
  have "multi_inv (m\<lparr>tm_opt := opt\<rparr>)" by (subst k(3) [OF l]) (rule multi_inv_fields(9) [OF keys_wanted.prems])
  with k(1) [OF l] show ?case by (auto intro!: multi_inv_upd_live)
next
  case (renegotiate now m m')
  then obtain s where s: "key_state_soft_reset now (tm_opt m) (tm_session m ! TM_ACTIVE) = Some s" "m' = upd_sess TM_ACTIVE (\<lambda>_. s) m"
    unfolding tls_session_soft_reset_def by (auto elim!: run_elims)
  have "live_session s" using renegotiate soft_reset_live [OF s(1)] by (auto simp: multi_inv_def)
  then show ?case unfolding s(2) using renegotiate.prems by (auto intro!: multi_inv_upd_live)
next
  case (cookie_checked now m st src ok s)
  then have "live_session s" by (auto intro: skip_live simp: multi_inv_def)
  then show ?case using cookie_checked.prems by (auto intro!: multi_inv_upd_live)
next
  case (payload_in m buf ok m' buf')
  have "multi_inv (upd_key_scan 0 (\<lambda>ks. ks\<lparr>ks_plaintext_read := (ks_plaintext_read ks)\<lparr>len := 0\<rparr>\<rparr>) m)"
    by (rule multi_inv_scan [OF payload_in.prems]) (simp add: ks_same_def)
  with payload_in show ?case unfolding tls_rec_payload_def by (auto elim!: run_elims split: if_splits)
next
  case (payload_out m ks bio bs ok ks')
  have ks: "ks = ts_primary (tm_session m ! TM_ACTIVE)" using payload_out by (simp add: get_key_scan_def)
  have "ks_same ks ks'" using payload_out unfolding tls_send_payload_def by (auto elim!: run_elims simp: ks_same_def split: if_splits)
  then show ?case unfolding upd_key_scan_def using payload_out.prems ks
    by (auto intro!: multi_inv_upd_same simp: session_same_def)
next
  case (floats m addr m')
  then obtain ss where ss: "move_session_addrs addr (tm_session m) = Some ss" "m' = m\<lparr>tm_session := ss\<rparr>"
    unfolding tls_update_remote_addr_def by (auto elim!: run_elims)
  have l: "length (tm_session m) = TM_SIZE" using floats.prems by (simp add: multi_inv_def)
  note e = move_addrs [OF ss(1)] and lt = multi_index_less
  have "session_same (tm_session m ! i) (ss ! i)" if "i < TM_SIZE" for i using e l that by simp
  note f = this [OF lt(1)] this [OF lt(2)] this [OF lt(3)]
  from floats.prems session_same_ok(2) [OF f(1)] session_same_ok(2) [OF f(2)] session_same_ok(1) [OF f(3)] e l show ?case
    unfolding ss(2) multi_inv_def by simp
next
  case (state_moves m ms)
  then show ?case by (rule multi_inv_fields)
next
  case (auth_decided m i a)
  then show ?case by (intro multi_inv_scan) (auto simp: ks_same_def)
qed

text \<open>The states of a tunnel whose sessions were set up from options with a transition window.\<close>

definition reachable :: "tls_multi \<Rightarrow> bool" where
  "reachable m \<longleftrightarrow> (\<exists>now d1 d2 opt mtu m0. 0 \<le> to_transition_window opt
     \<and> tls_multi_init_finalize now d1 d2 (tls_multi_init opt) mtu = Some m0 \<and> rtranclp multi_step m0 m)"

lemma init_inv:
  assumes "tls_multi_init_finalize now d1 d2 (tls_multi_init opt) mtu = Some m" "0 \<le> to_transition_window opt"
  shows "multi_inv m"
proof -
  from assms(1) obtain opt' s1 s2 where s: "tls_session_init now opt' d1 = Some s1" "tls_session_init now opt' d2 = Some s2"
    and opt': "to_transition_window opt' = to_transition_window opt"
    and m: "m = upd_sess TM_INITIAL (\<lambda>_. s2) (upd_sess TM_ACTIVE (\<lambda>_. s1) ((tls_multi_init opt)\<lparr>tm_opt := opt'\<rparr>))"
    unfolding tls_multi_init_finalize_def Let_def by (auto elim!: run_elims simp: tls_multi_init_def)
  show ?thesis unfolding m using tls_session_init_live [OF s(1)] tls_session_init_live [OF s(2)] opt' assms(2) session_ok_zero
    by (simp add: multi_inv_def upd_sess_def tls_multi_init_def TM_SIZE_def TM_ACTIVE_def TM_INITIAL_def TM_LAME_DUCK_def numeral_3_eq_3 nth_Cons')
qed

lemma reachable_inv: "reachable m \<Longrightarrow> multi_inv m"
proof -
  assume "reachable m"
  then obtain now d1 d2 opt mtu m0 where i: "tls_multi_init_finalize now d1 d2 (tls_multi_init opt) mtu = Some m0"
    "0 \<le> to_transition_window opt" and s: "rtranclp multi_step m0 m" unfolding reachable_def by blast
  from s init_inv [OF i] show ?thesis by (induction rule: rtranclp_induct) (auto intro: multi_step_inv)
qed

end
