(* ===== verification/Tls_Data_Keys.thy ===== *)
theory Tls_Data_Keys
  imports Tls_Multi_Inv
begin

text \<open>
  What the data channel can rely on under the invariant of the sessions: which key encrypts and which key decrypts a packet, that the
  packet header survives the way from one peer to the other, and where the guard against freed buffers falls short.
\<close>

section \<open>What the data channel relies on\<close>

text \<open>A key that may carry data: generated, and authenticated on all accounts.\<close>

definition scan_usable :: "tls_multi \<Rightarrow> nat \<Rightarrow> bool" where
  "scan_usable m i \<longleftrightarrow> (\<exists>ks. get_key_scan m i = Some ks \<and> ks_state ks \<ge> S_GENERATED_KEYS \<and> ks_authenticated ks = KS_AUTH_TRUE)"

text \<open>The period in which deferred authentication of the key may still fail is over.\<close>

definition scan_settled :: "int \<Rightarrow> tls_multi \<Rightarrow> nat \<Rightarrow> bool" where
  "scan_settled now m i \<longleftrightarrow> scan_usable m i \<and> (\<exists>ks. get_key_scan m i = Some ks \<and> ks_auth_deferred_expire ks \<le> now)"

lemma scan_key_ok:
  assumes "multi_inv m" "i < KEY_SCAN_SIZE"
  obtains ks where "get_key_scan m i = Some ks" "key_ok ks"
proof -
  have "i = 0 \<or> i = 1 \<or> i = 2" using assms(2) by (auto simp: KEY_SCAN_SIZE_def)
  moreover have "key_ok (ts_primary (tm_session m ! TM_ACTIVE))" "key_ok (ts_lame_duck (tm_session m ! TM_ACTIVE))"
    "key_ok (ts_lame_duck (tm_session m ! TM_LAME_DUCK))"
    using assms(1) unfolding multi_inv_def live_session_def session_ok_def by simp_all
  ultimately show thesis using that unfolding get_key_scan_def by fastforce
qed

lemma select_key_loop_spec:
  assumes "multi_inv m" "\<forall>i \<in> set is. i < KEY_SCAN_SIZE"
  shows "select_key_loop now m is sel =
    Some (case find (scan_settled now m) is of Some i \<Rightarrow> Some i
          | None \<Rightarrow> (case sel of None \<Rightarrow> find (scan_usable m) is | Some _ \<Rightarrow> sel))"
  using assms(2)
proof (induction "is" arbitrary: sel)
  case (Cons i "is")
  from Cons.prems obtain ks where ks: "get_key_scan m i = Some ks" "key_ok ks"
    using scan_key_ok [OF assms(1), of i] by auto
  show ?case using ks Cons.IH Cons.prems
    by (auto simp: scan_settled_def scan_usable_def key_ok_def split: option.splits)
qed (simp split: option.splits)

lemma select_key_spec:
  "multi_inv m \<Longrightarrow> tls_select_encryption_key now m =
    Some (case find (scan_settled now m) [0..<KEY_SCAN_SIZE] of Some i \<Rightarrow> Some i | None \<Rightarrow> find (scan_usable m) [0..<KEY_SCAN_SIZE])"
  unfolding tls_select_encryption_key_def by (subst select_key_loop_spec) (auto split: option.splits)

text \<open>The test of an incoming data packet against a scanned key.\<close>

definition scan_accepts :: "tls_multi \<Rightarrow> int \<Rightarrow> openvpn_sockaddr \<Rightarrow> bool \<Rightarrow> nat \<Rightarrow> bool" where
  "scan_accepts m key_id src floated i \<longleftrightarrow> scan_usable m i
     \<and> (\<exists>ks. get_key_scan m i = Some ks \<and> ks_key_id ks = key_id
          \<and> (floated \<or> link_socket_actual_match src (ks_remote_addr ks) = Some True))"

definition family_known :: "openvpn_sockaddr \<Rightarrow> bool" where
  "family_known a \<longleftrightarrow> sa_family a = FAMILY_INET \<or> sa_family a = FAMILY_INET6"

lemma find_data_key_spec:
  assumes "multi_inv m" "\<forall>i \<in> set is. i < KEY_SCAN_SIZE" "family_known src"
  shows "find_data_key m is key_id src floated = Some (find (scan_accepts m key_id src floated) is)"
  using assms(2)
proof (induction "is")
  case (Cons i "is")
  from Cons.prems obtain ks where ks: "get_key_scan m i = Some ks" "key_ok ks"
    using scan_key_ok [OF assms(1), of i] by auto
  obtain b where b: "link_socket_actual_match src (ks_remote_addr ks) = Some b"
    using assms(3) unfolding family_known_def link_socket_actual_match_def addr_port_match_def by (cases "sa_family src = FAMILY_INET") simp_all
  show ?case using ks b Cons
    by (auto simp: data_key_usable_def scan_accepts_def scan_usable_def)
qed simp

lemma find_scan_inv:
  assumes "multi_inv m" "find P [0..<KEY_SCAN_SIZE] = Some i"
  obtains ks where "get_key_scan m i = Some ks" "key_ok ks" "P i" "i < KEY_SCAN_SIZE"
proof -
  from assms(2) have "i \<in> set [0..<KEY_SCAN_SIZE]" "P i" unfolding find_Some_iff by (auto dest: nth_mem)
  with scan_key_ok [OF assms(1), of i] show thesis using that by auto
qed

text \<open>What becomes of a data packet, by the scan of the keys.\<close>

lemma handle_data_spec:
  assumes inv: "multi_inv m" and b: "buf_live buf" "buf_content buf = c # bs" and src: "family_known src"
  shows "\<exists>m' buf' k ad'. handle_data_channel_packet m src buf floated ad = Some (m', buf', k, ad') \<and>
    (case find (scan_accepts m (header_key_id c) src floated) [0..<KEY_SCAN_SIZE] of
       None \<Rightarrow> k = None \<and> m' = m \<and> len buf' = 0
     | Some i \<Rightarrow> if header_op c = P_DATA_V2 \<and> length bs < 4
                 then k = None \<and> m' = m\<lparr>tm_n_soft_errors := tm_n_soft_errors m + 1\<rparr> \<and> len buf' = 0
                 else k = Some i \<and> buf_content buf' = (if header_op c = P_DATA_V2 then drop 3 bs else bs)
                   \<and> ad' = (if header_op c = P_DATA_V2 then Some (offset buf) else if header_op c = P_DATA_V1 then Some (offset buf + 1) else ad))"
proof (cases "find (scan_accepts m (header_key_id c) src floated) [0..<KEY_SCAN_SIZE]")
  case None
  then show ?thesis using find_data_key_spec [OF inv _ src] buf_first_live [OF b]
    by (auto simp: handle_data_channel_packet_def)
next
  case (Some i)
  obtain ks where ks: "get_key_scan m i = Some ks" "key_ok ks" "scan_accepts m (header_key_id c) src floated i"
    using find_scan_inv [OF inv Some] by metis
  then have ini: "co_initialized (ks_crypto ks)" by (auto simp: scan_accepts_def scan_usable_def key_ok_def)
  obtain b1 where b1: "buf_advance buf 1 = (True, b1)" "buf_live b1" "buf_content b1 = bs" "len b1 = int (length bs)"
    using buf_advance_live [OF b(1), of "[c]" bs 1] b(2) by auto
  have o1: "offset b1 = offset buf + 1" using b1(1) by (auto simp: buf_advance_def split: if_splits)
  have k: "find_data_key m [0..<KEY_SCAN_SIZE] (header_key_id c) src floated = Some (Some i)"
    using find_data_key_spec [OF inv _ src] Some by auto
  have v: "P_DATA_V1 \<noteq> P_DATA_V2" "P_DATA_V2 \<noteq> P_DATA_V1" by (simp_all add: P_DATA_V1_def P_DATA_V2_def)
  note h = handle_data_channel_packet_def buf_first_live [OF b] k ks(1) ini b1 buf_bptr_live [OF b(1)] buf_bptr_live [OF b1(2)] o1 Let_def v
  show ?thesis
  proof (cases "header_op c = P_DATA_V2 \<and> \<not> length bs < 4")
    case True
    then obtain b2 where b2: "buf_advance b1 3 = (True, b2)" "buf_content b2 = drop 3 bs"
      using buf_advance_live [OF b1(2), of "take 3 bs" "drop 3 bs" 3] b1(3) by auto
    with True show ?thesis by (simp add: h Some b2)
  next
    case False
    then show ?thesis by (auto simp: h Some)
  qed
qed

text \<open>The header of a data packet.\<close>

lemma header_byte:
  fixes w p :: u32
  shows "(ucast (drop_bit 24 (push_bit 24 w OR (p AND 0xFFFFFF))) :: u8) = ucast w"
proof -
  have m: "(0xFFFFFF :: u32) = mask 24" by (simp add: mask_eq_exp_minus_1)
  show ?thesis unfolding m by (rule bit_word_eqI) (auto simp: bit_simps)
qed

lemma data_header:
  assumes "key_id_ok k" "op \<in> {P_DATA_V1, P_DATA_V2}"
  shows "header_op (word_of_int (push_bit P_OPCODE_SHIFT op OR k)) = op" "header_key_id (word_of_int (push_bit P_OPCODE_SHIFT op OR k)) = k"
    "(ucast (word_of_int (push_bit P_OPCODE_SHIFT op OR k) :: u32) :: u8) = word_of_int (push_bit P_OPCODE_SHIFT op OR k)"
proof -
  have "k \<in> {0, 1, 2, 3, 4, 5, 6, 7}" using assms(1) by (auto simp: key_id_ok_def P_KEY_ID_MASK_def)
  then show "header_op (word_of_int (push_bit P_OPCODE_SHIFT op OR k)) = op" "header_key_id (word_of_int (push_bit P_OPCODE_SHIFT op OR k)) = k"
    "(ucast (word_of_int (push_bit P_OPCODE_SHIFT op OR k) :: u32) :: u8) = word_of_int (push_bit P_OPCODE_SHIFT op OR k)"
    using assms(2) by (auto simp: header_op_def header_key_id_def P_OPCODE_SHIFT_def P_KEY_ID_MASK_def P_DATA_V1_def P_DATA_V2_def)
qed

lemma scan_key_id:
  assumes "multi_inv m" "i < KEY_SCAN_SIZE" "get_key_scan m i = Some ks" "ks_state ks \<ge> S_GENERATED_KEYS"
  shows "key_id_ok (ks_key_id ks)"
proof -
  have s: "ks_state ks \<ge> S_INITIAL" "ks_state ks \<noteq> S_UNDEF" using assms(4) by (auto simp: state_defs)
  have "i = 0 \<or> i = 1 \<or> i = 2" using assms(2) by (auto simp: KEY_SCAN_SIZE_def)
  moreover have "session_ok (tm_session m ! TM_ACTIVE)" "session_ok (tm_session m ! TM_LAME_DUCK)"
    using assms(1) unfolding multi_inv_def live_session_def by simp_all
  ultimately show ?thesis using assms(3) s unfolding get_key_scan_def session_ok_def by fastforce
qed

section \<open>Properties\<close>

text \<open>C17: Whatever sequence of packets, timer calls, renegotiations, deferred decisions and address changes a tunnel
  goes through after its sessions are set up, the invariant holds: the two keys of the active session that can carry data have
  different key ids (the new key's id follows the old one's, skipping 0), a retiring key in use always has an expiry time, and every key in
  the scan that has reached the state of generated keys has an initialised crypto context.\<close>

theorem reachable_keys:
  assumes "reachable m"
  shows "multi_inv m \<and>
    (let s = tm_session m ! TM_ACTIVE; p = ts_primary s; l = ts_lame_duck s
     in (ks_state l \<ge> S_INITIAL \<longrightarrow> ks_key_id p = next_key_id (ks_key_id l) \<and> ks_key_id p \<noteq> ks_key_id l \<and> ks_must_die l \<noteq> 0)
        \<and> 0 \<le> ks_key_id p \<and> ks_key_id p \<le> P_KEY_ID_MASK)
    \<and> list_all (\<lambda>i. \<exists>ks. get_key_scan m i = Some ks \<and> (ks_state ks < S_GENERATED_KEYS \<or> co_initialized (ks_crypto ks))) [0..<KEY_SCAN_SIZE]"
proof -
  note inv = reachable_inv [OF assms]
  have s: "live_session (tm_session m ! TM_ACTIVE)" using inv by (simp add: multi_inv_def)
  have "list_all (\<lambda>i. \<exists>ks. get_key_scan m i = Some ks \<and> (ks_state ks < S_GENERATED_KEYS \<or> co_initialized (ks_crypto ks))) [0..<KEY_SCAN_SIZE]"
    unfolding list_all_iff by (auto elim!: scan_key_ok [OF inv] simp: key_ok_def not_less)
  then show ?thesis using inv s key_id_range(2) by (auto simp: Let_def live_session_def session_ok_def key_id_ok_def)
qed

definition toy_start :: tls_multi where
  "toy_start = the (tls_multi_init_finalize 1 [[1, 2, 3, 4, 5, 6, 7, 8]] [[8, 7, 6, 5, 4, 3, 2, 1]] (tls_multi_init toy_options) 1250)"

lemma not_none_start: "\<not> Option.is_none (tls_multi_init_finalize 1 [[1, 2, 3, 4, 5, 6, 7, 8]] [[8, 7, 6, 5, 4, 3, 2, 1]] (tls_multi_init toy_options) 1250)"
  by code_simp

lemma toy_start_reachable: "reachable toy_start"
proof -
  have n: "tls_multi_init_finalize 1 [[1, 2, 3, 4, 5, 6, 7, 8]] [[8, 7, 6, 5, 4, 3, 2, 1]] (tls_multi_init toy_options) 1250 = Some toy_start"
    unfolding toy_start_def using not_none_start by (metis Option.is_none_simps(1) option.exhaust_sel)
  have "0 \<le> to_transition_window toy_options" by (simp add: toy_options_def)
  with n show ?thesis unfolding reachable_def by blast
qed

theorem reachable_keys_witness: "multi_inv toy_start \<and> 0 \<le> ks_key_id (ts_primary (tm_session toy_start ! TM_ACTIVE))"
  using reachable_keys [OF toy_start_reachable] by (simp add: Let_def)

text \<open>C18: Under the invariant, preparing a data packet never hits the assertion about the key's crypto context. It picks the first
  usable key (generated and fully authenticated, in the order primary, retiring, retired session) whose deferred-authentication period is over,
  otherwise the first usable key; with no usable key the packet is emptied and nothing is saved.\<close>

theorem tls_pre_encrypt_selects:
  assumes "multi_inv m" "0 < len buf"
  shows "tls_pre_encrypt now m buf =
    Some (case find (scan_settled now m) [0..<KEY_SCAN_SIZE] of
            Some i \<Rightarrow> (m\<lparr>tm_save_ks := Some i\<rparr>, buf, Some i)
          | None \<Rightarrow> (case find (scan_usable m) [0..<KEY_SCAN_SIZE] of
                       Some i \<Rightarrow> (m\<lparr>tm_save_ks := Some i\<rparr>, buf, Some i)
                     | None \<Rightarrow> (m\<lparr>tm_save_ks := None\<rparr>, buf\<lparr>len := 0\<rparr>, None)))"
proof -
  have s: "scan_settled now (m\<lparr>tm_save_ks := None\<rparr>) = scan_settled now m" "scan_usable (m\<lparr>tm_save_ks := None\<rparr>) = scan_usable m"
    by (auto simp: fun_eq_iff scan_settled_def scan_usable_def get_key_scan_def)
  show ?thesis using assms(2) select_key_spec [OF multi_inv_fields(5) [OF assms(1)], of now None] 
    by (auto simp: tls_pre_encrypt_def s split: option.splits)
qed

text \<open>A tunnel in the middle of a renegotiation: the new key is in use, the old one retires.\<close>

definition toy_key :: "int \<Rightarrow> int \<Rightarrow> key_state" where
  "toy_key k expire = key_state_zero\<lparr>ks_state := S_GENERATED_KEYS, ks_key_id := k, ks_authenticated := KS_AUTH_TRUE, ks_auth_deferred_expire := expire,
     ks_must_die := 100, ks_crypto := crypto_options_zero\<lparr>co_initialized := True\<rparr>, ks_remote_addr := sockaddr_zero\<lparr>sa_family := FAMILY_INET\<rparr>\<rparr>"

definition toy_keyed :: tls_multi where
  "toy_keyed = (tls_multi_init toy_options)\<lparr>tm_peer_id := 5, tm_session :=
     [tls_session_zero\<lparr>ts_key_id := 3, ts_primary := toy_key 2 60, ts_lame_duck := toy_key 1 0\<rparr>,
      tls_session_zero\<lparr>ts_key_id := 1, ts_primary := key_state_zero\<lparr>ks_state := S_INITIAL\<rparr>\<rparr>,
      tls_session_zero]\<rparr>"

lemma toy_keyed_inv: "multi_inv toy_keyed"
  by (simp add: multi_inv_def toy_keyed_def toy_key_def live_session_def session_ok_def key_ok_def key_id_ok_def TM_SIZE_def TM_ACTIVE_def
      TM_INITIAL_def TM_LAME_DUCK_def P_KEY_ID_MASK_def next_key_id_def tls_multi_init_def toy_options_def tls_session_zero_def key_state_zero_def
      crypto_options_zero_def reliable_zero_def state_defs Let_def)

lemma toy_keyed_scan: "get_key_scan toy_keyed 0 = Some (toy_key 2 60)" "get_key_scan toy_keyed 1 = Some (toy_key 1 0)"
  by (simp_all add: get_key_scan_def toy_keyed_def tls_session_zero_def TM_ACTIVE_def)

lemma toy_keyed_usable: "scan_usable toy_keyed 0" "scan_usable toy_keyed 1" "\<not> scan_settled 50 toy_keyed 0" "scan_settled 50 toy_keyed 1"
  unfolding scan_settled_def scan_usable_def toy_keyed_scan by (simp_all add: toy_key_def state_defs)

theorem tls_pre_encrypt_selects_witness:
  "tls_pre_encrypt 50 toy_keyed (full_buf [1, 2, 3]) = Some (toy_keyed\<lparr>tm_save_ks := Some 1\<rparr>, full_buf [1, 2, 3], Some 1)"
proof -
  have f: "find (scan_settled 50 toy_keyed) [0..<KEY_SCAN_SIZE] = Some 1"
    using toy_keyed_usable by (simp add: KEY_SCAN_SIZE_def upt_rec)
  show ?thesis by (subst tls_pre_encrypt_selects [OF toy_keyed_inv]) (simp_all add: f full_buf_def)
qed

text \<open>C19: Under the invariant an incoming data packet (in a live buffer, from an address of a known family) is always dealt with without failing
  an assertion or reading outside the buffer. The first key in the scan that is generated, fully authenticated, has the packet's key id and
  (unless the peer has floated) the packet's source address decrypts it, the header of its format is stripped and the start of the
  authenticated data is the one of the format; without such a key, or when a P_DATA_V2 packet has no payload, the buffer is emptied and no key is handed out.\<close>

theorem handle_data_channel_packet_key:
  assumes "multi_inv m" "buf_live buf" "buf_content buf = c # bs" "family_known src"
  shows "\<exists>m' buf' k ad'. handle_data_channel_packet m src buf floated ad = Some (m', buf', k, ad') \<and>
    (case find (scan_accepts m (header_key_id c) src floated) [0..<KEY_SCAN_SIZE] of
       None \<Rightarrow> k = None \<and> m' = m \<and> len buf' = 0
     | Some i \<Rightarrow> if header_op c = P_DATA_V2 \<and> length bs < 4
                 then k = None \<and> m' = m\<lparr>tm_n_soft_errors := tm_n_soft_errors m + 1\<rparr> \<and> len buf' = 0
                 else k = Some i \<and> buf_content buf' = (if header_op c = P_DATA_V2 then drop 3 bs else bs)
                   \<and> ad' = (if header_op c = P_DATA_V2 then Some (offset buf) else if header_op c = P_DATA_V1 then Some (offset buf + 1) else ad))"
  by (rule handle_data_spec [OF assms])

lemma toy_accepts: "find (scan_accepts toy_keyed 1 (sockaddr_zero\<lparr>sa_family := FAMILY_INET\<rparr>) False) [0..<KEY_SCAN_SIZE] = Some 1"
proof -
  have "\<not> scan_accepts toy_keyed 1 (sockaddr_zero\<lparr>sa_family := FAMILY_INET\<rparr>) False 0" "scan_accepts toy_keyed 1 (sockaddr_zero\<lparr>sa_family := FAMILY_INET\<rparr>) False 1"
    unfolding scan_accepts_def scan_usable_def toy_keyed_scan
    by (simp_all add: toy_key_def state_defs link_socket_actual_match_def addr_port_match_def)
  then show ?thesis by (simp add: KEY_SCAN_SIZE_def upt_rec)
qed

theorem handle_data_channel_packet_key_witness:
  "\<exists>m' buf' ad'. handle_data_channel_packet toy_keyed (sockaddr_zero\<lparr>sa_family := FAMILY_INET\<rparr>) (full_buf [0x49, 0, 0, 5, 7, 8]) False None
     = Some (m', buf', Some 1, ad') \<and> buf_content buf' = [7, 8]"
proof -
  have k: "header_key_id 0x49 = 1" "header_op 0x49 = P_DATA_V2" by (simp_all add: header_key_id_def header_op_def P_KEY_ID_MASK_def P_OPCODE_SHIFT_def P_DATA_V2_def)
  have "\<exists>m' buf' k ad'. handle_data_channel_packet toy_keyed (sockaddr_zero\<lparr>sa_family := FAMILY_INET\<rparr>) (full_buf [0x49, 0, 0, 5, 7, 8]) False None = Some (m', buf', k, ad') \<and>
    k = Some 1 \<and> buf_content buf' = [7, 8]"
    using handle_data_channel_packet_key [OF toy_keyed_inv, of "full_buf [0x49, 0, 0, 5, 7, 8]" "0x49" "[0, 0, 5, 7, 8]" "sockaddr_zero\<lparr>sa_family := FAMILY_INET\<rparr>" False None]
    by (auto simp: k toy_accepts family_known_def full_buf_def buf_live_def buf_wf_def buf_content_def BUF_SIZE_MAX_def slice_def)
  then show ?thesis by blast
qed

lemma scan_save [simp]: "get_key_scan (m\<lparr>tm_save_ks := x\<rparr>) i = get_key_scan m i"
  by (simp add: get_key_scan_def)

lemma pre_encrypt_key:
  assumes "multi_inv m" "tls_pre_encrypt now m buf = Some (m1, buf1, Some i)"
  obtains ks where "m1 = m\<lparr>tm_save_ks := Some i\<rparr>" "buf1 = buf" "0 < len buf" "get_key_scan m i = Some ks" "key_id_ok (ks_key_id ks)"
proof -
  have inv: "multi_inv (m\<lparr>tm_save_ks := None\<rparr>)" by (rule multi_inv_fields(5) [OF assms(1)])
  let ?m = "m\<lparr>tm_save_ks := None\<rparr>"
  from assms(2) select_key_spec [OF inv, of now] have r: "0 < len buf" "m1 = m\<lparr>tm_save_ks := Some i\<rparr>" "buf1 = buf"
    "find (scan_settled now ?m) [0..<KEY_SCAN_SIZE] = Some i \<or> find (scan_usable ?m) [0..<KEY_SCAN_SIZE] = Some i"
    by (auto simp: tls_pre_encrypt_def Let_def split: if_splits option.splits)
  from r(4) have u: "scan_usable ?m i" "i < KEY_SCAN_SIZE"
    using find_scan_inv [OF inv] by (metis scan_settled_def)+
  then obtain ks where ks: "get_key_scan ?m i = Some ks" "ks_state ks \<ge> S_GENERATED_KEYS" by (auto simp: scan_usable_def)
  with scan_key_id [OF inv u(2)] show thesis using that [OF r(2,3,1), of ks] by simp
qed

lemma or_word_of_int: "word_of_int a OR word_of_int b = (word_of_int (a OR b) :: 'a::len word)"
  by (simp add: of_int_or_eq)

lemma be32_header:
  fixes p :: u32
  shows "\<exists>b1 b2 b3. be32 (push_bit 24 w OR (p AND 0xFFFFFF)) = [ucast w, b1, b2, b3]"
  unfolding be32_def header_byte by blast

lemma peer_id_back:
  fixes w p :: u32
  shows "(push_bit 24 w OR (p AND 0xFFFFFF)) AND 0xFFFFFF = p AND 0xFFFFFF"
proof -
  have m: "(0xFFFFFF :: u32) = mask 24" by (simp add: mask_eq_exp_minus_1)
  show ?thesis unfolding m by (rule bit_word_eqI) (auto simp: bit_simps)
qed

text \<open>C20: The header a sender puts in front of a data packet is read back by its peer: for a packet accepted by \<open>tls_pre_encrypt\<close> with room for the header, neither
  format's function fails, and when the receiver has a usable key with the sender's key id, that key is chosen, the receiver is left with exactly the bytes behind
  the header, and the peer id in the packet is the sender's 24-bit peer id.\<close>

theorem data_opcode_roundtrip:
  assumes "multi_inv m" "tls_pre_encrypt now m buf = Some (m1, buf1, Some i)" "get_key_scan m i = Some ks" "buf_live buf" "4 \<le> buf_headroom buf"
    and "multi_inv r" "family_known src" "find (scan_accepts r (ks_key_id ks) src floated) [0..<KEY_SCAN_SIZE] = Some j"
  shows "\<exists>pkt1 pkt2 r1 r2 out1 out2. tls_prepend_opcode_v1 m1 buf1 = Some pkt1 \<and> tls_prepend_opcode_v2 m1 buf1 = Some pkt2
    \<and> handle_data_channel_packet r src pkt1 floated ad = Some (r1, out1, Some j, Some (offset pkt1 + 1)) \<and> buf_content out1 = buf_content buf
    \<and> handle_data_channel_packet r src pkt2 floated ad = Some (r2, out2, Some j, Some (offset pkt2)) \<and> buf_content out2 = buf_content buf
    \<and> rd32 (take 4 (buf_content pkt2)) AND 0xFFFFFF = tm_peer_id m AND 0xFFFFFF"
proof -
  from pre_encrypt_key [OF assms(1,2)] assms(3) have e: "m1 = m\<lparr>tm_save_ks := Some i\<rparr>" "buf1 = buf" "0 < len buf" "key_id_ok (ks_key_id ks)" by auto
  have g: "get_key_scan m1 i = Some ks" using assms(3) by (simp add: e(1))
  let ?h = "\<lambda>op. word_of_int (push_bit P_OPCODE_SHIFT op OR ks_key_id ks) :: u8"
  note dh = data_header [OF e(4)]
  let ?w = "push_bit 24 (word_of_int (push_bit P_OPCODE_SHIFT P_DATA_V2 OR ks_key_id ks) :: u32) OR (tm_peer_id m AND 0xFFFFFF)"
  obtain b1 b2 b3 where w: "be32 ?w = [?h P_DATA_V2, b1, b2, b3]" 
    using be32_header [of "word_of_int (push_bit P_OPCODE_SHIFT P_DATA_V2 OR ks_key_id ks)" "tm_peer_id m"] dh(3) [of P_DATA_V2]
    by (simp del: of_int_or_eq) blast
  obtain pkt1 where p1: "buf_write_prepend buf [?h P_DATA_V1] = Some (True, pkt1)" "buf_live pkt1" "buf_content pkt1 = ?h P_DATA_V1 # buf_content buf"
    using wire.push_ok [OF assms(4), of "[?h P_DATA_V1]"] assms(5) by auto
  obtain pkt2 where p2: "buf_write_prepend buf (be32 ?w) = Some (True, pkt2)" "buf_live pkt2" "buf_content pkt2 = be32 ?w @ buf_content buf"
    using wire.push_ok [OF assms(4), of "be32 ?w"] assms(5) by auto
  have ne: "buf_content buf \<noteq> []" using e(3) len_buf_content [OF assms(4)] by auto
  have "tls_prepend_opcode_v1 m1 buf1 = Some pkt1"
    using g p1(1) e(4) by (simp add: tls_prepend_opcode_v1_def e(1,2) or_word_of_int key_id_ok_def)
  moreover have "tls_prepend_opcode_v2 m1 buf1 = Some pkt2"
    using g p2(1) by (simp add: tls_prepend_opcode_v2_def e(1,2) Let_def)
  moreover have "\<exists>r1 out1. handle_data_channel_packet r src pkt1 floated ad = Some (r1, out1, Some j, Some (offset pkt1 + 1)) \<and> buf_content out1 = buf_content buf"
    using handle_data_spec [OF assms(6) p1(2,3) assms(7), of floated ad] assms(8) dh(1,2) [of P_DATA_V1]
    by (auto simp: P_DATA_V1_def P_DATA_V2_def)
  moreover have "\<exists>r2 out2. handle_data_channel_packet r src pkt2 floated ad = Some (r2, out2, Some j, Some (offset pkt2)) \<and> buf_content out2 = buf_content buf"
    using handle_data_spec [OF assms(6) p2(2) _ assms(7), of "?h P_DATA_V2" "[b1, b2, b3] @ buf_content buf" floated ad] p2(3) assms(8) dh(1,2) [of P_DATA_V2] ne w
    by auto
  moreover have "rd32 (take 4 (buf_content pkt2)) AND 0xFFFFFF = tm_peer_id m AND 0xFFFFFF"
    using p2(3) peer_id_back by simp
  ultimately show ?thesis by blast
qed

theorem data_opcode_roundtrip_witness:
  "\<exists>m1 pkt r' out. tls_pre_encrypt 50 toy_keyed \<lparr>capacity = 6, offset = 4, len = 2, data = Some [0, 0, 0, 0, 7, 8]\<rparr>
      = Some (m1, \<lparr>capacity = 6, offset = 4, len = 2, data = Some [0, 0, 0, 0, 7, 8]\<rparr>, Some 1)
    \<and> tls_prepend_opcode_v2 m1 \<lparr>capacity = 6, offset = 4, len = 2, data = Some [0, 0, 0, 0, 7, 8]\<rparr> = Some pkt
    \<and> handle_data_channel_packet toy_keyed (sockaddr_zero\<lparr>sa_family := FAMILY_INET\<rparr>) pkt False None = Some (r', out, Some 1, Some (offset pkt))
    \<and> buf_content out = [7, 8]"
proof -
  let ?b = "\<lparr>capacity = 6, offset = 4, len = 2, data = Some [0, 0, 0, 0, 7, 8]\<rparr>" and ?a = "sockaddr_zero\<lparr>sa_family := FAMILY_INET\<rparr>"
  have f: "find (scan_settled 50 (toy_keyed\<lparr>tm_save_ks := None\<rparr>)) [0..<KEY_SCAN_SIZE] = Some 1"
    using toy_keyed_usable by (simp add: KEY_SCAN_SIZE_def upt_rec scan_settled_def scan_usable_def get_key_scan_def)
  have e: "tls_pre_encrypt 50 toy_keyed ?b = Some (toy_keyed\<lparr>tm_save_ks := Some 1\<rparr>, ?b, Some 1)"
    using select_key_spec [OF multi_inv_fields(5) [OF toy_keyed_inv], of 50 None] by (simp add: tls_pre_encrypt_def f)
  have b: "buf_live ?b" "4 \<le> buf_headroom ?b" "buf_content ?b = [7, 8]"
    by (simp_all add: buf_live_def buf_wf_def buf_headroom_def buf_content_def slice_def BUF_SIZE_MAX_def)
  have k: "ks_key_id (toy_key 1 0) = 1" by (simp add: toy_key_def)
  show ?thesis
    using data_opcode_roundtrip [OF toy_keyed_inv e toy_keyed_scan(2) b(1,2) toy_keyed_inv, of ?a False 1 None] toy_accepts b(3) e
    by (auto simp: k family_known_def)
qed

text \<open>C21: The guard that keeps \<^verbatim>\<open>to_link\<close> from pointing into a freed session is incomplete. When an untrusted session is promoted over the active one, a
  pending packet in the wrapping context's work buffer or in the send window is dropped, but a packet that lies in the active session's acknowledgement buffer or in the work buffer of
  the renegotiation wrapping context stays in \<^verbatim>\<open>to_link\<close> with its memory freed.\<close>

theorem promotion_guard_incomplete:
  assumes "promote_initial mi tas r = Some (tas', r')"
    and "TLS_AUTHENTICATED (tm_opt (mr_multi r)) (ts_primary (tm_session (mr_multi r) ! TM_INITIAL))"
    and "data (mr_to_link r) \<noteq> None" "mr_owner r = Some (TM_ACTIVE, x)" "\<not> mr_dangling r"
    and "ks_state (ts_primary (tm_session (mr_multi r) ! TM_ACTIVE)) \<noteq> S_UNDEF"
  shows "(mr_dangling r' \<longleftrightarrow> x = SRC_ACK \<or> x = SRC_WORK_RENEG)
    \<and> mr_to_link r' = (if x = SRC_ACK \<or> x = SRC_WORK_RENEG then mr_to_link r else (mr_to_link r)\<lparr>len := 0, data := None\<rparr>)"
proof -
  let ?r = "session_moved TM_ACTIVE TM_INITIAL (session_freed TM_ACTIVE (check_session_buf_not_used TM_ACTIVE r))"
  have "mr_dangling r' = mr_dangling ?r \<and> mr_to_link r' = mr_to_link ?r"
  proof -
    from assms(1) obtain m where "(let (tas, m) = tls_authentication_status (mi_end mi) (mi_man_def_auth mi) (mi_files mi 1) m
        in Some (tas, if tm_multi_state m = CAS_CONNECT_DONE
                      then ?r\<lparr>mr_multi := m\<lparr>tm_multi_state := CAS_RECONNECT_PENDING\<rparr>, mr_active := TLSMP_RECONNECT\<rparr>
                      else ?r\<lparr>mr_multi := m\<rparr>)) = Some (tas', r')"
      unfolding promote_initial_def if_P [OF assms(2)] Let_def by (elim bind_SomeE)
    then show ?thesis by (cases "tls_authentication_status (mi_end mi) (mi_man_def_auth mi) (mi_files mi 1) m") (auto split: if_splits)
  qed
  moreover have "mr_dangling ?r = (x = SRC_ACK \<or> x = SRC_WORK_RENEG)
    \<and> mr_to_link ?r = (if x = SRC_ACK \<or> x = SRC_WORK_RENEG then mr_to_link r else (mr_to_link r)\<lparr>len := 0, data := None\<rparr>)"
  proof (cases "x = SRC_ACK \<or> x = SRC_WORK_RENEG")
    case True
    then have "check_session_buf_not_used TM_ACTIVE r = r" using assms(4) by (auto simp: check_session_buf_not_used_def)
    with True assms(4) show ?thesis by (simp add: session_moved_def session_freed_def)
  next
    case False
    then have "x = SRC_WORK \<or> x = SRC_RELIABLE" by (cases x) simp_all
    then have "check_session_buf_not_used TM_ACTIVE r = r\<lparr>mr_to_link := (mr_to_link r)\<lparr>len := 0, data := None\<rparr>, mr_owner := None\<rparr>"
      using assms(3,4,6) by (auto simp: check_session_buf_not_used_def)
    with False assms(5) show ?thesis by (simp add: session_moved_def session_freed_def)
  qed
  ultimately show ?thesis by simp
qed

definition toy_multi_input :: multi_input where
  "toy_multi_input = \<lparr>mi_now = (\<lambda>_. 5), mi_rounds = (\<lambda>_ _. toy_input), mi_final = (\<lambda>_. toy_input), mi_draws = (\<lambda>_. []), mi_actual = sockaddr_zero,
     mi_end = 5, mi_man_def_auth = False, mi_files = (\<lambda>_ _. (None, None)), mi_exported = None, mi_insecure = False,
     mi_promote_draws = [[1, 2, 3, 4, 5, 6, 7, 8]]\<rparr>"

definition toy_promotion :: multi_run where
  "toy_promotion = \<lparr>mr_multi = (tls_multi_init toy_options)\<lparr>tm_session :=
       [tls_session_zero\<lparr>ts_key_id := 1, ts_primary := toy_key 0 0\<rparr>,
        tls_session_zero\<lparr>ts_key_id := 1, ts_primary := key_state_zero\<lparr>ks_state := S_GOT_KEY\<rparr>\<rparr>,
        tls_session_zero]\<rparr>,
     mr_to_link = full_buf [1, 2, 3], mr_to_link_addr = None, mr_owner = Some (TM_ACTIVE, SRC_ACK), mr_dangling = False,
     mr_wakeup = 10, mr_active = TLSMP_INACTIVE, mr_error = False\<rparr>"

lemma toy_promoted: "\<not> Option.is_none (promote_initial toy_multi_input TLS_AUTHENTICATION_SUCCEEDED toy_promotion)"
  by code_simp

theorem promotion_guard_incomplete_witness:
  "\<exists>tas' r'. promote_initial toy_multi_input TLS_AUTHENTICATION_SUCCEEDED toy_promotion = Some (tas', r') \<and> mr_dangling r' \<and> mr_to_link r' = full_buf [1, 2, 3]"
proof -
  obtain tas' r' where p: "promote_initial toy_multi_input TLS_AUTHENTICATION_SUCCEEDED toy_promotion = Some (tas', r')"
    using toy_promoted by (cases "promote_initial toy_multi_input TLS_AUTHENTICATION_SUCCEEDED toy_promotion") auto
  have "mr_dangling r' \<and> mr_to_link r' = full_buf [1, 2, 3]"
    using promotion_guard_incomplete [OF p, of SRC_ACK]
    by (simp add: toy_promotion_def TLS_AUTHENTICATED_def toy_options_def tls_multi_init_def TM_ACTIVE_def TM_INITIAL_def state_defs full_buf_def
        tls_session_zero_def toy_key_def key_state_zero_def)
  with p show ?thesis by blast
qed

end
