(* ===== verification/Forward.thy ===== *)
theory Forward
  imports Compression Tls_Data_Keys
begin

text \<open>
  The way of a packet through the program: \<^verbatim>\<open>encrypt_sign\<close>, \<^verbatim>\<open>process_incoming_link_part1\<close> and \<^verbatim>\<open>process_incoming_link_part2\<close> of
  \<^verbatim>\<open>forward.c\<close>, with the packets the program sends to itself (\<^verbatim>\<open>ping.c\<close>, \<^verbatim>\<open>occ.c\<close>), the address checks of \<^verbatim>\<open>socket.h\<close> and
  the registration of signals (\<^verbatim>\<open>sig.c\<close>), for a context in TLS mode. The stages are those of the theories below: compression framing, fragmentation, choice
  of the key, protection, packet opcode, and back.
\<close>

section \<open>Signals\<close>

definition SIGHUP :: int where "SIGHUP = 1"
definition SIGINT :: int where "SIGINT = 2"
definition SIGUSR1 :: int where "SIGUSR1 = 10"
definition SIGUSR2 :: int where "SIGUSR2 = 12"
definition SIGTERM :: int where "SIGTERM = 15"

record signal_info =
  si_signal_received :: int
  si_source :: int
  si_signal_text :: "string option"

definition signal_priority :: "int \<Rightarrow> int" where
  "signal_priority sig =
     (if sig = SIGINT then 5 else if sig = SIGTERM then 4 else if sig = SIGHUP then 3
      else if sig = SIGUSR1 then 2 else if sig = SIGUSR2 then 1 else - 1)"

definition SIG_SOURCE_SOFT :: int where "SIG_SOURCE_SOFT = 0"
definition SIG_SOURCE_HARD :: int where "SIG_SOURCE_HARD = 1"
definition SIG_SOURCE_CONNECTION_FAILED :: int where "SIG_SOURCE_CONNECTION_FAILED = 2"

definition try_throw_signal :: "signal_info \<Rightarrow> int \<Rightarrow> int \<Rightarrow> bool \<times> signal_info" where
  "try_throw_signal si signum source =
     (if signal_priority signum \<ge> signal_priority (si_signal_received si)
      then (True, si\<lparr>si_signal_received := signum, si_source := source\<rparr>) else (False, si))"

text \<open>\<open>ignored\<close> is the mask of hard signals that are ignored at the moment.\<close>

definition throw_signal :: "(int \<Rightarrow> bool) \<Rightarrow> signal_info \<Rightarrow> int \<Rightarrow> signal_info" where
  "throw_signal ignored si signum = (if ignored signum then si else snd (try_throw_signal si signum SIG_SOURCE_HARD))"

definition throw_signal_soft :: "signal_info \<Rightarrow> int \<Rightarrow> string \<Rightarrow> signal_info" where
  "throw_signal_soft si signum txt =
     (let (thrown, si) = try_throw_signal si signum SIG_SOURCE_SOFT in if thrown then si\<lparr>si_signal_text := Some txt\<rparr> else si)"

definition register_signal :: "signal_info \<Rightarrow> int \<Rightarrow> string \<Rightarrow> signal_info" where
  "register_signal si signum txt =
     (let (thrown, si) = try_throw_signal si signum SIG_SOURCE_SOFT
      in if thrown then si\<lparr>si_signal_text := Some txt, si_source := (if txt = ''connection-failed'' then SIG_SOURCE_CONNECTION_FAILED else si_source si)\<rparr>
         else si)"

definition signal_reset :: "signal_info \<Rightarrow> int \<Rightarrow> int \<times> signal_info" where
  "signal_reset si signum =
     (si_signal_received si,
      if signum = 0 \<or> si_signal_received si = signum
      then si\<lparr>si_signal_received := 0, si_signal_text := None, si_source := SIG_SOURCE_SOFT\<rparr> else si)"

section \<open>Addresses\<close>

record link_socket_info =
  li_remote_float :: bool
  li_remote_list :: "openvpn_sockaddr list"
  li_actual :: openvpn_sockaddr
  li_connection_oriented :: bool
  li_connection_established :: bool

text \<open>The address list has entries of both families; the part of an address that is compared is chosen by the family of the other address.\<close>

fun addrlist_match :: "openvpn_sockaddr \<Rightarrow> openvpn_sockaddr list \<Rightarrow> bool option" where
  "addrlist_match a [] = Some False"
| "addrlist_match a (e # es) =
     (if sa_family a = FAMILY_INET then (if sa_addr4 a = sa_addr4 e then Some True else addrlist_match a es)
      else if sa_family a = FAMILY_INET6 then (if sa_addr6 a = sa_addr6 e then Some True else addrlist_match a es)
      else None)"

fun addrlist_port_match :: "openvpn_sockaddr \<Rightarrow> openvpn_sockaddr list \<Rightarrow> bool option" where
  "addrlist_port_match a [] = Some False"
| "addrlist_port_match a (e # es) =
     (if sa_family a = FAMILY_INET
      then (if sa_family e = FAMILY_INET \<and> sa_addr4 a = sa_addr4 e \<and> sa_port a = sa_port e then Some True else addrlist_port_match a es)
      else if sa_family a = FAMILY_INET6
      then (if sa_family e = FAMILY_INET6 \<and> sa_addr6 a = sa_addr6 e \<and> sa_port a = sa_port e then Some True else addrlist_port_match a es)
      else None)"

definition addrlist_match_proto :: "openvpn_sockaddr \<Rightarrow> openvpn_sockaddr list \<Rightarrow> bool \<Rightarrow> bool option" where
  "addrlist_match_proto a es connection_oriented = (if connection_oriented then addrlist_match a es else addrlist_port_match a es)"

text \<open>An empty list of remote addresses is the null pointer.\<close>

definition link_socket_verify_incoming_addr :: "buffer \<Rightarrow> link_socket_info \<Rightarrow> openvpn_sockaddr \<Rightarrow> bool option" where
  "link_socket_verify_incoming_addr buf info src =
     (if len buf > 0 \<and> (sa_family src = FAMILY_INET6 \<or> sa_family src = FAMILY_INET) then
        if \<not> link_socket_actual_defined src then Some False
        else if li_remote_float info \<or> li_remote_list info = [] then Some True
        else addrlist_match_proto src (li_remote_list info) (li_connection_oriented info)
      else Some False)"

text \<open>The message about a bad address prints the first of the remote addresses, without a test that there is one.\<close>

definition link_socket_bad_incoming_addr :: "buffer \<Rightarrow> link_socket_info \<Rightarrow> openvpn_sockaddr \<Rightarrow> buffer option" where
  "link_socket_bad_incoming_addr buf info src = do {
     c_assert (sa_family src = FAMILY_INET6 \<or> sa_family src = FAMILY_INET \<longrightarrow> li_remote_list info \<noteq> []);
     Some (buf\<lparr>len := 0\<rparr>)
   }"

definition link_socket_get_outgoing_addr :: "buffer \<Rightarrow> link_socket_info \<Rightarrow> openvpn_sockaddr option \<Rightarrow> buffer \<times> openvpn_sockaddr option" where
  "link_socket_get_outgoing_addr buf info addr =
     (if len buf > 0 then
        if link_socket_actual_defined (li_actual info) then (buf, Some (li_actual info)) else (buf\<lparr>len := 0\<rparr>, None)
      else (buf, addr))"

section \<open>The context\<close>

text \<open>The members of \<^verbatim>\<open>struct context_2\<close>, \<^verbatim>\<open>struct context_buffers\<close> and of the options that the packet path uses.\<close>

record vpn_context =
  c2_tls_multi :: tls_multi
  c2_use_peer_id :: bool
  c2_frame :: frame
  c2_frame_fragment :: frame
  c2_comp_context :: "compress_context option"
  c2_fragment :: "fragment_master option"
  c2_buf :: buffer
  c2_to_tun :: buffer
  c2_to_link :: buffer
  c2_to_link_addr :: "openvpn_sockaddr option"
  c2_encrypt_buf :: buffer
  c2_decrypt_buf :: buffer
  c2_decompress_buf :: buffer
  c2_read_link_buf :: buffer
  c2_read_tun_buf :: buffer
  c2_aux_buf :: buffer
  c2_link_info :: link_socket_info
  c2_link_read_bytes :: u64
  c2_link_read_bytes_auth :: u64
  c2_original_recv_size :: int
  c2_max_recv_size_local :: int
  c2_max_recv_size_remote :: int
  c2_max_send_size_remote :: int
  c2_tmp_int :: interval
  c2_ping_rec_interval :: event_timeout
  c2_occ_op :: int
  c2_occ_mtu_load_size :: int
  c2_occ_interval :: event_timeout
  c2_occ_mtu_load_test_interval :: event_timeout
  c2_sig :: signal_info
  c2_timeval :: timeval
  c2_ping_send_interval :: event_timeout
  c2_occ_n_tries :: int
  c2_occ_mtu_load_n_tries :: int
  c2_options_string_local :: "bytes option"
  c2_max_send_size_local :: int
  opt_dco :: bool
  opt_ping_rec_timeout :: bool
  opt_ping_rec_timeout_action :: int
  opt_ping_timer_remote :: bool
  opt_ping_send_timeout :: bool
  opt_tuntap_defined :: bool

text \<open>The cryptographic and compression libraries, uninitialised memory and random bytes.\<close>

record forward_lib =
  fl_junk :: "nat \<Rightarrow> u8"
  fl_hmac :: hmac_fun
  fl_cipher :: cipher_lib
  fl_rnd :: "nat \<Rightarrow> u8"
  fl_comp :: comp_lib
  fl_tls :: tls_lib

definition drop_buf :: "vpn_context \<Rightarrow> vpn_context" where
  "drop_buf c = c\<lparr>c2_buf := (c2_buf c)\<lparr>len := 0\<rparr>\<rparr>"

text \<open>
  \<^verbatim>\<open>buffer_turnover\<close> copies the packet to \<open>storage\<close> if it still lies in the memory it came in and that is not the memory of
  \<open>storage\<close>. Addresses are not part of a buffer here; \<open>in_place\<close> is the outcome of this comparison.
  The result of the copy is not looked at.
\<close>

definition buffer_turnover :: "bool \<Rightarrow> buffer \<Rightarrow> buffer \<Rightarrow> (buffer \<times> buffer) option" where
  "buffer_turnover in_place src storage =
     (if in_place then do { (_, storage) \<leftarrow> buf_assign storage src; Some (storage, storage) } else Some (src, storage))"

section \<open>Sending\<close>

definition compress_fragment :: "vpn_context \<Rightarrow> vpn_context option" where
  "compress_fragment c = do {
     buf \<leftarrow> (case c2_comp_context c of None \<Rightarrow> Some (c2_buf c) | Some ctx \<Rightarrow> alg_compress ctx (c2_buf c));
     (frag, buf) \<leftarrow> (case c2_fragment c of None \<Rightarrow> Some (None, buf)
                     | Some f \<Rightarrow> do { (f, buf) \<leftarrow> fragment_outgoing (c2_frame_fragment c) f buf; Some (Some f, buf) });
     Some (c\<lparr>c2_buf := buf, c2_fragment := frag\<rparr>)
   }"

text \<open>\<^verbatim>\<open>openvpn_encrypt\<close> with the key that \<^verbatim>\<open>tls_pre_encrypt\<close> handed out, if any.\<close>

definition encrypt_with ::
    "forward_lib \<Rightarrow> int \<Rightarrow> nat option \<Rightarrow> buffer \<Rightarrow> buffer \<Rightarrow> tls_multi \<Rightarrow> (buffer \<times> tls_multi) option" where
  "encrypt_with lb now co buf work m =
     (case co of
        None \<Rightarrow> Some (buf, m)
      | Some i \<Rightarrow> do {
          ks \<leftarrow> get_key_scan m i;
          (buf, o') \<leftarrow> openvpn_encrypt (fl_junk lb) (fl_hmac lb) (fl_cipher lb) (fl_rnd lb) now buf work (ks_crypto ks);
          Some (buf, upd_key_scan i (\<lambda>ks. ks\<lparr>ks_crypto := o'\<rparr>) m) })"

text \<open>\<open>CAS_CONNECT_DONE\<close> is the largest of the states. Data channel offload is a setting of the options.\<close>

definition encrypt_sign :: "forward_lib \<Rightarrow> int \<Rightarrow> bool \<Rightarrow> vpn_context \<Rightarrow> bool \<Rightarrow> vpn_context option" where
  "encrypt_sign lb now in_place c comp_frag = do {
     let c = (if opt_dco c then drop_buf c else c);
     let c = (if tm_multi_state (c2_tls_multi c) \<noteq> CAS_CONNECT_DONE then drop_buf c else c);
     c \<leftarrow> (if comp_frag then compress_fragment c else Some c);
     let (ok, work) = buf_init_dowork (c2_encrypt_buf c) (fb_headroom (c2_frame c));
     c_assert ok;
     (m, buf, co) \<leftarrow> tls_pre_encrypt now (c2_tls_multi c) (c2_buf c);
     work \<leftarrow> (if len buf > 0 \<and> c2_use_peer_id c then tls_prepend_opcode_v2 m work else Some work);
     (buf, m) \<leftarrow> encrypt_with lb now co buf work m;
     buf \<leftarrow> (if len buf > 0 \<and> \<not> c2_use_peer_id c then tls_prepend_opcode_v1 m buf else Some buf);
     m \<leftarrow> tls_post_encrypt m buf;
     let (buf, to_addr) = link_socket_get_outgoing_addr buf (c2_link_info c) (c2_to_link_addr c);
     (to_link, storage) \<leftarrow> buffer_turnover in_place buf (c2_read_tun_buf c);
     Some (c\<lparr>c2_tls_multi := m, c2_buf := buf, c2_encrypt_buf := work, c2_to_link_addr := to_addr, c2_to_link := to_link, c2_read_tun_buf := storage\<rparr>)
   }"

definition ping_string :: bytes where
  "ping_string = [0x2a, 0x18, 0x7b, 0xf3, 0x64, 0x1e, 0xb4, 0xcb, 0x07, 0xed, 0x2d, 0x0a, 0x98, 0x1f, 0xc7, 0x48]"

definition check_ping_send_dowork :: "forward_lib \<Rightarrow> int \<Rightarrow> bool \<Rightarrow> vpn_context \<Rightarrow> vpn_context option" where
  "check_ping_send_dowork lb now in_place c = do {
     let (ok, buf) = buf_init_dowork (c2_aux_buf c) (fb_headroom (c2_frame c));
     c_assert ok;
     c_assert (buf_safe buf (fb_payload_size (c2_frame c)));
     (ok, buf) \<leftarrow> buf_write buf ping_string;
     c_assert ok;
     c \<leftarrow> encrypt_sign lb now in_place (c\<lparr>c2_buf := buf\<rparr>) True;
     Some (drop_buf c)
   }"

section \<open>Receiving\<close>

text \<open>\<^verbatim>\<open>openvpn_decrypt\<close> with the key that \<^verbatim>\<open>tls_pre_decrypt\<close> handed out; without one it reports success.\<close>

definition decrypt_with ::
    "forward_lib \<Rightarrow> int \<Rightarrow> frame \<Rightarrow> nat option \<Rightarrow> int option \<Rightarrow> buffer \<Rightarrow> buffer \<Rightarrow> tls_multi \<Rightarrow> (bool \<times> buffer \<times> tls_multi) option" where
  "decrypt_with lb now frame co ad_start buf work m =
     (case co of
        None \<Rightarrow> Some (True, buf, m)
      | Some i \<Rightarrow> do {
          ks \<leftarrow> get_key_scan m i;
          ad \<leftarrow> ad_start;
          (ok, buf, o') \<leftarrow> openvpn_decrypt (fl_junk lb) (fl_hmac lb) (fl_cipher lb) now (Some (fb_headroom frame)) ad buf work (ks_crypto ks);
          Some (ok, buf, upd_key_scan i (\<lambda>ks. ks\<lparr>ks_crypto := o'\<rparr>) m) })"

text \<open>The test of the address, which empties the packet.\<close>

definition check_incoming_addr :: "buffer \<Rightarrow> link_socket_info \<Rightarrow> openvpn_sockaddr \<Rightarrow> buffer option" where
  "check_incoming_addr buf info src = do {
     good \<leftarrow> link_socket_verify_incoming_addr buf info src;
     (if good then Some buf else link_socket_bad_incoming_addr buf info src)
   }"

text \<open>A good control packet is activity of the peer.\<close>

definition control_activity :: "int \<Rightarrow> vpn_context \<Rightarrow> vpn_context" where
  "control_activity now c =
     (let c = c\<lparr>c2_tmp_int := interval_action now (c2_tmp_int c)\<rparr>
      in if opt_ping_rec_timeout c then c\<lparr>c2_ping_rec_interval := event_timeout_reset now (c2_ping_rec_interval c)\<rparr> else c)"

text \<open>The bytes of the packet in \<^verbatim>\<open>c2.buf\<close> are counted; the counter of all contexts and log output are left out.\<close>

definition process_incoming_link_part1 ::
    "forward_lib \<Rightarrow> int \<Rightarrow> openvpn_sockaddr \<Rightarrow> bool \<Rightarrow> vpn_context \<Rightarrow> (bool \<times> vpn_context) option" where
  "process_incoming_link_part1 lb now src floated c =
     (if len (c2_buf c) > 0 then do {
        let c = c\<lparr>c2_link_read_bytes := c2_link_read_bytes c + word_of_int (len (c2_buf c)), c2_original_recv_size := len (c2_buf c)\<rparr>;
        buf \<leftarrow> check_incoming_addr (c2_buf c) (c2_link_info c) src;
        opcode \<leftarrow> buf_first buf;
        let buf = (if header_op opcode = P_DATA_V1 \<and> opt_dco c then buf\<lparr>len := 0\<rparr> else buf);
        (control, m, buf, co, ad_start) \<leftarrow> tls_pre_decrypt (fl_tls lb) now (c2_tls_multi c) src buf floated None;
        let c = (if control then control_activity now c else c);
        let buf = (if tm_multi_state m \<noteq> CAS_CONNECT_DONE then buf\<lparr>len := 0\<rparr> else buf);
        (ok, buf, m) \<leftarrow> decrypt_with lb now (c2_frame c) (if len buf > 0 then co else None) ad_start buf (c2_decrypt_buf c) m;
        let c = c\<lparr>c2_buf := buf, c2_tls_multi := m\<rparr>;
        Some (ok, if \<not> ok \<and> li_connection_oriented (c2_link_info c)
                  then c\<lparr>c2_sig := register_signal (c2_sig c) SIGUSR1 ''decryption-error''\<rparr> else c) }
      else Some (False, c\<lparr>c2_original_recv_size := 0, c2_to_tun := buf_reset (c2_to_tun c)\<rparr>))"

definition is_ping_msg :: "buffer \<Rightarrow> bool option" where
  "is_ping_msg buf = buf_string_match buf ping_string"

definition OCC_REQUEST :: int where "OCC_REQUEST = 0"
definition OCC_REPLY :: int where "OCC_REPLY = 1"
definition OCC_MTU_LOAD_REQUEST :: int where "OCC_MTU_LOAD_REQUEST = 2"
definition OCC_MTU_LOAD :: int where "OCC_MTU_LOAD = 3"
definition OCC_MTU_REQUEST :: int where "OCC_MTU_REQUEST = 4"
definition OCC_MTU_REPLY :: int where "OCC_MTU_REPLY = 5"
definition OCC_EXIT :: int where "OCC_EXIT = 6"

definition occ_magic :: bytes where
  "occ_magic = [0x28, 0x7f, 0x34, 0x6b, 0xd4, 0xef, 0x7a, 0x81, 0x2d, 0x56, 0xb8, 0xd3, 0xaf, 0xc5, 0x45, 0x9c]"

definition is_occ_msg :: "buffer \<Rightarrow> bool option" where
  "is_occ_msg buf = buf_string_match_head buf occ_magic"

text \<open>The options string of a reply is only compared outside TLS mode.\<close>

definition process_received_occ_msg :: "vpn_context \<Rightarrow> vpn_context option" where
  "process_received_occ_msg c = do {
     let (ok, buf) = buf_advance (c2_buf c) (int (length occ_magic));
     c_assert ok;
     (op, buf) \<leftarrow> buf_read_u8 buf;
     let c = c\<lparr>c2_buf := buf\<rparr>;
     c \<leftarrow> (if op = OCC_REQUEST then Some (c\<lparr>c2_occ_op := OCC_REPLY\<rparr>)
          else if op = OCC_MTU_REQUEST then Some (c\<lparr>c2_occ_op := OCC_MTU_REPLY\<rparr>)
          else if op = OCC_MTU_LOAD_REQUEST then do {
            (sz, buf) \<leftarrow> buf_read_u16 buf;
            let c = c\<lparr>c2_buf := buf, c2_occ_mtu_load_size := sz\<rparr>;
            Some (if sz \<ge> 0 then c\<lparr>c2_occ_op := OCC_MTU_LOAD\<rparr> else c) }
          else if op = OCC_REPLY then Some (c\<lparr>c2_occ_interval := event_timeout_clear\<rparr>)
          else if op = OCC_MTU_REPLY then do {
            (r, buf) \<leftarrow> buf_read_u16 buf;
            (s, buf) \<leftarrow> buf_read_u16 buf;
            Some (c\<lparr>c2_buf := buf, c2_max_recv_size_remote := r, c2_max_send_size_remote := s, c2_occ_mtu_load_test_interval := event_timeout_clear\<rparr>) }
          else if op = OCC_EXIT then Some (c\<lparr>c2_sig := register_signal (c2_sig c) SIGUSR1 ''remote-exit''\<rparr>)
          else Some c);
     Some (drop_buf c)
   }"

definition process_incoming_link_part2 :: "forward_lib \<Rightarrow> int \<Rightarrow> bool \<Rightarrow> vpn_context \<Rightarrow> vpn_context option" where
  "process_incoming_link_part2 lb now in_place c =
     (if len (c2_buf c) > 0 then do {
        (frag, buf) \<leftarrow> (case c2_fragment c of None \<Rightarrow> Some (None, c2_buf c)
                        | Some f \<Rightarrow> do { (f, buf) \<leftarrow> fragment_incoming now (c2_frame_fragment c) f (c2_buf c); Some (Some f, buf) });
        (cmp, buf) \<leftarrow> (case c2_comp_context c of None \<Rightarrow> Some (None, buf)
                        | Some ctx \<Rightarrow> do { (buf, ctx) \<leftarrow> alg_decompress (fl_comp lb) (c2_frame c) (c2_decompress_buf c) ctx buf; Some (Some ctx, buf) });
        let c = c\<lparr>c2_fragment := frag, c2_comp_context := cmp, c2_buf := buf\<rparr>;
        let c = (if opt_ping_rec_timeout c \<and> len buf > 0 then c\<lparr>c2_ping_rec_interval := event_timeout_reset now (c2_ping_rec_interval c)\<rparr> else c);
        let c = (if len buf > 0 then c\<lparr>c2_link_read_bytes_auth := c2_link_read_bytes_auth c + word_of_int (len buf),
                                       c2_max_recv_size_local := max_int (c2_original_recv_size c) (c2_max_recv_size_local c)\<rparr> else c);
        ping \<leftarrow> is_ping_msg (c2_buf c);
        let c = (if ping then drop_buf c else c);
        occ \<leftarrow> is_occ_msg (c2_buf c);
        c \<leftarrow> (if occ then process_received_occ_msg c else Some c);
        (to_tun, storage) \<leftarrow> buffer_turnover in_place (c2_buf c) (c2_read_link_buf c);
        Some (c\<lparr>c2_to_tun := (if opt_tuntap_defined c then to_tun else to_tun\<lparr>len := 0\<rparr>), c2_read_link_buf := storage\<rparr>) }
      else Some (c\<lparr>c2_to_tun := buf_reset (c2_to_tun c)\<rparr>))"

definition process_incoming_link :: "forward_lib \<Rightarrow> int \<Rightarrow> bool \<Rightarrow> openvpn_sockaddr \<Rightarrow> vpn_context \<Rightarrow> vpn_context option" where
  "process_incoming_link lb now in_place src c = do {
     (_, c) \<leftarrow> process_incoming_link_part1 lb now src False c;
     process_incoming_link_part2 lb now in_place c
   }"

end
