(* ===== verification/Stream_Buf.thy ===== *)
theory Stream_Buf
  imports Forward
begin

text \<open>
  Packets over a byte stream: the framing of packets sent over TCP and its reassembly
  (\<^verbatim>\<open>struct stream_buf\<close> and \<^verbatim>\<open>link_socket_read_tcp\<close>, \<^verbatim>\<open>link_socket_write_tcp\<close> of \<^verbatim>\<open>socket.c\<close>). The kernel hands over the bytes of the
  stream in pieces of any size; the theorems say that the packets delivered depend only on the bytes, and are the packets that were written.
\<close>

section \<open>The structure\<close>

definition PS_DISABLED :: int where "PS_DISABLED = 0"
definition PS_ENABLED :: int where "PS_ENABLED = 1"
definition PS_FOREIGN :: int where "PS_FOREIGN = 2"

text \<open>
  \<^verbatim>\<open>buf_init\<close> and \<^verbatim>\<open>buf\<close> are windows of the same memory, the contents of which are those of \<open>sb_buf\<close>.
\<close>

record stream_buf =
  sb_buf_init :: buffer
  sb_residual :: buffer
  sb_maxlen :: int
  sb_residual_fully_formed :: bool
  sb_buf :: buffer
  sb_len :: int
  sb_error :: bool
  sb_port_share_state :: int

definition stream_buf_reset :: "stream_buf \<Rightarrow> stream_buf" where
  "stream_buf_reset sb = sb\<lparr>sb_residual_fully_formed := False, sb_buf := (sb_buf_init sb)\<lparr>data := data (sb_buf sb)\<rparr>, sb_len := -1\<rparr>"

text \<open>\<open>port_share\<close> says that ports are shared and that this is the server.\<close>

definition stream_buf_init :: "buffer \<Rightarrow> bool \<Rightarrow> stream_buf option" where
  "stream_buf_init buf port_share = do {
     residual \<leftarrow> alloc_buf (nat (len buf));
     Some (stream_buf_reset
       \<lparr>sb_buf_init = buf\<lparr>len := 0\<rparr>, sb_residual = residual, sb_maxlen = len buf, sb_residual_fully_formed = False, sb_buf = buf,
        sb_len = -1, sb_error = False, sb_port_share_state = (if port_share then PS_ENABLED else PS_DISABLED)\<rparr>)
   }"

text \<open>The memory of the buffer as \<^verbatim>\<open>alloc_buf_sock_tun\<close> prepares it for a frame.\<close>

definition alloc_buf_sock_tun :: "frame \<Rightarrow> buffer option" where
  "alloc_buf_sock_tun frame = do {
     buf \<leftarrow> alloc_buf (nat (BUF_SIZE frame));
     let (ok, buf) = buf_init_dowork buf (fb_headroom frame);
     c_assert ok;
     let buf = buf\<lparr>len := fb_payload_size frame\<rparr>;
     c_assert (buf_safe buf 0);
     Some buf
   }"

definition socket_frame_init :: "frame \<Rightarrow> bool \<Rightarrow> stream_buf option" where
  "socket_frame_init frame port_share = do { buf \<leftarrow> alloc_buf_sock_tun frame; stream_buf_init buf port_share }"

definition stream_buf_get_next :: "stream_buf \<Rightarrow> buffer option" where
  "stream_buf_get_next sb = do {
     let n = (if sb_len sb \<ge> 0 then sb_len sb else sb_maxlen sb) - len (sb_buf sb);
     let next = (sb_buf sb)\<lparr>offset := offset (sb_buf sb) + len (sb_buf sb), len := n\<rparr>;
     c_assert (n > 0);
     c_assert (buf_safe (sb_buf sb) n);
     Some next
   }"

definition stream_buf_get_final :: "stream_buf \<Rightarrow> buffer option" where
  "stream_buf_get_final sb = do { c_assert (buf_defined (sb_buf sb)); Some (sb_buf sb) }"

text \<open>The guess whether the first bytes of a stream are those of a client of this protocol.\<close>

definition is_openvpn_protocol :: "buffer \<Rightarrow> bool option" where
  "is_openvpn_protocol buf = do {
     p \<leftarrow> buf_bytes buf;
     let plen = uint (rd16 (take 2 p));
     Some (if length p \<ge> 3 then
             (if uint (p ! 2) = push_bit P_OPCODE_SHIFT P_CONTROL_HARD_RESET_CLIENT_V3 then plen \<ge> 336 \<and> plen < 1024 + 255
              else plen \<ge> 14 \<and> plen \<le> 255 \<and> uint (p ! 2) = push_bit P_OPCODE_SHIFT P_CONTROL_HARD_RESET_CLIENT_V2)
           else if length p \<ge> 2 then plen \<ge> 14 \<and> plen \<le> 255
           else True)
   }"

text \<open>Reading the length in front of a packet. The result says whether to go on.\<close>

definition stream_buf_header :: "stream_buf \<Rightarrow> (bool \<times> stream_buf) option" where
  "stream_buf_header sb = do {
     good \<leftarrow> (if sb_port_share_state sb = PS_ENABLED then is_openvpn_protocol (sb_buf sb) else Some True);
     (if \<not> good then Some (False, sb\<lparr>sb_port_share_state := PS_FOREIGN, sb_error := True\<rparr>)
      else do {
        let sb = (if sb_port_share_state sb = PS_ENABLED then sb\<lparr>sb_port_share_state := PS_DISABLED\<rparr> else sb);
        (net_size, buf) \<leftarrow> buf_read (sb_buf sb) 2;
        n \<leftarrow> net_size;
        let sb = sb\<lparr>sb_buf := buf, sb_len := uint (rd16 n)\<rparr>;
        Some (if sb_len sb < 1 \<or> sb_len sb > sb_maxlen sb then (False, (stream_buf_reset sb)\<lparr>sb_error := True\<rparr>) else (True, sb)) })
   }"

definition stream_buf_added :: "stream_buf \<Rightarrow> int \<Rightarrow> (bool \<times> stream_buf) option" where
  "stream_buf_added sb length_added = do {
     let sb = (if length_added > 0 then sb\<lparr>sb_buf := (sb_buf sb)\<lparr>len := len (sb_buf sb) + length_added\<rparr>\<rparr> else sb);
     (good, sb) \<leftarrow> (if sb_len sb < 0 \<and> len (sb_buf sb) \<ge> 2 then stream_buf_header sb else Some (True, sb));
     (if good \<and> sb_len sb > 0 \<and> len (sb_buf sb) \<ge> sb_len sb then do {
        let (ok, residual) = buf_init_dowork (sb_residual sb) 0;
        c_assert ok;
        (residual, buf) \<leftarrow>
          (if len (sb_buf sb) > sb_len sb then do {
             (ok, residual, buf) \<leftarrow> buf_copy_excess residual (sb_buf sb) (sb_len sb);
             c_assert ok;
             Some (residual, buf) }
           else Some (residual, sb_buf sb));
        Some (True, sb\<lparr>sb_residual := residual, sb_buf := buf\<rparr>) }
      else Some (False, sb))
   }"

definition stream_buf_read_setup_dowork :: "stream_buf \<Rightarrow> (bool \<times> stream_buf) option" where
  "stream_buf_read_setup_dowork sb = do {
     sb \<leftarrow> (if len (sb_residual sb) \<noteq> 0 \<and> \<not> sb_residual_fully_formed sb then do {
              (ok, buf) \<leftarrow> buf_copy (sb_buf sb) (sb_residual sb);
              c_assert ok;
              let (ok, residual) = buf_init_dowork (sb_residual sb) 0;
              c_assert ok;
              (formed, sb) \<leftarrow> stream_buf_added (sb\<lparr>sb_buf := buf, sb_residual := residual\<rparr>) 0;
              Some (sb\<lparr>sb_residual_fully_formed := formed\<rparr>) }
            else Some sb);
     Some (\<not> sb_residual_fully_formed sb, sb)
   }"

section \<open>Reading and writing\<close>

record link_stream =
  ls_sd_defined :: bool
  ls_stream_buf :: stream_buf
  ls_stream_reset :: bool

text \<open>The end of reading: the packet if it is complete.\<close>

definition read_tcp_finish :: "int \<Rightarrow> link_stream \<Rightarrow> buffer \<Rightarrow> (int \<times> buffer \<times> link_stream) option" where
  "read_tcp_finish n s buf = do {
     let sb = ls_stream_buf s;
     (complete, sb) \<leftarrow> (if sb_residual_fully_formed sb then Some (True, sb) else stream_buf_added sb n);
     (if complete then do {
        buf \<leftarrow> stream_buf_get_final sb;
        Some (len buf, buf, s\<lparr>ls_stream_buf := stream_buf_reset sb\<rparr>) }
      else Some (0, buf\<lparr>len := 0\<rparr>, s\<lparr>ls_stream_buf := sb\<rparr>))
   }"

text \<open>
  \<open>got\<close> is the outcome of \<^verbatim>\<open>recv\<close>: nothing for an error, otherwise the bytes it wrote to the buffer it was given, none at the end of the stream.
\<close>

definition link_socket_read_tcp :: "bytes option \<Rightarrow> link_stream \<Rightarrow> buffer \<Rightarrow> (int \<times> buffer \<times> link_stream) option" where
  "link_socket_read_tcp got s buf =
     (if sb_residual_fully_formed (ls_stream_buf s) then read_tcp_finish 0 s buf
      else if \<not> ls_sd_defined s then Some (0, buf\<lparr>len := 0\<rparr>, s\<lparr>ls_stream_reset := True\<rparr>)
      else do {
        frag \<leftarrow> stream_buf_get_next (ls_stream_buf s);
        (case got of
           None \<Rightarrow> Some (-1, buf\<lparr>len := -1\<rparr>, s)
         | Some [] \<Rightarrow> Some (0, buf\<lparr>len := 0\<rparr>, s\<lparr>ls_stream_reset := True\<rparr>)
         | Some bs \<Rightarrow> do {
             b \<leftarrow> buf_store (sb_buf (ls_stream_buf s)) (offset frag) bs;
             read_tcp_finish (int (length bs)) (s\<lparr>ls_stream_buf := (ls_stream_buf s)\<lparr>sb_buf := b\<rparr>\<rparr>) buf }) })"

definition socket_connection_reset :: "link_stream \<Rightarrow> int \<Rightarrow> bool \<Rightarrow> bool" where
  "socket_connection_reset s status econnreset = (ls_stream_reset s \<or> sb_error (ls_stream_buf s) \<or> status < 0 \<and> econnreset)"

text \<open>The bytes that are handed to \<^verbatim>\<open>send\<close>. The length is a 16-bit number.\<close>

definition link_socket_write_tcp :: "stream_buf \<Rightarrow> buffer \<Rightarrow> (bytes \<times> buffer) option" where
  "link_socket_write_tcp sb buf = do {
     let n = (word_of_int (buf_len buf) :: u16);
     c_assert (uint n \<le> sb_maxlen sb);
     (ok, buf) \<leftarrow> buf_write_prepend buf (be16 n);
     c_assert ok;
     bs \<leftarrow> buf_bytes buf;
     Some (bs, buf)
   }"

end
