(* ===== verification/Stream_Run.thy ===== *)
theory Stream_Run
  imports Stream_Buf
begin

text \<open>
  The reader of \<open>Stream_Buf\<close> against a plain reference that cuts a byte stream into packets: an invariant of the reader, the effect of every operation on the
  bytes that are pending, runs of the reader over any stream in any pieces, and the round trip with the writer.
\<close>

section \<open>The reference: cutting a byte stream into packets\<close>

text \<open>The packets of a stream, the rest behind them, and whether the stream is broken there.\<close>

function deframe :: "nat \<Rightarrow> bytes \<Rightarrow> bytes list \<times> bytes \<times> bool" where
  "deframe M s =
     (if length s < 2 then ([], s, False)
      else let n = unat (rd16 (take 2 s)) in
        if n < 1 \<or> M < n then ([], s, True)
        else if length s < n + 2 then ([], s, False)
        else let (ps, r, e) = deframe M (drop (n + 2) s) in (take n (drop 2 s) # ps, r, e))"
  by pat_completeness auto
termination by (relation "measure (\<lambda>(_, s). length s)") auto

declare deframe.simps [simp del]

definition framed_packet :: "bytes \<Rightarrow> bytes" where
  "framed_packet p = be16 (of_nat (length p)) @ p"

lemma deframe_framed:
  assumes "\<forall>p \<in> set ps. 1 \<le> length p \<and> length p \<le> M \<and> length p < 65536"
  shows "deframe M (concat (map framed_packet ps)) = (ps, [], False)"
  using assms
proof (induction ps)
  case Nil
  then show ?case by (simp add: deframe.simps)
next
  case (Cons p ps)
  then have l: "unat (of_nat (length p) :: u16) = length p" by (simp add: unat_of_nat take_bit_nat_eq_self)
  have "concat (map framed_packet (p # ps)) = be16 (of_nat (length p)) @ p @ concat (map framed_packet ps)" by (simp add: framed_packet_def)
  with Cons l show ?case by (subst deframe.simps) (auto simp: Let_def)
qed

section \<open>The invariant\<close>

text \<open>
  The bytes received and not yet delivered, in the order in which they came: a length that was read already counts too.
\<close>

definition pending_bytes :: "stream_buf \<Rightarrow> bytes" where
  "pending_bytes sb = (if sb_len sb \<ge> 0 then be16 (word_of_int (sb_len sb)) else []) @ buf_content (sb_buf sb) @ buf_content (sb_residual sb)"

text \<open>The memory of a reader: \<open>H\<close> bytes in front of the packets, packets up to \<open>M\<close> bytes, and room for the length behind them.\<close>

definition stream_mem :: "nat \<Rightarrow> nat \<Rightarrow> stream_buf \<Rightarrow> bool" where
  "stream_mem H M sb \<longleftrightarrow> 2 \<le> M \<and> sb_maxlen sb = int M \<and> sb_port_share_state sb = PS_DISABLED
     \<and> offset (sb_buf_init sb) = int H \<and> len (sb_buf_init sb) = 0 \<and> capacity (sb_buf_init sb) = capacity (sb_buf sb)
     \<and> int H + int M + 2 \<le> capacity (sb_buf sb) \<and> buf_live (sb_buf sb)
     \<and> buf_live (sb_residual sb) \<and> capacity (sb_residual sb) = int M"

definition stream_inv :: "nat \<Rightarrow> nat \<Rightarrow> stream_buf \<Rightarrow> bool" where
  "stream_inv H M sb \<longleftrightarrow> stream_mem H M sb
     \<and> (if sb_len sb < 0
        then sb_len sb = -1 \<and> offset (sb_buf sb) = int H \<and> \<not> sb_residual_fully_formed sb
             \<and> len (sb_buf sb) < 2 \<and> (len (sb_residual sb) = 0 \<or> len (sb_buf sb) = 0)
        else 1 \<le> sb_len sb \<and> sb_len sb \<le> int M \<and> sb_len sb < 65536 \<and> offset (sb_buf sb) = int H + 2
             \<and> (if sb_residual_fully_formed sb then len (sb_buf sb) = sb_len sb
                else len (sb_buf sb) < sb_len sb \<and> len (sb_residual sb) = 0))"

lemma stream_reset_content:
  assumes "stream_mem H M sb"
  shows "stream_mem H M (stream_buf_reset sb)" "buf_content (sb_buf (stream_buf_reset sb)) = []"
    "len (sb_buf (stream_buf_reset sb)) = 0" "offset (sb_buf (stream_buf_reset sb)) = int H" "sb_len (stream_buf_reset sb) = -1"
    "sb_residual (stream_buf_reset sb) = sb_residual sb" "\<not> sb_residual_fully_formed (stream_buf_reset sb)" "sb_error (stream_buf_reset sb) = sb_error sb"
  using assms
  by (auto simp: stream_buf_reset_def stream_mem_def buf_live_def buf_wf_def buf_content_def split: option.splits)

text \<open>What cutting off the length and the packet from bytes in the buffer does.\<close>

lemma empty_content: "buf_live b \<Longrightarrow> len b = 0 \<longleftrightarrow> buf_content b = []"
  using len_buf_content [of b] by auto

lemma live_init:
  assumes "buf_live b" "0 \<le> off" "off \<le> capacity b"
  obtains b' where "buf_init_dowork b off = (True, b')" "buf_live b'" "buf_content b' = []" "offset b' = off" "capacity b' = capacity b" "len b' = 0"
  using buf_init_spec [of b off] assms by (auto simp: buf_live_def)

lemma live_copy:
  assumes d: "buf_live d" and s: "buf_live s" and room: "offset d + len d + len s \<le> capacity d"
  obtains d' where "buf_copy d s = Some (True, d')" "buf_live d'" "buf_content d' = buf_content d @ buf_content s" "offset d' = offset d"
    "capacity d' = capacity d" "len d' = len d + len s"
proof -
  have "length (buf_content s) \<le> buf_room d"
    using room len_buf_content [OF s] by (simp add: buf_room_def)
  then have safe: "buf_safe d (int (length (buf_content s)))" using buf_safe_room [OF d] by blast
  have bs: "buf_bytes s = Some (buf_content s)" by (rule buf_bytes_live [OF s])
  from buf_write_spec [of d "buf_content s"] d safe obtain d' where
    "buf_write d (buf_content s) = Some (True, d')" "buf_live d'" "buf_content d' = buf_content d @ buf_content s" "offset d' = offset d"
    "capacity d' = capacity d" "len d' = len d + len s"
    using len_buf_content [OF s] by (auto simp: buf_live_def)
  with bs show thesis by (intro that [of d']) (simp_all add: buf_copy_def)
qed

lemma live_copy_excess:
  assumes d: "buf_live d" and s: "buf_live s" and n: "0 \<le> n" "n < len s" and room: "offset d + len d + (len s - n) \<le> capacity d"
  obtains d' where "buf_copy_excess d s n = Some (True, d', s\<lparr>len := n\<rparr>)" "buf_live d'" "buf_content d' = buf_content d @ drop (nat n) (buf_content s)"
    "capacity d' = capacity d" "buf_live (s\<lparr>len := n\<rparr>)" "buf_content (s\<lparr>len := n\<rparr>) = take (nat n) (buf_content s)"
proof -
  from buf_advance_spec [of s n] s n obtain b where b: "buf_advance s n = (True, b)" "buf_live b" "buf_content b = drop (nat n) (buf_content s)" "len b = len s - n"
    by (auto simp: buf_live_def buf_advance_def split: if_splits)
  from live_copy [OF d b(2)] room b(4) obtain d' where
    "buf_copy d b = Some (True, d')" "buf_live d'" "buf_content d' = buf_content d @ buf_content b" "capacity d' = capacity d" by auto
  moreover have "buf_live (s\<lparr>len := n\<rparr>)" "buf_content (s\<lparr>len := n\<rparr>) = take (nat n) (buf_content s)"
    using s n by (auto simp: buf_live_def buf_wf_def buf_content_def take_slice nat_mono split: option.splits)
  ultimately show thesis using n b by (intro that [of d']) (simp_all add: buf_copy_excess_def)
qed


section \<open>Adding bytes\<close>

definition added_pre :: "nat \<Rightarrow> nat \<Rightarrow> stream_buf \<Rightarrow> bool" where
  "added_pre H M sb \<longleftrightarrow> stream_mem H M sb \<and> \<not> sb_residual_fully_formed sb \<and> len (sb_residual sb) = 0
     \<and> (if sb_len sb < 0 then sb_len sb = -1 \<and> offset (sb_buf sb) = int H \<and> len (sb_buf sb) \<le> int M
        else 1 \<le> sb_len sb \<and> sb_len sb \<le> int M \<and> sb_len sb < 65536 \<and> offset (sb_buf sb) = int H + 2 \<and> len (sb_buf sb) \<le> sb_len sb)"

text \<open>\<open>s\<close> are the bytes before and \<open>e\<close> the error flag before.\<close>

definition added_post :: "nat \<Rightarrow> nat \<Rightarrow> bytes \<Rightarrow> bool \<Rightarrow> bool \<Rightarrow> stream_buf \<Rightarrow> bool" where
  "added_post H M s e ok sb \<longleftrightarrow>
     stream_inv H M (sb\<lparr>sb_residual_fully_formed := ok\<rparr>) \<and> \<not> sb_residual_fully_formed sb \<and> (\<not> ok \<longrightarrow> len (sb_residual sb) = 0)
     \<and> (if e then sb_error sb
        else if sb_error sb then \<not> ok \<and> deframe M s = ([], s, True)
        else pending_bytes sb = s)"

lemma added_zero: "0 < n \<Longrightarrow> stream_buf_added sb n = stream_buf_added (sb\<lparr>sb_buf := (sb_buf sb)\<lparr>len := len (sb_buf sb) + n\<rparr>\<rparr>) 0"
  by (simp add: stream_buf_added_def)

text \<open>With the length known, the packet is cut off when it is complete.\<close>

lemma added_known:
  assumes m: "stream_mem H M sb" and e: "\<not> sb_residual_fully_formed sb" "len (sb_residual sb) = 0"
    and n: "1 \<le> sb_len sb" "sb_len sb \<le> int M" "sb_len sb < 65536" "offset (sb_buf sb) = int H + 2" "len (sb_buf sb) \<le> int M"
  shows "\<exists>ok sb'. stream_buf_added sb 0 = Some (ok, sb') \<and> added_post H M (pending_bytes sb) (sb_error sb) ok sb'"
proof -
  have live: "buf_live (sb_buf sb)" "buf_live (sb_residual sb)" "capacity (sb_residual sb) = int M" using m by (simp_all add: stream_mem_def)
  have res: "buf_content (sb_residual sb) = []" using empty_content [OF live(2)] e(2) by simp
  from live_init [OF live(2), of 0] obtain r where
    r: "buf_init_dowork (sb_residual sb) 0 = (True, r)" "buf_live r" "buf_content r = []" "offset r = 0" "capacity r = int M" "len r = 0"
    using live(3) by auto
  consider "len (sb_buf sb) < sb_len sb" | "len (sb_buf sb) = sb_len sb" | "sb_len sb < len (sb_buf sb)" by linarith
  then show ?thesis
  proof cases
    case 1
    then show ?thesis using assms
      by (intro exI [of _ False] exI [of _ sb]) (simp add: stream_buf_added_def added_post_def stream_inv_def stream_mem_def)
  next
    case 2
    then show ?thesis using assms r res
      by (intro exI [of _ True] exI [of _ "sb\<lparr>sb_residual := r\<rparr>"])
         (simp add: stream_buf_added_def added_post_def stream_inv_def stream_mem_def pending_bytes_def)
  next
    case 3
    from live_copy_excess [OF r(2) live(1), of "sb_len sb"] 3 n r obtain d where
      d: "buf_copy_excess r (sb_buf sb) (sb_len sb) = Some (True, d, (sb_buf sb)\<lparr>len := sb_len sb\<rparr>)" "buf_live d"
        "buf_content d = drop (nat (sb_len sb)) (buf_content (sb_buf sb))" "capacity d = int M" "buf_live ((sb_buf sb)\<lparr>len := sb_len sb\<rparr>)"
        "buf_content ((sb_buf sb)\<lparr>len := sb_len sb\<rparr>) = take (nat (sb_len sb)) (buf_content (sb_buf sb))" by auto
    show ?thesis using assms r(1) d 3 res
      by (intro exI [of _ True] exI [of _ "sb\<lparr>sb_residual := d, sb_buf := (sb_buf sb)\<lparr>len := sb_len sb\<rparr>\<rparr>"])
         (simp add: stream_buf_added_def added_post_def stream_inv_def stream_mem_def pending_bytes_def)
  qed
qed

lemma deframe_broken:
  assumes "2 \<le> length s" "\<not> (1 \<le> unat (rd16 (take 2 s)) \<and> unat (rd16 (take 2 s)) \<le> M)"
  shows "deframe M s = ([], s, True)"
  using assms by (subst deframe.simps) (auto simp: Let_def)

lemma be16_rd16: "be16 (rd16 [x, y]) = [x, y]"
  by (auto simp: from_be_def be16_def bit_simps intro!: bit_word_eqI) (auto dest: bit_imp_le_length)

lemma take2_be16: "2 \<le> length s \<Longrightarrow> be16 (rd16 (take 2 s)) = take 2 s"
  by (cases s; cases "drop 1 s") (auto simp: be16_rd16)

lemma added_spec:
  assumes "added_pre H M sb"
  shows "\<exists>ok sb'. stream_buf_added sb 0 = Some (ok, sb') \<and> added_post H M (pending_bytes sb) (sb_error sb) ok sb'"
proof (cases "sb_len sb < 0")
  case False
  then show ?thesis using assms by (intro added_known) (auto simp: added_pre_def)
next
  case neg: True
  then have pre: "stream_mem H M sb" "\<not> sb_residual_fully_formed sb" "len (sb_residual sb) = 0" "sb_len sb = -1"
    "offset (sb_buf sb) = int H" "len (sb_buf sb) \<le> int M" using assms by (simp_all add: added_pre_def)
  have live: "buf_live (sb_buf sb)" "buf_live (sb_residual sb)" using pre by (simp_all add: stream_mem_def)
  have res: "buf_content (sb_residual sb) = []" using empty_content [OF live(2)] pre(3) by simp
  show ?thesis
  proof (cases "len (sb_buf sb) \<ge> 2")
    case False
    then show ?thesis using pre
      by (intro exI [of _ False] exI [of _ sb]) (simp add: stream_buf_added_def added_post_def stream_inv_def stream_mem_def)
  next
    case True
    let ?c = "buf_content (sb_buf sb)" and ?n = "uint (rd16 (take 2 (buf_content (sb_buf sb))))"
    have c: "2 \<le> length ?c" using True len_buf_content [OF live(1)] by simp
    from buf_read_spec [of "sb_buf sb" 2] live(1) True obtain b where
      b: "buf_read (sb_buf sb) 2 = Some (Some (take 2 ?c), b)" "buf_live b" "buf_content b = drop 2 ?c" "offset b = int H + 2"
        "len b = len (sb_buf sb) - 2" "capacity b = capacity (sb_buf sb)" using pre(5) by (auto simp: buf_live_def)
    let ?sb = "sb\<lparr>sb_buf := b, sb_len := ?n\<rparr>"
    have ps: "sb_port_share_state sb = PS_DISABLED" "sb_maxlen sb = int M" using pre(1) by (simp_all add: stream_mem_def)
    have p: "pending_bytes sb = ?c" using pre res by (simp add: pending_bytes_def)
    have mem: "stream_mem H M ?sb" using pre(1) b by (simp add: stream_mem_def)
    show ?thesis
    proof (cases "?n < 1 \<or> ?n > int M")
      case bad: True
      let ?r = "(stream_buf_reset ?sb)\<lparr>sb_error := True\<rparr>"
      from bad have "stream_buf_added sb 0 = Some (False, ?r)"
        using b True pre ps by (auto simp: stream_buf_added_def stream_buf_header_def PS_DISABLED_def PS_ENABLED_def)
      moreover have "deframe M ?c = ([], ?c, True)"
        using bad by (intro deframe_broken c) (simp only: unat_eq_nat_uint; linarith)
      moreover have "stream_inv H M (?r\<lparr>sb_residual_fully_formed := False\<rparr>)"
        using stream_reset_content [OF mem] pre by (simp add: stream_inv_def stream_mem_def)
      ultimately show ?thesis using p stream_reset_content [OF mem] pre by (intro exI [of _ False] exI [of _ ?r]) (simp add: added_post_def)
    next
      case good: False
      then have "stream_buf_added sb 0 = stream_buf_added ?sb 0"
        using b True pre ps by (simp add: stream_buf_added_def stream_buf_header_def PS_DISABLED_def PS_ENABLED_def Let_def)
      moreover have "pending_bytes ?sb = ?c"
        using b(3) res take2_be16 [OF c] append_take_drop_id [of 2 ?c] by (simp add: pending_bytes_def)
      moreover have "?n < 65536" using uint_lt2p [of "rd16 (take 2 ?c)"] by simp
      ultimately show ?thesis
        using added_known [of H M ?sb] pre b good p mem by simp
    qed
  qed
qed


section \<open>The operations\<close>

lemma setup_spec:
  assumes i: "stream_inv H M sb"
  shows "\<exists>sb'. stream_buf_read_setup_dowork sb = Some (\<not> sb_residual_fully_formed sb', sb') \<and> stream_inv H M sb'
     \<and> (\<not> sb_residual_fully_formed sb' \<longrightarrow> len (sb_residual sb') = 0)
     \<and> (if sb_error sb then sb_error sb'
        else if sb_error sb' then deframe M (pending_bytes sb) = ([], pending_bytes sb, True)
        else pending_bytes sb' = pending_bytes sb)"
proof (cases "len (sb_residual sb) \<noteq> 0 \<and> \<not> sb_residual_fully_formed sb")
  case False
  then show ?thesis using i by (intro exI [of _ sb]) (auto simp: stream_buf_read_setup_dowork_def)
next
  case True
  then have s: "sb_len sb = -1" "offset (sb_buf sb) = int H" "len (sb_buf sb) = 0" "stream_mem H M sb"
    using i by (auto simp: stream_inv_def split: if_splits)
  have live: "buf_live (sb_buf sb)" "buf_live (sb_residual sb)" "capacity (sb_residual sb) = int M" "int H + int M + 2 \<le> capacity (sb_buf sb)"
    using s(4) by (simp_all add: stream_mem_def)
  have small: "len (sb_residual sb) \<le> int M" using live(2,3) by (auto elim: buf_live_Some)
  from live_copy [OF live(1,2)] s live(4) small obtain b where
    b: "buf_copy (sb_buf sb) (sb_residual sb) = Some (True, b)" "buf_live b" "buf_content b = buf_content (sb_buf sb) @ buf_content (sb_residual sb)"
      "offset b = int H" "capacity b = capacity (sb_buf sb)" "len b = len (sb_residual sb)" by auto
  from live_init [OF live(2), of 0] live(3) obtain r where
    r: "buf_init_dowork (sb_residual sb) 0 = (True, r)" "buf_live r" "buf_content r = []" "capacity r = int M" "len r = 0" by auto
  let ?sb = "sb\<lparr>sb_buf := b, sb_residual := r\<rparr>"
  have "added_pre H M ?sb" using s b r True small by (simp add: added_pre_def stream_mem_def)
  from added_spec [OF this] obtain ok sb' where
    a: "stream_buf_added ?sb 0 = Some (ok, sb')" "added_post H M (pending_bytes ?sb) (sb_error sb) ok sb'" by auto
  have p: "pending_bytes ?sb = pending_bytes sb" using s b r by (simp add: pending_bytes_def)
  have "stream_buf_read_setup_dowork sb = Some (\<not> ok, sb'\<lparr>sb_residual_fully_formed := ok\<rparr>)"
    using True b r a by (simp add: stream_buf_read_setup_dowork_def)
  then show ?thesis using a(2) p
    by (intro exI [of _ "sb'\<lparr>sb_residual_fully_formed := ok\<rparr>"]) (auto simp: added_post_def pending_bytes_def split: if_splits)
qed

text \<open>A complete packet at the head of the pending bytes.\<close>

lemma formed_packet:
  assumes "stream_inv H M sb" "sb_residual_fully_formed sb"
  shows "stream_buf_get_final sb = Some (sb_buf sb)" "0 < len (sb_buf sb)" "buf_bytes (sb_buf sb) = Some (buf_content (sb_buf sb))"
    "pending_bytes sb = framed_packet (buf_content (sb_buf sb)) @ pending_bytes (stream_buf_reset sb)"
    "stream_inv H M (stream_buf_reset sb)" "1 \<le> length (buf_content (sb_buf sb))" "length (buf_content (sb_buf sb)) \<le> M"
    "length (buf_content (sb_buf sb)) < 65536" "sb_error (stream_buf_reset sb) = sb_error sb"
proof -
  have i: "stream_mem H M sb" "1 \<le> sb_len sb" "sb_len sb \<le> int M" "sb_len sb < 65536" "len (sb_buf sb) = sb_len sb"
    using assms by (auto simp: stream_inv_def split: if_splits)
  have live: "buf_live (sb_buf sb)" using i(1) by (simp add: stream_mem_def)
  note l = len_buf_content [OF live] and r = stream_reset_content [OF i(1)]
  show "stream_buf_get_final sb = Some (sb_buf sb)" using live by (auto simp: stream_buf_get_final_def buf_defined_def buf_live_def)
  show "0 < len (sb_buf sb)" "1 \<le> length (buf_content (sb_buf sb))" "length (buf_content (sb_buf sb)) \<le> M"
    "length (buf_content (sb_buf sb)) < 65536" using i l by simp_all
  show "buf_bytes (sb_buf sb) = Some (buf_content (sb_buf sb))" by (rule buf_bytes_live [OF live])
  have "(word_of_int (sb_len sb) :: u16) = of_nat (length (buf_content (sb_buf sb)))" unfolding i(5) [symmetric] l by simp
  then show "pending_bytes sb = framed_packet (buf_content (sb_buf sb)) @ pending_bytes (stream_buf_reset sb)"
    using i r by (simp add: pending_bytes_def framed_packet_def)
  show "stream_inv H M (stream_buf_reset sb)" using r by (simp add: stream_inv_def)
  show "sb_error (stream_buf_reset sb) = sb_error sb" by (rule r(8))
qed

lemma next_spec:
  assumes i: "stream_inv H M sb" "\<not> sb_residual_fully_formed sb"
  obtains n where "stream_buf_get_next sb = Some ((sb_buf sb)\<lparr>offset := offset (sb_buf sb) + len (sb_buf sb), len := n\<rparr>)" "0 < n"
    "n = (if sb_len sb < 0 then int M else sb_len sb) - len (sb_buf sb)" "offset (sb_buf sb) + len (sb_buf sb) + n \<le> capacity (sb_buf sb)"
proof -
  let ?n = "(if sb_len sb < 0 then int M else sb_len sb) - len (sb_buf sb)"
  have m: "stream_mem H M sb" using i by (simp add: stream_inv_def)
  then have live: "buf_live (sb_buf sb)" by (simp add: stream_mem_def)
  have b: "0 < ?n" "offset (sb_buf sb) + len (sb_buf sb) + ?n \<le> capacity (sb_buf sb)"
    using i m by (auto simp: stream_inv_def stream_mem_def split: if_splits)
  have "0 \<le> offset (sb_buf sb)" "0 \<le> len (sb_buf sb)" "capacity (sb_buf sb) < BUF_SIZE_MAX" "buf_valid (sb_buf sb)"
    using live by (auto elim: buf_live_Some)
  with b have "buf_safe (sb_buf sb) ?n" by (simp add: buf_safe_def buf_size_valid_def)
  then have "stream_buf_get_next sb = Some ((sb_buf sb)\<lparr>offset := offset (sb_buf sb) + len (sb_buf sb), len := ?n\<rparr>)"
    using b(1) m by (auto simp: stream_buf_get_next_def stream_mem_def Let_def)
  with b show thesis using that by blast
qed


text \<open>What reading does with the bytes \<open>s\<close>, received before or now: it keeps them, or it delivers the packet at their head, or it finds them broken.\<close>

definition read_post :: "nat \<Rightarrow> nat \<Rightarrow> bytes \<Rightarrow> bool \<Rightarrow> int \<Rightarrow> buffer \<Rightarrow> stream_buf \<Rightarrow> bool" where
  "read_post H M s e ret b sb \<longleftrightarrow> stream_inv H M sb
     \<and> (if e then sb_error sb
        else if sb_error sb then deframe M s = ([], s, True)
        else if ret \<le> 0 then pending_bytes sb = s
        else \<exists>p. buf_bytes b = Some p \<and> 1 \<le> length p \<and> length p \<le> M \<and> length p < 65536 \<and> s = framed_packet p @ pending_bytes sb)"

lemma finish_formed:
  assumes "stream_inv H M (ls_stream_buf l)" "sb_residual_fully_formed (ls_stream_buf l)"
  shows "\<exists>ret b sb. read_tcp_finish n l buf = Some (ret, b, l\<lparr>ls_stream_buf := sb\<rparr>) \<and> 0 < ret
     \<and> read_post H M (pending_bytes (ls_stream_buf l)) (sb_error (ls_stream_buf l)) ret b sb"
  using formed_packet [OF assms] assms
  by (intro exI [of _ "len (sb_buf (ls_stream_buf l))"] exI [of _ "sb_buf (ls_stream_buf l)"] exI [of _ "stream_buf_reset (ls_stream_buf l)"])
     (simp add: read_tcp_finish_def read_post_def Let_def)

lemma pending_formed [simp]: "pending_bytes (sb\<lparr>sb_residual_fully_formed := f\<rparr>) = pending_bytes sb"
  by (simp add: pending_bytes_def)

lemma finish_added:
  assumes "\<not> sb_residual_fully_formed (ls_stream_buf l)"
    and a: "stream_buf_added (ls_stream_buf l) n = Some (ok, sb)" "added_post H M s e ok sb"
  shows "\<exists>ret b sb. read_tcp_finish n l buf = Some (ret, b, l\<lparr>ls_stream_buf := sb\<rparr>) \<and> read_post H M s e ret b sb"
proof (cases ok)
  case False
  then have "sb\<lparr>sb_residual_fully_formed := False\<rparr> = sb" using a(2) by (simp add: added_post_def)
  with assms False show ?thesis by (auto simp: read_tcp_finish_def read_post_def added_post_def)
next
  case True
  let ?f = "sb\<lparr>sb_residual_fully_formed := True\<rparr>"
  have i: "stream_inv H M ?f" and e: "if e then sb_error sb else \<not> sb_error sb \<and> pending_bytes sb = s"
    using a(2) True by (auto simp: added_post_def split: if_splits)
  have "stream_buf_reset ?f = stream_buf_reset sb" "stream_buf_get_final ?f = stream_buf_get_final sb"
    by (simp_all add: stream_buf_reset_def stream_buf_get_final_def)
  note fp = formed_packet [OF i, simplified this, simplified]
  have "read_tcp_finish n l buf = Some (len (sb_buf sb), sb_buf sb, l\<lparr>ls_stream_buf := stream_buf_reset sb\<rparr>)"
    using a(1) assms(1) True fp(1) by (simp add: read_tcp_finish_def)
  moreover have "read_post H M s e (len (sb_buf sb)) (sb_buf sb) (stream_buf_reset sb)"
    using fp e by (auto simp: read_post_def)
  ultimately show ?thesis by blast
qed

lemma live_extend:
  assumes b: "buf_live b" and room: "offset b + len b + int (length bs) \<le> capacity b"
  obtains b' where "buf_store b (offset b + len b) bs = Some b'" "buf_live (b'\<lparr>len := len b + int (length bs)\<rparr>)"
    "buf_content (b'\<lparr>len := len b + int (length bs)\<rparr>) = buf_content b @ bs" "offset b' = offset b" "len b' = len b" "capacity b' = capacity b"
proof -
  have safe: "buf_safe b (int (length bs))" using buf_safe_room [OF b] room by (simp add: buf_room_def)
  from b have "buf_wf b" by (simp add: buf_live_def)
  from buf_write_spec [OF this, of bs] safe obtain c where
    c: "buf_write b bs = Some (True, c)" "buf_wf c" "buf_content c = buf_content b @ bs" "len c = len b + int (length bs)" "data c \<noteq> None"
    using b by (auto simp: buf_live_def)
  obtain m where m: "data b = Some m" "capacity b = int (length m)" "0 \<le> offset b" "0 \<le> len b" using b by (auto elim: buf_live_Some)
  from c(1) safe have "\<exists>d. buf_store b (offset b + len b) bs = Some d \<and> c = d\<lparr>len := len b + int (length bs)\<rparr> \<and> offset d = offset b \<and> len d = len b \<and> capacity d = capacity b"
    using m room by (auto simp: buf_write_def buf_write_alloc_def buf_bptr_def buf_store_def buf_safe_def)
  with c show thesis using that by (auto simp: buf_live_def)
qed

lemma read_spec:
  assumes i: "stream_inv H M (ls_stream_buf l)" "\<not> sb_residual_fully_formed (ls_stream_buf l)" "len (sb_residual (ls_stream_buf l)) = 0"
    and sd: "ls_sd_defined l" and frag: "stream_buf_get_next (ls_stream_buf l) = Some frag" and bs: "bs \<noteq> []" "int (length bs) \<le> len frag"
  shows "\<exists>ret b sb. link_socket_read_tcp (Some bs) l buf = Some (ret, b, l\<lparr>ls_stream_buf := sb\<rparr>)
     \<and> read_post H M (pending_bytes (ls_stream_buf l) @ bs) (sb_error (ls_stream_buf l)) ret b sb"
proof -
  let ?sb = "ls_stream_buf l"
  have mem: "stream_mem H M ?sb" using i(1) by (simp add: stream_inv_def)
  then have live: "buf_live (sb_buf ?sb)" "buf_live (sb_residual ?sb)" by (simp_all add: stream_mem_def)
  from next_spec [OF i(1,2)] frag obtain n where
    n: "frag = (sb_buf ?sb)\<lparr>offset := offset (sb_buf ?sb) + len (sb_buf ?sb), len := n\<rparr>" "0 < n"
      "n = (if sb_len ?sb < 0 then int M else sb_len ?sb) - len (sb_buf ?sb)" "offset (sb_buf ?sb) + len (sb_buf ?sb) + n \<le> capacity (sb_buf ?sb)" by auto
  have "offset (sb_buf ?sb) + len (sb_buf ?sb) + int (length bs) \<le> capacity (sb_buf ?sb)" using n bs by simp
  from live_extend [OF live(1) this] obtain b where
    b: "buf_store (sb_buf ?sb) (offset (sb_buf ?sb) + len (sb_buf ?sb)) bs = Some b" "buf_live (b\<lparr>len := len (sb_buf ?sb) + int (length bs)\<rparr>)"
      "buf_content (b\<lparr>len := len (sb_buf ?sb) + int (length bs)\<rparr>) = buf_content (sb_buf ?sb) @ bs" "offset b = offset (sb_buf ?sb)" "len b = len (sb_buf ?sb)"
      "capacity b = capacity (sb_buf ?sb)" by blast
  let ?l = "l\<lparr>ls_stream_buf := ?sb\<lparr>sb_buf := b\<rparr>\<rparr>" and ?s = "?sb\<lparr>sb_buf := b\<lparr>len := len (sb_buf ?sb) + int (length bs)\<rparr>\<rparr>"
  have "added_pre H M ?s" using i mem b n bs by (auto simp: added_pre_def stream_inv_def stream_mem_def split: if_splits)
  from added_spec [OF this] obtain ok sb' where a: "stream_buf_added ?s 0 = Some (ok, sb')" "added_post H M (pending_bytes ?s) (sb_error ?s) ok sb'" by blast
  have "pending_bytes ?s = pending_bytes ?sb @ bs" using b(3) empty_content [OF live(2)] i(3) by (simp add: pending_bytes_def)
  moreover have "stream_buf_added (ls_stream_buf ?l) (int (length bs)) = Some (ok, sb')"
    using a(1) b(5) bs(1) by (subst added_zero) simp_all
  ultimately obtain ret c sb where "read_tcp_finish (int (length bs)) ?l buf = Some (ret, c, ?l\<lparr>ls_stream_buf := sb\<rparr>)"
      "read_post H M (pending_bytes ?sb @ bs) (sb_error ?sb) ret c sb"
    using finish_added [of ?l "int (length bs)" ok sb' H M] a(2) i(2) by force
  then show ?thesis using i(2) sd frag n(1) b(1) bs(1)
    by (cases bs) (auto simp: link_socket_read_tcp_def)
qed


section \<open>Whole connections\<close>

text \<open>
  The reader of a connection: before it waits for the socket it looks at the bytes left over, then it reads, as many bytes as are
  there (\<open>Suc k\<close> of them at most, for any \<open>k\<close>) and fit. It stops when the connection is to be reset. The result are the packets, the bytes not
  read, and the state.
\<close>

fun stream_run :: "nat list \<Rightarrow> bytes \<Rightarrow> link_stream \<Rightarrow> (bytes list \<times> bytes \<times> link_stream) option" where
  "stream_run [] s l = Some ([], s, l)"
| "stream_run (k # ks) s l = do {
     (wait, sb) \<leftarrow> stream_buf_read_setup_dowork (ls_stream_buf l);
     let l = l\<lparr>ls_stream_buf := sb\<rparr>;
     (if wait \<and> s = [] then stream_run ks s l
      else do {
        n \<leftarrow> (if wait then do { frag \<leftarrow> stream_buf_get_next sb; Some (min (Suc k) (nat (len frag))) } else Some 0);
        (ret, buf, l) \<leftarrow> link_socket_read_tcp (Some (take n s)) l clear_buf;
        (if socket_connection_reset l ret False then Some ([], drop n s, l)
         else do {
           p \<leftarrow> (if ret > 0 then do { p \<leftarrow> buf_bytes buf; Some [p] } else Some []);
           (ps, r, l) \<leftarrow> stream_run ks (drop n s) l;
           Some (p @ ps, r, l) }) })
   }"

definition conn_inv :: "nat \<Rightarrow> nat \<Rightarrow> link_stream \<Rightarrow> bool" where
  "conn_inv H M l \<longleftrightarrow> stream_inv H M (ls_stream_buf l) \<and> ls_sd_defined l \<and> \<not> ls_stream_reset l"

lemma deframe_more:
  assumes "deframe M s = ([], s, True)"
  shows "deframe M (s @ t) = ([], s @ t, True)"
proof -
  from assms have "2 \<le> length s" "\<not> (1 \<le> unat (rd16 (take 2 s)) \<and> unat (rd16 (take 2 s)) \<le> M)"
    by (subst (asm) deframe.simps, auto simp: Let_def split: if_splits prod.splits)+
  then show ?thesis by (intro deframe_broken) auto
qed

lemma deframe_packet:
  assumes "1 \<le> length p" "length p \<le> M" "length p < 65536"
  shows "deframe M (framed_packet p @ s) = (case deframe M s of (ps, r, e) \<Rightarrow> (p # ps, r, e))"
proof -
  have l: "unat (of_nat (length p) :: u16) = length p" using assms by (simp add: unat_of_nat take_bit_nat_eq_self)
  show ?thesis using assms l by (subst deframe.simps) (auto simp: framed_packet_def Let_def)
qed

text \<open>One round of the reader: it waits in vain, or it reads.\<close>

definition setup_post :: "nat \<Rightarrow> nat \<Rightarrow> stream_buf \<Rightarrow> stream_buf \<Rightarrow> bool" where
  "setup_post H M sb sb' \<longleftrightarrow> stream_inv H M sb' \<and> (\<not> sb_residual_fully_formed sb' \<longrightarrow> len (sb_residual sb') = 0)
     \<and> (if sb_error sb then sb_error sb'
        else if sb_error sb' then deframe M (pending_bytes sb) = ([], pending_bytes sb, True)
        else pending_bytes sb' = pending_bytes sb)"

lemma round_spec:
  assumes "conn_inv H M l"
  obtains (idle) sb where "setup_post H M (ls_stream_buf l) sb" "\<not> sb_residual_fully_formed sb" "s = []"
      "stream_run (k # ks) s l = stream_run ks s (l\<lparr>ls_stream_buf := sb\<rparr>)"
  | (read) sb n ret b sb' where "setup_post H M (ls_stream_buf l) sb" "if sb_residual_fully_formed sb then n = 0 \<and> 0 < ret else 0 < n \<and> n \<le> length s"
      "read_post H M (pending_bytes sb @ take n s) (sb_error sb) ret b sb'"
      "stream_run (k # ks) s l =
         (if sb_error sb' then Some ([], drop n s, l\<lparr>ls_stream_buf := sb'\<rparr>)
          else do {
            p \<leftarrow> (if ret > 0 then do { p \<leftarrow> buf_bytes b; Some [p] } else Some []);
            (ps, r, l) \<leftarrow> stream_run ks (drop n s) (l\<lparr>ls_stream_buf := sb'\<rparr>);
            Some (p @ ps, r, l) })"
proof -
  from assms have i: "stream_inv H M (ls_stream_buf l)" "ls_sd_defined l" "\<not> ls_stream_reset l" by (simp_all add: conn_inv_def)
  from setup_spec [OF i(1)] obtain sb where
    sb: "stream_buf_read_setup_dowork (ls_stream_buf l) = Some (\<not> sb_residual_fully_formed sb, sb)" "setup_post H M (ls_stream_buf l) sb"
    unfolding setup_post_def by blast
  have inv: "stream_inv H M sb" using sb(2) by (simp add: setup_post_def)
  let ?l = "l\<lparr>ls_stream_buf := sb\<rparr>"
  consider "sb_residual_fully_formed sb" | "\<not> sb_residual_fully_formed sb" "s = []" | "\<not> sb_residual_fully_formed sb" "s \<noteq> []" by blast
  then show thesis
  proof cases
    case 1
    have "stream_inv H M (ls_stream_buf ?l)" "sb_residual_fully_formed (ls_stream_buf ?l)" using inv 1 by simp_all
    from finish_formed [OF this, of 0 clear_buf] obtain ret b sb' where
      f: "read_tcp_finish 0 ?l clear_buf = Some (ret, b, l\<lparr>ls_stream_buf := sb'\<rparr>)" "0 < ret" "read_post H M (pending_bytes sb) (sb_error sb) ret b sb'" by auto
    show thesis
      by (rule read [OF sb(2), of 0 ret b sb']) (use 1 f sb(1) i in \<open>simp_all add: link_socket_read_tcp_def socket_connection_reset_def\<close>)
  next
    case 2
    show thesis by (rule idle [OF sb(2)]) (use 2 sb(1) in simp_all)
  next
    case 3
    from next_spec [OF inv 3(1)] obtain frag where frag: "stream_buf_get_next sb = Some frag" "0 < len frag" by (metis buffer.select_convs(3) buffer.surjective buffer.update_convs(3))
    let ?n = "min (Suc k) (nat (len frag))"
    have t: "take ?n s \<noteq> []" "int (length (take ?n s)) \<le> len frag" using 3 frag(2) by simp_all
    have "stream_inv H M (ls_stream_buf ?l)" "\<not> sb_residual_fully_formed (ls_stream_buf ?l)" "len (sb_residual (ls_stream_buf ?l)) = 0"
      "ls_sd_defined ?l" "stream_buf_get_next (ls_stream_buf ?l) = Some frag" using inv 3 sb(2) i frag by (simp_all add: setup_post_def)
    from read_spec [OF this t, of clear_buf] obtain ret b sb' where
      f: "link_socket_read_tcp (Some (take ?n s)) ?l clear_buf = Some (ret, b, l\<lparr>ls_stream_buf := sb'\<rparr>)"
        "read_post H M (pending_bytes sb @ take ?n s) (sb_error sb) ret b sb'" by auto
    define m where "m = length (take ?n s)"
    have m: "take ?n s = take m s" "drop ?n s = drop m s" "0 < m" "m \<le> length s" using t(1) by (simp_all add: m_def min_def)
    show thesis
      by (rule read [OF sb(2), of m ret b sb']) (use 3 f sb(1) i frag m in \<open>simp_all add: socket_connection_reset_def\<close>)
  qed
qed

text \<open>Once the stream is broken no packet is delivered any more.\<close>

lemma run_broken:
  assumes "conn_inv H M l" "sb_error (ls_stream_buf l)"
  shows "\<exists>r l'. stream_run ks s l = Some ([], r, l') \<and> sb_error (ls_stream_buf l') \<and> conn_inv H M l'"
  using assms
proof (induction ks arbitrary: s l)
  case Nil
  then show ?case by simp
next
  case (Cons k ks)
  from Cons.prems(1) show ?case
  proof (cases rule: round_spec [where k = k and ks = ks and s = s])
    case (idle sb)
    with Cons.IH [of "l\<lparr>ls_stream_buf := sb\<rparr>" s] Cons.prems show ?thesis by (simp add: setup_post_def conn_inv_def)
  next
    case (read sb n ret b sb')
    with Cons.prems show ?thesis by (simp add: setup_post_def read_post_def conn_inv_def)
  qed
qed


text \<open>The run against the reference: what was delivered, and what the bytes still there will give.\<close>

definition run_refines :: "nat \<Rightarrow> bytes \<Rightarrow> (bytes list \<times> bytes \<times> link_stream) \<Rightarrow> bool" where
  "run_refines M s = (\<lambda>(ps, r, l).
     if sb_error (ls_stream_buf l) then \<exists>t. deframe M s = (ps, t, True)
     else deframe M s = (case deframe M (pending_bytes (ls_stream_buf l) @ r) of (qs, t, e) \<Rightarrow> (ps @ qs, t, e)))"

lemma refines_packet:
  assumes "run_refines M s (ps, r, l)" "1 \<le> length p" "length p \<le> M" "length p < 65536"
  shows "run_refines M (framed_packet p @ s) (p # ps, r, l)"
  using assms deframe_packet [of p M s] by (auto simp: run_refines_def split: prod.splits if_splits)

lemma run_spec:
  assumes "conn_inv H M l" "\<not> sb_error (ls_stream_buf l)"
  shows "\<exists>ps r l'. stream_run ks s l = Some (ps, r, l') \<and> conn_inv H M l' \<and> run_refines M (pending_bytes (ls_stream_buf l) @ s) (ps, r, l')"
  using assms
proof (induction ks arbitrary: s l)
  case Nil
  then show ?case by (auto simp: run_refines_def split: prod.splits)
next
  case (Cons k ks)
  let ?p = "pending_bytes (ls_stream_buf l)"
  from Cons.prems(1) show ?case
  proof (cases rule: round_spec [where k = k and ks = ks and s = s])
    case (idle sb)
    let ?l = "l\<lparr>ls_stream_buf := sb\<rparr>"
    have c: "conn_inv H M ?l" using idle(1) Cons.prems(1) by (simp add: setup_post_def conn_inv_def)
    show ?thesis
    proof (cases "sb_error sb")
      case True
      then have "deframe M ?p = ([], ?p, True)" using idle(1) Cons.prems(2) by (simp add: setup_post_def)
      with run_broken [OF c, of ks s] True idle show ?thesis by (auto simp: run_refines_def)
    next
      case False
      with Cons.IH [OF c, of s] idle Cons.prems(2) show ?thesis by (simp add: setup_post_def)
    qed
  next
    case (read sb n ret b sb')
    let ?l = "l\<lparr>ls_stream_buf := sb'\<rparr>"
    have c: "conn_inv H M ?l" using read(3) Cons.prems(1) by (simp add: read_post_def conn_inv_def)
    show ?thesis
    proof (cases "sb_error sb'")
      case True
      have "deframe M (?p @ s) = ([], ?p @ s, True)"
      proof (cases "sb_error sb")
        case True
        then have "deframe M ?p = ([], ?p, True)" using read(1) Cons.prems(2) by (simp add: setup_post_def)
        then show ?thesis by (rule deframe_more)
      next
        case False
        then have "deframe M (?p @ take n s) = ([], ?p @ take n s, True)"
          using read(1,3) \<open>sb_error sb'\<close> Cons.prems(2) by (simp add: setup_post_def read_post_def)
        from deframe_more [OF this, of "drop n s"] show ?thesis by simp
      qed
      with True read(4) c show ?thesis by (simp add: run_refines_def)
    next
      case False
      then have e: "\<not> sb_error sb" "pending_bytes sb = ?p" using read(1,3) Cons.prems(2) by (auto simp: setup_post_def read_post_def split: if_splits)
      from Cons.IH [OF c, of "drop n s"] False obtain ps r l' where
        run: "stream_run ks (drop n s) ?l = Some (ps, r, l')" "conn_inv H M l'" "run_refines M (pending_bytes sb' @ drop n s) (ps, r, l')" by auto
      show ?thesis
      proof (cases "ret > 0")
        case True
        then obtain p where p: "buf_bytes b = Some p" "1 \<le> length p" "length p \<le> M" "length p < 65536" "?p @ take n s = framed_packet p @ pending_bytes sb'"
          using read(3) e False by (auto simp: read_post_def)
        have "?p @ s = framed_packet p @ pending_bytes sb' @ drop n s"
          using arg_cong [OF p(5), of "\<lambda>z. z @ drop n s"] by simp
        with refines_packet [OF run(3) p(2-4)] have "run_refines M (?p @ s) (p # ps, r, l')" by simp
        with run(1,2) p(1) read(4) False True show ?thesis by simp
      next
        case none: False
        then have "pending_bytes sb' = ?p @ take n s" using read(3) e False by (simp add: read_post_def)
        then have "pending_bytes sb' @ drop n s = ?p @ s" by simp
        with run read(4) False none show ?thesis by simp
      qed
    qed
  qed
qed

text \<open>With enough rounds everything that is complete is delivered.\<close>

lemma pending_incomplete:
  assumes "stream_inv H M sb" "\<not> sb_residual_fully_formed sb" "len (sb_residual sb) = 0"
  shows "deframe M (pending_bytes sb) = ([], pending_bytes sb, False)"
proof -
  have m: "stream_mem H M sb" using assms by (simp add: stream_inv_def)
  then have live: "buf_live (sb_buf sb)" "buf_live (sb_residual sb)" by (simp_all add: stream_mem_def)
  have r: "buf_content (sb_residual sb) = []" using empty_content [OF live(2)] assms(3) by simp
  show ?thesis
  proof (cases "sb_len sb < 0")
    case True
    then have "length (buf_content (sb_buf sb)) < 2" using assms len_buf_content [OF live(1)] by (auto simp: stream_inv_def)
    with True r show ?thesis by (subst deframe.simps) (simp add: pending_bytes_def)
  next
    case False
    let ?w = "word_of_int (sb_len sb) :: u16"
    have i: "1 \<le> sb_len sb" "sb_len sb \<le> int M" "sb_len sb < 65536" "len (sb_buf sb) < sb_len sb" using assms False by (simp_all add: stream_inv_def)
    then have "unat ?w = nat (sb_len sb)" by (simp add: unat_word_of_int)
    with i False r len_buf_content [OF live(1)] show ?thesis
      by (subst deframe.simps) (auto simp: pending_bytes_def Let_def nat_less_iff)
  qed
qed

lemma run_complete:
  assumes "conn_inv H M l" "\<not> sb_error (ls_stream_buf l)" "2 * length s + length (pending_bytes (ls_stream_buf l)) < length ks"
    and "stream_run ks s l = Some (ps, r, l')"
  shows "fst (deframe M (pending_bytes (ls_stream_buf l) @ s)) = ps"
  using assms
proof (induction ks arbitrary: s l ps)
  case Nil
  then show ?case by simp
next
  case (Cons k ks)
  let ?p = "pending_bytes (ls_stream_buf l)"
  from Cons.prems(1) show ?case
  proof (cases rule: round_spec [where k = k and ks = ks and s = s])
    case (idle sb)
    have "fst (deframe M ?p) = []"
    proof (cases "sb_error sb")
      case False
      with pending_incomplete [of H M sb] idle Cons.prems(2) show ?thesis by (auto simp: setup_post_def)
    qed (use idle(1) Cons.prems(2) in \<open>simp add: setup_post_def\<close>)
    moreover obtain ps' r' l'' where "stream_run (k # ks) s l = Some (ps', r', l'')" "run_refines M (?p @ s) (ps', r', l'')"
      using run_spec [OF Cons.prems(1,2), of "k # ks" s] by blast
    ultimately show ?thesis using Cons.prems(4) idle(3) by (auto simp: run_refines_def split: if_splits prod.splits)
  next
    case (read sb n ret b sb')
    let ?l = "l\<lparr>ls_stream_buf := sb'\<rparr>"
    have c: "conn_inv H M ?l" using read(3) Cons.prems(1) by (simp add: read_post_def conn_inv_def)
    show ?thesis
    proof (cases "sb_error sb'")
      case True
      obtain ps' r' l'' where "stream_run (k # ks) s l = Some (ps', r', l'')" "run_refines M (?p @ s) (ps', r', l'')"
        using run_spec [OF Cons.prems(1,2), of "k # ks" s] by blast
      with True read(4) Cons.prems(4) show ?thesis by (auto simp: run_refines_def)
    next
      case False
      then have e: "\<not> sb_error sb" "pending_bytes sb = ?p" using read(1,3) Cons.prems(2) by (auto simp: setup_post_def read_post_def split: if_splits)
      show ?thesis
      proof (cases "ret > 0")
        case True
        then obtain p where p: "buf_bytes b = Some p" "1 \<le> length p" "length p \<le> M" "length p < 65536" "?p @ take n s = framed_packet p @ pending_bytes sb'"
          using read(3) e False by (auto simp: read_post_def)
        then obtain ps' where ps': "stream_run ks (drop n s) ?l = Some (ps', r, l')" "ps = p # ps'"
          using read(4) False True Cons.prems(4) by (auto split: bind_splits)
        have n: "length ?p + min n (length s) = 2 + length p + length (pending_bytes sb')"
          using arg_cong [OF p(5), of length] by (simp add: framed_packet_def)
        have "fst (deframe M (pending_bytes sb' @ drop n s)) = ps'"
          using Cons.IH [OF c, of "drop n s" ps'] False Cons.prems(3) ps'(1) n by (simp add: min_def split: if_splits)
        moreover have "?p @ s = framed_packet p @ pending_bytes sb' @ drop n s"
          using arg_cong [OF p(5), of "\<lambda>z. z @ drop n s"] by simp
        ultimately show ?thesis using deframe_packet [OF p(2-4)] ps'(2)
          by (cases "deframe M (pending_bytes sb' @ drop n s)") simp
      next
        case none: False
        then have q: "pending_bytes sb' = ?p @ take n s" using read(3) e False by (simp add: read_post_def)
        have f: "0 < n" "n \<le> length s" using read(2) none by (simp_all split: if_splits)
        have "stream_run ks (drop n s) ?l = Some (ps, r, l')" using read(4) none False Cons.prems(4) by (auto split: bind_splits)
        moreover have "2 * length (drop n s) + length (pending_bytes sb') < length ks" using Cons.prems(3) q f by simp
        ultimately have "fst (deframe M (pending_bytes sb' @ drop n s)) = ps" using Cons.IH [OF c] False by simp
        with q show ?thesis by simp
      qed
    qed
  qed
qed


section \<open>A fresh connection\<close>

lemma stream_init_inv:
  assumes f: "0 \<le> fb_headroom f" "2 \<le> fb_payload_size f" "2 \<le> fb_tailroom f" "BUF_SIZE f < BUF_SIZE_MAX"
  obtains sb where "socket_frame_init f False = Some sb" "stream_inv (nat (fb_headroom f)) (nat (fb_payload_size f)) sb" "\<not> sb_error sb" "pending_bytes sb = []"
    "sb_maxlen sb = fb_payload_size f"
proof -
  let ?b = "\<lparr>capacity = BUF_SIZE f, offset = fb_headroom f, len = fb_payload_size f, data = Some (replicate (nat (BUF_SIZE f)) 0)\<rparr>"
  let ?r = "\<lparr>capacity = fb_payload_size f, offset = 0, len = 0, data = Some (replicate (nat (fb_payload_size f)) (0 :: u8))\<rparr>"
  let ?s = "\<lparr>sb_buf_init = ?b\<lparr>len := 0\<rparr>, sb_residual = ?r, sb_maxlen = fb_payload_size f, sb_residual_fully_formed = False, sb_buf = ?b\<lparr>len := 0\<rparr>,
       sb_len = -1, sb_error = False, sb_port_share_state = PS_DISABLED\<rparr>"
  have "alloc_buf_sock_tun f = Some ?b"
    using f by (simp add: alloc_buf_sock_tun_def alloc_buf_def buf_init_dowork_def buf_safe_def buf_valid_def buf_size_valid_def BUF_SIZE_def BUF_SIZE_MAX_def)
  then have "socket_frame_init f False = Some ?s"
    using f by (simp add: socket_frame_init_def stream_buf_init_def stream_buf_reset_def alloc_buf_def buf_size_valid_def BUF_SIZE_def)
  moreover have "stream_inv (nat (fb_headroom f)) (nat (fb_payload_size f)) ?s"
    using f by (auto simp: stream_inv_def stream_mem_def buf_live_def buf_wf_def BUF_SIZE_def)
  moreover have "pending_bytes ?s = []" by (simp add: pending_bytes_def buf_content_def)
  ultimately show thesis by (intro that [of ?s]) simp_all
qed

text \<open>C4: Whatever bytes arrive over a TCP connection, and in whatever pieces, the reader fails no assertion and leaves no buffer, and the packets it delivers are
  those that the plain reference cuts from the stream: after any number of reads they are the first ones, with the rest still in the bytes kept and not read, and
  when the connection is reset for a bad length they are all packets in front of it.
\<close>

theorem stream_reader_refines:
  assumes "0 \<le> fb_headroom f" "2 \<le> fb_payload_size f" "2 \<le> fb_tailroom f" "BUF_SIZE f < BUF_SIZE_MAX"
  shows "\<exists>sb ps r l. socket_frame_init f False = Some sb
     \<and> stream_run ks s \<lparr>ls_sd_defined = True, ls_stream_buf = sb, ls_stream_reset = False\<rparr> = Some (ps, r, l)
     \<and> run_refines (nat (fb_payload_size f)) s (ps, r, l)"
proof -
  from stream_init_inv [OF assms] obtain sb where sb: "socket_frame_init f False = Some sb" "\<not> sb_error sb" "pending_bytes sb = []"
    "stream_inv (nat (fb_headroom f)) (nat (fb_payload_size f)) sb" by blast
  then have "conn_inv (nat (fb_headroom f)) (nat (fb_payload_size f)) \<lparr>ls_sd_defined = True, ls_stream_buf = sb, ls_stream_reset = False\<rparr>"
    by (simp add: conn_inv_def)
  from run_spec [OF this, of ks s] sb show ?thesis by auto
qed

definition tcp_frame :: frame where
  "tcp_frame = \<lparr>fb_payload_size = 6, fb_headroom = 2, fb_tailroom = 2, mss_fix = 0, max_fragment_size = 0, tun_mtu = 6, tun_max_mtu = 6, extra_tun = 0\<rparr>"

theorem stream_reader_refines_witness:
  "\<exists>sb ps r l. socket_frame_init tcp_frame False = Some sb
     \<and> stream_run [0, 4, 1, 9] [0, 2, 7, 8, 0, 9] \<lparr>ls_sd_defined = True, ls_stream_buf = sb, ls_stream_reset = False\<rparr> = Some (ps, r, l)
     \<and> run_refines 6 [0, 2, 7, 8, 0, 9] (ps, r, l)"
  using stream_reader_refines [of tcp_frame "[0, 4, 1, 9]" "[0, 2, 7, 8, 0, 9]"] by (simp add: tcp_frame_def BUF_SIZE_def BUF_SIZE_MAX_def)

section \<open>Both ends\<close>

lemma write_tcp_spec:
  assumes "buf_live b" "2 \<le> offset b" "len b \<le> sb_maxlen sb" "len b < 65536"
  obtains b' where "link_socket_write_tcp sb b = Some (framed_packet (buf_content b), b')"
proof -
  note l = len_buf_content [OF assms(1)]
  have n: "buf_len b = len b" "0 \<le> len b" using assms(1) by (auto elim: buf_live_Some)
  have w: "(word_of_int (len b) :: u16) = of_nat (length (buf_content b))" unfolding l by simp
  have "uint (word_of_int (len b) :: u16) = len b" using n assms(4) by (simp add: uint_word_of_int_eq take_bit_int_eq_self)
  moreover obtain b' where "buf_write_prepend b (be16 (of_nat (length (buf_content b)))) = Some (True, b')" "buf_live b'"
      "buf_content b' = be16 (of_nat (length (buf_content b))) @ buf_content b"
    using wire.push_ok [OF assms(1), of "be16 (of_nat (length (buf_content b)))"] assms(2) by (fastforce simp: buf_headroom_def le_nat_iff)
  ultimately show thesis using assms(3) n w buf_bytes_live by (intro that [of b']) (simp add: link_socket_write_tcp_def framed_packet_def)
qed

text \<open>C5: Packets of any lengths up to the size of the buffers, written one after the other to a TCP connection, arrive at the other end unchanged, complete and in order, however
  the stream is cut into pieces on its way, once the reader has been called often enough.
\<close>

theorem tcp_roundtrip:
  assumes f: "0 \<le> fb_headroom f" "2 \<le> fb_payload_size f" "2 \<le> fb_tailroom f" "BUF_SIZE f < BUF_SIZE_MAX" "socket_frame_init f False = Some sb"
    and bs: "\<forall>b \<in> set bs. buf_live b \<and> 2 \<le> offset b \<and> 0 < len b \<and> len b \<le> fb_payload_size f \<and> len b < 65536"
    and ks: "2 * sum_list (map (\<lambda>b. 2 + length (buf_content b)) bs) < length ks"
  shows "\<exists>ws r l. map (link_socket_write_tcp sb) bs = map Some ws
     \<and> stream_run ks (concat (map fst ws)) \<lparr>ls_sd_defined = True, ls_stream_buf = sb, ls_stream_reset = False\<rparr> = Some (map buf_content bs, r, l)
     \<and> \<not> socket_connection_reset l 0 False"
proof -
  let ?M = "nat (fb_payload_size f)" and ?H = "nat (fb_headroom f)" and ?l = "\<lparr>ls_sd_defined = True, ls_stream_buf = sb, ls_stream_reset = False\<rparr>"
  let ?ps = "map buf_content bs"
  from stream_init_inv [OF f(1-4)] f(5) have sb: "stream_inv ?H ?M sb" "\<not> sb_error sb" "pending_bytes sb = []" "sb_maxlen sb = fb_payload_size f" by auto
  have "\<forall>b \<in> set bs. \<exists>b'. link_socket_write_tcp sb b = Some (framed_packet (buf_content b), b')"
    using bs sb(4) write_tcp_spec by metis
  then obtain g where g: "\<forall>b \<in> set bs. link_socket_write_tcp sb b = Some (framed_packet (buf_content b), g b)" by metis
  let ?ws = "map (\<lambda>b. (framed_packet (buf_content b), g b)) bs"
  have ws: "map (link_socket_write_tcp sb) bs = map Some ?ws" "concat (map fst ?ws) = concat (map framed_packet ?ps)" using g by (simp_all add: comp_def)
  have small: "\<forall>p \<in> set ?ps. 1 \<le> length p \<and> length p \<le> ?M \<and> length p < 65536" 
  proof (simp, rule ballI)
    fix b assume "b \<in> set bs"
    with bs have b: "buf_live b" "0 < len b" "len b \<le> fb_payload_size f" "len b < 65536" by auto
    then show "Suc 0 \<le> length (buf_content b) \<and> length (buf_content b) \<le> ?M \<and> length (buf_content b) < 65536"
      using len_buf_content [OF b(1)] by (simp add: le_nat_iff Suc_le_eq)
  qed
  note d = deframe_framed [OF small]
  have c: "conn_inv ?H ?M ?l" using sb by (simp add: conn_inv_def)
  from run_spec [OF c, of ks "concat (map framed_packet ?ps)"] sb obtain ps r l where
    run: "stream_run ks (concat (map framed_packet ?ps)) ?l = Some (ps, r, l)" "conn_inv ?H ?M l" "run_refines ?M (concat (map framed_packet ?ps)) (ps, r, l)" by auto
  have "length (concat (map framed_packet ?ps)) = sum_list (map (\<lambda>b. 2 + length (buf_content b)) bs)"
    by (simp add: length_concat framed_packet_def comp_def)
  then have "ps = ?ps" using run_complete [OF c _ _ run(1)] ks sb d by simp
  moreover have "\<not> socket_connection_reset l 0 False" using run(2,3) d by (auto simp: run_refines_def conn_inv_def socket_connection_reset_def)
  ultimately show ?thesis using ws run(1) by (intro exI [of _ ?ws]) auto
qed


definition tcp_packet :: "bytes \<Rightarrow> buffer" where
  "tcp_packet p = \<lparr>capacity = int (length p) + 2, offset = 2, len = int (length p), data = Some ([0, 0] @ p)\<rparr>"

lemma tcp_packet_simps: "length p < 1000 \<Longrightarrow> buf_live (tcp_packet p)" "buf_content (tcp_packet p) = p" "offset (tcp_packet p) = 2" "len (tcp_packet p) = int (length p)"
  by (simp_all add: tcp_packet_def buf_live_def buf_wf_def buf_content_def slice_def BUF_SIZE_MAX_def)

theorem tcp_roundtrip_witness:
  "\<exists>sb ws r l. socket_frame_init tcp_frame False = Some sb \<and> map (link_socket_write_tcp sb) [tcp_packet [7, 8], tcp_packet [9]] = map Some ws
     \<and> stream_run (replicate 15 0) (concat (map fst ws)) \<lparr>ls_sd_defined = True, ls_stream_buf = sb, ls_stream_reset = False\<rparr> = Some ([[7, 8], [9]], r, l)
     \<and> \<not> socket_connection_reset l 0 False"
proof -
  have f: "0 \<le> fb_headroom tcp_frame" "2 \<le> fb_payload_size tcp_frame" "2 \<le> fb_tailroom tcp_frame" "BUF_SIZE tcp_frame < BUF_SIZE_MAX"
    by (simp_all add: tcp_frame_def BUF_SIZE_def BUF_SIZE_MAX_def)
  from stream_init_inv [OF f] obtain sb where sb: "socket_frame_init tcp_frame False = Some sb" by blast
  show ?thesis using tcp_roundtrip [OF f sb, of "[tcp_packet [7, 8], tcp_packet [9]]" "replicate 15 0"] sb
    by (simp add: tcp_packet_simps tcp_frame_def)
qed

text \<open>
  The length in front of a packet has 16 bits and the assertion looks at these only: a packet of more than 65535 bytes is announced with the wrong length, and the
  other end takes what follows for the next packet.
\<close>

theorem tcp_length_wraps:
  assumes b: "buf_live b" "2 \<le> offset b" and n: "len b = 65536 + n" "0 \<le> n" "n < 65536" "n \<le> sb_maxlen sb"
  shows "\<exists>b'. link_socket_write_tcp sb b = Some (be16 (word_of_int n) @ buf_content b, b')"
proof -
  have l: "buf_len b = len b" using b by (auto elim: buf_live_Some)
  have "(65536 :: u16) = 0" by simp
  then have w: "(word_of_int (len b) :: u16) = word_of_int n" using n by (simp add: wi_hom_add [symmetric])
  have u: "uint (word_of_int n :: u16) = n" using n by (simp add: uint_word_of_int_eq take_bit_int_eq_self)
  obtain b' where "buf_write_prepend b (be16 (word_of_int n)) = Some (True, b')" "buf_live b'" "buf_content b' = be16 (word_of_int n) @ buf_content b"
    using wire.push_ok [OF b(1), of "be16 (word_of_int n)"] b(2) by (fastforce simp: buf_headroom_def le_nat_iff)
  then show ?thesis unfolding link_socket_write_tcp_def l w Let_def u using n(4) by (simp add: buf_bytes_live)
qed

end
