(* ===== verification/Tunnel.thy ===== *)
theory Tunnel
  imports Forward
begin

text \<open>
  What the packet path of \<^verbatim>\<open>Forward\<close> does end to end. The first theorem takes a packet from the tunnel device of one end through compression framing,
  key selection, AEAD protection and packet header to the link, and on the other end back to the tunnel device; the second one is
  its safety counterpart: what reaches the tunnel device has been decrypted and authenticated with a key of the session.
\<close>

section \<open>Key scan and counters\<close>

lemma upd_sess_session: "length (tm_session m) = TM_SIZE \<Longrightarrow> i < TM_SIZE \<Longrightarrow> tm_session (upd_sess i f m) ! i = f (tm_session m ! i)"
  by (simp add: upd_sess_def)

lemma get_upd_key_scan:
  assumes "length (tm_session m) = TM_SIZE" "i < KEY_SCAN_SIZE" "get_key_scan m i = Some ks"
  shows "get_key_scan (upd_key_scan i f m) i = Some (f ks)"
proof -
  have "i = 0 \<or> i = 1 \<or> i = 2" using assms(2) by (auto simp: KEY_SCAN_SIZE_def)
  then show ?thesis using assms(1,3) by (auto simp: get_key_scan_def upd_key_scan_def upd_sess_session)
qed

lemma upd_key_scan_fields [simp]:
  "tm_multi_state (upd_key_scan i f m) = tm_multi_state m" "tm_save_ks (upd_key_scan i f m) = tm_save_ks m" "tm_peer_id (upd_key_scan i f m) = tm_peer_id m"
  "length (tm_session (upd_key_scan i f m)) = length (tm_session m)"
  by (auto simp: upd_key_scan_def upd_sess_def)

text \<open>The packet after its header, with the key and the counters of that key.\<close>

lemma handle_v2:
  assumes inv: "multi_inv m" and b: "buf_live buf" "buf_content buf = be32 w @ rest" "rest \<noteq> []" and src: "family_known src"
    and op: "header_op (hd (be32 w)) = P_DATA_V2" and k: "find (scan_accepts m (header_key_id (hd (be32 w))) src floated) [0..<KEY_SCAN_SIZE] = Some i"
  shows "\<exists>n b'. handle_data_channel_packet m src buf floated ad =
      Some (upd_key_scan i (\<lambda>ks. ks\<lparr>ks_n_packets := ks_n_packets ks + 1, ks_n_bytes := ks_n_bytes ks + n\<rparr>) m, b', Some i, Some (offset buf))
    \<and> buf_advance buf 4 = (True, b') \<and> buf_live b' \<and> buf_content b' = rest"
proof -
  obtain c b1 b2 b3 where w: "be32 w = [c, b1, b2, b3]" by (simp add: be32_def)
  have c: "buf_content buf = c # b1 # b2 # b3 # rest" "hd (be32 w) = c" using b(2) w by simp_all
  note k' = find_data_key_spec [OF inv _ src, of "[0..<KEY_SCAN_SIZE]" "header_key_id c" floated] k [unfolded c(2)]
  obtain ks where ks: "get_key_scan m i = Some ks" "key_ok ks" "scan_accepts m (header_key_id c) src floated i"
    using find_scan_inv [OF inv k [unfolded c(2)]] by metis
  then have ini: "co_initialized (ks_crypto ks)" by (auto simp: scan_accepts_def scan_usable_def key_ok_def)
  have l: "len buf = int (length rest) + 4" using len_buf_content [OF b(1)] c(1) by simp
  obtain b' where b': "buf_advance buf 4 = (True, b')" "buf_live b'" "buf_content b' = rest"
    using buf_advance_live [OF b(1), of "be32 w" rest 4] b(2) by auto
  have v: "buf_valid buf" "0 < length rest" using b(1,3) by (auto elim: buf_live_Some)
  have a: "buf_advance buf 1 = (True, buf\<lparr>offset := offset buf + 1, len := len buf - 1\<rparr>)"
    "buf_advance (buf\<lparr>offset := offset buf + 1, len := len buf - 1\<rparr>) 3 = (True, b')" "\<not> len buf - 1 < 4"
    using l v b'(1) by (auto simp: buf_advance_def buf_valid_def)
  have "P_DATA_V2 \<noteq> P_DATA_V1" by (simp add: P_DATA_V1_def P_DATA_V2_def)
  then show ?thesis using k' ks(1) ini a b' op buf_first_live [OF b(1) c(1)] buf_bptr_live [OF b(1)]
    by (auto simp: handle_data_channel_packet_def c(2) Let_def)
qed

section \<open>Sending\<close>

text \<open>What compression framing makes of a packet, without and with a context.\<close>

definition sent_bytes :: "compress_context option \<Rightarrow> bytes \<Rightarrow> bytes" where
  "sent_bytes cmp bs = (case cmp of None \<Rightarrow> bs | Some ctx \<Rightarrow> framed ctx bs)"

definition comp_plain :: "compress_context option \<Rightarrow> u8 \<Rightarrow> bool" where
  "comp_plain cmp x \<longleftrightarrow> (case cmp of None \<Rightarrow> True | Some ctx \<Rightarrow> v2_framing (cmp_alg ctx) \<longrightarrow> x \<noteq> COMP_ALGV2_INDICATOR_BYTE)"

lemma sent_bytes_length: "0 < length bs \<Longrightarrow> 0 < length (sent_bytes cmp bs) \<and> length (sent_bytes cmp bs) \<le> length bs + 1"
  by (cases bs) (auto simp: sent_bytes_def framed_def split: option.splits)

lemma compress_stage:
  assumes "buf_live (c2_buf c)" "buf_content (c2_buf c) = x # xs" "1 \<le> buf_room (c2_buf c)" "1 \<le> buf_headroom (c2_buf c)"
    and "comp_plain (c2_comp_context c) x" "c2_fragment c = None"
  shows "\<exists>buf. compress_fragment c = Some (c\<lparr>c2_buf := buf, c2_fragment := None\<rparr>) \<and> buf_live buf \<and> buf_content buf = sent_bytes (c2_comp_context c) (x # xs)"
proof (cases "c2_comp_context c")
  case None
  then show ?thesis using assms(1,2,6) by (intro exI [of _ "c2_buf c"]) (simp add: compress_fragment_def sent_bytes_def)
next
  case (Some ctx)
  then show ?thesis using alg_compress_framed [OF assms(1-4), of ctx] assms(5,6) by (auto simp: compress_fragment_def comp_plain_def sent_bytes_def)
qed

lemma pre_encrypt_other:
  "tls_pre_encrypt now m buf = Some (m1, buf1, Some i) \<Longrightarrow> 0 < len buf' \<Longrightarrow> tls_pre_encrypt now m buf' = Some (m1, buf', Some i)"
  by (auto simp: tls_pre_encrypt_def Let_def bind_eq_Some_conv split: if_splits option.splits)

lemma select_save [simp]: "tls_select_encryption_key now (m\<lparr>tm_save_ks := x\<rparr>) = tls_select_encryption_key now m"
proof -
  have "select_key_loop now (m\<lparr>tm_save_ks := x\<rparr>) is sel = select_key_loop now m is sel" for "is" sel
  proof (induction "is" arbitrary: sel)
    case (Cons i "is")
    then show ?case by (cases "get_key_scan m i") simp_all
  qed simp
  then show ?thesis by (simp add: tls_select_encryption_key_def)
qed

text \<open>
  An end of the tunnel that can send the packet in its buffer: the connection is set up, the session ids and keys satisfy the
  invariant, the packet and the work buffer are large enough, and the key chosen for sending is an AEAD key of the epoch format in
  step with the key chains \<open>ea\<close> (ours) and \<open>eb\<close> (the peer's).
\<close>

definition sender_end :: "forward_lib \<Rightarrow> epoch_key \<Rightarrow> epoch_key \<Rightarrow> int \<Rightarrow> vpn_context \<Rightarrow> nat \<Rightarrow> key_state \<Rightarrow> bool" where
  "sender_end lb ea eb now c i ks \<longleftrightarrow>
     \<not> opt_dco c \<and> tm_multi_state (c2_tls_multi c) = CAS_CONNECT_DONE \<and> multi_inv (c2_tls_multi c) \<and> c2_use_peer_id c \<and> c2_fragment c = None
     \<and> link_socket_actual_defined (li_actual (c2_link_info c))
     \<and> buf_live (c2_buf c) \<and> 0 < len (c2_buf c) \<and> 1 \<le> buf_room (c2_buf c) \<and> 1 \<le> buf_headroom (c2_buf c)
     \<and> comp_plain (c2_comp_context c) (hd (buf_content (c2_buf c)))
     \<and> buf_live (c2_encrypt_buf c) \<and> 4 \<le> fb_headroom (c2_frame c)
     \<and> len (c2_buf c) + 25 + lib_block_size (cl_aead (fl_cipher lb)) \<le> capacity (c2_encrypt_buf c) - fb_headroom (c2_frame c)
     \<and> cl_mode (fl_cipher lb) = MODE_AEAD \<and> aead_lengths (cl_aead (fl_cipher lb))
     \<and> tls_select_encryption_key now (c2_tls_multi c) = Some (Some i) \<and> get_key_scan (c2_tls_multi c) i = Some ks
     \<and> chan_inv (fl_hmac lb) ea eb (ks_crypto ks)"

lemma buf_init_live:
  assumes "buf_live b" "0 \<le> off" "off \<le> capacity b"
  shows "\<exists>b'. buf_init_dowork b off = (True, b') \<and> buf_live b' \<and> buf_content b' = [] \<and> offset b' = off \<and> capacity b' = capacity b \<and> len b' = 0"
  using assms by (auto simp: buf_init_dowork_def buf_live_def buf_wf_def buf_content_def slice_def split: option.splits)

lemma work_header:
  assumes "sender_end lb ea eb now c i ks" "tm_save_ks m = Some i" "get_key_scan m i = Some ks'"
  shows "\<exists>work0 work. buf_init_dowork (c2_encrypt_buf c) (fb_headroom (c2_frame c)) = (True, work0) \<and> tls_prepend_opcode_v2 m work0 = Some work
    \<and> buf_live work \<and> len work = 4 \<and> int (buf_room work) = capacity (c2_encrypt_buf c) - fb_headroom (c2_frame c)
    \<and> buf_content work = be32 (push_bit 24 (word_of_int (push_bit P_OPCODE_SHIFT P_DATA_V2 OR ks_key_id ks')) OR (tm_peer_id m AND 0xFFFFFF))"
proof -
  note s = assms(1) [unfolded sender_end_def]
  have r: "fb_headroom (c2_frame c) \<le> capacity (c2_encrypt_buf c)"
    using s by (simp add: aead_lengths_def)
  obtain w0 where w0: "buf_init_dowork (c2_encrypt_buf c) (fb_headroom (c2_frame c)) = (True, w0)" "buf_live w0" "buf_content w0 = []"
    "offset w0 = fb_headroom (c2_frame c)" "capacity w0 = capacity (c2_encrypt_buf c)" "len w0 = 0"
    using buf_init_live [OF _ _ r] s by auto
  let ?h = "be32 (push_bit 24 (word_of_int (push_bit P_OPCODE_SHIFT P_DATA_V2 OR ks_key_id ks')) OR (tm_peer_id m AND 0xFFFFFF))"
  have "4 \<le> fb_headroom (c2_frame c)" using s by blast
  then have "length ?h \<le> buf_headroom w0" using w0(4) by (simp add: buf_headroom_def le_nat_iff)
  from wire.push_ok [OF w0(2) this] obtain w where w: "buf_write_prepend w0 ?h = Some (True, w)" "buf_live w" "buf_content w = ?h" "buf_room w = buf_room w0"
    using w0(3) by auto
  have "len w = 4" using len_buf_content [OF w(2)] w(3) by simp
  moreover have "int (buf_room w) = capacity (c2_encrypt_buf c) - fb_headroom (c2_frame c)" using w(4) w0(4-6) r by (simp add: buf_room_def)
  moreover have "tls_prepend_opcode_v2 m w0 = Some w" using assms(2,3) w(1) by (simp add: tls_prepend_opcode_v2_def Let_def)
  ultimately show ?thesis using w0(1) w(2,3) by blast
qed

lemma encrypt_sign_packet:
  assumes "sender_end lb ea eb now c i ks"
  shows "\<exists>c' buf work o'. encrypt_sign lb now False c True = Some c'
    \<and> buf_live buf \<and> buf_content buf = sent_bytes (c2_comp_context c) (buf_content (c2_buf c))
    \<and> buf_live work \<and> len work = 4 \<and> len buf + 24 + lib_block_size (cl_aead (fl_cipher lb)) \<le> int (buf_room work)
    \<and> buf_content work = be32 (push_bit 24 (word_of_int (push_bit P_OPCODE_SHIFT P_DATA_V2 OR ks_key_id ks)) OR (tm_peer_id (c2_tls_multi c) AND 0xFFFFFF))
    \<and> openvpn_encrypt_aead (fl_junk lb) (fl_hmac lb) (cl_aead (fl_cipher lb)) now buf work (ks_crypto ks) = Some (c2_to_link c', o')
    \<and> (\<exists>ks'. get_key_scan (c2_tls_multi c') i = Some ks' \<and> ks_crypto ks' = o')
    \<and> (len (c2_to_link c') \<noteq> 0 \<longrightarrow> buf_live (c2_to_link c'))"
proof -
  note s = assms [unfolded sender_end_def]
  let ?m = "c2_tls_multi c" and ?lib = "cl_aead (fl_cipher lb)" and ?m1 = "(c2_tls_multi c)\<lparr>tm_save_ks := Some i\<rparr>"
  obtain x xs where x: "buf_content (c2_buf c) = x # xs" using s len_buf_content [of "c2_buf c"] by (cases "buf_content (c2_buf c)") auto
  obtain buf where buf: "compress_fragment c = Some (c\<lparr>c2_buf := buf, c2_fragment := None\<rparr>)" "buf_live buf"
    "buf_content buf = sent_bytes (c2_comp_context c) (x # xs)" using compress_stage [OF _ x] s x by auto
  have lb: "0 < len buf" "len buf \<le> len (c2_buf c) + 1"
    using sent_bytes_length [of "x # xs" "c2_comp_context c"] len_buf_content [OF buf(2)] len_buf_content [of "c2_buf c"] buf(3) x s by simp_all
  have pre: "tls_pre_encrypt now ?m buf = Some (?m1, buf, Some i)" using s lb(1) by (simp add: tls_pre_encrypt_def)
  obtain w0 work where w: "buf_init_dowork (c2_encrypt_buf c) (fb_headroom (c2_frame c)) = (True, w0)" "tls_prepend_opcode_v2 ?m1 w0 = Some work"
    "buf_live work" "len work = 4" "int (buf_room work) = capacity (c2_encrypt_buf c) - fb_headroom (c2_frame c)"
    "buf_content work = be32 (push_bit 24 (word_of_int (push_bit P_OPCODE_SHIFT P_DATA_V2 OR ks_key_id ks)) OR (tm_peer_id ?m AND 0xFFFFFF))"
    using work_header [OF assms, of ?m1 ks] s by auto
  have room: "len buf + 24 + lib_block_size ?lib \<le> int (buf_room work)" using lb(2) w(5) s by simp
  have ready: "send_ready ?lib buf work" using room lb(1) s buf(2) w(3) by (simp add: send_ready_def aead_lengths_def)
  have ch: "chan_inv (fl_hmac lb) ea eb (ks_crypto ks)" using s by blast
  from aead_encrypt_total [OF this ready room, of "fl_junk lb" now] obtain out o' where
    out: "openvpn_encrypt_aead (fl_junk lb) (fl_hmac lb) ?lib now buf work (ks_crypto ks) = Some (out, o')"
      "out = buf\<lparr>len := 0\<rparr> \<or> buf_live out" by blast
  have mode: "cipher_ctx_mode_aead (fl_cipher lb) (co_encrypt (ks_crypto ks))" using s chan_inv_facts [OF ch] by (auto simp: cipher_ctx_mode_aead_def)
  have enc: "encrypt_with lb now (Some i) buf work ?m1 = Some (out, upd_key_scan i (\<lambda>ks. ks\<lparr>ks_crypto := o'\<rparr>) ?m1)"
    using s out(1) lb(1) mode by (simp add: encrypt_with_def openvpn_encrypt_def)
  let ?m2 = "upd_key_scan i (\<lambda>ks. ks\<lparr>ks_crypto := o'\<rparr>) ?m1"
  have i: "i < KEY_SCAN_SIZE" using s by (auto simp: get_key_scan_def KEY_SCAN_SIZE_def split: if_splits)
  have ln: "length (tm_session ?m) = TM_SIZE" using s by (simp add: multi_inv_def)
  have k2: "get_key_scan ?m2 i = Some (ks\<lparr>ks_crypto := o'\<rparr>)" using get_upd_key_scan [OF _ i, of ?m1 ks] ln s by simp
  obtain m3 where m3: "tls_post_encrypt ?m2 out = Some m3" "\<exists>ks'. get_key_scan m3 i = Some ks' \<and> ks_crypto ks' = o'"
  proof (cases "len out > 0")
    case True
    have "tls_post_encrypt ?m2 out = Some (upd_key_scan i (\<lambda>ks. ks\<lparr>ks_n_packets := ks_n_packets ks + 1, ks_n_bytes := ks_n_bytes ks + word_of_int (len out)\<rparr>) (?m2\<lparr>tm_save_ks := None\<rparr>))"
      using True by (simp add: tls_post_encrypt_def Let_def)
    moreover have "get_key_scan (upd_key_scan i (\<lambda>ks. ks\<lparr>ks_n_packets := ks_n_packets ks + 1, ks_n_bytes := ks_n_bytes ks + word_of_int (len out)\<rparr>) (?m2\<lparr>tm_save_ks := None\<rparr>)) i
        = Some (ks\<lparr>ks_crypto := o', ks_n_packets := ks_n_packets ks + 1, ks_n_bytes := ks_n_bytes ks + word_of_int (len out)\<rparr>)"
      using get_upd_key_scan [OF _ i, of "?m2\<lparr>tm_save_ks := None\<rparr>"] k2 ln by simp
    ultimately show thesis using that by simp
  next
    case False
    then show thesis using that [of "?m2\<lparr>tm_save_ks := None\<rparr>"] k2 by (simp add: tls_post_encrypt_def Let_def)
  qed
  have act: "\<exists>ad. link_socket_get_outgoing_addr out (c2_link_info c) (c2_to_link_addr c) = (out, ad)"
    using s by (auto simp: link_socket_get_outgoing_addr_def)
  have "\<exists>c'. encrypt_sign lb now False c True = Some c' \<and> c2_to_link c' = out \<and> c2_tls_multi c' = m3"
    using s buf(1) pre w(1,2) enc m3(1) act lb(1) by (auto simp: encrypt_sign_def Let_def buffer_turnover_def)
  then obtain c' where c': "encrypt_sign lb now False c True = Some c'" "c2_to_link c' = out" "c2_tls_multi c' = m3" by blast
  have "len out \<noteq> 0 \<longrightarrow> buf_live out" using out(2) by auto
  then show ?thesis using c' buf(2,3) x w(3,4,6) room out(1) m3(2) by (intro exI [of _ c'] exI [of _ buf] exI [of _ work] exI [of _ o']) simp
qed

section \<open>Receiving\<close>

text \<open>
  An end that is ready for a packet with the given key id, epoch and counter: the sender's address and one of its keys match, the key
  window covers the epoch, the counter is new, and the buffers are large enough.
\<close>

definition receiver_end ::
    "forward_lib \<Rightarrow> epoch_key \<Rightarrow> epoch_key \<Rightarrow> int \<Rightarrow> openvpn_sockaddr \<Rightarrow> int \<Rightarrow> u16 \<times> u64 \<Rightarrow> vpn_context \<Rightarrow> nat \<Rightarrow> key_state \<Rightarrow> bool" where
  "receiver_end lb ea eb now src key_id pos c j ks \<longleftrightarrow>
     tm_multi_state (c2_tls_multi c) = CAS_CONNECT_DONE \<and> multi_inv (c2_tls_multi c) \<and> c2_fragment c = None \<and> opt_tuntap_defined c
     \<and> family_known src \<and> link_socket_verify_incoming_addr (c2_buf c) (c2_link_info c) src = Some True
     \<and> find (scan_accepts (c2_tls_multi c) key_id src False) [0..<KEY_SCAN_SIZE] = Some j \<and> get_key_scan (c2_tls_multi c) j = Some ks
     \<and> chan_inv (fl_hmac lb) eb ea (ks_crypto ks)
     \<and> (\<exists>ctx. epoch_lookup_decrypt_key (ks_crypto ks) (fst pos) = Some (Some ctx) \<and> \<not> cipher_decrypt_verify_fail_exceeded ctx)
     \<and> epoch_fresh (ks_crypto ks) (fst pos) (snd pos)
     \<and> cl_mode (fl_cipher lb) = MODE_AEAD \<and> aead_lengths (cl_aead (fl_cipher lb)) \<and> aead_inverse (cl_aead (fl_cipher lb)) \<and> 1 < now
     \<and> buf_live (c2_buf c) \<and> buf_live (c2_decrypt_buf c) \<and> 0 \<le> fb_headroom (c2_frame c)
     \<and> len (c2_buf c) + lib_block_size (cl_aead (fl_cipher lb)) \<le> capacity (c2_decrypt_buf c) - fb_headroom (c2_frame c)
     \<and> (c2_comp_context c = None \<or> fst (buf_init_dowork (c2_decompress_buf c) (fb_headroom (c2_frame c))))"

text \<open>The first part of the reception, for a data packet of the second format.\<close>

lemma part1_data:
  assumes r: "receiver_end lb ea eb now src key_id pos c j ks"
    and pkt: "buf_content (c2_buf c) = be32 w @ rest" "rest \<noteq> []" "header_op (hd (be32 w)) = P_DATA_V2" "header_key_id (hd (be32 w)) = key_id"
    and dec: "\<And>rb. buf_advance (c2_buf c) 4 = (True, rb) \<Longrightarrow> buf_live rb \<Longrightarrow>
      \<exists>plain o'. openvpn_decrypt_aead (fl_junk lb) (fl_hmac lb) (cl_aead (fl_cipher lb)) now (fb_headroom (c2_frame c)) (offset (c2_buf c)) rb (c2_decrypt_buf c) (ks_crypto ks)
        = Some (True, plain, o') \<and> buf_live plain \<and> buf_content plain = bs"
  shows "\<exists>n l m plain. process_incoming_link_part1 lb now src False c
      = Some (True, c\<lparr>c2_link_read_bytes := n, c2_original_recv_size := l, c2_buf := plain, c2_tls_multi := m\<rparr>)
    \<and> buf_live plain \<and> buf_content plain = bs"
proof -
  note s = r [unfolded receiver_end_def]
  let ?m = "c2_tls_multi c" and ?b = "c2_buf c"
  have bl: "buf_live ?b" "multi_inv ?m" "family_known src" and k: "find (scan_accepts ?m key_id src False) [0..<KEY_SCAN_SIZE] = Some j"
    using s by auto
  from handle_v2 [OF bl(2,1) pkt(1,2) bl(3) pkt(3), of False j None] k pkt(4) obtain n rb where
    h: "handle_data_channel_packet ?m src ?b False None =
      Some (upd_key_scan j (\<lambda>ks. ks\<lparr>ks_n_packets := ks_n_packets ks + 1, ks_n_bytes := ks_n_bytes ks + n\<rparr>) ?m, rb, Some j, Some (offset ?b))"
    and rb: "buf_advance ?b 4 = (True, rb)" "buf_live rb" "buf_content rb = rest" by auto
  have lr: "0 < len rb" "0 < len ?b" using len_buf_content [OF rb(2)] len_buf_content [OF bl(1)] rb(3) pkt(1,2) by simp_all
  have first: "buf_first ?b = Some (hd (be32 w))" using buf_first_live [OF bl(1)] pkt(1) by (simp add: be32_def)
  have pre: "tls_pre_decrypt (fl_tls lb) now ?m src ?b False None =
      Some (False, upd_key_scan j (\<lambda>ks. ks\<lparr>ks_n_packets := ks_n_packets ks + 1, ks_n_bytes := ks_n_bytes ks + n\<rparr>) ?m, rb, Some j, Some (offset ?b))"
    using h first pkt(3) lr(2) by (simp add: tls_pre_decrypt_def)
  have j: "j < KEY_SCAN_SIZE" using find_scan_inv [OF bl(2) k] by metis
  have ln: "length (tm_session ?m) = TM_SIZE" using bl(2) by (simp add: multi_inv_def)
  have kj: "get_key_scan ?m j = Some ks" using s by blast
  note g = get_upd_key_scan [OF ln j kj, of "\<lambda>ks. ks\<lparr>ks_n_packets := ks_n_packets ks + 1, ks_n_bytes := ks_n_bytes ks + n\<rparr>"]
  from dec [OF rb(1,2)] obtain plain o' where d: "openvpn_decrypt_aead (fl_junk lb) (fl_hmac lb) (cl_aead (fl_cipher lb)) now (fb_headroom (c2_frame c)) (offset ?b) rb (c2_decrypt_buf c) (ks_crypto ks)
        = Some (True, plain, o')" "buf_live plain" "buf_content plain = bs" by blast
  have ch: "chan_inv (fl_hmac lb) eb ea (ks_crypto ks)" using s by blast
  have mode: "cipher_ctx_mode_aead (fl_cipher lb) (co_decrypt (ks_crypto ks))" using s chan_inv_facts [OF ch] by (auto simp: cipher_ctx_mode_aead_def)
  have dw: "\<exists>m. decrypt_with lb now (c2_frame c) (Some j) (Some (offset ?b)) rb (c2_decrypt_buf c)
      (upd_key_scan j (\<lambda>ks. ks\<lparr>ks_n_packets := ks_n_packets ks + 1, ks_n_bytes := ks_n_bytes ks + n\<rparr>) ?m) = Some (True, plain, m)"
    using g d(1) mode lr(1) by (simp add: decrypt_with_def openvpn_decrypt_def)
  have v: "P_DATA_V2 \<noteq> P_DATA_V1" by (simp add: P_DATA_V1_def P_DATA_V2_def)
  from dw obtain m where m: "decrypt_with lb now (c2_frame c) (Some j) (Some (offset ?b)) rb (c2_decrypt_buf c)
      (upd_key_scan j (\<lambda>ks. ks\<lparr>ks_n_packets := ks_n_packets ks + 1, ks_n_bytes := ks_n_bytes ks + n\<rparr>) ?m) = Some (True, plain, m)" by blast
  have "process_incoming_link_part1 lb now src False c = Some (True, c\<lparr>c2_link_read_bytes := c2_link_read_bytes c + word_of_int (len ?b),
      c2_original_recv_size := len ?b, c2_buf := plain, c2_tls_multi := m\<rparr>)"
    using s pre m first pkt(3) lr v by (simp add: process_incoming_link_part1_def check_incoming_addr_def Let_def)
  with d(2,3) show ?thesis by blast
qed

lemma part2_data:
  assumes r: "c2_fragment c = None" "opt_tuntap_defined c" "c2_comp_context c = None \<or> fst (buf_init_dowork (c2_decompress_buf c) (fb_headroom (c2_frame c)))"
    and b: "buf_live (c2_buf c)" "buf_content (c2_buf c) = sent_bytes (c2_comp_context c) (x # xs)" "comp_plain (c2_comp_context c) x"
    and own: "x # xs \<noteq> ping_string" "take (length occ_magic) (x # xs) \<noteq> occ_magic"
  shows "\<exists>c'. process_incoming_link_part2 lb now False c = Some c' \<and> buf_content (c2_to_tun c') = x # xs \<and> buf_live (c2_to_tun c') \<and> c2_frame c' = c2_frame c"
proof -
  have l: "0 < len (c2_buf c)" using len_buf_content [OF b(1)] sent_bytes_length [of "x # xs" "c2_comp_context c"] b(2) by simp
  obtain out where out: "(case c2_comp_context c of None \<Rightarrow> Some (None, c2_buf c)
      | Some ctx \<Rightarrow> do { (buf, ctx) \<leftarrow> alg_decompress (fl_comp lb) (c2_frame c) (c2_decompress_buf c) ctx (c2_buf c); Some (Some ctx, buf) }) = Some (c2_comp_context c, out)"
    "buf_live out" "buf_content out = x # xs"
  proof (cases "c2_comp_context c")
    case None
    then show thesis using that [of "c2_buf c"] b by (simp add: sent_bytes_def)
  next
    case (Some ctx)
    with alg_decompress_framed [OF b(1), of ctx x xs "c2_decompress_buf c" "c2_frame c" "fl_comp lb"] b(2,3) r(3) show thesis
      using that by (auto simp: sent_bytes_def comp_plain_def)
  qed
  have lo: "0 < len out" using len_buf_content [OF out(2)] out(3) by simp
  have p: "is_ping_msg out = Some False" using buf_bytes_live [OF out(2)] out(3) own(1) by (auto simp: is_ping_msg_def buf_string_match_def)
  have o: "is_occ_msg out = Some False" using buf_bytes_live [OF out(2)] out(3) own(2) by (auto simp: is_occ_msg_def buf_string_match_head_def)
  show ?thesis using r(1,2) l out lo p o
    by (auto simp: process_incoming_link_part2_def Let_def buffer_turnover_def)
qed

section \<open>From one end to the other\<close>

definition framing :: "compress_context option \<Rightarrow> (compress_alg \<times> u32) option" where
  "framing cmp = map_option (\<lambda>ctx. (cmp_alg ctx, cmp_flags ctx)) cmp"

lemma framing_same:
  assumes "framing c = framing d"
  shows "sent_bytes c bs = sent_bytes d bs" "comp_plain c x = comp_plain d x"
  using assms by (cases c; cases d; auto simp: framing_def sent_bytes_def comp_plain_def framed_def swapped_def)+

lemma selected_key_id:
  assumes "multi_inv m" "tls_select_encryption_key now m = Some (Some i)" "get_key_scan m i = Some ks"
  shows "key_id_ok (ks_key_id ks)"
proof -
  from select_key_spec [OF assms(1), of now] assms(2)
  have "find (scan_settled now m) [0..<KEY_SCAN_SIZE] = Some i \<or> find (scan_usable m) [0..<KEY_SCAN_SIZE] = Some i" by (auto split: option.splits)
  then have u: "scan_usable m i" "i < KEY_SCAN_SIZE" using find_scan_inv [OF assms(1)] by (metis scan_settled_def)+
  with assms(3) have "ks_state ks \<ge> S_GENERATED_KEYS" by (auto simp: scan_usable_def)
  from scan_key_id [OF assms(1) u(2) assms(3) this] show ?thesis .
qed

lemma v2_header:
  fixes p :: u32
  assumes "key_id_ok k"
  defines "w \<equiv> push_bit 24 (word_of_int (push_bit P_OPCODE_SHIFT P_DATA_V2 OR k)) OR (p AND 0xFFFFFF)"
  shows "header_op (hd (be32 w)) = P_DATA_V2" "header_key_id (hd (be32 w)) = k"
proof -
  obtain b1 b2 b3 where "be32 w = [ucast (word_of_int (push_bit P_OPCODE_SHIFT P_DATA_V2 OR k) :: u32), b1, b2, b3]" unfolding w_def using be32_header by blast
  then have h: "hd (be32 w) = word_of_int (push_bit P_OPCODE_SHIFT P_DATA_V2 OR k)" using data_header(3) [OF assms(1), of P_DATA_V2] by (simp del: of_int_or_eq)
  show "header_op (hd (be32 w)) = P_DATA_V2" "header_key_id (hd (be32 w)) = k" unfolding h using data_header(1,2) [OF assms(1), of P_DATA_V2] by simp_all
qed

text \<open>
  The packet in the receiver's buffer is the one the sender put out, the ends have the same libraries, key type and framing, and the payload is not one of
  the program's own messages.
\<close>

definition arrives :: "forward_lib \<Rightarrow> forward_lib \<Rightarrow> vpn_context \<Rightarrow> vpn_context \<Rightarrow> vpn_context \<Rightarrow> key_state \<Rightarrow> key_state \<Rightarrow> bool" where
  "arrives lb lb' a a' b ka kb \<longleftrightarrow> len (c2_to_link a') \<noteq> 0 \<and> buf_content (c2_buf b) = buf_content (c2_to_link a')
     \<and> fl_hmac lb' = fl_hmac lb \<and> fl_cipher lb' = fl_cipher lb \<and> co_epoch_key_type (ks_crypto ka) = co_epoch_key_type (ks_crypto kb)
     \<and> framing (c2_comp_context b) = framing (c2_comp_context a)
     \<and> buf_content (c2_buf a) \<noteq> ping_string \<and> take (length occ_magic) (buf_content (c2_buf a)) \<noteq> occ_magic"

lemma tunnel_delivers:
  assumes "sender_end lb ea eb now a i ka"
  shows "\<exists>a' ka'. encrypt_sign lb now False a True = Some a' \<and> get_key_scan (c2_tls_multi a') i = Some ka'
    \<and> (arrives lb lb' a a' b ka kb \<and> receiver_end lb' ea eb now' src (ks_key_id ka) (send_pos (ks_crypto ka')) b j kb
       \<longrightarrow> (\<exists>b'. process_incoming_link lb' now' False src b = Some b' \<and> buf_content (c2_to_tun b') = buf_content (c2_buf a)
         \<and> buf_live (c2_to_tun b') \<and> c2_frame b' = c2_frame b))"
proof -
  note s = assms [unfolded sender_end_def]
  let ?lib = "cl_aead (fl_cipher lb)"
  obtain a' buf work o' ka' where e: "encrypt_sign lb now False a True = Some a'" "buf_live buf"
    "buf_content buf = sent_bytes (c2_comp_context a) (buf_content (c2_buf a))" "buf_live work" "len work = 4"
    "len buf + 24 + lib_block_size ?lib \<le> int (buf_room work)"
    "buf_content work = be32 (push_bit 24 (word_of_int (push_bit P_OPCODE_SHIFT P_DATA_V2 OR ks_key_id ka)) OR (tm_peer_id (c2_tls_multi a) AND 0xFFFFFF))"
    "openvpn_encrypt_aead (fl_junk lb) (fl_hmac lb) ?lib now buf work (ks_crypto ka) = Some (c2_to_link a', o')"
    "get_key_scan (c2_tls_multi a') i = Some ka'" "ks_crypto ka' = o'"
    using encrypt_sign_packet [OF assms] by blast
  have "\<exists>b'. process_incoming_link lb' now' False src b = Some b' \<and> buf_content (c2_to_tun b') = buf_content (c2_buf a)
         \<and> buf_live (c2_to_tun b') \<and> c2_frame b' = c2_frame b"
    if ar: "arrives lb lb' a a' b ka kb" and rc: "receiver_end lb' ea eb now' src (ks_key_id ka) (send_pos o') b j kb"
  proof -
    note ar' = ar [unfolded arrives_def] and rc' = rc [unfolded receiver_end_def]
    obtain x xs where x: "buf_content (c2_buf a) = x # xs" using s len_buf_content [of "c2_buf a"] by (cases "buf_content (c2_buf a)") auto
    have ch: "chan_inv (fl_hmac lb) ea eb (ks_crypto ka)" "aead_lengths ?lib" using s by blast+
    have lb0: "0 < len buf" using len_buf_content [OF e(2)] e(3) sent_bytes_length [of "x # xs" "c2_comp_context a"] x by simp
    have ready: "send_ready ?lib buf work" using e(2,4,6) ch(2) lb0 by (simp add: send_ready_def aead_lengths_def)
    from aead_encrypt_total [OF ch(1) ready e(6), of "fl_junk lb" now] e(8) ar' obtain rest where
      rest: "rest \<noteq> []" "buf_content (c2_to_link a') = buf_content work @ rest" by auto
    note hd = v2_header [OF selected_key_id, of "c2_tls_multi a" now i ka "tm_peer_id (c2_tls_multi a)"]
    have bl: "buf_live (c2_buf b)" using rc' by blast
    have dec: "\<exists>plain o'. openvpn_decrypt_aead (fl_junk lb') (fl_hmac lb') (cl_aead (fl_cipher lb')) now' (fb_headroom (c2_frame b)) (offset (c2_buf b)) rb (c2_decrypt_buf b) (ks_crypto kb)
        = Some (True, plain, o') \<and> buf_live plain \<and> buf_content plain = buf_content buf"
      if rb: "buf_advance (c2_buf b) 4 = (True, rb)" "buf_live rb" for rb
    proof -
      have o: "offset rb = offset (c2_buf b) + 4" "len rb = len (c2_buf b) - 4" using rb(1) by (auto simp: buf_advance_def split: if_splits)
      have "len (c2_buf b) = int (length rest) + 4" using len_buf_content [OF bl] ar' rest(2) e(7) by simp
      then have l: "0 < len rb" using o(2) rest(1) by simp
      have off: "0 \<le> offset (c2_buf b)" using bl by (rule buf_live_Some)
      obtain ctx where ctx: "epoch_lookup_decrypt_key (ks_crypto kb) (fst (send_pos o')) = Some (Some ctx)" "\<not> cipher_decrypt_verify_fail_exceeded ctx"
        using rc' by blast
      have rr: "recv_ready ?lib now' (fb_headroom (c2_frame b)) (offset (c2_buf b)) rb (c2_decrypt_buf b)"
        "len rb + lib_block_size ?lib \<le> capacity (c2_decrypt_buf b) - fb_headroom (c2_frame b)"
        using rc' ar' o l rb(2) off ch(2) by (simp_all add: recv_ready_def aead_lengths_def)
      have "buf_advance (c2_buf b) (len work) = (True, rb)" using rb(1) e(5) by simp
      from aead_roundtrip [OF ch(1) _ _ ready e(6) lb0 e(8) _ bl _ this rr(1) _ rr(2) ctx, of "fl_junk lb'"] ar' rc' show ?thesis by auto
    qed
    have pk: "buf_content (c2_buf b) = be32 (push_bit 24 (word_of_int (push_bit P_OPCODE_SHIFT P_DATA_V2 OR ks_key_id ka)) OR (tm_peer_id (c2_tls_multi a) AND 0xFFFFFF)) @ rest"
      using ar' rest(2) e(7) by simp
    from part1_data [OF rc pk rest(1) _ _ dec] hd s obtain n l m plain where
      p1: "process_incoming_link_part1 lb' now' src False b
          = Some (True, b\<lparr>c2_link_read_bytes := n, c2_original_recv_size := l, c2_buf := plain, c2_tls_multi := m\<rparr>)"
        "buf_live plain" "buf_content plain = buf_content buf" by blast
    let ?b1 = "b\<lparr>c2_link_read_bytes := n, c2_original_recv_size := l, c2_buf := plain, c2_tls_multi := m\<rparr>"
    have "framing (c2_comp_context b) = framing (c2_comp_context a)" using ar' by blast
    note fr = framing_same [OF this]
    have "\<exists>c'. process_incoming_link_part2 lb' now' False ?b1 = Some c' \<and> buf_content (c2_to_tun c') = x # xs
        \<and> buf_live (c2_to_tun c') \<and> c2_frame c' = c2_frame ?b1"
      by (rule part2_data) (use rc' ar' p1 e(3) x s fr in simp_all)
    with p1(1) x show ?thesis by (simp add: process_incoming_link_def)
  qed
  with e(1,9,10) show ?thesis by blast
qed

text \<open>A packet goes through the tunnel. An end that can send always completes \<^verbatim>\<open>encrypt_sign\<close> without failing an assertion; when it put out a packet (which it
  does unless the packet counter of the key is used up) and that packet reaches an end that is ready for its key, epoch and counter, then the receiving path - address
  check, choice of the key by opcode and key id, replay check, decryption, removal of the compression framing, recognition of the program's own messages -
  runs without failing an assertion and puts exactly the bytes the sender read from its tunnel device into the buffer for the receiver's tunnel
  device. This holds with and without any of the five compression framings.\<close>

theorem tunnel_roundtrip:
  assumes "sender_end lb ea eb now a i ka"
  shows "\<exists>a' ka'. encrypt_sign lb now False a True = Some a' \<and> get_key_scan (c2_tls_multi a') i = Some ka'
    \<and> (arrives lb lb' a a' b ka kb \<and> receiver_end lb' ea eb now' src (ks_key_id ka) (send_pos (ks_crypto ka')) b j kb
       \<longrightarrow> (\<exists>b'. process_incoming_link lb' now' False src b = Some b' \<and> buf_content (c2_to_tun b') = buf_content (c2_buf a)))"
  using tunnel_delivers [OF assms, of lb' b kb now' src j] by blast

text \<open>Two ends that have just agreed on a key, with LZ4 framing.\<close>

definition toy_addr :: openvpn_sockaddr where
  "toy_addr = sockaddr_zero\<lparr>sa_family := FAMILY_INET, sa_addr4 := 1\<rparr>"

definition tunnel_key :: key_state where
  "tunnel_key = (toy_key 0 0)\<lparr>ks_crypto := demo_state, ks_remote_addr := toy_addr\<rparr>"

definition tunnel_multi :: tls_multi where
  "tunnel_multi = (tls_multi_init toy_options)\<lparr>tm_peer_id := 5, tm_multi_state := CAS_CONNECT_DONE, tm_session :=
     [tls_session_zero\<lparr>ts_key_id := 1, ts_primary := tunnel_key\<rparr>,
      tls_session_zero\<lparr>ts_key_id := 1, ts_primary := key_state_zero\<lparr>ks_state := S_INITIAL\<rparr>\<rparr>,
      tls_session_zero]\<rparr>"

definition tunnel_lib :: forward_lib where
  "tunnel_lib = \<lparr>fl_junk = (\<lambda>_. 0), fl_hmac = demo_hmac, fl_cipher = toy_lib\<lparr>cl_mode := MODE_AEAD\<rparr>, fl_rnd = (\<lambda>_. 0),
     fl_comp = \<lparr>lib_lz4 = (\<lambda>_ _. None), lib_lzo = (\<lambda>_ _. None)\<rparr>, fl_tls = toy_session_lib\<rparr>"

definition tunnel_end :: vpn_context where
  "tunnel_end = \<lparr>c2_tls_multi = tunnel_multi, c2_use_peer_id = True, c2_frame = toy_comp_frame, c2_frame_fragment = toy_comp_frame,
     c2_comp_context = Some (toy_comp Lz4_alg), c2_fragment = None, c2_buf = toy_comp_buf [0x45, 7, 8], c2_to_tun = clear_buf, c2_to_link = clear_buf,
     c2_to_link_addr = None, c2_encrypt_buf = demo_work, c2_decrypt_buf = demo_work, c2_decompress_buf = demo_work, c2_read_link_buf = demo_work,
     c2_read_tun_buf = demo_work, c2_aux_buf = demo_work,
     c2_link_info = \<lparr>li_remote_float = False, li_remote_list = [toy_addr], li_actual = toy_addr, li_connection_oriented = False, li_connection_established = True\<rparr>,
     c2_link_read_bytes = 0, c2_link_read_bytes_auth = 0, c2_original_recv_size = 0, c2_max_recv_size_local = 0, c2_max_recv_size_remote = 0,
     c2_max_send_size_remote = 0, c2_tmp_int = interval_init 0 0, c2_ping_rec_interval = event_timeout_clear, c2_occ_op = - 1, c2_occ_mtu_load_size = 0,
     c2_occ_interval = event_timeout_clear, c2_occ_mtu_load_test_interval = event_timeout_clear,
     c2_sig = \<lparr>si_signal_received = 0, si_source = 0, si_signal_text = None\<rparr>, c2_timeval = \<lparr>tv_sec = 0, tv_usec = 0\<rparr>,
     c2_ping_send_interval = event_timeout_clear, c2_occ_n_tries = 0, c2_occ_mtu_load_n_tries = 0, c2_options_string_local = None,
     c2_max_send_size_local = 0, opt_dco = False, opt_ping_rec_timeout = False, opt_ping_rec_timeout_action = 0, opt_ping_timer_remote = False,
     opt_ping_send_timeout = False, opt_tuntap_defined = True\<rparr>"

lemma tunnel_multi_inv: "multi_inv tunnel_multi" "tm_multi_state tunnel_multi = CAS_CONNECT_DONE"
  "get_key_scan tunnel_multi 0 = Some tunnel_key" "scan_usable tunnel_multi 0" "scan_settled 50 tunnel_multi 0"
  "scan_accepts tunnel_multi 0 toy_addr False 0" "ks_crypto tunnel_key = demo_state" "ks_key_id tunnel_key = 0"
proof -
  have i: "co_initialized demo_state" using demo_state_inv(1) by (simp add: epoch_inv_def Let_def)
  show k: "get_key_scan tunnel_multi 0 = Some tunnel_key" by (simp add: get_key_scan_def tunnel_multi_def tls_session_zero_def TM_ACTIVE_def)
  show u: "scan_usable tunnel_multi 0" unfolding scan_usable_def k by (simp add: tunnel_key_def toy_key_def state_defs)
  show "scan_settled 50 tunnel_multi 0" unfolding scan_settled_def k using u by (simp add: tunnel_key_def toy_key_def)
  show "scan_accepts tunnel_multi 0 toy_addr False 0"
    unfolding scan_accepts_def k using u by (simp add: tunnel_key_def toy_key_def link_socket_actual_match_def addr_port_match_def toy_addr_def)
  show "multi_inv tunnel_multi" using i
    by (simp add: multi_inv_def tunnel_multi_def tunnel_key_def toy_key_def live_session_def session_ok_def key_ok_def key_id_ok_def TM_SIZE_def TM_ACTIVE_def
      TM_INITIAL_def TM_LAME_DUCK_def P_KEY_ID_MASK_def next_key_id_def tls_multi_init_def toy_options_def tls_session_zero_def key_state_zero_def
      crypto_options_zero_def reliable_zero_def state_defs Let_def)
  show "tm_multi_state tunnel_multi = CAS_CONNECT_DONE" by (simp add: tunnel_multi_def)
qed (simp_all add: tunnel_key_def toy_key_def)

lemma tunnel_sender: "sender_end tunnel_lib demo_ek demo_ek 50 tunnel_end 0 tunnel_key"
proof -
  have f: "find (scan_settled 50 tunnel_multi) [0..<KEY_SCAN_SIZE] = Some 0" using tunnel_multi_inv(5) by (simp add: KEY_SCAN_SIZE_def upt_rec)
  have t: "tls_select_encryption_key 50 tunnel_multi = Some (Some 0)" using select_key_spec [OF tunnel_multi_inv(1), of 50] f by simp
  have b: "buf_live (toy_comp_buf [0x45, 7, 8])" "buf_content (toy_comp_buf [0x45, 7, 8]) = [0x45, 7, 8]" "buf_room (toy_comp_buf [0x45, 7, 8]) = 2"
    "buf_headroom (toy_comp_buf [0x45, 7, 8]) = 2" "len (toy_comp_buf [0x45, 7, 8]) = 3"
    by (simp_all add: toy_comp_buf_def buf_live_def buf_wf_def buf_content_def slice_def buf_room_def buf_headroom_def BUF_SIZE_MAX_def)
  have w: "buf_live demo_work" using demo_send_ready(1) by (simp add: send_ready_def)
  show ?thesis
    using t b w demo_lib_ok(1) demo_state_chan tunnel_multi_inv(1-3,7)
    by (simp add: sender_end_def tunnel_end_def tunnel_lib_def toy_lib_def comp_plain_def toy_comp_def v2_framing_def toy_comp_frame_def demo_work_def
        demo_lib_def link_socket_actual_defined_def addr_defined_def toy_addr_def)
qed

lemma tunnel_receiver:
  assumes "buf_live pkt" "0 < len pkt" "len pkt \<le> 100"
  shows "receiver_end tunnel_lib demo_ek demo_ek 51 toy_addr 0 (1, 1) (tunnel_end\<lparr>c2_buf := pkt\<rparr>) 0 tunnel_key"
proof -
  have f: "find (scan_accepts tunnel_multi 0 toy_addr False) [0..<KEY_SCAN_SIZE] = Some 0" using tunnel_multi_inv(6) by (simp add: KEY_SCAN_SIZE_def upt_rec)
  have v: "link_socket_verify_incoming_addr pkt (c2_link_info tunnel_end) toy_addr = Some True"
    using assms(2) by (simp add: link_socket_verify_incoming_addr_def tunnel_end_def addrlist_match_proto_def toy_addr_def link_socket_actual_defined_def addr_defined_def)
  have w: "buf_live demo_work" "fst (buf_init_dowork demo_work 4)" using demo_send_ready(1)
    by (simp_all add: send_ready_def buf_init_dowork_def demo_work_def)
  have l: "cl_mode (fl_cipher tunnel_lib) = MODE_AEAD" "cl_aead (fl_cipher tunnel_lib) = demo_lib" "fl_hmac tunnel_lib = demo_hmac" "lib_block_size demo_lib = 16"
    by (simp_all add: tunnel_lib_def toy_lib_def demo_lib_def)
  have e: "c2_tls_multi tunnel_end = tunnel_multi" "c2_fragment tunnel_end = None" "opt_tuntap_defined tunnel_end" "c2_decrypt_buf tunnel_end = demo_work"
    "c2_decompress_buf tunnel_end = demo_work" "fb_headroom (c2_frame tunnel_end) = 4" "capacity demo_work = 200"
    by (simp_all add: tunnel_end_def toy_comp_frame_def demo_work_def)
  show ?thesis unfolding receiver_end_def
    using assms f v w l e demo_lib_ok demo_state_chan demo_state_fresh tunnel_multi_inv
    by (simp add: family_known_def toy_addr_def)
qed

lemma tunnel_end_payload: "buf_content (c2_buf tunnel_end) = [0x45, 7, 8]"
  by (simp add: tunnel_end_def toy_comp_buf_def buf_content_def slice_def)

lemma tunnel_setup:
  obtains a' ka' where "encrypt_sign tunnel_lib 50 False tunnel_end True = Some a'" "get_key_scan (c2_tls_multi a') 0 = Some ka'"
    "arrives tunnel_lib tunnel_lib tunnel_end a' (tunnel_end\<lparr>c2_buf := c2_to_link a'\<rparr>) tunnel_key tunnel_key"
    "receiver_end tunnel_lib demo_ek demo_ek 51 toy_addr (ks_key_id tunnel_key) (send_pos (ks_crypto ka')) (tunnel_end\<lparr>c2_buf := c2_to_link a'\<rparr>) 0 tunnel_key"
proof -
  have l: "cl_aead (fl_cipher tunnel_lib) = demo_lib" "fl_hmac tunnel_lib = demo_hmac" "fl_junk tunnel_lib = (\<lambda>_. 0)" "lib_block_size demo_lib = 16"
    by (simp_all add: tunnel_lib_def toy_lib_def demo_lib_def)
  note c = tunnel_end_payload
  obtain a' buf work o' where e: "encrypt_sign tunnel_lib 50 False tunnel_end True = Some a'" "buf_live buf"
    "buf_content buf = sent_bytes (c2_comp_context tunnel_end) [0x45, 7, 8]" "buf_live work" "len work = 4"
    "len buf + 24 + 16 \<le> int (buf_room work)"
    "openvpn_encrypt_aead (\<lambda>_. 0) demo_hmac demo_lib 50 buf work demo_state = Some (c2_to_link a', o')"
    "\<exists>ka'. get_key_scan (c2_tls_multi a') 0 = Some ka' \<and> ks_crypto ka' = o'"
    using encrypt_sign_packet [OF tunnel_sender] unfolding l c tunnel_multi_inv(7) by blast
  have lb: "0 < len buf" "len buf \<le> 4" using sent_bytes_length [of "[0x45, 7, 8]" "c2_comp_context tunnel_end"] len_buf_content [OF e(2)] e(3) by simp_all
  have ready: "send_ready demo_lib buf work" using e(2,4,6) demo_lib_ok lb by (simp add: send_ready_def)
  from chan_inv_facts [OF demo_state_chan] obtain key where key: "kc_cipher (co_encrypt demo_state) = Some key" by blast
  have room: "len buf + 24 + lib_block_size demo_lib \<le> int (buf_room work)" using e(6) l by simp
  from encrypt_emit_packet [OF demo_state_fresh(1) demo_state_chan demo_state_chan ready demo_state_inv(5) _ key demo_state_inv(2) room, of 50] e(7)
  obtain iv out1 out2 tag x where w: "send_pos o' = (1, 1)" "buf_live (c2_to_link a')"
      "lib_seal demo_lib key iv (buf_content work @ be64 x) (buf_content buf) = (out1, out2, tag)"
      "buf_content (c2_to_link a') = buf_content work @ be64 x @ out1 @ out2 @ tag"
    by (auto simp: PACKET_ID_EPOCH_MAX_def send_pos_def)
  have "length out1 = length (buf_content buf)" "out2 = []" "length tag = 16" using w(3) by (auto simp: demo_lib_def)
  then have len: "0 < len (c2_to_link a')" "len (c2_to_link a') \<le> 100"
    using len_buf_content [OF w(2)] len_buf_content [OF e(2)] len_buf_content [OF e(4)] w(4) lb e(5) by simp_all
  let ?b = "tunnel_end\<lparr>c2_buf := c2_to_link a'\<rparr>"
  have "arrives tunnel_lib tunnel_lib tunnel_end a' ?b tunnel_key tunnel_key"
    using len c by (simp add: arrives_def framing_def ping_string_def occ_magic_def)
  with e(1,8) w(1) tunnel_receiver [OF w(2) len] that show thesis by (auto simp: tunnel_multi_inv(8))
qed

theorem tunnel_roundtrip_witness:
  "\<exists>a' b'. encrypt_sign tunnel_lib 50 False tunnel_end True = Some a'
     \<and> process_incoming_link tunnel_lib 51 False toy_addr (tunnel_end\<lparr>c2_buf := c2_to_link a'\<rparr>) = Some b' \<and> buf_content (c2_to_tun b') = [0x45, 7, 8]"
proof -
  obtain a' ka' where t: "encrypt_sign tunnel_lib 50 False tunnel_end True = Some a'" "get_key_scan (c2_tls_multi a') 0 = Some ka'"
    "arrives tunnel_lib tunnel_lib tunnel_end a' (tunnel_end\<lparr>c2_buf := c2_to_link a'\<rparr>) tunnel_key tunnel_key"
    "receiver_end tunnel_lib demo_ek demo_ek 51 toy_addr (ks_key_id tunnel_key) (send_pos (ks_crypto ka')) (tunnel_end\<lparr>c2_buf := c2_to_link a'\<rparr>) 0 tunnel_key"
    using tunnel_setup .
  with tunnel_roundtrip [OF tunnel_sender, of tunnel_lib "tunnel_end\<lparr>c2_buf := c2_to_link a'\<rparr>" tunnel_key 51 toy_addr 0] show ?thesis
    by (auto simp: tunnel_end_payload)
qed


section \<open>What reaches the tunnel device\<close>

lemma decrypt_failed_empty:
  assumes "openvpn_decrypt junk hmac lib now hr ad buf work co = Some (False, out, co')"
  shows "len out = 0"
proof -
  have "openvpn_decrypt_aead junk hmac l now h ad buf work co = Some (False, out, co') \<Longrightarrow> len out = 0" for l h
    unfolding openvpn_decrypt_aead_def aead_finish_def Let_def by (auto elim!: run_elims split: if_splits option.splits prod.splits)
  moreover have "openvpn_decrypt_v1 junk hmac lib now hr buf work co = Some (False, out, co') \<Longrightarrow> len out = 0"
    unfolding openvpn_decrypt_v1_def by (auto elim!: run_elims split: if_splits option.splits prod.splits)
  ultimately show ?thesis using assms unfolding openvpn_decrypt_def by (auto elim!: run_elims split: if_splits)
qed

lemma find_data_key_usable:
  "find_data_key m is key_id src floated = Some (Some i) \<Longrightarrow> \<exists>ks. get_key_scan m i = Some ks \<and> data_key_usable ks key_id src floated = Some True"
  by (induction "is") (auto elim!: run_elims split: if_splits)

lemma pre_decrypt_key:
  assumes "tls_pre_decrypt lb now m src buf floated ad = Some (control, m', buf', co, ad')" "0 < len buf'"
  obtains i ks c where "co = Some i" "get_key_scan m i = Some ks" "buf_first buf = Some c" "data_key_usable ks (header_key_id c) src floated = Some True"
    "0 < len buf" "buf' = buf\<lparr>offset := offset buf + (if header_op c = P_DATA_V2 then 4 else 1), len := len buf - (if header_op c = P_DATA_V2 then 4 else 1)\<rparr>"
    "m' = upd_key_scan i (\<lambda>ks. ks\<lparr>ks_n_packets := ks_n_packets ks + 1, ks_n_bytes := ks_n_bytes ks + word_of_int (len buf')\<rparr>) m"
proof -
  have c: "control_packet lb now m src buf ad c sid \<noteq> Some (control, m', buf', co, ad')" for c sid
    using assms(2) unfolding control_packet_def Let_def control_done_def by (auto elim!: run_elims split: if_splits option.splits prod.splits)
  from assms obtain x where h: "0 < len buf" "buf_first buf = Some x" "handle_data_channel_packet m src buf floated ad = Some (m', buf', co, ad')"
    unfolding tls_pre_decrypt_def Let_def by (auto elim!: run_elims split: if_splits option.splits simp: control_done_def c)
  from h(2,3) assms(2) obtain i where i: "find_data_key m [0..<KEY_SCAN_SIZE] (header_key_id x) src floated = Some (Some i)"
    "m' = upd_key_scan i (\<lambda>ks. ks\<lparr>ks_n_packets := ks_n_packets ks + 1, ks_n_bytes := ks_n_bytes ks + word_of_int (len buf')\<rparr>) m" "co = Some i"
    "buf' = buf\<lparr>offset := offset buf + (if header_op x = P_DATA_V2 then 4 else 1), len := len buf - (if header_op x = P_DATA_V2 then 4 else 1)\<rparr>"
    unfolding handle_data_channel_packet_def Let_def buf_advance_def by (auto elim!: run_elims split: if_splits option.splits prod.splits)
  from find_data_key_usable [OF i(1)] i(2-4) h(1,2) that show thesis by blast
qed

lemma part2_empty: "process_incoming_link_part2 lb now in_place c = Some c' \<Longrightarrow> len (c2_buf c) \<le> 0 \<Longrightarrow> len (c2_to_tun c') = 0"
  by (auto simp: process_incoming_link_part2_def buf_reset_def)

lemma verified_kept:
  assumes "check_incoming_addr b info src = Some b'" "0 < len b'"
  shows "link_socket_verify_incoming_addr b info src = Some True" "b' = b"
  using assms by (auto simp: check_incoming_addr_def link_socket_bad_incoming_addr_def elim!: run_elims split: if_splits)

lemma part1_steps:
  assumes "process_incoming_link_part1 lb now src False c = Some (ok, c1)" "0 < len (c2_buf c)"
  obtains buf op control m buf2 co ad buf3 m3 where "check_incoming_addr (c2_buf c) (c2_link_info c) src = Some buf" "buf_first buf = Some op"
    "tls_pre_decrypt (fl_tls lb) now (c2_tls_multi c) src (if header_op op = P_DATA_V1 \<and> opt_dco c then buf\<lparr>len := 0\<rparr> else buf) False None = Some (control, m, buf2, co, ad)"
    "buf3 = (if tm_multi_state m \<noteq> CAS_CONNECT_DONE then buf2\<lparr>len := 0\<rparr> else buf2)"
    "decrypt_with lb now (c2_frame c) (if len buf3 > 0 then co else None) ad buf3 (c2_decrypt_buf c) m = Some (ok, c2_buf c1, m3)"
proof -
  have fr: "c2_frame (if control then control_activity now c else c) = c2_frame c"
      "c2_decrypt_buf (if control then control_activity now c else c) = c2_decrypt_buf c" for control c
    by (simp_all add: control_activity_def Let_def)
  let ?d = "\<lambda>op buf. if header_op op = P_DATA_V1 \<and> opt_dco c then buf\<lparr>len := 0\<rparr> else buf"
  let ?s = "\<lambda>m buf2. if tm_multi_state m \<noteq> CAS_CONNECT_DONE then buf2\<lparr>len := 0\<rparr> else buf2"
  from assms(1) have "\<exists>buf op control m buf2 co ad m3. check_incoming_addr (c2_buf c) (c2_link_info c) src = Some buf \<and> buf_first buf = Some op
      \<and> tls_pre_decrypt (fl_tls lb) now (c2_tls_multi c) src (?d op buf) False None = Some (control, m, buf2, co, ad)
      \<and> decrypt_with lb now (c2_frame c) (if len (?s m buf2) > 0 then co else None) ad (?s m buf2) (c2_decrypt_buf c) m = Some (ok, c2_buf c1, m3)"
    unfolding process_incoming_link_part1_def if_P [OF assms(2)] Let_def fr
    apply (elim run_elims)
    apply (simp cong: if_weak_cong)
    apply (drule arg_cong [of _ c1 c2_buf])
    apply (simp split: if_splits)
    done
  with that show thesis by blast
qed

text \<open>C2: Nothing enters the tunnel device unprotected. If, after a packet from the network was processed, there is anything to write to the tunnel device, then
  the connection is set up, the packet came from an accepted address, and what follows its header was decrypted successfully with the key of the session whose
  key id the packet names, a key that is generated, authenticated and belongs to the packet's source address. In particular the branch of
  \<^verbatim>\<open>openvpn_decrypt\<close> that passes a packet on unchanged when it is given no key is never taken with a packet that is delivered.\<close>

theorem delivered_is_authenticated:
  assumes "process_incoming_link lb now in_place src c = Some c'" "0 < len (c2_to_tun c')"
  shows "tm_multi_state (c2_tls_multi c) = CAS_CONNECT_DONE \<and> link_socket_verify_incoming_addr (c2_buf c) (c2_link_info c) src = Some True
    \<and> (\<exists>op n i ks ad plain o'. buf_first (c2_buf c) = Some op \<and> n = (if header_op op = P_DATA_V2 then 4 else 1) \<and> get_key_scan (c2_tls_multi c) i = Some ks
       \<and> ks_state ks \<ge> S_GENERATED_KEYS \<and> ks_authenticated ks = KS_AUTH_TRUE \<and> ks_key_id ks = header_key_id op
       \<and> link_socket_actual_match src (ks_remote_addr ks) = Some True
       \<and> openvpn_decrypt (fl_junk lb) (fl_hmac lb) (fl_cipher lb) now (Some (fb_headroom (c2_frame c))) ad
            ((c2_buf c)\<lparr>offset := offset (c2_buf c) + n, len := len (c2_buf c) - n\<rparr>) (c2_decrypt_buf c) (ks_crypto ks) = Some (True, plain, o'))"
proof -
  from assms(1) obtain ok c1 where p: "process_incoming_link_part1 lb now src False c = Some (ok, c1)" "process_incoming_link_part2 lb now in_place c1 = Some c'"
    unfolding process_incoming_link_def by (auto elim!: run_elims)
  have l1: "0 < len (c2_buf c1)" using part2_empty [OF p(2)] assms(2) by linarith
  have l0: "0 < len (c2_buf c)" using p(1) l1 by (auto simp: process_incoming_link_part1_def split: if_splits)
  obtain buf op control m buf2 co ad buf3 m3 where s: "check_incoming_addr (c2_buf c) (c2_link_info c) src = Some buf" "buf_first buf = Some op"
    "tls_pre_decrypt (fl_tls lb) now (c2_tls_multi c) src (if header_op op = P_DATA_V1 \<and> opt_dco c then buf\<lparr>len := 0\<rparr> else buf) False None = Some (control, m, buf2, co, ad)"
    "buf3 = (if tm_multi_state m \<noteq> CAS_CONNECT_DONE then buf2\<lparr>len := 0\<rparr> else buf2)"
    "decrypt_with lb now (c2_frame c) (if len buf3 > 0 then co else None) ad buf3 (c2_decrypt_buf c) m = Some (ok, c2_buf c1, m3)"
    using part1_steps [OF p(1) l0] .
  have l3: "0 < len buf3" using s(5) l1 by (auto simp: decrypt_with_def split: if_splits)
  then have b3: "buf3 = buf2" "tm_multi_state m = CAS_CONNECT_DONE" "0 < len buf2" using s(4) by (auto split: if_splits)
  from pre_decrypt_key [OF s(3) b3(3)] obtain i ks x where k: "co = Some i" "get_key_scan (c2_tls_multi c) i = Some ks"
    "buf_first (if header_op op = P_DATA_V1 \<and> opt_dco c then buf\<lparr>len := 0\<rparr> else buf) = Some x" "data_key_usable ks (header_key_id x) src False = Some True"
    "0 < len (if header_op op = P_DATA_V1 \<and> opt_dco c then buf\<lparr>len := 0\<rparr> else buf)"
    "buf2 = (if header_op op = P_DATA_V1 \<and> opt_dco c then buf\<lparr>len := 0\<rparr> else buf)
      \<lparr>offset := offset (if header_op op = P_DATA_V1 \<and> opt_dco c then buf\<lparr>len := 0\<rparr> else buf) + (if header_op x = P_DATA_V2 then 4 else 1),
       len := len (if header_op op = P_DATA_V1 \<and> opt_dco c then buf\<lparr>len := 0\<rparr> else buf) - (if header_op x = P_DATA_V2 then 4 else 1)\<rparr>"
    "m = upd_key_scan i (\<lambda>ks. ks\<lparr>ks_n_packets := ks_n_packets ks + 1, ks_n_bytes := ks_n_bytes ks + word_of_int (len buf2)\<rparr>) (c2_tls_multi c)" .
  have b: "0 < len buf" "x = op" using k(3,5) s(2) by (auto split: if_splits)
  note g = verified_kept [OF s(1) b(1)]
  obtain ks' ad' o' where d: "get_key_scan m i = Some ks'" "openvpn_decrypt (fl_junk lb) (fl_hmac lb) (fl_cipher lb) now (Some (fb_headroom (c2_frame c))) ad' buf3 (c2_decrypt_buf c) (ks_crypto ks')
      = Some (ok, c2_buf c1, o')" using s(5) k(1) l3 by (auto simp: decrypt_with_def elim!: run_elims)
  have ok: "ok" using decrypt_failed_empty d(2) l1 by (cases ok) fastforce+
  have nl: "xs[n := v] ! n = (if n < length xs then v else xs ! n)" for xs :: "tls_session list" and n v by (simp add: list_update_beyond)
  have "ks_crypto ks' = ks_crypto ks" using d(1) k(2) unfolding k(7) by (auto simp: get_key_scan_def upd_key_scan_def upd_sess_def nl split: if_splits)
  then have "openvpn_decrypt (fl_junk lb) (fl_hmac lb) (fl_cipher lb) now (Some (fb_headroom (c2_frame c))) ad'
      ((c2_buf c)\<lparr>offset := offset (c2_buf c) + (if header_op op = P_DATA_V2 then 4 else 1), len := len (c2_buf c) - (if header_op op = P_DATA_V2 then 4 else 1)\<rparr>)
      (c2_decrypt_buf c) (ks_crypto ks) = Some (True, c2_buf c1, o')"
    using d(2) ok b3(1) k(5,6) b(2) g(2) by (simp split: if_splits)
  moreover have "ks_state ks \<ge> S_GENERATED_KEYS" "ks_authenticated ks = KS_AUTH_TRUE" "ks_key_id ks = header_key_id op" "link_socket_actual_match src (ks_remote_addr ks) = Some True"
    using k(4) b(2) by (auto simp: data_key_usable_def split: if_splits)
  moreover have "tm_multi_state (c2_tls_multi c) = CAS_CONNECT_DONE" "buf_first (c2_buf c) = Some op" using b3(2) k(7) s(2) g by simp_all
  ultimately show ?thesis using g(1) k(2) by blast
qed

theorem delivered_is_authenticated_witness:
  "\<exists>a' b'. encrypt_sign tunnel_lib 50 False tunnel_end True = Some a'
     \<and> process_incoming_link tunnel_lib 51 False toy_addr (tunnel_end\<lparr>c2_buf := c2_to_link a'\<rparr>) = Some b' \<and> 0 < len (c2_to_tun b')
     \<and> (\<exists>i ks. get_key_scan tunnel_multi i = Some ks \<and> ks_authenticated ks = KS_AUTH_TRUE)"
proof -
  obtain a' ka' where t: "encrypt_sign tunnel_lib 50 False tunnel_end True = Some a'" "get_key_scan (c2_tls_multi a') 0 = Some ka'"
    "arrives tunnel_lib tunnel_lib tunnel_end a' (tunnel_end\<lparr>c2_buf := c2_to_link a'\<rparr>) tunnel_key tunnel_key"
    "receiver_end tunnel_lib demo_ek demo_ek 51 toy_addr (ks_key_id tunnel_key) (send_pos (ks_crypto ka')) (tunnel_end\<lparr>c2_buf := c2_to_link a'\<rparr>) 0 tunnel_key"
    using tunnel_setup .
  with tunnel_delivers [OF tunnel_sender, of tunnel_lib "tunnel_end\<lparr>c2_buf := c2_to_link a'\<rparr>" tunnel_key 51 toy_addr 0] obtain b' where
    b: "process_incoming_link tunnel_lib 51 False toy_addr (tunnel_end\<lparr>c2_buf := c2_to_link a'\<rparr>) = Some b'" "buf_content (c2_to_tun b') = [0x45, 7, 8]"
    by (auto simp: tunnel_end_payload)
  have l: "0 < len (c2_to_tun b')"
  proof (rule ccontr)
    assume "\<not> 0 < len (c2_to_tun b')"
    then have "buf_content (c2_to_tun b') = []" by (simp add: buf_content_def slice_def split: option.splits)
    with b(2) show False by simp
  qed
  from delivered_is_authenticated [OF b(1) l] t(1) b(1) l show ?thesis by (auto simp: tunnel_end_def)
qed


end
