(* ===== verification/Ip_Packets.thy ===== *)
theory Ip_Packets
  imports Buffer
begin

text \<open>
  What the engine does to the IP packets that pass through the tunnel (\<^verbatim>\<open>proto.h\<close>, \<^verbatim>\<open>proto.c\<close>, \<^verbatim>\<open>mss.c\<close>, \<^verbatim>\<open>clinat.c\<close>): recognising the
  version of a packet, lowering the MSS of a TCP connection, translating addresses, and the Internet checksum, computed from scratch and updated in place.

  Headers are overlaid on the packet's memory; a member is a number of bytes at a distance from \<^verbatim>\<open>BPTR\<close>. The machine is little-endian, as all Android targets are: a
  16-bit or 32-bit member read without \<^verbatim>\<open>ntohs\<close> has its first byte in the low end. Structure copies of a buffer share its memory, so the functions return the
  buffer with the changed memory.
\<close>

section \<open>Header members\<close>

definition hdr_bytes :: "buffer \<Rightarrow> int \<Rightarrow> int \<Rightarrow> bytes option" where
  "hdr_bytes b k n = do { p \<leftarrow> buf_bptr b; m \<leftarrow> data b; mem_read m (p + k) n }"

definition hdr_byte :: "buffer \<Rightarrow> int \<Rightarrow> u8 option" where
  "hdr_byte b k = do { p \<leftarrow> buf_bptr b; m \<leftarrow> data b; mem_get m (p + k) }"

definition hdr_put :: "buffer \<Rightarrow> int \<Rightarrow> bytes \<Rightarrow> buffer option" where
  "hdr_put b k bs = do { p \<leftarrow> buf_bptr b; buf_store b (p + k) bs }"

text \<open>\<^verbatim>\<open>ntohs\<close> of a member, and the member as the machine reads and writes it.\<close>

definition hdr_ntohs :: "buffer \<Rightarrow> int \<Rightarrow> u16 option" where
  "hdr_ntohs b k = map_option from_be (hdr_bytes b k 2)"

definition hdr_raw16 :: "buffer \<Rightarrow> int \<Rightarrow> u16 option" where
  "hdr_raw16 b k = map_option (\<lambda>bs. from_be (rev bs)) (hdr_bytes b k 2)"

definition hdr_raw32 :: "buffer \<Rightarrow> int \<Rightarrow> u32 option" where
  "hdr_raw32 b k = map_option (\<lambda>bs. from_be (rev bs)) (hdr_bytes b k 4)"

definition htons :: "u16 \<Rightarrow> u16" where
  "htons w = from_be (rev (be16 w))"

definition IPHDR_SIZE :: int where "IPHDR_SIZE = 20"
definition IPV6HDR_SIZE :: int where "IPV6HDR_SIZE = 40"
definition TCPHDR_SIZE :: int where "TCPHDR_SIZE = 20"
definition UDPHDR_SIZE :: int where "UDPHDR_SIZE = 8"
definition ETHHDR_SIZE :: int where "ETHHDR_SIZE = 14"
definition ETH_8021Q_SIZE :: int where "ETH_8021Q_SIZE = 18"

definition OPENVPN_IPH_GET_VER :: "u8 \<Rightarrow> int" where "OPENVPN_IPH_GET_VER v = uint (drop_bit 4 v AND 0x0F)"
definition OPENVPN_IPH_GET_LEN :: "u8 \<Rightarrow> int" where "OPENVPN_IPH_GET_LEN v = push_bit 2 (uint (v AND 0x0F))"
definition OPENVPN_TCPH_GET_DOFF :: "u8 \<Rightarrow> int" where "OPENVPN_TCPH_GET_DOFF d = drop_bit 2 (uint (d AND 0xF0))"
definition OPENVPN_TCPH_SYN_MASK :: u8 where "OPENVPN_TCPH_SYN_MASK = push_bit 1 1"
definition OPENVPN_IP_OFFMASK :: u16 where "OPENVPN_IP_OFFMASK = 0x1fff"
definition OPENVPN_IPPROTO_TCP :: u8 where "OPENVPN_IPPROTO_TCP = 6"
definition OPENVPN_IPPROTO_UDP :: u8 where "OPENVPN_IPPROTO_UDP = 17"
definition OPENVPN_IPPROTO_ICMPV6 :: u8 where "OPENVPN_IPPROTO_ICMPV6 = 58"
definition OPENVPN_ETH_P_IPV4 :: u16 where "OPENVPN_ETH_P_IPV4 = 0x0800"
definition OPENVPN_ETH_P_IPV6 :: u16 where "OPENVPN_ETH_P_IPV6 = 0x86DD"
definition OPENVPN_ETH_P_8021Q :: u16 where "OPENVPN_ETH_P_8021Q = 0x8100"
definition OPENVPN_TCPOPT_EOL :: u8 where "OPENVPN_TCPOPT_EOL = 0"
definition OPENVPN_TCPOPT_NOP :: u8 where "OPENVPN_TCPOPT_NOP = 1"
definition OPENVPN_TCPOPT_MAXSEG :: u8 where "OPENVPN_TCPOPT_MAXSEG = 2"
definition OPENVPN_TCPOLEN_MAXSEG :: int where "OPENVPN_TCPOLEN_MAXSEG = 4"
definition DEV_TYPE_TUN :: int where "DEV_TYPE_TUN = 2"
definition DEV_TYPE_TAP :: int where "DEV_TYPE_TAP = 3"

text \<open>
  The checksum macros. The accumulator is an \<^verbatim>\<open>int32_t\<close>; the callers add and subtract at most eight 16-bit words, far from its limits.
\<close>

definition ADJUST_CHECKSUM :: "int \<Rightarrow> u16 \<Rightarrow> u16" where
  "ADJUST_CHECKSUM acc cksum =
     (let a = acc + uint cksum
      in if a < 0 then
           let a = - a; a = drop_bit 16 a + (a AND 0xffff); a = a + drop_bit 16 a in word_of_int (NOT a)
         else
           let a = drop_bit 16 a + (a AND 0xffff); a = a + drop_bit 16 a in word_of_int a)"

definition ADD_CHECKSUM_32 :: "int \<Rightarrow> u32 \<Rightarrow> int" where
  "ADD_CHECKSUM_32 acc w = acc + uint (w AND 0xffff) + uint (drop_bit 16 w)"

definition SUB_CHECKSUM_32 :: "int \<Rightarrow> u32 \<Rightarrow> int" where
  "SUB_CHECKSUM_32 acc w = acc - uint (w AND 0xffff) - uint (drop_bit 16 w)"

text \<open>The macro applied to a member of a header in the packet.\<close>

definition adjust_member :: "buffer \<Rightarrow> int \<Rightarrow> int \<Rightarrow> buffer option" where
  "adjust_member b k acc = do {
     c \<leftarrow> hdr_raw16 b k;
     hdr_put b k (rev (be16 (ADJUST_CHECKSUM acc c)))
   }"

section \<open>The version of a packet\<close>

text \<open>The version, \<open>-1\<close> when unknown, and the distance of the IP header, which is left alone for other tunnel types.\<close>

definition get_tun_ip_ver :: "int \<Rightarrow> buffer \<Rightarrow> int \<Rightarrow> (int \<times> int) option" where
  "get_tun_ip_ver tunnel_type buf ip_hdr_offset =
     (if tunnel_type = DEV_TYPE_TUN then
        if buf_len buf \<ge> IPHDR_SIZE then do { v \<leftarrow> hdr_byte buf 0; Some (OPENVPN_IPH_GET_VER v, 0) } else Some (- 1, 0)
      else if tunnel_type = DEV_TYPE_TAP then
        if buf_len buf \<ge> ETHHDR_SIZE then do {
          proto \<leftarrow> hdr_ntohs buf 12;
          Some (if proto = OPENVPN_ETH_P_IPV6 then 6 else if proto = OPENVPN_ETH_P_IPV4 then 4 else - 1, ETHHDR_SIZE) }
        else Some (- 1, ETHHDR_SIZE)
      else Some (- 1, ip_hdr_offset))"

definition is_ipv_X :: "int \<Rightarrow> buffer \<Rightarrow> int \<Rightarrow> (bool \<times> buffer) option" where
  "is_ipv_X tunnel_type buf ip_ver = do {
     off \<leftarrow> (if tunnel_type = DEV_TYPE_TUN then
               if buf_len buf < IPHDR_SIZE then Some None else Some (Some 0)
             else if tunnel_type = DEV_TYPE_TAP then
               if buf_len buf < ETHHDR_SIZE + IPHDR_SIZE then Some None
               else do {
                 proto \<leftarrow> hdr_ntohs buf 12;
                 if proto = OPENVPN_ETH_P_8021Q then
                   if buf_len buf < ETHHDR_SIZE + IPHDR_SIZE then Some None
                   else do {
                     proto \<leftarrow> hdr_ntohs buf 16;
                     Some (if proto \<noteq> (if ip_ver = 6 then OPENVPN_ETH_P_IPV6 else OPENVPN_ETH_P_IPV4) then None else Some ETH_8021Q_SIZE) }
                 else Some (if proto \<noteq> (if ip_ver = 6 then OPENVPN_ETH_P_IPV6 else OPENVPN_ETH_P_IPV4) then None else Some ETHHDR_SIZE) }
             else Some None);
     (case off of
        None \<Rightarrow> Some (False, buf)
      | Some off \<Rightarrow> do {
          v \<leftarrow> hdr_byte buf off;
          Some (if OPENVPN_IPH_GET_VER v = ip_ver then buf_advance buf off else (False, buf)) })
   }"

definition is_ipv4 :: "int \<Rightarrow> buffer \<Rightarrow> (bool \<times> buffer) option" where "is_ipv4 tunnel_type buf = is_ipv_X tunnel_type buf 4"
definition is_ipv6 :: "int \<Rightarrow> buffer \<Rightarrow> (bool \<times> buffer) option" where "is_ipv6 tunnel_type buf = is_ipv_X tunnel_type buf 6"

section \<open>The checksum of a packet\<close>

text \<open>The three loops of \<^verbatim>\<open>ip_checksum\<close> over 16-bit words, in 32-bit unsigned arithmetic.\<close>

fun sum_words :: "u32 \<Rightarrow> bytes \<Rightarrow> u32" where
  "sum_words s [] = s"
| "sum_words s [x] = s + ucast (push_bit 8 (ucast x :: u16))"
| "sum_words s (x # y # zs) = sum_words (s + ucast (push_bit 8 (ucast x) + ucast y :: u16)) zs"

lemma fold_parts:
  fixes s :: u32
  shows "unat (drop_bit 16 s) = unat s div 65536" "unat (s AND 0xFFFF) = unat s mod 65536"
    "unat ((s AND 0xFFFF) + drop_bit 16 s) = unat s mod 65536 + unat s div 65536"
proof -
  show d: "unat (drop_bit 16 s) = unat s div 65536" by (subst unat_drop_bit_eq) (simp add: drop_bit_eq_div)
  have "s AND 0xFFFF = take_bit 16 s" using take_bit_eq_mask [of 16 s] by (simp add: mask_eq_exp_minus_1)
  then have "unat (s AND 0xFFFF) = take_bit 16 (unat s)" by (simp add: unsigned_take_bit_eq)
  then show m: "unat (s AND 0xFFFF) = unat s mod 65536" by (simp add: take_bit_eq_mod)
  have "unat s < 4294967296" using unsigned_less [of s, where ?'a = nat] by simp
  then have "unat s mod 65536 + unat s div 65536 < 4294967296" by linarith
  then show "unat ((s AND 0xFFFF) + drop_bit 16 s) = unat s mod 65536 + unat s div 65536" using d m by (simp add: unat_plus_if')
qed

lemma fold_step_less:
  assumes "drop_bit 16 (s :: u32) \<noteq> 0"
  shows "unat ((s AND 0xFFFF) + drop_bit 16 s) < unat s"
proof -
  have "unat s div 65536 \<noteq> 0" using assms fold_parts(1) by (metis unat_eq_zero)
  then show ?thesis using fold_parts(3) [of s] div_mult_mod_eq [of "unat s" 65536] by linarith
qed

function fold_carries :: "u32 \<Rightarrow> u32" where
  "fold_carries s = (if drop_bit 16 s \<noteq> 0 then fold_carries ((s AND 0xFFFF) + drop_bit 16 s) else s)"
  by pat_completeness auto
termination by (relation "measure unat") (simp_all add: fold_step_less)

declare fold_carries.simps [simp del]

definition ip_checksum :: "bytes \<Rightarrow> bytes \<Rightarrow> bytes \<Rightarrow> int \<Rightarrow> u16" where
  "ip_checksum payload src_addr dest_addr proto =
     (let s = sum_words (sum_words (sum_words 0 payload) src_addr) dest_addr;
          s = s + ucast (of_nat (length payload) :: u16);
          s = s + ucast (word_of_int proto :: u16)
      in ucast (NOT (fold_carries s)))"

section \<open>Lowering the MSS\<close>

text \<open>An MSS option at \<open>opt\<close>: the value is lowered and the TCP checksum, sixteen bytes into the header, adjusted.\<close>

definition clamp_mss :: "u16 \<Rightarrow> buffer \<Rightarrow> int \<Rightarrow> buffer option" where
  "clamp_mss maxmss buf opt = do {
     mssval \<leftarrow> hdr_ntohs buf (opt + 2);
     (if mssval > maxmss then do {
        buf \<leftarrow> hdr_put buf (opt + 2) (be16 maxmss);
        adjust_member buf 16 (uint (htons mssval) - uint (htons maxmss)) }
      else Some buf)
   }"

lemma uint_nonzero: "uint (x :: u8) \<noteq> 0 \<Longrightarrow> 0 < uint x"
  using uint_ge_0 [of x] by linarith

function mss_options :: "u16 \<Rightarrow> buffer \<Rightarrow> int \<Rightarrow> int \<Rightarrow> buffer option" where
  "mss_options maxmss buf opt olen =
     (if olen \<le> 1 then Some buf
      else do {
        kind \<leftarrow> hdr_byte buf opt;
        (if kind = OPENVPN_TCPOPT_EOL then Some buf
         else if kind = OPENVPN_TCPOPT_NOP then mss_options maxmss buf (opt + 1) (olen - 1)
         else do {
           l \<leftarrow> hdr_byte buf (opt + 1);
           (if uint l \<le> 0 \<or> uint l > olen then Some buf
            else do {
              buf \<leftarrow> (if kind = OPENVPN_TCPOPT_MAXSEG \<and> uint l = OPENVPN_TCPOLEN_MAXSEG then clamp_mss maxmss buf opt else Some buf);
              mss_options maxmss buf (opt + uint l) (olen - uint l) }) }) })"
  by pat_completeness auto
termination by (relation "measure (\<lambda>(_, _, _, olen). nat olen)") (auto intro: uint_nonzero)

declare mss_options.simps [simp del]

definition mss_fixup_dowork :: "buffer \<Rightarrow> u16 \<Rightarrow> buffer option" where
  "mss_fixup_dowork buf maxmss =
     (if buf_len buf < TCPHDR_SIZE then Some buf
      else do {
        d \<leftarrow> hdr_byte buf 12;
        let hlen = OPENVPN_TCPH_GET_DOFF d;
        (if hlen \<le> TCPHDR_SIZE \<or> hlen > buf_len buf then Some buf
         else mss_options maxmss buf TCPHDR_SIZE (hlen - TCPHDR_SIZE)) })"

text \<open>The rest of the packet as a buffer of its own that shares the memory: its effect on the packet.\<close>

definition mss_fixup_syn :: "buffer \<Rightarrow> buffer \<Rightarrow> u16 \<Rightarrow> buffer option" where
  "mss_fixup_syn buf newbuf maxmss = do {
     flags \<leftarrow> hdr_byte newbuf 13;
     (if flags AND OPENVPN_TCPH_SYN_MASK \<noteq> 0 then do { newbuf \<leftarrow> mss_fixup_dowork newbuf maxmss; Some (buf\<lparr>data := data newbuf\<rparr>) }
      else Some buf)
   }"

definition mss_fixup_ipv4 :: "buffer \<Rightarrow> u16 \<Rightarrow> buffer option" where
  "mss_fixup_ipv4 buf maxmss =
     (if buf_len buf < IPHDR_SIZE then Some buf
      else do {
        v \<leftarrow> hdr_byte buf 0;
        let hlen = OPENVPN_IPH_GET_LEN v;
        protocol \<leftarrow> hdr_byte buf 9;
        tot_len \<leftarrow> hdr_ntohs buf 2;
        frag_off \<leftarrow> hdr_ntohs buf 6;
        (if protocol = OPENVPN_IPPROTO_TCP \<and> uint tot_len = buf_len buf \<and> frag_off AND OPENVPN_IP_OFFMASK = 0 \<and> hlen \<le> buf_len buf
            \<and> buf_len buf - hlen \<ge> TCPHDR_SIZE
         then let (ok, newbuf) = buf_advance buf hlen in if ok then mss_fixup_syn buf newbuf maxmss else Some buf
         else Some buf) })"

text \<open>The limit is lowered by the larger IPv6 header in 16-bit arithmetic.\<close>

definition mss_fixup_ipv6 :: "buffer \<Rightarrow> u16 \<Rightarrow> buffer option" where
  "mss_fixup_ipv6 buf maxmss =
     (if buf_len buf < IPV6HDR_SIZE then Some buf
      else do {
        payload_len \<leftarrow> hdr_ntohs buf 4;
        nexthdr \<leftarrow> hdr_byte buf 6;
        (if buf_len buf \<noteq> uint payload_len + 40 \<or> nexthdr \<noteq> OPENVPN_IPPROTO_TCP then Some buf
         else let (ok, newbuf) = buf_advance buf 40
              in if ok \<and> buf_len newbuf \<ge> TCPHDR_SIZE then mss_fixup_syn buf newbuf (maxmss - 20) else Some buf) })"

section \<open>Address translation\<close>

definition MAX_CLIENT_NAT :: nat where "MAX_CLIENT_NAT = 64"
definition CN_OUTGOING :: int where "CN_OUTGOING = 0"
definition CN_INCOMING :: int where "CN_INCOMING = 1"
definition CN_SNAT :: int where "CN_SNAT = 0"
definition CN_DNAT :: int where "CN_DNAT = 1"

text \<open>The addresses are in network order, as in the packet.\<close>

record client_nat_entry =
  cn_type :: int
  cn_network :: u32
  cn_netmask :: u32
  cn_foreign_network :: u32

definition add_entry :: "client_nat_entry list \<Rightarrow> client_nat_entry \<Rightarrow> bool \<times> client_nat_entry list" where
  "add_entry dest e = (if length dest \<ge> MAX_CLIENT_NAT then (False, dest) else (True, dest @ [e]))"

fun copy_client_nat_option_list :: "client_nat_entry list \<Rightarrow> client_nat_entry list \<Rightarrow> client_nat_entry list" where
  "copy_client_nat_option_list dest [] = dest"
| "copy_client_nat_option_list dest (e # es) =
     (let (ok, dest) = add_entry dest e in if ok then copy_client_nat_option_list dest es else dest)"

text \<open>\<open>getaddr\<close> is the conversion of an address in text form, with its success.\<close>

definition add_client_nat_to_option_list ::
    "(string \<Rightarrow> u32 option) \<Rightarrow> client_nat_entry list \<Rightarrow> string \<Rightarrow> string \<Rightarrow> string \<Rightarrow> string \<Rightarrow> client_nat_entry list" where
  "add_client_nat_to_option_list getaddr dest type network netmask foreign_network =
     (if type \<noteq> ''snat'' \<and> type \<noteq> ''dnat'' then dest
      else case (getaddr network, getaddr netmask, getaddr foreign_network) of
             (Some n, Some m, Some f) \<Rightarrow>
               snd (add_entry dest \<lparr>cn_type = (if type = ''snat'' then CN_SNAT else CN_DNAT), cn_network = n, cn_netmask = m, cn_foreign_network = f\<rparr>)
           | _ \<Rightarrow> dest)"

text \<open>One rule: the address it looks at, by its distance in the header, and the bit that marks this address as translated.\<close>

definition nat_rule :: "int \<Rightarrow> client_nat_entry \<Rightarrow> buffer \<times> int \<times> int \<Rightarrow> (buffer \<times> int \<times> int) option" where
  "nat_rule direction e st = (case st of (buf, accumulate, alog) \<Rightarrow> do {
     let (pos, amask) = (if cn_type e \<noteq> direction then (16, 2) else (12, 1));
     addr \<leftarrow> hdr_raw32 buf pos;
     let (fr, to) = (if direction \<noteq> 0 then (cn_foreign_network e, cn_network e) else (cn_network e, cn_foreign_network e));
     (if addr AND cn_netmask e = fr \<and> amask AND alog = 0 then do {
        let addr' = (addr AND NOT (cn_netmask e)) OR to;
        buf \<leftarrow> hdr_put buf pos (rev (be32 addr'));
        Some (buf, SUB_CHECKSUM_32 (ADD_CHECKSUM_32 accumulate addr) addr', alog OR amask) }
      else Some (buf, accumulate, alog)) })"

fun nat_rules :: "int \<Rightarrow> client_nat_entry list \<Rightarrow> buffer \<times> int \<times> int \<Rightarrow> (buffer \<times> int \<times> int) option" where
  "nat_rules direction [] st = Some st"
| "nat_rules direction (e # es) st = do { st \<leftarrow> nat_rule direction e st; nat_rules direction es st }"

definition client_nat_transform :: "client_nat_entry list \<Rightarrow> buffer \<Rightarrow> int \<Rightarrow> buffer option" where
  "client_nat_transform list ipbuf direction = do {
     (buf, accumulate, alog) \<leftarrow> nat_rules direction list (ipbuf, 0, 0);
     (if alog \<noteq> 0 then do {
        buf \<leftarrow> adjust_member buf 10 accumulate;
        protocol \<leftarrow> hdr_byte buf 9;
        (if protocol = OPENVPN_IPPROTO_TCP then
           if buf_len buf \<ge> IPHDR_SIZE + TCPHDR_SIZE then adjust_member buf (IPHDR_SIZE + 16) accumulate else Some buf
         else if protocol = OPENVPN_IPPROTO_UDP then
           if buf_len buf \<ge> IPHDR_SIZE + UDPHDR_SIZE then adjust_member buf (IPHDR_SIZE + 6) accumulate else Some buf
         else Some buf) }
      else Some buf)
   }"

end
