(* ===== verification/Ip_Checksum.thy ===== *)
theory Ip_Checksum
  imports Ip_Packets
begin

text \<open>
  The Internet checksum: sums of 16-bit words in one's complement arithmetic, which is arithmetic modulo 65535; the incremental update by \<^verbatim>\<open>ADJUST_CHECKSUM\<close>; the
  checksum computed from scratch by \<^verbatim>\<open>ip_checksum\<close>. Reading and writing of header members is an interface (\<open>header_view\<close>) interpreted on packet buffers.
\<close>

section \<open>One's complement sums\<close>

text \<open>The sum of the 16-bit words of a block of bytes in network order, an odd last byte being padded with zero.\<close>

fun ocsum :: "bytes \<Rightarrow> int" where
  "ocsum [] = 0"
| "ocsum [x] = 256 * uint x"
| "ocsum (x # y # zs) = 256 * uint x + uint y + ocsum zs"

definition patch :: "nat \<Rightarrow> bytes \<Rightarrow> bytes \<Rightarrow> bytes" where
  "patch k bs xs = take k xs @ bs @ drop (k + length bs) xs"

lemma length_patch [simp]: "k + length bs \<le> length xs \<Longrightarrow> length (patch k bs xs) = length xs"
  by (simp add: patch_def)

lemma slice_patch_other:
  assumes "p + n \<le> k \<or> k + length bs \<le> p" "k + length bs \<le> length xs"
  shows "slice p n (patch k bs xs) = slice p n xs"
proof (cases "p + n \<le> k")
  case True
  then show ?thesis using assms(2) by (simp add: slice_def patch_def take_drop add.commute)
next
  case False
  then have "drop p (patch k bs xs) = drop p xs" using assms by (simp add: patch_def)
  then show ?thesis by (simp add: slice_def)
qed

lemma slice_patch_same: "k + length bs \<le> length xs \<Longrightarrow> slice k (length bs) (patch k bs xs) = bs"
  by (simp add: slice_def patch_def)

lemma nth_patch_other: "i < k \<or> k + length bs \<le> i \<Longrightarrow> k + length bs \<le> length xs \<Longrightarrow> patch k bs xs ! i = xs ! i"
  by (auto simp: patch_def nth_append)

lemma ocsum_append: "even (length xs) \<Longrightarrow> ocsum (xs @ ys) = ocsum xs + ocsum ys"
  by (induction xs rule: ocsum.induct) auto

lemma ocsum_split: "even k \<Longrightarrow> k \<le> length xs \<Longrightarrow> ocsum xs = ocsum (take k xs) + ocsum (drop k xs)"
  using ocsum_append [of "take k xs" "drop k xs"] by simp

lemma ocsum_patch:
  assumes "even k" "even (length bs)" "k + length bs \<le> length xs"
  shows "ocsum (patch k bs xs) = ocsum xs - ocsum (slice k (length bs) xs) + ocsum bs"
proof -
  have xs: "xs = take k xs @ slice k (length bs) xs @ drop (k + length bs) xs"
    by (metis append_take_drop_id drop_drop slice_def add.commute)
  have "ocsum xs = ocsum (take k xs) + ocsum (slice k (length bs) xs) + ocsum (drop (k + length bs) xs)"
    using ocsum_append [of "take k xs"] ocsum_append [of "slice k (length bs) xs"] assms by (subst xs) simp
  moreover have "ocsum (patch k bs xs) = ocsum (take k xs) + ocsum bs + ocsum (drop (k + length bs) xs)"
    using ocsum_append [of "take k xs"] ocsum_append [of bs] assms by (simp add: patch_def)
  ultimately show ?thesis by simp
qed

text \<open>A pair of bytes as a 16-bit word, in network order and as the machine reads it.\<close>

lemma uint_from_be2: "uint (from_be [x, y] :: u16) = 256 * uint x + uint y"
proof -
  have d: "push_bit 8 (ucast x :: u16) AND ucast y = 0" by (rule bit_word_eqI) (auto simp: bit_simps dest: bit_imp_le_length)
  then have "(from_be [x, y] :: u16) = push_bit 8 (ucast x) + ucast y" by (simp add: from_be_def disjunctive_add_eq_or)
  moreover have "uint (push_bit 8 (ucast x :: u16)) = 256 * uint x"
  proof -
    have "uint x < 256" using uint_lt2p [of x] by simp
    then show ?thesis by (simp add: push_bit_eq_mult uint_word_ariths uint_up_ucast is_up)
  qed
  moreover have "uint (ucast y :: u16) = uint y" by (simp add: uint_up_ucast is_up)
  moreover have "256 * uint x + uint y < 65536" using uint_lt2p [of x] uint_lt2p [of y] by simp
  ultimately show ?thesis by (simp add: uint_word_ariths)
qed

lemma be16_bytes:
  obtains x y where "be16 w = [x, y]" "uint w = 256 * uint x + uint y" "htons w = from_be [y, x]"
proof -
  obtain x y where xy: "be16 w = [x, y]" by (simp add: be16_def)
  then have "uint w = uint (from_be [x, y] :: u16)" using rd16_be16 [of w] by simp
  with xy show thesis using that by (simp add: uint_from_be2 htons_def)
qed

lemma ocsum_be16 [simp]: "ocsum (be16 w) = uint w"
  by (rule be16_bytes [of w]) simp

text \<open>Swapping the bytes of the words is multiplication by 256 in arithmetic modulo 65535.\<close>

lemma swap_cong: "(256 * (256 * a + b)) mod 65535 = (256 * b + a) mod (65535 :: int)"
proof -
  have "256 * (256 * a + b) = (256 * b + a) + 65535 * a" by simp
  then show ?thesis by (metis mod_mult_self2)
qed

lemma uint_htons: "(256 * uint (htons w)) mod 65535 = uint w mod 65535"
proof (rule be16_bytes [of w])
  fix x y assume w: "uint w = 256 * uint x + uint y" "htons w = from_be [y, x]"
  show ?thesis unfolding w uint_from_be2 using swap_cong [of "uint y" "uint x"] by (simp add: add.commute)
qed

section \<open>The incremental update\<close>

lemma fold_once:
  assumes "0 \<le> a" "a < 2 ^ 31"
  defines "b \<equiv> drop_bit 16 a + (a AND 0xffff)"
  defines "d \<equiv> b + drop_bit 16 b"
  shows "d mod 65536 mod 65535 = a mod (65535 :: int)"
proof -
  have dr: "drop_bit 16 x = x div 65536" for x :: int by (simp add: drop_bit_eq_div)
  have "a AND 0xffff = take_bit 16 a" using take_bit_eq_mask [of 16 a] by (simp add: mask_eq_exp_minus_1)
  then have b: "b = a div 65536 + a mod 65536" by (simp add: b_def dr take_bit_eq_mod)
  have "a = 65536 * (a div 65536) + a mod 65536" by simp
  then have ab: "a = b + 65535 * (a div 65536)" using b by simp
  have r: "0 \<le> b" "b < 65536 + 32768" using b assms(1,2) pos_mod_bound [of 65536 a] pos_mod_sign [of 65536 a] by (auto simp: pos_imp_zdiv_nonneg_iff)
  have "d mod 65536 mod 65535 = b mod 65535"
  proof (cases "b < 65536")
    case True
    then have "b div 65536 = 0" using r by (simp add: div_pos_pos_trivial)
    then have "d = b" by (simp add: d_def dr)
    with True r show ?thesis by (simp add: mod_pos_pos_trivial)
  next
    case False
    then have "b div 65536 = 1" using r by linarith
    then have "d = b + 1" by (simp add: d_def dr)
    moreover have "(b + 1) mod 65536 = b + 1 - 65536" using False r by (simp add: mod_pos_geq mod_pos_pos_trivial)
    ultimately have "d mod 65536 = b - 65535" by simp
    then show ?thesis by (simp flip: mod_diff_right_eq)
  qed
  then show ?thesis using ab by (metis mod_mult_self2)
qed

lemma complement_mod: "uint (word_of_int (NOT a) :: u16) = 65535 - a mod 65536"
proof -
  have "65536 * q + r = a \<Longrightarrow> - a - 1 = 65536 * (- q - 1) + (65535 - r)" for q r :: int by (simp add: algebra_simps)
  from this [OF mult_div_mod_eq] have "NOT a = 65536 * (- (a div 65536) - 1) + (65535 - a mod 65536)" by (simp add: not_eq_complement)
  then have "NOT a mod 65536 = 65535 - a mod 65536" by (rule int_mod_pos_eq) simp_all
  then show ?thesis by (simp add: uint_word_of_int)
qed

lemma adjust_checksum_mod:
  assumes "\<bar>acc\<bar> < 2 ^ 30"
  shows "uint (ADJUST_CHECKSUM acc c) mod 65535 = (acc + uint c) mod 65535"
proof -
  let ?a = "acc + uint c"
  have c: "0 \<le> uint c" "uint c < 65536" using uint_lt2p [of c] by simp_all
  have "acc < 1073741824" "- acc < 1073741824" using assms by (simp_all add: abs_less_iff)
  then have a: "- ?a < 2147483648" "?a < 2147483648" using c by linarith+
  show ?thesis
  proof (cases "?a < 0")
    case True
    let ?b = "drop_bit 16 (- ?a) + ((- ?a) AND 0xffff)" 
    let ?d = "?b + drop_bit 16 ?b"
    have "0 \<le> - ?a" "- ?a < 2 ^ 31" using True c a by simp_all
    from fold_once [OF this] have f: "?d mod 65536 mod 65535 = (- ?a) mod 65535" .
    have "uint (ADJUST_CHECKSUM acc c) = 65535 - ?d mod 65536" using True complement_mod [of ?d] by (simp add: ADJUST_CHECKSUM_def Let_def)
    then have "uint (ADJUST_CHECKSUM acc c) mod 65535 = (65535 - (- ?a)) mod 65535" using mod_diff_right_eq [of 65535 "?d mod 65536" 65535] mod_diff_right_eq [of 65535 "- ?a" 65535] f by argo
    also have "\<dots> = ?a mod 65535" by (metis add_diff_cancel_left' diff_minus_eq_add mod_add_self1)
    finally show ?thesis .
  next
    case False
    then have "0 \<le> ?a" "?a < 2 ^ 31" using c a by simp_all
    note f = fold_once [OF this]
    have "uint (word_of_int d :: u16) = d mod 65536" for d by (simp add: uint_word_of_int)
    with f show ?thesis unfolding ADJUST_CHECKSUM_def Let_def if_not_P [OF False] by presburger
  qed
qed

section \<open>Members of a packet\<close>

text \<open>
  Reading and writing at a distance from the start of a packet: reading inside the packet gives its bytes, writing inside it
  replaces them and keeps the window of the buffer.
\<close>

locale header_view =
  fixes ok :: "'b \<Rightarrow> bool" and window :: "'b \<Rightarrow> 'w" and content :: "'b \<Rightarrow> bytes"
    and get :: "'b \<Rightarrow> int \<Rightarrow> int \<Rightarrow> bytes option" and put :: "'b \<Rightarrow> int \<Rightarrow> bytes \<Rightarrow> 'b option"
  assumes get_ok: "ok b \<Longrightarrow> k + n \<le> length (content b) \<Longrightarrow> get b (int k) (int n) = Some (slice k n (content b))"
    and put_ok: "ok b \<Longrightarrow> k + length bs \<le> length (content b) \<Longrightarrow>
      \<exists>b'. put b (int k) bs = Some b' \<and> ok b' \<and> window b' = window b \<and> content b' = patch k bs (content b)"
begin

text \<open>A member that is read, changed by a function and written back.\<close>

lemma modify_ok:
  assumes "ok b" "k + n \<le> length (content b)" "\<And>bs. length bs = n \<Longrightarrow> length (f bs) = n"
  shows "\<exists>b'. do { bs \<leftarrow> get b (int k) (int n); put b (int k) (f bs) } = Some b' \<and> ok b' \<and> window b' = window b
    \<and> content b' = patch k (f (slice k n (content b))) (content b)"
proof -
  have "length (f (slice k n (content b))) = n" using assms(2,3) by simp
  then show ?thesis using put_ok [OF assms(1), of k "f (slice k n (content b))"] get_ok [OF assms(1,2)] assms(2) by simp
qed

end

text \<open>The extent of a buffer and the memory around its content.\<close>

definition buf_window :: "buffer \<Rightarrow> int \<times> int \<times> int \<times> (bytes \<times> bytes) option" where
  "buf_window b = (capacity b, offset b, len b, map_option (\<lambda>m. (take (nat (offset b)) m, drop (nat (offset b + len b)) m)) (data b))"

lemma store_window:
  assumes "buf_live b" "k + length bs \<le> length (buf_content b)" "buf_store b (offset b + int k) bs = Some b'"
  shows "buf_window b' = buf_window b"
proof -
  obtain m where m: "data b = Some m" "0 \<le> offset b" "0 \<le> len b" "offset b + len b \<le> int (length m)" using assms(1) by (auto elim: buf_live_Some)
  have l: "int (k + length bs) \<le> len b" using len_buf_content [OF assms(1)] assms(2) by simp
  let ?p = "nat (offset b) + k"
  have b': "b' = b\<lparr>data := Some (take ?p m @ bs @ drop (?p + length bs) m)\<rparr>" using assms(3) m l by (simp add: buf_store_def nat_add_distrib)
  have "?p + length bs \<le> nat (offset b + len b)" "nat (offset b + len b) \<le> length m" using m l by linarith+
  then show ?thesis unfolding b' by (simp add: buf_window_def m(1))
qed

lemma live_memory:
  assumes "buf_live b"
  shows "\<exists>pre post. data b = Some (pre @ buf_content b @ post) \<and> buf_window b = (capacity b, offset b, len b, Some (pre, post)) \<and> int (length pre) = offset b"
proof -
  obtain m where m: "data b = Some m" "0 \<le> offset b" "0 \<le> len b" "offset b + len b \<le> int (length m)" using assms by (auto elim: buf_live_Some)
  have "m = take (nat (offset b)) m @ buf_content b @ drop (nat (offset b + len b)) m"
    using m by (simp add: buf_content_def slice_def nat_add_distrib) (metis append_take_drop_id drop_drop add.commute)
  with m show ?thesis by (intro exI [of _ "take (nat (offset b)) m"] exI [of _ "drop (nat (offset b + len b)) m"]) (auto simp: buf_window_def)
qed

lemma hdr_bytes_live:
  assumes "buf_live b" "k + n \<le> length (buf_content b)"
  shows "hdr_bytes b (int k) (int n) = Some (slice k n (buf_content b))"
proof -
  obtain m where m: "data b = Some m" "0 \<le> offset b" "0 \<le> len b" "offset b + len b \<le> int (length m)" using assms(1) by (auto elim: buf_live_Some)
  have l: "int (k + n) \<le> len b" using len_buf_content [OF assms(1)] assms(2) by simp
  have "slice k n (buf_content b) = take n (drop (nat (offset b) + k) m)"
    using m l by (simp add: buf_content_def slice_def drop_take min_def add.commute nat_le_iff le_nat_iff)
  then show ?thesis using m l buf_bptr_live [OF assms(1)] by (simp add: hdr_bytes_def nat_add_distrib)
qed

interpretation hdr: header_view buf_live buf_window buf_content hdr_bytes hdr_put
proof
  fix b k n assume "buf_live b" "k + n \<le> length (buf_content b)"
  then show "hdr_bytes b (int k) (int n) = Some (slice k n (buf_content b))" by (rule hdr_bytes_live)
next
  fix b k and bs :: bytes assume b: "buf_live b" "k + length bs \<le> length (buf_content b)"
  have c: "buf_content b = take k (buf_content b) @ slice k (length bs) (buf_content b) @ drop (k + length bs) (buf_content b)"
    by (metis append_take_drop_id drop_drop slice_def add.commute)
  from buf_store_inside [OF b(1) c, of bs "offset b + int k"] b(2) buf_bptr_live [OF b(1)]
  show "\<exists>b'. hdr_put b (int k) bs = Some b' \<and> buf_live b' \<and> buf_window b' = buf_window b \<and> buf_content b' = patch k bs (buf_content b)"
    using store_window [OF b] by (auto simp: hdr_put_def patch_def)
qed

lemma hdr_byte_live: "buf_live b \<Longrightarrow> k < length (buf_content b) \<Longrightarrow> hdr_byte b (int k) = Some (buf_content b ! k)"
proof -
  assume b: "buf_live b" "k < length (buf_content b)"
  obtain m where m: "data b = Some m" "0 \<le> offset b" "0 \<le> len b" "offset b + len b \<le> int (length m)" using b(1) by (auto elim: buf_live_Some)
  have l: "int k < len b" using len_buf_content [OF b(1)] b(2) by simp
  have "buf_content b ! k = m ! (nat (offset b) + k)" using m l by (simp add: buf_content_def slice_def)
  then show "hdr_byte b (int k) = Some (buf_content b ! k)" using m l buf_bptr_live [OF b(1)] by (simp add: hdr_byte_def nat_add_distrib)
qed

lemma window_len: "buf_live b \<Longrightarrow> buf_live b' \<Longrightarrow> buf_window b' = buf_window b \<Longrightarrow> length (buf_content b') = length (buf_content b)"
  using len_buf_content [of b] len_buf_content [of b'] by (simp add: buf_window_def)

lemma slice2: "k + 2 \<le> length xs \<Longrightarrow> slice k 2 xs = [xs ! k, xs ! Suc k]"
  by (simp add: slice_def numeral_2_eq_2 take_Suc_conv_app_nth hd_drop_conv_nth)

text \<open>Adjusting a checksum in place changes the sum over the packet by the accumulated difference, taken in network order.\<close>

lemma adjust_member_sum:
  assumes "buf_live b" "even k" "k + 2 \<le> length (buf_content b)" "\<bar>acc\<bar> < 2 ^ 30"
  shows "\<exists>b' bs. adjust_member b (int k) acc = Some b' \<and> buf_live b' \<and> buf_window b' = buf_window b \<and> length bs = 2
    \<and> buf_content b' = patch k bs (buf_content b)
    \<and> ocsum bs mod 65535 = (ocsum (slice k 2 (buf_content b)) + 256 * acc) mod 65535"
proof -
  let ?c = "buf_content b"
  let ?x = "?c ! k" and ?y = "?c ! Suc k"
  have s: "slice k 2 ?c = [?x, ?y]" using assms(3) by (rule slice2)
  let ?w = "from_be [?y, ?x] :: u16" 
  let ?n = "ADJUST_CHECKSUM acc ?w"
  let ?f = "\<lambda>bs. rev (be16 (ADJUST_CHECKSUM acc (from_be (rev bs))))"
  have "adjust_member b (int k) acc = do { bs \<leftarrow> hdr_bytes b (int k) (int 2); hdr_put b (int k) (?f bs) }"
    by (cases "hdr_bytes b (int k) 2") (simp_all add: adjust_member_def hdr_raw16_def)
  with hdr.modify_ok [OF assms(1,3), of ?f] s obtain b' where b': "adjust_member b (int k) acc = Some b'" "buf_live b'" "buf_window b' = buf_window b"
    "buf_content b' = patch k (rev (be16 ?n)) ?c" by auto
  obtain u v where uv: "be16 ?n = [u, v]" "uint ?n = 256 * uint u + uint v" by (rule be16_bytes)
  have "ocsum (rev (be16 ?n)) mod 65535 = (256 * uint ?n) mod 65535" using uv swap_cong [of "uint u" "uint v"] by simp
  also have "\<dots> = (256 * (acc + uint ?w)) mod 65535" 
    using adjust_checksum_mod [OF assms(4), of ?w] mod_mult_right_eq [of 256 "uint ?n" 65535] mod_mult_right_eq [of 256 "acc + uint ?w" 65535] by argo
  also have "\<dots> = (256 * acc + 256 * uint ?w) mod 65535" by (simp add: distrib_left)
  also have "\<dots> = (256 * acc + (256 * uint ?x + uint ?y)) mod 65535"
    using mod_add_right_eq [of "256 * acc" "256 * uint ?w" 65535] mod_add_right_eq [of "256 * acc" "256 * uint ?x + uint ?y" 65535]
      swap_cong [of "uint ?y" "uint ?x"] unfolding uint_from_be2 by argo
  finally have "ocsum (rev (be16 ?n)) mod 65535 = (ocsum (slice k 2 ?c) + 256 * acc) mod 65535" using s by (simp add: add.commute)
  then show ?thesis using b' by (intro exI [of _ b'] exI [of _ "rev (be16 ?n)"]) simp
qed

section \<open>The checksum from scratch\<close>

lemma ocsum_range: "0 \<le> ocsum bs" "2 * ocsum bs \<le> 65535 * (int (length bs) + 1)"
proof -
  have u: "0 \<le> uint x" "uint x \<le> 255" for x :: u8 using uint_lt2p [of x] by simp_all
  show "0 \<le> ocsum bs" using u by (induction bs rule: ocsum.induct) simp_all
  show "2 * ocsum bs \<le> 65535 * (int (length bs) + 1)"
  proof (induction bs rule: ocsum.induct)
    case (2 x)
    then show ?case using u [of x] by simp
  next
    case (3 x y zs)
    then show ?case using u [of x] u [of y] by (simp add: distrib_left)
  qed simp
qed

lemma uint_word16: "uint (push_bit 8 (ucast x) + ucast y :: u16) = 256 * uint x + uint y" "uint (push_bit 8 (ucast x) :: u16) = 256 * uint x" for x y :: u8
proof -
  have x: "0 \<le> uint x" "uint x < 256" "0 \<le> uint y" "uint y < 256" using uint_lt2p [of x] uint_lt2p [of y] by simp_all
  show p: "uint (push_bit 8 (ucast x) :: u16) = 256 * uint x" using x by (simp add: push_bit_eq_mult uint_word_ariths uint_up_ucast is_up)
  show "uint (push_bit 8 (ucast x) + ucast y :: u16) = 256 * uint x + uint y"
    unfolding uint_word_ariths p using x by (simp add: uint_up_ucast is_up)
qed

lemma sum_words_uint: "uint s + ocsum bs < 2 ^ 32 \<Longrightarrow> uint (sum_words s bs) = uint s + ocsum bs"
proof (induction s bs rule: sum_words.induct)
  case (1 s)
  then show ?case by simp
next
  case (2 s x)
  have "uint (ucast (push_bit 8 (ucast x) :: u16) :: u32) = 256 * uint x" using uint_word16(2) [of x] by (simp add: uint_up_ucast is_up)
  then show ?case using 2 by (simp add: uint_word_ariths)
next
  case (3 s x y zs)
  let ?t = "s + ucast (push_bit 8 (ucast x) + ucast y :: u16) :: u32"
  have "uint (ucast (push_bit 8 (ucast x) + ucast y :: u16) :: u32) = 256 * uint x + uint y"
    using uint_word16(1) [of x y] by (simp add: uint_up_ucast is_up)
  then have t: "uint ?t = uint s + (256 * uint x + uint y)" using 3(2) ocsum_range(1) [of zs] by (simp add: uint_word_ariths)
  then show ?case using 3 by simp
qed

lemma fold_carries_mod: "uint (fold_carries s) < 65536 \<and> uint (fold_carries s) mod 65535 = uint s mod 65535"
proof (induction s rule: fold_carries.induct)
  case (1 s)
  let ?t = "(s AND 0xFFFF) + drop_bit 16 s"
  have t: "uint ?t = uint s mod 65536 + uint s div 65536" using arg_cong [OF fold_parts(3) [of s], of int] by (simp add: zmod_int zdiv_int)
  have d: "uint (drop_bit 16 s) = uint s div 65536" using arg_cong [OF fold_parts(1) [of s], of int] by (simp add: zdiv_int)
  show ?case
  proof (cases "drop_bit 16 s = 0")
    case True
    then have "uint s div 65536 = 0" using d by simp
    then have "uint s < 65536" by (auto simp: zdiv_eq_0_iff)
    moreover have "fold_carries s = s" using True by (subst fold_carries.simps) simp
    ultimately show ?thesis by simp
  next
    case False
    have "uint s = uint ?t + 65535 * (uint s div 65536)" unfolding t using mult_div_mod_eq [of 65536 "uint s"] by linarith
    then have "uint ?t mod 65535 = uint s mod 65535" by (metis mod_mult_self2)
    moreover have "fold_carries s = fold_carries ?t" using False by (subst fold_carries.simps) simp
    ultimately show ?thesis using 1 [OF False] by simp
  qed
qed

text \<open>The checksum computed from scratch is the Internet checksum: for every payload and addresses of a packet, adding the computed value to the one's complement sum of
  payload, addresses, length and protocol gives zero in one's complement arithmetic, which is what a receiver tests.\<close>

theorem ip_checksum_valid:
  assumes "length payload < 65536" "length src \<le> 16" "length dst \<le> 16" "0 \<le> proto" "proto < 65536"
  shows "(ocsum payload + ocsum src + ocsum dst + int (length payload) + proto + uint (ip_checksum payload src dst proto)) mod 65535 = 0"
proof -
  let ?S = "ocsum payload + ocsum src + ocsum dst + int (length payload) + proto"
  have lt: "?S < 2 ^ 32" using assms ocsum_range(2) [of payload] ocsum_range(2) [of src] ocsum_range(2) [of dst] by simp
  have nn: "0 \<le> ocsum payload" "0 \<le> ocsum src" "0 \<le> ocsum dst" using ocsum_range(1) by simp_all
  let ?s1 = "sum_words 0 payload" 
  let ?s2 = "sum_words ?s1 src"
  let ?s3 = "sum_words ?s2 dst"
  have "uint ?s1 = ocsum payload" using sum_words_uint [of 0 payload] lt nn assms by simp
  then have "uint ?s2 = ocsum payload + ocsum src" using sum_words_uint [of ?s1 src] lt nn assms by simp
  then have s3: "uint ?s3 = ocsum payload + ocsum src + ocsum dst" using sum_words_uint [of ?s2 dst] lt nn assms by simp
  have n: "uint (ucast (of_nat (length payload) :: u16) :: u32) = int (length payload)" using assms(1) by (simp add: uint_up_ucast is_up unsigned_of_nat take_bit_nat_eq_self)
  have p: "uint (ucast (word_of_int proto :: u16) :: u32) = proto" using assms(4,5) by (simp add: uint_up_ucast is_up uint_word_of_int)
  let ?t = "?s3 + ucast (of_nat (length payload) :: u16) + ucast (word_of_int proto :: u16)"
  let ?l = "ucast (of_nat (length payload) :: u16) :: u32" and ?p = "ucast (word_of_int proto :: u16) :: u32"
  have t1: "uint (?s3 + ?l) = ocsum payload + ocsum src + ocsum dst + int (length payload)"
    unfolding uint_word_ariths s3 n using lt nn assms(4) by (simp add: mod_pos_pos_trivial)
  have t: "uint ?t = ?S" unfolding uint_word_ariths(1) [of "?s3 + ?l"] t1 p using lt nn assms(4) by (simp add: mod_pos_pos_trivial)
  let ?f = "fold_carries ?t"
  have f: "uint ?f < 65536" "uint ?f mod 65535 = ?S mod 65535" using fold_carries_mod [of ?t] t by auto
  have "ip_checksum payload src dst proto = ucast (NOT ?f)" by (simp add: ip_checksum_def Let_def)
  also have "\<dots> = word_of_int (NOT (uint ?f))" by (rule bit_word_eqI) (simp add: bit_simps)
  finally have "uint (ip_checksum payload src dst proto) = 65535 - uint ?f mod 65536" using complement_mod [of "uint ?f"] by simp
  then have c: "uint (ip_checksum payload src dst proto) = 65535 - uint ?f" using f(1) by (simp add: mod_pos_pos_trivial)
  have "(?S + (65535 - uint ?f)) mod 65535 = (uint ?f + (65535 - uint ?f)) mod 65535" by (rule mod_add_cong [OF f(2) [symmetric] refl])
  then show ?thesis unfolding c by simp
qed

theorem ip_checksum_valid_witness:
  "(ocsum [1, 2, 3] + ocsum [10, 0, 0, 1] + ocsum [10, 0, 0, 2] + 3 + 17 + uint (ip_checksum [1, 2, 3] [10, 0, 0, 1] [10, 0, 0, 2] 17)) mod 65535 = 0"
  using ip_checksum_valid [of "[1, 2, 3]" "[10, 0, 0, 1]" "[10, 0, 0, 2]" 17] by simp

end
