(* ===== verification/Mss_Fixup.thy ===== *)
theory Mss_Fixup
  imports Ip_Checksum
begin

text \<open>
  Lowering the MSS of TCP connections (\<^verbatim>\<open>mss.c\<close>): the loop over the TCP options stays inside the header and ends, the MSS options are limited, and the TCP checksum
  stays valid - unless an option lies at an odd distance.
\<close>

section \<open>Lowering the MSS\<close>

text \<open>The positions of the MSS options of a TCP header, in the order in which the code meets them.\<close>

function mss_at :: "bytes \<Rightarrow> nat \<Rightarrow> nat \<Rightarrow> nat list" where
  "mss_at c opt olen =
     (if olen \<le> 1 then []
      else if c ! opt = OPENVPN_TCPOPT_EOL then []
      else if c ! opt = OPENVPN_TCPOPT_NOP then mss_at c (opt + 1) (olen - 1)
      else let l = unat (c ! (opt + 1))
           in if l = 0 \<or> l > olen then []
              else (if c ! opt = OPENVPN_TCPOPT_MAXSEG \<and> l = 4 then [opt] else []) @ mss_at c (opt + l) (olen - l))"
  by pat_completeness auto
termination by (relation "measure (\<lambda>(_, _, olen). olen)") auto

declare mss_at.simps [simp del]

lemma mss_at_range: "p \<in> set (mss_at c opt olen) \<Longrightarrow> opt \<le> p \<and> p + 4 \<le> opt + olen"
proof (induction c opt olen rule: mss_at.induct)
  case (1 c opt olen)
  let ?l = "unat (c ! (opt + 1))"
  have "\<not> olen \<le> 1 \<Longrightarrow> c ! opt \<noteq> OPENVPN_TCPOPT_EOL \<Longrightarrow> c ! opt = OPENVPN_TCPOPT_NOP \<Longrightarrow> p \<in> set (mss_at c (opt + 1) (olen - 1)) \<Longrightarrow> ?case"
    using 1(1) by fastforce
  moreover have "\<not> olen \<le> 1 \<Longrightarrow> c ! opt \<noteq> OPENVPN_TCPOPT_EOL \<Longrightarrow> c ! opt \<noteq> OPENVPN_TCPOPT_NOP \<Longrightarrow> \<not> (?l = 0 \<or> ?l > olen)
      \<Longrightarrow> p \<in> set (mss_at c (opt + ?l) (olen - ?l)) \<Longrightarrow> ?case" using 1(2) [OF _ _ _ refl] by fastforce
  ultimately show ?case using 1(3) unfolding mss_at.simps [of c opt olen] Let_def by (auto split: if_splits)
qed

lemma mss_at_cong: "(\<And>i. opt \<le> i \<Longrightarrow> i < opt + olen \<Longrightarrow> c ! i = d ! i) \<Longrightarrow> mss_at c opt olen = mss_at d opt olen"
proof (induction c opt olen rule: mss_at.induct)
  case (1 c opt olen)
  have e: "olen > 1 \<Longrightarrow> c ! opt = d ! opt" "olen > 1 \<Longrightarrow> c ! (opt + 1) = d ! (opt + 1)" using 1(3) by simp_all
  have "\<not> olen \<le> 1 \<Longrightarrow> c ! opt \<noteq> OPENVPN_TCPOPT_EOL \<Longrightarrow> c ! opt = OPENVPN_TCPOPT_NOP \<Longrightarrow> mss_at c (opt + 1) (olen - 1) = mss_at d (opt + 1) (olen - 1)"
    by (rule 1(1)) (use 1(3) in simp_all)
  moreover have "\<not> olen \<le> 1 \<Longrightarrow> c ! opt \<noteq> OPENVPN_TCPOPT_EOL \<Longrightarrow> c ! opt \<noteq> OPENVPN_TCPOPT_NOP \<Longrightarrow> l = unat (c ! (opt + 1)) \<Longrightarrow> \<not> (l = 0 \<or> l > olen)
      \<Longrightarrow> mss_at c (opt + l) (olen - l) = mss_at d (opt + l) (olen - l)" for l
    by (rule 1(2)) (use 1(3) in simp_all)
  ultimately show ?case using e by (subst (1 2) mss_at.simps) (simp add: Let_def)
qed

definition clamped :: "u16 \<Rightarrow> bytes \<Rightarrow> nat list \<Rightarrow> bytes \<Rightarrow> bool" where
  "clamped maxmss c ps c' \<longleftrightarrow> length c' = length c
     \<and> (\<forall>i < length c. i \<notin> {16, 17} \<and> (\<forall>p \<in> set ps. i \<notin> {p + 2, p + 3}) \<longrightarrow> c' ! i = c ! i)
     \<and> (\<forall>p \<in> set ps. slice (p + 2) 2 c' = be16 (min (from_be (slice (p + 2) 2 c)) maxmss))
     \<and> ((\<forall>p \<in> set ps. even p) \<longrightarrow> ocsum c' mod 65535 = ocsum c mod 65535)"

lemma base256:
  fixes a b c d :: int
  assumes "256 * a + b = 256 * c + d" "0 \<le> b" "0 \<le> d" "b < 256" "d < 256"
  shows "a = c" "b = d"
proof -
  show "a = c" using arg_cong [OF assms(1), of "\<lambda>z. z div 256"] assms(2-5) by (simp add: div_pos_pos_trivial)
  with assms(1) show "b = d" by simp
qed

lemma from_be_slice2: "k + 2 \<le> length c \<Longrightarrow> be16 (from_be (slice k 2 c)) = slice k 2 c"
proof -
  assume k: "k + 2 \<le> length c"
  obtain x y where xy: "be16 (from_be [c ! k, c ! Suc k]) = [x, y]" "uint (from_be [c ! k, c ! Suc k] :: u16) = 256 * uint x + uint y"
    by (rule be16_bytes)
  have "256 * uint (c ! k) + uint (c ! Suc k) = 256 * uint x + uint y" using xy(2) by (simp add: uint_from_be2)
  moreover have "uint (c ! Suc k) < 256" "uint y < 256" "0 \<le> uint (c ! Suc k)" "0 \<le> uint y" using uint_lt2p [of "c ! Suc k"] uint_lt2p [of y] by simp_all
  ultimately have "uint (c ! k) = uint x" "uint (c ! Suc k) = uint y"
    using base256 by blast+
  then show ?thesis using xy(1) slice2 [OF k] by (simp flip: word_uint_eq_iff)
qed

lemma sum_shift:
  fixes s a d e k n :: int
  assumes "n mod 65535 = (k + 256 * (a - d)) mod 65535" "(256 * a) mod 65535 = x mod 65535" "(256 * d) mod 65535 = y mod 65535"
  shows "(s - x + y - k + n) mod 65535 = s mod 65535"
proof -
  obtain u v w where "n - (k + 256 * (a - d)) = 65535 * u" "256 * a - x = 65535 * v" "256 * d - y = 65535 * w"
    using assms by (auto simp: mod_eq_dvd_iff elim!: dvdE)
  then have "s - x + y - k + n - s = 65535 * (u + v - w)" by (simp add: algebra_simps)
  then show ?thesis unfolding mod_eq_dvd_iff by (rule dvdI)
qed

lemma word_diff_small: "\<bar>uint (x :: u16) - uint (y :: u16)\<bar> < 2 ^ 30"
proof -
  have "0 \<le> uint x" "uint x < 65536" "0 \<le> uint y" "uint y < 65536" using uint_lt2p [of x] uint_lt2p [of y] by simp_all
  then have "uint x - uint y < 1073741824" "uint y - uint x < 1073741824" by linarith+
  then show ?thesis by (simp add: abs_less_iff)
qed

text \<open>An option that is lowered: the two writes and what the second one adds to the sum.\<close>

lemma clamp_mss_lower:
  assumes "buf_live b" "18 \<le> opt + 2" "opt + 4 \<le> length (buf_content b)"
  defines "v \<equiv> from_be (slice (opt + 2) 2 (buf_content b)) :: u16"
  assumes "maxmss < v"
  obtains b' bs where "clamp_mss maxmss b (int opt) = Some b'" "buf_live b'" "buf_window b' = buf_window b" "length bs = 2"
    "buf_content b' = patch 16 bs (patch (opt + 2) (be16 maxmss) (buf_content b))"
    "\<And>s. (s - uint v + uint maxmss - ocsum (slice 16 2 (patch (opt + 2) (be16 maxmss) (buf_content b))) + ocsum bs) mod 65535 = s mod 65535"
proof -
  let ?c = "buf_content b"
  have r: "hdr_ntohs b (int opt + 2) = Some v" using hdr_bytes_live [OF assms(1), of "opt + 2" 2] assms(3) by (simp add: hdr_ntohs_def add.commute v_def)
  obtain b1 where b1: "hdr_put b (int (opt + 2)) (be16 maxmss) = Some b1" "buf_live b1" "buf_window b1 = buf_window b" "buf_content b1 = patch (opt + 2) (be16 maxmss) ?c"
    using hdr.put_ok [OF assms(1), of "opt + 2" "be16 maxmss"] assms(3) by auto
  have l1: "length (buf_content b1) = length ?c" using b1(4) assms(3) by simp
  let ?acc = "uint (htons v) - uint (htons maxmss)"
  have "\<bar>?acc\<bar> < 2 ^ 30" by (rule word_diff_small)
  then obtain b2 bs where b2: "adjust_member b1 (int 16) ?acc = Some b2" "buf_live b2" "buf_window b2 = buf_window b1" "length bs = 2"
    "buf_content b2 = patch 16 bs (buf_content b1)" "ocsum bs mod 65535 = (ocsum (slice 16 2 (buf_content b1)) + 256 * ?acc) mod 65535"
    using adjust_member_sum [OF b1(2), of 16 ?acc] l1 assms(2,3) by auto
  have "clamp_mss maxmss b (int opt) = Some b2" using assms(5) r b1(1) b2(1) by (simp add: clamp_mss_def add.commute)
  then show thesis using that [of b2 bs] b2(2-5) b1(3,4) sum_shift [OF b2(6) uint_htons uint_htons] by simp
qed

lemma clamp_mss_spec:
  assumes "buf_live b" "18 \<le> opt + 2" "opt + 4 \<le> length (buf_content b)"
  shows "\<exists>b'. clamp_mss maxmss b (int opt) = Some b' \<and> buf_live b' \<and> buf_window b' = buf_window b \<and> clamped maxmss (buf_content b) [opt] (buf_content b')"
proof -
  let ?c = "buf_content b" 
  let ?v = "from_be (slice (opt + 2) 2 ?c) :: u16"
  show ?thesis
  proof (cases "maxmss < ?v")
    case False
    have r: "hdr_ntohs b (int opt + 2) = Some ?v" using hdr_bytes_live [OF assms(1), of "opt + 2" 2] assms(3) by (simp add: hdr_ntohs_def add.commute)
    have "slice (opt + 2) 2 ?c = be16 (min ?v maxmss)" using False from_be_slice2 [of "opt + 2" ?c] assms(3) by (simp add: min_def not_less)
    then show ?thesis using False r assms(1) by (intro exI [of _ b]) (simp add: clamp_mss_def clamped_def)
  next
    case True
    let ?c1 = "patch (opt + 2) (be16 maxmss) ?c"
    obtain b2 bs where b2: "clamp_mss maxmss b (int opt) = Some b2" "buf_live b2" "buf_window b2 = buf_window b" "length bs = 2"
      "buf_content b2 = patch 16 bs ?c1"
      "\<And>s. (s - uint ?v + uint maxmss - ocsum (slice 16 2 ?c1) + ocsum bs) mod 65535 = s mod 65535"
      using clamp_mss_lower [OF assms True] by metis
    let ?c2 = "buf_content b2"
    have l1: "length ?c1 = length ?c" using assms(3) by simp
    have l2: "length ?c2 = length ?c" using b2(4,5) l1 assms(2,3) by simp
    have "slice (opt + 2) 2 ?c2 = slice (opt + 2) 2 ?c1" unfolding b2(5) by (rule slice_patch_other) (use b2(4) l1 assms(2,3) in auto)
    also have "\<dots> = be16 maxmss" using slice_patch_same [of "opt + 2" "be16 maxmss" ?c] assms(3) by simp
    also have "\<dots> = be16 (min ?v maxmss)" using True by (simp add: min_absorb2 less_imp_le)
    finally have sl: "slice (opt + 2) 2 ?c2 = be16 (min ?v maxmss)" .
    have nth: "?c2 ! i = ?c ! i" if "i < length ?c" "i \<notin> {16, 17}" "i \<notin> {opt + 2, opt + 3}" for i
    proof -
      have "?c2 ! i = ?c1 ! i" unfolding b2(5) by (rule nth_patch_other) (use that b2(4) l1 assms(2,3) in auto)
      also have "\<dots> = ?c ! i" by (rule nth_patch_other) (use that assms(3) in auto)
      finally show ?thesis .
    qed
    have sum: "ocsum ?c2 mod 65535 = ocsum ?c mod 65535" if "even opt"
    proof -
      have e: "even (opt + 2)" using that by simp
      have s2: "ocsum ?c2 = ocsum ?c1 - ocsum (slice 16 2 ?c1) + ocsum bs" unfolding b2(5) using ocsum_patch [of 16 bs ?c1] b2(4) l1 assms(2,3) by simp
      have s1: "ocsum ?c1 = ocsum ?c - uint ?v + uint maxmss"
        using ocsum_patch [OF e, of "be16 maxmss" ?c] from_be_slice2 [of "opt + 2" ?c] assms(3) ocsum_be16 [of ?v] by simp
      show ?thesis using b2(6) [of "ocsum ?c"] s1 s2 by simp
    qed
    have "clamped maxmss ?c [opt] ?c2" unfolding clamped_def using l2 sl nth sum by simp
    with b2(1-3) show ?thesis by (intro exI [of _ b2]) simp
  qed
qed

lemma clamped_trans:
  assumes "clamped m c ps d" "clamped m d qs e" "\<And>p q. p \<in> set ps \<Longrightarrow> q \<in> set qs \<Longrightarrow> p + 4 \<le> q"
    "\<And>p. p \<in> set (ps @ qs) \<Longrightarrow> 18 \<le> p + 2 \<and> p + 4 \<le> length c"
  shows "clamped m c (ps @ qs) e"
proof -
  have keep: "slice (p + 2) 2 e = slice (p + 2) 2 d" if "p \<in> set ps" for p
  proof -
    have r: "18 \<le> p + 2" "p + 4 \<le> length c" using assms(4) that by auto
    have "e ! i = d ! i" if i: "i \<in> {p + 2, p + 3}" for i
    proof -
      have "\<forall>q \<in> set qs. i \<notin> {q + 2, q + 3}" using assms(3) [OF \<open>p \<in> set ps\<close>] i by force
      moreover have "i \<notin> {16, 17}" "i < length d" using i r assms(1) by (auto simp: clamped_def)
      ultimately show ?thesis using assms(2) by (simp add: clamped_def)
    qed
    then show ?thesis using r assms(1,2) by (simp add: slice2 clamped_def)
  qed
  have keep': "slice (q + 2) 2 d = slice (q + 2) 2 c" if "q \<in> set qs" for q
  proof -
    have r: "18 \<le> q + 2" "q + 4 \<le> length c" using assms(4) that by auto
    have "d ! i = c ! i" if i: "i \<in> {q + 2, q + 3}" for i
    proof -
      have "\<forall>p \<in> set ps. i \<notin> {p + 2, p + 3}" using assms(3) [OF _ \<open>q \<in> set qs\<close>] i by force
      moreover have "i \<notin> {16, 17}" "i < length c" using i r by auto
      ultimately show ?thesis using assms(1) by (simp add: clamped_def)
    qed
    then show ?thesis using r assms(1) by (simp add: slice2 clamped_def)
  qed
  show ?thesis using assms(1,2) keep keep' unfolding clamped_def by auto
qed

lemma clamped_refl: "clamped m c [] c"
  by (simp add: clamped_def)

lemma clamped_later: "clamped m c [p] d \<Longrightarrow> 18 \<le> p + 2 \<Longrightarrow> p + 4 \<le> i \<Longrightarrow> i < length c \<Longrightarrow> d ! i = c ! i"
  by (simp add: clamped_def)

lemma mss_options_spec:
  assumes "buf_live b" "18 \<le> opt" "opt + olen \<le> length (buf_content b)"
  shows "\<exists>b'. mss_options maxmss b (int opt) (int olen) = Some b' \<and> buf_live b' \<and> buf_window b' = buf_window b
    \<and> clamped maxmss (buf_content b) (mss_at (buf_content b) opt olen) (buf_content b')"
  using assms
proof (induction olen arbitrary: b opt rule: less_induct)
  case (less olen)
  let ?c = "buf_content b"
  note b = less.prems(1)
  show ?case
  proof (cases "olen \<le> 1")
    case True
    then show ?thesis using b by (subst mss_options.simps, subst mss_at.simps) (simp add: clamped_refl)
  next
    case False
    then have k: "hdr_byte b (int opt) = Some (?c ! opt)" "hdr_byte b (int opt + 1) = Some (?c ! (opt + 1))"
      using hdr_byte_live [OF b, of opt] hdr_byte_live [OF b, of "opt + 1"] less.prems(3) by (simp_all add: add.commute)
    obtain l where ul: "unat (?c ! Suc opt) = l" "uint (?c ! Suc opt) = int l" by simp
    consider "?c ! opt = OPENVPN_TCPOPT_EOL" | "?c ! opt \<noteq> OPENVPN_TCPOPT_EOL" "?c ! opt = OPENVPN_TCPOPT_NOP"
      | "?c ! opt \<noteq> OPENVPN_TCPOPT_EOL" "?c ! opt \<noteq> OPENVPN_TCPOPT_NOP" "l = 0 \<or> l > olen"
      | "?c ! opt \<noteq> OPENVPN_TCPOPT_EOL" "?c ! opt \<noteq> OPENVPN_TCPOPT_NOP" "0 < l" "l \<le> olen" by linarith
    then show ?thesis
    proof cases
      case 1
      then show ?thesis using False k b by (subst mss_options.simps, subst mss_at.simps) (simp add: clamped_refl)
    next
      case 2
      have "\<exists>b'. mss_options maxmss b (int (opt + 1)) (int (olen - 1)) = Some b' \<and> buf_live b' \<and> buf_window b' = buf_window b
          \<and> clamped maxmss ?c (mss_at ?c (opt + 1) (olen - 1)) (buf_content b')"
        using less.IH [of "olen - 1" b "opt + 1"] less.prems False by simp
      then show ?thesis using 2 False k by (subst mss_options.simps, subst mss_at.simps) (simp add: of_nat_diff add.commute)
    next
      case 3
      then show ?thesis using False k b ul by (subst mss_options.simps, subst mss_at.simps) (auto simp: clamped_refl Let_def ul)
    next
      case 4
      let ?ps = "if ?c ! opt = OPENVPN_TCPOPT_MAXSEG \<and> l = 4 then [opt] else []"
      obtain b1 where b1: "(if ?c ! opt = OPENVPN_TCPOPT_MAXSEG \<and> int l = OPENVPN_TCPOLEN_MAXSEG then clamp_mss maxmss b (int opt) else Some b) = Some b1"
        "buf_live b1" "buf_window b1 = buf_window b" "clamped maxmss ?c ?ps (buf_content b1)"
      proof (cases "?c ! opt = OPENVPN_TCPOPT_MAXSEG \<and> l = 4")
        case True
        then show thesis using that clamp_mss_spec [OF b, of opt maxmss] less.prems 4 by (auto simp: OPENVPN_TCPOLEN_MAXSEG_def)
      next
        case False
        then have "\<not> (?c ! opt = OPENVPN_TCPOPT_MAXSEG \<and> int l = OPENVPN_TCPOLEN_MAXSEG)" by (simp add: OPENVPN_TCPOLEN_MAXSEG_def)
        with False show thesis using that [of b] b by (simp only: if_False if_not_P clamped_refl)
      qed
      let ?d = "buf_content b1"
      have ld: "length ?d = length ?c" using window_len [OF b b1(2,3)] .
      obtain b2 where b2: "mss_options maxmss b1 (int (opt + l)) (int (olen - l)) = Some b2" "buf_live b2" "buf_window b2 = buf_window b1"
        "clamped maxmss ?d (mss_at ?d (opt + l) (olen - l)) (buf_content b2)"
        using less.IH [of "olen - l" b1 "opt + l"] less.prems 4 b1(2) ld by auto
      have "mss_at ?d (opt + l) (olen - l) = mss_at ?c (opt + l) (olen - l)"
      proof (rule mss_at_cong)
        fix i assume i: "opt + l \<le> i" "i < opt + l + (olen - l)"
        then show "?d ! i = ?c ! i" using b1(4) clamped_later [of maxmss ?c opt ?d i] less.prems 4 by (auto simp: clamped_def split: if_splits)
      qed
      with b2(4) have q: "clamped maxmss ?d (mss_at ?c (opt + l) (olen - l)) (buf_content b2)" by simp
      have "clamped maxmss ?c (?ps @ mss_at ?c (opt + l) (olen - l)) (buf_content b2)"
        by (rule clamped_trans [OF b1(4) q]) (use less.prems 4 in \<open>fastforce dest: mss_at_range split: if_splits\<close>)+
      moreover have "mss_at ?c opt olen = ?ps @ mss_at ?c (opt + l) (olen - l)" using 4 False ul by (subst mss_at.simps) (simp add: Let_def)
      moreover have "mss_options maxmss b (int opt) (int olen) = Some b2"
        using 4 False k b1(1) b2(1) ul by (subst mss_options.simps) (simp add: of_nat_diff)
      ultimately show ?thesis using b2(2,3) b1(3) by (intro exI [of _ b2]) simp
    qed
  qed
qed

definition tcp_mss_options :: "bytes \<Rightarrow> nat list" where
  "tcp_mss_options c =
     (let hlen = nat (OPENVPN_TCPH_GET_DOFF (c ! 12))
      in if length c < 20 \<or> hlen \<le> 20 \<or> hlen > length c then [] else mss_at c 20 (hlen - 20))"

lemma mss_fixup_dowork_spec:
  assumes "buf_live b"
  shows "\<exists>b'. mss_fixup_dowork b maxmss = Some b' \<and> buf_live b' \<and> buf_window b' = buf_window b
    \<and> clamped maxmss (buf_content b) (tcp_mss_options (buf_content b)) (buf_content b')"
proof (cases "length (buf_content b) < 20")
  case True
  then show ?thesis using assms buf_len_live [OF assms] by (simp add: mss_fixup_dowork_def TCPHDR_SIZE_def tcp_mss_options_def clamped_refl)
next
  case False
  let ?c = "buf_content b" 
  let ?h = "OPENVPN_TCPH_GET_DOFF (?c ! 12)"
  have d: "hdr_byte b 12 = Some (?c ! 12)" using hdr_byte_live [OF assms, of 12] False by simp
  have h0: "0 \<le> ?h" by (simp add: OPENVPN_TCPH_GET_DOFF_def)
  show ?thesis
  proof (cases "?h \<le> 20 \<or> ?h > int (length ?c)")
    case True
    then have "tcp_mss_options ?c = []" using h0 by (auto simp: tcp_mss_options_def Let_def)
    then show ?thesis using True False d assms buf_len_live [OF assms] by (simp add: mss_fixup_dowork_def TCPHDR_SIZE_def clamped_refl)
  next
    case ok: False
    then have e: "?h - 20 = int (nat ?h - 20)" "20 + (nat ?h - 20) \<le> length ?c" using h0 by linarith+
    have "tcp_mss_options ?c = mss_at ?c 20 (nat ?h - 20)" using ok False h0 by (auto simp: tcp_mss_options_def Let_def)
    moreover have "mss_fixup_dowork b maxmss = mss_options maxmss b (int 20) (int (nat ?h - 20))"
      using ok False d buf_len_live [OF assms] unfolding e(1) [symmetric] by (simp add: mss_fixup_dowork_def TCPHDR_SIZE_def)
    ultimately show ?thesis using mss_options_spec [OF assms _ e(2), of maxmss] by simp
  qed
qed

text \<open>The effect of a change to the rest of a packet on the whole packet.\<close>

lemma shared_rest:
  assumes "buf_live b" "buf_advance b (int k) = (True, nb)" "k \<le> length (buf_content b)" "buf_live nb'" "buf_window nb' = buf_window nb"
  shows "buf_live (b\<lparr>data := data nb'\<rparr>)" "buf_content (b\<lparr>data := data nb'\<rparr>) = take k (buf_content b) @ buf_content nb'"
    "buf_window (b\<lparr>data := data nb'\<rparr>) = buf_window b"
proof -
  let ?c = "buf_content b"
  obtain pre post where m: "data b = Some (pre @ ?c @ post)" "buf_window b = (capacity b, offset b, len b, Some (pre, post))" "int (length pre) = offset b"
    using live_memory [OF assms(1)] by blast
  have n: "nat (offset b) = length pre" "nat (offset b + int k) = length pre + k" "nat (offset b + len b) = length pre + length ?c" "nat (len b) = length ?c"
    using m(3) len_buf_content [OF assms(1)] by linarith+
  have lc: "len b = int (length ?c)" by (rule len_buf_content [OF assms(1)])
  have nb: "nb = b\<lparr>offset := offset b + int k, len := len b - int k\<rparr>" using assms(2) by (auto simp: buf_advance_def split: if_splits)
  have "buf_window nb = (capacity b, offset b + int k, len b - int k, Some (pre @ take k ?c, post))"
    using assms(3) by (simp add: buf_window_def nb m(1) n)
  moreover obtain pre' post' where m': "data nb' = Some (pre' @ buf_content nb' @ post')" "buf_window nb' = (capacity nb', offset nb', len nb', Some (pre', post'))"
    using live_memory [OF assms(4)] by blast
  ultimately have eq: "capacity nb' = capacity b" "len nb' = len b - int k" "data nb' = Some (pre @ take k ?c @ buf_content nb' @ post)" using assms(5) by simp_all
  have l: "length (buf_content nb') = length ?c - k" using len_buf_content [OF assms(4)] eq(2) lc assms(3) by linarith
  let ?b = "b\<lparr>data := data nb'\<rparr>"
  show "buf_content ?b = take k ?c @ buf_content nb'" unfolding eq(3) using l assms(3)
    by (subst buf_content_def) (simp add: slice_def n)
  show "buf_window ?b = buf_window b" unfolding m(2) eq(3) using l assms(3)
    by (subst buf_window_def) (simp add: n)
  show "buf_live ?b" using assms(1) m(1) eq(3) l assms(3) by (auto simp: buf_live_def buf_wf_def)
qed

definition clamp_segment :: "u16 \<Rightarrow> nat \<Rightarrow> bytes \<Rightarrow> bytes \<Rightarrow> bool" where
  "clamp_segment maxmss h c c' \<longleftrightarrow>
     (if c ! (h + 13) AND OPENVPN_TCPH_SYN_MASK \<noteq> 0
      then take h c' = take h c \<and> clamped maxmss (drop h c) (tcp_mss_options (drop h c)) (drop h c') else c' = c)"

lemma mss_fixup_syn_spec:
  assumes "buf_live b" "h + 20 \<le> length (buf_content b)" "buf_advance b (int h) = (True, nb)"
  shows "\<exists>b'. mss_fixup_syn b nb maxmss = Some b' \<and> buf_live b' \<and> buf_window b' = buf_window b \<and> clamp_segment maxmss h (buf_content b) (buf_content b')"
proof -
  let ?c = "buf_content b"
  have ok: "?c = take h ?c @ drop h ?c" by simp
  from buf_advance_live [OF assms(1) ok] assms(2,3) have nb: "buf_live nb" "buf_content nb = drop h ?c" by auto
  have f: "hdr_byte nb 13 = Some (?c ! (h + 13))" using hdr_byte_live [OF nb(1), of 13] nb(2) assms(2) by simp
  obtain nb' where nb': "mss_fixup_dowork nb maxmss = Some nb'" "buf_live nb'" "buf_window nb' = buf_window nb"
    "clamped maxmss (drop h ?c) (tcp_mss_options (drop h ?c)) (buf_content nb')" using mss_fixup_dowork_spec [OF nb(1), of maxmss] nb(2) by auto
  have hl: "h \<le> length ?c" using assms(2) by simp
  note sh = shared_rest [OF assms(1,3) hl nb'(2,3)]
  show ?thesis
  proof (cases "?c ! (h + 13) AND OPENVPN_TCPH_SYN_MASK \<noteq> 0")
    case True
    then show ?thesis using f nb'(1,4) sh hl by (intro exI [of _ "b\<lparr>data := data nb'\<rparr>"]) (simp add: mss_fixup_syn_def clamp_segment_def)
  next
    case False
    then show ?thesis using f assms(1) by (intro exI [of _ b]) (simp add: mss_fixup_syn_def clamp_segment_def)
  qed
qed

text \<open>The packets whose TCP header is looked at.\<close>

definition whole_ipv4_tcp :: "bytes \<Rightarrow> nat \<Rightarrow> bool" where
  "whole_ipv4_tcp c h \<longleftrightarrow> 20 \<le> length c \<and> int h = OPENVPN_IPH_GET_LEN (c ! 0) \<and> c ! 9 = OPENVPN_IPPROTO_TCP
     \<and> uint (from_be (slice 2 2 c) :: u16) = int (length c) \<and> (from_be (slice 6 2 c) :: u16) AND OPENVPN_IP_OFFMASK = 0 \<and> h + 20 \<le> length c"

lemma mss_fixup_ipv4_spec:
  assumes "buf_live buf"
  shows "\<exists>buf'. mss_fixup_ipv4 buf maxmss = Some buf' \<and> buf_live buf' \<and> buf_window buf' = buf_window buf
    \<and> (if \<exists>h. whole_ipv4_tcp (buf_content buf) h then \<forall>h. whole_ipv4_tcp (buf_content buf) h \<longrightarrow> clamp_segment maxmss h (buf_content buf) (buf_content buf')
        else buf_content buf' = buf_content buf)"
proof (cases "length (buf_content buf) < 20")
  case True
  then show ?thesis using assms buf_len_live [OF assms] by (auto simp: mss_fixup_ipv4_def IPHDR_SIZE_def whole_ipv4_tcp_def)
next
  case False
  let ?c = "buf_content buf"
  have g: "hdr_byte buf 0 = Some (?c ! 0)" "hdr_byte buf 9 = Some (?c ! 9)" "hdr_ntohs buf 2 = Some (from_be (slice 2 2 ?c))"
    "hdr_ntohs buf 6 = Some (from_be (slice 6 2 ?c))"
    using hdr_byte_live [OF assms, of 0] hdr_byte_live [OF assms, of 9] hdr_bytes_live [OF assms, of 2 2] hdr_bytes_live [OF assms, of 6 2] False
    by (fastforce simp: hdr_ntohs_def)+
  obtain h where h: "OPENVPN_IPH_GET_LEN (?c ! 0) = int h" by (metis OPENVPN_IPH_GET_LEN_def nonneg_int_cases push_bit_nonnegative_int_iff uint_ge_0)
  have w: "whole_ipv4_tcp ?c k \<longleftrightarrow> k = h \<and> whole_ipv4_tcp ?c h" for k using h by (auto simp: whole_ipv4_tcp_def)
  have bl: "buf_len buf = int (length ?c)" by (rule buf_len_live [OF assms])
  show ?thesis
  proof (cases "whole_ipv4_tcp ?c h")
    case True
    then have c: "h + 20 \<le> length ?c" by (simp add: whole_ipv4_tcp_def)
    then obtain nb where nb: "buf_advance buf (int h) = (True, nb)" using buf_advance_live [OF assms, of "take h ?c" "drop h ?c" "int h"] by auto
    have t: "?c ! 9 = OPENVPN_IPPROTO_TCP" "uint (from_be (slice 2 2 ?c) :: u16) = int (length ?c)" "(from_be (slice 6 2 ?c) :: u16) AND OPENVPN_IP_OFFMASK = 0"
      using True by (simp_all add: whole_ipv4_tcp_def)
    have "mss_fixup_ipv4 buf maxmss = mss_fixup_syn buf nb maxmss"
      unfolding mss_fixup_ipv4_def IPHDR_SIZE_def TCPHDR_SIZE_def g bl Option.bind.bind_lunit Let_def h nb t(2) using t(1,3) c by simp
    moreover have "\<exists>k. whole_ipv4_tcp ?c k" "\<And>k. whole_ipv4_tcp ?c k \<Longrightarrow> k = h" using True w by blast+
    ultimately show ?thesis using mss_fixup_syn_spec [OF assms c nb, of maxmss] by (metis (no_types, lifting))
  next
    case out: False
    then have "\<not> (?c ! 9 = OPENVPN_IPPROTO_TCP \<and> uint (from_be (slice 2 2 ?c) :: u16) = int (length ?c)
        \<and> (from_be (slice 6 2 ?c) :: u16) AND OPENVPN_IP_OFFMASK = 0 \<and> int h + 20 \<le> int (length ?c))"
      using False h unfolding whole_ipv4_tcp_def by auto
    then have "mss_fixup_ipv4 buf maxmss = Some buf"
      using False g h bl by (auto simp: mss_fixup_ipv4_def IPHDR_SIZE_def TCPHDR_SIZE_def)
    moreover have "\<nexists>k. whole_ipv4_tcp ?c k" using out w by blast
    ultimately show ?thesis using assms by simp
  qed
qed

definition ipv4_tcp :: "bytes \<Rightarrow> nat option" where
  "ipv4_tcp c = (let h = nat (OPENVPN_IPH_GET_LEN (c ! 0)) in if whole_ipv4_tcp c h then Some h else None)"

definition ipv6_tcp :: "bytes \<Rightarrow> nat option" where
  "ipv6_tcp c = (if 60 \<le> length c \<and> uint (from_be (slice 4 2 c) :: u16) + 40 = int (length c) \<and> c ! 6 = OPENVPN_IPPROTO_TCP then Some 40 else None)"

lemma ipv4_tcp_iff: "ipv4_tcp c = Some h \<longleftrightarrow> whole_ipv4_tcp c h"
proof -
  have "whole_ipv4_tcp c h \<Longrightarrow> h = nat (OPENVPN_IPH_GET_LEN (c ! 0))" unfolding whole_ipv4_tcp_def by (metis nat_int)
  then show ?thesis by (auto simp: ipv4_tcp_def Let_def)
qed

definition mss_result :: "u16 \<Rightarrow> nat option \<Rightarrow> buffer \<Rightarrow> buffer option \<Rightarrow> bool" where
  "mss_result maxmss tcp buf r \<longleftrightarrow> (\<exists>buf'. r = Some buf' \<and> buf_live buf' \<and> buf_window buf' = buf_window buf
     \<and> (case tcp of None \<Rightarrow> buf_content buf' = buf_content buf | Some h \<Rightarrow> clamp_segment maxmss h (buf_content buf) (buf_content buf')))"

lemma mss_fixup_ipv6_spec:
  assumes "buf_live buf"
  shows "mss_result (maxmss - 20) (ipv6_tcp (buf_content buf)) buf (mss_fixup_ipv6 buf maxmss)"
proof (cases "length (buf_content buf) < 40")
  case True
  then show ?thesis using assms buf_len_live [OF assms] by (simp add: mss_fixup_ipv6_def IPV6HDR_SIZE_def ipv6_tcp_def mss_result_def)
next
  case False
  let ?c = "buf_content buf"
  have bl: "buf_len buf = int (length ?c)" by (rule buf_len_live [OF assms])
  have g: "hdr_byte buf 6 = Some (?c ! 6)" "hdr_ntohs buf 4 = Some (from_be (slice 4 2 ?c))"
    using hdr_byte_live [OF assms, of 6] hdr_bytes_live [OF assms, of 4 2] False by (simp_all add: hdr_ntohs_def)
  obtain nb where nb: "buf_advance buf 40 = (True, nb)" "buf_live nb" "buf_content nb = drop 40 ?c"
    using buf_advance_live [OF assms, of "take 40 ?c" "drop 40 ?c" 40] False by auto
  have nl: "buf_len nb = int (length ?c - 40)" using buf_len_live [OF nb(2)] nb(3) by simp
  show ?thesis
  proof (cases "ipv6_tcp ?c")
    case None
    have "mss_fixup_ipv6 buf maxmss = Some buf"
      using None g bl nb(1) nl False by (auto simp: mss_fixup_ipv6_def IPV6HDR_SIZE_def TCPHDR_SIZE_def ipv6_tcp_def split: if_splits)
    then show ?thesis using None assms by (simp add: mss_result_def)
  next
    case (Some h)
    then have c: "h = 40" "60 \<le> length ?c" "uint (from_be (slice 4 2 ?c) :: u16) + 40 = int (length ?c)" "?c ! 6 = OPENVPN_IPPROTO_TCP"
      by (auto simp: ipv6_tcp_def split: if_splits)
    have "mss_fixup_ipv6 buf maxmss = mss_fixup_syn buf nb (maxmss - 20)"
      unfolding mss_fixup_ipv6_def IPV6HDR_SIZE_def TCPHDR_SIZE_def g bl nb(1) using c nl by simp
    moreover have "h + 20 \<le> length ?c" "buf_advance buf (int h) = (True, nb)" using c nb(1) by simp_all
    ultimately show ?thesis using mss_fixup_syn_spec [OF assms, of h nb "maxmss - 20"] Some by (auto simp: mss_result_def)
  qed
qed


text \<open>An IPv4 SYN packet of 44 bytes with an MSS option of 1460.\<close>

definition syn_packet :: bytes where
  "syn_packet = [0x45, 0, 0, 44, 0, 1, 0, 0, 64, 6, 0, 0, 10, 0, 0, 1, 10, 0, 0, 2,
     0x30, 0x39, 0, 80, 0, 0, 0, 1, 0, 0, 0, 0, 0x60, 2, 0xff, 0xff, 0x12, 0x34, 0, 0, 2, 4, 5, 180]"

definition packet_buf :: "bytes \<Rightarrow> buffer" where
  "packet_buf bs = \<lparr>capacity = int (length bs), offset = 0, len = int (length bs), data = Some bs\<rparr>"

lemma packet_buf_live: "int (length bs) < BUF_SIZE_MAX \<Longrightarrow> buf_live (packet_buf bs)" "buf_content (packet_buf bs) = bs"
  by (simp_all add: packet_buf_def buf_live_def buf_wf_def buf_content_def slice_def)


section \<open>MSS options at odd distances\<close>

lemma ocsum_update: "i < length c \<Longrightarrow> ocsum (c[i := x]) = ocsum c + (if even i then 256 else 1) * (uint x - uint (c ! i))"
proof (induction c arbitrary: i rule: ocsum.induct)
  case (3 a b c)
  consider "i = 0" | "i = 1" | j where "i = j + 2" by (metis One_nat_def add_2_eq_Suc' nat.exhaust)
  then show ?case using 3 by cases auto
qed auto

lemma patch2: "k + 2 \<le> length c \<Longrightarrow> patch k [x, y] c = c[k := x, Suc k := y]"
  by (simp add: patch_def upd_conv_take_nth_drop take_Suc_conv_app_nth)

text \<open>C33: An MSS option at an odd distance (behind a single no-operation option, say) breaks the TCP checksum: the bytes of the option then lie in different
  halves of two 16-bit words, but the checksum is adjusted as if they formed one word. After lowering the value the sum of the segment is still right exactly in the
  accidental case that the differences of high and low byte of the old and the new value agree modulo 257.\<close>

theorem mss_odd_option_flaw:
  assumes "buf_live b" "odd opt" "20 \<le> opt" "opt + 4 \<le> length (buf_content b)" "v = from_be (slice (opt + 2) 2 (buf_content b))" "maxmss < v"
  shows "\<exists>b'. clamp_mss maxmss b (int opt) = Some b' \<and> slice (opt + 2) 2 (buf_content b') = be16 maxmss
    \<and> (ocsum (buf_content b') mod 65535 = ocsum (buf_content b) mod 65535
       \<longleftrightarrow> 257 dvd (uint v div 256 - uint v mod 256) - (uint maxmss div 256 - uint maxmss mod 256))"
proof -
  let ?c = "buf_content b" and ?c1 = "patch (opt + 2) (be16 maxmss) (buf_content b)"
  obtain b' bs where b': "clamp_mss maxmss b (int opt) = Some b'" "buf_live b'" "length bs = 2" "buf_content b' = patch 16 bs ?c1"
    "\<And>s. (s - uint v + uint maxmss - ocsum (slice 16 2 ?c1) + ocsum bs) mod 65535 = s mod 65535"
  proof -
    have "18 \<le> opt + 2" "maxmss < from_be (slice (opt + 2) 2 ?c)" using assms(3,5,6) by simp_all
    from clamp_mss_lower [OF assms(1) this(1) assms(4) this(2)] show thesis using that unfolding assms(5) by metis
  qed
  have l1: "length ?c1 = length ?c" using assms(4) by simp
  obtain x y where m: "be16 maxmss = [x, y]" "uint maxmss = 256 * uint x + uint y" by (rule be16_bytes)
  let ?p = "?c ! (opt + 2)" and ?q = "?c ! (opt + 3)"
  have s: "slice (opt + 2) 2 ?c = [?p, ?q]" using slice2 [of "opt + 2" ?c] assms(4) by (simp add: numeral_3_eq_3)
  have v: "uint v = 256 * uint ?p + uint ?q" unfolding assms(5) s by (rule uint_from_be2)
  have hl: "uint w div 256 = uint u \<and> uint w mod 256 = uint z" if "uint w = 256 * uint u + uint z" for w :: u16 and u z :: u8
  proof -
    have "0 \<le> uint z" "uint z < 256" using uint_lt2p [of z] by simp_all
    with that show ?thesis by (simp add: div_pos_pos_trivial mod_pos_pos_trivial)
  qed
  have "ocsum ?c1 = ocsum ?c + (uint x - uint ?p) + 256 * (uint y - uint ?q)"
    using assms(2,4) by (simp add: m(1) patch2 ocsum_update numeral_3_eq_3)
  moreover have "ocsum (buf_content b') = ocsum ?c1 - ocsum (slice 16 2 ?c1) + ocsum bs" unfolding b'(4) using ocsum_patch [of 16 bs ?c1] b'(3) l1 assms(3,4) by simp
  ultimately have "ocsum (buf_content b') = (ocsum ?c1 + uint v - uint maxmss) - uint v + uint maxmss - ocsum (slice 16 2 ?c1) + ocsum bs" by simp
  then have "ocsum (buf_content b') mod 65535 = (ocsum ?c1 + uint v - uint maxmss) mod 65535" by (simp only: b'(5))
  also have "ocsum ?c1 + uint v - uint maxmss = ocsum ?c + 255 * ((uint ?p - uint ?q) - (uint x - uint y))"
    using \<open>ocsum ?c1 = _\<close> v m(2) by (simp add: algebra_simps)
  finally have "ocsum (buf_content b') mod 65535 = ocsum ?c mod 65535 \<longleftrightarrow> 65535 dvd 255 * ((uint ?p - uint ?q) - (uint x - uint y))"
    using mod_eq_dvd_iff [of "ocsum ?c + 255 * ((uint ?p - uint ?q) - (uint x - uint y))" 65535 "ocsum ?c"] by simp
  also have "\<dots> \<longleftrightarrow> 257 dvd (uint ?p - uint ?q) - (uint x - uint y)" using dvd_mult_cancel_left [of 255 257 "(uint ?p - uint ?q) - (uint x - uint y)"] by simp
  finally have "ocsum (buf_content b') mod 65535 = ocsum ?c mod 65535 \<longleftrightarrow> 257 dvd (uint v div 256 - uint v mod 256) - (uint maxmss div 256 - uint maxmss mod 256)"
    using hl [OF v] hl [OF m(2)] by simp
  moreover have "slice (opt + 2) 2 (buf_content b') = be16 maxmss"
    unfolding b'(4) using slice_patch_other [of "opt + 2" 2 16 bs ?c1] slice_patch_same [of "opt + 2" "be16 maxmss" ?c] b'(3) l1 assms(3,4) by simp
  ultimately show ?thesis using b'(1) by blast
qed

theorem mss_odd_option_flaw_witness:
  "\<exists>b'. clamp_mss 1400 (packet_buf (drop 20 syn_packet @ [1] @ [2, 4, 5, 180] @ [0, 0, 0])) 25 = Some b' \<and> slice 27 2 (buf_content b') = be16 1400
     \<and> ocsum (buf_content b') mod 65535 \<noteq> ocsum (drop 20 syn_packet @ [1] @ [2, 4, 5, 180] @ [0, 0, 0]) mod 65535"
proof -
  let ?c = "drop 20 syn_packet @ [1] @ [2, 4, 5, 180] @ [0, 0, 0]"
  have l: "buf_live (packet_buf ?c)" by (rule packet_buf_live) (simp add: syn_packet_def BUF_SIZE_MAX_def)
  have v: "1460 = (from_be (slice (25 + 2) 2 (buf_content (packet_buf ?c))) :: u16)" unfolding packet_buf_live(2) by code_simp
  have n: "25 + 4 \<le> length (buf_content (packet_buf ?c))" unfolding packet_buf_live(2) by code_simp
  have "\<not> 257 dvd (uint (1460 :: u16) div 256 - uint (1460 :: u16) mod 256) - (uint (1400 :: u16) div 256 - uint (1400 :: u16) mod 256)" by simp
  with mss_odd_option_flaw [OF l _ _ n v, of 1400] show ?thesis by (auto simp: packet_buf_live(2))
qed

end
