(* ===== verification/Client_Nat.thy ===== *)
theory Client_Nat
  imports Mss_Fixup
begin

text \<open>
  Address translation on the client (\<^verbatim>\<open>clinat.c\<close>): the loop over the rules implements first-match translation of each address, the checksums stay valid, and answers
  find their way back.
\<close>

section \<open>Address translation\<close>

definition halves :: "u32 \<Rightarrow> int" where
  "halves w = uint (w AND 0xffff) + uint (drop_bit 16 w)"

lemma bit_u8: "8 \<le> m \<Longrightarrow> \<not> bit (x :: u8) m"
  by (auto dest: bit_imp_le_length)

lemma be32_from_be: "be32 (from_be [a, b, c, d] :: u32) = [a, b, c, d]"
  by (auto simp: be32_def from_be_def intro!: bit_word_eqI simp: bit_simps bit_u8)

lemma be32_halves:
  obtains b0 b1 b2 b3 where "rev (be32 w) = [b0, b1, b2, b3]" "halves w = uint b0 + 256 * uint b1 + (uint b2 + 256 * uint b3)"
proof -
  have m: "w AND 0xffff = take_bit 16 w" using take_bit_eq_mask [of 16 w] by (simp add: mask_eq_exp_minus_1)
  have lo: "uint (w AND 0xffff) = uint (ucast w :: u16)" unfolding m by (simp add: unsigned_take_bit_eq unsigned_ucast_eq)
  have hi: "uint (drop_bit 16 w) = uint (ucast (drop_bit 16 w) :: u16)"
  proof -
    have "uint (drop_bit 16 w) < 65536" 
      using uint_lt2p [of w] by (subst unsigned_drop_bit_eq) (simp add: drop_bit_eq_div take_bit_int_eq_self div_less_iff_less_mult)
    then show ?thesis by (simp add: unsigned_ucast_eq take_bit_int_eq_self)
  qed
  obtain x y where xy: "be16 (ucast w) = [x, y]" "uint (ucast w :: u16) = 256 * uint x + uint y" by (rule be16_bytes)
  obtain u v where uv: "be16 (ucast (drop_bit 16 w)) = [u, v]" "uint (ucast (drop_bit 16 w) :: u16) = 256 * uint u + uint v" by (rule be16_bytes)
  have "be32 w = be16 (ucast (drop_bit 16 w)) @ be16 (ucast w)"
    by (auto simp: be32_def be16_def intro!: bit_word_eqI simp: bit_simps)
  then have "rev (be32 w) = [y, x, v, u]" using xy(1) uv(1) by simp
  with that show thesis using lo hi xy(2) uv(2) by (simp add: halves_def)
qed

lemma ocsum_raw32: "ocsum (rev (be32 w)) mod 65535 = (256 * halves w) mod 65535"
proof (rule be32_halves [of w])
  fix b0 b1 b2 b3 assume b: "rev (be32 w) = [b0, b1, b2, b3]" "halves w = uint b0 + 256 * uint b1 + (uint b2 + 256 * uint b3)"
  have "256 * halves w - ocsum (rev (be32 w)) = 65535 * (uint b1 + uint b3)" unfolding b by (simp add: algebra_simps)
  then show ?thesis using mod_eq_dvd_iff [of "256 * halves w" 65535 "ocsum (rev (be32 w))"] by simp
qed

lemma halves_range: "0 \<le> halves w" "halves w \<le> 131070"
proof -
  show "0 \<le> halves w" by (simp add: halves_def)
  show "halves w \<le> 131070"
  proof (rule be32_halves [of w])
    fix b0 b1 b2 b3 :: u8 assume "halves w = uint b0 + 256 * uint b1 + (uint b2 + 256 * uint b3)"
    moreover have "uint b0 \<le> 255" "uint b1 \<le> 255" "uint b2 \<le> 255" "uint b3 \<le> 255"
      using uint_lt2p [of b0] uint_lt2p [of b1] uint_lt2p [of b2] uint_lt2p [of b3] by simp_all
    ultimately show ?thesis by linarith
  qed
qed

text \<open>The address at a distance, and the translation of an address: by the first rule that looks at it and matches.\<close>

definition addr_at :: "nat \<Rightarrow> bytes \<Rightarrow> u32" where
  "addr_at k c = from_be (rev (slice k 4 c))"

definition rule_from :: "int \<Rightarrow> client_nat_entry \<Rightarrow> u32" where
  "rule_from direction e = (if direction \<noteq> 0 then cn_foreign_network e else cn_network e)"

definition rule_to :: "int \<Rightarrow> client_nat_entry \<Rightarrow> u32" where
  "rule_to direction e = (if direction \<noteq> 0 then cn_network e else cn_foreign_network e)"

definition rule_pos :: "int \<Rightarrow> client_nat_entry \<Rightarrow> nat" where
  "rule_pos direction e = (if cn_type e \<noteq> direction then 16 else 12)"

definition rule_matches :: "int \<Rightarrow> nat \<Rightarrow> u32 \<Rightarrow> client_nat_entry \<Rightarrow> bool" where
  "rule_matches direction k addr e \<longleftrightarrow> rule_pos direction e = k \<and> addr AND cn_netmask e = rule_from direction e"

definition translate :: "client_nat_entry list \<Rightarrow> int \<Rightarrow> nat \<Rightarrow> u32 \<Rightarrow> u32" where
  "translate es direction k addr =
     (case find (rule_matches direction k addr) es of None \<Rightarrow> addr
      | Some e \<Rightarrow> (addr AND NOT (cn_netmask e)) OR rule_to direction e)"

lemma slice_addr:
  assumes "k + 4 \<le> length c"
  shows "slice k 4 c = rev (be32 (addr_at k c))"
proof -
  have "length (slice k 4 c) = 4" using assms by simp
  then obtain a b d e where s: "slice k 4 c = [a, b, d, e]" by (auto simp: length_Suc_conv numeral_eq_Suc)
  show ?thesis unfolding addr_at_def s by (simp add: be32_from_be)
qed

text \<open>
  The state of the loop: the marks \<open>alog\<close> say which addresses are translated, and the accumulator is the difference of the sums of the
  addresses, in the byte order of the machine.
\<close>

definition nat_state :: "bytes \<Rightarrow> buffer \<Rightarrow> int \<Rightarrow> bool \<Rightarrow> bool \<Rightarrow> bool" where
  "nat_state c buf acc s d \<longleftrightarrow> buf_live buf \<and> length (buf_content buf) = length c
     \<and> take 12 (buf_content buf) = take 12 c \<and> drop 20 (buf_content buf) = drop 20 c
     \<and> acc = halves (addr_at 12 c) + halves (addr_at 16 c) - halves (addr_at 12 (buf_content buf)) - halves (addr_at 16 (buf_content buf))
     \<and> (\<not> s \<longrightarrow> addr_at 12 (buf_content buf) = addr_at 12 c) \<and> (\<not> d \<longrightarrow> addr_at 16 (buf_content buf) = addr_at 16 c)"

lemma hdr_raw32_live: "buf_live b \<Longrightarrow> k + 4 \<le> length (buf_content b) \<Longrightarrow> hdr_raw32 b (int k) = Some (addr_at k (buf_content b))"
  using hdr_bytes_live [of b k 4] by (simp add: hdr_raw32_def addr_at_def)

lemma addr_at_patch:
  assumes "k + 4 \<le> length c"
  shows "addr_at k (patch k (rev (be32 w)) c) = w"
  using slice_patch_same [of k "rev (be32 w)" c] assms by (simp add: addr_at_def)

lemma addr_at_patch_other:
  assumes "j + 4 \<le> k \<or> k + 4 \<le> j" "k + 4 \<le> length c"
  shows "addr_at j (patch k (rev (be32 w)) c) = addr_at j c"
  using slice_patch_other [of j 4 k "rev (be32 w)" c] assms by (simp add: addr_at_def)

definition alog_of :: "bool \<Rightarrow> bool \<Rightarrow> int" where
  "alog_of s d = (if s then 1 else 0) + (if d then 2 else 0)"

lemma alog_bits:
  "1 AND alog_of s d = 0 \<longleftrightarrow> \<not> s" "2 AND alog_of s d = 0 \<longleftrightarrow> \<not> d" "alog_of s d OR 1 = alog_of True d" "alog_of s d OR 2 = alog_of s True"
  "alog_of s d = 0 \<longleftrightarrow> \<not> s \<and> \<not> d" "alog_of False False = 0"
  by (cases s; cases d; simp add: alog_of_def)+

lemma nat_rule_spec:
  fixes e :: client_nat_entry and direction :: int
  assumes "nat_state c buf acc s d" "20 \<le> length c"
  defines "k \<equiv> rule_pos direction e"
  defines "hit \<equiv> rule_matches direction k (addr_at k (buf_content buf)) e \<and> \<not> (if k = 12 then s else d)"
  shows "\<exists>buf' acc'. nat_rule direction e (buf, acc, alog_of s d) = Some (buf', acc', alog_of (s \<or> hit \<and> k = 12) (d \<or> hit \<and> k = 16))
    \<and> nat_state c buf' acc' (s \<or> hit \<and> k = 12) (d \<or> hit \<and> k = 16) \<and> buf_window buf' = buf_window buf
    \<and> (\<forall>j \<in> {12, 16}. addr_at j (buf_content buf')
         = (if hit \<and> j = k then (addr_at j (buf_content buf) AND NOT (cn_netmask e)) OR rule_to direction e else addr_at j (buf_content buf)))"
proof -
  let ?b = "buf_content buf"
  note st = assms(1) [unfolded nat_state_def]
  have kk: "k = 12 \<or> k = 16" by (simp add: k_def rule_pos_def)
  have le: "k + 4 \<le> length ?b" using kk st assms(2) by auto
  have r: "hdr_raw32 buf (int k) = Some (addr_at k ?b)" using hdr_raw32_live le st by blast
  let ?a = "addr_at k ?b" 
  let ?n = "(?a AND NOT (cn_netmask e)) OR rule_to direction e"
  have mask: "(if k = 12 then 1 else 2) AND alog_of s d = 0 \<longleftrightarrow> \<not> (if k = 12 then s else d)" by (simp add: alog_bits)
  have unf: "nat_rule direction e (buf, acc, alog_of s d) =
      (if hit then do { buf \<leftarrow> hdr_put buf (int k) (rev (be32 ?n)); Some (buf, SUB_CHECKSUM_32 (ADD_CHECKSUM_32 acc ?a) ?n, alog_of s d OR (if k = 12 then 1 else 2)) }
       else Some (buf, acc, alog_of s d))"
    using r mask unfolding nat_rule_def hit_def rule_matches_def rule_from_def rule_to_def k_def rule_pos_def
    by (cases "cn_type e = direction"; cases "direction = 0") (simp_all add: Let_def)
  show ?thesis
  proof (cases hit)
    case False
    then show ?thesis using unf assms(1) by (intro exI [of _ buf] exI [of _ acc]) simp
  next
    case True
    obtain b' where b': "hdr_put buf (int k) (rev (be32 ?n)) = Some b'" "buf_live b'" "buf_window b' = buf_window buf" "buf_content b' = patch k (rev (be32 ?n)) ?b"
      using hdr.put_ok [of buf k "rev (be32 ?n)"] le st by auto
    let ?acc = "acc + halves ?a - halves ?n"
    have acc: "SUB_CHECKSUM_32 (ADD_CHECKSUM_32 acc ?a) ?n = ?acc" by (simp add: SUB_CHECKSUM_32_def ADD_CHECKSUM_32_def halves_def)
    have al: "alog_of s d OR (if k = 12 then 1 else 2) = alog_of (s \<or> k = 12) (d \<or> k = 16)" using kk by (auto simp: alog_bits)
    have call: "nat_rule direction e (buf, acc, alog_of s d) = Some (b', ?acc, alog_of (s \<or> k = 12) (d \<or> k = 16))" using unf True b'(1) acc al by simp
    have same: "addr_at k (buf_content b') = ?n" unfolding b'(4) using addr_at_patch [OF le] .
    have other: "j \<in> {12, 16} \<Longrightarrow> j \<noteq> k \<Longrightarrow> addr_at j (buf_content b') = addr_at j ?b" for j
      unfolding b'(4) by (rule addr_at_patch_other) (use kk le in auto)
    have "take 12 (buf_content b') = take 12 ?b" "drop 20 (buf_content b') = drop 20 ?b" unfolding b'(4) using kk le by (auto simp: patch_def)
    moreover have "length (buf_content b') = length ?b" unfolding b'(4) using le by simp
    ultimately have "nat_state c b' ?acc (s \<or> k = 12) (d \<or> k = 16)" using st b'(2) same other kk unfolding nat_state_def by auto
    with call True b'(3) same other kk show ?thesis by (intro exI [of _ b'] exI [of _ ?acc]) auto
  qed
qed

lemma nat_rules_spec:
  assumes "nat_state c buf acc s d" "20 \<le> length c"
  shows "\<exists>buf' acc' s' d'. nat_rules direction es (buf, acc, alog_of s d) = Some (buf', acc', alog_of s' d') \<and> nat_state c buf' acc' s' d'
    \<and> buf_window buf' = buf_window buf
    \<and> addr_at 12 (buf_content buf') = (if s then addr_at 12 (buf_content buf) else translate es direction 12 (addr_at 12 (buf_content buf)))
    \<and> addr_at 16 (buf_content buf') = (if d then addr_at 16 (buf_content buf) else translate es direction 16 (addr_at 16 (buf_content buf)))"
  using assms(1)
proof (induction es arbitrary: buf acc s d)
  case Nil
  then show ?case by (intro exI [of _ buf] exI [of _ acc] exI [of _ s] exI [of _ d]) (simp add: translate_def)
next
  case (Cons e es)
  let ?b = "buf_content buf" 
  let ?k = "rule_pos direction e"
  define hit where "hit = (rule_matches direction ?k (addr_at ?k ?b) e \<and> \<not> (if ?k = 12 then s else d))"
  let ?s = "s \<or> hit \<and> ?k = 12" and ?d = "d \<or> hit \<and> ?k = 16"
  let ?r = "\<lambda>j. if hit \<and> j = ?k then (addr_at j ?b AND NOT (cn_netmask e)) OR rule_to direction e else addr_at j ?b"
  obtain b1 a1 where b1: "nat_rule direction e (buf, acc, alog_of s d) = Some (b1, a1, alog_of ?s ?d)" "nat_state c b1 a1 ?s ?d" "buf_window b1 = buf_window buf"
    "addr_at 12 (buf_content b1) = ?r 12" "addr_at 16 (buf_content b1) = ?r 16"
    using nat_rule_spec [OF Cons.prems assms(2), of direction e] unfolding hit_def [symmetric] by auto
  obtain b2 a2 s2 d2 where b2: "nat_rules direction es (b1, a1, alog_of ?s ?d) = Some (b2, a2, alog_of s2 d2)" "nat_state c b2 a2 s2 d2" "buf_window b2 = buf_window b1"
    "addr_at 12 (buf_content b2) = (if ?s then addr_at 12 (buf_content b1) else translate es direction 12 (addr_at 12 (buf_content b1)))"
    "addr_at 16 (buf_content b2) = (if ?d then addr_at 16 (buf_content b1) else translate es direction 16 (addr_at 16 (buf_content b1)))"
    using Cons.IH [OF b1(2)] by blast
  have "addr_at 12 (buf_content b2) = (if s then addr_at 12 ?b else translate (e # es) direction 12 (addr_at 12 ?b))"
    using b2(4) b1(4) by (auto simp: hit_def translate_def rule_matches_def)
  moreover have "addr_at 16 (buf_content b2) = (if d then addr_at 16 ?b else translate (e # es) direction 16 (addr_at 16 ?b))"
    using b2(5) b1(5) by (auto simp: hit_def translate_def rule_matches_def)
  ultimately show ?case using b1(1,3) b2(1-3) by auto
qed

lemma slice_eq_drop: "slice 12 8 c = slice 12 4 c @ slice 16 4 c"
  using slice_append_slice [of 12 4 c 4] by simp

lemma ocsum_addrs:
  assumes "20 \<le> length c"
  shows "ocsum (slice 12 8 c) mod 65535 = (256 * (halves (addr_at 12 c) + halves (addr_at 16 c))) mod 65535"
proof -
  have "ocsum (slice 12 8 c) = ocsum (rev (be32 (addr_at 12 c))) + ocsum (rev (be32 (addr_at 16 c)))"
    unfolding slice_eq_drop using assms slice_addr [of 12 c] slice_addr [of 16 c] ocsum_append [of "rev (be32 (addr_at 12 c))"] by simp
  then show ?thesis using mod_add_cong [OF ocsum_raw32 [of "addr_at 12 c"] ocsum_raw32 [of "addr_at 16 c"]] by (simp add: distrib_left)
qed

lemma ocsum_header: "20 \<le> length c \<Longrightarrow> ocsum (take 20 c) = ocsum (take 12 c) + ocsum (slice 12 8 c)"
proof -
  assume "20 \<le> length c"
  moreover have "take 20 c = take 12 c @ slice 12 8 c" by (simp add: slice_def flip: take_add)
  ultimately show ?thesis using ocsum_append [of "take 12 c" "slice 12 8 c"] by simp
qed

text \<open>What is preserved: the sum of the IP header, and with the pseudo header that of the transport segment.\<close>

definition transport_sum :: "bytes \<Rightarrow> int" where
  "transport_sum c = ocsum (slice 12 8 c) + ocsum (drop 20 c)"

definition has_transport :: "bytes \<Rightarrow> bool" where
  "has_transport c \<longleftrightarrow> c ! 9 = OPENVPN_IPPROTO_TCP \<and> 40 \<le> length c \<or> c ! 9 = OPENVPN_IPPROTO_UDP \<and> 28 \<le> length c"

lemma take_patch: "k + length bs \<le> n \<Longrightarrow> n \<le> length c \<Longrightarrow> take n (patch k bs c) = patch k bs (take n c)"
  by (simp add: patch_def min_absorb1 min_absorb2 drop_take)

lemma drop_patch: "n \<le> k \<Longrightarrow> k + length bs \<le> length c \<Longrightarrow> drop n (patch k bs c) = patch (k - n) bs (drop n c)"
  by (simp add: patch_def drop_take)

lemma drop_patch_later: "k + length bs \<le> n \<Longrightarrow> k + length bs \<le> length c \<Longrightarrow> drop n (patch k bs c) = drop n c"
  by (simp add: patch_def)

lemma take_patch_before: "n \<le> k \<Longrightarrow> k \<le> length c \<Longrightarrow> take n (patch k bs c) = take n c"
  by (simp add: patch_def min_def)

lemma patch_sum:
  assumes "even k" "length bs = 2" "k + 2 \<le> length c" "ocsum bs mod 65535 = (ocsum (slice k 2 c) + t) mod 65535"
  shows "ocsum (patch k bs c) mod 65535 = (ocsum c + t) mod 65535"
proof -
  have "ocsum (patch k bs c) = (ocsum c - ocsum (slice k 2 c)) + ocsum bs" using ocsum_patch [of k bs c] assms(1-3) by simp
  also have "\<dots> mod 65535 = ((ocsum c - ocsum (slice k 2 c)) + (ocsum (slice k 2 c) + t)) mod 65535" by (rule mod_add_cong [OF refl assms(4)])
  finally show ?thesis by simp
qed

lemma nat_state_sums:
  assumes "nat_state c buf acc s d" "20 \<le> length c"
  defines "B \<equiv> buf_content buf"
  shows "\<bar>acc\<bar> < 2 ^ 30" "ocsum (slice 12 8 B) mod 65535 = (ocsum (slice 12 8 c) - 256 * acc) mod 65535"
    "ocsum (take 20 B) mod 65535 = (ocsum (take 20 c) - 256 * acc) mod 65535" "\<not> s \<Longrightarrow> \<not> d \<Longrightarrow> B = c"
proof -
  note st = assms(1) [unfolded nat_state_def, folded B_def]
  have l: "20 \<le> length B" using st assms(2) by simp
  have acc: "acc = halves (addr_at 12 c) + halves (addr_at 16 c) - halves (addr_at 12 B) - halves (addr_at 16 B)" using st by blast
  have "acc < 1073741824" "- acc < 1073741824" unfolding acc
    using halves_range [of "addr_at 12 c"] halves_range [of "addr_at 16 c"] halves_range [of "addr_at 12 B"] halves_range [of "addr_at 16 B"] by linarith+
  then show "\<bar>acc\<bar> < 2 ^ 30" by (simp add: abs_less_iff)
  have "ocsum (slice 12 8 B) mod 65535 = (256 * (halves (addr_at 12 c) + halves (addr_at 16 c)) - 256 * acc) mod 65535"
    using ocsum_addrs [OF l] unfolding acc by (simp add: algebra_simps)
  also have "\<dots> = (ocsum (slice 12 8 c) - 256 * acc) mod 65535" by (rule mod_diff_cong [OF ocsum_addrs [OF assms(2), symmetric] refl])
  finally show a: "ocsum (slice 12 8 B) mod 65535 = (ocsum (slice 12 8 c) - 256 * acc) mod 65535" .
  have "ocsum (take 20 B) mod 65535 = (ocsum (take 12 c) + ocsum (slice 12 8 B)) mod 65535" using ocsum_header [OF l] st by simp
  also have "\<dots> = (ocsum (take 12 c) + (ocsum (slice 12 8 c) - 256 * acc)) mod 65535" by (rule mod_add_cong [OF refl a])
  finally show "ocsum (take 20 B) mod 65535 = (ocsum (take 20 c) - 256 * acc) mod 65535" using ocsum_header [OF assms(2)] by (simp add: add_diff_eq)
  assume "\<not> s" "\<not> d"
  then have "slice 12 8 B = slice 12 8 c"
    unfolding slice_eq_drop using slice_addr [of 12 B] slice_addr [of 16 B] slice_addr [of 12 c] slice_addr [of 16 c] st l assms(2) by simp
  then have "take 12 B @ slice 12 8 B @ drop 20 B = take 12 c @ slice 12 8 c @ drop 20 c" using st by simp
  moreover have "take 12 x @ slice 12 8 x @ drop 20 x = x" for x :: bytes
  proof -
    have "slice 12 8 x @ drop 20 x = drop 12 x" using append_take_drop_id [of 8 "drop 12 x"] by (simp add: slice_def)
    then show ?thesis by simp
  qed
  ultimately show "B = c" by simp
qed

lemma nat_transform_spec:
  assumes "buf_live buf" "20 \<le> length (buf_content buf)"
  shows "\<exists>buf'. client_nat_transform es buf direction = Some buf' \<and> buf_live buf' \<and> buf_window buf' = buf_window buf
    \<and> (\<forall>k \<in> {12, 16}. addr_at k (buf_content buf') = translate es direction k (addr_at k (buf_content buf)))
    \<and> take 10 (buf_content buf') = take 10 (buf_content buf)
    \<and> ocsum (take 20 (buf_content buf')) mod 65535 = ocsum (take 20 (buf_content buf)) mod 65535
    \<and> (if has_transport (buf_content buf) then transport_sum (buf_content buf') mod 65535 = transport_sum (buf_content buf) mod 65535
        else drop 20 (buf_content buf') = drop 20 (buf_content buf))"
proof -
  let ?c = "buf_content buf"
  have st0: "nat_state ?c buf 0 False False" using assms(1) by (simp add: nat_state_def)
  obtain b1 acc s d where b1: "nat_rules direction es (buf, 0, alog_of False False) = Some (b1, acc, alog_of s d)" "nat_state ?c b1 acc s d" "buf_window b1 = buf_window buf"
    "addr_at 12 (buf_content b1) = translate es direction 12 (addr_at 12 ?c)" "addr_at 16 (buf_content b1) = translate es direction 16 (addr_at 16 ?c)"
    using nat_rules_spec [OF st0 assms(2), of direction es] by auto
  let ?B = "buf_content b1"
  note sums = nat_state_sums [OF b1(2) assms(2)] and st = b1(2) [unfolded nat_state_def]
  have lB: "length ?B = length ?c" "buf_live b1" "take 12 ?B = take 12 ?c" "drop 20 ?B = drop 20 ?c" using st by blast+
  show ?thesis
  proof (cases "\<not> s \<and> \<not> d")
    case True
    then have "?B = ?c" using sums(4) by blast
    moreover have "client_nat_transform es buf direction = Some b1" using True b1(1) by (simp add: client_nat_transform_def alog_bits)
    ultimately show ?thesis using b1(3-5) lB by (intro exI [of _ b1]) auto
  next
    case changed: False
    obtain b2 bs where b2: "adjust_member b1 (int 10) acc = Some b2" "buf_live b2" "buf_window b2 = buf_window b1" "length bs = 2" "buf_content b2 = patch 10 bs ?B"
      "ocsum bs mod 65535 = (ocsum (slice 10 2 ?B) + 256 * acc) mod 65535"
      using adjust_member_sum [OF lB(2), of 10 acc] lB(1) assms(2) sums(1) by auto
    let ?C = "buf_content b2"
    have lC: "length ?C = length ?c" using b2(4,5) lB(1) assms(2) by simp
    have C: "take 10 ?C = take 10 ?c" "drop 20 ?C = drop 20 ?c" "slice 12 8 ?C = slice 12 8 ?B" "?C ! 9 = ?c ! 9" "addr_at 12 ?C = addr_at 12 ?B" "addr_at 16 ?C = addr_at 16 ?B"
    proof -
      show t: "take 10 ?C = take 10 ?c"
        unfolding b2(5) using take_patch_before [of 10 10 ?B bs] lB(1) assms(2) arg_cong [OF lB(3), of "take 10"] by (simp add: min_def)
      show "drop 20 ?C = drop 20 ?c" unfolding b2(5) using drop_patch_later [of 10 bs 20 ?B] b2(4) lB assms(2) by simp
      show "slice 12 8 ?C = slice 12 8 ?B" unfolding b2(5) by (rule slice_patch_other) (use b2(4) lB(1) assms(2) in auto)
      show "?C ! 9 = ?c ! 9" using arg_cong [OF t, of "\<lambda>x. x ! 9"] by simp
      show "addr_at 12 ?C = addr_at 12 ?B" "addr_at 16 ?C = addr_at 16 ?B"
        unfolding b2(5) addr_at_def using slice_patch_other [of 12 4 10 bs ?B] slice_patch_other [of 16 4 10 bs ?B] b2(4) lB(1) assms(2) by auto
    qed
    have "take 20 ?C = patch 10 bs (take 20 ?B)" unfolding b2(5) using take_patch [of 10 bs 20 ?B] b2(4) lB(1) assms(2) by simp
    moreover have "slice 10 2 (take 20 ?B) = slice 10 2 ?B" using lB(1) assms(2) by (simp add: slice_def drop_take min_def)
    ultimately have "ocsum (take 20 ?C) mod 65535 = (ocsum (take 20 ?B) + 256 * acc) mod 65535"
      using patch_sum [of 10 bs "take 20 ?B" "256 * acc"] b2(4,6) lB(1) assms(2) by simp
    also have "\<dots> = (ocsum (take 20 ?c) - 256 * acc + 256 * acc) mod 65535" by (rule mod_add_cong [OF sums(3) refl])
    finally have hdr_sum: "ocsum (take 20 ?C) mod 65535 = ocsum (take 20 ?c) mod 65535" by simp
    have p9: "hdr_byte b2 9 = Some (?c ! 9)" using hdr_byte_live [OF b2(2), of 9] lC assms(2) C(4) by simp
    have bl: "buf_len b2 = int (length ?c)" using buf_len_live [OF b2(2)] lC by simp
    have neq: "OPENVPN_IPPROTO_TCP \<noteq> OPENVPN_IPPROTO_UDP" by (simp add: OPENVPN_IPPROTO_TCP_def OPENVPN_IPPROTO_UDP_def)
    let ?k = "if ?c ! 9 = OPENVPN_IPPROTO_TCP then 36 else 26 :: nat"
    have call: "client_nat_transform es buf direction = (if has_transport ?c then adjust_member b2 (int ?k) acc else Some b2)"
      using b1(1) changed b2(1) p9 bl neq unfolding client_nat_transform_def
      by (auto simp: alog_bits has_transport_def IPHDR_SIZE_def TCPHDR_SIZE_def UDPHDR_SIZE_def)
    show ?thesis
    proof (cases "has_transport ?c")
      case False
      then show ?thesis using call b2(2,3) b1(3-5) C hdr_sum by (intro exI [of _ b2]) simp
    next
      case True
      then have k: "even ?k" "?k + 2 \<le> length ?C" "20 \<le> ?k" using lC neq by (auto simp: has_transport_def)
      obtain b3 cs where b3: "adjust_member b2 (int ?k) acc = Some b3" "buf_live b3" "buf_window b3 = buf_window b2" "length cs = 2" "buf_content b3 = patch ?k cs ?C"
        "ocsum cs mod 65535 = (ocsum (slice ?k 2 ?C) + 256 * acc) mod 65535"
        using adjust_member_sum [OF b2(2) k(1,2) sums(1)] by auto
      let ?D = "buf_content b3"
      have D: "take 20 ?D = take 20 ?C" "slice 12 8 ?D = slice 12 8 ?B" "addr_at 12 ?D = addr_at 12 ?B" "addr_at 16 ?D = addr_at 16 ?B"
      proof -
        show t: "take 20 ?D = take 20 ?C" unfolding b3(5) by (rule take_patch_before) (use k in auto)
        have s: "slice p n ?D = slice p n ?C" if "p + n \<le> 20" for p n unfolding b3(5) by (rule slice_patch_other) (use that k b3(4) in auto)
        show "slice 12 8 ?D = slice 12 8 ?B" using s [of 12 8] C(3) by simp
        show "addr_at 12 ?D = addr_at 12 ?B" "addr_at 16 ?D = addr_at 16 ?B" using s [of 12 4] s [of 16 4] C(5,6) by (simp_all add: addr_at_def)
      qed
      have dr: "drop 20 ?D = patch (?k - 20) cs (drop 20 ?C)" unfolding b3(5) by (rule drop_patch) (use k b3(4) in auto)
      have "slice (?k - 20) 2 (drop 20 ?C) = slice ?k 2 ?C" using k by (simp add: slice_def)
      then have "ocsum (drop 20 ?D) mod 65535 = (ocsum (drop 20 ?C) + 256 * acc) mod 65535"
        unfolding dr using patch_sum [of "?k - 20" cs "drop 20 ?C" "256 * acc"] k b3(4,6) by auto
      from mod_add_cong [OF sums(2) this] have ts: "transport_sum ?D mod 65535 = transport_sum ?c mod 65535"
        by (simp add: transport_sum_def D(2) C(2) algebra_simps)
      have t10: "take 10 ?D = take 10 ?c" using arg_cong [OF D(1), of "take 10"] C(1) by (simp add: min_def)
      show ?thesis using call True b3(1-3) b2(3) b1(3-5) D hdr_sum ts t10 by (intro exI [of _ b3]) simp
    qed
  qed
qed



definition toy_nat :: client_nat_entry where
  "toy_nat = \<lparr>cn_type = CN_SNAT, cn_network = 10, cn_netmask = 0xff, cn_foreign_network = 172\<rparr>"


lemma masked_back:
  fixes a m f :: u32
  shows "((a AND NOT m) OR (f AND m)) AND m = f AND m" "(((a AND NOT m) OR (f AND m)) AND NOT m) OR (a AND m) = a"
  by (rule bit_word_eqI; auto simp: bit_simps)+



text \<open>
  The translation does not look at the fragment offset nor at the length of the header: in a later fragment of a TCP packet, and in a packet with IP options, two bytes of the
  payload or of the options are changed as if they were the checksum.
\<close>

theorem nat_changes_fragment_payload:
  "\<exists>buf'. client_nat_transform [toy_nat] (packet_buf (patch 6 [0, 185] syn_packet)) CN_OUTGOING = Some buf' \<and> slice 36 2 (buf_content buf') \<noteq> slice 36 2 syn_packet"
proof -
  have "case client_nat_transform [toy_nat] (packet_buf (patch 6 [0, 185] syn_packet)) CN_OUTGOING of None \<Rightarrow> False
      | Some b \<Rightarrow> slice 36 2 (buf_content b) \<noteq> slice 36 2 syn_packet" by code_simp
  then show ?thesis by (auto split: option.splits)
qed

text \<open>
  A tagged frame of 34 bytes passes the test for the length of its headers, which repeats the test for an untagged frame: what is left is shorter
  than an IP header.
\<close>

theorem is_ipv4_tagged_short:
  "case is_ipv4 DEV_TYPE_TAP (packet_buf (replicate 12 0 @ [0x81, 0, 0, 1, 8, 0, 0x45] @ replicate 15 0)) of None \<Rightarrow> False | Some (ok, buf) \<Rightarrow> ok \<and> len buf = 16"
  by code_simp

end
