(* ===== verification/Dhcp.thy ===== *)
theory Dhcp
  imports Client_Nat
begin

text \<open>
  DHCP replies that pass through the tunnel (\<^verbatim>\<open>dhcp.c\<close>): the router option is taken out of the reply and remembered as the gateway of the tunnel. The options of a
  reply are the bytes behind its fixed part; every access to them is checked against their length here.
\<close>

section \<open>The options of a reply\<close>

definition DHCP_PAD :: u8 where "DHCP_PAD = 0"
definition DHCP_ROUTER :: u8 where "DHCP_ROUTER = 3"
definition DHCP_MSG_TYPE :: u8 where "DHCP_MSG_TYPE = 53"
definition DHCP_END :: u8 where "DHCP_END = 255"
definition DHCPOFFER :: int where "DHCPOFFER = 2"
definition DHCPACK :: int where "DHCPACK = 5"
definition BOOTPS_PORT :: u16 where "BOOTPS_PORT = 67"
definition BOOTPC_PORT :: u16 where "BOOTPC_PORT = 68"
definition BOOTREPLY :: u8 where "BOOTREPLY = 2"
definition DHCP_SIZE :: int where "DHCP_SIZE = 240"

function get_dhcp_message_type :: "bytes \<Rightarrow> nat \<Rightarrow> int option" where
  "get_dhcp_message_type p i =
     (if i \<ge> length p then Some (-1)
      else do {
        t \<leftarrow> mem_get p (int i);
        let room = length p - i;
        (if t = DHCP_END then Some (-1)
         else if t = DHCP_PAD then get_dhcp_message_type p (i + 1)
         else if t = DHCP_MSG_TYPE then
           if room \<ge> 3 then do {
             l \<leftarrow> mem_get p (int i + 1);
             (if l = 1 then do { m \<leftarrow> mem_get p (int i + 2); Some (uint m) } else Some (-1)) }
           else Some (-1)
         else if room \<ge> 2 then do { l \<leftarrow> mem_get p (int i + 1); get_dhcp_message_type p (i + unat l + 2) }
         else get_dhcp_message_type p (i + 1)) })"
  by pat_completeness auto
termination by (relation "measure (\<lambda>(p, i). length p - i)") auto

declare get_dhcp_message_type.simps [simp del]

text \<open>The option of \<open>n\<close> bytes at \<open>i\<close> is overwritten by what follows it, and the end is padded.\<close>

definition delete_option :: "bytes \<Rightarrow> nat \<Rightarrow> nat \<Rightarrow> bytes option" where
  "delete_option p i n = do {
     let movlen = int (length p) - int (i + n);
     p \<leftarrow> (if movlen > 0 then do { src \<leftarrow> mem_read p (int (i + n)) movlen; mem_write p (int i) src } else Some p);
     mem_write p (int (length p) - int n) (replicate n DHCP_PAD)
   }"

lemma delete_option_eq: "i + n \<le> length p \<Longrightarrow> delete_option p i n = Some (take i p @ drop (i + n) p @ replicate n DHCP_PAD)"
proof -
  assume le: "i + n \<le> length p"
  show ?thesis
  proof (cases "i + n = length p")
    case True
    then have "nat (int (length p) - int n) = i" by simp
    with True show ?thesis by (simp add: delete_option_def mem_write_def)
  next
    case False
    let ?q = "take i p @ drop (i + n) p @ drop (length p - n) p"
    have "int (length p) - int (i + n) = int (length p - (i + n))" "int (length p) - int n = int (length p - n)" using le by simp_all
    moreover have "length ?q = length p" "take (length p - n) ?q = take i p @ drop (i + n) p" using le by simp_all
    ultimately show ?thesis using le False by (simp add: delete_option_def mem_write_def mem_read_def Let_def nat_add_distrib)
  qed
qed

definition nonpad :: "bytes \<Rightarrow> nat \<Rightarrow> nat" where
  "nonpad p i = length (filter (\<lambda>b. b \<noteq> DHCP_PAD) (drop i p))"

lemma nonpad_mono: "i \<le> j \<Longrightarrow> nonpad p j \<le> nonpad p i"
proof -
  assume "i \<le> j"
  then have "drop i p = take (j - i) (drop i p) @ drop j p" by (metis append_take_drop_id drop_drop le_add_diff_inverse2)
  then show ?thesis by (simp add: nonpad_def) (metis filter_append length_append le_add2)
qed

lemma nonpad_delete:
  assumes "delete_option p i n = Some q" "i < length p" "i + n \<le> length p" "0 < n" "p ! i \<noteq> DHCP_PAD"
  shows "nonpad q i < nonpad p i"
proof -
  have "drop i p = p ! i # drop (Suc i) p" using assms(2) by (simp add: Cons_nth_drop_Suc)
  then have "nonpad p i = Suc (nonpad p (Suc i))" using assms(5) by (simp add: nonpad_def)
  moreover have "nonpad q i = nonpad p (i + n)" using assms(1-3) by (auto simp: delete_option_eq nonpad_def)
  ultimately show ?thesis using nonpad_mono [of "Suc i" "i + n" p] assms(4) by simp
qed

lemma mem_get_int: "mem_get p (int i) = Some x \<longleftrightarrow> i < length p \<and> p ! i = x"
  by (auto simp: mem_get_def)

function do_extract :: "bytes \<Rightarrow> nat \<Rightarrow> u32 \<Rightarrow> (u32 \<times> bytes) option" where
  "do_extract p i ret =
     (if i \<ge> length p then Some (ret, p)
      else do {
        t \<leftarrow> mem_get p (int i);
        let room = length p - i;
        (if t = DHCP_END then Some (ret, p)
         else if t = DHCP_PAD then do_extract p (i + 1) ret
         else if room < 2 then Some (ret, p)
         else do {
           l \<leftarrow> mem_get p (int i + 1);
           (if t = DHCP_ROUTER then
              if unat l \<le> room - 2 then do {
                ret \<leftarrow> (if ret = 0 \<and> unat l \<ge> 4 \<and> l AND 3 = 0 then map_option from_be (mem_read p (int i + 2) 4) else Some ret);
                q \<leftarrow> delete_option p i (unat l + 2);
                do_extract q i ret }
              else Some (ret, p)
            else do_extract p (i + unat l + 2) ret) }) })"
  by pat_completeness auto
termination
proof (relation "measures [\<lambda>(p, i, r). nonpad p i, \<lambda>(p, i, r). length p - i]", goal_cases)
  case 1
  then show ?case by simp
next
  case (2 p i ret t room)
  then show ?case using nonpad_mono [of i "i + 1" p] by auto
next
  case (3 p i ret t room l ret' q)
  then have "delete_option p i (unat l + 2) = Some q" "p ! i = t" "t \<noteq> DHCP_PAD" "i < length p" "unat l + 2 \<le> length p - i" by (auto simp: mem_get_int)
  then have "nonpad q i < nonpad p i" by (intro nonpad_delete [of p i "unat l + 2" q]) (auto simp del: add_2_eq_Suc')
  then show ?case by simp
next
  case (4 p i ret t room l)
  then show ?case using nonpad_mono [of i "i + unat l + 2" p] by auto
qed

declare do_extract.simps [simp del]


section \<open>The packet\<close>

text \<open>The address in host order that was found, 0 for none, and the packet with its options changed. The options start behind the IP header, the UDP header and the fixed part.\<close>

definition dhcp_extract_router_msg :: "buffer \<Rightarrow> (u32 \<times> buffer) option" where
  "dhcp_extract_router_msg ipbuf = do {
     let optlen = buf_len ipbuf - (IPHDR_SIZE + UDPHDR_SIZE + DHCP_SIZE);
     (if optlen < 0 then Some (0, ipbuf)
      else do {
        protocol \<leftarrow> hdr_byte ipbuf 9;
        source \<leftarrow> hdr_ntohs ipbuf 20;
        dest \<leftarrow> hdr_ntohs ipbuf 22;
        op \<leftarrow> hdr_byte ipbuf 28;
        (if protocol = OPENVPN_IPPROTO_UDP \<and> source = BOOTPS_PORT \<and> dest = BOOTPC_PORT \<and> op = BOOTREPLY then do {
           opts \<leftarrow> hdr_bytes ipbuf 268 optlen;
           message_type \<leftarrow> get_dhcp_message_type opts 0;
           (if message_type = DHCPACK \<or> message_type = DHCPOFFER then do {
              (ret, opts) \<leftarrow> do_extract opts 0 0;
              ipbuf \<leftarrow> hdr_put ipbuf 268 opts;
              ipbuf \<leftarrow> hdr_put ipbuf 26 [0, 0];
              payload \<leftarrow> hdr_bytes ipbuf 20 (UDPHDR_SIZE + DHCP_SIZE + optlen);
              saddr \<leftarrow> hdr_bytes ipbuf 12 4;
              daddr \<leftarrow> hdr_bytes ipbuf 16 4;
              ipbuf \<leftarrow> hdr_put ipbuf 26 (be16 (ip_checksum payload saddr daddr (uint OPENVPN_IPPROTO_UDP)));
              Some (if message_type = DHCPACK then ret else 0, ipbuf) }
            else Some (0, ipbuf)) }
         else Some (0, ipbuf)) })
   }"

section \<open>What taking out the routers does\<close>

text \<open>The options as a list: padding, or an option with its bytes.\<close>

datatype dhcp_item = Pad | Opt u8 bytes

fun item_bytes :: "dhcp_item \<Rightarrow> bytes" where
  "item_bytes Pad = [DHCP_PAD]"
| "item_bytes (Opt t bs) = t # of_nat (length bs) # bs"

fun item_ok :: "dhcp_item \<Rightarrow> bool" where
  "item_ok Pad \<longleftrightarrow> True"
| "item_ok (Opt t bs) \<longleftrightarrow> t \<noteq> DHCP_PAD \<and> t \<noteq> DHCP_END \<and> length bs < 256"

fun is_router :: "dhcp_item \<Rightarrow> bool" where
  "is_router Pad \<longleftrightarrow> False"
| "is_router (Opt t bs) \<longleftrightarrow> t = DHCP_ROUTER"

text \<open>The first address of the first router option with whole addresses that is not zero.\<close>

fun router_addr :: "u32 \<Rightarrow> dhcp_item list \<Rightarrow> u32" where
  "router_addr r [] = r"
| "router_addr r (Opt t bs # xs) =
     (if t = DHCP_ROUTER \<and> r = 0 \<and> length bs \<ge> 4 \<and> length bs mod 4 = 0 then router_addr (from_be (take 4 bs)) xs else router_addr r xs)"
| "router_addr r (Pad # xs) = router_addr r xs"

definition opts_bytes :: "dhcp_item list \<Rightarrow> bytes" where
  "opts_bytes xs = concat (map item_bytes xs)"

definition routers_len :: "dhcp_item list \<Rightarrow> nat" where
  "routers_len xs = length (opts_bytes (filter is_router xs))"

definition opts_end :: "bytes \<Rightarrow> bool" where
  "opts_end e \<longleftrightarrow> e = [] \<or> hd e = DHCP_END \<or> set e \<subseteq> {DHCP_PAD}"

lemma and3: "n < 256 \<Longrightarrow> (of_nat n :: u8) AND 3 = 0 \<longleftrightarrow> n mod 4 = 0"
proof -
  assume n: "n < 256"
  have "(of_nat n :: u8) AND 3 = take_bit 2 (of_nat n)" by (simp add: take_bit_eq_mask mask_eq_exp_minus_1)
  also have "\<dots> = of_nat (n mod 4)" using take_bit_of_nat [of 2 n] by (simp add: take_bit_nat_def)
  finally show ?thesis using n dvd_imp_le [of 256 "n mod 4"] by (auto simp: word_of_nat_eq_0_iff)
qed

lemma do_extract_end:
  assumes "set e \<subseteq> {DHCP_PAD} \<or> e \<noteq> [] \<and> hd e = DHCP_END"
  shows "do_extract (pre @ e) (length pre) r = Some (r, pre @ e)"
  using assms
proof (induction e arbitrary: pre)
  case Nil
  then show ?case by (subst do_extract.simps) simp
next
  case (Cons x e)
  then show ?case using Cons.IH [of "pre @ [x]"] by (subst do_extract.simps) (auto simp: mem_get_int DHCP_PAD_def DHCP_END_def Let_def mem_get_def)
qed

lemma do_extract_items:
  assumes "\<forall>x \<in> set xs. item_ok x" "opts_end e"
  shows "do_extract (pre @ opts_bytes xs @ e) (length pre) r
     = Some (router_addr r xs, pre @ opts_bytes (filter (\<lambda>x. \<not> is_router x) xs) @ e @ replicate (routers_len xs) DHCP_PAD)"
  using assms
proof (induction xs arbitrary: pre e r)
  case Nil
  then show ?case using do_extract_end [of e pre r] by (cases e) (auto simp: opts_bytes_def routers_len_def opts_end_def)
next
  case (Cons x xs)
  show ?case
  proof (cases x)
    case Pad
    then show ?thesis using Cons.IH [of e "pre @ [DHCP_PAD]" r] Cons.prems
      by (subst do_extract.simps) (simp add: opts_bytes_def routers_len_def mem_get_def Let_def DHCP_PAD_def DHCP_END_def)
  next
    case (Opt t bs)
    then have ok: "t \<noteq> DHCP_PAD" "t \<noteq> DHCP_END" "length bs < 256" using Cons.prems by simp_all
    have u: "unat (of_nat (length bs) :: u8) = length bs" using ok(3) by (simp add: unat_of_nat take_bit_nat_eq_self)
    let ?p = "pre @ opts_bytes (x # xs) @ e"
    have p: "?p = pre @ t # of_nat (length bs) # bs @ opts_bytes xs @ e" using Opt by (simp add: opts_bytes_def)
    have g: "mem_get ?p (int (length pre)) = Some t" "mem_get ?p (int (length pre) + 1) = Some (of_nat (length bs))"
      unfolding p by (simp_all add: mem_get_def nth_append nat_add_distrib)
    show ?thesis
    proof (cases "t = DHCP_ROUTER")
      case False
      have "do_extract ?p (length pre) r = do_extract ?p (length pre + length bs + 2) r"
        using False ok g u by (subst do_extract.simps) (simp add: Let_def p)
      moreover have "?p = (pre @ item_bytes x) @ opts_bytes xs @ e" "length pre + length bs + 2 = length (pre @ item_bytes x)" using Opt by (simp_all add: opts_bytes_def)
      ultimately show ?thesis using Cons.IH [of e "pre @ item_bytes x" r] Cons.prems False Opt by (simp add: opts_bytes_def routers_len_def)
    next
      case True
      let ?r = "if r = 0 \<and> 4 \<le> length bs \<and> length bs mod 4 = 0 then from_be (take 4 bs) else r" and ?e = "e @ replicate (length bs + 2) DHCP_PAD"
      have "mem_read ?p (int (length pre) + 2) 4 = Some (take 4 bs)" if "4 \<le> length bs"
        using that unfolding p by (simp add: mem_read_def nat_add_distrib)
      moreover have "delete_option ?p (length pre) (length bs + 2) = Some (pre @ opts_bytes xs @ ?e)" unfolding p by (subst delete_option_eq) simp_all
      ultimately have "do_extract ?p (length pre) r = do_extract (pre @ opts_bytes xs @ ?e) (length pre) ?r"
        using True ok g u and3 [OF ok(3)] by (subst do_extract.simps) (auto simp: Let_def p)
      moreover have "opts_end ?e" using Cons.prems(2) by (cases e) (auto simp: opts_end_def)
      ultimately show ?thesis using Cons.IH [of ?e pre ?r] Cons.prems True Opt
        by (simp add: opts_bytes_def routers_len_def replicate_add [symmetric] add.commute)
    qed
  qed
qed


text \<open>The type of the message is that of the first option with this meaning.\<close>

fun msg_type :: "dhcp_item list \<Rightarrow> int" where
  "msg_type [] = -1"
| "msg_type (Pad # xs) = msg_type xs"
| "msg_type (Opt t bs # xs) = (if t = DHCP_MSG_TYPE then case bs of [m] \<Rightarrow> uint m | _ \<Rightarrow> -1 else msg_type xs)"

lemma get_type_end:
  assumes "set e \<subseteq> {DHCP_PAD} \<or> e \<noteq> [] \<and> hd e = DHCP_END"
  shows "get_dhcp_message_type (pre @ e) (length pre) = Some (-1)"
  using assms
proof (induction e arbitrary: pre)
  case Nil
  then show ?case by (subst get_dhcp_message_type.simps) simp
next
  case (Cons x e)
  then show ?case using Cons.IH [of "pre @ [x]"]
    by (subst get_dhcp_message_type.simps) (auto simp: DHCP_PAD_def DHCP_END_def Let_def mem_get_def)
qed

lemma get_type_items:
  assumes "\<forall>x \<in> set xs. item_ok x" "opts_end e"
  shows "get_dhcp_message_type (pre @ opts_bytes xs @ e) (length pre) = Some (msg_type xs)"
  using assms
proof (induction xs arbitrary: pre)
  case Nil
  then show ?case using get_type_end [of e pre] by (cases e) (auto simp: opts_bytes_def opts_end_def)
next
  case (Cons x xs)
  show ?case
  proof (cases x)
    case Pad
    then show ?thesis using Cons.IH [of "pre @ [DHCP_PAD]"] Cons.prems
      by (subst get_dhcp_message_type.simps) (simp add: opts_bytes_def mem_get_def Let_def DHCP_PAD_def DHCP_END_def)
  next
    case (Opt t bs)
    then have ok: "t \<noteq> DHCP_PAD" "t \<noteq> DHCP_END" "length bs < 256" using Cons.prems by simp_all
    have u: "unat (of_nat (length bs) :: u8) = length bs" using ok(3) by (simp add: unat_of_nat take_bit_nat_eq_self)
    let ?p = "pre @ opts_bytes (x # xs) @ e"
    have p: "?p = pre @ t # of_nat (length bs) # bs @ opts_bytes xs @ e" using Opt by (simp add: opts_bytes_def)
    have g: "mem_get ?p (int (length pre)) = Some t" "mem_get ?p (int (length pre) + 1) = Some (of_nat (length bs))"
      "bs \<noteq> [] \<Longrightarrow> mem_get ?p (int (length pre) + 2) = Some (hd bs)"
      unfolding p by (simp_all add: mem_get_def nth_append nat_add_distrib) (cases bs; simp)
    have one: "(of_nat (length bs) :: u8) = 1 \<longleftrightarrow> length bs = 1" by (simp add: word_unat_eq_iff u)
    show ?thesis
    proof (cases "t = DHCP_MSG_TYPE")
      case False
      have "get_dhcp_message_type ?p (length pre) = get_dhcp_message_type ?p (length pre + length bs + 2)"
        using False ok g u by (subst get_dhcp_message_type.simps) (simp add: Let_def p)
      moreover have "?p = (pre @ item_bytes x) @ opts_bytes xs @ e" "length pre + length bs + 2 = length (pre @ item_bytes x)" using Opt by (simp_all add: opts_bytes_def)
      ultimately show ?thesis using Cons.IH [of "pre @ item_bytes x"] Cons.prems False Opt by simp
    next
      case True
      then have "get_dhcp_message_type ?p (length pre) = Some (case bs of [m] \<Rightarrow> uint m | _ \<Rightarrow> -1)"
        using ok g one by (subst get_dhcp_message_type.simps) (auto simp: Let_def p split: list.splits)
      then show ?thesis using True Opt by simp
    qed
  qed
qed

section \<open>Any options\<close>

lemma do_extract_total: "\<exists>r q. do_extract p i ret = Some (r, q) \<and> length q = length p"
proof (induction p i ret rule: do_extract.induct)
  case (1 p i ret)
  show ?case
  proof (cases "i < length p")
    case False
    then show ?thesis by (subst do_extract.simps) simp
  next
    case i: True
    then have t: "mem_get p (int i) = Some (p ! i)" by simp
    consider "p ! i = DHCP_END" | "p ! i \<noteq> DHCP_END" "p ! i = DHCP_PAD" | "p ! i \<noteq> DHCP_END" "p ! i \<noteq> DHCP_PAD" "length p - i < 2"
      | "p ! i \<noteq> DHCP_END" "p ! i \<noteq> DHCP_PAD" "\<not> length p - i < 2" by blast
    then show ?thesis
    proof cases
      case 1
      then show ?thesis using t i by (subst do_extract.simps) simp
    next
      case 2
      then show ?thesis using "1.IH"(1) [OF _ t refl] t i by (subst do_extract.simps) simp
    next
      case 3
      then show ?thesis using t i by (subst do_extract.simps) simp
    next
      case 4
      then have l: "mem_get p (int i + 1) = Some (p ! (i + 1))" by (simp add: mem_get_def nat_add_distrib)
      let ?l = "p ! (i + 1)"
      consider "p ! i \<noteq> DHCP_ROUTER" | "p ! i = DHCP_ROUTER" "\<not> unat ?l \<le> length p - i - 2" | "p ! i = DHCP_ROUTER" "unat ?l \<le> length p - i - 2" by blast
      then show ?thesis
      proof cases
        case 1
        then show ?thesis using "1.IH"(3) [OF _ t refl 4 l] t i l 4 by (subst do_extract.simps) simp
      next
        case 2
        then show ?thesis using t i l 4 by (subst do_extract.simps) simp
      next
        case 3
        have fits: "i + (unat ?l + 2) \<le> length p" using 3(2) 4(3) by linarith
        let ?q = "take i p @ drop (i + (unat ?l + 2)) p @ replicate (unat ?l + 2) DHCP_PAD"
        note d = delete_option_eq [OF fits]
        obtain r where r: "(if ret = 0 \<and> unat ?l \<ge> 4 \<and> ?l AND 3 = 0 then map_option from_be (mem_read p (int i + 2) 4) else Some ret) = Some r"
        proof (cases "ret = 0 \<and> unat ?l \<ge> 4 \<and> ?l AND 3 = 0")
          case True
          then have "mem_read p (int i + 2) 4 = Some (take 4 (drop (nat (int i + 2)) p))" using fits by (subst mem_read_Some) auto
          with True that show thesis by simp
        qed (use that in auto)
        have "length ?q = length p" using fits by simp
        then show ?thesis using "1.IH"(2) [OF _ t refl 4 l 3 r d] t i l 4 3 r d by (subst do_extract.simps) simp
      qed
    qed
  qed
qed

lemma get_type_total: "\<exists>m. get_dhcp_message_type p i = Some m"
proof (induction p i rule: get_dhcp_message_type.induct)
  case (1 p i)
  show ?case
  proof (cases "i < length p")
    case False
    then show ?thesis by (subst get_dhcp_message_type.simps) simp
  next
    case i: True
    then have t: "mem_get p (int i) = Some (p ! i)" by simp
    have l: "mem_get p (int i + 1) = Some (p ! (i + 1))" if "2 \<le> length p - i" using that by (simp add: mem_get_def nat_add_distrib)
    have m: "mem_get p (int i + 2) = Some (p ! (i + 2))" if "3 \<le> length p - i" using that by (simp add: mem_get_def nat_add_distrib)
    show ?thesis
    proof (cases "p ! i = DHCP_END \<or> p ! i = DHCP_MSG_TYPE")
      case True
      then show ?thesis using t i l m by (subst get_dhcp_message_type.simps) (auto simp: DHCP_MSG_TYPE_def DHCP_PAD_def Let_def)
    next
      case False
      then show ?thesis using "1.IH"(1) [OF _ t refl] "1.IH"(2) [OF _ t refl _ _ _ _ l] "1.IH"(3) [OF _ t refl] t i l
        by (subst get_dhcp_message_type.simps) (auto simp: Let_def)
    qed
  qed
qed

section \<open>The whole packet\<close>

definition dhcp_reply :: "bytes \<Rightarrow> bool" where
  "dhcp_reply c \<longleftrightarrow> 268 \<le> length c \<and> length c < 65536 \<and> c ! 9 = OPENVPN_IPPROTO_UDP \<and> rd16 (slice 20 2 c) = BOOTPS_PORT \<and> rd16 (slice 22 2 c) = BOOTPC_PORT
     \<and> c ! 28 = BOOTREPLY"

text \<open>The sum that a receiver of the UDP datagram forms.\<close>

definition udp_sum :: "bytes \<Rightarrow> int" where
  "udp_sum c = ocsum (drop 20 c) + ocsum (slice 12 4 c) + ocsum (slice 16 4 c) + int (length (drop 20 c)) + uint OPENVPN_IPPROTO_UDP"

lemma put_window:
  assumes "buf_live b" "k + length bs \<le> length (buf_content b)"
  obtains b' where "hdr_put b (int k) bs = Some b'" "buf_live b'" "buf_window b' = buf_window b" "buf_content b' = patch k bs (buf_content b)"
  using hdr.put_ok [OF assms] by blast

lemma rewrite_checksum:
  assumes b: "buf_live b" "268 \<le> length (buf_content b)" "length (buf_content b) < 65536" and n: "n = int (length (buf_content b)) - 20"
  shows "\<exists>b'. do {
      b \<leftarrow> hdr_put b 26 [0, 0];
      payload \<leftarrow> hdr_bytes b 20 n;
      saddr \<leftarrow> hdr_bytes b 12 4;
      daddr \<leftarrow> hdr_bytes b 16 4;
      hdr_put b 26 (be16 (ip_checksum payload saddr daddr (uint OPENVPN_IPPROTO_UDP))) } = Some b'
    \<and> buf_live b' \<and> buf_window b' = buf_window b \<and> (\<exists>s. length s = 2 \<and> buf_content b' = patch 26 s (buf_content b)) \<and> udp_sum (buf_content b') mod 65535 = 0"
proof -
  let ?c = "buf_content b"
  have u17: "uint OPENVPN_IPPROTO_UDP = 17" by (simp add: OPENVPN_IPPROTO_UDP_def)
  from put_window [OF b(1), of 26 "[0, 0]"] b obtain b1 where b1: "hdr_put b 26 [0, 0] = Some b1" "buf_live b1" "buf_window b1 = buf_window b" "buf_content b1 = patch 26 [0, 0] ?c"
    by auto
  let ?d = "patch 26 [0, 0] ?c"
  have l: "length ?d = length ?c" using b by simp
  let ?w = "ip_checksum (drop 20 ?d) (slice 12 4 ?d) (slice 16 4 ?d) (uint OPENVPN_IPPROTO_UDP)"
  have n': "n = int (length ?c - 20)" using n b(2) by simp
  have "hdr_bytes b1 20 n = Some (slice 20 (length ?c - 20) ?d)"
    unfolding n' using hdr_bytes_live [OF b1(2), of 20 "length ?c - 20"] b1(4) l b by simp
  moreover have "slice 20 (length ?c - 20) ?d = drop 20 ?d" using l by (simp add: slice_def)
  moreover have "hdr_bytes b1 12 4 = Some (slice 12 4 ?d)" "hdr_bytes b1 16 4 = Some (slice 16 4 ?d)"
    using hdr_bytes_live [OF b1(2), of 12 4] hdr_bytes_live [OF b1(2), of 16 4] b1(4) l b by simp_all
  moreover obtain b2 where b2: "hdr_put b1 26 (be16 ?w) = Some b2" "buf_live b2" "buf_window b2 = buf_window b1" "buf_content b2 = patch 26 (be16 ?w) ?d"
    using put_window [OF b1(2), of 26 "be16 ?w"] b1(4) l b by auto
  moreover have pp: "patch 26 (be16 ?w) ?d = patch 26 (be16 ?w) ?c" using b by (simp add: patch_def)
  moreover have "udp_sum (patch 26 (be16 ?w) ?d) mod 65535 = 0"
  proof -
    let ?e = "patch 26 (be16 ?w) ?d"
    have dr: "drop 20 ?e = patch 6 (be16 ?w) (drop 20 ?d)" "slice 6 2 (drop 20 ?d) = [0, 0]" using b l by (simp_all add: patch_def slice_def)
    have "ocsum (drop 20 ?e) = ocsum (drop 20 ?d) + uint ?w"
      unfolding dr(1) using ocsum_patch [of 6 "be16 ?w" "drop 20 ?d"] dr(2) l b by simp
    moreover have "slice 12 4 ?e = slice 12 4 ?d" "slice 16 4 ?e = slice 16 4 ?d" using b l by (simp_all add: slice_patch_other)
    moreover have "length (drop 20 ?e) = length (drop 20 ?d)" using b l by simp
    ultimately show ?thesis
      using ip_checksum_valid [of "drop 20 ?d" "slice 12 4 ?d" "slice 16 4 ?d" 17] b l u17
      by (simp add: udp_sum_def slice_def algebra_simps)
  qed
  moreover have "\<exists>s. length s = 2 \<and> patch 26 (be16 ?w) ?c = patch 26 s ?c" by (intro exI [of _ "be16 ?w"]) simp
  ultimately show ?thesis using b1 by (intro exI [of _ b2]) simp
qed


text \<open>Whatever the options are, the function stays inside the packet.\<close>

lemma dhcp_extract_total:
  assumes b: "buf_live b" "length (buf_content b) < 65536"
  shows "\<exists>r b'. dhcp_extract_router_msg b = Some (r, b') \<and> buf_live b' \<and> buf_window b' = buf_window b"
proof -
  let ?c = "buf_content b"
  have bl: "buf_len b = int (length ?c)" using b len_buf_content [OF b(1)] by (auto elim: buf_live_Some)
  show ?thesis
  proof (cases "length ?c < 268")
    case True
    then show ?thesis using b bl by (simp add: dhcp_extract_router_msg_def IPHDR_SIZE_def UDPHDR_SIZE_def DHCP_SIZE_def)
  next
    case False
    then have opt: "buf_len b - (IPHDR_SIZE + UDPHDR_SIZE + DHCP_SIZE) = int (length ?c - 268)" using bl by (simp add: IPHDR_SIZE_def UDPHDR_SIZE_def DHCP_SIZE_def)
    have hd: "hdr_byte b 9 = Some (?c ! 9)" "hdr_byte b 28 = Some (?c ! 28)" "hdr_ntohs b 20 = Some (rd16 (slice 20 2 ?c))" "hdr_ntohs b 22 = Some (rd16 (slice 22 2 ?c))"
      "hdr_bytes b 268 (int (length ?c - 268)) = Some (slice 268 (length ?c - 268) ?c)"
      using hdr_byte_live [OF b(1), of 9] hdr_byte_live [OF b(1), of 28] hdr_bytes_live [OF b(1), of 20 2] hdr_bytes_live [OF b(1), of 22 2]
        hdr_bytes_live [OF b(1), of 268 "length ?c - 268"] False by (simp_all add: hdr_ntohs_def)
    let ?p = "slice 268 (length ?c - 268) ?c"
    obtain m where m: "get_dhcp_message_type ?p 0 = Some m" using get_type_total by blast
    obtain r q where q: "do_extract ?p 0 0 = Some (r, q)" "length q = length ?p" using do_extract_total by blast
    have fits: "268 + length q \<le> length ?c" using q(2) False by (simp add: slice_def)
    obtain b1 where b1: "hdr_put b (int 268) q = Some b1" "buf_live b1" "buf_window b1 = buf_window b" "buf_content b1 = patch 268 q ?c"
      by (rule put_window [OF b(1) fits])
    have b1': "hdr_put b 268 q = Some b1" "length (buf_content b1) = length ?c" using b1(1,4) fits by simp_all
    have "UDPHDR_SIZE + DHCP_SIZE + int (length ?c - 268) = int (length (buf_content b1)) - 20" using b1'(2) False by (simp add: UDPHDR_SIZE_def DHCP_SIZE_def)
    from rewrite_checksum [OF b1(2) _ _ this] b1'(2) False b(2) obtain b2 where
      "do {
          b \<leftarrow> hdr_put b1 26 [0, 0];
          payload \<leftarrow> hdr_bytes b 20 (UDPHDR_SIZE + DHCP_SIZE + int (length ?c - 268));
          saddr \<leftarrow> hdr_bytes b 12 4;
          daddr \<leftarrow> hdr_bytes b 16 4;
          hdr_put b 26 (be16 (ip_checksum payload saddr daddr (uint OPENVPN_IPPROTO_UDP))) } = Some b2" and b2: "buf_live b2" "buf_window b2 = buf_window b1" by auto
    note w = this(1)
    show ?thesis
    proof (cases "?c ! 9 = OPENVPN_IPPROTO_UDP \<and> rd16 (slice 20 2 ?c) = BOOTPS_PORT \<and> rd16 (slice 22 2 ?c) = BOOTPC_PORT \<and> ?c ! 28 = BOOTREPLY \<and> (m = DHCPACK \<or> m = DHCPOFFER)")
      case True
      then have "dhcp_extract_router_msg b = Some (if m = DHCPACK then r else 0, b2)"
        using w b1'(1) q(1) m hd unfolding dhcp_extract_router_msg_def opt by (auto split: bind_splits)
      then show ?thesis using b2 b1(3) by simp
    next
      case False
      then have "dhcp_extract_router_msg b = Some (0, b)" using m hd unfolding dhcp_extract_router_msg_def opt Let_def by auto
      then show ?thesis using b by simp
    qed
  qed
qed

text \<open>C26: From a DHCP acknowledgement or offer that passes the tunnel every router option is removed, and nothing else: the other options stay in their order, padding fills
  the end, the packet keeps its length, only its UDP checksum changes otherwise, and that is valid afterwards. An acknowledgement yields the first
  address of the first usable router option. Any other reply is left alone. No byte outside the packet is read or written.
\<close>

theorem dhcp_extract_router_correct:
  assumes b: "buf_live b" and r: "dhcp_reply (buf_content b)"
    and o: "drop 268 (buf_content b) = opts_bytes xs @ e" "\<forall>x \<in> set xs. item_ok x" "opts_end e"
  shows "\<exists>b'. dhcp_extract_router_msg b = Some (if msg_type xs = DHCPACK then router_addr 0 xs else 0, b')
     \<and> (if msg_type xs = DHCPACK \<or> msg_type xs = DHCPOFFER
        then buf_live b' \<and> buf_window b' = buf_window b
          \<and> drop 268 (buf_content b') = opts_bytes (filter (\<lambda>x. \<not> is_router x) xs) @ e @ replicate (routers_len xs) DHCP_PAD
          \<and> (\<exists>s. length s = 2 \<and> take 268 (buf_content b') = patch 26 s (take 268 (buf_content b)))
          \<and> udp_sum (buf_content b') mod 65535 = 0
        else b' = b)"
proof -
  let ?c = "buf_content b" and ?q = "opts_bytes (filter (\<lambda>x. \<not> is_router x) xs) @ e @ replicate (routers_len xs) DHCP_PAD"
  have r': "268 \<le> length ?c" "length ?c < 65536" "?c ! 9 = OPENVPN_IPPROTO_UDP" "rd16 (slice 20 2 ?c) = BOOTPS_PORT" "rd16 (slice 22 2 ?c) = BOOTPC_PORT" "?c ! 28 = BOOTREPLY"
    using r by (simp_all add: dhcp_reply_def)
  have bl: "buf_len b = int (length ?c)" using b len_buf_content [OF b] by (auto elim: buf_live_Some)
  have opt: "buf_len b - (IPHDR_SIZE + UDPHDR_SIZE + DHCP_SIZE) = int (length ?c - 268)" using bl r'(1) by (simp add: IPHDR_SIZE_def UDPHDR_SIZE_def DHCP_SIZE_def)
  have hd: "hdr_byte b 9 = Some OPENVPN_IPPROTO_UDP" "hdr_byte b 28 = Some BOOTREPLY" "hdr_ntohs b 20 = Some BOOTPS_PORT" "hdr_ntohs b 22 = Some BOOTPC_PORT"
    using hdr_byte_live [OF b, of 9] hdr_byte_live [OF b, of 28] hdr_bytes_live [OF b, of 20 2] hdr_bytes_live [OF b, of 22 2] r'
    by (simp_all add: hdr_ntohs_def)
  have sl: "slice 268 (length ?c - 268) ?c = drop 268 ?c" by (simp add: slice_def)
  have ob: "hdr_bytes b 268 (int (length ?c - 268)) = Some (opts_bytes xs @ e)"
    using hdr_bytes_live [OF b, of 268 "length ?c - 268"] r'(1) sl unfolding o(1) by simp
  note ty = get_type_items [OF o(2,3), of "[]", simplified] and ex = do_extract_items [OF o(2,3), of "[]" 0, simplified]
  show ?thesis
  proof (cases "msg_type xs = DHCPACK \<or> msg_type xs = DHCPOFFER")
    case False
    then show ?thesis using opt hd ob ty by (auto simp: dhcp_extract_router_msg_def Let_def)
  next
    case True
    have ql: "length ?q = length ?c - 268"
    proof -
      have "length (opts_bytes xs) = length (opts_bytes (filter (\<lambda>x. \<not> is_router x) xs)) + routers_len xs"
        by (induction xs) (auto simp: opts_bytes_def routers_len_def)
      then show ?thesis using arg_cong [OF o(1), of length] by simp
    qed
    from put_window [OF b, of 268 ?q] ql r'(1) obtain b1 where b1: "hdr_put b 268 ?q = Some b1" "buf_live b1" "buf_window b1 = buf_window b" "buf_content b1 = patch 268 ?q ?c"
      by auto
    have c1: "length (buf_content b1) = length ?c" "take 268 (buf_content b1) = take 268 ?c" "drop 268 (buf_content b1) = ?q"
      using b1(4) ql r'(1) by (simp_all add: patch_def)
    have cq: "buf_content b1 = take 268 ?c @ ?q" using b1(4) ql r'(1) by (simp add: patch_def)
    let ?n = "UDPHDR_SIZE + DHCP_SIZE + int (length ?c - 268)"
    have "?n = int (length (buf_content b1)) - 20" using c1(1) r'(1) by (simp add: UDPHDR_SIZE_def DHCP_SIZE_def)
    from rewrite_checksum [OF b1(2) _ _ this] c1(1) r' obtain b' s where
      w: "do {
          b \<leftarrow> hdr_put b1 26 [0, 0];
          payload \<leftarrow> hdr_bytes b 20 ?n;
          saddr \<leftarrow> hdr_bytes b 12 4;
          daddr \<leftarrow> hdr_bytes b 16 4;
          hdr_put b 26 (be16 (ip_checksum payload saddr daddr (uint OPENVPN_IPPROTO_UDP))) } = Some b'"
        "buf_live b'" "buf_window b' = buf_window b1" "length s = 2" "buf_content b' = patch 26 s (buf_content b1)" "udp_sum (buf_content b') mod 65535 = 0" by auto
    have "drop 268 (buf_content b') = ?q" "take 268 (buf_content b') = patch 26 s (take 268 ?c)"
      using w(4,5) cq r'(1) by (simp_all add: patch_def drop_take)
    moreover have "dhcp_extract_router_msg b = Some (if msg_type xs = DHCPACK then router_addr 0 xs else 0, b')"
      using w(1) b1(1) True hd ob ty ex unfolding dhcp_extract_router_msg_def opt by (auto split: bind_splits)
    ultimately show ?thesis using w b1 True by auto
  qed
qed


definition dhcp_ack :: bytes where
  "dhcp_ack = (replicate 9 0 @ [17] @ replicate 10 0) @ [0, 67, 0, 68, 1, 4, 0, 0] @ [2] @ replicate 239 0 @ [53, 1, 5, 3, 4, 10, 8, 0, 1, 255]"

lemma dhcp_ack_simps: "length dhcp_ack = 278" "dhcp_reply dhcp_ack" "drop 268 dhcp_ack = opts_bytes [Opt DHCP_MSG_TYPE [5], Opt DHCP_ROUTER [10, 8, 0, 1]] @ [DHCP_END]"
  by (simp_all add: dhcp_ack_def dhcp_reply_def slice_def nth_append OPENVPN_IPPROTO_UDP_def BOOTPS_PORT_def BOOTPC_PORT_def BOOTREPLY_def from_be_def
      opts_bytes_def DHCP_MSG_TYPE_def DHCP_ROUTER_def DHCP_END_def)

theorem dhcp_extract_router_correct_witness:
  "\<exists>b'. dhcp_extract_router_msg (packet_buf dhcp_ack) = Some (0x0a080001, b') \<and> drop 268 (buf_content b') = [53, 1, 5, 255, 0, 0, 0, 0, 0, 0]
     \<and> udp_sum (buf_content b') mod 65535 = 0"
proof -
  have b: "buf_live (packet_buf dhcp_ack)" "buf_content (packet_buf dhcp_ack) = dhcp_ack" by (simp_all add: packet_buf_live dhcp_ack_simps BUF_SIZE_MAX_def)
  have a: "(from_be [10, 8, 0, 1] :: u32) = 0x0a080001" by (simp add: from_be_def push_bit_eq_mult)
  show ?thesis
    using dhcp_extract_router_correct [of "packet_buf dhcp_ack" "[Opt DHCP_MSG_TYPE [5], Opt DHCP_ROUTER [10, 8, 0, 1]]" "[DHCP_END]"] dhcp_ack_simps b a
    by (auto simp: opts_end_def DHCP_MSG_TYPE_def DHCP_ROUTER_def DHCP_END_def DHCP_PAD_def DHCPACK_def opts_bytes_def routers_len_def)
qed

end
