(* ===== verification/Tun_Path.thy ===== *)
theory Tun_Path
  imports Tunnel Dhcp
begin

text \<open>
  The way between the tunnel device and the packet path (\<^verbatim>\<open>forward.c\<close>): what is done to the IP packets read from the device before they are encrypted
  (\<^verbatim>\<open>process_incoming_tun\<close>) and to those that were received before they are written to it (\<^verbatim>\<open>process_outgoing_tun\<close>). Packets to the VPN server itself are dropped so that
  they do not run in circles, the headers are examined (\<^verbatim>\<open>process_ip_header\<close>), and blocked IPv6 packets are answered with an ICMPv6 error.
\<close>

section \<open>State and settings\<close>

definition PROTO_UDP :: int where "PROTO_UDP = 1"
definition PROTO_TCP :: int where "PROTO_TCP = 2"
definition PROTO_TCP_SERVER :: int where "PROTO_TCP_SERVER = 3"
definition PROTO_TCP_CLIENT :: int where "PROTO_TCP_CLIENT = 4"

definition PIPV4_PASSTOS :: u32 where "PIPV4_PASSTOS = 1"
definition PIP_MSSFIX :: u32 where "PIP_MSSFIX = 2"
definition PIP_OUTGOING :: u32 where "PIP_OUTGOING = 4"
definition PIPV4_EXTRACT_DHCP_ROUTER :: u32 where "PIPV4_EXTRACT_DHCP_ROUTER = 8"
definition PIPV4_CLIENT_NAT :: u32 where "PIPV4_CLIENT_NAT = 16"
definition PIPV6_ICMP_NOHOST_CLIENT :: u32 where "PIPV6_ICMP_NOHOST_CLIENT = 32"
definition PIPV6_ICMP_NOHOST_SERVER :: u32 where "PIPV6_ICMP_NOHOST_SERVER = 64"

definition OPENVPN_ICMP6_DESTINATION_UNREACHABLE :: u8 where "OPENVPN_ICMP6_DESTINATION_UNREACHABLE = 1"
definition OPENVPN_ICMP6_DU_NOROUTE :: u8 where "OPENVPN_ICMP6_DU_NOROUTE = 0"
definition ICMP6HDR_SIZE :: int where "ICMP6HDR_SIZE = 8"
definition MAX_ICMPV6LEN :: int where "MAX_ICMPV6LEN = 1280"

text \<open>The settings: type of the device, protocol of the link, and options. The IPv6 remote address is given by its bytes.\<close>

record tun_options =
  to_tunnel_type :: int
  to_proto :: int
  to_point_to_point :: bool
  to_allow_recursive_routing :: bool
  to_mssfix :: bool
  to_passtos :: bool
  to_client_nat :: "client_nat_entry list option"
  to_route_gateway_via_dhcp :: bool
  to_block_ipv6 :: bool
  to_ifconfig_ipv6_remote :: "bytes option"
  to_inactivity_timeout :: bool
  to_inactivity_minimum_bytes :: int

text \<open>The context with the counters of the device, the TOS value for the socket and the gateways handed to the route list.\<close>

record tun_state =
  tun_c :: vpn_context
  tun_read_bytes :: u64
  tun_write_bytes :: u64
  tun_inactivity_bytes :: int
  tun_inactivity_interval :: event_timeout
  tun_ptos :: "u8 option"
  tun_gateways :: "u32 list"

section \<open>Packets to the server itself\<close>

text \<open>Both ports are read, the source port for the log message only.\<close>

definition drop_if_recursive_routing :: "tun_options \<Rightarrow> openvpn_sockaddr option \<Rightarrow> buffer \<Rightarrow> buffer option" where
  "drop_if_recursive_routing to to_link_addr buf =
     (case to_link_addr of
        None \<Rightarrow> Some buf
      | Some link \<Rightarrow> do {
          (ver, off) \<leftarrow> get_tun_ip_ver (to_tunnel_type to) buf 0;
          (if ver = 4 then
             if buf_len buf < off + IPHDR_SIZE then Some buf
             else do {
               v \<leftarrow> hdr_byte buf off;
               let ip_hlen = OPENVPN_IPH_GET_LEN v;
               (if ip_hlen < IPHDR_SIZE \<or> buf_len buf < off + ip_hlen + 4 then Some buf
                else if sa_family link \<noteq> FAMILY_INET then Some buf
                else do {
                  protocol \<leftarrow> hdr_byte buf (off + 9);
                  (if to_proto to = PROTO_TCP \<and> protocol \<noteq> OPENVPN_IPPROTO_TCP \<or> to_proto to = PROTO_UDP \<and> protocol \<noteq> OPENVPN_IPPROTO_UDP then Some buf
                   else do {
                     src_port \<leftarrow> hdr_ntohs buf (off + ip_hlen);
                     dst_port \<leftarrow> hdr_ntohs buf (off + ip_hlen + 2);
                     daddr \<leftarrow> hdr_raw32 buf (off + 16);
                     Some (if daddr = sa_addr4 link \<and> htons (sa_port link) = dst_port then buf\<lparr>len := 0\<rparr> else buf) }) }) }
           else if ver = 6 then
             if buf_len buf < off + IPV6HDR_SIZE + 4 then Some buf
             else if sa_family link \<noteq> FAMILY_INET6 then Some buf
             else do {
               nexthdr \<leftarrow> hdr_byte buf (off + 6);
               (if to_proto to = PROTO_TCP \<and> nexthdr \<noteq> OPENVPN_IPPROTO_TCP \<or> to_proto to = PROTO_UDP \<and> nexthdr \<noteq> OPENVPN_IPPROTO_UDP then Some buf
                else do {
                  src_port \<leftarrow> hdr_ntohs buf (off + IPV6HDR_SIZE);
                  dst_port \<leftarrow> hdr_ntohs buf (off + IPV6HDR_SIZE + 2);
                  daddr \<leftarrow> hdr_bytes buf (off + 24) 16;
                  Some (if daddr = sa_addr6 link \<and> htons (sa_port link) = dst_port then buf\<lparr>len := 0\<rparr> else buf) }) }
           else Some buf) })"

section \<open>Blocked IPv6 packets\<close>

definition fake_ipv6_addr :: bytes where
  "fake_ipv6_addr = [0xfe, 0x80] @ replicate 13 0 @ [7]"

text \<open>The IPv6 header of the answer: version, class, flow label and hop limit are those of the packet, which was sent from \<open>saddr\<close>.\<close>

definition icmp_ipv6_header :: "bytes \<Rightarrow> u16 \<Rightarrow> bytes \<Rightarrow> bytes" where
  "icmp_ipv6_header pip6 icmp_len source = slice 0 4 pip6 @ be16 icmp_len @ [OPENVPN_IPPROTO_ICMPV6, pip6 ! 7] @ source @ slice 8 16 pip6"

text \<open>The answer, built in the auxiliary buffer: the part of the packet that fits, and three headers in front of it, the last one for an Ethernet device only.\<close>

definition ipv6_send_icmp_unreachable :: "tun_options \<Rightarrow> vpn_context \<Rightarrow> buffer \<Rightarrow> bool \<Rightarrow> vpn_context option" where
  "ipv6_send_icmp_unreachable to c buf client = do {
     (_, inputipbuf) \<leftarrow> is_ipv6 (to_tunnel_type to) buf;
     (if buf_len inputipbuf < IPV6HDR_SIZE then Some c
      else do {
        pip6 \<leftarrow> hdr_bytes inputipbuf 0 IPV6HDR_SIZE;
        let source = (case to_ifconfig_ipv6_remote to of Some a \<Rightarrow> a | None \<Rightarrow> fake_ipv6_addr);
        let icmpheader_len = IPV6HDR_SIZE + ICMP6HDR_SIZE;
        let totalheader_len = icmpheader_len + (if to_tunnel_type to = DEV_TYPE_TAP then ETHHDR_SIZE else 0);
        let max_payload_size = min_int MAX_ICMPV6LEN (tun_mtu (c2_frame c) - icmpheader_len);
        let payload_len = min_int max_payload_size (buf_len inputipbuf);
        let icmp_len = word_of_int (ICMP6HDR_SIZE + payload_len);
        let pip6out = icmp_ipv6_header pip6 icmp_len source;
        let (ok, out) = buf_init_dowork (c2_aux_buf c) totalheader_len;
        c_assert ok;
        c_assert (buf_safe out payload_len);
        (ok, out, _) \<leftarrow> buf_copy_n out inputipbuf payload_len;
        c_assert ok;
        (ok, out) \<leftarrow> buf_write_prepend out [OPENVPN_ICMP6_DESTINATION_UNREACHABLE, OPENVPN_ICMP6_DU_NOROUTE, 0, 0, 0, 0, 0, 0];
        c_assert ok;
        body \<leftarrow> buf_bytes out;
        out \<leftarrow> hdr_put out 2 (be16 (ip_checksum body source (slice 8 16 pip6) (uint OPENVPN_IPPROTO_ICMPV6)));
        (ok, out) \<leftarrow> buf_write_prepend out pip6out;
        c_assert ok;
        out \<leftarrow> (if to_tunnel_type to = DEV_TYPE_TAP \<and> buf_len buf \<ge> ETHHDR_SIZE then do {
                  dest \<leftarrow> hdr_bytes buf 0 6;
                  source \<leftarrow> hdr_bytes buf 6 6;
                  (ok, out) \<leftarrow> buf_write_prepend out (source @ dest @ be16 OPENVPN_ETH_P_IPV6);
                  c_assert ok;
                  Some out }
                else Some out);
        Some (if client then c\<lparr>c2_to_tun := out\<rparr> else c\<lparr>c2_to_link := out\<rparr>) })
   }"

section \<open>Examining the IP header\<close>

text \<open>The flags that the settings leave.\<close>

definition effective_flags :: "tun_options \<Rightarrow> u32 \<Rightarrow> u32" where
  "effective_flags to flags =
     (let flags = (if to_mssfix to then flags else flags AND NOT PIP_MSSFIX);
          flags = (if to_passtos to then flags else flags AND NOT PIPV4_PASSTOS);
          flags = (if to_client_nat to \<noteq> None then flags else flags AND NOT PIPV4_CLIENT_NAT);
          flags = (if to_route_gateway_via_dhcp to then flags else flags AND NOT PIPV4_EXTRACT_DHCP_ROUTER)
      in if to_block_ipv6 to then flags else flags AND NOT (PIPV6_ICMP_NOHOST_CLIENT OR PIPV6_ICMP_NOHOST_SERVER))"

text \<open>What is done to an IPv4 packet, which starts at \<open>ipbuf\<close>.\<close>

definition process_ipv4 :: "tun_options \<Rightarrow> u32 \<Rightarrow> buffer \<Rightarrow> tun_state \<Rightarrow> (buffer \<times> tun_state) option" where
  "process_ipv4 to flags ipbuf st = do {
     st \<leftarrow> (if flags AND PIPV4_PASSTOS \<noteq> 0 then do { tos \<leftarrow> hdr_byte ipbuf 1; Some (st\<lparr>tun_ptos := Some tos\<rparr>) } else Some st);
     ipbuf \<leftarrow> (if flags AND PIP_MSSFIX \<noteq> 0 then mss_fixup_ipv4 ipbuf (mss_fix (c2_frame (tun_c st))) else Some ipbuf);
     ipbuf \<leftarrow> (case to_client_nat to of
                 Some rules \<Rightarrow>
                   if flags AND PIPV4_CLIENT_NAT \<noteq> 0
                   then client_nat_transform rules ipbuf (if flags AND PIP_OUTGOING \<noteq> 0 then CN_INCOMING else CN_OUTGOING) else Some ipbuf
               | None \<Rightarrow> Some ipbuf);
     (if flags AND PIPV4_EXTRACT_DHCP_ROUTER \<noteq> 0 then do {
        (router, ipbuf) \<leftarrow> dhcp_extract_router_msg ipbuf;
        Some (ipbuf, if router \<noteq> 0 then st\<lparr>tun_gateways := tun_gateways st @ [router]\<rparr> else st) }
      else Some (ipbuf, st))
   }"

text \<open>\<open>ipbuf\<close> shares the memory of the packet \<open>buf\<close>.\<close>

definition process_ip_header :: "tun_options \<Rightarrow> u32 \<Rightarrow> buffer \<Rightarrow> tun_state \<Rightarrow> (buffer \<times> tun_state) option" where
  "process_ip_header to flags buf st = do {
     let flags = effective_flags to flags;
     (if len buf > 0 then do {
        (v4, ipbuf) \<leftarrow> is_ipv4 (to_tunnel_type to) buf;
        (if v4 then do {
           (ipbuf, st) \<leftarrow> process_ipv4 to flags ipbuf st;
           Some (buf\<lparr>data := data ipbuf\<rparr>, st) }
         else do {
           (v6, ipbuf) \<leftarrow> is_ipv6 (to_tunnel_type to) ipbuf;
           (if v6 then do {
              ipbuf \<leftarrow> (if flags AND PIP_MSSFIX \<noteq> 0 then mss_fixup_ipv6 ipbuf (mss_fix (c2_frame (tun_c st))) else Some ipbuf);
              let buf = buf\<lparr>data := data ipbuf\<rparr>;
              (if flags AND PIP_OUTGOING = 0 \<and> flags AND (PIPV6_ICMP_NOHOST_CLIENT OR PIPV6_ICMP_NOHOST_SERVER) \<noteq> 0 then do {
                 c \<leftarrow> ipv6_send_icmp_unreachable to (tun_c st) buf (flags AND PIPV6_ICMP_NOHOST_CLIENT \<noteq> 0);
                 Some (buf\<lparr>len := 0\<rparr>, st\<lparr>tun_c := c\<rparr>) }
               else Some (buf, st)) }
            else Some (buf, st)) }) }
      else Some (buf, st))
   }"

section \<open>From the device and to the device\<close>

definition process_incoming_tun :: "forward_lib \<Rightarrow> int \<Rightarrow> bool \<Rightarrow> tun_options \<Rightarrow> tun_state \<Rightarrow> tun_state option" where
  "process_incoming_tun lb now in_place to st = do {
     st \<leftarrow> (if len (c2_buf (tun_c st)) > 0 then do {
              let st = st\<lparr>tun_read_bytes := tun_read_bytes st + word_of_int (len (c2_buf (tun_c st)))\<rparr>;
              buf \<leftarrow> (if to_point_to_point to \<and> \<not> to_allow_recursive_routing to
                      then drop_if_recursive_routing to (c2_to_link_addr (tun_c st)) (c2_buf (tun_c st)) else Some (c2_buf (tun_c st)));
              (buf, st) \<leftarrow> process_ip_header to (PIPV4_PASSTOS OR PIP_MSSFIX OR PIPV4_CLIENT_NAT OR PIPV6_ICMP_NOHOST_CLIENT) buf st;
              Some (st\<lparr>tun_c := (tun_c st)\<lparr>c2_buf := buf\<rparr>\<rparr>) }
            else Some st);
     (if len (c2_buf (tun_c st)) > 0 then do { c \<leftarrow> encrypt_sign lb now in_place (tun_c st) True; Some (st\<lparr>tun_c := c\<rparr>) }
      else Some (st\<lparr>tun_c := (tun_c st)\<lparr>c2_to_link := buf_reset (c2_to_link (tun_c st))\<rparr>\<rparr>))
   }"

definition register_activity :: "tun_options \<Rightarrow> int \<Rightarrow> int \<Rightarrow> tun_state \<Rightarrow> tun_state" where
  "register_activity to now n st =
     (if to_inactivity_timeout to then
        let st = st\<lparr>tun_inactivity_bytes := tun_inactivity_bytes st + n\<rparr>
        in if tun_inactivity_bytes st \<ge> to_inactivity_minimum_bytes to
           then st\<lparr>tun_inactivity_bytes := 0, tun_inactivity_interval := event_timeout_reset now (tun_inactivity_interval st)\<rparr> else st
      else st)"

text \<open>The bytes handed to the device, if any; \<open>written\<close> is the number of bytes the device says it took.\<close>

definition process_outgoing_tun :: "int \<Rightarrow> (bytes \<Rightarrow> int) \<Rightarrow> tun_options \<Rightarrow> tun_state \<Rightarrow> (bytes option \<times> tun_state) option" where
  "process_outgoing_tun now written to st =
     (if len (c2_to_tun (tun_c st)) \<le> 0 then Some (None, st)
      else do {
        (buf, st) \<leftarrow> process_ip_header to (PIP_MSSFIX OR PIPV4_EXTRACT_DHCP_ROUTER OR PIPV4_CLIENT_NAT OR PIP_OUTGOING) (c2_to_tun (tun_c st)) st;
        (out, st) \<leftarrow>
          (if len buf \<le> fb_payload_size (c2_frame (tun_c st)) then do {
             bs \<leftarrow> buf_bytes buf;
             let n = written bs;
             Some (Some bs, if n > 0 then register_activity to now n (st\<lparr>tun_write_bytes := tun_write_bytes st + word_of_int n\<rparr>) else st) }
           else Some (None, st));
        Some (out, st\<lparr>tun_c := (tun_c st)\<lparr>c2_to_tun := buf_reset buf\<rparr>\<rparr>) })"

end
