(* ===== verification/Tun_Safe.thy ===== *)
theory Tun_Safe
  imports Tun_Path
begin

text \<open>
  What \<open>Tun_Path\<close> does to packets of a TUN device: examining any packet stays within its buffer, packets to the server are not sent, blocked IPv6 packets are not sent
  either and are answered correctly.
\<close>

section \<open>Any packet\<close>

lemma flag_bits:
  "PIPV4_PASSTOS = 1" "PIP_MSSFIX = 2" "PIP_OUTGOING = 4" "PIPV4_EXTRACT_DHCP_ROUTER = 8" "PIPV4_CLIENT_NAT = 16"
  "PIPV6_ICMP_NOHOST_CLIENT = 32" "PIPV6_ICMP_NOHOST_SERVER = 64"
  by (simp_all add: PIPV4_PASSTOS_def PIP_MSSFIX_def PIP_OUTGOING_def PIPV4_EXTRACT_DHCP_ROUTER_def PIPV4_CLIENT_NAT_def
      PIPV6_ICMP_NOHOST_CLIENT_def PIPV6_ICMP_NOHOST_SERVER_def)

text \<open>On a TUN device a packet is an IP packet of a version when its first half byte says so and it has room for an IPv4 header.\<close>

definition tun_version :: "int \<Rightarrow> bytes \<Rightarrow> bool" where
  "tun_version v c \<longleftrightarrow> 20 \<le> length c \<and> OPENVPN_IPH_GET_VER (c ! 0) = v"

lemma buf_len_content: "buf_live b \<Longrightarrow> buf_len b = int (length (buf_content b))"
  using len_buf_content [of b] by (auto elim: buf_live_Some)

lemma advance_zero: "buf_live b \<Longrightarrow> buf_advance b 0 = (True, b)"
  by (auto simp: buf_advance_def elim!: buf_live_Some)

lemma is_ipv_X_tun: "buf_live b \<Longrightarrow> is_ipv_X DEV_TYPE_TUN b v = Some (tun_version v (buf_content b), b)"
proof -
  assume b: "buf_live b"
  show ?thesis
  proof (cases "length (buf_content b) < 20")
    case False
    then have "hdr_byte b 0 = Some (buf_content b ! 0)" using hdr_byte_live [OF b, of 0] by fastforce
    with b False show ?thesis by (simp add: is_ipv_X_def tun_version_def buf_len_content IPHDR_SIZE_def advance_zero)
  qed (use b in \<open>simp add: is_ipv_X_def tun_version_def buf_len_content IPHDR_SIZE_def\<close>)
qed

lemma is_ipv4_tun: "buf_live b \<Longrightarrow> is_ipv4 DEV_TYPE_TUN b = Some (tun_version 4 (buf_content b), b)"
  and is_ipv6_tun: "buf_live b \<Longrightarrow> is_ipv6 DEV_TYPE_TUN b = Some (tun_version 6 (buf_content b), b)"
  by (simp_all add: is_ipv4_def is_ipv6_def is_ipv_X_tun)

lemma rewriting_total:
  assumes "buf_live b"
  shows "\<exists>b'. mss_fixup_ipv4 b m = Some b' \<and> buf_live b' \<and> buf_window b' = buf_window b"
    and "\<exists>b'. mss_fixup_ipv6 b m = Some b' \<and> buf_live b' \<and> buf_window b' = buf_window b"
    and "20 \<le> length (buf_content b) \<Longrightarrow> \<exists>b'. client_nat_transform es b d = Some b' \<and> buf_live b' \<and> buf_window b' = buf_window b"
  using mss_fixup_ipv4_spec [OF assms, of m] mss_fixup_ipv6_spec [OF assms, of m] nat_transform_spec [OF assms, of es d]
  by (auto simp: mss_result_def split: if_splits)

lemma process_ipv4_total:
  assumes "buf_live b" "20 \<le> length (buf_content b)" "length (buf_content b) < 65536"
  shows "\<exists>b' st'. process_ipv4 to flags b st = Some (b', st') \<and> buf_live b' \<and> buf_window b' = buf_window b \<and> tun_c st' = tun_c st"
proof -
  let ?live = "\<lambda>b'. buf_live b' \<and> buf_window b' = buf_window b"
  have t: "hdr_byte b 1 = Some (buf_content b ! 1)" using hdr_byte_live [OF assms(1), of 1] assms(2) by simp
  obtain st1 where st1: "(if flags AND PIPV4_PASSTOS \<noteq> 0 then do { tos \<leftarrow> hdr_byte b 1; Some (st\<lparr>tun_ptos := Some tos\<rparr>) } else Some st) = Some st1" "tun_c st1 = tun_c st"
    using t by (cases "flags AND PIPV4_PASSTOS \<noteq> 0") auto
  obtain b1 where b1: "(if flags AND PIP_MSSFIX \<noteq> 0 then mss_fixup_ipv4 b (mss_fix (c2_frame (tun_c st1))) else Some b) = Some b1" "?live b1"
    using rewriting_total(1) [OF assms(1), of "mss_fix (c2_frame (tun_c st1))"] assms(1) by (cases "flags AND PIP_MSSFIX \<noteq> 0") auto
  have l1: "length (buf_content b1) = length (buf_content b)" using b1(2) assms(1) window_len by blast
  let ?nat = "case to_client_nat to of Some rules \<Rightarrow>
        if flags AND PIPV4_CLIENT_NAT \<noteq> 0 then client_nat_transform rules b1 (if flags AND PIP_OUTGOING \<noteq> 0 then CN_INCOMING else CN_OUTGOING) else Some b1
      | None \<Rightarrow> Some b1"
  obtain b2 where b2: "?nat = Some b2" "?live b2"
  proof (cases "to_client_nat to")
    case (Some rules)
    let ?d = "if flags AND PIP_OUTGOING \<noteq> 0 then CN_INCOMING else CN_OUTGOING"
    have "20 \<le> length (buf_content b1)" using l1 assms(2) by simp
    with b1(2) rewriting_total(3) [of b1 rules ?d] obtain b' where "client_nat_transform rules b1 ?d = Some b'" "?live b'" by auto
    with that b1(2) Some show thesis by (cases "flags AND PIPV4_CLIENT_NAT \<noteq> 0") simp_all
  qed (use that b1(2) in simp)
  have "length (buf_content b2) = length (buf_content b)" using b2(2) assms(1) window_len by blast
  with dhcp_extract_total [of b2] b2(2) assms(3) obtain r b3 where "dhcp_extract_router_msg b2 = Some (r, b3)" "?live b3" by auto
  with st1 b1 b2 show ?thesis
    by (cases "flags AND PIPV4_EXTRACT_DHCP_ROUTER \<noteq> 0") (simp_all add: process_ipv4_def)
qed


section \<open>The answer to a blocked packet\<close>

lemma copy_n_read:
  "buf_copy_n dest src n = do {
     (r, s) \<leftarrow> buf_read src n;
     (case r of None \<Rightarrow> Some (False, dest, s) | Some bs \<Rightarrow> do { (ok, d) \<leftarrow> buf_write dest bs; Some (ok, d, s) }) }"
  by (cases "buf_read_alloc src n") (auto simp: buf_copy_n_def buf_read_def split: option.splits bind_splits)

lemma copy_n_live:
  assumes "buf_live d" "buf_live s" "n \<le> length (buf_content s)" "n \<le> buf_room d"
  obtains d' s' where "buf_copy_n d s (int n) = Some (True, d', s')" "buf_live d'" "buf_content d' = buf_content d @ take n (buf_content s)" "buf_headroom d' = buf_headroom d"
proof -
  let ?x = "take n (buf_content s)"
  have x: "length ?x = n" "buf_content s = ?x @ drop n (buf_content s)" using assms(3) by simp_all
  from wire.get_ok [OF assms(2) x(2)] x(1) obtain s' where r: "buf_read s (int n) = Some (Some ?x, s')" by auto
  from wire.put_ok [OF assms(1), of ?x] x(1) assms(4) obtain d' where
    "buf_write d ?x = Some (True, d')" "buf_live d'" "buf_content d' = buf_content d @ ?x" "buf_headroom d' = buf_headroom d" by auto
  with r that show thesis by (simp add: copy_n_read)
qed

text \<open>The answer: the header with the addresses turned round, the ICMPv6 header with its checksum, and the first \<open>n\<close> bytes of the packet.\<close>

definition icmp_answer :: "bytes \<Rightarrow> nat \<Rightarrow> bytes \<Rightarrow> u16 \<Rightarrow> bytes" where
  "icmp_answer source n c ck = icmp_ipv6_header (slice 0 40 c) (of_nat (8 + n)) source @ [1, 0] @ be16 ck @ [0, 0, 0, 0] @ take n c"

definition icmp_sum :: "bytes \<Rightarrow> int" where
  "icmp_sum p = ocsum (drop 40 p) + ocsum (slice 8 16 p) + ocsum (slice 24 16 p) + int (length (drop 40 p)) + 58"

definition icmp_payload :: "vpn_context \<Rightarrow> bytes \<Rightarrow> nat" where
  "icmp_payload c bs = nat (min_int (min_int MAX_ICMPV6LEN (tun_mtu (c2_frame c) - 48)) (int (length bs)))"

definition icmp_source :: "tun_options \<Rightarrow> bytes" where
  "icmp_source to = (case to_ifconfig_ipv6_remote to of Some a \<Rightarrow> a | None \<Rightarrow> fake_ipv6_addr)"

lemma icmp_answer_sum:
  assumes "length source = 16" "40 \<le> length c" "n \<le> length c" "n \<le> 1280"
    and ck: "ck = ip_checksum ([1, 0, 0, 0, 0, 0, 0, 0] @ take n c) source (slice 8 16 c) 58"
  shows "icmp_sum (icmp_answer source n c ck) mod 65535 = 0" "length (icmp_answer source n c ck) = 48 + n"
proof -
  let ?b = "[1, 0, 0, 0, 0, 0, 0, 0] @ take n c" and ?h = "icmp_ipv6_header (slice 0 40 c) (of_nat (8 + n)) source" and ?d = "slice 8 16 c"
  let ?e = "[1, 0] @ be16 ck @ [0, 0, 0, 0] @ take n c"
  have hc: "slice 8 16 (slice 0 40 c) = ?d" "length ?d = 16" "length (slice 0 4 (slice 0 40 c)) = 4" using assms(2) by (simp_all add: slice_def take_drop min_def)
  then have h: "length ?h = 40" using assms(1) by (simp add: icmp_ipv6_header_def)
  have p: "icmp_answer source n c ck = ?h @ ?e" by (simp add: icmp_answer_def)
  show "length (icmp_answer source n c ck) = 48 + n" unfolding p using h assms(3) by simp
  have "slice 8 16 (?h @ ?e) = source" "slice 24 16 (?h @ ?e) = ?d"
    using hc assms(1) by (simp_all add: icmp_ipv6_header_def slice_def)
  moreover have "ocsum ?e = ocsum ?b + uint ck"
    using ocsum_append [of "[1, 0] @ be16 ck @ [0, 0, 0, 0]" "take n c"] ocsum_append [of "[1, 0] @ be16 ck" "[0, 0, 0, 0]"] ocsum_append [of "[1, 0]" "be16 ck"]
      ocsum_append [of "[1, 0, 0, 0, 0, 0, 0, 0]" "take n c"] by simp
  moreover have "(ocsum ?b + ocsum source + ocsum ?d + int (length ?b) + 58 + uint (ip_checksum ?b source ?d 58)) mod 65535 = 0"
    by (rule ip_checksum_valid) (use assms hc in simp_all)
  ultimately show "icmp_sum (icmp_answer source n c ck) mod 65535 = 0"
    unfolding p icmp_sum_def using h ck assms(3) by (simp add: algebra_simps)
qed

lemma icmp_unreachable_spec:
  assumes b: "buf_live b" "40 \<le> length (buf_content b)" "tun_version 6 (buf_content b)" and t: "to_tunnel_type to = DEV_TYPE_TUN"
    and m: "48 \<le> tun_mtu (c2_frame c)" and s: "length (icmp_source to) = 16" and a: "buf_live (c2_aux_buf c)" "48 + int (icmp_payload c (buf_content b)) \<le> capacity (c2_aux_buf c)"
  shows "\<exists>out. ipv6_send_icmp_unreachable to c b client = Some (if client then c\<lparr>c2_to_tun := out\<rparr> else c\<lparr>c2_to_link := out\<rparr>)
     \<and> buf_live out \<and> (\<exists>ck. buf_content out = icmp_answer (icmp_source to) (icmp_payload c (buf_content b)) (buf_content b) ck)
     \<and> icmp_sum (buf_content out) mod 65535 = 0"
proof -
  let ?c = "buf_content b" and ?s = "icmp_source to"
  let ?n = "icmp_payload c ?c"
  have n: "min_int (min_int MAX_ICMPV6LEN (tun_mtu (c2_frame c) - (IPV6HDR_SIZE + ICMP6HDR_SIZE))) (buf_len b) = int ?n" "?n \<le> length ?c" "?n \<le> 1280"
    using m buf_len_content [OF b(1)] by (simp_all add: icmp_payload_def min_int_def MAX_ICMPV6LEN_def IPV6HDR_SIZE_def ICMP6HDR_SIZE_def)
  have hb: "hdr_bytes b 0 IPV6HDR_SIZE = Some (slice 0 40 ?c)" using hdr_bytes_live [OF b(1), of 0 40] b(2) by (simp add: IPV6HDR_SIZE_def)
  have sl: "slice 8 16 (slice 0 40 ?c) = slice 8 16 ?c" by (simp add: slice_def take_drop)
  have "0 \<le> capacity (c2_aux_buf c)" "48 \<le> capacity (c2_aux_buf c)" using a by simp_all
  with buf_init_live [OF a(1), of 48] obtain o1 where o1: "buf_init_dowork (c2_aux_buf c) 48 = (True, o1)" "buf_live o1" "buf_content o1 = []" "offset o1 = 48"
    "capacity o1 = capacity (c2_aux_buf c)" "len o1 = 0" by auto
  have room: "?n \<le> buf_room o1" "buf_headroom o1 = 48" using o1 a(2) by (simp_all add: buf_room_def buf_headroom_def)
  from copy_n_live [OF o1(2) b(1) n(2) room(1)] room(2) o1(3) obtain o2 i where
    o2: "buf_copy_n o1 b (int ?n) = Some (True, o2, i)" "buf_live o2" "buf_content o2 = take ?n ?c" "buf_headroom o2 = 48" by auto
  let ?z = "[OPENVPN_ICMP6_DESTINATION_UNREACHABLE, OPENVPN_ICMP6_DU_NOROUTE, 0, 0, 0, 0, 0, 0]"
  from wire.push_ok [OF o2(2), of ?z] o2 obtain o3 where
    o3: "buf_write_prepend o2 ?z = Some (True, o3)" "buf_live o3" "buf_content o3 = [1, 0, 0, 0, 0, 0, 0, 0] @ take ?n ?c" "buf_headroom o3 = 40"
    by (auto simp: OPENVPN_ICMP6_DESTINATION_UNREACHABLE_def OPENVPN_ICMP6_DU_NOROUTE_def)
  define ck where "ck = ip_checksum ([1, 0, 0, 0, 0, 0, 0, 0] @ take ?n ?c) ?s (slice 8 16 ?c) 58"
  from put_window [OF o3(2), of 2 "be16 ck"] o3(3) obtain o4 where
    o4: "hdr_put o3 2 (be16 ck) = Some o4" "buf_live o4" "buf_window o4 = buf_window o3" "buf_content o4 = [1, 0] @ be16 ck @ [0, 0, 0, 0] @ take ?n ?c"
    by (auto simp: patch_def)
  have "buf_headroom o4 = 40" using o4(3) o3(4) by (simp add: buf_window_def buf_headroom_def)
  moreover have "length (icmp_ipv6_header (slice 0 40 ?c) (of_nat (8 + ?n)) ?s) = 40"
    using icmp_answer_sum(2) [OF s b(2) n(2,3) ck_def] n(2) by (simp add: icmp_answer_def)
  ultimately obtain o5 where o5: "buf_write_prepend o4 (icmp_ipv6_header (slice 0 40 ?c) (of_nat (8 + ?n)) ?s) = Some (True, o5)" "buf_live o5"
      "buf_content o5 = icmp_answer ?s ?n ?c ck"
    using wire.push_ok [OF o4(2), of "icmp_ipv6_header (slice 0 40 ?c) (of_nat (8 + ?n)) ?s"] o4(4) by (auto simp: icmp_answer_def)
  have w: "(word_of_int ICMP6HDR_SIZE :: u16) = 8" by (simp add: ICMP6HDR_SIZE_def)
  have u: "uint OPENVPN_IPPROTO_ICMPV6 = 58" by (simp add: OPENVPN_IPPROTO_ICMPV6_def)
  have "buf_safe o1 (int ?n)" using buf_safe_room [OF o1(2)] room(1) by blast
  moreover have "IPV6HDR_SIZE + ICMP6HDR_SIZE + (if DEV_TYPE_TUN = DEV_TYPE_TAP then ETHHDR_SIZE else 0) = 48"
    by (simp add: IPV6HDR_SIZE_def ICMP6HDR_SIZE_def DEV_TYPE_TUN_def DEV_TYPE_TAP_def)
  moreover have "DEV_TYPE_TUN \<noteq> DEV_TYPE_TAP" by (simp add: DEV_TYPE_TUN_def DEV_TYPE_TAP_def)
  moreover have "\<not> buf_len b < IPV6HDR_SIZE" using b buf_len_content [OF b(1)] by (simp add: IPV6HDR_SIZE_def)
  ultimately have "ipv6_send_icmp_unreachable to c b client = Some (if client then c\<lparr>c2_to_tun := o5\<rparr> else c\<lparr>c2_to_link := o5\<rparr>)"
    using o1(1) o2(1) o3(1) o4(1) o5(1) n(1) hb b(3) is_ipv6_tun [OF b(1)] buf_bytes_live [OF o3(2)]
    unfolding ipv6_send_icmp_unreachable_def t icmp_source_def [symmetric] by (simp add: w u sl o3(3) ck_def)
  then show ?thesis using o5 icmp_answer_sum(1) [OF s b(2) n(2,3) ck_def] by auto
qed


section \<open>Examining any packet\<close>

text \<open>The auxiliary buffer has room for a packet of the size of the tunnel MTU.\<close>

definition aux_ready :: "tun_options \<Rightarrow> vpn_context \<Rightarrow> bool" where
  "aux_ready to c \<longleftrightarrow> 48 \<le> tun_mtu (c2_frame c) \<and> buf_live (c2_aux_buf c) \<and> tun_mtu (c2_frame c) \<le> capacity (c2_aux_buf c) \<and> length (icmp_source to) = 16"

lemma shared_memory:
  assumes "buf_live b" "buf_live b'" "buf_window b' = buf_window b"
  shows "b\<lparr>data := data b'\<rparr> = b'"
  using assms by (cases b; cases b') (simp add: buf_window_def)

lemma icmp_total:
  assumes "buf_live b" "tun_version 6 (buf_content b)" "to_tunnel_type to = DEV_TYPE_TUN" "aux_ready to c"
  shows "\<exists>c'. ipv6_send_icmp_unreachable to c b client = Some c'"
proof (cases "40 \<le> length (buf_content b)")
  case True
  have "48 + int (icmp_payload c (buf_content b)) \<le> capacity (c2_aux_buf c)" using assms(4) by (auto simp: aux_ready_def icmp_payload_def min_int_def)
  with icmp_unreachable_spec [OF assms(1) True assms(2,3), of c client] assms(4) show ?thesis by (auto simp: aux_ready_def)
next
  case False
  then show ?thesis using assms is_ipv6_tun [OF assms(1)] buf_len_content [OF assms(1)] by (simp add: ipv6_send_icmp_unreachable_def IPV6HDR_SIZE_def)
qed

lemma mss6_step:
  assumes b: "buf_live b" "tun_version 6 (buf_content b)"
  obtains b1 where "(if p then mss_fixup_ipv6 b m else Some b) = Some b1" "buf_live b1" "buf_window b1 = buf_window b" "tun_version 6 (buf_content b1)"
proof (cases p)
  case True
  from mss_fixup_ipv6_spec [OF b(1), of m] obtain b1 where b1: "mss_fixup_ipv6 b m = Some b1" "buf_live b1" "buf_window b1 = buf_window b"
    "case ipv6_tcp (buf_content b) of None \<Rightarrow> buf_content b1 = buf_content b | Some h \<Rightarrow> clamp_segment (m - 20) h (buf_content b) (buf_content b1)"
    by (auto simp: mss_result_def)
  have "take 20 (buf_content b1) = take 20 (buf_content b)"
  proof (cases "ipv6_tcp (buf_content b)")
    case (Some h)
    then have "take 40 (buf_content b1) = take 40 (buf_content b)" using b1(4) by (auto simp: clamp_segment_def ipv6_tcp_def split: if_splits)
    moreover have "take 20 (take 40 xs) = take 20 xs" for xs :: bytes by simp
    ultimately show ?thesis by metis
  qed (use b1(4) in simp)
  moreover have "take 20 xs ! 0 = xs ! 0" for xs :: bytes by simp
  ultimately have "buf_content b1 ! 0 = buf_content b ! 0" by metis
  then have "tun_version 6 (buf_content b1)" using b(2) window_len [OF b(1) b1(2,3)] by (simp add: tun_version_def)
  with True b1 that show thesis by simp
qed (use that b in simp)

lemma live_empty: "buf_live b \<Longrightarrow> buf_live (b\<lparr>len := 0\<rparr>)"
  by (auto simp: buf_live_def buf_wf_def split: option.splits)

lemma process_ip_header_total:
  assumes t: "to_tunnel_type to = DEV_TYPE_TUN" and b: "buf_live b" "length (buf_content b) < 65536" and a: "aux_ready to (tun_c st)"
  shows "\<exists>b' st'. process_ip_header to flags b st = Some (b', st') \<and> buf_live b' \<and> (buf_window b' = buf_window b \<or> len b' = 0)"
proof -
  let ?f = "effective_flags to flags"
  consider "\<not> 0 < len b" | "0 < len b" "tun_version 4 (buf_content b)" | "0 < len b" "\<not> tun_version 4 (buf_content b)" "\<not> tun_version 6 (buf_content b)"
    | "0 < len b" "\<not> tun_version 4 (buf_content b)" "tun_version 6 (buf_content b)" by blast
  then show ?thesis
  proof cases
    case 1
    then show ?thesis using b by (simp add: process_ip_header_def)
  next
    case 2
    then have "20 \<le> length (buf_content b)" by (simp add: tun_version_def)
    from process_ipv4_total [OF b(1) this b(2), of to ?f st] obtain b' st' where
      "process_ipv4 to ?f b st = Some (b', st')" "buf_live b'" "buf_window b' = buf_window b" by blast
    with 2 t is_ipv4_tun [OF b(1)] shared_memory [OF b(1)] show ?thesis by (simp add: process_ip_header_def)
  next
    case 3
    then show ?thesis using b t is_ipv4_tun [OF b(1)] is_ipv6_tun [OF b(1)] by (simp add: process_ip_header_def)
  next
    case 4
    obtain b1 where b1: "(if ?f AND PIP_MSSFIX \<noteq> 0 then mss_fixup_ipv6 b (mss_fix (c2_frame (tun_c st))) else Some b) = Some b1" "buf_live b1" "buf_window b1 = buf_window b"
      "tun_version 6 (buf_content b1)" by (rule mss6_step [OF b(1) 4(3)])
    obtain c where c: "ipv6_send_icmp_unreachable to (tun_c st) b1 (?f AND PIPV6_ICMP_NOHOST_CLIENT \<noteq> 0) = Some c"
      using icmp_total [OF b1(2,4) t a] by blast
    have "process_ip_header to flags b st =
        (if ?f AND PIP_OUTGOING = 0 \<and> ?f AND (PIPV6_ICMP_NOHOST_CLIENT OR PIPV6_ICMP_NOHOST_SERVER) \<noteq> 0 then Some (b1\<lparr>len := 0\<rparr>, st\<lparr>tun_c := c\<rparr>) else Some (b1, st))"
      using 4 t is_ipv4_tun [OF b(1)] is_ipv6_tun [OF b(1)] b1(1) shared_memory [OF b(1) b1(2,3)] c by (simp add: process_ip_header_def Let_def)
    then show ?thesis using b1 live_empty by auto
  qed
qed

section \<open>Packets to the server itself\<close>

definition link_protocol :: "int \<Rightarrow> u8 \<Rightarrow> bool" where
  "link_protocol proto p \<longleftrightarrow> \<not> (proto = PROTO_TCP \<and> p \<noteq> OPENVPN_IPPROTO_TCP \<or> proto = PROTO_UDP \<and> p \<noteq> OPENVPN_IPPROTO_UDP)"

definition to_server4 :: "int \<Rightarrow> openvpn_sockaddr \<Rightarrow> bytes \<Rightarrow> bool" where
  "to_server4 proto link c \<longleftrightarrow> tun_version 4 c \<and> sa_family link = FAMILY_INET
     \<and> (let h = nat (OPENVPN_IPH_GET_LEN (c ! 0)) in 20 \<le> h \<and> h + 4 \<le> length c \<and> link_protocol proto (c ! 9) \<and> addr_at 16 c = sa_addr4 link
        \<and> from_be (slice (h + 2) 2 c) = htons (sa_port link))"

definition to_server6 :: "int \<Rightarrow> openvpn_sockaddr \<Rightarrow> bytes \<Rightarrow> bool" where
  "to_server6 proto link c \<longleftrightarrow> tun_version 6 c \<and> 44 \<le> length c \<and> sa_family link = FAMILY_INET6 \<and> link_protocol proto (c ! 6) \<and> slice 24 16 c = sa_addr6 link
     \<and> from_be (slice 42 2 c) = htons (sa_port link)"

definition to_server :: "int \<Rightarrow> openvpn_sockaddr option \<Rightarrow> bytes \<Rightarrow> bool" where
  "to_server proto link c \<longleftrightarrow> (case link of None \<Rightarrow> False | Some l \<Rightarrow> to_server4 proto l c \<or> to_server6 proto l c)"

lemma version_tun: "buf_live b \<Longrightarrow> get_tun_ip_ver DEV_TYPE_TUN b 0
  = Some (if 20 \<le> length (buf_content b) then OPENVPN_IPH_GET_VER (buf_content b ! 0) else - 1, 0)"
proof -
  assume b: "buf_live b"
  have "20 \<le> length (buf_content b) \<Longrightarrow> hdr_byte b 0 = Some (buf_content b ! 0)" using hdr_byte_live [OF b, of 0] by fastforce
  then show ?thesis using buf_len_content [OF b] by (simp add: get_tun_ip_ver_def IPHDR_SIZE_def)
qed

lemma hlen_nonneg: "0 \<le> OPENVPN_IPH_GET_LEN v"
  by (simp add: OPENVPN_IPH_GET_LEN_def)

lemma drop_spec:
  assumes b: "buf_live b" and t: "to_tunnel_type to = DEV_TYPE_TUN"
  shows "drop_if_recursive_routing to link b = Some (if to_server (to_proto to) link (buf_content b) then b\<lparr>len := 0\<rparr> else b)"
proof (cases link)
  case None
  then show ?thesis by (simp add: drop_if_recursive_routing_def to_server_def)
next
  case (Some l)
  let ?c = "buf_content b"
  have bl: "buf_len b = int (length ?c)" by (rule buf_len_content [OF b])
  consider "\<not> tun_version 4 ?c" "\<not> tun_version 6 ?c" | "tun_version 4 ?c" | "tun_version 6 ?c" by blast
  then show ?thesis
  proof cases
    case 1
    then show ?thesis using version_tun [OF b] t Some
      by (auto simp: drop_if_recursive_routing_def to_server_def to_server4_def to_server6_def tun_version_def)
  next
    case 2
    then have v: "20 \<le> length ?c" "OPENVPN_IPH_GET_VER (?c ! 0) = 4" by (simp_all add: tun_version_def)
    obtain h where h: "OPENVPN_IPH_GET_LEN (?c ! 0) = int h" using hlen_nonneg nonneg_int_cases by metis
    have g: "hdr_byte b 0 = Some (?c ! 0)" "hdr_byte b 9 = Some (?c ! 9)" "hdr_raw32 b 16 = Some (addr_at 16 ?c)"
      using hdr_byte_live [OF b, of 0] hdr_byte_live [OF b, of 9] hdr_raw32_live [OF b, of 16] v(1) by fastforce+
    have p: "hdr_ntohs b (int h) = Some (from_be (slice h 2 ?c))" "hdr_ntohs b (int h + 2) = Some (from_be (slice (h + 2) 2 ?c))" if "h + 4 \<le> length ?c"
      using that hdr_bytes_live [OF b, of h 2] hdr_bytes_live [OF b, of "h + 2" 2] by (simp_all add: hdr_ntohs_def add.commute)
    have "\<not> to_server6 (to_proto to) l ?c" using v by (simp add: to_server6_def tun_version_def)
    moreover have "to_server4 (to_proto to) l ?c \<longleftrightarrow> sa_family l = FAMILY_INET \<and> 20 \<le> h \<and> h + 4 \<le> length ?c \<and> link_protocol (to_proto to) (?c ! 9)
        \<and> addr_at 16 ?c = sa_addr4 l \<and> from_be (slice (h + 2) 2 ?c) = htons (sa_port l)" using 2 h by (simp add: to_server4_def)
    ultimately show ?thesis using version_tun [OF b] t Some v g bl p
      by (auto simp: drop_if_recursive_routing_def to_server_def link_protocol_def IPHDR_SIZE_def h Let_def)
  next
    case 3
    then have v: "20 \<le> length ?c" "OPENVPN_IPH_GET_VER (?c ! 0) = 6" by (simp_all add: tun_version_def)
    have g: "hdr_byte b 6 = Some (?c ! 6)" using hdr_byte_live [OF b, of 6] v(1) by fastforce
    have p: "hdr_ntohs b 40 = Some (from_be (slice 40 2 ?c))" "hdr_ntohs b 42 = Some (from_be (slice 42 2 ?c))" "hdr_bytes b 24 16 = Some (slice 24 16 ?c)" if "44 \<le> length ?c"
      using that hdr_bytes_live [OF b, of 40 2] hdr_bytes_live [OF b, of 42 2] hdr_bytes_live [OF b, of 24 16] by (simp_all add: hdr_ntohs_def)
    have "\<not> to_server4 (to_proto to) l ?c" using v by (simp add: to_server4_def tun_version_def)
    then show ?thesis using version_tun [OF b] t Some v g bl p 3
      by (auto simp: drop_if_recursive_routing_def to_server_def to_server6_def link_protocol_def IPV6HDR_SIZE_def)
  qed
qed


section \<open>Properties\<close>


definition tun_plain :: tun_options where
  "tun_plain = \<lparr>to_tunnel_type = DEV_TYPE_TUN, to_proto = PROTO_UDP, to_point_to_point = True, to_allow_recursive_routing = False, to_mssfix = False, to_passtos = False,
     to_client_nat = None, to_route_gateway_via_dhcp = False, to_block_ipv6 = False, to_ifconfig_ipv6_remote = None, to_inactivity_timeout = False,
     to_inactivity_minimum_bytes = 0\<rparr>"

definition tun_with :: "bytes \<Rightarrow> openvpn_sockaddr option \<Rightarrow> tun_state" where
  "tun_with p link = \<lparr>tun_c = tunnel_end\<lparr>c2_buf := packet_buf p, c2_to_link_addr := link, c2_aux_buf := packet_buf (replicate 200 0),
       c2_frame := toy_comp_frame\<lparr>tun_mtu := 100\<rparr>\<rparr>, tun_read_bytes = 0, tun_write_bytes = 0,
     tun_inactivity_bytes = 0, tun_inactivity_interval = event_timeout_clear, tun_ptos = None, tun_gateways = []\<rparr>"

lemma tun_with_simps:
  "c2_buf (tun_c (tun_with p link)) = packet_buf p" "c2_to_link_addr (tun_c (tun_with p link)) = link"
  "length p < 1000 \<Longrightarrow> buf_live (packet_buf p)" "buf_content (packet_buf p) = p" "length (icmp_source to) = 16 \<Longrightarrow> aux_ready to (tun_c (tun_with p link))"
  "tun_mtu (c2_frame (tun_c (tun_with p link))) = 100"
  by (simp_all add: tun_with_def packet_buf_live BUF_SIZE_MAX_def aux_ready_def) (simp add: packet_buf_def)

lemma fake_source: "to_ifconfig_ipv6_remote to = None \<Longrightarrow> length (icmp_source to) = 16"
  by (simp add: icmp_source_def fake_ipv6_addr_def)


text \<open>What is dropped before examination is not sent.\<close>

lemma dropped_not_sent:
  assumes "buf_live (c2_buf (tun_c st))" "to_tunnel_type to = DEV_TYPE_TUN" "to_point_to_point to" "\<not> to_allow_recursive_routing to"
    and "to_server (to_proto to) (c2_to_link_addr (tun_c st)) (buf_content (c2_buf (tun_c st)))"
  shows "\<exists>st'. process_incoming_tun lb now in_place to st = Some st' \<and> len (c2_to_link (tun_c st')) = 0 \<and> c2_tls_multi (tun_c st') = c2_tls_multi (tun_c st)"
  using assms drop_spec [OF assms(1,2), of "c2_to_link_addr (tun_c st)"]
  by (simp add: process_incoming_tun_def process_ip_header_def buf_reset_def Let_def)

text \<open>C3: A packet from the TUN device of a client that is addressed to the VPN server itself, at its address and port and with the protocol of the connection, is never sent, whatever
  else is in it and whatever the options are (unless recursive routing is allowed), so that packets of the tunnel do not travel through the tunnel.
\<close>

theorem tun_never_loops:
  assumes "buf_live (c2_buf (tun_c st))" "to_tunnel_type to = DEV_TYPE_TUN" "to_point_to_point to" "\<not> to_allow_recursive_routing to"
    and "to_server (to_proto to) (c2_to_link_addr (tun_c st)) (buf_content (c2_buf (tun_c st)))"
  shows "\<exists>st'. process_incoming_tun lb now in_place to st = Some st' \<and> len (c2_to_link (tun_c st')) = 0 \<and> c2_tls_multi (tun_c st') = c2_tls_multi (tun_c st)"
  by (rule dropped_not_sent [OF assms])

definition packet_to_server :: "u8 \<Rightarrow> bytes" where
  "packet_to_server proto = [0x45, 0, 0, 28, 0, 1, 0, 0, 64, proto, 0, 0, 10, 0, 0, 1, 1, 0, 0, 0, 0x30, 0x39, 0, 0, 0, 8, 0, 0]"

lemma packet_to_server_simps:
  assumes "link_protocol p proto"
  shows "to_server p (Some toy_addr) (packet_to_server proto)"
  using assms by (simp add: to_server_def to_server4_def packet_to_server_def tun_version_def OPENVPN_IPH_GET_VER_def OPENVPN_IPH_GET_LEN_def toy_addr_def
      addr_at_def slice_def from_be_def htons_def be16_def sockaddr_zero_def)

theorem tun_never_loops_witness:
  "\<exists>st'. process_incoming_tun tunnel_lib 50 False tun_plain (tun_with (packet_to_server 17) (Some toy_addr)) = Some st' \<and> len (c2_to_link (tun_c st')) = 0"
proof -
  have "to_server PROTO_UDP (Some toy_addr) (packet_to_server 17)" by (rule packet_to_server_simps) (simp add: link_protocol_def OPENVPN_IPPROTO_UDP_def PROTO_UDP_def PROTO_TCP_def)
  then show ?thesis using tun_never_loops [of "tun_with (packet_to_server 17) (Some toy_addr)" tun_plain tunnel_lib 50 False]
    by (auto simp: tun_with_simps tun_plain_def packet_to_server_def)
qed



lemma block_flags:
  assumes "to_block_ipv6 to" "\<not> to_mssfix to"
  defines "f \<equiv> effective_flags to (PIPV4_PASSTOS OR PIP_MSSFIX OR PIPV4_CLIENT_NAT OR PIPV6_ICMP_NOHOST_CLIENT)"
  shows "f AND PIP_MSSFIX = 0" "f AND PIP_OUTGOING = 0" "f AND PIPV6_ICMP_NOHOST_CLIENT \<noteq> 0" "f AND (PIPV6_ICMP_NOHOST_CLIENT OR PIPV6_ICMP_NOHOST_SERVER) \<noteq> 0"
  using assms(1,2) unfolding f_def effective_flags_def flag_bits by (auto simp: Let_def)


definition ipv6_packet :: bytes where
  "ipv6_packet = [0x60, 0, 0, 0, 0, 2, 17, 64] @ replicate 15 0 @ [1] @ replicate 15 0 @ [2] @ [7, 8]"



section \<open>From device to device\<close>

text \<open>Options that leave packets as they are.\<close>

definition tun_quiet :: "tun_options \<Rightarrow> bool" where
  "tun_quiet to \<longleftrightarrow> to_tunnel_type to = DEV_TYPE_TUN \<and> \<not> to_mssfix to \<and> \<not> to_passtos to \<and> to_client_nat to = None \<and> \<not> to_route_gateway_via_dhcp to \<and> \<not> to_block_ipv6 to"

lemma quiet_flags:
  assumes "tun_quiet to" "flags = PIPV4_PASSTOS OR PIP_MSSFIX OR PIPV4_CLIENT_NAT OR PIPV6_ICMP_NOHOST_CLIENT
     \<or> flags = PIP_MSSFIX OR PIPV4_EXTRACT_DHCP_ROUTER OR PIPV4_CLIENT_NAT OR PIP_OUTGOING"
  defines "f \<equiv> effective_flags to flags"
  shows "f AND PIPV4_PASSTOS = 0" "f AND PIP_MSSFIX = 0" "f AND PIPV4_EXTRACT_DHCP_ROUTER = 0" "f AND (PIPV6_ICMP_NOHOST_CLIENT OR PIPV6_ICMP_NOHOST_SERVER) = 0"
  using assms(1,2) unfolding f_def effective_flags_def flag_bits tun_quiet_def by (auto simp: Let_def)

lemma quiet_header:
  assumes "tun_quiet to" "buf_live b"
    and "flags = PIPV4_PASSTOS OR PIP_MSSFIX OR PIPV4_CLIENT_NAT OR PIPV6_ICMP_NOHOST_CLIENT
     \<or> flags = PIP_MSSFIX OR PIPV4_EXTRACT_DHCP_ROUTER OR PIPV4_CLIENT_NAT OR PIP_OUTGOING"
  shows "process_ip_header to flags b st = Some (b, st)"
proof -
  note f = quiet_flags [OF assms(1,3)]
  have t: "to_tunnel_type to = DEV_TYPE_TUN" "to_client_nat to = None" using assms(1) by (simp_all add: tun_quiet_def)
  then have "process_ipv4 to (effective_flags to flags) b st = Some (b, st)" using f by (simp add: process_ipv4_def)
  then show ?thesis using t f is_ipv4_tun [OF assms(2)] is_ipv6_tun [OF assms(2)] by (simp add: process_ip_header_def Let_def)
qed

lemma quiet_incoming:
  assumes "tun_quiet to" "buf_live (c2_buf (tun_c st))" "0 < len (c2_buf (tun_c st))"
    and "\<not> to_server (to_proto to) (c2_to_link_addr (tun_c st)) (buf_content (c2_buf (tun_c st)))" "encrypt_sign lb now in_place (tun_c st) True = Some c"
  shows "process_incoming_tun lb now in_place to st = Some (st\<lparr>tun_read_bytes := tun_read_bytes st + word_of_int (len (c2_buf (tun_c st))), tun_c := c\<rparr>)"
proof -
  have t: "to_tunnel_type to = DEV_TYPE_TUN" using assms(1) by (simp add: tun_quiet_def)
  have "drop_if_recursive_routing to (c2_to_link_addr (tun_c st)) (c2_buf (tun_c st)) = Some (c2_buf (tun_c st))" using drop_spec [OF assms(2) t] assms(4) by simp
  then show ?thesis using assms(3,5) quiet_header [OF assms(1,2)] by (simp add: process_incoming_tun_def Let_def)
qed


definition tunnel_device :: tun_state where
  "tunnel_device = (tun_with [] None)\<lparr>tun_c := tunnel_end\<rparr>"


end
