(* ===== verification/Spec2Isabelle.thy ===== *)
theory Spec2Isabelle
  imports Schedule Stream_Run Tun_Safe
begin

text \<open>
  Verification library for the OpenVPN core of SwiftVPN.

  SwiftVPN is an Android VPN client. Its OpenVPN engine is written in C under
  \<^verbatim>\<open>src/openvpnengine/src/main/cpp/openvpn/src/openvpn\<close>; file names below are relative to that directory. This library models
  the protocol core of that engine: everything between the datagrams of the network and the datagrams of the tunnel device.

  \<^bold>\<open>The program.\<close> A tunnel is a \<^verbatim>\<open>struct tls_multi\<close> with three TLS sessions (active, untrusted, retired), each with a primary and
  a retiring key. Incoming packets are split by opcode (\<^verbatim>\<open>tls_pre_decrypt\<close>). Control packets pass the control channel
  protection (\<^verbatim>\<open>ssl_pkt.c\<close>, \<^verbatim>\<open>tls_crypt.c\<close>, \<^verbatim>\<open>crypto.c\<close>) and the reliability layer (\<^verbatim>\<open>reliable.c\<close>) and are handed in order to the TLS
  library; inside the TLS stream the peers exchange random material and options (\<^verbatim>\<open>key_method_2_write\<close>, \<^verbatim>\<open>key_method_2_read\<close>),
  from which data channel keys are derived. Data packets are decrypted with the key their header names, checked against the
  replay window (\<^verbatim>\<open>packet_id.c\<close>) and, with epoch keys, against the window of derived keys (\<^verbatim>\<open>crypto_epoch.c\<close>), and reassembled
  (\<^verbatim>\<open>fragment.c\<close>). Timers come from \<^verbatim>\<open>otime.c\<close>, \<^verbatim>\<open>interval.h\<close> and \<^verbatim>\<open>schedule.c\<close>.

  \<^bold>\<open>Conventions.\<close> Structures are records with the members of the code, machine integers of fixed width are words where the code relies on
  their width, otherwise \<open>int\<close>. The result type of a function that can fail an assertion, follow a null pointer or leave a buffer is
  an \<open>option\<close> with \<open>None\<close> for that event, so a theorem that a call equals \<open>Some\<close> of something also says that it runs without undefined behaviour
  of this kind. Error returns of the code are ordinary values. Cryptographic primitives, the TLS library, the clock, the random generator, scripts and
  plugins are parameters of the definitions; what is assumed of them stands in the theorems.

  \<^bold>\<open>Theories.\<close>
  \<^item> \<open>Prelude\<close>: named collections of facts, bytes and big-endian words, slices, and the monadic assertion \<open>c_assert\<close>.
  \<^item> \<open>Integer_Util\<close> (\<^verbatim>\<open>integer.h\<close>), \<open>Circ_List\<close> (\<^verbatim>\<open>circ_list.h\<close>), \<open>Buffer\<close> (\<^verbatim>\<open>buffer.h\<close>, \<^verbatim>\<open>buffer.c\<close>): helpers, ring buffers and packet buffers. The
    locale of a byte stream, interpreted on the packet buffer, carries the round trips of all wire formats above.
  \<^item> \<open>Packet_Id\<close> and \<open>Replay\<close> (\<^verbatim>\<open>packet_id.c\<close>, \<^verbatim>\<open>packet_id.h\<close>): counters, receive window, persistence; no id is accepted twice.
  \<^item> \<open>Crypto_Epoch\<close> (\<^verbatim>\<open>crypto_epoch.c\<close>) and \<open>Data_Channel\<close> (\<^verbatim>\<open>crypto.c\<close>, the AEAD part): the chain of epoch keys, the key window
    invariant, agreement of the peers; over whole runs nonces are never reused and no packet is accepted twice.
  \<^item> \<open>Crypto_V1\<close> (\<^verbatim>\<open>crypto.c\<close>, without AEAD), \<open>Tls_Crypt\<close> (\<^verbatim>\<open>tls_crypt.c\<close>), \<open>Ssl_Pkt\<close> (\<^verbatim>\<open>ssl_pkt.c\<close>): protection of packets, wrapped client keys, opcodes,
    the stateless handshake with HMAC session ids.
  \<^item> \<open>Reliable\<close> (\<^verbatim>\<open>reliable.c\<close>) and \<open>Control_Channel\<close> (the reliability part of \<^verbatim>\<open>tls_pre_decrypt\<close> and \<^verbatim>\<open>tls_process_state\<close>): acknowledgements, windows,
    retransmission, delivery in order and without deadlock.
  \<^item> \<open>Key_Exchange\<close> (\<^verbatim>\<open>ssl.c\<close>): key method 2 messages, the TLS 1.0 PRF, expansion; both ends derive matching keys.
  \<^item> \<open>Tls_Session\<close> (\<^verbatim>\<open>ssl.c\<close>, \<^verbatim>\<open>ssl_common.h\<close>): key states and sessions, \<^verbatim>\<open>tls_process_state\<close> as a list of blocks in the order of the code, the loop and the
    tail of \<^verbatim>\<open>tls_process\<close>. \<open>Tls_Handshake\<close> states contracts of blocks as a locale and interprets it twice: for a measure that shows
    that the loop ends, and for the automaton of the handshake that every run follows.
  \<^item> \<open>Tls_Multi\<close> (\<^verbatim>\<open>ssl.c\<close>, \<^verbatim>\<open>ssl_verify.c\<close>): the sessions of a tunnel: routing of packets, driving, failing, promoting and expiring sessions,
    deferred authentication, generation and choice of data channel keys. \<open>Tls_Multi_Inv\<close>: the invariant of the sessions under every operation, as a step
    relation with its reachable states. \<open>Tls_Data_Keys\<close>: which key sends and which key receives a data packet.
  \<^item> \<open>Otime\<close> (\<^verbatim>\<open>otime.c\<close>, \<^verbatim>\<open>otime.h\<close>, \<^verbatim>\<open>interval.h\<close>, \<^verbatim>\<open>interval.c\<close>, \<^verbatim>\<open>shaper.c\<close>), \<open>Schedule\<close> (\<^verbatim>\<open>schedule.c\<close>), \<open>Fragment\<close> (\<^verbatim>\<open>fragment.c\<close>): the filtered clock, the
    treap of wake-up times over an explicit store of nodes, which refines a map, and internal fragmentation.

  \<^item> \<open>Compression\<close> (\<^verbatim>\<open>comp.c\<close>, \<^verbatim>\<open>compstub.c\<close>, \<^verbatim>\<open>comp-lz4.c\<close>, \<^verbatim>\<open>lzo.c\<close>): the framings of compressed and uncompressed packets; the round trip, and the packets that the
    second framing loses.
  \<^item> \<open>Forward\<close> (\<^verbatim>\<open>forward.c\<close>, \<^verbatim>\<open>ping.c\<close>, \<^verbatim>\<open>occ.c\<close>, \<^verbatim>\<open>sig.c\<close>, the address checks of \<^verbatim>\<open>socket.h\<close>): the whole way of a packet from the tunnel to the link and back, in
    TLS mode. \<open>Tunnel\<close> composes the components: what one end sends the other end hands to its tunnel device, and nothing reaches the device without having been
    decrypted with an authenticated key.
  \<^item> \<open>Ip_Packets\<close> (\<^verbatim>\<open>proto.h\<close>, \<^verbatim>\<open>proto.c\<close>, \<^verbatim>\<open>mss.c\<close>, \<^verbatim>\<open>clinat.c\<close>): recognition of IP packets, checksums, MSS clamping, client NAT. \<open>Ip_Checksum\<close>: ones complement
    sums and the locale of a header view; \<open>Mss_Fixup\<close> and \<open>Client_Nat\<close>: what the two rewriting passes do to a packet and that its checksums stay valid. \<open>Dhcp\<close> (\<^verbatim>\<open>dhcp.c\<close>):
    removal of router options from DHCP replies.
  \<^item> \<open>Tun_Path\<close> (\<^verbatim>\<open>forward.c\<close>): between the tunnel device and the packet path. \<open>Tun_Safe\<close>: the headers of every packet are handled without leaving it, no packet to the
    server enters the tunnel, blocked IPv6 packets are answered, and a packet travels from the device of one end to the device of the other.
  \<^item> \<open>Stream_Buf\<close> (\<^verbatim>\<open>socket.c\<close>, \<^verbatim>\<open>ps.c\<close>): packets on a TCP connection. \<open>Stream_Run\<close>: the reader refines the splitting of the whole byte stream, and what is written is read.

  \<^bold>\<open>Bounds and fuel.\<close> Loops that are structural on the data are recursive functions. Fuel is used where the code loops on its
  state: \<open>iterate_send_until\<close> gets 65536 rounds, the number of 16-bit epochs; the early negotiation parser the length of its buffer, of which
  every round consumes a byte; the split of TLS ciphertext the number of entries of the send array, of which every round takes one; the loop of
  \<^verbatim>\<open>tls_process\<close> \<open>LOOP_FUEL\<close> = 64 rounds, more than the largest value of the measure that every continuing round decreases (proved). HKDF is
  used below its limit of 255 blocks. Control packet ids are assumed below \<open>2^31\<close> where the code's sequence test needs it (the theorem about its flaw shows why), and
  the scheduler theorem assumes fewer than \<open>2^31 - 1\<close> entries and a random generator that eventually returns unused priorities.

  \<^bold>\<open>Findings.\<close> Some theorems document where the code does not do what it means to do: the carry of \<^verbatim>\<open>tv_add\<close>, the check of spurious
  fragment flags, the sequence test near the wrap-around of ids, the replay window after reloading a persisted id, missing strings in a key exchange message, the guard
  against freed buffers when a session is promoted, the escape byte of the second compression framing, LZO framing of dropped packets, MSS options at odd distances, client
  NAT on fragments, the 16-bit length in front of a packet on TCP, and the protocol test for packets to the server itself.

  \<^bold>\<open>Not modelled.\<close> System calls and their glue (sockets, the tunnel driver, routes, DNS, management interface, scripts, plugins, logging), option parsing, the server
  loops of \<^verbatim>\<open>multi.c\<close>, certificate checks and the adapters of the cryptographic, compression and TLS libraries (parameters here), static key mode of the packet
  path, kernel offload, the OpenVPN 3, WireGuard and IKEv2 engines that are vendored or built from submodules, and the Kotlin application.
  Memory arenas, debug printing and \<^verbatim>\<open>GREMLIN\<close> fault injection have no effect on the modelled state and are left out.
\<close>

end
